(* ===== verification/Rcsw_Prelude.thy ===== *)
theory Rcsw_Prelude
  imports Main "HOL-Library.Word" "HOL-Library.Monad_Syntax" "HOL-Library.Multiset"
begin

text \<open>
  Shared vocabulary of the development: machine words, the library's return codes, its
  flag words, checked memory accesses, the circular scan two components share, and the
  contract of comparison callbacks.

  Conventions. A function that takes a handle takes the struct itself, so the
  \<open>handle != NULL\<close> precondition holds by typing; a data pointer, a callback or a
  parameter block that the code compares with \<open>NULL\<close> is an \<open>option\<close>. Function
  preconditions (\<open>RCSW_FPC_NV\<close> and \<open>RCSW_FPC_V\<close>) are modelled in the default build,
  where a failed one sets \<open>errno\<close> to \<open>EINVAL\<close> and returns the error value. A memory
  access out of the bounds of its block is undefined behaviour in C: the checked accesses
  \<open>rd\<close> and \<open>wr\<close> return \<open>None\<close> there, and so does every definition that reaches one,
  so a theorem that an operation returns \<open>Some\<close> includes that it stays in bounds.
\<close>

unbundle bit_operations_syntax

named_theorems flag_defs
named_theorems mem_simps

subsection \<open>Words and return codes\<close>

type_synonym u8 = "8 word"
type_synonym u16 = "16 word"
type_synonym u32 = "32 word"

text \<open>
  \<open>status_t\<close> is \<open>OK\<close> or \<open>ERROR\<close>; the error carries the value the failing path leaves
  in \<open>errno\<close>, \<open>None\<close> when the path does not set it.
\<close>

datatype errno = EINVAL | ENOSPC | EAGAIN | ENOMEM

datatype status = OK | ERROR "errno option"

definition fpc_error :: status where
  "fpc_error = ERROR (Some EINVAL)"

datatype exec_type = EXEC_REC | EXEC_ITER

subsection \<open>Flag words\<close>

definition RCSW_NONE :: u32 where [flag_defs]: "RCSW_NONE = 0"
definition RCSW_NOALLOC_HANDLE :: u32 where [flag_defs]: "RCSW_NOALLOC_HANDLE = 0x1"
definition RCSW_NOALLOC_DATA :: u32 where [flag_defs]: "RCSW_NOALLOC_DATA = 0x2"
definition RCSW_NOALLOC_META :: u32 where [flag_defs]: "RCSW_NOALLOC_META = 0x4"
definition RCSW_ZALLOC :: u32 where [flag_defs]: "RCSW_ZALLOC = 0x8"

definition RCSW_DS_SORTED :: u32 where [flag_defs]: "RCSW_DS_SORTED = 0x10"
definition RCSW_DS_ORDERED :: u32 where [flag_defs]: "RCSW_DS_ORDERED = 0x20"
definition RCSW_DS_HASHMAP_LINPROB :: u32 where
  [flag_defs]: "RCSW_DS_HASHMAP_LINPROB = 0x40"
definition RCSW_DS_RBUFFER_AS_FIFO :: u32 where
  [flag_defs]: "RCSW_DS_RBUFFER_AS_FIFO = 0x80"
definition RCSW_DS_LLIST_DB_DISOWN :: u32 where
  [flag_defs]: "RCSW_DS_LLIST_DB_DISOWN = 0x100"
definition RCSW_DS_LLIST_DB_PTR :: u32 where
  [flag_defs]: "RCSW_DS_LLIST_DB_PTR = 0x200"
definition RCSW_DS_BINHEAP_MIN :: u32 where
  [flag_defs]: "RCSW_DS_BINHEAP_MIN = 0x2000"

definition has_flag :: "u32 \<Rightarrow> u32 \<Rightarrow> bool" where
  "has_flag flags f \<longleftrightarrow> flags AND f \<noteq> 0"

lemma has_flag_or [simp]:
  "has_flag (a OR b) f \<longleftrightarrow> has_flag a f \<or> has_flag b f"
  by (simp add: has_flag_def bit.conj_disj_distrib2 or_eq_0_iff)

lemma has_flag_none [simp]: "\<not> has_flag 0 f"
  by (simp add: has_flag_def)

subsection \<open>Integer conversions\<close>

text \<open>The conversion of an \<open>int\<close> to \<open>size_t\<close>.\<close>

definition size_of_int :: "int \<Rightarrow> nat" where
  "size_of_int n = nat (n mod 2 ^ 64)"

lemma size_of_int_nat [simp]: "n < 2 ^ 64 \<Longrightarrow> size_of_int (int n) = n"
  by (simp add: size_of_int_def)

text \<open>The conversion of a \<open>size_t\<close> to \<open>int\<close>.\<close>

definition int_of_size :: "nat \<Rightarrow> int" where
  "int_of_size n = (int n + 2 ^ 31) mod 2 ^ 32 - 2 ^ 31"

lemma int_of_size_small [simp]: "n < 2 ^ 31 \<Longrightarrow> int_of_size n = int n"
  by (simp add: int_of_size_def)

text \<open>The result of an \<open>int\<close> operation, \<open>None\<close> when it overflows.\<close>

definition int32 :: "int \<Rightarrow> int option" where
  "int32 x = (if - (2 ^ 31) \<le> x \<and> x < 2 ^ 31 then Some x else None)"

text \<open>\<open>n - 1\<close> on \<open>size_t\<close>, which wraps at 0.\<close>

definition size_pred :: "nat \<Rightarrow> nat" where
  "size_pred n = (n + 2 ^ 64 - 1) mod 2 ^ 64"

lemma size_pred_Suc: "Suc n < 2 ^ 31 \<Longrightarrow> size_pred (Suc n) = n"
  by (simp add: size_pred_def)

text \<open>\<open>(int)(n - 1)\<close> for a \<open>size_t\<close> \<open>n\<close>, which wraps to -1 at 0.\<close>

definition int_pred_of_size :: "nat \<Rightarrow> int" where
  "int_pred_of_size n = int_of_size (size_pred n)"

lemma int_pred_of_size_small [simp]:
  assumes "n < 2 ^ 31"
  shows "int_pred_of_size n = int n - 1"
proof (cases n)
  case 0
  then show ?thesis by (simp add: int_pred_of_size_def int_of_size_def size_pred_def)
next
  case (Suc m)
  then have "size_pred n = m" using assms size_pred_Suc by blast
  then show ?thesis using Suc assms by (simp add: int_pred_of_size_def)
qed

subsection \<open>Checked accesses to a block of elements\<close>

definition rd :: "'a list \<Rightarrow> int \<Rightarrow> 'a option" where
  "rd a i = (if 0 \<le> i \<and> i < int (length a) then Some (a ! nat i) else None)"

definition wr :: "'a list \<Rightarrow> int \<Rightarrow> 'a \<Rightarrow> 'a list option" where
  "wr a i x = (if 0 \<le> i \<and> i < int (length a) then Some (a[nat i := x]) else None)"

lemma rd_Some [mem_simps]:
  "0 \<le> i \<Longrightarrow> i < int (length a) \<Longrightarrow> rd a i = Some (a ! nat i)"
  by (simp add: rd_def)

lemma wr_Some [mem_simps]:
  "0 \<le> i \<Longrightarrow> i < int (length a) \<Longrightarrow> wr a i x = Some (a[nat i := x])"
  by (simp add: wr_def)

lemma rd_nat [simp]: "i < length a \<Longrightarrow> rd a (int i) = Some (a ! i)"
  by (simp add: rd_def)

lemma wr_nat [simp]: "i < length a \<Longrightarrow> wr a (int i) x = Some (a[i := x])"
  by (simp add: wr_def)

lemma rd_eq_Some: "rd a i = Some x \<longleftrightarrow> 0 \<le> i \<and> i < int (length a) \<and> x = a ! nat i"
  by (auto simp: rd_def)

lemma wr_eq_Some:
  "wr a i x = Some b \<longleftrightarrow> 0 \<le> i \<and> i < int (length a) \<and> b = a[nat i := x]"
  by (auto simp: wr_def)

text \<open>Exchanging two slots permutes the block.\<close>

definition swp :: "'a list \<Rightarrow> nat \<Rightarrow> nat \<Rightarrow> 'a list" where
  "swp a i j = a[i := a ! j, j := a ! i]"

lemma length_swp [simp]: "length (swp a i j) = length a"
  by (simp add: swp_def)

lemma mset_swp [simp]:
  "i < length a \<Longrightarrow> j < length a \<Longrightarrow> mset (swp a i j) = mset a"
  by (simp add: swp_def mset_swap)

lemma nth_swp:
  "i < length a \<Longrightarrow> j < length a \<Longrightarrow> k < length a \<Longrightarrow>
   swp a i j ! k = (if k = j then a ! i else if k = i then a ! j else a ! k)"
  by (auto simp: swp_def nth_list_update)

subsection \<open>Counted loops\<close>

text \<open>
  \<open>for (i = lo; i < hi; ++i) body\<close> over an explicit state; a fault of the body ends the
  loop. The rule \<open>for_range_inv\<close> is total: it proves that the loop returns and that the
  invariant holds at the end.
\<close>

function for_range :: "nat \<Rightarrow> nat \<Rightarrow> (nat \<Rightarrow> 's \<Rightarrow> 's option) \<Rightarrow> 's \<Rightarrow> 's option" where
  "for_range i n body s =
     (if i < n then (case body i s of None \<Rightarrow> None | Some t \<Rightarrow> for_range (Suc i) n body t)
      else Some s)"
  by pat_completeness auto
termination by (relation "measure (\<lambda>(i, n, body, s). n - i)") auto

declare for_range.simps [simp del]

lemma for_range_done [simp]: "n \<le> i \<Longrightarrow> for_range i n body s = Some s"
  by (simp add: for_range.simps)

lemma for_range_step [simp]:
  "i < n \<Longrightarrow> for_range i n body s =
     (case body i s of None \<Rightarrow> None | Some t \<Rightarrow> for_range (Suc i) n body t)"
  by (simp add: for_range.simps)

declare for_range_step [simp del]

lemma for_range_inv:
  assumes "i \<le> n" and "P i s"
    and "\<And>k t. i \<le> k \<Longrightarrow> k < n \<Longrightarrow> P k t \<Longrightarrow> \<exists>t'. body k t = Some t' \<and> P (Suc k) t'"
  shows "\<exists>t. for_range i n body s = Some t \<and> P n t"
  using assms
proof (induction "n - i" arbitrary: i s)
  case 0
  then show ?case by simp
next
  case (Suc d)
  then have lt: "i < n" by simp
  then obtain t where t: "body i s = Some t" "P (Suc i) t"
    using Suc.prems by blast
  have "\<exists>u. for_range (Suc i) n body t = Some u \<and> P n u"
    using Suc.hyps Suc.prems(3) t(2) lt by (intro Suc.hyps(1)) auto
  then show ?case using t lt by (simp add: for_range_step)
qed

text \<open>A loop whose body never faults is a fold over the index range.\<close>

lemma for_range_fold:
  assumes "i \<le> n" and "\<And>k t. i \<le> k \<Longrightarrow> k < n \<Longrightarrow> body k t = Some (f k t)"
  shows "for_range i n body s = Some (fold f [i..<n] s)"
  using assms
proof (induction "n - i" arbitrary: i s)
  case 0
  then show ?case by simp
next
  case (Suc d)
  then have "i < n" by simp
  with Suc show ?case by (simp add: for_range_step upt_conv_Cons)
qed

text \<open>A loop up to \<open>n\<close> is the loop up to \<open>k\<close> and then the rest.\<close>

lemma for_range_split:
  assumes "i \<le> k" and "k \<le> n"
  shows "for_range i n body s =
    (case for_range i k body s of None \<Rightarrow> None | Some t \<Rightarrow> for_range k n body t)"
  using assms
proof (induction "k - i" arbitrary: i s)
  case 0
  then show ?case by simp
next
  case (Suc d)
  then have "i < k" "i < n" by auto
  then show ?case using Suc by (simp add: for_range_step split: option.splits)
qed

text \<open>The last iteration of a loop that returned, and what every iteration preserves.\<close>

lemma for_range_last:
  assumes "for_range 0 (Suc n) body s = Some t"
  shows "\<exists>u. for_range 0 n body s = Some u \<and> body n u = Some t"
  using assms for_range_split [of 0 n "Suc n" body s]
  by (auto simp: for_range_step split: option.splits)

lemma for_range_preserves:
  assumes "for_range i n body s = Some t" and "P s"
    and "\<And>k u u'. body k u = Some u' \<Longrightarrow> P u \<Longrightarrow> P u'"
  shows "P t"
  using assms(1,2)
proof (induction "n - i" arbitrary: i s)
  case 0
  then show ?case by simp
next
  case (Suc d)
  then have "i < n" and d: "d = n - Suc i" by auto
  then obtain u where u: "body i s = Some u" "for_range (Suc i) n body u = Some t"
    using Suc.prems(1) by (auto simp: for_range_step split: option.splits)
  show ?case using Suc.hyps(1) [OF d u(2)] assms(3) [OF u(1) Suc.prems(2)] .
qed

text \<open>Reading the first \<open>n\<close> slots in order, and rewriting each of them.\<close>

lemma for_range_foldl:
  assumes "n \<le> length xs"
  shows "for_range 0 n (\<lambda>i s. map_option (f s) (rd xs (int i))) s = Some (foldl f s (take n xs))"
proof -
  let ?P = "\<lambda>k t. t = foldl f s (take k xs)"
  have "\<exists>t. for_range 0 n (\<lambda>i s. map_option (f s) (rd xs (int i))) s = Some t \<and> ?P n t"
    by (rule for_range_inv [where P = ?P]) (use assms in \<open>auto simp: take_Suc_conv_app_nth\<close>)
  then show ?thesis by simp
qed

lemma for_range_map:
  assumes "n \<le> length xs"
  shows "for_range 0 n (\<lambda>i b. do { w \<leftarrow> rd b (int i); wr b (int i) (f w) }) xs =
    Some (map f (take n xs) @ drop n xs)"
proof -
  let ?P = "\<lambda>k b. b = map f (take k xs) @ drop k xs"
  have "\<exists>t. for_range 0 n (\<lambda>i b. do { w \<leftarrow> rd b (int i); wr b (int i) (f w) }) xs = Some t \<and> ?P n t"
  proof (rule for_range_inv [where P = ?P])
    fix k b assume k: "k < n" and b: "?P k b"
    have d: "drop k xs = xs ! k # drop (Suc k) xs" using k assms by (simp add: Cons_nth_drop_Suc)
    have "(map f (take k xs) @ drop k xs)[k := f (xs ! k)] = map f (take (Suc k) xs) @ drop (Suc k) xs"
      using k assms by (simp add: d list_update_append take_Suc_conv_app_nth)
    then show "\<exists>t'. (do { w \<leftarrow> rd b (int k); wr b (int k) (f w) }) = Some t' \<and> ?P (Suc k) t'"
      using k assms b by (simp add: nth_append)
  qed (use assms in auto)
  then show ?thesis by simp
qed

subsection \<open>Loops with a condition\<close>

text \<open>
  \<open>while (cond) body\<close> over an explicit state. The condition and the body may fault; a loop
  that does not end is \<open>None\<close> as well. The rules prove that the loop returns, from a
  measure that every round decreases; \<open>while_loop_ghost\<close> measures a value the invariant ties
  to the state, such as the list a chain of nodes stands for.
\<close>

partial_function (option) while_loop ::
  "('s \<Rightarrow> bool option) \<Rightarrow> ('s \<Rightarrow> 's option) \<Rightarrow> 's \<Rightarrow> 's option" where
  "while_loop cond body s =
     (case cond s of
        None \<Rightarrow> None
      | Some b \<Rightarrow>
          if b then (case body s of None \<Rightarrow> None | Some t \<Rightarrow> while_loop cond body t)
          else Some s)"

lemma while_loop_ghost:
  fixes m :: "'g \<Rightarrow> nat"
  assumes "P g s"
    and "\<And>g s. P g s \<Longrightarrow> cond s = Some False \<or>
           cond s = Some True \<and> (\<exists>g' t. body s = Some t \<and> P g' t \<and> m g' < m g)"
  shows "\<exists>g t. while_loop cond body s = Some t \<and> P g t \<and> cond t = Some False"
  using assms(1)
proof (induction "m g" arbitrary: g s rule: less_induct)
  case less
  show ?case
  proof (cases "cond s = Some False")
    case True
    then show ?thesis using less.prems by (subst while_loop.simps) auto
  next
    case False
    then obtain g' t where t: "cond s = Some True" "body s = Some t" "P g' t" "m g' < m g"
      using assms(2) [OF less.prems] by auto
    show ?thesis using less.hyps [OF t(4,3)] t(1,2) by (subst while_loop.simps) simp
  qed
qed

lemma while_loop_total:
  fixes m :: "'s \<Rightarrow> nat"
  assumes "P s"
    and "\<And>s. P s \<Longrightarrow> cond s = Some False \<or>
           cond s = Some True \<and> (\<exists>t. body s = Some t \<and> P t \<and> m t < m s)"
  shows "\<exists>t. while_loop cond body s = Some t \<and> P t \<and> cond t = Some False"
  using while_loop_ghost [where P = "\<lambda>g s. g = s \<and> P s" and m = m and g = s, of s cond body] assms
  by blast

subsection \<open>The circular scan\<close>

text \<open>
  \<open>allocm_probe\<close> and \<open>rbuffer_index_query\<close> run the same loop: from index \<open>start\<close> upward,
  wrapping to 0 once after index \<open>n - 1\<close>, until \<open>start\<close> is reached again. The loop need not
  end when \<open>start\<close> is outside the block, so it is a partial function: \<open>None\<close> is
  \<open>faults or does not return\<close>, \<open>Some None\<close> is \<open>no hit\<close>.
\<close>

partial_function (option) circ_scan ::
  "(nat \<Rightarrow> bool option) \<Rightarrow> nat \<Rightarrow> nat \<Rightarrow> bool \<Rightarrow> nat \<Rightarrow> nat option option" where
  "circ_scan hit n start wrap i =
     (if \<not> wrap \<or> i \<noteq> start then
        (case hit i of
           None \<Rightarrow> None
         | Some h \<Rightarrow>
             if h then Some (Some i)
             else if i + 1 = n then circ_scan hit n start True 0
             else circ_scan hit n start wrap (i + 1))
      else Some None)"

lemma circ_scan_wrapped:
  assumes "i \<le> start" and "start < n" and hit: "\<And>k. k < n \<Longrightarrow> hit k = Some (P k)"
  shows "circ_scan hit n start True i = Some (find P [i..<start])"
  using assms(1)
proof (induction "start - i" arbitrary: i)
  case 0
  then show ?case by (simp add: circ_scan.simps)
next
  case (Suc k)
  then have lt: "i < start" by simp
  then have "[i..<start] = i # [Suc i..<start]" by (rule upt_conv_Cons)
  with Suc lt assms(2) hit show ?case by (auto simp: circ_scan.simps [of hit n start True i])
qed

lemma circ_scan_unwrapped:
  assumes "i < n" and "start < n" and hit: "\<And>k. k < n \<Longrightarrow> hit k = Some (P k)"
  shows "circ_scan hit n start False i = Some (find P ([i..<n] @ [0..<start]))"
  using assms(1)
proof (induction "n - i" arbitrary: i)
  case 0
  then show ?case by simp
next
  case (Suc k)
  have "[i..<n] = i # [Suc i..<n]" using Suc.prems by (simp add: upt_conv_Cons)
  with Suc assms(2) hit circ_scan_wrapped [of 0 start n hit P] show ?case
    by (cases "Suc i = n") (auto simp: circ_scan.simps [of hit n start False i])
qed

lemma circ_scan_find:
  assumes "start < n" and "\<And>k. k < n \<Longrightarrow> hit k = Some (P k)"
  shows "circ_scan hit n start False start = Some (find P ([start..<n] @ [0..<start]))"
  using assms by (intro circ_scan_unwrapped)

lemma set_rotation: "start < n \<Longrightarrow> set ([start..<n] @ [0..<start]) = {0..<n}"
  by auto

lemma find_SomeD: "find P xs = Some x \<Longrightarrow> x \<in> set xs \<and> P x"
  by (induction xs) (auto split: if_splits)

subsection \<open>Comparison callbacks\<close>

text \<open>
  Every container takes a callback \<open>cmpe\<close> that returns a negative, zero or positive
  number. The sorts and searches rely on it being a total preorder: this locale is that
  contract, and the lemmas about sorted blocks are proved inside it.
\<close>

definition sorted_cmp :: "('a \<Rightarrow> 'a \<Rightarrow> int) \<Rightarrow> 'a list \<Rightarrow> bool" where
  "sorted_cmp cmpe xs \<longleftrightarrow> sorted_wrt (\<lambda>x y. cmpe x y \<le> 0) xs"

locale cmp_order =
  fixes cmpe :: "'a \<Rightarrow> 'a \<Rightarrow> int"
  assumes cmp_swap: "cmpe x y \<le> 0 \<longleftrightarrow> 0 \<le> cmpe y x"
    and cmp_trans: "cmpe x y \<le> 0 \<Longrightarrow> cmpe y z \<le> 0 \<Longrightarrow> cmpe x z \<le> 0"
begin

lemma cmp_refl [simp]: "cmpe x x = 0"
  using cmp_swap [of x x] by linarith

lemma cmp_total: "cmpe x y \<le> 0 \<or> cmpe y x \<le> 0"
  using cmp_swap [of x y] cmp_swap [of y x] by linarith

lemma cmp_less: "cmpe x y < 0 \<longleftrightarrow> 0 < cmpe y x"
  using cmp_swap [of y x] by linarith

lemma cmp_zero: "cmpe x y = 0 \<longleftrightarrow> cmpe y x = 0"
  using cmp_swap [of x y] cmp_swap [of y x] by linarith

lemma cmp_gt_le: "0 < cmpe x y \<Longrightarrow> cmpe y x \<le> 0"
  using cmp_less [of y x] by linarith

lemma cmp_less_trans: "cmpe x y < 0 \<Longrightarrow> cmpe y z \<le> 0 \<Longrightarrow> cmpe x z < 0"
  by (meson cmp_less cmp_swap cmp_trans linorder_not_less)

lemma cmp_le_less_trans: "cmpe x y \<le> 0 \<Longrightarrow> cmpe y z < 0 \<Longrightarrow> cmpe x z < 0"
  by (meson cmp_less cmp_swap cmp_trans linorder_not_less)

lemma cmp_zero_le: "cmpe x y = 0 \<Longrightarrow> cmpe x z \<le> 0 \<longleftrightarrow> cmpe y z \<le> 0"
  by (metis cmp_trans cmp_zero order_refl)

lemma sorted_cmp_nth:
  "sorted_cmp cmpe xs \<longleftrightarrow> (\<forall>i j. i \<le> j \<longrightarrow> j < length xs \<longrightarrow> cmpe (xs ! i) (xs ! j) \<le> 0)"
  unfolding sorted_cmp_def sorted_wrt_iff_nth_less
  by (auto simp: le_less)

lemma sorted_cmp_append:
  "sorted_cmp cmpe (xs @ ys) \<longleftrightarrow>
     sorted_cmp cmpe xs \<and> sorted_cmp cmpe ys \<and> (\<forall>x \<in> set xs. \<forall>y \<in> set ys. cmpe x y \<le> 0)"
  by (auto simp: sorted_cmp_def sorted_wrt_append)

lemma sorted_cmp_Cons:
  "sorted_cmp cmpe (x # xs) \<longleftrightarrow> (\<forall>y \<in> set xs. cmpe x y \<le> 0) \<and> sorted_cmp cmpe xs"
  by (auto simp: sorted_cmp_def)

end

lemma sorted_cmp_Nil [simp]: "sorted_cmp cmpe []"
  by (simp add: sorted_cmp_def)

lemma sorted_cmp_single [simp]: "sorted_cmp cmpe [x]"
  by (simp add: sorted_cmp_def)

end
