(* ===== verification/Alloc.thy ===== *)
theory Alloc
  imports Rcsw_Prelude
begin

text \<open>
  Memory allocation: \<open>rcsw_alloc\<close> and \<open>rcsw_free\<close> (src/common/alloc.c) and the allocation
  maps of application-provided memory (src/ds/allocm.c, include/rcsw/ds/allocm.h).
  \<open>malloc\<close> is a parameter: \<open>fresh\<close> is the block it returned (its contents arbitrary),
  \<open>None\<close> a failure.
\<close>

subsection \<open>The allocation entry point\<close>

definition noalloc :: "u32 \<Rightarrow> bool" where
  "noalloc flags \<longleftrightarrow> has_flag flags RCSW_NOALLOC_HANDLE \<or>
     has_flag flags RCSW_NOALLOC_DATA \<or> has_flag flags RCSW_NOALLOC_META"

text \<open>
  \<open>RCSW_ZALLOC\<close> clears the block \<open>malloc\<close> returned without testing it, which faults when
  \<open>malloc\<close> failed; \<open>zero\<close> is \<open>memset(ret, 0, n_bytes)\<close>.
\<close>

definition rcsw_alloc ::
  "('m \<Rightarrow> 'm) \<Rightarrow> 'm option \<Rightarrow> 'm option \<Rightarrow> u32 \<Rightarrow> 'm option option" where
  "rcsw_alloc zero ptr fresh flags =
     (if noalloc flags then Some ptr
      else if has_flag flags RCSW_ZALLOC then
        (case fresh of None \<Rightarrow> None | Some m \<Rightarrow> Some (Some (zero m)))
      else Some fresh)"

text \<open>Whether \<open>rcsw_free\<close> hands the block to \<open>free\<close>.\<close>

definition rcsw_free :: "'m option \<Rightarrow> u32 \<Rightarrow> bool" where
  "rcsw_free ptr flags = (case ptr of None \<Rightarrow> False | Some _ \<Rightarrow> \<not> noalloc flags)"

lemma noalloc_mask:
  "noalloc (f AND RCSW_NOALLOC_HANDLE) = has_flag f RCSW_NOALLOC_HANDLE"
  "noalloc (f AND RCSW_NOALLOC_DATA) = has_flag f RCSW_NOALLOC_DATA"
  "noalloc (f AND RCSW_NOALLOC_META) = has_flag f RCSW_NOALLOC_META"
  by (simp_all add: noalloc_def has_flag_def flag_defs and.assoc)

lemma zalloc_mask:
  "\<not> has_flag (f AND RCSW_NOALLOC_HANDLE) RCSW_ZALLOC"
  "\<not> has_flag (f AND RCSW_NOALLOC_DATA) RCSW_ZALLOC"
  "\<not> has_flag (f AND RCSW_NOALLOC_META) RCSW_ZALLOC"
  by (simp_all add: has_flag_def flag_defs and.assoc)

text \<open>The components mask their flags before the call, so no call of theirs can fault.\<close>

lemma rcsw_alloc_mask:
  "rcsw_alloc z p fresh (f AND RCSW_NOALLOC_HANDLE) =
     Some (if has_flag f RCSW_NOALLOC_HANDLE then p else fresh)"
  "rcsw_alloc z p fresh (f AND RCSW_NOALLOC_DATA) =
     Some (if has_flag f RCSW_NOALLOC_DATA then p else fresh)"
  "rcsw_alloc z p fresh (f AND RCSW_NOALLOC_META) =
     Some (if has_flag f RCSW_NOALLOC_META then p else fresh)"
  by (simp_all add: rcsw_alloc_def noalloc_mask zalloc_mask)

subsection \<open>Allocation maps\<close>

text \<open>An entry is -1 when its block is available and 0 when it is in use.\<close>

type_synonym allocm = "int list"

definition allocm_mark_free :: "allocm \<Rightarrow> int \<Rightarrow> allocm option" where
  "allocm_mark_free m i = wr m i (-1)"

definition allocm_mark_inuse :: "allocm \<Rightarrow> int \<Rightarrow> allocm option" where
  "allocm_mark_inuse m i = wr m i 0"

definition allocm_init :: "allocm \<Rightarrow> nat \<Rightarrow> allocm option" where
  "allocm_init m max_elts = for_range 0 max_elts (\<lambda>i m. allocm_mark_free m (int i)) m"

definition allocm_probe :: "allocm \<Rightarrow> nat \<Rightarrow> nat \<Rightarrow> int option" where
  "allocm_probe m max_elts index =
     (case circ_scan (\<lambda>i. map_option (\<lambda>v. v = -1) (rd m (int i))) max_elts index False index of
        None \<Rightarrow> None
      | Some None \<Rightarrow> Some (-1)
      | Some (Some i) \<Rightarrow> Some (int_of_size i))"

definition allocm_free :: "allocm \<Rightarrow> nat set" where
  "allocm_free m = {i. i < length m \<and> m ! i = -1}"

lemma finite_allocm_free [simp]: "finite (allocm_free m)"
  by (simp add: allocm_free_def)

lemma allocm_probe_find:
  assumes "length m = n" and "index < n"
  shows "allocm_probe m n index =
     Some (case find (\<lambda>i. m ! i = -1) ([index..<n] @ [0..<index]) of
             None \<Rightarrow> -1 | Some i \<Rightarrow> int_of_size i)"
proof -
  have "circ_scan (\<lambda>i. map_option (\<lambda>v. v = -1) (rd m (int i))) n index False index =
        Some (find (\<lambda>i. m ! i = -1) ([index..<n] @ [0..<index]))"
    using assms by (intro circ_scan_find) auto
  then show ?thesis by (simp add: allocm_probe_def split: option.splits)
qed

lemma allocm_probe_cases:
  assumes "length m = n" and "index < n" and "n < 2 ^ 31"
  shows "(allocm_probe m n index = Some (-1) \<and> allocm_free m = {}) \<or>
         (\<exists>i. allocm_probe m n index = Some (int i) \<and> i \<in> allocm_free m)"
proof (cases "find (\<lambda>i. m ! i = -1) ([index..<n] @ [0..<index])")
  case None
  then have "\<forall>i \<in> {0..<n}. m ! i \<noteq> -1"
    using assms set_rotation [of index n] by (auto simp: find_None_iff)
  with None assms show ?thesis by (auto simp: allocm_probe_find allocm_free_def)
next
  case (Some i)
  then have "i < n" "m ! i = -1"
    using assms set_rotation [of index n] by (auto dest: find_SomeD)
  then have "int_of_size i = int i" using assms(3) by simp
  with Some \<open>i < n\<close> \<open>m ! i = -1\<close> assms show ?thesis by (auto simp: allocm_probe_find allocm_free_def)
qed

lemma allocm_mark_inuse_free:
  assumes "i \<in> allocm_free m"
  shows "\<exists>m'. allocm_mark_inuse m (int i) = Some m' \<and> length m' = length m \<and>
     allocm_free m' = allocm_free m - {i}"
  using assms by (auto simp: allocm_mark_inuse_def allocm_free_def nth_list_update)

lemma allocm_mark_free_free:
  assumes "i < length m"
  shows "\<exists>m'. allocm_mark_free m (int i) = Some m' \<and> length m' = length m \<and>
     allocm_free m' = insert i (allocm_free m)"
  using assms by (auto simp: allocm_mark_free_def allocm_free_def nth_list_update)

lemma allocm_init_all_free:
  assumes "n \<le> length m"
  shows "\<exists>m'. allocm_init m n = Some m' \<and> length m' = length m \<and> (\<forall>i < n. m' ! i = -1)"
proof -
  let ?P = "\<lambda>k m'. length m' = length m \<and> (\<forall>i < k. m' ! i = -1)"
  have "\<exists>m'. for_range 0 n (\<lambda>i m. allocm_mark_free m (int i)) m = Some m' \<and> ?P n m'"
    by (rule for_range_inv)
      (use assms in \<open>auto simp: allocm_mark_free_def nth_list_update less_Suc_eq\<close>)
  then show ?thesis by (simp add: allocm_init_def)
qed

text \<open>
  C32: an allocation from a map of \<open>n\<close> entries, fewer than \<open>2 ^ 31\<close> so that the \<open>int\<close> the probe
  returns is an index (probe from any index below \<open>n\<close>, then mark the entry found), never faults and always returns; it fails, with -1, exactly when no
  entry is free, and otherwise it takes one free entry and leaves every other one as it was.
\<close>

theorem allocm_alloc_spec:
  assumes "length m = n" and "index < n" and "n < 2 ^ 31"
  shows "(allocm_free m = {} \<longrightarrow> allocm_probe m n index = Some (-1)) \<and>
    (allocm_free m \<noteq> {} \<longrightarrow>
      (\<exists>i m'. allocm_probe m n index = Some (int i) \<and> i \<in> allocm_free m \<and>
         allocm_mark_inuse m (int i) = Some m' \<and>
         allocm_free m' = allocm_free m - {i} \<and>
         card (allocm_free m') + 1 = card (allocm_free m)))"
proof -
  consider "allocm_probe m n index = Some (-1)" "allocm_free m = {}"
    | i where "allocm_probe m n index = Some (int i)" "i \<in> allocm_free m"
    using allocm_probe_cases [OF assms] by blast
  then show ?thesis
  proof cases
    case 2
    moreover obtain m' where "allocm_mark_inuse m (int i) = Some m'"
      "allocm_free m' = allocm_free m - {i}"
      using allocm_mark_inuse_free [OF 2(2)] by blast
    moreover have "card (allocm_free m - {i}) + 1 = card (allocm_free m)"
      using card.remove [OF finite_allocm_free 2(2)] by simp
    ultimately show ?thesis by auto
  qed simp
qed

theorem allocm_alloc_spec_witness:
  "\<exists>i m'. allocm_probe [0, -1, 0] 3 2 = Some (int i) \<and> i \<in> allocm_free [0, -1, 0] \<and>
     allocm_mark_inuse [0, -1, 0] (int i) = Some m' \<and>
     allocm_free m' = allocm_free [0, -1, 0] - {i} \<and>
     card (allocm_free m') + 1 = card (allocm_free [0, -1, 0])"
proof -
  have "(1::nat) \<in> allocm_free [0, -1, 0]" by (simp add: allocm_free_def)
  then have "allocm_free [0, -1, 0] \<noteq> {}" by blast
  with allocm_alloc_spec [of "[0, -1, 0]" 3 2] show ?thesis by simp
qed

end
