(* ===== verification/Rbuffer.thy ===== *)
theory Rbuffer
  imports Alloc
begin

text \<open>
  The ring buffer (src/ds/rbuffer.c, include/rcsw/ds/rbuffer.h): a block of \<open>max_elts\<close>
  slots, the index of the oldest element and the number of elements. The abstraction
  \<open>rb_content\<close> is the list of elements from the oldest to the newest.
\<close>

subsection \<open>State\<close>

record 'a rbuffer_params =
  rbp_cmpe :: "('a \<Rightarrow> 'a \<Rightarrow> int) option"
  rbp_elements :: "'a list option"
  rbp_elt_size :: nat
  rbp_max_elts :: nat
  rbp_flags :: u32

record 'a rbuffer =
  rb_cmpe :: "('a \<Rightarrow> 'a \<Rightarrow> int) option"
  rb_elements :: "'a list"
  rb_current :: nat
  rb_max_elts :: nat
  rb_elt_size :: nat
  rb_start :: nat
  rb_flags :: u32

text \<open>
  Well-formed states: the block has exactly \<open>max_elts\<close> slots, \<open>start\<close> is one of them and
  there are no more elements than slots.
\<close>

definition rb_wf :: "'a rbuffer \<Rightarrow> bool" where
  "rb_wf rb \<longleftrightarrow> 0 < rb_max_elts rb \<and> length (rb_elements rb) = rb_max_elts rb \<and>
     rb_start rb < rb_max_elts rb \<and> rb_current rb \<le> rb_max_elts rb"

definition rb_slot :: "'a rbuffer \<Rightarrow> nat \<Rightarrow> nat" where
  "rb_slot rb i = (rb_start rb + i) mod rb_max_elts rb"

definition rb_content :: "'a rbuffer \<Rightarrow> 'a list" where
  "rb_content rb = map (\<lambda>i. rb_elements rb ! rb_slot rb i) [0..<rb_current rb]"

subsection \<open>Operations\<close>

definition rbuffer_isfull :: "'a rbuffer \<Rightarrow> bool" where
  "rbuffer_isfull rb \<longleftrightarrow> rb_current rb = rb_max_elts rb"

definition rbuffer_isempty :: "'a rbuffer \<Rightarrow> bool" where
  "rbuffer_isempty rb \<longleftrightarrow> rb_current rb = 0"

definition rbuffer_size :: "'a rbuffer \<Rightarrow> nat" where
  "rbuffer_size rb = rb_current rb"

definition rbuffer_capacity :: "'a rbuffer \<Rightarrow> nat" where
  "rbuffer_capacity rb = rb_max_elts rb"

text \<open>
  \<open>handle\<close> and \<open>block\<close> are what \<open>malloc\<close> returned for the handle and for the elements;
  neither is used when the application provides the memory.
\<close>

definition rbuffer_init ::
  "unit option \<Rightarrow> unit option \<Rightarrow> 'a list option \<Rightarrow> 'a rbuffer_params option \<Rightarrow>
   'a rbuffer option" where
  "rbuffer_init rb_in handle block params =
     (case params of
        None \<Rightarrow> None
      | Some p \<Rightarrow>
          if \<not> (rbp_max_elts p > 0 \<and> rbp_elt_size p > 0) then None
          else
            (case rcsw_alloc id rb_in handle (rbp_flags p AND RCSW_NOALLOC_HANDLE) of
               Some (Some _) \<Rightarrow>
                 (case rcsw_alloc id (rbp_elements p) block
                         (rbp_flags p AND RCSW_NOALLOC_DATA) of
                    Some (Some elements) \<Rightarrow>
                      Some \<lparr>rb_cmpe = rbp_cmpe p, rb_elements = elements, rb_current = 0,
                        rb_max_elts = rbp_max_elts p, rb_elt_size = rbp_elt_size p,
                        rb_start = 0, rb_flags = rbp_flags p\<rparr>
                  | _ \<Rightarrow> None)
             | _ \<Rightarrow> None))"

text \<open>Which of the two blocks \<open>rbuffer_destroy\<close> frees: the elements, the handle.\<close>

definition rbuffer_destroy :: "'a rbuffer \<Rightarrow> bool \<times> bool" where
  "rbuffer_destroy rb =
     (rcsw_free (Some (rb_elements rb)) (rb_flags rb AND RCSW_NOALLOC_DATA),
      rcsw_free (Some ()) (rb_flags rb AND RCSW_NOALLOC_HANDLE))"

text \<open>A pointer into the block is the index of its slot.\<close>

definition rbuffer_data_get :: "'a rbuffer \<Rightarrow> nat \<Rightarrow> nat" where
  "rbuffer_data_get rb idx = idx mod rb_max_elts rb"

definition rbuffer_add :: "'a rbuffer \<Rightarrow> 'a option \<Rightarrow> status \<times> 'a rbuffer" where
  "rbuffer_add rb e =
     (case e of
        None \<Rightarrow> (fpc_error, rb)
      | Some x \<Rightarrow>
          if has_flag (rb_flags rb) RCSW_DS_RBUFFER_AS_FIFO \<and> rbuffer_isfull rb
          then (ERROR (Some ENOSPC), rb)
          else
            let slot = rbuffer_data_get rb ((rb_start rb + rb_current rb) mod rb_max_elts rb);
                rb1 = rb\<lparr>rb_elements := (rb_elements rb)[slot := x]\<rparr>
            in (OK,
                if rbuffer_isfull rb1
                then rb1\<lparr>rb_start := (rb_start rb1 + 1) mod rb_max_elts rb1\<rparr>
                else rb1\<lparr>rb_current := rb_current rb1 + 1\<rparr>))"

text \<open>
  An output parameter is passed as whether it is non-NULL, and the value written to it, if
  any, is part of the result.
\<close>

definition rbuffer_serve_front :: "'a rbuffer \<Rightarrow> bool \<Rightarrow> status \<times> 'a option" where
  "rbuffer_serve_front rb e =
     (if \<not> (e \<and> \<not> rbuffer_isempty rb) then (fpc_error, None)
      else (OK, Some (rb_elements rb ! rbuffer_data_get rb (rb_start rb))))"

definition rbuffer_front :: "'a rbuffer \<Rightarrow> nat option" where
  "rbuffer_front rb =
     (if rbuffer_isempty rb then None else Some (rbuffer_data_get rb (rb_start rb)))"

definition rbuffer_remove :: "'a rbuffer \<Rightarrow> bool \<Rightarrow> status \<times> 'a option \<times> 'a rbuffer" where
  "rbuffer_remove rb e =
     (if rbuffer_isempty rb then (fpc_error, None, rb)
      else
        (OK,
         (if e then snd (rbuffer_serve_front rb e) else None),
         rb\<lparr>rb_start := (rb_start rb + 1) mod rb_max_elts rb,
            rb_current := rb_current rb - 1\<rparr>))"

text \<open>
  The query scans every slot of the block, those that hold no element included, from
  \<open>start\<close> on, and returns the index of the slot; -1 is both \<open>ERROR\<close> and \<open>not found\<close>.
\<close>

definition rbuffer_index_query :: "'a rbuffer \<Rightarrow> 'a option \<Rightarrow> int option" where
  "rbuffer_index_query rb e =
     (case (rb_cmpe rb, e) of
        (Some cmpe, Some x) \<Rightarrow>
          (case circ_scan
                  (\<lambda>i. map_option (\<lambda>y. cmpe x y = 0)
                         (rd (rb_elements rb) (int (rbuffer_data_get rb i))))
                  (rb_max_elts rb) (rb_start rb) False (rb_start rb) of
             None \<Rightarrow> None
           | Some None \<Rightarrow> Some (-1)
           | Some (Some i) \<Rightarrow> Some (int_of_size i))
      | _ \<Rightarrow> Some (-1))"

text \<open>\<open>memset(elements, 0, current * elt_size)\<close> clears the first \<open>current\<close> slots.\<close>

definition rbuffer_clear :: "'a \<Rightarrow> 'a rbuffer \<Rightarrow> status \<times> 'a rbuffer" where
  "rbuffer_clear zero rb =
     (OK, rb\<lparr>rb_elements := replicate (rb_current rb) zero @ drop (rb_current rb) (rb_elements rb),
             rb_current := 0, rb_start := 0\<rparr>)"

text \<open>\<open>f\<close> gets a pointer to the element, so it may overwrite it.\<close>

definition rbuffer_map :: "'a rbuffer \<Rightarrow> ('a \<Rightarrow> 'a) option \<Rightarrow> (status \<times> 'a rbuffer) option" where
  "rbuffer_map rb f =
     (case f of
        None \<Rightarrow> Some (fpc_error, rb)
      | Some g \<Rightarrow>
          map_option (\<lambda>es. (OK, rb\<lparr>rb_elements := es\<rparr>))
            (for_range 0 (rb_current rb)
               (\<lambda>count es. do {
                  let slot = int (rbuffer_data_get rb
                                    ((rb_start rb + count) mod rb_max_elts rb));
                  x \<leftarrow> rd es slot;
                  wr es slot (g x)
                })
               (rb_elements rb)))"

definition rbuffer_inject ::
  "'a rbuffer \<Rightarrow> ('a \<Rightarrow> 'r \<Rightarrow> 'a \<times> 'r) option \<Rightarrow> 'r option \<Rightarrow>
   (status \<times> 'a rbuffer \<times> 'r option) option" where
  "rbuffer_inject rb f result =
     (case (f, result) of
        (Some g, Some r) \<Rightarrow>
          map_option (\<lambda>(es, r). (OK, rb\<lparr>rb_elements := es\<rparr>, Some r))
            (for_range 0 (rb_current rb)
               (\<lambda>count (es, r). do {
                  let slot = int (rbuffer_data_get rb
                                    ((rb_start rb + count) mod rb_max_elts rb));
                  x \<leftarrow> rd es slot;
                  let (y, r') = g x r;
                  es' \<leftarrow> wr es slot y;
                  Some (es', r')
                })
               (rb_elements rb, r))
      | _ \<Rightarrow> Some (fpc_error, rb, result))"

subsection \<open>Slots\<close>

lemma length_rb_content [simp]: "length (rb_content rb) = rb_current rb"
  by (simp add: rb_content_def)

lemma rb_slot_less: "rb_wf rb \<Longrightarrow> rb_slot rb i < rb_max_elts rb"
  by (simp add: rb_wf_def rb_slot_def)

lemma rb_content_nth:
  "i < rb_current rb \<Longrightarrow> rb_content rb ! i = rb_elements rb ! rb_slot rb i"
  by (simp add: rb_content_def)

lemma add_mod_inj:
  assumes "(i::nat) < n" and "j < n" and "(s + i) mod n = (s + j) mod n"
  shows "i = j"
proof -
  have "i mod n = j mod n" using assms(3) by (simp add: mod_eq_nat1E nat_mod_eq_iff)
  then show ?thesis using assms by simp
qed

lemma rb_slot_inj:
  "i < rb_max_elts rb \<Longrightarrow> j < rb_max_elts rb \<Longrightarrow> rb_slot rb i = rb_slot rb j \<longleftrightarrow> i = j"
  unfolding rb_slot_def by (metis add_mod_inj)

lemma rb_content_cong:
  assumes "rb_current a = rb_current b"
    and "\<And>i. i < rb_current a \<Longrightarrow> rb_elements a ! rb_slot a i = rb_elements b ! rb_slot b i"
  shows "rb_content a = rb_content b"
  using assms by (auto simp: rb_content_def)

lemma rb_content_eqI:
  assumes "length xs = rb_current rb"
    and "\<And>i. i < rb_current rb \<Longrightarrow> rb_elements rb ! rb_slot rb i = xs ! i"
  shows "rb_content rb = xs"
  by (rule nth_equalityI) (use assms in \<open>auto simp: rb_content_nth\<close>)

text \<open>Writing the slot of one element changes that element only.\<close>

lemma rb_content_write:
  assumes "rb_wf rb" and "k < rb_current rb"
  shows "rb_content (rb\<lparr>rb_elements := (rb_elements rb)[rb_slot rb k := x]\<rparr>) =
    (rb_content rb)[k := x]"
proof (rule rb_content_eqI)
  fix i assume "i < rb_current (rb\<lparr>rb_elements := (rb_elements rb)[rb_slot rb k := x]\<rparr>)"
  then have i: "i < rb_current rb" by simp
  with assms have "rb_slot rb k = rb_slot rb i \<longleftrightarrow> k = i"
    by (intro rb_slot_inj) (auto simp: rb_wf_def)
  with assms i rb_slot_less [OF assms(1)] show
    "rb_elements (rb\<lparr>rb_elements := (rb_elements rb)[rb_slot rb k := x]\<rparr>) !
       rb_slot (rb\<lparr>rb_elements := (rb_elements rb)[rb_slot rb k := x]\<rparr>) i =
     (rb_content rb)[k := x] ! i"
    by (auto simp: rb_slot_def rb_wf_def nth_list_update rb_content_nth)
qed simp

lemma rb_slot_Suc_start:
  "0 < rb_max_elts rb \<Longrightarrow>
   (Suc (rb_start rb) mod rb_max_elts rb + i) mod rb_max_elts rb = rb_slot rb (Suc i)"
  by (simp add: rb_slot_def mod_simps)

subsection \<open>What each operation does to the content\<close>

lemma rbuffer_add_not_full:
  assumes "rb_wf rb" and "\<not> rbuffer_isfull rb"
  shows "\<exists>rb'. rbuffer_add rb (Some x) = (OK, rb') \<and> rb_wf rb' \<and>
    rb_content rb' = rb_content rb @ [x] \<and> rb_max_elts rb' = rb_max_elts rb \<and>
    rb_flags rb' = rb_flags rb \<and> rb_cmpe rb' = rb_cmpe rb"
proof -
  let ?k = "rb_current rb"
  let ?rb = "rb\<lparr>rb_elements := (rb_elements rb)[rb_slot rb ?k := x], rb_current := ?k + 1\<rparr>"
  have k: "?k < rb_max_elts rb" using assms by (auto simp: rb_wf_def rbuffer_isfull_def)
  have "rb_content ?rb = rb_content rb @ [x]"
  proof (rule rb_content_eqI)
    fix i assume "i < rb_current ?rb"
    then have i: "i \<le> ?k" by simp
    then have "rb_slot rb ?k = rb_slot rb i \<longleftrightarrow> ?k = i"
      using k by (intro rb_slot_inj) auto
    with i k assms(1) show "rb_elements ?rb ! rb_slot ?rb i = (rb_content rb @ [x]) ! i"
      using rb_slot_less [OF assms(1)]
      by (auto simp: rb_slot_def rb_wf_def nth_list_update nth_append rb_content_nth)
  qed simp
  moreover have "rbuffer_add rb (Some x) = (OK, ?rb)"
    using assms k by (simp add: rbuffer_add_def rbuffer_isfull_def rbuffer_data_get_def rb_slot_def)
  ultimately show ?thesis using assms(1) k by (auto simp: rb_wf_def)
qed

lemma rbuffer_add_fifo_full:
  assumes "rbuffer_isfull rb" and "has_flag (rb_flags rb) RCSW_DS_RBUFFER_AS_FIFO"
  shows "rbuffer_add rb (Some x) = (ERROR (Some ENOSPC), rb)"
  using assms by (simp add: rbuffer_add_def)

text \<open>Without the FIFO flag a full buffer drops its oldest element.\<close>

lemma rbuffer_add_overwrite:
  assumes "rb_wf rb" and "rbuffer_isfull rb"
    and "\<not> has_flag (rb_flags rb) RCSW_DS_RBUFFER_AS_FIFO"
  shows "\<exists>rb'. rbuffer_add rb (Some x) = (OK, rb') \<and> rb_wf rb' \<and>
    rb_content rb' = tl (rb_content rb) @ [x] \<and> rb_max_elts rb' = rb_max_elts rb \<and>
    rb_flags rb' = rb_flags rb \<and> rb_cmpe rb' = rb_cmpe rb"
proof -
  let ?n = "rb_max_elts rb"
  let ?es = "(rb_elements rb)[rb_start rb := x]"
  let ?rb = "rb\<lparr>rb_elements := ?es, rb_start := (rb_start rb + 1) mod ?n\<rparr>"
  have c: "rb_current rb = ?n" "0 < ?n" using assms by (auto simp: rbuffer_isfull_def rb_wf_def)
  have st: "rb_slot rb 0 = rb_start rb" "rb_slot rb ?n = rb_start rb"
    using assms(1) by (auto simp: rb_slot_def rb_wf_def)
  have "rb_content ?rb = tl (rb_content rb) @ [x]"
  proof (rule rb_content_eqI)
    show "length (tl (rb_content rb) @ [x]) = rb_current ?rb" using c by simp
    fix i assume "i < rb_current ?rb"
    then have i: "i < ?n" using c by simp
    have s: "rb_slot ?rb i = rb_slot rb (Suc i)"
      using c rb_slot_Suc_start [of rb i] by (simp add: rb_slot_def)
    show "rb_elements ?rb ! rb_slot ?rb i = (tl (rb_content rb) @ [x]) ! i"
    proof (cases "Suc i = ?n")
      case True
      then show ?thesis using s st i c assms(1)
        by (simp add: nth_append rb_wf_def) linarith
    next
      case False
      then have "rb_slot rb (Suc i) \<noteq> rb_slot rb 0" "i < ?n - Suc 0"
        using i rb_slot_inj [of "Suc i" rb 0] by simp_all
      then show ?thesis using s st i c False
        by (simp add: nth_append nth_tl rb_content_nth)
    qed
  qed
  moreover have "rbuffer_add rb (Some x) = (OK, ?rb)"
    using assms c st
    by (simp add: rbuffer_add_def rbuffer_isfull_def rbuffer_data_get_def rb_slot_def rb_wf_def)
  ultimately show ?thesis using assms(1) c by (auto simp: rb_wf_def)
qed

lemma rbuffer_remove_content:
  assumes "rb_wf rb" and "\<not> rbuffer_isempty rb"
  shows "\<exists>rb'. rbuffer_remove rb e =
      (OK, if e then Some (hd (rb_content rb)) else None, rb') \<and> rb_wf rb' \<and>
    rb_content rb' = tl (rb_content rb) \<and> rb_max_elts rb' = rb_max_elts rb \<and>
    rb_flags rb' = rb_flags rb \<and> rb_cmpe rb' = rb_cmpe rb"
proof -
  let ?n = "rb_max_elts rb"
  let ?rb = "rb\<lparr>rb_start := (rb_start rb + 1) mod ?n, rb_current := rb_current rb - 1\<rparr>"
  have c: "0 < rb_current rb" "0 < ?n" using assms by (auto simp: rbuffer_isempty_def rb_wf_def)
  have "hd (rb_content rb) = rb_elements rb ! rb_start rb"
    using c assms(1) by (subst hd_conv_nth)
      (auto simp: rb_content_nth rb_slot_def rb_wf_def simp flip: length_greater_0_conv)
  moreover have "rb_content ?rb = tl (rb_content rb)"
    by (rule rb_content_eqI)
      (use c rb_slot_Suc_start [of rb] in \<open>auto simp: nth_tl rb_content_nth rb_slot_def\<close>)
  ultimately show ?thesis
    using assms c
    by (auto simp: rbuffer_remove_def rbuffer_serve_front_def rbuffer_data_get_def rb_wf_def)
qed

lemma rbuffer_remove_empty:
  "rbuffer_isempty rb \<Longrightarrow> rbuffer_remove rb e = (fpc_error, None, rb)"
  by (simp add: rbuffer_remove_def)

lemma rbuffer_clear_content:
  "rb_wf rb \<Longrightarrow> rb_wf (snd (rbuffer_clear z rb)) \<and> rb_content (snd (rbuffer_clear z rb)) = [] \<and>
     fst (rbuffer_clear z rb) = OK \<and> rb_max_elts (snd (rbuffer_clear z rb)) = rb_max_elts rb \<and>
     rb_flags (snd (rbuffer_clear z rb)) = rb_flags rb"
  by (auto simp: rbuffer_clear_def rb_wf_def rb_content_def)

lemma rb_data_get_slot [simp]:
  "rbuffer_data_get rb ((rb_start rb + i) mod rb_max_elts rb) = rb_slot rb i"
  by (simp add: rbuffer_data_get_def rb_slot_def)

lemma rb_slot_elements [simp]: "rb_slot (rb\<lparr>rb_elements := es\<rparr>) i = rb_slot rb i"
  by (simp add: rb_slot_def)

text \<open>
  \<open>rbuffer_map\<close> visits the elements from the oldest to the newest, in place.
\<close>

lemma rbuffer_map_content:
  assumes "rb_wf rb"
  shows "\<exists>rb'. rbuffer_map rb (Some g) = Some (OK, rb') \<and> rb_wf rb' \<and>
    rb_content rb' = map g (rb_content rb) \<and> rb_max_elts rb' = rb_max_elts rb \<and>
    rb_flags rb' = rb_flags rb"
proof -
  let ?body = "\<lambda>count es. do {
      let slot = int (rbuffer_data_get rb ((rb_start rb + count) mod rb_max_elts rb));
      x \<leftarrow> rd es slot;
      wr es slot (g x)
    }"
  let ?P = "\<lambda>k es. length es = rb_max_elts rb \<and>
    rb_content (rb\<lparr>rb_elements := es\<rparr>) = map g (take k (rb_content rb)) @ drop k (rb_content rb)"
  have "\<exists>es. for_range 0 (rb_current rb) ?body (rb_elements rb) = Some es \<and> ?P (rb_current rb) es"
  proof (rule for_range_inv)
    fix k es assume k: "k < rb_current rb" and P: "?P k es"
    let ?rb = "rb\<lparr>rb_elements := es\<rparr>"
    have wf: "rb_wf ?rb" using assms P by (simp add: rb_wf_def)
    have sl: "rb_slot rb k < length es" using rb_slot_less [OF assms] P by simp
    have nth: "es ! rb_slot rb k = rb_content rb ! k"
      using rb_content_nth [of k ?rb] P k by (simp add: nth_append)
    have "rb_content (?rb\<lparr>rb_elements := es[rb_slot rb k := g (es ! rb_slot rb k)]\<rparr>) =
        (rb_content ?rb)[k := g (es ! rb_slot rb k)]"
      using rb_content_write [OF wf, of k] k by simp
    also have "\<dots> = map g (take (Suc k) (rb_content rb)) @ drop (Suc k) (rb_content rb)"
      using P k nth by (simp add: list_update_append take_Suc_conv_app_nth
          flip: Cons_nth_drop_Suc)
    finally show "\<exists>es'. ?body k es = Some es' \<and> ?P (Suc k) es'"
      using sl P by simp
  qed (use assms in \<open>auto simp: rb_wf_def\<close>)
  then obtain es where "for_range 0 (rb_current rb) ?body (rb_elements rb) = Some es"
    "?P (rb_current rb) es" by blast
  then show ?thesis using assms by (simp add: rbuffer_map_def rb_wf_def)
qed

text \<open>
  A query that finds the value returns a slot whose element compares equal.
\<close>

lemma rbuffer_index_query_find:
  assumes "rb_wf rb" and "rb_cmpe rb = Some cmpe"
  shows "rbuffer_index_query rb (Some x) =
    Some (case find (\<lambda>i. cmpe x (rb_elements rb ! i) = 0)
               ([rb_start rb..<rb_max_elts rb] @ [0..<rb_start rb]) of
            None \<Rightarrow> -1 | Some i \<Rightarrow> int_of_size i)"
proof -
  have "circ_scan (\<lambda>i. map_option (\<lambda>y. cmpe x y = 0)
          (rd (rb_elements rb) (int (rbuffer_data_get rb i))))
          (rb_max_elts rb) (rb_start rb) False (rb_start rb) =
        Some (find (\<lambda>i. cmpe x (rb_elements rb ! i) = 0)
               ([rb_start rb..<rb_max_elts rb] @ [0..<rb_start rb]))"
    using assms by (intro circ_scan_find) (auto simp: rb_wf_def rbuffer_data_get_def)
  then show ?thesis using assms(2) by (auto simp: rbuffer_index_query_def split: option.splits)
qed

subsection \<open>Properties\<close>

text \<open>
  C31: adding to a well-formed ring buffer keeps it well formed and appends the element; when
  it was full, a ring buffer drops its oldest element to make room, while one that acts as a
  FIFO refuses with \<open>ENOSPC\<close> and is unchanged.
\<close>

theorem rbuffer_add_spec:
  assumes "rb_wf rb"
  shows "\<exists>s rb'. rbuffer_add rb (Some x) = (s, rb') \<and> rb_wf rb' \<and>
    (if \<not> rbuffer_isfull rb then s = OK \<and> rb_content rb' = rb_content rb @ [x]
     else if has_flag (rb_flags rb) RCSW_DS_RBUFFER_AS_FIFO
       then s = ERROR (Some ENOSPC) \<and> rb' = rb
       else s = OK \<and> rb_content rb' = tl (rb_content rb) @ [x])"
  using rbuffer_add_not_full [OF assms, of x] rbuffer_add_fifo_full [of rb x]
    rbuffer_add_overwrite [OF assms, of x] assms
  by (cases "rbuffer_isfull rb"; cases "has_flag (rb_flags rb) RCSW_DS_RBUFFER_AS_FIFO") auto

theorem rbuffer_add_spec_witness:
  "\<exists>s rb'. rbuffer_add
     \<lparr>rb_cmpe = None, rb_elements = [7, 8, 9 :: int], rb_current = 3, rb_max_elts = 3,
      rb_elt_size = 4, rb_start = 1, rb_flags = 0\<rparr> (Some 5) = (s, rb') \<and>
     s = OK \<and> rb_content rb' = [9, 7, 5]"
proof -
  let ?rb = "\<lparr>rb_cmpe = None, rb_elements = [7, 8, 9 :: int], rb_current = 3, rb_max_elts = 3,
      rb_elt_size = 4, rb_start = 1, rb_flags = 0\<rparr>"
  have wf: "rb_wf ?rb" by (simp add: rb_wf_def)
  have c: "rb_content ?rb = [8, 9, 7]" by code_simp
  show ?thesis using rbuffer_add_spec [OF wf, of 5] c
    by (auto simp: rbuffer_isfull_def)
qed

end
