(* ===== verification/Fifo_Spec.thy ===== *)
theory Fifo_Spec
  imports Rcsw_Prelude
begin

text \<open>
  The contract of a bounded FIFO: what a client of src/ds/fifo.c may rely on, stated against a
  list of bounded length. The locale lifts the law of one operation to every sequence of
  operations; the FIFO is its interpretation.
\<close>

subsection \<open>Operation sequences\<close>

datatype 'a fifo_op = Enq 'a | Deq | Peek | Clear | Apply "'a \<Rightarrow> 'a" | Size | Full | Empty

text \<open>
  What one operation returns: a status with the value a removal hands out, the element at the
  front, a number or a truth value.
\<close>

datatype 'a fifo_out = Answer status "'a option" | Element "'a option" | Count nat | Truth bool

fun fifo_exec :: "('a fifo_op \<Rightarrow> 'q \<Rightarrow> ('a fifo_out \<times> 'q) option) \<Rightarrow> 'a fifo_op list \<Rightarrow> 'q \<Rightarrow>
    ('a fifo_out list \<times> 'q) option" where
  "fifo_exec step [] q = Some ([], q)"
| "fifo_exec step (op # ops) q = do {
     (out, q1) \<leftarrow> step op q;
     (outs, q2) \<leftarrow> fifo_exec step ops q1;
     Some (out # outs, q2)
   }"

text \<open>The abstract queue: a list of at most \<open>cap\<close> elements, oldest first.\<close>

definition spec_add :: "nat \<Rightarrow> 'a list \<Rightarrow> 'a \<Rightarrow> status \<times> 'a list" where
  "spec_add cap xs x = (if length xs < cap then (OK, xs @ [x]) else (ERROR (Some ENOSPC), xs))"

definition spec_remove :: "'a list \<Rightarrow> status \<times> 'a option \<times> 'a list" where
  "spec_remove xs = (case xs of [] \<Rightarrow> (fpc_error, None, []) | x # ys \<Rightarrow> (OK, Some x, ys))"

fun spec_step :: "nat \<Rightarrow> 'a fifo_op \<Rightarrow> 'a list \<Rightarrow> 'a fifo_out \<times> 'a list" where
  "spec_step cap (Enq x) xs = (let (s, ys) = spec_add cap xs x in (Answer s None, ys))"
| "spec_step cap Deq xs = (let (s, v, ys) = spec_remove xs in (Answer s v, ys))"
| "spec_step cap Peek xs = (Element (case xs of [] \<Rightarrow> None | x # ys \<Rightarrow> Some x), xs)"
| "spec_step cap Clear xs = (Answer OK None, [])"
| "spec_step cap (Apply g) xs = (Answer OK None, map g xs)"
| "spec_step cap Size xs = (Count (length xs), xs)"
| "spec_step cap Full xs = (Truth (length xs = cap), xs)"
| "spec_step cap Empty xs = (Truth (xs = []), xs)"

subsection \<open>The contract\<close>

locale bounded_fifo =
  fixes step :: "'a fifo_op \<Rightarrow> 'q \<Rightarrow> ('a fifo_out \<times> 'q) option"
    and content :: "'q \<Rightarrow> 'a list"
    and capacity :: "'q \<Rightarrow> nat"
    and ok :: "'q \<Rightarrow> bool"
  assumes step_refines: "ok q \<Longrightarrow> \<exists>out q'. step op q = Some (out, q') \<and> ok q' \<and>
      capacity q' = capacity q \<and> spec_step (capacity q) op (content q) = (out, content q')"
begin

text \<open>Any sequence of operations answers as the abstract queue does, and leaves its content.\<close>

lemma exec_refines:
  assumes "ok q"
  shows "\<exists>outs q'. fifo_exec step ops q = Some (outs, q') \<and> ok q' \<and> capacity q' = capacity q \<and>
    fifo_exec (\<lambda>op xs. Some (spec_step (capacity q) op xs)) ops (content q) = Some (outs, content q')"
  using assms
proof (induction ops arbitrary: q)
  case Nil
  then show ?case by simp
next
  case (Cons op ops)
  obtain out q1 where 1: "step op q = Some (out, q1)" "ok q1" "capacity q1 = capacity q"
      "spec_step (capacity q) op (content q) = (out, content q1)"
    using step_refines [OF Cons.prems] by blast
  from Cons.IH [OF 1(2)] show ?case using 1 by auto
qed

end

end
