(* ===== verification/Fifo.thy ===== *)
theory Fifo
  imports Rbuffer Fifo_Spec
begin

text \<open>
  The FIFO (src/ds/fifo.c, include/rcsw/ds/fifo.h): a ring buffer created with
  \<open>RCSW_DS_RBUFFER_AS_FIFO\<close>. It interprets the bounded FIFO contract.
\<close>

subsection \<open>State and operations\<close>

record 'a fifo_params =
  fp_elements :: "'a list option"
  fp_elt_size :: nat
  fp_max_elts :: nat
  fp_flags :: u32

record 'a fifo =
  ff_rb :: "'a rbuffer"
  ff_elt_size :: nat
  ff_flags :: u32

definition fifo_init ::
  "unit option \<Rightarrow> unit option \<Rightarrow> 'a list option \<Rightarrow> 'a fifo_params option \<Rightarrow>
   'a fifo option" where
  "fifo_init fifo_in handle block params =
     (case params of
        None \<Rightarrow> None
      | Some p \<Rightarrow>
          if \<not> (fp_max_elts p > 0 \<and> fp_elt_size p > 0) then None
          else
            (case rcsw_alloc id fifo_in handle (fp_flags p AND RCSW_NOALLOC_HANDLE) of
               Some (Some _) \<Rightarrow>
                 let rb_params =
                   \<lparr>rbp_cmpe = None, rbp_elements = fp_elements p, rbp_elt_size = fp_elt_size p,
                    rbp_max_elts = fp_max_elts p,
                    rbp_flags = fp_flags p OR (RCSW_NOALLOC_HANDLE OR RCSW_DS_RBUFFER_AS_FIFO)\<rparr>
                 in (case rbuffer_init (Some ()) None block (Some rb_params) of
                       None \<Rightarrow> None
                     | Some rb \<Rightarrow>
                         Some \<lparr>ff_rb = rb, ff_elt_size = fp_elt_size p, ff_flags = fp_flags p\<rparr>)
             | _ \<Rightarrow> None))"

text \<open>The ring buffer's two answers, then whether the FIFO's own handle is freed.\<close>

definition fifo_destroy :: "'a fifo \<Rightarrow> (bool \<times> bool) \<times> bool" where
  "fifo_destroy f =
     (rbuffer_destroy (ff_rb f), rcsw_free (Some ()) (ff_flags f AND RCSW_NOALLOC_HANDLE))"

definition fifo_isfull :: "'a fifo \<Rightarrow> bool" where
  "fifo_isfull f = rbuffer_isfull (ff_rb f)"

definition fifo_isempty :: "'a fifo \<Rightarrow> bool" where
  "fifo_isempty f = rbuffer_isempty (ff_rb f)"

definition fifo_size :: "'a fifo \<Rightarrow> nat" where
  "fifo_size f = rbuffer_size (ff_rb f)"

definition fifo_capacity :: "'a fifo \<Rightarrow> nat" where
  "fifo_capacity f = rbuffer_capacity (ff_rb f)"

definition fifo_front :: "'a fifo \<Rightarrow> nat option" where
  "fifo_front f = rbuffer_front (ff_rb f)"

definition fifo_add :: "'a fifo \<Rightarrow> 'a option \<Rightarrow> status \<times> 'a fifo" where
  "fifo_add f e =
     (case e of
        None \<Rightarrow> (fpc_error, f)
      | Some x \<Rightarrow> (let (s, rb) = rbuffer_add (ff_rb f) e in (s, f\<lparr>ff_rb := rb\<rparr>)))"

definition fifo_remove :: "'a fifo \<Rightarrow> bool \<Rightarrow> status \<times> 'a option \<times> 'a fifo" where
  "fifo_remove f e = (let (s, v, rb) = rbuffer_remove (ff_rb f) e in (s, v, f\<lparr>ff_rb := rb\<rparr>))"

definition fifo_clear :: "'a \<Rightarrow> 'a fifo \<Rightarrow> status \<times> 'a fifo" where
  "fifo_clear zero f = (let (s, rb) = rbuffer_clear zero (ff_rb f) in (s, f\<lparr>ff_rb := rb\<rparr>))"

definition fifo_map :: "'a fifo \<Rightarrow> ('a \<Rightarrow> 'a) option \<Rightarrow> (status \<times> 'a fifo) option" where
  "fifo_map f g = map_option (\<lambda>(s, rb). (s, f\<lparr>ff_rb := rb\<rparr>)) (rbuffer_map (ff_rb f) g)"

definition fifo_inject ::
  "'a fifo \<Rightarrow> ('a \<Rightarrow> 'r \<Rightarrow> 'a \<times> 'r) option \<Rightarrow> 'r option \<Rightarrow>
   (status \<times> 'a fifo \<times> 'r option) option" where
  "fifo_inject f g result =
     map_option (\<lambda>(s, rb, r). (s, f\<lparr>ff_rb := rb\<rparr>, r)) (rbuffer_inject (ff_rb f) g result)"

subsection \<open>Invariant and content\<close>

definition ff_wf :: "'a fifo \<Rightarrow> bool" where
  "ff_wf f \<longleftrightarrow> rb_wf (ff_rb f) \<and> has_flag (rb_flags (ff_rb f)) RCSW_DS_RBUFFER_AS_FIFO"

definition ff_content :: "'a fifo \<Rightarrow> 'a list" where
  "ff_content f = rb_content (ff_rb f)"

lemma length_ff_content: "length (ff_content f) = fifo_size f"
  by (simp add: ff_content_def fifo_size_def rbuffer_size_def)

lemma fifo_isempty_content: "fifo_isempty f \<longleftrightarrow> ff_content f = []"
  by (simp add: fifo_isempty_def rbuffer_isempty_def ff_content_def
      flip: length_0_conv)

lemma fifo_add_refines:
  assumes "ff_wf f" and "fifo_add f (Some x) = (s, f')"
  shows "ff_wf f' \<and> fifo_capacity f' = fifo_capacity f \<and>
    spec_add (fifo_capacity f) (ff_content f) x = (s, ff_content f')"
proof (cases "rbuffer_isfull (ff_rb f)")
  case True
  then have "length (rb_content (ff_rb f)) = rb_max_elts (ff_rb f)"
    by (simp add: rbuffer_isfull_def)
  with True assms show ?thesis
    by (auto simp: ff_wf_def fifo_add_def rbuffer_add_fifo_full ff_content_def spec_add_def
        fifo_capacity_def rbuffer_capacity_def)
next
  case False
  have "rb_wf (ff_rb f)" using assms(1) by (simp add: ff_wf_def)
  from rbuffer_add_not_full [OF this False, of x] obtain rb' where
    rb': "rbuffer_add (ff_rb f) (Some x) = (OK, rb')" "rb_wf rb'"
      "rb_content rb' = rb_content (ff_rb f) @ [x]" "rb_max_elts rb' = rb_max_elts (ff_rb f)"
      "rb_flags rb' = rb_flags (ff_rb f)" by blast
  have "rb_current (ff_rb f) < rb_max_elts (ff_rb f)"
    using False assms(1) by (auto simp: ff_wf_def rb_wf_def rbuffer_isfull_def)
  with rb' assms show ?thesis
    by (auto simp: ff_wf_def fifo_add_def ff_content_def spec_add_def
        fifo_capacity_def rbuffer_capacity_def)
qed

lemma fifo_remove_refines:
  assumes "ff_wf f" and "fifo_remove f True = (s, v, f')"
  shows "ff_wf f' \<and> fifo_capacity f' = fifo_capacity f \<and>
    spec_remove (ff_content f) = (s, v, ff_content f')"
proof (cases "rbuffer_isempty (ff_rb f)")
  case True
  then have "rb_content (ff_rb f) = []"
    by (simp add: rbuffer_isempty_def flip: length_0_conv)
  with True assms show ?thesis
    by (auto simp: fifo_remove_def rbuffer_remove_empty ff_content_def spec_remove_def ff_wf_def)
next
  case False
  have "rb_wf (ff_rb f)" using assms(1) by (simp add: ff_wf_def)
  from rbuffer_remove_content [OF this False, of True] obtain rb' where
    rb': "rbuffer_remove (ff_rb f) True = (OK, Some (hd (rb_content (ff_rb f))), rb')" "rb_wf rb'"
      "rb_content rb' = tl (rb_content (ff_rb f))" "rb_max_elts rb' = rb_max_elts (ff_rb f)"
      "rb_flags rb' = rb_flags (ff_rb f)" by auto
  have "rb_content (ff_rb f) \<noteq> []"
    using False by (simp add: rbuffer_isempty_def flip: length_greater_0_conv)
  with rb' assms show ?thesis
    by (auto simp: ff_wf_def fifo_remove_def ff_content_def spec_remove_def
        fifo_capacity_def rbuffer_capacity_def neq_Nil_conv)
qed

text \<open>The operations a client may call; \<open>fifo_front\<close> hands out a pointer, read here at once.\<close>

definition front_element :: "'a fifo \<Rightarrow> 'a option" where
  "front_element f = map_option (\<lambda>i. rb_elements (ff_rb f) ! i) (fifo_front f)"

fun fifo_step :: "'a \<Rightarrow> 'a fifo_op \<Rightarrow> 'a fifo \<Rightarrow> ('a fifo_out \<times> 'a fifo) option" where
  "fifo_step zero (Enq x) f = (let (s, f') = fifo_add f (Some x) in Some (Answer s None, f'))"
| "fifo_step zero Deq f = (let (s, v, f') = fifo_remove f True in Some (Answer s v, f'))"
| "fifo_step zero Peek f = Some (Element (front_element f), f)"
| "fifo_step zero Clear f = (let (s, f') = fifo_clear zero f in Some (Answer s None, f'))"
| "fifo_step zero (Apply g) f = map_option (\<lambda>(s, f'). (Answer s None, f')) (fifo_map f (Some g))"
| "fifo_step zero Size f = Some (Count (fifo_size f), f)"
| "fifo_step zero Full f = Some (Truth (fifo_isfull f), f)"
| "fifo_step zero Empty f = Some (Truth (fifo_isempty f), f)"

lemma front_element_content:
  assumes "ff_wf f"
  shows "front_element f = (case ff_content f of [] \<Rightarrow> None | x # ys \<Rightarrow> Some x)"
proof (cases "ff_content f")
  case Nil
  then show ?thesis
    using fifo_isempty_content [of f] by (simp add: front_element_def fifo_front_def rbuffer_front_def fifo_isempty_def)
next
  case (Cons x ys)
  then have "0 < rb_current (ff_rb f)" using length_ff_content [of f] by (simp add: fifo_size_def rbuffer_size_def)
  moreover from this have "ff_content f ! 0 = rb_elements (ff_rb f) ! rb_slot (ff_rb f) 0"
    by (simp add: ff_content_def rb_content_nth)
  ultimately show ?thesis using Cons
    by (simp add: front_element_def fifo_front_def rbuffer_front_def rbuffer_isempty_def rbuffer_data_get_def rb_slot_def)
qed

lemma fifo_step_refines:
  assumes "ff_wf f"
  shows "\<exists>out f'. fifo_step zero op f = Some (out, f') \<and> ff_wf f' \<and> fifo_capacity f' = fifo_capacity f \<and>
    spec_step (fifo_capacity f) op (ff_content f) = (out, ff_content f')"
proof (cases op)
  case (Enq x)
  obtain s f' where a: "fifo_add f (Some x) = (s, f')" by fastforce
  then show ?thesis using fifo_add_refines [OF assms a] Enq by simp
next
  case Deq
  obtain s v f' where a: "fifo_remove f True = (s, v, f')" by (metis prod_cases3)
  then show ?thesis using fifo_remove_refines [OF assms a] Deq by simp
next
  case Clear
  then show ?thesis using rbuffer_clear_content [of "ff_rb f" zero] assms
    by (simp add: fifo_clear_def ff_wf_def ff_content_def fifo_capacity_def rbuffer_capacity_def case_prod_beta)
next
  case (Apply g)
  have "rb_wf (ff_rb f)" using assms by (simp add: ff_wf_def)
  then obtain rb' where "rbuffer_map (ff_rb f) (Some g) = Some (OK, rb')" "rb_wf rb'"
      "rb_content rb' = map g (rb_content (ff_rb f))" "rb_max_elts rb' = rb_max_elts (ff_rb f)"
      "rb_flags rb' = rb_flags (ff_rb f)"
    using rbuffer_map_content by blast
  then show ?thesis using assms Apply
    by (simp add: fifo_map_def ff_wf_def ff_content_def fifo_capacity_def rbuffer_capacity_def)
next
  case Full
  then show ?thesis using assms
    by (simp add: length_ff_content fifo_isfull_def rbuffer_isfull_def fifo_capacity_def rbuffer_capacity_def
        fifo_size_def rbuffer_size_def)
qed (use assms in \<open>simp_all add: front_element_content length_ff_content fifo_isempty_content\<close>)

interpretation ff: bounded_fifo "fifo_step zero" ff_content fifo_capacity ff_wf for zero
  by unfold_locales (rule fifo_step_refines)

lemma has_flag_as_fifo [simp]: "has_flag RCSW_DS_RBUFFER_AS_FIFO RCSW_DS_RBUFFER_AS_FIFO"
  by (simp add: has_flag_def flag_defs)

lemma has_flag_fifo_flags [simp]:
  "has_flag RCSW_NOALLOC_HANDLE RCSW_NOALLOC_HANDLE"
  "\<not> has_flag RCSW_NOALLOC_HANDLE RCSW_NOALLOC_DATA"
  "\<not> has_flag RCSW_DS_RBUFFER_AS_FIFO RCSW_NOALLOC_DATA"
  by (simp_all add: has_flag_def flag_defs)

lemma fifo_init_empty:
  assumes "fifo_init fifo_in handle block (Some p) = Some f"
    and "if has_flag (fp_flags p) RCSW_NOALLOC_DATA
         then \<exists>es. fp_elements p = Some es \<and> length es = fp_max_elts p
         else \<exists>es. block = Some es \<and> length es = fp_max_elts p"
  shows "ff_wf f" "ff_content f = []" "fifo_capacity f = fp_max_elts p"
proof -
  obtain es where f: "f = \<lparr>ff_rb =
      \<lparr>rb_cmpe = None, rb_elements = es, rb_current = 0, rb_max_elts = fp_max_elts p,
       rb_elt_size = fp_elt_size p, rb_start = 0,
       rb_flags = fp_flags p OR (RCSW_NOALLOC_HANDLE OR RCSW_DS_RBUFFER_AS_FIFO)\<rparr>,
      ff_elt_size = fp_elt_size p, ff_flags = fp_flags p\<rparr>"
    "length es = fp_max_elts p" "0 < fp_max_elts p"
    using assms
    by (auto simp: fifo_init_def rbuffer_init_def rcsw_alloc_mask Let_def
        split: if_splits option.splits)
  then show "ff_wf f" "ff_content f = []" "fifo_capacity f = fp_max_elts p"
    by (auto simp: ff_wf_def rb_wf_def ff_content_def rb_content_def fifo_capacity_def
        rbuffer_capacity_def)
qed

text \<open>
  C10: a FIFO initialised over memory for \<open>max_elts\<close> elements is empty and well formed, and
  every sequence of additions, removals, peeks, clears, element-wise updates and queries of the
  size, of fullness and of emptiness on it never faults, returns, operation by operation, exactly
  what a queue bounded by \<open>max_elts\<close> returns (\<open>ENOSPC\<close> when full, \<open>EINVAL\<close> when empty, the oldest
  element otherwise) and leaves the FIFO with that queue's content.
\<close>

theorem fifo_refines_bounded_queue:
  assumes "fifo_init fifo_in handle block (Some p) = Some f"
    and "if has_flag (fp_flags p) RCSW_NOALLOC_DATA
         then \<exists>es. fp_elements p = Some es \<and> length es = fp_max_elts p
         else \<exists>es. block = Some es \<and> length es = fp_max_elts p"
  shows "\<exists>outs f'. fifo_exec (fifo_step zero) ops f = Some (outs, f') \<and> ff_wf f' \<and>
    fifo_exec (\<lambda>op xs. Some (spec_step (fp_max_elts p) op xs)) ops [] = Some (outs, ff_content f')"
  using ff.exec_refines [of f zero ops] fifo_init_empty [OF assms] by auto

definition fifo_example :: "int fifo_params" where
  "fifo_example = \<lparr>fp_elements = None, fp_elt_size = 4, fp_max_elts = 2, fp_flags = 0\<rparr>"

lemma fifo_example_init:
  "\<exists>f. fifo_init None (Some ()) (Some [9, 9]) (Some fifo_example) = Some f"
  by (simp add: fifo_init_def fifo_example_def rbuffer_init_def rcsw_alloc_def noalloc_def
      has_flag_def flag_defs)

definition fifo_example_ops :: "int fifo_op list" where
  "fifo_example_ops = [Enq 1, Enq 2, Enq 3, Full, Deq, Enq 4, Peek, Apply uminus, Deq, Size, Clear, Deq, Empty, Enq 6]"

theorem fifo_refines_bounded_queue_witness:
  "\<exists>f f'. fifo_init None (Some ()) (Some [9, 9]) (Some fifo_example) = Some f \<and>
    fifo_exec (fifo_step 0) fifo_example_ops f = Some
      ([Answer OK None, Answer OK None, Answer (ERROR (Some ENOSPC)) None, Truth True, Answer OK (Some 1),
        Answer OK None, Element (Some 2), Answer OK None, Answer OK (Some (-2)), Count 1, Answer OK None,
        Answer fpc_error None, Truth True, Answer OK None], f') \<and> ff_content f' = [6]"
proof -
  obtain f where f: "fifo_init None (Some ()) (Some [9, 9]) (Some fifo_example) = Some f"
    using fifo_example_init by blast
  have spec: "fifo_exec (\<lambda>op xs. Some (spec_step 2 op xs)) fifo_example_ops [] = Some
      ([Answer OK None, Answer OK None, Answer (ERROR (Some ENOSPC)) None, Truth True, Answer OK (Some 1),
        Answer OK None, Element (Some 2), Answer OK None, Answer OK (Some (-2)), Count 1, Answer OK None,
        Answer fpc_error None, Truth True, Answer OK None], [6])"
    by (simp add: fifo_example_ops_def spec_add_def spec_remove_def)
  have cap: "fp_max_elts fifo_example = 2" by (simp add: fifo_example_def)
  have mem: "if has_flag (fp_flags fifo_example) RCSW_NOALLOC_DATA
      then \<exists>es. fp_elements fifo_example = Some es \<and> length es = fp_max_elts fifo_example
      else \<exists>es. Some [9, 9 :: int] = Some es \<and> length es = fp_max_elts fifo_example"
    by (simp add: fifo_example_def has_flag_def)
  show ?thesis
    using f fifo_refines_bounded_queue [OF f mem, of 0 fifo_example_ops] unfolding cap spec by auto
qed

end
