(* ===== verification/Sort.thy ===== *)
theory Sort
  imports Rcsw_Prelude
begin

text \<open>
  The array sorts of src/algorithm/sort.c: quicksort (recursive and with an explicit stack)
  and insertion sort. An array is the list of its elements; indices are C \<open>int\<close>s. The address
  of an element is an \<open>int\<close> product of index and element size: where it or another \<open>int\<close> result
  overflows, the function faults. Every access is checked too, so a total-correctness theorem
  includes memory safety and the absence of overflows, for arrays of less than 2 GiB. The loops
  that end only for a consistent comparison are partial functions.
\<close>

subsection \<open>Definitions\<close>

text \<open>
  Reading and writing at \<open>arr + index * (int)elt_size\<close>. The product is computed as an \<open>int\<close>;
  an element size that does not survive the conversion, or none at all, is a fault.
\<close>

definition offset :: "nat \<Rightarrow> int \<Rightarrow> int option" where
  "offset sz i = do {
     off \<leftarrow> int32 (i * int_of_size sz);
     if 0 < sz \<and> off = i * int sz then Some i else None
   }"

definition rd_at :: "nat \<Rightarrow> 'a list \<Rightarrow> int \<Rightarrow> 'a option" where
  "rd_at sz a i = do { i \<leftarrow> offset sz i; rd a i }"

definition wr_at :: "nat \<Rightarrow> 'a list \<Rightarrow> int \<Rightarrow> 'a \<Rightarrow> 'a list option" where
  "wr_at sz a i x = do { i \<leftarrow> offset sz i; wr a i x }"

text \<open>Blocks of \<open>n\<close> elements of \<open>sz\<close> bytes all of whose offsets are \<open>int\<close>s.\<close>

definition fits :: "nat \<Rightarrow> nat \<Rightarrow> bool" where
  "fits sz n \<longleftrightarrow> 0 < sz \<and> n * sz < 2 ^ 31"

lemma fits_length: "fits sz n \<Longrightarrow> n < 2 ^ 31"
proof -
  assume f: "fits sz n"
  then have "n * 1 \<le> n * sz" by (intro mult_le_mono2) (simp add: fits_def)
  then show "n < 2 ^ 31" using f unfolding fits_def by linarith
qed

lemma fits_mono: "fits sz n \<Longrightarrow> m \<le> n \<Longrightarrow> fits sz m"
  unfolding fits_def by (meson le_less_trans mult_le_mono1)

lemma offset_fits:
  assumes "fits sz n" and "0 \<le> i" and "i < int n"
  shows "offset sz i = Some i"
proof -
  obtain k where k: "i = int k" "k < n" using assms(2,3) by (metis nonneg_int_cases of_nat_less_iff)
  have "k * sz \<le> n * sz" using k(2) by (intro mult_le_mono1) simp
  then have "k * sz < 2 ^ 31" using assms(1) unfolding fits_def by linarith
  moreover have "1 * sz \<le> n * sz" using k(2) by (intro mult_le_mono1) simp
  then have "sz < 2 ^ 31" using assms(1) unfolding fits_def by linarith
  ultimately have "int32 (i * int_of_size sz) = Some (i * int sz)"
    using k(1) by (simp add: int32_def flip: of_nat_mult)
  then show ?thesis using assms(1) by (simp add: offset_def fits_def)
qed

lemma offset_same: "offset sz i = Some j \<Longrightarrow> j = i"
  by (auto simp: offset_def bind_eq_Some_conv split: if_splits)

lemma rd_at_fits: "fits sz n \<Longrightarrow> i < int n \<Longrightarrow> rd_at sz a i = rd a i"
  using offset_fits [of sz n i] by (cases "offset sz i") (auto simp: rd_at_def rd_def dest: offset_same)

lemma wr_at_fits: "fits sz n \<Longrightarrow> i < int n \<Longrightarrow> wr_at sz a i x = wr a i x"
  using offset_fits [of sz n i] by (cases "offset sz i") (auto simp: wr_at_def wr_def dest: offset_same)

lemma int32_fits: "fits sz n \<Longrightarrow> -1 \<le> i \<Longrightarrow> i \<le> int n \<Longrightarrow> int32 i = Some i"
  using fits_length [of sz n] by (simp add: int32_def)

text \<open>Exchange through a temporary, as the three \<open>memmove\<close> calls do.\<close>

definition mem_swap :: "nat \<Rightarrow> 'a list \<Rightarrow> int \<Rightarrow> int \<Rightarrow> 'a list option" where
  "mem_swap sz a i j = do {
     tmp \<leftarrow> rd_at sz a i;
     y \<leftarrow> rd_at sz a j;
     a1 \<leftarrow> wr_at sz a i y;
     wr_at sz a1 j tmp
   }"

function part_scan_left ::
  "nat \<Rightarrow> ('a \<Rightarrow> 'a \<Rightarrow> int) \<Rightarrow> 'a list \<Rightarrow> int \<Rightarrow> int \<Rightarrow> int \<Rightarrow> int option" where
  "part_scan_left sz cmpe a min_index max_index left =
     (case (rd_at sz a left, rd_at sz a min_index) of
        (Some x, Some pivot) \<Rightarrow>
          if cmpe x pivot \<le> 0 \<and> left < max_index
          then part_scan_left sz cmpe a min_index max_index (left + 1)
          else Some left
      | _ \<Rightarrow> None)"
  by pat_completeness auto
termination
  by (relation "measure (\<lambda>(sz, cmpe, a, mn, mx, left). nat (mx - left))") auto

function part_scan_right ::
  "nat \<Rightarrow> ('a \<Rightarrow> 'a \<Rightarrow> int) \<Rightarrow> 'a list \<Rightarrow> int \<Rightarrow> int \<Rightarrow> int option" where
  "part_scan_right sz cmpe a min_index right =
     (case (rd_at sz a right, rd_at sz a min_index) of
        (Some x, Some pivot) \<Rightarrow>
          if cmpe x pivot > 0 \<and> right > 0
          then part_scan_right sz cmpe a min_index (right - 1)
          else Some right
      | _ \<Rightarrow> None)"
  by pat_completeness auto
termination
  by (relation "measure (\<lambda>(sz, cmpe, a, mn, right). nat right)") auto

declare part_scan_left.simps [simp del] part_scan_right.simps [simp del]

partial_function (option) part_loop ::
  "nat \<Rightarrow> ('a \<Rightarrow> 'a \<Rightarrow> int) \<Rightarrow> int \<Rightarrow> int \<Rightarrow> 'a list \<Rightarrow> int \<Rightarrow> int \<Rightarrow> ('a list \<times> int) option" where
  "part_loop sz cmpe min_index max_index a left right =
     (if left < right then do {
        left1 \<leftarrow> part_scan_left sz cmpe a min_index max_index left;
        right1 \<leftarrow> part_scan_right sz cmpe a min_index right;
        a1 \<leftarrow> (if left1 < right1 then mem_swap sz a left1 right1 else Some a);
        part_loop sz cmpe min_index max_index a1 left1 right1
      } else Some (a, right))"

definition partition ::
  "nat \<Rightarrow> ('a \<Rightarrow> 'a \<Rightarrow> int) \<Rightarrow> 'a list \<Rightarrow> int \<Rightarrow> int \<Rightarrow> ('a list \<times> int) option" where
  "partition sz cmpe a min_index max_index = do {
     (a1, right) \<leftarrow> part_loop sz cmpe min_index max_index a min_index max_index;
     a2 \<leftarrow> mem_swap sz a1 min_index right;
     Some (a2, right)
   }"

partial_function (option) qsort_rec ::
  "nat \<Rightarrow> ('a \<Rightarrow> 'a \<Rightarrow> int) \<Rightarrow> 'a list \<Rightarrow> int \<Rightarrow> int \<Rightarrow> 'a list option" where
  "qsort_rec sz cmpe a min_index max_index =
     (if max_index > min_index then do {
        (a1, pivot) \<leftarrow> partition sz cmpe a min_index max_index;
        lo \<leftarrow> int32 (pivot - 1);
        a2 \<leftarrow> qsort_rec sz cmpe a1 min_index lo;
        hi \<leftarrow> int32 (pivot + 1);
        qsort_rec sz cmpe a2 hi max_index
      } else Some a)"

text \<open>
  The stack of \<open>qsort_iter\<close> is an array of \<open>max_index - min_index + 1\<close> integers: the model
  keeps its live entries, the top first, and a push onto a full one is out of bounds.
\<close>

definition stack_push :: "int \<Rightarrow> int list \<Rightarrow> int \<Rightarrow> int list option" where
  "stack_push cap st x = (if int (length st) < cap then Some (x # st) else None)"

partial_function (option) qsort_loop ::
  "nat \<Rightarrow> ('a \<Rightarrow> 'a \<Rightarrow> int) \<Rightarrow> int \<Rightarrow> 'a list \<Rightarrow> int list \<Rightarrow> 'a list option" where
  "qsort_loop sz cmpe cap a st =
     (case st of
        [] \<Rightarrow> Some a
      | max_index # st0 \<Rightarrow>
          (case st0 of
             [] \<Rightarrow> None
           | min_index # st1 \<Rightarrow> do {
               (a1, p) \<leftarrow> partition sz cmpe a min_index max_index;
               lo \<leftarrow> int32 (p - 1);
               st2 \<leftarrow> (if lo > min_index
                       then do { s \<leftarrow> stack_push cap st1 min_index; stack_push cap s lo }
                       else Some st1);
               hi \<leftarrow> int32 (p + 1);
               st3 \<leftarrow> (if hi < max_index
                       then do { s \<leftarrow> stack_push cap st2 hi; stack_push cap s max_index }
                       else Some st2);
               qsort_loop sz cmpe cap a1 st3
             }))"

definition qsort_iter :: "nat \<Rightarrow> ('a \<Rightarrow> 'a \<Rightarrow> int) \<Rightarrow> 'a list \<Rightarrow> int \<Rightarrow> 'a list option" where
  "qsort_iter sz cmpe a max_index =
     (let min_index = 0 in do {
        cap \<leftarrow> int32 (max_index - min_index + 1);
        if cap \<le> 0 then None
        else do {
          s0 \<leftarrow> stack_push cap [] min_index;
          s1 \<leftarrow> stack_push cap s0 max_index;
          qsort_loop sz cmpe cap a s1
        }
      })"

text \<open>Insertion sort: the inner loop shifts greater elements up by one.\<close>

function insertion_shift ::
  "nat \<Rightarrow> ('a \<Rightarrow> 'a \<Rightarrow> int) \<Rightarrow> 'a \<Rightarrow> 'a list \<Rightarrow> int \<Rightarrow> ('a list \<times> int) option" where
  "insertion_shift sz cmpe key a j =
     (if j \<ge> 0 then
        (case rd_at sz a j of
           None \<Rightarrow> None
         | Some x \<Rightarrow>
             if cmpe x key > 0 then
               (case wr_at sz a (j + 1) x of
                  None \<Rightarrow> None
                | Some a1 \<Rightarrow> insertion_shift sz cmpe key a1 (j - 1))
             else Some (a, j))
      else Some (a, j))"
  by pat_completeness auto
termination by (relation "measure (\<lambda>(sz, cmpe, key, a, j). nat (j + 1))") auto

declare insertion_shift.simps [simp del]

definition insertion_sort ::
  "('a \<Rightarrow> 'a \<Rightarrow> int) \<Rightarrow> nat \<Rightarrow> nat \<Rightarrow> 'a list \<Rightarrow> 'a list option" where
  "insertion_sort cmpe n_elts elt_size a =
     (if \<not> (n_elts > 0 \<and> elt_size > 0) then Some a
      else for_range 1 (nat (int_of_size n_elts))
        (\<lambda>i a. do {
           key \<leftarrow> rd_at elt_size a (int i);
           (a1, j) \<leftarrow> insertion_shift elt_size cmpe key a (int i - 1);
           wr_at elt_size a1 (j + 1) key
         }) a)"

subsection \<open>Rearranging a slice\<close>

text \<open>
  \<open>upd_in lo hi a b\<close>: \<open>b\<close> is a permutation of \<open>a\<close> that differs from it only in the
  slice from \<open>lo\<close> to \<open>hi\<close>.
\<close>

definition upd_in :: "nat \<Rightarrow> int \<Rightarrow> 'a list \<Rightarrow> 'a list \<Rightarrow> bool" where
  "upd_in lo hi a b \<longleftrightarrow> length b = length a \<and> mset b = mset a \<and>
     (\<forall>i < length a. i < lo \<or> hi < int i \<longrightarrow> b ! i = a ! i)"

lemma upd_in_refl [simp]: "upd_in lo hi a a"
  by (simp add: upd_in_def)

lemma upd_in_trans:
  "upd_in lo hi a b \<Longrightarrow> upd_in lo hi b c \<Longrightarrow> upd_in lo hi a c"
  by (auto simp: upd_in_def)

lemma upd_in_mono:
  "upd_in lo hi a b \<Longrightarrow> lo' \<le> lo \<Longrightarrow> hi \<le> hi' \<Longrightarrow> upd_in lo' hi' a b"
  by (auto simp: upd_in_def)

lemma upd_in_swp:
  assumes "lo \<le> i" "lo \<le> j" "int i \<le> hi" "int j \<le> hi" "hi < int (length a)"
  shows "upd_in lo hi a (swp a i j)"
  using assms by (auto simp: upd_in_def nth_swp)

text \<open>A predicate on the elements of the slice survives a rearrangement of it.\<close>

lemma upd_in_pred:
  assumes u: "upd_in lo hi a b" and hi: "hi < int (length a)"
    and Q: "\<And>i. lo \<le> i \<Longrightarrow> int i \<le> hi \<Longrightarrow> Q (a ! i)"
    and k: "lo \<le> k" "int k \<le> hi"
  shows "Q (b ! k)"
proof -
  let ?h = "nat (hi + 1)"
  have len: "length b = length a" using u by (simp add: upd_in_def)
  have h: "lo \<le> ?h" "?h \<le> length a" using k hi by auto
  have pre: "take lo b = take lo a" and post: "drop ?h b = drop ?h a"
    using u h by (auto simp: upd_in_def intro!: nth_equalityI)
  have split: "xs = take lo xs @ take (?h - lo) (drop lo xs) @ drop ?h xs" for xs :: "'a list"
    using h(1) by (metis append_take_drop_id drop_drop le_add_diff_inverse2)
  have ms: "mset xs = mset (take lo xs) + (mset (take (?h - lo) (drop lo xs)) + mset (drop ?h xs))"
    for xs :: "'a list"
    using arg_cong [OF split [of xs], of mset] unfolding mset_append .
  have "mset (take (?h - lo) (drop lo b)) = mset (take (?h - lo) (drop lo a))"
    using ms [of a] ms [of b] u unfolding pre post by (simp add: upd_in_def)
  then have "set (take (?h - lo) (drop lo b)) = set (take (?h - lo) (drop lo a))"
    by (rule mset_eq_setD)
  moreover have "b ! k \<in> set (take (?h - lo) (drop lo b))"
    using k h len by (auto simp: in_set_conv_nth intro!: exI [of _ "k - lo"])
  moreover have "\<forall>x \<in> set (take (?h - lo) (drop lo a)). Q x"
    using Q h by (auto simp: in_set_conv_nth)
  ultimately show ?thesis by blast
qed

lemma mem_swap_nat:
  "fits sz n \<Longrightarrow> i < n \<Longrightarrow> j < n \<Longrightarrow> n \<le> length a \<Longrightarrow> mem_swap sz a (int i) (int j) = Some (swp a i j)"
  by (simp add: mem_swap_def swp_def rd_at_fits wr_at_fits)

subsection \<open>Partition\<close>

lemma part_scan_left_spec:
  assumes "l \<le> hi" and "hi < length a" and "lo < length a"
    and "fits sz n" and "hi < n" and "lo < n"
  shows "\<exists>l'. part_scan_left sz cmpe a (int lo) (int hi) (int l) = Some (int l') \<and>
    l \<le> l' \<and> l' \<le> hi \<and> (\<forall>i. l \<le> i \<longrightarrow> i < l' \<longrightarrow> cmpe (a ! i) (a ! lo) \<le> 0) \<and>
    (l' = hi \<or> cmpe (a ! l') (a ! lo) > 0)"
proof -
  note at = rd_at_fits [OF assms(4)]
  show ?thesis
    using assms(1)
proof (induction "hi - l" arbitrary: l)
  case 0
  then have "part_scan_left sz cmpe a (int lo) (int hi) (int l) = Some (int l)"
    using assms by (subst part_scan_left.simps) (auto simp: at)
  with 0 show ?case by (intro exI [of _ l]) auto
next
  case (Suc d)
  show ?case
  proof (cases "cmpe (a ! l) (a ! lo) \<le> 0")
    case True
    have lt: "l < hi" using Suc.hyps(2) by simp
    have "d = hi - Suc l" "Suc l \<le> hi" using Suc.hyps(2) lt by auto
    from Suc.hyps(1) [OF this] obtain l' where
      l': "part_scan_left sz cmpe a (int lo) (int hi) (int (Suc l)) = Some (int l')"
      "Suc l \<le> l'" "l' \<le> hi" "\<forall>i. Suc l \<le> i \<longrightarrow> i < l' \<longrightarrow> cmpe (a ! i) (a ! lo) \<le> 0"
      "l' = hi \<or> cmpe (a ! l') (a ! lo) > 0" by blast
    have "part_scan_left sz cmpe a (int lo) (int hi) (int l) = Some (int l')"
      using l'(1) True lt assms
      by (simp add: part_scan_left.simps [of sz cmpe a "int lo" "int hi" "int l"] add.commute at)
    moreover have "\<forall>i. l \<le> i \<longrightarrow> i < l' \<longrightarrow> cmpe (a ! i) (a ! lo) \<le> 0"
      using l'(4) True by (metis le_neq_implies_less Suc_leI)
    ultimately show ?thesis using l' by auto
  next
    case False
    then have "part_scan_left sz cmpe a (int lo) (int hi) (int l) = Some (int l)"
      using assms Suc.prems by (subst part_scan_left.simps) (auto simp: at)
    with False Suc.prems show ?thesis by (intro exI [of _ l]) auto
  qed
qed
qed

lemma part_scan_right_spec:
  assumes "lo \<le> r" and "r < length a" and "cmpe (a ! lo) (a ! lo) \<le> 0"
    and "fits sz n" and "r < n"
  shows "\<exists>r'. part_scan_right sz cmpe a (int lo) (int r) = Some (int r') \<and>
    lo \<le> r' \<and> r' \<le> r \<and> (\<forall>i. r' < i \<longrightarrow> i \<le> r \<longrightarrow> cmpe (a ! i) (a ! lo) > 0) \<and>
    cmpe (a ! r') (a ! lo) \<le> 0"
proof -
  note at = rd_at_fits [OF assms(4)]
  show ?thesis
    using assms(1,2,5)
proof (induction "r - lo" arbitrary: r)
  case 0
  then have "part_scan_right sz cmpe a (int lo) (int r) = Some (int r)" "r = lo"
    using assms by (auto simp: part_scan_right.simps [of sz cmpe a "int lo" "int lo"] at)
  then show ?case using assms by (intro exI [of _ r]) auto
next
  case (Suc d)
  show ?case
  proof (cases "cmpe (a ! r) (a ! lo) > 0")
    case True
    have lt: "lo < r" using Suc.hyps(2) by simp
    have "d = r - 1 - lo" "lo \<le> r - 1" "r - 1 < length a" "r - 1 < n" using Suc.hyps(2) Suc.prems by auto
    from Suc.hyps(1) [OF this] obtain r' where
      r': "part_scan_right sz cmpe a (int lo) (int (r - 1)) = Some (int r')"
      "lo \<le> r'" "r' \<le> r - 1" "\<forall>i. r' < i \<longrightarrow> i \<le> r - 1 \<longrightarrow> cmpe (a ! i) (a ! lo) > 0"
      "cmpe (a ! r') (a ! lo) \<le> 0" by blast
    have "part_scan_right sz cmpe a (int lo) (int r) = Some (int r')"
      using r'(1) True lt Suc.prems
      by (simp add: part_scan_right.simps [of sz cmpe a "int lo" "int r"] of_nat_diff at)
    moreover have "\<forall>i. r' < i \<longrightarrow> i \<le> r \<longrightarrow> cmpe (a ! i) (a ! lo) > 0"
      using r'(4) True by (metis Suc_pred' lt le_SucE less_nat_zero_code not_gr_zero
          diff_Suc_1' One_nat_def)
    ultimately show ?thesis using r' lt by (intro exI [of _ r']) auto
  next
    case False
    then have "part_scan_right sz cmpe a (int lo) (int r) = Some (int r)"
      using Suc.prems by (subst part_scan_right.simps) (auto simp: at)
    with False Suc.prems show ?thesis by (intro exI [of _ r]) auto
  qed
qed

qed

text \<open>
  Between two rounds of the outer loop: left of \<open>l\<close> nothing exceeds the pivot, right of
  \<open>r\<close> everything does, and the pivot is still in the first slot.
\<close>

definition part_inv ::
  "('a \<Rightarrow> 'a \<Rightarrow> int) \<Rightarrow> 'a list \<Rightarrow> nat \<Rightarrow> nat \<Rightarrow> nat \<Rightarrow> nat \<Rightarrow> bool" where
  "part_inv cmpe a lo hi l r \<longleftrightarrow> hi < length a \<and> lo \<le> l \<and> l \<le> hi \<and> lo \<le> r \<and> r \<le> hi \<and>
     (\<forall>i. lo \<le> i \<longrightarrow> i < l \<longrightarrow> cmpe (a ! i) (a ! lo) \<le> 0) \<and>
     (\<forall>i. r < i \<longrightarrow> i \<le> hi \<longrightarrow> cmpe (a ! i) (a ! lo) > 0)"

definition part_done ::
  "('a \<Rightarrow> 'a \<Rightarrow> int) \<Rightarrow> 'a list \<Rightarrow> nat \<Rightarrow> nat \<Rightarrow> nat \<Rightarrow> bool" where
  "part_done cmpe a lo hi p \<longleftrightarrow> lo \<le> p \<and> p \<le> hi \<and>
     (\<forall>i. lo \<le> i \<longrightarrow> i \<le> p \<longrightarrow> cmpe (a ! i) (a ! lo) \<le> 0) \<and>
     (\<forall>i. p < i \<longrightarrow> i \<le> hi \<longrightarrow> cmpe (a ! i) (a ! lo) > 0)"

context cmp_order
begin

lemma part_scans:
  assumes inv: "part_inv cmpe a lo hi l r"
    and "fits sz n" and "hi < n"
  shows "\<exists>l' r'. part_scan_left sz cmpe a (int lo) (int hi) (int l) = Some (int l') \<and>
    part_scan_right sz cmpe a (int lo) (int r) = Some (int r') \<and>
    part_inv cmpe a lo hi l' r' \<and> l \<le> l' \<and> r' \<le> r \<and>
    cmpe (a ! r') (a ! lo) \<le> 0 \<and> (l' = hi \<or> cmpe (a ! l') (a ! lo) > 0)"
proof -
  have b: "l \<le> hi" "hi < length a" "lo < length a" "lo \<le> r" "r < length a"
    using inv by (auto simp: part_inv_def)
  have lt: "lo < n" "r < n" using inv assms(3) by (auto simp: part_inv_def)
  obtain l' where l': "part_scan_left sz cmpe a (int lo) (int hi) (int l) = Some (int l')"
    "l \<le> l'" "l' \<le> hi" "\<forall>i. l \<le> i \<longrightarrow> i < l' \<longrightarrow> cmpe (a ! i) (a ! lo) \<le> 0"
    "l' = hi \<or> cmpe (a ! l') (a ! lo) > 0"
    using part_scan_left_spec [OF b(1-3) assms(2,3), of cmpe] b lt by blast
  obtain r' where r': "part_scan_right sz cmpe a (int lo) (int r) = Some (int r')"
    "lo \<le> r'" "r' \<le> r" "\<forall>i. r' < i \<longrightarrow> i \<le> r \<longrightarrow> cmpe (a ! i) (a ! lo) > 0"
    "cmpe (a ! r') (a ! lo) \<le> 0"
    using part_scan_right_spec [OF b(4,5) _ assms(2), of cmpe] lt unfolding cmp_refl by blast
  have "part_inv cmpe a lo hi l' r'"
    unfolding part_inv_def
  proof (intro conjI allI impI)
    fix i assume "lo \<le> i" "i < l'"
    then show "cmpe (a ! i) (a ! lo) \<le> 0"
      using inv l'(4) by (cases "i < l") (auto simp: part_inv_def)
  next
    fix i assume "r' < i" "i \<le> hi"
    then show "cmpe (a ! i) (a ! lo) > 0"
      using inv r'(4) by (cases "i \<le> r") (auto simp: part_inv_def)
  qed (use inv l'(2,3) r'(2,3) in \<open>auto simp: part_inv_def\<close>)
  with l' r' show ?thesis by (intro exI [of _ l'] exI [of _ r'] conjI)
qed

lemma part_inv_done:
  assumes inv: "part_inv cmpe a lo hi l r" and ge: "\<not> l < r" and r: "cmpe (a ! r) (a ! lo) \<le> 0"
  shows "part_done cmpe a lo hi r"
  unfolding part_done_def
proof (intro conjI allI impI)
  fix i assume "lo \<le> i" "i \<le> r"
  then show "cmpe (a ! i) (a ! lo) \<le> 0"
    using inv ge r by (cases "i = r") (auto simp: part_inv_def)
qed (use inv in \<open>auto simp: part_inv_def\<close>)

lemma part_swap_inv:
  assumes inv: "part_inv cmpe a lo hi l r" and "l < r"
    and r: "cmpe (a ! r) (a ! lo) \<le> 0" and l: "cmpe (a ! l) (a ! lo) > 0"
  shows "part_inv cmpe (swp a l r) lo hi l r" "upd_in (Suc lo) (int hi) a (swp a l r)"
    "cmpe (swp a l r ! l) (swp a l r ! lo) \<le> 0"
proof -
  have b: "l < length a" "r < length a" "lo < l" "lo < length a"
    using assms by (auto simp: part_inv_def intro: le_neq_implies_less)
  have lo: "swp a l r ! lo = a ! lo" using b \<open>l < r\<close> by (simp add: nth_swp)
  show "cmpe (swp a l r ! l) (swp a l r ! lo) \<le> 0" using b r \<open>l < r\<close> lo by (simp add: nth_swp)
  show "part_inv cmpe (swp a l r) lo hi l r"
    using inv b lo \<open>l < r\<close> by (simp add: part_inv_def nth_swp)
  show "upd_in (Suc lo) (int hi) a (swp a l r)"
    using inv b \<open>l < r\<close> by (intro upd_in_swp) (auto simp: part_inv_def)
qed

lemma part_loop_spec:
  assumes "part_inv cmpe a lo hi l r" and "l < r" and "cmpe (a ! l) (a ! lo) \<le> 0"
    and "fits sz n" and "hi < n" and "n \<le> length a"
  shows "\<exists>a' p. part_loop sz cmpe (int lo) (int hi) a (int l) (int r) = Some (a', int p) \<and>
    upd_in (Suc lo) (int hi) a a' \<and> part_done cmpe a' lo hi p"
  using assms
proof (induction "r - l" arbitrary: a l r rule: less_induct)
  case less
  from part_scans [OF less.prems(1,4,5)] obtain l' r' where
    s: "part_scan_left sz cmpe a (int lo) (int hi) (int l) = Some (int l')"
      "part_scan_right sz cmpe a (int lo) (int r) = Some (int r')"
      "part_inv cmpe a lo hi l' r'" "l \<le> l'" "r' \<le> r"
      "cmpe (a ! r') (a ! lo) \<le> 0" "l' = hi \<or> cmpe (a ! l') (a ! lo) > 0" by blast
  show ?case
  proof (cases "l' < r'")
    case False
    have "part_loop sz cmpe (int lo) (int hi) a (int l) (int r) = Some (a, int r')"
      using s(1,2) less.prems(2) False by (simp add: part_loop.simps)
    then show ?thesis using part_inv_done [OF s(3) False s(6)]
      by (intro exI [of _ a] exI [of _ r']) simp
  next
    case True
    have gt: "cmpe (a ! l') (a ! lo) > 0" using s(3,7) True by (auto simp: part_inv_def)
    note sw = part_swap_inv [OF s(3) True s(6) gt]
    have b: "l' < length a" "r' < length a" using s(3) True by (auto simp: part_inv_def)
    have ln: "l' < n" "r' < n" using s(3) True less.prems(5) by (auto simp: part_inv_def)
    have unf: "part_loop sz cmpe (int lo) (int hi) a (int l) (int r) =
        part_loop sz cmpe (int lo) (int hi) (swp a l' r') (int l') (int r')"
      using s(1,2) less.prems(2) True b
      by (subst part_loop.simps) (simp add: mem_swap_nat [OF less.prems(4) ln less.prems(6)])
    have "l \<noteq> l'" using gt less.prems(3) by auto
    then have "r' - l' < r - l" using s(4,5) True by linarith
    from less.hyps [OF this sw(1) True sw(3) less.prems(4,5)] less.prems(6) obtain a' p where
      "part_loop sz cmpe (int lo) (int hi) (swp a l' r') (int l') (int r') = Some (a', int p)"
      "upd_in (Suc lo) (int hi) (swp a l' r') a'" "part_done cmpe a' lo hi p" by auto
    then show ?thesis using unf upd_in_trans [OF sw(2)] by metis
  qed
qed

text \<open>The whole partition: the pivot ends between the elements it separates.\<close>

lemma partition_spec:
  assumes "lo < hi" and "hi < length a"
    and "fits sz n" and "hi < n" and "n \<le> length a"
  shows "\<exists>a' p. partition sz cmpe a (int lo) (int hi) = Some (a', int p) \<and>
    upd_in lo (int hi) a a' \<and> lo \<le> p \<and> p \<le> hi \<and>
    (\<forall>i. lo \<le> i \<longrightarrow> i \<le> p \<longrightarrow> cmpe (a' ! i) (a' ! p) \<le> 0) \<and>
    (\<forall>i. p \<le> i \<longrightarrow> i \<le> hi \<longrightarrow> cmpe (a' ! p) (a' ! i) \<le> 0)"
proof -
  have "part_inv cmpe a lo hi lo hi" using assms by (auto simp: part_inv_def)
  from part_loop_spec [OF this assms(1) _ assms(3-5)] obtain a1 p where
    a1: "part_loop sz cmpe (int lo) (int hi) a (int lo) (int hi) = Some (a1, int p)"
      "upd_in (Suc lo) (int hi) a a1" "part_done cmpe a1 lo hi p" by auto
  have len: "length a1 = length a" using a1(2) by (simp add: upd_in_def)
  have b: "lo < length a1" "p < length a1" "lo \<le> p" "p \<le> hi"
    using assms a1(3) len by (auto simp: part_done_def)
  let ?a2 = "swp a1 lo p"
  have piv: "?a2 ! p = a1 ! lo" using b by (simp add: nth_swp)
  have lower: "cmpe (?a2 ! i) (?a2 ! p) \<le> 0" if "lo \<le> i" "i \<le> p" for i
    using that a1(3) b piv by (auto simp: part_done_def nth_swp)
  have upper: "cmpe (?a2 ! p) (?a2 ! i) \<le> 0" if "p \<le> i" "i \<le> hi" for i
  proof (cases "i = p")
    case False
    then have "cmpe (a1 ! i) (a1 ! lo) > 0" "?a2 ! i = a1 ! i"
      using that a1(3) b assms len by (auto simp: part_done_def nth_swp)
    then show ?thesis using piv by (simp add: cmp_gt_le)
  qed simp
  have "partition sz cmpe a (int lo) (int hi) = Some (?a2, int p)"
    using a1(1) mem_swap_nat [OF assms(3), of lo p a1] b assms(4,5) len by (simp add: partition_def)
  moreover have "upd_in lo (int hi) a ?a2"
    using upd_in_mono [OF a1(2), of lo "int hi"] upd_in_swp [of lo lo p "int hi" a1] b assms len
    by (auto intro: upd_in_trans)
  ultimately show ?thesis using lower upper b
    by (intro exI [of _ ?a2] exI [of _ p]) auto
qed

subsection \<open>Recursive quicksort\<close>

lemma qsort_rec_spec:
  assumes "int lo \<le> hi + 1" and "hi < int (length a)"
    and "fits sz n" and "hi < int n" and "n \<le> length a"
  shows "\<exists>a'. qsort_rec sz cmpe a (int lo) hi = Some a' \<and> upd_in lo hi a a' \<and>
    (\<forall>i j. lo \<le> i \<longrightarrow> i \<le> j \<longrightarrow> int j \<le> hi \<longrightarrow> cmpe (a' ! i) (a' ! j) \<le> 0)"
  using assms
proof (induction "nat (hi + 1 - int lo)" arbitrary: a lo hi rule: less_induct)
  case less
  show ?case
  proof (cases "int lo < hi")
    case False
    then have "qsort_rec sz cmpe a (int lo) hi = Some a" by (simp add: qsort_rec.simps)
    moreover have "cmpe (a ! i) (a ! j) \<le> 0" if "lo \<le> i" "i \<le> j" "int j \<le> hi" for i j
    proof -
      have "i = j" using False that by linarith
      then show ?thesis by simp
    qed
    ultimately show ?thesis by (intro exI [of _ a]) auto
  next
    case True
    define h where "h = nat hi"
    have h: "hi = int h" "lo < h" "h < length a" using True less.prems by (auto simp: h_def)
    have hn: "h < n" using less.prems(4) h(1) by simp
    from partition_spec [OF h(2,3) less.prems(3) hn less.prems(5)] obtain a1 p where
      p: "partition sz cmpe a (int lo) hi = Some (a1, int p)" "upd_in lo hi a a1" "lo \<le> p" "p \<le> h"
        "\<And>i. lo \<le> i \<Longrightarrow> i \<le> p \<Longrightarrow> cmpe (a1 ! i) (a1 ! p) \<le> 0"
        "\<And>i. p \<le> i \<Longrightarrow> i \<le> h \<Longrightarrow> cmpe (a1 ! p) (a1 ! i) \<le> 0"
      unfolding h(1) by blast
    have l1: "length a1 = length a" using p(2) by (simp add: upd_in_def)
    have "nat (int p - 1 + 1 - int lo) < nat (hi + 1 - int lo)" using p h by linarith
    from less.hyps [OF this, of a1] obtain a2 where
      a2: "qsort_rec sz cmpe a1 (int lo) (int p - 1) = Some a2" "upd_in lo (int p - 1) a1 a2"
        "\<And>i j. lo \<le> i \<Longrightarrow> i \<le> j \<Longrightarrow> int j \<le> int p - 1 \<Longrightarrow> cmpe (a2 ! i) (a2 ! j) \<le> 0"
      using p h l1 less.prems(3-5) hn by auto
    have l2: "length a2 = length a" using a2(2) l1 by (simp add: upd_in_def)
    have "nat (hi + 1 - int (Suc p)) < nat (hi + 1 - int lo)" using p h by linarith
    from less.hyps [OF this, of a2] obtain a3 where
      a3: "qsort_rec sz cmpe a2 (int p + 1) hi = Some a3" "upd_in (Suc p) hi a2 a3"
        "\<And>i j. Suc p \<le> i \<Longrightarrow> i \<le> j \<Longrightarrow> int j \<le> hi \<Longrightarrow> cmpe (a3 ! i) (a3 ! j) \<le> 0"
      using p h l2 less.prems(3-5) hn by (auto simp: add.commute)
    have same2: "a2 ! i = a1 ! i" if "p \<le> i" "i < length a" for i
      using a2(2) that l1 by (auto simp: upd_in_def)
    have same3: "a3 ! i = a2 ! i" if "i \<le> p" for i
      using a3(2) that l2 p(4) h(3) by (auto simp: upd_in_def)
    have lower: "cmpe (a3 ! i) (a3 ! p) \<le> 0" if "lo \<le> i" "i \<le> p" for i
    proof (cases "i = p")
      case False
      have "cmpe (a2 ! i) (a1 ! p) \<le> 0"
        by (rule upd_in_pred [OF a2(2), of "\<lambda>x. cmpe x (a1 ! p) \<le> 0"])
          (use p h l1 that False in auto)
      then show ?thesis using same3 [of i] same3 [of p] same2 [of p] that p h by simp
    qed simp
    have upper: "cmpe (a3 ! p) (a3 ! j) \<le> 0" if "p \<le> j" "int j \<le> hi" for j
    proof (cases "j = p")
      case False
      have "cmpe (a2 ! p) (a3 ! j) \<le> 0"
        by (rule upd_in_pred [OF a3(2), of "\<lambda>x. cmpe (a2 ! p) x \<le> 0"])
          (use p h l2 same2 that False in auto)
      then show ?thesis using same3 [of p] by simp
    qed simp
    have "cmpe (a3 ! i) (a3 ! j) \<le> 0" if ij: "lo \<le> i" "i \<le> j" "int j \<le> hi" for i j
    proof -
      consider "j < p" | "i \<le> p" "p \<le> j" | "p < i" using ij by linarith
      then show ?thesis
      proof cases
        case 1
        then show ?thesis using a2(3) [of i j] same3 [of i] same3 [of j] ij by simp
      next
        case 2
        then show ?thesis using lower [of i] upper [of j] ij cmp_trans by blast
      next
        case 3
        then show ?thesis using a3(3) [of i j] ij by simp
      qed
    qed
    moreover have i32: "int32 (int p - 1) = Some (int p - 1)" "int32 (int p + 1) = Some (int p + 1)"
      using int32_fits [OF less.prems(3)] p(4) hn by simp_all
    have "qsort_rec sz cmpe a (int lo) hi = Some a3"
      using True p(1) a2(1) a3(1) i32 by (subst qsort_rec.simps) simp
    moreover have "upd_in lo hi a a3"
      using p(2) upd_in_mono [OF a2(2), of lo hi] upd_in_mono [OF a3(2), of lo hi] p(3,4) h
      by (auto intro: upd_in_trans)
    ultimately show ?thesis by blast
  qed
qed

end

subsection \<open>Quicksort with an explicit stack\<close>

text \<open>
  The pending intervals, the top first, as the stack holds them; their total width bounds
  the stack, since an interval has at least two elements and takes two entries.
\<close>

definition ivs_stack :: "(nat \<times> nat) list \<Rightarrow> int list" where
  "ivs_stack ivs = concat (map (\<lambda>(mn, mx). [int mx, int mn]) ivs)"

definition ivs_width :: "(nat \<times> nat) list \<Rightarrow> nat" where
  "ivs_width ivs = sum_list (map (\<lambda>(mn, mx). mx + 1 - mn) ivs)"

definition ivs_ok :: "nat \<Rightarrow> (nat \<times> nat) list \<Rightarrow> bool" where
  "ivs_ok n ivs \<longleftrightarrow> (\<forall>(mn, mx) \<in> set ivs. mn < mx \<and> mx < n) \<and>
     sorted_wrt (\<lambda>(a, b) (c, d). b < c \<or> d < a) ivs"

lemma ivs_simps [simp]:
  "ivs_stack [] = []" "ivs_stack ((mn, mx) # ivs) = int mx # int mn # ivs_stack ivs"
  "ivs_width [] = 0" "ivs_width ((mn, mx) # ivs) = mx + 1 - mn + ivs_width ivs"
  "ivs_ok n []"
  "ivs_ok n ((mn, mx) # ivs) \<longleftrightarrow> mn < mx \<and> mx < n \<and> ivs_ok n ivs \<and>
     (\<forall>(c, d) \<in> set ivs. mx < c \<or> d < mn)"
  by (auto simp: ivs_stack_def ivs_width_def ivs_ok_def)

lemma length_ivs_stack: "length (ivs_stack ivs) = 2 * length ivs"
  by (induction ivs) auto

lemma ivs_width_ge: "ivs_ok n ivs \<Longrightarrow> 2 * length ivs \<le> ivs_width ivs"
  by (induction ivs) auto

text \<open>Two positions are in order unless some pending interval holds both.\<close>

definition sorted_but ::
  "('a \<Rightarrow> 'a \<Rightarrow> int) \<Rightarrow> nat \<Rightarrow> (nat \<times> nat) list \<Rightarrow> 'a list \<Rightarrow> bool" where
  "sorted_but cmpe n ivs a \<longleftrightarrow> (\<forall>i j. i < j \<longrightarrow> j < n \<longrightarrow>
     cmpe (a ! i) (a ! j) \<le> 0 \<or> (\<exists>(mn, mx) \<in> set ivs. mn \<le> i \<and> j \<le> mx))"

definition ivs_split :: "nat \<Rightarrow> nat \<Rightarrow> nat \<Rightarrow> (nat \<times> nat) list \<Rightarrow> (nat \<times> nat) list" where
  "ivs_split mn p mx ivs =
     (if p + 1 < mx then [(p + 1, mx)] else []) @ (if mn + 1 < p then [(mn, p - 1)] else []) @ ivs"

lemma ivs_split_ok:
  assumes "ivs_ok n ((mn, mx) # ivs)" and "mn \<le> p" and "p \<le> mx"
  shows "ivs_ok n (ivs_split mn p mx ivs)"
    and "ivs_width (ivs_split mn p mx ivs) < ivs_width ((mn, mx) # ivs)"
  using assms by (auto simp: ivs_split_def)

lemma stack_push_ok: "int (length st) < cap \<Longrightarrow> stack_push cap st x = Some (x # st)"
  by (simp add: stack_push_def)

context cmp_order
begin

lemma sorted_but_partition:
  assumes ok: "ivs_ok n ((mn, mx) # ivs)" and sb: "sorted_but cmpe n ((mn, mx) # ivs) a"
    and n: "n \<le> length a"
    and u: "upd_in mn (int mx) a b" and p: "mn \<le> p" "p \<le> mx"
    and lower: "\<And>i. mn \<le> i \<Longrightarrow> i \<le> p \<Longrightarrow> cmpe (b ! i) (b ! p) \<le> 0"
    and upper: "\<And>i. p \<le> i \<Longrightarrow> i \<le> mx \<Longrightarrow> cmpe (b ! p) (b ! i) \<le> 0"
  shows "sorted_but cmpe n (ivs_split mn p mx ivs) b"
  unfolding sorted_but_def
proof (intro allI impI)
  fix i j assume ij: "i < j" "j < n"
  have len: "j < length a" and hi: "int mx < int (length a)"
    using u ok ij n by (auto simp: upd_in_def)
  let ?in = "\<lambda>k. mn \<le> k \<and> k \<le> mx"
  have out: "cmpe (a ! k) (a ! l) \<le> 0 \<or> (\<exists>(c, d) \<in> set ivs. c \<le> k \<and> l \<le> d)"
    if "k < l" "l < n" "\<not> (?in k \<and> ?in l)" for k l
    using sb that unfolding sorted_but_def by fastforce
  have apart: "\<not> (c \<le> k \<and> k \<le> d)" if "(c, d) \<in> set ivs" "?in k" for c d k
    using ok that by fastforce
  have sub: "set ivs \<subseteq> set (ivs_split mn p mx ivs)" by (auto simp: ivs_split_def)
  show "cmpe (b ! i) (b ! j) \<le> 0 \<or>
      (\<exists>(mn', mx') \<in> set (ivs_split mn p mx ivs). mn' \<le> i \<and> j \<le> mx')"
  proof (cases "?in i"; cases "?in j")
    assume "?in i" "?in j"
    then consider "j < p" | "i \<le> p" "p \<le> j" | "p < i" using ij by linarith
    then show ?thesis
    proof cases
      case 2
      then show ?thesis using lower [of i] upper [of j] \<open>?in i\<close> \<open>?in j\<close> cmp_trans by blast
    qed (use ij \<open>?in i\<close> \<open>?in j\<close> in \<open>auto simp: ivs_split_def\<close>)
  next
    assume i: "?in i" and j: "\<not> ?in j"
    have "cmpe (a ! k) (a ! j) \<le> 0" if "mn \<le> k" "int k \<le> int mx" for k
      using out [of k j] apart [of _ _ k] that i j ij by fastforce
    then have "cmpe (b ! i) (a ! j) \<le> 0"
      using upd_in_pred [OF u hi, of "\<lambda>x. cmpe x (a ! j) \<le> 0" i] i by simp
    moreover have "b ! j = a ! j" using u j ij len by (auto simp: upd_in_def)
    ultimately show ?thesis by simp
  next
    assume i: "\<not> ?in i" and j: "?in j"
    have "cmpe (a ! i) (a ! k) \<le> 0" if "mn \<le> k" "int k \<le> int mx" for k
      using out [of i k] apart [of _ _ k] that i j ij ok by fastforce
    then have "cmpe (a ! i) (b ! j) \<le> 0"
      using upd_in_pred [OF u hi, of "\<lambda>x. cmpe (a ! i) x \<le> 0" j] j by simp
    moreover have "b ! i = a ! i" using u i ij len by (auto simp: upd_in_def)
    ultimately show ?thesis by simp
  next
    assume i: "\<not> ?in i" and j: "\<not> ?in j"
    then have "b ! i = a ! i" "b ! j = a ! j" using u ij len by (auto simp: upd_in_def)
    with out [of i j] i ij sub show ?thesis by auto
  qed
qed

lemma qsort_loop_spec:
  assumes "ivs_ok n ivs" and "sorted_but cmpe n ivs a" and "n \<le> length a"
    and "int (ivs_width ivs) \<le> cap"
    and "fits sz n"
  shows "\<exists>a'. qsort_loop sz cmpe cap a (ivs_stack ivs) = Some a' \<and> upd_in 0 (int n - 1) a a' \<and>
    sorted_cmp cmpe (take n a')"
  using assms
proof (induction "ivs_width ivs" arbitrary: a ivs rule: less_induct)
  case less
  show ?case
  proof (cases ivs)
    case Nil
    then have "sorted_cmp cmpe (take n a)"
      using less.prems(2) unfolding sorted_cmp_nth sorted_but_def by (auto simp: le_less)
    then show ?thesis using Nil by (simp add: qsort_loop.simps)
  next
    case (Cons iv ivs0)
    obtain mn mx where iv: "iv = (mn, mx)" by (cases iv)
    have ok: "ivs_ok n ((mn, mx) # ivs0)" using less.prems(1) Cons iv by simp
    then have b: "mn < mx" "mx < length a" using less.prems(3) by auto
    have mn: "mx < n" using ok by simp
    from partition_spec [OF b less.prems(5) mn less.prems(3)] obtain a1 p where
      p: "partition sz cmpe a (int mn) (int mx) = Some (a1, int p)" "upd_in mn (int mx) a a1"
        "mn \<le> p" "p \<le> mx"
        "\<And>i. mn \<le> i \<Longrightarrow> i \<le> p \<Longrightarrow> cmpe (a1 ! i) (a1 ! p) \<le> 0"
        "\<And>i. p \<le> i \<Longrightarrow> i \<le> mx \<Longrightarrow> cmpe (a1 ! p) (a1 ! i) \<le> 0" by blast
    let ?ivs = "ivs_split mn p mx ivs0"
    have len: "n \<le> length a1" using p(2) less.prems(3) by (auto simp: upd_in_def)
    have ok1: "ivs_ok n ?ivs" and w: "ivs_width ?ivs < ivs_width ivs"
      using ivs_split_ok [OF ok p(3,4)] Cons iv by auto
    have sb1: "sorted_but cmpe n ?ivs a1"
      using sorted_but_partition [OF ok _ less.prems(3) p(2-6)] less.prems(2) Cons iv by simp
    have cap: "2 * int (length ?ivs) \<le> cap"
      using ivs_width_ge [OF ok1] w less.prems(4) by linarith
    have i32: "int32 (int p - 1) = Some (int p - 1)" "int32 (int p + 1) = Some (int p + 1)"
      using int32_fits [OF less.prems(5)] p(4) mn by simp_all
    have "qsort_loop sz cmpe cap a (ivs_stack ivs) = qsort_loop sz cmpe cap a1 (ivs_stack ?ivs)"
      using p(1) cap p(3,4) i32 unfolding Cons iv
      by (subst qsort_loop.simps)
        (auto simp: ivs_split_def stack_push_ok length_ivs_stack of_nat_diff add.commute)
    moreover from less.hyps [OF w ok1 sb1 len] obtain a' where
      "qsort_loop sz cmpe cap a1 (ivs_stack ?ivs) = Some a'" "upd_in 0 (int n - 1) a1 a'"
      "sorted_cmp cmpe (take n a')"
      using w less.prems(4,5) by auto
    moreover have "upd_in 0 (int n - 1) a a1"
      using upd_in_mono [OF p(2), of 0 "int n - 1"] ok by auto
    ultimately show ?thesis by (auto intro: upd_in_trans)
  qed
qed

text \<open>Both sorts also sort a prefix and leave the slots behind it alone.\<close>

lemma qsort_iter_prefix:
  assumes "2 \<le> n" and "n \<le> length a"
    and "fits sz n"
  shows "\<exists>a'. qsort_iter sz cmpe a (int n - 1) = Some a' \<and> upd_in 0 (int n - 1) a a' \<and>
    sorted_cmp cmpe (take n a')"
proof -
  let ?mx = "n - 1"
  have 1: "ivs_ok n [(0, ?mx)]" "sorted_but cmpe n [(0, ?mx)] a"
    "int (ivs_width [(0, ?mx)]) \<le> int n"
    using assms by (auto simp: sorted_but_def)
  have "qsort_iter sz cmpe a (int n - 1) = qsort_loop sz cmpe (int n) a (ivs_stack [(0, ?mx)])"
    using assms(1) int32_fits [OF assms(3), of "int n"] by (auto simp: qsort_iter_def stack_push_ok of_nat_diff Let_def)
  with qsort_loop_spec [OF 1(1,2) assms(2) 1(3) assms(3)] show ?thesis by simp
qed

lemma qsort_rec_prefix:
  assumes "n \<le> length a"
    and "fits sz n"
  shows "\<exists>a'. qsort_rec sz cmpe a 0 (int n - 1) = Some a' \<and> upd_in 0 (int n - 1) a a' \<and>
    sorted_cmp cmpe (take n a')"
proof -
  from qsort_rec_spec [of 0 "int n - 1" a sz n] assms obtain a' where
    "qsort_rec sz cmpe a 0 (int n - 1) = Some a'" "upd_in 0 (int n - 1) a a'"
    "\<forall>i j. i \<le> j \<longrightarrow> int j \<le> int n - 1 \<longrightarrow> cmpe (a' ! i) (a' ! j) \<le> 0" by auto
  then show ?thesis using assms by (auto simp: sorted_cmp_nth)
qed

lemma qsort_iter_sorts:
  assumes "2 \<le> length a"
    and "fits sz (length a)"
  shows "\<exists>a'. qsort_iter sz cmpe a (int (length a) - 1) = Some a' \<and> mset a' = mset a \<and>
    sorted_cmp cmpe a'"
  using qsort_iter_prefix [of "length a" a sz] assms by (auto simp: upd_in_def)

lemma qsort_rec_sorts:
  assumes "fits sz (length a)"
  shows "\<exists>a'. qsort_rec sz cmpe a 0 (int (length a) - 1) = Some a' \<and> mset a' = mset a \<and>
     sorted_cmp cmpe a'"
  using qsort_rec_prefix [of "length a" a sz] assms by (auto simp: upd_in_def)

end

subsection \<open>Insertion sort\<close>

text \<open>
  The elements \<open>us\<close> before the hole are scanned from the right; those that exceed the key
  move up by one.
\<close>

lemma insertion_shift_spec:
  assumes "fits sz (length (us @ h # vs))"
  shows "\<exists>us1 us2 h'. us = us1 @ us2 \<and> (\<forall>x \<in> set us2. cmpe x key > 0) \<and>
     (us1 \<noteq> [] \<longrightarrow> cmpe (last us1) key \<le> 0) \<and>
     insertion_shift sz cmpe key (us @ h # vs) (int (length us) - 1) =
       Some (us1 @ h' # us2 @ vs, int (length us1) - 1)"
  using assms
proof (induction us arbitrary: h vs rule: rev_induct)
  case Nil
  show ?case by (simp add: insertion_shift.simps)
next
  case (snoc x us)
  note fit = snoc.prems
  have rd: "rd_at sz ((us @ [x]) @ h # vs) (int (length us)) = Some x"
    by (subst rd_at_fits [OF fit]) (simp_all add: rd_def nth_append)
  show ?case
  proof (cases "cmpe x key > 0")
    case True
    have "fits sz (length (us @ x # x # vs))" using fit by simp
    from snoc.IH [OF this] obtain us1 us2 h' where ih:
      "us = us1 @ us2" "\<forall>x \<in> set us2. cmpe x key > 0" "us1 \<noteq> [] \<longrightarrow> cmpe (last us1) key \<le> 0"
      "insertion_shift sz cmpe key (us @ x # x # vs) (int (length us) - 1) =
         Some (us1 @ h' # us2 @ x # vs, int (length us1) - 1)" by blast
    have "wr_at sz ((us @ [x]) @ h # vs) (int (length us) + 1) x = Some (us @ x # x # vs)"
      by (subst wr_at_fits [OF fit]) (simp_all add: wr_def nat_add_distrib list_update_append)
    then have "insertion_shift sz cmpe key ((us @ [x]) @ h # vs) (int (length us)) =
        Some (us1 @ h' # us2 @ x # vs, int (length us1) - 1)"
      using True rd ih(4) by (subst insertion_shift.simps) simp
    with ih True show ?thesis
      by (intro exI [of _ us1] exI [of _ "us2 @ [x]"] exI [of _ h']) auto
  next
    case False
    then have "insertion_shift sz cmpe key ((us @ [x]) @ h # vs) (int (length us)) =
        Some ((us @ [x]) @ h # vs, int (length us))"
      using rd by (subst insertion_shift.simps) simp
    with False show ?thesis
      by (intro exI [of _ "us @ [x]"] exI [of _ "[]"] exI [of _ h]) simp
  qed
qed

context cmp_order
begin

lemma sorted_insert_between:
  assumes "sorted_cmp cmpe (us1 @ us2)" and "\<forall>x \<in> set us2. cmpe x key > 0"
    and "us1 \<noteq> [] \<longrightarrow> cmpe (last us1) key \<le> 0"
  shows "sorted_cmp cmpe (us1 @ key # us2)"
proof -
  have "cmpe x key \<le> 0" if "x \<in> set us1" for x
  proof -
    have "us1 = butlast us1 @ [last us1]" using that by (metis append_butlast_last_id empty_iff
          empty_set)
    moreover have "sorted_cmp cmpe us1" using assms(1) by (simp add: sorted_cmp_append)
    ultimately have "x = last us1 \<or> cmpe x (last us1) \<le> 0"
      using that sorted_cmp_append [of "butlast us1" "[last us1]"]
      by (metis UnE empty_iff empty_set list.set_intros(1) set_ConsD set_append)
    then show ?thesis using assms(3) that cmp_trans by fastforce
  qed
  moreover have "cmpe key x \<le> 0" if "x \<in> set us2" for x
    using assms(2) that by (simp add: cmp_gt_le)
  moreover have "cmpe x y \<le> 0" if "x \<in> set us1" "y \<in> set us2" for x y
    using assms(1) that by (simp add: sorted_cmp_append)
  ultimately show ?thesis using assms(1) by (auto simp: sorted_cmp_append sorted_cmp_Cons)
qed

lemma insertion_step:
  assumes "i < length a" and "sorted_cmp cmpe (take i a)"
    and "fits sz (length a)"
  shows "\<exists>a'. (do {
           key \<leftarrow> rd_at sz a (int i);
           (a1, j) \<leftarrow> insertion_shift sz cmpe key a (int i - 1);
           wr_at sz a1 (j + 1) key
         }) = Some a' \<and> length a' = length a \<and> mset a' = mset a \<and>
      sorted_cmp cmpe (take (Suc i) a') \<and> drop (Suc i) a' = drop (Suc i) a"
proof -
  let ?us = "take i a" and ?vs = "drop (Suc i) a" and ?key = "a ! i"
  have a: "a = ?us @ ?key # ?vs" using assms(1) by (simp add: id_take_nth_drop)
  have len: "length ?us = i" using assms(1) by simp
  have fit: "fits sz (length (?us @ ?key # ?vs))" using assms(3) a by metis
  from insertion_shift_spec [OF fit, of cmpe ?key] obtain us1 us2 h' where
    s: "?us = us1 @ us2" "\<forall>x \<in> set us2. cmpe x ?key > 0" "us1 \<noteq> [] \<longrightarrow> cmpe (last us1) ?key \<le> 0"
      "insertion_shift sz cmpe ?key a (int i - 1) = Some (us1 @ h' # us2 @ ?vs, int (length us1) - 1)"
    unfolding len using a by metis
  have l: "i = length us1 + length us2" using s(1) len by (metis length_append)
  let ?a' = "us1 @ ?key # us2 @ ?vs"
  have "sorted_cmp cmpe (us1 @ ?key # us2)"
    using sorted_insert_between [of us1 us2 ?key] assms(2) s(1-3) by simp
  moreover have "take (Suc i) ?a' = us1 @ ?key # us2" "drop (Suc i) ?a' = ?vs"
    using l by (simp_all)
  moreover have "mset ?a' = mset a" "length ?a' = length a"
    using arg_cong [OF a, of mset] s(1) assms(1) l by auto
  moreover have "(do {
           key \<leftarrow> rd_at sz a (int i);
           (a1, j) \<leftarrow> insertion_shift sz cmpe key a (int i - 1);
           wr_at sz a1 (j + 1) key
         }) = Some ?a'"
  proof -
    have "rd_at sz a (int i) = Some ?key" using assms(1) rd_at_fits [OF assms(3), of "int i" a] by simp
    moreover have "wr_at sz (us1 @ h' # us2 @ ?vs) (int (length us1)) ?key = Some ?a'"
      using assms(1) l
        wr_at_fits [OF assms(3), of "int (length us1)" "us1 @ h' # us2 @ ?vs" ?key] by simp
    ultimately show ?thesis using s(4) by simp
  qed
  ultimately show ?thesis by metis
qed

lemma insertion_sort_sorts:
  assumes "0 < length a" and "fits elt_size (length a)"
  shows "\<exists>a'. insertion_sort cmpe (length a) elt_size a = Some a' \<and> mset a' = mset a \<and>
    sorted_cmp cmpe a'"
proof -
  let ?P = "\<lambda>k a'. length a' = length a \<and> mset a' = mset a \<and> sorted_cmp cmpe (take k a')"
  let ?body = "\<lambda>i a. do {
           key \<leftarrow> rd_at elt_size a (int i);
           (a1, j) \<leftarrow> insertion_shift elt_size cmpe key a (int i - 1);
           wr_at elt_size a1 (j + 1) key
         }"
  have "\<exists>a'. for_range 1 (length a) ?body a = Some a' \<and> ?P (length a) a'"
  proof (rule for_range_inv [where P = ?P])
    fix k t assume "k < length a" "?P k t"
    then show "\<exists>t'. ?body k t = Some t' \<and> ?P (Suc k) t'"
      using insertion_step [of k t elt_size] assms(2) by auto
  qed (use assms in \<open>auto simp: take_Suc_conv_app_nth neq_Nil_conv\<close>)
  then show ?thesis using assms fits_length [OF assms(2)] by (auto simp: insertion_sort_def fits_def)
qed

end

subsection \<open>Properties\<close>

text \<open>The comparison the examples use.\<close>

definition cmp_int :: "int \<Rightarrow> int \<Rightarrow> int" where
  "cmp_int x y = x - y"

interpretation cint: cmp_order cmp_int
  by unfold_locales (auto simp: cmp_int_def)

text \<open>
  C14: with a comparison that is a total preorder, recursive quicksort over a whole array of
  less than 2 GiB returns without leaving its bounds and without overflow of an \<open>int\<close>, and its
  result is sorted and a permutation of the input.
\<close>

theorem qsort_rec_correct:
  assumes "cmp_order cmpe" and "fits sz (length a)"
  shows "\<exists>a'. qsort_rec sz cmpe a 0 (int (length a) - 1) = Some a' \<and> mset a' = mset a \<and>
    sorted_cmp cmpe a'"
  using assms by (rule cmp_order.qsort_rec_sorts)

theorem qsort_rec_correct_witness:
  "\<exists>a'. qsort_rec 4 cmp_int [3, 1, 2] 0 2 = Some a' \<and> mset a' = mset [3, 1, 2] \<and>
    sorted_cmp cmp_int a'"
  using qsort_rec_correct [OF cint.cmp_order_axioms, of 4 "[3, 1, 2]"] by (simp add: fits_def)

text \<open>
  C15: the same of iterative quicksort on an array of two or more elements; its explicit
  stack, an array of as many integers as there are elements, never overflows, and no \<open>int\<close>
  result does where the array takes less than 2 GiB.
\<close>

theorem qsort_iter_correct:
  assumes "cmp_order cmpe" and "2 \<le> length a" and "fits sz (length a)"
  shows "\<exists>a'. qsort_iter sz cmpe a (int (length a) - 1) = Some a' \<and> mset a' = mset a \<and>
    sorted_cmp cmpe a'"
  using assms by (rule cmp_order.qsort_iter_sorts)

theorem qsort_iter_correct_witness:
  "\<exists>a'. qsort_iter 4 cmp_int [3, 1, 2] 2 = Some a' \<and> mset a' = mset [3, 1, 2] \<and>
    sorted_cmp cmp_int a'"
  using qsort_iter_correct [OF cint.cmp_order_axioms, of "[3, 1, 2]" 4] by (simp add: fits_def)

text \<open>
  On an array of one element iterative quicksort writes beyond its one-entry stack: it
  pushes both bounds before it looks at them.
\<close>

theorem qsort_iter_single_overflows: "qsort_iter sz cmpe [x] (int (length [x]) - 1) = None"
  by (simp add: qsort_iter_def stack_push_def int32_def)

text \<open>
  Insertion sort of a non-empty array returns without leaving its bounds, and its
  result is sorted and a permutation of the input.
\<close>

theorem insertion_sort_correct:
  assumes "cmp_order cmpe" and "0 < length a" and "fits elt_size (length a)"
  shows "\<exists>a'. insertion_sort cmpe (length a) elt_size a = Some a' \<and> mset a' = mset a \<and>
    sorted_cmp cmpe a'"
  using assms by (rule cmp_order.insertion_sort_sorts)

theorem insertion_sort_correct_witness:
  "\<exists>a'. insertion_sort cmp_int 3 4 [3, 1, 2] = Some a' \<and> mset a' = mset [3, 1, 2] \<and>
    sorted_cmp cmp_int a'"
proof -
  have len: "length [3, 1, 2 :: int] = 3" by simp
  show ?thesis
    using insertion_sort_correct [OF cint.cmp_order_axioms, of "[3, 1, 2]" 4] unfolding len
    by (simp add: fits_def)
qed

end
