(* ===== verification/Search.thy ===== *)
theory Search
  imports Sort
begin

text \<open>
  Binary search (src/algorithm/search.c), iterative and recursive. Both return the index of
  an element that compares equal or -1; \<open>None\<close> is a read out of bounds or an \<open>int\<close> overflow,
  of the sum of the two ends, of a neighbour of the middle or of the offset of an element.
\<close>

subsection \<open>Definitions\<close>

text \<open>
  The sum is an \<open>int\<close>, and C division truncates; a negative middle index is a fault of the
  read that follows.
\<close>

definition mid_index :: "int \<Rightarrow> int \<Rightarrow> int option" where
  "mid_index low high = do {
     s \<leftarrow> int32 (low + high);
     Some (if 0 \<le> s then s div 2 else - (- s div 2))
   }"

lemma mid_index_bounds: "low \<le> high \<Longrightarrow> mid_index low high = Some m \<Longrightarrow> low \<le> m \<and> m \<le> high"
  by (auto simp: mid_index_def int32_def split: if_splits)

lemma mid_index_fits:
  "0 \<le> low \<Longrightarrow> 0 \<le> high \<Longrightarrow> low + high < 2 ^ 31 \<Longrightarrow> mid_index low high = Some ((low + high) div 2)"
  by (simp add: mid_index_def int32_def)

partial_function (option) bsearch_loop ::
  "nat \<Rightarrow> ('a \<Rightarrow> 'a \<Rightarrow> int) \<Rightarrow> 'a list \<Rightarrow> 'a \<Rightarrow> int \<Rightarrow> int \<Rightarrow> int option" where
  "bsearch_loop sz cmpe a e low high =
     (if low \<le> high then do {
        index \<leftarrow> mid_index low high;
        x \<leftarrow> rd_at sz a index;
        if cmpe x e = 0 then Some index
        else if cmpe e x < 0 then do {
          high1 \<leftarrow> int32 (index - 1);
          bsearch_loop sz cmpe a e low high1
        }
        else do {
          low1 \<leftarrow> int32 (index + 1);
          bsearch_loop sz cmpe a e low1 high
        }
      }
      else Some (-1))"

definition bsearch_iter ::
  "'a list option \<Rightarrow> 'a option \<Rightarrow> ('a \<Rightarrow> 'a \<Rightarrow> int) option \<Rightarrow> nat \<Rightarrow> int \<Rightarrow> int \<Rightarrow> int option" where
  "bsearch_iter a e cmpe elt_size low high =
     (case (a, e, cmpe) of
        (Some arr, Some x, Some c) \<Rightarrow> bsearch_loop elt_size c arr x low high
      | _ \<Rightarrow> Some (-1))"

partial_function (option) bsearch_rec ::
  "'a list option \<Rightarrow> 'a option \<Rightarrow> ('a \<Rightarrow> 'a \<Rightarrow> int) option \<Rightarrow> nat \<Rightarrow> int \<Rightarrow> int \<Rightarrow> int option" where
  "bsearch_rec a e cmpe elt_size low high =
     (case (a, e, cmpe) of
        (Some arr, Some x, Some c) \<Rightarrow>
          if low > high then Some (-1)
          else do {
            mid \<leftarrow> mid_index low high;
            y \<leftarrow> rd_at elt_size arr mid;
            let rval = c x y in
            if rval = 0 then Some mid
            else if rval < 0 then
              (if low = mid then Some (-1)
               else do { high1 \<leftarrow> int32 (mid - 1); bsearch_rec a e cmpe elt_size low high1 })
            else
              (if high = mid then Some (-1)
               else do { low1 \<leftarrow> int32 (mid + 1); bsearch_rec a e cmpe elt_size low1 high })
          }
      | _ \<Rightarrow> Some (-1))"

subsection \<open>Correctness on sorted arrays\<close>

context cmp_order
begin

text \<open>
  What a search over the slots \<open>low\<close> to \<open>high\<close> answers: an index in that range whose
  element compares equal, or -1 when there is none.
\<close>

lemma bsearch_loop_spec:
  assumes "sorted_cmp cmpe (take n a)" and "n \<le> length a"
    and fit: "fits sz n" "n \<le> 2 ^ 30" and "0 \<le> low" and "high < int n"
  shows "\<exists>r. bsearch_loop sz cmpe a e low high = Some r \<and>
    (low \<le> r \<and> r \<le> high \<and> cmpe (a ! nat r) e = 0 \<or>
     r = -1 \<and> (\<forall>i. low \<le> int i \<longrightarrow> int i \<le> high \<longrightarrow> cmpe (a ! i) e \<noteq> 0))"
  using assms(5,6)
proof (induction "nat (high + 1 - low)" arbitrary: low high rule: less_induct)
  case less
  show ?case
  proof (cases "low \<le> high")
    case False
    then show ?thesis by (auto simp: bsearch_loop.simps)
  next
    case True
    have "low + high < 2 ^ 31" using fit(2) less.prems True by simp
    define m where "m = nat ((low + high) div 2)"
    have m: "mid_index low high = Some (int m)" "low \<le> int m" "int m \<le> high" "m < n"
      using mid_index_fits [OF _ _ \<open>low + high < 2 ^ 31\<close>] less.prems True by (auto simp: m_def)
    have rd: "rd_at sz a (int m) = Some (a ! m)"
      using rd_at_fits [OF fit(1), of "int m" a] m assms(2) by simp
    have i32: "int32 (int m - 1) = Some (int m - 1)" "int32 (int m + 1) = Some (int m + 1)"
      using int32_fits [OF fit(1)] m(4) by simp_all
    have mono: "cmpe (a ! i) (a ! j) \<le> 0" if "i \<le> j" "j < n" for i j
      using assms(1,2) that by (auto simp: sorted_cmp_nth)
    consider "cmpe (a ! m) e = 0" | "cmpe (a ! m) e \<noteq> 0" "cmpe e (a ! m) < 0"
      | "cmpe (a ! m) e \<noteq> 0" "\<not> cmpe e (a ! m) < 0" by blast
    then show ?thesis
    proof cases
      case 1
      then show ?thesis using True rd m by (auto simp: bsearch_loop.simps [of sz cmpe a e low high])
    next
      case 2
      have none: "cmpe (a ! i) e \<noteq> 0" if "int m \<le> int i" "int i \<le> high" for i
        using cmp_less_trans [OF 2(2) mono [of m i]] that less.prems cmp_zero [of "a ! i" e] by auto
      have "nat (int m - 1 + 1 - low) < nat (high + 1 - low)" using m by linarith
      from less.hyps [OF this] less.prems m obtain r where
        "bsearch_loop sz cmpe a e low (int m - 1) = Some r"
        "low \<le> r \<and> r \<le> int m - 1 \<and> cmpe (a ! nat r) e = 0 \<or>
         r = -1 \<and> (\<forall>i. low \<le> int i \<longrightarrow> int i \<le> int m - 1 \<longrightarrow> cmpe (a ! i) e \<noteq> 0)" by auto
      then show ?thesis using True rd m 2 none i32
        by (subst bsearch_loop.simps) (fastforce simp: not_le)
    next
      case 3
      then have lt: "cmpe (a ! m) e < 0"
        using cmp_zero [of "a ! m" e] cmp_swap [of "a ! m" e] by linarith
      have none: "cmpe (a ! i) e \<noteq> 0" if "low \<le> int i" "int i \<le> int m" for i
        using cmp_le_less_trans [OF mono [of i m] lt] that m by auto
      have "nat (high + 1 - (int m + 1)) < nat (high + 1 - low)" using m by linarith
      from less.hyps [OF this] less.prems m obtain r where
        "bsearch_loop sz cmpe a e (int m + 1) high = Some r"
        "int m + 1 \<le> r \<and> r \<le> high \<and> cmpe (a ! nat r) e = 0 \<or>
         r = -1 \<and> (\<forall>i. int m + 1 \<le> int i \<longrightarrow> int i \<le> high \<longrightarrow> cmpe (a ! i) e \<noteq> 0)" by auto
      then show ?thesis using True rd m 3 none i32
        by (subst bsearch_loop.simps) (fastforce simp: not_le)
    qed
  qed
qed

text \<open>The recursive search takes the same decisions, so it returns the same index.\<close>

lemma bsearch_loop_empty: "high < low \<Longrightarrow> bsearch_loop sz cmpe a e low high = Some (-1)"
  by (simp add: bsearch_loop.simps)

lemma bsearch_rec_loop:
  assumes "fits sz n" and "0 \<le> low" and "high < int n"
  shows "bsearch_rec (Some a) (Some e) (Some cmpe) sz low high = bsearch_loop sz cmpe a e low high"
  using assms(2,3)
proof (induction "nat (high + 1 - low)" arbitrary: low high rule: less_induct)
  case less
  note step = bsearch_rec.simps [of _ _ _ _ low high] bsearch_loop.simps [of sz cmpe a e low high]
  show ?case
  proof (cases "low \<le> high")
    case False
    then show ?thesis by (simp add: step)
  next
    case True
    show ?thesis
    proof (cases "mid_index low high")
      case None
      with True show ?thesis by (simp add: step)
    next
      case (Some m)
      note b = mid_index_bounds [OF True this]
      have i32: "int32 (m - 1) = Some (m - 1)" "int32 (m + 1) = Some (m + 1)"
        using int32_fits [OF assms(1)] b less.prems by simp_all
      have lower: "low \<noteq> m \<Longrightarrow> bsearch_rec (Some a) (Some e) (Some cmpe) sz low (m - 1) =
          bsearch_loop sz cmpe a e low (m - 1)"
        using b less.prems by (intro less.hyps) linarith+
      have upper: "high \<noteq> m \<Longrightarrow> bsearch_rec (Some a) (Some e) (Some cmpe) sz (m + 1) high =
          bsearch_loop sz cmpe a e (m + 1) high"
        using b less.prems by (intro less.hyps) linarith+
      have eq: "low = m \<Longrightarrow> bsearch_loop sz cmpe a e low (m - 1) = Some (-1)"
        "high = m \<Longrightarrow> bsearch_loop sz cmpe a e (m + 1) high = Some (-1)"
        by (simp_all add: bsearch_loop_empty)
      show ?thesis
      proof (cases "rd_at sz a m")
        case None
        with True Some show ?thesis by (simp add: step)
      next
        case (Some y)
        have z: "cmpe y e = 0 \<longleftrightarrow> cmpe e y = 0" using cmp_zero [of y e] cmp_zero [of e y] by blast
        show ?thesis
          using True \<open>mid_index low high = Some m\<close> Some lower upper eq i32 z
          by (simp add: step Let_def)
      qed
    qed
  qed
qed

lemma bsearch_found:
  assumes "sorted_cmp cmpe (take n a)" and "n \<le> length a" and "fits sz n" and "n \<le> 2 ^ 30"
  shows "\<exists>r. bsearch_rec (Some a) (Some e) (Some cmpe) sz 0 (int n - 1) = Some r \<and>
    bsearch_iter (Some a) (Some e) (Some cmpe) sz 0 (int n - 1) = Some r \<and>
    (0 \<le> r \<and> r < int n \<and> cmpe (a ! nat r) e = 0 \<or>
     r = -1 \<and> (\<forall>i < n. cmpe (a ! i) e \<noteq> 0))"
  using bsearch_loop_spec [OF assms, of 0 "int n - 1" e]
    bsearch_rec_loop [OF assms(3), of 0 "int n - 1" a e]
  by (auto simp: bsearch_iter_def)

end

text \<open>
  C28: over the first \<open>n\<close> slots of a sorted array, at most \<open>2 ^ 30\<close> of them in less than 2 GiB,
  the recursive and the iterative binary search return the same value without leaving the
  array and without overflow of an \<open>int\<close>: an index whose element compares equal to the one
  searched for, and -1 exactly when there is none.
\<close>

theorem bsearch_correct:
  assumes "cmp_order cmpe" and "sorted_cmp cmpe (take n a)" and "n \<le> length a"
    and "fits sz n" and "n \<le> 2 ^ 30"
  shows "\<exists>r. bsearch_rec (Some a) (Some e) (Some cmpe) sz 0 (int n - 1) = Some r \<and>
    bsearch_iter (Some a) (Some e) (Some cmpe) sz 0 (int n - 1) = Some r \<and>
    (0 \<le> r \<and> r < int n \<and> cmpe (a ! nat r) e = 0 \<or>
     r = -1 \<and> (\<forall>i < n. cmpe (a ! i) e \<noteq> 0))"
  using assms by (rule cmp_order.bsearch_found)

theorem bsearch_correct_witness:
  "\<exists>r. bsearch_rec (Some [1, 3, 5, 0]) (Some 3) (Some cmp_int) 4 0 2 = Some r \<and>
    bsearch_iter (Some [1, 3, 5, 0]) (Some 3) (Some cmp_int) 4 0 2 = Some r \<and>
    (0 \<le> r \<and> r < 3 \<and> cmp_int ([1, 3, 5, 0] ! nat r) 3 = 0 \<or>
     r = -1 \<and> (\<forall>i < 3. cmp_int ([1, 3, 5, 0] ! i) 3 \<noteq> 0))"
proof -
  have "sorted_cmp cmp_int (take 3 [1, 3, 5, 0])"
    by (simp add: sorted_cmp_def cmp_int_def)
  from bsearch_correct [OF cint.cmp_order_axioms this, of 4 3] show ?thesis by (simp add: fits_def)
qed

text \<open>Without the bound on the ends their sum overflows, whatever the array holds.\<close>

lemma bsearch_overflows:
  assumes "2 ^ 30 \<le> low" and "low \<le> high" and "2 ^ 31 \<le> low + high"
  shows "bsearch_iter (Some a) (Some e) (Some cmpe) sz low high = None"
  using assms by (simp add: bsearch_iter_def bsearch_loop.simps mid_index_def int32_def)

end
