(* ===== verification/Darray.thy ===== *)
theory Darray
  imports Alloc Search
begin

text \<open>
  The dynamic array (src/ds/darray.c, include/rcsw/ds/darray.h). The block is a list of
  slots; \<open>capacity\<close> is what the array believes its length to be. The answer of \<open>malloc\<close> or
  \<open>realloc\<close> is a parameter: \<open>None\<close> is a failure, \<open>Some junk\<close> a block whose slot \<open>i\<close> holds
  \<open>junk i\<close> where nothing was copied to it. An operation returns \<open>None\<close> when it accesses a
  slot outside the block.
\<close>

subsection \<open>State\<close>

type_synonym 'a mem = "(nat \<Rightarrow> 'a) option"

record 'a darray_params =
  dap_cmpe :: "('a \<Rightarrow> 'a \<Rightarrow> int) option"
  dap_elements :: "'a list option"
  dap_elt_size :: nat
  dap_max_elts :: int
  dap_flags :: u32
  dap_init_size :: nat

text \<open>\<open>elements\<close> is the empty list while the pointer is \<open>NULL\<close>.\<close>

record 'a darray =
  da_elements :: "'a list"
  da_current :: nat
  da_capacity :: nat
  da_elt_size :: nat
  da_sorted :: bool
  da_max_elts :: int
  da_flags :: u32
  da_cmpe :: "('a \<Rightarrow> 'a \<Rightarrow> int) option"

definition malloc_block :: "nat \<Rightarrow> 'a mem \<Rightarrow> 'a list option" where
  "malloc_block n mem = map_option (\<lambda>junk. map junk [0..<n]) mem"

definition realloc_block :: "'a list \<Rightarrow> nat \<Rightarrow> 'a mem \<Rightarrow> 'a list option" where
  "realloc_block old n mem =
     map_option (\<lambda>junk. map (\<lambda>i. if i < length old then old ! i else junk i) [0..<n]) mem"

definition da_content :: "'a darray \<Rightarrow> 'a list" where
  "da_content arr = take (da_current arr) (da_elements arr)"

text \<open>
  Well formed: no more elements than capacity, and the block really has that many slots; a
  bounded array has at most \<open>max_elts\<close> elements.
\<close>

definition da_wf :: "'a darray \<Rightarrow> bool" where
  "da_wf arr \<longleftrightarrow> da_current arr \<le> da_capacity arr \<and>
     da_capacity arr \<le> length (da_elements arr) \<and> da_current arr < 2 ^ 31 \<and>
     da_max_elts arr < 2 ^ 31 \<and>
     (da_max_elts arr = -1 \<or> int (da_current arr) \<le> da_max_elts arr)"

subsection \<open>Growing and shrinking\<close>

text \<open>
  On failure \<open>darray_extend\<close> restores \<open>old_size\<close>, which it has set to the new size.
\<close>

definition darray_extend :: "'a darray \<Rightarrow> nat \<Rightarrow> 'a mem \<Rightarrow> status \<times> 'a darray" where
  "darray_extend arr new_size mem =
     (if has_flag (da_flags arr) RCSW_NOALLOC_DATA then (ERROR (Some EAGAIN), arr)
      else
        let old_size = new_size;
            arr1 = arr\<lparr>da_capacity := new_size\<rparr>
        in (case realloc_block (da_elements arr1) (da_capacity arr1) mem of
              Some tmp \<Rightarrow> (OK, arr1\<lparr>da_elements := tmp\<rparr>)
            | None \<Rightarrow> (ERROR (Some ENOMEM), arr1\<lparr>da_capacity := old_size\<rparr>)))"

definition darray_shrink :: "'a darray \<Rightarrow> nat \<Rightarrow> 'a mem \<Rightarrow> status \<times> 'a darray" where
  "darray_shrink arr new_size mem =
     (let old_size = da_capacity arr;
          arr1 = arr\<lparr>da_capacity := new_size\<rparr>
      in if da_capacity arr1 > 0 then
           (if has_flag (da_flags arr1) RCSW_NOALLOC_DATA
            then (ERROR (Some EAGAIN), arr1\<lparr>da_capacity := old_size\<rparr>)
            else
              (case realloc_block (da_elements arr1) (da_capacity arr1) mem of
                 Some tmp \<Rightarrow>
                   (OK, arr1\<lparr>da_elements := tmp,
                             da_current := min (da_capacity arr1 - 1) (da_current arr1)\<rparr>)
               | None \<Rightarrow> (ERROR (Some EAGAIN), arr1\<lparr>da_capacity := old_size\<rparr>)))
         else (OK, arr1\<lparr>da_current := 0\<rparr>))"

definition darray_resize :: "'a darray \<Rightarrow> nat \<Rightarrow> 'a mem \<Rightarrow> status \<times> 'a darray" where
  "darray_resize arr new_size mem =
     (if new_size > da_capacity arr then darray_extend arr new_size mem
      else if new_size < da_capacity arr then darray_shrink arr new_size mem
      else (OK, arr))"

subsection \<open>Initialisation and small operations\<close>

text \<open>
  The block of an array that allocates for itself is not tested for \<open>NULL\<close>: the result
  then has a positive capacity over no memory.
\<close>

definition darray_init ::
  "unit option \<Rightarrow> unit option \<Rightarrow> 'a mem \<Rightarrow> 'a darray_params option \<Rightarrow> 'a darray option" where
  "darray_init arr_in handle mem params =
     (case params of
        None \<Rightarrow> None
      | Some p \<Rightarrow>
          if \<not> (dap_elt_size p > 0 \<and> dap_max_elts p \<noteq> 0) then None
          else
            (case rcsw_alloc id arr_in handle (dap_flags p AND RCSW_NOALLOC_HANDLE) of
               Some (Some _) \<Rightarrow>
                 let noalloc_data = has_flag (dap_flags p) RCSW_NOALLOC_DATA;
                     elements =
                       (if noalloc_data then (case dap_elements p of None \<Rightarrow> [] | Some es \<Rightarrow> es)
                        else if dap_init_size p > 0 then
                          (case malloc_block (dap_init_size p) mem of None \<Rightarrow> [] | Some es \<Rightarrow> es)
                        else [])
                 in if \<not> noalloc_data \<and>
                       \<not> (dap_max_elts p = -1 \<or> dap_init_size p < size_of_int (dap_max_elts p))
                    then None
                    else if has_flag (dap_flags p) RCSW_DS_SORTED \<and> dap_cmpe p = None then None
                    else Some \<lparr>da_elements = elements, da_current = 0,
                      da_capacity =
                        (if noalloc_data then size_of_int (dap_max_elts p) else dap_init_size p),
                      da_elt_size = dap_elt_size p, da_sorted = False,
                      da_max_elts = dap_max_elts p, da_flags = dap_flags p,
                      da_cmpe = dap_cmpe p\<rparr>
             | _ \<Rightarrow> None))"

text \<open>
  \<open>darray_destroy\<close> gives back the block and the handle: the result says for each whether it
  goes to \<open>free\<close>.
\<close>

definition darray_destroy :: "'a darray \<Rightarrow> bool \<times> bool" where
  "darray_destroy arr =
     (rcsw_free (if da_elements arr = [] then None else Some (da_elements arr))
        (da_flags arr AND RCSW_NOALLOC_DATA),
      rcsw_free (Some ()) (da_flags arr AND RCSW_NOALLOC_HANDLE))"

definition darray_isfull :: "'a darray \<Rightarrow> bool" where
  "darray_isfull arr \<longleftrightarrow> da_current arr = size_of_int (da_max_elts arr)"

definition darray_isempty :: "'a darray \<Rightarrow> bool" where
  "darray_isempty arr \<longleftrightarrow> da_current arr = 0"

definition darray_size :: "'a darray \<Rightarrow> nat" where
  "darray_size arr = da_current arr"

definition darray_capacity :: "'a darray \<Rightarrow> nat" where
  "darray_capacity arr = da_capacity arr"

definition darray_set_size :: "'a darray \<Rightarrow> nat \<Rightarrow> status \<times> 'a darray" where
  "darray_set_size arr n_elts =
     (if \<not> n_elts \<le> da_capacity arr then (fpc_error, arr) else (OK, arr\<lparr>da_current := n_elts\<rparr>))"

definition darray_data_clear :: "'a \<Rightarrow> 'a darray \<Rightarrow> (status \<times> 'a darray) option" where
  "darray_data_clear zero arr =
     (if da_current arr \<le> length (da_elements arr)
      then Some (OK, arr\<lparr>da_elements := replicate (da_current arr) zero @
                             drop (da_current arr) (da_elements arr)\<rparr>)
      else None)"

definition darray_clear :: "'a \<Rightarrow> 'a darray \<Rightarrow> (status \<times> 'a darray) option" where
  "darray_clear zero arr =
     map_option (\<lambda>(_, arr1). (OK, arr1\<lparr>da_current := 0\<rparr>)) (darray_data_clear zero arr)"

text \<open>A pointer into the block is the index of its slot; it is not checked.\<close>

definition darray_data_get :: "'a darray \<Rightarrow> nat \<Rightarrow> int" where
  "darray_data_get arr index = int index"

definition darray_data_set ::
  "'a darray \<Rightarrow> nat \<Rightarrow> 'a option \<Rightarrow> (status \<times> 'a darray) option" where
  "darray_data_set arr index e =
     (case e of
        None \<Rightarrow> Some (fpc_error, arr)
      | Some x \<Rightarrow>
          map_option (\<lambda>es. (OK, arr\<lparr>da_elements := es\<rparr>)) (wr (da_elements arr) (int index) x))"

definition darray_idx_serve :: "'a darray \<Rightarrow> bool \<Rightarrow> nat \<Rightarrow> (status \<times> 'a option) option" where
  "darray_idx_serve arr e index =
     (if \<not> (e \<and> index \<le> da_current arr) then Some (fpc_error, None)
      else map_option (\<lambda>x. (OK, Some x)) (rd (da_elements arr) (darray_data_get arr index)))"

subsection \<open>Sorting and searching\<close>

definition darray_sort :: "'a darray \<Rightarrow> exec_type \<Rightarrow> (status \<times> 'a darray) option" where
  "darray_sort arr type =
     (case da_cmpe arr of
        None \<Rightarrow> Some (fpc_error, arr)
      | Some cmpe \<Rightarrow>
          if da_current arr \<le> 1 \<or> da_sorted arr then Some (OK, arr)
          else
            map_option (\<lambda>es. (OK, arr\<lparr>da_elements := es, da_sorted := True\<rparr>))
              (case type of
                 EXEC_REC \<Rightarrow>
                   qsort_rec (da_elt_size arr) cmpe (da_elements arr) 0
                     (int_of_size (da_current arr) - 1)
               | EXEC_ITER \<Rightarrow>
                   qsort_iter (da_elt_size arr) cmpe (da_elements arr)
                     (int_of_size (da_current arr) - 1)))"

text \<open>
  The linear search does not stop at the first hit: it returns the last one.
\<close>

definition darray_idx_query :: "'a darray \<Rightarrow> 'a option \<Rightarrow> int option" where
  "darray_idx_query arr e =
     (case (e, da_cmpe arr) of
        (Some x, Some cmpe) \<Rightarrow>
          if da_sorted arr then
            bsearch_rec (Some (da_elements arr)) (Some x) (Some cmpe) (da_elt_size arr) 0
              (int_pred_of_size (da_current arr))
          else
            for_range 0 (da_current arr)
              (\<lambda>i rval. map_option (\<lambda>y. if cmpe x y = 0 then int_of_size i else rval)
                 (rd (da_elements arr) (darray_data_get arr i)))
              (-1)
      | _ \<Rightarrow> Some (-1))"

subsection \<open>Insertion\<close>

text \<open>\<open>for (i = current; i > index; --i) elements[i] = elements[i - 1]\<close>.\<close>

fun darray_shift_up :: "'a list \<Rightarrow> nat \<Rightarrow> nat \<Rightarrow> 'a list option" where
  "darray_shift_up es index i =
     (if i > index then do {
        x \<leftarrow> rd es (int i - 1);
        es1 \<leftarrow> wr es (int i) x;
        darray_shift_up es1 index (i - 1)
      } else Some es)"

declare darray_shift_up.simps [simp del]

definition darray_insert ::
  "'a darray \<Rightarrow> 'a option \<Rightarrow> nat \<Rightarrow> 'a mem \<Rightarrow> (status \<times> 'a darray) option" where
  "darray_insert arr e index mem =
     (case e of
        None \<Rightarrow> Some (fpc_error, arr)
      | Some x \<Rightarrow>
          if \<not> index \<le> da_current arr then Some (fpc_error, arr)
          else if darray_isfull arr \<and> da_max_elts arr \<noteq> -1 then Some (ERROR (Some ENOSPC), arr)
          else
            let (s, arr1) = (if da_current arr \<ge> da_capacity arr
                             then darray_extend arr (max (da_capacity arr * 2) 1) mem
                             else (OK, arr))
            in if s \<noteq> OK then Some (s, arr1)
               else do {
                 es1 \<leftarrow> (if has_flag (da_flags arr1) RCSW_DS_ORDERED
                         then darray_shift_up (da_elements arr1) index (da_current arr1)
                         else do {
                           y \<leftarrow> rd (da_elements arr1) (darray_data_get arr1 index);
                           wr (da_elements arr1) (darray_data_get arr1 (da_current arr1)) y
                         });
                 es2 \<leftarrow> wr es1 (darray_data_get arr1 index) x;
                 let arr2 = arr1\<lparr>da_elements := es2, da_current := da_current arr1 + 1\<rparr>;
                 if has_flag (da_flags arr2) RCSW_DS_SORTED
                 then map_option (\<lambda>(_, arr3). (OK, arr3))
                        (darray_sort (arr2\<lparr>da_sorted := False\<rparr>) EXEC_ITER)
                 else Some (OK, arr2)
               })"

subsection \<open>Removal\<close>

text \<open>
  \<open>memmove\<close> of \<open>n\<close> slots: both ranges must lie in the block. A negative count is a huge
  \<open>size_t\<close>.
\<close>

definition mem_move :: "'a list \<Rightarrow> int \<Rightarrow> int \<Rightarrow> int \<Rightarrow> 'a list option" where
  "mem_move es dst src n =
     (if 0 \<le> n \<and> 0 \<le> dst \<and> 0 \<le> src \<and> dst + n \<le> int (length es) \<and> src + n \<le> int (length es)
      then Some (take (nat dst) es @ take (nat n) (drop (nat src) es) @ drop (nat (dst + n)) es)
      else None)"

text \<open>
  The load factor test compares floats; it is exact below 2^24 slots. \<open>ones\<close> is the
  element whose bytes are all 0xFF.
\<close>

definition darray_remove ::
  "'a \<Rightarrow> 'a darray \<Rightarrow> bool \<Rightarrow> nat \<Rightarrow> 'a mem \<Rightarrow> (status \<times> 'a option \<times> 'a darray) option" where
  "darray_remove ones arr e index mem =
     (if \<not> index \<le> darray_size arr then Some (fpc_error, None, arr)
      else do {
        (_, out) \<leftarrow> (if e then darray_idx_serve arr e index else Some (OK, None));
        if darray_size arr = 1 then do {
          es \<leftarrow> wr (da_elements arr) (darray_data_get arr index) ones;
          Some (OK, out, arr\<lparr>da_elements := es, da_current := da_current arr - 1\<rparr>)
        } else do {
          es \<leftarrow> (if has_flag (da_flags arr) RCSW_DS_SORTED
                 then mem_move (da_elements arr) (int index) (int index + 1)
                        (int (da_current arr) - 1 - int index)
                 else mem_move (da_elements arr) (int index) (int (da_current arr) - 1) 1);
          let arr1 = arr\<lparr>da_elements := es, da_current := da_current arr - 1\<rparr>;
          if 0 < da_capacity arr1 \<and> 4 * da_current arr1 \<le> da_capacity arr1 \<and>
             \<not> has_flag (da_flags arr1) RCSW_NOALLOC_DATA
          then (let (s, arr2) = darray_shrink arr1 (da_capacity arr1 div 2) mem
                in Some (s, out, arr2))
          else Some (OK, out, arr1)
        }
      })"

subsection \<open>Traversals and copies\<close>

text \<open>
  The loop of \<open>darray_filter\<close>. \<open>mems k\<close> answers the allocations of iteration \<open>k\<close>, first that
  of the insertion and then that of the removal. The result is the pair of arrays and
  whether a \<open>RCSW_CHECK\<close> failed.
\<close>

partial_function (option) darray_filter_loop ::
  "'a \<Rightarrow> ('a \<Rightarrow> bool) \<Rightarrow> (nat \<Rightarrow> 'a mem \<times> 'a mem) \<Rightarrow> 'a darray \<Rightarrow> 'a darray \<Rightarrow> nat \<Rightarrow> nat \<Rightarrow>
   (bool \<times> 'a darray \<times> 'a darray) option" where
  "darray_filter_loop ones pred mems arr farr i n_removed =
     (if i < da_current arr + n_removed then
        (case rd (da_elements arr) (darray_data_get arr (i - n_removed)) of
           None \<Rightarrow> None
         | Some x \<Rightarrow>
             if pred x then
               (case darray_insert farr (Some x) (da_current farr) (fst (mems i)) of
                  None \<Rightarrow> None
                | Some (s, farr1) \<Rightarrow>
                    if s \<noteq> OK then Some (False, arr, farr1)
                    else
                      (case darray_remove ones arr False (i - n_removed) (snd (mems i)) of
                         None \<Rightarrow> None
                       | Some (s1, _, arr1) \<Rightarrow>
                           if s1 \<noteq> OK then Some (False, arr1, farr1)
                           else darray_filter_loop ones pred mems arr1 farr1 (i + 1) (n_removed + 1)))
             else darray_filter_loop ones pred mems arr farr (i + 1) n_removed)
      else Some (True, arr, farr))"

text \<open>The new array (\<open>None\<close> is \<open>NULL\<close>) and the filtered one.\<close>

definition darray_filter ::
  "'a \<Rightarrow> 'a darray \<Rightarrow> ('a \<Rightarrow> bool) option \<Rightarrow> u32 \<Rightarrow> 'a list option \<Rightarrow> unit option \<Rightarrow>
   (nat \<Rightarrow> 'a mem \<times> 'a mem) \<Rightarrow> ('a darray option \<times> 'a darray) option" where
  "darray_filter ones arr pred flags elements handle mems =
     (case pred of
        None \<Rightarrow> Some (None, arr)
      | Some p \<Rightarrow>
          if has_flag flags RCSW_NOALLOC_HANDLE then Some (None, arr)
          else
            (case darray_init None handle None
                    (Some \<lparr>dap_cmpe = da_cmpe arr, dap_elements = elements,
                       dap_elt_size = da_elt_size arr, dap_max_elts = da_max_elts arr,
                       dap_flags = flags, dap_init_size = 0\<rparr>) of
               None \<Rightarrow> Some (None, arr)
             | Some farr \<Rightarrow>
                 map_option (\<lambda>(ok, arr1, farr1). (if ok then Some farr1 else None, arr1))
                   (darray_filter_loop ones p mems arr farr 0 0)))"

text \<open>\<open>memcpy\<close> of the first \<open>n\<close> slots.\<close>

definition copy_prefix :: "'a list \<Rightarrow> 'a list \<Rightarrow> nat \<Rightarrow> 'a list option" where
  "copy_prefix dst src n =
     (if n \<le> length dst \<and> n \<le> length src then Some (take n src @ drop n dst) else None)"

definition darray_copy ::
  "'a darray \<Rightarrow> u32 \<Rightarrow> 'a list option \<Rightarrow> unit option \<Rightarrow> 'a mem \<Rightarrow> 'a darray option option" where
  "darray_copy arr flags elements handle mem =
     (if has_flag flags RCSW_NOALLOC_HANDLE then Some None
      else
        (case darray_init None handle mem
                (Some \<lparr>dap_cmpe = da_cmpe arr, dap_elements = elements,
                   dap_elt_size = da_elt_size arr, dap_max_elts = da_max_elts arr,
                   dap_flags = flags, dap_init_size = da_current arr\<rparr>) of
           None \<Rightarrow> Some None
         | Some carr \<Rightarrow>
             let carr1 = carr\<lparr>da_current := da_current arr, da_sorted := da_sorted arr\<rparr>
             in if darray_capacity carr1 > 0 then
                  map_option (\<lambda>es. Some (carr1\<lparr>da_elements := es\<rparr>))
                    (copy_prefix (da_elements carr1) (da_elements arr) (da_current arr))
                else Some (Some carr1)))"

definition darray_map :: "'a darray \<Rightarrow> ('a \<Rightarrow> 'a) option \<Rightarrow> (status \<times> 'a darray) option" where
  "darray_map arr f =
     (case f of
        None \<Rightarrow> Some (fpc_error, arr)
      | Some g \<Rightarrow>
          map_option (\<lambda>es. (OK, arr\<lparr>da_elements := es\<rparr>))
            (for_range 0 (da_current arr)
               (\<lambda>i es. do { x \<leftarrow> rd es (darray_data_get arr i); wr es (darray_data_get arr i) (g x) })
               (da_elements arr)))"

definition darray_inject ::
  "'a darray \<Rightarrow> ('a \<Rightarrow> 'r \<Rightarrow> 'r) option \<Rightarrow> 'r option \<Rightarrow> (status \<times> 'r option) option" where
  "darray_inject arr f result =
     (case (f, result) of
        (Some g, Some r) \<Rightarrow>
          map_option (\<lambda>r'. (OK, Some r'))
            (for_range 0 (da_current arr)
               (\<lambda>i acc. map_option (\<lambda>x. g x acc)
                  (rd (da_elements arr) (darray_data_get arr i))) r)
      | _ \<Rightarrow> Some (fpc_error, result))"

subsection \<open>Lemmas\<close>

lemma upd_in_prefix:
  assumes "upd_in 0 (int n - 1) a b" and "n \<le> length a"
  shows "mset (take n b) = mset (take n a)" and "length b = length a"
proof -
  have l: "length b = length a" and m: "mset b = mset a"
    and k: "\<forall>i < length a. n \<le> i \<longrightarrow> b ! i = a ! i"
    using assms by (auto simp: upd_in_def)
  show "length b = length a" by (rule l)
  have "drop n b = drop n a" using l k by (intro nth_equalityI) auto
  moreover have "mset (take n b) + mset (drop n b) = mset (take n a) + mset (drop n a)"
    using m by (metis append_take_drop_id mset_append)
  ultimately show "mset (take n b) = mset (take n a)" by simp
qed

lemma darray_shift_up_above:
  assumes "darray_shift_up es index i = Some es'" and "i < j"
  shows "es' ! j = es ! j"
  using assms
proof (induction i arbitrary: es)
  case 0
  then show ?case by (subst (asm) darray_shift_up.simps) simp
next
  case (Suc i)
  show ?case
  proof (cases "index < Suc i")
    case True
    then obtain y es1 where "wr es (int (Suc i)) y = Some es1"
      "darray_shift_up es1 index i = Some es'"
      using Suc.prems(1) by (subst (asm) darray_shift_up.simps) (auto split: Option.bind_splits)
    then show ?thesis using Suc.IH [of es1] Suc.prems(2) by (auto simp: wr_eq_Some)
  next
    case False
    then show ?thesis using Suc.prems by (subst (asm) darray_shift_up.simps) simp
  qed
qed

lemma darray_shift_up_spec:
  assumes "index \<le> i" and "i < length es"
  shows "\<exists>es'. darray_shift_up es index i = Some es' \<and> length es' = length es \<and>
    take (Suc i) (es'[index := x]) = take index es @ x # drop index (take i es)"
  using assms
proof (induction "i - index" arbitrary: i es)
  case 0
  then have [simp]: "i = index" by simp
  show ?case using 0
    by (simp add: darray_shift_up.simps take_Suc_conv_app_nth)
next
  case (Suc d)
  let ?es = "es[i := es ! (i - 1)]"
  have lt: "index < i" and d: "d = (i - 1) - index" using Suc.hyps(2) by auto
  then have step: "darray_shift_up es index i = darray_shift_up ?es index (i - 1)"
    using Suc.prems by (subst darray_shift_up.simps) (simp add: rd_def wr_def nat_diff_distrib)
  have bounds: "index \<le> i - 1" "i - 1 < length ?es" using lt Suc.prems by auto
  obtain es' where es': "darray_shift_up ?es index (i - 1) = Some es'"
    "length es' = length ?es"
    "take (Suc (i - 1)) (es'[index := x]) = take index ?es @ x # drop index (take (i - 1) ?es)"
    using Suc.hyps(1) [OF d bounds] by blast
  have keep: "es' ! i = es ! (i - 1)"
    using darray_shift_up_above [OF es'(1), of i] lt Suc.prems by simp
  have "take (Suc i) (es'[index := x]) = take i (es'[index := x]) @ [es' ! i]"
    using Suc.prems es'(2) lt by (simp add: take_Suc_conv_app_nth)
  also have "\<dots> = take index es @ x # drop index (take i es)"
  proof -
    have "take i es = take (i - 1) es @ [es ! (i - 1)]"
      using lt Suc.prems take_Suc_conv_app_nth [of "i - 1" es] by simp
    then show ?thesis using es'(3) lt Suc.prems keep by simp
  qed
  finally show ?case using step es' by simp
qed

text \<open>The element lists the two insertion modes and the two removal modes leave.\<close>

definition ins_ordered :: "'a list \<Rightarrow> nat \<Rightarrow> 'a \<Rightarrow> 'a list" where
  "ins_ordered xs index x = take index xs @ x # drop index xs"

definition ins_swap :: "'a list \<Rightarrow> nat \<Rightarrow> 'a \<Rightarrow> 'a list" where
  "ins_swap xs index x = (xs @ [if index < length xs then xs ! index else x])[index := x]"

definition del_ordered :: "'a list \<Rightarrow> nat \<Rightarrow> 'a list" where
  "del_ordered xs index = take index xs @ drop (Suc index) xs"

definition del_swap :: "'a list \<Rightarrow> nat \<Rightarrow> 'a list" where
  "del_swap xs index = butlast (xs[index := last xs])"

lemma mset_ins_ordered [simp]: "mset (ins_ordered xs index x) = add_mset x (mset xs)"
  unfolding ins_ordered_def
  by (metis append_take_drop_id mset.simps(2) mset_append union_mset_add_mset_right)

lemma mset_ins_swap [simp]:
  "index \<le> length xs \<Longrightarrow> mset (ins_swap xs index x) = add_mset x (mset xs)"
  by (cases "index = length xs") (simp_all add: ins_swap_def mset_update nth_append)

lemma mset_del_ordered [simp]:
  "index < length xs \<Longrightarrow> add_mset (xs ! index) (mset (del_ordered xs index)) = mset xs"
  unfolding del_ordered_def
  by (metis id_take_nth_drop mset_append mset.simps(2) union_mset_add_mset_right)

lemma mset_del_swap [simp]:
  assumes "index < length xs"
  shows "add_mset (xs ! index) (mset (del_swap xs index)) = mset xs"
proof -
  obtain ys y where xs: "xs = ys @ [y]" using assms by (cases xs rule: rev_cases) auto
  show ?thesis
  proof (cases "index = length ys")
    case True
    then show ?thesis by (simp add: del_swap_def xs)
  next
    case False
    then have i: "index < length ys" using assms xs by simp
    then have "ys ! index \<in># mset ys" by simp
    with i show ?thesis
      by (simp add: del_swap_def xs butlast_append list_update_append nth_append mset_update)
  qed
qed

text \<open>What the block looks like after \<open>darray_extend\<close> made room.\<close>

lemma darray_room:
  assumes wf: "da_wf arr"
    and room: "da_current arr < da_capacity arr \<or>
               \<not> has_flag (da_flags arr) RCSW_NOALLOC_DATA \<and> mem \<noteq> None"
  shows "\<exists>arr1. (if da_current arr \<ge> da_capacity arr
               then darray_extend arr (max (da_capacity arr * 2) 1) mem
               else (OK, arr)) = (OK, arr1) \<and>
     da_current arr < da_capacity arr1 \<and> da_capacity arr1 \<le> length (da_elements arr1) \<and>
     take (da_current arr) (da_elements arr1) = da_content arr \<and>
     arr1 = arr\<lparr>da_elements := da_elements arr1, da_capacity := da_capacity arr1\<rparr>"
proof (cases "da_current arr \<ge> da_capacity arr")
  case False
  then show ?thesis using wf by (auto simp: da_wf_def da_content_def)
next
  case True
  then obtain junk where mem: "mem = Some junk" "\<not> has_flag (da_flags arr) RCSW_NOALLOC_DATA"
    using room by auto
  have eq: "da_current arr = da_capacity arr" using True wf by (simp add: da_wf_def)
  show ?thesis using True mem wf eq
    by (auto simp: darray_extend_def realloc_block_def da_wf_def da_content_def Let_def
        intro!: nth_equalityI)
qed

lemma take_swap_in:
  assumes "index \<le> n" and "n < length es"
  shows "take (Suc n) (es[n := es ! index, index := x]) = ins_swap (take n es) index x"
  using assms
  by (intro nth_equalityI) (auto simp: ins_swap_def nth_list_update nth_append less_Suc_eq)

text \<open>The block after the element was stored, before any sorting.\<close>

definition ins_result :: "'a darray \<Rightarrow> nat \<Rightarrow> 'a \<Rightarrow> 'a list" where
  "ins_result arr index x =
     (if has_flag (da_flags arr) RCSW_DS_ORDERED then ins_ordered (da_content arr) index x
      else ins_swap (da_content arr) index x)"

lemma darray_store:
  assumes "index \<le> n" and "n < length es"
  shows "\<exists>es1 es2. (if ordered then darray_shift_up es index n
             else do { y \<leftarrow> rd es (int index); wr es (int n) y }) = Some es1 \<and>
     wr es1 (int index) x = Some es2 \<and> length es2 = length es \<and>
     take (Suc n) es2 = (if ordered then ins_ordered (take n es) index x
                         else ins_swap (take n es) index x)"
proof (cases ordered)
  case True
  obtain es1 where es1: "darray_shift_up es index n = Some es1" "length es1 = length es"
    "take (Suc n) (es1[index := x]) = take index es @ x # drop index (take n es)"
    using darray_shift_up_spec [OF assms, of x] by blast
  then show ?thesis using True assms by (simp add: ins_ordered_def min_def)
next
  case False
  then show ?thesis using assms take_swap_in [OF assms, of x] by simp
qed

lemma darray_sort_iter:
  assumes wf: "da_wf arr" and c: "da_cmpe arr = Some cmpe" "cmp_order cmpe"
    and s: "da_sorted arr \<longrightarrow> sorted_cmp cmpe (da_content arr)"
    and fit: "2 \<le> da_current arr \<Longrightarrow> \<not> da_sorted arr \<Longrightarrow> fits (da_elt_size arr) (da_current arr)"
  shows "\<exists>es b. darray_sort arr type = Some (OK, arr\<lparr>da_elements := es, da_sorted := b\<rparr>) \<and>
     length es = length (da_elements arr) \<and>
     mset (take (da_current arr) es) = mset (da_content arr) \<and>
     sorted_cmp cmpe (take (da_current arr) es) \<and> (da_current arr \<le> 1 \<or> b)"
proof (cases "da_current arr \<le> 1 \<or> da_sorted arr")
  case True
  then have "sorted_cmp cmpe (da_content arr)"
  proof
    assume "da_current arr \<le> 1"
    then have "length (da_content arr) \<le> 1" by (simp add: da_content_def)
    then show ?thesis by (cases "da_content arr") auto
  qed (use s in simp)
  then have "darray_sort arr type = Some (OK, arr\<lparr>da_elements := da_elements arr,
      da_sorted := da_sorted arr\<rparr>)" using True c by (simp add: darray_sort_def)
  then show ?thesis using True \<open>sorted_cmp cmpe (da_content arr)\<close>
    unfolding da_content_def by blast
next
  case False
  let ?n = "da_current arr" and ?es = "da_elements arr" and ?sz = "da_elt_size arr"
  have n: "2 \<le> ?n" "?n \<le> length ?es" "int_of_size ?n = int ?n"
    using False wf by (auto simp: da_wf_def)
  obtain es where es: "(case type of EXEC_REC \<Rightarrow> qsort_rec ?sz cmpe ?es 0 (int ?n - 1)
      | EXEC_ITER \<Rightarrow> qsort_iter ?sz cmpe ?es (int ?n - 1)) = Some es"
    and u: "upd_in 0 (int ?n - 1) ?es es" "sorted_cmp cmpe (take ?n es)"
    using cmp_order.qsort_rec_prefix [OF c(2) n(2)] fit False
      cmp_order.qsort_iter_prefix [OF c(2) n(1,2)]
    by (cases type) auto
  have "darray_sort arr type = Some (OK, arr\<lparr>da_elements := es, da_sorted := True\<rparr>)"
    using False c es n(3) by (cases type) (simp_all add: darray_sort_def)
  then show ?thesis using upd_in_prefix [OF u(1) n(2)] u(2)
    unfolding da_content_def by blast
qed

text \<open>
  Room for one more element: below the limit, and either below the capacity or able to grow.
  An array that is kept sorted stays below 2 GiB, the reach of the sort's \<open>int\<close> offsets.
\<close>

definition da_has_room :: "'a darray \<Rightarrow> 'a mem \<Rightarrow> bool" where
  "da_has_room arr mem \<longleftrightarrow>
     (da_max_elts arr = -1 \<or> int (da_current arr) < da_max_elts arr) \<and>
     da_current arr + 1 < 2 ^ 31 \<and>
     (has_flag (da_flags arr) RCSW_DS_SORTED \<longrightarrow> fits (da_elt_size arr) (da_current arr + 1)) \<and>
     (da_current arr < da_capacity arr \<or>
      \<not> has_flag (da_flags arr) RCSW_NOALLOC_DATA \<and> mem \<noteq> None)"

text \<open>A sorted array comes with a callback that is an order.\<close>

definition da_cmp_ok :: "'a darray \<Rightarrow> bool" where
  "da_cmp_ok arr \<longleftrightarrow> (case da_cmpe arr of None \<Rightarrow> False | Some c \<Rightarrow> cmp_order c)"

lemma darray_isfull_iff:
  assumes "da_wf arr" and "da_max_elts arr \<noteq> -1"
  shows "darray_isfull arr \<longleftrightarrow> int (da_current arr) = da_max_elts arr"
proof -
  have "int (da_current arr) \<le> da_max_elts arr" using assms by (auto simp: da_wf_def)
  then have "0 \<le> da_max_elts arr" by simp
  moreover have "da_max_elts arr < 2 ^ 31" using assms by (simp add: da_wf_def)
  ultimately show ?thesis by (auto simp: darray_isfull_def size_of_int_def)
qed

lemma darray_insert_ok:
  assumes wf: "da_wf arr" and i: "index \<le> da_current arr" and room: "da_has_room arr mem"
    and srt: "has_flag (da_flags arr) RCSW_DS_SORTED \<Longrightarrow> da_cmp_ok arr"
  shows "\<exists>arr'. darray_insert arr (Some x) index mem = Some (OK, arr') \<and> da_wf arr' \<and>
     da_current arr' = da_current arr + 1 \<and>
     arr' = arr\<lparr>da_elements := da_elements arr', da_current := da_current arr',
                da_capacity := da_capacity arr', da_sorted := da_sorted arr'\<rparr> \<and>
     (if has_flag (da_flags arr) RCSW_DS_SORTED
      then mset (da_content arr') = add_mset x (mset (da_content arr)) \<and>
           sorted_cmp (the (da_cmpe arr)) (da_content arr')
      else da_content arr' = ins_result arr index x)"
proof -
  let ?n = "da_current arr" and ?ord = "has_flag (da_flags arr) RCSW_DS_ORDERED"
  obtain arr1 where ext: "(if ?n \<ge> da_capacity arr
      then darray_extend arr (max (da_capacity arr * 2) 1) mem else (OK, arr)) = (OK, arr1)"
    and a1: "?n < da_capacity arr1" "da_capacity arr1 \<le> length (da_elements arr1)"
      "take ?n (da_elements arr1) = da_content arr"
      "arr1 = arr\<lparr>da_elements := da_elements arr1, da_capacity := da_capacity arr1\<rparr>"
    using darray_room [OF wf, of mem] room by (auto simp: da_has_room_def)
  have f1 [simp]: "da_flags arr1 = da_flags arr" "da_current arr1 = ?n"
      "da_cmpe arr1 = da_cmpe arr" "da_max_elts arr1 = da_max_elts arr"
      "da_elt_size arr1 = da_elt_size arr"
    by (subst a1(4); simp)+
  have lt: "?n < length (da_elements arr1)" using a1 by simp
  obtain es1 es2 where st: "(if ?ord then darray_shift_up (da_elements arr1) index ?n
             else do { y \<leftarrow> rd (da_elements arr1) (int index);
                       wr (da_elements arr1) (int ?n) y }) = Some es1"
     "wr es1 (int index) x = Some es2" "length es2 = length (da_elements arr1)"
     "take (Suc ?n) es2 = ins_result arr index x"
    using darray_store [OF i lt, of ?ord x] by (auto simp: a1(3) ins_result_def)
  define arr2 where "arr2 = arr1\<lparr>da_elements := es2, da_current := ?n + 1\<rparr>"
  have full: "\<not> (darray_isfull arr \<and> da_max_elts arr \<noteq> -1)"
    using darray_isfull_iff [OF wf] room by (auto simp: da_has_room_def)
  have ins: "darray_insert arr (Some x) index mem =
      (if has_flag (da_flags arr) RCSW_DS_SORTED
       then map_option (\<lambda>(_, arr3). (OK, arr3)) (darray_sort (arr2\<lparr>da_sorted := False\<rparr>) EXEC_ITER)
       else Some (OK, arr2))"
  proof -
    have full': "(darray_isfull arr \<and> da_max_elts arr \<noteq> -1) = False" using full by simp
    have i': "(\<not> index \<le> ?n) = False" using i by simp
    show ?thesis
      unfolding darray_insert_def option.case i' full' if_False ext Let_def prod.case
        darray_data_get_def f1 st(1) bind.bind_lunit st(2)
      by (simp add: arr2_def)
  qed
  have wf2: "da_wf (arr2\<lparr>da_sorted := b\<rparr>)" for b
    using wf room a1 st(3) by (auto simp: da_wf_def arr2_def da_has_room_def)
  have c2: "da_content arr2 = ins_result arr index x"
    using st(4) by (simp add: da_content_def arr2_def)
  have eq2: "arr2 = arr\<lparr>da_elements := es2, da_current := ?n + 1,
      da_capacity := da_capacity arr1\<rparr>"
    unfolding arr2_def by (subst a1(4)) simp
  have len: "length (da_content arr) = ?n" using wf by (simp add: da_wf_def da_content_def)
  have m2: "mset (ins_result arr index x) = add_mset x (mset (da_content arr))"
    using i len by (simp add: ins_result_def)
  show ?thesis
  proof (cases "has_flag (da_flags arr) RCSW_DS_SORTED")
    case False
    then show ?thesis using ins wf2 [of "da_sorted arr2"] c2 eq2 by simp
  next
    case True
    then obtain c where c: "da_cmpe arr = Some c" "cmp_order c"
      using srt by (auto simp: da_cmp_ok_def split: option.splits)
    obtain es b where "darray_sort (arr2\<lparr>da_sorted := False\<rparr>) EXEC_ITER =
        Some (OK, arr2\<lparr>da_elements := es, da_sorted := b\<rparr>)"
      and es: "length es = length es2" "mset (take (Suc ?n) es) = mset (take (Suc ?n) es2)"
      "sorted_cmp c (take (Suc ?n) es)"
      using darray_sort_iter [OF wf2, of False c EXEC_ITER] c room True
      by (auto simp: arr2_def da_content_def da_has_room_def)
    then show ?thesis using True ins wf2 [of b] c m2 c2 eq2
      by (auto simp: da_wf_def da_content_def)
  qed
qed

lemma take_del_ordered:
  assumes "i < n" and "n \<le> length es"
  shows "take (n - 1) (take i es @ take (n - 1 - i) (drop (i + 1) es) @ drop (n - 1) es) =
     del_ordered (take n es) i"
  using assms
  by (cases n) (auto simp: del_ordered_def drop_take min_def le_Suc_eq less_Suc_eq_le)

lemma take_del_swap:
  assumes "i < n" and "n \<le> length es"
  shows "take (n - 1) (es[i := es ! (n - 1)]) = del_swap (take n es) i"
proof -
  have "last (take n es) = es ! (n - 1)" using assms by (subst last_conv_nth) (auto simp: min_def)
  then show ?thesis using assms
    by (intro nth_equalityI) (auto simp: del_swap_def nth_butlast nth_list_update)
qed

lemma darray_remove_ok:
  assumes wf: "da_wf arr" and i: "index < da_current arr"
    and mem: "has_flag (da_flags arr) RCSW_NOALLOC_DATA \<or> mem \<noteq> None"
  shows "\<exists>arr'. darray_remove ones arr e index mem =
       Some (OK, if e then Some (da_content arr ! index) else None, arr') \<and> da_wf arr' \<and>
     da_current arr' + 1 = da_current arr \<and>
     arr' = arr\<lparr>da_elements := da_elements arr', da_current := da_current arr',
                da_capacity := da_capacity arr'\<rparr> \<and>
     da_content arr' = (if has_flag (da_flags arr) RCSW_DS_SORTED
       then del_ordered (da_content arr) index else del_swap (da_content arr) index)"
proof -
  let ?n = "da_current arr" and ?es = "da_elements arr"
  let ?srt = "has_flag (da_flags arr) RCSW_DS_SORTED"
  let ?new = "if ?srt then del_ordered (da_content arr) index else del_swap (da_content arr) index"
  have n: "?n \<le> da_capacity arr" "da_capacity arr \<le> length ?es" "index < length ?es"
    using wf i by (auto simp: da_wf_def)
  have out: "(if e then darray_idx_serve arr e index else Some (OK, None)) =
      Some (OK, if e then Some (da_content arr ! index) else None)"
    using i n by (simp add: darray_idx_serve_def darray_data_get_def da_content_def)
  show ?thesis
  proof (cases "?n = 1")
    case True
    then have "index = 0" using i by simp
    have "length (da_content arr) = 1" using True n by (simp add: da_content_def)
    then have "?new = []" using \<open>index = 0\<close> by (auto simp: del_ordered_def del_swap_def length_Suc_conv)
    then show ?thesis
      using True \<open>index = 0\<close> out n wf
      by (auto simp: darray_remove_def darray_size_def darray_data_get_def da_content_def da_wf_def
          wr_def split: if_splits)
  next
    case False
    then have n2: "2 \<le> ?n" using i by simp
    define es where "es = (if ?srt
      then take index ?es @ take (?n - 1 - index) (drop (index + 1) ?es) @ drop (?n - 1) ?es
      else ?es[index := ?es ! (?n - 1)])"
    have mv: "(if ?srt then mem_move ?es (int index) (int index + 1) (int ?n - 1 - int index)
        else mem_move ?es (int index) (int ?n - 1) 1) = Some es"
      using i n n2
      by (auto simp: mem_move_def es_def nat_diff_distrib upd_conv_take_nth_drop
          take_Suc_conv_app_nth nat_add_distrib take_Suc hd_drop_conv_nth)
    have len: "length es = length ?es" using i n by (auto simp: es_def)
    have new: "take (?n - 1) es = ?new"
      using take_del_ordered [of index ?n ?es] take_del_swap [of index ?n ?es] i n
      by (simp add: es_def da_content_def)
    define arr1 where "arr1 = arr\<lparr>da_elements := es, da_current := ?n - 1\<rparr>"
    have rem: "darray_remove ones arr e index mem =
      (if 0 < da_capacity arr \<and> 4 * (?n - 1) \<le> da_capacity arr \<and>
          \<not> has_flag (da_flags arr) RCSW_NOALLOC_DATA
       then (let (s, arr2) = darray_shrink arr1 (da_capacity arr div 2) mem
             in Some (s, if e then Some (da_content arr ! index) else None, arr2))
       else Some (OK, if e then Some (da_content arr ! index) else None, arr1))"
      using i False mv
      unfolding darray_remove_def darray_size_def out
      by (simp add: arr1_def Let_def)
    show ?thesis
    proof (cases "0 < da_capacity arr \<and> 4 * (?n - 1) \<le> da_capacity arr \<and>
          \<not> has_flag (da_flags arr) RCSW_NOALLOC_DATA")
      case False
      then show ?thesis using rem wf len new n2 n
        by (auto simp: arr1_def da_wf_def da_content_def)
    next
      case True
      let ?cap = "da_capacity arr div 2"
      obtain junk where junk: "mem = Some junk" using mem True by auto
      define es2 where "es2 = map (\<lambda>i. if i < length es then es ! i else junk i) [0..<?cap]"
      have cap: "0 < ?cap" "min (?cap - 1) (?n - 1) = ?n - 1" "?n - 1 \<le> ?cap" using True n2 by auto
      have shr: "darray_shrink arr1 ?cap mem =
          (OK, arr1\<lparr>da_capacity := ?cap, da_elements := es2\<rparr>)"
        using True junk cap by (simp add: darray_shrink_def arr1_def realloc_block_def es2_def)
      have "take (?n - 1) es2 = take (?n - 1) es"
        using cap len n n2 by (intro nth_equalityI) (auto simp: es2_def)
      then have c: "da_content (arr1\<lparr>da_capacity := ?cap, da_elements := es2\<rparr>) = ?new"
        using new by (simp add: da_content_def arr1_def)
      have w: "da_wf (arr1\<lparr>da_capacity := ?cap, da_elements := es2\<rparr>)"
        using wf cap by (auto simp: da_wf_def arr1_def es2_def)
      have r: "darray_remove ones arr e index mem =
          Some (OK, if e then Some (da_content arr ! index) else None,
            arr1\<lparr>da_capacity := ?cap, da_elements := es2\<rparr>)"
        using rem True shr by simp
      show ?thesis
        by (rule exI [of _ "arr1\<lparr>da_capacity := ?cap, da_elements := es2\<rparr>"])
          (use r c w n2 in \<open>simp add: arr1_def\<close>)
    qed
  qed
qed

lemma del_keeps_prefix:
  assumes "j < length xs"
  shows "take j (del_ordered xs j) = take j xs" "take j (del_swap xs j) = take j xs"
    "mset (drop j (del_ordered xs j)) = mset (drop (Suc j) xs)"
    "mset (drop j (del_swap xs j)) = mset (drop (Suc j) xs)"
proof -
  show o: "take j (del_ordered xs j) = take j xs"
    using assms by (simp add: del_ordered_def min_def)
  show s: "take j (del_swap xs j) = take j xs"
    using assms by (intro nth_equalityI) (auto simp: del_swap_def nth_butlast)
  have split: "mset ys = mset (take j ys) + mset (drop j ys)" for ys :: "'a list"
    by (metis append_take_drop_id mset_append)
  have x: "mset xs = add_mset (xs ! j) (mset (take j xs) + mset (drop (Suc j) xs))"
    using assms by (metis id_take_nth_drop mset.simps(2) mset_append union_mset_add_mset_right)
  show "mset (drop j (del_ordered xs j)) = mset (drop (Suc j) xs)"
    using mset_del_ordered [OF assms] x split [of "del_ordered xs j"] by (simp add: o)
  show "mset (drop j (del_swap xs j)) = mset (drop (Suc j) xs)"
    using mset_del_swap [OF assms] x split [of "del_swap xs j"] by (simp add: s)
qed

text \<open>An insertion in terms of multisets, for clients that do not need the position.\<close>

lemma darray_insert_mset:
  assumes "da_wf arr" and "index \<le> da_current arr" and "da_has_room arr mem"
    and "has_flag (da_flags arr) RCSW_DS_SORTED \<Longrightarrow> da_cmp_ok arr"
  shows "\<exists>arr'. darray_insert arr (Some x) index mem = Some (OK, arr') \<and> da_wf arr' \<and>
     da_current arr' = da_current arr + 1 \<and> da_flags arr' = da_flags arr \<and>
     da_max_elts arr' = da_max_elts arr \<and> da_cmpe arr' = da_cmpe arr \<and>
     da_elt_size arr' = da_elt_size arr \<and>
     mset (da_content arr') = add_mset x (mset (da_content arr))"
proof -
  have len: "length (da_content arr) = da_current arr"
    using assms(1) by (simp add: da_wf_def da_content_def)
  obtain arr' where a: "darray_insert arr (Some x) index mem = Some (OK, arr')" "da_wf arr'"
    "da_current arr' = da_current arr + 1"
    "arr' = arr\<lparr>da_elements := da_elements arr', da_current := da_current arr',
                da_capacity := da_capacity arr', da_sorted := da_sorted arr'\<rparr>"
    "if has_flag (da_flags arr) RCSW_DS_SORTED
      then mset (da_content arr') = add_mset x (mset (da_content arr)) \<and>
           sorted_cmp (the (da_cmpe arr)) (da_content arr')
      else da_content arr' = ins_result arr index x"
    using darray_insert_ok [OF assms, of x] by blast
  have f: "da_flags arr' = da_flags arr" "da_max_elts arr' = da_max_elts arr"
      "da_cmpe arr' = da_cmpe arr" "da_elt_size arr' = da_elt_size arr"
    by (subst a(4); simp)+
  have "mset (da_content arr') = add_mset x (mset (da_content arr))"
    using a(5) assms(2) len by (auto simp: ins_result_def split: if_splits)
  then show ?thesis using a(1,2,3) f by blast
qed

lemma darray_filter_loop_spec:
  assumes "da_wf arr" and "da_wf farr" and "r \<le> i" and "i - r \<le> da_current arr"
    and "\<And>k. fst (mems k) \<noteq> None \<and> snd (mems k) \<noteq> None"
    and "\<not> has_flag (da_flags farr) RCSW_NOALLOC_DATA" and "da_max_elts farr = -1"
    and "has_flag (da_flags farr) RCSW_DS_SORTED \<Longrightarrow> da_cmp_ok farr"
    and "da_current farr + (da_current arr - (i - r)) + 1 < 2 ^ 31"
    and "has_flag (da_flags farr) RCSW_DS_SORTED \<Longrightarrow>
      fits (da_elt_size farr) (da_current farr + (da_current arr - (i - r)))"
  shows "\<exists>arr' farr'. darray_filter_loop ones pred mems arr farr i r = Some (True, arr', farr') \<and>
     da_wf arr' \<and> da_wf farr' \<and>
     mset (da_content arr') = mset (take (i - r) (da_content arr)) +
        filter_mset (\<lambda>x. \<not> pred x) (mset (drop (i - r) (da_content arr))) \<and>
     mset (da_content farr') = mset (da_content farr) +
        filter_mset pred (mset (drop (i - r) (da_content arr)))"
  using assms
proof (induction "da_current arr - (i - r)" arbitrary: arr farr i r)
  case 0
  then have "i - r = da_current arr" "\<not> i < da_current arr + r" by auto
  with 0 show ?case
    by (subst darray_filter_loop.simps) (simp add: da_content_def)
next
  case (Suc d)
  let ?j = "i - r" and ?c = "da_content arr"
  have j: "?j < da_current arr" and len: "length ?c = da_current arr"
    using Suc.hyps(2) Suc.prems(1) by (auto simp: da_content_def da_wf_def)
  have lt: "i < da_current arr + r" using j Suc.prems(3) by simp
  have rd: "rd (da_elements arr) (darray_data_get arr ?j) = Some (?c ! ?j)"
    using j Suc.prems(1) by (simp add: darray_data_get_def da_content_def da_wf_def)
  have dr: "drop ?j ?c = ?c ! ?j # drop (Suc ?j) ?c" using j len by (simp add: Cons_nth_drop_Suc)
  have tk: "mset (take (Suc ?j) ?c) = add_mset (?c ! ?j) (mset (take ?j ?c))"
    using j len by (simp add: take_Suc_conv_app_nth)
  show ?case
  proof (cases "pred (?c ! ?j)")
    case False
    have sub: "i + 1 - r = Suc ?j" using Suc.prems(3) by simp
    have step: "darray_filter_loop ones pred mems arr farr i r =
        darray_filter_loop ones pred mems arr farr (i + 1) r"
      using lt rd False by (subst darray_filter_loop.simps) simp
    have ih: "\<exists>arr' farr'. darray_filter_loop ones pred mems arr farr (i + 1) r =
        Some (True, arr', farr') \<and> da_wf arr' \<and> da_wf farr' \<and>
        mset (da_content arr') = mset (take (i + 1 - r) ?c) +
          filter_mset (\<lambda>x. \<not> pred x) (mset (drop (i + 1 - r) ?c)) \<and>
        mset (da_content farr') = mset (da_content farr) +
          filter_mset pred (mset (drop (i + 1 - r) ?c))"
      by (rule Suc.hyps(1)) (use Suc.prems Suc.hyps(2) j sub in \<open>auto elim: fits_mono\<close>)
    show ?thesis
      using ih False unfolding step sub tk dr by simp
  next
    case True
    have room: "da_has_room farr (fst (mems i))"
      using Suc.prems(5) [of i] Suc.prems(6,7,9) j fits_mono [OF Suc.prems(10)]
      by (auto simp: da_has_room_def)
    obtain farr1 where f: "darray_insert farr (Some (?c ! ?j)) (da_current farr) (fst (mems i)) =
          Some (OK, farr1)" "da_wf farr1" "da_current farr1 = da_current farr + 1"
        "da_flags farr1 = da_flags farr" "da_max_elts farr1 = da_max_elts farr"
        "da_cmpe farr1 = da_cmpe farr" "da_elt_size farr1 = da_elt_size farr"
        "mset (da_content farr1) = add_mset (?c ! ?j) (mset (da_content farr))"
      using darray_insert_mset [OF Suc.prems(2) order_refl room Suc.prems(8), of "?c ! ?j"]
      by blast
    obtain arr1 where a: "darray_remove ones arr False ?j (snd (mems i)) = Some (OK, None, arr1)"
        "da_wf arr1" "da_current arr1 + 1 = da_current arr"
        "da_content arr1 = (if has_flag (da_flags arr) RCSW_DS_SORTED
           then del_ordered ?c ?j else del_swap ?c ?j)"
      using darray_remove_ok [OF Suc.prems(1) j, of "snd (mems i)" ones False] Suc.prems(5)
      by auto
    have step: "darray_filter_loop ones pred mems arr farr i r =
        darray_filter_loop ones pred mems arr1 farr1 (i + 1) (r + 1)"
      using lt rd True f(1) a(1) by (subst darray_filter_loop.simps) simp
    have sub: "i + 1 - (r + 1) = ?j" by simp
    have c1: "take ?j (da_content arr1) = take ?j ?c"
      "mset (drop ?j (da_content arr1)) = mset (drop (Suc ?j) ?c)"
      using del_keeps_prefix [of ?j ?c] j len by (auto simp: a(4))
    have "da_current farr + (da_current arr - ?j) = Suc (da_current farr + (da_current arr1 + r) - i)"
      using a(3) j Suc.prems(3) by arith
    then have fit: "has_flag (da_flags farr) RCSW_DS_SORTED \<Longrightarrow>
        fits (da_elt_size farr) (Suc (da_current farr + (da_current arr1 + r) - i))"
      using Suc.prems(10) by simp
    have ih: "\<exists>arr' farr'. darray_filter_loop ones pred mems arr1 farr1 (i + 1) (r + 1) =
        Some (True, arr', farr') \<and> da_wf arr' \<and> da_wf farr' \<and>
        mset (da_content arr') = mset (take ?j (da_content arr1)) +
          filter_mset (\<lambda>x. \<not> pred x) (mset (drop ?j (da_content arr1))) \<and>
        mset (da_content farr') = mset (da_content farr1) +
          filter_mset pred (mset (drop ?j (da_content arr1)))"
      using Suc.hyps(1) [of arr1 "i + 1" "r + 1" farr1] Suc.hyps(2) Suc.prems a f j fit
      by (simp add: da_cmp_ok_def)
    then show ?thesis using c1 dr True f(8) by (simp add: step)
  qed
qed

text \<open>A query of an array that is flagged sorted only when it is.\<close>

lemma darray_query_ok:
  assumes wf: "da_wf arr" and c: "da_cmpe arr = Some cmpe" "cmp_order cmpe"
    and s: "da_sorted arr \<longrightarrow> sorted_cmp cmpe (da_content arr)"
    and fit: "da_sorted arr \<Longrightarrow> fits (da_elt_size arr) (da_current arr)"
      "da_sorted arr \<Longrightarrow> da_current arr \<le> 2 ^ 30"
  shows "\<exists>r. darray_idx_query arr (Some e) = Some r \<and>
     (0 \<le> r \<and> r < int (da_current arr) \<and> cmpe (da_content arr ! nat r) e = 0 \<or>
      r = -1 \<and> (\<forall>x \<in> set (da_content arr). cmpe x e \<noteq> 0))"
proof (cases "da_sorted arr")
  case True
  let ?n = "da_current arr" and ?es = "da_elements arr"
  have n: "?n \<le> length ?es" "?n < 2 ^ 31" using wf by (auto simp: da_wf_def)
  obtain r where r: "bsearch_rec (Some ?es) (Some e) (Some cmpe) (da_elt_size arr) 0 (int ?n - 1) = Some r"
    "0 \<le> r \<and> r < int ?n \<and> cmpe (?es ! nat r) e = 0 \<or>
     r = -1 \<and> (\<forall>i < ?n. cmpe (?es ! i) e \<noteq> 0)"
    using cmp_order.bsearch_found [OF c(2) _ n(1) fit [OF True], of e] s True by (auto simp: da_content_def)
  moreover have "darray_idx_query arr (Some e) = Some r"
    using True c r(1) int_pred_of_size_small [OF n(2)]
    by (simp add: darray_idx_query_def)
  ultimately show ?thesis using n by (auto simp: da_content_def set_conv_nth nat_less_iff)
next
  case False
  let ?n = "da_current arr"
  let ?P = "\<lambda>k r. 0 \<le> r \<and> r < int k \<and> cmpe (da_content arr ! nat r) e = 0 \<or>
      r = -1 \<and> (\<forall>i < k. cmpe (da_content arr ! i) e \<noteq> 0)"
  have n: "?n \<le> length (da_elements arr)" "?n < 2 ^ 31" using wf by (auto simp: da_wf_def)
  have z: "cmpe e y = 0 \<longleftrightarrow> cmpe y e = 0" for y using cmp_order.cmp_zero [OF c(2)] by blast
  have "\<exists>r. for_range 0 ?n
              (\<lambda>i rval. map_option (\<lambda>y. if cmpe e y = 0 then int_of_size i else rval)
                 (rd (da_elements arr) (darray_data_get arr i))) (-1) = Some r \<and> ?P ?n r"
    by (rule for_range_inv [where P = ?P])
      (use n in \<open>auto simp: darray_data_get_def z da_content_def less_Suc_eq\<close>)
  moreover have "length (da_content arr) = ?n" using n by (simp add: da_content_def)
  ultimately show ?thesis using False c
    by (auto simp: darray_idx_query_def in_set_conv_nth)
qed

subsection \<open>Properties\<close>

text \<open>
  C19: inserting below the limit into a well-formed array that has or can get the memory, one kept
  sorted in less than 2 GiB, never faults and keeps the array well formed. \<open>RCSW_DS_SORTED\<close> yields the old elements and the new
  one in the callback's order; without it \<open>RCSW_DS_ORDERED\<close> puts the element between
  the two halves of the old sequence, and neither flag moves the displaced element to the end.
\<close>

theorem darray_insert_correct:
  assumes "da_wf arr" and "index \<le> da_current arr" and "da_has_room arr mem"
    and "has_flag (da_flags arr) RCSW_DS_SORTED \<longrightarrow> da_cmp_ok arr"
  shows "\<exists>arr'. darray_insert arr (Some x) index mem = Some (OK, arr') \<and> da_wf arr' \<and>
     (if has_flag (da_flags arr) RCSW_DS_SORTED
      then mset (da_content arr') = add_mset x (mset (da_content arr)) \<and>
           sorted_cmp (the (da_cmpe arr)) (da_content arr')
      else da_content arr' =
        (if has_flag (da_flags arr) RCSW_DS_ORDERED
         then take index (da_content arr) @ x # drop index (da_content arr)
         else (da_content arr @ [if index < da_current arr then da_content arr ! index else x])
                [index := x]))"
proof -
  have len: "length (da_content arr) = da_current arr"
    using assms(1) by (simp add: da_wf_def da_content_def)
  obtain arr' where "darray_insert arr (Some x) index mem = Some (OK, arr')" "da_wf arr'"
    "if has_flag (da_flags arr) RCSW_DS_SORTED
      then mset (da_content arr') = add_mset x (mset (da_content arr)) \<and>
           sorted_cmp (the (da_cmpe arr)) (da_content arr')
      else da_content arr' = ins_result arr index x"
    using darray_insert_ok [OF assms(1,2,3), of x] assms(4) by blast
  then show ?thesis by (auto simp: ins_result_def ins_ordered_def ins_swap_def len split: if_splits)
qed

definition example_darray :: "u32 \<Rightarrow> int darray" where
  "example_darray flags = \<lparr>da_elements = [1, 3, 5], da_current = 3, da_capacity = 3,
     da_elt_size = 4, da_sorted = False, da_max_elts = -1, da_flags = flags,
     da_cmpe = Some cmp_int\<rparr>"

lemma example_darray_wf: "da_wf (example_darray flags)"
  by (simp add: da_wf_def example_darray_def)

theorem darray_insert_correct_witness:
  "\<exists>arr'. darray_insert (example_darray RCSW_DS_SORTED) (Some 4) 1 (Some (\<lambda>_. 0)) =
       Some (OK, arr') \<and> da_wf arr' \<and> mset (da_content arr') = {#4, 1, 3, 5#} \<and>
     sorted_cmp cmp_int (da_content arr')"
  using darray_insert_correct [of "example_darray RCSW_DS_SORTED" 1 "Some (\<lambda>_. 0)" 4]
    example_darray_wf cint.cmp_order_axioms
  by (simp add: example_darray_def da_has_room_def da_cmp_ok_def has_flag_def flag_defs
      da_content_def fits_def)

text \<open>
  C20: removing an existing element never faults, hands out the element, keeps the array
  well formed (also when the load factor test shrinks the block, which loses no element), and
  leaves the sequence without it: shifted down with \<open>RCSW_DS_SORTED\<close>, otherwise with the
  last element in its place.
\<close>

theorem darray_remove_correct:
  assumes "da_wf arr" and "index < da_current arr"
    and "has_flag (da_flags arr) RCSW_NOALLOC_DATA \<or> mem \<noteq> None"
  shows "\<exists>arr'. darray_remove ones arr True index mem =
       Some (OK, Some (da_content arr ! index), arr') \<and> da_wf arr' \<and>
     add_mset (da_content arr ! index) (mset (da_content arr')) = mset (da_content arr) \<and>
     da_content arr' = (if has_flag (da_flags arr) RCSW_DS_SORTED
       then take index (da_content arr) @ drop (Suc index) (da_content arr)
       else butlast ((da_content arr)[index := last (da_content arr)]))"
proof -
  have "index < length (da_content arr)"
    using assms(1,2) by (simp add: da_wf_def da_content_def)
  with darray_remove_ok [OF assms, of ones True] show ?thesis
    by (auto simp: del_ordered_def [symmetric] del_swap_def [symmetric])
qed

theorem darray_remove_correct_witness:
  "\<exists>arr'. darray_remove 0 (example_darray 0) True 0 (Some (\<lambda>_. 0)) =
       Some (OK, Some 1, arr') \<and> da_wf arr' \<and> da_content arr' = [5, 3]"
  using darray_remove_correct [of "example_darray 0" 0 "Some (\<lambda>_. 0)" 0] example_darray_wf [of 0]
  by (auto simp: example_darray_def da_content_def)



text \<open>
  C22: on a well-formed unlimited array and when every allocation succeeds, \<open>darray_filter\<close>
  neither faults nor fails: it splits the elements, those that satisfy the predicate into
  the new array and the others left in the old one, none lost and none duplicated. Nothing is
  claimed of an allocation that fails on the way: the code then frees the new array with the
  elements it has already moved there.
\<close>

theorem darray_filter_correct:
  assumes "da_wf arr" and "da_max_elts arr = -1" and "0 < da_elt_size arr"
    and "\<not> has_flag flags RCSW_NOALLOC_HANDLE" and "\<not> has_flag flags RCSW_NOALLOC_DATA"
    and "has_flag flags RCSW_DS_SORTED \<longrightarrow>
      da_cmp_ok arr \<and> fits (da_elt_size arr) (da_current arr)"
    and "\<forall>k. fst (mems k) \<noteq> None \<and> snd (mems k) \<noteq> None"
    and "da_current arr + 1 < 2 ^ 31"
  shows "\<exists>arr' farr. darray_filter ones arr (Some pred) flags elements (Some ()) mems =
       Some (Some farr, arr') \<and> da_wf arr' \<and> da_wf farr \<and>
     mset (da_content arr') = filter_mset (\<lambda>x. \<not> pred x) (mset (da_content arr)) \<and>
     mset (da_content farr) = filter_mset pred (mset (da_content arr))"
proof -
  define farr where "farr = \<lparr>da_elements = [], da_current = 0, da_capacity = 0,
    da_elt_size = da_elt_size arr, da_sorted = False, da_max_elts = da_max_elts arr,
    da_flags = flags, da_cmpe = da_cmpe arr\<rparr>"
  have init: "darray_init None (Some ()) None
      (Some \<lparr>dap_cmpe = da_cmpe arr, dap_elements = elements, dap_elt_size = da_elt_size arr,
         dap_max_elts = da_max_elts arr, dap_flags = flags, dap_init_size = 0\<rparr>) = Some farr"
    using assms(2-6)
    by (auto simp: darray_init_def rcsw_alloc_mask farr_def da_cmp_ok_def split: option.splits)
  have wf: "da_wf farr" and srt: "has_flag (da_flags farr) RCSW_DS_SORTED \<Longrightarrow> da_cmp_ok farr"
    and nd: "\<not> has_flag (da_flags farr) RCSW_NOALLOC_DATA" and mx: "da_max_elts farr = -1"
    and sz: "da_current farr + (da_current arr - (0 - 0)) + 1 < 2 ^ 31"
    and fit: "has_flag (da_flags farr) RCSW_DS_SORTED \<Longrightarrow>
      fits (da_elt_size farr) (da_current farr + (da_current arr - (0 - 0)))"
    using assms by (auto simp: farr_def da_wf_def da_cmp_ok_def)
  obtain arr' farr' where "darray_filter_loop ones pred mems arr farr 0 0 =
      Some (True, arr', farr')" "da_wf arr'" "da_wf farr'"
      "mset (da_content arr') = filter_mset (\<lambda>x. \<not> pred x) (mset (da_content arr))"
      "mset (da_content farr') = filter_mset pred (mset (da_content arr))"
    using darray_filter_loop_spec [OF assms(1) wf _ _ _ nd mx srt sz fit, where mems = mems
        and pred = pred and ones = ones] assms(7)
    by (auto simp: farr_def da_content_def)
  then show ?thesis using assms(4) init by (simp add: darray_filter_def)
qed

theorem darray_filter_correct_witness:
  "\<exists>arr' farr. darray_filter 0 (example_darray 0) (Some (\<lambda>x. 2 < x)) 0 None (Some ())
       (\<lambda>_. (Some (\<lambda>_. 0), Some (\<lambda>_. 0))) = Some (Some farr, arr') \<and>
     da_wf arr' \<and> da_wf farr \<and> mset (da_content arr') = {#1#} \<and>
     mset (da_content farr) = {#3, 5#}"
proof -
  have e: "da_max_elts (example_darray 0) = -1" "0 < da_elt_size (example_darray 0)"
    "mset (da_content (example_darray 0)) = {#1, 3, 5#}"
    "da_current (example_darray 0) + 1 < 2 ^ 31"
    by (simp_all add: example_darray_def da_content_def)
  from darray_filter_correct [OF example_darray_wf e(1,2) _ _ _ _ e(4), of 0
      "\<lambda>_. (Some (\<lambda>_. 0), Some (\<lambda>_. 0))" 0 "\<lambda>x. 2 < x" None]
  show ?thesis unfolding e(3) by simp
qed

text \<open>
  A growth whose \<open>realloc\<close> fails leaves the array ill formed: its recorded capacity is
  the new one over the old block, because the value restored was saved from the argument.
\<close>

theorem darray_failed_growth_breaks:
  assumes "da_wf arr" and "length (da_elements arr) = da_capacity arr"
    and "da_capacity arr < n" and "\<not> has_flag (da_flags arr) RCSW_NOALLOC_DATA"
  shows "fst (darray_resize arr n None) = ERROR (Some ENOMEM) \<and>
    da_capacity (snd (darray_resize arr n None)) = n \<and>
    da_elements (snd (darray_resize arr n None)) = da_elements arr \<and>
    \<not> da_wf (snd (darray_resize arr n None))"
  using assms
  by (simp add: darray_resize_def darray_extend_def realloc_block_def da_wf_def Let_def)

theorem darray_failed_growth_breaks_witness:
  "da_capacity (snd (darray_resize (example_darray 0) 6 None)) = 6 \<and>
   \<not> da_wf (snd (darray_resize (example_darray 0) 6 None))"
  using darray_failed_growth_breaks [of "example_darray 0" 6] example_darray_wf [of 0]
  by (simp add: example_darray_def)

end
