(* ===== verification/Pq_Spec.thy ===== *)
theory Pq_Spec
  imports Rcsw_Prelude
begin

text \<open>
  The contract of a priority queue: an extraction takes out an element that precedes
  every other one. Draining a queue that keeps it yields its elements in order.
\<close>

fun drain :: "('q \<Rightarrow> ('a \<times> 'q) option) \<Rightarrow> nat \<Rightarrow> 'q \<Rightarrow> 'a list option" where
  "drain pop 0 q = Some []"
| "drain pop (Suc n) q =
     (case pop q of
        None \<Rightarrow> None
      | Some (x, q') \<Rightarrow> map_option (\<lambda>xs. x # xs) (drain pop n q'))"

locale priority_queue =
  fixes inv :: "'q \<Rightarrow> bool"
    and elems :: "'q \<Rightarrow> 'a multiset"
    and le :: "'a \<Rightarrow> 'a \<Rightarrow> bool"
    and pop :: "'q \<Rightarrow> ('a \<times> 'q) option"
  assumes extract_first:
    "inv q \<Longrightarrow> elems q \<noteq> {#} \<Longrightarrow>
     \<exists>x q'. pop q = Some (x, q') \<and> inv q' \<and> elems q = add_mset x (elems q') \<and>
       (\<forall>y \<in># elems q. le x y)"
begin

lemma drain_sorted:
  assumes "inv q" and "n \<le> size (elems q)"
  shows "\<exists>xs q'. drain pop n q = Some xs \<and> length xs = n \<and> inv q' \<and>
     elems q = mset xs + elems q' \<and> sorted_wrt le xs \<and>
     (\<forall>x \<in> set xs. \<forall>y \<in># elems q'. le x y)"
  using assms
proof (induction n arbitrary: q)
  case 0
  then show ?case by auto
next
  case (Suc n)
  then have "elems q \<noteq> {#}" by auto
  then obtain x q1 where 1: "pop q = Some (x, q1)" "inv q1"
    "elems q = add_mset x (elems q1)" "\<forall>y \<in># elems q. le x y"
    using extract_first [OF Suc.prems(1)] by blast
  have "n \<le> size (elems q1)" using Suc.prems(2) 1(3) by simp
  from Suc.IH [OF 1(2) this] obtain xs q' where 2: "drain pop n q1 = Some xs"
    "length xs = n" "inv q'" "elems q1 = mset xs + elems q'" "sorted_wrt le xs"
    "\<forall>x \<in> set xs. \<forall>y \<in># elems q'. le x y" by blast
  have "drain pop (Suc n) q = Some (x # xs)" using 1(1) 2(1) by simp
  moreover have "sorted_wrt le (x # xs)" using 1(3,4) 2(4,5) by simp
  moreover have "\<forall>z \<in> set (x # xs). \<forall>y \<in># elems q'. le z y" using 1(3,4) 2(4,6) by simp
  moreover have "elems q = mset (x # xs) + elems q'" using 1(3) 2(4) by simp
  moreover have "length (x # xs) = Suc n" using 2(2) by simp
  ultimately show ?case using 2(3) by blast
qed

end

end
