(* ===== verification/Binheap.thy ===== *)
theory Binheap
  imports Darray Pq_Spec
begin

text \<open>
  The binary heap (src/ds/binheap.c, include/rcsw/ds/binheap.h): a complete tree in a dynamic
  array from index 1 on, index 0 being scratch space for exchanges. The loops over the
  array are given its block, the callback and the heap's flags; a heap whose callback is
  \<open>NULL\<close> faults.
\<close>

subsection \<open>State\<close>

record 'a binheap_params =
  bhp_cmpe :: "('a \<Rightarrow> 'a \<Rightarrow> int) option"
  bhp_elements :: "'a list option"
  bhp_elt_size :: nat
  bhp_max_elts :: nat
  bhp_flags :: u32
  bhp_init_size :: nat

record 'a binheap =
  bh_arr :: "'a darray"
  bh_flags :: u32

definition binheap_lchild :: "nat \<Rightarrow> nat" where
  "binheap_lchild i = 2 * i"

definition binheap_rchild :: "nat \<Rightarrow> nat" where
  "binheap_rchild i = 2 * i + 1"

definition binheap_parent :: "nat \<Rightarrow> nat" where
  "binheap_parent i = i div 2"

definition binheap_isfull :: "'a binheap \<Rightarrow> bool" where
  "binheap_isfull heap = darray_isfull (bh_arr heap)"

definition binheap_isempty :: "'a binheap \<Rightarrow> bool" where
  "binheap_isempty heap \<longleftrightarrow> darray_size (bh_arr heap) = 1"

text \<open>The subtraction is on \<open>size_t\<close>: it wraps for an empty array.\<close>

definition binheap_size :: "'a binheap \<Rightarrow> nat" where
  "binheap_size heap = size_pred (darray_size (bh_arr heap))"

definition binheap_capacity :: "'a binheap \<Rightarrow> nat" where
  "binheap_capacity heap = darray_capacity (bh_arr heap)"

definition binheap_clear :: "'a \<Rightarrow> 'a binheap \<Rightarrow> (status \<times> 'a binheap) option" where
  "binheap_clear zero heap =
     map_option (\<lambda>(s, arr). (s, heap\<lparr>bh_arr := arr\<rparr>)) (darray_clear zero (bh_arr heap))"

text \<open>The index of the top element; \<open>None\<close> is \<open>NULL\<close>.\<close>

definition binheap_peek :: "'a binheap \<Rightarrow> int option" where
  "binheap_peek heap =
     (if \<not> \<not> binheap_isempty heap then None else Some (darray_data_get (bh_arr heap) 1))"

subsection \<open>Sifting\<close>

definition binheap_swap :: "'a list \<Rightarrow> nat \<Rightarrow> nat \<Rightarrow> 'a list option" where
  "binheap_swap a i1 i2 =
     (if i1 = 0 \<or> i2 = 0 then Some a
      else do {
        x \<leftarrow> rd a (int i1);
        a1 \<leftarrow> wr a 0 x;
        y \<leftarrow> rd a1 (int i2);
        a2 \<leftarrow> wr a1 (int i1) y;
        z \<leftarrow> rd a2 0;
        wr a2 (int i2) z
      })"

text \<open>The tests of the two branches on \<open>RCSW_DS_BINHEAP_MIN\<close>.\<close>

definition child_wins :: "u32 \<Rightarrow> ('a \<Rightarrow> 'a \<Rightarrow> int) \<Rightarrow> 'a \<Rightarrow> 'a \<Rightarrow> bool" where
  "child_wins flags cmpe child best =
     (if has_flag flags RCSW_DS_BINHEAP_MIN then cmpe child best < 0 else cmpe child best > 0)"

definition parent_loses :: "u32 \<Rightarrow> ('a \<Rightarrow> 'a \<Rightarrow> int) \<Rightarrow> 'a \<Rightarrow> 'a \<Rightarrow> bool" where
  "parent_loses flags cmpe parent child =
     (if has_flag flags RCSW_DS_BINHEAP_MIN then cmpe parent child > 0 else cmpe parent child < 0)"

text \<open>The winner (\<open>smallest\<close> or \<open>largest\<close>) among index \<open>m\<close> and its children.\<close>

definition sift_pick ::
  "u32 \<Rightarrow> ('a \<Rightarrow> 'a \<Rightarrow> int) \<Rightarrow> nat \<Rightarrow> 'a list \<Rightarrow> nat \<Rightarrow> nat option" where
  "sift_pick flags cmpe n_elts a m = do {
     best \<leftarrow> (if binheap_lchild m \<le> n_elts then do {
               x \<leftarrow> rd a (int (binheap_lchild m));
               y \<leftarrow> rd a (int m);
               Some (if child_wins flags cmpe x y then binheap_lchild m else m)
             } else Some m);
     (if binheap_rchild m \<le> n_elts then do {
        x \<leftarrow> rd a (int (binheap_rchild m));
        y \<leftarrow> rd a (int best);
        Some (if child_wins flags cmpe x y then binheap_rchild m else best)
      } else Some best)
   }"

lemma sift_pick_bounds:
  assumes "sift_pick flags cmpe n a m = Some s"
  shows "s = m \<or> m < s \<and> s \<le> n \<or> s = binheap_lchild m \<and> m = 0"
  using assms
  by (auto simp: sift_pick_def binheap_lchild_def binheap_rchild_def bind_eq_Some_conv
      split: if_splits)

lemma sift_pick_less:
  "sift_pick flags cmpe n a m = Some s \<Longrightarrow> s \<noteq> m \<Longrightarrow> m < s \<and> s \<le> n"
  using sift_pick_bounds [of flags cmpe n a m s] by (auto simp: binheap_lchild_def)

function binheap_sift_down ::
  "u32 \<Rightarrow> ('a \<Rightarrow> 'a \<Rightarrow> int) \<Rightarrow> nat \<Rightarrow> 'a list \<Rightarrow> nat \<Rightarrow> 'a list option" where
  "binheap_sift_down flags cmpe n_elts a m =
     (case sift_pick flags cmpe n_elts a m of
        None \<Rightarrow> None
      | Some best \<Rightarrow>
          if best \<noteq> m then
            (case binheap_swap a m best of
               None \<Rightarrow> None
             | Some a1 \<Rightarrow> binheap_sift_down flags cmpe n_elts a1 best)
          else Some a)"
  by pat_completeness auto
termination
  by (relation "measure (\<lambda>(flags, cmpe, n, a, m). n - m)") (auto dest: sift_pick_less)

function binheap_sift_up ::
  "u32 \<Rightarrow> ('a \<Rightarrow> 'a \<Rightarrow> int) \<Rightarrow> 'a list \<Rightarrow> nat \<Rightarrow> 'a list option" where
  "binheap_sift_up flags cmpe a i =
     (if i \<noteq> 0 then
        (case (rd a (int (binheap_parent i)), rd a (int i)) of
           (Some p, Some x) \<Rightarrow>
             if parent_loses flags cmpe p x then
               (case binheap_swap a i (binheap_parent i) of
                  None \<Rightarrow> None
                | Some a1 \<Rightarrow> binheap_sift_up flags cmpe a1 (binheap_parent i))
             else Some a
         | _ \<Rightarrow> None)
      else Some a)"
  by pat_completeness auto
termination
  by (relation "measure (\<lambda>(flags, cmpe, a, i). i)") (auto simp: binheap_parent_def)

declare binheap_sift_down.simps [simp del] binheap_sift_up.simps [simp del]

text \<open>The two calls on a heap.\<close>

definition heap_sift_down :: "'a binheap \<Rightarrow> nat \<Rightarrow> 'a binheap option" where
  "heap_sift_down heap m =
     (case da_cmpe (bh_arr heap) of
        None \<Rightarrow> None
      | Some cmpe \<Rightarrow>
          map_option (\<lambda>a. heap\<lparr>bh_arr := (bh_arr heap)\<lparr>da_elements := a\<rparr>\<rparr>)
            (binheap_sift_down (bh_flags heap) cmpe (binheap_size heap)
               (da_elements (bh_arr heap)) m))"

definition heap_sift_up :: "'a binheap \<Rightarrow> nat \<Rightarrow> 'a binheap option" where
  "heap_sift_up heap i =
     (case da_cmpe (bh_arr heap) of
        None \<Rightarrow> None
      | Some cmpe \<Rightarrow>
          map_option (\<lambda>a. heap\<lparr>bh_arr := (bh_arr heap)\<lparr>da_elements := a\<rparr>\<rparr>)
            (binheap_sift_up (bh_flags heap) cmpe (da_elements (bh_arr heap)) i))"

subsection \<open>Operations\<close>

text \<open>
  The inner option is \<open>NULL\<close>. The first slot is cleared without a test of the pointer, so a
  failed allocation of the block faults.
\<close>

definition binheap_init ::
  "'a \<Rightarrow> unit option \<Rightarrow> unit option \<Rightarrow> 'a mem \<Rightarrow> 'a binheap_params option \<Rightarrow>
   'a binheap option option" where
  "binheap_init zero heap_in handle mem params =
     (case params of
        None \<Rightarrow> Some None
      | Some p \<Rightarrow>
          if \<not> (bhp_max_elts p > 0 \<and> bhp_elt_size p > 0 \<and> bhp_cmpe p \<noteq> None) then Some None
          else
            (case rcsw_alloc id heap_in handle (bhp_flags p AND RCSW_NOALLOC_HANDLE) of
               Some (Some _) \<Rightarrow>
                 let max0 = int_of_size (bhp_max_elts p);
                     dparams =
                       \<lparr>dap_cmpe = bhp_cmpe p, dap_elements = bhp_elements p,
                        dap_elt_size = bhp_elt_size p,
                        dap_max_elts = max0 + (if max0 = -1 then 0 else 1),
                        dap_flags = (bhp_flags p AND NOT RCSW_NOALLOC_HANDLE) OR RCSW_NOALLOC_HANDLE,
                        dap_init_size = max 1 (bhp_init_size p + 1)\<rparr>
                 in (case darray_init (Some ()) None mem (Some dparams) of
                       None \<Rightarrow> Some None
                     | Some arr \<Rightarrow>
                         let (s, arr1) = darray_set_size arr 1
                         in if s \<noteq> OK then Some None
                            else map_option (\<lambda>a. Some \<lparr>bh_arr = arr1\<lparr>da_elements := a\<rparr>,
                                                        bh_flags = bhp_flags p\<rparr>)
                                   (wr (da_elements arr1) 0 zero))
             | _ \<Rightarrow> Some None))"

text \<open>The array's two answers, then whether the heap's own handle is freed.\<close>

definition binheap_destroy :: "'a binheap \<Rightarrow> (bool \<times> bool) \<times> bool" where
  "binheap_destroy heap =
     (darray_destroy (bh_arr heap), rcsw_free (Some ()) (bh_flags heap AND RCSW_NOALLOC_HANDLE))"

definition binheap_insert ::
  "'a binheap \<Rightarrow> 'a option \<Rightarrow> 'a mem \<Rightarrow> (status \<times> 'a binheap) option" where
  "binheap_insert heap e mem =
     (if \<not> (e \<noteq> None \<and> \<not> binheap_isfull heap) then Some (fpc_error, heap)
      else do {
        (s, arr) \<leftarrow> darray_insert (bh_arr heap) e (da_current (bh_arr heap)) mem;
        let heap1 = heap\<lparr>bh_arr := arr\<rparr>;
        if s \<noteq> OK then Some (s, heap1)
        else map_option (\<lambda>h. (OK, h)) (heap_sift_up heap1 (binheap_size heap1))
      })"

text \<open>The heapify loop: \<open>k\<close> counts down from the median to 1.\<close>

fun make_sift :: "'a binheap \<Rightarrow> nat \<Rightarrow> 'a binheap option" where
  "make_sift heap k =
     (if k > 1 then
        (case heap_sift_down heap (k - 1) of
           None \<Rightarrow> None
         | Some h \<Rightarrow> make_sift h (k - 1))
      else Some heap)"

declare make_sift.simps [simp del]

text \<open>
  The insertions of \<open>binheap_make\<close>; \<open>mems i\<close> answers the allocation of the \<open>i\<close>-th.
\<close>

definition make_fill ::
  "'a darray \<Rightarrow> 'a list \<Rightarrow> nat \<Rightarrow> (nat \<Rightarrow> 'a mem) \<Rightarrow> (status \<times> 'a darray) option" where
  "make_fill arr data n_elts mems =
     for_range 0 n_elts
       (\<lambda>i (s, arr). if s \<noteq> OK then Some (s, arr)
          else do {
            x \<leftarrow> rd data (int i);
            darray_insert arr (Some x) (i + 1) (mems i)
          }) (OK, arr)"

definition binheap_make ::
  "'a binheap \<Rightarrow> 'a list option \<Rightarrow> nat \<Rightarrow> (nat \<Rightarrow> 'a mem) \<Rightarrow> (status \<times> 'a binheap) option" where
  "binheap_make heap data n_elts mems =
     (case data of
        None \<Rightarrow> Some (fpc_error, heap)
      | Some xs \<Rightarrow>
          if \<not> n_elts > 0 then Some (fpc_error, heap)
          else do {
            (s, arr) \<leftarrow> make_fill (bh_arr heap) xs n_elts mems;
            if s \<noteq> OK then Some (s, heap\<lparr>bh_arr := arr\<rparr>)
            else
              let (s1, arr1) = darray_set_size arr (n_elts + 1);
                  heap1 = heap\<lparr>bh_arr := arr1\<rparr>
              in if s1 \<noteq> OK then Some (s1, heap1)
                 else map_option (\<lambda>h. (OK, h)) (make_sift heap1 (binheap_size heap1 div 2 + 1))
          })"

text \<open>
  The last element is served into slot 1 of the same block, which happens before
  \<open>darray_remove\<close> drops it.
\<close>

definition binheap_extract ::
  "'a \<Rightarrow> 'a binheap \<Rightarrow> bool \<Rightarrow> 'a mem \<Rightarrow> (status \<times> 'a option \<times> 'a binheap) option" where
  "binheap_extract ones heap e mem =
     (if \<not> \<not> binheap_isempty heap then Some (fpc_error, None, heap)
      else
        let arr = bh_arr heap;
            last_idx = size_pred (darray_size arr)
        in do {
          out \<leftarrow> (if e then map_option Some (rd (da_elements arr) (darray_data_get arr 1))
                  else Some None);
          a1 \<leftarrow> (if last_idx \<le> darray_size arr then do {
                   x \<leftarrow> rd (da_elements arr) (darray_data_get arr last_idx);
                   wr (da_elements arr) (darray_data_get arr 1) x
                 } else Some (da_elements arr));
          (s, _, arr1) \<leftarrow> darray_remove ones (arr\<lparr>da_elements := a1\<rparr>) False last_idx mem;
          let heap1 = heap\<lparr>bh_arr := arr1\<rparr>;
          if s \<noteq> OK then Some (s, out, heap1)
          else map_option (\<lambda>h. (OK, out, h)) (heap_sift_down heap1 1)
        })"

definition binheap_update_key ::
  "'a binheap \<Rightarrow> nat \<Rightarrow> 'a option \<Rightarrow> (status \<times> 'a binheap) option" where
  "binheap_update_key heap index new_val =
     (if \<not> (index > 0 \<and> new_val \<noteq> None) then Some (fpc_error, heap)
      else do {
        (s, arr) \<leftarrow> darray_data_set (bh_arr heap) index new_val;
        let heap1 = heap\<lparr>bh_arr := arr\<rparr>;
        if s \<noteq> OK then Some (s, heap1)
        else map_option (\<lambda>h. (OK, h)) (heap_sift_up heap1 index)
      })"

definition binheap_delete_key ::
  "'a \<Rightarrow> 'a binheap \<Rightarrow> nat \<Rightarrow> 'a option \<Rightarrow> 'a mem \<Rightarrow> (status \<times> 'a binheap) option" where
  "binheap_delete_key ones heap index minmax mem =
     (if \<not> (index > 0 \<and> minmax \<noteq> None) then Some (fpc_error, heap)
      else do {
        (s, heap1) \<leftarrow> binheap_update_key heap index minmax;
        if s \<noteq> OK then Some (s, heap1)
        else map_option (\<lambda>(s1, _, h). (s1, h)) (binheap_extract ones heap1 False mem)
      })"

subsection \<open>Sifting restores the heap order\<close>

text \<open>The slots that hold elements, and the heap order on every edge whose parent is at least \<open>lo\<close>.\<close>

definition heap_slots :: "nat \<Rightarrow> 'a list \<Rightarrow> 'a list" where
  "heap_slots n a = tl (take (Suc n) a)"

definition heap_from :: "('a \<Rightarrow> 'a \<Rightarrow> int) \<Rightarrow> nat \<Rightarrow> nat \<Rightarrow> 'a list \<Rightarrow> bool" where
  "heap_from r lo n a \<longleftrightarrow>
     (\<forall>i. 2 \<le> i \<longrightarrow> i \<le> n \<longrightarrow> lo \<le> i div 2 \<longrightarrow> r (a ! (i div 2)) (a ! i) \<le> 0)"

lemma binheap_swap_ok:
  assumes "1 \<le> i" and "i \<le> n" and "1 \<le> j" and "j \<le> n" and "n < length a" and "i \<noteq> j"
  shows "\<exists>a'. binheap_swap a i j = Some a' \<and> length a' = length a \<and>
     a' ! i = a ! j \<and> a' ! j = a ! i \<and> (\<forall>k. k \<noteq> 0 \<longrightarrow> k \<noteq> i \<longrightarrow> k \<noteq> j \<longrightarrow> a' ! k = a ! k) \<and>
     mset (heap_slots n a') = mset (heap_slots n a)"
proof -
  obtain z b where a: "a = z # b" using assms by (cases a) auto
  obtain i' j' where ij: "i = Suc i'" "j = Suc j'" using assms by (metis Suc_le_D One_nat_def)
  let ?a = "b ! i' # swp b i' j'"
  have "binheap_swap a i j = Some ?a"
    using assms by (simp add: a ij binheap_swap_def rd_def wr_def swp_def nat_add_distrib)
  moreover have "mset (heap_slots n ?a) = mset (heap_slots n a)"
  proof -
    have "take n (swp b i' j') = swp (take n b) i' j'"
      using assms by (simp add: swp_def ij a take_update_swap)
    then show ?thesis using assms by (simp add: heap_slots_def a ij)
  qed
  moreover have "length ?a = length a" by (simp add: a)
  moreover have "?a ! i = a ! j" "?a ! j = a ! i"
    using assms by (auto simp: a ij swp_def nth_list_update)
  moreover have "\<forall>k. k \<noteq> 0 \<longrightarrow> k \<noteq> i \<longrightarrow> k \<noteq> j \<longrightarrow> ?a ! k = a ! k"
    using assms by (auto simp: a ij swp_def nth_Cons split: nat.splits)
  ultimately show ?thesis by blast
qed

context cmp_order
begin

lemma sift_pick_spec:
  assumes w: "\<And>x y. child_wins flags c x y \<longleftrightarrow> cmpe x y < 0"
    and m: "1 \<le> m" and n: "n < length a"
  shows "\<exists>s. sift_pick flags c n a m = Some s \<and> (s = m \<or> s \<le> n \<and> s div 2 = m \<and> m < s) \<and>
     cmpe (a ! s) (a ! m) \<le> 0 \<and> (\<forall>i. i \<le> n \<longrightarrow> i div 2 = m \<longrightarrow> cmpe (a ! s) (a ! i) \<le> 0)"
proof -
  have child: "i div 2 = m \<longleftrightarrow> i = 2 * m \<or> i = 2 * m + 1" for i by auto
  have not_less: "\<not> cmpe x y < 0 \<longleftrightarrow> cmpe y x \<le> 0" for x y
    using cmp_less [of x y] by linarith
  define b where "b = (if 2 * m \<le> n \<and> cmpe (a ! (2 * m)) (a ! m) < 0 then 2 * m else m)"
  define s where "s = (if 2 * m + 1 \<le> n \<and> cmpe (a ! (2 * m + 1)) (a ! b) < 0 then 2 * m + 1 else b)"
  have bb: "b = m \<or> b = 2 * m \<and> 2 * m \<le> n" by (auto simp: b_def)
  have "sift_pick flags c n a m = Some s"
    using m n bb by (simp add: sift_pick_def binheap_lchild_def binheap_rchild_def w b_def s_def rd_def
        nat_mult_distrib nat_add_distrib split: if_splits)
  moreover have "s = m \<or> s \<le> n \<and> s div 2 = m \<and> m < s" using m by (auto simp: s_def b_def)
  moreover have 1: "cmpe (a ! b) (a ! m) \<le> 0" "2 * m \<le> n \<longrightarrow> cmpe (a ! b) (a ! (2 * m)) \<le> 0"
    using not_less [of "a ! (2 * m)" "a ! m"] by (auto simp: b_def)
  moreover have 2: "cmpe (a ! s) (a ! b) \<le> 0" "2 * m + 1 \<le> n \<longrightarrow> cmpe (a ! s) (a ! (2 * m + 1)) \<le> 0"
    using not_less [of "a ! (2 * m + 1)" "a ! b"] by (auto simp: s_def)
  ultimately show ?thesis using cmp_trans [OF 2(1)] by (auto simp: child)
qed

lemma sift_down_spec:
  assumes w: "\<And>x y. child_wins flags c x y \<longleftrightarrow> cmpe x y < 0"
    and "1 \<le> m" and "n < length a" and "1 \<le> lo" and "lo \<le> m"
    and "\<And>i. 2 \<le> i \<Longrightarrow> i \<le> n \<Longrightarrow> lo \<le> i div 2 \<Longrightarrow> i div 2 \<noteq> m \<Longrightarrow> cmpe (a ! (i div 2)) (a ! i) \<le> 0"
    and "\<And>i. lo \<le> m div 2 \<Longrightarrow> i \<le> n \<Longrightarrow> i div 2 = m \<Longrightarrow> cmpe (a ! (m div 2)) (a ! i) \<le> 0"
  shows "\<exists>a'. binheap_sift_down flags c n a m = Some a' \<and> length a' = length a \<and>
     mset (heap_slots n a') = mset (heap_slots n a) \<and> heap_from cmpe lo n a'"
  using assms(2-)
proof (induction "n - m" arbitrary: a m rule: less_induct)
  case less
  obtain s where s: "sift_pick flags c n a m = Some s" "s = m \<or> s \<le> n \<and> s div 2 = m \<and> m < s"
    "cmpe (a ! s) (a ! m) \<le> 0" "\<And>i. i \<le> n \<Longrightarrow> i div 2 = m \<Longrightarrow> cmpe (a ! s) (a ! i) \<le> 0"
    using sift_pick_spec [OF w less.prems(1,2)] by blast
  show ?case
  proof (cases "s = m")
    case True
    then have "heap_from cmpe lo n a"
      using less.prems(5) s(4) unfolding heap_from_def by metis
    then show ?thesis using True s(1) by (simp add: binheap_sift_down.simps)
  next
    case False
    then have sm: "s \<le> n" "s div 2 = m" "m < s" using s(2) by auto
    obtain a' where a': "binheap_swap a m s = Some a'" "length a' = length a"
      "a' ! m = a ! s" "a' ! s = a ! m" "\<And>k. k \<noteq> 0 \<Longrightarrow> k \<noteq> m \<Longrightarrow> k \<noteq> s \<Longrightarrow> a' ! k = a ! k"
      "mset (heap_slots n a') = mset (heap_slots n a)"
      using binheap_swap_ok [of m n s a] sm less.prems(1,2) False by auto
    have step: "binheap_sift_down flags c n a m = binheap_sift_down flags c n a' s"
      using s(1) False a'(1) by (simp add: binheap_sift_down.simps [of flags c n a m])
    have edges: "cmpe (a' ! (i div 2)) (a' ! i) \<le> 0"
      if i: "2 \<le> i" "i \<le> n" "lo \<le> i div 2" "i div 2 \<noteq> s" for i
    proof -
      have pos: "i div 2 \<noteq> 0" "i \<noteq> 0" "i div 2 \<noteq> i" using i(1) by auto
      consider "i = s" | "i \<noteq> s" "i div 2 = m" | "i = m" | "i \<noteq> s" "i div 2 \<noteq> m" "i \<noteq> m" by blast
      then show ?thesis
      proof cases
        case 1
        then show ?thesis using a'(3,4) s(3) sm by simp
      next
        case 2
        then have "a' ! i = a ! i" using a'(5) pos by metis
        then show ?thesis using 2 a'(3) s(4) i by simp
      next
        case 3
        then have "a' ! (i div 2) = a ! (i div 2)" using a'(5) pos i by metis
        then show ?thesis using 3 a'(3) less.prems(6) [of s] sm i by simp
      next
        case 4
        then have "a' ! i = a ! i" "a' ! (i div 2) = a ! (i div 2)" using a'(5) pos i by metis+
        then show ?thesis using 4 less.prems(5) i by simp
      qed
    qed
    have grand: "cmpe (a' ! (s div 2)) (a' ! i) \<le> 0" if i: "i \<le> n" "i div 2 = s" for i
    proof -
      have "i \<noteq> m" "i \<noteq> s" "i \<noteq> 0" "2 \<le> i" using i sm less.prems(1) by auto
      then have "a' ! i = a ! i" using a'(5) by simp
      moreover have "cmpe (a ! (i div 2)) (a ! i) \<le> 0"
        using less.prems(4) sm i \<open>2 \<le> i\<close> by (intro less.prems(5)) auto
      ultimately show ?thesis using i sm a'(3) by simp
    qed
    have "\<exists>a''. binheap_sift_down flags c n a' s = Some a'' \<and> length a'' = length a' \<and>
       mset (heap_slots n a'') = mset (heap_slots n a') \<and> heap_from cmpe lo n a''"
      by (rule less.hyps) (use sm less.prems a'(2) edges grand in auto)
    then show ?thesis using step a'(2,6) by simp
  qed
qed

lemma sift_up_spec:
  assumes w: "\<And>p x. parent_loses flags c p x \<longleftrightarrow> cmpe x p < 0"
    and "1 \<le> i" and "i \<le> n" and "n < length a"
    and "\<And>k. 2 \<le> k \<Longrightarrow> k \<le> n \<Longrightarrow> k \<noteq> i \<Longrightarrow> cmpe (a ! (k div 2)) (a ! k) \<le> 0"
    and "\<And>k. 2 \<le> i \<Longrightarrow> k \<le> n \<Longrightarrow> k div 2 = i \<Longrightarrow> cmpe (a ! (i div 2)) (a ! k) \<le> 0"
  shows "\<exists>a'. binheap_sift_up flags c a i = Some a' \<and> length a' = length a \<and>
     mset (heap_slots n a') = mset (heap_slots n a) \<and> heap_from cmpe 1 n a'"
  using assms(2-)
proof (induction i arbitrary: a rule: less_induct)
  case (less i)
  have rds: "rd a (int (binheap_parent i)) = Some (a ! (i div 2))" "rd a (int i) = Some (a ! i)"
    using less.prems(1-3) by (simp_all add: binheap_parent_def rd_def nat_div_distrib)
  show ?case
  proof (cases "cmpe (a ! i) (a ! (i div 2)) < 0 \<and> 2 \<le> i")
    case False
    have heap: "heap_from cmpe 1 n a"
      unfolding heap_from_def
    proof (intro allI impI)
      fix k assume k: "2 \<le> k" "k \<le> n"
      show "cmpe (a ! (k div 2)) (a ! k) \<le> 0"
        using less.prems(4) [OF k] False k cmp_less [of "a ! i" "a ! (i div 2)"] by fastforce
    qed
    have "binheap_sift_up flags c a i = Some a"
    proof (cases "i = 1")
      case True
      then show ?thesis
        using rds by (simp add: binheap_sift_up.simps [of flags c a] binheap_swap_def binheap_parent_def)
    next
      case False': False
      then show ?thesis using False rds less.prems(1) w
        by (subst binheap_sift_up.simps) auto
    qed
    then show ?thesis using heap by simp
  next
    case True
    define p where "p = i div 2"
    have p: "1 \<le> p" "p < i" "p \<le> n" using True less.prems(2) by (auto simp: p_def)
    obtain a' where a': "binheap_swap a i p = Some a'" "length a' = length a"
      "a' ! i = a ! p" "a' ! p = a ! i" "\<And>k. k \<noteq> 0 \<Longrightarrow> k \<noteq> i \<Longrightarrow> k \<noteq> p \<Longrightarrow> a' ! k = a ! k"
      "mset (heap_slots n a') = mset (heap_slots n a)"
      using binheap_swap_ok [of i n p a] p less.prems(1-3) by auto
    have step: "binheap_sift_up flags c a i = binheap_sift_up flags c a' p"
      using rds True a'(1) w less.prems(1)
      by (subst binheap_sift_up.simps) (simp add: p_def binheap_parent_def)
    have up: "cmpe (a ! i) (a ! p) < 0" using True by (simp add: p_def)
    have edges: "cmpe (a' ! (k div 2)) (a' ! k) \<le> 0" if k: "2 \<le> k" "k \<le> n" "k \<noteq> p" for k
    proof -
      have pos: "k div 2 \<noteq> 0" "k \<noteq> 0" using k(1) by auto
      consider "k = i" | "k \<noteq> i" "k div 2 = i" | "k \<noteq> i" "k div 2 = p"
        | "k \<noteq> i" "k div 2 \<noteq> i" "k div 2 \<noteq> p" by blast
      then show ?thesis
      proof cases
        case 1
        then show ?thesis using up a'(3,4) by (simp add: p_def)
      next
        case 2
        then show ?thesis using less.prems(5) [of k] True a'(3) a'(5) [OF pos(2)] k
          by (simp add: p_def)
      next
        case 3
        have "cmpe (a ! p) (a ! k) \<le> 0" using less.prems(4) [of k] 3 k by simp
        then show ?thesis using 3 cmp_less_trans [OF up] a'(4) a'(5) [OF pos(2)] k by fastforce
      next
        case 4
        then show ?thesis using less.prems(4) [of k] a'(5) [OF pos(1)] a'(5) [OF pos(2)] k by simp
      qed
    qed
    have grand: "cmpe (a' ! (p div 2)) (a' ! k) \<le> 0"
      if k: "2 \<le> p" "k \<le> n" "k div 2 = p" for k
    proof -
      have ne: "p div 2 \<noteq> 0" "p div 2 \<noteq> p" "p div 2 \<noteq> i" using k(1) p by auto
      have gp: "cmpe (a ! (p div 2)) (a ! p) \<le> 0" using less.prems(4) [of p] k p by simp
      have e: "a' ! (p div 2) = a ! (p div 2)" using a'(5) [OF ne(1)] ne by simp
      show ?thesis
      proof (cases "k = i")
        case True
        then show ?thesis using e gp a'(3) by simp
      next
        case False
        then have "cmpe (a ! p) (a ! k) \<le> 0" using less.prems(4) [of k] k p by simp
        moreover have "a' ! k = a ! k" using a'(5) [of k] False k p by fastforce
        ultimately show ?thesis using cmp_trans [OF gp] e by simp
      qed
    qed
    have "\<exists>a''. binheap_sift_up flags c a' p = Some a'' \<and> length a'' = length a' \<and>
       mset (heap_slots n a'') = mset (heap_slots n a') \<and> heap_from cmpe 1 n a''"
      by (rule less.IH) (use p less.prems a'(2) edges grand in auto)
    then show ?thesis using step a'(2,6) by simp
  qed
qed

text \<open>The root of a heap precedes every element.\<close>

lemma heap_root_first:
  assumes "heap_from cmpe 1 n a" and "1 \<le> i" and "i \<le> n"
  shows "cmpe (a ! 1) (a ! i) \<le> 0"
  using assms(2,3)
proof (induction i rule: less_induct)
  case (less i)
  show ?case
  proof (cases "i = 1")
    case False
    then have i: "2 \<le> i" using less.prems by simp
    then have "cmpe (a ! 1) (a ! (i div 2)) \<le> 0" by (intro less.IH) (use less.prems in auto)
    moreover have "cmpe (a ! (i div 2)) (a ! i) \<le> 0"
      using assms(1) i less.prems by (auto simp: heap_from_def)
    ultimately show ?thesis by (rule cmp_trans)
  qed simp
qed

end

subsection \<open>Well-formed heaps\<close>

text \<open>
  The order the heap keeps: the callback's for a min heap, its converse for a max heap.
\<close>

definition bh_ord :: "u32 \<Rightarrow> ('a \<Rightarrow> 'a \<Rightarrow> int) \<Rightarrow> 'a \<Rightarrow> 'a \<Rightarrow> int" where
  "bh_ord flags c x y = (if has_flag flags RCSW_DS_BINHEAP_MIN then c x y else c y x)"

lemma bh_ord_order: "cmp_order c \<Longrightarrow> cmp_order (bh_ord flags c)"
  by (auto simp: cmp_order_def bh_ord_def)

lemma child_wins_ord: "cmp_order c \<Longrightarrow> child_wins flags c x y \<longleftrightarrow> bh_ord flags c x y < 0"
  using cmp_order.cmp_less [of c y x] by (simp add: child_wins_def bh_ord_def)

lemma parent_loses_ord: "cmp_order c \<Longrightarrow> parent_loses flags c p x \<longleftrightarrow> bh_ord flags c x p < 0"
  using cmp_order.cmp_less [of c x p] by (simp add: parent_loses_def bh_ord_def)

definition bh_elems :: "'a binheap \<Rightarrow> 'a multiset" where
  "bh_elems heap = mset (tl (da_content (bh_arr heap)))"

definition bh_shape :: "u32 \<Rightarrow> ('a \<Rightarrow> 'a \<Rightarrow> int) \<Rightarrow> 'a binheap \<Rightarrow> bool" where
  "bh_shape flags c heap \<longleftrightarrow> da_wf (bh_arr heap) \<and> 1 \<le> da_current (bh_arr heap) \<and>
     \<not> has_flag (da_flags (bh_arr heap)) RCSW_DS_SORTED \<and>
     da_cmpe (bh_arr heap) = Some c \<and> cmp_order c \<and> bh_flags heap = flags"

definition bh_inv :: "u32 \<Rightarrow> ('a \<Rightarrow> 'a \<Rightarrow> int) \<Rightarrow> 'a binheap \<Rightarrow> bool" where
  "bh_inv flags c heap \<longleftrightarrow> bh_shape flags c heap \<and>
     heap_from (bh_ord flags c) 1 (da_current (bh_arr heap) - 1) (da_elements (bh_arr heap))"

lemma bh_shapeD:
  assumes "bh_shape flags c heap" and "da_current (bh_arr heap) = Suc n"
  shows "binheap_size heap = n" and "n < length (da_elements (bh_arr heap))"
    and "bh_elems heap = mset (heap_slots n (da_elements (bh_arr heap)))"
    and "binheap_isempty heap \<longleftrightarrow> n = 0"
proof -
  have "Suc n < 2 ^ 31" "Suc n \<le> length (da_elements (bh_arr heap))"
    using assms by (auto simp: bh_shape_def da_wf_def)
  then show "binheap_size heap = n" using assms(2) size_pred_Suc [of n]
    by (simp add: binheap_size_def darray_size_def)
  show "n < length (da_elements (bh_arr heap))"
    "bh_elems heap = mset (heap_slots n (da_elements (bh_arr heap)))"
    "binheap_isempty heap \<longleftrightarrow> n = 0"
    using assms(2) \<open>Suc n \<le> length (da_elements (bh_arr heap))\<close>
    by (simp_all add: darray_size_def bh_elems_def da_content_def heap_slots_def binheap_isempty_def)
qed

text \<open>Replacing the block by one of the same length keeps everything but the order.\<close>

definition with_block :: "'a binheap \<Rightarrow> 'a list \<Rightarrow> 'a binheap" where
  "with_block heap a = heap\<lparr>bh_arr := (bh_arr heap)\<lparr>da_elements := a\<rparr>\<rparr>"

lemma with_block_simps [simp]:
  "da_current (bh_arr (with_block heap a)) = da_current (bh_arr heap)"
  "da_elements (bh_arr (with_block heap a)) = a"
  "da_flags (bh_arr (with_block heap a)) = da_flags (bh_arr heap)"
  by (simp_all add: with_block_def)

lemma bh_shape_with_block:
  "bh_shape flags c heap \<Longrightarrow> length a = length (da_elements (bh_arr heap)) \<Longrightarrow>
   bh_shape flags c (with_block heap a)"
  by (simp add: bh_shape_def da_wf_def with_block_def)

lemma heap_sift_down_ok:
  assumes sh: "bh_shape flags c heap" and n: "da_current (bh_arr heap) = Suc n"
    and m: "1 \<le> m"
    and h: "heap_from (bh_ord flags c) (Suc m) n (da_elements (bh_arr heap))"
  shows "\<exists>heap'. heap_sift_down heap m = Some heap' \<and> bh_shape flags c heap' \<and>
     da_current (bh_arr heap') = Suc n \<and> da_flags (bh_arr heap') = da_flags (bh_arr heap) \<and>
     bh_elems heap' = bh_elems heap \<and>
     heap_from (bh_ord flags c) m n (da_elements (bh_arr heap'))"
proof -
  have c: "cmp_order c" "da_cmpe (bh_arr heap) = Some c" "bh_flags heap = flags"
    using sh by (auto simp: bh_shape_def)
  let ?a = "da_elements (bh_arr heap)" and ?r = "bh_ord flags c"
  have edges: "?r (?a ! (i div 2)) (?a ! i) \<le> 0"
    if "2 \<le> i" "i \<le> n" "m \<le> i div 2" "i div 2 \<noteq> m" for i
    using h that by (auto simp: heap_from_def)
  obtain a' where a': "binheap_sift_down flags c n ?a m = Some a'" "length a' = length ?a"
    "mset (heap_slots n a') = mset (heap_slots n ?a)" "heap_from ?r m n a'"
    using cmp_order.sift_down_spec [OF bh_ord_order [OF c(1)] child_wins_ord [OF c(1)] m
        bh_shapeD(2) [OF sh n] m order_refl edges] m by fastforce
  have "heap_sift_down heap m = Some (with_block heap a')"
    using a'(1) c(2,3) bh_shapeD(1) [OF sh n] by (simp add: heap_sift_down_def with_block_def)
  moreover have sh': "bh_shape flags c (with_block heap a')"
    using bh_shape_with_block [OF sh a'(2)] .
  moreover have "bh_elems (with_block heap a') = bh_elems heap"
    using bh_shapeD(3) [OF sh n] bh_shapeD(3) [OF sh', of n] n a'(3) by simp
  ultimately show ?thesis using a'(4) n by simp
qed

lemma heap_sift_up_ok:
  assumes sh: "bh_shape flags c heap" and n: "da_current (bh_arr heap) = Suc n"
    and i: "1 \<le> i" "i \<le> n"
    and e: "\<And>k. 2 \<le> k \<Longrightarrow> k \<le> n \<Longrightarrow> k \<noteq> i \<Longrightarrow> bh_ord flags c
       (da_elements (bh_arr heap) ! (k div 2)) (da_elements (bh_arr heap) ! k) \<le> 0"
    and g: "\<And>k. 2 \<le> i \<Longrightarrow> k \<le> n \<Longrightarrow> k div 2 = i \<Longrightarrow> bh_ord flags c
       (da_elements (bh_arr heap) ! (i div 2)) (da_elements (bh_arr heap) ! k) \<le> 0"
  shows "\<exists>heap'. heap_sift_up heap i = Some heap' \<and> bh_inv flags c heap' \<and>
     da_current (bh_arr heap') = Suc n \<and> da_flags (bh_arr heap') = da_flags (bh_arr heap) \<and>
     bh_elems heap' = bh_elems heap"
proof -
  have c: "cmp_order c" "da_cmpe (bh_arr heap) = Some c" "bh_flags heap = flags"
    using sh by (auto simp: bh_shape_def)
  let ?a = "da_elements (bh_arr heap)" and ?r = "bh_ord flags c"
  obtain a' where a': "binheap_sift_up flags c ?a i = Some a'" "length a' = length ?a"
    "mset (heap_slots n a') = mset (heap_slots n ?a)" "heap_from ?r 1 n a'"
    using cmp_order.sift_up_spec [OF bh_ord_order [OF c(1)] parent_loses_ord [OF c(1)] i
        bh_shapeD(2) [OF sh n] e g] by blast
  have "heap_sift_up heap i = Some (with_block heap a')"
    using a'(1) c(2,3) by (simp add: heap_sift_up_def with_block_def)
  moreover have sh': "bh_shape flags c (with_block heap a')"
    using bh_shape_with_block [OF sh a'(2)] .
  moreover have "bh_elems (with_block heap a') = bh_elems heap"
    using bh_shapeD(3) [OF sh n] bh_shapeD(3) [OF sh', of n] n a'(3) by simp
  ultimately show ?thesis using a'(4) n by (simp add: bh_inv_def)
qed

lemma make_sift_ok:
  assumes "bh_shape flags c heap" and "da_current (bh_arr heap) = Suc n" and "1 \<le> k"
    and "heap_from (bh_ord flags c) k n (da_elements (bh_arr heap))"
  shows "\<exists>heap'. make_sift heap k = Some heap' \<and> bh_inv flags c heap' \<and>
     da_current (bh_arr heap') = Suc n \<and> bh_elems heap' = bh_elems heap"
  using assms
proof (induction k arbitrary: heap)
  case 0
  then show ?case by simp
next
  case (Suc k)
  show ?case
  proof (cases "k = 0")
    case True
    then show ?thesis using Suc.prems by (simp add: make_sift.simps bh_inv_def)
  next
    case False
    then obtain h where h: "heap_sift_down heap k = Some h" "bh_shape flags c h"
      "da_current (bh_arr h) = Suc n" "bh_elems h = bh_elems heap"
      "heap_from (bh_ord flags c) k n (da_elements (bh_arr h))"
      using heap_sift_down_ok [OF Suc.prems(1,2), of k] Suc.prems(4) by auto
    then show ?thesis using Suc.IH [OF h(2,3) _ h(5)] False
      by (simp add: make_sift.simps [of heap])
  qed
qed

subsection \<open>The operations on well-formed heaps\<close>

text \<open>Appending to the array of a heap.\<close>

lemma darray_append:
  assumes wf: "da_wf arr" and room: "da_has_room arr mem"
    and srt: "\<not> has_flag (da_flags arr) RCSW_DS_SORTED"
  shows "\<exists>arr'. darray_insert arr (Some x) (da_current arr) mem = Some (OK, arr') \<and> da_wf arr' \<and>
     da_current arr' = da_current arr + 1 \<and> da_flags arr' = da_flags arr \<and>
     da_cmpe arr' = da_cmpe arr \<and> da_max_elts arr' = da_max_elts arr \<and>
     da_content arr' = da_content arr @ [x]"
proof -
  have len: "length (da_content arr) = da_current arr"
    using wf by (simp add: da_wf_def da_content_def)
  obtain arr' where a: "darray_insert arr (Some x) (da_current arr) mem = Some (OK, arr')"
    "da_wf arr'" "da_current arr' = da_current arr + 1"
    "arr' = arr\<lparr>da_elements := da_elements arr', da_current := da_current arr',
                da_capacity := da_capacity arr', da_sorted := da_sorted arr'\<rparr>"
    "da_content arr' = ins_result arr (da_current arr) x"
    using darray_insert_ok [OF wf order_refl room, of x] srt by auto
  have f: "da_flags arr' = da_flags arr" "da_cmpe arr' = da_cmpe arr"
    "da_max_elts arr' = da_max_elts arr"
    by (subst a(4); simp)+
  have "ins_result arr (da_current arr) x = da_content arr @ [x]"
    unfolding len [symmetric] by (simp add: ins_result_def ins_ordered_def ins_swap_def)
  then show ?thesis using a(1,2,3,5) f by auto
qed

lemma binheap_insert_ok:
  assumes inv: "bh_inv flags c heap" and room: "da_has_room (bh_arr heap) mem"
  shows "\<exists>heap'. binheap_insert heap (Some x) mem = Some (OK, heap') \<and> bh_inv flags c heap' \<and>
     bh_elems heap' = add_mset x (bh_elems heap)"
proof -
  let ?arr = "bh_arr heap"
  have sh: "bh_shape flags c heap" using inv by (simp add: bh_inv_def)
  then obtain n where n: "da_current ?arr = Suc n" by (cases "da_current ?arr") (auto simp: bh_shape_def)
  have wf: "da_wf ?arr" and srt: "\<not> has_flag (da_flags ?arr) RCSW_DS_SORTED"
    using sh by (auto simp: bh_shape_def)
  obtain arr' where a: "darray_insert ?arr (Some x) (da_current ?arr) mem = Some (OK, arr')"
    "da_wf arr'" "da_current arr' = Suc (Suc n)" "da_flags arr' = da_flags ?arr"
    "da_cmpe arr' = da_cmpe ?arr" "da_content arr' = da_content ?arr @ [x]"
    using darray_append [OF wf room srt, of x] n by auto
  let ?h = "heap\<lparr>bh_arr := arr'\<rparr>"
  have sh': "bh_shape flags c ?h" using sh a by (simp add: bh_shape_def)
  have same: "da_elements arr' ! k = da_elements ?arr ! k" if "k \<le> n" for k
  proof -
    have "length (da_content ?arr) = Suc n" using n wf by (simp add: da_wf_def da_content_def)
    then have "da_content arr' ! k = da_content ?arr ! k"
      using that by (simp add: a(6) nth_append)
    then show ?thesis using that n a(3) by (simp add: da_content_def)
  qed
  have edge: "bh_ord flags c (da_elements arr' ! (k div 2)) (da_elements arr' ! k) \<le> 0"
    if k: "2 \<le> k" "k \<le> Suc n" "k \<noteq> Suc n" for k
  proof -
    have "k \<le> n" "k div 2 \<le> n" using k by auto
    moreover have "1 \<le> k div 2" using k(1) by auto
    ultimately show ?thesis using inv k same n by (auto simp: bh_inv_def heap_from_def)
  qed
  have grand: "bh_ord flags c (da_elements arr' ! (Suc n div 2)) (da_elements arr' ! k) \<le> 0"
    if "k \<le> Suc n" "k div 2 = Suc n" for k using that by auto
  obtain h where h: "heap_sift_up ?h (Suc n) = Some h" "bh_inv flags c h" "bh_elems h = bh_elems ?h"
    using heap_sift_up_ok [OF sh', of "Suc n" "Suc n"] a(3) edge grand by auto
  have el: "bh_elems ?h = add_mset x (bh_elems heap)"
  proof -
    have "da_content ?arr \<noteq> []" using n bh_shapeD(2) [OF sh n] by (auto simp: da_content_def)
    then show ?thesis by (simp add: bh_elems_def a(6) tl_append2)
  qed
  have "\<not> binheap_isfull heap"
    using room wf darray_isfull_iff [OF wf] n
    by (auto simp: binheap_isfull_def da_has_room_def darray_isfull_def size_of_int_def)
  then have "binheap_insert heap (Some x) mem = Some (OK, h)"
    using a(1) h(1) bh_shapeD(1) [OF sh', of "Suc n"] a(3) by (simp add: binheap_insert_def Let_def)
  then show ?thesis using h el by simp
qed

text \<open>Extraction with its result, and as the operation of the priority queue contract.\<close>

lemma binheap_extract_ok:
  assumes inv: "bh_inv flags c heap" and ne: "bh_elems heap \<noteq> {#}" and mem: "mem = Some junk"
  shows "\<exists>x heap'. binheap_extract ones heap True mem = Some (OK, Some x, heap') \<and>
     bh_inv flags c heap' \<and> bh_elems heap = add_mset x (bh_elems heap') \<and>
     (\<forall>y \<in># bh_elems heap. bh_ord flags c x y \<le> 0)"
proof -
  let ?arr = "bh_arr heap" let ?es = "da_elements ?arr"
  have sh: "bh_shape flags c heap" using inv by (simp add: bh_inv_def)
  then obtain m where m: "da_current ?arr = Suc m" by (cases "da_current ?arr") (auto simp: bh_shape_def)
  have ml: "m < length ?es" "binheap_isempty heap \<longleftrightarrow> m = 0"
    and el: "bh_elems heap = mset (heap_slots m ?es)"
    using bh_shapeD [OF sh m] by auto
  have "m \<noteq> 0" using ne ml el by (auto simp: heap_slots_def take_Suc)
  then obtain n where n: "m = Suc n" by (cases m) auto
  have wf: "da_wf ?arr" and srt: "\<not> has_flag (da_flags ?arr) RCSW_DS_SORTED" and c: "cmp_order c"
    using sh by (auto simp: bh_shape_def)
  have lst: "size_pred (Suc m) = m" using wf m by (simp add: da_wf_def size_pred_Suc)
  define a1 where "a1 = ?es[1 := ?es ! m]"
  have wf1: "da_wf (?arr\<lparr>da_elements := a1\<rparr>)" using wf by (simp add: da_wf_def a1_def)
  obtain arr' where r: "darray_remove ones (?arr\<lparr>da_elements := a1\<rparr>) False m mem =
      Some (OK, None, arr')" "da_wf arr'" "da_current arr' + 1 = Suc m"
    "arr' = ?arr\<lparr>da_elements := da_elements arr', da_current := da_current arr',
                da_capacity := da_capacity arr'\<rparr>"
    "da_content arr' = del_swap (take (Suc m) a1) m"
    using darray_remove_ok [OF wf1, of m mem ones False] m mem srt by (auto simp: da_content_def)
  have f: "da_flags arr' = da_flags ?arr" "da_cmpe arr' = da_cmpe ?arr"
    by (subst r(4); simp)+
  have cont: "da_content arr' = take m a1"
    using take_del_swap [of m "Suc m" a1] ml by (simp add: r(5) a1_def)
  let ?h = "heap\<lparr>bh_arr := arr'\<rparr>"
  have cur: "da_current arr' = Suc n" using r(3) n by simp
  have sh': "bh_shape flags c ?h" using sh r(2) f cur by (simp add: bh_shape_def)
  have same: "da_elements arr' ! k = ?es ! k" if "2 \<le> k" "k \<le> n" for k
  proof -
    have "da_content arr' ! k = take m a1 ! k" using cont by simp
    then show ?thesis using that cur n ml by (simp add: da_content_def a1_def)
  qed
  have "heap_from (bh_ord flags c) 2 n (da_elements arr')"
    using inv same m n by (auto simp: heap_from_def bh_inv_def)
  then obtain h where h: "heap_sift_down ?h 1 = Some h" "bh_shape flags c h"
    "da_current (bh_arr h) = Suc n" "bh_elems h = bh_elems ?h"
    "heap_from (bh_ord flags c) 1 n (da_elements (bh_arr h))"
    using heap_sift_down_ok [OF sh', of n 1] cur by (auto simp: numeral_2_eq_2)
  obtain z b where zb: "?es = z # b" using ml by (cases ?es) auto
  have slots: "add_mset (?es ! 1) (mset (tl (take m a1))) = mset (heap_slots m ?es)"
  proof -
    have "tl (take m a1) = del_swap (take (Suc n) b) 0"
      using take_del_swap [of 0 "Suc n" b] ml by (simp add: a1_def zb n)
    moreover have "b \<noteq> []" using ml by (auto simp: zb n)
    ultimately show ?thesis
      using mset_del_swap [of 0 "take (Suc n) b"] ml by (simp add: heap_slots_def zb n)
  qed
  then have el': "bh_elems heap = add_mset (?es ! 1) (bh_elems h)"
    using h(4) el cont by (simp add: bh_elems_def)
  have "binheap_extract ones heap True mem = Some (OK, Some (?es ! 1), h)"
    using r(1) h(1) ml \<open>m \<noteq> 0\<close>
    by (simp add: binheap_extract_def darray_size_def m lst darray_data_get_def Let_def a1_def
        rd_def wr_def)
  moreover have "bh_inv flags c h" using h by (simp add: bh_inv_def)
  moreover have "bh_ord flags c (?es ! 1) y \<le> 0" if "y \<in># bh_elems heap" for y
  proof -
    have "y \<in> set (heap_slots m ?es)" using that el by simp
    then obtain i where "i < m" "y = ?es ! Suc i"
      using ml by (auto simp: heap_slots_def in_set_conv_nth nth_tl)
    then show ?thesis
      using cmp_order.heap_root_first [OF bh_ord_order [OF c], of flags m ?es "Suc i"] inv m
      by (simp add: bh_inv_def)
  qed
  ultimately show ?thesis using el' by blast
qed

definition binheap_pop :: "'a \<Rightarrow> (nat \<Rightarrow> 'a) \<Rightarrow> 'a binheap \<Rightarrow> ('a \<times> 'a binheap) option" where
  "binheap_pop ones junk heap =
     (case binheap_extract ones heap True (Some junk) of
        Some (OK, Some x, heap') \<Rightarrow> Some (x, heap')
      | _ \<Rightarrow> None)"

interpretation bh: priority_queue "bh_inv flags c" bh_elems "\<lambda>x y. bh_ord flags c x y \<le> 0"
    "binheap_pop ones junk" for flags c ones junk
proof unfold_locales
  fix heap :: "'a binheap"
  assume "bh_inv flags c heap" and "bh_elems heap \<noteq> {#}"
  then show "\<exists>x q'. binheap_pop ones junk heap = Some (x, q') \<and> bh_inv flags c q' \<and>
      bh_elems heap = add_mset x (bh_elems q') \<and> (\<forall>y \<in># bh_elems heap. bh_ord flags c x y \<le> 0)"
    using binheap_extract_ok [of flags c heap "Some junk" junk ones]
    by (fastforce simp: binheap_pop_def)
qed

text \<open>Filling an empty heap.\<close>

lemma make_fill_ok:
  assumes wf: "da_wf arr" and one: "da_current arr = 1"
    and srt: "\<not> has_flag (da_flags arr) RCSW_DS_SORTED"
    and nd: "\<not> has_flag (da_flags arr) RCSW_NOALLOC_DATA" and mems: "\<And>k. mems k \<noteq> None"
    and mx: "da_max_elts arr = -1 \<or> int n < da_max_elts arr" and n: "n + 1 < 2 ^ 31"
    and d: "n \<le> length xs"
  shows "\<exists>arr'. make_fill arr xs n mems = Some (OK, arr') \<and> da_wf arr' \<and>
     da_current arr' = Suc n \<and> da_flags arr' = da_flags arr \<and> da_cmpe arr' = da_cmpe arr \<and>
     da_content arr' = da_content arr @ take n xs"
proof -
  let ?P = "\<lambda>k (s, arr'). s = OK \<and> da_wf arr' \<and> da_current arr' = Suc k \<and>
     da_flags arr' = da_flags arr \<and> da_cmpe arr' = da_cmpe arr \<and>
     da_max_elts arr' = da_max_elts arr \<and> da_content arr' = da_content arr @ take k xs"
  let ?body = "\<lambda>i (s, arr). if s \<noteq> OK then Some (s, arr)
          else do {
            x \<leftarrow> rd xs (int i);
            darray_insert arr (Some x) (i + 1) (mems i)
          }"
  have "\<exists>t. for_range 0 n ?body (OK, arr) = Some t \<and> ?P n t"
  proof (rule for_range_inv [where P = ?P])
    fix k t assume k: "k < n" and P: "?P k t"
    obtain arr1 where t: "t = (OK, arr1)" "da_wf arr1" "da_current arr1 = Suc k"
      "da_flags arr1 = da_flags arr" "da_cmpe arr1 = da_cmpe arr"
      "da_max_elts arr1 = da_max_elts arr" "da_content arr1 = da_content arr @ take k xs"
      using P by (cases t) auto
    have room: "da_has_room arr1 (mems k)"
      using mx n k nd srt mems [of k] by (auto simp: da_has_room_def t)
    obtain arr2 where "darray_insert arr1 (Some (xs ! k)) (Suc k) (mems k) = Some (OK, arr2)"
      "da_wf arr2" "da_current arr2 = Suc (Suc k)" "da_flags arr2 = da_flags arr"
      "da_cmpe arr2 = da_cmpe arr" "da_max_elts arr2 = da_max_elts arr"
      "da_content arr2 = da_content arr @ take k xs @ [xs ! k]"
      using darray_append [OF t(2) room, of "xs ! k"] srt t by auto
    then show "\<exists>t'. ?body k t = Some t' \<and> ?P (Suc k) t'"
      using k d by (simp add: t(1) take_Suc_conv_app_nth)
  qed (use wf one in auto)
  then show ?thesis unfolding make_fill_def by auto
qed

lemma binheap_make_ok:
  assumes sh: "bh_shape flags c heap" and one: "da_current (bh_arr heap) = 1"
    and nd: "\<not> has_flag (da_flags (bh_arr heap)) RCSW_NOALLOC_DATA" and mems: "\<And>k. mems k \<noteq> None"
    and mx: "da_max_elts (bh_arr heap) = -1 \<or> int n < da_max_elts (bh_arr heap)"
    and n: "0 < n" "n + 1 < 2 ^ 31" and d: "n \<le> length xs"
  shows "\<exists>heap'. binheap_make heap (Some xs) n mems = Some (OK, heap') \<and>
     bh_inv flags c heap' \<and> bh_elems heap' = mset (take n xs)"
proof -
  have wf: "da_wf (bh_arr heap)" and srt: "\<not> has_flag (da_flags (bh_arr heap)) RCSW_DS_SORTED"
    using sh by (auto simp: bh_shape_def)
  obtain arr where a: "make_fill (bh_arr heap) xs n mems = Some (OK, arr)" "da_wf arr"
    "da_current arr = Suc n" "da_flags arr = da_flags (bh_arr heap)"
    "da_cmpe arr = da_cmpe (bh_arr heap)" "da_content arr = da_content (bh_arr heap) @ take n xs"
    using make_fill_ok [OF wf one srt nd _ mx n(2) d, of mems] mems by blast
  let ?h = "heap\<lparr>bh_arr := arr\<rparr>"
  have sh': "bh_shape flags c ?h" using sh a by (simp add: bh_shape_def)
  have set: "darray_set_size arr (n + 1) = (OK, arr)"
    using a(2,3) by (simp add: darray_set_size_def da_wf_def)
  have vac: "heap_from (bh_ord flags c) (n div 2 + 1) n (da_elements arr)"
    unfolding heap_from_def
  proof (intro allI impI)
    fix i assume "i \<le> n" "n div 2 + 1 \<le> i div 2"
    then show "bh_ord flags c (da_elements arr ! (i div 2)) (da_elements arr ! i) \<le> 0"
      using div_le_mono [of i n 2] by simp
  qed
  obtain h where h: "make_sift ?h (n div 2 + 1) = Some h" "bh_inv flags c h"
    "bh_elems h = bh_elems ?h"
    using make_sift_ok [OF sh', of n "n div 2 + 1"] a(3) vac by auto
  have "length (da_content (bh_arr heap)) = 1" using wf one by (simp add: da_wf_def da_content_def)
  then obtain z where "da_content (bh_arr heap) = [z]" by (auto simp: length_Suc_conv)
  then have "bh_elems ?h = mset (take n xs)" by (simp add: bh_elems_def a(6))
  moreover have "binheap_make heap (Some xs) n mems = Some (OK, h)"
  proof -
    have sz: "binheap_size ?h = n" using bh_shapeD(1) [OF sh', of n] a(3) by simp
    have e: "(OK \<noteq> OK) = False" "(\<not> 0 < n) = False" using n(1) by simp_all
    show ?thesis
      unfolding binheap_make_def option.case e if_False a(1) bind.bind_lunit prod.case set Let_def
        sz h(1) option.map ..
  qed
  ultimately show ?thesis using h(2,3) by metis
qed

subsection \<open>Properties\<close>

text \<open>
  C16: inserting into a well-formed heap with room never faults, keeps the heap
  order, and adds exactly the new element.
\<close>

theorem binheap_insert_correct:
  assumes "bh_inv flags c heap" and "da_has_room (bh_arr heap) mem"
  shows "\<exists>heap'. binheap_insert heap (Some x) mem = Some (OK, heap') \<and> bh_inv flags c heap' \<and>
     bh_elems heap' = add_mset x (bh_elems heap)"
  using assms by (rule binheap_insert_ok)

definition example_heap :: "int binheap" where
  "example_heap = \<lparr>bh_arr = \<lparr>da_elements = [0, 2, 5], da_current = 3, da_capacity = 3,
     da_elt_size = 4, da_sorted = False, da_max_elts = -1, da_flags = 0,
     da_cmpe = Some cmp_int\<rparr>, bh_flags = RCSW_DS_BINHEAP_MIN\<rparr>"

lemma example_heap_inv: "bh_inv RCSW_DS_BINHEAP_MIN cmp_int example_heap"
proof -
  have "i = 2" if "2 \<le> i" "i \<le> 2" for i :: nat using that by simp
  then show ?thesis
    using cint.cmp_order_axioms
    by (auto simp: bh_inv_def bh_shape_def example_heap_def da_wf_def heap_from_def bh_ord_def
        has_flag_def flag_defs cmp_int_def)
qed

theorem binheap_insert_correct_witness:
  "\<exists>heap'. binheap_insert example_heap (Some 1) (Some (\<lambda>_. 0)) = Some (OK, heap') \<and>
     bh_inv RCSW_DS_BINHEAP_MIN cmp_int heap' \<and> bh_elems heap' = {#1, 2, 5#}"
  using binheap_insert_correct [OF example_heap_inv, of "Some (\<lambda>_. 0)" 1]
  by (simp add: example_heap_def da_has_room_def bh_elems_def da_content_def)





end
