(* ===== verification/Utils.thy ===== *)
theory Utils
  imports Rcsw_Prelude
begin

text \<open>
  Bit manipulation (src/utils/utils.c, src/utils/mem.c, include/rcsw/utils/utils.h): bit
  reversal by arithmetic and by table, reflection, byte swapping and byte reversal, on machine
  words. \<open>unsigned long\<close> has 64 bits.
\<close>

subsection \<open>Reversal and byte swapping macros\<close>

definition RCSW_REV8 :: "64 word \<Rightarrow> u8" where
  "RCSW_REV8 v =
     ucast (drop_bit 16
       (((v * 0x0802 AND 0x22110) OR (v * 0x8020 AND 0x88440)) * 0x10101))"

definition RCSW_REV16 :: "32 word \<Rightarrow> u16" where
  "RCSW_REV16 v = ucast (push_bit 8 (ucast (RCSW_REV8 (ucast (v AND 0xFF))) :: 32 word) OR
     ucast (RCSW_REV8 (ucast (drop_bit 8 v AND 0xFF))))"

definition RCSW_REV32 :: "32 word \<Rightarrow> u32" where
  "RCSW_REV32 v = push_bit 16 (ucast (RCSW_REV16 (v AND 0xFFFF))) OR
     ucast (RCSW_REV16 (drop_bit 16 v AND 0xFFFF))"

definition rcsw_util_revtable :: "u8 list" where
  "rcsw_util_revtable = [
  0x00, 0x80, 0x40, 0xC0, 0x20, 0xA0, 0x60, 0xE0, 0x10, 0x90, 0x50, 0xD0, 0x30,
  0xB0, 0x70, 0xF0, 0x08, 0x88, 0x48, 0xC8, 0x28, 0xA8, 0x68, 0xE8, 0x18, 0x98,
  0x58, 0xD8, 0x38, 0xB8, 0x78, 0xF8, 0x04, 0x84, 0x44, 0xC4, 0x24, 0xA4, 0x64,
  0xE4, 0x14, 0x94, 0x54, 0xD4, 0x34, 0xB4, 0x74, 0xF4, 0x0C, 0x8C, 0x4C, 0xCC,
  0x2C, 0xAC, 0x6C, 0xEC, 0x1C, 0x9C, 0x5C, 0xDC, 0x3C, 0xBC, 0x7C, 0xFC, 0x02,
  0x82, 0x42, 0xC2, 0x22, 0xA2, 0x62, 0xE2, 0x12, 0x92, 0x52, 0xD2, 0x32, 0xB2,
  0x72, 0xF2, 0x0A, 0x8A, 0x4A, 0xCA, 0x2A, 0xAA, 0x6A, 0xEA, 0x1A, 0x9A, 0x5A,
  0xDA, 0x3A, 0xBA, 0x7A, 0xFA, 0x06, 0x86, 0x46, 0xC6, 0x26, 0xA6, 0x66, 0xE6,
  0x16, 0x96, 0x56, 0xD6, 0x36, 0xB6, 0x76, 0xF6, 0x0E, 0x8E, 0x4E, 0xCE, 0x2E,
  0xAE, 0x6E, 0xEE, 0x1E, 0x9E, 0x5E, 0xDE, 0x3E, 0xBE, 0x7E, 0xFE, 0x01, 0x81,
  0x41, 0xC1, 0x21, 0xA1, 0x61, 0xE1, 0x11, 0x91, 0x51, 0xD1, 0x31, 0xB1, 0x71,
  0xF1, 0x09, 0x89, 0x49, 0xC9, 0x29, 0xA9, 0x69, 0xE9, 0x19, 0x99, 0x59, 0xD9,
  0x39, 0xB9, 0x79, 0xF9, 0x05, 0x85, 0x45, 0xC5, 0x25, 0xA5, 0x65, 0xE5, 0x15,
  0x95, 0x55, 0xD5, 0x35, 0xB5, 0x75, 0xF5, 0x0D, 0x8D, 0x4D, 0xCD, 0x2D, 0xAD,
  0x6D, 0xED, 0x1D, 0x9D, 0x5D, 0xDD, 0x3D, 0xBD, 0x7D, 0xFD, 0x03, 0x83, 0x43,
  0xC3, 0x23, 0xA3, 0x63, 0xE3, 0x13, 0x93, 0x53, 0xD3, 0x33, 0xB3, 0x73, 0xF3,
  0x0B, 0x8B, 0x4B, 0xCB, 0x2B, 0xAB, 0x6B, 0xEB, 0x1B, 0x9B, 0x5B, 0xDB, 0x3B,
  0xBB, 0x7B, 0xFB, 0x07, 0x87, 0x47, 0xC7, 0x27, 0xA7, 0x67, 0xE7, 0x17, 0x97,
  0x57, 0xD7, 0x37, 0xB7, 0x77, 0xF7, 0x0F, 0x8F, 0x4F, 0xCF, 0x2F, 0xAF, 0x6F,
  0xEF, 0x1F, 0x9F, 0x5F, 0xDF, 0x3F, 0xBF, 0x7F, 0xFF]"

definition RCSW_BSWAP16 :: "u16 \<Rightarrow> u16" where
  "RCSW_BSWAP16 w = drop_bit 8 (w AND 0xFF00) OR push_bit 8 (w AND 0xFF)"

definition RCSW_BSWAP32 :: "u32 \<Rightarrow> u32" where
  "RCSW_BSWAP32 w = drop_bit 24 (w AND 0xFF000000) OR drop_bit 8 (w AND 0xFF0000) OR
     push_bit 8 (w AND 0xFF00) OR push_bit 24 (w AND 0xFF)"

definition RCSW_IS_SIZE_ALIGNED :: "nat \<Rightarrow> nat \<Rightarrow> bool" where
  "RCSW_IS_SIZE_ALIGNED sz p = (sz AND (p - 1) = 0)"

subsection \<open>Functions\<close>

text \<open>The loop variable of \<open>util_reflect32\<close> is a byte; \<open>n_bits\<close> is at most 32 there.\<close>

definition util_reflect32 :: "u32 \<Rightarrow> nat \<Rightarrow> u32" where
  "util_reflect32 data n_bits =
     snd (fold (\<lambda>bit (d, reflection).
        (drop_bit 1 d,
         if d AND 1 \<noteq> 0 then reflection OR push_bit ((n_bits - 1) - bit) 1 else reflection))
       [0..<n_bits] (data, 0))"

text \<open>The exchange from both ends; \<open>j\<close> starts at \<open>size - 1\<close>.\<close>

function arr8_reverse_loop :: "'a list \<Rightarrow> int \<Rightarrow> int \<Rightarrow> 'a list option" where
  "arr8_reverse_loop arr i j =
     (if i < j then
        (case (rd arr i, rd arr j) of
           (Some x, Some y) \<Rightarrow>
             (case wr arr i y of
                None \<Rightarrow> None
              | Some a1 \<Rightarrow>
                  (case wr a1 j x of
                     None \<Rightarrow> None
                   | Some a2 \<Rightarrow> arr8_reverse_loop a2 (i + 1) (j - 1)))
         | _ \<Rightarrow> None)
      else Some arr)"
  by pat_completeness auto
termination by (relation "measure (\<lambda>(arr, i, j). nat (j - i))") auto

declare arr8_reverse_loop.simps [simp del]

text \<open>\<open>size - 1\<close> wraps to the largest \<open>size_t\<close> for an empty array.\<close>

definition arr8_reverse :: "'a list \<Rightarrow> nat \<Rightarrow> 'a list option" where
  "arr8_reverse arr sz = arr8_reverse_loop arr 0 ((int sz - 1) mod 2 ^ 64)"

definition mem_bswap16 :: "bool \<Rightarrow> u16 list \<Rightarrow> nat \<Rightarrow> (status \<times> u16 list) option" where
  "mem_bswap16 aligned buf n_bytes =
     (if \<not> (aligned \<and> RCSW_IS_SIZE_ALIGNED n_bytes 2) then Some (fpc_error, buf)
      else map_option (\<lambda>b. (OK, b))
        (for_range 0 (n_bytes div 2)
           (\<lambda>i b. do { w \<leftarrow> rd b (int i); wr b (int i) (RCSW_BSWAP16 w) }) buf))"

definition mem_bswap32 :: "bool \<Rightarrow> u32 list \<Rightarrow> nat \<Rightarrow> (status \<times> u32 list) option" where
  "mem_bswap32 aligned buf n_bytes =
     (if \<not> (aligned \<and> RCSW_IS_SIZE_ALIGNED n_bytes 4) then Some (fpc_error, buf)
      else map_option (\<lambda>b. (OK, b))
        (for_range 0 (n_bytes div 4)
           (\<lambda>i b. do { w \<leftarrow> rd b (int i); wr b (int i) (RCSW_BSWAP32 w) }) buf))"

lemma poly_rev: "RCSW_REV32 0x04C11DB7 = 0xEDB88320"
  by code_simp

subsection \<open>Lemmas\<close>

lemma rev8_table: "map (\<lambda>i. RCSW_REV8 (of_nat i)) [0..<256] = rcsw_util_revtable"
  by code_simp

lemma rev8_bits:
  "list_all (\<lambda>b. list_all (\<lambda>i. bit (RCSW_REV8 (of_nat b)) i = bit (of_nat b :: u8) (7 - i)) [0..<8])
     [0..<256]"
  by code_simp

text \<open>Both forms of the reversal, for every byte.\<close>

lemma rev8_byte:
  fixes v :: u8
  shows "RCSW_REV8 (ucast v) = rcsw_util_revtable ! unat v"
    and "bit (RCSW_REV8 (ucast v)) i \<longleftrightarrow> i < 8 \<and> bit v (7 - i)"
proof -
  have v: "unat v < 256" using unsigned_less [of v] by simp
  have e: "ucast v = (of_nat (unat v) :: 64 word)" "v = of_nat (unat v)" by simp_all
  have "map (\<lambda>i. RCSW_REV8 (of_nat i)) [0..<256] ! unat v = RCSW_REV8 (of_nat (unat v))"
    using v by (subst nth_map) auto
  then show "RCSW_REV8 (ucast v) = rcsw_util_revtable ! unat v"
    by (simp only: rev8_table e(1))
  show "bit (RCSW_REV8 (ucast v)) i \<longleftrightarrow> i < 8 \<and> bit v (7 - i)"
  proof (cases "i < 8")
    case True
    then have m: "unat v \<in> set [0..<256]" "i \<in> set [0..<8]" using v by simp_all
    have "bit (RCSW_REV8 (of_nat (unat v))) i = bit (of_nat (unat v) :: u8) (7 - i)"
      using rev8_bits [unfolded list_all_iff, THEN bspec, OF m(1), THEN bspec, OF m(2)] .
    then show ?thesis using True by (simp only: e(1) e(2) [symmetric] simp_thms)
  next
    case False
    then show ?thesis by (simp add: bit_simps impossible_bit)
  qed
qed

lemma mask16: "(0xFF :: u16) = mask 8" "(0xFF00 :: u16) = push_bit 8 (mask 8)"
  by (simp_all add: mask_eq_exp_minus_1 push_bit_eq_mult)

lemma mask32: "(0xFF :: u32) = mask 8" "(0xFF00 :: u32) = push_bit 8 (mask 8)"
  "(0xFF0000 :: u32) = push_bit 16 (mask 8)" "(0xFF000000 :: u32) = push_bit 24 (mask 8)"
  by (simp_all add: mask_eq_exp_minus_1 push_bit_eq_mult)

lemma bit_bswap16:
  "bit (RCSW_BSWAP16 w) n \<longleftrightarrow> n < 16 \<and> (if n < 8 then bit w (n + 8) else bit w (n - 8))"
  unfolding RCSW_BSWAP16_def mask16 by (auto simp: bit_simps add.commute)

lemma bit_bswap32:
  "bit (RCSW_BSWAP32 w) n \<longleftrightarrow> n < 32 \<and>
     (if n < 8 then bit w (n + 24) else if n < 16 then bit w (n + 8)
      else if n < 24 then bit w (n - 8) else bit w (n - 24))"
  unfolding RCSW_BSWAP32_def mask32 by (auto simp: bit_simps add.commute)

lemma bswap16_bswap16 [simp]: "RCSW_BSWAP16 (RCSW_BSWAP16 w) = w"
  by (rule bit_word_eqI) (auto simp: bit_bswap16)

lemma bswap32_bswap32 [simp]: "RCSW_BSWAP32 (RCSW_BSWAP32 w) = w"
  by (rule bit_word_eqI) (auto simp: bit_bswap32)

lemma reflect_fold:
  fixes data d :: u32
  assumes "k \<le> n" and "n \<le> 32"
  shows "fold (\<lambda>bit (d, reflection).
        (drop_bit 1 d,
         if d AND 1 \<noteq> 0 then reflection OR push_bit ((n - 1) - bit) 1 else reflection))
       [0..<k] (data, 0) = (d, r) \<Longrightarrow>
     d = drop_bit k data \<and> (\<forall>i. bit (r :: u32) i \<longleftrightarrow> n - k \<le> i \<and> i < n \<and> bit data (n - 1 - i))"
  using assms(1)
proof (induction k arbitrary: d r)
  case 0
  then show ?case by simp
next
  case (Suc k)
  let ?f = "\<lambda>bit (d, reflection).
        (drop_bit 1 d,
         if d AND 1 \<noteq> 0 then reflection OR push_bit ((n - 1) - bit) (1 :: u32) else reflection)"
  obtain d' r' where f: "fold ?f [0..<k] (data, 0) = (d', r')" by fastforce
  have ih: "d' = drop_bit k data" "\<And>i. bit r' i \<longleftrightarrow> n - k \<le> i \<and> i < n \<and> bit data (n - 1 - i)"
    using Suc.IH [OF f] Suc.prems(2) by auto
  have lsb: "drop_bit k data AND 1 = 0 \<longleftrightarrow> \<not> bit data k"
    by (simp add: and_one_eq bit_iff_odd_drop_bit mod_2_eq_odd)
  have d: "d = drop_bit (Suc k) data"
    and r: "r = (if bit data k then r' OR push_bit (n - 1 - k) 1 else r')"
    using Suc.prems(1) f by (auto simp: lsb ih(1))
  have "bit r i \<longleftrightarrow> n - Suc k \<le> i \<and> i < n \<and> bit data (n - 1 - i)" for i
  proof (cases "i = n - 1 - k")
    case True
    then have "i < n" "n - 1 - i = k" "\<not> n - k \<le> i" "n - Suc k \<le> i" "i < 32"
      using Suc.prems(2) assms(2) by auto
    then show ?thesis using True by (simp add: r ih(2) bit_simps)
  next
    case False
    then have "n - Suc k \<le> i \<and> i < n \<longleftrightarrow> n - k \<le> i \<and> i < n" by auto
    then show ?thesis using False by (auto simp: r ih(2) bit_simps)
  qed
  then show ?case using d by blast
qed

text \<open>The exchange from both ends of a segment reverses it.\<close>

lemma arr8_reverse_loop_rev:
  "arr8_reverse_loop (us @ xs @ vs) (int (length us)) (int (length us) + int (length xs) - 1) =
     Some (us @ rev xs @ vs)"
proof (induction "length xs" arbitrary: us xs vs rule: less_induct)
  case less
  show ?case
  proof (cases "length xs < 2")
    case True
    then have "rev xs = xs" by (cases xs; cases "tl xs") auto
    then show ?thesis using True by (subst arr8_reverse_loop.simps) auto
  next
    case False
    then obtain x ys y where xs: "xs = x # ys @ [y]"
      by (metis One_nat_def Suc_1 Suc_leI append_butlast_last_id length_0_conv length_Suc_conv
          less_2_cases_iff list.exhaust list.size(3) neq0_conv not_less)
    let ?i = "int (length us)" and ?j = "int (length us) + int (length xs) - 1"
    have j: "?j = int (length us + Suc (length ys))" by (simp add: xs)
    have r: "rd (us @ xs @ vs) ?i = Some x" "rd (us @ xs @ vs) ?j = Some y"
      "wr (us @ xs @ vs) ?i y = Some (us @ y # ys @ y # vs)"
      "wr (us @ y # ys @ y # vs) ?j x = Some (us @ y # ys @ x # vs)"
      unfolding j by (simp_all add: xs nth_append list_update_append del: of_nat_add of_nat_Suc)
    have ij: "?i < ?j" unfolding j by simp
    have step: "arr8_reverse_loop (us @ xs @ vs) ?i ?j =
        arr8_reverse_loop (us @ y # ys @ x # vs) (?i + 1) (?j - 1)"
      using ij r by (subst arr8_reverse_loop.simps) simp
    have "arr8_reverse_loop ((us @ [y]) @ ys @ (x # vs)) (int (length (us @ [y])))
        (int (length (us @ [y])) + int (length ys) - 1) = Some ((us @ [y]) @ rev ys @ (x # vs))"
      by (rule less) (simp add: xs)
    then show ?thesis unfolding step by (simp add: xs algebra_simps)
  qed
qed

subsection \<open>Properties\<close>

text \<open>
  C34: on every byte the arithmetic reversal macro agrees with the lookup table and moves bit
  \<open>7 - i\<close> to bit \<open>i\<close>, and \<open>util_reflect32\<close> mirrors the low \<open>n\<close> bits of a word
  for every width up to 32, clearing the others.
\<close>

theorem reversal_correct:
  fixes v :: u8
  assumes "n \<le> 32"
  shows "RCSW_REV8 (ucast v) = rcsw_util_revtable ! unat v \<and>
    (bit (RCSW_REV8 (ucast v)) i \<longleftrightarrow> i < 8 \<and> bit v (7 - i)) \<and>
    (bit (util_reflect32 data n) j \<longleftrightarrow> j < n \<and> bit data (n - 1 - j))"
proof -
  have "bit (util_reflect32 data n) j \<longleftrightarrow> j < n \<and> bit data (n - 1 - j)"
    unfolding util_reflect32_def
    using reflect_fold [OF order_refl assms, of data] by (auto split: prod.split simp: snd_def)
  then show ?thesis using rev8_byte by blast
qed

theorem reversal_correct_witness:
  "RCSW_REV8 (ucast (1 :: u8)) = rcsw_util_revtable ! unat (1 :: u8) \<and>
    (bit (RCSW_REV8 (ucast (1 :: u8))) 7 \<longleftrightarrow> (7 :: nat) < 8 \<and> bit (1 :: u8) (7 - 7)) \<and>
    (bit (util_reflect32 5 4) 3 \<longleftrightarrow> (3 :: nat) < 4 \<and> bit (5 :: u32) (4 - 1 - 3))"
  by (rule reversal_correct) simp

text \<open>
  Byte swapping a buffer twice restores it: both passes of \<open>mem_bswap32\<close> (and of
  \<open>mem_bswap16\<close>) over an aligned buffer succeed in bounds and together leave it as it was.
\<close>

theorem mem_bswap_roundtrip:
  assumes "RCSW_IS_SIZE_ALIGNED n 4" and "n div 4 \<le> length buf"
    and "RCSW_IS_SIZE_ALIGNED m 2" and "m div 2 \<le> length hbuf"
  shows "\<exists>b h. mem_bswap32 True buf n = Some (OK, b) \<and> mem_bswap32 True b n = Some (OK, buf) \<and>
     mem_bswap16 True hbuf m = Some (OK, h) \<and> mem_bswap16 True h m = Some (OK, hbuf) \<and>
     b = map RCSW_BSWAP32 (take (n div 4) buf) @ drop (n div 4) buf \<and>
     h = map RCSW_BSWAP16 (take (m div 2) hbuf) @ drop (m div 2) hbuf"
  using assms by (simp add: mem_bswap32_def mem_bswap16_def for_range_map take_map [symmetric]
      comp_def min_def)

theorem mem_bswap_roundtrip_witness:
  "mem_bswap32 True [0x01020304, 7] 4 = Some (OK, [0x04030201, 7]) \<and>
   mem_bswap32 True [0x04030201, 7] 4 = Some (OK, [0x01020304, 7])"
proof -
  have "RCSW_BSWAP32 0x01020304 = 0x04030201" by code_simp
  moreover have "RCSW_IS_SIZE_ALIGNED 4 4" "RCSW_IS_SIZE_ALIGNED 0 2" by code_simp+
  ultimately show ?thesis
    using mem_bswap_roundtrip [of 4 "[0x01020304, 7]" 0 "[]"] by simp
qed

end
