(* ===== verification/Mixing.thy ===== *)
theory Mixing
  imports Rcsw_Prelude
begin

text \<open>
  Checksums and hashes fold a step function over a buffer. When the step is injective in the
  state and in the unit it reads, two buffers that differ in exactly one unit never collide.
\<close>

subsection \<open>The contract of a mixing step\<close>

locale mixing_step =
  fixes step :: "'s \<Rightarrow> 'b \<Rightarrow> 's"
  assumes step_state: "step s b = step t b \<Longrightarrow> s = t"
    and step_unit: "step s b = step s c \<Longrightarrow> b = c"
begin

lemma foldl_inj: "foldl step s xs = foldl step t xs \<Longrightarrow> s = t"
  by (induction xs arbitrary: s t) (auto dest: step_state)

lemma single_change_detected:
  "b \<noteq> c \<Longrightarrow> foldl step s (xs @ b # ys) \<noteq> foldl step s (xs @ c # ys)"
  by (auto dest!: foldl_inj step_unit)

end

subsection \<open>Injective operations on words\<close>

lemma mult_left_inj:
  fixes a a' :: "'a::len word"
  assumes "a' * a = 1" and "a * x = a * y"
  shows "x = y"
proof -
  have "a' * (a * x) = a' * (a * y)" using assms(2) by simp
  then show ?thesis using assms(1) by (simp add: mult.assoc [symmetric])
qed

text \<open>\<open>x ^= x >> k\<close> is injective.\<close>

lemma xorshift_inj:
  fixes x y :: "'a::len word"
  assumes "x XOR drop_bit k x = y XOR drop_bit k y" and "0 < k"
  shows "x = y"
proof (rule bit_word_eqI)
  fix n assume "n < LENGTH('a)"
  then show "bit x n = bit y n"
  proof (induction "LENGTH('a) - n" arbitrary: n rule: less_induct)
    case less
    have "bit (x XOR drop_bit k x) n = bit (y XOR drop_bit k y) n" using assms(1) by simp
    then have e: "(bit x n \<noteq> bit x (k + n)) = (bit y n \<noteq> bit y (k + n))"
      by (simp add: bit_simps)
    show ?case
    proof (cases "k + n < LENGTH('a)")
      case True
      then have "bit x (k + n) = bit y (k + n)" using assms(2) by (intro less.hyps) auto
      then show ?thesis using e by (cases "bit y (k + n)") auto
    next
      case False
      then have "\<not> bit x (k + n)" "\<not> bit y (k + n)"
        using bit_imp_le_length [of x "k + n"] bit_imp_le_length [of y "k + n"] by auto
      then show ?thesis using e by simp
    qed
  qed
qed

text \<open>A rotation by one, as the checksums write it, is injective.\<close>

lemma rotate_inj:
  fixes x y :: "'a::len word"
  assumes "push_bit 1 x OR drop_bit k (x AND push_bit k 1) = push_bit 1 y OR drop_bit k (y AND push_bit k 1)"
    and k: "Suc k = LENGTH('a)"
  shows "x = y"
proof (rule bit_word_eqI)
  fix n assume n: "n < LENGTH('a)"
  have e: "bit (push_bit 1 x OR drop_bit k (x AND push_bit k 1)) i =
           bit (push_bit 1 y OR drop_bit k (y AND push_bit k 1)) i" for i
    using assms(1) by simp
  show "bit x n = bit y n"
  proof (cases "n = k")
    case True
    then show ?thesis
      using e [of 0, unfolded bit_or_iff bit_push_bit_iff bit_drop_bit_eq bit_and_iff comp_def] k
      by (auto simp: bit_push_bit_iff)
  next
    case False
    then have "Suc n < LENGTH('a)" using n k by simp
    then show ?thesis
      using e [of "Suc n", unfolded bit_or_iff bit_push_bit_iff bit_drop_bit_eq bit_and_iff comp_def] k
      by (auto simp: impossible_bit)
  qed
qed

lemma ucast_byte_inj: "ucast (b :: u8) = (ucast c :: u32) \<Longrightarrow> b = c"
proof (rule bit_word_eqI)
  fix n assume e: "ucast b = (ucast c :: u32)" and n: "n < LENGTH(8)"
  have "bit (ucast b :: u32) n = bit (ucast c :: u32) n" using e by simp
  then show "bit b n = bit c n" using n by (simp add: bit_simps)
qed

lemma xor_left_cancel: "(a :: 'a::len word) XOR b = a XOR c \<longleftrightarrow> b = c"
  by (metis xor.left_neutral xor.assoc xor_self_eq)

lemma xor_right_cancel: "(b :: 'a::len word) XOR a = c XOR a \<longleftrightarrow> b = c"
  using xor_left_cancel [of a b c] by (simp add: ac_simps)

lemmas xor_cancel = xor_left_cancel xor_right_cancel

end
