(* ===== verification/Checksum.thy ===== *)
theory Checksum
  imports Utils Mixing
begin

text \<open>
  Checksums and CRCs (src/utils/checksum.c): rotate-and-XOR and additive checksums of 8, 16
  and 32 bits, and three CRC-32 routines, one bit by bit and two by tables. A buffer is the
  list of its units, \<open>None\<close> when the pointer is \<open>NULL\<close>; \<open>aligned\<close> says whether the pointer is
  aligned to the unit. The result is \<open>None\<close> when the routine reads past the buffer.
\<close>

subsection \<open>Rotate-and-XOR and additive checksums\<close>

definition xchks8_step :: "u8 \<Rightarrow> u8 \<Rightarrow> u8" where
  "xchks8_step chks8 b = (push_bit 1 chks8 OR drop_bit 7 (chks8 AND 0x80)) XOR b"

definition xchks8 :: "u8 list option \<Rightarrow> nat \<Rightarrow> u8 \<Rightarrow> u8 option" where
  "xchks8 buf n_bytes seed =
     (case buf of
        None \<Rightarrow> Some 0xFF
      | Some xs \<Rightarrow>
          for_range 0 n_bytes (\<lambda>i c. map_option (xchks8_step c) (rd xs (int i))) seed)"

definition xchks16_step :: "u16 \<Rightarrow> u16 \<Rightarrow> u16" where
  "xchks16_step chks16 w = (push_bit 1 chks16 OR drop_bit 15 (chks16 AND 0x8000)) XOR w"

definition xchks16 :: "u16 list option \<Rightarrow> bool \<Rightarrow> nat \<Rightarrow> u16 \<Rightarrow> u16 option" where
  "xchks16 buf aligned n_bytes seed =
     (case buf of
        None \<Rightarrow> Some 0xFFFF
      | Some xs \<Rightarrow>
          if \<not> (aligned \<and> RCSW_IS_SIZE_ALIGNED n_bytes 2) then Some 0xFFFF
          else for_range 0 (n_bytes div 2)
                 (\<lambda>i c. map_option (xchks16_step c) (rd xs (int i))) seed)"

definition xchks32_step :: "u32 \<Rightarrow> u32 \<Rightarrow> u32" where
  "xchks32_step chks32 w = (push_bit 1 chks32 OR drop_bit 31 (chks32 AND 0x80000000)) XOR w"

definition xchks32 :: "u32 list option \<Rightarrow> bool \<Rightarrow> nat \<Rightarrow> u32 \<Rightarrow> u32 option" where
  "xchks32 buf aligned n_bytes seed =
     (case buf of
        None \<Rightarrow> Some 0xFFFFFFFF
      | Some xs \<Rightarrow>
          if \<not> (aligned \<and> RCSW_IS_SIZE_ALIGNED n_bytes 4) then Some 0xFFFFFFFF
          else for_range 0 (n_bytes div 4)
                 (\<lambda>i c. map_option (xchks32_step c) (rd xs (int i))) seed)"

definition achks8 :: "u8 list option \<Rightarrow> nat \<Rightarrow> u8 \<Rightarrow> u8 option" where
  "achks8 buf n_bytes seed =
     (case buf of
        None \<Rightarrow> Some 0xFF
      | Some xs \<Rightarrow> for_range 0 n_bytes (\<lambda>i c. map_option (\<lambda>b. c + b) (rd xs (int i))) seed)"

definition achks16 :: "u16 list option \<Rightarrow> bool \<Rightarrow> nat \<Rightarrow> u16 \<Rightarrow> u16 option" where
  "achks16 buf aligned n_bytes seed =
     (case buf of
        None \<Rightarrow> Some 0xFFFF
      | Some xs \<Rightarrow>
          if \<not> (aligned \<and> RCSW_IS_SIZE_ALIGNED n_bytes 2) then Some 0xFFFF
          else for_range 0 (n_bytes div 2) (\<lambda>i c. map_option (\<lambda>w. c + w) (rd xs (int i))) seed)"

definition achks32 :: "u32 list option \<Rightarrow> bool \<Rightarrow> nat \<Rightarrow> u32 \<Rightarrow> u32 option" where
  "achks32 buf aligned n_bytes seed =
     (case buf of
        None \<Rightarrow> Some 0xFFFFFFFF
      | Some xs \<Rightarrow>
          if \<not> (aligned \<and> RCSW_IS_SIZE_ALIGNED n_bytes 4) then Some 0xFFFFFFFF
          else for_range 0 (n_bytes div 4) (\<lambda>i c. map_option (\<lambda>w. c + w) (rd xs (int i))) seed)"

subsection \<open>CRC-32\<close>

definition CRC32_ETH_POLYNOMIAL :: u32 where
  "CRC32_ETH_POLYNOMIAL = 0x04C11DB7"

definition CRC32_ETH_INITIAL_REMAINDER :: u32 where
  "CRC32_ETH_INITIAL_REMAINDER = 0xFFFFFFFF"

definition crc32_brown_table :: "u32 list" where
  "crc32_brown_table = [
  0x00000000, 0x77073096, 0xee0e612c, 0x990951ba, 0x076dc419, 0x706af48f,
  0xe963a535, 0x9e6495a3, 0x0edb8832, 0x79dcb8a4, 0xe0d5e91e, 0x97d2d988,
  0x09b64c2b, 0x7eb17cbd, 0xe7b82d07, 0x90bf1d91, 0x1db71064, 0x6ab020f2,
  0xf3b97148, 0x84be41de, 0x1adad47d, 0x6ddde4eb, 0xf4d4b551, 0x83d385c7,
  0x136c9856, 0x646ba8c0, 0xfd62f97a, 0x8a65c9ec, 0x14015c4f, 0x63066cd9,
  0xfa0f3d63, 0x8d080df5, 0x3b6e20c8, 0x4c69105e, 0xd56041e4, 0xa2677172,
  0x3c03e4d1, 0x4b04d447, 0xd20d85fd, 0xa50ab56b, 0x35b5a8fa, 0x42b2986c,
  0xdbbbc9d6, 0xacbcf940, 0x32d86ce3, 0x45df5c75, 0xdcd60dcf, 0xabd13d59,
  0x26d930ac, 0x51de003a, 0xc8d75180, 0xbfd06116, 0x21b4f4b5, 0x56b3c423,
  0xcfba9599, 0xb8bda50f, 0x2802b89e, 0x5f058808, 0xc60cd9b2, 0xb10be924,
  0x2f6f7c87, 0x58684c11, 0xc1611dab, 0xb6662d3d, 0x76dc4190, 0x01db7106,
  0x98d220bc, 0xefd5102a, 0x71b18589, 0x06b6b51f, 0x9fbfe4a5, 0xe8b8d433,
  0x7807c9a2, 0x0f00f934, 0x9609a88e, 0xe10e9818, 0x7f6a0dbb, 0x086d3d2d,
  0x91646c97, 0xe6635c01, 0x6b6b51f4, 0x1c6c6162, 0x856530d8, 0xf262004e,
  0x6c0695ed, 0x1b01a57b, 0x8208f4c1, 0xf50fc457, 0x65b0d9c6, 0x12b7e950,
  0x8bbeb8ea, 0xfcb9887c, 0x62dd1ddf, 0x15da2d49, 0x8cd37cf3, 0xfbd44c65,
  0x4db26158, 0x3ab551ce, 0xa3bc0074, 0xd4bb30e2, 0x4adfa541, 0x3dd895d7,
  0xa4d1c46d, 0xd3d6f4fb, 0x4369e96a, 0x346ed9fc, 0xad678846, 0xda60b8d0,
  0x44042d73, 0x33031de5, 0xaa0a4c5f, 0xdd0d7cc9, 0x5005713c, 0x270241aa,
  0xbe0b1010, 0xc90c2086, 0x5768b525, 0x206f85b3, 0xb966d409, 0xce61e49f,
  0x5edef90e, 0x29d9c998, 0xb0d09822, 0xc7d7a8b4, 0x59b33d17, 0x2eb40d81,
  0xb7bd5c3b, 0xc0ba6cad, 0xedb88320, 0x9abfb3b6, 0x03b6e20c, 0x74b1d29a,
  0xead54739, 0x9dd277af, 0x04db2615, 0x73dc1683, 0xe3630b12, 0x94643b84,
  0x0d6d6a3e, 0x7a6a5aa8, 0xe40ecf0b, 0x9309ff9d, 0x0a00ae27, 0x7d079eb1,
  0xf00f9344, 0x8708a3d2, 0x1e01f268, 0x6906c2fe, 0xf762575d, 0x806567cb,
  0x196c3671, 0x6e6b06e7, 0xfed41b76, 0x89d32be0, 0x10da7a5a, 0x67dd4acc,
  0xf9b9df6f, 0x8ebeeff9, 0x17b7be43, 0x60b08ed5, 0xd6d6a3e8, 0xa1d1937e,
  0x38d8c2c4, 0x4fdff252, 0xd1bb67f1, 0xa6bc5767, 0x3fb506dd, 0x48b2364b,
  0xd80d2bda, 0xaf0a1b4c, 0x36034af6, 0x41047a60, 0xdf60efc3, 0xa867df55,
  0x316e8eef, 0x4669be79, 0xcb61b38c, 0xbc66831a, 0x256fd2a0, 0x5268e236,
  0xcc0c7795, 0xbb0b4703, 0x220216b9, 0x5505262f, 0xc5ba3bbe, 0xb2bd0b28,
  0x2bb45a92, 0x5cb36a04, 0xc2d7ffa7, 0xb5d0cf31, 0x2cd99e8b, 0x5bdeae1d,
  0x9b64c2b0, 0xec63f226, 0x756aa39c, 0x026d930a, 0x9c0906a9, 0xeb0e363f,
  0x72076785, 0x05005713, 0x95bf4a82, 0xe2b87a14, 0x7bb12bae, 0x0cb61b38,
  0x92d28e9b, 0xe5d5be0d, 0x7cdcefb7, 0x0bdbdf21, 0x86d3d2d4, 0xf1d4e242,
  0x68ddb3f8, 0x1fda836e, 0x81be16cd, 0xf6b9265b, 0x6fb077e1, 0x18b74777,
  0x88085ae6, 0xff0f6a70, 0x66063bca, 0x11010b5c, 0x8f659eff, 0xf862ae69,
  0x616bffd3, 0x166ccf45, 0xa00ae278, 0xd70dd2ee, 0x4e048354, 0x3903b3c2,
  0xa7672661, 0xd06016f7, 0x4969474d, 0x3e6e77db, 0xaed16a4a, 0xd9d65adc,
  0x40df0b66, 0x37d83bf0, 0xa9bcae53, 0xdebb9ec5, 0x47b2cf7f, 0x30b5ffe9,
  0xbdbdf21c, 0xcabac28a, 0x53b39330, 0x24b4a3a6, 0xbad03605, 0xcdd70693,
  0x54de5729, 0x23d967bf, 0xb3667a2e, 0xc4614ab8, 0x5d681b02, 0x2a6f2b94,
  0xb40bbe37, 0xc30c8ea1, 0x5a05df1b, 0x2d02ef8d]"

definition crc32_brown :: "u8 list option \<Rightarrow> u32 \<Rightarrow> nat \<Rightarrow> u32 option" where
  "crc32_brown buf crc sz =
     (case buf of
        None \<Rightarrow> Some 0xFFFFFFFF
      | Some xs \<Rightarrow>
          if \<not> sz > 0 then Some 0xFFFFFFFF
          else for_range 0 sz
                 (\<lambda>i c. do {
                    b \<leftarrow> rd xs (int i);
                    t \<leftarrow> rd crc32_brown_table (uint ((c XOR ucast b) AND 0xFF));
                    Some (t XOR drop_bit 8 c)
                  }) (crc XOR NOT 0))"

text \<open>One round of the table generator for the byte \<open>b\<close>: eight conditional steps.\<close>

definition ethl_bit :: "u32 \<Rightarrow> u32 \<Rightarrow> u32" where
  "ethl_bit poly remainder =
     (if remainder AND 1 \<noteq> 0 then drop_bit 1 remainder XOR poly else drop_bit 1 remainder)"

definition crc32_ethl_init :: "u32 list" where
  "crc32_ethl_init =
     map (\<lambda>b. (ethl_bit (RCSW_REV32 CRC32_ETH_POLYNOMIAL) ^^ 8) (of_nat b)) [0..<256]"

text \<open>\<open>table\<close> is the static table when the function is entered; the new one is returned.\<close>

definition crc32_ethl :: "u32 list \<Rightarrow> u8 list option \<Rightarrow> nat \<Rightarrow> (u32 \<times> u32 list) option" where
  "crc32_ethl table buf n_bytes =
     (case buf of
        None \<Rightarrow> Some (0xFFFFFFFF, table)
      | Some xs \<Rightarrow>
          if \<not> n_bytes > 0 then Some (0xFFFFFFFF, table)
          else do {
            first \<leftarrow> rd table 1;
            let table1 = (if first = 0 then crc32_ethl_init else table);
            crc \<leftarrow> for_range 0 n_bytes
                 (\<lambda>i c. do {
                    b \<leftarrow> rd xs (int i);
                    t \<leftarrow> rd table1 (uint ((c AND 0xFF) XOR ucast b));
                    Some (drop_bit 8 c XOR t)
                  }) CRC32_ETH_INITIAL_REMAINDER;
            Some (NOT crc, table1)
          })"

definition eth_bit :: "u32 \<Rightarrow> u32 \<Rightarrow> u32" where
  "eth_bit poly crc = drop_bit 1 crc XOR (poly AND (- (crc AND 1)))"

definition eth_step :: "u32 \<Rightarrow> u32 \<Rightarrow> u8 \<Rightarrow> u32" where
  "eth_step poly crc b = (eth_bit poly ^^ 8) (crc XOR ucast b)"

text \<open>The loop counter is an \<open>int\<close>; it counts to \<open>(int)n_bytes\<close>.\<close>

definition crc32_eth :: "u8 list option \<Rightarrow> nat \<Rightarrow> u32 option" where
  "crc32_eth buf n_bytes =
     (case buf of
        None \<Rightarrow> Some 0xFFFFFFFF
      | Some xs \<Rightarrow>
          if \<not> n_bytes > 0 then Some 0xFFFFFFFF
          else map_option (\<lambda>c. NOT c)
            (for_range 0 (nat ((int n_bytes + 2 ^ 31) mod 2 ^ 32 - 2 ^ 31))
               (\<lambda>i c. map_option (eth_step (RCSW_REV32 CRC32_ETH_POLYNOMIAL) c) (rd xs (int i)))
               CRC32_ETH_INITIAL_REMAINDER))"

subsection \<open>The table is the bitwise remainder\<close>

lemma ethl_bit_alt: "ethl_bit p x = drop_bit 1 x XOR (if bit x 0 then p else 0)"
  by (simp add: ethl_bit_def and_one_eq bit_0 odd_iff_mod_2_eq_one)

lemma eth_bit_ethl_bit: "eth_bit p x = ethl_bit p x"
  by (simp add: eth_bit_def ethl_bit_alt and_one_eq bit_0 odd_iff_mod_2_eq_one)

lemma ethl_bit_xor: "ethl_bit p (x XOR y) = ethl_bit p x XOR ethl_bit p y"
  by (auto simp: ethl_bit_alt bit_xor_iff drop_bit_xor ac_simps)

lemma ethl_pow_xor: "(ethl_bit p ^^ k) (x XOR y) = (ethl_bit p ^^ k) x XOR (ethl_bit p ^^ k) y"
  by (induction k) (simp_all add: ethl_bit_xor)

lemma ethl_pow_high:
  assumes "\<And>i. i < k \<Longrightarrow> \<not> bit x i"
  shows "(ethl_bit p ^^ k) x = drop_bit k x"
  using assms
proof (induction k)
  case (Suc k)
  then have "(ethl_bit p ^^ k) x = drop_bit k x" "\<not> bit x k" by auto
  then have "(ethl_bit p ^^ Suc k) x = ethl_bit p (drop_bit k x)" by simp
  also have "\<dots> = drop_bit (Suc k) x"
    using \<open>\<not> bit x k\<close> by (simp add: ethl_bit_alt bit_drop_bit_eq)
  finally show ?case .
qed simp

lemma low_byte_mask: "(0xFF :: u32) = mask 8"
  by (simp add: mask_eq_exp_minus_1)

lemma low_byte_unat: "unat (x AND 0xFF :: u32) < 256"
proof -
  have "unat (x AND 0xFF) = take_bit 8 (unat x)"
    by (simp only: low_byte_mask take_bit_eq_mask [symmetric] unsigned_take_bit_eq)
  then show ?thesis using take_bit_nat_less_exp [of 8 "unat x"] by simp
qed

lemma low_byte_xor: "((x :: u32) AND 0xFF) XOR ucast (b :: u8) = (x XOR ucast b) AND 0xFF"
  unfolding low_byte_mask by (rule bit_word_eqI) (auto simp: bit_simps dest: bit_imp_le_length)

lemma eth_step_table:
  "eth_step p c b = drop_bit 8 c XOR (ethl_bit p ^^ 8) ((c XOR ucast b) AND 0xFF)"
proof -
  let ?x = "c XOR ucast b"
  have split: "?x = (?x AND NOT 0xFF) XOR (?x AND 0xFF)"
    unfolding low_byte_mask by (rule bit_word_eqI) (auto simp: bit_simps)
  have hi: "(ethl_bit p ^^ 8) (?x AND NOT 0xFF) = drop_bit 8 (?x AND NOT 0xFF)"
    unfolding low_byte_mask by (rule ethl_pow_high) (auto simp: bit_simps)
  have "drop_bit 8 (?x AND NOT 0xFF) = drop_bit 8 c"
    unfolding low_byte_mask
    by (rule bit_word_eqI) (auto simp: bit_simps dest: bit_imp_le_length)
  then have "(ethl_bit p ^^ 8) ?x = drop_bit 8 c XOR (ethl_bit p ^^ 8) (?x AND 0xFF)"
    using ethl_pow_xor [of 8 p "?x AND NOT 0xFF" "?x AND 0xFF"] hi split by simp
  moreover have "eth_bit p = ethl_bit p" by (rule ext) (rule eth_bit_ethl_bit)
  ultimately show ?thesis by (simp add: eth_step_def)
qed

text \<open>A lookup in the generated table, and the generated table as the static one.\<close>

lemma ethl_lookup:
  "rd crc32_ethl_init (uint (x AND 0xFF)) =
     Some ((ethl_bit (RCSW_REV32 CRC32_ETH_POLYNOMIAL) ^^ 8) (x AND 0xFF))"
proof -
  have "uint (x AND 0xFF) = int (unat (x AND 0xFF))" by simp
  moreover have "length crc32_ethl_init = 256" by (simp add: crc32_ethl_init_def)
  ultimately have "rd crc32_ethl_init (uint (x AND 0xFF)) = Some (crc32_ethl_init ! unat (x AND 0xFF))"
    using low_byte_unat [of x] by (simp only: rd_nat)
  then show ?thesis using low_byte_unat [of x] by (simp add: crc32_ethl_init_def)
qed

text \<open>
  The generated table by doubling: the second half of each power of two is the first, XORed with
  the entry of that power.
\<close>

definition xor_double :: "u32 \<Rightarrow> u32 list \<Rightarrow> u32 list" where
  "xor_double w ws = ws @ map (\<lambda>v. v XOR w) ws"

lemma ethl_pow_double:
  assumes "k < 32"
  shows "map (\<lambda>b. (ethl_bit p ^^ m) (of_nat b)) [0..<2 ^ Suc k] =
    xor_double ((ethl_bit p ^^ m) (2 ^ k)) (map (\<lambda>b. (ethl_bit p ^^ m) (of_nat b)) [0..<2 ^ k])"
proof -
  have step: "(ethl_bit p ^^ m) (of_nat (b + 2 ^ k)) =
      (ethl_bit p ^^ m) (of_nat b) XOR (ethl_bit p ^^ m) (2 ^ k)" if b: "b < 2 ^ k" for b
  proof -
    have "take_bit k b = b" using b by (simp add: take_bit_nat_eq_self_iff)
    then have nk: "\<not> bit b k" by (metis bit_take_bit_iff less_irrefl)
    have "(of_nat b :: u32) AND 2 ^ k = 0"
      by (rule bit_word_eqI) (auto simp: bit_simps nk)
    then have "(of_nat (b + 2 ^ k) :: u32) = of_nat b XOR 2 ^ k"
      by (simp add: disjunctive_add_eq_xor)
    then show ?thesis by (simp add: ethl_pow_xor)
  qed
  have "[0..<2 ^ Suc k] = [0..<2 ^ k] @ map (\<lambda>b. b + 2 ^ k) [0..<2 ^ k]"
    by (simp add: map_add_upt mult_2 flip: upt_add_eq_append)
  then show ?thesis using step by (simp add: xor_double_def)
qed

lemma ethl_pow_one:
  assumes "k \<le> 8"
  shows "(ethl_bit p ^^ 8) (2 ^ k) = (ethl_bit p ^^ (8 - k)) 1"
proof -
  have "(ethl_bit p ^^ k) (2 ^ k :: u32) = drop_bit k (2 ^ k)"
    by (rule ethl_pow_high) (auto simp: bit_simps)
  also have "\<dots> = 1" using assms by (intro bit_word_eqI) (auto simp: bit_simps)
  finally have "(ethl_bit p ^^ k) (2 ^ k) = 1" .
  moreover have "(ethl_bit p ^^ 8) = (ethl_bit p ^^ (8 - k)) \<circ> (ethl_bit p ^^ k)"
    using assms by (simp flip: funpow_add)
  ultimately show ?thesis by simp
qed

lemma brown_powers:
  "map (\<lambda>k. (ethl_bit 0xEDB88320 ^^ (8 - k)) 1) [0..<8] =
    [0x77073096, 0xee0e612c, 0x076dc419, 0x0edb8832, 0x1db71064, 0x3b6e20c8, 0x76dc4190, 0xedb88320]"
  by code_simp

lemma brown_doubling:
  "crc32_brown_table = fold xor_double
    [0x77073096, 0xee0e612c, 0x076dc419, 0x0edb8832, 0x1db71064, 0x3b6e20c8, 0x76dc4190, 0xedb88320] [0]"
  by (simp add: crc32_brown_table_def xor_double_def)

lemma ethl_doubling:
  "n \<le> 8 \<Longrightarrow> map (\<lambda>b. (ethl_bit p ^^ 8) (of_nat b)) [0..<2 ^ n] =
    fold xor_double (map (\<lambda>k. (ethl_bit p ^^ (8 - k)) 1) [0..<n]) [0]"
proof (induction n)
  case 0
  have "(ethl_bit p ^^ 8) 0 = 0" using ethl_pow_high [of 8 0 p] by simp
  then show ?case by simp
next
  case (Suc n)
  then show ?case using ethl_pow_double [of n 8 p] ethl_pow_one [of n p] by simp
qed

lemma brown_table: "crc32_brown_table = crc32_ethl_init"
proof -
  have "crc32_ethl_init = map (\<lambda>b. (ethl_bit 0xEDB88320 ^^ 8) (of_nat b)) [0..<2 ^ 8]"
    by (simp add: crc32_ethl_init_def CRC32_ETH_POLYNOMIAL_def poly_rev)
  also have "\<dots> = crc32_brown_table"
    unfolding ethl_doubling [OF order_refl] brown_powers brown_doubling ..
  finally show ?thesis ..
qed

lemma ethl_first: "rd crc32_ethl_init 1 = Some 0x77073096"
proof -
  have "rd crc32_brown_table 1 = Some 0x77073096" by (simp add: crc32_brown_table_def rd_def)
  then show ?thesis by (simp add: brown_table)
qed

subsection \<open>The steps are mixing steps\<close>

lemma top_bits: "(0x80 :: u8) = push_bit 7 1" "(0x8000 :: u16) = push_bit 15 1"
  "(0x80000000 :: u32) = push_bit 31 1"
  by (simp_all add: push_bit_eq_mult)

interpretation x8: mixing_step xchks8_step
proof
  fix s t b assume "xchks8_step s b = xchks8_step t b"
  then show "s = t"
    unfolding xchks8_step_def top_bits xor_right_cancel by (rule rotate_inj) simp
qed (simp add: xchks8_step_def xor_left_cancel)

interpretation x16: mixing_step xchks16_step
proof
  fix s t b assume "xchks16_step s b = xchks16_step t b"
  then show "s = t"
    unfolding xchks16_step_def top_bits xor_right_cancel by (rule rotate_inj) simp
qed (simp add: xchks16_step_def xor_left_cancel)

interpretation x32: mixing_step xchks32_step
proof
  fix s t b assume "xchks32_step s b = xchks32_step t b"
  then show "s = t"
    unfolding xchks32_step_def top_bits xor_right_cancel by (rule rotate_inj) simp
qed (simp add: xchks32_step_def xor_left_cancel)

interpretation add8: mixing_step "(+) :: u8 \<Rightarrow> u8 \<Rightarrow> u8" by unfold_locales simp_all
interpretation add16: mixing_step "(+) :: u16 \<Rightarrow> u16 \<Rightarrow> u16" by unfold_locales simp_all
interpretation add32: mixing_step "(+) :: u32 \<Rightarrow> u32 \<Rightarrow> u32" by unfold_locales simp_all

lemma ethl_bit_inj:
  assumes p: "bit p 31" and e: "ethl_bit p x = ethl_bit p y"
  shows "x = y"
proof -
  have top: "bit (ethl_bit p z) 31 \<longleftrightarrow> bit z 0" for z
    using p bit_imp_le_length [of z 32] by (auto simp: ethl_bit_alt bit_simps)
  have low: "bit x 0 = bit y 0" using top [of x] top [of y] e by simp
  then have d: "drop_bit 1 x = drop_bit 1 y" using e by (simp add: ethl_bit_alt xor_right_cancel)
  show ?thesis
  proof (rule bit_word_eqI)
    fix n assume "n < LENGTH(32)"
    show "bit x n = bit y n"
    proof (cases n)
      case 0
      then show ?thesis using low by simp
    next
      case (Suc m)
      have "bit (drop_bit 1 x) m = bit (drop_bit 1 y) m" using d by simp
      then show ?thesis using Suc by (simp add: bit_drop_bit_eq)
    qed
  qed
qed

lemma ethl_pow_inj: "bit p 31 \<Longrightarrow> (ethl_bit p ^^ k) x = (ethl_bit p ^^ k) y \<Longrightarrow> x = y"
  by (induction k arbitrary: x y) (auto dest: ethl_bit_inj)

lemma eth_step_ethl: "eth_step p c b = (ethl_bit p ^^ 8) (c XOR ucast b)"
proof -
  have "eth_bit p = ethl_bit p" by (rule ext) (rule eth_bit_ethl_bit)
  then show ?thesis by (simp add: eth_step_def)
qed

lemma poly_top: "bit (RCSW_REV32 CRC32_ETH_POLYNOMIAL) 31"
  by code_simp

interpretation eth: mixing_step "eth_step (RCSW_REV32 CRC32_ETH_POLYNOMIAL)"
proof
  fix s t b assume "eth_step (RCSW_REV32 CRC32_ETH_POLYNOMIAL) s b =
    eth_step (RCSW_REV32 CRC32_ETH_POLYNOMIAL) t b"
  then show "s = t"
    unfolding eth_step_ethl using ethl_pow_inj [OF poly_top] xor_right_cancel by blast
next
  fix s b c assume "eth_step (RCSW_REV32 CRC32_ETH_POLYNOMIAL) s b =
    eth_step (RCSW_REV32 CRC32_ETH_POLYNOMIAL) s c"
  then show "b = c"
    unfolding eth_step_ethl using ethl_pow_inj [OF poly_top] xor_left_cancel ucast_byte_inj by blast
qed

lemma aligned2: "RCSW_IS_SIZE_ALIGNED (2 * k) 2"
  by (simp add: RCSW_IS_SIZE_ALIGNED_def and_one_eq)

lemma aligned4: "RCSW_IS_SIZE_ALIGNED (4 * k) 4"
proof -
  have "(4 * k) AND 3 = take_bit 2 (4 * k)" by (simp add: take_bit_eq_mask mask_eq_exp_minus_1)
  then show ?thesis by (simp add: RCSW_IS_SIZE_ALIGNED_def take_bit_eq_mod)
qed

text \<open>The checksums of a whole buffer as folds.\<close>

lemma chks_folds:
  "xchks8 (Some xs) (length xs) s8 = Some (foldl xchks8_step s8 xs)"
  "achks8 (Some xs) (length xs) s8 = Some (foldl (+) s8 xs)"
  "xchks16 (Some ws) True (2 * length ws) s16 = Some (foldl xchks16_step s16 ws)"
  "achks16 (Some ws) True (2 * length ws) s16 = Some (foldl (+) s16 ws)"
  "xchks32 (Some ds) True (4 * length ds) s32 = Some (foldl xchks32_step s32 ds)"
  "achks32 (Some ds) True (4 * length ds) s32 = Some (foldl (+) s32 ds)"
  by (simp_all add: xchks8_def achks8_def xchks16_def achks16_def xchks32_def achks32_def
      aligned2 aligned4 for_range_foldl)

lemma crc32_eth_fold:
  "xs \<noteq> [] \<Longrightarrow> length xs < 2 ^ 31 \<Longrightarrow> crc32_eth (Some xs) (length xs) =
     Some (NOT (foldl (eth_step (RCSW_REV32 CRC32_ETH_POLYNOMIAL)) CRC32_ETH_INITIAL_REMAINDER xs))"
  by (simp add: crc32_eth_def for_range_foldl)

subsection \<open>Properties\<close>

text \<open>
  C27: the table-driven \<open>crc32_ethl\<close> returns the value of the bit-by-bit \<open>crc32_eth\<close> on every
  buffer, whether its static table is still zero or already built, and leaves it built;
  the static table of \<open>crc32_brown\<close> is that table, so that routine returns the same value
  without the final complement.
\<close>

theorem crc32_table_equivalence:
  assumes "table = replicate 256 0 \<or> table = crc32_ethl_init"
    and "0 < n" and "n \<le> length xs" and "n < 2 ^ 31"
  shows "\<exists>crc. crc32_eth (Some xs) n = Some crc \<and>
    crc32_ethl table (Some xs) n = Some (crc, crc32_ethl_init) \<and>
    crc32_brown (Some xs) 0 n = Some (NOT crc)"
proof -
  let ?p = "RCSW_REV32 CRC32_ETH_POLYNOMIAL"
  let ?step = "\<lambda>i c. map_option (eth_step ?p c) (rd xs (int i))"
  have look: "rd crc32_ethl_init (uint ((c XOR ucast b) AND 0xFF)) =
      Some (eth_step ?p c b XOR drop_bit 8 c)" for c b
    unfolding ethl_lookup eth_step_table by (simp add: ac_simps)
  have ethl: "(\<lambda>i c. do {
                    b \<leftarrow> rd xs (int i);
                    t \<leftarrow> rd crc32_ethl_init (uint ((c AND 0xFF) XOR ucast b));
                    Some (drop_bit 8 c XOR t)
                  }) = ?step"
  proof (intro ext)
    fix i c
    show "(do {
                    b \<leftarrow> rd xs (int i);
                    t \<leftarrow> rd crc32_ethl_init (uint ((c AND 0xFF) XOR ucast b));
                    Some (drop_bit 8 c XOR t)
                  }) = ?step i c"
      unfolding low_byte_xor look by (cases "rd xs (int i)") (simp_all add: ac_simps)
  qed
  have brown: "(\<lambda>i c. do {
                    b \<leftarrow> rd xs (int i);
                    t \<leftarrow> rd crc32_brown_table (uint ((c XOR ucast b) AND 0xFF));
                    Some (t XOR drop_bit 8 c)
                  }) = ?step"
  proof (intro ext)
    fix i c
    show "(do {
                    b \<leftarrow> rd xs (int i);
                    t \<leftarrow> rd crc32_brown_table (uint ((c XOR ucast b) AND 0xFF));
                    Some (t XOR drop_bit 8 c)
                  }) = ?step i c"
      unfolding brown_table look by (cases "rd xs (int i)") (simp_all add: ac_simps)
  qed
  let ?crc = "foldl (eth_step ?p) CRC32_ETH_INITIAL_REMAINDER (take n xs)"
  have loop: "for_range 0 n ?step CRC32_ETH_INITIAL_REMAINDER = Some ?crc"
    by (rule for_range_foldl) (rule assms(3))
  have "crc32_eth (Some xs) n = Some (NOT ?crc)"
    using assms(2,4) loop by (simp add: crc32_eth_def)
  moreover have "crc32_ethl table (Some xs) n = Some (NOT ?crc, crc32_ethl_init)"
    using assms(1)
  proof
    assume t: "table = replicate 256 0"
    have "rd table 1 = Some 0" by (simp add: t rd_def)
    then show ?thesis using assms(2) loop by (simp add: crc32_ethl_def Let_def ethl)
  next
    assume t: "table = crc32_ethl_init"
    then show ?thesis using assms(2) loop by (simp add: crc32_ethl_def Let_def ethl_first ethl)
  qed
  moreover have "crc32_brown (Some xs) 0 n = Some ?crc"
  proof -
    have "(0 XOR NOT 0 :: u32) = CRC32_ETH_INITIAL_REMAINDER"
      by (simp add: CRC32_ETH_INITIAL_REMAINDER_def)
    then show ?thesis using assms(2) loop by (simp add: crc32_brown_def brown)
  qed
  ultimately show ?thesis by simp
qed

theorem crc32_table_equivalence_witness:
  "\<exists>crc. crc32_eth (Some [1, 2, 3]) 3 = Some crc \<and>
    crc32_ethl (replicate 256 0) (Some [1, 2, 3]) 3 = Some (crc, crc32_ethl_init) \<and>
    crc32_brown (Some [1, 2, 3]) 0 3 = Some (NOT crc)"
  by (rule crc32_table_equivalence) simp_all

text \<open>
  C35: every checksum detects any change of a single unit of the buffer: the rotate-and-XOR and
  the additive ones of each width, and the CRC.
\<close>

theorem checksums_detect_single_change:
  assumes "b \<noteq> b'" and "w \<noteq> w'" and "d \<noteq> d'" and "length (bs @ b # cs) < 2 ^ 31"
  shows "(xchks8 (Some (bs @ b # cs)) (length (bs @ b # cs)) s8 \<noteq>
         xchks8 (Some (bs @ b' # cs)) (length (bs @ b # cs)) s8) \<and>
    (achks8 (Some (bs @ b # cs)) (length (bs @ b # cs)) s8 \<noteq>
         achks8 (Some (bs @ b' # cs)) (length (bs @ b # cs)) s8) \<and>
    (xchks16 (Some (ws @ w # vs)) True (2 * length (ws @ w # vs)) s16 \<noteq>
         xchks16 (Some (ws @ w' # vs)) True (2 * length (ws @ w # vs)) s16) \<and>
    (achks16 (Some (ws @ w # vs)) True (2 * length (ws @ w # vs)) s16 \<noteq>
         achks16 (Some (ws @ w' # vs)) True (2 * length (ws @ w # vs)) s16) \<and>
    (xchks32 (Some (ds @ d # es)) True (4 * length (ds @ d # es)) s32 \<noteq>
         xchks32 (Some (ds @ d' # es)) True (4 * length (ds @ d # es)) s32) \<and>
    (achks32 (Some (ds @ d # es)) True (4 * length (ds @ d # es)) s32 \<noteq>
         achks32 (Some (ds @ d' # es)) True (4 * length (ds @ d # es)) s32) \<and>
    (crc32_eth (Some (bs @ b # cs)) (length (bs @ b # cs)) \<noteq>
         crc32_eth (Some (bs @ b' # cs)) (length (bs @ b # cs)))"
proof -
  have len: "length (bs @ b # cs) = length (bs @ b' # cs)"
    "length (ws @ w # vs) = length (ws @ w' # vs)" "length (ds @ d # es) = length (ds @ d' # es)"
    by simp_all
  have ne: "bs @ b # cs \<noteq> []" "bs @ b' # cs \<noteq> []" "length (bs @ b' # cs) < 2 ^ 31"
    using assms(4) by simp_all
  have "xchks8 (Some (bs @ b # cs)) (length (bs @ b # cs)) s8 \<noteq>
         xchks8 (Some (bs @ b' # cs)) (length (bs @ b # cs)) s8"
    unfolding chks_folds(1) unfolding len(1) chks_folds(1) using x8.single_change_detected [OF assms(1)] by simp
  moreover have "achks8 (Some (bs @ b # cs)) (length (bs @ b # cs)) s8 \<noteq>
         achks8 (Some (bs @ b' # cs)) (length (bs @ b # cs)) s8"
    unfolding chks_folds(2) unfolding len(1) chks_folds(2) using add8.single_change_detected [OF assms(1)] by blast
  moreover have "xchks16 (Some (ws @ w # vs)) True (2 * length (ws @ w # vs)) s16 \<noteq>
         xchks16 (Some (ws @ w' # vs)) True (2 * length (ws @ w # vs)) s16"
    unfolding chks_folds(3) unfolding len(2) chks_folds(3) using x16.single_change_detected [OF assms(2)] by simp
  moreover have "achks16 (Some (ws @ w # vs)) True (2 * length (ws @ w # vs)) s16 \<noteq>
         achks16 (Some (ws @ w' # vs)) True (2 * length (ws @ w # vs)) s16"
    unfolding chks_folds(4) unfolding len(2) chks_folds(4) using add16.single_change_detected [OF assms(2)] by blast
  moreover have "xchks32 (Some (ds @ d # es)) True (4 * length (ds @ d # es)) s32 \<noteq>
         xchks32 (Some (ds @ d' # es)) True (4 * length (ds @ d # es)) s32"
    unfolding chks_folds(5) unfolding len(3) chks_folds(5) using x32.single_change_detected [OF assms(3)] by simp
  moreover have "achks32 (Some (ds @ d # es)) True (4 * length (ds @ d # es)) s32 \<noteq>
         achks32 (Some (ds @ d' # es)) True (4 * length (ds @ d # es)) s32"
    unfolding chks_folds(6) unfolding len(3) chks_folds(6) using add32.single_change_detected [OF assms(3)] by blast
  moreover have "crc32_eth (Some (bs @ b # cs)) (length (bs @ b # cs)) \<noteq>
         crc32_eth (Some (bs @ b' # cs)) (length (bs @ b # cs))"
    unfolding crc32_eth_fold [OF ne(1) assms(4)]
    unfolding len(1) crc32_eth_fold [OF ne(2,3)]
    using eth.single_change_detected [OF assms(1)] by simp
  ultimately show ?thesis by blast
qed

theorem checksums_detect_single_change_witness:
  "xchks8 (Some ([1] @ 2 # [])) 2 0 \<noteq> xchks8 (Some ([1] @ 3 # [])) 2 0 \<and>
   crc32_eth (Some ([1] @ 2 # [])) 2 \<noteq> crc32_eth (Some ([1] @ 3 # [])) 2"
  using checksums_detect_single_change [of 2 3 "1 :: u16" 2 "1 :: u32" 2 "[1]" "[]" 0 "[]" "[]" 0 "[]"
      "[]" 0]
  by (simp flip: numeral_2_eq_2)

end
