(* ===== verification/Hash.thy ===== *)
theory Hash
  imports Mixing
begin

text \<open>
  The three hash functions (src/utils/hash.c) over a buffer of bytes, on 32-bit words.
  \<open>None\<close> as the buffer is \<open>NULL\<close>; the result is \<open>None\<close> when the loop reads past it.
\<close>

subsection \<open>The functions\<close>

definition FNV_PRIME :: u32 where
  "FNV_PRIME = 16777619"

definition FNV_OFFSET_BASIS :: u32 where
  "FNV_OFFSET_BASIS = 2166136261"

definition hash_default_step :: "u32 \<Rightarrow> u8 \<Rightarrow> u32" where
  "hash_default_step h k =
     (let h1 = h + ucast k;
          h2 = h1 + push_bit 10 h1
      in h2 XOR drop_bit 6 h2)"

definition hash_default_final :: "u32 \<Rightarrow> u32" where
  "hash_default_final h =
     (let h1 = h + push_bit 3 h;
          h2 = h1 XOR drop_bit 11 h1
      in h2 + push_bit 15 h2)"

definition hash_default :: "u8 list option \<Rightarrow> nat \<Rightarrow> u32 option" where
  "hash_default data len =
     (case data of
        None \<Rightarrow> Some 0
      | Some key \<Rightarrow>
          if \<not> len > 0 then Some 0
          else map_option hash_default_final
            (for_range 0 len (\<lambda>i h. map_option (hash_default_step h) (rd key (int i))) 0))"

definition hash_fnv1a_step :: "u32 \<Rightarrow> u8 \<Rightarrow> u32" where
  "hash_fnv1a_step h k = (h XOR ucast k) * FNV_PRIME"

definition hash_fnv1a :: "u8 list option \<Rightarrow> nat \<Rightarrow> u32 option" where
  "hash_fnv1a data len =
     (case data of
        None \<Rightarrow> Some 0
      | Some key \<Rightarrow>
          if \<not> len > 0 then Some 0
          else for_range 0 len
                 (\<lambda>i h. map_option (hash_fnv1a_step h) (rd key (int i))) FNV_OFFSET_BASIS)"

definition hash_djb_step :: "u32 \<Rightarrow> u8 \<Rightarrow> u32" where
  "hash_djb_step h k = (push_bit 5 h + h) + ucast k"

definition hash_djb :: "u8 list option \<Rightarrow> nat \<Rightarrow> u32 option" where
  "hash_djb data len =
     (case data of
        None \<Rightarrow> Some 0
      | Some key \<Rightarrow>
          if \<not> len > 0 then Some 0
          else for_range 0 len (\<lambda>i h. map_option (hash_djb_step h) (rd key (int i))) 5381)"

subsection \<open>The steps are mixing steps\<close>

text \<open>The shift-and-add steps are multiplications by odd numbers.\<close>

lemma shift_adds:
  "x + push_bit 10 x = 1025 * x" "x + push_bit 3 x = 9 * x" "x + push_bit 15 x = 32769 * x"
  "push_bit 5 x + x = 33 * x"
  for x :: u32
  by (simp_all add: push_bit_eq_mult algebra_simps)

lemma odd_mults:
  fixes x y :: u32
  shows "1025 * x = 1025 * y \<Longrightarrow> x = y" "9 * x = 9 * y \<Longrightarrow> x = y"
    "32769 * x = 32769 * y \<Longrightarrow> x = y" "33 * x = 33 * y \<Longrightarrow> x = y"
    "x * FNV_PRIME = y * FNV_PRIME \<Longrightarrow> x = y"
  using mult_left_inj [of 3222273025 "1025 :: u32" x y] mult_left_inj [of 954437177 "9 :: u32" x y]
    mult_left_inj [of 1073709057 "32769 :: u32" x y] mult_left_inj [of 1041204193 "33 :: u32" x y]
    mult_left_inj [of 899433627 "16777619 :: u32" x y]
  by (simp_all add: FNV_PRIME_def mult.commute)

lemma default_mix_inj:
  assumes "(h + push_bit 10 h) XOR drop_bit 6 (h + push_bit 10 h) =
    (g + push_bit 10 g) XOR drop_bit 6 (g + push_bit 10 (g :: u32))"
  shows "h = g"
  using xorshift_inj [OF assms] odd_mults(1) by (simp add: shift_adds)

interpretation dflt: mixing_step hash_default_step
proof
  fix s t b assume "hash_default_step s b = hash_default_step t b"
  then show "s = t"
    using default_mix_inj [of "s + ucast b" "t + ucast b"] by (simp add: hash_default_step_def Let_def)
next
  fix s b c assume "hash_default_step s b = hash_default_step s c"
  then have "s + ucast b = s + (ucast c :: u32)"
    using default_mix_inj [of "s + ucast b" "s + ucast c"] by (simp add: hash_default_step_def Let_def)
  then show "b = c" using ucast_byte_inj by simp
qed

interpretation fnv: mixing_step hash_fnv1a_step
  by unfold_locales (auto simp: hash_fnv1a_step_def xor_cancel dest!: odd_mults(5) ucast_byte_inj)

interpretation djb: mixing_step hash_djb_step
  by unfold_locales (auto simp: hash_djb_step_def shift_adds dest!: odd_mults(4) ucast_byte_inj)

lemma hash_default_final_inj: "hash_default_final h = hash_default_final g \<Longrightarrow> h = g"
  unfolding hash_default_final_def Let_def shift_adds
  by (drule odd_mults(3), drule xorshift_inj) (simp_all add: odd_mults(2))

lemma hash_folds:
  assumes "xs \<noteq> []"
  shows "hash_default (Some xs) (length xs) =
           Some (hash_default_final (foldl hash_default_step 0 xs))"
    and "hash_fnv1a (Some xs) (length xs) = Some (foldl hash_fnv1a_step FNV_OFFSET_BASIS xs)"
    and "hash_djb (Some xs) (length xs) = Some (foldl hash_djb_step 5381 xs)"
  using assms
  by (simp_all add: hash_default_def hash_fnv1a_def hash_djb_def for_range_foldl)

text \<open>
  The djb hash as a polynomial in 33.
\<close>

lemma hash_djb_step_mult: "hash_djb_step h k = 33 * h + ucast k"
  by (simp only: hash_djb_step_def shift_adds(4))

lemma djb_fold:
  "foldl hash_djb_step h xs =
     h * 33 ^ length xs + (\<Sum>i < length xs. ucast (xs ! i) * 33 ^ (length xs - 1 - i))"
proof (induction xs rule: rev_induct)
  case (snoc x xs)
  have "(\<Sum>i < length xs. ucast (xs ! i) * 33 ^ (length xs - 1 - i)) * 33 =
      (\<Sum>i < length xs. ucast ((xs @ [x]) ! i) * (33 :: u32) ^ (length xs - i))"
    unfolding sum_distrib_right
  proof (rule sum.cong [OF refl])
    fix i assume "i \<in> {..<length xs}"
    then have "length xs - i = Suc (length xs - 1 - i)" "i < length xs" by auto
    then show "ucast (xs ! i) * 33 ^ (length xs - 1 - i) * 33 =
        ucast ((xs @ [x]) ! i) * (33 :: u32) ^ (length xs - i)"
      by (simp add: nth_append mult.assoc mult.commute)
  qed
  then show ?case using snoc by (simp add: hash_djb_step_mult algebra_simps)
qed simp

subsection \<open>Properties\<close>

lemma hash_fnv1a_4: "length bs = 4 \<Longrightarrow> \<exists>h. hash_fnv1a (Some bs) 4 = Some h"
  using for_range_foldl [of 4 bs hash_fnv1a_step FNV_OFFSET_BASIS] by (simp add: hash_fnv1a_def)

text \<open>
  C36: no hash function collides on two keys that differ in exactly one byte; and the djb hash
  is the polynomial in 33 its comment promises, with arithmetic modulo 2^32.
\<close>

theorem hashes_separate_single_change:
  assumes "b \<noteq> c"
  shows "(hash_default (Some (xs @ b # ys)) (length (xs @ b # ys)) \<noteq>
          hash_default (Some (xs @ c # ys)) (length (xs @ c # ys))) \<and>
    (hash_fnv1a (Some (xs @ b # ys)) (length (xs @ b # ys)) \<noteq>
          hash_fnv1a (Some (xs @ c # ys)) (length (xs @ c # ys))) \<and>
    (hash_djb (Some (xs @ b # ys)) (length (xs @ b # ys)) \<noteq>
          hash_djb (Some (xs @ c # ys)) (length (xs @ c # ys))) \<and>
    hash_djb (Some (xs @ b # ys)) (length (xs @ b # ys)) =
      Some (5381 * 33 ^ length (xs @ b # ys) +
        (\<Sum>i < length (xs @ b # ys).
           ucast ((xs @ b # ys) ! i) * 33 ^ (length (xs @ b # ys) - 1 - i)))"
proof -
  have ne: "xs @ b # ys \<noteq> []" "xs @ c # ys \<noteq> []" by simp_all
  have "hash_default_final (foldl hash_default_step 0 (xs @ b # ys)) \<noteq>
        hash_default_final (foldl hash_default_step 0 (xs @ c # ys))"
    using dflt.single_change_detected [OF assms] hash_default_final_inj by blast
  then show ?thesis
    unfolding hash_folds [OF ne(1)] hash_folds [OF ne(2)] djb_fold [symmetric]
    using fnv.single_change_detected [OF assms] djb.single_change_detected [OF assms] by blast
qed

theorem hashes_separate_single_change_witness:
  "hash_fnv1a (Some ([1] @ 2 # [3])) 3 \<noteq> hash_fnv1a (Some ([1] @ 7 # [3])) 3"
  using hashes_separate_single_change [of 2 7 "[1]" "[3]"] by (simp add: numeral_3_eq_3)

end
