(* ===== verification/Multififo.thy ===== *)
theory Multififo
  imports Fifo
begin

text \<open>
  The multi-FIFO (src/ds/multififo.c, include/rcsw/ds/multififo.h): a root FIFO of packets and
  child FIFOs that receive the front packet in smaller chunks. A packet is the list of its
  bytes.
\<close>

subsection \<open>State\<close>

type_synonym bytes = "u8 list"

text \<open>
  \<open>meta\<close> is the application's block for the child handles and the child elements:
  \<open>mfp_meta\<close> holds the elements part, one block per child.
\<close>

record multififo_params =
  mfp_elements :: "bytes list option"
  mfp_meta :: "bytes list list option"
  mfp_elt_size :: nat
  mfp_max_elts :: nat
  mfp_n_children :: nat
  mfp_children :: "nat list"
  mfp_flags :: u32

record multififo =
  mf_root :: "bytes fifo"
  mf_front_refmask :: u8
  mf_locked :: bool
  mf_children :: "bytes fifo list"
  mf_flags :: u32

definition multififo_isfull :: "multififo \<Rightarrow> bool" where
  "multififo_isfull f = fifo_isfull (mf_root f)"

definition multififo_isempty :: "multififo \<Rightarrow> bool" where
  "multififo_isempty f = fifo_isempty (mf_root f)"

definition multififo_size :: "multififo \<Rightarrow> nat" where
  "multififo_size f = fifo_size (mf_root f)"

definition multififo_islocked :: "multififo \<Rightarrow> bool" where
  "multififo_islocked f = mf_locked f"

definition multififo_capacity :: "multififo \<Rightarrow> nat" where
  "multififo_capacity f = fifo_capacity (mf_root f)"

subsection \<open>Feeding the children\<close>

text \<open>Chunk \<open>j\<close> of a packet, of \<open>c\<close> bytes.\<close>

definition chunk :: "nat \<Rightarrow> bytes \<Rightarrow> nat \<Rightarrow> bytes" where
  "chunk c packet j = take c (drop (c * j) packet)"

text \<open>One addition to child \<open>i\<close>; a failed one ends both loops.\<close>

definition feed_one ::
  "nat \<Rightarrow> nat \<Rightarrow> status \<times> multififo \<Rightarrow> (status \<times> multififo) option" where
  "feed_one i j = (\<lambda>(s, f).
     if s \<noteq> OK then Some (s, f)
     else do {
       child \<leftarrow> rd (mf_children f) (int i);
       slot \<leftarrow> fifo_front (mf_root f);
       packet \<leftarrow> rd (rb_elements (ff_rb (mf_root f))) (int slot);
       let (s1, child1) = fifo_add child (Some (chunk (ff_elt_size child) packet j));
       let f1 = f\<lparr>mf_children := (mf_children f)[i := child1]\<rparr>;
       Some (if s1 \<noteq> OK then (s1, f1)
             else (OK, f1\<lparr>mf_front_refmask := mf_front_refmask f1 OR push_bit i 1\<rparr>))
     })"

definition feed_child :: "nat \<Rightarrow> status \<times> multififo \<Rightarrow> (status \<times> multififo) option" where
  "feed_child i = (\<lambda>(s, f).
     if s \<noteq> OK then Some (s, f)
     else do {
       child \<leftarrow> rd (mf_children f) (int i);
       if ff_elt_size child = 0 then None
       else for_range 0 (ff_elt_size (mf_root f) div ff_elt_size child) (feed_one i) (s, f)
     })"

definition multififo_children_feed :: "multififo \<Rightarrow> (status \<times> multififo) option" where
  "multififo_children_feed f =
     (if multififo_isempty f then Some (OK, f)
      else for_range 0 (length (mf_children f)) feed_child (OK, f\<lparr>mf_front_refmask := 0\<rparr>))"

definition multififo_children_status_update :: "multififo \<Rightarrow> multififo" where
  "multififo_children_status_update f =
     f\<lparr>mf_front_refmask :=
         fold (\<lambda>i m. if fifo_isempty (mf_children f ! i) then m AND NOT (push_bit i 1) else m)
           [0..<length (mf_children f)] (mf_front_refmask f)\<rparr>"

subsection \<open>Operations\<close>

text \<open>
  The children's loop of the initialisation: \<open>Some None\<close> is a failed check, \<open>None\<close> the
  division by a zero child size. \<open>mallocs i\<close> is the block allocated for child \<open>i\<close>.
\<close>

definition init_child ::
  "multififo_params \<Rightarrow> (nat \<Rightarrow> bytes list option) \<Rightarrow> nat \<Rightarrow> bytes fifo list option \<Rightarrow>
   bytes fifo list option option" where
  "init_child p mallocs i acc =
     (case acc of
        None \<Rightarrow> Some None
      | Some cs \<Rightarrow> do {
          sz \<leftarrow> rd (mfp_children p) (int i);
          if sz = 0 then None
          else if mfp_elt_size p mod sz \<noteq> 0 then Some None
          else
            (let blocks = (case mfp_meta p of None \<Rightarrow> [] | Some bs \<Rightarrow> bs);
                 child_params =
                   \<lparr>fp_elements = Some (if i < length blocks then blocks ! i else []),
                    fp_elt_size = sz, fp_max_elts = mfp_elt_size p div sz,
                    fp_flags = mfp_flags p OR RCSW_NOALLOC_HANDLE\<rparr>
             in Some (map_option (\<lambda>c. cs @ [c])
                        (fifo_init (Some ()) None (mallocs i) (Some child_params))))
        })"

definition multififo_init ::
  "unit option \<Rightarrow> unit option \<Rightarrow> bytes list option \<Rightarrow> unit option \<Rightarrow>
   (nat \<Rightarrow> bytes list option) \<Rightarrow> multififo_params option \<Rightarrow> multififo option option" where
  "multififo_init fifo_in handle block children_mem mallocs params =
     (case params of
        None \<Rightarrow> Some None
      | Some p \<Rightarrow>
          if \<not> (mfp_max_elts p > 0 \<and> mfp_elt_size p > 0) then Some None
          else
            (case rcsw_alloc id fifo_in handle (mfp_flags p AND RCSW_NOALLOC_HANDLE) of
               Some (Some _) \<Rightarrow>
                 (case fifo_init (Some ()) None block
                         (Some \<lparr>fp_elements = mfp_elements p, fp_elt_size = mfp_elt_size p,
                                fp_max_elts = mfp_max_elts p,
                                fp_flags = mfp_flags p OR RCSW_NOALLOC_HANDLE\<rparr>) of
                    None \<Rightarrow> Some None
                  | Some root \<Rightarrow>
                      (case rcsw_alloc id (map_option (\<lambda>_. ()) (mfp_meta p)) children_mem
                              (mfp_flags p AND RCSW_NOALLOC_META) of
                         Some (Some _) \<Rightarrow>
                           map_option (map_option (\<lambda>cs. \<lparr>mf_root = root, mf_front_refmask = 0,
                               mf_locked = False, mf_children = cs, mf_flags = mfp_flags p\<rparr>))
                             (for_range 0 (mfp_n_children p) (init_child p mallocs) (Some []))
                       | _ \<Rightarrow> Some None))
             | _ \<Rightarrow> Some None))"

text \<open>Which blocks are freed: of the root, of each child, the children's handles, the handle.\<close>

definition multififo_destroy ::
  "multififo \<Rightarrow> ((bool \<times> bool) \<times> bool) \<times> ((bool \<times> bool) \<times> bool) list \<times> bool \<times> bool" where
  "multififo_destroy f =
     (fifo_destroy (mf_root f), map fifo_destroy (mf_children f),
      rcsw_free (Some ()) (mf_flags f AND RCSW_NOALLOC_META),
      rcsw_free (Some ()) (mf_flags f AND RCSW_NOALLOC_HANDLE))"

text \<open>The \<open>error\<close> label clears the lock, also when the check that failed is the one of the lock.\<close>

definition multififo_add :: "multififo \<Rightarrow> bytes option \<Rightarrow> (status \<times> multififo) option" where
  "multififo_add f e =
     (if e = None then Some (fpc_error, f)
      else if mf_locked f then Some (ERROR None, f\<lparr>mf_locked := False\<rparr>)
      else
        let f1 = f\<lparr>mf_locked := True\<rparr>;
            (s, root) = fifo_add (mf_root f1) e;
            f2 = f1\<lparr>mf_root := root\<rparr>
        in if s \<noteq> OK then Some (s, f2\<lparr>mf_locked := False\<rparr>)
           else
             let f3 = multififo_children_status_update f2
             in if mf_front_refmask f3 = 0
                then map_option (\<lambda>(s1, f4). (s1, f4\<lparr>mf_locked := False\<rparr>)) (multififo_children_feed f3)
                else Some (OK, f3\<lparr>mf_locked := False\<rparr>))"

definition multififo_remove ::
  "multififo \<Rightarrow> bool \<Rightarrow> (status \<times> bytes option \<times> multififo) option" where
  "multififo_remove f e =
     (if mf_locked f then Some (ERROR None, None, f\<lparr>mf_locked := False\<rparr>)
      else
        let f1 = multififo_children_status_update (f\<lparr>mf_locked := True\<rparr>)
        in if mf_front_refmask f1 \<noteq> 0 then Some (ERROR None, None, f1\<lparr>mf_locked := False\<rparr>)
           else
             let (s, v, root) = fifo_remove (mf_root f1) e;
                 f2 = f1\<lparr>mf_root := root\<rparr>
             in if s \<noteq> OK then Some (s, v, f2\<lparr>mf_locked := False\<rparr>)
                else map_option (\<lambda>(s1, f3). (s1, v, f3\<lparr>mf_locked := False\<rparr>))
                       (multififo_children_feed f2))"

text \<open>The slots of a cleared FIFO are zero bytes.\<close>

definition zero_slot :: "bytes fifo \<Rightarrow> bytes" where
  "zero_slot f = replicate (ff_elt_size f) 0"

definition multififo_clear :: "multififo \<Rightarrow> status \<times> multififo" where
  "multififo_clear f =
     (OK, f\<lparr>mf_root := snd (fifo_clear (zero_slot (mf_root f)) (mf_root f)),
            mf_children := map (\<lambda>c. snd (fifo_clear (zero_slot c) c)) (mf_children f),
            mf_front_refmask := 0, mf_locked := False\<rparr>)"

subsection \<open>Well-formed multi-FIFOs\<close>

definition mf_wf :: "multififo \<Rightarrow> bool" where
  "mf_wf f \<longleftrightarrow> ff_wf (mf_root f) \<and> 0 < ff_elt_size (mf_root f) \<and>
     (\<forall>c \<in> set (mf_children f). ff_wf c \<and> 0 < ff_elt_size c \<and>
        ff_elt_size c dvd ff_elt_size (mf_root f) \<and>
        fifo_capacity c = ff_elt_size (mf_root f) div ff_elt_size c) \<and>
     (\<forall>packet \<in> set (ff_content (mf_root f)). length packet = ff_elt_size (mf_root f))"

definition chunks :: "nat \<Rightarrow> bytes \<Rightarrow> bytes list" where
  "chunks c packet = map (chunk c packet) [0..<length packet div c]"

lemma concat_chunks_take:
  "concat (map (chunk c packet) [0..<k]) = take (c * k) packet"
proof (induction k)
  case (Suc k)
  have "take (c * Suc k) packet = take (c * k) packet @ take c (drop (c * k) packet)"
    using take_add [of "c * k" c packet] by (simp add: add.commute)
  with Suc show ?case by (simp add: chunk_def)
qed simp

lemma concat_chunks: "c dvd length packet \<Longrightarrow> concat (chunks c packet) = packet"
  by (simp add: chunks_def concat_chunks_take)

lemma front_packet:
  assumes "ff_wf root" and "ff_content root = x # xs"
  shows "\<exists>slot. fifo_front root = Some slot \<and> rd (rb_elements (ff_rb root)) (int slot) = Some x"
proof -
  let ?rb = "ff_rb root"
  have wf: "rb_wf ?rb" using assms(1) by (simp add: ff_wf_def)
  have c: "rb_content ?rb = x # xs" using assms(2) by (simp add: ff_content_def)
  then have "rb_current ?rb \<noteq> 0" by (metis length_rb_content list.size(3) length_0_conv neq_Nil_conv)
  moreover from this have "rb_elements ?rb ! rb_slot ?rb 0 = x"
    using rb_content_nth [of 0 ?rb] c by simp
  ultimately show ?thesis
    using wf rb_slot_less [OF wf, of 0]
    by (simp add: fifo_front_def rbuffer_front_def rbuffer_isempty_def rbuffer_data_get_def
        rb_slot_def rb_wf_def)
qed

lemma fifo_add_room:
  assumes "ff_wf c" and "length (ff_content c) < fifo_capacity c"
  shows "\<exists>c'. fifo_add c (Some y) = (OK, c') \<and> ff_wf c' \<and> ff_content c' = ff_content c @ [y] \<and>
     fifo_capacity c' = fifo_capacity c \<and> ff_elt_size c' = ff_elt_size c"
proof -
  obtain s c' where a: "fifo_add c (Some y) = (s, c')" by fastforce
  have "ff_elt_size c' = ff_elt_size c"
    using a by (auto simp: fifo_add_def split: prod.splits)
  then show ?thesis
    using fifo_add_refines [OF assms(1) a] assms(2) a by (auto simp: spec_add_def)
qed

text \<open>
  What \<open>k\<close> additions to child \<open>i\<close> change.
\<close>

definition fed :: "nat \<Rightarrow> bytes \<Rightarrow> nat \<Rightarrow> multififo \<Rightarrow> multififo \<Rightarrow> bool" where
  "fed i packet k f g \<longleftrightarrow>
     (\<exists>c. g = f\<lparr>mf_children := (mf_children f)[i := c],
               mf_front_refmask :=
                 (if k = 0 then mf_front_refmask f else mf_front_refmask f OR push_bit i 1)\<rparr> \<and>
        ff_wf c \<and> fifo_capacity c = fifo_capacity (mf_children f ! i) \<and>
        ff_elt_size c = ff_elt_size (mf_children f ! i) \<and>
        ff_content c = map (chunk (ff_elt_size c) packet) [0..<k])"

lemma feed_child_fed:
  assumes wf: "mf_wf f" and i: "i < length (mf_children f)"
    and e: "fifo_isempty (mf_children f ! i)" and x: "ff_content (mf_root f) = x # xs"
  shows "\<exists>g. feed_child i (OK, f) = Some (OK, g) \<and>
     fed i x (ff_elt_size (mf_root f) div ff_elt_size (mf_children f ! i)) f g"
proof -
  let ?c = "mf_children f ! i" let ?n = "ff_elt_size (mf_root f) div ff_elt_size ?c"
  have "?c \<in> set (mf_children f)" using i by simp
  then have c: "ff_wf ?c" "0 < ff_elt_size ?c" "fifo_capacity ?c = ?n"
    using wf by (auto simp: mf_wf_def)
  obtain slot where slot: "fifo_front (mf_root f) = Some slot"
    "rd (rb_elements (ff_rb (mf_root f))) (int slot) = Some x"
    using front_packet [OF _ x] wf by (auto simp: mf_wf_def)
  let ?P = "\<lambda>k (s, g). s = OK \<and> fed i x k f g"
  have "\<exists>t. for_range 0 ?n (feed_one i) (OK, f) = Some t \<and> ?P ?n t"
  proof (rule for_range_inv [where P = ?P])
    show "?P 0 (OK, f)"
      using c e i by (auto simp: fed_def fifo_isempty_content intro!: exI [of _ ?c])
  next
    fix k t assume k: "k < ?n" and P: "?P k t"
    obtain g d where t: "t = (OK, g)" and g: "g = f\<lparr>mf_children := (mf_children f)[i := d],
               mf_front_refmask :=
                 (if k = 0 then mf_front_refmask f else mf_front_refmask f OR push_bit i 1)\<rparr>"
      and d: "ff_wf d" "fifo_capacity d = ?n" "ff_elt_size d = ff_elt_size ?c"
        "ff_content d = map (chunk (ff_elt_size d) x) [0..<k]"
      using P c(3) by (auto simp: fed_def)
    have "length (ff_content d) < fifo_capacity d" using d(2,4) k by simp
    then obtain d' where d': "fifo_add d (Some (chunk (ff_elt_size d) x k)) = (OK, d')" "ff_wf d'"
      "ff_content d' = ff_content d @ [chunk (ff_elt_size d) x k]"
      "fifo_capacity d' = fifo_capacity d" "ff_elt_size d' = ff_elt_size d"
      using fifo_add_room [OF d(1)] by blast
    have "feed_one i k t = Some (OK, f\<lparr>mf_children := (mf_children f)[i := d'],
        mf_front_refmask := mf_front_refmask f OR push_bit i 1\<rparr>)"
      using slot i d'(1) by (simp add: feed_one_def t g Let_def or.assoc)
    moreover have "fed i x (Suc k) f (f\<lparr>mf_children := (mf_children f)[i := d'],
        mf_front_refmask := mf_front_refmask f OR push_bit i 1\<rparr>)"
      unfolding fed_def using d d' c(3) by (intro exI [of _ d']) simp
    ultimately show "\<exists>t'. feed_one i k t = Some t' \<and> ?P (Suc k) t'" by simp
  qed simp
  then show ?thesis using i c(2) by (auto simp: feed_child_def)
qed

text \<open>Every child got the whole packet \<open>x\<close>, and nothing but the children and the mask changed.\<close>

definition delivered :: "bytes \<Rightarrow> nat \<Rightarrow> multififo \<Rightarrow> multififo \<Rightarrow> bool" where
  "delivered x k f g \<longleftrightarrow> mf_root g = mf_root f \<and> mf_locked g = mf_locked f \<and>
     mf_flags g = mf_flags f \<and> mf_wf g \<and> length (mf_children g) = length (mf_children f) \<and>
     (\<forall>i < k. ff_elt_size (mf_children g ! i) = ff_elt_size (mf_children f ! i) \<and>
        ff_content (mf_children g ! i) = chunks (ff_elt_size (mf_children f ! i)) x) \<and>
     (\<forall>i. k \<le> i \<longrightarrow> mf_children g ! i = mf_children f ! i) \<and>
     (\<forall>j. bit (mf_front_refmask g) j \<longleftrightarrow> j < k \<and> j < 8)"

lemma mf_wf_child_update:
  assumes "mf_wf f" and "i < length (mf_children f)" and "ff_wf c"
    and "fifo_capacity c = fifo_capacity (mf_children f ! i)"
    and "ff_elt_size c = ff_elt_size (mf_children f ! i)"
  shows "mf_wf (f\<lparr>mf_children := (mf_children f)[i := c], mf_front_refmask := m\<rparr>)"
proof -
  have "mf_children f ! i \<in> set (mf_children f)" using assms(2) by simp
  then show ?thesis
    using assms by (auto simp: mf_wf_def dest!: subsetD [OF set_update_subset_insert])
qed

lemma multififo_feed_ok:
  assumes wf: "mf_wf f" and e: "\<forall>c \<in> set (mf_children f). fifo_isempty c"
    and x: "ff_content (mf_root f) = x # xs"
  shows "\<exists>g. multififo_children_feed f = Some (OK, g) \<and>
     delivered x (length (mf_children f)) f g"
proof -
  let ?f = "f\<lparr>mf_front_refmask := 0\<rparr>" and ?k = "length (mf_children f)"
  let ?P = "\<lambda>k (s, g). s = OK \<and> delivered x k ?f g"
  have "\<exists>t. for_range 0 ?k feed_child (OK, ?f) = Some t \<and> ?P ?k t"
  proof (rule for_range_inv [where P = ?P])
    show "?P 0 (OK, ?f)" using wf by (simp add: delivered_def mf_wf_def)
  next
    fix k t assume k: "k < ?k" and P: "?P k t"
    obtain g where t: "t = (OK, g)" and g: "delivered x k ?f g" using P by (cases t) auto
    let ?c = "mf_children f ! k"
    have same: "mf_children g ! k = ?c" "k < length (mf_children g)" "mf_wf g"
      "mf_root g = mf_root f" "length (mf_children g) = ?k"
      using g k by (auto simp: delivered_def)
    let ?n = "ff_elt_size (mf_root f) div ff_elt_size ?c"
    obtain h where h: "feed_child k (OK, g) = Some (OK, h)" "fed k x ?n g h"
      using feed_child_fed [OF same(3,2), of x xs] same e k x by auto
    obtain c where c: "h = g\<lparr>mf_children := (mf_children g)[k := c], mf_front_refmask :=
          (if ?n = 0 then mf_front_refmask g else mf_front_refmask g OR push_bit k 1)\<rparr>"
      "ff_wf c" "fifo_capacity c = fifo_capacity ?c" "ff_elt_size c = ff_elt_size ?c"
      "ff_content c = map (chunk (ff_elt_size c) x) [0..<?n]"
      using h(2) same(1) by (auto simp: fed_def)
    have "?c \<in> set (mf_children f)" using k by simp
    then have n: "?n \<noteq> 0" "length x = ff_elt_size (mf_root f)"
      using wf x by (auto simp: mf_wf_def dvd_imp_le div_eq_0_iff leD)
    have wfh: "mf_wf h"
      unfolding c(1) by (rule mf_wf_child_update) (use same c in auto)
    have "delivered x (Suc k) ?f h"
      using g n c same wfh k
      by (auto simp: delivered_def chunks_def less_Suc_eq nth_list_update bit_simps)
    then show "\<exists>t'. feed_child k t = Some t' \<and> ?P (Suc k) t'" using h t by simp
  qed simp
  then obtain g where g: "for_range 0 ?k feed_child (OK, ?f) = Some (OK, g)"
    "delivered x ?k ?f g" by auto
  have "\<not> multififo_isempty f" using x by (simp add: multififo_isempty_def fifo_isempty_content)
  then show ?thesis using g by (simp add: multififo_children_feed_def delivered_def)
qed

lemma mf_wf_unlock: "mf_wf g \<Longrightarrow> mf_wf (g\<lparr>mf_locked := b\<rparr>)"
  by (simp add: mf_wf_def)

lemma delivered_concat:
  assumes d: "delivered y k f g" and wf: "mf_wf f" and k: "k = length (mf_children f)"
    and y: "y \<in> set (ff_content (mf_root f))" and c: "c \<in> set (mf_children g)"
  shows "concat (ff_content c) = y"
proof -
  obtain i where i: "i < length (mf_children f)" "c = mf_children g ! i"
    using c d k by (auto simp: delivered_def in_set_conv_nth)
  then have "mf_children f ! i \<in> set (mf_children f)" by simp
  then have "ff_elt_size (mf_children f ! i) dvd length y"
    using wf y by (auto simp: mf_wf_def)
  then show ?thesis using d i k concat_chunks by (simp add: delivered_def)
qed

lemma fifo_remove_room:
  assumes "ff_wf c" and "ff_content c = x # xs"
  shows "\<exists>c'. fifo_remove c True = (OK, Some x, c') \<and> ff_wf c' \<and> ff_content c' = xs \<and>
     fifo_capacity c' = fifo_capacity c \<and> ff_elt_size c' = ff_elt_size c"
proof -
  obtain s v c' where a: "fifo_remove c True = (s, v, c')" by (metis prod_cases3)
  have "ff_elt_size c' = ff_elt_size c"
    using a by (auto simp: fifo_remove_def split: prod.splits)
  then show ?thesis
    using fifo_remove_refines [OF assms(1) a] assms(2) a by (auto simp: spec_remove_def)
qed

lemma status_update_bits:
  "bit (mf_front_refmask (multififo_children_status_update f)) j \<longleftrightarrow>
     bit (mf_front_refmask f) j \<and> \<not> (j < length (mf_children f) \<and> fifo_isempty (mf_children f ! j))"
proof -
  let ?upd = "\<lambda>i m. if fifo_isempty (mf_children f ! i) then m AND NOT (push_bit i 1) else (m :: u8)"
  have "bit (fold ?upd [0..<k] m) j \<longleftrightarrow> bit m j \<and> \<not> (j < k \<and> fifo_isempty (mf_children f ! j))" for k m
    by (induction k) (auto simp: bit_simps less_Suc_eq dest: bit_imp_le_length)
  then show ?thesis by (simp add: multififo_children_status_update_def)
qed

lemma status_update_clears:
  assumes "\<forall>c \<in> set (mf_children f). fifo_isempty c"
    and "\<forall>j. bit (mf_front_refmask f) j \<longrightarrow> j < length (mf_children f)"
  shows "multififo_children_status_update f = f\<lparr>mf_front_refmask := 0\<rparr>"
proof -
  have "mf_front_refmask (multififo_children_status_update f) = 0"
    using assms by (intro bit_word_eqI) (auto simp: status_update_bits)
  then show ?thesis by (simp add: multififo_children_status_update_def)
qed

subsection \<open>Properties\<close>

text \<open>
  With all children drained, an addition to an unlocked multi-FIFO with room appends the
  packet to the root and hands every child the bytes of the root's front packet, in order
  and complete. The front packet is the oldest one and not the one added: when the root was not empty
  the children receive again a packet they have already drained.
\<close>

theorem multififo_add_feeds_front:
  assumes "mf_wf f" and "\<not> mf_locked f" and "\<forall>c \<in> set (mf_children f). fifo_isempty c"
    and "\<forall>j. bit (mf_front_refmask f) j \<longrightarrow> j < length (mf_children f)"
    and "length x = ff_elt_size (mf_root f)"
    and "length (ff_content (mf_root f)) < fifo_capacity (mf_root f)"
  shows "\<exists>g. multififo_add f (Some x) = Some (OK, g) \<and> mf_wf g \<and> \<not> mf_locked g \<and>
     ff_content (mf_root g) = ff_content (mf_root f) @ [x] \<and>
     length (mf_children g) = length (mf_children f) \<and>
     (\<forall>c \<in> set (mf_children g). concat (ff_content c) = hd (ff_content (mf_root f) @ [x])) \<and>
     (\<forall>j < 8. bit (mf_front_refmask g) j \<longleftrightarrow> j < length (mf_children g))"
proof -
  have root: "ff_wf (mf_root f)" using assms(1) by (simp add: mf_wf_def)
  obtain r where r: "fifo_add (mf_root f) (Some x) = (OK, r)" "ff_wf r"
    "ff_content r = ff_content (mf_root f) @ [x]" "fifo_capacity r = fifo_capacity (mf_root f)"
    "ff_elt_size r = ff_elt_size (mf_root f)"
    using fifo_add_room [OF root assms(6)] by blast
  let ?f2 = "f\<lparr>mf_locked := True, mf_root := r\<rparr>" let ?f3 = "?f2\<lparr>mf_front_refmask := 0\<rparr>"
  have upd: "multififo_children_status_update ?f2 = ?f3"
    by (rule status_update_clears) (use assms(3,4) in simp_all)
  have wf3: "mf_wf ?f3" using assms(1,5) r by (auto simp: mf_wf_def)
  obtain y ys where y: "ff_content r = y # ys" using r(3) by (cases "ff_content (mf_root f)") auto
  obtain g where g: "multififo_children_feed ?f3 = Some (OK, g)"
    "delivered y (length (mf_children f)) ?f3 g"
    using multififo_feed_ok [OF wf3, of y ys] assms(3) y by auto
  have "multififo_add f (Some x) = Some (OK, g\<lparr>mf_locked := False\<rparr>)"
    using assms(2) r(1) upd g(1) by (simp add: multififo_add_def Let_def)
  moreover have "concat (ff_content c) = y" if "c \<in> set (mf_children g)" for c
    using delivered_concat [OF g(2) wf3] that y by simp
  moreover have "y = hd (ff_content (mf_root f) @ [x])" using y r(3) by (metis list.sel(1))
  moreover have "mf_wf (g\<lparr>mf_locked := False\<rparr>)" using g(2) mf_wf_unlock by (simp add: delivered_def)
  ultimately show ?thesis using g(2) r(3) by (auto simp: delivered_def)
qed

text \<open>A root for two packets of two bytes, and one child of single bytes.\<close>

definition example_fifo :: "nat \<Rightarrow> bytes list \<Rightarrow> nat \<Rightarrow> bytes fifo" where
  "example_fifo elt_size es n =
     \<lparr>ff_rb = \<lparr>rb_cmpe = None, rb_elements = es, rb_current = n, rb_max_elts = length es,
        rb_elt_size = elt_size, rb_start = 0, rb_flags = RCSW_DS_RBUFFER_AS_FIFO\<rparr>,
      ff_elt_size = elt_size, ff_flags = 0\<rparr>"

definition example_multififo :: multififo where
  "example_multififo = \<lparr>mf_root = example_fifo 2 [[1, 2], [3, 4], [5, 6]] 2, mf_front_refmask = 1,
     mf_locked = False, mf_children = [example_fifo 1 [[7], [8]] 0], mf_flags = 0\<rparr>"

lemmas example_simps = example_multififo_def example_fifo_def mf_wf_def ff_wf_def rb_wf_def
  fifo_capacity_def rbuffer_capacity_def ff_content_def rb_content_def rb_slot_def
  fifo_isempty_def rbuffer_isempty_def

lemma example_multififo_content: "ff_content (mf_root example_multififo) = [[1, 2], [3, 4]]"
  by (simp add: example_simps upt_rec)

lemma example_multififo_facts:
  "mf_wf example_multififo"
  "\<not> mf_locked example_multififo"
  "\<forall>c \<in> set (mf_children example_multififo). fifo_isempty c"
  "\<forall>j. bit (mf_front_refmask example_multififo) j \<longrightarrow> j < length (mf_children example_multififo)"
  "ff_elt_size (mf_root example_multififo) = 2"
  "fifo_capacity (mf_root example_multififo) = 3"
proof -
  show "mf_wf example_multififo"
    using example_multififo_content unfolding mf_wf_def by (simp add: example_simps)
  show "\<forall>j. bit (mf_front_refmask example_multififo) j \<longrightarrow> j < length (mf_children example_multififo)"
    by (simp add: example_multififo_def bit_1_iff)
qed (simp_all add: example_simps)

theorem multififo_add_feeds_front_witness:
  "\<exists>g. multififo_add example_multififo (Some [9, 9]) = Some (OK, g) \<and>
     ff_content (mf_root g) = [[1, 2], [3, 4], [9, 9]] \<and>
     (\<forall>c \<in> set (mf_children g). concat (ff_content c) = [1, 2])"
  using multififo_add_feeds_front [OF example_multififo_facts(1-4), of "[9, 9]"]
  by (auto simp: example_multififo_facts example_multififo_content)



end
