(* ===== verification/Elt.thy ===== *)
theory Elt
  imports Mixing
begin

text \<open>
  The untyped element operations (src/ds/ds.c): copy, exchange and clear of \<open>elt_size\<close> bytes.
  An element is a block of bytes, \<open>None\<close> when the pointer is \<open>NULL\<close>; an access past the end
  of a block faults. The exchange is modelled for two distinct blocks and for one block passed
  twice. Accesses of a machine type's width act on its bytes.
\<close>

subsection \<open>The operations\<close>

type_synonym block = "u8 list"

text \<open>The first \<open>n\<close> bytes of \<open>a\<close> replaced by those of \<open>b\<close>, and XORed with them.\<close>

definition copy_bytes :: "nat \<Rightarrow> block \<Rightarrow> block \<Rightarrow> block option" where
  "copy_bytes n a b = (if n \<le> length a \<and> n \<le> length b then Some (take n b @ drop n a) else None)"

definition xor_bytes :: "nat \<Rightarrow> block \<Rightarrow> block \<Rightarrow> block option" where
  "xor_bytes n a b =
     (if n \<le> length a \<and> n \<le> length b
      then Some (map2 (\<lambda>x y. x XOR y) (take n a) (take n b) @ drop n a) else None)"

text \<open>Every case of the switch, and \<open>memcpy\<close> in the default one, copies \<open>elt_size\<close> bytes.\<close>

definition ds_elt_copy :: "block option \<Rightarrow> block option \<Rightarrow> nat \<Rightarrow> (status \<times> block option) option" where
  "ds_elt_copy elt1 elt2 elt_size =
     (case (elt1, elt2) of
        (Some a, Some b) \<Rightarrow>
          if \<not> elt_size > 0 then Some (fpc_error, elt1)
          else map_option (\<lambda>a1. (OK, Some a1)) (copy_bytes elt_size a b)
      | _ \<Rightarrow> Some (fpc_error, elt1))"

definition ds_elt_swap ::
  "block option \<Rightarrow> block option \<Rightarrow> nat \<Rightarrow> (status \<times> block option \<times> block option) option" where
  "ds_elt_swap elt1 elt2 elt_size =
     (case (elt1, elt2) of
        (Some a, Some b) \<Rightarrow>
          if \<not> (elt_size > 0 \<and> elt_size \<le> 8) then Some (fpc_error, elt1, elt2)
          else if elt_size = 1 \<or> elt_size = 2 \<or> elt_size = 4 then do {
            a1 \<leftarrow> xor_bytes elt_size a b;
            b1 \<leftarrow> xor_bytes elt_size b a1;
            a2 \<leftarrow> xor_bytes elt_size a1 b1;
            Some (OK, Some a2, Some b1)
          }
          else if elt_size = 8 then do {
            a1 \<leftarrow> copy_bytes 8 a b;
            b1 \<leftarrow> copy_bytes 8 b a;
            Some (OK, Some a1, Some b1)
          }
          else Some (OK, elt1, elt2)
      | _ \<Rightarrow> Some (fpc_error, elt1, elt2))"

text \<open>Both pointers are the same block.\<close>

definition ds_elt_swap_self :: "block option \<Rightarrow> nat \<Rightarrow> (status \<times> block option) option" where
  "ds_elt_swap_self elt elt_size =
     (case elt of
        None \<Rightarrow> Some (fpc_error, elt)
      | Some a \<Rightarrow>
          if \<not> (elt_size > 0 \<and> elt_size \<le> 8) then Some (fpc_error, elt)
          else if elt_size = 1 \<or> elt_size = 2 \<or> elt_size = 4 then do {
            a1 \<leftarrow> xor_bytes elt_size a a;
            a2 \<leftarrow> xor_bytes elt_size a1 a1;
            a3 \<leftarrow> xor_bytes elt_size a2 a2;
            Some (OK, Some a3)
          }
          else if elt_size = 8 then map_option (\<lambda>a1. (OK, Some a1)) (copy_bytes 8 a a)
          else Some (OK, elt))"

definition ds_elt_clear :: "block option \<Rightarrow> nat \<Rightarrow> (status \<times> block option) option" where
  "ds_elt_clear elt elt_size =
     (case elt of
        None \<Rightarrow> Some (fpc_error, elt)
      | Some a \<Rightarrow>
          if \<not> elt_size > 0 then Some (fpc_error, elt)
          else if elt_size \<le> length a
            then Some (OK, Some (replicate elt_size 0 @ drop elt_size a)) else None)"

subsection \<open>Lemmas\<close>

lemma map2_xor_cancel:
  "length xs = length ys \<Longrightarrow>
   map2 (\<lambda>x y. x XOR y) ys (map2 (\<lambda>x y. x XOR y) xs (ys :: block)) = xs"
  by (induction xs ys rule: list_induct2) (auto simp: xor.left_commute)

lemma map2_xor_commute: "map2 (\<lambda>x y. x XOR y) xs ys = map2 (\<lambda>x y. x XOR y) ys (xs :: block)"
  by (induction xs ys rule: list_induct2') (auto simp: xor.commute)

lemma map2_xor_self: "map2 (\<lambda>x y. x XOR y) xs xs = replicate (length xs) (0 :: u8)"
  by (induction xs) auto

lemma xor_swap:
  assumes "n \<le> length a" and "n \<le> length b"
  shows "(do { a1 \<leftarrow> xor_bytes n a b; b1 \<leftarrow> xor_bytes n b a1; a2 \<leftarrow> xor_bytes n a1 b1;
               Some (OK, Some a2, Some b1) }) =
    Some (OK, Some (take n b @ drop n a), Some (take n a @ drop n b))"
proof -
  let ?x = "map2 (\<lambda>x y. x XOR y) (take n a) (take n b)"
  have l: "length ?x = n" using assms by simp
  have 1: "map2 (\<lambda>x y. x XOR y) (take n b) ?x = take n a"
    using map2_xor_cancel [of "take n a" "take n b"] assms by simp
  have 2: "map2 (\<lambda>x y. x XOR y) ?x (take n a) = take n b"
    using map2_xor_cancel [of "take n b" "take n a"] map2_xor_commute [of ?x "take n a"]
      map2_xor_commute [of "take n a" "take n b"] assms by simp
  show ?thesis using assms l 1 2 by (simp add: xor_bytes_def)
qed

subsection \<open>Properties\<close>

text \<open>
  For sizes of a machine type the exchange swaps the two elements and leaves the bytes
  after them alone; for the other sizes up to 8 it returns \<open>OK\<close> and exchanges nothing;
  above 8 it fails. An element exchanged with itself is cleared when its size is 1, 2 or 4.
\<close>

theorem ds_elt_swap_cases:
  assumes "n \<le> length a" and "n \<le> length b" and "0 < n"
  shows "ds_elt_swap (Some a) (Some b) n =
      (if n \<in> {1, 2, 4, 8} then Some (OK, Some (take n b @ drop n a), Some (take n a @ drop n b))
       else if n \<le> 8 then Some (OK, Some a, Some b)
       else Some (ERROR (Some EINVAL), Some a, Some b)) \<and>
    (n \<in> {1, 2, 4} \<longrightarrow>
       ds_elt_swap_self (Some a) n = Some (OK, Some (replicate n 0 @ drop n a)))"
proof -
  have self: "ds_elt_swap_self (Some a) n = Some (OK, Some (replicate n 0 @ drop n a))"
    if "n \<in> {1, 2, 4}"
    using that assms by (auto simp: ds_elt_swap_self_def xor_bytes_def map2_xor_self min_def)
  show ?thesis
    using xor_swap [OF assms(1,2)] assms self
    by (auto simp: ds_elt_swap_def copy_bytes_def fpc_error_def)
qed

theorem ds_elt_swap_cases_witness:
  "ds_elt_swap (Some [1, 2, 3]) (Some [4, 5, 6]) 2 = Some (OK, Some [4, 5, 3], Some [1, 2, 6]) \<and>
   ds_elt_swap (Some [1, 2, 3]) (Some [4, 5, 6]) 3 = Some (OK, Some [1, 2, 3], Some [4, 5, 6]) \<and>
   ds_elt_swap_self (Some [1, 2, 3]) 2 = Some (OK, Some [0, 0, 3])"
  using ds_elt_swap_cases [of 2 "[1, 2, 3]" "[4, 5, 6]"] ds_elt_swap_cases [of 3 "[1, 2, 3]" "[4, 5, 6]"]
  by (simp add: eval_nat_numeral)

end
