(* ===== verification/Rawfifo.thy ===== *)
theory Rawfifo
  imports Elt
begin

text \<open>
  The raw FIFO (src/ds/rawfifo.c, include/rcsw/ds/rawfifo.h) over a block of bytes. Pointers to
  \<open>dptr_t\<close> advance by \<open>align\<close> bytes, the configured size of that type.
\<close>

subsection \<open>State and operations\<close>

record rawfifo =
  rf_elements :: block
  rf_to_i :: nat
  rf_from_i :: nat
  rf_max_elts :: nat
  rf_elt_size :: nat

definition rawfifo_clear :: "rawfifo \<Rightarrow> status \<times> rawfifo" where
  "rawfifo_clear f = (OK, f\<lparr>rf_to_i := rf_from_i f\<rparr>)"

definition rawfifo_size :: "rawfifo \<Rightarrow> nat" where
  "rawfifo_size f =
     (if rf_to_i f \<ge> rf_from_i f then rf_to_i f - rf_from_i f
      else rf_to_i f + (rf_max_elts f - rf_from_i f))"

definition rawfifo_n_free :: "rawfifo \<Rightarrow> nat" where
  "rawfifo_n_free f = rf_max_elts f - rawfifo_size f - 1"

definition rawfifo_init ::
  "block option \<Rightarrow> nat \<Rightarrow> nat \<Rightarrow> rawfifo \<Rightarrow> status \<times> rawfifo" where
  "rawfifo_init buf max_elts elt_size f =
     (case buf of
        None \<Rightarrow> (fpc_error, f)
      | Some b \<Rightarrow>
          if \<not> elt_size \<le> 4 then (fpc_error, f)
          else (OK, \<lparr>rf_elements = b, rf_to_i = 0, rf_from_i = 0, rf_max_elts = max_elts,
                     rf_elt_size = elt_size\<rparr>))"

text \<open>
  \<open>ds_elt_copy\<close> between two blocks at byte offsets; with \<open>elt_size = 0\<close> it fails, which the
  callers ignore.
\<close>

definition copy_at :: "block \<Rightarrow> nat \<Rightarrow> block \<Rightarrow> nat \<Rightarrow> nat \<Rightarrow> block option" where
  "copy_at dst i src j n =
     (if n = 0 then Some dst
      else if i + n \<le> length dst \<and> j + n \<le> length src
      then Some (take i dst @ take n (drop j src) @ drop (i + n) dst) else None)"

text \<open>The remainder by \<open>max_elts\<close> faults when that is 0.\<close>

definition rawfifo_deq ::
  "nat \<Rightarrow> rawfifo \<Rightarrow> block option \<Rightarrow> nat \<Rightarrow> (nat \<times> block option \<times> rawfifo) option" where
  "rawfifo_deq align f e n_elts =
     (case e of
        None \<Rightarrow> Some (0, None, f)
      | Some out \<Rightarrow>
          let n = max (rawfifo_size f) n_elts
          in if rf_max_elts f = 0 then None
             else map_option
               (\<lambda>out1. (n, Some out1, f\<lparr>rf_from_i := (rf_from_i f + n) mod rf_max_elts f\<rparr>))
               (for_range 0 n
                  (\<lambda>i out1. copy_at out1 i (rf_elements f)
                     (align * ((rf_from_i f + i) mod rf_max_elts f)) (rf_elt_size f)) out))"

definition rawfifo_enq ::
  "nat \<Rightarrow> rawfifo \<Rightarrow> block option \<Rightarrow> nat \<Rightarrow> (nat \<times> rawfifo) option" where
  "rawfifo_enq align f elts n_elts =
     (case elts of
        None \<Rightarrow> Some (0, f)
      | Some inp \<Rightarrow>
          let n = max (rawfifo_n_free f) n_elts
          in if rf_max_elts f = 0 then None
             else map_option
               (\<lambda>es. (n, f\<lparr>rf_elements := es, rf_to_i := (rf_to_i f + n) mod rf_max_elts f\<rparr>))
               (for_range 0 n
                  (\<lambda>i es. copy_at es (align * ((rf_to_i f + i) mod rf_max_elts f)) inp i
                     (rf_elt_size f)) (rf_elements f)))"

subsection \<open>Lemmas\<close>

text \<open>One-byte elements at one-byte alignment, the configuration the header recommends.\<close>

definition rf_wf :: "rawfifo \<Rightarrow> bool" where
  "rf_wf f \<longleftrightarrow> rf_elt_size f = 1 \<and> 0 < rf_max_elts f \<and> length (rf_elements f) = rf_max_elts f \<and>
     rf_to_i f < rf_max_elts f \<and> rf_from_i f < rf_max_elts f"

definition rf_content :: "rawfifo \<Rightarrow> block" where
  "rf_content f =
     map (\<lambda>i. rf_elements f ! ((rf_from_i f + i) mod rf_max_elts f)) [0..<rawfifo_size f]"

lemma copy_at_byte:
  assumes "i < length dst" and "j < length src"
  shows "copy_at dst i src j 1 = Some (dst[i := src ! j])"
  using assms by (simp add: copy_at_def upd_conv_take_nth_drop take_Suc_conv_app_nth take_Suc
      hd_drop_conv_nth)

lemma rawfifo_size_less: "rf_wf f \<Longrightarrow> rawfifo_size f < rf_max_elts f"
  by (auto simp: rf_wf_def rawfifo_size_def)

lemma rawfifo_to: "rf_wf f \<Longrightarrow> (rf_from_i f + rawfifo_size f) mod rf_max_elts f = rf_to_i f"
  by (auto simp: rf_wf_def rawfifo_size_def)

lemma deq_loop:
  assumes wf: "rf_wf f" and k: "k \<le> length out"
  shows "for_range 0 k (\<lambda>i out1. copy_at out1 i (rf_elements f)
      (1 * ((rf_from_i f + i) mod rf_max_elts f)) (rf_elt_size f)) out =
    Some (map (\<lambda>i. rf_elements f ! ((rf_from_i f + i) mod rf_max_elts f)) [0..<k] @ drop k out)"
proof -
  let ?x = "\<lambda>i. rf_elements f ! ((rf_from_i f + i) mod rf_max_elts f)"
  let ?P = "\<lambda>k o1. o1 = map ?x [0..<k] @ drop k out"
  have "\<exists>t. for_range 0 k (\<lambda>i out1. copy_at out1 i (rf_elements f)
      (1 * ((rf_from_i f + i) mod rf_max_elts f)) (rf_elt_size f)) out = Some t \<and> ?P k t"
  proof (rule for_range_inv [where P = ?P])
    fix j t assume j: "j < k" and t: "?P j t"
    have d: "drop j out = out ! j # drop (Suc j) out" using j k by (simp add: Cons_nth_drop_Suc)
    have "(map ?x [0..<j] @ drop j out)[j := ?x j] = map ?x [0..<Suc j] @ drop (Suc j) out"
      by (simp add: d list_update_append)
    moreover have "(rf_from_i f + j) mod rf_max_elts f < length (rf_elements f)"
      using wf by (simp add: rf_wf_def)
    ultimately show "\<exists>t'. copy_at t j (rf_elements f)
        (1 * ((rf_from_i f + j) mod rf_max_elts f)) (rf_elt_size f) = Some t' \<and> ?P (Suc j) t'"
      using wf j k t copy_at_byte [of j t] by (simp add: rf_wf_def)
  qed simp_all
  then show ?thesis by simp
qed

subsection \<open>Properties\<close>

text \<open>
  \<open>rawfifo_deq\<close> caps its request by the larger of the two numbers: asked for no more
  than the FIFO holds it always removes everything. With room for all of it in the output block
  the content arrives there in order; a block of fewer bytes is overrun.
\<close>

theorem rawfifo_deq_takes_all:
  assumes "rf_wf f" and "n \<le> rawfifo_size f"
  shows "if rawfifo_size f \<le> length out
     then \<exists>f'. rawfifo_deq 1 f (Some out) n = Some (rawfifo_size f,
            Some (rf_content f @ drop (rawfifo_size f) out), f') \<and> rawfifo_size f' = 0 \<and> rf_wf f'
     else rawfifo_deq 1 f (Some out) n = None"
proof (cases "rawfifo_size f \<le> length out")
  case True
  let ?f = "f\<lparr>rf_from_i := rf_to_i f\<rparr>"
  have "rawfifo_deq 1 f (Some out) n = Some (rawfifo_size f,
      Some (rf_content f @ drop (rawfifo_size f) out), ?f)"
    using assms rawfifo_to [OF assms(1)] deq_loop [OF assms(1) True]
    by (simp add: rawfifo_deq_def rf_content_def rf_wf_def max_absorb1 Let_def)
  then show ?thesis using True assms(1) by (simp add: rawfifo_size_def rf_wf_def)
next
  case False
  let ?body = "\<lambda>i out1. copy_at out1 i (rf_elements f)
      (1 * ((rf_from_i f + i) mod rf_max_elts f)) (rf_elt_size f)"
  let ?k = "length out"
  have k: "for_range 0 ?k ?body out = Some (map (\<lambda>i. rf_elements f !
      ((rf_from_i f + i) mod rf_max_elts f)) [0..<?k])"
    using deq_loop [OF assms(1) order_refl] by simp
  have "?body ?k t = None" if "length t = ?k" for t
    using that assms(1) by (simp add: copy_at_def rf_wf_def)
  then have "for_range 0 (rawfifo_size f) ?body out = None"
    using for_range_split [of 0 ?k "rawfifo_size f" ?body out] False k
    by (simp add: for_range_step)
  then show ?thesis using False assms by (simp add: rawfifo_deq_def max_absorb1 Let_def)
qed

theorem rawfifo_deq_takes_all_witness:
  "\<exists>f'. rawfifo_deq 1 \<lparr>rf_elements = [10, 11, 12, 13], rf_to_i = 1, rf_from_i = 3,
       rf_max_elts = 4, rf_elt_size = 1\<rparr> (Some [0, 0, 0]) 1 = Some (2, Some [13, 10, 0], f') \<and>
     rawfifo_size f' = 0"
proof -
  let ?f = "\<lparr>rf_elements = [10, 11, 12, 13], rf_to_i = 1, rf_from_i = 3,
       rf_max_elts = 4, rf_elt_size = 1\<rparr>"
  have "rf_wf ?f" "rawfifo_size ?f = 2" "rf_content ?f = [13, 10]"
    by (simp_all add: rf_wf_def rawfifo_size_def rf_content_def upt_rec)
  with rawfifo_deq_takes_all [of ?f 1 "[0, 0, 0]"] show ?thesis by auto
qed

end
