(* ===== verification/Kv_Spec.thy ===== *)
theory Kv_Spec
  imports Rcsw_Prelude
begin

text \<open>
  The contract of a key-value store with bounded memory: what a client of \<open>hashmap_add\<close>,
  \<open>hashmap_remove\<close> and \<open>hashmap_data_get\<close> may rely on, stated against a partial function, the
  slots of each bucket and the number of free datablocks. The specification is deterministic:
  it says which insertions are refused. The locale lifts the laws of one operation to every
  sequence.
\<close>

datatype ('k, 'v) kv_op = Put 'k 'v | Del 'k | Get 'k

text \<open>What one operation returns: whether an update succeeded, or the value found.\<close>

datatype 'v kv_out = Done bool | Found "'v option"

record ('k, 'v) kv_state =
  kv_home :: "'k \<Rightarrow> nat"
  kv_slots :: nat
  kv_entries :: "'k \<rightharpoonup> 'v"
  kv_free :: nat

text \<open>The bucket a key belongs to has as many entries as slots.\<close>

definition kv_full :: "('k, 'v) kv_state \<Rightarrow> 'k \<Rightarrow> bool" where
  "kv_full S k \<longleftrightarrow> kv_slots S \<le> card {x \<in> dom (kv_entries S). kv_home S x = kv_home S k}"

text \<open>
  An insertion is refused when the key's bucket is full, when no datablock is free, or when the
  key is there already; in the last case it has used up a datablock all the same. A removal
  succeeds, of a key that is not there too.
\<close>

fun kv_step :: "('k, 'v) kv_op \<Rightarrow> ('k, 'v) kv_state \<Rightarrow> 'v kv_out \<times> ('k, 'v) kv_state" where
  "kv_step (Put k v) S =
     (if kv_full S k \<or> kv_free S = 0 then (Done False, S)
      else if kv_entries S k \<noteq> None then (Done False, S\<lparr>kv_free := kv_free S - 1\<rparr>)
      else (Done True, S\<lparr>kv_entries := (kv_entries S)(k \<mapsto> v), kv_free := kv_free S - 1\<rparr>))"
| "kv_step (Del k) S =
     (Done True, S\<lparr>kv_entries := (kv_entries S)(k := None),
        kv_free := (if kv_entries S k = None then kv_free S else kv_free S + 1)\<rparr>)"
| "kv_step (Get k) S = (Found (kv_entries S k), S)"

fun kv_steps :: "('k, 'v) kv_op list \<Rightarrow> ('k, 'v) kv_state \<Rightarrow> 'v kv_out list \<times> ('k, 'v) kv_state" where
  "kv_steps [] S = ([], S)"
| "kv_steps (op # ops) S =
     (let (out, S1) = kv_step op S; (outs, S2) = kv_steps ops S1 in (out # outs, S2))"

text \<open>Running the operations of an implementation.\<close>

fun kv_exec ::
  "('m \<Rightarrow> 'k \<Rightarrow> 'v \<Rightarrow> (bool \<times> 'm) option) \<Rightarrow> ('m \<Rightarrow> 'k \<Rightarrow> (bool \<times> 'm) option) \<Rightarrow>
   ('m \<Rightarrow> 'k \<Rightarrow> ('v option \<times> 'm) option) \<Rightarrow> 'm \<Rightarrow> ('k, 'v) kv_op list \<Rightarrow>
   ('v kv_out list \<times> 'm) option" where
  "kv_exec add del get m [] = Some ([], m)"
| "kv_exec add del get m (Put k v # ops) = do {
     (ok, m1) \<leftarrow> add m k v; (outs, m2) \<leftarrow> kv_exec add del get m1 ops; Some (Done ok # outs, m2) }"
| "kv_exec add del get m (Del k # ops) = do {
     (ok, m1) \<leftarrow> del m k; (outs, m2) \<leftarrow> kv_exec add del get m1 ops; Some (Done ok # outs, m2) }"
| "kv_exec add del get m (Get k # ops) = do {
     (v, m1) \<leftarrow> get m k; (outs, m2) \<leftarrow> kv_exec add del get m1 ops; Some (Found v # outs, m2) }"

fun kv_key :: "('k, 'v) kv_op \<Rightarrow> 'k" where
  "kv_key (Put k v) = k"
| "kv_key (Del k) = k"
| "kv_key (Get k) = k"

locale kv_store =
  fixes add :: "'m \<Rightarrow> 'k \<Rightarrow> 'v \<Rightarrow> (bool \<times> 'm) option"
    and del :: "'m \<Rightarrow> 'k \<Rightarrow> (bool \<times> 'm) option"
    and get :: "'m \<Rightarrow> 'k \<Rightarrow> ('v option \<times> 'm) option"
    and ok :: "'m \<Rightarrow> bool"
    and key_ok :: "'k \<Rightarrow> bool"
    and abs :: "'m \<Rightarrow> ('k, 'v) kv_state"
  assumes add_law: "ok m \<Longrightarrow> key_ok k \<Longrightarrow>
      \<exists>s m'. add m k v = Some (s, m') \<and> ok m' \<and> kv_step (Put k v) (abs m) = (Done s, abs m')"
    and del_law: "ok m \<Longrightarrow> key_ok k \<Longrightarrow>
      \<exists>s m'. del m k = Some (s, m') \<and> ok m' \<and> kv_step (Del k) (abs m) = (Done s, abs m')"
    and get_law: "ok m \<Longrightarrow> key_ok k \<Longrightarrow>
      \<exists>r m'. get m k = Some (r, m') \<and> ok m' \<and> kv_step (Get k) (abs m) = (Found r, abs m')"
begin

lemma exec_step:
  assumes "ok m" and "key_ok (kv_key op)"
  shows "\<exists>out m1. kv_step op (abs m) = (out, abs m1) \<and> ok m1 \<and>
    kv_exec add del get m (op # ops) =
      do { (outs, m2) \<leftarrow> kv_exec add del get m1 ops; Some (out # outs, m2) }"
proof (cases op)
  case (Put k v)
  then show ?thesis using add_law [OF assms(1), of k v] assms(2) by fastforce
next
  case (Del k)
  then show ?thesis using del_law [OF assms(1), of k] assms(2) by fastforce
next
  case (Get k)
  then show ?thesis using get_law [OF assms(1), of k] assms(2) by fastforce
qed

lemma exec_refines:
  assumes "ok m" and "\<forall>op \<in> set ops. key_ok (kv_key op)"
  shows "\<exists>outs m'. kv_exec add del get m ops = Some (outs, m') \<and> ok m' \<and>
    kv_steps ops (abs m) = (outs, abs m')"
  using assms
proof (induction ops arbitrary: m)
  case Nil
  then show ?case by simp
next
  case (Cons op ops)
  then obtain out m1 where 1: "kv_step op (abs m) = (out, abs m1)" "ok m1"
    "kv_exec add del get m (op # ops) =
       do { (outs, m2) \<leftarrow> kv_exec add del get m1 ops; Some (out # outs, m2) }"
    using exec_step [of m op ops] by auto
  obtain outs m' where "kv_exec add del get m1 ops = Some (outs, m')" "ok m'"
    "kv_steps ops (abs m1) = (outs, abs m')"
    using Cons.IH [OF 1(2)] Cons.prems(2) by auto
  then show ?case using 1(1,3) by simp
qed

end

end
