(* ===== verification/Hashmap.thy ===== *)
theory Hashmap
  imports Darray Hash Kv_Spec
begin

text \<open>
  The hash map (src/ds/hashmap.c, include/rcsw/ds/hashmap.h): an array of dynamic arrays of
  nodes, each node holding the key's bytes and the index of the datablock with the value;
  an allocation map says which datablocks are in use. \<open>dsz\<close> is \<open>sizeof(struct darray)\<close>, and
  \<open>rnd\<close> the 32 random bits an insertion draws.
\<close>

subsection \<open>State\<close>

definition RCSW_HASHMAP_KEYSIZE :: nat where
  "RCSW_HASHMAP_KEYSIZE = 64"

record hashnode =
  hn_key :: "u8 list"
  hn_data :: "nat option"
  hn_hash :: u32

record hashmap_stats =
  hs_n_nodes :: nat
  hs_n_adds :: nat
  hs_n_addfails :: nat
  hs_n_collisions :: nat

text \<open>
  The application's or the allocated block of elements: the allocation map, the datablocks and
  one block of nodes per bucket.
\<close>

record 'v hashmap_region =
  hr_db_map :: allocm
  hr_datablocks :: "'v list"
  hr_hashnodes :: "hashnode list list"

record 'v hashmap_params =
  hmp_meta :: "unit option"
  hmp_elements :: "'v hashmap_region option"
  hmp_elt_size :: nat
  hmp_flags :: u32
  hmp_hash :: "u8 list \<Rightarrow> nat \<Rightarrow> u32"
  hmp_bsize :: nat
  hmp_n_buckets :: nat
  hmp_sort_thresh :: int

record 'v hashmap =
  hm_hash :: "u8 list \<Rightarrow> nat \<Rightarrow> u32"
  hm_last_used :: "nat option"
  hm_db_map :: allocm
  hm_datablocks :: "'v list"
  hm_buckets :: "hashnode darray list"
  hm_elt_size :: nat
  hm_max_elts :: nat
  hm_n_buckets :: nat
  hm_stats :: hashmap_stats
  hm_sort_thresh :: int
  hm_sorted :: bool
  hm_flags :: u32

subsection \<open>Keys and buckets\<close>

text \<open>
  \<open>memcmp\<close> compares unsigned bytes and returns the sign of the first difference.
\<close>

fun memcmp :: "u8 list \<Rightarrow> u8 list \<Rightarrow> int" where
  "memcmp [] [] = 0"
| "memcmp [] (y # ys) = -1"
| "memcmp (x # xs) [] = 1"
| "memcmp (x # xs) (y # ys) = (if x < y then -1 else if y < x then 1 else memcmp xs ys)"

definition hashnode_cmp :: "hashnode \<Rightarrow> hashnode \<Rightarrow> int" where
  "hashnode_cmp n1 n2 = memcmp (hn_key n1) (hn_key n2)"

text \<open>The key's \<open>RCSW_HASHMAP_KEYSIZE\<close> bytes; a shorter block is read past its end.\<close>

definition key_bytes :: "u8 list \<Rightarrow> u8 list option" where
  "key_bytes key =
     (if length key < RCSW_HASHMAP_KEYSIZE then None else Some (take RCSW_HASHMAP_KEYSIZE key))"

text \<open>A pointer to a bucket is its index.\<close>

definition hashmap_bucket_index :: "nat \<Rightarrow> nat \<Rightarrow> nat" where
  "hashmap_bucket_index dsz bucket = bucket mod dsz"

definition hashmap_query :: "'v hashmap \<Rightarrow> u8 list \<Rightarrow> u32 \<times> nat" where
  "hashmap_query hm key =
     (let hash = hm_hash hm key RCSW_HASHMAP_KEYSIZE
      in (hash, unat hash mod hm_n_buckets hm))"

text \<open>
  Both probing loops visit the indices after \<open>start\<close>, wrapping to 0 after the last, until they
  come back to it.
\<close>

partial_function (option) probe_scan ::
  "(nat \<Rightarrow> 'r option option) \<Rightarrow> nat \<Rightarrow> nat \<Rightarrow> nat \<Rightarrow> (nat \<times> 'r) option option" where
  "probe_scan hit n start i =
     (if i \<noteq> start then
        (case hit i of
           None \<Rightarrow> None
         | Some (Some r) \<Rightarrow> Some (Some (i, r))
         | Some None \<Rightarrow> probe_scan hit n start (if i + 1 = n then 0 else i + 1))
      else Some None)"

text \<open>The bucket and the index in it where the node was found.\<close>

definition hashmap_linear_probe ::
  "'v hashmap \<Rightarrow> hashnode \<Rightarrow> nat \<Rightarrow> (nat \<times> int) option option" where
  "hashmap_linear_probe hm node bucket_index =
     probe_scan
       (\<lambda>i. do {
          b \<leftarrow> rd (hm_buckets hm) (int i);
          r \<leftarrow> darray_idx_query b (Some node);
          Some (if r \<noteq> -1 then Some r else None)
        }) (hm_n_buckets hm) bucket_index ((bucket_index + 1) mod hm_n_buckets hm)"

subsection \<open>Datablocks\<close>

text \<open>The bytes of a 32-bit value in memory, little-endian.\<close>

definition u32_bytes :: "u32 \<Rightarrow> u8 list" where
  "u32_bytes v = [ucast v, ucast (drop_bit 8 v), ucast (drop_bit 16 v), ucast (drop_bit 24 v)]"

text \<open>The inner option is \<open>NULL\<close>.\<close>

definition hashmap_db_alloc ::
  "u32 \<Rightarrow> 'v hashmap \<Rightarrow> (nat option \<times> 'v hashmap) option" where
  "hashmap_db_alloc rnd hm =
     (if hm_max_elts hm = 0 then None
      else do {
        h \<leftarrow> hash_fnv1a (Some (u32_bytes rnd)) 4;
        idx \<leftarrow> allocm_probe (hm_db_map hm) (hm_max_elts hm) (unat h mod hm_max_elts hm);
        if idx = -1 then Some (None, hm)
        else do {
          m \<leftarrow> allocm_mark_inuse (hm_db_map hm) idx;
          Some (Some (nat idx), hm\<lparr>hm_db_map := m\<rparr>)
        }
      })"

definition hashmap_db_dealloc :: "'v hashmap \<Rightarrow> nat option \<Rightarrow> 'v hashmap option" where
  "hashmap_db_dealloc hm datablock =
     (case datablock of
        None \<Rightarrow> Some hm
      | Some d \<Rightarrow>
          map_option (\<lambda>m. hm\<lparr>hm_db_map := m\<rparr>) (allocm_mark_free (hm_db_map hm) (int d)))"

subsection \<open>Operations\<close>

definition hashmap_sort :: "'v hashmap \<Rightarrow> (status \<times> 'v hashmap) option" where
  "hashmap_sort hm =
     map_option (\<lambda>bs. (OK, hm\<lparr>hm_buckets := bs, hm_sorted := True\<rparr>))
       (for_range 0 (hm_n_buckets hm)
          (\<lambda>i bs. do {
             b \<leftarrow> rd bs (int i);
             (_, b1) \<leftarrow> darray_sort b EXEC_ITER;
             wr bs (int i) b1
           }) (hm_buckets hm))"

text \<open>The datablock of a key (\<open>None\<close> is \<open>NULL\<close>), and the hm with its \<open>last_used\<close> bucket.\<close>

definition hashmap_data_get ::
  "nat \<Rightarrow> 'v hashmap \<Rightarrow> u8 list option \<Rightarrow> (nat option \<times> 'v hashmap) option" where
  "hashmap_data_get dsz hm key =
     (case key of
        None \<Rightarrow> Some (None, hm)
      | Some k0 \<Rightarrow> do {
          k \<leftarrow> key_bytes k0;
          let node = \<lparr>hn_key = k, hn_data = None, hn_hash = 0\<rparr>;
          let bucket = snd (hashmap_query hm k);
          let map1 = hm\<lparr>hm_last_used := Some bucket\<rparr>;
          b \<leftarrow> rd (hm_buckets map1) (int bucket);
          node_index \<leftarrow> darray_idx_query b (Some node);
          found \<leftarrow> (if node_index \<noteq> -1 then Some (Some (bucket, node_index))
                    else if \<not> has_flag (hm_flags map1) RCSW_DS_HASHMAP_LINPROB then Some None
                    else hashmap_linear_probe map1 node (hashmap_bucket_index dsz bucket));
          (case found of
             None \<Rightarrow> Some (None, map1)
           | Some (bi, ni) \<Rightarrow> do {
               b1 \<leftarrow> rd (hm_buckets map1) (int bi);
               (_, v) \<leftarrow> darray_idx_serve b1 True (nat ni);
               Some ((case v of None \<Rightarrow> None | Some n \<Rightarrow> hn_data n), map1)
             })
        })"

definition add_fail :: "'v hashmap \<Rightarrow> 'v hashmap" where
  "add_fail hm = hm\<lparr>hm_stats := (hm_stats hm)
     \<lparr>hs_n_addfails := hs_n_addfails (hm_stats hm) + 1\<rparr>\<rparr>"

text \<open>The bucket an addition goes to: the hashed one, or the next with room when probing.\<close>

definition add_bucket :: "nat \<Rightarrow> 'v hashmap \<Rightarrow> nat \<Rightarrow> nat option option" where
  "add_bucket dsz hm bucket = do {
     b \<leftarrow> rd (hm_buckets hm) (int bucket);
     if \<not> darray_isfull b then Some (Some bucket)
     else if \<not> has_flag (hm_flags hm) RCSW_DS_HASHMAP_LINPROB then Some None
     else map_option (map_option fst)
       (probe_scan
          (\<lambda>i. do {
             b1 \<leftarrow> rd (hm_buckets hm) (int i);
             Some (if da_current b1 < size_of_int (da_max_elts b1) then Some () else None)
           }) (hm_n_buckets hm) (hashmap_bucket_index dsz bucket)
          ((hashmap_bucket_index dsz bucket + 1) mod hm_n_buckets hm))
   }"

text \<open>The bookkeeping after an insertion into bucket \<open>i\<close>, which is now \<open>b1\<close>.\<close>

definition add_account ::
  "'v hashmap \<Rightarrow> nat \<Rightarrow> hashnode darray \<Rightarrow> (status \<times> 'v hashmap) option" where
  "add_account hm i b1 =
     (let st = hm_stats hm;
          hm1 = hm\<lparr>hm_stats := st
            \<lparr>hs_n_collisions := hs_n_collisions st + (if da_current b1 \<noteq> 1 then 1 else 0),
             hs_n_nodes := hs_n_nodes st + 1, hs_n_adds := hs_n_adds st + 1\<rparr>\<rparr>
      in do {
        hm2 \<leftarrow> (if has_flag (hm_flags hm1) RCSW_DS_SORTED \<and> hm_sort_thresh hm1 \<noteq> -1 \<and>
                   hs_n_adds (hm_stats hm1) mod size_of_int (hm_sort_thresh hm1) = 0
                 then map_option snd (hashmap_sort hm1) else Some hm1);
        b2 \<leftarrow> rd (hm_buckets hm2) (int i);
        Some (OK, hm2\<lparr>hm_sorted := da_sorted b2\<rparr>)
      })"

text \<open>The duplicate test and the insertion of the node.\<close>

definition add_store :: "'v hashmap \<Rightarrow> nat \<Rightarrow> hashnode \<Rightarrow> (status \<times> 'v hashmap) option" where
  "add_store hm i node = do {
     b \<leftarrow> rd (hm_buckets hm) (int i);
     dup \<leftarrow> darray_idx_query b (Some node);
     if dup \<noteq> -1 then Some (ERROR (Some EAGAIN), hm)
     else do {
       (s, b1) \<leftarrow> darray_insert b (Some node) (da_current b) None;
       let hm1 = hm\<lparr>hm_buckets := (hm_buckets hm)[i := b1]\<rparr>;
       if s \<noteq> OK then Some (s, add_fail hm1) else add_account hm1 i b1
     }
   }"

text \<open>
  What follows the choice of the bucket. The datablock is allocated and filled before the
  duplicate test, which returns without giving it back.
\<close>

definition add_node ::
  "u32 \<Rightarrow> 'v hashmap \<Rightarrow> nat \<Rightarrow> u8 list \<Rightarrow> u32 \<Rightarrow> 'v option \<Rightarrow> (status \<times> 'v hashmap) option" where
  "add_node rnd hm i k hash data = do {
     (db, hm1) \<leftarrow> hashmap_db_alloc rnd hm;
     (case db of
        None \<Rightarrow> Some (ERROR None, add_fail hm1)
      | Some d \<Rightarrow> do {
          blocks \<leftarrow> (case data of None \<Rightarrow> Some (hm_datablocks hm1)
                               | Some v \<Rightarrow> wr (hm_datablocks hm1) (int d) v);
          add_store (hm1\<lparr>hm_datablocks := blocks\<rparr>) i
            \<lparr>hn_key = k, hn_data = Some d, hn_hash = hash\<rparr>
        })
   }"

definition hashmap_add ::
  "nat \<Rightarrow> u32 \<Rightarrow> 'v hashmap \<Rightarrow> u8 list option \<Rightarrow> 'v option \<Rightarrow> (status \<times> 'v hashmap) option" where
  "hashmap_add dsz rnd hm key data =
     (case key of
        None \<Rightarrow> Some (fpc_error, hm)
      | Some k0 \<Rightarrow> do {
          k \<leftarrow> key_bytes k0;
          let (hash, bucket) = hashmap_query hm k;
          let map1 = hm\<lparr>hm_last_used := Some bucket\<rparr>;
          target \<leftarrow> add_bucket dsz map1 bucket;
          (case target of
             None \<Rightarrow> Some (ERROR None, add_fail map1)
           | Some bi \<Rightarrow> add_node rnd map1 bi k hash data)
        })"

text \<open>A key that is not found is no error: the label \<open>error\<close> returns \<open>OK\<close>.\<close>

definition hashmap_remove ::
  "nat \<Rightarrow> hashnode \<Rightarrow> 'v hashmap \<Rightarrow> u8 list option \<Rightarrow> (status \<times> 'v hashmap) option" where
  "hashmap_remove dsz ones hm key =
     (case key of
        None \<Rightarrow> Some (fpc_error, hm)
      | Some k0 \<Rightarrow> do {
          k \<leftarrow> key_bytes k0;
          let (hash, bucket) = hashmap_query hm k;
          let map1 = hm\<lparr>hm_last_used := Some bucket\<rparr>;
          let node = \<lparr>hn_key = k, hn_data = None, hn_hash = hash\<rparr>;
          b \<leftarrow> rd (hm_buckets map1) (int bucket);
          node_index \<leftarrow> darray_idx_query b (Some node);
          found \<leftarrow> (if node_index \<noteq> -1 then Some (Some (bucket, node_index))
                    else if \<not> has_flag (hm_flags map1) RCSW_DS_HASHMAP_LINPROB then Some None
                    else hashmap_linear_probe map1 node (hashmap_bucket_index dsz bucket));
          (case found of
             None \<Rightarrow> Some (OK, map1)
           | Some (bi, ni) \<Rightarrow> do {
               b1 \<leftarrow> rd (hm_buckets map1) (int bi);
               node_p \<leftarrow> rd (da_elements b1) (darray_data_get b1 (nat ni));
               map2 \<leftarrow> hashmap_db_dealloc map1 (hn_data node_p);
               (s, _, b2) \<leftarrow> darray_remove ones b1 False (nat ni) None;
               let map3 = map2\<lparr>hm_buckets := (hm_buckets map2)[bi := b2]\<rparr>;
               if s \<noteq> OK then Some (ERROR (Some EAGAIN), map3)
               else
                 let st = hm_stats map3
                 in Some (OK, map3\<lparr>hm_stats := st\<lparr>hs_n_nodes := size_pred (hs_n_nodes st)\<rparr>,
                                   hm_sorted := da_sorted b2\<rparr>)
             })
        })"

text \<open>Clearing empties the buckets only: the allocation map and the counters stay.\<close>

definition hashmap_clear :: "hashnode \<Rightarrow> 'v hashmap \<Rightarrow> (status \<times> 'v hashmap) option" where
  "hashmap_clear zero hm =
     map_option (\<lambda>bs. (OK, hm\<lparr>hm_buckets := bs\<rparr>))
       (for_range 0 (hm_n_buckets hm)
          (\<lambda>i bs. do {
             b \<leftarrow> rd bs (int i);
             (_, b1) \<leftarrow> darray_clear zero b;
             wr bs (int i) b1
           }) (hm_buckets hm))"

text \<open>
  The integer part of \<open>hashmap_gather\<close>: the largest and the smallest bucket; the minimum starts
  at -1.
\<close>

definition gather_extremes :: "'v hashmap \<Rightarrow> int \<times> int" where
  "gather_extremes hm =
     fold (\<lambda>b (mx, mn). (max (int_of_size (da_current b)) mx, min (int_of_size (da_current b)) mn))
       (hm_buckets hm) (0, -1)"

subsection \<open>Initialisation and destruction\<close>

definition hashmap_bucket_params :: "'v hashmap_params \<Rightarrow> hashnode list \<Rightarrow> hashnode darray_params" where
  "hashmap_bucket_params p elements =
     \<lparr>dap_cmpe = Some hashnode_cmp, dap_elements = Some elements, dap_elt_size = 80,
      dap_max_elts = int_of_size (hmp_bsize p),
      dap_flags = RCSW_NOALLOC_HANDLE OR RCSW_NOALLOC_DATA OR
        (if has_flag (hmp_flags p) RCSW_DS_SORTED then RCSW_DS_SORTED else 0),
      dap_init_size = hmp_bsize p\<rparr>"

text \<open>
  The outer \<open>None\<close> is undefined behaviour. Every failure after the handle runs
  \<open>hashmap_destroy\<close> on buckets that are \<open>NULL\<close> or not yet initialised; only a single
  \<open>NULL\<close> bucket is harmless.
\<close>

definition hashmap_init ::
  "unit option \<Rightarrow> unit option \<Rightarrow> unit option \<Rightarrow> 'v hashmap_region option \<Rightarrow>
   'v hashmap_params option \<Rightarrow> 'v hashmap option option" where
  "hashmap_init hm_in handle meta elements params =
     (case params of
        None \<Rightarrow> Some None
      | Some p \<Rightarrow>
          if \<not> (hmp_elt_size p > 0 \<and> hmp_sort_thresh p \<noteq> 0 \<and> hmp_n_buckets p > 0) then Some None
          else do {
            h \<leftarrow> rcsw_alloc id hm_in handle (hmp_flags p AND RCSW_NOALLOC_HANDLE);
            if h = None then Some None
            else do {
              m \<leftarrow> rcsw_alloc id (hmp_meta p) meta (hmp_flags p AND RCSW_NOALLOC_META);
              if m = None then (if hmp_n_buckets p = 1 then Some None else None)
              else do {
                es \<leftarrow> rcsw_alloc id (hmp_elements p) elements (hmp_flags p AND RCSW_NOALLOC_DATA);
                r \<leftarrow> es;
                let max_elts = hmp_bsize p * hmp_n_buckets p;
                db_map \<leftarrow> for_range 0 max_elts (\<lambda>i m. allocm_mark_free m (int i)) (hr_db_map r);
                buckets \<leftarrow> for_range 0 (hmp_n_buckets p)
                  (\<lambda>i bs. do {
                     nodes \<leftarrow> rd (hr_hashnodes r) (int i);
                     b \<leftarrow> darray_init (Some ()) None None (Some (hashmap_bucket_params p nodes));
                     Some (bs @ [b])
                   }) [];
                Some (Some \<lparr>hm_hash = hmp_hash p, hm_last_used = None, hm_db_map = db_map,
                  hm_datablocks = hr_datablocks r, hm_buckets = buckets,
                  hm_elt_size = hmp_elt_size p, hm_max_elts = max_elts,
                  hm_n_buckets = hmp_n_buckets p,
                  hm_stats = \<lparr>hs_n_nodes = 0, hs_n_adds = 0, hs_n_addfails = 0, hs_n_collisions = 0\<rparr>,
                  hm_sort_thresh = hmp_sort_thresh p, hm_sorted = False,
                  hm_flags = hmp_flags p\<rparr>)
              }
            }
          })"

text \<open>Which blocks go to \<open>free\<close>: those of the buckets, the elements, the buckets, the handle.\<close>

definition hashmap_destroy :: "'v hashmap \<Rightarrow> ((bool \<times> bool) list \<times> bool \<times> bool \<times> bool) option" where
  "hashmap_destroy hm =
     map_option
       (\<lambda>fs. (fs, rcsw_free (Some ()) (hm_flags hm AND RCSW_NOALLOC_DATA),
              rcsw_free (Some ()) (hm_flags hm AND RCSW_NOALLOC_META),
              rcsw_free (Some ()) (hm_flags hm AND RCSW_NOALLOC_HANDLE)))
       (for_range 0 (hm_n_buckets hm)
          (\<lambda>i fs. map_option (\<lambda>b. fs @ [darray_destroy b]) (rd (hm_buckets hm) (int i))) [])"

subsection \<open>Comparing keys\<close>

lemma memcmp_zero [simp]: "memcmp xs ys = 0 \<longleftrightarrow> xs = ys"
  by (induction xs ys rule: memcmp.induct) auto

lemma memcmp_neg: "memcmp ys xs = - memcmp xs ys"
  by (induction xs ys rule: memcmp.induct) auto

lemma memcmp_trans: "memcmp xs ys \<le> 0 \<Longrightarrow> memcmp ys zs \<le> 0 \<Longrightarrow> memcmp xs zs \<le> 0"
proof (induction xs ys arbitrary: zs rule: memcmp.induct)
  case (4 x xs y ys)
  then show ?case by (cases zs) (auto split: if_splits)
next
  case (2 y ys)
  then show ?case by (cases zs) auto
qed auto

interpretation hn: cmp_order hashnode_cmp
proof
  fix x y z :: hashnode
  show "hashnode_cmp x y \<le> 0 \<longleftrightarrow> 0 \<le> hashnode_cmp y x"
    using memcmp_neg [of "hn_key x" "hn_key y"] by (simp add: hashnode_cmp_def)
  show "hashnode_cmp x y \<le> 0 \<Longrightarrow> hashnode_cmp y z \<le> 0 \<Longrightarrow> hashnode_cmp x z \<le> 0"
    by (auto simp: hashnode_cmp_def intro: memcmp_trans)
qed

lemma hashnode_cmp_zero: "hashnode_cmp x y = 0 \<longleftrightarrow> hn_key x = hn_key y"
  by (simp add: hashnode_cmp_def)

subsection \<open>The invariant and the abstraction\<close>

definition hashmap_home :: "'v hashmap \<Rightarrow> u8 list \<Rightarrow> nat" where
  "hashmap_home hm k = unat (hm_hash hm k RCSW_HASHMAP_KEYSIZE) mod hm_n_buckets hm"

definition hm_nodes :: "'v hashmap \<Rightarrow> hashnode list" where
  "hm_nodes hm = concat (map da_content (hm_buckets hm))"

definition hm_abs :: "'v hashmap \<Rightarrow> u8 list \<rightharpoonup> 'v" where
  "hm_abs hm = map_of (map (\<lambda>n. (hn_key n, hm_datablocks hm ! the (hn_data n))) (hm_nodes hm))"

text \<open>
  A bucket is a bounded array of \<open>bs\<close> slots over its own block; it is sorted when the map is,
  and then small enough for the sort and the binary search.
\<close>

definition bucket_wf :: "nat \<Rightarrow> bool \<Rightarrow> hashnode darray \<Rightarrow> bool" where
  "bucket_wf bs srt b \<longleftrightarrow> da_wf b \<and> da_cmpe b = Some hashnode_cmp \<and>
     has_flag (da_flags b) RCSW_NOALLOC_DATA \<and> has_flag (da_flags b) RCSW_DS_SORTED = srt \<and>
     0 < bs \<and> da_max_elts b = int bs \<and> da_capacity b = bs \<and> da_elt_size b = 80 \<and>
     (da_sorted b \<longrightarrow> srt) \<and> (srt \<longrightarrow> fits 80 bs \<and> sorted_cmp hashnode_cmp (da_content b))"

lemma bucket_wf_search:
  assumes "bucket_wf bs srt b" and "da_sorted b"
  shows "fits (da_elt_size b) (da_current b)" and "da_current b \<le> 2 ^ 30"
proof -
  have b: "fits 80 bs" "da_current b \<le> bs" "da_elt_size b = 80"
    using assms by (auto simp: bucket_wf_def da_wf_def)
  show "fits (da_elt_size b) (da_current b)" using fits_mono [OF b(1,2)] b(3) by simp
  show "da_current b \<le> 2 ^ 30" using b(1,2) by (simp add: fits_def)
qed

text \<open>The slots of each bucket.\<close>

definition hm_bsize :: "'v hashmap \<Rightarrow> nat" where
  "hm_bsize hm = hm_max_elts hm div hm_n_buckets hm"

definition node_wf :: "'v hashmap \<Rightarrow> hashnode \<Rightarrow> bool" where
  "node_wf hm n \<longleftrightarrow> (\<exists>d. hn_data n = Some d \<and> d < hm_max_elts hm \<and>
     d \<notin> allocm_free (hm_db_map hm))"

text \<open>
  Each key is stored once, in the bucket it hashes to, and each node owns a datablock that
  the allocation map says is in use.
\<close>

definition hm_wf :: "'v hashmap \<Rightarrow> bool" where
  "hm_wf hm \<longleftrightarrow> 0 < hm_n_buckets hm \<and> length (hm_buckets hm) = hm_n_buckets hm \<and>
     0 < hm_max_elts hm \<and> hm_max_elts hm < 2 ^ 31 \<and> length (hm_db_map hm) = hm_max_elts hm \<and>
     length (hm_datablocks hm) = hm_max_elts hm \<and>
     \<not> has_flag (hm_flags hm) RCSW_DS_HASHMAP_LINPROB \<and>
     (\<forall>b \<in> set (hm_buckets hm). bucket_wf (hm_bsize hm) (has_flag (hm_flags hm) RCSW_DS_SORTED) b) \<and>
     (\<forall>i < hm_n_buckets hm. \<forall>n \<in> set (da_content (hm_buckets hm ! i)).
        hashmap_home hm (hn_key n) = i) \<and>
     distinct (map hn_key (hm_nodes hm)) \<and> distinct (map hn_data (hm_nodes hm)) \<and>
     (\<forall>n \<in> set (hm_nodes hm). node_wf hm n)"

lemma set_hm_nodes: "set (hm_nodes hm) = (\<Union>b \<in> set (hm_buckets hm). set (da_content b))"
  by (simp add: hm_nodes_def)

lemma mset_nodes_update:
  assumes "i < length bs"
  shows "mset (concat (map f (bs[i := b]))) + mset (f (bs ! i)) = mset (concat (map f bs)) + mset (f b)"
proof -
  have "concat (map f bs) = concat (map f (take i bs)) @ f (bs ! i) @ concat (map f (drop (Suc i) bs))"
    by (subst id_take_nth_drop [OF assms]) simp
  moreover have "concat (map f (bs[i := b])) =
      concat (map f (take i bs)) @ f b @ concat (map f (drop (Suc i) bs))"
    using assms by (simp add: upd_conv_take_nth_drop)
  ultimately show ?thesis by simp
qed

lemma hm_nodes_update:
  assumes "i < length (hm_buckets hm)"
  shows "mset (hm_nodes (hm\<lparr>hm_buckets := (hm_buckets hm)[i := b]\<rparr>)) + mset (da_content (hm_buckets hm ! i)) =
    mset (hm_nodes hm) + mset (da_content b)"
  using mset_nodes_update [OF assms, of da_content b] by (simp add: hm_nodes_def)

lemma hm_wf_home:
  assumes "hm_wf hm" and "n \<in> set (hm_nodes hm)"
  shows "n \<in> set (da_content (hm_buckets hm ! hashmap_home hm (hn_key n)))"
proof -
  obtain i where "i < length (hm_buckets hm)" "n \<in> set (da_content (hm_buckets hm ! i))"
    using assms(2) by (metis UN_E in_set_conv_nth set_hm_nodes)
  moreover from this have "hashmap_home hm (hn_key n) = i" using assms(1) by (auto simp: hm_wf_def)
  ultimately show ?thesis by simp
qed

lemma hm_wf_bucket:
  assumes "hm_wf hm"
  shows "hashmap_home hm k < length (hm_buckets hm)"
    and "bucket_wf (hm_bsize hm) (has_flag (hm_flags hm) RCSW_DS_SORTED) (hm_buckets hm ! hashmap_home hm k)"
  using assms by (auto simp: hm_wf_def hashmap_home_def)

lemma hm_abs_Some:
  assumes "distinct (map hn_key (hm_nodes hm))"
  shows "hm_abs hm k = Some v \<longleftrightarrow>
    (\<exists>n \<in> set (hm_nodes hm). hn_key n = k \<and> hm_datablocks hm ! the (hn_data n) = v)"
proof -
  have "distinct (map fst (map (\<lambda>n. (hn_key n, hm_datablocks hm ! the (hn_data n))) (hm_nodes hm)))"
    using assms by (simp add: comp_def)
  from map_of_eq_Some_iff [OF this, of k v] show ?thesis by (auto simp: hm_abs_def)
qed

lemma hm_abs_None: "hm_abs hm k = None \<longleftrightarrow> k \<notin> hn_key ` set (hm_nodes hm)"
  by (auto simp: hm_abs_def map_of_eq_None_iff image_image)

text \<open>The abstraction depends on the nodes as a set.\<close>

lemma hm_abs_eqI:
  assumes "distinct (map hn_key (hm_nodes hm))" and "distinct (map hn_key (hm_nodes hm'))"
    and "set (hm_nodes hm') = set (hm_nodes hm)"
    and "\<And>n. n \<in> set (hm_nodes hm) \<Longrightarrow>
      hm_datablocks hm' ! the (hn_data n) = hm_datablocks hm ! the (hn_data n)"
  shows "hm_abs hm' = hm_abs hm"
proof
  fix k
  have "hm_abs hm' k = Some v \<longleftrightarrow> hm_abs hm k = Some v" for v
    unfolding hm_abs_Some [OF assms(1)] hm_abs_Some [OF assms(2)] assms(3) using assms(4) by auto
  then show "hm_abs hm' k = hm_abs hm k" by (metis not_None_eq)
qed

subsection \<open>Looking a key up\<close>

lemma key_bytes_full [simp]: "length k = RCSW_HASHMAP_KEYSIZE \<Longrightarrow> key_bytes k = Some k"
  by (simp add: key_bytes_def)

lemma hashmap_query_home [simp]: "snd (hashmap_query hm k) = hashmap_home hm k"
  by (simp add: hashmap_query_def hashmap_home_def Let_def)

lemma bucket_query:
  assumes "hm_wf hm" and "hn_key n = k"
  defines "b \<equiv> hm_buckets hm ! hashmap_home hm k"
  shows "(darray_idx_query b (Some n) = Some (-1) \<and> hm_abs hm k = None) \<or>
    (\<exists>i < da_current b. darray_idx_query b (Some n) = Some (int i) \<and> hn_key (da_content b ! i) = k \<and>
       da_content b ! i \<in> set (hm_nodes hm) \<and>
       hm_abs hm k = Some (hm_datablocks hm ! the (hn_data (da_content b ! i))))"
proof -
  have b: "hashmap_home hm k < length (hm_buckets hm)"
    "bucket_wf (hm_bsize hm) (has_flag (hm_flags hm) RCSW_DS_SORTED) b"
    using hm_wf_bucket [OF assms(1)] by (simp_all add: b_def)
  then obtain r where r: "darray_idx_query b (Some n) = Some r"
    "0 \<le> r \<and> r < int (da_current b) \<and> hn_key (da_content b ! nat r) = k \<or>
     r = -1 \<and> (\<forall>x \<in> set (da_content b). hn_key x \<noteq> k)"
    using darray_query_ok [OF _ _ hn.cmp_order_axioms _ bucket_wf_search [OF b(2)], of n] assms(2)
    by (auto simp: bucket_wf_def hashnode_cmp_zero)
  from r(2) show ?thesis
  proof
    assume h: "r = -1 \<and> (\<forall>x \<in> set (da_content b). hn_key x \<noteq> k)"
    have "k \<notin> hn_key ` set (hm_nodes hm)" using h hm_wf_home [OF assms(1)] by (auto simp: b_def)
    then show ?thesis using h r(1) by (simp add: hm_abs_None)
  next
    assume h: "0 \<le> r \<and> r < int (da_current b) \<and> hn_key (da_content b ! nat r) = k"
    let ?m = "da_content b ! nat r"
    have "nat r < length (da_content b)"
      using h b(2) by (auto simp: bucket_wf_def da_wf_def da_content_def)
    then have "?m \<in> set (da_content b)" by simp
    then have m: "?m \<in> set (hm_nodes hm)" using b(1) by (auto simp: set_hm_nodes b_def)
    moreover have "distinct (map hn_key (hm_nodes hm))" using assms(1) by (simp add: hm_wf_def)
    ultimately have "hm_abs hm k = Some (hm_datablocks hm ! the (hn_data ?m))"
      using hm_abs_Some [of hm k] h by auto
    then show ?thesis using h r(1) m by (intro disjI2 exI [of _ "nat r"]) auto
  qed
qed

lemma hashmap_data_get_ok:
  assumes "hm_wf hm" and "length k = RCSW_HASHMAP_KEYSIZE"
  shows "\<exists>d hm'. hashmap_data_get dsz hm (Some k) = Some (d, hm') \<and>
    hm' = hm\<lparr>hm_last_used := Some (hashmap_home hm k)\<rparr> \<and>
    (case d of None \<Rightarrow> hm_abs hm k = None
     | Some i \<Rightarrow> i < length (hm_datablocks hm) \<and> hm_abs hm k = Some (hm_datablocks hm ! i))"
proof -
  let ?n = "\<lparr>hn_key = k, hn_data = None, hn_hash = 0\<rparr>"
  let ?b = "hm_buckets hm ! hashmap_home hm k"
  have b: "hashmap_home hm k < length (hm_buckets hm)" "bucket_wf (hm_bsize hm) (has_flag (hm_flags hm) RCSW_DS_SORTED) ?b"
    using hm_wf_bucket [OF assms(1)] by simp_all
  have np: "\<not> has_flag (hm_flags hm) RCSW_DS_HASHMAP_LINPROB" using assms(1) by (simp add: hm_wf_def)
  consider "darray_idx_query ?b (Some ?n) = Some (-1)" "hm_abs hm k = None"
    | i where "i < da_current ?b" "darray_idx_query ?b (Some ?n) = Some (int i)"
      "da_content ?b ! i \<in> set (hm_nodes hm)"
      "hm_abs hm k = Some (hm_datablocks hm ! the (hn_data (da_content ?b ! i)))"
    using bucket_query [OF assms(1), of ?n k] by auto
  then show ?thesis
  proof cases
    case 1
    then show ?thesis using assms(2) b(1) np by (simp add: hashmap_data_get_def Let_def)
  next
    case 2
    have "node_wf hm (da_content ?b ! i)" using 2(3) assms(1) by (simp add: hm_wf_def)
    then obtain d where d: "hn_data (da_content ?b ! i) = Some d" "d < length (hm_datablocks hm)"
      using assms(1) by (auto simp: node_wf_def hm_wf_def)
    have s: "darray_idx_serve ?b True i = Some (OK, Some (da_content ?b ! i))"
      using 2(1) b(2) by (auto simp: darray_idx_serve_def darray_data_get_def bucket_wf_def
          da_wf_def da_content_def)
    show ?thesis using assms(2) b(1) 2 d s by (simp add: hashmap_data_get_def Let_def)
  qed
qed

subsection \<open>What the invariant ignores\<close>

lemma hm_nodes_ignores [simp]:
  "hm_nodes (hm\<lparr>hm_last_used := u\<rparr>) = hm_nodes hm" "hm_nodes (hm\<lparr>hm_stats := s\<rparr>) = hm_nodes hm"
  "hm_nodes (hm\<lparr>hm_sorted := t\<rparr>) = hm_nodes hm" "hm_nodes (hm\<lparr>hm_db_map := m\<rparr>) = hm_nodes hm"
  "hm_nodes (hm\<lparr>hm_datablocks := ds\<rparr>) = hm_nodes hm"
  by (simp_all add: hm_nodes_def)

lemma hashmap_home_ignores [simp]:
  "hashmap_home (hm\<lparr>hm_last_used := u\<rparr>) k = hashmap_home hm k"
  "hashmap_home (hm\<lparr>hm_stats := s\<rparr>) k = hashmap_home hm k"
  "hashmap_home (hm\<lparr>hm_sorted := t\<rparr>) k = hashmap_home hm k"
  "hashmap_home (hm\<lparr>hm_db_map := m\<rparr>) k = hashmap_home hm k"
  "hashmap_home (hm\<lparr>hm_datablocks := ds\<rparr>) k = hashmap_home hm k"
  "hashmap_home (hm\<lparr>hm_buckets := bs\<rparr>) k = hashmap_home hm k"
  by (simp_all add: hashmap_home_def)

lemma hm_bsize_ignores [simp]:
  "hm_bsize (hm\<lparr>hm_last_used := u\<rparr>) = hm_bsize hm" "hm_bsize (hm\<lparr>hm_stats := s\<rparr>) = hm_bsize hm"
  "hm_bsize (hm\<lparr>hm_sorted := t\<rparr>) = hm_bsize hm" "hm_bsize (hm\<lparr>hm_db_map := m\<rparr>) = hm_bsize hm"
  "hm_bsize (hm\<lparr>hm_datablocks := ds\<rparr>) = hm_bsize hm" "hm_bsize (hm\<lparr>hm_buckets := bs\<rparr>) = hm_bsize hm"
  by (simp_all add: hm_bsize_def)

lemma hm_abs_ignores [simp]:
  "hm_abs (hm\<lparr>hm_last_used := u\<rparr>) = hm_abs hm" "hm_abs (hm\<lparr>hm_stats := s\<rparr>) = hm_abs hm"
  "hm_abs (hm\<lparr>hm_sorted := t\<rparr>) = hm_abs hm" "hm_abs (hm\<lparr>hm_db_map := m\<rparr>) = hm_abs hm"
  by (simp_all add: hm_abs_def)

lemma node_wf_ignores [simp]:
  "node_wf (hm\<lparr>hm_last_used := u\<rparr>) = node_wf hm" "node_wf (hm\<lparr>hm_stats := s\<rparr>) = node_wf hm"
  "node_wf (hm\<lparr>hm_sorted := t\<rparr>) = node_wf hm" "node_wf (hm\<lparr>hm_datablocks := ds\<rparr>) = node_wf hm"
  "node_wf (hm\<lparr>hm_buckets := bs\<rparr>) = node_wf hm"
  by (auto simp: node_wf_def fun_eq_iff)

lemma hm_wf_ignores [simp]:
  "hm_wf (hm\<lparr>hm_last_used := u\<rparr>) = hm_wf hm" "hm_wf (hm\<lparr>hm_stats := s\<rparr>) = hm_wf hm"
  "hm_wf (hm\<lparr>hm_sorted := t\<rparr>) = hm_wf hm"
  by (simp_all add: hm_wf_def)

lemma add_fail_ignored [simp]: "hm_wf (add_fail hm) = hm_wf hm" "hm_abs (add_fail hm) = hm_abs hm"
  by (simp_all add: add_fail_def)

subsection \<open>The abstract state\<close>

definition hm_state :: "'v hashmap \<Rightarrow> (u8 list, 'v) kv_state" where
  "hm_state hm = \<lparr>kv_home = hashmap_home hm, kv_slots = hm_bsize hm, kv_entries = hm_abs hm,
     kv_free = card (allocm_free (hm_db_map hm))\<rparr>"

lemma hm_state_ignores [simp]:
  "hm_state (hm\<lparr>hm_last_used := u\<rparr>) = hm_state hm" "hm_state (hm\<lparr>hm_stats := s\<rparr>) = hm_state hm"
  "hm_state (hm\<lparr>hm_sorted := t\<rparr>) = hm_state hm" "hm_state (add_fail hm) = hm_state hm"
  by (simp_all add: hm_state_def add_fail_def fun_eq_iff)

text \<open>The entries of a bucket are the keys that belong to it.\<close>

lemma bucket_entries:
  assumes wf: "hm_wf hm"
  shows "card {x \<in> dom (hm_abs hm). hashmap_home hm x = hashmap_home hm k} =
    da_current (hm_buckets hm ! hashmap_home hm k)"
proof -
  let ?i = "hashmap_home hm k"
  let ?b = "hm_buckets hm ! ?i"
  have i: "?i < length (hm_buckets hm)" "bucket_wf (hm_bsize hm) (has_flag (hm_flags hm) RCSW_DS_SORTED) ?b"
    using hm_wf_bucket [OF wf] by simp_all
  have len: "length (da_content ?b) = da_current ?b"
    using i(2) by (simp add: bucket_wf_def da_wf_def da_content_def)
  have "hm_buckets hm = take ?i (hm_buckets hm) @ ?b # drop (Suc ?i) (hm_buckets hm)"
    using i(1) by (simp add: id_take_nth_drop)
  then have "hm_nodes hm = concat (map da_content (take ?i (hm_buckets hm))) @ da_content ?b @
      concat (map da_content (drop (Suc ?i) (hm_buckets hm)))"
    by (metis concat.simps(2) concat_append hm_nodes_def list.simps(9) map_append)
  moreover have "distinct (map hn_key (hm_nodes hm))" using wf by (simp add: hm_wf_def)
  ultimately have d: "distinct (map hn_key (da_content ?b))" by (metis distinct_append map_append)
  have "{x \<in> dom (hm_abs hm). hashmap_home hm x = ?i} = hn_key ` set (da_content ?b)"
  proof (intro equalityI subsetI)
    fix x assume x: "x \<in> {x \<in> dom (hm_abs hm). hashmap_home hm x = ?i}"
    then obtain n where "n \<in> set (hm_nodes hm)" "hn_key n = x"
      using hm_abs_None [of hm x] by auto
    then show "x \<in> hn_key ` set (da_content ?b)" using hm_wf_home [OF wf, of n] x by auto
  next
    fix x assume "x \<in> hn_key ` set (da_content ?b)"
    then obtain n where n: "n \<in> set (da_content ?b)" "hn_key n = x" by blast
    then have "n \<in> set (hm_nodes hm)" using i(1) by (auto simp: set_hm_nodes)
    moreover have "hashmap_home hm x = ?i" using n wf i(1) by (auto simp: hm_wf_def)
    ultimately show "x \<in> {x \<in> dom (hm_abs hm). hashmap_home hm x = ?i}"
      using n(2) hm_abs_None [of hm x] by auto
  qed
  then show ?thesis using distinct_card [OF d] len by simp
qed

lemma kv_full_state:
  assumes "hm_wf hm"
  shows "kv_full (hm_state hm) k \<longleftrightarrow> darray_isfull (hm_buckets hm ! hashmap_home hm k)"
proof -
  let ?b = "hm_buckets hm ! hashmap_home hm k"
  have b: "da_wf ?b" "da_max_elts ?b = int (hm_bsize hm)" "0 < hm_bsize hm"
    using hm_wf_bucket(2) [OF assms, of k] by (simp_all add: bucket_wf_def)
  then have "da_current ?b \<le> hm_bsize hm" by (auto simp: da_wf_def)
  then show ?thesis
    using darray_isfull_iff [OF b(1)] b(2) bucket_entries [OF assms, of k]
    by (auto simp: kv_full_def hm_state_def)
qed

subsection \<open>Sorting the buckets\<close>

lemma hm_wf_rebucket:
  assumes wf: "hm_wf hm" and len: "length bs = hm_n_buckets hm"
    and b: "\<And>i. i < hm_n_buckets hm \<Longrightarrow> bucket_wf (hm_bsize hm) (has_flag (hm_flags hm) RCSW_DS_SORTED) (bs ! i) \<and>
      mset (da_content (bs ! i)) = mset (da_content (hm_buckets hm ! i))"
  shows "hm_wf (hm\<lparr>hm_buckets := bs\<rparr>) \<and> hm_abs (hm\<lparr>hm_buckets := bs\<rparr>) = hm_abs hm"
proof -
  let ?hm = "hm\<lparr>hm_buckets := bs\<rparr>"
  have l: "length (hm_buckets hm) = hm_n_buckets hm" using wf by (simp add: hm_wf_def)
  have "map (\<lambda>b. mset (da_content b)) bs = map (\<lambda>b. mset (da_content b)) (hm_buckets hm)"
    using b len l by (intro nth_equalityI) auto
  then have m: "mset (hm_nodes ?hm) = mset (hm_nodes hm)"
    by (simp add: hm_nodes_def mset_concat comp_def)
  have s: "set (hm_nodes ?hm) = set (hm_nodes hm)" using mset_eq_setD [OF m] .
  have d: "distinct (map f (hm_nodes ?hm)) = distinct (map f (hm_nodes hm))" for f :: "hashnode \<Rightarrow> 'c"
    using m by (intro mset_eq_imp_distinct_iff) (simp only: mset_map)
  have c: "set (da_content (bs ! i)) = set (da_content (hm_buckets hm ! i))" if "i < hm_n_buckets hm" for i
    using b [OF that] mset_eq_setD by blast
  have w: "\<forall>b \<in> set bs. bucket_wf (hm_bsize hm) (has_flag (hm_flags hm) RCSW_DS_SORTED) b"
    using b len by (metis in_set_conv_nth)
  have wf': "hm_wf ?hm" using wf len w c s by (simp add: hm_wf_def d)
  moreover have "hm_abs ?hm = hm_abs hm"
    using wf wf' s by (intro hm_abs_eqI) (auto simp: hm_wf_def)
  ultimately show ?thesis by simp
qed

lemma bucket_sort:
  assumes "bucket_wf bs True b"
  shows "\<exists>b'. darray_sort b EXEC_ITER = Some (OK, b') \<and> bucket_wf bs True b' \<and>
    mset (da_content b') = mset (da_content b)"
proof -
  obtain es t where "darray_sort b EXEC_ITER = Some (OK, b\<lparr>da_elements := es, da_sorted := t\<rparr>)"
    "length es = length (da_elements b)" "mset (take (da_current b) es) = mset (da_content b)"
    "sorted_cmp hashnode_cmp (take (da_current b) es)"
    using darray_sort_iter [OF _ _ hn.cmp_order_axioms, of b EXEC_ITER] assms fits_mono [of 80 bs "da_current b"]
    by (auto simp: bucket_wf_def da_wf_def)
  then show ?thesis using assms by (auto simp: bucket_wf_def da_wf_def da_content_def)
qed

lemma hashmap_sort_ok:
  assumes wf: "hm_wf hm" and srt: "has_flag (hm_flags hm) RCSW_DS_SORTED"
  shows "\<exists>hm'. hashmap_sort hm = Some (OK, hm') \<and> hm_wf hm' \<and> hm_state hm' = hm_state hm \<and>
    hm_n_buckets hm' = hm_n_buckets hm"
proof -
  let ?n = "hm_n_buckets hm"
  let ?P = "\<lambda>(k::nat) bs. length bs = ?n \<and> (\<forall>i < ?n. bucket_wf (hm_bsize hm) True (bs ! i) \<and>
      mset (da_content (bs ! i)) = mset (da_content (hm_buckets hm ! i)))"
  have "\<exists>bs. for_range 0 ?n (\<lambda>i bs. do { b \<leftarrow> rd bs (int i); (_, b1) \<leftarrow> darray_sort b EXEC_ITER;
      wr bs (int i) b1 }) (hm_buckets hm) = Some bs \<and> ?P ?n bs"
  proof (rule for_range_inv [where P = ?P])
    show "?P 0 (hm_buckets hm)" using wf srt by (simp add: hm_wf_def)
    fix k bs assume k: "k < ?n" and P: "?P k bs"
    then obtain b' where "darray_sort (bs ! k) EXEC_ITER = Some (OK, b')" "bucket_wf (hm_bsize hm) True b'"
      "mset (da_content b') = mset (da_content (bs ! k))" using bucket_sort by blast
    then show "\<exists>t'. (do { b \<leftarrow> rd bs (int k); (_, b1) \<leftarrow> darray_sort b EXEC_ITER;
      wr bs (int k) b1 }) = Some t' \<and> ?P (Suc k) t'"
      using k P by (auto simp: nth_list_update)
  qed simp
  then obtain bs where bs: "for_range 0 ?n (\<lambda>i bs. do { b \<leftarrow> rd bs (int i);
      (_, b1) \<leftarrow> darray_sort b EXEC_ITER; wr bs (int i) b1 }) (hm_buckets hm) = Some bs" "?P ?n bs"
    by blast
  then have "hashmap_sort hm = Some (OK, hm\<lparr>hm_buckets := bs, hm_sorted := True\<rparr>)"
    by (simp add: hashmap_sort_def)
  moreover have "hm_wf (hm\<lparr>hm_buckets := bs\<rparr>) \<and> hm_abs (hm\<lparr>hm_buckets := bs\<rparr>) = hm_abs hm"
    using bs(2) srt by (intro hm_wf_rebucket [OF wf]) auto
  ultimately show ?thesis by (simp add: hm_state_def fun_eq_iff)
qed

subsection \<open>Storing and dropping a node\<close>

lemma hm_wf_fill:
  assumes wf: "hm_wf hm" and d: "d \<in> allocm_free (hm_db_map hm)"
    and m: "length m = length (hm_db_map hm)" "allocm_free m = allocm_free (hm_db_map hm) - {d}"
  shows "hm_wf (hm\<lparr>hm_db_map := m, hm_datablocks := (hm_datablocks hm)[d := v]\<rparr>) \<and>
    hm_abs (hm\<lparr>hm_db_map := m, hm_datablocks := (hm_datablocks hm)[d := v]\<rparr>) = hm_abs hm \<and>
    (\<forall>n \<in> set (hm_nodes hm). hn_data n \<noteq> Some d)"
proof -
  let ?hm = "hm\<lparr>hm_db_map := m, hm_datablocks := (hm_datablocks hm)[d := v]\<rparr>"
  have n: "node_wf hm n" if "n \<in> set (hm_nodes hm)" for n using wf that by (simp add: hm_wf_def)
  have nd: "\<forall>n \<in> set (hm_nodes hm). hn_data n \<noteq> Some d"
    using n d by (fastforce simp: node_wf_def)
  have n': "\<forall>n \<in> set (hm_nodes hm). node_wf ?hm n"
    using n m by (fastforce simp: node_wf_def)
  have wf': "hm_wf ?hm" using wf m(1) n' by (simp add: hm_wf_def)
  have "hm_abs ?hm = hm_abs hm"
  proof (rule hm_abs_eqI)
    fix n assume a: "n \<in> set (hm_nodes hm)"
    obtain e where "hn_data n = Some e" using n [OF a] by (auto simp: node_wf_def)
    then show "hm_datablocks ?hm ! the (hn_data n) = hm_datablocks hm ! the (hn_data n)"
      using nd a by auto
  qed (use wf wf' in \<open>auto simp: hm_wf_def\<close>)
  with wf' nd show ?thesis by simp
qed

lemma hm_abs_insert:
  assumes "distinct (map hn_key (hm_nodes hm))" and "distinct (map hn_key (hm_nodes hm'))"
    and "set (hm_nodes hm') = insert n (set (hm_nodes hm))" and "hm_abs hm (hn_key n) = None"
    and "hm_datablocks hm' = hm_datablocks hm"
  shows "hm_abs hm' = (hm_abs hm)(hn_key n \<mapsto> hm_datablocks hm ! the (hn_data n))"
proof
  fix k
  let ?M = "(hm_abs hm)(hn_key n \<mapsto> hm_datablocks hm ! the (hn_data n))"
  have "hm_abs hm' k = Some v \<longleftrightarrow> ?M k = Some v" for v
  proof (cases "k = hn_key n")
    case True
    moreover have "\<forall>x \<in> set (hm_nodes hm). hn_key x \<noteq> k"
      using assms(4) True by (metis hm_abs_None image_eqI)
    ultimately show ?thesis unfolding hm_abs_Some [OF assms(2)] assms(3,5) by auto
  next
    case False
    then show ?thesis
      by (auto simp: hm_abs_Some [OF assms(2)] hm_abs_Some [OF assms(1)] assms(3,5))
  qed
  then show "hm_abs hm' k = ?M k" by (metis not_None_eq)
qed

lemma hm_wf_put:
  assumes wf: "hm_wf hm" and i: "hashmap_home hm (hn_key n) = i"
    and b: "bucket_wf (hm_bsize hm) (has_flag (hm_flags hm) RCSW_DS_SORTED) b"
      "mset (da_content b) = add_mset n (mset (da_content (hm_buckets hm ! i)))"
    and new: "hm_abs hm (hn_key n) = None" "node_wf hm n" "\<forall>x \<in> set (hm_nodes hm). hn_data x \<noteq> hn_data n"
  defines "hm' \<equiv> hm\<lparr>hm_buckets := (hm_buckets hm)[i := b]\<rparr>"
  shows "hm_wf hm' \<and> hm_abs hm' = (hm_abs hm)(hn_key n \<mapsto> hm_datablocks hm ! the (hn_data n))"
proof -
  have l: "i < length (hm_buckets hm)" "length (hm_buckets hm) = hm_n_buckets hm"
    using hm_wf_bucket(1) [OF wf, of "hn_key n"] i wf by (auto simp: hm_wf_def)
  have m: "mset (hm_nodes hm') = add_mset n (mset (hm_nodes hm))"
    using hm_nodes_update [OF l(1), of b] b(2) by (simp add: hm'_def)
  have s: "set (hm_nodes hm') = insert n (set (hm_nodes hm))"
    using arg_cong [OF m, of set_mset] by simp
  have k: "hn_key n \<notin> hn_key ` set (hm_nodes hm)" using new(1) by (simp add: hm_abs_None)
  have d: "distinct (map f (hm_nodes hm')) = distinct (map f (n # hm_nodes hm))" for f :: "hashnode \<Rightarrow> 'c"
    using m by (intro mset_eq_imp_distinct_iff) (simp only: mset_map mset.simps)
  have dk: "distinct (map hn_key (hm_nodes hm'))" "distinct (map hn_data (hm_nodes hm'))"
    using wf k new(3) by (auto simp: d hm_wf_def)
  have bs: "\<forall>b \<in> set (hm_buckets hm'). bucket_wf (hm_bsize hm) (has_flag (hm_flags hm) RCSW_DS_SORTED) b"
    using wf b(1) set_update_subset_insert [of "hm_buckets hm" i b] by (auto simp: hm_wf_def hm'_def)
  have "set (da_content b) = insert n (set (da_content (hm_buckets hm ! i)))"
    using arg_cong [OF b(2), of set_mset] by simp
  then have h: "\<forall>j < hm_n_buckets hm. \<forall>x \<in> set (da_content (hm_buckets hm' ! j)). hashmap_home hm (hn_key x) = j"
    using wf i l by (auto simp: hm_wf_def hm'_def nth_list_update)
  have wf': "hm_wf hm'"
    using wf dk bs h s new(2) unfolding hm_wf_def by (simp add: hm'_def)
  have "hm_abs hm' = (hm_abs hm)(hn_key n \<mapsto> hm_datablocks hm ! the (hn_data n))"
    by (rule hm_abs_insert) (use wf s dk(1) new(1) in \<open>auto simp: hm_wf_def hm'_def\<close>)
  with wf' show ?thesis by simp
qed

lemma hm_wf_drop:
  assumes wf: "hm_wf hm" and i: "hashmap_home hm (hn_key n) = i"
    and b: "bucket_wf (hm_bsize hm) (has_flag (hm_flags hm) RCSW_DS_SORTED) b"
      "add_mset n (mset (da_content b)) = mset (da_content (hm_buckets hm ! i))"
    and d: "hn_data n = Some d" and m: "length m = length (hm_db_map hm)"
      "allocm_free m = insert d (allocm_free (hm_db_map hm))"
  defines "hm' \<equiv> hm\<lparr>hm_db_map := m, hm_buckets := (hm_buckets hm)[i := b]\<rparr>"
  shows "hm_wf hm' \<and> hm_abs hm' = (hm_abs hm)(hn_key n := None)"
proof -
  have l: "i < length (hm_buckets hm)" "length (hm_buckets hm) = hm_n_buckets hm"
    using hm_wf_bucket(1) [OF wf, of "hn_key n"] i wf by (auto simp: hm_wf_def)
  have m': "add_mset n (mset (hm_nodes hm')) = mset (hm_nodes hm)"
    using hm_nodes_update [OF l(1), of b] b(2) [symmetric] by (simp add: hm'_def hm_nodes_def)
  have s: "set (hm_nodes hm) = insert n (set (hm_nodes hm'))"
    using arg_cong [OF m', of set_mset] by simp
  have e: "distinct (map f (n # hm_nodes hm')) = distinct (map f (hm_nodes hm))" for f :: "hashnode \<Rightarrow> 'c"
    using m' by (intro mset_eq_imp_distinct_iff) (simp only: mset_map mset.simps)
  have dk: "distinct (map hn_key (hm_nodes hm'))" "hn_key n \<notin> hn_key ` set (hm_nodes hm')"
    and dd: "distinct (map hn_data (hm_nodes hm'))" "hn_data n \<notin> hn_data ` set (hm_nodes hm')"
    using wf e [of hn_key] e [of hn_data] by (auto simp: hm_wf_def)
  have bs: "\<forall>b \<in> set (hm_buckets hm'). bucket_wf (hm_bsize hm) (has_flag (hm_flags hm) RCSW_DS_SORTED) b"
    using wf b(1) set_update_subset_insert [of "hm_buckets hm" i b] by (auto simp: hm_wf_def hm'_def)
  have "set (da_content b) \<subseteq> set (da_content (hm_buckets hm ! i))"
    using arg_cong [OF b(2), of set_mset] by auto
  then have h: "\<forall>j < hm_n_buckets hm. \<forall>x \<in> set (da_content (hm_buckets hm' ! j)). hashmap_home hm (hn_key x) = j"
    using wf i l by (auto simp: hm_wf_def hm'_def nth_list_update)
  have n: "node_wf hm' x" if "x \<in> set (hm_nodes hm')" for x
  proof -
    have "node_wf hm x" using wf s that by (simp add: hm_wf_def)
    moreover have "hn_data x \<noteq> Some d" using dd(2) d that by force
    ultimately show ?thesis using m by (auto simp: node_wf_def hm'_def)
  qed
  have wf': "hm_wf hm'"
    using wf dk(1) dd(1) bs h n m(1) unfolding hm_wf_def by (simp add: hm'_def)
  have a: "hm_abs hm' (hn_key n) = None" using dk(2) by (simp add: hm_abs_None)
  have "hm_abs hm = (hm_abs hm')(hn_key n \<mapsto> hm_datablocks hm' ! the (hn_data n))"
    by (rule hm_abs_insert) (use wf s dk(1) a in \<open>auto simp: hm_wf_def hm'_def\<close>)
  then have "hm_abs hm' = (hm_abs hm)(hn_key n := None)" using a by (simp add: fun_upd_idem)
  with wf' show ?thesis by simp
qed

subsection \<open>Adding a key\<close>

lemma hashmap_db_alloc_cases:
  assumes "hm_wf hm"
  shows "hashmap_db_alloc rnd hm = Some (None, hm) \<and> allocm_free (hm_db_map hm) = {} \<or>
    (\<exists>d m. hashmap_db_alloc rnd hm = Some (Some d, hm\<lparr>hm_db_map := m\<rparr>) \<and>
       d \<in> allocm_free (hm_db_map hm) \<and> d < hm_max_elts hm \<and> length m = length (hm_db_map hm) \<and>
       allocm_free m = allocm_free (hm_db_map hm) - {d})"
proof -
  have w: "0 < hm_max_elts hm" "length (hm_db_map hm) = hm_max_elts hm" "hm_max_elts hm < 2 ^ 31"
    using assms by (auto simp: hm_wf_def)
  have "length (u32_bytes rnd) = 4" by (simp add: u32_bytes_def)
  then obtain h where h: "hash_fnv1a (Some (u32_bytes rnd)) 4 = Some h" using hash_fnv1a_4 by blast
  have "unat h mod hm_max_elts hm < hm_max_elts hm" using w(1) by simp
  from allocm_probe_cases [OF w(2) this w(3)] show ?thesis
  proof
    assume "\<exists>i. allocm_probe (hm_db_map hm) (hm_max_elts hm) (unat h mod hm_max_elts hm) = Some (int i) \<and>
      i \<in> allocm_free (hm_db_map hm)"
    then obtain i where i: "allocm_probe (hm_db_map hm) (hm_max_elts hm) (unat h mod hm_max_elts hm) = Some (int i)"
      "i \<in> allocm_free (hm_db_map hm)" by blast
    obtain m where "allocm_mark_inuse (hm_db_map hm) (int i) = Some m" "length m = length (hm_db_map hm)"
      "allocm_free m = allocm_free (hm_db_map hm) - {i}" using allocm_mark_inuse_free [OF i(2)] by blast
    moreover have "hashmap_db_alloc rnd hm = Some (Some i, hm\<lparr>hm_db_map := m\<rparr>)"
      using i w h calculation(1) by (simp add: hashmap_db_alloc_def)
    moreover have "i < hm_max_elts hm" using i(2) w by (simp add: allocm_free_def)
    ultimately show ?thesis using i(2) by blast
  qed (use h w in \<open>simp add: hashmap_db_alloc_def\<close>)
qed

lemma bucket_insert:
  assumes "bucket_wf bs srt b" and "\<not> darray_isfull b"
  shows "\<exists>b'. darray_insert b (Some n) (da_current b) None = Some (OK, b') \<and> bucket_wf bs srt b' \<and>
    mset (da_content b') = add_mset n (mset (da_content b))"
proof -
  have w: "da_wf b" "da_max_elts b \<noteq> -1" using assms(1) by (auto simp: bucket_wf_def)
  have "int (da_current b) < da_max_elts b"
    using darray_isfull_iff [OF w] assms w by (auto simp: bucket_wf_def da_wf_def)
  then have room: "da_has_room b None" "da_cmp_ok b"
    using assms w hn.cmp_order_axioms fits_mono [of 80 bs "Suc (da_current b)"]
    by (auto simp: bucket_wf_def da_has_room_def da_cmp_ok_def da_wf_def)
  obtain b' where b': "darray_insert b (Some n) (da_current b) None = Some (OK, b')" "da_wf b'"
    "b' = b\<lparr>da_elements := da_elements b', da_current := da_current b',
            da_capacity := da_capacity b', da_sorted := da_sorted b'\<rparr>"
    and c: "if has_flag (da_flags b) RCSW_DS_SORTED
      then mset (da_content b') = add_mset n (mset (da_content b)) \<and>
           sorted_cmp (the (da_cmpe b)) (da_content b')
      else da_content b' = ins_result b (da_current b) n"
    using darray_insert_ok [OF w(1) _ room(1), of "da_current b" n] room(2) by blast
  have f: "da_cmpe b' = da_cmpe b" "da_flags b' = da_flags b" "da_max_elts b' = da_max_elts b"
    "da_elt_size b' = da_elt_size b"
    by (subst b'(3); simp)+
  have len: "length (da_content b) = da_current b" using w(1) by (simp add: da_wf_def da_content_def)
  have "da_capacity b' = da_capacity b \<and> (\<not> srt \<longrightarrow> da_sorted b' = da_sorted b)"
    using b'(1) assms by (auto simp: darray_insert_def bucket_wf_def darray_extend_def darray_sort_def
        Let_def split: if_splits option.splits prod.splits bind_splits)
  then show ?thesis using b' c f len assms(1)
    by (auto simp: bucket_wf_def ins_result_def split: if_splits)
qed

lemma add_account_ok:
  assumes wf: "hm_wf hm" and i: "i < hm_n_buckets hm"
  shows "\<exists>hm'. add_account hm i b1 = Some (OK, hm') \<and> hm_wf hm' \<and> hm_state hm' = hm_state hm"
proof -
  define hm1 where "hm1 = hm\<lparr>hm_stats := (hm_stats hm)
      \<lparr>hs_n_collisions := hs_n_collisions (hm_stats hm) + (if da_current b1 \<noteq> 1 then 1 else 0),
       hs_n_nodes := hs_n_nodes (hm_stats hm) + 1, hs_n_adds := hs_n_adds (hm_stats hm) + 1\<rparr>\<rparr>"
  let ?srt = "has_flag (hm_flags hm1) RCSW_DS_SORTED \<and> hm_sort_thresh hm1 \<noteq> -1 \<and>
       hs_n_adds (hm_stats hm1) mod size_of_int (hm_sort_thresh hm1) = 0"
  have wf1: "hm_wf hm1" "hm_state hm1 = hm_state hm" "hm_n_buckets hm1 = hm_n_buckets hm"
    using wf by (simp_all add: hm1_def)
  obtain hm2 where hm2: "(if ?srt then map_option snd (hashmap_sort hm1) else Some hm1) = Some hm2"
    "hm_wf hm2" "hm_state hm2 = hm_state hm" "hm_n_buckets hm2 = hm_n_buckets hm"
    using hashmap_sort_ok [OF wf1(1)] wf1 by (cases ?srt) auto
  have "i < length (hm_buckets hm2)" using hm2(2,4) i by (simp add: hm_wf_def)
  then have "add_account hm i b1 = Some (OK, hm2\<lparr>hm_sorted := da_sorted (hm_buckets hm2 ! i)\<rparr>)"
    using hm2(1) unfolding add_account_def Let_def hm1_def [symmetric] by simp
  then show ?thesis using hm2 by simp
qed

lemma add_store_ok:
  assumes wf: "hm_wf hm" and i: "hashmap_home hm (hn_key n) = i"
    and room: "\<not> darray_isfull (hm_buckets hm ! i)"
    and n: "node_wf hm n" "\<forall>x \<in> set (hm_nodes hm). hn_data x \<noteq> hn_data n"
    and v: "hm_datablocks hm ! the (hn_data n) = v"
  shows "\<exists>s hm'. add_store hm i n = Some (s, hm') \<and> hm_wf hm' \<and>
    (s = OK \<longleftrightarrow> hm_abs hm (hn_key n) = None) \<and>
    hm_state hm' = (if s = OK then (hm_state hm)\<lparr>kv_entries := (hm_abs hm)(hn_key n \<mapsto> v)\<rparr>
      else hm_state hm)"
proof -
  let ?b = "hm_buckets hm ! i"
  have b: "bucket_wf (hm_bsize hm) (has_flag (hm_flags hm) RCSW_DS_SORTED) ?b" "i < length (hm_buckets hm)"
    "i < hm_n_buckets hm"
    using hm_wf_bucket [OF wf, of "hn_key n"] i wf by (auto simp: hm_wf_def)
  consider "darray_idx_query ?b (Some n) = Some (-1)" "hm_abs hm (hn_key n) = None"
    | j where "darray_idx_query ?b (Some n) = Some (int j)" "hm_abs hm (hn_key n) \<noteq> None"
    using bucket_query [OF wf, of n] i by auto
  then show ?thesis
  proof cases
    case 2
    then show ?thesis using b(2) wf by (simp add: add_store_def)
  next
    case 1
    obtain b1 where b1: "darray_insert ?b (Some n) (da_current ?b) None = Some (OK, b1)"
      "bucket_wf (hm_bsize hm) (has_flag (hm_flags hm) RCSW_DS_SORTED) b1"
      "mset (da_content b1) = add_mset n (mset (da_content ?b))"
      using bucket_insert [OF b(1) room, of n] by blast
    let ?hm = "hm\<lparr>hm_buckets := (hm_buckets hm)[i := b1]\<rparr>"
    have put: "hm_wf ?hm" "hm_abs ?hm = (hm_abs hm)(hn_key n \<mapsto> v)"
      using hm_wf_put [OF wf i b1(2,3) 1(2) n] v by simp_all
    obtain hm' where "add_account ?hm i b1 = Some (OK, hm')" "hm_wf hm'" "hm_state hm' = hm_state ?hm"
      using add_account_ok [OF put(1), of i b1] b(3) by auto
    moreover have "hm_state ?hm = (hm_state hm)\<lparr>kv_entries := (hm_abs hm)(hn_key n \<mapsto> v)\<rparr>"
      using put(2) by (simp add: hm_state_def fun_eq_iff)
    ultimately show ?thesis using b(2) b1(1) 1 by (simp add: add_store_def Let_def)
  qed
qed

text \<open>With room in the bucket an addition fails without a free datablock, or on a duplicate.\<close>

lemma add_node_ok:
  assumes wf: "hm_wf hm" and i: "hashmap_home hm k = i" and room: "\<not> darray_isfull (hm_buckets hm ! i)"
  shows "\<exists>s hm'. add_node rnd hm i k hash (Some v) = Some (s, hm') \<and> hm_wf hm' \<and>
    kv_step (Put k v) (hm_state hm) = (Done (s = OK), hm_state hm')"
proof -
  have nf: "\<not> kv_full (hm_state hm) k" using kv_full_state [OF wf] i room by simp
  have st: "kv_free (hm_state hm) = card (allocm_free (hm_db_map hm))" "kv_entries (hm_state hm) = hm_abs hm"
    by (simp_all add: hm_state_def)
  consider "hashmap_db_alloc rnd hm = Some (None, hm)" "allocm_free (hm_db_map hm) = {}"
    | d m where "hashmap_db_alloc rnd hm = Some (Some d, hm\<lparr>hm_db_map := m\<rparr>)"
      "d \<in> allocm_free (hm_db_map hm)" "d < hm_max_elts hm" "length m = length (hm_db_map hm)"
      "allocm_free m = allocm_free (hm_db_map hm) - {d}"
    using hashmap_db_alloc_cases [OF wf] by blast
  then show ?thesis
  proof cases
    case 1
    then show ?thesis using wf st by (simp add: add_node_def)
  next
    case 2
    define hm2 where "hm2 = hm\<lparr>hm_db_map := m, hm_datablocks := (hm_datablocks hm)[d := v]\<rparr>"
    define n where "n = \<lparr>hn_key = k, hn_data = Some d, hn_hash = hash\<rparr>"
    have wf2: "hm_wf hm2" and abs2: "hm_abs hm2 = hm_abs hm"
      and nd: "\<forall>x \<in> set (hm_nodes hm2). hn_data x \<noteq> hn_data n"
      using hm_wf_fill [OF wf 2(2,4,5), of v] by (simp_all add: hm2_def n_def)
    have d: "d < length (hm_datablocks hm)" using wf 2(3) by (simp add: hm_wf_def)
    have "node_wf hm2 n" using 2(3,5) by (simp add: node_wf_def n_def hm2_def)
    moreover have "hashmap_home hm2 (hn_key n) = i" "\<not> darray_isfull (hm_buckets hm2 ! i)"
      using i room by (simp_all add: hm2_def n_def)
    moreover have "hm_datablocks hm2 ! the (hn_data n) = v" using d by (simp add: hm2_def n_def)
    ultimately obtain s hm' where s: "add_store hm2 i n = Some (s, hm')" "hm_wf hm'"
        "s = OK \<longleftrightarrow> hm_abs hm k = None"
        "hm_state hm' = (if s = OK then (hm_state hm2)\<lparr>kv_entries := (hm_abs hm)(k \<mapsto> v)\<rparr> else hm_state hm2)"
      using add_store_ok [OF wf2, of n i v] nd abs2 by (auto simp: n_def)
    have c: "card (allocm_free (hm_db_map hm)) = Suc (card (allocm_free m))"
      using card.remove [OF finite_allocm_free 2(2)] 2(5) by simp
    have "hm_state hm2 = (hm_state hm)\<lparr>kv_free := kv_free (hm_state hm) - 1\<rparr>"
      using abs2 c by (simp add: hm_state_def hm2_def fun_eq_iff)
    then have "kv_step (Put k v) (hm_state hm) = (Done (s = OK), hm_state hm')"
      using nf st c s(3,4) by simp
    moreover have "add_node rnd hm i k hash (Some v) = Some (s, hm')"
      using 2(1) d s(1) by (simp add: add_node_def n_def hm2_def)
    ultimately show ?thesis using s(2) by blast
  qed
qed

lemma hashmap_add_ok:
  assumes "hm_wf hm" and "length k = RCSW_HASHMAP_KEYSIZE"
  shows "\<exists>s hm'. hashmap_add dsz rnd hm (Some k) (Some v) = Some (s, hm') \<and> hm_wf hm' \<and>
    kv_step (Put k v) (hm_state hm) = (Done (s = OK), hm_state hm')"
proof -
  let ?hm = "hm\<lparr>hm_last_used := Some (hashmap_home hm k)\<rparr>"
  obtain hash where q: "hashmap_query hm k = (hash, hashmap_home hm k)"
    using hashmap_query_home [of hm k] by (cases "hashmap_query hm k") simp
  have b: "hashmap_home hm k < length (hm_buckets hm)" using hm_wf_bucket(1) [OF assms(1)] .
  have np: "\<not> has_flag (hm_flags hm) RCSW_DS_HASHMAP_LINPROB" using assms(1) by (simp add: hm_wf_def)
  show ?thesis
  proof (cases "darray_isfull (hm_buckets hm ! hashmap_home hm k)")
    case True
    then show ?thesis using assms b np q kv_full_state [OF assms(1), of k]
      by (simp add: hashmap_add_def add_bucket_def)
  next
    case False
    then have "hashmap_add dsz rnd hm (Some k) (Some v) = add_node rnd ?hm (hashmap_home hm k) k hash (Some v)"
      using assms b q by (simp add: hashmap_add_def add_bucket_def)
    then show ?thesis using add_node_ok [of ?hm k "hashmap_home hm k" rnd hash v] assms(1) False by simp
  qed
qed

subsection \<open>Removing a key\<close>

lemma sorted_cmp_del_ordered:
  assumes "sorted_cmp cmpe xs"
  shows "sorted_cmp cmpe (del_ordered xs i)"
proof -
  let ?P = "\<lambda>x y. cmpe x y \<le> 0"
  have "sorted_wrt ?P (take i xs @ drop i xs)" using assms by (simp add: sorted_cmp_def)
  then have s: "sorted_wrt ?P (take i xs)" "sorted_wrt ?P (drop i xs)"
    "\<forall>x \<in> set (take i xs). \<forall>y \<in> set (drop i xs). ?P x y"
    unfolding sorted_wrt_append by simp_all
  have "drop (Suc i) xs = drop 1 (drop i xs)" by simp
  then have d: "sorted_wrt ?P (drop (Suc i) xs)" "set (drop (Suc i) xs) \<subseteq> set (drop i xs)"
    using sorted_wrt_drop [OF s(2), of 1] set_drop_subset [of 1 "drop i xs"] by simp_all
  show ?thesis using s(1,3) d unfolding sorted_cmp_def del_ordered_def sorted_wrt_append by blast
qed

lemma darray_remove_capacity:
  assumes "darray_remove ones b e j mem = Some (s, out, b')" and "has_flag (da_flags b) RCSW_NOALLOC_DATA"
  shows "da_capacity b' = da_capacity b"
  using assms unfolding darray_remove_def
  by (simp add: bind_eq_Some_conv Let_def split: if_splits prod.splits) auto

lemma bucket_remove:
  assumes "bucket_wf bs srt b" and "j < da_current b"
  shows "\<exists>b'. darray_remove ones b False j None = Some (OK, None, b') \<and> bucket_wf bs srt b' \<and>
    add_mset (da_content b ! j) (mset (da_content b')) = mset (da_content b)"
proof -
  have w: "da_wf b" "has_flag (da_flags b) RCSW_NOALLOC_DATA" using assms(1) by (auto simp: bucket_wf_def)
  have j: "j < length (da_content b)" using assms(2) w(1) by (simp add: da_wf_def da_content_def)
  obtain b' where b': "darray_remove ones b False j None = Some (OK, None, b')" "da_wf b'"
    "b' = b\<lparr>da_elements := da_elements b', da_current := da_current b', da_capacity := da_capacity b'\<rparr>"
    and c: "da_content b' = (if has_flag (da_flags b) RCSW_DS_SORTED
       then del_ordered (da_content b) j else del_swap (da_content b) j)"
    using darray_remove_ok [OF w(1) assms(2), of None ones False] w(2) by auto
  have f: "da_cmpe b' = da_cmpe b" "da_flags b' = da_flags b" "da_max_elts b' = da_max_elts b"
    "da_sorted b' = da_sorted b" "da_elt_size b' = da_elt_size b"
    by (subst b'(3); simp)+
  have "da_capacity b' = da_capacity b"
    using darray_remove_capacity [OF b'(1) w(2)] .
  then show ?thesis using b' c f j assms(1)
    by (auto simp: bucket_wf_def sorted_cmp_del_ordered)
qed

lemma hashmap_remove_ok:
  assumes wf: "hm_wf hm" and k: "length k = RCSW_HASHMAP_KEYSIZE"
  shows "\<exists>hm'. hashmap_remove dsz ones hm (Some k) = Some (OK, hm') \<and> hm_wf hm' \<and>
    kv_step (Del k) (hm_state hm) = (Done True, hm_state hm')"
proof -
  obtain hash where q: "hashmap_query hm k = (hash, hashmap_home hm k)"
    using hashmap_query_home [of hm k] by (cases "hashmap_query hm k") simp
  let ?i = "hashmap_home hm k" and ?b = "hm_buckets hm ! hashmap_home hm k"
  let ?n = "\<lparr>hn_key = k, hn_data = None, hn_hash = hash\<rparr>"
  have b: "?i < length (hm_buckets hm)" "bucket_wf (hm_bsize hm) (has_flag (hm_flags hm) RCSW_DS_SORTED) ?b"
    using hm_wf_bucket [OF wf] by simp_all
  have np: "\<not> has_flag (hm_flags hm) RCSW_DS_HASHMAP_LINPROB" using wf by (simp add: hm_wf_def)
  consider "darray_idx_query ?b (Some ?n) = Some (-1)" "hm_abs hm k = None"
    | j where "j < da_current ?b" "darray_idx_query ?b (Some ?n) = Some (int j)"
      "hn_key (da_content ?b ! j) = k" "da_content ?b ! j \<in> set (hm_nodes hm)"
    using bucket_query [OF wf, of ?n k] by auto
  then show ?thesis
  proof cases
    case 1
    then have "(hm_abs hm)(k := None) = hm_abs hm" by auto
    then have "kv_step (Del k) (hm_state hm) = (Done True, hm_state hm)"
      using 1(2) by (simp add: hm_state_def)
    then show ?thesis using 1 wf k q b(1) np by (simp add: hashmap_remove_def)
  next
    case 2
    let ?m = "da_content ?b ! j"
    obtain d where d: "hn_data ?m = Some d" "d < length (hm_db_map hm)"
      using wf 2(4) by (auto simp: hm_wf_def node_wf_def)
    obtain m where m: "allocm_mark_free (hm_db_map hm) (int d) = Some m" "length m = length (hm_db_map hm)"
      "allocm_free m = insert d (allocm_free (hm_db_map hm))" using allocm_mark_free_free [OF d(2)] by blast
    obtain b' where b': "darray_remove ones ?b False j None = Some (OK, None, b')"
      "bucket_wf (hm_bsize hm) (has_flag (hm_flags hm) RCSW_DS_SORTED) b'"
      "add_mset ?m (mset (da_content b')) = mset (da_content ?b)"
      using bucket_remove [OF b(2) 2(1)] by blast
    have r: "rd (da_elements ?b) (darray_data_get ?b j) = Some ?m"
      using 2(1) b(2) by (auto simp: bucket_wf_def da_wf_def da_content_def darray_data_get_def)
    let ?hm = "hm\<lparr>hm_db_map := m, hm_buckets := (hm_buckets hm)[?i := b']\<rparr>"
    have drop: "hm_wf ?hm" "hm_abs ?hm = (hm_abs hm)(k := None)"
      using hm_wf_drop [OF wf _ b'(2,3) d(1) m(2,3)] 2(3) by simp_all
    have "hm_abs hm k \<noteq> None" using 2(3,4) unfolding hm_abs_None by (metis image_eqI)
    moreover have "d \<notin> allocm_free (hm_db_map hm)" using wf 2(4) d(1) by (auto simp: hm_wf_def node_wf_def)
    then have "card (allocm_free m) = card (allocm_free (hm_db_map hm)) + 1" using m(3) by simp
    ultimately have "kv_step (Del k) (hm_state hm) = (Done True, hm_state ?hm)"
      using drop(2) by (simp add: hm_state_def fun_eq_iff del: fun_upd_apply)
    note drop(1) this
    moreover have "hashmap_remove dsz ones hm (Some k) =
        Some (OK, hm\<lparr>hm_db_map := m, hm_buckets := (hm_buckets hm)[?i := b'], hm_last_used := Some ?i,
          hm_stats := (hm_stats hm)\<lparr>hs_n_nodes := size_pred (hs_n_nodes (hm_stats hm))\<rparr>,
          hm_sorted := da_sorted b'\<rparr>)"
      using 2(2) k q b(1) np r d(1) m(1) b'(1)
      by (simp add: hashmap_remove_def hashmap_db_dealloc_def Let_def)
    ultimately show ?thesis by simp
  qed
qed

subsection \<open>The map as a key-value store\<close>

text \<open>The state of a client: the random numbers still to be drawn, and the map.\<close>

definition kv_add :: "nat \<Rightarrow> (nat \<Rightarrow> u32) \<times> 'v hashmap \<Rightarrow> u8 list \<Rightarrow> 'v \<Rightarrow>
    (bool \<times> (nat \<Rightarrow> u32) \<times> 'v hashmap) option" where
  "kv_add dsz st k v = map_option (\<lambda>(s, hm'). (s = OK, \<lambda>i. fst st (Suc i), hm'))
     (hashmap_add dsz (fst st 0) (snd st) (Some k) (Some v))"

definition kv_del :: "nat \<Rightarrow> hashnode \<Rightarrow> (nat \<Rightarrow> u32) \<times> 'v hashmap \<Rightarrow> u8 list \<Rightarrow>
    (bool \<times> (nat \<Rightarrow> u32) \<times> 'v hashmap) option" where
  "kv_del dsz ones st k = map_option (\<lambda>(s, hm'). (s = OK, fst st, hm'))
     (hashmap_remove dsz ones (snd st) (Some k))"

definition kv_get :: "nat \<Rightarrow> (nat \<Rightarrow> u32) \<times> 'v hashmap \<Rightarrow> u8 list \<Rightarrow>
    ('v option \<times> (nat \<Rightarrow> u32) \<times> 'v hashmap) option" where
  "kv_get dsz st k = map_option
     (\<lambda>(d, hm'). (map_option (\<lambda>i. hm_datablocks hm' ! i) d, fst st, hm'))
     (hashmap_data_get dsz (snd st) (Some k))"

interpretation hkv: kv_store "kv_add dsz" "kv_del dsz ones" "kv_get dsz"
  "\<lambda>st. hm_wf (snd st)" "\<lambda>k. length k = RCSW_HASHMAP_KEYSIZE" "\<lambda>st. hm_state (snd st)"
  for dsz ones
proof
  fix st :: "(nat \<Rightarrow> u32) \<times> 'v hashmap" and k :: "u8 list" and v :: 'v
  assume a: "hm_wf (snd st)" "length k = RCSW_HASHMAP_KEYSIZE"
  show "\<exists>s m'. kv_add dsz st k v = Some (s, m') \<and> hm_wf (snd m') \<and>
      kv_step (Put k v) (hm_state (snd st)) = (Done s, hm_state (snd m'))"
    using hashmap_add_ok [OF a, of dsz "fst st 0" v] by (force simp: kv_add_def simp del: kv_step.simps)
  show "\<exists>s m'. kv_del dsz ones st k = Some (s, m') \<and> hm_wf (snd m') \<and>
      kv_step (Del k) (hm_state (snd st)) = (Done s, hm_state (snd m'))"
    using hashmap_remove_ok [OF a, of dsz ones] by (force simp: kv_del_def simp del: kv_step.simps)
  obtain d hm' where "hashmap_data_get dsz (snd st) (Some k) = Some (d, hm')"
    "hm' = (snd st)\<lparr>hm_last_used := Some (hashmap_home (snd st) k)\<rparr>"
    "case d of None \<Rightarrow> hm_abs (snd st) k = None
     | Some i \<Rightarrow> i < length (hm_datablocks (snd st)) \<and> hm_abs (snd st) k = Some (hm_datablocks (snd st) ! i)"
    using hashmap_data_get_ok [OF a, of dsz] by blast
  moreover have "kv_entries (hm_state (snd st)) = hm_abs (snd st)" by (simp add: hm_state_def)
  ultimately show "\<exists>r m'. kv_get dsz st k = Some (r, m') \<and> hm_wf (snd m') \<and>
      kv_step (Get k) (hm_state (snd st)) = (Found r, hm_state (snd m'))"
    using a by (cases d) (auto simp: kv_get_def)
qed

subsection \<open>Initialisation\<close>

text \<open>A region large enough for the parameters.\<close>

definition region_fits :: "'v hashmap_params \<Rightarrow> 'v hashmap_region \<Rightarrow> bool" where
  "region_fits p r \<longleftrightarrow> length (hr_db_map r) = hmp_bsize p * hmp_n_buckets p \<and>
     length (hr_datablocks r) = hmp_bsize p * hmp_n_buckets p \<and>
     length (hr_hashnodes r) = hmp_n_buckets p \<and> (\<forall>ns \<in> set (hr_hashnodes r). length ns = hmp_bsize p)"

lemma bucket_init:
  assumes "0 < hmp_bsize p" and "hmp_bsize p < 2 ^ 31" and "length ns = hmp_bsize p"
    and "has_flag (hmp_flags p) RCSW_DS_SORTED \<longrightarrow> fits 80 (hmp_bsize p)"
  shows "\<exists>b. darray_init (Some ()) None None (Some (hashmap_bucket_params p ns)) = Some b \<and>
    bucket_wf (hmp_bsize p) (has_flag (hmp_flags p) RCSW_DS_SORTED) b \<and> da_content b = []"
  using assms
  by (cases "has_flag (hmp_flags p) RCSW_DS_SORTED")
    (simp_all add: darray_init_def hashmap_bucket_params_def rcsw_alloc_def noalloc_def
      has_flag_def flag_defs Let_def bucket_wf_def da_wf_def da_content_def)

lemma hashmap_init_ok:
  assumes ok: "0 < hmp_elt_size p" "hmp_sort_thresh p \<noteq> 0" "0 < hmp_n_buckets p"
    and bs: "0 < hmp_bsize p" "hmp_bsize p * hmp_n_buckets p < 2 ^ 31"
    and fit: "has_flag (hmp_flags p) RCSW_DS_SORTED \<longrightarrow> fits 80 (hmp_bsize p)"
    and np: "\<not> has_flag (hmp_flags p) RCSW_DS_HASHMAP_LINPROB"
    and h: "(if has_flag (hmp_flags p) RCSW_NOALLOC_HANDLE then hm_in else handle) = Some ()"
    and m: "(if has_flag (hmp_flags p) RCSW_NOALLOC_META then hmp_meta p else meta) = Some ()"
    and e: "(if has_flag (hmp_flags p) RCSW_NOALLOC_DATA then hmp_elements p else elements) = Some r"
    and r: "region_fits p r"
  shows "\<exists>hm. hashmap_init hm_in handle meta elements (Some p) = Some (Some hm) \<and> hm_wf hm \<and>
    hm_abs hm = Map.empty \<and> allocm_free (hm_db_map hm) = {0..<hmp_bsize p * hmp_n_buckets p} \<and>
    hm_hash hm = hmp_hash p \<and> hm_n_buckets hm = hmp_n_buckets p \<and> hm_bsize hm = hmp_bsize p"
proof -
  let ?n = "hmp_n_buckets p" and ?max = "hmp_bsize p * hmp_n_buckets p"
  let ?srt = "has_flag (hmp_flags p) RCSW_DS_SORTED"
  obtain db where db: "for_range 0 ?max (\<lambda>i m. allocm_mark_free m (int i)) (hr_db_map r) = Some db"
    "length db = ?max" "\<forall>i < ?max. db ! i = -1"
    using allocm_init_all_free [of ?max "hr_db_map r"] r by (auto simp: allocm_init_def region_fits_def)
  have "hmp_bsize p * 1 \<le> ?max" using ok(3) by (intro mult_le_mono2) simp
  then have b31: "hmp_bsize p < 2 ^ 31" using bs(2) by linarith
  let ?body = "\<lambda>i bs. do { nodes \<leftarrow> rd (hr_hashnodes r) (int i);
       b \<leftarrow> darray_init (Some ()) None None (Some (hashmap_bucket_params p nodes)); Some (bs @ [b]) }"
  let ?P = "\<lambda>(k::nat) bs. length bs = k \<and> (\<forall>b \<in> set bs. bucket_wf (hmp_bsize p) ?srt b \<and> da_content b = [])"
  have "\<exists>bs. for_range 0 ?n ?body [] = Some bs \<and> ?P ?n bs"
  proof (rule for_range_inv [where P = ?P])
    fix k bs assume "k < ?n" and P: "?P k bs"
    then have k: "k < length (hr_hashnodes r)" "length (hr_hashnodes r ! k) = hmp_bsize p"
      using r by (simp_all add: region_fits_def)
    obtain b where "darray_init (Some ()) None None
        (Some (hashmap_bucket_params p (hr_hashnodes r ! k))) = Some b"
      "bucket_wf (hmp_bsize p) ?srt b" "da_content b = []" using bucket_init [OF bs(1) b31 k(2) fit] by blast
    then show "\<exists>t'. ?body k bs = Some t' \<and> ?P (Suc k) t'" using k(1) P by auto
  qed simp_all
  then obtain bks where bks: "for_range 0 ?n ?body [] = Some bks" "?P ?n bks" by blast
  define hm where "hm = \<lparr>hm_hash = hmp_hash p, hm_last_used = None, hm_db_map = db,
      hm_datablocks = hr_datablocks r, hm_buckets = bks, hm_elt_size = hmp_elt_size p,
      hm_max_elts = ?max, hm_n_buckets = ?n,
      hm_stats = \<lparr>hs_n_nodes = 0, hs_n_adds = 0, hs_n_addfails = 0, hs_n_collisions = 0\<rparr>,
      hm_sort_thresh = hmp_sort_thresh p, hm_sorted = False, hm_flags = hmp_flags p\<rparr>"
  have "hashmap_init hm_in handle meta elements (Some p) = Some (Some hm)"
    using ok h m e db(1) bks(1) by (simp add: hashmap_init_def rcsw_alloc_mask Let_def hm_def)
  moreover have n: "hm_nodes hm = []" using bks(2) by (simp add: hm_nodes_def hm_def)
  moreover have "hm_wf hm"
    using ok(3) bs np db(2) r bks(2) n by (auto simp: hm_wf_def hm_def region_fits_def hm_bsize_def)
  moreover have "allocm_free db = {0..<?max}" using db by (auto simp: allocm_free_def)
  ultimately show ?thesis using ok(3) by (simp add: hm_abs_def hm_def hm_bsize_def)
qed

subsection \<open>Properties\<close>

text \<open>A map of two buckets of two slots, for strings of 64 bytes.\<close>

definition example_params :: "nat hashmap_params" where
  "example_params = \<lparr>hmp_meta = None, hmp_elements = None, hmp_elt_size = 8, hmp_flags = 0,
     hmp_hash = (\<lambda>key len. ucast (hd key)), hmp_bsize = 2, hmp_n_buckets = 2, hmp_sort_thresh = -1\<rparr>"

definition example_region :: "nat hashmap_region" where
  "example_region = \<lparr>hr_db_map = [0, 0, 0, 0], hr_datablocks = [0, 0, 0, 0],
     hr_hashnodes = replicate 2 (replicate 2 \<lparr>hn_key = [], hn_data = None, hn_hash = 0\<rparr>)\<rparr>"

definition example_key :: "u8 \<Rightarrow> u8 list" where
  "example_key c = c # replicate 63 0"

lemma example_init:
  "\<exists>hm. hashmap_init None (Some ()) (Some ()) (Some example_region) (Some example_params) =
     Some (Some hm) \<and> hm_wf hm \<and> hm_abs hm = Map.empty \<and> allocm_free (hm_db_map hm) = {0..<4} \<and>
     hm_hash hm = hmp_hash example_params \<and> hm_n_buckets hm = 2 \<and> hm_bsize hm = 2"
  using hashmap_init_ok [of example_params None "Some ()" "Some ()" "Some example_region" example_region]
  by (simp add: example_params_def example_region_def region_fits_def)

text \<open>
  C37: a map initialised over memory that fits its parameters, with any hash function, number of
  buckets and bucket size (fewer than \<open>2 ^ 31\<close> datablocks in all; less than 2 GiB in a bucket that
  is to be sorted), is well formed and empty.
\<close>

theorem hashmap_init_empty:
  assumes "0 < hmp_elt_size p" and "hmp_sort_thresh p \<noteq> 0" and "0 < hmp_n_buckets p"
    and "0 < hmp_bsize p" and "hmp_bsize p * hmp_n_buckets p < 2 ^ 31"
    and "has_flag (hmp_flags p) RCSW_DS_SORTED \<longrightarrow> fits 80 (hmp_bsize p)"
    and "\<not> has_flag (hmp_flags p) RCSW_DS_HASHMAP_LINPROB"
    and "(if has_flag (hmp_flags p) RCSW_NOALLOC_HANDLE then hm_in else handle) = Some ()"
    and "(if has_flag (hmp_flags p) RCSW_NOALLOC_META then hmp_meta p else meta) = Some ()"
    and "(if has_flag (hmp_flags p) RCSW_NOALLOC_DATA then hmp_elements p else elements) = Some r"
    and "region_fits p r"
  shows "\<exists>hm. hashmap_init hm_in handle meta elements (Some p) = Some (Some hm) \<and> hm_wf hm \<and>
    hm_abs hm = Map.empty \<and> card (allocm_free (hm_db_map hm)) = hmp_bsize p * hmp_n_buckets p"
  using hashmap_init_ok [OF assms] by auto

theorem hashmap_init_empty_witness:
  "\<exists>hm. hashmap_init None (Some ()) (Some ()) (Some example_region) (Some example_params) =
     Some (Some hm) \<and> hm_wf hm \<and> hm_abs hm = Map.empty \<and> card (allocm_free (hm_db_map hm)) = 4"
  using hashmap_init_empty [of example_params None "Some ()" "Some ()" "Some example_region" example_region]
  by (simp add: example_params_def example_region_def region_fits_def)

text \<open>
  C5: any sequence of additions, removals and lookups on a well-formed map without
  \<open>RCSW_DS_HASHMAP_LINPROB\<close>, whatever random numbers its allocations draw, never faults and
  returns what the deterministic specification \<open>kv_steps\<close> says: an addition is refused exactly
  when the key's bucket is full, no datablock is free or the key is there, a removal succeeds, a
  lookup finds the latest value; the final entries and number of free datablocks are its too.
\<close>

theorem hashmap_refines_map:
  assumes "hm_wf hm" and "\<forall>op \<in> set ops. length (kv_key op) = RCSW_HASHMAP_KEYSIZE"
  shows "\<exists>outs rnds' hm'. kv_exec (kv_add dsz) (kv_del dsz ones) (kv_get dsz) (rnds, hm) ops =
       Some (outs, rnds', hm') \<and> hm_wf hm' \<and> kv_steps ops (hm_state hm) = (outs, hm_state hm')"
  using hkv.exec_refines [of "(rnds, hm)" ops dsz ones] assms by auto

text \<open>Three keys for one bucket of two slots: the third is refused until another is removed.\<close>

definition example_ops :: "(u8 list, nat) kv_op list" where
  "example_ops = [Put (example_key 1) 5, Put (example_key 3) 6, Put (example_key 5) 7, Get (example_key 1),
     Del (example_key 1), Get (example_key 1), Put (example_key 3) 8, Put (example_key 5) 7, Get (example_key 5)]"

theorem hashmap_refines_map_witness:
  "\<exists>hm rnds' hm'. hm_wf hm \<and> kv_exec (kv_add 64) (kv_del 64 \<lparr>hn_key = [], hn_data = None, hn_hash = 0\<rparr>) (kv_get 64)
       ((\<lambda>_. 7), hm) example_ops =
       Some ([Done True, Done True, Done False, Found (Some 5), Done True, Found None, Done False,
         Done True, Found (Some 7)], rnds', hm') \<and> hm_wf hm' \<and>
     hm_abs hm' = [example_key 3 \<mapsto> 6, example_key 5 \<mapsto> 7] \<and> card (allocm_free (hm_db_map hm')) = 1"
proof -
  obtain hm :: "nat hashmap" where hm: "hm_wf hm" "hm_abs hm = Map.empty" "allocm_free (hm_db_map hm) = {0..<4}"
      "hm_hash hm = hmp_hash example_params" "hm_n_buckets hm = 2" "hm_bsize hm = 2"
    using example_init by blast
  have home: "hashmap_home hm (example_key c) = unat c mod 2" for c
    using hm(4,5) unsigned_less [of c, where 'a = nat]
    by (simp add: unsigned_ucast_eq take_bit_nat_eq_self hashmap_home_def example_params_def example_key_def)
  have st: "hm_state hm = \<lparr>kv_home = hashmap_home hm, kv_slots = 2, kv_entries = Map.empty, kv_free = 4\<rparr>"
    using hm(2,3,6) by (simp add: hm_state_def)
  have ks: "\<forall>op \<in> set example_ops. length (kv_key op) = RCSW_HASHMAP_KEYSIZE"
    by (simp add: example_ops_def example_key_def RCSW_HASHMAP_KEYSIZE_def)
  have ne: "example_key c = example_key d \<longleftrightarrow> c = d" for c d by (simp add: example_key_def)
  let ?k1 = "example_key 1" and ?k3 = "example_key 3" and ?k5 = "example_key 5"
  obtain outs rnds' hm' where run: "kv_exec (kv_add 64) (kv_del 64 \<lparr>hn_key = [], hn_data = None, hn_hash = 0\<rparr>) (kv_get 64)
       ((\<lambda>_. 7), hm) example_ops = Some (outs, rnds', hm')" "hm_wf hm'" "kv_steps example_ops (hm_state hm) = (outs, hm_state hm')"
    using hashmap_refines_map [OF hm(1) ks, of 64 "\<lparr>hn_key = [], hn_data = None, hn_hash = 0\<rparr>" "\<lambda>_. 7"] by blast
  have sets: "{x. x = ?k1 \<and> hashmap_home hm x = Suc 0} = {?k1}" "{x. x = ?k3 \<and> hashmap_home hm x = Suc 0} = {?k3}"
      "{x. (x = ?k3 \<or> x = ?k1) \<and> hashmap_home hm x = Suc 0} = {?k1, ?k3}"
      "{x. (x = ?k3 \<or> x = ?k1) \<and> x \<noteq> ?k1 \<and> hashmap_home hm x = Suc 0} = {?k3}"
    by (auto simp: home ne)
  have "kv_steps example_ops (hm_state hm) =
      ([Done True, Done True, Done False, Found (Some 5), Done True, Found None, Done False,
         Done True, Found (Some 7)],
       \<lparr>kv_home = hashmap_home hm, kv_slots = 2, kv_entries = [?k3 \<mapsto> 6, ?k5 \<mapsto> 7], kv_free = 1\<rparr>)"
    unfolding st example_ops_def
    by (simp add: kv_full_def home ne sets)
  then show ?thesis using run hm(1) by (auto simp: hm_state_def)
qed

text \<open>
  Adding a key the map already has, when its bucket has room and a datablock is free,
  fails with \<open>EAGAIN\<close> and keeps every entry, but the datablock it took is lost: the map has
  one free block fewer, and no node refers to it.
\<close>

theorem hashmap_duplicate_leaks:
  assumes "hm_wf hm" and "length k = RCSW_HASHMAP_KEYSIZE" and "hm_abs hm k \<noteq> None"
    and "\<not> darray_isfull (hm_buckets hm ! hashmap_home hm k)"
    and "allocm_free (hm_db_map hm) \<noteq> {}"
  shows "\<exists>hm'. hashmap_add dsz rnd hm (Some k) (Some v) = Some (ERROR (Some EAGAIN), hm') \<and>
    hm_abs hm' = hm_abs hm \<and> hm_nodes hm' = hm_nodes hm \<and>
    card (allocm_free (hm_db_map hm')) + 1 = card (allocm_free (hm_db_map hm))"
proof -
  let ?i = "hashmap_home hm k" and ?hm = "hm\<lparr>hm_last_used := Some (hashmap_home hm k)\<rparr>"
  obtain hash where q: "hashmap_query hm k = (hash, ?i)"
    using hashmap_query_home [of hm k] by (cases "hashmap_query hm k") simp
  have b: "?i < length (hm_buckets hm)" using hm_wf_bucket(1) [OF assms(1)] .
  have wf: "hm_wf ?hm" using assms(1) by simp
  obtain d m where a: "hashmap_db_alloc rnd ?hm = Some (Some d, ?hm\<lparr>hm_db_map := m\<rparr>)"
    "d \<in> allocm_free (hm_db_map hm)" "d < hm_max_elts hm"
    "allocm_free m = allocm_free (hm_db_map hm) - {d}"
    "length m = length (hm_db_map hm)"
    using hashmap_db_alloc_cases [OF wf, of rnd] assms(5) by auto
  define hm2 where "hm2 = ?hm\<lparr>hm_db_map := m, hm_datablocks := (hm_datablocks hm)[d := v]\<rparr>"
  define n where "n = \<lparr>hn_key = k, hn_data = Some d, hn_hash = hash\<rparr>"
  have f: "hm_wf hm2" "hm_abs hm2 = hm_abs hm" "hm_nodes hm2 = hm_nodes hm"
    using hm_wf_fill [OF wf, of d m v] a by (simp_all add: hm2_def)
  have same: "hm_buckets hm2 = hm_buckets hm" "hashmap_home hm2 k = ?i" "hm_db_map hm2 = m"
    by (simp_all add: hm2_def)
  obtain j where "darray_idx_query (hm_buckets hm ! ?i) (Some n) = Some (int j)"
    using bucket_query [OF f(1), of n k] assms(3) by (auto simp: same f(2) n_def)
  then have "add_store hm2 ?i n = Some (ERROR (Some EAGAIN), hm2)"
    using b by (simp add: add_store_def same)
  moreover have "d < length (hm_datablocks hm)" using assms(1) a(3) by (simp add: hm_wf_def)
  ultimately have "hashmap_add dsz rnd hm (Some k) (Some v) = Some (ERROR (Some EAGAIN), hm2)"
    using assms(2,4) b q a(1)
    by (simp add: hashmap_add_def add_bucket_def add_node_def n_def hm2_def)
  moreover have "card (allocm_free (hm_db_map hm2)) + 1 = card (allocm_free (hm_db_map hm))"
    using card.remove [OF finite_allocm_free a(2)] a(4) by (simp add: same)
  ultimately show ?thesis using f(2,3) by blast
qed

theorem hashmap_duplicate_leaks_witness:
  "\<exists>hm hm'. hashmap_add 64 7 hm (Some (example_key 1)) (Some (6::nat)) =
       Some (ERROR (Some EAGAIN), hm') \<and>
     hm_abs hm' = hm_abs hm \<and> hm_abs hm (example_key 1) = Some 5 \<and>
     card (allocm_free (hm_db_map hm')) + 1 = card (allocm_free (hm_db_map hm))"
proof -
  let ?hm = "\<lparr>hm_hash = (\<lambda>key len. 1), hm_last_used = None, hm_db_map = [-1, 0],
      hm_datablocks = [0, 5 :: nat],
      hm_buckets = [\<lparr>da_elements = replicate 2 \<lparr>hn_key = example_key 1, hn_data = Some 1, hn_hash = 1\<rparr>,
        da_current = 1, da_capacity = 2, da_elt_size = 80, da_sorted = False, da_max_elts = 2,
        da_flags = 3, da_cmpe = Some hashnode_cmp\<rparr>],
      hm_elt_size = 8, hm_max_elts = 2, hm_n_buckets = 1,
      hm_stats = \<lparr>hs_n_nodes = 1, hs_n_adds = 1, hs_n_addfails = 0, hs_n_collisions = 0\<rparr>,
      hm_sort_thresh = -1, hm_sorted = False, hm_flags = 0\<rparr>"
  have free: "allocm_free [- 1, 0 :: int] = {0}"
    by (auto simp: allocm_free_def less_Suc_eq)
  have w: "hm_wf ?hm"
    by (simp add: hm_wf_def hm_nodes_def da_content_def node_wf_def free bucket_wf_def da_wf_def
        hashmap_home_def has_flag_def flag_defs hm_bsize_def)
  have a: "hm_abs ?hm (example_key 1) = Some 5"
    by (simp add: hm_abs_def hm_nodes_def da_content_def)
  have k: "length (example_key 1) = RCSW_HASHMAP_KEYSIZE"
    by (simp add: example_key_def RCSW_HASHMAP_KEYSIZE_def)
  from hashmap_duplicate_leaks [OF w k, of 64 7 6] a
  show ?thesis by (fastforce simp: hashmap_home_def darray_isfull_def size_of_int_def free)
qed

end
