(* ===== verification/Dp_Table.thy ===== *)
theory Dp_Table
  imports Rcsw_Prelude
begin

text \<open>
  Tables of dynamic programs in one block of \<open>int\<close> cells, filled row by row
  (src/algorithm/edit_dist.c and lcs.c). Cell \<open>(i, j)\<close> is slot \<open>i * stride + j\<close>; two cells of
  different rows are different slots only when the stride is larger than the last column.
\<close>

definition cell :: "nat \<Rightarrow> nat \<Rightarrow> nat \<Rightarrow> int" where
  "cell stride i j = int (i * stride + j)"

text \<open>
  \<open>for (i = 0; i <= m; ++i) for (j = 0; j <= n; ++j) c[i * stride + j] = value\<close>.
\<close>

definition fill_table ::
  "nat \<Rightarrow> nat \<Rightarrow> nat \<Rightarrow> (nat \<Rightarrow> nat \<Rightarrow> int list \<Rightarrow> int option) \<Rightarrow> int list \<Rightarrow> int list option" where
  "fill_table stride m n value c =
     for_range 0 (m + 1)
       (\<lambda>i c. for_range 0 (n + 1)
          (\<lambda>j c. do { v \<leftarrow> value i j c; wr c (cell stride i j) v }) c) c"

lemma rd_cell: "rd c (cell s i j) = (if i * s + j < length c then Some (c ! (i * s + j)) else None)"
  unfolding cell_def rd_def by (simp only: of_nat_less_iff nat_int of_nat_0_le_iff simp_thms)

lemma wr_cell:
  "wr c (cell s i j) v = (if i * s + j < length c then Some (c[i * s + j := v]) else None)"
  unfolding cell_def wr_def by (simp only: of_nat_less_iff nat_int of_nat_0_le_iff simp_thms)

text \<open>A table that was filled had room for its last cell.\<close>

lemma fill_table_room:
  assumes "fill_table stride m n value c = Some c'"
  shows "m * stride + n < length c"
proof -
  let ?body = "\<lambda>i j c. do { v \<leftarrow> value i j c; wr c (cell stride i j) v }"
  have step: "length u' = length c" if "?body i j u = Some u'" "length u = length c" for i j u u'
    using that by (auto simp: bind_eq_Some_conv wr_cell split: if_splits)
  have row: "length u' = length c" if "for_range 0 k (?body i) u = Some u'" "length u = length c" for i k u u'
    using that step by (rule for_range_preserves [where P = "\<lambda>u. length u = length c"])
  obtain u where u: "for_range 0 m (\<lambda>i c. for_range 0 (n + 1) (?body i) c) c = Some u"
    "for_range 0 (Suc n) (?body m) u = Some c'"
    using for_range_last [of m "\<lambda>i c. for_range 0 (n + 1) (?body i) c" c c'] assms
    by (auto simp: fill_table_def)
  have "length u = length c"
    using u(1) refl row by (rule for_range_preserves [where P = "\<lambda>u. length u = length c"])
  moreover obtain w where w: "for_range 0 n (?body m) u = Some w" "?body m n w = Some c'"
    using for_range_last [OF u(2)] by blast
  ultimately have "length w = length c" using row by blast
  then show ?thesis using w(2) by (auto simp: bind_eq_Some_conv wr_cell split: if_splits)
qed

text \<open>Which cells a partly filled table holds.\<close>

definition filled :: "nat \<Rightarrow> nat \<Rightarrow> (nat \<Rightarrow> nat \<Rightarrow> int) \<Rightarrow> nat \<Rightarrow> nat \<Rightarrow> int list \<Rightarrow> bool" where
  "filled stride n spec i j c \<longleftrightarrow>
     (\<forall>i' j'. j' \<le> n \<longrightarrow> i' < i \<or> i' = i \<and> j' < j \<longrightarrow>
        i' * stride + j' < length c \<and> c ! (i' * stride + j') = spec i' j')"

lemma filled_rd:
  assumes "filled s n spec i j c" and "j' \<le> n" and "i' < i \<or> i' = i \<and> j' < j"
  shows "rd c (cell s i' j') = Some (spec i' j')"
  using assms(1) [unfolded filled_def, rule_format, OF assms(2,3)] by (simp add: rd_cell)

lemma slot_inj:
  assumes "i * s + j = i' * s + j'" and "j < s" and "j' < (s :: nat)"
  shows "i = i' \<and> j = j'"
proof -
  have "(i * s + j) div s = i" "(i' * s + j') div s = i'" using assms(2,3) by simp_all
  then have "i = i'" using assms(1) by simp
  then show ?thesis using assms(1) by simp
qed

lemma slot_mono: "i \<le> m \<Longrightarrow> j \<le> n \<Longrightarrow> i * s + j \<le> m * s + (n :: nat)"
  by (simp add: add_mono)

lemma filled_step:
  assumes wide: "n < stride" and "filled stride n spec i j c" and "i * stride + j < length c" and "j \<le> n"
  shows "filled stride n spec i (Suc j) (c[i * stride + j := spec i j])"
  unfolding filled_def
proof (intro allI impI)
  fix i' j' assume j': "j' \<le> n" and lt: "i' < i \<or> i' = i \<and> j' < Suc j"
  show "i' * stride + j' < length (c[i * stride + j := spec i j]) \<and>
      c[i * stride + j := spec i j] ! (i' * stride + j') = spec i' j'"
  proof (cases "i' = i \<and> j' = j")
    case True
    then show ?thesis using assms(3) by simp
  next
    case False
    then have "i' * stride + j' \<noteq> i * stride + j"
      using slot_inj [of i' stride j' i j] wide assms(4) j' by fastforce
    moreover have "i' < i \<or> i' = i \<and> j' < j" using False lt by auto
    ultimately show ?thesis using assms(2) [unfolded filled_def, rule_format, OF j'] by simp
  qed
qed

lemma filled_row: "filled stride n spec i (Suc n) c \<Longrightarrow> filled stride n spec (Suc i) 0 c"
  unfolding filled_def by (metis less_Suc_eq le_imp_less_Suc not_less0)

text \<open>
  The contract of a dynamic program over inputs that satisfy \<open>pre\<close>: a cell's value reads only
  cells filled before it, and then it is the specification's value. Under it, the filled table
  is the specification.
\<close>

locale dp_program =
  fixes pre :: "'i \<Rightarrow> bool"
    and stride :: "'i \<Rightarrow> nat" and rows :: "'i \<Rightarrow> nat" and cols :: "'i \<Rightarrow> nat"
    and "value" :: "'i \<Rightarrow> nat \<Rightarrow> nat \<Rightarrow> int list \<Rightarrow> int option"
    and spec :: "'i \<Rightarrow> nat \<Rightarrow> nat \<Rightarrow> int"
  assumes wide: "pre p \<Longrightarrow> cols p < stride p"
    and value_ok: "pre p \<Longrightarrow> i \<le> rows p \<Longrightarrow> j \<le> cols p \<Longrightarrow>
      filled (stride p) (cols p) (spec p) i j c \<Longrightarrow> value p i j c = Some (spec p i j)"
begin

lemma fill_ok:
  assumes pre: "pre p" and len: "rows p * stride p + cols p < length c"
  shows "\<exists>c'. fill_table (stride p) (rows p) (cols p) (value p) c = Some c' \<and> length c' = length c \<and>
    filled (stride p) (cols p) (spec p) (Suc (rows p)) 0 c'"
proof -
  let ?m = "rows p" and ?n = "cols p" and ?s = "stride p"
  let ?P = "\<lambda>i t. length t = length c \<and> filled ?s ?n (spec p) i 0 t"
  let ?body = "\<lambda>i j t. do { v \<leftarrow> value p i j t; wr t (cell ?s i j) v }"
  have "\<exists>t. for_range 0 (?m + 1) (\<lambda>i t. for_range 0 (?n + 1) (?body i) t) c = Some t \<and> ?P (?m + 1) t"
  proof (rule for_range_inv [where P = ?P])
    fix i t assume i: "i < ?m + 1" and P: "?P i t"
    let ?Q = "\<lambda>j u. length u = length c \<and> filled ?s ?n (spec p) i j u"
    have "\<exists>u. for_range 0 (?n + 1) (?body i) t = Some u \<and> ?Q (?n + 1) u"
    proof (rule for_range_inv [where P = ?Q])
      fix j u assume j: "j < ?n + 1" and Q: "?Q j u"
      have v: "value p i j u = Some (spec p i j)" using value_ok [OF pre] Q i j by simp
      have "i * ?s + j \<le> ?m * ?s + ?n" using slot_mono i j by simp
      then have l: "i * ?s + j < length u" using Q len by simp
      then show "\<exists>u'. ?body i j u = Some u' \<and> ?Q (Suc j) u'"
        using v l filled_step [OF wide [OF pre] _ l] Q j by (simp add: wr_cell)
    qed (use P in auto)
    then show "\<exists>t'. for_range 0 (?n + 1) (?body i) t = Some t' \<and> ?P (Suc i) t'"
      using filled_row by auto
  qed (auto simp: filled_def)
  then show ?thesis by (auto simp: fill_table_def)
qed

end

end
