(* ===== verification/Edit_Dist.thy ===== *)
theory Edit_Dist
  imports Dp_Table
begin

text \<open>
  The edit distance of two sequences of objects (src/algorithm/edit_dist.c): the recursive and
  the iterative dynamic program over one block of cells, and what the distance is: the least
  number of substitutions, deletions and insertions. A sequence is a block of bytes and \<open>cmpe\<close>
  compares two objects of \<open>elt_size\<close> bytes. Distances are below \<open>INT_MAX\<close>, so the \<open>int\<close>
  arithmetic does not overflow and is written on \<open>int\<close>.
\<close>

subsection \<open>The finder\<close>

record edit_dist_finder =
  ed_seq_a :: "u8 list option"
  ed_seq_b :: "u8 list option"
  ed_elt_size :: nat
  ed_memo :: "int list option"
  ed_cmpe :: "u8 list \<Rightarrow> u8 list \<Rightarrow> bool"
  ed_seq_len :: "u8 list \<Rightarrow> nat"

text \<open>The object at a byte offset.\<close>

definition obj_at :: "u8 list \<Rightarrow> nat \<Rightarrow> nat \<Rightarrow> u8 list option" where
  "obj_at seq off sz = (if off + sz \<le> length seq then Some (take sz (drop off seq)) else None)"

text \<open>\<open>memset\<close> of the first \<open>n\<close> cells to -1.\<close>

definition cells_clear :: "int list \<Rightarrow> nat \<Rightarrow> int list option" where
  "cells_clear c n = (if n \<le> length c then Some (replicate n (-1) @ drop n c) else None)"

text \<open>
  The objects are addressed \<open>i - 1\<close> bytes from the start here, and \<open>(i - 1) * elt_size\<close> bytes in
  the iterative version.
\<close>

function edit_dist_rec_sub ::
  "(u8 list \<Rightarrow> u8 list \<Rightarrow> bool) \<Rightarrow> nat \<Rightarrow> u8 list \<Rightarrow> u8 list \<Rightarrow> nat \<Rightarrow> nat \<Rightarrow> nat \<Rightarrow> int list \<Rightarrow>
   (int \<times> int list) option" where
  "edit_dist_rec_sub cmpe sz a b len i j c =
     (case rd c (cell len i j) of
        None \<Rightarrow> None
      | Some v \<Rightarrow>
          if v \<ge> 0 then Some (v, c)
          else if i = 0 then Some (int_of_size j, c)
          else if j = 0 then Some (int_of_size i, c)
          else
            (case (obj_at a (i - 1) sz, obj_at b (j - 1) sz) of
               (Some x, Some y) \<Rightarrow>
                 if cmpe x y then
                   (case edit_dist_rec_sub cmpe sz a b len (i - 1) (j - 1) c of
                      None \<Rightarrow> None
                    | Some (v1, c1) \<Rightarrow> map_option (\<lambda>c2. (v1, c2)) (wr c1 (cell len i j) v1))
                 else
                   (case edit_dist_rec_sub cmpe sz a b len (i - 1) (j - 1) c of
                      None \<Rightarrow> None
                    | Some (v1, c1) \<Rightarrow>
                        (case edit_dist_rec_sub cmpe sz a b len (i - 1) j c1 of
                           None \<Rightarrow> None
                         | Some (v2, c2) \<Rightarrow>
                             (case edit_dist_rec_sub cmpe sz a b len i (j - 1) c2 of
                                None \<Rightarrow> None
                              | Some (v3, c3) \<Rightarrow>
                                  map_option (\<lambda>c4. (1 + min (min v1 v2) v3, c4))
                                    (wr c3 (cell len i j) (1 + min (min v1 v2) v3)))))
             | _ \<Rightarrow> None))"
  by pat_completeness auto
termination
  by (relation "measure (\<lambda>(cmpe, sz, a, b, len, i, j, c). i + j)") auto

declare edit_dist_rec_sub.simps [simp del]

definition edit_dist_rec :: "edit_dist_finder \<Rightarrow> (int \<times> edit_dist_finder) option" where
  "edit_dist_rec f =
     (case (ed_seq_a f, ed_seq_b f, ed_memo f) of
        (Some a, Some b, Some c) \<Rightarrow> do {
          let len_x = ed_seq_len f a;
          let len_y = ed_seq_len f b;
          c1 \<leftarrow> cells_clear c ((len_x + 1) * (len_y + 1));
          (v, c2) \<leftarrow> edit_dist_rec_sub (ed_cmpe f) (ed_elt_size f) a b len_x len_x len_y c1;
          Some (v, f\<lparr>ed_memo := Some c2\<rparr>)
        }
      | _ \<Rightarrow> Some (-1, f))"

text \<open>The value of cell \<open>(i, j)\<close>.\<close>

definition edit_dist_value ::
  "(u8 list \<Rightarrow> u8 list \<Rightarrow> bool) \<Rightarrow> nat \<Rightarrow> u8 list \<Rightarrow> u8 list \<Rightarrow> nat \<Rightarrow> nat \<Rightarrow> nat \<Rightarrow> int list \<Rightarrow> int option" where
  "edit_dist_value cmpe sz a b m i j c =
     (if i = 0 then Some (int_of_size j)
      else if j = 0 then Some (int_of_size i)
      else do {
        x \<leftarrow> obj_at a ((i - 1) * sz) sz;
        y \<leftarrow> obj_at b ((j - 1) * sz) sz;
        if cmpe x y then rd c (cell m (i - 1) (j - 1))
        else do {
          v1 \<leftarrow> rd c (cell m (i - 1) (j - 1));
          v2 \<leftarrow> rd c (cell m (i - 1) j);
          v3 \<leftarrow> rd c (cell m i (j - 1));
          Some (1 + min (min v1 v2) v3)
        }
      })"

definition edit_dist_iter :: "edit_dist_finder \<Rightarrow> (int \<times> edit_dist_finder) option" where
  "edit_dist_iter f = do {
     a \<leftarrow> ed_seq_a f;
     b \<leftarrow> ed_seq_b f;
     c \<leftarrow> ed_memo f;
     let m = ed_seq_len f a;
     let n = ed_seq_len f b;
     c1 \<leftarrow> cells_clear c (m * n);
     c2 \<leftarrow> fill_table m m n (edit_dist_value (ed_cmpe f) (ed_elt_size f) a b m) c1;
     v \<leftarrow> rd c2 (cell m m n);
     Some (v, f\<lparr>ed_memo := Some c2\<rparr>)
   }"

text \<open>
  The block \<open>malloc\<close> returned, \<open>None\<close> on failure; on failure \<open>edit_dist_destroy\<close> frees nothing.
\<close>

definition edit_dist_init ::
  "u8 list option \<Rightarrow> u8 list option \<Rightarrow> nat \<Rightarrow> (u8 list \<Rightarrow> u8 list \<Rightarrow> bool) option \<Rightarrow>
   (u8 list \<Rightarrow> nat) option \<Rightarrow> (nat \<Rightarrow> int) option \<Rightarrow> status \<times> edit_dist_finder option" where
  "edit_dist_init a b elt_size cmpe seq_len mem =
     (case (a, b, cmpe, seq_len) of
        (Some a', Some b', Some cmp, Some len) \<Rightarrow>
          if \<not> elt_size > 0 then (fpc_error, None)
          else
            (case mem of
               None \<Rightarrow> (ERROR None, None)
             | Some junk \<Rightarrow>
                 (OK, Some \<lparr>ed_seq_a = a, ed_seq_b = b, ed_elt_size = elt_size,
                    ed_memo = Some (map junk [0..<(len a' + 1) * (len b' + 1)]),
                    ed_cmpe = cmp, ed_seq_len = len\<rparr>))
      | _ \<Rightarrow> (fpc_error, None))"

definition edit_dist_find :: "edit_dist_finder \<Rightarrow> exec_type \<Rightarrow> (int \<times> edit_dist_finder) option" where
  "edit_dist_find f type = (case type of EXEC_REC \<Rightarrow> edit_dist_rec f | EXEC_ITER \<Rightarrow> edit_dist_iter f)"

subsection \<open>The distance\<close>

text \<open>The recurrence on the prefixes of \<open>i\<close> and \<open>j\<close> elements.\<close>

fun edist :: "('a \<Rightarrow> 'b \<Rightarrow> bool) \<Rightarrow> 'a list \<Rightarrow> 'b list \<Rightarrow> nat \<Rightarrow> nat \<Rightarrow> nat" where
  "edist eq xs ys 0 j = j"
| "edist eq xs ys (Suc i) 0 = Suc i"
| "edist eq xs ys (Suc i) (Suc j) =
     (if eq (xs ! i) (ys ! j) then edist eq xs ys i j
      else 1 + min (min (edist eq xs ys i j) (edist eq xs ys i (Suc j))) (edist eq xs ys (Suc i) j))"

text \<open>\<open>edits eq n xs ys\<close>: \<open>n\<close> edits turn \<open>xs\<close> into \<open>ys\<close>.\<close>

inductive edits :: "('a \<Rightarrow> 'b \<Rightarrow> bool) \<Rightarrow> nat \<Rightarrow> 'a list \<Rightarrow> 'b list \<Rightarrow> bool" for eq where
  start: "edits eq 0 [] []"
| keep: "edits eq n xs ys \<Longrightarrow> eq x y \<Longrightarrow> edits eq n (xs @ [x]) (ys @ [y])"
| change: "edits eq n xs ys \<Longrightarrow> edits eq (Suc n) (xs @ [x]) (ys @ [y])"
| delete: "edits eq n xs ys \<Longrightarrow> edits eq (Suc n) (xs @ [x]) ys"
| insert: "edits eq n xs ys \<Longrightarrow> edits eq (Suc n) xs (ys @ [y])"

text \<open>The distance changes by at most one when one prefix grows by one element.\<close>

lemma edist_0_right [simp]: "edist eq xs ys i 0 = i"
  by (cases i) auto

lemma edist_lipschitz:
  "edist eq xs ys i j \<le> edist eq xs ys (Suc i) j + 1 \<and> edist eq xs ys (Suc i) j \<le> edist eq xs ys i j + 1 \<and>
   edist eq xs ys i j \<le> edist eq xs ys i (Suc j) + 1 \<and> edist eq xs ys i (Suc j) \<le> edist eq xs ys i j + 1"
proof (induction "i + j" arbitrary: i j rule: less_induct)
  case less
  let ?e = "edist eq xs ys"
  have "?e i j \<le> ?e (Suc i) j + 1 \<and> ?e (Suc i) j \<le> ?e i j + 1"
  proof (cases j)
    case (Suc k)
    then have "?e i k \<le> ?e (Suc i) k + 1" "?e i k \<le> ?e i j + 1" "?e i j \<le> ?e i k + 1"
      using less [of i k] by simp_all
    moreover have "?e (Suc i) j = (if eq (xs ! i) (ys ! k) then ?e i k
        else 1 + min (min (?e i k) (?e i j)) (?e (Suc i) k))" by (simp add: Suc)
    ultimately show ?thesis by (simp split: if_splits) linarith
  qed simp
  moreover have "?e i j \<le> ?e i (Suc j) + 1 \<and> ?e i (Suc j) \<le> ?e i j + 1"
  proof (cases i)
    case (Suc k)
    then have "?e k j \<le> ?e k (Suc j) + 1" "?e k j \<le> ?e i j + 1" "?e i j \<le> ?e k j + 1"
      using less [of k j] by simp_all
    moreover have "?e i (Suc j) = (if eq (xs ! k) (ys ! j) then ?e k j
        else 1 + min (min (?e k j) (?e k (Suc j))) (?e i j))" by (simp add: Suc)
    ultimately show ?thesis by (simp split: if_splits)
  qed simp
  ultimately show ?case by blast
qed

lemma edist_append:
  "i \<le> length xs \<Longrightarrow> j \<le> length ys \<Longrightarrow> edist eq (xs @ us) (ys @ vs) i j = edist eq xs ys i j"
  by (induction eq xs ys i j rule: edist.induct) (auto simp: nth_append)

lemma edits_take: "i \<le> length xs \<Longrightarrow> j \<le> length ys \<Longrightarrow> edits eq (edist eq xs ys i j) (take i xs) (take j ys)"
proof (induction eq xs ys i j rule: edist.induct)
  case (1 eq xs ys j)
  then show ?case
    by (induction j) (auto simp: take_Suc_conv_app_nth intro: edits.intros)
next
  case (2 eq xs ys i)
  have "edits eq k (take k xs) []" if "k \<le> length xs" for k
    using that by (induction k) (auto simp: take_Suc_conv_app_nth intro: edits.intros)
  then show ?case using 2 by (metis edist.simps(2) take0)
next
  case (3 eq xs ys i j)
  let ?m = "min (min (edist eq xs ys i j) (edist eq xs ys i (Suc j))) (edist eq xs ys (Suc i) j)"
  have t: "take (Suc i) xs = take i xs @ [xs ! i]" "take (Suc j) ys = take j ys @ [ys ! j]"
    using 3 by (simp_all add: take_Suc_conv_app_nth)
  show ?case
  proof (cases "eq (xs ! i) (ys ! j)")
    case True
    then show ?thesis using 3 t by (auto intro: keep)
  next
    case False
    consider "?m = edist eq xs ys i j" | "?m = edist eq xs ys i (Suc j)" | "?m = edist eq xs ys (Suc i) j"
      by linarith
    then show ?thesis
    proof cases
      case 1
      then show ?thesis using False 3 t change [of eq "edist eq xs ys i j" "take i xs" "take j ys"] by simp
    next
      case 2
      then show ?thesis using False 3 t delete [of eq "edist eq xs ys i (Suc j)" "take i xs" "take (Suc j) ys"]
        by simp
    next
      case 3
      then show ?thesis using False "3.IH" "3.prems" t
          insert [of eq "edist eq xs ys (Suc i) j" "take (Suc i) xs" "take j ys"] by simp
    qed
  qed
qed

lemma edist_least: "edits eq n xs ys \<Longrightarrow> edist eq xs ys (length xs) (length ys) \<le> n"
proof (induction rule: edits.induct)
  case (keep n xs ys x y)
  then show ?case by (simp add: edist_append nth_append)
next
  case (change n xs ys x y)
  then show ?case by (simp add: edist_append nth_append min_le_iff_disj)
next
  case (delete n xs ys x)
  then show ?case using edist_lipschitz [of eq "xs @ [x]" ys "length xs" "length ys"]
      edist_append [of "length xs" xs "length ys" ys eq "[x]" "[]"] by simp
next
  case (insert n xs ys y)
  then show ?case using edist_lipschitz [of eq xs "ys @ [y]" "length xs" "length ys"]
      edist_append [of "length xs" xs "length ys" ys eq "[]" "[y]"] by simp
qed simp

subsection \<open>The table is the distance\<close>

text \<open>The objects of a sequence of \<open>n\<close>.\<close>

definition objs :: "nat \<Rightarrow> nat \<Rightarrow> u8 list \<Rightarrow> u8 list list" where
  "objs sz n seq = map (\<lambda>i. take sz (drop (i * sz) seq)) [0..<n]"

lemma obj_at_objs:
  assumes "i < n" and "n * sz \<le> length seq"
  shows "obj_at seq (i * sz) sz = Some (objs sz n seq ! i)"
proof -
  have "Suc i * sz \<le> n * sz" using assms(1) by (intro mult_le_mono1) simp
  then have "i * sz + sz \<le> length seq" using assms(2) by simp
  then show ?thesis using assms(1) by (simp add: obj_at_def objs_def)
qed

text \<open>The inputs of the tables: the callback, the size, both blocks and both lengths.\<close>

record ed_input =
  in_cmpe :: "u8 list \<Rightarrow> u8 list \<Rightarrow> bool"
  in_size :: nat
  in_a :: "u8 list"
  in_b :: "u8 list"
  in_m :: nat
  in_n :: nat

definition in_ok :: "ed_input \<Rightarrow> bool" where
  "in_ok p \<longleftrightarrow> in_n p < in_m p \<and> in_m p * in_size p \<le> length (in_a p) \<and>
     in_n p * in_size p \<le> length (in_b p) \<and> in_m p < 2 ^ 31"

definition in_dist :: "ed_input \<Rightarrow> nat \<Rightarrow> nat \<Rightarrow> int" where
  "in_dist p i j = int (edist (in_cmpe p) (objs (in_size p) (in_m p) (in_a p))
     (objs (in_size p) (in_n p) (in_b p)) i j)"

lemma in_dist_Suc:
  "in_dist p (Suc i) (Suc j) =
     (if in_cmpe p (objs (in_size p) (in_m p) (in_a p) ! i) (objs (in_size p) (in_n p) (in_b p) ! j)
      then in_dist p i j
      else 1 + min (min (in_dist p i j) (in_dist p i (Suc j))) (in_dist p (Suc i) j))"
  by (simp add: in_dist_def of_nat_min)

interpretation ed: dp_program in_ok in_m in_m in_n
  "\<lambda>p. edit_dist_value (in_cmpe p) (in_size p) (in_a p) (in_b p) (in_m p)" in_dist
proof
  fix p i j c
  assume ok: "in_ok p" and i: "i \<le> in_m p" and j: "j \<le> in_n p"
    and f: "filled (in_m p) (in_n p) (in_dist p) i j c"
  show "edit_dist_value (in_cmpe p) (in_size p) (in_a p) (in_b p) (in_m p) i j c = Some (in_dist p i j)"
  proof (cases "i = 0 \<or> j = 0")
    case True
    then show ?thesis using ok i j by (auto simp: edit_dist_value_def in_dist_def in_ok_def)
  next
    case False
    then obtain k l where kl: "i = Suc k" "j = Suc l" by (metis not0_implies_Suc)
    have o: "obj_at (in_a p) (k * in_size p) (in_size p) = Some (objs (in_size p) (in_m p) (in_a p) ! k)"
      "obj_at (in_b p) (l * in_size p) (in_size p) = Some (objs (in_size p) (in_n p) (in_b p) ! l)"
      using ok i j kl by (auto simp: in_ok_def intro: obj_at_objs)
    note r = filled_rd [OF f]
    have "rd c (cell (in_m p) k l) = Some (in_dist p k l)" "rd c (cell (in_m p) k j) = Some (in_dist p k j)"
      "rd c (cell (in_m p) i l) = Some (in_dist p i l)"
      using r [of l k] r [of j k] r [of l i] j kl by simp_all
    then show ?thesis using o kl by (simp add: edit_dist_value_def in_dist_Suc)
  qed
qed (simp add: in_ok_def)

text \<open>The recursion keeps every cell it has filled equal to the distance.\<close>

definition memo_ok :: "ed_input \<Rightarrow> int list \<Rightarrow> bool" where
  "memo_ok p c \<longleftrightarrow> in_m p * in_m p + in_n p < length c \<and>
     (\<forall>i j. i \<le> in_m p \<longrightarrow> j \<le> in_n p \<longrightarrow> 0 \<le> c ! (i * in_m p + j) \<longrightarrow>
        c ! (i * in_m p + j) = in_dist p i j)"

lemma memo_ok_update:
  assumes "memo_ok p c" and "in_ok p" and "i \<le> in_m p" and "j \<le> in_n p" and "v = in_dist p i j"
  shows "\<exists>c'. wr c (cell (in_m p) i j) v = Some c' \<and> memo_ok p c'"
proof -
  have lt: "i * in_m p + j < length c"
    using assms(1) slot_mono [OF assms(3,4), of "in_m p"] by (simp add: memo_ok_def)
  have "i' = i \<and> j' = j" if "i' * in_m p + j' = i * in_m p + j" "j' \<le> in_n p" for i' j'
    using slot_inj [OF that(1)] that(2) assms(2,4) by (simp add: in_ok_def)
  then have "memo_ok p (c[i * in_m p + j := v])"
    using assms(1,5) lt by (auto simp: memo_ok_def nth_list_update)
  then show ?thesis using lt by (simp add: wr_cell)
qed

lemma edit_dist_rec_sub_ok:
  assumes ok: "in_ok p" and sz: "in_size p = 1" and c: "memo_ok p c" and i: "i \<le> in_m p" and j: "j \<le> in_n p"
  shows "\<exists>c'. edit_dist_rec_sub (in_cmpe p) 1 (in_a p) (in_b p) (in_m p) i j c =
    Some (in_dist p i j, c') \<and> memo_ok p c'"
  using c i j
proof (induction "i + j" arbitrary: i j c rule: less_induct)
  case less
  let ?f = "edit_dist_rec_sub (in_cmpe p) 1 (in_a p) (in_b p) (in_m p)"
  note def = edit_dist_rec_sub.simps [of "in_cmpe p" 1 "in_a p" "in_b p" "in_m p" i j c]
  have "i * in_m p + j < length c"
    using less.prems(1) slot_mono [OF less.prems(2,3), of "in_m p"] by (simp add: memo_ok_def)
  then have r: "rd c (cell (in_m p) i j) = Some (c ! (i * in_m p + j))" by (simp add: rd_cell)
  have small: "i < 2 ^ 31" "j < 2 ^ 31" using ok less.prems by (auto simp: in_ok_def)
  consider "0 \<le> c ! (i * in_m p + j)" | "c ! (i * in_m p + j) < 0" "i = 0"
    | "c ! (i * in_m p + j) < 0" "0 < i" "j = 0"
    | k l where "c ! (i * in_m p + j) < 0" "i = Suc k" "j = Suc l"
    by (metis gr0_conv_Suc not_le_imp_less not_gr_zero)
  then show ?case
  proof cases
    case 1
    then show ?thesis using r less.prems unfolding def by (auto simp: memo_ok_def)
  next
    case 2
    then show ?thesis using r less.prems(1) small unfolding def by (auto simp: in_dist_def)
  next
    case 3
    then show ?thesis using r less.prems(1) small unfolding def by (auto simp: in_dist_def)
  next
    case (4 k l)
    let ?x = "objs 1 (in_m p) (in_a p) ! k" and ?y = "objs 1 (in_n p) (in_b p) ! l"
    have o: "obj_at (in_a p) k 1 = Some ?x" "obj_at (in_b p) l 1 = Some ?y"
      using obj_at_objs [of k "in_m p" 1 "in_a p"] obj_at_objs [of l "in_n p" 1 "in_b p"]
        ok sz less.prems 4 by (auto simp: in_ok_def)
    obtain c1 where 1: "?f k l c = Some (in_dist p k l, c1)" "memo_ok p c1"
      using less.hyps [of k l c] less.prems 4 by auto
    obtain c2 where 2: "?f k j c1 = Some (in_dist p k j, c2)" "memo_ok p c2"
      using less.hyps [of k j c1] 1(2) less.prems 4 by auto
    obtain c3 where 3: "?f i l c2 = Some (in_dist p i l, c3)" "memo_ok p c3"
      using less.hyps [of i l c2] 2(2) less.prems 4 by auto
    note s = in_dist_Suc [of p k l, unfolded sz]
    show ?thesis
    proof (cases "in_cmpe p ?x ?y")
      case True
      then obtain c4 where "wr c1 (cell (in_m p) i j) (in_dist p k l) = Some c4" "memo_ok p c4"
        using memo_ok_update [OF 1(2) ok less.prems(2,3), of "in_dist p k l"] s 4 by auto
      then show ?thesis using True r 1(1) 4 o s unfolding def by simp
    next
      case False
      let ?v = "1 + min (min (in_dist p k l) (in_dist p k j)) (in_dist p i l)"
      obtain c4 where "wr c3 (cell (in_m p) i j) ?v = Some c4" "memo_ok p c4"
        using memo_ok_update [OF 3(2) ok less.prems(2,3), of ?v] False s 4 by auto
      then show ?thesis using False r 1(1) 2(1) 3(1) 4 o s unfolding def by simp
    qed
  qed
qed

text \<open>A finder over two sequences of objects, with the table \<open>edit_dist_init\<close> allocates.\<close>

definition finder_ok :: "edit_dist_finder \<Rightarrow> u8 list \<Rightarrow> u8 list \<Rightarrow> bool" where
  "finder_ok f a b \<longleftrightarrow> ed_seq_a f = Some a \<and> ed_seq_b f = Some b \<and>
     ed_seq_len f a * ed_elt_size f \<le> length a \<and> ed_seq_len f b * ed_elt_size f \<le> length b \<and>
     ed_seq_len f a < 2 ^ 31 \<and>
     (\<exists>c. ed_memo f = Some c \<and> length c = (ed_seq_len f a + 1) * (ed_seq_len f b + 1))"

definition finder_dist :: "edit_dist_finder \<Rightarrow> u8 list \<Rightarrow> u8 list \<Rightarrow> nat" where
  "finder_dist f a b =
     edist (ed_cmpe f) (objs (ed_elt_size f) (ed_seq_len f a) a)
       (objs (ed_elt_size f) (ed_seq_len f b) b) (ed_seq_len f a) (ed_seq_len f b)"

lemma table_room: "m = Suc n \<Longrightarrow> m * m + n < (m + 1) * (n + 1)" for m n :: nat
  by simp

lemma edit_dist_iter_ok:
  assumes f: "finder_ok f a b" and mn: "ed_seq_len f a = Suc (ed_seq_len f b)"
  shows "\<exists>f'. edit_dist_iter f = Some (int (finder_dist f a b), f')"
proof -
  let ?m = "ed_seq_len f a" and ?n = "ed_seq_len f b"
  let ?p = "\<lparr>in_cmpe = ed_cmpe f, in_size = ed_elt_size f, in_a = a, in_b = b, in_m = ?m, in_n = ?n\<rparr>"
  obtain c where c: "ed_memo f = Some c" "length c = (?m + 1) * (?n + 1)"
    using f by (auto simp: finder_ok_def)
  have clr: "cells_clear c (?m * ?n) = Some (replicate (?m * ?n) (-1) @ drop (?m * ?n) c)"
    (is "_ = Some ?c") using c(2) by (simp add: cells_clear_def)
  have l: "length ?c = (?m + 1) * (?n + 1)" using c(2) by simp
  have ok: "in_ok ?p" using f mn by (auto simp: in_ok_def finder_ok_def)
  have room: "in_m ?p * in_m ?p + in_n ?p < length ?c" unfolding l using table_room [OF mn] by simp
  from ed.fill_ok [OF ok room] obtain c2 where
    c2: "fill_table ?m ?m ?n (edit_dist_value (ed_cmpe f) (ed_elt_size f) a b ?m) ?c = Some c2"
      "filled ?m ?n (in_dist ?p) (Suc ?m) 0 c2" by auto
  have "rd c2 (cell ?m ?m ?n) = Some (in_dist ?p ?m ?n)"
    using filled_rd [OF c2(2), of ?n ?m] by simp
  then show ?thesis using f c(1) clr c2(1)
    by (simp add: edit_dist_iter_def finder_ok_def finder_dist_def in_dist_def Let_def)
qed

lemma edit_dist_rec_ok:
  assumes f: "finder_ok f a b" and mn: "ed_seq_len f a = Suc (ed_seq_len f b)" and sz: "ed_elt_size f = 1"
  shows "\<exists>f'. edit_dist_rec f = Some (int (finder_dist f a b), f')"
proof -
  let ?m = "ed_seq_len f a" and ?n = "ed_seq_len f b"
  let ?p = "\<lparr>in_cmpe = ed_cmpe f, in_size = ed_elt_size f, in_a = a, in_b = b, in_m = ?m, in_n = ?n\<rparr>"
  let ?N = "(?m + 1) * (?n + 1)"
  obtain c where c: "ed_memo f = Some c" "length c = ?N" using f by (auto simp: finder_ok_def)
  define c0 :: "int list" where "c0 = replicate ?N (-1)"
  have c0: "length c0 = ?N" "\<And>k. k < ?N \<Longrightarrow> c0 ! k = -1"
    unfolding c0_def by (rule length_replicate, rule nth_replicate)
  have clr: "cells_clear c ?N = Some c0" using c(2) by (simp add: cells_clear_def c0_def)
  have ok: "in_ok ?p" using f mn by (auto simp: in_ok_def finder_ok_def)
  have lt: "i * ?m + j < ?N" if "i \<le> ?m" "j \<le> ?n" for i j
    using slot_mono [OF that, of ?m] table_room [OF mn] by simp
  have "memo_ok ?p c0"
    unfolding memo_ok_def
  proof (intro conjI allI impI)
    show "in_m ?p * in_m ?p + in_n ?p < length c0" using lt [of ?m ?n] c0(1) by simp
    fix i j assume "i \<le> in_m ?p" "j \<le> in_n ?p" "0 \<le> c0 ! (i * in_m ?p + j)"
    then show "c0 ! (i * in_m ?p + j) = in_dist ?p i j" using c0(2) [OF lt [of i j]] by simp
  qed
  then obtain c2 where "edit_dist_rec_sub (ed_cmpe f) 1 a b ?m ?m ?n c0 = Some (in_dist ?p ?m ?n, c2)"
    using edit_dist_rec_sub_ok [OF ok, of c0 ?m ?n] sz by auto
  then show ?thesis using f c(1) clr sz
    by (simp add: edit_dist_rec_def finder_ok_def finder_dist_def in_dist_def Let_def)
qed

lemma finder_dist_least:
  assumes "xs = objs (ed_elt_size f) (ed_seq_len f a) a" and "ys = objs (ed_elt_size f) (ed_seq_len f b) b"
  shows "edits (ed_cmpe f) (finder_dist f a b) xs ys \<and> (\<forall>k. edits (ed_cmpe f) k xs ys \<longrightarrow> finder_dist f a b \<le> k)"
proof -
  have l: "length xs = ed_seq_len f a" "length ys = ed_seq_len f b" using assms by (simp_all add: objs_def)
  have d: "finder_dist f a b = edist (ed_cmpe f) xs ys (length xs) (length ys)"
    unfolding l by (simp add: finder_dist_def assms)
  show ?thesis unfolding d using edits_take [of "length xs" xs "length ys" ys "ed_cmpe f"] edist_least by auto
qed

subsection \<open>Properties\<close>

text \<open>
  C23: when the first sequence is one object longer than the second, both algorithms return the
  least number of substitutions, deletions and insertions that turn the one into the other; the
  recursive one for objects of one byte.
\<close>

theorem edit_dist_find_least:
  assumes "finder_ok f a b" and "ed_seq_len f a = Suc (ed_seq_len f b)"
    and "type = EXEC_REC \<longrightarrow> ed_elt_size f = 1"
    and "xs = objs (ed_elt_size f) (ed_seq_len f a) a" and "ys = objs (ed_elt_size f) (ed_seq_len f b) b"
  shows "\<exists>d f'. edit_dist_find f type = Some (int d, f') \<and> edits (ed_cmpe f) d xs ys \<and>
    (\<forall>k. edits (ed_cmpe f) k xs ys \<longrightarrow> d \<le> k)"
proof -
  have "\<exists>f'. edit_dist_find f type = Some (int (finder_dist f a b), f')"
    using edit_dist_iter_ok [OF assms(1,2)] edit_dist_rec_ok [OF assms(1,2)] assms(3)
    by (cases type) (auto simp: edit_dist_find_def)
  then show ?thesis using finder_dist_least [OF assms(4,5)] by blast
qed

definition example_finder :: "u8 list \<Rightarrow> u8 list \<Rightarrow> edit_dist_finder" where
  "example_finder a b = \<lparr>ed_seq_a = Some a, ed_seq_b = Some b, ed_elt_size = 1,
     ed_memo = Some (replicate ((length a + 1) * (length b + 1)) 0), ed_cmpe = (=), ed_seq_len = length\<rparr>"

theorem edit_dist_find_least_witness:
  "\<exists>d f'. edit_dist_find (example_finder [1, 2, 3] [1, 3]) EXEC_ITER = Some (int d, f') \<and>
    edits (=) d [[1], [2], [3]] [[1], [3 :: u8]] \<and>
    (\<forall>k. edits (=) k [[1], [2], [3]] [[1], [3 :: u8]] \<longrightarrow> d \<le> k)"
proof -
  have "finder_ok (example_finder [1, 2, 3] [1, 3]) [1, 2, 3] [1, 3]"
    by (simp add: finder_ok_def example_finder_def)
  from edit_dist_find_least [OF this, of EXEC_ITER "[[1], [2], [3]]" "[[1], [3]]"]
  show ?thesis by (simp add: example_finder_def objs_def upt_rec)
qed

text \<open>
  The rows of the table are one cell too short. When the first sequence is at least two
  objects longer than the second, the iterative algorithm writes past its table, and for the
  equally long "aba" and "cab", where two edits suffice, it returns 3.
\<close>

theorem edit_dist_iter_stride:
  assumes "finder_ok f a b" and "Suc (ed_seq_len f b) < ed_seq_len f a"
  shows "edit_dist_iter f = None \<and>
    map_option fst (edit_dist_find (example_finder [97, 98, 97] [99, 97, 98]) EXEC_ITER) = Some 3 \<and>
    edits (=) 2 [97, 98, 97] [99, 97, 98 :: u8]"
proof -
  let ?m = "ed_seq_len f a" and ?n = "ed_seq_len f b"
  have "edit_dist_iter f \<noteq> Some r" for r
  proof
    assume "edit_dist_iter f = Some r"
    then obtain c c1 c2 where "ed_memo f = Some c" "length c = (?m + 1) * (?n + 1)"
      "cells_clear c (?m * ?n) = Some c1"
      "fill_table ?m ?m ?n (edit_dist_value (ed_cmpe f) (ed_elt_size f) a b ?m) c1 = Some c2"
      using assms(1) by (auto simp: edit_dist_iter_def finder_ok_def Let_def bind_eq_Some_conv)
    then have "?m * ?m + ?n < (?m + 1) * (?n + 1)"
      using fill_table_room by (fastforce simp: cells_clear_def split: if_splits)
    moreover have "?m * (?n + 2) \<le> ?m * ?m" using assms(2) by (intro mult_le_mono2) simp
    ultimately show False using assms(2) by simp
  qed
  moreover have "map_option fst (edit_dist_find (example_finder [97, 98, 97] [99, 97, 98]) EXEC_ITER) = Some 3"
    by code_simp
  moreover have "edits (=) 2 [97, 98, 97] [99, 97, 98 :: u8]"
  proof -
    have "edits (=) 1 [] [99 :: u8]" using edits.insert [OF edits.start] by simp
    from edits.keep [OF this, of 97 97] have "edits (=) 1 [97] [99, 97 :: u8]" by simp
    from edits.keep [OF this, of 98 98] have "edits (=) 1 [97, 98] [99, 97, 98 :: u8]" by simp
    from edits.delete [OF this, of 97] show ?thesis by (simp add: numeral_2_eq_2)
  qed
  ultimately show ?thesis by blast
qed

theorem edit_dist_iter_stride_witness:
  "edit_dist_iter (example_finder [1, 2, 3] [1]) = None"
proof -
  have "finder_ok (example_finder [1, 2, 3] [1]) [1, 2, 3] [1]"
    by (simp add: finder_ok_def example_finder_def)
  from edit_dist_iter_stride [OF this] show ?thesis by (simp add: example_finder_def)
qed

end
