(* ===== verification/Lcs.thy ===== *)
theory Lcs
  imports Dp_Table "HOL-Library.Sublist"
begin

text \<open>
  The longest common subsequence of two C strings (src/algorithm/lcs.c): the recursion with
  memoisation on the suffixes, the iteration on the prefixes and the walk back through its table
  that collects the characters, against the subsequence relation of the library. A C string is
  its block of bytes; both versions share the table of the calculator.
\<close>

subsection \<open>The calculator\<close>

record lcs_calculator =
  lcs_size :: nat
  lcs_len_x :: nat
  lcs_len_y :: nat
  lcs_x :: "u8 list"
  lcs_y :: "u8 list"
  lcs_results :: "int list"
  lcs_sequence :: "u8 list option"

text \<open>\<open>strlen\<close> of a block; without a terminator it reads past the end.\<close>

definition strlen :: "u8 list \<Rightarrow> nat option" where
  "strlen s = (if 0 \<in> set s then Some (length (takeWhile (\<lambda>c. c \<noteq> 0) s)) else None)"

text \<open>The field \<open>sequence\<close> is not set; \<open>seq0\<close> is what it holds.\<close>

definition lcs_init ::
  "u8 list option \<Rightarrow> u8 list option \<Rightarrow> (nat \<Rightarrow> int) option \<Rightarrow> u8 list option \<Rightarrow>
   (status \<times> lcs_calculator option) option" where
  "lcs_init x y mem seq0 =
     (case (x, y) of
        (Some x', Some y') \<Rightarrow> do {
          m \<leftarrow> strlen x';
          n \<leftarrow> strlen y';
          (case mem of
             None \<Rightarrow> Some (ERROR None, None)
           | Some _ \<Rightarrow> Some (OK, Some \<lparr>lcs_size = 0, lcs_len_x = m, lcs_len_y = n, lcs_x = x', lcs_y = y',
               lcs_results = replicate ((m + 1) * (n + 1)) (-1), lcs_sequence = seq0\<rparr>))
        }
      | _ \<Rightarrow> Some (fpc_error, None))"

subsection \<open>The recursion\<close>

function lcs_rec_sub ::
  "u8 list \<Rightarrow> u8 list \<Rightarrow> int list \<Rightarrow> nat \<Rightarrow> nat \<Rightarrow> nat \<Rightarrow> (int \<times> int list) option" where
  "lcs_rec_sub x y c i j len =
     (case (rd x (int i), rd y (int j)) of
        (Some xi, Some yj) \<Rightarrow>
          if xi = 0 \<or> yj = 0 then Some (0, c)
          else
            (case rd c (cell len i j) of
               None \<Rightarrow> None
             | Some v \<Rightarrow>
                 if v < 0 then
                   (if xi = yj then
                      (case lcs_rec_sub x y c (i + 1) (j + 1) len of
                         None \<Rightarrow> None
                       | Some (v1, c1) \<Rightarrow> map_option (\<lambda>c2. (v1 + 1, c2)) (wr c1 (cell len i j) (v1 + 1)))
                    else
                      (case lcs_rec_sub x y c (i + 1) j len of
                         None \<Rightarrow> None
                       | Some (v1, c1) \<Rightarrow>
                           (case lcs_rec_sub x y c1 i (j + 1) len of
                              None \<Rightarrow> None
                            | Some (v2, c2) \<Rightarrow>
                                map_option (\<lambda>c3. (max v1 v2, c3)) (wr c2 (cell len i j) (max v1 v2)))))
                 else Some (v, c))
      | _ \<Rightarrow> None)"
  by pat_completeness auto
termination
  by (relation "measure (\<lambda>(x, y, c, i, j, len). (length x - i) + (length y - j))")
    (auto simp: rd_def split: if_splits)

declare lcs_rec_sub.simps [simp del]

definition lcs_rec :: "lcs_calculator option \<Rightarrow> (int \<times> lcs_calculator option) option" where
  "lcs_rec lcs =
     (case lcs of
        None \<Rightarrow> Some (-1, None)
      | Some l \<Rightarrow>
          map_option (\<lambda>(v, c). (v, Some (l\<lparr>lcs_results := c\<rparr>)))
            (lcs_rec_sub (lcs_x l) (lcs_y l) (lcs_results l) 0 0 (lcs_len_x l)))"

subsection \<open>The iteration\<close>

definition lcs_value :: "u8 list \<Rightarrow> u8 list \<Rightarrow> nat \<Rightarrow> nat \<Rightarrow> nat \<Rightarrow> int list \<Rightarrow> int option" where
  "lcs_value x y len i j c =
     (if i = 0 \<or> j = 0 then Some 0
      else do {
        xi \<leftarrow> rd x (int i - 1);
        yj \<leftarrow> rd y (int j - 1);
        if xi = yj then map_option (\<lambda>v. v + 1) (rd c (cell len (i - 1) (j - 1)))
        else do {
          v1 \<leftarrow> rd c (cell len (i - 1) j);
          v2 \<leftarrow> rd c (cell len i (j - 1));
          Some (max v1 v2)
        }
      })"

text \<open>The walk back, which stores the characters from the last to the first.\<close>

fun lcs_back ::
  "u8 list \<Rightarrow> u8 list \<Rightarrow> int list \<Rightarrow> nat \<Rightarrow> nat \<Rightarrow> nat \<Rightarrow> nat \<Rightarrow> u8 list \<Rightarrow> u8 list option" where
  "lcs_back x y c len 0 j index seq = Some seq"
| "lcs_back x y c len (Suc i) 0 index seq = Some seq"
| "lcs_back x y c len (Suc i) (Suc j) index seq =
     (case (rd x (int i), rd y (int j)) of
        (Some xi, Some yj) \<Rightarrow>
          if xi = yj then
            (case wr seq (int index - 1) xi of
               None \<Rightarrow> None
             | Some seq1 \<Rightarrow> lcs_back x y c len i j (index - 1) seq1)
          else
            (case (rd c (cell len i (Suc j)), rd c (cell len (Suc i) j)) of
               (Some up, Some left) \<Rightarrow>
                 if up > left then lcs_back x y c len i (Suc j) index seq
                 else lcs_back x y c len (Suc i) j index seq
             | _ \<Rightarrow> None)
      | _ \<Rightarrow> None)"

text \<open>A failed allocation of the sequence is not tested.\<close>

definition lcs_iter ::
  "(nat \<Rightarrow> u8) option \<Rightarrow> lcs_calculator option \<Rightarrow> (status \<times> lcs_calculator option) option" where
  "lcs_iter mem lcs =
     (case lcs of
        None \<Rightarrow> Some (ERROR None, None)
      | Some l \<Rightarrow> do {
          c \<leftarrow> fill_table (lcs_len_x l) (lcs_len_x l) (lcs_len_y l)
                 (lcs_value (lcs_x l) (lcs_y l) (lcs_len_x l)) (lcs_results l);
          v \<leftarrow> rd c (cell (lcs_len_x l) (lcs_len_x l) (lcs_len_y l));
          let size = size_of_int v;
          junk \<leftarrow> mem;
          seq \<leftarrow> wr (map junk [0..<size + 1]) (int size) 0;
          seq1 \<leftarrow> lcs_back (lcs_x l) (lcs_y l) c (lcs_len_x l) (lcs_len_x l) (lcs_len_y l) size seq;
          Some (OK, Some (l\<lparr>lcs_results := c, lcs_size := size, lcs_sequence := Some seq1\<rparr>))
        })"

subsection \<open>The longest common subsequence\<close>

fun lcsl :: "'a list \<Rightarrow> 'a list \<Rightarrow> nat" where
  "lcsl [] ys = 0"
| "lcsl (x # xs) [] = 0"
| "lcsl (x # xs) (y # ys) =
     (if x = y then Suc (lcsl xs ys) else max (lcsl xs (y # ys)) (lcsl (x # xs) ys))"

lemma lcsl_Nil [simp]: "lcsl xs [] = 0"
  by (cases xs) auto

lemma lcsl_upper: "subseq ws xs \<Longrightarrow> subseq ws ys \<Longrightarrow> length ws \<le> lcsl xs ys"
proof (induction xs ys arbitrary: ws rule: lcsl.induct)
  case (3 x xs y ys)
  show ?case
  proof (cases ws)
    case (Cons w vs)
    note ws = this
    show ?thesis
    proof (cases "x = y")
      case True
      have "subseq vs xs" "subseq vs ys"
        using "3.prems" ws by (auto simp: subseq_Cons2_iff split: if_splits dest: subseq_Cons')
      then show ?thesis using "3.IH"(1) [OF True] True ws by simp
    next
      case False
      then consider "subseq ws xs" | "subseq ws ys"
        using "3.prems" ws by (auto simp: subseq_Cons2_iff split: if_splits)
      then show ?thesis
        using "3.IH"(2,3) [OF False] "3.prems" False by cases (auto intro: le_max_iff_disj [THEN iffD2])
    qed
  qed simp
qed auto

lemma lcsl_attained: "\<exists>ws. subseq ws xs \<and> subseq ws ys \<and> length ws = lcsl xs ys"
proof (induction xs ys rule: lcsl.induct)
  case (3 x xs y ys)
  show ?case
  proof (cases "x = y")
    case True
    then obtain ws where "subseq ws xs" "subseq ws ys" "length ws = lcsl xs ys" using 3 by blast
    then show ?thesis using True by (intro exI [of _ "x # ws"]) auto
  next
    case False
    obtain us where us: "subseq us xs" "subseq us (y # ys)" "length us = lcsl xs (y # ys)"
      using 3 False by blast
    obtain vs where vs: "subseq vs (x # xs)" "subseq vs ys" "length vs = lcsl (x # xs) ys"
      using 3 False by blast
    show ?thesis
      using us vs False by (cases "lcsl xs (y # ys) \<le> lcsl (x # xs) ys")
        (auto simp: max_def intro: exI [of _ us] exI [of _ vs])
  qed
qed auto

lemma subseq_rev_mono: "subseq xs ys \<Longrightarrow> subseq (rev xs) (rev ys)"
  by (induction rule: list_emb.induct) (auto intro: list_emb_append_mono subseq_rev_drop_many)

lemma subseq_rev: "subseq (rev xs) (rev ys) \<longleftrightarrow> subseq xs ys"
  using subseq_rev_mono [of xs ys] subseq_rev_mono [of "rev xs" "rev ys"] by auto

lemma lcsl_rev: "lcsl (rev xs) (rev ys) = lcsl xs ys"
proof (rule antisym)
  obtain ws where "subseq ws (rev xs)" "subseq ws (rev ys)" "length ws = lcsl (rev xs) (rev ys)"
    using lcsl_attained by blast
  then show "lcsl (rev xs) (rev ys) \<le> lcsl xs ys"
    using lcsl_upper [of "rev ws" xs ys] subseq_rev [of ws "rev xs"] subseq_rev [of ws "rev ys"] by simp
  obtain ws where "subseq ws xs" "subseq ws ys" "length ws = lcsl xs ys" using lcsl_attained by blast
  then show "lcsl xs ys \<le> lcsl (rev xs) (rev ys)" using lcsl_upper [of "rev ws" "rev xs" "rev ys"] by (simp add: subseq_rev)
qed

subsection \<open>The table and the walk\<close>

text \<open>A C string with \<open>k\<close> characters before its terminator.\<close>

definition cstring :: "u8 list \<Rightarrow> nat \<Rightarrow> bool" where
  "cstring s k \<longleftrightarrow> k < length s \<and> s ! k = 0 \<and> (\<forall>i < k. s ! i \<noteq> 0)"

record lcs_input =
  li_x :: "u8 list"
  li_y :: "u8 list"
  li_m :: nat
  li_n :: nat

definition li_ok :: "lcs_input \<Rightarrow> bool" where
  "li_ok p \<longleftrightarrow> li_n p < li_m p \<and> li_m p \<le> length (li_x p) \<and> li_n p \<le> length (li_y p)"

definition li_len :: "lcs_input \<Rightarrow> nat \<Rightarrow> nat \<Rightarrow> int" where
  "li_len p i j = int (lcsl (rev (take i (li_x p))) (rev (take j (li_y p))))"

lemma li_len_Suc:
  assumes "i < length (li_x p)" and "j < length (li_y p)"
  shows "li_len p (Suc i) (Suc j) =
    (if li_x p ! i = li_y p ! j then li_len p i j + 1
     else max (li_len p i (Suc j)) (li_len p (Suc i) j))"
  using assms by (simp add: li_len_def take_Suc_conv_app_nth of_nat_max)

lemma li_len_0 [simp]: "li_len p 0 j = 0" "li_len p i 0 = 0"
  by (simp_all add: li_len_def)

interpretation lc: dp_program li_ok li_m li_m li_n "\<lambda>p. lcs_value (li_x p) (li_y p) (li_m p)" li_len
proof
  fix p i j c
  assume ok: "li_ok p" and i: "i \<le> li_m p" and j: "j \<le> li_n p"
    and f: "filled (li_m p) (li_n p) (li_len p) i j c"
  show "lcs_value (li_x p) (li_y p) (li_m p) i j c = Some (li_len p i j)"
  proof (cases "i = 0 \<or> j = 0")
    case True
    then show ?thesis by (auto simp: lcs_value_def)
  next
    case False
    then obtain k l where kl: "i = Suc k" "j = Suc l" by (metis not0_implies_Suc)
    have b: "k < length (li_x p)" "l < length (li_y p)" using ok i j kl by (auto simp: li_ok_def)
    note r = filled_rd [OF f]
    have "rd c (cell (li_m p) k l) = Some (li_len p k l)" "rd c (cell (li_m p) k j) = Some (li_len p k j)"
      "rd c (cell (li_m p) i l) = Some (li_len p i l)"
      using r [of l k] r [of j k] r [of l i] j kl by simp_all
    then show ?thesis using b kl by (simp add: lcs_value_def li_len_Suc)
  qed
qed (simp add: li_ok_def)

text \<open>
  From a cell the walk fills the slots below \<open>index\<close> with a common subsequence of the prefixes
  and leaves the other slots as they were.
\<close>

lemma lcs_back_ok:
  assumes "li_ok p" and f: "filled (li_m p) (li_n p) (li_len p) (Suc (li_m p)) 0 c"
    and "i \<le> li_m p" and "j \<le> li_n p" and "int index = li_len p i j" and "index \<le> length seq"
  shows "\<exists>seq'. lcs_back (li_x p) (li_y p) c (li_m p) i j index seq = Some seq' \<and>
    length seq' = length seq \<and> drop index seq' = drop index seq \<and>
    subseq (take index seq') (take i (li_x p)) \<and> subseq (take index seq') (take j (li_y p))"
  using assms(3-6)
proof (induction "i + j" arbitrary: i j index seq rule: less_induct)
  case less
  show ?case
  proof (cases "i = 0 \<or> j = 0")
    case True
    then have "index = 0" using less.prems(3) by auto
    then show ?thesis using True by (cases i) auto
  next
    case False
    then obtain k l where kl: "i = Suc k" "j = Suc l" by (metis not0_implies_Suc)
    have b: "k < length (li_x p)" "l < length (li_y p)" using assms(1) less.prems kl by (auto simp: li_ok_def)
    note t = take_Suc_conv_app_nth [OF b(1)] take_Suc_conv_app_nth [OF b(2)]
    have cells: "rd c (cell (li_m p) k j) = Some (li_len p k j)" "rd c (cell (li_m p) i l) = Some (li_len p i l)"
      using filled_rd [OF f, of j k] filled_rd [OF f, of l i] less.prems(1,2) kl by simp_all
    let ?x = "li_x p ! k" and ?y = "li_y p ! l"
    show ?thesis
    proof (cases "?x = ?y")
      case True
      then have idx: "int index = li_len p k l + 1" using less.prems(3) b kl by (simp add: li_len_Suc)
      have "0 \<le> li_len p k l" by (simp add: li_len_def)
      with idx obtain h where h: "index = Suc h" "int h = li_len p k l" by (cases index) auto
      have hl: "h < length seq" using h less.prems(4) by simp
      have w: "wr seq (int index - 1) ?x = Some (seq[h := ?x])" using h(1) hl by (simp add: wr_def)
      obtain seq' where s: "lcs_back (li_x p) (li_y p) c (li_m p) k l h (seq[h := ?x]) = Some seq'"
        "length seq' = length seq" "drop h seq' = drop h (seq[h := ?x])"
        "subseq (take h seq') (take k (li_x p))" "subseq (take h seq') (take l (li_y p))"
        using less.hyps [of k l h "seq[h := ?x]"] less.prems kl h hl by auto
      have "seq' ! h = ?x"
        using s(2,3) hl by (metis Cons_nth_drop_Suc length_list_update list.inject nth_list_update_eq)
      then have tk: "take index seq' = take h seq' @ [?x]" using h hl s(2) by (simp add: take_Suc_conv_app_nth)
      have "drop index seq' = drop 1 (drop h seq')" using h by simp
      also have "\<dots> = drop index seq" unfolding s(3) using h by simp
      finally have d: "drop index seq' = drop index seq" .
      have "lcs_back (li_x p) (li_y p) c (li_m p) i j index seq = Some seq'"
        using True kl b h(1) s(1) w by simp
      moreover have "subseq (take index seq') (take i (li_x p)) \<and> subseq (take index seq') (take j (li_y p))"
        using s(4,5) True by (simp add: tk kl t)
      ultimately show ?thesis using s(2) d by blast
    next
      case False
      then have mx: "int index = max (li_len p k j) (li_len p i l)" using less.prems(3) b kl by (simp add: li_len_Suc)
      show ?thesis
      proof (cases "li_len p k j > li_len p i l")
        case True
        then obtain seq' where s: "lcs_back (li_x p) (li_y p) c (li_m p) k j index seq = Some seq'"
          "length seq' = length seq" "drop index seq' = drop index seq"
          "subseq (take index seq') (take k (li_x p))" "subseq (take index seq') (take j (li_y p))"
          using less.hyps [of k j index seq] less.prems kl mx by auto
        then show ?thesis using False True kl b cells t subseq_rev_drop_many [OF s(4)] by simp
      next
        case le: False
        then obtain seq' where s: "lcs_back (li_x p) (li_y p) c (li_m p) i l index seq = Some seq'"
          "length seq' = length seq" "drop index seq' = drop index seq"
          "subseq (take index seq') (take i (li_x p))" "subseq (take index seq') (take l (li_y p))"
          using less.hyps [of i l index seq] less.prems kl mx by auto
        then show ?thesis using False le kl b cells t subseq_rev_drop_many [OF s(5)] by simp
      qed
    qed
  qed
qed

subsection \<open>The memoised recursion\<close>

definition lcs_memo_ok :: "u8 list \<Rightarrow> u8 list \<Rightarrow> nat \<Rightarrow> nat \<Rightarrow> int list \<Rightarrow> bool" where
  "lcs_memo_ok x y m n c \<longleftrightarrow> (\<forall>i < m. \<forall>j < n. i * m + j < length c \<and>
     (0 \<le> c ! (i * m + j) \<longrightarrow>
      c ! (i * m + j) = int (lcsl (drop i (take m x)) (drop j (take n y)))))"

lemma lcs_memo_ok_update:
  assumes "lcs_memo_ok x y m n c" and "n \<le> m" and "i < m" and "j < n"
    and "v = int (lcsl (drop i (take m x)) (drop j (take n y)))"
  shows "\<exists>c'. wr c (cell m i j) v = Some c' \<and> lcs_memo_ok x y m n c'"
proof -
  have lt: "i * m + j < length c" using assms(1,3,4) by (simp add: lcs_memo_ok_def)
  have "i' = i \<and> j' = j" if "i' * m + j' = i * m + j" "j' < n" for i' j'
    using slot_inj [OF that(1)] that(2) assms(2,4) by simp
  then have "lcs_memo_ok x y m n (c[i * m + j := v])"
    using assms(1,5) lt by (auto simp: lcs_memo_ok_def nth_list_update)
  then show ?thesis using lt by (simp add: wr_cell)
qed

lemma lcs_rec_sub_ok:
  assumes x: "cstring x m" and y: "cstring y n" and mn: "n \<le> m"
    and "lcs_memo_ok x y m n c" and "i \<le> m" and "j \<le> n"
  shows "\<exists>c'. lcs_rec_sub x y c i j m = Some (int (lcsl (drop i (take m x)) (drop j (take n y))), c') \<and>
    lcs_memo_ok x y m n c'"
  using assms(4-6)
proof (induction "(m - i) + (n - j)" arbitrary: i j c rule: less_induct)
  case less
  note def = lcs_rec_sub.simps [of x y c i j m]
  have b: "rd x (int i) = Some (x ! i)" "rd y (int j) = Some (y ! j)"
    using x y less.prems by (auto simp: cstring_def)
  have ends: "x ! i = 0 \<longleftrightarrow> i = m" "y ! j = 0 \<longleftrightarrow> j = n"
    using x y less.prems(2,3) by (auto simp: cstring_def le_less)
  show ?case
  proof (cases "i = m \<or> j = n")
    case True
    then show ?thesis using b ends less.prems(1) unfolding def by auto
  next
    case False
    then have lt: "i < m" "j < n" using less.prems by auto
    have dx: "drop i (take m x) = x ! i # drop (Suc i) (take m x)"
      using lt x by (subst Cons_nth_drop_Suc [symmetric]) (auto simp: cstring_def)
    have dy: "drop j (take n y) = y ! j # drop (Suc j) (take n y)"
      using lt y by (subst Cons_nth_drop_Suc [symmetric]) (auto simp: cstring_def)
    have l: "i * m + j < length c" using less.prems(1) lt by (simp add: lcs_memo_ok_def)
    let ?L = "\<lambda>i j. int (lcsl (drop i (take m x)) (drop j (take n y)))"
    show ?thesis
    proof (cases "c ! (i * m + j) < 0")
      case False
      then show ?thesis using b ends lt l less.prems(1) unfolding def by (auto simp: rd_cell lcs_memo_ok_def)
    next
      case neg: True
      show ?thesis
      proof (cases "x ! i = y ! j")
        case True
        obtain c1 where 1: "lcs_rec_sub x y c (i + 1) (j + 1) m = Some (?L (i + 1) (j + 1), c1)"
          "lcs_memo_ok x y m n c1"
        proof -
          have "(m - (i + 1)) + (n - (j + 1)) < (m - i) + (n - j)" using lt by linarith
          from less.hyps [OF this less.prems(1)] that lt show ?thesis by auto
        qed
        have v: "?L i j = ?L (i + 1) (j + 1) + 1" using True by (simp add: dx dy)
        obtain c2 where "wr c1 (cell m i j) (?L i j) = Some c2" "lcs_memo_ok x y m n c2"
          using lcs_memo_ok_update [OF 1(2) mn lt refl] by blast
        then show ?thesis using b ends lt l neg True 1(1) unfolding def v by (simp add: rd_cell)
      next
        case False
        obtain c1 where 1: "lcs_rec_sub x y c (i + 1) j m = Some (?L (i + 1) j, c1)"
          "lcs_memo_ok x y m n c1"
        proof -
          have "(m - (i + 1)) + (n - j) < (m - i) + (n - j)" using lt by linarith
          from less.hyps [OF this less.prems(1)] that lt show ?thesis by auto
        qed
        obtain c2 where 2: "lcs_rec_sub x y c1 i (j + 1) m = Some (?L i (j + 1), c2)"
          "lcs_memo_ok x y m n c2"
        proof -
          have "(m - i) + (n - (j + 1)) < (m - i) + (n - j)" using lt by linarith
          from less.hyps [OF this 1(2)] that lt show ?thesis by auto
        qed
        have v: "?L i j = max (?L (i + 1) j) (?L i (j + 1))" using False by (simp add: dx dy of_nat_max)
        obtain c3 where "wr c2 (cell m i j) (?L i j) = Some c3" "lcs_memo_ok x y m n c3"
          using lcs_memo_ok_update [OF 2(2) mn lt refl] by blast
        then show ?thesis using b ends lt l neg False 1(1) 2(1) unfolding def v by (simp add: rd_cell)
      qed
    qed
  qed
qed

subsection \<open>Properties\<close>

text \<open>A calculator as \<open>lcs_init\<close> leaves it.\<close>

definition lcs_fresh :: "lcs_calculator \<Rightarrow> bool" where
  "lcs_fresh l \<longleftrightarrow> cstring (lcs_x l) (lcs_len_x l) \<and> cstring (lcs_y l) (lcs_len_y l) \<and>
     lcs_results l = replicate ((lcs_len_x l + 1) * (lcs_len_y l + 1)) (-1)"

lemma strlen_cstring:
  assumes "strlen s = Some k"
  shows "cstring s k"
proof -
  have z: "0 \<in> set s" and k: "k = length (takeWhile (\<lambda>c. c \<noteq> 0) s)"
    using assms by (auto simp: strlen_def split: if_splits)
  have lt: "k < length s"
    using z k length_takeWhile_le [of "\<lambda>c. c \<noteq> 0" s] takeWhile_eq_all_conv [of "\<lambda>c. c \<noteq> 0" s]
      takeWhile_eq_take [of "\<lambda>c. c \<noteq> 0" s] by (metis le_neq_implies_less take_all_iff order_refl)
  have "s ! k = 0" using nth_length_takeWhile [of "\<lambda>c. c \<noteq> 0" s] lt k by simp
  moreover have "s ! i \<noteq> 0" if "i < k" for i
    using that k by (metis (mono_tags, lifting) nth_mem set_takeWhileD takeWhile_nth)
  ultimately show ?thesis using lt by (simp add: cstring_def)
qed

lemma lcs_init_fresh:
  assumes "lcs_init x y mem seq0 = Some (OK, Some l)"
  shows "lcs_fresh l"
  using assms by (auto simp: lcs_init_def lcs_fresh_def bind_eq_Some_conv fpc_error_def strlen_cstring
      split: option.splits)

lemma lcs_iter_ok:
  assumes l: "lcs_fresh l" and mn: "lcs_len_x l = Suc (lcs_len_y l)" and small: "lcs_len_x l < 2 ^ 31"
  defines "xs \<equiv> take (lcs_len_x l) (lcs_x l)" and "ys \<equiv> take (lcs_len_y l) (lcs_y l)"
  shows "\<exists>zs l'. lcs_iter (Some junk) (Some l) = Some (OK, Some l') \<and>
    lcs_sequence l' = Some (zs @ [0]) \<and> lcs_size l' = length zs \<and> length zs = lcsl xs ys \<and>
    subseq zs xs \<and> subseq zs ys"
proof -
  let ?m = "lcs_len_x l" and ?n = "lcs_len_y l"
  let ?p = "\<lparr>li_x = lcs_x l, li_y = lcs_y l, li_m = ?m, li_n = ?n\<rparr>"
  have ok: "li_ok ?p" using l mn by (simp add: li_ok_def lcs_fresh_def cstring_def)
  have room: "li_m ?p * li_m ?p + li_n ?p < length (lcs_results l)"
    using l mn by (simp add: lcs_fresh_def)
  from lc.fill_ok [OF ok room] obtain c where c: "fill_table ?m ?m ?n (lcs_value (lcs_x l) (lcs_y l) ?m)
      (lcs_results l) = Some c" "filled ?m ?n (li_len ?p) (Suc ?m) 0 c" by auto
  let ?k = "lcsl xs ys"
  have len: "li_len ?p ?m ?n = int ?k" by (simp add: li_len_def xs_def ys_def lcsl_rev)
  have v: "rd c (cell ?m ?m ?n) = Some (int ?k)" using filled_rd [OF c(2), of ?n ?m] len by simp
  obtain ws where "subseq ws xs" "length ws = ?k" using lcsl_attained by blast
  then have k: "?k < 2 ^ 64" using small list_emb_length [of "(=)" ws xs] by (simp add: xs_def)
  let ?seq = "(map junk [0..<?k + 1])[?k := 0]"
  obtain seq where s: "lcs_back (lcs_x l) (lcs_y l) c ?m ?m ?n ?k ?seq = Some seq"
    "length seq = ?k + 1" "drop ?k seq = drop ?k ?seq" "subseq (take ?k seq) xs" "subseq (take ?k seq) ys"
    using lcs_back_ok [OF ok, of c ?m ?n ?k ?seq] c(2) len by (auto simp: xs_def ys_def)
  have "drop ?k seq = [0]" using s(3) by (simp add: list_update_append)
  then have "seq = take ?k seq @ [0]" by (metis append_take_drop_id)
  moreover have "lcs_iter (Some junk) (Some l) =
      Some (OK, Some (l\<lparr>lcs_results := c, lcs_size := ?k, lcs_sequence := Some seq\<rparr>))"
    using c(1) v k s(1) by (simp add: lcs_iter_def Let_def wr_def)
  moreover have "length (take ?k seq) = ?k" using s(2) by simp
  ultimately show ?thesis using s(4,5) by (intro exI [of _ "take ?k seq"]) fastforce
qed

lemma lcs_rec_ok:
  assumes l: "lcs_fresh l" and mn: "lcs_len_y l \<le> lcs_len_x l" "lcs_len_x l \<le> lcs_len_y l + 2"
  shows "\<exists>l'. lcs_rec (Some l) =
    Some (int (lcsl (take (lcs_len_x l) (lcs_x l)) (take (lcs_len_y l) (lcs_y l))), Some l')"
proof -
  let ?m = "lcs_len_x l" and ?n = "lcs_len_y l"
  have "i * ?m + j < (?m + 1) * (?n + 1)" if "i < ?m" "j < ?n" for i j
  proof -
    have "i \<le> ?n + 1" using that mn(2) by simp
    then have "i * ?m \<le> (?n + 1) * ?m" by (rule mult_le_mono1)
    then show ?thesis using that(2) by (simp add: algebra_simps)
  qed
  then have "lcs_memo_ok (lcs_x l) (lcs_y l) ?m ?n (lcs_results l)"
    using l by (simp add: lcs_memo_ok_def lcs_fresh_def del: mult_Suc mult_Suc_right replicate.simps)
  then show ?thesis
    using lcs_rec_sub_ok [OF _ _ mn(1), of "lcs_x l" "lcs_y l" "lcs_results l" 0 0] l
    by (auto simp: lcs_rec_def lcs_fresh_def)
qed

text \<open>
  C24: when the first string is one character longer than the second, the iteration stores a
  longest common subsequence of the two and its length, and the recursion returns that length.
\<close>

theorem lcs_correct:
  assumes "lcs_fresh l" and "lcs_len_x l = Suc (lcs_len_y l)" and "lcs_len_x l < 2 ^ 31"
    and "xs = take (lcs_len_x l) (lcs_x l)" and "ys = take (lcs_len_y l) (lcs_y l)"
  shows "\<exists>zs l' l''. lcs_iter (Some junk) (Some l) = Some (OK, Some l') \<and>
    lcs_sequence l' = Some (zs @ [0]) \<and> lcs_size l' = length zs \<and> subseq zs xs \<and> subseq zs ys \<and>
    (\<forall>ws. subseq ws xs \<longrightarrow> subseq ws ys \<longrightarrow> length ws \<le> length zs) \<and>
    lcs_rec (Some l) = Some (int (length zs), l'')"
proof -
  obtain l'' where "lcs_rec (Some l) = Some (int (lcsl xs ys), Some l'')"
    using lcs_rec_ok [OF assms(1)] assms(2) by (auto simp: assms(4,5))
  with lcs_iter_ok [OF assms(1-3), of junk] lcsl_upper [of _ xs ys] show ?thesis
    unfolding assms(4,5) by metis
qed

definition example_lcs :: lcs_calculator where
  "example_lcs = \<lparr>lcs_size = 0, lcs_len_x = 3, lcs_len_y = 2, lcs_x = [97, 98, 99, 0], lcs_y = [97, 99, 0],
     lcs_results = replicate 12 (-1), lcs_sequence = None\<rparr>"

theorem lcs_correct_witness:
  "\<exists>zs l' l''. lcs_iter (Some (\<lambda>_. 0)) (Some example_lcs) = Some (OK, Some l') \<and>
    lcs_sequence l' = Some (zs @ [0]) \<and> subseq zs [97, 98, 99 :: u8] \<and> subseq zs [97, 99] \<and>
    (\<forall>ws. subseq ws [97, 98, 99 :: u8] \<longrightarrow> subseq ws [97, 99] \<longrightarrow> length ws \<le> length zs) \<and>
    lcs_rec (Some example_lcs) = Some (int (length zs), l'')"
proof -
  have "lcs_fresh example_lcs" by code_simp
  from lcs_correct [OF this, of "[97, 98, 99]" "[97, 99]" "\<lambda>_. 0"]
  show ?thesis by (auto simp: example_lcs_def)
qed

end
