(* ===== verification/Mcm.thy ===== *)
theory Mcm
  imports Alloc Dp_Table
begin

text \<open>
  The order of a chain of matrix products (src/algorithm/mcm_opt.c): the iteration over chain
  lengths, and the reports along its table of splits. Matrix \<open>i\<close> of the chain, from 1, has
  \<open>matrices[i - 1]\<close> rows and \<open>matrices[i]\<close> columns. Products and sums are of \<open>size_t\<close>.
\<close>

subsection \<open>The optimizer\<close>

record mcm_optimizer =
  mcm_min_mults :: nat
  mcm_matrices :: "nat list"
  mcm_size :: nat
  mcm_results :: "nat list"
  mcm_route :: "nat list"

definition INT_MAX :: nat where
  "INT_MAX = 2 ^ 31 - 1"

text \<open>The contents of both blocks \<open>malloc\<close> returns are cleared; see \<open>rcsw_alloc\<close> for a failure.\<close>

definition mcm_opt_init ::
  "nat list option \<Rightarrow> nat \<Rightarrow> (nat \<Rightarrow> nat) option \<Rightarrow> (nat \<Rightarrow> nat) option \<Rightarrow>
   (status \<times> mcm_optimizer option) option" where
  "mcm_opt_init matrices sz mem1 mem2 =
     (case matrices of
        None \<Rightarrow> Some (fpc_error, None)
      | Some ms \<Rightarrow>
          if \<not> sz \<ge> 2 then Some (fpc_error, None)
          else do {
            r \<leftarrow> rcsw_alloc (\<lambda>_ _. 0) None mem1 RCSW_ZALLOC;
            t \<leftarrow> rcsw_alloc (\<lambda>_ _. 0) None mem2 RCSW_ZALLOC;
            (case (r, t) of
               (Some results, Some route) \<Rightarrow>
                 Some (OK, Some \<lparr>mcm_min_mults = 0, mcm_matrices = ms, mcm_size = sz,
                   mcm_results = map results [0..<sz * sz], mcm_route = map route [0..<sz * sz]\<rparr>)
             | _ \<Rightarrow> Some (ERROR None, None))
          })"

definition mcm_opt_destroy :: "mcm_optimizer \<Rightarrow> bool \<times> bool" where
  "mcm_opt_destroy mcm =
     (rcsw_free (Some (mcm_results mcm)) RCSW_NONE, rcsw_free (Some (mcm_route mcm)) RCSW_NONE)"

subsection \<open>The optimisation\<close>

text \<open>The body of the innermost loop: the cost of splitting \<open>j..k\<close> after matrix \<open>q\<close>.\<close>

definition mcm_try ::
  "nat list \<Rightarrow> nat \<Rightarrow> nat \<Rightarrow> nat \<Rightarrow> nat \<Rightarrow> nat list \<times> nat list \<Rightarrow> (nat list \<times> nat list) option" where
  "mcm_try ms sz j k q = (\<lambda>(r, t). do {
     a \<leftarrow> rd r (cell sz q j);
     b \<leftarrow> rd r (cell sz k (q + 1));
     x \<leftarrow> rd ms (int (j - 1));
     y \<leftarrow> rd ms (int q);
     z \<leftarrow> rd ms (int k);
     let num = (a + b + x * y * z) mod 2 ^ 64;
     old \<leftarrow> rd r (cell sz k j);
     if num < old then do {
       r1 \<leftarrow> wr r (cell sz k j) num;
       t1 \<leftarrow> wr t (cell sz k j) q;
       Some (r1, t1)
     } else Some (r, t)
   })"

text \<open>One chain \<open>j..k\<close>, all chains of length \<open>i\<close>, and all lengths.\<close>

definition mcm_chain ::
  "nat list \<Rightarrow> nat \<Rightarrow> nat \<Rightarrow> nat \<Rightarrow> nat list \<times> nat list \<Rightarrow> (nat list \<times> nat list) option" where
  "mcm_chain ms sz i j = (\<lambda>(r, t). do {
     let k = j + i - 1;
     r1 \<leftarrow> wr r (cell sz k j) INT_MAX;
     for_range j k (\<lambda>q. mcm_try ms sz j k q) (r1, t)
   })"

definition mcm_length ::
  "nat list \<Rightarrow> nat \<Rightarrow> nat \<Rightarrow> nat list \<times> nat list \<Rightarrow> (nat list \<times> nat list) option" where
  "mcm_length ms sz i = for_range 1 (sz - 1 - i + 2) (\<lambda>j. mcm_chain ms sz i j)"

definition mcm_opt_optimize :: "mcm_optimizer \<Rightarrow> (status \<times> mcm_optimizer) option" where
  "mcm_opt_optimize mcm = do {
     let sz = mcm_size mcm;
     r0 \<leftarrow> for_range 1 sz (\<lambda>i r. wr r (cell sz i i) 0) (mcm_results mcm);
     (r, t) \<leftarrow> for_range 2 (sz - 1 + 1) (\<lambda>i. mcm_length (mcm_matrices mcm) sz i)
                 (r0, mcm_route mcm);
     v \<leftarrow> rd r (cell sz (sz - 1) 1);
     Some (OK, mcm\<lparr>mcm_results := r, mcm_route := t, mcm_min_mults := v\<rparr>)
   }"

subsection \<open>The report\<close>

text \<open>The matrices that are a side of their own of the product after \<open>k\<close>.\<close>

definition mcm_report_pair :: "nat \<Rightarrow> nat \<Rightarrow> nat \<Rightarrow> nat list \<times> nat \<Rightarrow> (nat list \<times> nat) option" where
  "mcm_report_pair i j k = (\<lambda>(ord, cnt). do {
     (ord1, cnt1) \<leftarrow> (if i = k then map_option (\<lambda>o1. (o1, cnt + 1)) (wr ord (int cnt) k)
                      else Some (ord, cnt));
     if k + 1 = j then map_option (\<lambda>o2. (o2, cnt1 + 1)) (wr ord1 (int cnt1) (k + 1))
     else Some (ord1, cnt1)
   })"

text \<open>The recursion follows the table of splits; it need not end when the table is wrong.\<close>

partial_function (option) mcm_opt_report_parens ::
  "nat list \<Rightarrow> nat \<Rightarrow> nat \<Rightarrow> nat \<Rightarrow> nat list \<times> nat \<Rightarrow> (nat list \<times> nat) option" where
  "mcm_opt_report_parens arr i j len st =
     (if i = j then Some st
      else do {
        k \<leftarrow> rd arr (cell len j i);
        st1 \<leftarrow> mcm_opt_report_parens arr i k len st;
        st2 \<leftarrow> mcm_opt_report_parens arr (k + 1) j len st1;
        mcm_report_pair i j k st2
      })"

definition mcm_opt_report ::
  "mcm_optimizer \<Rightarrow> nat list option \<Rightarrow> (status \<times> nat list option) option" where
  "mcm_opt_report mcm out =
     (case out of
        None \<Rightarrow> Some (fpc_error, None)
      | Some ord \<Rightarrow>
          map_option (\<lambda>(o1, _). (OK, Some o1))
            (mcm_opt_report_parens (mcm_route mcm) 1 (mcm_size mcm - 1) (mcm_size mcm) (ord, 0)))"

subsection \<open>Parenthesisations and their cost\<close>

datatype paren = One | Mul paren paren

fun leaves :: "paren \<Rightarrow> nat" where
  "leaves One = 1"
| "leaves (Mul a b) = leaves a + leaves b"

text \<open>The multiplications of a parenthesisation of the chain that starts at matrix \<open>j\<close>.\<close>

fun mults :: "(nat \<Rightarrow> nat) \<Rightarrow> nat \<Rightarrow> paren \<Rightarrow> nat" where
  "mults d j One = 0"
| "mults d j (Mul a b) =
     mults d j a + mults d (j + leaves a) b + d (j - 1) * d (j + leaves a - 1) * d (j + leaves a + leaves b - 1)"

text \<open>The least cost of a chain, by the recurrence over the last product.\<close>

function best :: "(nat \<Rightarrow> nat) \<Rightarrow> nat \<Rightarrow> nat \<Rightarrow> nat" where
  "best d j n =
     (if n \<le> 1 then 0
      else Min (set (map (\<lambda>a. best d j a + best d (j + a) (n - a) + d (j - 1) * d (j + a - 1) * d (j + n - 1)) [1..<n])))"
  by pat_completeness auto
termination by (relation "measure (\<lambda>(d, j, n). n)") auto

declare best.simps [simp del]

lemma leaves_pos: "0 < leaves t"
  by (induction t) auto

lemma best_attained: "0 < n \<Longrightarrow> \<exists>t. leaves t = n \<and> mults d j t = best d j n"
proof (induction n arbitrary: j rule: less_induct)
  case (less n)
  show ?case
  proof (cases "n = 1")
    case True
    then show ?thesis by (intro exI [of _ One]) (simp add: best.simps)
  next
    case False
    let ?f = "\<lambda>a. best d j a + best d (j + a) (n - a) + d (j - 1) * d (j + a - 1) * d (j + n - 1)"
    have "best d j n = Min (?f ` {1..<n})"
      using False less.prems by (subst best.simps) simp
    moreover have "Min (?f ` {1..<n}) \<in> ?f ` {1..<n}" using False less.prems by (intro Min_in) auto
    ultimately obtain a where a: "1 \<le> a" "a < n" "best d j n = ?f a" by auto
    obtain l where l: "leaves l = a" "mults d j l = best d j a" using less.IH [of a] a by auto
    obtain r where r: "leaves r = n - a" "mults d (j + a) r = best d (j + a) (n - a)"
      using less.IH [of "n - a"] a by auto
    show ?thesis using l r a by (intro exI [of _ "Mul l r"]) simp
  qed
qed

lemma best_least: "best d j (leaves t) \<le> mults d j t"
proof (induction t arbitrary: j)
  case One
  then show ?case by (simp add: best.simps)
next
  case (Mul a b)
  let ?n = "leaves a + leaves b"
  let ?f = "\<lambda>x. best d j x + best d (j + x) (?n - x) + d (j - 1) * d (j + x - 1) * d (j + ?n - 1)"
  have n: "leaves a \<in> {1..<?n}" "\<not> ?n \<le> 1" using leaves_pos [of a] leaves_pos [of b] by auto
  have "best d j ?n = Min (?f ` {1..<?n})" using n(2) by (subst best.simps) simp
  also have "\<dots> \<le> ?f (leaves a)" using imageI [OF n(1), of ?f] by (intro Min_le) auto
  also have "\<dots> \<le> mults d j (Mul a b)" using Mul.IH(1) [of j] Mul.IH(2) [of "j + leaves a"] by (simp add: add.assoc)
  finally show ?case by simp
qed

subsection \<open>The optimisation computes the least cost\<close>

text \<open>What the table holds for \<open>j..k\<close>: the least cost, or \<open>INT_MAX\<close> when it is larger.\<close>

definition capped :: "nat list \<Rightarrow> nat \<Rightarrow> nat \<Rightarrow> nat" where
  "capped ms j k = min INT_MAX (best (\<lambda>i. ms ! i) j (k + 1 - j))"

definition split_cost :: "nat list \<Rightarrow> nat \<Rightarrow> nat \<Rightarrow> nat \<Rightarrow> nat" where
  "split_cost ms j k q = capped ms j q + capped ms (q + 1) k + ms ! (j - 1) * ms ! q * ms ! k"

lemma capped_rec:
  assumes "1 \<le> j" and "j < k"
  shows "capped ms j k = Min (insert INT_MAX (split_cost ms j k ` {j..<k}))"
proof -
  let ?n = "k + 1 - j" and ?d = "\<lambda>i. ms ! i"
  let ?f = "\<lambda>a. best ?d j a + best ?d (j + a) (?n - a) + ?d (j - 1) * ?d (j + a - 1) * ?d (j + ?n - 1)"
  have le: "m \<le> split_cost ms j k q \<longleftrightarrow> m \<le> ?f (q + 1 - j)" if "m \<le> INT_MAX" "q \<in> {j..<k}" for m q
  proof -
    have "k + 1 - j - (q + 1 - j) = k + 1 - (q + 1)" "j + (q + 1 - j) = q + 1" "j + (q + 1 - j) - 1 = q"
      "j + (k + 1 - j) - 1 = k" using that by auto
    then show ?thesis using that(1) by (simp add: split_cost_def capped_def)  linarith
  qed
  have n: "\<not> ?n \<le> 1" using assms by simp
  have "best ?d j ?n = Min (?f ` {1..<?n})" using n by (subst best.simps) simp
  also have "{1..<?n} = (\<lambda>q. q + 1 - j) ` {j..<k}"
  proof -
    have "a \<in> (\<lambda>q. q + 1 - j) ` {j..<k}" if "a \<in> {1..<?n}" for a
      using that by (intro image_eqI [of _ _ "a + j - 1"]) auto
    then show ?thesis by auto
  qed
  finally have b: "best ?d j ?n = Min ((\<lambda>q. ?f (q + 1 - j)) ` {j..<k})" by (simp add: image_image)
  have ne: "{j..<k} \<noteq> {}" using assms by simp
  have "m \<le> capped ms j k \<longleftrightarrow> m \<le> INT_MAX \<and> (\<forall>q \<in> {j..<k}. m \<le> ?f (q + 1 - j))" for m
    unfolding capped_def b using ne by (subst min.bounded_iff, subst Min_ge_iff) auto
  moreover have "m \<le> Min (insert INT_MAX (split_cost ms j k ` {j..<k})) \<longleftrightarrow>
      m \<le> INT_MAX \<and> (\<forall>q \<in> {j..<k}. m \<le> split_cost ms j k q)" for m
    by (subst Min_ge_iff) auto
  ultimately have "m \<le> capped ms j k \<longleftrightarrow> m \<le> Min (insert INT_MAX (split_cost ms j k ` {j..<k}))" for m
    using le by blast
  then show ?thesis by (meson order_antisym order_refl)
qed

text \<open>
  The table: its length, and the chains it holds, those in the set \<open>D\<close>.
\<close>

definition table_ok :: "nat list \<Rightarrow> nat \<Rightarrow> (nat \<times> nat) set \<Rightarrow> nat list \<times> nat list \<Rightarrow> bool" where
  "table_ok ms s D = (\<lambda>(r, t). length r = s * s \<and> length t = s * s \<and>
     (\<forall>(j, k) \<in> D. j < s \<longrightarrow> k < s \<longrightarrow> r ! (k * s + j) = capped ms j k))"

lemma slot_lt: "j < s \<Longrightarrow> k < s \<Longrightarrow> k * s + j < s * (s :: nat)"
  using mult_le_mono1 [of "Suc k" s s] by simp

lemma mcm_try_ok:
  assumes ms: "length ms = s" "\<forall>x \<in> set ms. x \<le> 2 ^ 20"
    and b: "1 \<le> j" "j \<le> q" "q < k" "k < s"
    and t: "table_ok ms s D (r, t)" and D: "(j, q) \<in> D" "(q + 1, k) \<in> D" "(j, k) \<notin> D"
    and v: "r ! (k * s + j) = Min (insert INT_MAX (split_cost ms j k ` {j..<q}))"
  shows "\<exists>r' t'. mcm_try ms s j k q (r, t) = Some (r', t') \<and> table_ok ms s D (r', t') \<and>
    r' ! (k * s + j) = Min (insert INT_MAX (split_cost ms j k ` {j..<Suc q}))"
proof -
  have js: "j < s" "q < s" "q + 1 < s" using b by auto
  have lr: "length r = s * s" "length t = s * s" using t by (auto simp: table_ok_def)
  have sl: "q * s + j < s * s" "k * s + (q + 1) < s * s" "k * s + j < s * s"
    using slot_lt js b(4) by blast+
  have cells: "r ! (q * s + j) = capped ms j q" "r ! (k * s + (q + 1)) = capped ms (q + 1) k"
    using t D(1,2) js b(4) by (auto simp: table_ok_def)
  have prod: "ms ! (j - 1) * ms ! q * ms ! k \<le> 2 ^ 60"
  proof -
    have "ms ! i \<le> 2 ^ 20" if "i < s" for i using ms that by simp
    then have "ms ! (j - 1) \<le> 2 ^ 20" "ms ! q \<le> 2 ^ 20" "ms ! k \<le> 2 ^ 20" using js b(4) by auto
    then have "ms ! (j - 1) * ms ! q * ms ! k \<le> 2 ^ 20 * 2 ^ 20 * 2 ^ 20" by (intro mult_le_mono)
    then show ?thesis by simp
  qed
  let ?num = "split_cost ms j k q" and ?old = "r ! (k * s + j)"
  have num: "?num < 2 ^ 64"
    using prod by (simp add: split_cost_def capped_def INT_MAX_def min_def split: if_splits)
  have mn: "Min (insert INT_MAX (split_cost ms j k ` {j..<Suc q})) = min ?num ?old"
  proof -
    have "insert INT_MAX (split_cost ms j k ` {j..<Suc q}) =
        insert ?num (insert INT_MAX (split_cost ms j k ` {j..<q}))"
      using b(2) by (auto simp: atLeastLessThanSuc)
    then show ?thesis unfolding v by (simp add: Min_insert)
  qed
  have rds: "rd ms (int (j - 1)) = Some (ms ! (j - 1))" "rd ms (int q) = Some (ms ! q)"
    "rd ms (int k) = Some (ms ! k)"
    using ms(1) js b(4) by (auto simp del: of_nat_diff)
  have try_eq: "mcm_try ms s j k q (r, t) =
      (if ?num < ?old then Some (r[k * s + j := ?num], t[k * s + j := q]) else Some (r, t))"
    using sl lr cells num rds by (simp add: mcm_try_def rd_cell wr_cell Let_def split_cost_def)
  show ?thesis
  proof (cases "?num < ?old")
    case False
    then show ?thesis using try_eq t mn by simp
  next
    case True
    have "j' = j \<and> k' = k" if "k' * s + j' = k * s + j" "j' < s" for j' k'
      using slot_inj [OF that(1,2) js(1)] by simp
    then have "table_ok ms s D (r[k * s + j := ?num], t[k * s + j := q])"
      using t D(3) sl(3) lr by (auto simp: table_ok_def nth_list_update)
    then show ?thesis using True try_eq mn sl(3) lr by simp
  qed
qed

lemma mcm_chain_ok:
  assumes ms: "length ms = s" "\<forall>x \<in> set ms. x \<le> 2 ^ 20"
    and b: "1 \<le> j" "2 \<le> i" "j + i \<le> s"
    and t: "table_ok ms s D (r, t)"
    and D: "\<And>j' k'. 1 \<le> j' \<Longrightarrow> j' \<le> k' \<Longrightarrow> k' - j' + 1 < i \<Longrightarrow> (j', k') \<in> D" and nD: "(j, j + i - 1) \<notin> D"
  shows "\<exists>st. mcm_chain ms s i j (r, t) = Some st \<and> table_ok ms s (insert (j, j + i - 1) D) st"
proof -
  define k where "k = j + i - 1"
  have k: "j < k" "k < s" "j < s" using b by (auto simp: k_def)
  have lr: "length r = s * s" using t by (auto simp: table_ok_def)
  have sl: "k * s + j < s * s" using slot_lt k by blast
  let ?r1 = "r[k * s + j := INT_MAX]"
  have inj: "j' = j \<and> k' = k" if "k' * s + j' = k * s + j" "j' < s" for j' k'
    using slot_inj [OF that k(3)] by simp
  have t1: "table_ok ms s D (?r1, t)"
    using t nD sl lr inj by (auto simp: table_ok_def nth_list_update k_def)
  let ?P = "\<lambda>q st. table_ok ms s D st \<and> fst st ! (k * s + j) = Min (insert INT_MAX (split_cost ms j k ` {j..<q}))"
  have "\<exists>st. for_range j k (\<lambda>q. mcm_try ms s j k q) (?r1, t) = Some st \<and> ?P k st"
  proof (rule for_range_inv [where P = ?P])
    fix q st assume q: "j \<le> q" "q < k" and P: "?P q st"
    obtain r' t' where st: "st = (r', t')" by (cases st)
    have in_D: "(j, q) \<in> D" "(q + 1, k) \<in> D" using D q b by (auto simp: k_def)
    show "\<exists>st'. mcm_try ms s j k q st = Some st' \<and> ?P (Suc q) st'"
      using mcm_try_ok [OF ms b(1) q k(2), of D r' t'] P in_D nD unfolding st by (fastforce simp: k_def)
  qed (use k t1 sl lr in auto)
  then obtain st where st: "for_range j k (\<lambda>q. mcm_try ms s j k q) (?r1, t) = Some st" "?P k st" by blast
  have "table_ok ms s (insert (j, k) D) st"
    using st(2) capped_rec [OF b(1) k(1)] by (auto simp: table_ok_def)
  then show ?thesis using st(1) sl lr by (simp add: mcm_chain_def wr_cell k_def Let_def)
qed

text \<open>The chains of at most \<open>i\<close> matrices, and those of the next length that start below \<open>j\<close>.\<close>

definition short_chains :: "nat \<Rightarrow> nat \<Rightarrow> (nat \<times> nat) set" where
  "short_chains i j = {(a, b). 1 \<le> a \<and> a \<le> b \<and> (b - a + 1 < i \<or> b - a + 1 = i \<and> a < j)}"

lemma short_chains_step: "1 \<le> j \<Longrightarrow> 2 \<le> i \<Longrightarrow> insert (j, j + i - 1) (short_chains i j) = short_chains i (Suc j)"
  by (auto simp: short_chains_def)

lemma mcm_length_ok:
  assumes ms: "length ms = s" "\<forall>x \<in> set ms. x \<le> 2 ^ 20" and i: "2 \<le> i" "i < s"
    and t: "table_ok ms s (short_chains i 1) st"
  shows "\<exists>st'. mcm_length ms s i st = Some st' \<and> table_ok ms s (short_chains (Suc i) 1) st'"
proof -
  let ?hi = "s - 1 - i + 2"
  have "\<exists>st'. for_range 1 ?hi (\<lambda>j. mcm_chain ms s i j) st = Some st' \<and> 1 \<le> ?hi \<and> table_ok ms s (short_chains i ?hi) st'"
  proof (rule for_range_inv [where P = "\<lambda>j st. 1 \<le> j \<and> table_ok ms s (short_chains i j) st"])
    fix j st assume j: "1 \<le> j" "j < ?hi" and P: "1 \<le> j \<and> table_ok ms s (short_chains i j) st"
    obtain r u where st: "st = (r, u)" by (cases st)
    have "j + i \<le> s" using j i by simp
    then obtain st' where "mcm_chain ms s i j (r, u) = Some st'"
      "table_ok ms s (insert (j, j + i - 1) (short_chains i j)) st'"
      using mcm_chain_ok [OF ms j(1) i(1), of "short_chains i j" r u] P st by (auto simp: short_chains_def)
    then show "\<exists>st'. mcm_chain ms s i j st = Some st' \<and> 1 \<le> Suc j \<and> table_ok ms s (short_chains i (Suc j)) st'"
      using short_chains_step [OF j(1) i(1)] st by auto
  qed (use t in auto)
  then obtain st' where st': "for_range 1 ?hi (\<lambda>j. mcm_chain ms s i j) st = Some st'"
    "table_ok ms s (short_chains i ?hi) st'" by blast
  have "table_ok ms s (short_chains (Suc i) 1) st'"
  proof -
    obtain r u where u: "st' = (r, u)" by (cases st')
    have "(a, b) \<in> short_chains i ?hi" if "(a, b) \<in> short_chains (Suc i) 1" "b < s" for a b
      using that i by (auto simp: short_chains_def)
    then show ?thesis using st'(2) unfolding u table_ok_def by fastforce
  qed
  then show ?thesis using st'(1) by (simp add: mcm_length_def)
qed

lemma mcm_diagonal:
  assumes "length r = s * s"
  shows "\<exists>r'. for_range 1 s (\<lambda>i r. wr r (cell s i i) 0) r = Some r' \<and> length r' = s * s \<and>
    (\<forall>i. 1 \<le> i \<longrightarrow> i < s \<longrightarrow> r' ! (i * s + i) = 0)"
proof (cases "s = 0")
  case False
  let ?P = "\<lambda>k u. length u = s * s \<and> (\<forall>i. 1 \<le> i \<longrightarrow> i < k \<longrightarrow> i < s \<longrightarrow> u ! (i * s + i) = 0)"
  have "\<exists>r'. for_range 1 s (\<lambda>i r. wr r (cell s i i) 0) r = Some r' \<and> ?P s r'"
  proof (rule for_range_inv [where P = ?P])
    fix k u assume k: "1 \<le> k" "k < s" and P: "?P k u"
    have "i = k" if "i * s + i = k * s + k" "i < s" for i using slot_inj [OF that k(2)] by simp
    then show "\<exists>u'. wr u (cell s k k) 0 = Some u' \<and> ?P (Suc k) u'"
      using P slot_lt [OF k(2) k(2)] by (auto simp: wr_cell nth_list_update less_Suc_eq)
  qed (use False assms in auto)
  then show ?thesis by auto
qed (use assms in auto)

lemma mcm_optimize_ok:
  assumes s: "mcm_size mcm = s" "2 \<le> s" "length (mcm_matrices mcm) = s" "length (mcm_results mcm) = s * s"
    "length (mcm_route mcm) = s * s" and ms: "\<forall>x \<in> set (mcm_matrices mcm). x \<le> 2 ^ 20"
  shows "\<exists>mcm'. mcm_opt_optimize mcm = Some (OK, mcm') \<and>
    mcm_min_mults mcm' = capped (mcm_matrices mcm) 1 (s - 1)"
proof -
  let ?ms = "mcm_matrices mcm"
  obtain r0 where r0: "for_range 1 s (\<lambda>i r. wr r (cell s i i) 0) (mcm_results mcm) = Some r0"
    "length r0 = s * s" "\<forall>i. 1 \<le> i \<longrightarrow> i < s \<longrightarrow> r0 ! (i * s + i) = 0"
    using mcm_diagonal [OF s(4)] by blast
  have t0: "table_ok ?ms s (short_chains 2 1) (r0, mcm_route mcm)"
    using r0(2,3) s(5) by (auto simp: table_ok_def short_chains_def capped_def best.simps)
  have hi: "s - 1 + 1 = s" using s(2) by simp
  have "\<exists>st. for_range 2 (s - 1 + 1) (\<lambda>i. mcm_length ?ms s i) (r0, mcm_route mcm) = Some st \<and>
      table_ok ?ms s (short_chains (s - 1 + 1) 1) st"
    by (rule for_range_inv [where P = "\<lambda>i st. table_ok ?ms s (short_chains i 1) st"])
      (use s(2) t0 mcm_length_ok [OF s(3) ms] in auto)
  then obtain r t where st: "for_range 2 (s - 1 + 1) (\<lambda>i. mcm_length ?ms s i) (r0, mcm_route mcm) = Some (r, t)"
    "table_ok ?ms s (short_chains s 1) (r, t)" unfolding hi by fast
  have "(s - 1) * s + 1 < s * s" using slot_lt [of 1 s "s - 1"] s(2) by simp
  moreover have "(1, s - 1) \<in> short_chains s 1" using s(2) by (auto simp: short_chains_def)
  ultimately have "rd r (cell s (s - 1) 1) = Some (capped ?ms 1 (s - 1))"
    using st(2) s(2) by (auto simp: table_ok_def rd_cell)
  then show ?thesis using r0(1) st(1) s(1) by (simp add: mcm_opt_optimize_def Let_def)
qed

subsection \<open>Properties\<close>

text \<open>
  C25: after \<open>mcm_opt_optimize\<close>, for dimensions up to \<open>2^20\<close>, \<open>min_mults\<close> is the least number of
  multiplications over all parenthesisations of the chain, or \<open>INT_MAX\<close> when they all need
  more.
\<close>

theorem mcm_opt_optimal:
  assumes "mcm_size mcm = s" and "2 \<le> s" and "length (mcm_matrices mcm) = s"
    and "length (mcm_results mcm) = s * s" and "length (mcm_route mcm) = s * s"
    and "\<forall>x \<in> set (mcm_matrices mcm). x \<le> 2 ^ 20"
  shows "\<exists>mcm' t. mcm_opt_optimize mcm = Some (OK, mcm') \<and> leaves t = s - 1 \<and>
    (\<forall>u. leaves u = s - 1 \<longrightarrow> mults (\<lambda>i. mcm_matrices mcm ! i) 1 t \<le> mults (\<lambda>i. mcm_matrices mcm ! i) 1 u) \<and>
    mcm_min_mults mcm' = min INT_MAX (mults (\<lambda>i. mcm_matrices mcm ! i) 1 t)"
proof -
  let ?d = "\<lambda>i. mcm_matrices mcm ! i"
  have n: "s - 1 + 1 - 1 = s - 1" "0 < s - 1" using assms(2) by auto
  obtain mcm' where m: "mcm_opt_optimize mcm = Some (OK, mcm')"
    "mcm_min_mults mcm' = capped (mcm_matrices mcm) 1 (s - 1)" using mcm_optimize_ok [OF assms] by blast
  obtain t where t: "leaves t = s - 1" "mults ?d 1 t = best ?d 1 (s - 1)" using best_attained [OF n(2)] by blast
  have "mults ?d 1 t \<le> mults ?d 1 u" if "leaves u = s - 1" for u
    using best_least [of ?d 1 u] that t(2) by simp
  moreover have "capped (mcm_matrices mcm) 1 (s - 1) = min INT_MAX (mults ?d 1 t)"
    unfolding capped_def n(1) t(2) ..
  ultimately show ?thesis using m t(1) by auto
qed

theorem mcm_opt_optimal_witness:
  "\<exists>mcm' t. mcm_opt_optimize \<lparr>mcm_min_mults = 0, mcm_matrices = [10, 30, 5, 60], mcm_size = 4,
      mcm_results = replicate 16 0, mcm_route = replicate 16 0\<rparr> = Some (OK, mcm') \<and> leaves t = 3 \<and>
    (\<forall>u. leaves u = 3 \<longrightarrow> mults (\<lambda>i. [10, 30, 5, 60] ! i) 1 t \<le> mults (\<lambda>i. [10, 30, 5, 60] ! i) 1 u) \<and>
    mcm_min_mults mcm' = min INT_MAX (mults (\<lambda>i. [10, 30, 5, 60] ! i) 1 t)"
  using mcm_opt_optimal [of "\<lparr>mcm_min_mults = 0, mcm_matrices = [10, 30, 5, 60], mcm_size = 4,
      mcm_results = replicate 16 0, mcm_route = replicate 16 0\<rparr>" 4]
  by (simp only: mcm_optimizer.simps length_replicate) simp

end
