(* ===== verification/Radix.thy ===== *)
theory Radix
  imports Rcsw_Prelude
begin

text \<open>
  Radix sort of \<open>size_t\<close> numbers (src/algorithm/sort.c, alg_arr_largest_num of
  src/algorithm/algorithm.c): the counting pass over one digit and the loop over the digits.
\<close>

subsection \<open>The functions\<close>

definition alg_arr_largest_num :: "nat list option \<Rightarrow> nat \<Rightarrow> nat option" where
  "alg_arr_largest_num array n_elts =
     (case array of
        None \<Rightarrow> Some 0
      | Some xs \<Rightarrow> for_range 0 n_elts
          (\<lambda>i largest. map_option (\<lambda>x. if x > largest then x else largest) (rd xs (int i))) 0)"

definition digit_of :: "nat \<Rightarrow> nat \<Rightarrow> nat \<Rightarrow> nat" where
  "digit_of digit base x = (x div digit) mod base"

definition radix_sort_prefix_sum ::
  "nat list option \<Rightarrow> nat \<Rightarrow> nat \<Rightarrow> nat \<Rightarrow> nat list option \<Rightarrow> (status \<times> nat list option) option" where
  "radix_sort_prefix_sum arr n_elts digit base prefix_sums =
     (case (arr, prefix_sums) of
        (Some xs, Some ps) \<Rightarrow>
          if \<not> (n_elts > 0 \<and> base > 0) then Some (fpc_error, Some ps)
          else if digit = 0 \<or> length ps < base then None
          else do {
            ps1 \<leftarrow> for_range 0 n_elts
              (\<lambda>i ps. do {
                 x \<leftarrow> rd xs (int i);
                 c \<leftarrow> rd ps (int (digit_of digit base x));
                 wr ps (int (digit_of digit base x)) (c + 1)
               }) (replicate base 0 @ drop base ps);
            ps2 \<leftarrow> for_range 1 base
              (\<lambda>i ps. do {
                 a \<leftarrow> rd ps (int i);
                 b \<leftarrow> rd ps (int i - 1);
                 wr ps (int i) (a + b)
               }) ps1;
            Some (OK, Some ps2)
          }
      | _ \<Rightarrow> Some (fpc_error, prefix_sums))"

text \<open>\<open>for (i = n_elts - 1; i != 0; i--)\<close>: index 0 is not visited.\<close>

fun radix_place ::
  "nat list \<Rightarrow> nat \<Rightarrow> nat \<Rightarrow> nat \<Rightarrow> nat list \<Rightarrow> nat list \<Rightarrow> (nat list \<times> nat list) option" where
  "radix_place xs digit base 0 tmp ps = Some (tmp, ps)"
| "radix_place xs digit base (Suc i) tmp ps =
     (case rd xs (int (Suc i)) of
        None \<Rightarrow> None
      | Some x \<Rightarrow>
          (case rd ps (int (digit_of digit base x)) of
             None \<Rightarrow> None
           | Some c \<Rightarrow>
               (case wr tmp (int c - 1) x of
                  None \<Rightarrow> None
                | Some tmp1 \<Rightarrow>
                    (case wr ps (int (digit_of digit base x)) (c - 1) of
                       None \<Rightarrow> None
                     | Some ps1 \<Rightarrow> radix_place xs digit base i tmp1 ps1))))"

text \<open>The counters are an array of 16.\<close>

definition radix_counting_sort ::
  "nat list option \<Rightarrow> nat list option \<Rightarrow> nat \<Rightarrow> nat \<Rightarrow> nat \<Rightarrow> (status \<times> nat list option) option" where
  "radix_counting_sort arr tmp n_elts digit base =
     (case (arr, tmp) of
        (Some xs, Some t) \<Rightarrow>
          if \<not> (n_elts > 0 \<and> digit > 0 \<and> base > 0) then Some (fpc_error, arr)
          else if length t < n_elts then None
          else do {
            (_, ps) \<leftarrow> radix_sort_prefix_sum arr n_elts digit base (Some (replicate 16 0));
            counters \<leftarrow> ps;
            (t1, _) \<leftarrow> radix_place xs digit base (n_elts - 1)
                         (replicate n_elts 0 @ drop n_elts t) counters;
            ys \<leftarrow> for_range 0 n_elts (\<lambda>i ys. do { x \<leftarrow> rd t1 (int i); wr ys (int i) x }) xs;
            Some (OK, Some ys)
          }
      | _ \<Rightarrow> Some (fpc_error, arr))"

text \<open>The loop over the digits; a base of 1 never ends, and a base of 0 divides by zero.\<close>

partial_function (option) radix_loop ::
  "nat \<Rightarrow> nat list \<Rightarrow> nat \<Rightarrow> nat \<Rightarrow> nat \<Rightarrow> nat list \<Rightarrow> nat list option" where
  "radix_loop m t n_elts base exp xs =
     (if exp = 0 then None
      else if m div exp > 0 then do {
        (_, ys) \<leftarrow> radix_counting_sort (Some xs) (Some t) n_elts exp base;
        zs \<leftarrow> ys;
        radix_loop m t n_elts base (exp * base mod 2 ^ 64) zs
      } else Some xs)"

definition radix_sort :: "nat list \<Rightarrow> nat list \<Rightarrow> nat \<Rightarrow> nat \<Rightarrow> nat list option" where
  "radix_sort arr tmp n_elts base = do {
     m \<leftarrow> alg_arr_largest_num (Some arr) n_elts;
     radix_loop m tmp n_elts base 1 arr
   }"

subsection \<open>Counting\<close>

text \<open>How many of the first \<open>n\<close> elements satisfy a property of their index.\<close>

definition cnt :: "nat \<Rightarrow> (nat \<Rightarrow> bool) \<Rightarrow> nat" where
  "cnt n P = card {k \<in> {..<n}. P k}"

lemma cnt_0 [simp]: "cnt 0 P = 0"
  by (simp add: cnt_def)

lemma cnt_Suc: "cnt (Suc n) P = cnt n P + (if P n then 1 else 0)"
proof -
  have "{k \<in> {..<Suc n}. P k} = (if P n then insert n {k \<in> {..<n}. P k} else {k \<in> {..<n}. P k})"
    by (auto simp: less_Suc_eq)
  then show ?thesis by (simp add: cnt_def)
qed

lemma cnt_le: "cnt n P \<le> n"
  unfolding cnt_def using card_mono [of "{..<n}" "{k \<in> {..<n}. P k}"] by auto

lemma cnt_disj:
  assumes "\<And>k. k < n \<Longrightarrow> \<not> (P k \<and> Q k)"
  shows "cnt n (\<lambda>k. P k \<or> Q k) = cnt n P + cnt n Q"
  using assms by (induction n) (auto simp: cnt_Suc)

text \<open>The place a stable sort by \<open>b\<close> gives to element \<open>i\<close>: the number of its predecessors.\<close>

definition rank :: "(nat \<Rightarrow> nat) \<Rightarrow> nat \<Rightarrow> nat \<Rightarrow> nat" where
  "rank b n i = cnt n (\<lambda>k. b k < b i \<or> b k = b i \<and> k < i)"

lemma rank_less:
  assumes "i < n" and "j < n" and "b i < b j \<or> b i = b j \<and> i < j"
  shows "rank b n i < rank b n j"
  unfolding rank_def cnt_def
proof (rule psubset_card_mono)
  let ?A = "\<lambda>i. {k \<in> {..<n}. b k < b i \<or> b k = b i \<and> k < i}"
  have "i \<in> ?A j" "i \<notin> ?A i" using assms by auto
  moreover have "?A i \<subseteq> ?A j" using assms by auto
  ultimately show "?A i \<subset> ?A j" by blast
qed simp

lemma rank_inj: "inj_on (rank b n) {..<n}"
proof (rule inj_onI)
  fix i j assume "i \<in> {..<n}" "j \<in> {..<n}" "rank b n i = rank b n j"
  then show "i = j"
    using rank_less [of i n j b] rank_less [of j n i b] by (metis lessThan_iff less_irrefl nat_neq_iff)
qed

lemma rank_bound:
  assumes "i < n"
  shows "rank b n i < n"
proof -
  have "{k \<in> {..<n}. b k < b i \<or> b k = b i \<and> k < i} \<subset> {..<n}" using assms by auto
  then have "rank b n i < card {..<n}" unfolding rank_def cnt_def by (intro psubset_card_mono) auto
  then show ?thesis by simp
qed

lemma cnt_restrict: "i \<le> n \<Longrightarrow> cnt n (\<lambda>k. P k \<and> k < i) = cnt i P"
proof -
  assume "i \<le> n"
  then have "{k \<in> {..<n}. P k \<and> k < i} = {k \<in> {..<i}. P k}" by auto
  then show ?thesis by (simp add: cnt_def)
qed

lemma rank_cnt: "i \<le> n \<Longrightarrow> rank b n i = cnt n (\<lambda>k. b k < b i) + cnt i (\<lambda>k. b k = b i)"
  unfolding rank_def by (subst cnt_disj) (auto simp: cnt_restrict)

text \<open>Placing every element at its rank permutes the block.\<close>

lemma mset_placed:
  assumes "length t = n" and "length zs = n" and "\<And>j. j < n \<Longrightarrow> t ! rank b n j = zs ! j"
  shows "mset t = mset zs"
proof -
  have m: "mset ys = image_mset ((!) ys) (mset_set {..<n})" if "length ys = n" for ys :: "'x list"
  proof -
    have "mset ys = mset (map ((!) ys) [0..<n])" using that by (metis map_nth)
    then show ?thesis by (simp add: atLeast0LessThan)
  qed
  have im: "rank b n ` {..<n} = {..<n}"
    using rank_bound by (intro endo_inj_surj [OF _ _ rank_inj]) auto
  have "mset t = image_mset ((!) t) (mset_set (rank b n ` {..<n}))" unfolding im by (rule m [OF assms(1)])
  also have "\<dots> = image_mset ((!) t) (image_mset (rank b n) (mset_set {..<n}))"
    using rank_inj by (subst image_mset_mset_set) auto
  also have "\<dots> = image_mset ((!) zs) (mset_set {..<n})"
    unfolding multiset.map_comp using assms(3) by (intro image_mset_cong) auto
  finally show ?thesis using m [OF assms(2)] by simp
qed

subsection \<open>The counting pass\<close>

lemma digit_of_less: "0 < base \<Longrightarrow> digit_of digit base x < base"
  by (simp add: digit_of_def)

lemma prefix_sum_ok:
  assumes n: "0 < n" "n \<le> length xs" and b: "0 < base" "base \<le> length ps" and d: "0 < digit"
  shows "\<exists>ps'. radix_sort_prefix_sum (Some xs) n digit base (Some ps) = Some (OK, Some ps') \<and>
    length ps' = length ps \<and>
    (\<forall>v < base. ps' ! v = cnt n (\<lambda>k. digit_of digit base (xs ! k) \<le> v))"
proof -
  let ?b = "\<lambda>k. digit_of digit base (xs ! k)"
  let ?B1 = "\<lambda>i ps. do { x \<leftarrow> rd xs (int i); c \<leftarrow> rd ps (int (digit_of digit base x));
       wr ps (int (digit_of digit base x)) (c + 1) }"
  let ?B2 = "\<lambda>i ps. do { a \<leftarrow> rd ps (int i); b \<leftarrow> rd ps (int i - 1); wr ps (int i) (a + b) }"
  let ?P1 = "\<lambda>i us. length us = length ps \<and> (\<forall>v < base. us ! v = cnt i (\<lambda>k. ?b k = v))"
  let ?P2 = "\<lambda>i us. length us = length ps \<and> (\<forall>v < base. us ! v =
      (if v < i then cnt n (\<lambda>k. ?b k \<le> v) else cnt n (\<lambda>k. ?b k = v)))"
  have "\<exists>us. for_range 0 n ?B1 (replicate base 0 @ drop base ps) = Some us \<and> ?P1 n us"
  proof (rule for_range_inv [where P = ?P1])
    fix i us assume i: "i < n" and P: "?P1 i us"
    have "?b i < base" by (rule digit_of_less [OF b(1)])
    then have "?b i < length us" using b(2) P by simp
    then show "\<exists>us'. ?B1 i us = Some us' \<and> ?P1 (Suc i) us'"
      using P i n(2) by (auto simp: nth_list_update cnt_Suc)
  qed (use b(2) in \<open>auto simp: nth_append\<close>)
  then obtain us where us: "for_range 0 n ?B1 (replicate base 0 @ drop base ps) = Some us" "?P1 n us" by blast
  have "\<exists>vs. for_range 1 base ?B2 us = Some vs \<and> ?P2 base vs"
  proof (rule for_range_inv [where P = ?P2])
    show "?P2 1 us" using us(2) by auto
    fix i vs assume i: "1 \<le> i" "i < base" and P: "?P2 i vs"
    have "int i - 1 = int (i - 1)" using i(1) by simp
    then have r: "rd vs (int i) = Some (cnt n (\<lambda>k. ?b k = i))"
      "rd vs (int i - 1) = Some (cnt n (\<lambda>k. ?b k \<le> i - 1))"
      using P i b(2) by (simp_all del: of_nat_diff)
    have "(\<lambda>k. ?b k \<le> i) = (\<lambda>k. ?b k = i \<or> ?b k \<le> i - 1)" using i(1) by (auto simp: fun_eq_iff)
    moreover have "cnt n (\<lambda>k. ?b k = i \<or> ?b k \<le> i - 1) = cnt n (\<lambda>k. ?b k = i) + cnt n (\<lambda>k. ?b k \<le> i - 1)"
      using i(1) by (intro cnt_disj) linarith
    ultimately have "cnt n (\<lambda>k. ?b k = i) + cnt n (\<lambda>k. ?b k \<le> i - 1) = cnt n (\<lambda>k. ?b k \<le> i)" by simp
    then show "\<exists>vs'. ?B2 i vs = Some vs' \<and> ?P2 (Suc i) vs'"
      using r P i b(2) by (auto simp: nth_list_update less_Suc_eq)
  qed (use b(1) in auto)
  then obtain vs where vs: "for_range 1 base ?B2 us = Some vs" "?P2 base vs" by blast
  then show ?thesis using us(1) n(1) b d by (simp add: radix_sort_prefix_sum_def)
qed

lemma radix_place_ok:
  fixes xs digit base
  defines "b \<equiv> \<lambda>k. digit_of digit base (xs ! k)"
  assumes n: "i < n" "length xs = n" "length tmp = n" and base: "0 < base" "base \<le> length ps"
    and ps: "\<forall>v < base. ps ! v = cnt n (\<lambda>k. b k < v) + cnt (Suc i) (\<lambda>k. b k = v)"
    and hi: "\<forall>j. i < j \<longrightarrow> j < n \<longrightarrow> tmp ! rank b n j = xs ! j"
    and lo: "\<forall>j \<le> i. tmp ! rank b n j = 0"
  shows "\<exists>tmp' ps'. radix_place xs digit base i tmp ps = Some (tmp', ps') \<and> length tmp' = n \<and>
    tmp' ! rank b n 0 = 0 \<and> (\<forall>j. 0 < j \<longrightarrow> j < n \<longrightarrow> tmp' ! rank b n j = xs ! j)"
  using n(1,3) base(2) ps hi lo
proof (induction i arbitrary: tmp ps)
  case 0
  then show ?case by auto
next
  case (Suc i)
  let ?v = "b (Suc i)" and ?p = "rank b n (Suc i)"
  have v: "?v < base" unfolding b_def using digit_of_less [OF base(1)] .
  have c: "ps ! ?v = Suc ?p" using Suc.prems(1,4) v by (simp add: rank_cnt cnt_Suc)
  have p: "?p < n" using rank_bound Suc.prems(1) .
  let ?t = "tmp[?p := xs ! Suc i]" and ?ps = "ps[?v := ?p]"
  have inj: "rank b n j = ?p \<longleftrightarrow> j = Suc i" if "j < n" for j
    using rank_inj [of b n] Suc.prems(1) that by (auto dest: inj_onD)
  have "rd xs (int (Suc i)) = Some (xs ! Suc i)" using Suc.prems(1) n(2) by (intro rd_nat) simp
  moreover have "rd ps (int ?v) = Some (Suc ?p)" using v c Suc.prems(3) by simp
  moreover have "wr tmp (int (Suc ?p) - 1) (xs ! Suc i) = Some ?t" using p Suc.prems(2) by simp
  moreover have "wr ps (int ?v) (Suc ?p - 1) = Some ?ps" using v Suc.prems(3) by simp
  ultimately have step: "radix_place xs digit base (Suc i) tmp ps = radix_place xs digit base i ?t ?ps"
    unfolding b_def by (simp del: of_nat_Suc)
  have "\<forall>w < base. ?ps ! w = cnt n (\<lambda>k. b k < w) + cnt (Suc i) (\<lambda>k. b k = w)"
    using Suc.prems(1,3,4) v by (auto simp: nth_list_update rank_cnt cnt_Suc)
  moreover have "\<forall>j. i < j \<longrightarrow> j < n \<longrightarrow> ?t ! rank b n j = xs ! j"
  proof (intro allI impI)
    fix j assume j: "i < j" "j < n"
    show "?t ! rank b n j = xs ! j"
    proof (cases "j = Suc i")
      case False
      then show ?thesis using Suc.prems(5) j inj [OF j(2)] by simp
    qed (use p Suc.prems(2) in simp)
  qed
  moreover have "\<forall>j \<le> i. ?t ! rank b n j = 0"
  proof (intro allI impI)
    fix j assume "j \<le> i"
    then show "?t ! rank b n j = 0" using Suc.prems(1,6) inj [of j] by simp
  qed
  ultimately show ?case unfolding step using Suc.IH [of ?t ?ps] Suc.prems(1,2,3) by simp
qed

lemma radix_counting_sort_ok:
  assumes n: "0 < n" "length xs = n" "length t = n" and b: "0 < base" "base \<le> 16" and d: "0 < digit"
  shows "\<exists>ys. radix_counting_sort (Some xs) (Some t) n digit base = Some (OK, Some ys) \<and> length ys = n \<and>
    (\<forall>j < n. ys ! rank (\<lambda>k. digit_of digit base (xs ! k)) n j = (0 # tl xs) ! j)"
proof -
  let ?b = "\<lambda>k. digit_of digit base (xs ! k)"
  obtain ps where ps: "radix_sort_prefix_sum (Some xs) n digit base (Some (replicate 16 0)) = Some (OK, Some ps)"
    "length ps = 16" "\<forall>v < base. ps ! v = cnt n (\<lambda>k. ?b k \<le> v)"
    using prefix_sum_ok [OF n(1) _ b(1) _ d, of xs "replicate 16 0"] n(2) b(2) by auto
  have c: "\<forall>v < base. ps ! v = cnt n (\<lambda>k. ?b k < v) + cnt (Suc (n - 1)) (\<lambda>k. ?b k = v)"
  proof (intro allI impI)
    fix v assume v: "v < base"
    have "(\<lambda>k. ?b k \<le> v) = (\<lambda>k. ?b k < v \<or> ?b k = v)" by (auto simp: fun_eq_iff)
    then show "ps ! v = cnt n (\<lambda>k. ?b k < v) + cnt (Suc (n - 1)) (\<lambda>k. ?b k = v)"
      using ps(3) v n(1) by (simp add: cnt_disj)
  qed
  have z: "\<forall>j \<le> n - 1. replicate n 0 ! rank ?b n j = (0 :: nat)"
    using rank_bound [of _ n ?b] n(1) by auto
  have hi: "\<forall>j. n - 1 < j \<longrightarrow> j < n \<longrightarrow> replicate n 0 ! rank ?b n j = xs ! j"
    using n(1) by (intro allI impI) linarith
  obtain t1 ps1 where t1: "radix_place xs digit base (n - 1) (replicate n 0) ps = Some (t1, ps1)" "length t1 = n"
    "t1 ! rank ?b n 0 = 0" "\<forall>j. 0 < j \<longrightarrow> j < n \<longrightarrow> t1 ! rank ?b n j = xs ! j"
    using radix_place_ok [of "n - 1" n xs "replicate n 0" base ps digit] n b ps(2) c hi z by auto
  have cp: "for_range 0 n (\<lambda>i ys. do { x \<leftarrow> rd t1 (int i); wr ys (int i) x }) xs = Some t1"
  proof -
    let ?P = "\<lambda>k ys. length ys = n \<and> take k ys = take k t1"
    have "\<exists>ys. for_range 0 n (\<lambda>i ys. do { x \<leftarrow> rd t1 (int i); wr ys (int i) x }) xs = Some ys \<and> ?P n ys"
      by (rule for_range_inv [where P = ?P]) (use n t1(2) in \<open>auto simp: take_Suc_conv_app_nth\<close>)
    then show ?thesis using t1(2) by auto
  qed
  have "radix_counting_sort (Some xs) (Some t) n digit base = Some (OK, Some t1)"
    using n b(1) d ps(1) t1(1) cp by (simp add: radix_counting_sort_def)
  moreover have "t1 ! rank ?b n j = (0 # tl xs) ! j" if "j < n" for j
    using t1(3,4) that n by (cases j) (auto simp: nth_tl)
  ultimately show ?thesis using t1(2) by blast
qed

subsection \<open>Properties\<close>

text \<open>
  C38: a counting pass of the radix sort places every element but the first by its digit, in a
  stable way; the first element is lost, and a 0 stands in its place.
\<close>

theorem radix_counting_sort_loses_first:
  assumes "0 < n" and "length xs = n" and "length t = n" and "0 < base" and "base \<le> 16" and "0 < digit"
  shows "\<exists>ys. radix_counting_sort (Some xs) (Some t) n digit base = Some (OK, Some ys) \<and>
    mset ys = add_mset 0 (mset (tl xs)) \<and>
    (\<forall>i j. 0 < i \<longrightarrow> i < j \<longrightarrow> j < n \<longrightarrow> digit_of digit base (xs ! i) \<le> digit_of digit base (xs ! j) \<longrightarrow>
      (\<exists>p q. p < q \<and> q < n \<and> ys ! p = xs ! i \<and> ys ! q = xs ! j))"
proof -
  let ?b = "\<lambda>k. digit_of digit base (xs ! k)"
  obtain ys where ys: "radix_counting_sort (Some xs) (Some t) n digit base = Some (OK, Some ys)" "length ys = n"
    "\<forall>j < n. ys ! rank ?b n j = (0 # tl xs) ! j"
    using radix_counting_sort_ok [OF assms] by blast
  have "mset ys = mset (0 # tl xs)" using mset_placed [OF ys(2), of "0 # tl xs" ?b] ys(3) assms(1,2) by simp
  moreover have "\<exists>p q. p < q \<and> q < n \<and> ys ! p = xs ! i \<and> ys ! q = xs ! j"
    if "0 < i" "i < j" "j < n" "?b i \<le> ?b j" for i j
    using rank_less [of i n j ?b] rank_bound [of j n ?b] ys(3) that assms(1,2)
    by (intro exI [of _ "rank ?b n i"] exI [of _ "rank ?b n j"]) (auto simp: nth_Cons' nth_tl le_less)
  ultimately show ?thesis using ys(1) by auto
qed

theorem radix_counting_sort_loses_first_witness:
  "\<exists>ys. radix_counting_sort (Some [7, 3, 5]) (Some [0, 0, 0]) 3 1 10 = Some (OK, Some ys) \<and>
    mset ys = {#0, 3, 5#}"
  using radix_counting_sort_loses_first [of 3 "[7, 3, 5]" "[0, 0, 0]" 10 1] by auto

end
