(* ===== verification/Strings.thy ===== *)
theory Strings
  imports Utils "HOL-Library.Sublist"
begin

text \<open>
  The string functions (src/stdio/string.c). A pointer into a string is the block from that
  address on, or a block and an offset where the function writes or hands a pointer back;
  \<open>char\<close> is a byte, read as a signed number where the code does arithmetic with it. A scan
  that runs past the end of its block is a fault, \<open>None\<close>.
\<close>

subsection \<open>Scanning\<close>

fun str_scan :: "u8 list \<Rightarrow> nat option" where
  "str_scan [] = None"
| "str_scan (c # p) = (if c = 0 then Some 0 else map_option Suc (str_scan p))"

definition stdio_strlen :: "u8 list option \<Rightarrow> nat option" where
  "stdio_strlen s = (case s of None \<Rightarrow> Some 0 | Some p \<Rightarrow> str_scan p)"

text \<open>The condition \<open>*p && maxsize--\<close> reads the byte before it tests the count.\<close>

fun strn_scan :: "u8 list \<Rightarrow> nat \<Rightarrow> nat option" where
  "strn_scan [] maxsize = None"
| "strn_scan (c # p) maxsize =
     (if c = 0 \<or> maxsize = 0 then Some 0 else map_option Suc (strn_scan p (maxsize - 1)))"

definition stdio_strnlen :: "u8 list option \<Rightarrow> nat \<Rightarrow> nat option" where
  "stdio_strnlen s maxsize = (case s of None \<Rightarrow> Some 0 | Some p \<Rightarrow> strn_scan p maxsize)"

text \<open>The returned pointer is an offset into the haystack.\<close>

fun strchr_scan :: "u8 list \<Rightarrow> u8 \<Rightarrow> nat option option" where
  "strchr_scan [] needle = None"
| "strchr_scan (c # p) needle =
     (if c = 0 then Some None else if c = needle then Some (Some 0)
      else map_option (map_option Suc) (strchr_scan p needle))"

definition stdio_strchr :: "u8 list option \<Rightarrow> u8 \<Rightarrow> nat option option" where
  "stdio_strchr haystack needle =
     (case haystack of None \<Rightarrow> Some None | Some p \<Rightarrow> strchr_scan p needle)"

text \<open>The inner loop of \<open>stdio_strstr\<close>; what is left of the needle is its result.\<close>

fun superimpose :: "u8 list \<Rightarrow> u8 list \<Rightarrow> u8 list option" where
  "superimpose [] p2 = None"
| "superimpose (a # p1) p2 =
     (if a = 0 then Some p2
      else (case p2 of [] \<Rightarrow> None
            | b # p2' \<Rightarrow> if b \<noteq> 0 \<and> a = b then superimpose p1 p2' else Some p2))"

fun strstr_loop :: "u8 list \<Rightarrow> u8 list \<Rightarrow> nat option option" where
  "strstr_loop [] needle = None"
| "strstr_loop (a # p1) needle =
     (if a = 0 then Some None
      else do {
        p2 \<leftarrow> superimpose (a # p1) needle;
        b \<leftarrow> rd p2 0;
        if b = 0 then Some (Some 0)
        else map_option (map_option Suc) (strstr_loop p1 needle)
      })"

definition stdio_strstr :: "u8 list \<Rightarrow> u8 list \<Rightarrow> nat option option" where
  "stdio_strstr haystack needle = do {
     b \<leftarrow> rd needle 0;
     if b = 0 then Some (Some 0) else strstr_loop haystack needle
   }"

subsection \<open>Copying\<close>

text \<open>The destination is the block \<open>dest\<close> from offset \<open>d\<close> on.\<close>

function strncpy_loop :: "nat \<Rightarrow> u8 list \<Rightarrow> nat \<Rightarrow> nat \<Rightarrow> u8 list \<Rightarrow> (nat \<times> u8 list) option" where
  "strncpy_loop d src n i dest =
     (if i < n then
        (case rd src (int i) of
           None \<Rightarrow> None
         | Some c \<Rightarrow>
             if c \<noteq> 0 then
               (case wr dest (int (d + i)) c of
                  None \<Rightarrow> None
                | Some dest' \<Rightarrow> strncpy_loop d src n (Suc i) dest')
             else Some (i, dest))
      else Some (i, dest))"
  by pat_completeness auto
termination by (relation "measure (\<lambda>(d, src, n, i, dest). n - i)") auto

declare strncpy_loop.simps [simp del]

definition stdio_strncpy :: "nat \<Rightarrow> u8 list \<Rightarrow> nat \<Rightarrow> u8 list \<Rightarrow> u8 list option" where
  "stdio_strncpy d src n dest = do {
     (i, dest) \<leftarrow> strncpy_loop d src n 0 dest;
     for_range i n (\<lambda>k b. wr b (int (d + k)) 0) dest
   }"

fun strcpy_loop :: "u8 list \<Rightarrow> nat \<Rightarrow> u8 list \<Rightarrow> u8 list option" where
  "strcpy_loop [] k dest = None"
| "strcpy_loop (c # src) k dest =
     (if c \<noteq> 0 then (case wr dest (int k) c of None \<Rightarrow> None | Some b \<Rightarrow> strcpy_loop src (Suc k) b)
      else wr dest (int k) 0)"

definition stdio_strcpy :: "nat \<Rightarrow> u8 list option \<Rightarrow> u8 list option \<Rightarrow> u8 list option option" where
  "stdio_strcpy d src dest =
     (case (dest, src) of
        (Some b, Some s) \<Rightarrow> map_option Some (strcpy_loop s d b)
      | _ \<Rightarrow> Some dest)"

definition stdio_memcpy :: "u8 list \<Rightarrow> nat \<Rightarrow> u8 list \<Rightarrow> u8 list option" where
  "stdio_memcpy src n dest =
     for_range 0 n (\<lambda>i d. do { c \<leftarrow> rd src (int i); wr d (int i) c }) dest"

definition stdio_memset :: "int \<Rightarrow> nat \<Rightarrow> u8 list \<Rightarrow> u8 list option" where
  "stdio_memset c n dest = for_range 0 n (\<lambda>i d. wr d (int i) (word_of_int c)) dest"

subsection \<open>Reversal in place\<close>

function strrev_loop :: "nat \<Rightarrow> u8 list \<Rightarrow> int \<Rightarrow> int \<Rightarrow> u8 list option" where
  "strrev_loop d s i j =
     (if i < j then
        (case (rd s (int d + i), rd s (int d + j)) of
           (Some x, Some y) \<Rightarrow>
             (let x1 = x XOR y; y1 = y XOR x1; x2 = x1 XOR y1 in
              strrev_loop d (s[nat (int d + i) := x2, nat (int d + j) := y1]) (i + 1) (j - 1))
         | _ \<Rightarrow> None)
      else Some s)"
  by pat_completeness auto
termination by (relation "measure (\<lambda>(d, s, i, j). nat (j - i))") auto

declare strrev_loop.simps [simp del]

definition stdio_strrev :: "nat \<Rightarrow> u8 list \<Rightarrow> nat \<Rightarrow> u8 list option" where
  "stdio_strrev d s len = strrev_loop d s 0 (int_pred_of_size len)"

subsection \<open>Comparison and case\<close>

fun strcmp_loop :: "u8 list \<Rightarrow> u8 list \<Rightarrow> bool option" where
  "strcmp_loop (a # t1) (b # t2) =
     (if a = b then (if a = 0 then Some True else strcmp_loop t1 t2) else Some False)"
| "strcmp_loop t1 t2 = None"

text \<open>After a mismatch the difference is taken at the start of the strings.\<close>

definition stdio_strcmp :: "u8 list \<Rightarrow> u8 list \<Rightarrow> int option" where
  "stdio_strcmp s1 s2 = do {
     same \<leftarrow> strcmp_loop s1 s2;
     if same then Some 0
     else do { a \<leftarrow> rd s1 0; b \<leftarrow> rd s2 0; Some (sint a - sint b) }
   }"

fun strncmp_loop :: "u8 list \<Rightarrow> u8 list \<Rightarrow> nat \<Rightarrow> nat \<Rightarrow> int option" where
  "strncmp_loop (a # t1) (b # t2) i len =
     (if a = b then
        (if i = len then Some 0
         else if Suc i = len then Some (sint a - sint b)
         else strncmp_loop t1 t2 (Suc i) len)
      else Some (sint a - sint b))"
| "strncmp_loop t1 t2 i len = None"

definition stdio_strncmp :: "u8 list \<Rightarrow> u8 list \<Rightarrow> nat \<Rightarrow> int option" where
  "stdio_strncmp s1 s2 len = (if len = 0 then Some 0 else strncmp_loop s1 s2 0 len)"

definition stdio_tolower :: "int \<Rightarrow> int" where
  "stdio_tolower c = (if 65 \<le> c \<and> c \<le> 90 then c + (97 - 65) else c)"

definition stdio_toupper :: "int \<Rightarrow> int" where
  "stdio_toupper c = (if 97 \<le> c \<and> c \<le> 122 then c + (65 - 97) else c)"

subsection \<open>Replacement\<close>

text \<open>
  Both loops move on by the length of the pattern, so with an empty pattern they do not end.
\<close>

partial_function (option) strrep_count ::
  "u8 list \<Rightarrow> u8 list \<Rightarrow> nat \<Rightarrow> nat \<Rightarrow> nat \<Rightarrow> nat option" where
  "strrep_count original pat patlen ori patcnt =
     (case stdio_strstr (drop ori original) pat of
        None \<Rightarrow> None
      | Some loc \<Rightarrow>
          (case loc of
             None \<Rightarrow> Some patcnt
           | Some k \<Rightarrow> strrep_count original pat patlen (ori + k + patlen) (patcnt + 1)))"

definition strrep_splice ::
  "u8 list \<Rightarrow> u8 list \<Rightarrow> nat \<Rightarrow> nat \<Rightarrow> nat \<Rightarrow> nat \<Rightarrow> u8 list \<Rightarrow> u8 list option" where
  "strrep_splice original replacement replen ori skiplen ret new_str = do {
     new_str \<leftarrow> stdio_strncpy ret (drop ori original) skiplen new_str;
     stdio_strncpy (ret + skiplen) replacement replen new_str
   }"

partial_function (option) strrep_copy ::
  "u8 list \<Rightarrow> u8 list \<Rightarrow> u8 list \<Rightarrow> nat \<Rightarrow> nat \<Rightarrow> nat \<Rightarrow> nat \<Rightarrow> u8 list \<Rightarrow> u8 list option option" where
  "strrep_copy original pat replacement patlen replen ori ret new_str =
     (case stdio_strstr (drop ori original) pat of
        None \<Rightarrow> None
      | Some loc \<Rightarrow>
          (case loc of
             None \<Rightarrow> stdio_strcpy ret (Some (drop ori original)) (Some new_str)
           | Some skiplen \<Rightarrow>
               (case strrep_splice original replacement replen ori skiplen ret new_str of
                  None \<Rightarrow> None
                | Some b \<Rightarrow>
                    strrep_copy original pat replacement patlen replen (ori + skiplen + patlen)
                      (ret + skiplen + replen) b)))"

definition stdio_strrep :: "u8 list \<Rightarrow> u8 list \<Rightarrow> u8 list \<Rightarrow> u8 list \<Rightarrow> u8 list option option" where
  "stdio_strrep original pat replacement new_str = do {
     orilen \<leftarrow> stdio_strlen (Some original);
     replen \<leftarrow> stdio_strlen (Some replacement);
     patlen \<leftarrow> stdio_strlen (Some pat);
     patcnt \<leftarrow> strrep_count original pat patlen 0 0;
     let newlen = nat ((int orilen + int patcnt * (int replen - int patlen)) mod 2 ^ 64);
     new_str \<leftarrow> wr new_str (int newlen) 0;
     strrep_copy original pat replacement patlen replen 0 0 new_str
   }"

subsection \<open>Strings\<close>

text \<open>The block \<open>s\<close> starts with the characters \<open>xs\<close> and their terminator.\<close>

definition cstr :: "u8 list \<Rightarrow> u8 list \<Rightarrow> bool" where
  "cstr s xs \<longleftrightarrow> 0 \<notin> set xs \<and> prefix (xs @ [0]) s"

lemma cstr_split: "cstr s xs \<Longrightarrow> \<exists>rest. s = xs @ 0 # rest \<and> 0 \<notin> set xs"
  by (auto simp: cstr_def elim!: prefixE)

lemma cstr_Nil [simp]: "cstr [] xs \<longleftrightarrow> False"
  by (simp add: cstr_def)

lemma cstr_Cons: "cstr (c # p) xs \<longleftrightarrow>
    (case xs of [] \<Rightarrow> c = 0 | x # ys \<Rightarrow> c = x \<and> c \<noteq> 0 \<and> cstr p ys)"
  by (auto simp: cstr_def split: list.splits)

lemma cstr_drop: "cstr s xs \<Longrightarrow> k \<le> length xs \<Longrightarrow> cstr (drop k s) (drop k xs)"
  by (auto simp: cstr_def elim!: prefixE dest: in_set_dropD)

lemma cstr_nth: "cstr s xs \<Longrightarrow> i < length xs \<Longrightarrow> i < length s \<and> s ! i = xs ! i \<and> xs ! i \<noteq> 0"
  by (auto dest!: cstr_split simp: nth_append) (metis nth_mem)

lemma cstr_end: "cstr s xs \<Longrightarrow> length xs < length s \<and> s ! length xs = 0"
  by (auto dest!: cstr_split simp: nth_append)

lemma cstr_take: "cstr s xs \<Longrightarrow> take (length xs) s = xs"
  by (auto dest!: cstr_split)

lemma str_scan_cstr [simp]: "cstr s xs \<Longrightarrow> str_scan s = Some (length xs)"
  by (induction s arbitrary: xs) (auto simp: cstr_Cons split: list.splits)

lemma rd0_cstr: "cstr s xs \<Longrightarrow> rd s 0 = Some (if xs = [] then 0 else hd xs)"
  by (cases s; cases xs) (auto simp: cstr_Cons rd_def)

text \<open>The needle matches at the start of the haystack, or the search stops inside it.\<close>

lemma superimpose_cstr:
  "cstr p1 xs \<Longrightarrow> cstr p2 ys \<Longrightarrow>
     \<exists>rest ys'. superimpose p1 p2 = Some rest \<and> cstr rest ys' \<and> (ys' = [] \<longleftrightarrow> prefix ys xs)"
proof (induction p1 p2 arbitrary: xs ys rule: superimpose.induct)
  case (1 p2)
  then show ?case by simp
next
  case (2 a p1 p2)
  show ?case
  proof (cases xs)
    case Nil
    then have "a = 0" using 2 by (simp add: cstr_Cons)
    then show ?thesis using 2 Nil by auto
  next
    case (Cons x xs')
    then have a: "a = x" "a \<noteq> 0" "cstr p1 xs'" using 2 by (auto simp: cstr_Cons)
    obtain b p2' where p2: "p2 = b # p2'" using "2.prems"(2) by (cases p2) auto
    show ?thesis
    proof (cases "b \<noteq> 0 \<and> a = b")
      case True
      then obtain ys' where ys: "ys = b # ys'" "cstr p2' ys'"
        using "2.prems"(2) p2 by (auto simp: cstr_Cons split: list.splits)
      obtain rest zs where "superimpose p1 p2' = Some rest" "cstr rest zs"
          "zs = [] \<longleftrightarrow> prefix ys' xs'"
        using "2.IH" [OF a(2) p2 True a(3) ys(2)] by blast
      then show ?thesis using a True p2 ys Cons by auto
    next
      case False
      then have "superimpose (a # p1) p2 = Some p2" using a(2) p2 by auto
      moreover have "ys = [] \<longleftrightarrow> prefix ys xs"
        using False "2.prems"(2) p2 a Cons by (cases ys) (auto simp: cstr_Cons)
      ultimately show ?thesis using "2.prems"(2) by blast
    qed
  qed
qed

text \<open>The first position at which a string occurs in another.\<close>

fun first_at :: "'a list \<Rightarrow> 'a list \<Rightarrow> nat option" where
  "first_at ys [] = (if ys = [] then Some 0 else None)"
| "first_at ys (x # xs) = (if prefix ys (x # xs) then Some 0 else map_option Suc (first_at ys xs))"

lemma first_at_Some:
  "first_at ys xs = Some k \<Longrightarrow>
     prefix ys (drop k xs) \<and> k + length ys \<le> length xs \<and> (\<forall>j < k. \<not> prefix ys (drop j xs))"
proof (induction xs arbitrary: k)
  case Nil
  then show ?case by (auto split: if_splits)
next
  case (Cons x xs)
  show ?case
  proof (cases "prefix ys (x # xs)")
    case True
    then have "k = 0" using Cons.prems by auto
    then show ?thesis using True prefix_length_le [OF True] by simp
  next
    case False
    then obtain m where m: "k = Suc m" "first_at ys xs = Some m" using Cons.prems by auto
    then show ?thesis using Cons.IH [OF m(2)] False by (auto simp: less_Suc_eq_0_disj)
  qed
qed

lemma first_at_None: "first_at ys xs = None \<Longrightarrow> \<not> prefix ys (drop j xs)"
proof (induction xs arbitrary: j)
  case (Cons x xs)
  then show ?case by (cases j) (auto split: if_splits)
qed (auto split: if_splits)

lemma strstr_loop_cstr:
  "cstr h xs \<Longrightarrow> cstr n ys \<Longrightarrow> ys \<noteq> [] \<Longrightarrow> strstr_loop h n = Some (first_at ys xs)"
proof (induction h arbitrary: xs)
  case (Cons a p1)
  show ?case
  proof (cases xs)
    case Nil
    then show ?thesis using Cons.prems by (simp add: cstr_Cons)
  next
    case (Cons x xs')
    then have a: "a = x" "a \<noteq> 0" "cstr p1 xs'" using Cons.prems by (auto simp: cstr_Cons)
    obtain rest ys' where r: "superimpose (a # p1) n = Some rest" "cstr rest ys'"
        "ys' = [] \<longleftrightarrow> prefix ys xs"
      using superimpose_cstr [OF Cons.prems(1,2)] by blast
    have "(if ys' = [] then 0 else hd ys') = 0 \<longleftrightarrow> ys' = []"
      using r(2) by (cases ys') (auto simp: cstr_def)
    then show ?thesis
      using r a Cons.IH [OF a(3) Cons.prems(2,3)]
      by (simp add: rd0_cstr [OF r(2)] Cons del: superimpose.simps)
  qed
qed simp

lemma stdio_strstr_cstr:
  assumes "cstr h xs" and "cstr n ys"
  shows "stdio_strstr h n = Some (first_at ys xs)"
proof (cases "ys = []")
  case True
  then show ?thesis using rd0_cstr [OF assms(2)] by (cases xs) (simp_all add: stdio_strstr_def)
next
  case False
  moreover have "hd ys \<noteq> 0" using False assms(2) by (cases ys) (auto simp: cstr_def)
  ultimately show ?thesis using rd0_cstr [OF assms(2)] strstr_loop_cstr [OF assms]
    by (simp add: stdio_strstr_def)
qed

subsection \<open>Copies and reversal\<close>

text \<open>Replacing a stretch of a block.\<close>

definition splice :: "nat \<Rightarrow> 'a list \<Rightarrow> 'a list \<Rightarrow> 'a list" where
  "splice d xs b = take d b @ xs @ drop (d + length xs) b"

lemma length_splice [simp]: "d + length xs \<le> length b \<Longrightarrow> length (splice d xs b) = length b"
  by (simp add: splice_def)

lemma splice_Nil [simp]: "splice d [] b = b"
  by (simp add: splice_def)

lemma splice_snoc:
  assumes "d + length xs < length b"
  shows "(splice d xs b)[d + length xs := y] = splice d (xs @ [y]) b"
proof -
  have "drop (d + length xs) b = b ! (d + length xs) # drop (Suc (d + length xs)) b"
    using assms by (simp add: Cons_nth_drop_Suc)
  then show ?thesis using assms by (simp add: splice_def list_update_append)
qed

lemma splice_splice:
  "d + length xs + length ys \<le> length b \<Longrightarrow>
     splice (d + length xs) ys (splice d xs b) = splice d (xs @ ys) b"
  by (simp add: splice_def ac_simps)

lemma wr_splice:
  "d + length xs < length b \<Longrightarrow> k = int (d + length xs) \<Longrightarrow>
     wr (splice d xs b) k y = Some (splice d (xs @ [y]) b)"
  by (simp add: splice_snoc del: of_nat_add)

lemma strncpy_loop_cstr:
  assumes "cstr src xs" and "d + n \<le> length b" and "i \<le> min n (length xs)"
  shows "strncpy_loop d src n i (splice d (take i xs) b) =
    Some (min n (length xs), splice d (take n xs) b)"
  using assms(3)
proof (induction "min n (length xs) - i" arbitrary: i)
  case 0
  then have i: "i = min n (length xs)" by simp
  show ?case
  proof (cases "i < n")
    case True
    then have "i = length xs" using i by simp
    moreover have "rd src (int (length xs)) = Some 0"
      using cstr_end [OF assms(1)] by simp
    ultimately show ?thesis using True i by (simp add: strncpy_loop.simps)
  next
    case False
    then show ?thesis using i by (simp add: strncpy_loop.simps)
  qed
next
  case (Suc k)
  then have lt: "i < n" "i < length xs" by auto
  have r: "rd src (int i) = Some (xs ! i)" "xs ! i \<noteq> 0"
    using cstr_nth [OF assms(1) lt(2)] by simp_all
  have "wr (splice d (take i xs) b) (int (d + i)) (xs ! i) = Some (splice d (take i xs @ [xs ! i]) b)"
    using lt assms(2) by (intro wr_splice) auto
  also have "take i xs @ [xs ! i] = take (Suc i) xs" using lt by (simp add: take_Suc_conv_app_nth)
  finally have w: "wr (splice d (take i xs) b) (int (d + i)) (xs ! i) =
    Some (splice d (take (Suc i) xs) b)" .
  have "strncpy_loop d src n (Suc i) (splice d (take (Suc i) xs) b) =
      Some (min n (length xs), splice d (take n xs) b)"
    by (rule Suc.hyps(1)) (use Suc.hyps(2) lt in auto)
  then show ?case using lt r w by (subst strncpy_loop.simps) simp
qed

lemma stdio_strncpy_cstr:
  assumes "cstr src xs" and "d + n \<le> length b"
  shows "stdio_strncpy d src n b = Some (splice d (take n xs @ replicate (n - length xs) 0) b)"
proof -
  let ?m = "min n (length xs)"
  have l: "strncpy_loop d src n 0 b = Some (?m, splice d (take n xs) b)"
    using strncpy_loop_cstr [OF assms, of 0] by simp
  let ?P = "\<lambda>k c. c = splice d (take n xs @ replicate (k - ?m) 0) b"
  have "\<exists>c. for_range ?m n (\<lambda>k b. wr b (int (d + k)) 0) (splice d (take n xs) b) = Some c \<and> ?P n c"
  proof (rule for_range_inv [where P = ?P])
    fix k c assume k: "?m \<le> k" "k < n" and c: "?P k c"
    then have m: "?m = length xs" by auto
    have "wr c (int (d + k)) 0 = Some (splice d ((take n xs @ replicate (k - ?m) 0) @ [0]) b)"
      unfolding c using k m assms(2) by (intro wr_splice) (auto simp: min_def)
    moreover have "(take n xs @ replicate (k - ?m) 0) @ [0] = take n xs @ replicate (Suc k - ?m) (0 :: u8)"
      using k(1) by (simp add: Suc_diff_le replicate_append_same)
    ultimately show "\<exists>c'. wr c (int (d + k)) 0 = Some c' \<and> ?P (Suc k) c'" by simp
  qed auto
  moreover have "n - ?m = n - length xs" by simp
  ultimately show ?thesis by (simp add: stdio_strncpy_def l)
qed

lemma strcpy_loop_cstr:
  "cstr src xs \<Longrightarrow> k + length xs < length b \<Longrightarrow>
     strcpy_loop src k b = Some (splice k (xs @ [0]) b)"
proof (induction src arbitrary: xs k b)
  case (Cons c src)
  show ?case
  proof (cases xs)
    case Nil
    then show ?thesis using Cons.prems wr_splice [of k "[]" b "int k" 0] by (simp add: cstr_Cons)
  next
    case C: (Cons x ys)
    then have x: "c = x" "c \<noteq> 0" "cstr src ys" using Cons.prems by (auto simp: cstr_Cons)
    let ?b = "splice k [x] b"
    have w: "wr b (int k) c = Some ?b"
      using wr_splice [of k "[]" b "int k" x] Cons.prems(2) C x by simp
    have "strcpy_loop src (Suc k) ?b = Some (splice (Suc k) (ys @ [0]) ?b)"
      using Cons.prems(2) C by (intro Cons.IH x(3)) simp
    also have "splice (Suc k) (ys @ [0]) ?b = splice k ([x] @ ys @ [0]) b"
      using splice_splice [of k "[x]" "ys @ [0]" b] Cons.prems(2) C by simp
    finally show ?thesis using w x C by simp
  qed
qed simp

lemma strrev_loop_arr8:
  "0 \<le> i \<Longrightarrow> strrev_loop d s i j = arr8_reverse_loop s (int d + i) (int d + j)"
proof (induction d s i j rule: strrev_loop.induct)
  case (1 d s i j)
  show ?case
  proof (cases "i < j \<and> rd s (int d + i) \<noteq> None \<and> rd s (int d + j) \<noteq> None")
    case True
    then obtain x y where xy: "rd s (int d + i) = Some x" "rd s (int d + j) = Some y" by blast
    let ?s = "s[nat (int d + i) := y, nat (int d + j) := x]"
    have x: "(x XOR y) XOR (y XOR (x XOR y)) = y" "y XOR (x XOR y) = x" "(x XOR y) XOR x = y"
      by (simp_all add: ac_simps)
    have "strrev_loop d ?s (i + 1) (j - 1) =
        arr8_reverse_loop ?s (int d + (i + 1)) (int d + (j - 1))"
      using 1 True xy x by (simp add: Let_def)
    moreover have "wr s (int d + i) y = Some (s[nat (int d + i) := y])"
      "wr (s[nat (int d + i) := y]) (int d + j) x = Some ?s"
      using xy by (auto simp: rd_eq_Some wr_eq_Some)
    ultimately show ?thesis using True xy x
      by (subst strrev_loop.simps, subst arr8_reverse_loop.simps) (simp add: Let_def algebra_simps)
  next
    case False
    then show ?thesis
      by (subst strrev_loop.simps, subst arr8_reverse_loop.simps) (auto split: option.splits)
  qed
qed

lemma stdio_strrev_rev:
  assumes "length xs < 2 ^ 31"
  shows "stdio_strrev (length us) (us @ xs @ vs) (length xs) = Some (us @ rev xs @ vs)"
  using assms arr8_reverse_loop_rev [of us xs vs]
  by (simp add: stdio_strrev_def strrev_loop_arr8 algebra_simps)

subsection \<open>Replacement of all occurrences\<close>

function replace_all :: "'a list \<Rightarrow> 'a list \<Rightarrow> 'a list \<Rightarrow> 'a list" where
  "replace_all pat rep [] = []"
| "replace_all pat rep (x # xs) =
     (if prefix pat (x # xs) then rep @ replace_all pat rep (drop (length pat - 1) xs)
      else x # replace_all pat rep xs)"
  by pat_completeness auto
termination by (relation "measure (\<lambda>(pat, rep, xs). length xs)") auto

lemma replace_all_first:
  "pat \<noteq> [] \<Longrightarrow> replace_all pat rep xs =
     (case first_at pat xs of
        None \<Rightarrow> xs
      | Some k \<Rightarrow> take k xs @ rep @ replace_all pat rep (drop (k + length pat) xs))"
proof (induction xs)
  case (Cons x xs)
  obtain n where "length pat = Suc n" using Cons.prems by (cases pat) auto
  then show ?case using Cons by (auto split: option.splits)
qed simp

text \<open>Where the search of a loop round starts, and what is left after it.\<close>

lemma replace_round:
  assumes "cstr original xs" and "cstr pat ps" and "ori \<le> length xs"
  shows "stdio_strstr (drop ori original) pat = Some (first_at ps (drop ori xs))"
    and "first_at ps (drop ori xs) = Some k \<Longrightarrow> ori + k + length ps \<le> length xs"
  using stdio_strstr_cstr [OF cstr_drop [OF assms(1,3)] assms(2)]
    first_at_Some [of ps "drop ori xs" k] assms(3) by auto

lemma strrep_count_spec:
  assumes "cstr original xs" and "cstr pat ps" and "ps \<noteq> []"
  shows "ori \<le> length xs \<Longrightarrow> \<exists>m. strrep_count original pat (length ps) ori c = Some (c + m) \<and>
    int (length (replace_all ps rs (drop ori xs))) =
      int (length xs - ori) + int m * (int (length rs) - int (length ps))"
proof (induction "length xs - ori" arbitrary: ori c rule: less_induct)
  case less
  note rnd = replace_round [OF assms(1,2) less.prems]
  show ?case
  proof (cases "first_at ps (drop ori xs)")
    case None
    then have "strrep_count original pat (length ps) ori c = Some c"
      by (subst strrep_count.simps) (simp add: rnd(1))
    then show ?thesis using None assms(3)
      by (intro exI [of _ 0]) (simp add: replace_all_first)
  next
    case (Some k)
    let ?o = "ori + k + length ps"
    have o: "?o \<le> length xs" by (rule rnd(2) [OF Some])
    moreover have "length xs - ?o < length xs - ori"
      using o assms(3) by (cases ps) auto
    ultimately obtain m where m:
      "strrep_count original pat (length ps) ?o (c + 1) = Some (c + 1 + m)"
      "int (length (replace_all ps rs (drop ?o xs))) =
         int (length xs - ?o) + int m * (int (length rs) - int (length ps))"
      using less.hyps by blast
    have "strrep_count original pat (length ps) ori c = Some (c + Suc m)"
      using m(1) by (subst strrep_count.simps) (simp add: rnd(1) Some)
    moreover have "int (length (replace_all ps rs (drop ori xs))) =
        int (length xs - ori) + int (Suc m) * (int (length rs) - int (length ps))"
      using m(2) o assms(3) Some
      by (simp add: replace_all_first [of ps rs "drop ori xs"] algebra_simps of_nat_diff)
    ultimately show ?thesis by blast
  qed
qed

lemma strrep_copy_spec:
  assumes "cstr original xs" and "cstr pat ps" and "cstr replacement rs" and "ps \<noteq> []"
  shows "ori \<le> length xs \<Longrightarrow> ret + length (replace_all ps rs (drop ori xs)) < length b \<Longrightarrow>
    strrep_copy original pat replacement (length ps) (length rs) ori ret b =
      Some (Some (splice ret (replace_all ps rs (drop ori xs) @ [0]) b))"
proof (induction "length xs - ori" arbitrary: ori ret b rule: less_induct)
  case less
  note rnd = replace_round [OF assms(1,2) less.prems(1)]
  have od: "cstr (drop ori original) (drop ori xs)" by (rule cstr_drop [OF assms(1) less.prems(1)])
  show ?case
  proof (cases "first_at ps (drop ori xs)")
    case None
    then show ?thesis using less.prems assms(4) od
      by (subst strrep_copy.simps)
        (simp add: rnd(1) replace_all_first stdio_strcpy_def strcpy_loop_cstr)
  next
    case (Some k)
    let ?o = "ori + k + length ps" and ?R = "take k (drop ori xs) @ rs"
    have o: "?o \<le> length xs" by (rule rnd(2) [OF Some])
    have R: "replace_all ps rs (drop ori xs) = ?R @ replace_all ps rs (drop ?o xs)"
      using Some assms(4) by (simp add: replace_all_first [of ps rs "drop ori xs"] add.commute add.left_commute)
    have lenR: "length ?R = k + length rs" using o by simp
    have room: "ret + (k + length rs) + length (replace_all ps rs (drop ?o xs)) < length b"
      using less.prems(2) lenR by (simp add: R)
    have "stdio_strncpy ret (drop ori original) k b = Some (splice ret (take k (drop ori xs)) b)"
      using stdio_strncpy_cstr [OF od, of ret k b] room o by simp
    moreover have "stdio_strncpy (ret + k) replacement (length rs) (splice ret (take k (drop ori xs)) b) =
        Some (splice ret ?R b)"
      using stdio_strncpy_cstr [OF assms(3), of "ret + k" "length rs"] room o
        splice_splice [of ret "take k (drop ori xs)" rs b] by simp
    ultimately have sp: "strrep_splice original replacement (length rs) ori k ret b = Some (splice ret ?R b)"
      by (simp add: strrep_splice_def)
    have "length xs - ?o < length xs - ori" using o assms(4) by (cases ps) auto
    then have "strrep_copy original pat replacement (length ps) (length rs) ?o (ret + k + length rs)
          (splice ret ?R b) =
        Some (Some (splice (ret + k + length rs) (replace_all ps rs (drop ?o xs) @ [0]) (splice ret ?R b)))"
      using less.hyps [OF _ o, of "ret + k + length rs" "splice ret ?R b"] room lenR by simp
    also have "splice (ret + k + length rs) (replace_all ps rs (drop ?o xs) @ [0]) (splice ret ?R b) =
        splice ret (?R @ replace_all ps rs (drop ?o xs) @ [0]) b"
      using splice_splice [of ret ?R "replace_all ps rs (drop ?o xs) @ [0]" b] room lenR
      by (simp add: add.assoc)
    finally show ?thesis
      using sp by (subst strrep_copy.simps) (simp add: rnd(1) Some R)
  qed
qed

subsection \<open>Comparison\<close>

lemma strcmp_loop_cstr:
  "cstr s xs \<Longrightarrow> cstr t ys \<Longrightarrow> strcmp_loop s t = Some (xs = ys)"
proof (induction s t arbitrary: xs ys rule: strcmp_loop.induct)
  case (1 a t1 b t2)
  then show ?case by (auto simp: cstr_Cons split: list.splits)
qed auto

lemma strncmp_loop_mismatch:
  "take k s = take k t \<Longrightarrow> k < length s \<Longrightarrow> k < length t \<Longrightarrow> s ! k \<noteq> t ! k \<Longrightarrow> i + k < len \<Longrightarrow>
     strncmp_loop s t i len = Some (sint (s ! k) - sint (t ! k))"
proof (induction k arbitrary: s t i)
  case 0
  then show ?case by (cases s; cases t) auto
next
  case (Suc k)
  then show ?case by (cases s; cases t) auto
qed

lemma strncmp_loop_short:
  "i + length s < len \<Longrightarrow> strncmp_loop s s i len = None"
  by (induction s arbitrary: i) auto

lemma strn_scan_open:
  "0 \<notin> set xs \<Longrightarrow> strn_scan xs (length xs) = None"
  by (induction xs) auto

lemma strn_scan_cstr:
  "cstr s xs \<Longrightarrow> strn_scan s n = Some (min n (length xs))"
proof (induction s n arbitrary: xs rule: strn_scan.induct)
  case (2 c p m)
  then show ?case by (cases xs; cases m) (auto simp: cstr_Cons)
qed simp

subsection \<open>Properties\<close>

text \<open>
  C26: with a non-empty pattern and a buffer that holds the result and its terminator,
  \<open>stdio_strrep\<close> returns in bounds and leaves in the buffer the string with every
  occurrence of the pattern, found from the left, replaced; what follows in the buffer stays.
\<close>

theorem stdio_strrep_replaces:
  assumes "cstr original xs" and "cstr pat ps" and "cstr replacement rs" and "ps \<noteq> []"
    and "length (replace_all ps rs xs) < length new_str" and "length new_str < 2 ^ 64"
  shows "stdio_strrep original pat replacement new_str =
    Some (Some (replace_all ps rs xs @ 0 # drop (length (replace_all ps rs xs) + 1) new_str))"
proof -
  let ?R = "replace_all ps rs xs"
  obtain m where m: "strrep_count original pat (length ps) 0 0 = Some m"
    "int (length ?R) = int (length xs) + int m * (int (length rs) - int (length ps))"
    using strrep_count_spec [OF assms(1,2,4), of 0 0 rs] by auto
  have new: "(int (length xs) + int m * (int (length rs) - int (length ps))) mod 2 ^ 64 = int (length ?R)"
    unfolding m(2) [symmetric] using assms(5,6) by simp
  have len: "length ?R < length (new_str[length ?R := 0])" using assms(5) by simp
  have "stdio_strrep original pat replacement new_str =
      Some (Some (splice 0 (?R @ [0]) (new_str[length ?R := 0])))"
    using strrep_copy_spec [OF assms(1-4), of 0 0 "new_str[length ?R := 0]"] len assms(5)
    by (simp add: stdio_strrep_def stdio_strlen_def str_scan_cstr [OF assms(1)]
        str_scan_cstr [OF assms(2)] str_scan_cstr [OF assms(3)] m(1) new [simplified] Let_def)
  then show ?thesis by (simp add: splice_def)
qed

theorem stdio_strrep_replaces_witness:
  "stdio_strrep [97, 98, 97, 0] [97, 0] [120, 121, 0] (replicate 8 7) =
     Some (Some [120, 121, 98, 120, 121, 0, 7, 7])"
proof -
  have r: "replace_all [97] [120, 121] [97, 98, 97 :: u8] = [120, 121, 98, 120, 121]" by simp
  have d: "drop 6 (replicate 8 (7 :: u8)) = [7, 7]" by code_simp
  have "cstr [97, 98, 97, 0] [97, 98, 97]" "cstr [97, 0] [97]" "cstr [120, 121, 0] [120, 121]"
    by (simp_all add: cstr_def)
  then show ?thesis
    using stdio_strrep_replaces [of "[97, 98, 97, 0]" "[97, 98, 97]" "[97, 0]" "[97]"
        "[120, 121, 0]" "[120, 121]" "replicate 8 7", unfolded r] d
    by simp
qed

text \<open>
  \<open>stdio_strcmp\<close> tells equal strings from different ones only by their first
  characters: it returns their difference whenever the strings differ, which is 0 when they
  only differ later. \<open>stdio_strncmp\<close> returns the difference at the first mismatch before
  \<open>len\<close>, but it does not stop at the terminator: comparing a string with itself over
  more than its bytes reads past the block.
\<close>

theorem string_comparisons:
  assumes "cstr s xs" and "cstr t ys"
  shows "stdio_strcmp s t = Some (if xs = ys then 0 else sint (s ! 0) - sint (t ! 0)) \<and>
    (k < len \<and> k \<le> length xs \<and> k \<le> length ys \<and> take k s = take k t \<and> s ! k \<noteq> t ! k \<longrightarrow>
       stdio_strncmp s t len = Some (sint (s ! k) - sint (t ! k))) \<and>
    (length s < len \<longrightarrow> stdio_strncmp s s len = None)"
proof -
  have "length xs < length s" "length ys < length t" using assms cstr_end by blast+
  moreover have "rd s 0 = Some (s ! 0)" "rd t 0 = Some (t ! 0)"
    using calculation by (auto simp: rd_def)
  ultimately show ?thesis
    using strcmp_loop_cstr [OF assms] strncmp_loop_mismatch [of k s t 0 len]
      strncmp_loop_short [of 0 s len]
    by (auto simp: stdio_strcmp_def stdio_strncmp_def)
qed

theorem string_comparisons_witness:
  "stdio_strcmp [97, 98, 0] [97, 99, 0] = Some 0 \<and>
   stdio_strncmp [97, 98, 0] [97, 99, 0] 3 = Some (-1) \<and>
   stdio_strncmp [97, 98, 0] [97, 98, 0] 4 = None"
proof -
  have "cstr [97, 98, 0] [97, 98]" "cstr [97, 99, 0] [97, 99]" by (simp_all add: cstr_def)
  moreover have "sint (98 :: u8) = 98" "sint (99 :: u8) = 99" by code_simp+
  ultimately show ?thesis
    using string_comparisons [of "[97, 98, 0]" "[97, 98]" "[97, 99, 0]" "[97, 99]" 1 3]
      string_comparisons [of "[97, 98, 0]" "[97, 98]" "[97, 98, 0]" "[97, 98]" 1 4]
    by simp
qed

text \<open>
  The bounded length is right on a terminated string, and on a full block without
  terminator it reads the byte after the block.
\<close>

theorem stdio_strnlen_bounds:
  assumes "cstr s xs"
  shows "stdio_strnlen (Some s) n = Some (min n (length xs)) \<and>
    stdio_strlen (Some s) = Some (length xs) \<and>
    stdio_strnlen (Some xs) (length xs) = None"
  using assms strn_scan_cstr [OF assms] strn_scan_open [of xs]
  by (auto simp: stdio_strnlen_def stdio_strlen_def cstr_def)

theorem stdio_strnlen_bounds_witness:
  "stdio_strnlen (Some [97, 98, 0]) 1 = Some 1 \<and> stdio_strnlen (Some [97, 98]) 2 = None"
proof -
  have "cstr [97, 98, 0] [97, 98]" by (simp add: cstr_def)
  then show ?thesis using stdio_strnlen_bounds [of "[97, 98, 0]" "[97, 98]" 1]
    by (metis One_nat_def Suc_1 length_Cons list.size(3) min.absorb1 one_le_numeral)
qed

end
