(* ===== verification/Stdio.thy ===== *)
theory Stdio
  imports Strings
begin

text \<open>
  Number parsing and formatting (src/stdio/stdio.c). An \<open>int\<close> has 32 bits and its overflow
  is undefined: \<open>int32\<close> is \<open>None\<close> outside the range. \<open>char\<close> is signed.
\<close>

subsection \<open>Parsing and formatting\<close>

text \<open>\<open>stdio_putchar\<close> writes to the application's port; the model collects what it is given.\<close>

definition puts_body :: "u8 list \<Rightarrow> u8 list \<Rightarrow> nat \<Rightarrow> u8 list option" where
  "puts_body s out i = do { c \<leftarrow> rd s (int i); Some (out @ [c]) }"

definition stdio_puts :: "u8 list option \<Rightarrow> (nat \<times> u8 list) option" where
  "stdio_puts s = do {
     n \<leftarrow> stdio_strlen s;
     out \<leftarrow> for_range 0 n (\<lambda>i out. case s of None \<Rightarrow> None | Some p \<Rightarrow> puts_body p out i) [];
     Some (n, out)
   }"

fun atoi_skip :: "u8 list \<Rightarrow> u8 list option" where
  "atoi_skip [] = None"
| "atoi_skip (c # s) = (if c = 32 then atoi_skip s else Some (c # s))"

fun atoi_digits :: "int \<Rightarrow> int \<Rightarrow> u8 list \<Rightarrow> int option" where
  "atoi_digits base result [] = None"
| "atoi_digits base result (ch # s) =
     (if ch = 0 then Some result
      else
        let c = stdio_toupper (sint ch) in
        if 48 \<le> c \<and> c \<le> 57 then
          (case int32 (result * base) of None \<Rightarrow> None
           | Some m \<Rightarrow> (case int32 (m + (c - 48)) of None \<Rightarrow> None
              | Some r \<Rightarrow> atoi_digits base r s))
        else if 65 \<le> c \<and> c \<le> 70 \<and> base = 16 then
          (case int32 (result * base) of None \<Rightarrow> None
           | Some m \<Rightarrow> (case int32 (m + (c + 10 - 65)) of None \<Rightarrow> None
              | Some r \<Rightarrow> atoi_digits base r s))
        else Some result)"

definition stdio_atoi :: "u8 list \<Rightarrow> int \<Rightarrow> int option" where
  "stdio_atoi s base = do {
     s \<leftarrow> atoi_skip s;
     c \<leftarrow> rd s 0;
     let neg = (c = 45);
     let pos = (c = 43);
     let s = (if neg \<or> pos then drop 1 s else s);
     let s = (if base = 16 then drop 2 s else s);
     result \<leftarrow> atoi_digits base 0 s;
     if neg then int32 (- result) else Some result
   }"

function itoad_digits :: "int \<Rightarrow> nat \<Rightarrow> u8 list \<Rightarrow> (nat \<times> u8 list) option" where
  "itoad_digits n i s =
     (if 0 < n then
        (case wr s (int i) (word_of_int (48 + n mod 10)) of
           None \<Rightarrow> None
         | Some s' \<Rightarrow> itoad_digits (n div 10) (Suc i) s')
      else Some (i, s))"
  by pat_completeness auto
termination by (relation "measure (\<lambda>(n, i, s). nat n)") auto

declare itoad_digits.simps [simp del]

definition stdio_itoad :: "int \<Rightarrow> u8 list \<Rightarrow> u8 list option" where
  "stdio_itoad n s = do {
     s \<leftarrow> wr s 0 (if n = 0 then 48 else if n < 0 then 45 else 43);
     n \<leftarrow> (if n < 0 then int32 (- n) else Some n);
     (i, s) \<leftarrow> itoad_digits n 1 s;
     s \<leftarrow> wr s (int i) 0;
     stdio_strrev 1 s (i - 1)
   }"

definition hex_digit :: "u32 \<Rightarrow> u8" where
  "hex_digit i = [48, 49, 50, 51, 52, 53, 54, 55, 56, 57, 97, 98, 99, 100, 101, 102] ! unat (i AND 0x0F)"

definition itoax_n_digits :: "u32 \<Rightarrow> nat" where
  "itoax_n_digits i =
     (if i < 0x10 then 1 else if i < 0x100 then 2 else if i < 0x1000 then 3
      else if i < 0x10000 then 4 else if i < 0x100000 then 5 else if i < 0x1000000 then 6
      else if i < 0x10000000 then 7 else 8)"

fun itoax_fill :: "nat \<Rightarrow> nat \<Rightarrow> u32 \<Rightarrow> u8 list \<Rightarrow> u8 list option" where
  "itoax_fill d 0 i s = Some s"
| "itoax_fill d (Suc n) i s =
     (case wr s (int (d + n)) (hex_digit i) of None \<Rightarrow> None
      | Some s' \<Rightarrow> itoax_fill d n (drop_bit 4 i) s')"

definition stdio_itoax :: "u32 \<Rightarrow> u8 list \<Rightarrow> bool \<Rightarrow> u8 list option" where
  "stdio_itoax i s add_0x = do {
     let n_digits = itoax_n_digits i;
     s \<leftarrow> (if add_0x then do { s \<leftarrow> wr s 0 48; wr s 1 120 } else Some s);
     let d = (if add_0x then 2 else 0);
     s \<leftarrow> wr s (int (d + n_digits)) 0;
     itoax_fill d n_digits i s
   }"

subsection \<open>Decimal digits\<close>

text \<open>The digits of a number, the last one first.\<close>

function rdigits :: "int \<Rightarrow> u8 list" where
  "rdigits n = (if 0 < n then word_of_int (48 + n mod 10) # rdigits (n div 10) else [])"
  by pat_completeness auto
termination by (relation "measure nat") auto

declare rdigits.simps [simp del]

lemma length_rdigits: "n < 10 ^ k \<Longrightarrow> length (rdigits n) \<le> k"
proof (induction k arbitrary: n)
  case 0
  then show ?case by (simp add: rdigits.simps)
next
  case (Suc k)
  have "n div 10 < 10 ^ k" using Suc.prems by (simp add: div_less_iff_less_mult mult.commute)
  then show ?case using Suc.IH by (subst rdigits.simps) simp
qed

lemma itoad_digits_spec:
  "i + length (rdigits n) \<le> length b \<Longrightarrow>
     itoad_digits n i b = Some (i + length (rdigits n), splice i (rdigits n) b)"
proof (induction n arbitrary: i b rule: rdigits.induct)
  case (1 n)
  show ?case
  proof (cases "0 < n")
    case True
    let ?d = "word_of_int (48 + n mod 10) :: u8"
    have r: "rdigits n = ?d # rdigits (n div 10)" using True by (subst rdigits.simps) simp
    have w: "wr b (int i) ?d = Some (splice i [?d] b)"
      using wr_splice [of i "[]" b "int i" ?d] 1(2) by (simp add: r)
    have ih: "itoad_digits (n div 10) (Suc i) (splice i [?d] b) =
        Some (Suc i + length (rdigits (n div 10)), splice (Suc i) (rdigits (n div 10)) (splice i [?d] b))"
      using 1(2) by (intro 1(1) True) (simp add: r)
    have "splice (Suc i) (rdigits (n div 10)) (splice i [?d] b) = splice i (rdigits n) b"
      using splice_splice [of i "[?d]" "rdigits (n div 10)" b] 1(2) by (simp add: r)
    then show ?thesis using True w ih r by (subst itoad_digits.simps) simp
  next
    case False
    then show ?thesis by (simp add: itoad_digits.simps rdigits.simps)
  qed
qed

lemma sint_char: "- 128 \<le> x \<Longrightarrow> x < 128 \<Longrightarrow> sint (word_of_int x :: u8) = x"
  by (simp add: signed_of_int signed_take_bit_int_eq_self)

lemma atoi_digit:
  assumes "0 \<le> k" and "k < 10" and "int32 (r * 10 + k) = Some m" and "0 \<le> r"
  shows "atoi_digits 10 r (word_of_int (48 + k) # t) = atoi_digits 10 m t"
proof -
  have s: "sint (word_of_int (48 + k) :: u8) = 48 + k" using assms by (intro sint_char) auto
  have nz: "(word_of_int (48 + k) :: u8) \<noteq> 0"
  proof
    assume "(word_of_int (48 + k) :: u8) = 0"
    then have "sint (word_of_int (48 + k) :: u8) = 0" by simp
    then show False using s assms(1) by simp
  qed
  have "int32 (r * 10) = Some (r * 10)" "m = r * 10 + k"
    using assms by (auto simp: int32_def split: if_splits)
  then show ?thesis using nz s assms by (simp add: stdio_toupper_def Let_def)
qed

lemma atoi_rdigits:
  "0 \<le> n \<Longrightarrow> n < 2 ^ 31 \<Longrightarrow> atoi_digits 10 0 (rev (rdigits n) @ t) = atoi_digits 10 n t"
proof (induction n arbitrary: t rule: rdigits.induct)
  case (1 n)
  show ?case
  proof (cases "0 < n")
    case True
    have r: "rdigits n = word_of_int (48 + n mod 10) # rdigits (n div 10)"
      using True by (subst rdigits.simps) simp
    have "n div 10 < 2 ^ 31" using 1(3) True by linarith
    then have "atoi_digits 10 0 (rev (rdigits n) @ t) =
        atoi_digits 10 (n div 10) (word_of_int (48 + n mod 10) # t)"
      using 1(1) [OF True, of "word_of_int (48 + n mod 10) # t"] 1(2) by (simp add: r)
    also have "\<dots> = atoi_digits 10 n t"
      using 1(2,3) by (intro atoi_digit) (simp_all add: int32_def)
    finally show ?thesis .
  next
    case False
    then show ?thesis using 1(2) by (simp add: rdigits.simps)
  qed
qed

text \<open>What \<open>stdio_itoad\<close> leaves in a buffer.\<close>

lemma itoad_spec:
  assumes "- (2 ^ 31) < n" and "n < 2 ^ 31" and "12 \<le> length s"
  shows "\<exists>rest. stdio_itoad n s =
    Some ((if n = 0 then 48 else if n < 0 then 45 else 43) # rev (rdigits \<bar>n\<bar>) @ 0 # rest)"
proof -
  let ?c = "(if n = 0 then 48 else if n < 0 then 45 else 43) :: u8" and ?d = "rdigits \<bar>n\<bar>"
  obtain a s' where s: "s = a # s'" "11 \<le> length s'" using assms(3) by (cases s) auto
  have len: "length ?d \<le> 10" using assms by (intro length_rdigits) auto
  have abs: "(if n < 0 then int32 (- n) else Some n) = Some \<bar>n\<bar>"
    using assms by (simp add: int32_def)
  have w: "wr s 0 ?c = Some (?c # s')" by (simp add: s wr_def)
  have sp: "splice 1 ?d (?c # s') = ?c # ?d @ drop (length ?d) s'" by (simp add: splice_def)
  have dig: "itoad_digits \<bar>n\<bar> 1 (?c # s') = Some (1 + length ?d, ?c # ?d @ drop (length ?d) s')"
    using itoad_digits_spec [of 1 "\<bar>n\<bar>" "?c # s'"] len s(2) sp by simp
  obtain b rest where rest: "drop (length ?d) s' = b # rest"
    using len s(2) by (cases "drop (length ?d) s'") auto
  have w0: "wr (?c # ?d @ b # rest) (int (1 + length ?d)) 0 = Some (?c # ?d @ 0 # rest)"
    by (simp add: wr_def list_update_append nat_add_distrib)
  have rv: "stdio_strrev 1 (?c # ?d @ 0 # rest) (length ?d) = Some (?c # rev ?d @ 0 # rest)"
    using stdio_strrev_rev [of ?d "[?c]" "0 # rest"] len by simp
  have "stdio_itoad n s = Some (?c # rev ?d @ 0 # rest)"
    using w abs dig w0 rv rest by (simp add: stdio_itoad_def del: of_nat_Suc of_nat_add)
  then show ?thesis by blast
qed

lemma atoi_itoad:
  assumes "- (2 ^ 31) < n" and "n < 2 ^ 31"
  shows "stdio_atoi ((if n = 0 then 48 else if n < 0 then 45 else 43) #
    rev (rdigits \<bar>n\<bar>) @ 0 # rest) 10 = Some n"
proof -
  have "atoi_digits 10 0 (rev (rdigits \<bar>n\<bar>) @ 0 # rest) = Some \<bar>n\<bar>"
    using atoi_rdigits [of "\<bar>n\<bar>" "0 # rest"] assms by simp
  moreover have "atoi_digits 10 0 (48 # 0 # rest) = Some 0"
    using atoi_digit [of 0 0 0 "0 # rest"] by (simp add: int32_def)
  moreover have "rdigits 0 = []" by (simp add: rdigits.simps)
  ultimately show ?thesis using assms
    by (cases "n = 0") (auto simp: stdio_atoi_def rd_def int32_def Let_def)
qed

subsection \<open>Hexadecimal digits\<close>

text \<open>The last \<open>k\<close> digits of a word, the first one first.\<close>

fun hexs :: "nat \<Rightarrow> u32 \<Rightarrow> u8 list" where
  "hexs 0 i = []"
| "hexs (Suc k) i = hexs k (drop_bit 4 i) @ [hex_digit i]"

lemma length_hexs [simp]: "length (hexs k i) = k"
  by (induction k arbitrary: i) auto

lemma itoax_fill_spec:
  "d + k \<le> length b \<Longrightarrow> itoax_fill d k i b = Some (splice d (hexs k i) b)"
proof (induction k arbitrary: i b)
  case (Suc k)
  let ?b = "b[d + k := hex_digit i]"
  have "drop (d + k) ?b = hex_digit i # drop (Suc (d + k)) b"
    using Suc.prems by (simp add: drop_update_swap Cons_nth_drop_Suc [symmetric])
  then have "splice d (hexs k (drop_bit 4 i)) ?b = splice d (hexs (Suc k) i) b"
    using Suc.prems by (simp add: splice_def)
  then show ?case using Suc by (simp del: of_nat_add)
qed simp

lemma hex_digits_table:
  "list_all (\<lambda>v. let ch = [48, 49, 50, 51, 52, 53, 54, 55, 56, 57, 97, 98, 99, 100, 101, 102] ! v :: u8;
      c = stdio_toupper (sint ch) in
      ch \<noteq> 0 \<and> (if v < 10 then 48 \<le> c \<and> c \<le> 57 \<and> c - 48 = int v
        else \<not> c \<le> 57 \<and> 65 \<le> c \<and> c \<le> 70 \<and> c + 10 - 65 = int v)) [0..<16]"
  by code_simp

lemma atoi_hex_digit:
  assumes "0 \<le> r" and "int32 (r * 16 + uint (i AND 0x0F)) = Some m"
  shows "atoi_digits 16 r (hex_digit i # t) = atoi_digits 16 m t"
proof -
  let ?v = "unat (i AND 0x0F)"
  have "i AND 0x0F = take_bit 4 i" by (simp add: take_bit_eq_mask mask_eq_exp_minus_1)
  then have "?v = unat i mod 16" by (simp add: take_bit_eq_mod unat_mod)
  then have "?v \<in> set [0..<16]" by simp
  note tab = hex_digits_table [unfolded list_all_iff Let_def, THEN bspec, OF this]
  have dd: "hex_digit i \<noteq> 0 \<and>
    (if ?v < 10 then 48 \<le> stdio_toupper (sint (hex_digit i)) \<and> stdio_toupper (sint (hex_digit i)) \<le> 57 \<and>
        stdio_toupper (sint (hex_digit i)) - 48 = int ?v
     else \<not> stdio_toupper (sint (hex_digit i)) \<le> 57 \<and> 65 \<le> stdio_toupper (sint (hex_digit i)) \<and>
        stdio_toupper (sint (hex_digit i)) \<le> 70 \<and> stdio_toupper (sint (hex_digit i)) + 10 - 65 = int ?v)"
    unfolding hex_digit_def by (rule tab)
  note d = dd [THEN conjunct1] dd [THEN conjunct2]
  have v: "int ?v = uint (i AND 0x0F)" by simp
  obtain x where x: "uint (i AND 0x0F) = x" "0 \<le> x" using uint_ge_0 by blast
  have m: "int32 (r * 16) = Some (r * 16)" "m = r * 16 + uint (i AND 0x0F)" "int32 m = Some m"
    using assms unfolding x(1) using x(2) by (auto simp: int32_def split: if_splits)
  show ?thesis
  proof (cases "?v < 10")
    case True
    then show ?thesis using d m v by (simp add: Let_def)
  next
    case False
    then show ?thesis using d m v by (simp add: Let_def)
  qed
qed

lemma uint_nibbles: "uint (i :: u32) = uint (drop_bit 4 i) * 16 + uint (i AND 0x0F)"
proof -
  have "i AND 0x0F = take_bit 4 i" by (simp add: take_bit_eq_mask mask_eq_exp_minus_1)
  then show ?thesis
    by (simp add: take_bit_eq_mod drop_bit_eq_div uint_mod uint_div)
qed

lemma atoi_hexs:
  "uint i < 2 ^ 31 \<Longrightarrow> uint i < 16 ^ k \<Longrightarrow>
     atoi_digits 16 0 (hexs k i @ t) = atoi_digits 16 (uint i) t"
proof (induction k arbitrary: i t)
  case 0
  then have "uint i < 1" by simp
  then have "uint i = 0" using uint_ge_0 [of i] by linarith
  then show ?case by simp
next
  case (Suc k)
  have p: "0 \<le> uint (i AND 0x0F)" "0 \<le> uint (drop_bit 4 i)" by simp_all
  note n = uint_nibbles [of i]
  have lt: "uint i < 16 * 16 ^ k" using Suc.prems(2) by simp
  have "uint (drop_bit 4 i) < 2 ^ 31" "uint (drop_bit 4 i) < 16 ^ k"
    using Suc.prems(1) n p lt by linarith+
  then have "atoi_digits 16 0 (hexs (Suc k) i @ t) = atoi_digits 16 (uint (drop_bit 4 i)) (hex_digit i # t)"
    using Suc.IH [of "drop_bit 4 i" "hex_digit i # t"] by simp
  also have "\<dots> = atoi_digits 16 (uint i) t"
  proof (rule atoi_hex_digit)
    have "- (2 ^ 31) \<le> uint i" by (rule order_trans [of _ 0]) (simp, rule uint_ge_0)
    then have "int32 (uint i) = Some (uint i)" using Suc.prems(1) by (simp only: int32_def simp_thms if_True)
    then show "int32 (uint (drop_bit 4 i) * 16 + uint (i AND 0x0F)) = Some (uint i)"
      by (simp only: n [symmetric])
  qed simp
  finally show ?case .
qed

lemma itoax_n_digits_enough: "uint i < 16 ^ itoax_n_digits i" "itoax_n_digits i \<le> 8"
proof -
  have "uint i < 2 ^ 32" using uint_lt2p [of i] by simp
  then show "uint i < 16 ^ itoax_n_digits i"
    by (auto simp: itoax_n_digits_def word_less_alt)
qed (simp add: itoax_n_digits_def)

lemma itoax_spec:
  assumes "11 \<le> length s"
  shows "\<exists>rest. stdio_itoax i s True = Some (48 # 120 # hexs (itoax_n_digits i) i @ 0 # rest)"
proof -
  let ?n = "itoax_n_digits i"
  obtain a b s' where s: "s = a # b # s'" "9 \<le> length s'"
    using assms by (cases s; cases "tl s") auto
  have n: "?n < length s'" using itoax_n_digits_enough(2) [of i] s(2) by simp
  have w: "wr (48 # 120 # s') (int (2 + ?n)) 0 = Some (48 # 120 # s'[?n := 0])"
    using n by (subst wr_nat) simp_all
  have "itoax_fill 2 ?n i (48 # 120 # s'[?n := 0]) = Some (splice 2 (hexs ?n i) (48 # 120 # s'[?n := 0]))"
    using n by (intro itoax_fill_spec) simp
  moreover have "splice 2 (hexs ?n i) (48 # 120 # s'[?n := 0]) = 48 # 120 # hexs ?n i @ 0 # drop (Suc ?n) s'"
    using n by (simp add: splice_def numeral_2_eq_2 drop_update_swap Cons_nth_drop_Suc [symmetric])
  moreover have "wr s 0 48 = Some (48 # b # s')" "wr (48 # b # s') 1 120 = Some (48 # 120 # s')"
    by (simp_all add: s wr_def)
  ultimately show ?thesis using w by (simp add: stdio_itoax_def Let_def del: of_nat_add)
qed

lemma atoi_itoax:
  assumes "uint i < 2 ^ 31"
  shows "stdio_atoi (48 # 120 # hexs (itoax_n_digits i) i @ 0 # rest) 16 = Some (uint i)"
proof -
  have "atoi_digits 16 0 (hexs (itoax_n_digits i) i @ 0 # rest) = Some (uint i)"
    using atoi_hexs [OF assms itoax_n_digits_enough(1)] by simp
  then show ?thesis by (simp add: stdio_atoi_def rd_def Let_def)
qed

subsection \<open>Properties\<close>

text \<open>
  C29: parsing reads back what formatting wrote: for every \<open>int\<close> but the smallest,
  \<open>stdio_itoad\<close> fills a buffer of 12 bytes in bounds with a string that \<open>stdio_atoi\<close>
  maps to the number; for every word that fits an \<open>int\<close>, the same holds of
  \<open>stdio_itoax\<close> with its prefix in a buffer of 11 bytes and base 16. Negating the smallest
  \<open>int\<close> overflows.
\<close>

theorem number_format_roundtrip:
  assumes "- (2 ^ 31) < n" and "n < 2 ^ 31" and "12 \<le> length s" and "uint i < 2 ^ 31"
  shows "(\<exists>b. stdio_itoad n s = Some b \<and> stdio_atoi b 10 = Some n) \<and>
    (\<exists>b. stdio_itoax i s True = Some b \<and> stdio_atoi b 16 = Some (uint i)) \<and>
    stdio_itoad (- (2 ^ 31)) s = None"
proof -
  have "stdio_itoad (- (2 ^ 31)) s = None"
    by (cases "wr s 0 45") (auto simp: stdio_itoad_def int32_def)
  moreover have "11 \<le> length s" using assms(3) by simp
  ultimately show ?thesis
    using itoad_spec [OF assms(1-3)] itoax_spec [of s i] atoi_itoad [OF assms(1,2)] atoi_itoax [OF assms(4)]
    by metis
qed

theorem number_format_roundtrip_witness:
  "(\<exists>b. stdio_itoad (-42) (replicate 12 0) = Some b \<and> stdio_atoi b 10 = Some (-42)) \<and>
   (\<exists>b. stdio_itoax 255 (replicate 12 0) True = Some b \<and> stdio_atoi b 16 = Some (uint (255 :: u32))) \<and>
   stdio_itoad (- (2 ^ 31)) (replicate 12 0) = None"
  by (rule number_format_roundtrip) simp_all

end
