(* ===== verification/Time.thy ===== *)
theory Time
  imports Rcsw_Prelude "HOL-Library.Signed_Division"
begin

text \<open>
  Time arithmetic (src/utils/time.c). \<open>time_t\<close> and \<open>long\<close> have 64 bits and their overflow
  is undefined: \<open>int64\<close> is \<open>None\<close> outside the range. The clock is a parameter. The
  conversion to \<open>double\<close> is not modelled.
\<close>

subsection \<open>Operations\<close>

record timespec =
  tv_sec :: int
  tv_nsec :: int

definition ONEE9 :: int where
  "ONEE9 = 1000000000"

definition int64 :: "int \<Rightarrow> int option" where
  "int64 x = (if - (2 ^ 63) \<le> x \<and> x < 2 ^ 63 then Some x else None)"

definition time_ts2monons :: "timespec \<Rightarrow> nat" where
  "time_ts2monons ts = nat ((tv_sec ts * ONEE9 + tv_nsec ts) mod 2 ^ 64)"

definition time_monons2ts :: "nat \<Rightarrow> timespec" where
  "time_monons2ts val = \<lparr>tv_sec = int val div ONEE9, tv_nsec = int val mod ONEE9\<rparr>"

definition time_ts_cmp :: "timespec \<Rightarrow> timespec \<Rightarrow> int" where
  "time_ts_cmp a b =
     (if tv_sec a > tv_sec b then 1
      else if tv_sec a < tv_sec b then -1
      else if tv_sec a = tv_sec b \<and> tv_nsec a > tv_nsec b then 1
      else if tv_sec a = tv_sec b \<and> tv_nsec a < tv_nsec b then -1
      else 0)"

definition time_ts_add :: "timespec \<Rightarrow> timespec \<Rightarrow> timespec option" where
  "time_ts_add instant val = do {
     nsec \<leftarrow> int64 (tv_nsec instant + tv_nsec val);
     carried \<leftarrow> int64 (tv_sec val + nsec sdiv ONEE9);
     sec \<leftarrow> int64 (tv_sec instant + carried);
     Some \<lparr>tv_sec = sec, tv_nsec = nsec smod ONEE9\<rparr>
   }"

definition time_ts_diff :: "timespec \<Rightarrow> timespec \<Rightarrow> timespec option" where
  "time_ts_diff start stop = do {
     dn \<leftarrow> int64 (tv_nsec stop - tv_nsec start);
     ds \<leftarrow> int64 (tv_sec stop - tv_sec start);
     if dn < 0 then do {
       sec \<leftarrow> int64 (ds - 1);
       n \<leftarrow> int64 (ONEE9 + tv_nsec stop);
       nsec \<leftarrow> int64 (n - tv_nsec start);
       Some \<lparr>tv_sec = sec, tv_nsec = nsec\<rparr>
     }
     else Some \<lparr>tv_sec = ds, tv_nsec = dn\<rparr>
   }"

definition time_ts_make_abs :: "timespec \<Rightarrow> timespec \<Rightarrow> (status \<times> timespec) option" where
  "time_ts_make_abs realtime rel = map_option (Pair OK) (time_ts_add realtime rel)"

subsection \<open>Nanoseconds\<close>

text \<open>
  The instant a normalised \<open>timespec\<close> stands for; seconds are bounded so that sums of two
  stay in range.
\<close>

definition nanos :: "timespec \<Rightarrow> int" where
  "nanos ts = tv_sec ts * ONEE9 + tv_nsec ts"

definition normal :: "timespec \<Rightarrow> bool" where
  "normal ts \<longleftrightarrow> 0 \<le> tv_nsec ts \<and> tv_nsec ts < ONEE9 \<and> \<bar>tv_sec ts\<bar> < 2 ^ 61"

lemma c_div_nonneg: "0 \<le> (n :: int) \<Longrightarrow> n sdiv ONEE9 = n div ONEE9 \<and> n smod ONEE9 = n mod ONEE9"
  by (simp add: ONEE9_def signed_divide_int_def signed_modulo_int_def minus_div_mult_eq_mod
      sgn_if)

lemma time_ts_add_nanos:
  assumes "normal a" and "normal b"
  shows "\<exists>c. time_ts_add a b = Some c \<and> nanos c = nanos a + nanos b \<and>
    0 \<le> tv_nsec c \<and> tv_nsec c < ONEE9"
proof -
  let ?n = "tv_nsec a + tv_nsec b"
  have n: "0 \<le> ?n" "?n < 2 * ONEE9" using assms by (auto simp: normal_def)
  have q: "0 \<le> ?n div ONEE9" "?n div ONEE9 \<le> 1" using n by (auto simp: ONEE9_def)
  have "int64 ?n = Some ?n" using n by (simp add: int64_def ONEE9_def)
  moreover have "int64 (tv_sec b + ?n div ONEE9) = Some (tv_sec b + ?n div ONEE9)"
    using q assms by (auto simp: int64_def normal_def)
  moreover have "int64 (tv_sec a + (tv_sec b + ?n div ONEE9)) = Some (tv_sec a + (tv_sec b + ?n div ONEE9))"
    using q assms by (auto simp: int64_def normal_def)
  ultimately have "time_ts_add a b =
      Some \<lparr>tv_sec = tv_sec a + (tv_sec b + ?n div ONEE9), tv_nsec = ?n mod ONEE9\<rparr>"
    using n by (simp add: time_ts_add_def c_div_nonneg)
  moreover have "?n div ONEE9 * ONEE9 + ?n mod ONEE9 = ?n" by (rule div_mult_mod_eq)
  ultimately show ?thesis by (simp add: nanos_def algebra_simps ONEE9_def)
qed

lemma time_ts_diff_nanos:
  assumes "normal a" and "normal b"
  shows "\<exists>c. time_ts_diff a b = Some c \<and> nanos c = nanos b - nanos a \<and>
    0 \<le> tv_nsec c \<and> tv_nsec c < ONEE9"
  using assms by (auto simp: time_ts_diff_def int64_def normal_def nanos_def ONEE9_def)

lemma nanos_less:
  assumes "normal a" and "normal b" and "tv_sec a < tv_sec b"
  shows "nanos a < nanos b"
  using assms by (simp add: nanos_def normal_def ONEE9_def)

lemma time_ts_cmp_nanos:
  assumes "normal a" and "normal b"
  shows "time_ts_cmp a b = sgn (nanos a - nanos b)"
proof -
  consider "tv_sec a < tv_sec b" | "tv_sec b < tv_sec a" | "tv_sec a = tv_sec b" by linarith
  then show ?thesis
  proof cases
    case 1
    then show ?thesis using nanos_less [OF assms] by (simp add: time_ts_cmp_def)
  next
    case 2
    then show ?thesis using nanos_less [OF assms(2,1)] by (simp add: time_ts_cmp_def)
  next
    case 3
    then show ?thesis by (auto simp: time_ts_cmp_def nanos_def)
  qed
qed

subsection \<open>Properties\<close>

text \<open>
  C30: on normalised times the operations are arithmetic of nanoseconds: the sum and the
  difference stay in range and stand for the sum and difference of the instants, with a
  nanosecond part in its range, the comparison is the sign of the difference, and the
  conversion to and from a count of nanoseconds is the identity on times since the epoch.
\<close>

theorem time_refines_nanoseconds:
  assumes "normal a" and "normal b" and "0 \<le> tv_sec a" and "tv_sec a < 2 ^ 34"
  shows "(\<exists>c. time_ts_add a b = Some c \<and> nanos c = nanos a + nanos b \<and> 0 \<le> tv_nsec c \<and> tv_nsec c < ONEE9) \<and>
    (\<exists>d. time_ts_diff a b = Some d \<and> nanos d = nanos b - nanos a \<and> 0 \<le> tv_nsec d \<and> tv_nsec d < ONEE9) \<and>
    time_ts_cmp a b = sgn (nanos a - nanos b) \<and>
    int (time_ts2monons a) = nanos a \<and> time_monons2ts (time_ts2monons a) = a"
proof -
  have n: "0 \<le> nanos a" "nanos a < 2 ^ 64"
    using assms by (auto simp: nanos_def normal_def ONEE9_def)
  have m: "int (time_ts2monons a) = nanos a"
    using n by (simp add: time_ts2monons_def nanos_def)
  moreover have "nanos a div ONEE9 = tv_sec a" "nanos a mod ONEE9 = tv_nsec a"
    using assms(1) by (auto simp: nanos_def normal_def ONEE9_def)
  ultimately have "time_monons2ts (time_ts2monons a) = a" by (simp add: time_monons2ts_def)
  then show ?thesis
    using m time_ts_add_nanos [OF assms(1,2)] time_ts_diff_nanos [OF assms(1,2)]
      time_ts_cmp_nanos [OF assms(1,2)] by blast
qed

theorem time_refines_nanoseconds_witness:
  "\<exists>d. time_ts_diff \<lparr>tv_sec = 5, tv_nsec = 999999999\<rparr> \<lparr>tv_sec = 7, tv_nsec = 1\<rparr> = Some d \<and>
     nanos d = 1000000002"
proof -
  have "normal \<lparr>tv_sec = 5, tv_nsec = 999999999\<rparr>" "normal \<lparr>tv_sec = 7, tv_nsec = 1\<rparr>"
    by (simp_all add: normal_def ONEE9_def)
  then show ?thesis
    using time_refines_nanoseconds [of "\<lparr>tv_sec = 5, tv_nsec = 999999999\<rparr>" "\<lparr>tv_sec = 7, tv_nsec = 1\<rparr>"]
    by (auto simp: nanos_def ONEE9_def)
qed

end
