(* ===== verification/Node_Heap.thy ===== *)
theory Node_Heap
  imports Rcsw_Prelude
begin

text \<open>
  The heap of list nodes (struct llist_node in include/rcsw/ds/llist.h): nodes and datablocks
  live in two maps from addresses, \<open>NULL\<close> is \<open>None\<close>, and an access through an address
  without a node is a fault. Below the accesses stand the predicates on chains of nodes the
  proofs use.
\<close>

subsection \<open>Nodes\<close>

record llist_node =
  nd_next :: "nat option"
  nd_prev :: "nat option"
  nd_data :: "nat option"

type_synonym node_heap = "nat \<Rightarrow> llist_node option"

record 'a lheap =
  hp_nodes :: node_heap
  hp_blocks :: "nat \<Rightarrow> 'a option"

text \<open>Reading a node through a pointer, and updating a field of it.\<close>

definition deref :: "node_heap \<Rightarrow> nat option \<Rightarrow> llist_node option" where
  "deref ns p = (case p of None \<Rightarrow> None | Some a \<Rightarrow> ns a)"

definition set_next :: "nat option \<Rightarrow> nat option \<Rightarrow> node_heap \<Rightarrow> node_heap option" where
  "set_next p v ns = (case p of None \<Rightarrow> None | Some a \<Rightarrow>
     (case ns a of None \<Rightarrow> None | Some nd \<Rightarrow> Some (ns(a \<mapsto> nd\<lparr>nd_next := v\<rparr>))))"

definition set_prev :: "nat option \<Rightarrow> nat option \<Rightarrow> node_heap \<Rightarrow> node_heap option" where
  "set_prev p v ns = (case p of None \<Rightarrow> None | Some a \<Rightarrow>
     (case ns a of None \<Rightarrow> None | Some nd \<Rightarrow> Some (ns(a \<mapsto> nd\<lparr>nd_prev := v\<rparr>))))"

text \<open>The element a node holds.\<close>

definition elem_at :: "'a lheap \<Rightarrow> nat option \<Rightarrow> 'a option" where
  "elem_at H d = (case d of None \<Rightarrow> None | Some b \<Rightarrow> hp_blocks H b)"

definition node_elem :: "'a lheap \<Rightarrow> nat \<Rightarrow> 'a option" where
  "node_elem H a = (case hp_nodes H a of None \<Rightarrow> None | Some nd \<Rightarrow> elem_at H (nd_data nd))"

lemma deref_simps [simp]: "deref ns None = None" "deref ns (Some a) = ns a"
  by (simp_all add: deref_def)

lemma set_next_Some [simp]:
  "ns a = Some nd \<Longrightarrow> set_next (Some a) v ns = Some (ns(a \<mapsto> nd\<lparr>nd_next := v\<rparr>))"
  by (simp add: set_next_def)

lemma set_prev_Some [simp]:
  "ns a = Some nd \<Longrightarrow> set_prev (Some a) v ns = Some (ns(a \<mapsto> nd\<lparr>nd_prev := v\<rparr>))"
  by (simp add: set_prev_def)

subsection \<open>Chains\<close>

text \<open>Following \<open>next\<close> from \<open>p\<close> visits the nodes \<open>as\<close> and ends at \<open>q\<close>.\<close>

fun lseg :: "node_heap \<Rightarrow> nat option \<Rightarrow> nat list \<Rightarrow> nat option \<Rightarrow> bool" where
  "lseg ns p [] q \<longleftrightarrow> p = q"
| "lseg ns p (a # as) q \<longleftrightarrow> p = Some a \<and>
     (case ns a of None \<Rightarrow> False | Some nd \<Rightarrow> lseg ns (nd_next nd) as q)"

text \<open>The \<open>prev\<close> fields of the nodes \<open>as\<close> lead back to \<open>b\<close>.\<close>

fun prevs :: "node_heap \<Rightarrow> nat option \<Rightarrow> nat list \<Rightarrow> bool" where
  "prevs ns b [] \<longleftrightarrow> True"
| "prevs ns b (a # as) \<longleftrightarrow>
     (case ns a of None \<Rightarrow> False | Some nd \<Rightarrow> nd_prev nd = b \<and> prevs ns (Some a) as)"

definition last_of :: "nat option \<Rightarrow> nat list \<Rightarrow> nat option" where
  "last_of b as = (if as = [] then b else Some (last as))"

lemma last_of_simps [simp]:
  "last_of b [] = b" "last_of b (as @ [a]) = Some a" "last_of b (a # as) = last_of (Some a) as"
  by (simp_all add: last_of_def)

lemma last_of_mid [simp]: "last_of b (xs @ y # ys) = last_of (Some y) ys"
  by (induction xs arbitrary: b) auto

lemma lseg_None [simp]: "lseg ns None as None \<longleftrightarrow> as = []"
  by (cases as) auto

lemma lseg_Some: "lseg ns (Some a) as None \<longleftrightarrow>
    (\<exists>bs nd. as = a # bs \<and> ns a = Some nd \<and> lseg ns (nd_next nd) bs None)"
  by (cases as) (auto split: option.splits)

lemma lseg_append: "lseg ns p (as @ bs) q \<longleftrightarrow> (\<exists>r. lseg ns p as r \<and> lseg ns r bs q)"
  by (induction as arbitrary: p) (auto split: option.splits)

lemma lseg_dom: "lseg ns p as q \<Longrightarrow> a \<in> set as \<Longrightarrow> \<exists>nd. ns a = Some nd"
  by (induction as arbitrary: p) (auto split: option.splits)

lemma prevs_append: "prevs ns b (as @ bs) \<longleftrightarrow> prevs ns b as \<and> prevs ns (last_of b as) bs"
  by (induction as arbitrary: b) (auto split: option.splits)

text \<open>Only the fields on the chain matter.\<close>

definition same_next :: "nat set \<Rightarrow> node_heap \<Rightarrow> node_heap \<Rightarrow> bool" where
  "same_next A ns ns' \<longleftrightarrow> (\<forall>a \<in> A. map_option nd_next (ns' a) = map_option nd_next (ns a))"

definition same_prev :: "nat set \<Rightarrow> node_heap \<Rightarrow> node_heap \<Rightarrow> bool" where
  "same_prev A ns ns' \<longleftrightarrow> (\<forall>a \<in> A. map_option nd_prev (ns' a) = map_option nd_prev (ns a))"

definition same_data :: "node_heap \<Rightarrow> node_heap \<Rightarrow> bool" where
  "same_data ns ns' \<longleftrightarrow> (\<forall>a. map_option nd_data (ns' a) = map_option nd_data (ns a))"

lemma lseg_cong: "same_next (set as) ns ns' \<Longrightarrow> lseg ns' p as q = lseg ns p as q"
proof (induction as arbitrary: p)
  case (Cons a as)
  then have "same_next (set as) ns ns'" "map_option nd_next (ns' a) = map_option nd_next (ns a)"
    by (simp_all add: same_next_def)
  with Cons.IH show ?case by (cases "ns a"; cases "ns' a") auto
qed simp

lemma lseg_frame:
  assumes "lseg ns p as q" and "\<forall>a. a \<notin> S \<longrightarrow> ns' a = ns a" and "S \<inter> set as = {}"
  shows "lseg ns' p as q"
proof -
  have "same_next (set as) ns ns'" using assms(2,3) by (fastforce simp: same_next_def)
  then show ?thesis using lseg_cong assms(1) by blast
qed

lemma prevs_cong: "same_prev (set as) ns ns' \<Longrightarrow> prevs ns' b as = prevs ns b as"
proof (induction as arbitrary: b)
  case (Cons a as)
  then have "same_prev (set as) ns ns'" "map_option nd_prev (ns' a) = map_option nd_prev (ns a)"
    by (simp_all add: same_prev_def)
  with Cons.IH show ?case by (cases "ns a"; cases "ns' a") auto
qed simp

lemma prevs_frame:
  assumes "prevs ns b as" and "\<forall>a. a \<notin> S \<longrightarrow> ns' a = ns a" and "S \<inter> set as = {}"
  shows "prevs ns' b as"
proof -
  have "same_prev (set as) ns ns'" using assms(2,3) by (fastforce simp: same_prev_def)
  then show ?thesis using prevs_cong assms(1) by blast
qed

lemma same_next_upd:
  "a \<notin> A \<Longrightarrow> same_next A ns (ns(a := x))"
  "ns a = Some nd \<Longrightarrow> same_next A ns (ns(a \<mapsto> nd\<lparr>nd_prev := v\<rparr>))"
  by (auto simp: same_next_def)

lemma same_prev_upd:
  "a \<notin> A \<Longrightarrow> same_prev A ns (ns(a := x))"
  "ns a = Some nd \<Longrightarrow> same_prev A ns (ns(a \<mapsto> nd\<lparr>nd_next := v\<rparr>))"
  by (auto simp: same_prev_def)

lemma same_data_upd:
  "ns a = Some nd \<Longrightarrow> same_data ns (ns(a \<mapsto> nd\<lparr>nd_prev := v\<rparr>))"
  "ns a = Some nd \<Longrightarrow> same_data ns (ns(a \<mapsto> nd\<lparr>nd_next := v\<rparr>))"
  by (auto simp: same_data_def)

lemma same_data_refl [simp]: "same_data ns ns"
  by (simp add: same_data_def)

lemma same_data_trans: "same_data ns ns' \<Longrightarrow> same_data ns' ns'' \<Longrightarrow> same_data ns ns''"
  by (simp add: same_data_def)

lemma node_elem_same:
  assumes "same_data (hp_nodes H) ns"
  shows "node_elem (H\<lparr>hp_nodes := ns\<rparr>) a = node_elem H a"
proof -
  have "map_option nd_data (ns a) = map_option nd_data (hp_nodes H a)"
    using assms by (simp add: same_data_def)
  then show ?thesis
    by (cases "ns a"; cases "hp_nodes H a") (auto simp: node_elem_def elem_at_def split: option.splits)
qed

end
