(* ===== verification/Msort_Spec.thy ===== *)
theory Msort_Spec
  imports Rcsw_Prelude
begin

text \<open>
  The reference for the merge sorts of linked lists: top-down and bottom-up merge sort on
  lists. Both sort stably, so they agree.
\<close>

subsection \<open>The reference sort\<close>

fun merge_lists :: "('b \<Rightarrow> 'b \<Rightarrow> bool) \<Rightarrow> 'b list \<Rightarrow> 'b list \<Rightarrow> 'b list" where
  "merge_lists le [] ys = ys"
| "merge_lists le (x # xs) [] = x # xs"
| "merge_lists le (x # xs) (y # ys) =
     (if le x y then x # merge_lists le xs (y # ys) else y # merge_lists le (x # xs) ys)"

function msort :: "('b \<Rightarrow> 'b \<Rightarrow> bool) \<Rightarrow> 'b list \<Rightarrow> 'b list" where
  "msort le xs =
     (if length xs \<le> 1 then xs
      else merge_lists le (msort le (take (length xs div 2) xs)) (msort le (drop (length xs div 2) xs)))"
  by pat_completeness auto
termination by (relation "measure (\<lambda>(le, xs). length xs)") auto

declare msort.simps [simp del]

lemma merge_lists_Nil2 [simp]: "merge_lists le xs [] = xs"
  by (cases xs) auto

lemma mset_merge_lists [simp]: "mset (merge_lists le xs ys) = mset xs + mset ys"
  by (induction le xs ys rule: merge_lists.induct) auto

lemma set_merge_lists [simp]: "set (merge_lists le xs ys) = set xs \<union> set ys"
  by (metis mset_merge_lists set_mset_mset set_mset_union)

lemma length_merge_lists [simp]: "length (merge_lists le xs ys) = length xs + length ys"
  by (metis mset_merge_lists size_mset size_union)

lemma mset_msort [simp]: "mset (msort le xs) = mset xs"
proof (induction le xs rule: msort.induct)
  case (1 le xs)
  then show ?case
    by (subst msort.simps) (simp flip: mset_append)
qed

lemma set_msort [simp]: "set (msort le xs) = set xs"
  by (metis mset_msort set_mset_mset)

lemma length_msort [simp]: "length (msort le xs) = length xs"
  by (metis mset_msort size_mset)

lemma distinct_msort [simp]: "distinct (msort le xs) = distinct xs"
  by (metis mset_eq_imp_distinct_iff mset_msort)

context cmp_order
begin

lemma sorted_merge_lists:
  "sorted_cmp cmpe (map k xs) \<Longrightarrow> sorted_cmp cmpe (map k ys) \<Longrightarrow>
     sorted_cmp cmpe (map k (merge_lists (\<lambda>x y. cmpe (k x) (k y) \<le> 0) xs ys))"
proof (induction "\<lambda>x y. cmpe (k x) (k y) \<le> 0" xs ys rule: merge_lists.induct)
  case (3 x xs y ys)
  show ?case
  proof (cases "cmpe (k x) (k y) \<le> 0")
    case True
    then show ?thesis using 3 cmp_trans by (auto simp: sorted_cmp_Cons)
  next
    case False
    then have "cmpe (k y) (k x) \<le> 0" using cmp_total by blast
    then show ?thesis using 3 False cmp_trans by (auto simp: sorted_cmp_Cons)
  qed
qed auto

lemma sorted_msort: "sorted_cmp cmpe (map k (msort (\<lambda>x y. cmpe (k x) (k y) \<le> 0) xs))"
proof (induction "\<lambda>x y. cmpe (k x) (k y) \<le> 0" xs rule: msort.induct)
  case (1 xs)
  show ?case
  proof (cases "length xs \<le> 1")
    case True
    then show ?thesis by (cases xs) (auto simp: msort.simps)
  next
    case False
    then show ?thesis using 1 sorted_merge_lists by (subst msort.simps) simp
  qed
qed

text \<open>Equal elements keep their order.\<close>

lemma filter_merge_lists:
  "sorted_cmp cmpe (map k xs) \<Longrightarrow>
     filter (\<lambda>x. cmpe (k x) e = 0) (merge_lists (\<lambda>x y. cmpe (k x) (k y) \<le> 0) xs ys) =
     filter (\<lambda>x. cmpe (k x) e = 0) xs @ filter (\<lambda>x. cmpe (k x) e = 0) ys"
proof (induction "\<lambda>x y. cmpe (k x) (k y) \<le> 0" xs ys rule: merge_lists.induct)
  case (3 x xs y ys)
  show ?case
  proof (cases "cmpe (k x) (k y) \<le> 0")
    case True
    then show ?thesis using 3 by (simp add: sorted_cmp_Cons)
  next
    case False
    then have yx: "cmpe (k y) (k x) < 0" using cmp_less by force
    have "cmpe (k z) e \<noteq> 0" if "cmpe (k y) e = 0" "z \<in> set (x # xs)" for z
    proof -
      have "cmpe (k x) (k z) \<le> 0" using that(2) 3(3) by (auto simp: sorted_cmp_Cons)
      then have "cmpe (k y) (k z) < 0" by (rule cmp_less_trans [OF yx])
      then show ?thesis using that(1) by (metis cmp_swap cmp_zero_le order_less_irrefl cmp_less cmp_zero linorder_not_less)
    qed
    then have "filter (\<lambda>x. cmpe (k x) e = 0) (x # xs) = []" if "cmpe (k y) e = 0"
      using that by (intro filter_False) blast
    then show ?thesis using 3 False by (simp split: if_splits)
  qed
qed auto

end

subsection \<open>The reference sort from the bottom up\<close>

text \<open>One pass merges neighbouring runs of length \<open>n\<close>; the passes double it.\<close>

function merge_pass :: "('b \<Rightarrow> 'b \<Rightarrow> bool) \<Rightarrow> nat \<Rightarrow> 'b list \<Rightarrow> 'b list" where
  "merge_pass le n xs =
     (if xs = [] \<or> n = 0 then []
      else merge_lists le (take n xs) (take n (drop n xs)) @ merge_pass le n (drop (2 * n) xs))"
  by pat_completeness auto
termination by (relation "measure (\<lambda>(le, n, xs). length xs)") auto

function bottom_up :: "('b \<Rightarrow> 'b \<Rightarrow> bool) \<Rightarrow> nat \<Rightarrow> 'b list \<Rightarrow> 'b list" where
  "bottom_up le n xs =
     (if length xs \<le> 2 * n \<or> n = 0 then merge_pass le n xs
      else bottom_up le (2 * n) (merge_pass le n xs))"
  by pat_completeness auto

declare merge_pass.simps [simp del]

lemma mset_merge_pass [simp]: "0 < n \<Longrightarrow> mset (merge_pass le n xs) = mset xs"
proof (induction le n xs rule: merge_pass.induct)
  case (1 le n xs)
  show ?case
  proof (cases "xs = []")
    case True
    then show ?thesis by (simp add: merge_pass.simps)
  next
    case False
    have "xs = take n xs @ take n (drop n xs) @ drop (2 * n) xs"
      by (simp add: mult_2 flip: take_add append_assoc)
    then have "mset xs = mset (take n xs) + mset (take n (drop n xs)) + mset (drop (2 * n) xs)"
      by (metis mset_append add.assoc)
    then show ?thesis using 1 False by (subst merge_pass.simps) simp
  qed
qed

lemma length_merge_pass [simp]: "0 < n \<Longrightarrow> length (merge_pass le n xs) = length xs"
  by (metis mset_merge_pass size_mset)

lemma set_merge_pass [simp]: "0 < n \<Longrightarrow> set (merge_pass le n xs) = set xs"
  by (metis mset_merge_pass set_mset_mset)

lemma distinct_merge_pass [simp]: "0 < n \<Longrightarrow> distinct (merge_pass le n xs) = distinct xs"
  by (metis mset_eq_imp_distinct_iff mset_merge_pass)

termination bottom_up
  by (relation "measure (\<lambda>(le, n, xs). length xs - n)") auto

declare bottom_up.simps [simp del]

lemma mset_bottom_up [simp]: "0 < n \<Longrightarrow> mset (bottom_up le n xs) = mset xs"
proof (induction le n xs rule: bottom_up.induct)
  case (1 le n xs)
  then show ?case by (subst bottom_up.simps) auto
qed

lemma length_bottom_up [simp]: "0 < n \<Longrightarrow> length (bottom_up le n xs) = length xs"
  by (metis mset_bottom_up size_mset)

context cmp_order
begin

lemma filter_msort:
  "filter (\<lambda>x. cmpe (k x) e = 0) (msort (\<lambda>x y. cmpe (k x) (k y) \<le> 0) xs) =
     filter (\<lambda>x. cmpe (k x) e = 0) xs"
proof (induction "\<lambda>x y. cmpe (k x) (k y) \<le> 0" xs rule: msort.induct)
  case (1 xs)
  show ?case
  proof (cases "length xs \<le> 1")
    case True
    then show ?thesis by (simp add: msort.simps)
  next
    case False
    then show ?thesis using 1
      by (subst msort.simps) (simp add: filter_merge_lists [OF sorted_msort] flip: filter_append)
  qed
qed

definition runs :: "('b \<Rightarrow> 'a) \<Rightarrow> nat \<Rightarrow> 'b list \<Rightarrow> bool" where
  "runs k n xs \<longleftrightarrow> (\<forall>i. sorted_cmp cmpe (map k (take n (drop (i * n) xs))))"

lemma runs_one: "runs k 1 xs"
proof -
  have "length ys \<le> 1 \<Longrightarrow> sorted_cmp cmpe (map k ys)" for ys by (cases ys) auto
  then show ?thesis by (simp add: runs_def)
qed

lemma runs_drop: "runs k n xs \<Longrightarrow> runs k n (drop (2 * n) xs)"
  unfolding runs_def by (metis add_mult_distrib drop_drop)

lemma runs_take: "runs k n xs \<Longrightarrow> sorted_cmp cmpe (map k (take n xs)) \<and>
    sorted_cmp cmpe (map k (take n (drop n xs)))"
  unfolding runs_def by (metis drop0 mult_1 mult_0)

lemma runs_merge_pass:
  "0 < n \<Longrightarrow> runs k n xs \<Longrightarrow> runs k (2 * n) (merge_pass (\<lambda>x y. cmpe (k x) (k y) \<le> 0) n xs) \<and>
     filter (\<lambda>x. cmpe (k x) e = 0) (merge_pass (\<lambda>x y. cmpe (k x) (k y) \<le> 0) n xs) =
     filter (\<lambda>x. cmpe (k x) e = 0) xs"
proof (induction "\<lambda>x y. cmpe (k x) (k y) \<le> 0" n xs rule: merge_pass.induct)
  case (1 n xs)
  let ?le = "\<lambda>x y. cmpe (k x) (k y) \<le> 0"
  show ?case
  proof (cases "xs = []")
    case True
    then show ?thesis by (simp add: merge_pass.simps runs_def)
  next
    case False
    let ?m = "merge_lists ?le (take n xs) (take n (drop n xs))"
    let ?r = "merge_pass ?le n (drop (2 * n) xs)"
    have e: "merge_pass ?le n xs = ?m @ ?r" using False 1(2) by (subst merge_pass.simps) simp
    have ih: "runs k (2 * n) ?r" "filter (\<lambda>x. cmpe (k x) e = 0) ?r = filter (\<lambda>x. cmpe (k x) e = 0) (drop (2 * n) xs)"
      using 1 False runs_drop by auto
    have len: "length ?m = min (2 * n) (length xs)"
      by auto
    have sm: "sorted_cmp cmpe (map k ?m)" using runs_take [OF 1(3)] sorted_merge_lists by blast
    have rn: "?r = []" if "length xs \<le> 2 * n" using that by (simp add: merge_pass.simps)
    have "sorted_cmp cmpe (map k (take (2 * n) (drop (i * (2 * n)) (?m @ ?r))))" for i
    proof (cases "length xs \<le> 2 * n")
      case True
      then show ?thesis using rn sm len by (cases i) auto
    next
      case False
      then have "length ?m = 2 * n" using len by simp
      then show ?thesis using sm ih(1) by (cases i) (auto simp: runs_def)
    qed
    then have "runs k (2 * n) (?m @ ?r)" by (simp add: runs_def)
    moreover have "xs = take n xs @ take n (drop n xs) @ drop (2 * n) xs"
      by (simp add: mult_2 flip: take_add append_assoc)
    then have "filter (\<lambda>x. cmpe (k x) e = 0) xs = filter (\<lambda>x. cmpe (k x) e = 0) (take n xs) @
        filter (\<lambda>x. cmpe (k x) e = 0) (take n (drop n xs)) @ filter (\<lambda>x. cmpe (k x) e = 0) (drop (2 * n) xs)"
      by (metis filter_append)
    ultimately show ?thesis
      using ih(2) runs_take [OF 1(3)] by (simp add: e filter_merge_lists)
  qed
qed

lemma bottom_up_sorts:
  "0 < n \<Longrightarrow> runs k n xs \<Longrightarrow> sorted_cmp cmpe (map k (bottom_up (\<lambda>x y. cmpe (k x) (k y) \<le> 0) n xs)) \<and>
     filter (\<lambda>x. cmpe (k x) e = 0) (bottom_up (\<lambda>x y. cmpe (k x) (k y) \<le> 0) n xs) =
     filter (\<lambda>x. cmpe (k x) e = 0) xs"
proof (induction "\<lambda>x y. cmpe (k x) (k y) \<le> 0" n xs rule: bottom_up.induct)
  case (1 n xs)
  note rp = runs_merge_pass [OF 1(2,3), of e]
  show ?case
  proof (cases "length xs \<le> 2 * n")
    case True
    have "sorted_cmp cmpe (map k (take (2 * n) (drop (0 * (2 * n)) (merge_pass (\<lambda>x y. cmpe (k x) (k y) \<le> 0) n xs))))"
      using rp unfolding runs_def by blast
    then show ?thesis using True 1(2) rp by (subst (1 2) bottom_up.simps) simp
  next
    case False
    then show ?thesis using 1 rp by (subst (1 2) bottom_up.simps) simp
  qed
qed

text \<open>A stable sort has one result.\<close>

lemma stable_sort_unique:
  assumes "sorted_cmp cmpe (map k xs)" and "sorted_cmp cmpe (map k ys)" and "mset xs = mset ys"
    and "\<And>e. filter (\<lambda>x. cmpe (k x) e = 0) xs = filter (\<lambda>x. cmpe (k x) e = 0) ys"
  shows "xs = ys"
  using assms
proof (induction xs arbitrary: ys)
  case (Cons x xs)
  then obtain y zs where ys: "ys = y # zs" by (cases ys) auto
  have "y \<in> set (x # xs)" "x \<in> set ys" using Cons.prems(3) ys by (metis list.set_intros(1) mset_eq_setD)+
  then have "cmpe (k x) (k y) \<le> 0" "cmpe (k y) (k x) \<le> 0"
    using Cons.prems(1,2) ys by (auto simp: sorted_cmp_Cons)
  then have "cmpe (k y) (k x) = 0" using cmp_swap [of "k x" "k y"] by simp
  then have xy: "x = y" using Cons.prems(4) [of "k x"] ys by simp
  have "filter (\<lambda>z. cmpe (k z) e = 0) xs = filter (\<lambda>z. cmpe (k z) e = 0) zs" for e
    using Cons.prems(4) [of e] ys xy by (simp split: if_splits)
  then have "xs = zs" using Cons.prems ys xy by (intro Cons.IH) (auto simp: sorted_cmp_Cons)
  then show ?case using ys xy by simp
qed simp

lemma bottom_up_msort:
  "bottom_up (\<lambda>x y. cmpe (k x) (k y) \<le> 0) 1 xs = msort (\<lambda>x y. cmpe (k x) (k y) \<le> 0) xs"
proof (rule stable_sort_unique [where k = k])
  show "sorted_cmp cmpe (map k (bottom_up (\<lambda>x y. cmpe (k x) (k y) \<le> 0) 1 xs))"
    using bottom_up_sorts [OF zero_less_one runs_one] by blast
  show "filter (\<lambda>x. cmpe (k x) e = 0) (bottom_up (\<lambda>x y. cmpe (k x) (k y) \<le> 0) 1 xs) =
      filter (\<lambda>x. cmpe (k x) e = 0) (msort (\<lambda>x y. cmpe (k x) (k y) \<le> 0) xs)" for e
    using bottom_up_sorts [OF zero_less_one runs_one, where e = e] unfolding filter_msort by blast
qed (rule sorted_msort, simp)

end

end
