(* ===== verification/Mergesort.thy ===== *)
theory Mergesort
  imports Node_Heap Msort_Spec
begin

text \<open>
  Merge sort of linked lists (mergesort_rec and mergesort_iter in src/algorithm/sort.c) on the
  heap of nodes. \<open>bl\<close> maps the datablocks to their elements; sorting relinks the nodes and
  leaves the blocks alone. \<open>dbl\<close> is the code's \<open>isdouble\<close>.
\<close>

subsection \<open>Merging\<close>

definition node_key :: "(nat \<Rightarrow> 'a option) \<Rightarrow> node_heap \<Rightarrow> nat \<Rightarrow> 'a option" where
  "node_key bl ns a = node_elem \<lparr>hp_nodes = ns, hp_blocks = bl\<rparr> a"

record merge_state =
  ms_list :: "nat option"
  ms_right :: "nat option"
  ms_result :: "nat option"
  ms_tail :: "nat option"
  ms_nodes :: node_heap

text \<open>The next node of the merged list, and what is left of both lists.\<close>

definition merge_pick ::
  "('a \<Rightarrow> 'a \<Rightarrow> int) \<Rightarrow> (nat \<Rightarrow> 'a option) \<Rightarrow> merge_state \<Rightarrow> (nat \<times> nat option \<times> nat option) option" where
  "merge_pick cmpe bl s =
     (let ns = ms_nodes s in
      case (ms_list s, ms_right s) of
        (None, None) \<Rightarrow> None
      | (Some a, None) \<Rightarrow> map_option (\<lambda>nd. (a, nd_next nd, None)) (ns a)
      | (None, Some b) \<Rightarrow> map_option (\<lambda>nd. (b, None, nd_next nd)) (ns b)
      | (Some a, Some b) \<Rightarrow> do {
          x \<leftarrow> node_key bl ns a;
          y \<leftarrow> node_key bl ns b;
          if cmpe x y \<le> 0 then map_option (\<lambda>nd. (a, nd_next nd, Some b)) (ns a)
          else map_option (\<lambda>nd. (b, Some a, nd_next nd)) (ns b)
        })"

definition merge_link ::
  "bool \<Rightarrow> nat option \<Rightarrow> nat option \<Rightarrow> nat \<Rightarrow> node_heap \<Rightarrow> node_heap option" where
  "merge_link dbl result tail nx ns = do {
     ns \<leftarrow> (if result = None then Some ns else set_next tail (Some nx) ns);
     if dbl then set_prev (Some nx) tail ns else Some ns
   }"

definition merge_step ::
  "('a \<Rightarrow> 'a \<Rightarrow> int) \<Rightarrow> (nat \<Rightarrow> 'a option) \<Rightarrow> bool \<Rightarrow> merge_state \<Rightarrow> merge_state option" where
  "merge_step cmpe bl dbl s = do {
     (nx, l, r) \<leftarrow> merge_pick cmpe bl s;
     ns \<leftarrow> merge_link dbl (ms_result s) (ms_tail s) nx (ms_nodes s);
     Some \<lparr>ms_list = l, ms_right = r,
           ms_result = (if ms_result s = None then Some nx else ms_result s),
           ms_tail = Some nx, ms_nodes = ns\<rparr>
   }"

definition merge_nodes ::
  "('a \<Rightarrow> 'a \<Rightarrow> int) \<Rightarrow> (nat \<Rightarrow> 'a option) \<Rightarrow> bool \<Rightarrow> node_heap \<Rightarrow> nat option \<Rightarrow> nat option \<Rightarrow>
   (nat option \<times> node_heap) option" where
  "merge_nodes cmpe bl dbl ns l r =
     map_option (\<lambda>s. (ms_result s, ms_nodes s))
       (while_loop (\<lambda>s. Some (ms_list s \<noteq> None \<or> ms_right s \<noteq> None)) (merge_step cmpe bl dbl)
         \<lparr>ms_list = l, ms_right = r, ms_result = None, ms_tail = None, ms_nodes = ns\<rparr>)"

subsection \<open>Splitting\<close>

text \<open>The loop state: \<open>temp\<close>, \<open>right\<close> and \<open>last\<close>.\<close>

definition mid_cond :: "node_heap \<Rightarrow> nat option \<times> nat option \<times> nat option \<Rightarrow> bool option" where
  "mid_cond ns = (\<lambda>(temp, right, last).
     case temp of None \<Rightarrow> Some False | Some t \<Rightarrow> map_option (\<lambda>nd. nd_next nd \<noteq> None) (ns t))"

definition mid_step ::
  "node_heap \<Rightarrow> nat option \<times> nat option \<times> nat option \<Rightarrow>
   (nat option \<times> nat option \<times> nat option) option" where
  "mid_step ns = (\<lambda>(temp, right, last). do {
     r \<leftarrow> deref ns right;
     t \<leftarrow> deref ns temp;
     t2 \<leftarrow> deref ns (nd_next t);
     Some (nd_next t2, nd_next r, right)
   })"

definition mergesort_split :: "node_heap \<Rightarrow> nat option \<Rightarrow> (nat option \<times> node_heap) option" where
  "mergesort_split ns list = do {
     (temp, right, last) \<leftarrow> while_loop (mid_cond ns) (mid_step ns) (list, list, list);
     ns \<leftarrow> set_next last None ns;
     Some (right, ns)
   }"

definition at_most_one :: "node_heap \<Rightarrow> nat option \<Rightarrow> bool option" where
  "at_most_one ns list =
     (case list of None \<Rightarrow> Some True | Some a \<Rightarrow> map_option (\<lambda>nd. nd_next nd = None) (ns a))"

partial_function (option) mergesort_rec ::
  "('a \<Rightarrow> 'a \<Rightarrow> int) \<Rightarrow> (nat \<Rightarrow> 'a option) \<Rightarrow> bool \<Rightarrow> node_heap \<Rightarrow> nat option \<Rightarrow>
   (nat option \<times> node_heap) option" where
  "mergesort_rec cmpe bl dbl ns list =
     Option.bind (at_most_one ns list) (\<lambda>base.
       if base then Some (list, ns)
       else
         Option.bind (mergesort_split ns list) (\<lambda>s.
           Option.bind (mergesort_rec cmpe bl dbl (snd s) list) (\<lambda>l.
             Option.bind (mergesort_rec cmpe bl dbl (snd l) (fst s)) (\<lambda>r.
               merge_nodes cmpe bl dbl (snd r) (fst l) (fst r)))))"

subsection \<open>The merge on the heap\<close>

text \<open>Appending a node to the merged part.\<close>

lemma merge_link_spec:
  assumes "cs \<noteq> [] \<Longrightarrow> lseg ns (Some (hd cs)) cs q" and "distinct (cs @ [nx])"
    and "ns nx = Some nd" and "dbl \<Longrightarrow> prevs ns None cs"
  shows "\<exists>ns'. merge_link dbl (if cs = [] then None else Some (hd cs)) (last_of None cs) nx ns = Some ns' \<and>
    lseg ns' (Some (hd (cs @ [nx]))) (cs @ [nx]) (nd_next nd) \<and>
    (dbl \<longrightarrow> prevs ns' None (cs @ [nx])) \<and> same_data ns ns' \<and> same_next (- set cs) ns ns' \<and>
    (\<forall>a. a \<notin> set (cs @ [nx]) \<longrightarrow> ns' a = ns a)"
proof (cases cs rule: rev_cases)
  case Nil
  then show ?thesis using assms(3)
    by (auto simp: merge_link_def last_of_def same_data_def same_next_def)
next
  case (snoc ds t)
  have l: "lseg ns (Some (hd cs)) ds (Some t)" and "\<exists>td. ns t = Some td"
    using assms(1) snoc by (auto simp: lseg_append split: option.splits)
  then obtain td where td: "ns t = Some td" by blast
  have ne: "nx \<noteq> t" "t \<notin> set ds" "nx \<notin> set ds" using assms(2) snoc by auto
  let ?ns1 = "ns(t \<mapsto> td\<lparr>nd_next := Some nx\<rparr>)"
  let ?ns2 = "if dbl then ?ns1(nx \<mapsto> nd\<lparr>nd_prev := Some t\<rparr>) else ?ns1"
  have eval: "merge_link dbl (if cs = [] then None else Some (hd cs)) (last_of None cs) nx ns = Some ?ns2"
    using td ne assms(3) snoc by (simp add: merge_link_def)
  have "same_next (set ds) ns ?ns2" using ne assms(3) by (auto simp: same_next_def)
  then have "lseg ?ns2 (Some (hd cs)) ds (Some t)" using lseg_cong l by blast
  then have seg: "lseg ?ns2 (Some (hd (cs @ [nx]))) (cs @ [nx]) (nd_next nd)"
    using ne assms(3) snoc td by (auto simp: lseg_append hd_append)
  have "prevs ?ns2 None (cs @ [nx])" if dbl
  proof -
    have "same_prev (set cs) ns ?ns2" using ne td snoc that by (auto simp: same_prev_def)
    then have "prevs ?ns2 None cs" using prevs_cong assms(4) [OF that] by blast
    then show ?thesis using that snoc ne by (auto simp: prevs_append)
  qed
  moreover have "same_data ns ?ns2" using td ne assms(3) by (auto simp: same_data_def)
  moreover have "same_next (- set cs) ns ?ns2" using td assms(3) snoc by (auto simp: same_next_def)
  moreover have "\<forall>a. a \<notin> set (cs @ [nx]) \<longrightarrow> ?ns2 a = ns a" using snoc by auto
  ultimately show ?thesis using eval seg by blast
qed

text \<open>
  The state of a merge: \<open>cs\<close> is merged, \<open>us\<close> and \<open>vs\<close> are left; \<open>xs\<close> and \<open>ys\<close> were the
  lists at the start, in the heap \<open>ns\<close>.
\<close>

definition merge_inv ::
  "bool \<Rightarrow> (nat \<Rightarrow> nat \<Rightarrow> bool) \<Rightarrow> node_heap \<Rightarrow> nat list \<Rightarrow> nat list \<Rightarrow>
   nat list \<times> nat list \<times> nat list \<Rightarrow> merge_state \<Rightarrow> bool" where
  "merge_inv dbl le ns xs ys = (\<lambda>(cs, us, vs) s.
     merge_lists le xs ys = cs @ merge_lists le us vs \<and> distinct (cs @ us @ vs) \<and>
     set (cs @ us @ vs) = set (xs @ ys) \<and>
     lseg (ms_nodes s) (ms_list s) us None \<and> lseg (ms_nodes s) (ms_right s) vs None \<and>
     ms_result s = (if cs = [] then None else Some (hd cs)) \<and> ms_tail s = last_of None cs \<and>
     (cs \<noteq> [] \<longrightarrow> (\<exists>q. lseg (ms_nodes s) (Some (hd cs)) cs q \<and> (q = ms_list s \<or> q = ms_right s))) \<and>
     (dbl \<longrightarrow> prevs (ms_nodes s) None cs) \<and> same_data ns (ms_nodes s) \<and>
     (\<forall>a. a \<notin> set (xs @ ys) \<longrightarrow> ms_nodes s a = ns a))"

lemma node_key_heap [simp]: "node_key (hp_blocks H) (hp_nodes H) a = node_elem H a"
  by (cases H) (simp add: node_key_def)

lemma node_key_same: "same_data ns ns' \<Longrightarrow> node_key bl ns' a = node_key bl ns a"
  using node_elem_same [of "\<lparr>hp_nodes = ns, hp_blocks = bl\<rparr>" ns' a] by (simp add: node_key_def)

lemma merge_pick_spec:
  assumes "merge_inv dbl (\<lambda>a b. cmpe (k a) (k b) \<le> 0) ns xs ys (cs, us, vs) s"
    and "\<And>a. a \<in> set (xs @ ys) \<Longrightarrow> node_key bl ns a = Some (k a)" and "us \<noteq> [] \<or> vs \<noteq> []"
  shows "\<exists>nx nd us' vs' l r. merge_pick cmpe bl s = Some (nx, l, r) \<and> ms_nodes s nx = Some nd \<and>
    merge_lists (\<lambda>a b. cmpe (k a) (k b) \<le> 0) us vs = nx # merge_lists (\<lambda>a b. cmpe (k a) (k b) \<le> 0) us' vs' \<and>
    lseg (ms_nodes s) l us' None \<and> lseg (ms_nodes s) r vs' None \<and>
    (us = nx # us' \<and> vs' = vs \<and> l = nd_next nd \<or> us' = us \<and> vs = nx # vs' \<and> r = nd_next nd)"
proof -
  have l: "lseg (ms_nodes s) (ms_list s) us None" "lseg (ms_nodes s) (ms_right s) vs None"
    using assms(1) by (simp_all add: merge_inv_def)
  have sub: "set us \<subseteq> set (xs @ ys)" "set vs \<subseteq> set (xs @ ys)"
    using assms(1) unfolding merge_inv_def by auto
  have key: "node_key bl (ms_nodes s) a = Some (k a)" if "a \<in> set us \<union> set vs" for a
    using assms(1,2) that sub node_key_same [of ns "ms_nodes s" bl a] unfolding merge_inv_def by auto
  show ?thesis
  proof (cases us)
    case Nil
    then obtain b vs' where vs: "vs = b # vs'" using assms(3) by (cases vs) auto
    then show ?thesis using Nil l by (auto simp: merge_pick_def split: option.splits)
  next
    case us: (Cons a us')
    then obtain nda where a: "ms_list s = Some a" "ms_nodes s a = Some nda" "lseg (ms_nodes s) (nd_next nda) us' None"
      using l(1) by (auto split: option.splits)
    show ?thesis
    proof (cases vs)
      case Nil
      then show ?thesis using us a l(2) by (auto simp: merge_pick_def)
    next
      case vs: (Cons b vs')
      then obtain ndb where b: "ms_right s = Some b" "ms_nodes s b = Some ndb"
          "lseg (ms_nodes s) (nd_next ndb) vs' None"
        using l(2) by (auto split: option.splits)
      have "node_key bl (ms_nodes s) a = Some (k a)" "node_key bl (ms_nodes s) b = Some (k b)"
        using key us vs by auto
      then show ?thesis
      proof (cases "cmpe (k a) (k b) \<le> 0")
        case True
        then show ?thesis using us vs a b l \<open>node_key bl (ms_nodes s) a = _\<close> \<open>node_key bl (ms_nodes s) b = _\<close>
          by (intro exI [of _ a] exI [of _ nda] exI [of _ us'] exI [of _ vs]
              exI [of _ "nd_next nda"] exI [of _ "ms_right s"]) (simp add: merge_pick_def)
      next
        case False
        then show ?thesis using us vs a b l \<open>node_key bl (ms_nodes s) a = _\<close> \<open>node_key bl (ms_nodes s) b = _\<close>
          by (intro exI [of _ b] exI [of _ ndb] exI [of _ us] exI [of _ vs']
              exI [of _ "ms_list s"] exI [of _ "nd_next ndb"]) (simp add: merge_pick_def)
      qed
    qed
  qed
qed

lemma merge_step_spec:
  assumes inv: "merge_inv dbl (\<lambda>a b. cmpe (k a) (k b) \<le> 0) ns xs ys (cs, us, vs) s"
    and key: "\<And>a. a \<in> set (xs @ ys) \<Longrightarrow> node_key bl ns a = Some (k a)" and ne: "us \<noteq> [] \<or> vs \<noteq> []"
  shows "\<exists>g t. merge_step cmpe bl dbl s = Some t \<and>
    merge_inv dbl (\<lambda>a b. cmpe (k a) (k b) \<le> 0) ns xs ys g t \<and>
    length (fst (snd g)) + length (snd (snd g)) < length us + length vs"
proof -
  let ?le = "\<lambda>a b. cmpe (k a) (k b) \<le> 0" and ?ns = "ms_nodes s"
  obtain nx nd us' vs' l r where pick: "merge_pick cmpe bl s = Some (nx, l, r)" "?ns nx = Some nd"
    and m: "merge_lists ?le us vs = nx # merge_lists ?le us' vs'"
    and seg: "lseg ?ns l us' None" "lseg ?ns r vs' None"
    and w: "us = nx # us' \<and> vs' = vs \<and> l = nd_next nd \<or> us' = us \<and> vs = nx # vs' \<and> r = nd_next nd"
    using merge_pick_spec [OF assms] by blast
  have d: "distinct (cs @ us @ vs)" "set (cs @ us @ vs) = set (xs @ ys)"
    and res: "ms_result s = (if cs = [] then None else Some (hd cs))" "ms_tail s = last_of None cs"
    and pr: "dbl \<Longrightarrow> prevs ?ns None cs" and sd: "same_data ns ?ns"
    and fr: "\<forall>a. a \<notin> set (xs @ ys) \<longrightarrow> ?ns a = ns a"
    and ml: "merge_lists ?le xs ys = cs @ merge_lists ?le us vs"
    using inv by (auto simp: merge_inv_def)
  obtain q where q: "cs \<noteq> [] \<Longrightarrow> lseg ?ns (Some (hd cs)) cs q"
    using inv by (auto simp: merge_inv_def)
  have dn: "distinct (cs @ [nx])" "nx \<in> set (xs @ ys)" using w d by auto
  obtain ns' where ns': "merge_link dbl (if cs = [] then None else Some (hd cs)) (last_of None cs) nx ?ns = Some ns'"
      "lseg ns' (Some (hd (cs @ [nx]))) (cs @ [nx]) (nd_next nd)"
      "dbl \<longrightarrow> prevs ns' None (cs @ [nx])" "same_data ?ns ns'" "same_next (- set cs) ?ns ns'"
      "\<forall>a. a \<notin> set (cs @ [nx]) \<longrightarrow> ns' a = ?ns a"
    using merge_link_spec [OF q dn(1) pick(2) pr] by blast
  let ?t = "\<lparr>ms_list = l, ms_right = r, ms_result = Some (hd (cs @ [nx])), ms_tail = Some nx, ms_nodes = ns'\<rparr>"
  have step: "merge_step cmpe bl dbl s = Some ?t"
    using pick(1) ns'(1) res by (simp add: merge_step_def hd_append)
  have keep: "lseg ns' p as None = lseg ?ns p as None" if "set as \<inter> set cs = {}" for p as
    using that ns'(5) by (intro lseg_cong) (auto simp: same_next_def)
  have "set us' \<inter> set cs = {}" "set vs' \<inter> set cs = {}" using w d by auto
  then have s': "lseg ns' l us' None" "lseg ns' r vs' None" using keep seg by blast+
  have ex: "\<exists>q. lseg ns' (Some (hd (cs @ [nx]))) (cs @ [nx]) q \<and> (q = l \<or> q = r)"
    using ns'(2) w by blast
  have "\<forall>a. a \<notin> set (xs @ ys) \<longrightarrow> ns' a = ns a" using ns'(6) fr d(2) dn(2) by auto
  moreover have "same_data ns ns'" using sd ns'(4) same_data_trans by blast
  moreover have "distinct ((cs @ [nx]) @ us' @ vs')" "set ((cs @ [nx]) @ us' @ vs') = set (xs @ ys)"
    using w d by auto
  ultimately have "merge_inv dbl ?le ns xs ys (cs @ [nx], us', vs') ?t"
    unfolding merge_inv_def using ml m s' ns'(3) ex
    by (simp del: distinct_append set_append lseg.simps)
  then show ?thesis using step w by (intro exI [of _ "(cs @ [nx], us', vs')"] exI [of _ ?t]) auto
qed

lemma merge_nodes_spec:
  assumes "lseg ns l xs None" and "lseg ns r ys None" and "distinct (xs @ ys)"
    and key: "\<And>a. a \<in> set (xs @ ys) \<Longrightarrow> node_key bl ns a = Some (k a)"
  shows "\<exists>res ns'. merge_nodes cmpe bl dbl ns l r = Some (res, ns') \<and>
    lseg ns' res (merge_lists (\<lambda>a b. cmpe (k a) (k b) \<le> 0) xs ys) None \<and>
    (dbl \<longrightarrow> prevs ns' None (merge_lists (\<lambda>a b. cmpe (k a) (k b) \<le> 0) xs ys)) \<and>
    same_data ns ns' \<and> (\<forall>a. a \<notin> set (xs @ ys) \<longrightarrow> ns' a = ns a)"
proof -
  let ?le = "\<lambda>a b. cmpe (k a) (k b) \<le> 0"
  let ?s = "\<lparr>ms_list = l, ms_right = r, ms_result = None, ms_tail = None, ms_nodes = ns\<rparr>"
  let ?c = "\<lambda>s. Some (ms_list s \<noteq> None \<or> ms_right s \<noteq> None)"
  let ?P = "merge_inv dbl ?le ns xs ys"
  have start: "?P ([], xs, ys) ?s" using assms(1-3) by (simp add: merge_inv_def)
  have "\<exists>g t. while_loop ?c (merge_step cmpe bl dbl) ?s = Some t \<and> ?P g t \<and> ?c t = Some False"
  proof (rule while_loop_ghost [where P = ?P and m = "\<lambda>g. length (fst (snd g)) + length (snd (snd g))", OF start])
    fix g s assume inv: "?P g s"
    obtain cs us vs where g: "g = (cs, us, vs)" by (metis surj_pair)
    have ptr: "ms_list s = None \<longleftrightarrow> us = []" "ms_right s = None \<longleftrightarrow> vs = []"
      using inv unfolding g merge_inv_def by (cases us; cases vs; auto)+
    show "?c s = Some False \<or> ?c s = Some True \<and>
        (\<exists>g' t. merge_step cmpe bl dbl s = Some t \<and> ?P g' t \<and>
          length (fst (snd g')) + length (snd (snd g')) < length (fst (snd g)) + length (snd (snd g)))"
    proof (cases "us = [] \<and> vs = []")
      case False
      then show ?thesis using merge_step_spec [OF inv [unfolded g] key] ptr by (auto simp: g)
    qed (simp add: ptr)
  qed
  then obtain g t where t: "while_loop ?c (merge_step cmpe bl dbl) ?s = Some t" "?P g t" "?c t = Some False"
    by blast
  obtain cs us vs where g: "g = (cs, us, vs)" by (metis surj_pair)
  have none: "ms_list t = None" "ms_right t = None" using t(3) by auto
  then have nil: "us = []" "vs = []" using t(2) by (auto simp: g merge_inv_def)
  then have cs: "merge_lists ?le xs ys = cs" using t(2) by (simp add: g merge_inv_def)
  have "lseg (ms_nodes t) (ms_result t) cs None"
    using t(2) none by (cases cs) (auto simp: g merge_inv_def)
  then show ?thesis using t(1,2) cs by (simp add: merge_nodes_def g merge_inv_def)
qed

subsection \<open>The split\<close>

text \<open>The pointer to the \<open>i\<close>-th node of a list.\<close>

definition ptr_at :: "nat list \<Rightarrow> nat \<Rightarrow> nat option" where
  "ptr_at as i = (if i < length as then Some (as ! i) else None)"

lemma lseg_ptr_at:
  "lseg ns p as None \<Longrightarrow> p = ptr_at as 0 \<and>
     (\<forall>i < length as. \<exists>nd. ns (as ! i) = Some nd \<and> nd_next nd = ptr_at as (Suc i))"
proof (induction as arbitrary: p)
  case (Cons a as)
  then obtain nd where nd: "p = Some a" "ns a = Some nd" "lseg ns (nd_next nd) as None"
    by (auto split: option.splits)
  have ih: "nd_next nd = ptr_at as 0"
    "\<forall>i < length as. \<exists>nd. ns (as ! i) = Some nd \<and> nd_next nd = ptr_at as (Suc i)"
    using Cons.IH [OF nd(3)] by auto
  have "\<exists>nd. ns ((a # as) ! i) = Some nd \<and> nd_next nd = ptr_at (a # as) (Suc i)"
    if "i < length (a # as)" for i
    using that nd ih by (cases i) (auto simp: ptr_at_def)
  then show ?case using nd(1) by (simp add: ptr_at_def)
qed (simp add: ptr_at_def)

lemma mergesort_split_spec:
  assumes seg: "lseg ns p as None" and "distinct as" and two: "2 \<le> length as"
  shows "\<exists>right ns'. mergesort_split ns p = Some (right, ns') \<and>
    lseg ns' p (take (length as div 2) as) None \<and> lseg ns' right (drop (length as div 2) as) None \<and>
    same_data ns ns' \<and> (\<forall>a. a \<notin> set as \<longrightarrow> ns' a = ns a)"
proof -
  let ?n = "length as" and ?h = "length as div 2"
  note at = lseg_ptr_at [OF seg]
  have nx: "\<exists>nd. ns (as ! i) = Some nd \<and> nd_next nd = ptr_at as (Suc i)" if "i < ?n" for i
    using at that by blast
  let ?P = "\<lambda>i s. 2 * i \<le> ?n \<and> s = (ptr_at as (2 * i), ptr_at as i, ptr_at as (i - 1))"
  have "?P 0 (p, p, p)" using at by simp
  then have "\<exists>i t. while_loop (mid_cond ns) (mid_step ns) (p, p, p) = Some t \<and> ?P i t \<and>
      mid_cond ns t = Some False"
  proof (rule while_loop_ghost [where m = "\<lambda>i. ?n - i"])
    fix i s assume P: "?P i s"
    show "mid_cond ns s = Some False \<or> mid_cond ns s = Some True \<and>
        (\<exists>j t. mid_step ns s = Some t \<and> ?P j t \<and> ?n - j < ?n - i)"
    proof (cases "2 * i < ?n")
      case False
      then show ?thesis using P by (simp add: mid_cond_def ptr_at_def)
    next
      case T: True
      obtain nd where nd: "ns (as ! (2 * i)) = Some nd" "nd_next nd = ptr_at as (Suc (2 * i))"
        using nx [OF T] by blast
      show ?thesis
      proof (cases "Suc (2 * i) < ?n")
        case False
        then show ?thesis using P T nd by (simp add: mid_cond_def ptr_at_def)
      next
        case True
        obtain nr n2 where "ns (as ! i) = Some nr" "nd_next nr = ptr_at as (Suc i)"
            "ns (as ! Suc (2 * i)) = Some n2" "nd_next n2 = ptr_at as (Suc (Suc (2 * i)))"
          using nx [of i] nx [OF True] T by auto
        then have "mid_step ns s = Some (ptr_at as (2 * Suc i), ptr_at as (Suc i), ptr_at as (Suc i - 1))"
          using P T True nd by (simp add: mid_step_def ptr_at_def [of as i] ptr_at_def [of as "2 * i"]
              ptr_at_def [of as "Suc (2 * i)"])
        moreover have "mid_cond ns s = Some True"
          using P T True nd by (simp add: mid_cond_def ptr_at_def)
        ultimately show ?thesis using T True by (intro disjI2 conjI exI [of _ "Suc i"]) auto
      qed
    qed
  qed
  then obtain i t where t: "while_loop (mid_cond ns) (mid_step ns) (p, p, p) = Some t" "?P i t"
      "mid_cond ns t = Some False" by blast
  have "\<not> Suc (2 * i) < ?n"
  proof
    assume l: "Suc (2 * i) < ?n"
    then obtain nd where "ns (as ! (2 * i)) = Some nd" "nd_next nd = ptr_at as (Suc (2 * i))"
      using nx [of "2 * i"] by auto
    then show False using t(2,3) l by (simp add: mid_cond_def ptr_at_def)
  qed
  then have i: "i = ?h" using t(2) by linarith
  have h: "0 < ?h" "?h < ?n" using two by auto
  define m where "m = ?h - 1"
  have m: "?h = Suc m" "m < ?n" using h by (simp_all add: m_def)
  obtain nd where nd: "ns (as ! m) = Some nd" using nx [OF m(2)] by blast
  let ?ns = "ns(as ! m \<mapsto> nd\<lparr>nd_next := None\<rparr>)"
  have eval: "mergesort_split ns p = Some (ptr_at as ?h, ?ns)"
    using t i nd m by (simp add: mergesort_split_def ptr_at_def [of as m])
  have parts: "take ?h as = take m as @ [as ! m]" using m by (simp add: take_Suc_conv_app_nth)
  have split: "as = take m as @ as ! m # drop ?h as" using m by (simp add: id_take_nth_drop)
  have d: "as ! m \<notin> set (take m as)" "as ! m \<notin> set (drop ?h as)"
    using assms(2) by (subst (asm) split, simp)+
  have "lseg ns p (take m as @ as ! m # drop ?h as) None" using seg split by simp
  then obtain q where q: "lseg ns p (take m as) (Some (as ! m))" "lseg ns (nd_next nd) (drop ?h as) None"
    using nd by (auto simp: lseg_append)
  have "lseg ?ns p (take m as) (Some (as ! m))" "lseg ?ns (nd_next nd) (drop ?h as) None"
    using q d lseg_cong same_next_upd(1) by blast+
  moreover have "nd_next nd = ptr_at as ?h" using at nd m by auto
  ultimately show ?thesis using eval parts nd m(2)
    by (auto simp: lseg_append same_data_def)
qed

subsection \<open>The recursive sort\<close>

lemma at_most_one_spec:
  "lseg ns p as None \<Longrightarrow> at_most_one ns p = Some (length as \<le> 1)"
  by (cases as; cases "tl as") (auto simp: at_most_one_def split: option.splits)

lemma mergesort_rec_spec:
  assumes "lseg ns p as None" and "distinct as"
    and "\<And>a. a \<in> set as \<Longrightarrow> node_key bl ns a = Some (k a)"
  shows "\<exists>res ns'. mergesort_rec cmpe bl dbl ns p = Some (res, ns') \<and>
    lseg ns' res (msort (\<lambda>a b. cmpe (k a) (k b) \<le> 0) as) None \<and>
    (dbl \<and> 2 \<le> length as \<longrightarrow> prevs ns' None (msort (\<lambda>a b. cmpe (k a) (k b) \<le> 0) as)) \<and>
    same_data ns ns' \<and> (\<forall>a. a \<notin> set as \<longrightarrow> ns' a = ns a)"
  using assms
proof (induction "length as" arbitrary: ns p as rule: less_induct)
  case less
  let ?le = "\<lambda>a b. cmpe (k a) (k b) \<le> 0"
  note small = at_most_one_spec [OF less.prems(1)]
  show ?case
  proof (cases "length as \<le> 1")
    case True
    then show ?thesis using less.prems small by (subst mergesort_rec.simps) (auto simp: msort.simps)
  next
    case False
    let ?L = "take (length as div 2) as" and ?R = "drop (length as div 2) as"
    have LR: "set ?L \<union> set ?R = set as" "set ?L \<inter> set ?R = {}" "distinct ?L" "distinct ?R"
      using less.prems(2) by (auto simp flip: set_append simp: set_take_disj_set_drop_if_distinct)
    have len: "length ?L < length as" "length ?R < length as" using False by auto
    obtain right ns1 where s: "mergesort_split ns p = Some (right, ns1)" "lseg ns1 p ?L None"
        "lseg ns1 right ?R None" "same_data ns ns1" "\<forall>a. a \<notin> set as \<longrightarrow> ns1 a = ns a"
      using mergesort_split_spec [OF less.prems(1,2)] False by force
    have k1: "node_key bl ns1 a = Some (k a)" if "a \<in> set as" for a
      using less.prems(3) [OF that] by (simp add: node_key_same [OF s(4)])
    obtain l ns2 where l: "mergesort_rec cmpe bl dbl ns1 p = Some (l, ns2)"
        "lseg ns2 l (msort ?le ?L) None" "same_data ns1 ns2" "\<forall>a. a \<notin> set ?L \<longrightarrow> ns2 a = ns1 a"
      using less.hyps [OF len(1) s(2) LR(3)] k1 LR(1) by blast
    have "lseg ns2 right ?R None"
      by (rule lseg_frame [OF s(3) l(4) LR(2)])
    moreover have k2: "node_key bl ns2 a = Some (k a)" if "a \<in> set as" for a
      using k1 [OF that] by (simp add: node_key_same [OF l(3)])
    ultimately obtain r ns3 where r: "mergesort_rec cmpe bl dbl ns2 right = Some (r, ns3)"
        "lseg ns3 r (msort ?le ?R) None" "same_data ns2 ns3" "\<forall>a. a \<notin> set ?R \<longrightarrow> ns3 a = ns2 a"
      using less.hyps [OF len(2) _ LR(4)] LR(1) by blast
    have l3: "lseg ns3 l (msort ?le ?L) None"
      using LR(2) by (intro lseg_frame [OF l(2) r(4)]) auto
    have k3: "node_key bl ns3 a = Some (k a)" if "a \<in> set (msort ?le ?L @ msort ?le ?R)" for a
      using k2 that LR(1) by (auto simp: node_key_same [OF r(3)])
    have dd: "distinct (msort ?le ?L @ msort ?le ?R)" using LR by simp
    obtain res ns4 where m: "merge_nodes cmpe bl dbl ns3 l r = Some (res, ns4)"
        "lseg ns4 res (merge_lists ?le (msort ?le ?L) (msort ?le ?R)) None"
        "dbl \<longrightarrow> prevs ns4 None (merge_lists ?le (msort ?le ?L) (msort ?le ?R))"
        "same_data ns3 ns4" "\<forall>a. a \<notin> set (msort ?le ?L @ msort ?le ?R) \<longrightarrow> ns4 a = ns3 a"
      using merge_nodes_spec [OF l3 r(2) dd k3] by blast
    have eval: "mergesort_rec cmpe bl dbl ns p = Some (res, ns4)"
      using small False s(1) l(1) r(1) m(1) by (subst mergesort_rec.simps) simp
    have ms: "msort ?le as = merge_lists ?le (msort ?le ?L) (msort ?le ?R)"
      using False by (subst msort.simps) simp
    have "same_data ns ns4" using s(4) l(3) r(3) m(4) same_data_trans by blast
    moreover have "ns4 a = ns a" if "a \<notin> set as" for a
    proof -
      have "a \<notin> set ?L" "a \<notin> set ?R" using that LR(1) by auto
      then show ?thesis using s(5) l(4) r(4) m(5) that by simp
    qed
    ultimately show ?thesis using eval m(2,3) unfolding ms by blast
  qed
qed

subsection \<open>The iterative sort\<close>

record pass_state =
  ps_p1 :: "nat option"
  ps_p2 :: "nat option"
  ps_p1_size :: int
  ps_p2_size :: int
  ps_head :: "nat option"
  ps_tail :: "nat option"
  ps_n_merges :: int
  ps_nodes :: node_heap

text \<open>The \<open>for\<close> loop that steps \<open>p2\<close> past the first sublist; \<open>i\<close> counts its rounds.\<close>

definition advance_cond :: "int \<Rightarrow> nat option \<times> int \<Rightarrow> bool option" where
  "advance_cond merge_size = (\<lambda>(p2, p1_size). Some (p1_size < merge_size \<and> p2 \<noteq> None))"

definition advance_step :: "node_heap \<Rightarrow> nat option \<times> int \<Rightarrow> (nat option \<times> int) option" where
  "advance_step ns = (\<lambda>(p2, p1_size). do { nd \<leftarrow> deref ns p2; Some (nd_next nd, p1_size + 1) })"

text \<open>One round of the merge: \<open>next_el\<close> and the advanced pointers and sizes.\<close>

definition iter_pick ::
  "('a \<Rightarrow> 'a \<Rightarrow> int) \<Rightarrow> (nat \<Rightarrow> 'a option) \<Rightarrow> pass_state \<Rightarrow> (nat \<times> pass_state) option" where
  "iter_pick cmpe bl s =
     (let ns = ps_nodes s;
          from1 = do { a \<leftarrow> ps_p1 s; nd \<leftarrow> ns a;
            Some (a, s\<lparr>ps_p1 := nd_next nd, ps_p1_size := ps_p1_size s - 1\<rparr>) };
          from2 = do { b \<leftarrow> ps_p2 s; nd \<leftarrow> ns b;
            Some (b, s\<lparr>ps_p2 := nd_next nd, ps_p2_size := ps_p2_size s - 1\<rparr>) } in
      if ps_p1_size s = 0 then from2
      else if ps_p2_size s = 0 \<or> ps_p2 s = None then from1
      else do {
        a \<leftarrow> ps_p1 s;
        b \<leftarrow> ps_p2 s;
        x \<leftarrow> node_key bl ns a;
        y \<leftarrow> node_key bl ns b;
        if cmpe x y \<le> 0 then from1 else from2
      })"

definition iter_step ::
  "('a \<Rightarrow> 'a \<Rightarrow> int) \<Rightarrow> (nat \<Rightarrow> 'a option) \<Rightarrow> bool \<Rightarrow> pass_state \<Rightarrow> pass_state option" where
  "iter_step cmpe bl dbl s = do {
     (next_el, t) \<leftarrow> iter_pick cmpe bl s;
     ns \<leftarrow> merge_link dbl (ps_tail s) (ps_tail s) next_el (ps_nodes s);
     Some (t\<lparr>ps_head := (if ps_tail s = None then Some next_el else ps_head s),
       ps_tail := Some next_el, ps_nodes := ns\<rparr>)
   }"

definition iter_cond :: "pass_state \<Rightarrow> bool option" where
  "iter_cond s = Some (0 < ps_p1_size s \<or> 0 < ps_p2_size s \<and> ps_p2 s \<noteq> None)"

text \<open>One merge of two sublists.\<close>

definition iter_merge ::
  "('a \<Rightarrow> 'a \<Rightarrow> int) \<Rightarrow> (nat \<Rightarrow> 'a option) \<Rightarrow> bool \<Rightarrow> int \<Rightarrow> pass_state \<Rightarrow> pass_state option" where
  "iter_merge cmpe bl dbl merge_size s = do {
     (p2, p1_size) \<leftarrow> while_loop (advance_cond merge_size) (advance_step (ps_nodes s)) (ps_p1 s, 0);
     t \<leftarrow> while_loop iter_cond (iter_step cmpe bl dbl)
       (s\<lparr>ps_n_merges := ps_n_merges s + 1, ps_p2 := p2, ps_p1_size := p1_size,
         ps_p2_size := merge_size\<rparr>);
     Some (t\<lparr>ps_p1 := ps_p2 t\<rparr>)
   }"

definition iter_pass ::
  "('a \<Rightarrow> 'a \<Rightarrow> int) \<Rightarrow> (nat \<Rightarrow> 'a option) \<Rightarrow> bool \<Rightarrow> int \<Rightarrow> node_heap \<Rightarrow> nat option \<Rightarrow> pass_state option" where
  "iter_pass cmpe bl dbl merge_size ns head = do {
     t \<leftarrow> while_loop (\<lambda>s. Some (ps_p1 s \<noteq> None)) (iter_merge cmpe bl dbl merge_size)
       \<lparr>ps_p1 = head, ps_p2 = None, ps_p1_size = 0, ps_p2_size = 0, ps_head = None, ps_tail = None,
        ps_n_merges = 0, ps_nodes = ns\<rparr>;
     ns \<leftarrow> (case ps_tail t of None \<Rightarrow> Some (ps_nodes t) | Some a \<Rightarrow> set_next (Some a) None (ps_nodes t));
     Some (t\<lparr>ps_nodes := ns\<rparr>)
   }"

text \<open>
  The passes. \<open>merge_size\<close> is an \<open>int\<close> of 32 bits whose doubling must not overflow; an
  empty list never makes the single merge that ends the loop.
\<close>

partial_function (option) iter_passes ::
  "('a \<Rightarrow> 'a \<Rightarrow> int) \<Rightarrow> (nat \<Rightarrow> 'a option) \<Rightarrow> bool \<Rightarrow> int \<Rightarrow> node_heap \<Rightarrow> nat option \<Rightarrow>
   (nat option \<times> node_heap) option" where
  "iter_passes cmpe bl dbl merge_size ns head =
     Option.bind (iter_pass cmpe bl dbl merge_size ns head) (\<lambda>t.
       if ps_n_merges t = 1 then Some (ps_head t, ps_nodes t)
       else if 2 ^ 31 \<le> merge_size * 2 then None
       else iter_passes cmpe bl dbl (merge_size * 2) (ps_nodes t) (ps_head t))"

definition mergesort_iter ::
  "('a \<Rightarrow> 'a \<Rightarrow> int) \<Rightarrow> (nat \<Rightarrow> 'a option) \<Rightarrow> bool \<Rightarrow> node_heap \<Rightarrow> nat option \<Rightarrow>
   (nat option \<times> node_heap) option" where
  "mergesort_iter cmpe bl dbl ns list = iter_passes cmpe bl dbl 1 ns list"

lemma advance_spec:
  assumes "lseg ns p xs None" and "xs \<noteq> []" and "0 < n"
  shows "\<exists>p2. while_loop (advance_cond (int n)) (advance_step ns) (p, 0) =
      Some (p2, int (min n (length xs))) \<and> lseg ns p (take n xs) p2 \<and> lseg ns p2 (drop n xs) None"
proof -
  let ?P = "\<lambda>j s. snd s = int j \<and> j \<le> n \<and> j \<le> length xs \<and>
    lseg ns p (take j xs) (fst s) \<and> lseg ns (fst s) (drop j xs) None"
  have "?P 0 (p, 0)" using assms by simp
  then have "\<exists>j t. while_loop (advance_cond (int n)) (advance_step ns) (p, 0) = Some t \<and> ?P j t \<and>
      advance_cond (int n) t = Some False"
  proof (rule while_loop_ghost [where m = "\<lambda>j. length xs - j"])
    fix j s assume P: "?P j s"
    obtain p2 k where s: "s = (p2, k)" by (cases s)
    show "advance_cond (int n) s = Some False \<or> advance_cond (int n) s = Some True \<and>
        (\<exists>j' t. advance_step ns s = Some t \<and> ?P j' t \<and> length xs - j' < length xs - j)"
    proof (cases "j < n \<and> j < length xs")
      case False
      then have "j = n \<or> drop j xs = []" using P by auto
      then show ?thesis using P by (auto simp: s advance_cond_def)
    next
      case True
      have d: "drop j xs = xs ! j # drop (Suc j) xs" using True by (simp add: Cons_nth_drop_Suc)
      then obtain nd where nd: "p2 = Some (xs ! j)" "ns (xs ! j) = Some nd" "lseg ns (nd_next nd) (drop (Suc j) xs) None"
        using P by (auto simp: s split: option.splits)
      have "take (Suc j) xs = take j xs @ [xs ! j]" using True by (simp add: take_Suc_conv_app_nth)
      then have "lseg ns p (take (Suc j) xs) (nd_next nd)" using P nd by (auto simp: s lseg_append)
      then show ?thesis using P True nd
        by (intro disjI2 conjI exI [of _ "Suc j"] exI [of _ "(nd_next nd, k + 1)"])
          (auto simp: s advance_cond_def advance_step_def)
    qed
  qed
  then obtain j t where t: "while_loop (advance_cond (int n)) (advance_step ns) (p, 0) = Some t" "?P j t"
      "advance_cond (int n) t = Some False" by blast
  obtain p2 k where s: "t = (p2, k)" by (cases t)
  have "j = min n (length xs)"
  proof (cases "j < n")
    case True
    then have "p2 = None" using t(2,3) by (auto simp: s advance_cond_def)
    then show ?thesis using t(2) True by (auto simp: s)
  next
    case False
    then show ?thesis using t(2) by auto
  qed
  then show ?thesis using t(1,2) by (auto simp: s min_def split: if_splits)
qed

lemma merge_link_result:
  "(r = None \<longleftrightarrow> r' = None) \<Longrightarrow> merge_link dbl r t nx ns = merge_link dbl r' t nx ns"
  by (simp add: merge_link_def)

text \<open>
  The part of the state of a pass that both of its loops keep: \<open>cs\<close> is merged, \<open>ws\<close> are
  the nodes left.
\<close>

definition done_part ::
  "bool \<Rightarrow> node_heap \<Rightarrow> nat set \<Rightarrow> nat list \<Rightarrow> nat list \<Rightarrow> pass_state \<Rightarrow> bool" where
  "done_part dbl ns A cs ws s \<longleftrightarrow>
     distinct (cs @ ws) \<and> set (cs @ ws) = A \<and> ps_tail s = last_of None cs \<and>
     (cs \<noteq> [] \<longrightarrow> ps_head s = Some (hd cs) \<and> (\<exists>q. lseg (ps_nodes s) (Some (hd cs)) cs q)) \<and>
     (cs = [] \<longrightarrow> ps_head s = None) \<and>
     (dbl \<longrightarrow> prevs (ps_nodes s) None cs) \<and> same_data ns (ps_nodes s) \<and>
     (\<forall>a. a \<notin> A \<longrightarrow> ps_nodes s a = ns a)"

lemma done_part_fields [simp]:
  "done_part dbl ns A cs ws (s\<lparr>ps_p1 := p\<rparr>) = done_part dbl ns A cs ws s"
  "done_part dbl ns A cs ws (s\<lparr>ps_n_merges := c, ps_p2 := p, ps_p1_size := i, ps_p2_size := j\<rparr>) =
     done_part dbl ns A cs ws s"
  by (simp_all add: done_part_def)

text \<open>
  Within a merge: \<open>us\<close> is left of the first sublist, \<open>vs\<close> of the list from \<open>p2\<close> on, of
  which \<open>b\<close> nodes belong to the second sublist. \<open>goal\<close> is the merged part at the end and
  \<open>rest\<close> what follows both sublists.
\<close>

definition iter_inv ::
  "bool \<Rightarrow> (nat \<Rightarrow> nat \<Rightarrow> bool) \<Rightarrow> node_heap \<Rightarrow> nat set \<Rightarrow> int \<Rightarrow> nat list \<Rightarrow> nat list \<Rightarrow>
   nat list \<times> nat list \<times> nat list \<times> nat \<Rightarrow> pass_state \<Rightarrow> bool" where
  "iter_inv dbl le ns A c goal rest = (\<lambda>(cs, us, vs, b) s.
     done_part dbl ns A cs (us @ vs) s \<and> ps_n_merges s = c \<and>
     (\<exists>q. lseg (ps_nodes s) (ps_p1 s) us q) \<and> lseg (ps_nodes s) (ps_p2 s) vs None \<and>
     ps_p1_size s = int (length us) \<and> ps_p2_size s = int b \<and>
     cs @ merge_lists le us (take b vs) = goal \<and> drop b vs = rest)"

text \<open>Linking a node that is left behind the merged part.\<close>

lemma done_part_link:
  assumes d: "done_part dbl ns A cs ws s" and nx: "nx \<in> set ws" "ps_nodes s nx = Some nd"
    and ws': "set ws = insert nx (set ws')" "distinct (nx # ws')"
  shows "\<exists>ns'. merge_link dbl (ps_tail s) (ps_tail s) nx (ps_nodes s) = Some ns' \<and>
    (\<forall>t. ps_nodes t = ns' \<and> ps_tail t = Some nx \<and>
       ps_head t = (if ps_tail s = None then Some nx else ps_head s) \<longrightarrow>
       done_part dbl ns A (cs @ [nx]) ws' t) \<and>
    (\<forall>p as q. set as \<subseteq> set ws \<longrightarrow> lseg (ps_nodes s) p as q \<longrightarrow> lseg ns' p as q)"
proof -
  let ?ns = "ps_nodes s"
  have dd: "distinct (cs @ ws)" "set (cs @ ws) = A" and tl: "ps_tail s = last_of None cs"
    and pr: "dbl \<Longrightarrow> prevs ?ns None cs" and sd: "same_data ns ?ns"
    and fr: "\<forall>a. a \<notin> A \<longrightarrow> ?ns a = ns a" and hd: "cs \<noteq> [] \<Longrightarrow> ps_head s = Some (hd cs)"
    using d by (auto simp: done_part_def)
  obtain q where q: "cs \<noteq> [] \<Longrightarrow> lseg ?ns (Some (hd cs)) cs q" using d by (auto simp: done_part_def)
  have dn: "distinct (cs @ [nx])" using dd nx(1) by auto
  obtain ns' where ns': "merge_link dbl (if cs = [] then None else Some (hd cs)) (last_of None cs) nx ?ns = Some ns'"
      "lseg ns' (Some (hd (cs @ [nx]))) (cs @ [nx]) (nd_next nd)"
      "dbl \<longrightarrow> prevs ns' None (cs @ [nx])" "same_data ?ns ns'" "same_next (- set cs) ?ns ns'"
      "\<forall>a. a \<notin> set (cs @ [nx]) \<longrightarrow> ns' a = ?ns a"
    using merge_link_spec [OF q dn nx(2) pr] by blast
  have tn: "ps_tail s = None \<longleftrightarrow> cs = []" by (simp add: tl last_of_def)
  have "merge_link dbl (ps_tail s) (ps_tail s) nx ?ns = Some ns'"
    using ns'(1) merge_link_result [of "ps_tail s" "if cs = [] then None else Some (hd cs)"] tn
    by (simp add: tl)
  moreover have "done_part dbl ns A (cs @ [nx]) ws' t"
    if t: "ps_nodes t = ns'" "ps_tail t = Some nx" "ps_head t = (if ps_tail s = None then Some nx else ps_head s)" for t
  proof -
    have "distinct ((cs @ [nx]) @ ws')" using dd(1) ws' by auto
    moreover have "set ((cs @ [nx]) @ ws') = A" using dd(2) ws'(1) by auto
    moreover have "ps_head t = Some (hd (cs @ [nx]))" using t(3) tn hd by (auto simp: hd_append)
    moreover have "\<exists>q. lseg (ps_nodes t) (Some (hd (cs @ [nx]))) (cs @ [nx]) q" using ns'(2) t(1) by blast
    moreover have "same_data ns ns'" using sd ns'(4) same_data_trans by blast
    moreover have "ns' a = ns a" if "a \<notin> A" for a
    proof -
      have "a \<notin> set (cs @ [nx])" using that dd(2) nx(1) by auto
      then show ?thesis using ns'(6) fr that by simp
    qed
    ultimately show ?thesis using t(1,2) ns'(3) unfolding done_part_def by (simp add: last_of_def)
  qed
  moreover have "lseg ns' p as q" if "set as \<subseteq> set ws" "lseg ?ns p as q" for p as q
  proof -
    have "same_next (set as) ?ns ns'" using ns'(5) that(1) dd(1) by (auto simp: same_next_def)
    then show ?thesis using lseg_cong that(2) by blast
  qed
  ultimately show ?thesis by blast
qed

text \<open>What a round of the merge takes.\<close>

lemma iter_pick_spec:
  assumes inv: "iter_inv dbl (\<lambda>a b. cmpe (k a) (k b) \<le> 0) ns A c goal rest (cs, us, vs, b) s"
    and key: "\<And>a. a \<in> A \<Longrightarrow> node_key bl ns a = Some (k a)" and ne: "us \<noteq> [] \<or> 0 < b \<and> vs \<noteq> []"
  shows "\<exists>nx nd us' vs' b' t. iter_pick cmpe bl s = Some (nx, t) \<and> ps_nodes s nx = Some nd \<and>
    merge_lists (\<lambda>a b. cmpe (k a) (k b) \<le> 0) us (take b vs) =
      nx # merge_lists (\<lambda>a b. cmpe (k a) (k b) \<le> 0) us' (take b' vs') \<and> drop b' vs' = drop b vs \<and>
    (us = nx # us' \<and> vs' = vs \<and> b' = b \<and>
       t = s\<lparr>ps_p1 := nd_next nd, ps_p1_size := int (length us')\<rparr> \<or>
     us' = us \<and> vs = nx # vs' \<and> b = Suc b' \<and>
       t = s\<lparr>ps_p2 := nd_next nd, ps_p2_size := int b'\<rparr>)"
proof -
  let ?ns = "ps_nodes s" and ?le = "\<lambda>a b. cmpe (k a) (k b) \<le> 0"
  obtain q where l1: "lseg ?ns (ps_p1 s) us q" using inv by (auto simp: iter_inv_def)
  have l2: "lseg ?ns (ps_p2 s) vs None" and sz: "ps_p1_size s = int (length us)" "ps_p2_size s = int b"
    and dp: "done_part dbl ns A cs (us @ vs) s"
    using inv by (auto simp: iter_inv_def)
  have key': "node_key bl ?ns a = Some (k a)" if "a \<in> set (us @ vs)" for a
  proof -
    have "same_data ns ?ns" "a \<in> A" using dp that by (auto simp: done_part_def)
    then show ?thesis using key by (simp add: node_key_same)
  qed
  have second: ?thesis if p: "iter_pick cmpe bl s = do { b \<leftarrow> ps_p2 s; nd \<leftarrow> ?ns b;
      Some (b, s\<lparr>ps_p2 := nd_next nd, ps_p2_size := ps_p2_size s - 1\<rparr>) }"
    and v: "vs = v # vs'" "0 < b" and m: "us = [] \<or> \<not> ?le (hd us) v" for v vs'
  proof -
    obtain nd where nd: "ps_p2 s = Some v" "?ns v = Some nd" using l2 v(1) by (auto split: option.splits)
    obtain b' where b': "b = Suc b'" using v(2) by (cases b) auto
    have "merge_lists ?le us (take b vs) = v # merge_lists ?le us (take b' vs')"
      using m v(1) b' by (cases us) auto
    then show ?thesis using p nd v(1) b' sz
      by (intro exI [of _ v] exI [of _ nd] exI [of _ us] exI [of _ vs'] exI [of _ b']
          exI [of _ "s\<lparr>ps_p2 := nd_next nd, ps_p2_size := int b'\<rparr>"]) simp
  qed
  have first: ?thesis if p: "iter_pick cmpe bl s = do { a \<leftarrow> ps_p1 s; nd \<leftarrow> ?ns a;
      Some (a, s\<lparr>ps_p1 := nd_next nd, ps_p1_size := ps_p1_size s - 1\<rparr>) }"
    and u: "us = u # us'" and m: "take b vs = [] \<or> ?le u (hd (take b vs))" for u us'
  proof -
    obtain nd where nd: "ps_p1 s = Some u" "?ns u = Some nd" using l1 u by (auto split: option.splits)
    have "merge_lists ?le us (take b vs) = u # merge_lists ?le us' (take b vs)"
      using m u by (cases "take b vs") auto
    then show ?thesis using p nd u sz
      by (intro exI [of _ u] exI [of _ nd] exI [of _ us'] exI [of _ vs] exI [of _ b]
          exI [of _ "s\<lparr>ps_p1 := nd_next nd, ps_p1_size := int (length us')\<rparr>"]) simp
  qed
  show ?thesis
  proof (cases us)
    case Nil
    then obtain v vs' where "vs = v # vs'" "0 < b" using ne by (cases vs) auto
    then show ?thesis using Nil sz by (intro second) (auto simp: iter_pick_def Let_def)
  next
    case us: (Cons u us')
    show ?thesis
    proof (cases "take b vs")
      case Nil
      then have "ps_p2_size s = 0 \<or> ps_p2 s = None" using l2 sz by auto
      then show ?thesis using us Nil sz by (intro first) (auto simp: iter_pick_def Let_def)
    next
      case (Cons v ws)
      then obtain vs' where vs: "vs = v # vs'" "0 < b" by (cases vs; cases b) auto
      have p: "ps_p1 s = Some u" "ps_p2 s = Some v" using l1 l2 us vs by auto
      have k: "node_key bl ?ns u = Some (k u)" "node_key bl ?ns v = Some (k v)" using key' us vs by auto
      show ?thesis
      proof (cases "?le u v")
        case True
        then show ?thesis using us Cons p k sz vs by (intro first) (auto simp: iter_pick_def Let_def)
      next
        case False
        then show ?thesis using us Cons p k sz vs by (intro second) (auto simp: iter_pick_def Let_def)
      qed
    qed
  qed
qed

lemma iter_step_spec:
  assumes inv: "iter_inv dbl (\<lambda>a b. cmpe (k a) (k b) \<le> 0) ns A c goal rest (cs, us, vs, b) s"
    and key: "\<And>a. a \<in> A \<Longrightarrow> node_key bl ns a = Some (k a)" and ne: "us \<noteq> [] \<or> 0 < b \<and> vs \<noteq> []"
  shows "\<exists>us' vs' b' t cs'. iter_step cmpe bl dbl s = Some t \<and>
    iter_inv dbl (\<lambda>a b. cmpe (k a) (k b) \<le> 0) ns A c goal rest (cs', us', vs', b') t \<and>
    length us' + length vs' < length us + length vs"
proof -
  let ?ns = "ps_nodes s" and ?le = "\<lambda>a b. cmpe (k a) (k b) \<le> 0"
  obtain nx nd us' vs' b' t where pick: "iter_pick cmpe bl s = Some (nx, t)" "?ns nx = Some nd"
      "merge_lists ?le us (take b vs) = nx # merge_lists ?le us' (take b' vs')" "drop b' vs' = drop b vs"
    and w: "us = nx # us' \<and> vs' = vs \<and> b' = b \<and>
         t = s\<lparr>ps_p1 := nd_next nd, ps_p1_size := int (length us')\<rparr> \<or>
       us' = us \<and> vs = nx # vs' \<and> b = Suc b' \<and>
         t = s\<lparr>ps_p2 := nd_next nd, ps_p2_size := int b'\<rparr>"
    using iter_pick_spec [OF assms] by blast
  have dp: "done_part dbl ns A cs (us @ vs) s" using inv by (simp add: iter_inv_def)
  have "distinct (us @ vs)" using dp by (simp add: done_part_def)
  then have ws: "nx \<in> set (us @ vs)" "set (us @ vs) = insert nx (set (us' @ vs'))" "distinct (nx # us' @ vs')"
    using w by auto
  obtain ns' where ns': "merge_link dbl (ps_tail s) (ps_tail s) nx ?ns = Some ns'"
      "\<And>t. ps_nodes t = ns' \<Longrightarrow> ps_tail t = Some nx \<Longrightarrow>
        ps_head t = (if ps_tail s = None then Some nx else ps_head s) \<Longrightarrow>
        done_part dbl ns A (cs @ [nx]) (us' @ vs') t"
      "\<And>p as q. set as \<subseteq> set (us @ vs) \<Longrightarrow> lseg ?ns p as q \<Longrightarrow> lseg ns' p as q"
    using done_part_link [OF dp ws(1) pick(2) ws(2,3)] by blast
  let ?t = "t\<lparr>ps_head := (if ps_tail s = None then Some nx else ps_head s), ps_tail := Some nx, ps_nodes := ns'\<rparr>"
  have step: "iter_step cmpe bl dbl s = Some ?t"
    using pick(1) ns'(1) w by (auto simp: iter_step_def)
  have dp': "done_part dbl ns A (cs @ [nx]) (us' @ vs') ?t" by (rule ns'(2)) simp_all
  obtain q where "lseg ?ns (ps_p1 s) us q" using inv by (auto simp: iter_inv_def)
  then have "lseg ?ns (ps_p1 t) us' q" using w pick(2) by auto
  moreover have sub: "set us' \<subseteq> set (us @ vs)" "set vs' \<subseteq> set (us @ vs)" using w by auto
  ultimately have l1: "lseg ns' (ps_p1 t) us' q" using ns'(3) by blast
  have "lseg ?ns (ps_p2 s) vs None" using inv by (simp add: iter_inv_def)
  then have "lseg ?ns (ps_p2 t) vs' None" using w pick(2) by auto
  then have l2: "lseg ns' (ps_p2 t) vs' None" using ns'(3) sub(2) by blast
  have sz: "ps_p1_size t = int (length us')" "ps_p2_size t = int b'" "ps_n_merges t = c"
    using inv w by (auto simp: iter_inv_def)
  have g: "(cs @ [nx]) @ merge_lists ?le us' (take b' vs') = goal" "drop b' vs' = rest"
    using inv pick(3,4) by (auto simp: iter_inv_def)
  have "iter_inv dbl ?le ns A c goal rest (cs @ [nx], us', vs', b') ?t"
    unfolding iter_inv_def using dp' l1 l2 sz g by auto
  moreover have "length us' + length vs' < length us + length vs" using w by auto
  ultimately show ?thesis using step by blast
qed

text \<open>One merge of two neighbouring runs of length \<open>n\<close>.\<close>

lemma iter_merge_spec:
  assumes dp: "done_part dbl ns A cs xs s" and seg: "lseg (ps_nodes s) (ps_p1 s) xs None"
    and key: "\<And>a. a \<in> A \<Longrightarrow> node_key bl ns a = Some (k a)" and "xs \<noteq> []" and n: "0 < n"
  shows "\<exists>t. iter_merge cmpe bl dbl (int n) s = Some t \<and>
    done_part dbl ns A (cs @ merge_lists (\<lambda>a b. cmpe (k a) (k b) \<le> 0) (take n xs) (take n (drop n xs)))
      (drop (2 * n) xs) t \<and>
    lseg (ps_nodes t) (ps_p1 t) (drop (2 * n) xs) None \<and> ps_n_merges t = ps_n_merges s + 1"
proof -
  let ?le = "\<lambda>a b. cmpe (k a) (k b) \<le> 0"
  let ?goal = "cs @ merge_lists ?le (take n xs) (take n (drop n xs))"
  let ?rest = "drop n (drop n xs)" and ?c = "ps_n_merges s + 1"
  obtain p2 where adv: "while_loop (advance_cond (int n)) (advance_step (ps_nodes s)) (ps_p1 s, 0) =
      Some (p2, int (min n (length xs)))" "lseg (ps_nodes s) (ps_p1 s) (take n xs) p2"
      "lseg (ps_nodes s) p2 (drop n xs) None"
    using advance_spec [OF seg assms(4) n] by blast
  let ?s = "s\<lparr>ps_n_merges := ?c, ps_p2 := p2, ps_p1_size := int (min n (length xs)), ps_p2_size := int n\<rparr>"
  let ?P = "iter_inv dbl ?le ns A ?c ?goal ?rest"
  let ?m = "\<lambda>g. length (fst (snd g)) + length (fst (snd (snd g)))"
  have "done_part dbl ns A cs xs ?s" using dp by simp
  then have start: "?P (cs, take n xs, drop n xs, n) ?s"
    using adv by (auto simp: iter_inv_def min.commute)
  have "\<exists>g t. while_loop iter_cond (iter_step cmpe bl dbl) ?s = Some t \<and> ?P g t \<and> iter_cond t = Some False"
  proof (rule while_loop_ghost [where P = ?P and m = ?m, OF start])
    fix g t assume inv: "?P g t"
    obtain cs us vs b where g: "g = (cs, us, vs, b)" by (metis surj_pair)
    have ptr: "ps_p2 t = None \<longleftrightarrow> vs = []" and sz: "ps_p1_size t = int (length us)" "ps_p2_size t = int b"
      using inv unfolding g iter_inv_def by (cases vs; auto)+
    show "iter_cond t = Some False \<or> iter_cond t = Some True \<and>
        (\<exists>g' t'. iter_step cmpe bl dbl t = Some t' \<and> ?P g' t' \<and> ?m g' < ?m g)"
    proof (cases "us \<noteq> [] \<or> 0 < b \<and> vs \<noteq> []")
      case True
      then have "iter_cond t = Some True" using ptr sz by (auto simp: iter_cond_def)
      moreover obtain us' vs' b' t' cs' where "iter_step cmpe bl dbl t = Some t'" "?P (cs', us', vs', b') t'"
          "length us' + length vs' < length us + length vs"
        using iter_step_spec [OF inv [unfolded g] key True] by blast
      ultimately show ?thesis
        by (intro disjI2 conjI exI [of _ "(cs', us', vs', b')"] exI [of _ t']) (auto simp: g)
    next
      case False
      then show ?thesis using ptr sz by (auto simp: iter_cond_def)
    qed
  qed
  then obtain g t where t: "while_loop iter_cond (iter_step cmpe bl dbl) ?s = Some t" "?P g t"
      "iter_cond t = Some False" by blast
  obtain ds us vs b where g: "g = (ds, us, vs, b)" by (metis surj_pair)
  have "ps_p2 t = None \<longleftrightarrow> vs = []" using t(2) unfolding g iter_inv_def by (cases vs) auto
  then have e: "us = []" "b = 0 \<or> vs = []" using t(2,3) by (auto simp: g iter_inv_def iter_cond_def)
  then have fin: "ds = ?goal" "vs = ?rest" using t(2) by (auto simp: g iter_inv_def)
  let ?t = "t\<lparr>ps_p1 := ps_p2 t\<rparr>"
  have "done_part dbl ns A ?goal ?rest ?t" using t(2) e(1) fin by (simp add: g iter_inv_def)
  moreover have "lseg (ps_nodes t) (ps_p2 t) ?rest None" "ps_n_merges t = ?c"
    using t(2) fin by (simp_all add: g iter_inv_def)
  moreover have "iter_merge cmpe bl dbl (int n) s = Some ?t" using adv(1) t(1) by (simp add: iter_merge_def)
  ultimately show ?thesis by (intro exI [of _ ?t]) (simp add: mult_2)
qed

lemma iter_pass_spec:
  assumes seg: "lseg ns p as None" and "distinct as" and "as \<noteq> []" and n: "0 < n"
    and key: "\<And>a. a \<in> set as \<Longrightarrow> node_key bl ns a = Some (k a)"
  shows "\<exists>t. iter_pass cmpe bl dbl (int n) ns p = Some t \<and>
    lseg (ps_nodes t) (ps_head t) (merge_pass (\<lambda>a b. cmpe (k a) (k b) \<le> 0) n as) None \<and>
    (dbl \<longrightarrow> prevs (ps_nodes t) None (merge_pass (\<lambda>a b. cmpe (k a) (k b) \<le> 0) n as)) \<and>
    same_data ns (ps_nodes t) \<and> (\<forall>a. a \<notin> set as \<longrightarrow> ps_nodes t a = ns a) \<and>
    (ps_n_merges t = 1 \<longleftrightarrow> length as \<le> 2 * n)"
proof -
  let ?le = "\<lambda>a b. cmpe (k a) (k b) \<le> 0" and ?A = "set as"
  let ?all = "merge_pass ?le n as"
  let ?s = "\<lparr>ps_p1 = p, ps_p2 = None, ps_p1_size = 0, ps_p2_size = 0, ps_head = None, ps_tail = None,
      ps_n_merges = 0, ps_nodes = ns\<rparr>"
  let ?P = "\<lambda>(cs, xs, c) s. done_part dbl ns ?A cs xs s \<and> lseg (ps_nodes s) (ps_p1 s) xs None \<and>
    cs @ merge_pass ?le n xs = ?all \<and> ps_n_merges s = int c \<and>
    (xs \<noteq> [] \<longrightarrow> c * (2 * n) + length xs = length as) \<and>
    (0 < c \<longrightarrow> (c - 1) * (2 * n) < length as \<and> (xs = [] \<longrightarrow> length as \<le> c * (2 * n))) \<and>
    (c = 0 \<longrightarrow> cs = [])"
  let ?m = "\<lambda>g. length (fst (snd g))"
  have start: "?P ([], as, 0) ?s" using assms(1-3) by (simp add: done_part_def)
  have "\<exists>g t. while_loop (\<lambda>s. Some (ps_p1 s \<noteq> None)) (iter_merge cmpe bl dbl (int n)) ?s = Some t \<and>
      ?P g t \<and> Some (ps_p1 t \<noteq> None) = Some False"
  proof (rule while_loop_ghost [where P = ?P and m = ?m, OF start])
    fix g s assume inv0: "?P g s"
    obtain cs xs c where g: "g = (cs, xs, c)" by (metis surj_pair)
    have dp: "done_part dbl ns ?A cs xs s" and sg: "lseg (ps_nodes s) (ps_p1 s) xs None"
      and ml: "cs @ merge_pass ?le n xs = ?all" and c: "ps_n_merges s = int c"
        "xs \<noteq> [] \<Longrightarrow> c * (2 * n) + length xs = length as"
      using inv0 by (auto simp: g)
    show "Some (ps_p1 s \<noteq> None) = Some False \<or> Some (ps_p1 s \<noteq> None) = Some True \<and>
        (\<exists>g' t. iter_merge cmpe bl dbl (int n) s = Some t \<and> ?P g' t \<and> ?m g' < ?m g)"
    proof (cases "xs = []")
      case True
      then show ?thesis using sg by simp
    next
      case False
      let ?m1 = "merge_lists ?le (take n xs) (take n (drop n xs))" and ?r = "drop (2 * n) xs"
      obtain t where t: "iter_merge cmpe bl dbl (int n) s = Some t" "done_part dbl ns ?A (cs @ ?m1) ?r t"
          "lseg (ps_nodes t) (ps_p1 t) ?r None" "ps_n_merges t = ps_n_merges s + 1"
        using iter_merge_spec [OF dp sg key False n] by blast
      have "merge_pass ?le n xs = ?m1 @ merge_pass ?le n ?r" using False n by (subst merge_pass.simps) simp
      then have "(cs @ ?m1) @ merge_pass ?le n ?r = ?all" using ml by simp
      moreover have "?r \<noteq> [] \<longrightarrow> Suc c * (2 * n) + length ?r = length as" using c(2) [OF False] by auto
      moreover have "c * (2 * n) < length as" using c(2) [OF False] False by (cases xs) auto
      moreover have "?r = [] \<longrightarrow> length as \<le> Suc c * (2 * n)" using c(2) [OF False] by auto
      ultimately have "?P (cs @ ?m1, ?r, Suc c) t" using t c(1) by simp
      moreover have "length ?r < length xs" using False n by (cases xs) auto
      moreover have "ps_p1 s \<noteq> None" using sg False by (cases xs) auto
      ultimately show ?thesis using t(1) by (intro disjI2 conjI exI [of _ "(cs @ ?m1, ?r, Suc c)"] exI [of _ t]) (auto simp: g)
    qed
  qed
  then obtain g t where t: "while_loop (\<lambda>s. Some (ps_p1 s \<noteq> None)) (iter_merge cmpe bl dbl (int n)) ?s = Some t"
      "?P g t" "ps_p1 t = None" by auto
  obtain cs xs c where g: "g = (cs, xs, c)" by (metis surj_pair)
  have xs: "xs = []" and dp: "done_part dbl ns ?A cs xs t" and c: "ps_n_merges t = int c"
      "0 < c \<Longrightarrow> (c - 1) * (2 * n) < length as \<and> length as \<le> c * (2 * n)"
    using t(2,3) by (auto simp: g)
  have cs: "cs = ?all" using t(2) xs by (simp add: g merge_pass.simps)
  have len: "length ?all = length as" using n by simp
  then have ne: "cs \<noteq> []" using cs assms(3) by auto
  have c0: "0 < c"
  proof (rule ccontr)
    assume "\<not> 0 < c"
    then show False using t(2) xs ne cs by (auto simp: g)
  qed
  have one: "c = 1 \<longleftrightarrow> length as \<le> 2 * n"
  proof
    assume "length as \<le> 2 * n"
    then have "(c - 1) * (2 * n) < 1 * (2 * n)" using c(2) [OF c0] by linarith
    then show "c = 1" using c0 unfolding mult_less_cancel2 by simp
  qed (use c(2) in simp)
  obtain ds l where dl: "cs = ds @ [l]" using ne by (cases cs rule: rev_cases) auto
  let ?h = "Some (hd cs)" and ?ns = "ps_nodes t"
  have hd: "ps_head t = ?h" "ps_tail t = Some l" "dbl \<Longrightarrow> prevs ?ns None cs" "same_data ns ?ns"
      "\<forall>a. a \<notin> ?A \<longrightarrow> ?ns a = ns a" "distinct cs" "l \<in> ?A"
    using dp ne xs dl by (auto simp: done_part_def)
  obtain q where "lseg ?ns ?h cs q" using dp ne by (auto simp: done_part_def)
  then obtain nd where nd: "lseg ?ns ?h ds (Some l)" "?ns l = Some nd"
    by (auto simp: dl lseg_append split: option.splits)
  let ?ns' = "?ns(l \<mapsto> nd\<lparr>nd_next := None\<rparr>)"
  have "lseg ?ns' ?h ds (Some l)" using nd(1) hd(6) dl lseg_cong [OF same_next_upd(1)] by simp
  then have seg': "lseg ?ns' ?h cs None" by (auto simp: dl lseg_append)
  have pv: "dbl \<Longrightarrow> prevs ?ns' None cs" using hd(3) nd(2) prevs_cong [OF same_prev_upd(2)] by blast
  have sd: "same_data ns ?ns'" using hd(4) nd(2) same_data_upd(2) same_data_trans by blast
  have fr: "\<forall>a. a \<notin> ?A \<longrightarrow> ?ns' a = ns a" using hd(5,7) by auto
  have "iter_pass cmpe bl dbl (int n) ns p = Some (t\<lparr>ps_nodes := ?ns'\<rparr>)"
    using t(1) hd(2) nd(2) by (simp add: iter_pass_def)
  then show ?thesis using seg' pv sd fr one c(1) hd(1) cs by (intro exI [of _ "t\<lparr>ps_nodes := ?ns'\<rparr>"]) simp
qed

lemma iter_passes_spec:
  assumes "lseg ns p as None" and "distinct as" and "as \<noteq> []" and "0 < n" and "length as < 2 ^ 31"
    and "\<And>a. a \<in> set as \<Longrightarrow> node_key bl ns a = Some (k a)"
  shows "\<exists>res ns'. iter_passes cmpe bl dbl (int n) ns p = Some (res, ns') \<and>
    lseg ns' res (bottom_up (\<lambda>a b. cmpe (k a) (k b) \<le> 0) n as) None \<and>
    (dbl \<longrightarrow> prevs ns' None (bottom_up (\<lambda>a b. cmpe (k a) (k b) \<le> 0) n as)) \<and>
    same_data ns ns' \<and> (\<forall>a. a \<notin> set as \<longrightarrow> ns' a = ns a)"
  using assms
proof (induction "\<lambda>a b. cmpe (k a) (k b) \<le> 0" n as arbitrary: ns p rule: bottom_up.induct)
  case (1 n as)
  let ?le = "\<lambda>a b. cmpe (k a) (k b) \<le> 0"
  obtain t where t: "iter_pass cmpe bl dbl (int n) ns p = Some t"
      "lseg (ps_nodes t) (ps_head t) (merge_pass ?le n as) None"
      "dbl \<longrightarrow> prevs (ps_nodes t) None (merge_pass ?le n as)"
      "same_data ns (ps_nodes t)" "\<forall>a. a \<notin> set as \<longrightarrow> ps_nodes t a = ns a"
      "ps_n_merges t = 1 \<longleftrightarrow> length as \<le> 2 * n"
    using iter_pass_spec [OF "1.prems"(1-4,6)] by blast
  show ?case
  proof (cases "length as \<le> 2 * n")
    case True
    then have "bottom_up ?le n as = merge_pass ?le n as" by (subst bottom_up.simps) simp
    then show ?thesis using t True by (subst iter_passes.simps) simp
  next
    case False
    have ne: "\<not> (length as \<le> 2 * n \<or> n = 0)" using False "1.prems"(4) by simp
    have key: "node_key bl (ps_nodes t) a = Some (k a)" if "a \<in> set (merge_pass ?le n as)" for a
      using "1.prems"(4,6) that by (simp add: node_key_same [OF t(4)])
    have ms: "distinct (merge_pass ?le n as)" "length (merge_pass ?le n as) < 2 ^ 31" "0 < 2 * n"
      using "1.prems"(2,4,5) by simp_all
    have mne: "merge_pass ?le n as \<noteq> []"
      using "1.prems"(3,4) by (metis length_0_conv length_merge_pass)
    obtain res ns' where r: "iter_passes cmpe bl dbl (int (2 * n)) (ps_nodes t) (ps_head t) = Some (res, ns')"
        "lseg ns' res (bottom_up ?le (2 * n) (merge_pass ?le n as)) None"
        "dbl \<longrightarrow> prevs ns' None (bottom_up ?le (2 * n) (merge_pass ?le n as))"
        "same_data (ps_nodes t) ns'" "\<forall>a. a \<notin> set (merge_pass ?le n as) \<longrightarrow> ns' a = ps_nodes t a"
      using "1.hyps" [OF ne t(2) ms(1) mne ms(3,2) key] by blast
    have small: "\<not> 2 ^ 31 \<le> int n * 2" using False "1.prems"(5) by simp
    have eq: "bottom_up ?le n as = bottom_up ?le (2 * n) (merge_pass ?le n as)"
      using ne by (subst bottom_up.simps) simp
    have "iter_passes cmpe bl dbl (int n) ns p = Some (res, ns')"
      using t(1,6) False small r(1) by (subst iter_passes.simps) (simp add: mult.commute)
    moreover have "same_data ns ns'" using t(4) r(4) same_data_trans by blast
    moreover have "\<forall>a. a \<notin> set as \<longrightarrow> ns' a = ns a" using t(5) r(5) "1.prems"(4) by simp
    ultimately show ?thesis using r(2,3) unfolding eq by blast
  qed
qed

subsection \<open>Properties\<close>

text \<open>
  What a sort of the chain \<open>as\<close> hands back: a chain of the same nodes in \<open>bs\<close> order,
  linked both ways, with the data of every node and every node elsewhere as before.
\<close>

definition sorted_chain :: "node_heap \<Rightarrow> nat list \<Rightarrow> nat list \<Rightarrow> nat option \<times> node_heap \<Rightarrow> bool" where
  "sorted_chain ns as bs = (\<lambda>(res, ns').
     lseg ns' res bs None \<and> prevs ns' None bs \<and> same_data ns ns' \<and> (\<forall>a. a \<notin> set as \<longrightarrow> ns' a = ns a))"

lemma mergesort_agree:
  assumes "cmp_order cmpe" and "lseg ns p as None" and "distinct as"
    and "2 \<le> length as" and "length as < 2 ^ 31"
    and "\<And>a. a \<in> set as \<Longrightarrow> node_key bl ns a = Some (k a)"
  shows "\<exists>bs r i. mergesort_rec cmpe bl True ns p = Some r \<and> sorted_chain ns as bs r \<and>
    mergesort_iter cmpe bl True ns p = Some i \<and> sorted_chain ns as bs i \<and>
    mset bs = mset as \<and> sorted_cmp cmpe (map k bs) \<and>
    (\<forall>e. filter (\<lambda>a. cmpe (k a) e = 0) bs = filter (\<lambda>a. cmpe (k a) e = 0) as)"
proof -
  let ?le = "\<lambda>a b. cmpe (k a) (k b) \<le> 0"
  obtain res ns' where "mergesort_rec cmpe bl True ns p = Some (res, ns')" "lseg ns' res (msort ?le as) None"
      "prevs ns' None (msort ?le as)" "same_data ns ns'" "\<forall>a. a \<notin> set as \<longrightarrow> ns' a = ns a"
    using mergesort_rec_spec [OF assms(2,3,6), where dbl = True and cmpe = cmpe] assms(4) by blast
  moreover have "as \<noteq> []" using assms(4) by auto
  then obtain res2 ns2 where "mergesort_iter cmpe bl True ns p = Some (res2, ns2)"
      "lseg ns2 res2 (bottom_up ?le 1 as) None" "prevs ns2 None (bottom_up ?le 1 as)"
      "same_data ns ns2" "\<forall>a. a \<notin> set as \<longrightarrow> ns2 a = ns a"
    using iter_passes_spec [OF assms(2,3) _ zero_less_one assms(5,6), where dbl = True and cmpe = cmpe]
    by (auto simp: mergesort_iter_def)
  ultimately show ?thesis
    using cmp_order.bottom_up_msort [OF assms(1), of k as] cmp_order.sorted_msort [OF assms(1), of k as]
      cmp_order.filter_msort [OF assms(1), of k _ as]
    by (intro exI [of _ "msort ?le as"] exI [of _ "(res, ns')"] exI [of _ "(res2, ns2)"])
      (simp add: sorted_chain_def)
qed

text \<open>
  C11: on a list of at least two nodes both merge sorts return, with the nodes relinked into
  one doubly linked list: the same permutation for both, in the order of the comparison, equal
  elements in the order they had.
\<close>

theorem mergesort_correct:
  assumes "cmp_order cmpe" and "lseg ns p as None" and "distinct as"
    and "2 \<le> length as" and "length as < 2 ^ 31"
    and "\<And>a. a \<in> set as \<Longrightarrow> node_key bl ns a = Some (k a)"
  shows "\<exists>bs r i. mergesort_rec cmpe bl True ns p = Some r \<and> sorted_chain ns as bs r \<and>
    mergesort_iter cmpe bl True ns p = Some i \<and> sorted_chain ns as bs i \<and>
    mset bs = mset as \<and> sorted_cmp cmpe (map k bs) \<and>
    (\<forall>e. filter (\<lambda>a. cmpe (k a) e = 0) bs = filter (\<lambda>a. cmpe (k a) e = 0) as)"
  using assms by (rule mergesort_agree)

definition two_nodes :: node_heap where
  "two_nodes = [1 \<mapsto> \<lparr>nd_next = Some 2, nd_prev = None, nd_data = Some 10\<rparr>,
     2 \<mapsto> \<lparr>nd_next = None, nd_prev = Some 1, nd_data = Some 11\<rparr>]"

definition two_keys :: "nat \<Rightarrow> int" where
  "two_keys a = (if a = 1 then 5 else 3)"

theorem mergesort_correct_witness:
  "\<exists>bs r i. mergesort_rec (\<lambda>x y. x - y) [10 \<mapsto> 5, 11 \<mapsto> 3] True two_nodes (Some 1) = Some r \<and>
    sorted_chain two_nodes [1, 2] bs r \<and>
    mergesort_iter (\<lambda>x y. x - y) [10 \<mapsto> 5, 11 \<mapsto> 3] True two_nodes (Some 1) = Some i \<and>
    sorted_chain two_nodes [1, 2] bs i \<and> mset bs = mset [1, 2] \<and>
    sorted_cmp (\<lambda>x y. x - y) (map two_keys bs) \<and>
    (\<forall>e. filter (\<lambda>a. two_keys a - e = 0) bs = filter (\<lambda>a. two_keys a - e = 0) [1, 2])"
proof (rule mergesort_correct)
  show "cmp_order (\<lambda>x y. x - y :: int)" by unfold_locales auto
  show "lseg two_nodes (Some 1) [1, 2] None" by (simp add: two_nodes_def)
  fix a :: nat assume "a \<in> set [1, 2]"
  then show "node_key [10 \<mapsto> 5, 11 \<mapsto> 3] two_nodes a = Some (two_keys a)"
    by (auto simp: node_key_def node_elem_def elem_at_def two_nodes_def two_keys_def)
qed simp_all

end
