(* ===== verification/Llist.thy ===== *)
theory Llist
  imports Alloc Mergesort
begin

text \<open>
  The doubly linked list (src/ds/llist.c, src/ds/llist_node.c, include/rcsw/ds/llist.h) on the
  heap of nodes and datablocks. Operations take the handle and the heap and return both.
  Application-provided memory is a run of consecutive addresses with an allocation map;
  otherwise nodes and blocks come from \<open>malloc\<close>, whose answer on a heap is a parameter.
  An element \<open>e\<close> or \<open>data\<close> is the address of its block. Printing is not modelled.
\<close>

subsection \<open>State\<close>

record llist_space_mgmt =
  sp_datablocks :: nat
  sp_db_map :: allocm
  sp_nodes :: nat
  sp_node_map :: allocm

record 'a llist_params =
  lp_cmpe :: "('a \<Rightarrow> 'a \<Rightarrow> int) option"
  lp_meta :: "(allocm \<times> nat) option"
  lp_elements :: "(allocm \<times> nat) option"
  lp_elt_size :: nat
  lp_max_elts :: int
  lp_flags :: u32

record 'a llist =
  ll_cmpe :: "('a \<Rightarrow> 'a \<Rightarrow> int) option"
  ll_space :: llist_space_mgmt
  ll_current :: nat
  ll_max_elts :: int
  ll_elt_size :: nat
  ll_sorted :: bool
  ll_first :: "nat option"
  ll_last :: "nat option"
  ll_flags :: u32

text \<open>
  The answers of \<open>malloc\<close> for a node and for a block: an address and what the memory holds,
  or \<open>NULL\<close>.
\<close>

record 'a lenv =
  env_node :: "'a lheap \<Rightarrow> (nat \<times> llist_node) option"
  env_block :: "'a lheap \<Rightarrow> (nat \<times> 'a) option"

definition llist_isfull :: "'a llist \<Rightarrow> bool" where
  "llist_isfull l \<longleftrightarrow> ll_current l = size_of_int (ll_max_elts l)"

definition llist_isempty :: "'a llist \<Rightarrow> bool" where
  "llist_isempty l \<longleftrightarrow> ll_current l = 0"

definition llist_size :: "'a llist \<Rightarrow> nat" where
  "llist_size l = ll_current l"

definition owns_data :: "'a llist \<Rightarrow> bool" where
  "owns_data l \<longleftrightarrow> \<not> (has_flag (ll_flags l) RCSW_DS_LLIST_DB_DISOWN \<or> has_flag (ll_flags l) RCSW_DS_LLIST_DB_PTR)"

subsection \<open>Nodes\<close>

definition llist_node_alloc ::
  "'a lenv \<Rightarrow> 'a llist \<Rightarrow> 'a lheap \<Rightarrow> (nat option \<times> 'a llist \<times> 'a lheap) option" where
  "llist_node_alloc env l H =
     (let sp = ll_space l in
      if has_flag (ll_flags l) RCSW_NOALLOC_META then do {
        idx \<leftarrow> allocm_probe (sp_node_map sp) (size_of_int (ll_max_elts l)) (ll_current l);
        if idx = -1 then Some (None, l, H)
        else do {
          m \<leftarrow> allocm_mark_inuse (sp_node_map sp) idx;
          Some (Some (sp_nodes sp + nat idx), l\<lparr>ll_space := sp\<lparr>sp_node_map := m\<rparr>\<rparr>, H)
        }
      }
      else do {
        fresh \<leftarrow> rcsw_alloc id None (env_node env H) RCSW_NONE;
        Some (case fresh of
            None \<Rightarrow> (None, l, H)
          | Some (a, nd) \<Rightarrow> (Some a, l, H\<lparr>hp_nodes := (hp_nodes H)(a \<mapsto> nd)\<rparr>))
      })"

definition llist_node_dealloc :: "'a llist \<Rightarrow> nat \<Rightarrow> 'a lheap \<Rightarrow> ('a llist \<times> 'a lheap) option" where
  "llist_node_dealloc l a H =
     (let sp = ll_space l in
      if has_flag (ll_flags l) RCSW_NOALLOC_META then do {
        m \<leftarrow> allocm_mark_free (sp_node_map sp) (int a - int (sp_nodes sp));
        Some (l\<lparr>ll_space := sp\<lparr>sp_node_map := m\<rparr>\<rparr>, H)
      }
      else if rcsw_free (Some a) RCSW_NONE \<and> hp_nodes H a \<noteq> None
      then Some (l, H\<lparr>hp_nodes := (hp_nodes H)(a := None)\<rparr>)
      else None)"

definition llist_node_datablock_alloc ::
  "'a lenv \<Rightarrow> 'a llist \<Rightarrow> 'a lheap \<Rightarrow> (nat option \<times> 'a llist \<times> 'a lheap) option" where
  "llist_node_datablock_alloc env l H =
     (let sp = ll_space l in
      if has_flag (ll_flags l) RCSW_NOALLOC_DATA then do {
        idx \<leftarrow> allocm_probe (sp_db_map sp) (size_of_int (ll_max_elts l)) (ll_current l);
        if idx = -1 then Some (None, l, H)
        else do {
          m \<leftarrow> allocm_mark_inuse (sp_db_map sp) idx;
          Some (Some (sp_datablocks sp + nat idx), l\<lparr>ll_space := sp\<lparr>sp_db_map := m\<rparr>\<rparr>, H)
        }
      }
      else do {
        fresh \<leftarrow> rcsw_alloc id None (env_block env H) RCSW_NONE;
        Some (case fresh of
            None \<Rightarrow> (None, l, H)
          | Some (b, v) \<Rightarrow> (Some b, l, H\<lparr>hp_blocks := (hp_blocks H)(b \<mapsto> v)\<rparr>))
      })"

definition llist_node_datablock_dealloc ::
  "'a llist \<Rightarrow> nat option \<Rightarrow> 'a lheap \<Rightarrow> ('a llist \<times> 'a lheap) option" where
  "llist_node_datablock_dealloc l datablock H =
     (case datablock of
        None \<Rightarrow> Some (l, H)
      | Some b \<Rightarrow>
          if \<not> owns_data l then Some (l, H)
          else
            (let sp = ll_space l in
             if has_flag (ll_flags l) RCSW_NOALLOC_DATA then do {
               m \<leftarrow> allocm_mark_free (sp_db_map sp) (int b - int (sp_datablocks sp));
               Some (l\<lparr>ll_space := sp\<lparr>sp_db_map := m\<rparr>\<rparr>, H)
             }
             else if rcsw_free (Some b) RCSW_NONE \<and> hp_blocks H b \<noteq> None
             then Some (l, H\<lparr>hp_blocks := (hp_blocks H)(b := None)\<rparr>)
             else None))"

definition llist_node_destroy :: "'a llist \<Rightarrow> nat option \<Rightarrow> 'a lheap \<Rightarrow> ('a llist \<times> 'a lheap) option" where
  "llist_node_destroy l node H =
     (case node of
        None \<Rightarrow> Some (l, H)
      | Some a \<Rightarrow> do {
          nd \<leftarrow> hp_nodes H a;
          (l, H) \<leftarrow> llist_node_datablock_dealloc l (nd_data nd) H;
          llist_node_dealloc l a H
        })"

definition set_data :: "nat \<Rightarrow> nat option \<Rightarrow> 'a lheap \<Rightarrow> 'a lheap option" where
  "set_data a d H = (case hp_nodes H a of None \<Rightarrow> None
     | Some nd \<Rightarrow> Some (H\<lparr>hp_nodes := (hp_nodes H)(a \<mapsto> nd\<lparr>nd_data := d\<rparr>)\<rparr>))"

text \<open>\<open>ds_elt_copy(node->data, data_in, elt_size)\<close> between two blocks.\<close>

definition copy_block :: "nat \<Rightarrow> nat option \<Rightarrow> 'a lheap \<Rightarrow> 'a lheap option" where
  "copy_block b src H = do {
     v \<leftarrow> elem_at H src;
     _ \<leftarrow> hp_blocks H b;
     Some (H\<lparr>hp_blocks := (hp_blocks H)(b \<mapsto> v)\<rparr>)
   }"

definition llist_node_create ::
  "'a lenv \<Rightarrow> 'a llist \<Rightarrow> nat option \<Rightarrow> 'a lheap \<Rightarrow> (nat option \<times> 'a llist \<times> 'a lheap) option" where
  "llist_node_create env l data_in H = do {
     (node, l, H) \<leftarrow> llist_node_alloc env l H;
     case node of
       None \<Rightarrow> Some (None, l, H)
     | Some a \<Rightarrow>
         if \<not> owns_data l then do {
           H \<leftarrow> set_data a data_in H;
           Some (Some a, l, H)
         }
         else do {
           (d, l, H) \<leftarrow> llist_node_datablock_alloc env l H;
           H \<leftarrow> set_data a d H;
           case d of
             None \<Rightarrow> do {
               (l, H) \<leftarrow> llist_node_destroy l (Some a) H;
               Some (None, l, H)
             }
           | Some b \<Rightarrow> do {
               H \<leftarrow> copy_block b data_in H;
               Some (Some a, l, H)
             }
         }
   }"

subsection \<open>Life cycle\<close>

text \<open>
  The memory of the handle, given by the application or by \<open>malloc\<close>, holds something in its
  space field, which stays unless the flags ask for application memory. On an error the handle
  is freed.
\<close>

definition llist_init ::
  "llist_space_mgmt option \<Rightarrow> llist_space_mgmt option \<Rightarrow> 'a llist_params option \<Rightarrow> 'a llist option option" where
  "llist_init list_in handle params =
     (case params of
        None \<Rightarrow> Some None
      | Some p \<Rightarrow>
          if \<not> (lp_max_elts p \<noteq> 0 \<and> lp_elt_size p > 0) then Some None
          else do {
            mem \<leftarrow> rcsw_alloc id list_in handle (lp_flags p AND RCSW_NOALLOC_HANDLE);
            case mem of
              None \<Rightarrow> Some None
            | Some sp0 \<Rightarrow>
                let meta = has_flag (lp_flags p) RCSW_NOALLOC_META;
                    dat = has_flag (lp_flags p) RCSW_NOALLOC_DATA in
                if meta \<and> (lp_meta p = None \<or> lp_max_elts p = -1) then Some None
                else do {
                  sp \<leftarrow> (case (meta, lp_meta p) of
                     (True, Some (m, base)) \<Rightarrow> do {
                       m \<leftarrow> allocm_init m (size_of_int (lp_max_elts p));
                       Some (sp0\<lparr>sp_nodes := base, sp_node_map := m\<rparr>)
                     }
                   | _ \<Rightarrow> Some sp0);
                  if dat \<and> (lp_elements p = None \<or> lp_max_elts p = -1) then Some None
                  else do {
                    sp \<leftarrow> (case (dat, lp_elements p) of
                       (True, Some (m, base)) \<Rightarrow> do {
                         m \<leftarrow> allocm_init m (size_of_int (lp_max_elts p));
                         Some (sp\<lparr>sp_datablocks := base, sp_db_map := m\<rparr>)
                       }
                     | _ \<Rightarrow> Some sp);
                    Some (Some \<lparr>ll_cmpe = lp_cmpe p, ll_space = sp, ll_current = 0,
                      ll_max_elts = lp_max_elts p, ll_elt_size = lp_elt_size p, ll_sorted = False,
                      ll_first = None, ll_last = None, ll_flags = lp_flags p\<rparr>)
                  }
                }
          })"

record 'a sweep =
  sw_curr :: "nat option"
  sw_list :: "'a llist"
  sw_heap :: "'a lheap"

text \<open>
  Both sweeps destroy the node they leave; \<open>llist_destroy\<close> counts down, \<open>llist_clear\<close>
  does not. The flag of \<open>llist_destroy\<close>'s result says whether the handle goes to \<open>free\<close>.
\<close>

definition sweep_cond :: "'a sweep \<Rightarrow> bool option" where
  "sweep_cond s = Some (ll_current (sw_list s) > 0 \<and> sw_curr s \<noteq> None)"

definition sweep_step :: "nat \<Rightarrow> 'a sweep \<Rightarrow> 'a sweep option" where
  "sweep_step n s = do {
     nd \<leftarrow> deref (hp_nodes (sw_heap s)) (sw_curr s);
     (l, H) \<leftarrow> llist_node_destroy (sw_list s) (sw_curr s) (sw_heap s);
     Some \<lparr>sw_curr = nd_next nd, sw_list = l\<lparr>ll_current := ll_current l - n\<rparr>, sw_heap = H\<rparr>
   }"

definition llist_destroy :: "'a llist \<Rightarrow> 'a lheap \<Rightarrow> (bool \<times> 'a lheap) option" where
  "llist_destroy l H = do {
     s \<leftarrow> while_loop sweep_cond (sweep_step 1) \<lparr>sw_curr = ll_first l, sw_list = l, sw_heap = H\<rparr>;
     Some (rcsw_free (Some ()) (ll_flags l AND RCSW_NOALLOC_HANDLE), sw_heap s)
   }"

definition llist_clear :: "'a llist \<Rightarrow> 'a lheap \<Rightarrow> (status \<times> 'a llist \<times> 'a lheap) option" where
  "llist_clear l H = do {
     s \<leftarrow> while_loop sweep_cond (sweep_step 0) \<lparr>sw_curr = ll_first l, sw_list = l, sw_heap = H\<rparr>;
     Some (OK, (sw_list s)\<lparr>ll_current := 0, ll_first := None, ll_last := None\<rparr>, sw_heap s)
   }"

subsection \<open>Searching and sorting\<close>

text \<open>Whether a node matches: by address when the list stores pointers, else by the callback.\<close>

definition node_match :: "'a llist \<Rightarrow> 'a lheap \<Rightarrow> nat \<Rightarrow> nat \<Rightarrow> bool option" where
  "node_match l H e a = do {
     nd \<leftarrow> hp_nodes H a;
     if has_flag (ll_flags l) RCSW_DS_LLIST_DB_PTR then Some (nd_data nd = Some e)
     else do {
       cmpe \<leftarrow> ll_cmpe l;
       x \<leftarrow> elem_at H (nd_data nd);
       y \<leftarrow> elem_at H (Some e);
       Some (cmpe x y = 0)
     }
   }"

definition query_cond :: "'a llist \<Rightarrow> 'a lheap \<Rightarrow> nat \<Rightarrow> nat option \<Rightarrow> bool option" where
  "query_cond l H e pos =
     (case pos of None \<Rightarrow> Some False | Some a \<Rightarrow> map_option Not (node_match l H e a))"

definition next_node :: "'a lheap \<Rightarrow> nat option \<Rightarrow> nat option option" where
  "next_node H pos = map_option nd_next (deref (hp_nodes H) pos)"

text \<open>Both queries return a pointer, \<open>None\<close> inside \<open>Some\<close> when there is no match.\<close>

definition llist_node_query :: "'a llist \<Rightarrow> nat option \<Rightarrow> 'a lheap \<Rightarrow> nat option option" where
  "llist_node_query l e H =
     (case e of
        None \<Rightarrow> Some None
      | Some d \<Rightarrow>
          if ll_cmpe l = None \<and> \<not> has_flag (ll_flags l) RCSW_DS_LLIST_DB_PTR then Some None
          else while_loop (query_cond l H d) (next_node H) (ll_first l))"

definition llist_data_query :: "'a llist \<Rightarrow> nat option \<Rightarrow> 'a lheap \<Rightarrow> nat option option" where
  "llist_data_query l e H =
     (if e = None then Some None
      else if ll_cmpe l = None \<and> \<not> has_flag (ll_flags l) RCSW_DS_LLIST_DB_PTR then Some None
      else do {
        node \<leftarrow> llist_node_query l e H;
        case node of None \<Rightarrow> Some None
        | Some a \<Rightarrow> map_option nd_data (hp_nodes H a)
      })"

text \<open>The walk to the last node; it counts the nodes.\<close>

definition last_cond :: "node_heap \<Rightarrow> nat option \<times> nat \<Rightarrow> bool option" where
  "last_cond ns = (\<lambda>(tmp, cnt). map_option (\<lambda>nd. nd_next nd \<noteq> None) (deref ns tmp))"

definition last_step :: "node_heap \<Rightarrow> nat option \<times> nat \<Rightarrow> (nat option \<times> nat) option" where
  "last_step ns = (\<lambda>(tmp, cnt). map_option (\<lambda>nd. (nd_next nd, Suc cnt)) (deref ns tmp))"

definition llist_sort :: "'a llist \<Rightarrow> exec_type \<Rightarrow> 'a lheap \<Rightarrow> (status \<times> 'a llist \<times> 'a lheap) option" where
  "llist_sort l type H =
     (case ll_cmpe l of
        None \<Rightarrow> Some (fpc_error, l, H)
      | Some cmpe \<Rightarrow>
          if ll_current l \<le> 1 \<or> ll_sorted l then Some (OK, l, H)
          else do {
            (new_first, ns) \<leftarrow>
              (case type of
                 EXEC_REC \<Rightarrow> mergesort_rec cmpe (hp_blocks H) True (hp_nodes H) (ll_first l)
               | EXEC_ITER \<Rightarrow> mergesort_iter cmpe (hp_blocks H) True (hp_nodes H) (ll_first l));
            (tmp, cnt) \<leftarrow> while_loop (last_cond ns) (last_step ns) (new_first, 1);
            Some (if cnt \<noteq> ll_current l then ERROR (Some EAGAIN) else OK,
              l\<lparr>ll_first := new_first, ll_sorted := True, ll_last := tmp\<rparr>,
              H\<lparr>hp_nodes := ns\<rparr>)
          })"

subsection \<open>Insertion and removal\<close>

definition lift_nodes :: "(node_heap \<Rightarrow> node_heap option) \<Rightarrow> 'a lheap \<Rightarrow> 'a lheap option" where
  "lift_nodes f H = map_option (\<lambda>ns. H\<lparr>hp_nodes := ns\<rparr>) (f (hp_nodes H))"

text \<open>Linking the new node behind the last or before the first one.\<close>

definition link_last :: "'a llist \<Rightarrow> nat \<Rightarrow> node_heap \<Rightarrow> ('a llist \<times> node_heap) option" where
  "link_last l a ns =
     (if ll_last l = None then do {
        ns \<leftarrow> set_next (Some a) None ns;
        ns \<leftarrow> set_prev (Some a) None ns;
        Some (l\<lparr>ll_last := Some a, ll_first := Some a\<rparr>, ns)
      }
      else do {
        ns \<leftarrow> set_next (Some a) None ns;
        ns \<leftarrow> set_next (ll_last l) (Some a) ns;
        ns \<leftarrow> set_prev (Some a) (ll_last l) ns;
        Some (l\<lparr>ll_last := Some a\<rparr>, ns)
      })"

definition link_first :: "'a llist \<Rightarrow> nat \<Rightarrow> node_heap \<Rightarrow> ('a llist \<times> node_heap) option" where
  "link_first l a ns =
     (if ll_first l = None then do {
        ns \<leftarrow> set_prev (Some a) None ns;
        ns \<leftarrow> set_next (Some a) None ns;
        Some (l\<lparr>ll_first := Some a, ll_last := Some a\<rparr>, ns)
      }
      else do {
        ns \<leftarrow> set_prev (Some a) None ns;
        ns \<leftarrow> set_next (Some a) (ll_first l) ns;
        ns \<leftarrow> set_prev (ll_first l) (Some a) ns;
        Some (l\<lparr>ll_first := Some a\<rparr>, ns)
      })"

text \<open>What both insertions share: the checks, the node, the counter and the sort.\<close>

definition llist_insert ::
  "('a llist \<Rightarrow> nat \<Rightarrow> node_heap \<Rightarrow> ('a llist \<times> node_heap) option) \<Rightarrow>
   'a lenv \<Rightarrow> 'a llist \<Rightarrow> nat option \<Rightarrow> 'a lheap \<Rightarrow> (status \<times> 'a llist \<times> 'a lheap) option" where
  "llist_insert link env l data H =
     (if data = None then Some (fpc_error, l, H)
      else if llist_isfull l \<and> ll_max_elts l \<noteq> -1 then Some (ERROR (Some ENOSPC), l, H)
      else do {
        (node, l, H) \<leftarrow> llist_node_create env l data H;
        case node of
          None \<Rightarrow> Some (ERROR (Some ENOMEM), l, H)
        | Some a \<Rightarrow> do {
            (l, ns) \<leftarrow> link l a (hp_nodes H);
            let l = l\<lparr>ll_current := ll_current l + 1\<rparr>;
            let H = H\<lparr>hp_nodes := ns\<rparr>;
            if has_flag (ll_flags l) RCSW_DS_SORTED then do {
              (_, l, H) \<leftarrow> llist_sort (l\<lparr>ll_sorted := False\<rparr>) EXEC_REC H;
              Some (OK, l, H)
            }
            else Some (OK, l, H)
          }
      })"

definition llist_append ::
  "'a lenv \<Rightarrow> 'a llist \<Rightarrow> nat option \<Rightarrow> 'a lheap \<Rightarrow> (status \<times> 'a llist \<times> 'a lheap) option" where
  "llist_append = llist_insert link_last"

definition llist_prepend ::
  "'a lenv \<Rightarrow> 'a llist \<Rightarrow> nat option \<Rightarrow> 'a lheap \<Rightarrow> (status \<times> 'a llist \<times> 'a lheap) option" where
  "llist_prepend = llist_insert link_first"

definition llist_unlink :: "'a llist \<Rightarrow> nat \<Rightarrow> node_heap \<Rightarrow> ('a llist \<times> node_heap) option" where
  "llist_unlink l victim ns =
     (if ll_first l = Some victim \<and> ll_last l = Some victim
      then Some (l\<lparr>ll_first := None, ll_last := None\<rparr>, ns)
      else if ll_first l = Some victim then do {
        v \<leftarrow> ns victim;
        ns \<leftarrow> set_prev (nd_next v) None ns;
        Some (l\<lparr>ll_first := nd_next v\<rparr>, ns)
      }
      else if ll_last l = Some victim then do {
        v \<leftarrow> deref ns (ll_last l);
        ns \<leftarrow> set_next (nd_prev v) None ns;
        Some (l\<lparr>ll_last := nd_prev v\<rparr>, ns)
      }
      else do {
        v \<leftarrow> ns victim;
        ns \<leftarrow> set_prev (nd_next v) (nd_prev v) ns;
        v \<leftarrow> ns victim;
        ns \<leftarrow> set_next (nd_prev v) (nd_next v) ns;
        Some (l, ns)
      })"

text \<open>
  \<open>e\<close> asks for a copy of the element, which is then the second component of the result; the
  counter is a \<open>size_t\<close> and wraps below 0.
\<close>

definition dec_size :: "nat \<Rightarrow> nat" where
  "dec_size n = (if n = 0 then 2 ^ 64 - 1 else n - 1)"

definition llist_delete ::
  "'a llist \<Rightarrow> nat \<Rightarrow> bool \<Rightarrow> 'a lheap \<Rightarrow> (status \<times> 'a option \<times> 'a llist \<times> 'a lheap) option" where
  "llist_delete l victim e H = do {
     (l, ns) \<leftarrow> llist_unlink l victim (hp_nodes H);
     let l = l\<lparr>ll_current := dec_size (ll_current l)\<rparr>;
     let H = H\<lparr>hp_nodes := ns\<rparr>;
     v \<leftarrow> hp_nodes H victim;
     out \<leftarrow> (if e \<and> nd_data v \<noteq> None then map_option Some (elem_at H (nd_data v)) else Some None);
     (l, H) \<leftarrow> llist_node_destroy l (Some victim) H;
     Some (OK, out, l, H)
   }"

definition llist_remove :: "'a llist \<Rightarrow> nat option \<Rightarrow> 'a lheap \<Rightarrow> (status \<times> 'a llist \<times> 'a lheap) option" where
  "llist_remove l e H =
     (if e = None then Some (fpc_error, l, H)
      else if llist_isempty l then Some (ERROR (Some EINVAL), l, H)
      else do {
        node \<leftarrow> llist_node_query l e H;
        case node of
          None \<Rightarrow> Some (OK, l, H)
        | Some a \<Rightarrow> do {
            (st, _, l, H) \<leftarrow> llist_delete l a False H;
            Some (st, l, H)
          }
      })"

subsection \<open>Whole lists\<close>

text \<open>
  Iterating over a list while the body changes lists and heap: the next pointer is read after
  the body. \<open>stop\<close> tells whether the body left the loop.
\<close>

definition foreach ::
  "('s \<Rightarrow> bool) \<Rightarrow> ('s \<Rightarrow> 'a lheap) \<Rightarrow> (nat \<Rightarrow> 's \<Rightarrow> 's option) \<Rightarrow> nat option \<Rightarrow> 's \<Rightarrow> 's option" where
  "foreach stop heap body start s =
     map_option snd
       (while_loop (\<lambda>(pos, s). Some (pos \<noteq> None \<and> \<not> stop s))
         (\<lambda>(pos, s). do {
            a \<leftarrow> pos;
            t \<leftarrow> body a s;
            nx \<leftarrow> (if stop t then Some pos else next_node (heap t) pos);
            Some (nx, t)
          })
         (start, s))"

text \<open>The parameters for the new list of \<open>llist_copy\<close>, \<open>llist_copy2\<close> and \<open>llist_filter\<close>.\<close>

definition like_params ::
  "'a llist \<Rightarrow> u32 \<Rightarrow> (allocm \<times> nat) option \<Rightarrow> (allocm \<times> nat) option \<Rightarrow> 'a llist_params" where
  "like_params l flags elements meta =
     \<lparr>lp_cmpe = ll_cmpe l, lp_meta = meta, lp_elements = elements, lp_elt_size = ll_elt_size l,
      lp_max_elts = ll_max_elts l, lp_flags = flags\<rparr>"

definition append_node ::
  "'a lenv \<Rightarrow> nat \<Rightarrow> 'a llist \<times> 'a lheap \<Rightarrow> ('a llist \<times> 'a lheap) option" where
  "append_node env a = (\<lambda>(l, H). do {
     nd \<leftarrow> hp_nodes H a;
     (_, l, H) \<leftarrow> llist_append env l (nd_data nd) H;
     Some (l, H)
   })"

text \<open>\<open>handle\<close> is the memory \<open>malloc\<close> returns for the new handle.\<close>

definition llist_copy ::
  "'a lenv \<Rightarrow> llist_space_mgmt option \<Rightarrow> 'a llist \<Rightarrow> u32 \<Rightarrow> (allocm \<times> nat) option \<Rightarrow> (allocm \<times> nat) option \<Rightarrow>
   'a lheap \<Rightarrow> ('a llist option \<times> 'a lheap) option" where
  "llist_copy env handle l flags elements nodes H =
     (if has_flag flags RCSW_NOALLOC_HANDLE then Some (None, H)
      else do {
        clist \<leftarrow> llist_init None handle (Some (like_params l flags elements nodes));
        case clist of
          None \<Rightarrow> Some (None, H)
        | Some c \<Rightarrow> do {
            (c, H) \<leftarrow> foreach (\<lambda>_. False) snd (append_node env) (ll_first l) (c, H);
            Some (Some c, H)
          }
      })"

definition append_matching ::
  "'a lenv \<Rightarrow> ('a \<Rightarrow> bool) \<Rightarrow> nat \<Rightarrow> 'a llist \<times> 'a lheap \<Rightarrow> ('a llist \<times> 'a lheap) option" where
  "append_matching env pred a = (\<lambda>(l, H). do {
     v \<leftarrow> node_elem H a;
     if \<not> pred v then Some (l, H) else append_node env a (l, H)
   })"

definition llist_copy2 ::
  "'a lenv \<Rightarrow> llist_space_mgmt option \<Rightarrow> 'a llist \<Rightarrow> ('a \<Rightarrow> bool) option \<Rightarrow> u32 \<Rightarrow> (allocm \<times> nat) option \<Rightarrow>
   (allocm \<times> nat) option \<Rightarrow> 'a lheap \<Rightarrow> ('a llist option \<times> 'a lheap) option" where
  "llist_copy2 env handle l pred flags elements nodes H =
     (case pred of
        None \<Rightarrow> Some (None, H)
      | Some p \<Rightarrow>
          if has_flag flags RCSW_NOALLOC_HANDLE then Some (None, H)
          else do {
            clist \<leftarrow> llist_init None handle (Some (like_params l flags elements nodes));
            case clist of
              None \<Rightarrow> Some (None, H)
            | Some c \<Rightarrow> do {
                (c, H) \<leftarrow> foreach (\<lambda>_. False) snd (append_matching env p) (ll_first l) (c, H);
                Some (Some c, H)
              }
          })"

text \<open>
  Filtering removes a matching node after the loop has moved past it, by the value of its
  element. The code passes the application memory for nodes and elements the wrong way round.
\<close>

record 'a filter_state =
  fs_match :: "nat option"
  fs_flist :: "'a llist"
  fs_list :: "'a llist"
  fs_heap :: "'a lheap"
  fs_fail :: bool

definition filter_flush ::
  "('a llist \<Rightarrow> nat option \<Rightarrow> 'a lheap \<Rightarrow> ('a llist \<times> 'a lheap) option) \<Rightarrow> 'a filter_state \<Rightarrow>
   'a filter_state option" where
  "filter_flush keep s =
     (case fs_match s of
        None \<Rightarrow> Some s
      | Some a \<Rightarrow> do {
          nd \<leftarrow> hp_nodes (fs_heap s) a;
          (f, H) \<leftarrow> keep (fs_flist s) (nd_data nd) (fs_heap s);
          nd \<leftarrow> hp_nodes H a;
          (st, l, H) \<leftarrow> llist_remove (fs_list s) (nd_data nd) H;
          Some (if st = OK then s\<lparr>fs_match := None, fs_flist := f, fs_list := l, fs_heap := H\<rparr>
            else s\<lparr>fs_flist := f, fs_list := l, fs_heap := H, fs_fail := True\<rparr>)
        })"

definition filter_node ::
  "('a llist \<Rightarrow> nat option \<Rightarrow> 'a lheap \<Rightarrow> ('a llist \<times> 'a lheap) option) \<Rightarrow> ('a \<Rightarrow> bool) \<Rightarrow>
   nat \<Rightarrow> 'a filter_state \<Rightarrow> 'a filter_state option" where
  "filter_node keep pred a s = do {
     s \<leftarrow> filter_flush keep s;
     if fs_fail s then Some s
     else do {
       v \<leftarrow> node_elem (fs_heap s) a;
       Some (if pred v then s\<lparr>fs_match := Some a\<rparr> else s)
     }
   }"

definition filter_all ::
  "('a llist \<Rightarrow> nat option \<Rightarrow> 'a lheap \<Rightarrow> ('a llist \<times> 'a lheap) option) \<Rightarrow> ('a \<Rightarrow> bool) \<Rightarrow>
   'a llist \<Rightarrow> 'a llist \<Rightarrow> 'a lheap \<Rightarrow> 'a filter_state option" where
  "filter_all keep pred f l H = do {
     s \<leftarrow> foreach fs_fail fs_heap (filter_node keep pred) (ll_first l)
       \<lparr>fs_match = None, fs_flist = f, fs_list = l, fs_heap = H, fs_fail = False\<rparr>;
     if fs_fail s then Some s else filter_flush keep s
   }"

definition llist_filter ::
  "'a lenv \<Rightarrow> llist_space_mgmt option \<Rightarrow> 'a llist \<Rightarrow> ('a \<Rightarrow> bool) option \<Rightarrow> u32 \<Rightarrow> (allocm \<times> nat) option \<Rightarrow>
   (allocm \<times> nat) option \<Rightarrow> 'a lheap \<Rightarrow> ('a llist option \<times> 'a llist \<times> 'a lheap) option" where
  "llist_filter env handle l pred flags elements nodes H =
     (case pred of
        None \<Rightarrow> Some (None, l, H)
      | Some p \<Rightarrow>
          if has_flag flags RCSW_NOALLOC_HANDLE then Some (None, l, H)
          else do {
            flist \<leftarrow> llist_init None handle (Some (like_params l flags nodes elements));
            case flist of
              None \<Rightarrow> Some (None, l, H)
            | Some f \<Rightarrow> do {
                s \<leftarrow> filter_all
                  (\<lambda>f d H. map_option snd (llist_append env f d H)) p f l H;
                Some (Some (fs_flist s), fs_list s, fs_heap s)
              }
          })"

definition llist_filter2 ::
  "'a llist \<Rightarrow> ('a \<Rightarrow> bool) option \<Rightarrow> 'a lheap \<Rightarrow> (status \<times> 'a llist \<times> 'a lheap) option" where
  "llist_filter2 l pred H =
     (case pred of
        None \<Rightarrow> Some (fpc_error, l, H)
      | Some p \<Rightarrow> do {
          s \<leftarrow> filter_all (\<lambda>f d H. Some (f, H)) p l l H;
          Some (if fs_fail s then ERROR None else OK, fs_list s, fs_heap s)
        })"

text \<open>Relinking for \<open>llist_splice\<close>, at the node \<open>a\<close> of the first list.\<close>

definition splice_at :: "'a llist \<Rightarrow> 'a llist \<Rightarrow> nat \<Rightarrow> node_heap \<Rightarrow> ('a llist \<times> node_heap) option" where
  "splice_at l1 l2 a ns =
     (if ll_first l1 = Some a then do {
        ns \<leftarrow> set_prev (ll_first l1) (ll_last l2) ns;
        ns \<leftarrow> set_next (ll_last l2) (ll_first l1) ns;
        Some (l1\<lparr>ll_first := ll_first l2, ll_current := ll_current l1 + ll_current l2\<rparr>, ns)
      }
      else if ll_last l1 = Some a then do {
        ns \<leftarrow> set_next (ll_last l1) (ll_first l2) ns;
        ns \<leftarrow> set_prev (ll_first l2) (ll_last l1) ns;
        Some (l1\<lparr>ll_last := ll_last l2, ll_current := ll_current l1 + ll_current l2\<rparr>, ns)
      }
      else do {
        nd \<leftarrow> ns a;
        ns \<leftarrow> set_next (nd_prev nd) (ll_first l2) ns;
        ns \<leftarrow> set_prev (ll_first l2) (nd_prev nd) ns;
        ns \<leftarrow> set_next (ll_last l2) (Some a) ns;
        ns \<leftarrow> set_prev (Some a) (ll_last l2) ns;
        Some (l1\<lparr>ll_current := ll_current l1 + ll_current l2\<rparr>, ns)
      })"

text \<open>
  \<open>count\<close> starts at the size of the first list and is decremented for every node before the
  position; the last component tells whether the handle of the second list goes to \<open>free\<close>.
\<close>

definition llist_splice ::
  "'a llist \<Rightarrow> 'a llist \<Rightarrow> nat option \<Rightarrow> 'a lheap \<Rightarrow> (status \<times> 'a llist \<times> 'a lheap \<times> bool) option" where
  "llist_splice l1 l2 node H =
     (case node of
        None \<Rightarrow> Some (fpc_error, l1, H, False)
      | Some n \<Rightarrow>
          if ll_current l1 + ll_current l2 > size_of_int (ll_max_elts l1) \<and> ll_max_elts l1 \<noteq> -1
          then Some (ERROR (Some ENOSPC), l1, H, False)
          else if ll_current l1 = 0 \<or> ll_current l2 = 0
          then Some (ERROR (Some EINVAL), l1, H, False)
          else do {
            (pos, cnt) \<leftarrow> while_loop (\<lambda>(pos, cnt). Some (pos \<noteq> None \<and> pos \<noteq> Some n))
              (\<lambda>(pos, cnt). map_option (\<lambda>nx. (nx, dec_size cnt)) (next_node H pos))
              (ll_first l1, ll_current l1);
            (l1, H, freed) \<leftarrow>
              (case pos of
                 None \<Rightarrow> Some (l1, H, False)
               | Some a \<Rightarrow> do {
                   (l1, ns) \<leftarrow> splice_at l1 l2 a (hp_nodes H);
                   Some (l1, H\<lparr>hp_nodes := ns\<rparr>, rcsw_free (Some ()) (ll_flags l2 AND RCSW_NOALLOC_HANDLE))
                 });
            Some (if cnt = 0 then ERROR (Some EAGAIN) else OK, l1, H, freed)
          })"

definition map_node :: "('a \<Rightarrow> 'a) \<Rightarrow> nat \<Rightarrow> 'a lheap \<Rightarrow> 'a lheap option" where
  "map_node f a H = do {
     nd \<leftarrow> hp_nodes H a;
     d \<leftarrow> nd_data nd;
     v \<leftarrow> hp_blocks H d;
     Some (H\<lparr>hp_blocks := (hp_blocks H)(d \<mapsto> f v)\<rparr>)
   }"

definition llist_map :: "'a llist \<Rightarrow> ('a \<Rightarrow> 'a) option \<Rightarrow> 'a lheap \<Rightarrow> (status \<times> 'a lheap) option" where
  "llist_map l f H =
     (case f of
        None \<Rightarrow> Some (fpc_error, H)
      | Some g \<Rightarrow> map_option (Pair OK) (foreach (\<lambda>_. False) id (map_node g) (ll_first l) H))"

definition inject_node :: "('a \<Rightarrow> 'r \<Rightarrow> 'a \<times> 'r) \<Rightarrow> nat \<Rightarrow> 'a lheap \<times> 'r \<Rightarrow> ('a lheap \<times> 'r) option" where
  "inject_node f a = (\<lambda>(H, r). do {
     nd \<leftarrow> hp_nodes H a;
     d \<leftarrow> nd_data nd;
     v \<leftarrow> hp_blocks H d;
     Some (case f v r of (v', r') \<Rightarrow> (H\<lparr>hp_blocks := (hp_blocks H)(d \<mapsto> v')\<rparr>, r'))
   })"

definition llist_inject ::
  "'a llist \<Rightarrow> ('a \<Rightarrow> 'r \<Rightarrow> 'a \<times> 'r) option \<Rightarrow> 'r option \<Rightarrow> 'a lheap \<Rightarrow>
   (status \<times> 'a lheap \<times> 'r option) option" where
  "llist_inject l f result H =
     (case (f, result) of
        (Some g, Some r) \<Rightarrow>
          map_option (\<lambda>(H, r). (OK, H, Some r))
            (foreach (\<lambda>_. False) fst (inject_node g) (ll_first l) (H, r))
      | _ \<Rightarrow> Some (fpc_error, H, result))"

end
