(* ===== verification/Pool.thy ===== *)
theory Pool
  imports Alloc
begin

text \<open>
  Application-provided memory as a run of blocks with an allocation map: the facts about
  probing, marking and freeing (src/ds/allocm.c) that the linked list and the trees share.
\<close>

subsection \<open>Memory pools\<close>

text \<open>
  The allocation map of the blocks \<open>base\<close> to \<open>base + n - 1\<close>, of which \<open>used\<close> are taken; the
  index of each of them is an \<open>int\<close>, the type a probe returns.
\<close>

definition pool_ok :: "allocm \<Rightarrow> nat \<Rightarrow> nat \<Rightarrow> nat set \<Rightarrow> bool" where
  "pool_ok m base n used \<longleftrightarrow> length m = n \<and> n < 2 ^ 31 \<and>
     used = (\<lambda>i. base + i) ` ({..<n} - allocm_free m)"

definition region :: "nat \<Rightarrow> nat \<Rightarrow> nat set" where
  "region base n = {base..<base + n}"

lemma pool_region: "pool_ok m base n used \<Longrightarrow> used \<subseteq> region base n"
  by (auto simp: pool_ok_def region_def)

lemma pool_take_free:
  assumes "pool_ok m base n used" and "allocm_free m \<noteq> {}" and "i0 < n"
  shows "\<exists>i m'. allocm_probe m n i0 = Some (int i) \<and> i < n \<and> base + i \<notin> used \<and>
    allocm_mark_inuse m (int i) = Some m' \<and> pool_ok m' base n (insert (base + i) used)"
proof -
  have len: "length m = n" "n < 2 ^ 31" and u: "used = (\<lambda>i. base + i) ` ({..<n} - allocm_free m)"
    using assms(1) by (auto simp: pool_ok_def)
  obtain i where i: "allocm_probe m n i0 = Some (int i)" "i \<in> allocm_free m"
    using allocm_probe_cases [OF len(1) assms(3) len(2)] assms(2) by auto
  then have "i < n" "base + i \<notin> used" using len u by (auto simp: allocm_free_def)
  moreover obtain m' where m': "allocm_mark_inuse m (int i) = Some m'" "length m' = length m"
      "allocm_free m' = allocm_free m - {i}"
    using allocm_mark_inuse_free [OF i(2)] by blast
  have "{..<n} - allocm_free m' = insert i ({..<n} - allocm_free m)"
    using m'(3) \<open>i < n\<close> by auto
  then have "pool_ok m' base n (insert (base + i) used)"
    using len m'(2) u by (simp add: pool_ok_def)
  ultimately show ?thesis using i(1) m'(1) by blast
qed

lemma pool_take:
  assumes "pool_ok m base n used" and "card used < n" and "i0 < n"
  shows "\<exists>i m'. allocm_probe m n i0 = Some (int i) \<and> i < n \<and> base + i \<notin> used \<and>
    allocm_mark_inuse m (int i) = Some m' \<and> pool_ok m' base n (insert (base + i) used)"
proof -
  have "allocm_free m \<noteq> {}"
  proof
    assume "allocm_free m = {}"
    then have "used = (\<lambda>i. base + i) ` {..<n}" using assms(1) by (simp add: pool_ok_def)
    then have "card used = n" by (simp add: card_image)
    then show False using assms(2) by simp
  qed
  then show ?thesis using pool_take_free assms(1,3) by blast
qed

lemma pool_give:
  assumes "pool_ok m base n used" and "a \<in> used"
  shows "\<exists>m'. allocm_mark_free m (int a - int base) = Some m' \<and> pool_ok m' base n (used - {a})"
proof -
  obtain i where i: "a = base + i" "i < n" "i \<notin> allocm_free m" "length m = n \<and> n < 2 ^ 31"
      "used = (\<lambda>i. base + i) ` ({..<n} - allocm_free m)"
    using assms by (auto simp: pool_ok_def)
  then obtain m' where "allocm_mark_free m (int i) = Some m'" "length m' = length m"
      "allocm_free m' = insert i (allocm_free m)"
    using allocm_mark_free_free [of i m] by auto
  moreover have "{..<n} - allocm_free m' = {..<n} - allocm_free m - {i}" using calculation(3) by auto
  moreover have "(\<lambda>i. base + i) ` ({..<n} - allocm_free m - {i}) = used - {a}"
    unfolding i(1,5) by (subst image_set_diff) (auto simp: inj_on_def)
  ultimately show ?thesis using i(1,4) by (intro exI [of _ m']) (simp add: pool_ok_def)
qed

end
