(* ===== verification/Llist_Correct.thy ===== *)
theory Llist_Correct
  imports Llist Pool
begin

text \<open>
  Correctness of the linked list: the invariant of a list that owns its elements, in memory of
  its own or of the application, and what insertion and removal do to the sequence it stands
  for.
\<close>

subsection \<open>Links\<close>

definition list_rep :: "nat option \<Rightarrow> nat option \<Rightarrow> node_heap \<Rightarrow> nat list \<Rightarrow> bool" where
  "list_rep f e ns as \<longleftrightarrow> lseg ns f as None \<and> prevs ns None as \<and> distinct as \<and> e = last_of None as"

text \<open>Relinking changes only nodes of the list and no data.\<close>

definition relinked :: "nat set \<Rightarrow> node_heap \<Rightarrow> node_heap \<Rightarrow> bool" where
  "relinked A ns ns' \<longleftrightarrow> same_data ns ns' \<and> (\<forall>a. a \<notin> A \<longrightarrow> ns' a = ns a)"

lemma relinked_dom: "relinked A ns ns' \<Longrightarrow> dom ns' = dom ns"
  unfolding relinked_def same_data_def dom_def by (metis option.map_disc_iff)

lemma list_rep_Nil [simp]: "list_rep f e ns [] \<longleftrightarrow> f = None \<and> e = None"
  by (auto simp: list_rep_def)

lemma list_rep_last_None: "list_rep f e ns as \<Longrightarrow> e = None \<longleftrightarrow> as = []"
  by (simp add: list_rep_def last_of_def)

lemma list_rep_first_None: "list_rep f e ns as \<Longrightarrow> f = None \<longleftrightarrow> as = []"
  by (cases as) (auto simp: list_rep_def)

lemma link_last_ok:
  assumes rep: "list_rep (ll_first l) (ll_last l) ns as" and "a \<notin> set as" and nd: "ns a = Some nd"
  shows "\<exists>f ns'. link_last l a ns = Some (l\<lparr>ll_first := f, ll_last := Some a\<rparr>, ns') \<and>
    list_rep f (Some a) ns' (as @ [a]) \<and> relinked (set (as @ [a])) ns ns'"
proof (cases as rule: rev_cases)
  case Nil
  let ?ns = "ns(a \<mapsto> nd\<lparr>nd_next := None, nd_prev := None\<rparr>)"
  have "link_last l a ns = Some (l\<lparr>ll_first := Some a, ll_last := Some a\<rparr>, ?ns)"
    using rep Nil nd by (simp add: link_last_def)
  moreover have "relinked (set (as @ [a])) ns ?ns" using nd by (auto simp: relinked_def same_data_def)
  ultimately show ?thesis using Nil by (intro exI [of _ "Some a"] exI [of _ ?ns]) (simp add: list_rep_def)
next
  case (snoc bs z)
  have l: "ll_last l = Some z" and seg: "lseg ns (ll_first l) (bs @ [z]) None" and pv: "prevs ns None (bs @ [z])"
    and d: "distinct (bs @ [z])" using rep snoc by (simp_all add: list_rep_def)
  obtain zd where zd: "ns z = Some zd" "lseg ns (ll_first l) bs (Some z)"
    using seg by (auto simp: lseg_append split: option.splits)
  have ne: "a \<noteq> z" "a \<notin> set bs" "z \<notin> set bs" using assms(2) snoc d by auto
  let ?ns = "ns(a \<mapsto> nd\<lparr>nd_next := None, nd_prev := Some z\<rparr>, z \<mapsto> zd\<lparr>nd_next := Some a\<rparr>)"
  have "link_last l a ns = Some (l\<lparr>ll_last := Some a\<rparr>, ?ns)"
    using l nd zd ne by (simp add: link_last_def fun_upd_twist)
  moreover have "lseg ?ns (ll_first l) bs (Some z)"
    using zd(2) ne by (rule_tac lseg_frame [where S = "{a, z}"]) auto
  then have "lseg ?ns (ll_first l) (as @ [a]) None" using ne snoc by (auto simp: lseg_append)
  moreover have "same_prev (set (bs @ [z])) ns ?ns" using ne zd by (auto simp: same_prev_def)
  then have "prevs ?ns None (bs @ [z])" using pv prevs_cong by blast
  then have "prevs ?ns None (as @ [a])" using ne snoc by (auto simp: prevs_append)
  moreover have "relinked (set (as @ [a])) ns ?ns"
    using nd zd snoc ne by (auto simp: relinked_def same_data_def)
  moreover have "distinct (as @ [a])" using d snoc ne by auto
  ultimately show ?thesis
    by (intro exI [of _ "ll_first l"] exI [of _ ?ns]) (simp add: list_rep_def)
qed

lemma link_first_ok:
  assumes rep: "list_rep (ll_first l) (ll_last l) ns as" and "a \<notin> set as" and nd: "ns a = Some nd"
  shows "\<exists>e ns'. link_first l a ns = Some (l\<lparr>ll_first := Some a, ll_last := e\<rparr>, ns') \<and>
    list_rep (Some a) e ns' (a # as) \<and> relinked (set (a # as)) ns ns'"
proof (cases as)
  case Nil
  let ?ns = "ns(a \<mapsto> nd\<lparr>nd_prev := None, nd_next := None\<rparr>)"
  have "link_first l a ns = Some (l\<lparr>ll_first := Some a, ll_last := Some a\<rparr>, ?ns)"
    using rep Nil nd by (simp add: link_first_def)
  moreover have "relinked (set (a # as)) ns ?ns" using nd by (auto simp: relinked_def same_data_def)
  ultimately show ?thesis using Nil by (intro exI [of _ "Some a"] exI [of _ ?ns]) (simp add: list_rep_def)
next
  case (Cons z bs)
  obtain zd where zd: "ll_first l = Some z" "ns z = Some zd" "lseg ns (nd_next zd) bs None" "prevs ns (Some z) bs"
    using rep Cons by (auto simp: list_rep_def split: option.splits)
  have ne: "a \<noteq> z" "a \<notin> set bs" "z \<notin> set bs" using assms(2) rep Cons by (auto simp: list_rep_def)
  let ?ns = "ns(a \<mapsto> nd\<lparr>nd_prev := None, nd_next := Some z\<rparr>, z \<mapsto> zd\<lparr>nd_prev := Some a\<rparr>)"
  have "link_first l a ns = Some (l\<lparr>ll_first := Some a\<rparr>, ?ns)"
    using nd zd ne by (simp add: link_first_def fun_upd_twist)
  moreover have "lseg ?ns (nd_next zd) bs None" "prevs ?ns (Some z) bs"
    using zd(3,4) ne lseg_frame [where S = "{a, z}" and ns' = ?ns] prevs_frame [where S = "{a, z}" and ns' = ?ns]
    by auto
  moreover have "relinked (set (a # as)) ns ?ns"
    using nd zd Cons ne by (auto simp: relinked_def same_data_def)
  ultimately show ?thesis using ne Cons rep
    by (intro exI [of _ "ll_last l"] exI [of _ ?ns]) (auto simp: list_rep_def)
qed

lemma unlink_ok:
  assumes rep: "list_rep (ll_first l) (ll_last l) ns (us @ v # ws)"
  shows "\<exists>f e ns'. llist_unlink l v ns = Some (l\<lparr>ll_first := f, ll_last := e\<rparr>, ns') \<and>
    list_rep f e ns' (us @ ws) \<and> relinked (set (us @ ws)) ns ns'"
proof -
  have seg: "lseg ns (ll_first l) (us @ v # ws) None" and pv: "prevs ns None (us @ v # ws)"
    and d: "distinct (us @ v # ws)" and e: "ll_last l = last_of None (us @ v # ws)"
    using rep by (auto simp: list_rep_def)
  obtain vd where vd: "ns v = Some vd" "lseg ns (ll_first l) us (Some v)" "lseg ns (nd_next vd) ws None"
    using seg by (auto simp: lseg_append split: option.splits)
  have pv': "prevs ns None us" "nd_prev vd = last_of None us" "prevs ns (Some v) ws"
    using pv vd(1) by (auto simp: prevs_append)
  have l: "ll_last l = Some v \<longleftrightarrow> ws = []"
    using e d by (cases ws rule: rev_cases) (auto simp: last_of_def)
  have f: "ll_first l = Some v \<longleftrightarrow> us = []" using vd(2) d by (cases us) auto
  consider "us = []" "ws = []" | w ws' where "us = []" "ws = w # ws'"
    | us' u where "us = us' @ [u]" "ws = []" | us' u w ws' where "us = us' @ [u]" "ws = w # ws'"
    by (cases us rule: rev_cases; cases ws) auto
  then show ?thesis
  proof cases
    case 1
    then show ?thesis using l f
      by (intro exI [of _ None] exI [of _ ns]) (simp add: llist_unlink_def relinked_def)
  next
    case 2
    obtain wd where wd: "nd_next vd = Some w" "ns w = Some wd" "lseg ns (nd_next wd) ws' None" "prevs ns (Some w) ws'"
      using vd(3) pv'(3) 2 by (auto split: option.splits)
    let ?ns = "ns(w \<mapsto> wd\<lparr>nd_prev := None\<rparr>)"
    have nw: "w \<notin> set ws'" using d 2 by simp
    have "lseg ?ns (nd_next wd) ws' None" "prevs ?ns (Some w) ws'"
      using wd(3,4) nw lseg_frame [where S = "{w}" and ns' = ?ns] prevs_frame [where S = "{w}" and ns' = ?ns] by auto
    moreover have "llist_unlink l v ns = Some (l\<lparr>ll_first := Some w\<rparr>, ?ns)"
      using l f 2 vd(1) wd by (simp add: llist_unlink_def)
    ultimately show ?thesis using 2 d e wd
      by (intro exI [of _ "Some w"] exI [of _ "ll_last l"] exI [of _ ?ns])
        (auto simp: list_rep_def relinked_def same_data_def)
  next
    case 3
    obtain ud where ud: "ns u = Some ud" "lseg ns (ll_first l) us' (Some u)"
      using vd(2) 3 by (auto simp: lseg_append split: option.splits)
    let ?ns = "ns(u \<mapsto> ud\<lparr>nd_next := None\<rparr>)"
    have nu: "u \<notin> set us'" using d 3 by auto
    have "lseg ?ns (ll_first l) us' (Some u)" using ud(2) nu lseg_cong [OF same_next_upd(1)] by blast
    then have "lseg ?ns (ll_first l) us None" using 3 by (auto simp: lseg_append)
    moreover have "prevs ?ns None us" using pv'(1) ud(1) prevs_cong [OF same_prev_upd(2)] by blast
    moreover have "llist_unlink l v ns = Some (l\<lparr>ll_last := Some u\<rparr>, ?ns)"
      using l f 3 vd(1) ud pv'(2) by (simp add: llist_unlink_def)
    ultimately show ?thesis using 3 d ud
      by (intro exI [of _ "ll_first l"] exI [of _ "Some u"] exI [of _ ?ns])
        (auto simp: list_rep_def relinked_def same_data_def)
  next
    case 4
    obtain ud where ud: "ns u = Some ud" "lseg ns (ll_first l) us' (Some u)"
      using vd(2) 4 by (auto simp: lseg_append split: option.splits)
    obtain wd where wd: "nd_next vd = Some w" "ns w = Some wd" "lseg ns (nd_next wd) ws' None" "prevs ns (Some w) ws'"
      using vd(3) pv'(3) 4 by (auto split: option.splits)
    have ne: "u \<noteq> w" "u \<noteq> v" "w \<noteq> v" "u \<notin> set us'" "u \<notin> set ws'" "w \<notin> set us'" "w \<notin> set ws'"
      using d 4 by auto
    let ?ns = "ns(w \<mapsto> wd\<lparr>nd_prev := Some u\<rparr>, u \<mapsto> ud\<lparr>nd_next := Some w\<rparr>)"
    have fr: "\<forall>a. a \<notin> {u, w} \<longrightarrow> ?ns a = ns a" by simp
    have "lseg ?ns (ll_first l) us' (Some u)" "lseg ?ns (nd_next wd) ws' None"
      "prevs ?ns (Some w) ws'"
      using ne by (auto intro!: lseg_frame [OF ud(2) fr] lseg_frame [OF wd(3) fr] prevs_frame [OF wd(4) fr])
    moreover have "same_prev (set us) ns ?ns" using ne ud 4 by (auto simp: same_prev_def)
    then have "prevs ?ns None us" using pv'(1) prevs_cong by blast
    moreover have "llist_unlink l v ns = Some (l, ?ns)"
      using l f 4 vd(1) ud(1) wd(1,2) pv'(2) ne by (simp add: llist_unlink_def)
    moreover have "same_data ns ?ns" using ne ud(1) wd(2) by (auto simp: same_data_def)
    ultimately show ?thesis using 4 d e ne
      by (rule_tac exI [of _ "ll_first l"], rule_tac exI [of _ "ll_last l"], rule_tac exI [of _ ?ns])
        (auto simp: list_rep_def relinked_def lseg_append prevs_append)
  qed
qed

subsection \<open>Memory of a list\<close>

text \<open>\<open>malloc\<close> returns memory that is not in use.\<close>

definition malloc_ok :: "'a lenv \<Rightarrow> bool" where
  "malloc_ok env \<longleftrightarrow> (\<forall>H a nd. env_node env H = Some (a, nd) \<longrightarrow> hp_nodes H a = None) \<and>
     (\<forall>H b v. env_block env H = Some (b, v) \<longrightarrow> hp_blocks H b = None)"

definition cap :: "'a llist \<Rightarrow> nat" where
  "cap l = size_of_int (ll_max_elts l)"

text \<open>Nodes \<open>A\<close> and blocks \<open>B\<close> are in use in the application's memory, if there is one.\<close>

definition node_space :: "'a llist \<Rightarrow> 'a lheap \<Rightarrow> nat set \<Rightarrow> bool" where
  "node_space l H A \<longleftrightarrow> A \<subseteq> dom (hp_nodes H) \<and> (has_flag (ll_flags l) RCSW_NOALLOC_META \<longrightarrow>
     pool_ok (sp_node_map (ll_space l)) (sp_nodes (ll_space l)) (cap l) A \<and>
     region (sp_nodes (ll_space l)) (cap l) \<subseteq> dom (hp_nodes H))"

definition block_space :: "'a llist \<Rightarrow> 'a lheap \<Rightarrow> nat set \<Rightarrow> bool" where
  "block_space l H B \<longleftrightarrow> B \<subseteq> dom (hp_blocks H) \<and> (has_flag (ll_flags l) RCSW_NOALLOC_DATA \<longrightarrow>
     pool_ok (sp_db_map (ll_space l)) (sp_datablocks (ll_space l)) (cap l) B \<and>
     region (sp_datablocks (ll_space l)) (cap l) \<subseteq> dom (hp_blocks H))"

text \<open>Two handles that differ in the allocation maps only.\<close>

definition same_handle :: "'a llist \<Rightarrow> 'a llist \<Rightarrow> bool" where
  "same_handle l l' \<longleftrightarrow> l' = l\<lparr>ll_space := ll_space l'\<rparr> \<and>
     sp_nodes (ll_space l') = sp_nodes (ll_space l) \<and>
     sp_datablocks (ll_space l') = sp_datablocks (ll_space l)"

lemma same_handleD:
  "same_handle l l' \<Longrightarrow> ll_flags l' = ll_flags l \<and> ll_max_elts l' = ll_max_elts l \<and>
     ll_current l' = ll_current l \<and> ll_first l' = ll_first l \<and> ll_last l' = ll_last l \<and>
     ll_cmpe l' = ll_cmpe l \<and> ll_sorted l' = ll_sorted l \<and> cap l' = cap l \<and>
     owns_data l' = owns_data l \<and> sp_nodes (ll_space l') = sp_nodes (ll_space l) \<and>
     sp_datablocks (ll_space l') = sp_datablocks (ll_space l)"
  unfolding same_handle_def cap_def owns_data_def
  by (metis llist.select_convs llist.surjective llist.update_convs(2))

lemma same_handle_refl [simp]: "same_handle l l"
  by (simp add: same_handle_def)

lemma same_handle_trans: "same_handle l l' \<Longrightarrow> same_handle l' l'' \<Longrightarrow> same_handle l l''"
  unfolding same_handle_def by (metis llist.surjective llist.update_convs(2))

definition same_but :: "nat \<Rightarrow> (nat \<Rightarrow> 'b option) \<Rightarrow> (nat \<Rightarrow> 'b option) \<Rightarrow> bool" where
  "same_but a f g \<longleftrightarrow> (\<forall>x. x \<noteq> a \<longrightarrow> g x = f x)"

lemma node_alloc_ok:
  assumes m: "malloc_ok env" and sp: "node_space l H A"
    and room: "has_flag (ll_flags l) RCSW_NOALLOC_META \<Longrightarrow> card A < cap l \<and> ll_current l < cap l"
  shows "llist_node_alloc env l H = Some (None, l, H) \<or>
    (\<exists>a l' ns'. llist_node_alloc env l H = Some (Some a, l', H\<lparr>hp_nodes := ns'\<rparr>) \<and> a \<notin> A \<and>
      same_handle l l' \<and> sp_db_map (ll_space l') = sp_db_map (ll_space l) \<and>
      same_but a (hp_nodes H) ns' \<and> node_space l' (H\<lparr>hp_nodes := ns'\<rparr>) (insert a A))"
proof (cases "has_flag (ll_flags l) RCSW_NOALLOC_META")
  case True
  let ?sp = "ll_space l"
  have pool: "pool_ok (sp_node_map ?sp) (sp_nodes ?sp) (cap l) A"
    "region (sp_nodes ?sp) (cap l) \<subseteq> dom (hp_nodes H)" "A \<subseteq> dom (hp_nodes H)"
    using sp True by (auto simp: node_space_def)
  obtain i m' where i: "allocm_probe (sp_node_map ?sp) (cap l) (ll_current l) = Some (int i)" "i < cap l"
      "sp_nodes ?sp + i \<notin> A" "allocm_mark_inuse (sp_node_map ?sp) (int i) = Some m'"
      "pool_ok m' (sp_nodes ?sp) (cap l) (insert (sp_nodes ?sp + i) A)"
    using pool_take [OF pool(1)] room [OF True] by blast
  let ?l = "l\<lparr>ll_space := ?sp\<lparr>sp_node_map := m'\<rparr>\<rparr>"
  have "llist_node_alloc env l H = Some (Some (sp_nodes ?sp + i), ?l, H\<lparr>hp_nodes := hp_nodes H\<rparr>)"
    using True i(1,4) by (simp add: llist_node_alloc_def Let_def cap_def)
  moreover have "sp_nodes ?sp + i \<in> region (sp_nodes ?sp) (cap l)" using i(2) by (simp add: region_def)
  then have "node_space ?l (H\<lparr>hp_nodes := hp_nodes H\<rparr>) (insert (sp_nodes ?sp + i) A)"
    using pool i(5) by (auto simp: node_space_def cap_def)
  moreover have "same_handle l ?l" by (simp add: same_handle_def)
  ultimately show ?thesis using i(3)
    by (intro disjI2, rule_tac exI [of _ "sp_nodes ?sp + i"], rule_tac exI [of _ ?l],
        rule_tac exI [of _ "hp_nodes H"]) (simp add: same_but_def)
next
  case False
  show ?thesis
  proof (cases "env_node env H")
    case None
    then show ?thesis using False by (simp add: llist_node_alloc_def rcsw_alloc_def noalloc_def has_flag_def flag_defs Let_def)
  next
    case (Some p)
    obtain a nd where p: "p = (a, nd)" by (cases p)
    let ?ns = "(hp_nodes H)(a \<mapsto> nd)"
    have "hp_nodes H a = None" using m Some p unfolding malloc_ok_def by blast
    then have "a \<notin> A" using sp by (auto simp: node_space_def)
    moreover have "llist_node_alloc env l H = Some (Some a, l, H\<lparr>hp_nodes := ?ns\<rparr>)"
      using False Some p
      by (simp add: llist_node_alloc_def rcsw_alloc_def noalloc_def has_flag_def flag_defs Let_def)
    moreover have "node_space l (H\<lparr>hp_nodes := ?ns\<rparr>) (insert a A)"
      using sp False by (auto simp: node_space_def)
    ultimately show ?thesis by (auto simp: same_but_def)
  qed
qed

lemma block_alloc_ok:
  assumes m: "malloc_ok env" and sp: "block_space l H B"
    and room: "has_flag (ll_flags l) RCSW_NOALLOC_DATA \<Longrightarrow> card B < cap l \<and> ll_current l < cap l"
  shows "llist_node_datablock_alloc env l H = Some (None, l, H) \<or>
    (\<exists>b l' bs'. llist_node_datablock_alloc env l H = Some (Some b, l', H\<lparr>hp_blocks := bs'\<rparr>) \<and> b \<notin> B \<and>
      same_handle l l' \<and> sp_node_map (ll_space l') = sp_node_map (ll_space l) \<and>
      same_but b (hp_blocks H) bs' \<and> block_space l' (H\<lparr>hp_blocks := bs'\<rparr>) (insert b B) \<and>
      (if has_flag (ll_flags l) RCSW_NOALLOC_DATA then b \<in> region (sp_datablocks (ll_space l)) (cap l)
       else hp_blocks H b = None))"
proof (cases "has_flag (ll_flags l) RCSW_NOALLOC_DATA")
  case True
  let ?sp = "ll_space l"
  have pool: "pool_ok (sp_db_map ?sp) (sp_datablocks ?sp) (cap l) B"
    "region (sp_datablocks ?sp) (cap l) \<subseteq> dom (hp_blocks H)" "B \<subseteq> dom (hp_blocks H)"
    using sp True by (auto simp: block_space_def)
  obtain i m' where i: "allocm_probe (sp_db_map ?sp) (cap l) (ll_current l) = Some (int i)" "i < cap l"
      "sp_datablocks ?sp + i \<notin> B" "allocm_mark_inuse (sp_db_map ?sp) (int i) = Some m'"
      "pool_ok m' (sp_datablocks ?sp) (cap l) (insert (sp_datablocks ?sp + i) B)"
    using pool_take [OF pool(1)] room [OF True] by blast
  let ?l = "l\<lparr>ll_space := ?sp\<lparr>sp_db_map := m'\<rparr>\<rparr>"
  have "llist_node_datablock_alloc env l H = Some (Some (sp_datablocks ?sp + i), ?l, H\<lparr>hp_blocks := hp_blocks H\<rparr>)"
    using True i(1,4) by (simp add: llist_node_datablock_alloc_def Let_def cap_def)
  moreover have reg: "sp_datablocks ?sp + i \<in> region (sp_datablocks ?sp) (cap l)" using i(2) by (simp add: region_def)
  then have "block_space ?l (H\<lparr>hp_blocks := hp_blocks H\<rparr>) (insert (sp_datablocks ?sp + i) B)"
    using pool i(5) by (auto simp: block_space_def cap_def)
  moreover have "same_handle l ?l" by (simp add: same_handle_def)
  ultimately show ?thesis using i(3) True reg
    by (intro disjI2, rule_tac exI [of _ "sp_datablocks ?sp + i"], rule_tac exI [of _ ?l],
        rule_tac exI [of _ "hp_blocks H"]) (simp add: same_but_def)
next
  case False
  show ?thesis
  proof (cases "env_block env H")
    case None
    then show ?thesis using False
      by (simp add: llist_node_datablock_alloc_def rcsw_alloc_def noalloc_def has_flag_def flag_defs Let_def)
  next
    case (Some p)
    obtain b v where p: "p = (b, v)" by (cases p)
    let ?bs = "(hp_blocks H)(b \<mapsto> v)"
    have new: "hp_blocks H b = None" using m Some p unfolding malloc_ok_def by blast
    then have "b \<notin> B" using sp by (auto simp: block_space_def)
    moreover have "llist_node_datablock_alloc env l H = Some (Some b, l, H\<lparr>hp_blocks := ?bs\<rparr>)"
      using False Some p
      by (simp add: llist_node_datablock_alloc_def rcsw_alloc_def noalloc_def has_flag_def flag_defs Let_def)
    moreover have "block_space l (H\<lparr>hp_blocks := ?bs\<rparr>) (insert b B)"
      using sp False by (auto simp: block_space_def)
    ultimately show ?thesis using new False by (auto simp: same_but_def)
  qed
qed

lemma node_dealloc_ok:
  assumes sp: "node_space l H A" and a: "a \<in> A"
  shows "\<exists>l' ns'. llist_node_dealloc l a H = Some (l', H\<lparr>hp_nodes := ns'\<rparr>) \<and> same_handle l l' \<and>
    sp_db_map (ll_space l') = sp_db_map (ll_space l) \<and>
    same_but a (hp_nodes H) ns' \<and> node_space l' (H\<lparr>hp_nodes := ns'\<rparr>) (A - {a})"
proof (cases "has_flag (ll_flags l) RCSW_NOALLOC_META")
  case True
  let ?sp = "ll_space l"
  obtain m' where m': "allocm_mark_free (sp_node_map ?sp) (int a - int (sp_nodes ?sp)) = Some m'"
      "pool_ok m' (sp_nodes ?sp) (cap l) (A - {a})"
    using pool_give [OF _ a] sp True unfolding node_space_def by blast
  let ?l = "l\<lparr>ll_space := ?sp\<lparr>sp_node_map := m'\<rparr>\<rparr>"
  have "llist_node_dealloc l a H = Some (?l, H\<lparr>hp_nodes := hp_nodes H\<rparr>)"
    using True m'(1) by (simp add: llist_node_dealloc_def Let_def)
  moreover have "node_space ?l (H\<lparr>hp_nodes := hp_nodes H\<rparr>) (A - {a})"
    using sp m'(2) True by (auto simp: node_space_def cap_def)
  moreover have "same_handle l ?l" by (simp add: same_handle_def)
  ultimately show ?thesis by (fastforce simp: same_but_def)
next
  case False
  have "rcsw_free (Some a) RCSW_NONE" by (simp add: rcsw_free_def noalloc_def has_flag_def flag_defs)
  then have "llist_node_dealloc l a H = Some (l, H\<lparr>hp_nodes := (hp_nodes H)(a := None)\<rparr>)"
    using sp a False by (auto simp: llist_node_dealloc_def Let_def node_space_def)
  moreover have "node_space l (H\<lparr>hp_nodes := (hp_nodes H)(a := None)\<rparr>) (A - {a})"
    using sp False by (auto simp: node_space_def)
  ultimately show ?thesis by (fastforce simp: same_but_def)
qed

lemma block_dealloc_ok:
  assumes sp: "block_space l H B" and b: "b \<in> B" and "owns_data l"
  shows "\<exists>l' bs'. llist_node_datablock_dealloc l (Some b) H = Some (l', H\<lparr>hp_blocks := bs'\<rparr>) \<and>
    same_handle l l' \<and> sp_node_map (ll_space l') = sp_node_map (ll_space l) \<and>
    same_but b (hp_blocks H) bs' \<and> block_space l' (H\<lparr>hp_blocks := bs'\<rparr>) (B - {b})"
proof (cases "has_flag (ll_flags l) RCSW_NOALLOC_DATA")
  case True
  let ?sp = "ll_space l"
  obtain m' where m': "allocm_mark_free (sp_db_map ?sp) (int b - int (sp_datablocks ?sp)) = Some m'"
      "pool_ok m' (sp_datablocks ?sp) (cap l) (B - {b})"
    using pool_give [OF _ b] sp True unfolding block_space_def by blast
  let ?l = "l\<lparr>ll_space := ?sp\<lparr>sp_db_map := m'\<rparr>\<rparr>"
  have "llist_node_datablock_dealloc l (Some b) H = Some (?l, H\<lparr>hp_blocks := hp_blocks H\<rparr>)"
    using True m'(1) assms(3) by (simp add: llist_node_datablock_dealloc_def Let_def)
  moreover have "block_space ?l (H\<lparr>hp_blocks := hp_blocks H\<rparr>) (B - {b})"
    using sp m'(2) True by (auto simp: block_space_def cap_def)
  moreover have "same_handle l ?l" by (simp add: same_handle_def)
  ultimately show ?thesis by (fastforce simp: same_but_def)
next
  case False
  have "rcsw_free (Some b) RCSW_NONE" by (simp add: rcsw_free_def noalloc_def has_flag_def flag_defs)
  then have "llist_node_datablock_dealloc l (Some b) H = Some (l, H\<lparr>hp_blocks := (hp_blocks H)(b := None)\<rparr>)"
    using sp b False assms(3) by (auto simp: llist_node_datablock_dealloc_def Let_def block_space_def)
  moreover have "block_space l (H\<lparr>hp_blocks := (hp_blocks H)(b := None)\<rparr>) (B - {b})"
    using sp False by (auto simp: block_space_def)
  ultimately show ?thesis by (fastforce simp: same_but_def)
qed

lemma block_space_other:
  assumes "block_space l H B" and "same_handle l l'" and "sp_db_map (ll_space l') = sp_db_map (ll_space l)"
    and "hp_blocks H' = hp_blocks H"
  shows "block_space l' H' B"
  using assms(1,3,4) same_handleD [OF assms(2)] by (simp add: block_space_def)

lemma node_space_other:
  assumes "node_space l H A" and "same_handle l l'" and "sp_node_map (ll_space l') = sp_node_map (ll_space l)"
    and "dom (hp_nodes H') = dom (hp_nodes H)"
  shows "node_space l' H' A"
  using assms(1,3,4) same_handleD [OF assms(2)] by (simp add: node_space_def)

subsection \<open>The invariant\<close>

text \<open>The blocks of the nodes on a chain.\<close>

definition chain_data :: "node_heap \<Rightarrow> nat list \<Rightarrow> nat list \<Rightarrow> bool" where
  "chain_data ns as ds \<longleftrightarrow> map (\<lambda>a. map_option nd_data (ns a)) as = map (\<lambda>d. Some (Some d)) ds"

lemma chain_data_cong:
  assumes "\<And>a. a \<in> set as \<Longrightarrow> map_option nd_data (ns' a) = map_option nd_data (ns a)"
  shows "chain_data ns' as ds = chain_data ns as ds"
  using assms by (simp add: chain_data_def cong: map_cong)

lemma chain_data_length: "chain_data ns as ds \<Longrightarrow> length ds = length as"
  unfolding chain_data_def by (metis length_map)

lemma chain_data_append:
  "length us = length ds \<Longrightarrow> chain_data ns (us @ vs) (ds @ es) \<longleftrightarrow> chain_data ns us ds \<and> chain_data ns vs es"
  by (simp add: chain_data_def)

definition limited :: "'a llist \<Rightarrow> bool" where
  "limited l \<longleftrightarrow> ll_max_elts l \<noteq> -1"

text \<open>
  The list \<open>l\<close> in the heap \<open>H\<close> consists of the nodes \<open>as\<close> with the blocks \<open>ds\<close>, which
  hold the elements \<open>xs\<close>.
\<close>

definition llist_ok :: "'a llist \<Rightarrow> 'a lheap \<Rightarrow> nat list \<Rightarrow> nat list \<Rightarrow> 'a list \<Rightarrow> bool" where
  "llist_ok l H as ds xs \<longleftrightarrow>
     list_rep (ll_first l) (ll_last l) (hp_nodes H) as \<and> ll_current l = length as \<and> owns_data l \<and>
     chain_data (hp_nodes H) as ds \<and> map (hp_blocks H) ds = map Some xs \<and> distinct ds \<and>
     node_space l H (set as) \<and> block_space l H (set ds) \<and>
     (has_flag (ll_flags l) RCSW_NOALLOC_META \<or> has_flag (ll_flags l) RCSW_NOALLOC_DATA \<longrightarrow> limited l) \<and>
     (limited l \<longrightarrow> length as \<le> cap l)"

text \<open>Blocks that belong to others: not to the list, nor to its pool.\<close>

definition foreign :: "'a llist \<Rightarrow> nat list \<Rightarrow> nat \<Rightarrow> bool" where
  "foreign l ds d \<longleftrightarrow> d \<notin> set ds \<and>
     (has_flag (ll_flags l) RCSW_NOALLOC_DATA \<longrightarrow> d \<notin> region (sp_datablocks (ll_space l)) (cap l))"

definition keeps :: "'a llist \<Rightarrow> nat list \<Rightarrow> 'a lheap \<Rightarrow> 'a lheap \<Rightarrow> bool" where
  "keeps l ds H H' \<longleftrightarrow> (\<forall>d v. foreign l ds d \<and> hp_blocks H d = Some v \<longrightarrow> hp_blocks H' d = Some v)"

lemma llist_ok_length: "llist_ok l H as ds xs \<Longrightarrow> length ds = length as \<and> length xs = length as"
  unfolding llist_ok_def by (metis chain_data_length length_map)

text \<open>What a created node looks like.\<close>

definition created :: "'a llist \<Rightarrow> 'a lheap \<Rightarrow> nat list \<Rightarrow> nat list \<Rightarrow> 'a \<Rightarrow> nat \<Rightarrow> nat \<Rightarrow> 'a llist \<Rightarrow> 'a lheap \<Rightarrow> bool" where
  "created l H as ds v a b l' H' \<longleftrightarrow> same_handle l l' \<and> a \<notin> set as \<and> b \<notin> set ds \<and>
     node_space l' H' (insert a (set as)) \<and> block_space l' H' (insert b (set ds)) \<and>
     map_option nd_data (hp_nodes H' a) = Some (Some b) \<and> hp_blocks H' b = Some v \<and>
     same_but a (hp_nodes H) (hp_nodes H') \<and> same_but b (hp_blocks H) (hp_blocks H') \<and>
     keeps l ds H H' \<and> (has_flag (ll_flags l) RCSW_NOALLOC_DATA \<longrightarrow>
       b \<in> region (sp_datablocks (ll_space l)) (cap l)) \<and>
     (\<not> has_flag (ll_flags l) RCSW_NOALLOC_DATA \<longrightarrow> hp_blocks H b = None)"

lemma set_data_ok:
  assumes "hp_nodes H a = Some nd"
  shows "set_data a d H = Some (H\<lparr>hp_nodes := (hp_nodes H)(a \<mapsto> nd\<lparr>nd_data := d\<rparr>)\<rparr>)"
  using assms by (simp add: set_data_def)

lemma list_rep_same_but:
  assumes "list_rep f e ns as" and "same_but a ns ns'" and "a \<notin> set as"
  shows "list_rep f e ns' as"
proof -
  have fr: "\<forall>x. x \<notin> {a} \<longrightarrow> ns' x = ns x" using assms(2) by (simp add: same_but_def)
  then have "lseg ns' f as None" "prevs ns' None as"
    using assms(1,3) by (auto simp: list_rep_def intro!: lseg_frame [OF _ fr] prevs_frame [OF _ fr])
  then show ?thesis using assms(1) by (simp add: list_rep_def)
qed

lemma node_create_ok:
  assumes m: "malloc_ok env" and ok: "llist_ok l H as ds xs"
    and room: "\<not> (llist_isfull l \<and> ll_max_elts l \<noteq> -1)"
    and arg: "hp_blocks H d = Some v" "foreign l ds d"
  shows "(\<exists>l' H'. llist_node_create env l (Some d) H = Some (None, l', H') \<and> same_handle l l' \<and>
      llist_ok l' H' as ds xs \<and> keeps l ds H H') \<or>
    (\<exists>a b l' H'. llist_node_create env l (Some d) H = Some (Some a, l', H') \<and>
      created l H as ds v a b l' H')"
proof -
  have rep: "list_rep (ll_first l) (ll_last l) (hp_nodes H) as" and cur: "ll_current l = length as"
    and own: "owns_data l" and cd: "chain_data (hp_nodes H) as ds" and el: "map (hp_blocks H) ds = map Some xs"
    and dd: "distinct ds" and nsp: "node_space l H (set as)" and bsp: "block_space l H (set ds)"
    and lim: "has_flag (ll_flags l) RCSW_NOALLOC_META \<or> has_flag (ll_flags l) RCSW_NOALLOC_DATA \<longrightarrow> limited l"
      "limited l \<longrightarrow> length as \<le> cap l"
    using ok by (auto simp: llist_ok_def)
  have da: "distinct as" using rep by (simp add: list_rep_def)
  have free: "has_flag (ll_flags l) RCSW_NOALLOC_META \<or> has_flag (ll_flags l) RCSW_NOALLOC_DATA \<Longrightarrow> length as < cap l"
    using lim room cur by (auto simp: limited_def llist_isfull_def cap_def)
  have lds: "length ds = length as" by (rule chain_data_length [OF cd])
  have cards: "card (set as) = length as" "card (set ds) = length as"
    using da dd lds by (simp_all add: distinct_card)
  consider "llist_node_alloc env l H = Some (None, l, H)"
    | a l1 ns1 where "llist_node_alloc env l H = Some (Some a, l1, H\<lparr>hp_nodes := ns1\<rparr>)" "a \<notin> set as"
      "same_handle l l1" "sp_db_map (ll_space l1) = sp_db_map (ll_space l)"
      "same_but a (hp_nodes H) ns1" "node_space l1 (H\<lparr>hp_nodes := ns1\<rparr>) (insert a (set as))"
    using node_alloc_ok [OF m nsp] cards(1) cur free by fastforce
  then show ?thesis
  proof cases
    case 1
    then show ?thesis using ok by (auto simp: llist_node_create_def keeps_def)
  next
    case 2
    let ?H1 = "H\<lparr>hp_nodes := ns1\<rparr>"
    note sh1 = same_handleD [OF 2(3)]
    obtain nd where nd: "ns1 a = Some nd" using 2(6) by (auto simp: node_space_def)
    have bsp1: "block_space l1 ?H1 (set ds)" by (rule block_space_other [OF bsp 2(3,4)]) simp
    have room1: "has_flag (ll_flags l1) RCSW_NOALLOC_DATA \<Longrightarrow> card (set ds) < cap l1 \<and> ll_current l1 < cap l1"
      using sh1 cards(2) cur free by simp
    consider "llist_node_datablock_alloc env l1 ?H1 = Some (None, l1, ?H1)"
      | b l2 bs where "llist_node_datablock_alloc env l1 ?H1 = Some (Some b, l2, ?H1\<lparr>hp_blocks := bs\<rparr>)"
        "b \<notin> set ds" "same_handle l1 l2" "sp_node_map (ll_space l2) = sp_node_map (ll_space l1)"
        "same_but b (hp_blocks ?H1) bs" "block_space l2 (?H1\<lparr>hp_blocks := bs\<rparr>) (insert b (set ds))"
        "if has_flag (ll_flags l1) RCSW_NOALLOC_DATA then b \<in> region (sp_datablocks (ll_space l1)) (cap l1)
         else hp_blocks ?H1 b = None"
      using block_alloc_ok [OF m bsp1 room1] by blast
    then show ?thesis
    proof cases
      case b1: 1
      let ?H2 = "?H1\<lparr>hp_nodes := ns1(a \<mapsto> nd\<lparr>nd_data := None\<rparr>)\<rparr>"
      have "node_space l1 ?H2 (insert a (set as))" using 2(6) nd by (auto simp: node_space_def)
      then obtain l2 ns2 where f: "llist_node_dealloc l1 a ?H2 = Some (l2, ?H2\<lparr>hp_nodes := ns2\<rparr>)"
          "same_handle l1 l2" "sp_db_map (ll_space l2) = sp_db_map (ll_space l1)"
          "same_but a (hp_nodes ?H2) ns2" "node_space l2 (?H2\<lparr>hp_nodes := ns2\<rparr>) (insert a (set as) - {a})"
        using node_dealloc_ok [of l1 ?H2 "insert a (set as)" a] by blast
      have eval: "llist_node_create env l (Some d) H = Some (None, l2, ?H2\<lparr>hp_nodes := ns2\<rparr>)"
        using 2(1) b1 own sh1 f(1) nd
        by (simp add: llist_node_create_def set_data_def llist_node_destroy_def llist_node_datablock_dealloc_def)
      have sh: "same_handle l l2" using 2(3) f(2) same_handle_trans by blast
      have sb: "same_but a (hp_nodes H) ns2" using 2(5) f(4) by (simp add: same_but_def)
      have "chain_data ns2 as ds" using cd sb 2(2) by (subst chain_data_cong [of _ _ "hp_nodes H"]) (auto simp: same_but_def)
      moreover have "insert a (set as) - {a} = set as" using 2(2) by auto
      moreover have "block_space l2 (?H2\<lparr>hp_nodes := ns2\<rparr>) (set ds)"
        by (rule block_space_other [OF bsp1 f(2,3)]) simp
      ultimately have "llist_ok l2 (?H2\<lparr>hp_nodes := ns2\<rparr>) as ds xs"
        using list_rep_same_but [OF rep sb 2(2)] same_handleD [OF sh] cur own el dd f(5) lim
        by (simp add: llist_ok_def limited_def)
      then show ?thesis using eval sh by (auto simp: keeps_def)
    next
      case b2: 2
      note sh2 = same_handleD [OF b2(3)]
      let ?H2 = "?H1\<lparr>hp_blocks := bs\<rparr>"
      let ?H3 = "?H2\<lparr>hp_nodes := ns1(a \<mapsto> nd\<lparr>nd_data := Some b\<rparr>)\<rparr>"
      let ?H4 = "?H3\<lparr>hp_blocks := bs(b \<mapsto> v)\<rparr>"
      have db: "d \<noteq> b" using arg b2(7) sh1 by (auto simp: foreign_def split: if_splits)
      then have "bs d = Some v" using b2(5) arg(1) by (simp add: same_but_def)
      moreover have "\<exists>w. bs b = Some w" using b2(6) by (auto simp: block_space_def)
      ultimately have eval: "llist_node_create env l (Some d) H = Some (Some a, l2, ?H4)"
        using 2(1) b2(1) own sh1 nd
        by (auto simp: llist_node_create_def set_data_def copy_block_def elem_at_def)
      have "node_space l2 ?H4 (insert a (set as))"
        by (rule node_space_other [OF 2(6) b2(3,4)]) (use nd in \<open>auto simp: dom_def\<close>)
      moreover have "block_space l2 ?H4 (insert b (set ds))"
        using b2(6) by (auto simp: block_space_def)
      moreover have "keeps l ds H ?H4"
        using b2(5,7) sh1 by (auto simp: keeps_def foreign_def same_but_def split: if_splits)
      moreover have "same_handle l l2" using 2(3) b2(3) same_handle_trans by blast
      ultimately have "created l H as ds v a b l2 ?H4"
        using 2(2,5) b2(2,5,7) sh1 by (auto simp: created_def same_but_def split: if_splits)
      then show ?thesis using eval by blast
    qed
  qed
qed

subsection \<open>Insertion\<close>

text \<open>What an operation leaves alone: the configuration, and the blocks of others.\<close>

definition stays :: "'a llist \<Rightarrow> nat list \<Rightarrow> 'a lheap \<Rightarrow> 'a llist \<Rightarrow> nat list \<Rightarrow> 'a lheap \<Rightarrow> bool" where
  "stays l ds H l' ds' H' \<longleftrightarrow> ll_flags l' = ll_flags l \<and> ll_max_elts l' = ll_max_elts l \<and>
     ll_cmpe l' = ll_cmpe l \<and>
     (\<forall>d v. foreign l ds d \<and> hp_blocks H d = Some v \<longrightarrow> foreign l' ds' d \<and> hp_blocks H' d = Some v)"

lemma stays_refl [simp]: "stays l ds H l ds H"
  by (simp add: stays_def)

lemma stays_trans: "stays l ds H l' ds' H' \<Longrightarrow> stays l' ds' H' l'' ds'' H'' \<Longrightarrow> stays l ds H l'' ds'' H''"
  unfolding stays_def by metis

lemma foreign_same_handle: "same_handle l l' \<Longrightarrow> foreign l' ds d = foreign l ds d"
  using same_handleD [of l l'] by (simp add: foreign_def)

lemma created_linked:
  assumes ok: "llist_ok l H as ds xs" and cr: "created l H as ds v a b l' H'"
    and room: "limited l \<Longrightarrow> length as < cap l"
    and rep: "list_rep f e ns' as'" and re: "relinked (set as') (hp_nodes H') ns'"
    and perm: "as' = as @ [a] \<and> ds' = ds @ [b] \<and> xs' = xs @ [v] \<or> as' = a # as \<and> ds' = b # ds \<and> xs' = v # xs"
  shows "llist_ok (l'\<lparr>ll_first := f, ll_last := e, ll_current := ll_current l' + 1\<rparr>) (H'\<lparr>hp_nodes := ns'\<rparr>) as' ds' xs' \<and>
    stays l ds H (l'\<lparr>ll_first := f, ll_last := e, ll_current := ll_current l' + 1\<rparr>) ds' (H'\<lparr>hp_nodes := ns'\<rparr>)"
proof -
  have cur: "ll_current l = length as" and own: "owns_data l" and cd: "chain_data (hp_nodes H) as ds"
    and el: "map (hp_blocks H) ds = map Some xs" and dd: "distinct ds"
    and lim: "has_flag (ll_flags l) RCSW_NOALLOC_META \<or> has_flag (ll_flags l) RCSW_NOALLOC_DATA \<longrightarrow> limited l"
    using ok by (auto simp: llist_ok_def)
  have c: "same_handle l l'" "a \<notin> set as" "b \<notin> set ds" "node_space l' H' (insert a (set as))"
    "block_space l' H' (insert b (set ds))" "map_option nd_data (hp_nodes H' a) = Some (Some b)"
    "hp_blocks H' b = Some v" "same_but a (hp_nodes H) (hp_nodes H')" "same_but b (hp_blocks H) (hp_blocks H')"
    "keeps l ds H H'" "has_flag (ll_flags l) RCSW_NOALLOC_DATA \<Longrightarrow> b \<in> region (sp_datablocks (ll_space l)) (cap l)"
    "\<not> has_flag (ll_flags l) RCSW_NOALLOC_DATA \<Longrightarrow> hp_blocks H b = None"
    using cr by (auto simp: created_def)
  note sh = same_handleD [OF c(1)]
  let ?l = "l'\<lparr>ll_first := f, ll_last := e, ll_current := ll_current l' + 1\<rparr>" and ?H = "H'\<lparr>hp_nodes := ns'\<rparr>"
  have dat: "map_option nd_data (ns' x) = map_option nd_data (hp_nodes H' x)" for x
    using re by (simp add: relinked_def same_data_def)
  have "map_option nd_data (ns' x) = map_option nd_data (hp_nodes H x)" if "x \<in> set as" for x
    using that c(2,8) dat [of x] unfolding same_but_def by metis
  then have "chain_data ns' as ds" using cd chain_data_cong by blast
  moreover have "chain_data ns' [a] [b]" using c(6) dat by (simp add: chain_data_def)
  moreover have len: "length as = length ds" using chain_data_length [OF cd] by simp
  ultimately have cd': "chain_data ns' as' ds'"
    using perm chain_data_append [of "[a]" "[b]" ns' as ds] chain_data_append [OF len, of ns' "[a]" "[b]"] by auto
  have "hp_blocks H' x = hp_blocks H x" if "x \<in> set ds" for x
    using that c(3,9) unfolding same_but_def by metis
  then have "map (hp_blocks H') ds = map Some xs" using el by (simp cong: map_cong)
  then have el': "map (hp_blocks H') ds' = map Some xs'" using perm c(7) by auto
  have sets: "set as' = insert a (set as)" "set ds' = insert b (set ds)" "length as' = Suc (length as)" "distinct ds'"
    using perm dd c(3) by auto
  have "node_space ?l ?H (set as')"
    using c(4) relinked_dom [OF re] sets by (simp add: node_space_def cap_def)
  moreover have "block_space ?l ?H (set ds')" using c(5) sets by (simp add: block_space_def cap_def)
  ultimately have "llist_ok ?l ?H as' ds' xs'"
    using rep cur own cd' el' sets lim sh room by (auto simp: llist_ok_def cap_def limited_def owns_data_def)
  moreover have "foreign ?l ds' d" if "foreign l ds d" "hp_blocks H d = Some w" for d w
  proof -
    have "d \<noteq> b"
      using that c(11,12) by (cases "has_flag (ll_flags l) RCSW_NOALLOC_DATA") (auto simp: foreign_def)
    then show ?thesis using that(1) sh sets by (simp add: foreign_def cap_def)
  qed
  ultimately show ?thesis using c(10) sh by (auto simp: stays_def keeps_def)
qed

lemma insert_ok:
  assumes m: "malloc_ok env" and ok: "llist_ok l H as ds xs"
    and room: "\<not> (llist_isfull l \<and> ll_max_elts l \<noteq> -1)"
    and arg: "hp_blocks H d = Some v" "foreign l ds d" and srt: "\<not> has_flag (ll_flags l) RCSW_DS_SORTED"
    and link: "(link, as', ds', xs') = (link_last, \<lambda>a. as @ [a], \<lambda>b. ds @ [b], xs @ [v]) \<or>
      (link, as', ds', xs') = (link_first, \<lambda>a. a # as, \<lambda>b. b # ds, v # xs)"
  shows "(\<exists>l' H'. llist_insert link env l (Some d) H = Some (ERROR (Some ENOMEM), l', H') \<and>
      llist_ok l' H' as ds xs \<and> stays l ds H l' ds H' \<and> ll_sorted l' = ll_sorted l) \<or>
    (\<exists>a b l' H'. llist_insert link env l (Some d) H = Some (OK, l', H') \<and>
      llist_ok l' H' (as' a) (ds' b) xs' \<and> stays l ds H l' (ds' b) H' \<and> ll_sorted l' = ll_sorted l)"
proof -
  have full: "\<not> (llist_isfull l \<and> ll_max_elts l \<noteq> - 1)" by (rule room)
  consider l' H' where "llist_node_create env l (Some d) H = Some (None, l', H')" "same_handle l l'"
      "llist_ok l' H' as ds xs" "keeps l ds H H'"
    | a b l' H' where "llist_node_create env l (Some d) H = Some (Some a, l', H')" "created l H as ds v a b l' H'"
    using node_create_ok [OF m ok room arg] by blast
  then show ?thesis
  proof cases
    case 1
    have "stays l ds H l' ds H'"
      using 1(2,4) same_handleD [OF 1(2)] foreign_same_handle [OF 1(2)] by (auto simp: stays_def keeps_def)
    then show ?thesis using 1(1,3) full same_handleD [OF 1(2)] by (auto simp: llist_insert_def)
  next
    case 2
    have rep: "list_rep (ll_first l) (ll_last l) (hp_nodes H) as" using ok by (simp add: llist_ok_def)
    have c: "same_handle l l'" "a \<notin> set as" "same_but a (hp_nodes H) (hp_nodes H')" "\<exists>nd. hp_nodes H' a = Some nd"
      using 2(2) by (auto simp: created_def node_space_def)
    note sh = same_handleD [OF c(1)]
    have rep': "list_rep (ll_first l') (ll_last l') (hp_nodes H') as"
      using list_rep_same_but [OF rep c(3,2)] sh by simp
    have lt: "limited l \<Longrightarrow> length as < cap l"
      using ok room by (auto simp: llist_ok_def limited_def llist_isfull_def cap_def)
    obtain nd where nd: "hp_nodes H' a = Some nd" using c(4) by blast
    obtain f e ns' where lk: "link l' a (hp_nodes H') = Some (l'\<lparr>ll_first := f, ll_last := e\<rparr>, ns')"
        "list_rep f e ns' (as' a)" "relinked (set (as' a)) (hp_nodes H') ns'"
      using link link_last_ok [OF rep' c(2) nd] link_first_ok [OF rep' c(2) nd] by auto
    let ?l = "l'\<lparr>ll_first := f, ll_last := e, ll_current := ll_current l' + 1\<rparr>"
    have "llist_ok ?l (H'\<lparr>hp_nodes := ns'\<rparr>) (as' a) (ds' b) xs' \<and> stays l ds H ?l (ds' b) (H'\<lparr>hp_nodes := ns'\<rparr>)"
      using link by (intro created_linked [OF ok 2(2) lt lk(2,3)]) auto
    moreover have "llist_insert link env l (Some d) H = Some (OK, ?l, H'\<lparr>hp_nodes := ns'\<rparr>)"
      using full 2(1) lk(1) sh srt by (simp add: llist_insert_def Let_def)
    moreover have "ll_sorted ?l = ll_sorted l" using sh by simp
    ultimately show ?thesis by blast
  qed
qed

text \<open>
  \<open>malloc\<close> still has memory for a node and for a block while those in use are the ones of \<open>H\<close>.
\<close>

definition mem_left :: "'a lenv \<Rightarrow> 'a lheap \<Rightarrow> bool" where
  "mem_left env H \<longleftrightarrow>
     (\<forall>G. dom (hp_nodes G) = dom (hp_nodes H) \<longrightarrow> env_node env G \<noteq> None) \<and>
     (\<forall>G. dom (hp_blocks G) = dom (hp_blocks H) \<longrightarrow> env_block env G \<noteq> None)"

lemma node_create_granted:
  assumes "mem_left env H" and "\<not> has_flag (ll_flags l) RCSW_NOALLOC_META"
    and "\<not> has_flag (ll_flags l) RCSW_NOALLOC_DATA"
    and "llist_node_create env l d H = Some (r, l', H')"
  shows "r \<noteq> None"
proof -
  obtain a nd where a: "env_node env H = Some (a, nd)" using assms(1) by (fastforce simp: mem_left_def)
  let ?H = "H\<lparr>hp_nodes := (hp_nodes H)(a \<mapsto> nd)\<rparr>"
  have "env_block env ?H \<noteq> None" using assms(1) unfolding mem_left_def by simp
  then obtain b v where b: "env_block env ?H = Some (b, v)" by fastforce
  show ?thesis using assms(2-4) a b
    by (auto simp: llist_node_create_def llist_node_alloc_def llist_node_datablock_alloc_def rcsw_alloc_def
        noalloc_def Let_def has_flag_def flag_defs bind_eq_Some_conv split: if_splits)
qed

lemma insert_granted:
  assumes "mem_left env H" and "\<not> has_flag (ll_flags l) RCSW_NOALLOC_META"
    and "\<not> has_flag (ll_flags l) RCSW_NOALLOC_DATA"
    and "\<not> (llist_isfull l \<and> ll_max_elts l \<noteq> -1)" and "\<not> has_flag (ll_flags l) RCSW_DS_SORTED"
  shows "llist_insert link env l (Some d) H \<noteq> Some (ERROR (Some ENOMEM), l', H')"
  using assms(4,5) node_create_granted [OF assms(1-3), of "Some d"]
  by (auto simp: llist_insert_def Let_def bind_eq_Some_conv split: option.splits if_splits)

subsection \<open>Removal\<close>

lemma node_destroy_ok:
  assumes nsp: "node_space l H A" and bsp: "block_space l H B" and own: "owns_data l"
    and a: "a \<in> A" "map_option nd_data (hp_nodes H a) = Some (Some b)" "b \<in> B"
  shows "\<exists>l' ns' bs'. llist_node_destroy l (Some a) H = Some (l', H\<lparr>hp_nodes := ns', hp_blocks := bs'\<rparr>) \<and>
    same_handle l l' \<and> same_but a (hp_nodes H) ns' \<and> same_but b (hp_blocks H) bs' \<and>
    node_space l' (H\<lparr>hp_nodes := ns', hp_blocks := bs'\<rparr>) (A - {a}) \<and>
    block_space l' (H\<lparr>hp_nodes := ns', hp_blocks := bs'\<rparr>) (B - {b})"
proof -
  obtain nd where nd: "hp_nodes H a = Some nd" "nd_data nd = Some b" using a(2) by auto
  obtain l1 bs' where b1: "llist_node_datablock_dealloc l (Some b) H = Some (l1, H\<lparr>hp_blocks := bs'\<rparr>)"
      "same_handle l l1" "sp_node_map (ll_space l1) = sp_node_map (ll_space l)"
      "same_but b (hp_blocks H) bs'" "block_space l1 (H\<lparr>hp_blocks := bs'\<rparr>) (B - {b})"
    using block_dealloc_ok [OF bsp a(3) own] by blast
  have "node_space l1 (H\<lparr>hp_blocks := bs'\<rparr>) A" by (rule node_space_other [OF nsp b1(2,3)]) simp
  then obtain l2 ns' where n2: "llist_node_dealloc l1 a (H\<lparr>hp_blocks := bs'\<rparr>) = Some (l2, H\<lparr>hp_blocks := bs', hp_nodes := ns'\<rparr>)"
      "same_handle l1 l2" "sp_db_map (ll_space l2) = sp_db_map (ll_space l1)" "same_but a (hp_nodes H) ns'"
      "node_space l2 (H\<lparr>hp_blocks := bs', hp_nodes := ns'\<rparr>) (A - {a})"
    using node_dealloc_ok [OF _ a(1), of l1 "H\<lparr>hp_blocks := bs'\<rparr>"] by auto
  have sw: "H\<lparr>hp_nodes := ns', hp_blocks := bs'\<rparr> = H\<lparr>hp_blocks := bs', hp_nodes := ns'\<rparr>" by simp
  have "block_space l2 (H\<lparr>hp_blocks := bs', hp_nodes := ns'\<rparr>) (B - {b})"
    by (rule block_space_other [OF b1(5) n2(2,3)]) simp
  then show ?thesis using nd b1 n2 same_handle_trans [OF b1(2) n2(2)] unfolding sw
    by (intro exI [of _ l2] exI [of _ ns'] exI [of _ bs']) (simp add: llist_node_destroy_def sw)
qed

lemma delete_ok:
  assumes ok: "llist_ok l H (us @ v # ws) (ds @ b # es) (xs @ x # ys)"
    and len: "length ds = length us" "length xs = length us"
  shows "\<exists>l' H'. llist_delete l v e H = Some (OK, if e then Some x else None, l', H') \<and>
    llist_ok l' H' (us @ ws) (ds @ es) (xs @ ys) \<and> stays l (ds @ b # es) H l' (ds @ es) H'"
proof -
  have rep: "list_rep (ll_first l) (ll_last l) (hp_nodes H) (us @ v # ws)"
    and cur: "ll_current l = length (us @ v # ws)" and own: "owns_data l"
    and cd: "chain_data (hp_nodes H) (us @ v # ws) (ds @ b # es)"
    and el: "map (hp_blocks H) (ds @ b # es) = map Some (xs @ x # ys)" and dd: "distinct (ds @ b # es)"
    and nsp: "node_space l H (set (us @ v # ws))" and bsp: "block_space l H (set (ds @ b # es))"
    and lim: "has_flag (ll_flags l) RCSW_NOALLOC_META \<or> has_flag (ll_flags l) RCSW_NOALLOC_DATA \<longrightarrow> limited l"
      "limited l \<longrightarrow> length (us @ v # ws) \<le> cap l"
    using ok by (auto simp: llist_ok_def)
  have da: "distinct (us @ v # ws)" using rep by (simp add: list_rep_def)
  obtain f t ns1 where un: "llist_unlink l v (hp_nodes H) = Some (l\<lparr>ll_first := f, ll_last := t\<rparr>, ns1)"
      "list_rep f t ns1 (us @ ws)" "relinked (set (us @ ws)) (hp_nodes H) ns1"
    using unlink_ok [OF rep] by blast
  let ?l1 = "l\<lparr>ll_first := f, ll_last := t, ll_current := length (us @ ws)\<rparr>" and ?H1 = "H\<lparr>hp_nodes := ns1\<rparr>"
  have dat: "map_option nd_data (ns1 y) = map_option nd_data (hp_nodes H y)" for y
    using un(3) by (simp add: relinked_def same_data_def)
  have elb: "hp_blocks H b = Some x" "map (hp_blocks H) ds = map Some xs" "map (hp_blocks H) es = map Some ys"
    using el len by simp_all
  have cdv: "map_option nd_data (hp_nodes H v) = Some (Some b)" "chain_data (hp_nodes H) (us @ ws) (ds @ es)"
    using cd len by (auto simp: chain_data_def)
  have nsp1: "node_space ?l1 ?H1 (set (us @ v # ws))"
    using nsp relinked_dom [OF un(3)] by (simp add: node_space_def cap_def)
  have bsp1: "block_space ?l1 ?H1 (set (ds @ b # es))" using bsp by (simp add: block_space_def cap_def)
  have own1: "owns_data ?l1" using own by (simp add: owns_data_def)
  obtain l' ns' bs' where de: "llist_node_destroy ?l1 (Some v) ?H1 = Some (l', ?H1\<lparr>hp_nodes := ns', hp_blocks := bs'\<rparr>)"
      "same_handle ?l1 l'" "same_but v (hp_nodes ?H1) ns'" "same_but b (hp_blocks ?H1) bs'"
      "node_space l' (?H1\<lparr>hp_nodes := ns', hp_blocks := bs'\<rparr>) (set (us @ v # ws) - {v})"
      "block_space l' (?H1\<lparr>hp_nodes := ns', hp_blocks := bs'\<rparr>) (set (ds @ b # es) - {b})"
    using node_destroy_ok [OF nsp1 bsp1 own1, of v b] cdv(1) dat by auto
  let ?H' = "?H1\<lparr>hp_nodes := ns', hp_blocks := bs'\<rparr>"
  note sh = same_handleD [OF de(2)]
  obtain vd where vd: "ns1 v = Some vd" "nd_data vd = Some b" using cdv(1) dat [of v] by (cases "ns1 v") auto
  have eval: "llist_delete l v e H = Some (OK, if e then Some x else None, l', ?H')"
    using un(1) cur vd elb(1) de(1) by (simp add: llist_delete_def dec_size_def elem_at_def Let_def)
  have sets: "set (us @ v # ws) - {v} = set (us @ ws)" "set (ds @ b # es) - {b} = set (ds @ es)"
    using da dd by auto
  have nv: "v \<notin> set (us @ ws)" "b \<notin> set (ds @ es)" using da dd by auto
  have "list_rep f t ns' (us @ ws)" by (rule list_rep_same_but [OF un(2) _ nv(1)]) (use de(3) in simp)
  moreover have "map_option nd_data (ns' y) = map_option nd_data (hp_nodes H y)" if "y \<in> set (us @ ws)" for y
  proof -
    have "y \<noteq> v" using that nv by blast
    then show ?thesis using de(3) dat [of y] by (simp add: same_but_def)
  qed
  then have "chain_data ns' (us @ ws) (ds @ es)" using cdv(2) chain_data_cong by blast
  moreover have "bs' y = hp_blocks H y" if "y \<in> set (ds @ es)" for y
    using de(4) that nv(2) by (auto simp: same_but_def)
  then have "map bs' (ds @ es) = map Some (xs @ ys)" using elb by (simp cong: map_cong)
  moreover have "distinct (ds @ es)" using dd by simp
  moreover have lim': "limited l \<longrightarrow> length (us @ ws) \<le> cap l" using lim(2) by auto
  ultimately have "llist_ok l' ?H' (us @ ws) (ds @ es) (xs @ ys)"
    using de(5,6) sets sh own lim(1) lim' unfolding llist_ok_def by (simp add: limited_def cap_def owns_data_def)
  moreover have "stays l (ds @ b # es) H l' (ds @ es) ?H'"
    using sh de(4) by (auto simp: stays_def foreign_def cap_def same_but_def)
  ultimately show ?thesis using eval by blast
qed

subsection \<open>Search\<close>

lemma llist_ok_elem:
  "llist_ok l H as ds xs \<Longrightarrow> map (node_elem H) as = map Some xs"
proof -
  assume ok: "llist_ok l H as ds xs"
  then have cd: "chain_data (hp_nodes H) as ds" and el: "map (hp_blocks H) ds = map Some xs"
    by (simp_all add: llist_ok_def)
  have "node_elem H (as ! i) = hp_blocks H (ds ! i)" if "i < length as" for i
  proof -
    have "map_option nd_data (hp_nodes H (as ! i)) = Some (Some (ds ! i))"
      using arg_cong [OF cd [unfolded chain_data_def], of "\<lambda>xs. xs ! i"] that chain_data_length [OF cd] by simp
    then show ?thesis by (auto simp: node_elem_def elem_at_def)
  qed
  then have "map (node_elem H) as = map (hp_blocks H) ds"
    using chain_data_length [OF cd] by (intro nth_equalityI) auto
  then show ?thesis using el by simp
qed

lemma query_loop:
  assumes "lseg (hp_nodes H) p as None" and "map (node_elem H) as = map Some xs"
    and "ll_cmpe l = Some c" and "\<not> has_flag (ll_flags l) RCSW_DS_LLIST_DB_PTR" and "hp_blocks H d = Some y"
  shows "while_loop (query_cond l H d) (next_node H) p =
    Some (map_option fst (find (\<lambda>(a, x). c x y = 0) (zip as xs)))"
  using assms(1,2)
proof (induction as arbitrary: p xs)
  case Nil
  then show ?case by (subst while_loop.simps) (simp add: query_cond_def)
next
  case (Cons a as)
  obtain x ys where xs: "xs = x # ys" using Cons.prems(2) by (cases xs) auto
  obtain nd where nd: "p = Some a" "hp_nodes H a = Some nd" "lseg (hp_nodes H) (nd_next nd) as None"
    using Cons.prems(1) by (auto split: option.splits)
  have e: "node_elem H a = Some x" "map (node_elem H) as = map Some ys" using Cons.prems(2) xs by auto
  note ih = Cons.IH [OF nd(3) e(2)]
  have "node_match l H d a = Some (c x y = 0)"
    using e(1) nd assms(3-5) by (simp add: node_match_def node_elem_def elem_at_def)
  then have "query_cond l H d p = Some (c x y \<noteq> 0)" "next_node H p = Some (nd_next nd)"
    using nd by (simp_all add: query_cond_def next_node_def)
  then show ?case using nd xs ih by (subst while_loop.simps) simp
qed

lemma llist_node_query_ok:
  assumes ok: "llist_ok l H as ds xs" and c: "ll_cmpe l = Some c" and d: "hp_blocks H d = Some y"
  shows "llist_node_query l (Some d) H = Some (map_option fst (find (\<lambda>(a, x). c x y = 0) (zip as xs)))"
proof -
  have "lseg (hp_nodes H) (ll_first l) as None" "\<not> has_flag (ll_flags l) RCSW_DS_LLIST_DB_PTR"
    using ok by (simp_all add: llist_ok_def list_rep_def owns_data_def)
  then show ?thesis using query_loop [OF _ llist_ok_elem [OF ok] c _ d] c
    by (simp add: llist_node_query_def)
qed

text \<open>The first element a list search finds, and the list without it.\<close>

fun remove_first :: "('a \<Rightarrow> bool) \<Rightarrow> 'a list \<Rightarrow> 'a list" where
  "remove_first P [] = []"
| "remove_first P (x # xs) = (if P x then xs else x # remove_first P xs)"

lemma find_zip_split:
  assumes "length as = length xs"
  shows "(find (\<lambda>(a, x). P x) (zip as xs) = None \<and> remove_first P xs = xs \<and> find P xs = None) \<or>
    (\<exists>us v ws ys x zs. as = us @ v # ws \<and> xs = ys @ x # zs \<and> length ys = length us \<and> P x \<and>
      find (\<lambda>(a, x). P x) (zip as xs) = Some (v, x) \<and> remove_first P xs = ys @ zs \<and> find P xs = Some x)"
  using assms
proof (induction as xs rule: list_induct2)
  case Nil
  then show ?case by simp
next
  case (Cons a as x xs)
  show ?case
  proof (cases "P x")
    case True
    then show ?thesis
      by (intro disjI2 exI [of _ "[]"] exI [of _ a] exI [of _ as] exI [of _ x] exI [of _ xs]) simp
  next
    case False
    from Cons.IH show ?thesis
    proof
      assume "find (\<lambda>(a, x). P x) (zip as xs) = None \<and> remove_first P xs = xs \<and> find P xs = None"
      then show ?thesis using False by simp
    next
      assume "\<exists>us v ws ys x zs. as = us @ v # ws \<and> xs = ys @ x # zs \<and> length ys = length us \<and> P x \<and>
        find (\<lambda>(a, x). P x) (zip as xs) = Some (v, x) \<and> remove_first P xs = ys @ zs \<and> find P xs = Some x"
      then obtain us v ws ys z zs where "as = us @ v # ws" "xs = ys @ z # zs" "length ys = length us" "P z"
        "find (\<lambda>(a, x). P x) (zip as xs) = Some (v, z)" "remove_first P xs = ys @ zs" "find P xs = Some z" by blast
      then show ?thesis using False
        by (intro disjI2, rule_tac exI [of _ "a # us"], rule_tac exI [of _ v], rule_tac exI [of _ ws],
            rule_tac exI [of _ "x # ys"], rule_tac exI [of _ z], rule_tac exI [of _ zs]) simp
    qed
  qed
qed

lemma remove_ok:
  assumes ok: "llist_ok l H as ds xs" and c: "ll_cmpe l = Some c" and d: "hp_blocks H d = Some y" and "xs \<noteq> []"
  shows "\<exists>as' ds' l' H'. llist_remove l (Some d) H = Some (OK, l', H') \<and>
    llist_ok l' H' as' ds' (remove_first (\<lambda>x. c x y = 0) xs) \<and> stays l ds H l' ds' H'"
proof -
  have len: "length as = length xs" "length ds = length as" using llist_ok_length [OF ok] by auto
  have ne: "\<not> llist_isempty l" using ok assms(4) len by (simp add: llist_isempty_def llist_ok_def)
  note q = llist_node_query_ok [OF ok c d]
  from find_zip_split [OF len(1), of "\<lambda>x. c x y = 0"] show ?thesis
  proof
    assume "find (\<lambda>(a, x). c x y = 0) (zip as xs) = None \<and> remove_first (\<lambda>x. c x y = 0) xs = xs \<and>
      find (\<lambda>x. c x y = 0) xs = None"
    then have "llist_remove l (Some d) H = Some (OK, l, H)" "remove_first (\<lambda>x. c x y = 0) xs = xs"
      using q ne by (simp_all add: llist_remove_def)
    then show ?thesis using ok by (metis stays_refl)
  next
    assume "\<exists>us v ws ys x zs. as = us @ v # ws \<and> xs = ys @ x # zs \<and> length ys = length us \<and> c x y = 0 \<and>
      find (\<lambda>(a, x). c x y = 0) (zip as xs) = Some (v, x) \<and> remove_first (\<lambda>x. c x y = 0) xs = ys @ zs \<and>
      find (\<lambda>x. c x y = 0) xs = Some x"
    then obtain us v ws ys x zs where s: "as = us @ v # ws" "xs = ys @ x # zs" "length ys = length us"
        "find (\<lambda>(a, x). c x y = 0) (zip as xs) = Some (v, x)" "remove_first (\<lambda>x. c x y = 0) xs = ys @ zs"
      by blast
    let ?n = "length us"
    have "?n < length ds" using len(2) s(1) by simp
    then obtain d1 b d2 where ds: "ds = d1 @ b # d2" "length d1 = length us"
      using id_take_nth_drop [of ?n ds] by (metis length_take min.absorb4)
    obtain l' H' where "llist_delete l v False H = Some (OK, None, l', H')" "llist_ok l' H' (us @ ws) (d1 @ d2) (ys @ zs)"
        "stays l ds H l' (d1 @ d2) H'"
      using delete_ok [OF ok [unfolded s(1,2) ds(1)] ds(2) s(3), of False] unfolding ds(1) by auto
    moreover have "llist_remove l (Some d) H = map_option (\<lambda>(st, _, l, H). (st, l, H)) (llist_delete l v False H)"
      using q s(4) ne by (cases "llist_delete l v False H") (auto simp: llist_remove_def)
    ultimately show ?thesis unfolding s(5) by auto
  qed
qed

subsection \<open>Sorting\<close>

lemma last_walk:
  "lseg ns (Some a) (a # bs) None \<Longrightarrow>
     while_loop (last_cond ns) (last_step ns) (Some a, n) = Some (Some (last (a # bs)), n + length bs)"
proof (induction bs arbitrary: a n)
  case Nil
  then show ?case by (subst while_loop.simps) (auto simp: last_cond_def split: option.splits)
next
  case (Cons b bs)
  obtain nd where nd: "ns a = Some nd" "nd_next nd = Some b" "lseg ns (Some b) (b # bs) None"
    using Cons.prems by (auto split: option.splits)
  then have "last_cond ns (Some a, n) = Some True" "last_step ns (Some a, n) = Some (Some b, Suc n)"
    by (simp_all add: last_cond_def last_step_def)
  then show ?case using Cons.IH [OF nd(3), of "Suc n"] by (subst while_loop.simps) simp
qed

definition block_of :: "node_heap \<Rightarrow> nat \<Rightarrow> nat" where
  "block_of ns a = the (the (map_option nd_data (ns a)))"

lemma chain_data_block_of:
  "chain_data ns as ds \<longleftrightarrow> ds = map (block_of ns) as \<and>
     (\<forall>a \<in> set as. map_option nd_data (ns a) = Some (Some (block_of ns a)))"
proof
  assume cd: "chain_data ns as ds"
  have "map_option nd_data (ns (as ! i)) = Some (Some (ds ! i))" if "i < length as" for i
    using arg_cong [OF cd [unfolded chain_data_def], of "\<lambda>xs. xs ! i"] that chain_data_length [OF cd] by simp
  then have e: "map_option nd_data (ns (as ! i)) = Some (Some (ds ! i)) \<and> block_of ns (as ! i) = ds ! i"
    if "i < length as" for i
    using that unfolding block_of_def by (metis option.sel)
  then have "ds = map (block_of ns) as" using chain_data_length [OF cd] by (intro nth_equalityI) auto
  moreover have "\<forall>a \<in> set as. map_option nd_data (ns a) = Some (Some (block_of ns a))"
    using e by (metis in_set_conv_nth)
  ultimately show "ds = map (block_of ns) as \<and>
     (\<forall>a \<in> set as. map_option nd_data (ns a) = Some (Some (block_of ns a)))" by blast
qed (simp add: chain_data_def)

lemma llist_sort_ok:
  assumes ok: "llist_ok l H as ds xs" and c: "ll_cmpe l = Some c" "cmp_order c" and len: "length as < 2 ^ 31"
    and two: "2 \<le> length as" and ns: "\<not> ll_sorted l"
  shows "\<exists>as' ds' xs' l' H'. llist_sort l type H = Some (OK, l', H') \<and> llist_ok l' H' as' ds' xs' \<and>
    mset xs' = mset xs \<and> sorted_cmp c xs' \<and> ll_sorted l' \<and> stays l ds H l' ds' H' \<and>
    dom (hp_nodes H') = dom (hp_nodes H) \<and> hp_blocks H' = hp_blocks H"
proof -
  let ?ns = "hp_nodes H" and ?bl = "hp_blocks H"
  let ?k = "\<lambda>a. the (node_elem H a)"
  have rep: "list_rep (ll_first l) (ll_last l) ?ns as" and cur: "ll_current l = length as"
    and cd: "chain_data ?ns as ds" and dd: "distinct ds" and el: "map ?bl ds = map Some xs"
    and nsp: "node_space l H (set as)" and bsp: "block_space l H (set ds)"
    using ok by (auto simp: llist_ok_def)
  have seg: "lseg ?ns (ll_first l) as None" and da: "distinct as" using rep by (simp_all add: list_rep_def)
  have me: "map (node_elem H) as = map Some xs" by (rule llist_ok_elem [OF ok])
  have xs: "xs = map ?k as" using arg_cong [OF me, of "map the"] by (simp add: comp_def)
  have key: "node_key ?bl ?ns a = Some (?k a)" if "a \<in> set as" for a
  proof -
    have "node_elem H a \<in> set (map Some xs)" using that me [symmetric] by simp
    then show ?thesis by auto
  qed
  obtain bs r i where r: "mergesort_rec c ?bl True ?ns (ll_first l) = Some r" "sorted_chain ?ns as bs r"
      "mergesort_iter c ?bl True ?ns (ll_first l) = Some i" "sorted_chain ?ns as bs i"
      "mset bs = mset as" "sorted_cmp c (map ?k bs)"
    using mergesort_agree [OF c(2) seg da two len key] by blast
  define q where "q = (case type of EXEC_REC \<Rightarrow> r | EXEC_ITER \<Rightarrow> i)"
  obtain f ns' where q: "q = (f, ns')" by (cases q)
  have ch: "lseg ns' f bs None" "prevs ns' None bs" "same_data ?ns ns'" "\<forall>a. a \<notin> set as \<longrightarrow> ns' a = ?ns a"
    using r(2,4) q by (auto simp: q_def sorted_chain_def split: exec_type.splits)
  have "bs \<noteq> []" using two r(5) by auto
  then obtain b cs where bs: "bs = b # cs" "f = Some b" using ch(1) by (cases bs) auto
  have lb: "length bs = length as" using r(5) by (metis size_mset)
  have walk: "while_loop (last_cond ns') (last_step ns') (f, 1) = Some (last_of None bs, length bs)"
    using last_walk [of ns' b cs 1] ch(1) bs by (simp add: last_of_def)
  let ?l = "l\<lparr>ll_first := f, ll_sorted := True, ll_last := last_of None bs\<rparr>" and ?H = "H\<lparr>hp_nodes := ns'\<rparr>"
  have eval: "llist_sort l type H = Some (OK, ?l, ?H)"
    using c(1) cur two ns r(1,3) q walk lb by (simp add: llist_sort_def q_def split: exec_type.splits)
  have sb: "set bs = set as" using r(5) by (metis set_mset_mset)
  have db: "distinct bs" using r(5) da by (metis mset_eq_imp_distinct_iff)
  let ?ds = "map (block_of ?ns) bs"
  have cdb: "ds = map (block_of ?ns) as" "\<forall>a \<in> set as. map_option nd_data (?ns a) = Some (Some (block_of ?ns a))"
    using cd by (simp_all add: chain_data_block_of)
  have "chain_data ?ns bs ?ds" using cdb(2) sb by (simp add: chain_data_block_of)
  then have cd': "chain_data ns' bs ?ds"
    using ch(3) by (subst chain_data_cong [of _ _ ?ns]) (auto simp: same_data_def)
  have md: "mset ?ds = mset ds" using r(5) cdb(1) by simp
  then have ds': "distinct ?ds" "set ?ds = set ds" using dd by (metis mset_eq_imp_distinct_iff, metis set_mset_mset)
  have "?bl (block_of ?ns a) = node_elem H a" if "a \<in> set as" for a
    using cdb(2) that by (auto simp: node_elem_def elem_at_def)
  moreover have "node_elem H a = Some (?k a)" if "a \<in> set as" for a
    using key [OF that] by simp
  ultimately have el': "map ?bl ?ds = map Some (map ?k bs)" using sb by simp
  have dom: "dom ns' = dom ?ns" by (rule relinked_dom [of "set as"]) (use ch in \<open>simp add: relinked_def\<close>)
  have "llist_ok ?l ?H bs ?ds (map ?k bs)"
    using ch db cd' el' ds' nsp bsp sb dom ok lb
    by (simp add: llist_ok_def list_rep_def node_space_def block_space_def cap_def limited_def owns_data_def)
  moreover have "stays l ds H ?l ?ds ?H" using ds'(2) by (simp add: stays_def foreign_def cap_def)
  moreover have "mset (map ?k bs) = mset xs" using r(5) xs by simp
  moreover have "ll_sorted ?l" "dom (hp_nodes ?H) = dom ?ns" "hp_blocks ?H = ?bl" using dom by simp_all
  ultimately show ?thesis using eval r(6) by blast
qed

subsection \<open>Sequences of operations\<close>

text \<open>
  The specification: a list that may be bounded, whose operands are addresses with values
  \<open>val\<close>. An insertion may run out of memory, and then changes nothing.
\<close>

datatype lop = Append nat | Prepend nat | Remove nat | Query nat

datatype 'a lout = Status status | Found "'a option"

inductive list_step ::
  "('a \<Rightarrow> 'a \<Rightarrow> int) \<Rightarrow> nat option \<Rightarrow> (nat \<Rightarrow> 'a) \<Rightarrow> lop \<Rightarrow> 'a list \<Rightarrow> 'a lout \<Rightarrow> 'a list \<Rightarrow> bool"
  for c lim val where
  append: "lim \<noteq> Some (length xs) \<Longrightarrow> list_step c lim val (Append d) xs (Status OK) (xs @ [val d])"
| append_full: "lim = Some (length xs) \<Longrightarrow> list_step c lim val (Append d) xs (Status (ERROR (Some ENOSPC))) xs"
| append_memory: "lim \<noteq> Some (length xs) \<Longrightarrow> list_step c lim val (Append d) xs (Status (ERROR (Some ENOMEM))) xs"
| prepend: "lim \<noteq> Some (length xs) \<Longrightarrow> list_step c lim val (Prepend d) xs (Status OK) (val d # xs)"
| prepend_full: "lim = Some (length xs) \<Longrightarrow> list_step c lim val (Prepend d) xs (Status (ERROR (Some ENOSPC))) xs"
| prepend_memory: "lim \<noteq> Some (length xs) \<Longrightarrow> list_step c lim val (Prepend d) xs (Status (ERROR (Some ENOMEM))) xs"
| remove: "xs \<noteq> [] \<Longrightarrow> list_step c lim val (Remove d) xs (Status OK) (remove_first (\<lambda>x. c x (val d) = 0) xs)"
| remove_empty: "list_step c lim val (Remove d) [] (Status (ERROR (Some EINVAL))) []"
| query: "list_step c lim val (Query d) xs (Found (find (\<lambda>x. c x (val d) = 0) xs)) xs"

inductive_simps list_step_query: "list_step c lim val (Query d) xs out ys"
inductive_simps list_step_append: "list_step c lim val (Append d) xs (Status OK) ys"

fun list_steps ::
  "('a \<Rightarrow> 'a \<Rightarrow> int) \<Rightarrow> nat option \<Rightarrow> (nat \<Rightarrow> 'a) \<Rightarrow> lop list \<Rightarrow> 'a list \<Rightarrow> 'a lout list \<Rightarrow> 'a list \<Rightarrow> bool" where
  "list_steps c lim val [] xs [] ys \<longleftrightarrow> xs = ys"
| "list_steps c lim val (p # ops) xs (out # outs) ys \<longleftrightarrow>
     (\<exists>zs. list_step c lim val p xs out zs \<and> list_steps c lim val ops zs outs ys)"
| "list_steps c lim val ops xs outs ys \<longleftrightarrow> False"

text \<open>The same operations on the linked list; a query reads the element it finds.\<close>

fun operand :: "lop \<Rightarrow> nat" where
  "operand (Append d) = d"
| "operand (Prepend d) = d"
| "operand (Remove d) = d"
| "operand (Query d) = d"

fun run_op :: "'a lenv \<Rightarrow> lop \<Rightarrow> 'a llist \<times> 'a lheap \<Rightarrow> ('a lout \<times> 'a llist \<times> 'a lheap) option" where
  "run_op env (Append d) (l, H) = map_option (\<lambda>(st, s). (Status st, s)) (llist_append env l (Some d) H)"
| "run_op env (Prepend d) (l, H) = map_option (\<lambda>(st, s). (Status st, s)) (llist_prepend env l (Some d) H)"
| "run_op env (Remove d) (l, H) = map_option (\<lambda>(st, s). (Status st, s)) (llist_remove l (Some d) H)"
| "run_op env (Query d) (l, H) = do {
     p \<leftarrow> llist_data_query l (Some d) H;
     case p of None \<Rightarrow> Some (Found None, l, H)
     | Some b \<Rightarrow> map_option (\<lambda>v. (Found (Some v), l, H)) (hp_blocks H b)
   }"

fun run_ops :: "'a lenv \<Rightarrow> lop list \<Rightarrow> 'a llist \<times> 'a lheap \<Rightarrow> ('a lout list \<times> 'a llist \<times> 'a lheap) option" where
  "run_ops env [] s = Some ([], s)"
| "run_ops env (p # ops) s = do {
     (out, s) \<leftarrow> run_op env p s;
     (outs, s) \<leftarrow> run_ops env ops s;
     Some (out # outs, s)
   }"

definition limit_of :: "'a llist \<Rightarrow> nat option" where
  "limit_of l = (if ll_max_elts l = -1 then None else Some (cap l))"

lemma data_query_ok:
  assumes ok: "llist_ok l H as ds xs" and c: "ll_cmpe l = Some c" and d: "hp_blocks H d = Some y"
  shows "run_op env (Query d) (l, H) = Some (Found (find (\<lambda>x. c x y = 0) xs), l, H)"
proof -
  have len: "length as = length xs" using llist_ok_length [OF ok] by simp
  note q = llist_node_query_ok [OF ok c d]
  from find_zip_split [OF len, of "\<lambda>x. c x y = 0"] show ?thesis
  proof
    assume "find (\<lambda>(a, x). c x y = 0) (zip as xs) = None \<and> remove_first (\<lambda>x. c x y = 0) xs = xs \<and>
      find (\<lambda>x. c x y = 0) xs = None"
    then show ?thesis using q c by (simp add: llist_data_query_def)
  next
    assume "\<exists>us v ws ys x zs. as = us @ v # ws \<and> xs = ys @ x # zs \<and> length ys = length us \<and> c x y = 0 \<and>
      find (\<lambda>(a, x). c x y = 0) (zip as xs) = Some (v, x) \<and> remove_first (\<lambda>x. c x y = 0) xs = ys @ zs \<and>
      find (\<lambda>x. c x y = 0) xs = Some x"
    then obtain us v ws ys x zs where s: "as = us @ v # ws" "xs = ys @ x # zs" "length ys = length us"
        "find (\<lambda>(a, x). c x y = 0) (zip as xs) = Some (v, x)" "find (\<lambda>x. c x y = 0) xs = Some x"
      by blast
    have "map (node_elem H) (us @ v # ws) = map Some (ys @ x # zs)" using llist_ok_elem [OF ok] s(1,2) by simp
    then have "node_elem H v = Some x" using s(3) by simp
    then obtain nd b where "hp_nodes H v = Some nd" "nd_data nd = Some b" "hp_blocks H b = Some x"
      by (auto simp: node_elem_def elem_at_def split: option.splits)
    then show ?thesis using q c s(4,5) by (simp add: llist_data_query_def)
  qed
qed

lemma run_op_ok:
  assumes m: "malloc_ok env" and ok: "llist_ok l H as ds xs" and c: "ll_cmpe l = Some c"
    and srt: "\<not> has_flag (ll_flags l) RCSW_DS_SORTED"
    and arg: "hp_blocks H (operand p) = Some (val (operand p))" "foreign l ds (operand p)"
  shows "\<exists>out l' H' as' ds' ys. run_op env p (l, H) = Some (out, l', H') \<and>
    list_step c (limit_of l) val p xs out ys \<and> llist_ok l' H' as' ds' ys \<and> stays l ds H l' ds' H'"
proof -
  have lens: "length as = length xs" "ll_current l = length xs"
    using llist_ok_length [OF ok] ok by (auto simp: llist_ok_def)
  have full: "llist_isfull l \<and> ll_max_elts l \<noteq> -1 \<longleftrightarrow> limit_of l = Some (length xs)"
    using lens by (auto simp: llist_isfull_def limit_of_def cap_def)
  show ?thesis
  proof (cases p)
    case (Append d)
    show ?thesis
    proof (cases "limit_of l = Some (length xs)")
      case True
      then have "llist_append env l (Some d) H = Some (ERROR (Some ENOSPC), l, H)"
        using full by (simp add: llist_append_def llist_insert_def)
      then show ?thesis using Append True ok
        by (intro exI [of _ "Status (ERROR (Some ENOSPC))"] exI [of _ l] exI [of _ H] exI [of _ as] exI [of _ ds]
            exI [of _ xs]) (simp add: list_step.append_full)
    next
      case False
      have op: "hp_blocks H d = Some (val d)" "foreign l ds d" using arg Append by simp_all
      have lk: "(link_last, \<lambda>a. as @ [a], \<lambda>b. ds @ [b], xs @ [val d]) = (link_last, \<lambda>a. as @ [a], \<lambda>b. ds @ [b], xs @ [val d]) \<or>
          (link_last, \<lambda>a. as @ [a], \<lambda>b. ds @ [b], xs @ [val d]) = (link_first, \<lambda>a. a # as, \<lambda>b. b # ds, val d # xs)" by simp
      from insert_ok [OF m ok _ op srt lk] full False
      consider l' H' where "llist_insert link_last env l (Some d) H = Some (ERROR (Some ENOMEM), l', H')"
          "llist_ok l' H' as ds xs" "stays l ds H l' ds H'"
        | a b l' H' where "llist_insert link_last env l (Some d) H = Some (OK, l', H')"
          "llist_ok l' H' (as @ [a]) (ds @ [b]) (xs @ [val d])" "stays l ds H l' (ds @ [b]) H'"
        by blast
      then show ?thesis
      proof cases
        case 1
        then show ?thesis using Append list_step.append_memory [OF False, of c val d]
          by (intro exI [of _ "Status (ERROR (Some ENOMEM))"] exI [of _ l'] exI [of _ H'], rule_tac exI [of _ as],
              rule_tac exI [of _ ds], rule_tac exI [of _ xs]) (simp add: llist_append_def)
      next
        case 2
        then show ?thesis using Append list_step.append [OF False, of c val d]
          by (intro exI [of _ "Status OK"] exI [of _ l'] exI [of _ H'], rule_tac exI [of _ "as @ [a]"],
              rule_tac exI [of _ "ds @ [b]"], rule_tac exI [of _ "xs @ [val d]"]) (simp add: llist_append_def)
      qed
    qed
  next
    case (Prepend d)
    show ?thesis
    proof (cases "limit_of l = Some (length xs)")
      case True
      then have "llist_prepend env l (Some d) H = Some (ERROR (Some ENOSPC), l, H)"
        using full by (simp add: llist_prepend_def llist_insert_def)
      then show ?thesis using Prepend True ok
        by (intro exI [of _ "Status (ERROR (Some ENOSPC))"] exI [of _ l] exI [of _ H] exI [of _ as] exI [of _ ds]
            exI [of _ xs]) (simp add: list_step.prepend_full)
    next
      case False
      have op: "hp_blocks H d = Some (val d)" "foreign l ds d" using arg Prepend by simp_all
      have lk: "(link_first, \<lambda>a. a # as, \<lambda>b. b # ds, val d # xs) = (link_last, \<lambda>a. as @ [a], \<lambda>b. ds @ [b], xs @ [val d]) \<or>
          (link_first, \<lambda>a. a # as, \<lambda>b. b # ds, val d # xs) = (link_first, \<lambda>a. a # as, \<lambda>b. b # ds, val d # xs)" by simp
      from insert_ok [OF m ok _ op srt lk] full False
      consider l' H' where "llist_insert link_first env l (Some d) H = Some (ERROR (Some ENOMEM), l', H')"
          "llist_ok l' H' as ds xs" "stays l ds H l' ds H'"
        | a b l' H' where "llist_insert link_first env l (Some d) H = Some (OK, l', H')"
          "llist_ok l' H' (a # as) (b # ds) (val d # xs)" "stays l ds H l' (b # ds) H'"
        by blast
      then show ?thesis
      proof cases
        case 1
        then show ?thesis using Prepend list_step.prepend_memory [OF False, of c val d]
          by (intro exI [of _ "Status (ERROR (Some ENOMEM))"] exI [of _ l'] exI [of _ H'], rule_tac exI [of _ as],
              rule_tac exI [of _ ds], rule_tac exI [of _ xs]) (simp add: llist_prepend_def)
      next
        case 2
        then show ?thesis using Prepend list_step.prepend [OF False, of c val d]
          by (intro exI [of _ "Status OK"] exI [of _ l'] exI [of _ H'], rule_tac exI [of _ "a # as"],
              rule_tac exI [of _ "b # ds"], rule_tac exI [of _ "val d # xs"]) (simp add: llist_prepend_def)
      qed
    qed
  next
    case (Remove d)
    show ?thesis
    proof (cases "xs = []")
      case True
      then have "llist_remove l (Some d) H = Some (ERROR (Some EINVAL), l, H)"
        using lens by (simp add: llist_remove_def llist_isempty_def)
      then show ?thesis using Remove True ok list_step.remove_empty [of c "limit_of l" val d]
        by (intro exI [of _ "Status (ERROR (Some EINVAL))"] exI [of _ l] exI [of _ H] exI [of _ as] exI [of _ ds]
            exI [of _ xs]) simp
    next
      case False
      have op: "hp_blocks H d = Some (val d)" using arg Remove by simp
      obtain as' ds' l' H' where "llist_remove l (Some d) H = Some (OK, l', H')"
          "llist_ok l' H' as' ds' (remove_first (\<lambda>x. c x (val d) = 0) xs)" "stays l ds H l' ds' H'"
        using remove_ok [OF ok c op False] by blast
      then show ?thesis using Remove list_step.remove [OF False, of c "limit_of l" val d]
        by (intro exI [of _ "Status OK"] exI [of _ l'] exI [of _ H'] exI [of _ as'] exI [of _ ds'], rule_tac exI) simp
    qed
  next
    case (Query d)
    then show ?thesis using data_query_ok [OF ok c, of d "val d" env] arg list_step.query [of c "limit_of l" val d xs] ok
      by (metis operand.simps(4) stays_refl)
  qed
qed

lemma run_ops_ok:
  assumes m: "malloc_ok env"
  shows "llist_ok l H as ds xs \<Longrightarrow> ll_cmpe l = Some c \<Longrightarrow> \<not> has_flag (ll_flags l) RCSW_DS_SORTED \<Longrightarrow>
    \<forall>p \<in> set ops. hp_blocks H (operand p) = Some (val (operand p)) \<and> foreign l ds (operand p) \<Longrightarrow>
    \<exists>outs l' H' as' ds' ys. run_ops env ops (l, H) = Some (outs, l', H') \<and>
      list_steps c (limit_of l) val ops xs outs ys \<and> llist_ok l' H' as' ds' ys"
proof (induction ops arbitrary: l H as ds xs)
  case Nil
  then show ?case by (intro exI [of _ "[]"] exI [of _ l] exI [of _ H] exI [of _ as] exI [of _ ds] exI [of _ xs]) simp
next
  case (Cons p ops)
  obtain out l1 H1 as1 ds1 zs where s: "run_op env p (l, H) = Some (out, l1, H1)"
      "list_step c (limit_of l) val p xs out zs" "llist_ok l1 H1 as1 ds1 zs" "stays l ds H l1 ds1 H1"
    using run_op_ok [OF m Cons.prems(1-3), of p val] Cons.prems(4) by auto
  have cfg: "ll_cmpe l1 = Some c" "\<not> has_flag (ll_flags l1) RCSW_DS_SORTED" "limit_of l1 = limit_of l"
    using s(4) Cons.prems(2,3) by (auto simp: stays_def limit_of_def cap_def)
  have args: "\<forall>p \<in> set ops. hp_blocks H1 (operand p) = Some (val (operand p)) \<and> foreign l1 ds1 (operand p)"
    using s(4) Cons.prems(4) by (auto simp: stays_def)
  obtain outs l' H' as' ds' ys where "run_ops env ops (l1, H1) = Some (outs, l', H')"
      "list_steps c (limit_of l1) val ops zs outs ys" "llist_ok l' H' as' ds' ys"
    using Cons.IH [OF s(3) cfg(1,2) args] by blast
  then show ?case using s(1,2) cfg(3)
    by (intro exI [of _ "out # outs"] exI [of _ l'] exI [of _ H'] exI [of _ as'] exI [of _ ds'] exI [of _ ys]) auto
qed

subsection \<open>Properties\<close>

text \<open>
  C3: any sequence of insertions, removals and queries on a list that owns its elements, with
  operands outside the list, returns without a fault, whatever memory nodes and elements live in
  and whatever allocations fail; it answers as the list specification allows, and the heap ends
  as a well-formed list of the elements the specification says.
\<close>

theorem llist_refines_list:
  assumes "malloc_ok env" and "llist_ok l H as ds xs" and "ll_cmpe l = Some c"
    and "\<not> has_flag (ll_flags l) RCSW_DS_SORTED"
    and "\<forall>p \<in> set ops. hp_blocks H (operand p) = Some (val (operand p)) \<and> foreign l ds (operand p)"
  shows "\<exists>outs l' H' as' ds' ys. run_ops env ops (l, H) = Some (outs, l', H') \<and>
    list_steps c (limit_of l) val ops xs outs ys \<and> llist_ok l' H' as' ds' ys"
  using assms by (rule run_ops_ok)

definition empty_list :: "int llist" where
  "empty_list = \<lparr>ll_cmpe = Some (\<lambda>x y. x - y),
     ll_space = \<lparr>sp_datablocks = 0, sp_db_map = [], sp_nodes = 0, sp_node_map = []\<rparr>, ll_current = 0,
     ll_max_elts = -1, ll_elt_size = 8, ll_sorted = False, ll_first = None, ll_last = None, ll_flags = 0\<rparr>"

definition one_node_env :: "int lenv" where
  "one_node_env = \<lparr>
     env_node = (\<lambda>H. if hp_nodes H 1 = None then Some (1, \<lparr>nd_next = None, nd_prev = None, nd_data = None\<rparr>) else None),
     env_block = (\<lambda>H. if hp_blocks H 2 = None then Some (2, 0) else None)\<rparr>"

lemma empty_list_ok: "llist_ok empty_list \<lparr>hp_nodes = Map.empty, hp_blocks = bs\<rparr> [] [] []"
  by (simp add: llist_ok_def empty_list_def owns_data_def chain_data_def node_space_def block_space_def)

lemma one_node_env_ok: "malloc_ok one_node_env"
  by (auto simp: malloc_ok_def one_node_env_def split: if_splits)

theorem llist_refines_list_witness:
  "\<exists>outs l' H' as' ds' ys. run_ops one_node_env [Append 50, Query 50, Remove 50]
      (empty_list, \<lparr>hp_nodes = Map.empty, hp_blocks = [50 \<mapsto> 7]\<rparr>) = Some (outs, l', H') \<and>
    list_steps (\<lambda>x y. x - y) (limit_of empty_list) (\<lambda>_. 7) [Append 50, Query 50, Remove 50] [] outs ys \<and>
    llist_ok l' H' as' ds' ys"
  by (rule llist_refines_list [OF one_node_env_ok empty_list_ok])
    (simp_all add: empty_list_def foreign_def)

text \<open>
  C39: sorting an unsorted list of two or more elements relinks it into a well-formed list of
  the same elements in order and marks it sorted. While memory is left, an insertion without
  \<open>RCSW_DS_SORTED\<close> then succeeds and does not clear the mark: sorting again returns \<open>OK\<close> and
  changes nothing, and the list stays unsorted when an element exceeds the one appended.
\<close>

theorem llist_sort_marks:
  assumes "malloc_ok env" and "llist_ok l H as ds xs" and "ll_cmpe l = Some c" and "cmp_order c"
    and "2 \<le> length as" and "length as < 2 ^ 31" and "\<not> has_flag (ll_flags l) RCSW_DS_SORTED"
    and "hp_blocks H d = Some v" and "foreign l ds d" and "ll_max_elts l = -1" and "\<not> ll_sorted l"
    and "mem_left env H"
  shows "\<exists>as' ds' xs' l' H'. llist_sort l type H = Some (OK, l', H') \<and> llist_ok l' H' as' ds' xs' \<and>
    mset xs' = mset xs \<and> sorted_cmp c xs' \<and>
    (\<exists>a b l2 H2. llist_append env l' (Some d) H' = Some (OK, l2, H2) \<and>
       llist_ok l2 H2 (as' @ [a]) (ds' @ [b]) (xs' @ [v]) \<and>
       llist_sort l2 type' H2 = Some (OK, l2, H2) \<and>
       ((\<exists>x \<in># mset xs. 0 < c x v) \<longrightarrow> \<not> sorted_cmp c (xs' @ [v])))"
proof -
  obtain as' ds' xs' l' H' where s: "llist_sort l type H = Some (OK, l', H')" "llist_ok l' H' as' ds' xs'"
      "mset xs' = mset xs" "sorted_cmp c xs'" "ll_sorted l'" "stays l ds H l' ds' H'"
      "dom (hp_nodes H') = dom (hp_nodes H)" "hp_blocks H' = hp_blocks H"
    using llist_sort_ok [OF assms(2-4,6,5,11)] by blast
  have cfg: "ll_cmpe l' = Some c" "\<not> has_flag (ll_flags l') RCSW_DS_SORTED" "ll_max_elts l' = -1"
      "hp_blocks H' d = Some v" "foreign l' ds' d"
    using s(6) assms(3,7-10) by (auto simp: stays_def)
  have room: "\<not> (llist_isfull l' \<and> ll_max_elts l' \<noteq> -1)" using cfg(3) by simp
  have heap: "mem_left env H'" using assms(12) s(7,8) by (simp add: mem_left_def)
  have flags: "\<not> has_flag (ll_flags l') RCSW_NOALLOC_META" "\<not> has_flag (ll_flags l') RCSW_NOALLOC_DATA"
    using s(2) cfg(3) by (auto simp: llist_ok_def limited_def)
  have lk: "(link_last, \<lambda>a. as' @ [a], \<lambda>b. ds' @ [b], xs' @ [v]) = (link_last, \<lambda>a. as' @ [a], \<lambda>b. ds' @ [b], xs' @ [v]) \<or>
      (link_last, \<lambda>a. as' @ [a], \<lambda>b. ds' @ [b], xs' @ [v]) = (link_first, \<lambda>a. a # as', \<lambda>b. b # ds', v # xs')" by simp
  obtain a b l2 H2 where ins: "llist_append env l' (Some d) H' = Some (OK, l2, H2)"
      "llist_ok l2 H2 (as' @ [a]) (ds' @ [b]) (xs' @ [v])" "stays l' ds' H' l2 (ds' @ [b]) H2" "ll_sorted l2 = ll_sorted l'"
    using insert_ok [OF assms(1) s(2) room cfg(4,5,2) lk] insert_granted [OF heap flags room cfg(2)]
    unfolding llist_append_def by blast
  have "llist_sort l2 type' H2 = Some (OK, l2, H2)"
    using ins(3,4) s(5) cfg(1) by (simp add: llist_sort_def stays_def)
  moreover have "\<not> sorted_cmp c (xs' @ [v])" if "\<exists>x \<in># mset xs. 0 < c x v"
    using that unfolding s(3) [symmetric] by (auto simp: sorted_cmp_def sorted_wrt_append not_le)
  ultimately show ?thesis using s ins(1,2) by blast
qed

definition pair_list :: "int llist" where
  "pair_list = empty_list\<lparr>ll_first := Some 1, ll_last := Some 2, ll_current := 2\<rparr>"

definition pair_heap :: "int lheap" where
  "pair_heap = \<lparr>hp_nodes = two_nodes, hp_blocks = [10 \<mapsto> 5, 11 \<mapsto> 3, 50 \<mapsto> 1]\<rparr>"

lemma pair_list_ok: "llist_ok pair_list pair_heap [1, 2] [10, 11] [5, 3]"
  by (simp add: llist_ok_def pair_list_def empty_list_def pair_heap_def two_nodes_def list_rep_def
      owns_data_def chain_data_def node_space_def block_space_def limited_def last_of_def)

definition spare_env :: "int lenv" where
  "spare_env = \<lparr>
     env_node = (\<lambda>H. if hp_nodes H 3 = None then Some (3, \<lparr>nd_next = None, nd_prev = None, nd_data = None\<rparr>) else None),
     env_block = (\<lambda>H. if hp_blocks H 12 = None then Some (12, 0) else None)\<rparr>"

lemma spare_env_ok: "malloc_ok spare_env" "mem_left spare_env pair_heap"
proof -
  show "malloc_ok spare_env" by (auto simp: malloc_ok_def spare_env_def split: if_splits)
  have "3 \<notin> dom (hp_nodes pair_heap)" "12 \<notin> dom (hp_blocks pair_heap)"
    by (simp_all add: pair_heap_def two_nodes_def)
  then show "mem_left spare_env pair_heap" by (auto simp: mem_left_def spare_env_def)
qed

theorem llist_sort_marks_witness:
  "\<exists>as' ds' xs' l' H'. llist_sort pair_list EXEC_REC pair_heap = Some (OK, l', H') \<and> llist_ok l' H' as' ds' xs' \<and>
    mset xs' = mset [5, 3] \<and> sorted_cmp (\<lambda>x y. x - y) xs' \<and>
    (\<exists>a b l2 H2. llist_append spare_env l' (Some 50) H' = Some (OK, l2, H2) \<and>
       llist_ok l2 H2 (as' @ [a]) (ds' @ [b]) (xs' @ [1]) \<and>
       llist_sort l2 EXEC_ITER H2 = Some (OK, l2, H2) \<and>
       ((\<exists>x \<in># mset [5, 3]. 0 < x - (1 :: int)) \<longrightarrow> \<not> sorted_cmp (\<lambda>x y. x - y) (xs' @ [1])))"
proof (rule llist_sort_marks [OF spare_env_ok(1) pair_list_ok])
  show "cmp_order (\<lambda>x y. x - y :: int)" by unfold_locales auto
qed (simp_all add: pair_list_def empty_list_def foreign_def spare_env_ok(2), simp add: pair_heap_def)

end
