(* ===== verification/Tree_Heap.thy ===== *)
theory Tree_Heap
  imports Rcsw_Prelude
begin

text \<open>
  The heap of tree nodes (struct bstree_node in include/rcsw/ds/bstree.h, and the two node
  types derived from it, which have the same fields): nodes and datablocks live in two maps
  from addresses, address 0 is \<open>NULL\<close>, and an access through an address without a node is a
  fault. A key is the four bytes the comparison callback reads.
\<close>

record 'k tnode =
  tn_key :: 'k
  tn_data :: "nat option"
  tn_left :: nat
  tn_right :: nat
  tn_parent :: nat
  tn_red :: bool
  tn_aux :: int

text \<open>
  \<open>tn_aux\<close> is the last field: \<open>tmp\<close> of a \<open>bstree_node\<close>, \<open>max_high\<close> of an
  \<open>inttree_node\<close>, \<open>count\<close> of an \<open>ostree_node\<close>. It is an \<open>int32_t\<close> and wraps.
\<close>

type_synonym 'k tnodes = "nat \<Rightarrow> 'k tnode option"

record ('k, 'a) theap =
  th_nodes :: "'k tnodes"
  th_blocks :: "nat \<Rightarrow> 'a option"

definition wrap32 :: "int \<Rightarrow> int" where
  "wrap32 n = (n + 2 ^ 31) mod 2 ^ 32 - 2 ^ 31"

lemma wrap32_small [simp]: "- (2 ^ 31) \<le> n \<Longrightarrow> n < 2 ^ 31 \<Longrightarrow> wrap32 n = n"
  by (simp add: wrap32_def)

subsection \<open>Accesses\<close>

definition lft :: "'k tnodes \<Rightarrow> nat \<Rightarrow> nat option" where
  "lft ns p = map_option tn_left (ns p)"

definition rgt :: "'k tnodes \<Rightarrow> nat \<Rightarrow> nat option" where
  "rgt ns p = map_option tn_right (ns p)"

definition par :: "'k tnodes \<Rightarrow> nat \<Rightarrow> nat option" where
  "par ns p = map_option tn_parent (ns p)"

definition par_par :: "'k tnodes \<Rightarrow> nat \<Rightarrow> nat option" where
  "par_par ns p = do { q \<leftarrow> par ns p; par ns q }"

definition isred :: "'k tnodes \<Rightarrow> nat \<Rightarrow> bool option" where
  "isred ns p = map_option tn_red (ns p)"

definition node_upd :: "nat \<Rightarrow> ('k tnode \<Rightarrow> 'k tnode) \<Rightarrow> 'k tnodes \<Rightarrow> 'k tnodes option" where
  "node_upd p f ns = (case ns p of None \<Rightarrow> None | Some nd \<Rightarrow> Some (ns(p \<mapsto> f nd)))"

definition put_left :: "nat \<Rightarrow> nat \<Rightarrow> 'k tnodes \<Rightarrow> 'k tnodes option" where
  "put_left p v = node_upd p (\<lambda>nd. nd\<lparr>tn_left := v\<rparr>)"

definition put_right :: "nat \<Rightarrow> nat \<Rightarrow> 'k tnodes \<Rightarrow> 'k tnodes option" where
  "put_right p v = node_upd p (\<lambda>nd. nd\<lparr>tn_right := v\<rparr>)"

definition put_parent :: "nat \<Rightarrow> nat \<Rightarrow> 'k tnodes \<Rightarrow> 'k tnodes option" where
  "put_parent p v = node_upd p (\<lambda>nd. nd\<lparr>tn_parent := v\<rparr>)"

definition put_red :: "nat \<Rightarrow> bool \<Rightarrow> 'k tnodes \<Rightarrow> 'k tnodes option" where
  "put_red p v = node_upd p (\<lambda>nd. nd\<lparr>tn_red := v\<rparr>)"

definition put_aux :: "nat \<Rightarrow> int \<Rightarrow> 'k tnodes \<Rightarrow> 'k tnodes option" where
  "put_aux p v = node_upd p (\<lambda>nd. nd\<lparr>tn_aux := v\<rparr>)"

lemmas tree_access = lft_def rgt_def par_def isred_def par_par_def
lemmas tree_update = node_upd_def put_left_def put_right_def put_parent_def put_red_def put_aux_def

end
