(* ===== verification/Bstree.thy ===== *)
theory Bstree
  imports Alloc Hash Tree_Heap
begin

text \<open>
  Binary search trees (src/ds/bstree.c, src/ds/bstree_node.c), red-black trees (src/ds/rbtree.c),
  interval trees (src/ds/inttree.c, inttree_node.c) and order statistics trees (src/ds/ostree.c,
  ostree_node.c): one family on the heap of tree nodes, told apart by flags. The two sentinels
  are nodes: \<open>root\<close>, whose left child is the root of the tree, and \<open>nil\<close>. Printing and the
  size queries are not modelled.
\<close>

subsection \<open>State\<close>

definition RCSW_DS_BSTREE_RB :: u32 where [flag_defs]: "RCSW_DS_BSTREE_RB = 0x400"
definition RCSW_DS_BSTREE_INT :: u32 where [flag_defs]: "RCSW_DS_BSTREE_INT = 0x800"
definition RCSW_DS_BSTREE_OS :: u32 where [flag_defs]: "RCSW_DS_BSTREE_OS = 0x1000"

record interval_data =
  iv_high :: int
  iv_low :: int

record bstree_space_mgmt =
  bs_datablocks :: nat
  bs_db_map :: allocm
  bs_nodes :: nat
  bs_node_map :: allocm

record 'k bstree_params =
  bp_cmpkey :: "('k \<Rightarrow> 'k \<Rightarrow> int) option"
  bp_meta :: "(allocm \<times> nat) option"
  bp_elements :: "(allocm \<times> nat) option"
  bp_elt_size :: nat
  bp_max_elts :: int
  bp_flags :: u32

record 'k bstree =
  bt_cmpkey :: "'k \<Rightarrow> 'k \<Rightarrow> int"
  bt_space :: bstree_space_mgmt
  bt_current :: nat
  bt_depth :: nat
  bt_flags :: u32
  bt_max_elts :: int
  bt_elt_size :: nat
  bt_root :: nat
  bt_nil :: nat

text \<open>
  What is outside the code: the answers of \<open>malloc\<close> (an address and what the memory holds, or
  \<open>NULL\<close>), the bits drawn from \<open>random\<close>, how the bytes of an element read as a
  \<open>struct interval_data\<close>, the element with the bytes of such a struct, and an element after
  a write to its first byte.
\<close>

record ('k, 'a) tenv =
  te_node :: "('k, 'a) theap \<Rightarrow> (nat \<times> 'k tnode) option"
  te_block :: "('k, 'a) theap \<Rightarrow> (nat \<times> 'a) option"
  te_rnd_node :: "('k, 'a) theap \<Rightarrow> u32"
  te_rnd_block :: "('k, 'a) theap \<Rightarrow> u32"
  te_interval :: "'a \<Rightarrow> interval_data"
  te_of_interval :: "interval_data \<Rightarrow> 'a"
  te_first_byte :: "u8 \<Rightarrow> 'a \<Rightarrow> 'a"

definition bstree_isfull :: "'k bstree \<Rightarrow> bool" where
  "bstree_isfull t \<longleftrightarrow> bt_current t = size_of_int (bt_max_elts t)"

definition bstree_isempty :: "'k bstree \<Rightarrow> bool" where
  "bstree_isempty t \<longleftrightarrow> bt_current t = 0"

definition bstree_size :: "'k bstree \<Rightarrow> nat" where
  "bstree_size t = bt_current t"

text \<open>\<open>tree->root->left\<close>.\<close>

definition RCSW_BSTREE_ROOT :: "'k bstree \<Rightarrow> 'k tnodes \<Rightarrow> nat option" where
  "RCSW_BSTREE_ROOT t ns = lft ns (bt_root t)"

text \<open>The operations that only touch nodes, on the whole heap.\<close>

definition on_nodes :: "('k tnodes \<Rightarrow> 'k tnodes option) \<Rightarrow> ('k, 'a) theap \<Rightarrow> ('k, 'a) theap option" where
  "on_nodes f H = (case f (th_nodes H) of None \<Rightarrow> None | Some ns \<Rightarrow> Some (H\<lparr>th_nodes := ns\<rparr>))"

subsection \<open>Nodes and their memory\<close>

text \<open>\<open>max_elts + 2\<close> on \<open>size_t\<close>: the sentinels are nodes too.\<close>

definition node_slots :: "'k bstree \<Rightarrow> nat" where
  "node_slots t = (size_of_int (bt_max_elts t) + 2) mod 2 ^ 64"

definition random_bytes :: "u32 \<Rightarrow> u8 list" where
  "random_bytes w = [ucast w, ucast (drop_bit 8 w), ucast (drop_bit 16 w), ucast (drop_bit 24 w)]"

text \<open>The index the search for a free slot starts at.\<close>

definition search_index :: "u32 \<Rightarrow> nat \<Rightarrow> nat option" where
  "search_index rnd n = do {
     h \<leftarrow> hash_fnv1a (Some (random_bytes rnd)) 4;
     if n = 0 then None else Some (unat h mod n)
   }"

definition bstree_node_alloc ::
  "('k, 'a) tenv \<Rightarrow> 'k bstree \<Rightarrow> ('k, 'a) theap \<Rightarrow> (nat \<times> 'k bstree \<times> ('k, 'a) theap) option" where
  "bstree_node_alloc env t H =
     (let sp = bt_space t in
      if has_flag (bt_flags t) RCSW_NOALLOC_META then do {
        start \<leftarrow> search_index (te_rnd_node env H) (node_slots t);
        idx \<leftarrow> allocm_probe (bs_node_map sp) (node_slots t) start;
        if idx = -1 then Some (0, t, H)
        else do {
          m \<leftarrow> allocm_mark_inuse (bs_node_map sp) idx;
          Some (bs_nodes sp + nat idx, t\<lparr>bt_space := sp\<lparr>bs_node_map := m\<rparr>\<rparr>, H)
        }
      }
      else do {
        fresh \<leftarrow> rcsw_alloc id None (te_node env H) RCSW_NONE;
        Some (case fresh of
            None \<Rightarrow> (0, t, H)
          | Some (a, nd) \<Rightarrow> (a, t, H\<lparr>th_nodes := (th_nodes H)(a \<mapsto> nd)\<rparr>))
      })"

definition bstree_node_dealloc ::
  "'k bstree \<Rightarrow> nat \<Rightarrow> ('k, 'a) theap \<Rightarrow> ('k bstree \<times> ('k, 'a) theap) option" where
  "bstree_node_dealloc t a H =
     (let sp = bt_space t in
      if has_flag (bt_flags t) RCSW_NOALLOC_META then do {
        m \<leftarrow> allocm_mark_free (bs_node_map sp) (int a - int (bs_nodes sp));
        Some (t\<lparr>bt_space := sp\<lparr>bs_node_map := m\<rparr>\<rparr>, H)
      }
      else if rcsw_free (Some a) RCSW_NONE \<and> th_nodes H a \<noteq> None
      then Some (t, H\<lparr>th_nodes := (th_nodes H)(a := None)\<rparr>)
      else None)"

definition bstree_node_datablock_alloc ::
  "('k, 'a) tenv \<Rightarrow> 'k bstree \<Rightarrow> ('k, 'a) theap \<Rightarrow> (nat option \<times> 'k bstree \<times> ('k, 'a) theap) option" where
  "bstree_node_datablock_alloc env t H =
     (let sp = bt_space t in
      if has_flag (bt_flags t) RCSW_NOALLOC_DATA then do {
        start \<leftarrow> search_index (te_rnd_block env H) (node_slots t);
        idx \<leftarrow> allocm_probe (bs_db_map sp) (node_slots t) start;
        if idx = -1 then Some (None, t, H)
        else do {
          m \<leftarrow> allocm_mark_inuse (bs_db_map sp) idx;
          Some (Some (bs_datablocks sp + nat idx), t\<lparr>bt_space := sp\<lparr>bs_db_map := m\<rparr>\<rparr>, H)
        }
      }
      else do {
        fresh \<leftarrow> rcsw_alloc id None (te_block env H) RCSW_NONE;
        Some (case fresh of
            None \<Rightarrow> (None, t, H)
          | Some (b, v) \<Rightarrow> (Some b, t, H\<lparr>th_blocks := (th_blocks H)(b \<mapsto> v)\<rparr>))
      })"

definition bstree_node_datablock_dealloc ::
  "'k bstree \<Rightarrow> nat option \<Rightarrow> ('k, 'a) theap \<Rightarrow> ('k bstree \<times> ('k, 'a) theap) option" where
  "bstree_node_datablock_dealloc t datablock H =
     (case datablock of
        None \<Rightarrow> Some (t, H)
      | Some b \<Rightarrow>
          (let sp = bt_space t in
           if has_flag (bt_flags t) RCSW_NOALLOC_DATA then do {
             m \<leftarrow> allocm_mark_free (bs_db_map sp) (int b - int (bs_datablocks sp));
             Some (t\<lparr>bt_space := sp\<lparr>bs_db_map := m\<rparr>\<rparr>, H)
           }
           else if rcsw_free (Some b) RCSW_NONE \<and> th_blocks H b \<noteq> None
           then Some (t, H\<lparr>th_blocks := (th_blocks H)(b := None)\<rparr>)
           else None))"

definition put_data :: "nat \<Rightarrow> nat option \<Rightarrow> 'k tnodes \<Rightarrow> 'k tnodes option" where
  "put_data p d = node_upd p (\<lambda>nd. nd\<lparr>tn_data := d\<rparr>)"

text \<open>The C function returns 0 always. Destroying \<open>NULL\<close> fails its precondition.\<close>

definition bstree_node_destroy ::
  "'k bstree \<Rightarrow> nat \<Rightarrow> ('k, 'a) theap \<Rightarrow> ('k bstree \<times> ('k, 'a) theap) option" where
  "bstree_node_destroy t node H =
     (if node = 0 then Some (t, H)
      else do {
        nd \<leftarrow> th_nodes H node;
        (t, H) \<leftarrow> bstree_node_datablock_dealloc t (tn_data nd) H;
        H \<leftarrow> on_nodes (put_data node None) H;
        bstree_node_dealloc t node H
      })"

text \<open>\<open>ds_elt_copy(node->data, data_in, elt_size)\<close>.\<close>

definition write_block :: "nat \<Rightarrow> 'a \<Rightarrow> ('k, 'a) theap \<Rightarrow> ('k, 'a) theap option" where
  "write_block b v H = (case th_blocks H b of None \<Rightarrow> None
     | Some _ \<Rightarrow> Some (H\<lparr>th_blocks := (th_blocks H)(b \<mapsto> v)\<rparr>))"

text \<open>The links of a new node, with its key unless it is a sentinel.\<close>

definition link_new :: "nat \<Rightarrow> nat \<Rightarrow> nat \<Rightarrow> 'k option \<Rightarrow> 'k tnodes \<Rightarrow> 'k tnodes option" where
  "link_new node parent nil key = node_upd node (\<lambda>nd.
     (case key of None \<Rightarrow> nd | Some k \<Rightarrow> nd\<lparr>tn_key := k\<rparr>)
       \<lparr>tn_parent := parent, tn_left := nil, tn_right := nil\<rparr>)"

definition bstree_node_create ::
  "('k, 'a) tenv \<Rightarrow> 'k bstree \<Rightarrow> nat \<Rightarrow> 'k option \<Rightarrow> 'a option \<Rightarrow> ('k, 'a) theap
     \<Rightarrow> (nat \<times> 'k bstree \<times> ('k, 'a) theap) option" where
  "bstree_node_create env t parent key data H = do {
     (node, t, H) \<leftarrow> bstree_node_alloc env t H;
     if node = 0 then do {
       (t, H) \<leftarrow> bstree_node_destroy t node H;
       Some (0, t, H)
     }
     else do {
       (d, t, H) \<leftarrow> bstree_node_datablock_alloc env t H;
       H \<leftarrow> on_nodes (put_data node d) H;
       case d of
         None \<Rightarrow> do {
           (t, H) \<leftarrow> bstree_node_destroy t node H;
           Some (0, t, H)
         }
       | Some b \<Rightarrow> do {
           H \<leftarrow> (case data of None \<Rightarrow> Some H | Some v \<Rightarrow> write_block b v H);
           H \<leftarrow> on_nodes (link_new node parent (bt_nil t) key) H;
           Some (node, t, H)
         }
     }
   }"

subsection \<open>The auxiliary field\<close>

definition interval_at :: "('k, 'a) tenv \<Rightarrow> ('k, 'a) theap \<Rightarrow> nat \<Rightarrow> interval_data option" where
  "interval_at env H node = do {
     nd \<leftarrow> th_nodes H node;
     b \<leftarrow> tn_data nd;
     v \<leftarrow> th_blocks H b;
     Some (te_interval env v)
   }"

definition inttree_node_update_max :: "('k, 'a) tenv \<Rightarrow> nat \<Rightarrow> ('k, 'a) theap \<Rightarrow> ('k, 'a) theap option" where
  "inttree_node_update_max env node H = do {
     iv \<leftarrow> interval_at env H node;
     nd \<leftarrow> th_nodes H node;
     l \<leftarrow> th_nodes H (tn_left nd);
     r \<leftarrow> th_nodes H (tn_right nd);
     on_nodes (put_aux node (max (max (tn_aux l) (tn_aux r)) (iv_high iv))) H
   }"

definition ostree_node_update_count :: "nat \<Rightarrow> ('k, 'a) theap \<Rightarrow> ('k, 'a) theap option" where
  "ostree_node_update_count node H = do {
     nd \<leftarrow> th_nodes H node;
     if tn_parent nd \<noteq> node then do {
       l \<leftarrow> th_nodes H (tn_left nd);
       r \<leftarrow> th_nodes H (tn_right nd);
       on_nodes (put_aux node (wrap32 (wrap32 (tn_aux l + tn_aux r) + 1))) H
     }
     else Some H
   }"

text \<open>
  The walks from a node towards the root. The one of interval trees ends at the root of the tree
  without updating it, the one of order statistics trees at the sentinel.
\<close>

definition up_cond :: "nat \<Rightarrow> nat \<times> ('k, 'a) theap \<Rightarrow> bool option" where
  "up_cond stop s = Some (fst s \<noteq> stop)"

definition up_step ::
  "(nat \<Rightarrow> ('k, 'a) theap \<Rightarrow> ('k, 'a) theap option) \<Rightarrow> nat \<times> ('k, 'a) theap \<Rightarrow> (nat \<times> ('k, 'a) theap) option" where
  "up_step upd s = do {
     H \<leftarrow> upd (fst s) (snd s);
     p \<leftarrow> par (th_nodes H) (fst s);
     Some (p, H)
   }"

definition inttree_high_fixup ::
  "('k, 'a) tenv \<Rightarrow> 'k bstree \<Rightarrow> nat \<Rightarrow> ('k, 'a) theap \<Rightarrow> ('k, 'a) theap option" where
  "inttree_high_fixup env t node H = do {
     iv \<leftarrow> interval_at env H node;
     H \<leftarrow> on_nodes (put_aux node (iv_high iv)) H;
     top \<leftarrow> RCSW_BSTREE_ROOT t (th_nodes H);
     s \<leftarrow> while_loop (up_cond top) (up_step (inttree_node_update_max env)) (node, H);
     Some (snd s)
   }"

datatype ostree_fixup_type = OSTREE_FIXUP_INSERT | OSTREE_FIXUP_DELETE

definition ostree_count_fixup ::
  "'k bstree \<Rightarrow> nat \<Rightarrow> ostree_fixup_type \<Rightarrow> ('k, 'a) theap \<Rightarrow> ('k, 'a) theap option" where
  "ostree_count_fixup t node type H = do {
     (node, H) \<leftarrow> (case type of
        OSTREE_FIXUP_INSERT \<Rightarrow> Some (node, H)
      | OSTREE_FIXUP_DELETE \<Rightarrow> do {
          p \<leftarrow> par (th_nodes H) node;
          nd \<leftarrow> th_nodes H p;
          H \<leftarrow> on_nodes (put_aux p (wrap32 (tn_aux nd - 1))) H;
          Some (p, H)
        });
     s \<leftarrow> while_loop (up_cond (bt_root t)) (up_step ostree_node_update_count) (node, H);
     Some (snd s)
   }"

subsection \<open>Rotations\<close>

text \<open>The links; the child that moves up is returned as well.\<close>

definition rotate_links_left :: "nat \<Rightarrow> nat \<Rightarrow> 'k tnodes \<Rightarrow> (nat \<times> 'k tnodes) option" where
  "rotate_links_left nil node ns = do {
     child \<leftarrow> rgt ns node;
     cl \<leftarrow> lft ns child;
     ns \<leftarrow> put_right node cl ns;
     cl \<leftarrow> lft ns child;
     ns \<leftarrow> (if cl \<noteq> nil then put_parent cl node ns else Some ns);
     p \<leftarrow> par ns node;
     ns \<leftarrow> put_parent child p ns;
     p \<leftarrow> par ns node;
     pl \<leftarrow> lft ns p;
     ns \<leftarrow> (if node = pl then put_left p child ns else put_right p child ns);
     ns \<leftarrow> put_left child node ns;
     ns \<leftarrow> put_parent node child ns;
     Some (child, ns)
   }"

definition rotate_links_right :: "nat \<Rightarrow> nat \<Rightarrow> 'k tnodes \<Rightarrow> (nat \<times> 'k tnodes) option" where
  "rotate_links_right nil node ns = do {
     child \<leftarrow> lft ns node;
     cr \<leftarrow> rgt ns child;
     ns \<leftarrow> put_left node cr ns;
     cr \<leftarrow> rgt ns child;
     ns \<leftarrow> (if cr \<noteq> nil then put_parent cr node ns else Some ns);
     p \<leftarrow> par ns node;
     ns \<leftarrow> put_parent child p ns;
     p \<leftarrow> par ns node;
     pl \<leftarrow> lft ns p;
     ns \<leftarrow> (if node = pl then put_left p child ns else put_right p child ns);
     ns \<leftarrow> put_right child node ns;
     ns \<leftarrow> put_parent node child ns;
     Some (child, ns)
   }"

definition rotate_aux ::
  "('k, 'a) tenv \<Rightarrow> 'k bstree \<Rightarrow> nat \<Rightarrow> nat \<Rightarrow> ('k, 'a) theap \<Rightarrow> ('k, 'a) theap option" where
  "rotate_aux env t node child H =
     (if has_flag (bt_flags t) RCSW_DS_BSTREE_INT then do {
        H \<leftarrow> inttree_node_update_max env node H;
        inttree_node_update_max env child H
      }
      else if has_flag (bt_flags t) RCSW_DS_BSTREE_OS then do {
        H \<leftarrow> ostree_node_update_count node H;
        ostree_node_update_count child H
      }
      else Some H)"

definition bstree_node_rotate_left ::
  "('k, 'a) tenv \<Rightarrow> 'k bstree \<Rightarrow> nat \<Rightarrow> ('k, 'a) theap \<Rightarrow> ('k, 'a) theap option" where
  "bstree_node_rotate_left env t node H = do {
     (child, ns) \<leftarrow> rotate_links_left (bt_nil t) node (th_nodes H);
     rotate_aux env t node child (H\<lparr>th_nodes := ns\<rparr>)
   }"

definition bstree_node_rotate_right ::
  "('k, 'a) tenv \<Rightarrow> 'k bstree \<Rightarrow> nat \<Rightarrow> ('k, 'a) theap \<Rightarrow> ('k, 'a) theap option" where
  "bstree_node_rotate_right env t node H = do {
     (child, ns) \<leftarrow> rotate_links_right (bt_nil t) node (th_nodes H);
     rotate_aux env t node child (H\<lparr>th_nodes := ns\<rparr>)
   }"

subsection \<open>Walks\<close>

definition leftmost_cond :: "nat \<Rightarrow> 'k tnodes \<Rightarrow> nat \<Rightarrow> bool option" where
  "leftmost_cond nil ns p = map_option (\<lambda>l. l \<noteq> nil) (lft ns p)"

definition climb_cond :: "'k tnodes \<Rightarrow> nat \<times> nat \<Rightarrow> bool option" where
  "climb_cond ns s = map_option (\<lambda>r. fst s = r) (rgt ns (snd s))"

definition climb_step :: "'k tnodes \<Rightarrow> nat \<times> nat \<Rightarrow> (nat \<times> nat) option" where
  "climb_step ns s = map_option (\<lambda>p. (snd s, p)) (par ns (snd s))"

definition bstree_node_successor :: "'k bstree \<Rightarrow> nat \<Rightarrow> 'k tnodes \<Rightarrow> nat option" where
  "bstree_node_successor t node ns = do {
     succ \<leftarrow> rgt ns node;
     if succ \<noteq> bt_nil t then while_loop (leftmost_cond (bt_nil t) ns) (lft ns) succ
     else do {
       p \<leftarrow> par ns node;
       s \<leftarrow> while_loop (climb_cond ns) (climb_step ns) (node, p);
       Some (if snd s = bt_root t then bt_nil t else snd s)
     }
   }"

partial_function (option) bstree_node_height :: "'k tnodes \<Rightarrow> nat \<Rightarrow> nat option" where
  "bstree_node_height ns node =
     (case ns node of
        None \<Rightarrow> None
      | Some nd \<Rightarrow>
          if tn_parent nd = node \<or> tn_left nd = node \<or> tn_right nd = node then Some 0
          else Option.bind (bstree_node_height ns (tn_left nd)) (\<lambda>height_l.
            Option.bind (bstree_node_height ns (tn_right nd)) (\<lambda>height_r.
              Some (max height_l height_r + 1))))"

text \<open>
  A traversal runs a callback on a state: the handle, the heap and whatever else the callback
  works on. The callback's non-zero code ends the traversal.
\<close>

type_synonym ('k, 'a, 'r) visit = "'k bstree \<times> ('k, 'a) theap \<times> 'r"

definition visit_nodes :: "('k, 'a, 'r) visit \<Rightarrow> 'k tnodes" where
  "visit_nodes s = th_nodes (fst (snd s))"

definition if_zero :: "int \<times> 's \<Rightarrow> ('s \<Rightarrow> (int \<times> 's) option) \<Rightarrow> (int \<times> 's) option" where
  "if_zero r f = (if fst r = 0 then f (snd r) else Some r)"

lemma if_zero_mono [partial_function_mono]:
  assumes "\<And>s. mono_option (\<lambda>f. B f s)"
  shows "mono_option (\<lambda>f. if_zero r (B f))"
  unfolding if_zero_def using assms by (intro partial_function_mono) auto

partial_function (option) bstree_traverse_nodes_preorder ::
  "(nat \<Rightarrow> ('k, 'a, 'r) visit \<Rightarrow> (int \<times> ('k, 'a, 'r) visit) option) \<Rightarrow> nat
     \<Rightarrow> ('k, 'a, 'r) visit \<Rightarrow> (int \<times> ('k, 'a, 'r) visit) option" where
  "bstree_traverse_nodes_preorder cb node s =
     Option.bind (cb node s) (\<lambda>r. if_zero r (\<lambda>s.
       Option.bind (lft (visit_nodes s) node) (\<lambda>l.
         Option.bind (if l \<noteq> bt_nil (fst s) then bstree_traverse_nodes_preorder cb l s else Some (0, s)) (\<lambda>r. if_zero r (\<lambda>s.
           Option.bind (rgt (visit_nodes s) node) (\<lambda>rt.
             Option.bind (if rt \<noteq> bt_nil (fst s) then bstree_traverse_nodes_preorder cb rt s else Some (0, s)) (\<lambda>r. if_zero r (\<lambda>s.
               Some (0, s)))))))))"

partial_function (option) bstree_traverse_nodes_inorder ::
  "(nat \<Rightarrow> ('k, 'a, 'r) visit \<Rightarrow> (int \<times> ('k, 'a, 'r) visit) option) \<Rightarrow> nat
     \<Rightarrow> ('k, 'a, 'r) visit \<Rightarrow> (int \<times> ('k, 'a, 'r) visit) option" where
  "bstree_traverse_nodes_inorder cb node s =
     Option.bind (lft (visit_nodes s) node) (\<lambda>l.
       Option.bind (if l \<noteq> bt_nil (fst s) then bstree_traverse_nodes_inorder cb l s else Some (0, s)) (\<lambda>r. if_zero r (\<lambda>s.
         Option.bind (cb node s) (\<lambda>r. if_zero r (\<lambda>s.
           Option.bind (rgt (visit_nodes s) node) (\<lambda>rt.
             Option.bind (if rt \<noteq> bt_nil (fst s) then bstree_traverse_nodes_inorder cb rt s else Some (0, s)) (\<lambda>r. if_zero r (\<lambda>s.
               Some (0, s)))))))))"

definition add_depth :: "(nat \<Rightarrow> nat) \<Rightarrow> ('k, 'a, 'r) visit \<Rightarrow> ('k, 'a, 'r) visit" where
  "add_depth f s = (let t = fst s in (t\<lparr>bt_depth := f (bt_depth t)\<rparr>, snd s))"

partial_function (option) bstree_traverse_nodes_postorder ::
  "(nat \<Rightarrow> ('k, 'a, 'r) visit \<Rightarrow> (int \<times> ('k, 'a, 'r) visit) option) \<Rightarrow> nat
     \<Rightarrow> ('k, 'a, 'r) visit \<Rightarrow> (int \<times> ('k, 'a, 'r) visit) option" where
  "bstree_traverse_nodes_postorder cb node s0 =
     Option.bind (Some (add_depth Suc s0)) (\<lambda>s.
       Option.bind (lft (visit_nodes s) node) (\<lambda>l.
         Option.bind (if l \<noteq> bt_nil (fst s)
             then Option.bind (bstree_traverse_nodes_postorder cb l s) (\<lambda>r. if_zero r (\<lambda>s. Some (0, add_depth size_pred s)))
             else Some (0, s)) (\<lambda>r. if_zero r (\<lambda>s.
           Option.bind (rgt (visit_nodes s) node) (\<lambda>rt.
             Option.bind (if rt \<noteq> bt_nil (fst s)
                 then Option.bind (bstree_traverse_nodes_postorder cb rt s) (\<lambda>r. Some (fst r, add_depth size_pred (snd r)))
                 else Some (0, s)) (\<lambda>r. if_zero r (\<lambda>s.
               cb node s)))))))"

datatype bstree_traversal_type = TRAVERSE_PREORDER | TRAVERSE_INORDER | TRAVERSE_POSTORDER

definition bstree_traverse ::
  "(nat \<Rightarrow> ('k, 'a, 'r) visit \<Rightarrow> (int \<times> ('k, 'a, 'r) visit) option) \<Rightarrow> bstree_traversal_type
     \<Rightarrow> ('k, 'a, 'r) visit \<Rightarrow> (int \<times> ('k, 'a, 'r) visit) option" where
  "bstree_traverse cb type s = do {
     top \<leftarrow> RCSW_BSTREE_ROOT (fst s) (visit_nodes s);
     case type of
       TRAVERSE_PREORDER \<Rightarrow> bstree_traverse_nodes_preorder cb top s
     | TRAVERSE_INORDER \<Rightarrow> bstree_traverse_nodes_inorder cb top s
     | TRAVERSE_POSTORDER \<Rightarrow> bstree_traverse_nodes_postorder cb top s
   }"

subsection \<open>Red-black fix-ups\<close>

text \<open>The two halves of the loop bodies mirror each other; a state is the node and the heap.\<close>

definition insert_recolour :: "nat \<Rightarrow> nat \<Rightarrow> 'k tnodes \<Rightarrow> (nat \<times> 'k tnodes) option" where
  "insert_recolour node uncle ns = do {
     p \<leftarrow> par ns node;
     ns \<leftarrow> put_red p False ns;
     ns \<leftarrow> put_red uncle False ns;
     g \<leftarrow> par_par ns node;
     ns \<leftarrow> put_red g True ns;
     g \<leftarrow> par_par ns node;
     Some (g, ns)
   }"

definition insert_paint :: "nat \<Rightarrow> 'k tnodes \<Rightarrow> (nat \<times> 'k tnodes) option" where
  "insert_paint node ns = do {
     p \<leftarrow> par ns node;
     ns \<leftarrow> put_red p False ns;
     g \<leftarrow> par_par ns node;
     ns \<leftarrow> put_red g True ns;
     g \<leftarrow> par_par ns node;
     Some (g, ns)
   }"

definition insert_fix_left ::
  "('k, 'a) tenv \<Rightarrow> 'k bstree \<Rightarrow> nat \<Rightarrow> ('k, 'a) theap \<Rightarrow> (nat \<times> ('k, 'a) theap) option" where
  "insert_fix_left env t node H = do {
     g \<leftarrow> par_par (th_nodes H) node;
     uncle \<leftarrow> rgt (th_nodes H) g;
     ur \<leftarrow> isred (th_nodes H) uncle;
     if ur then do {
       (node, ns) \<leftarrow> insert_recolour node uncle (th_nodes H);
       Some (node, H\<lparr>th_nodes := ns\<rparr>)
     }
     else do {
       p \<leftarrow> par (th_nodes H) node;
       pr \<leftarrow> rgt (th_nodes H) p;
       (node, H) \<leftarrow> (if node = pr then do {
           node \<leftarrow> par (th_nodes H) node;
           H \<leftarrow> bstree_node_rotate_left env t node H;
           Some (node, H)
         } else Some (node, H));
       (g, ns) \<leftarrow> insert_paint node (th_nodes H);
       H \<leftarrow> bstree_node_rotate_right env t g (H\<lparr>th_nodes := ns\<rparr>);
       Some (node, H)
     }
   }"

definition insert_fix_right ::
  "('k, 'a) tenv \<Rightarrow> 'k bstree \<Rightarrow> nat \<Rightarrow> ('k, 'a) theap \<Rightarrow> (nat \<times> ('k, 'a) theap) option" where
  "insert_fix_right env t node H = do {
     g \<leftarrow> par_par (th_nodes H) node;
     uncle \<leftarrow> lft (th_nodes H) g;
     ur \<leftarrow> isred (th_nodes H) uncle;
     if ur then do {
       (node, ns) \<leftarrow> insert_recolour node uncle (th_nodes H);
       Some (node, H\<lparr>th_nodes := ns\<rparr>)
     }
     else do {
       p \<leftarrow> par (th_nodes H) node;
       pl \<leftarrow> lft (th_nodes H) p;
       (node, H) \<leftarrow> (if node = pl then do {
           node \<leftarrow> par (th_nodes H) node;
           H \<leftarrow> bstree_node_rotate_right env t node H;
           Some (node, H)
         } else Some (node, H));
       (g, ns) \<leftarrow> insert_paint node (th_nodes H);
       H \<leftarrow> bstree_node_rotate_left env t g (H\<lparr>th_nodes := ns\<rparr>);
       Some (node, H)
     }
   }"

definition insert_cond :: "nat \<times> ('k, 'a) theap \<Rightarrow> bool option" where
  "insert_cond s = do { p \<leftarrow> par (th_nodes (snd s)) (fst s); isred (th_nodes (snd s)) p }"

definition insert_step ::
  "('k, 'a) tenv \<Rightarrow> 'k bstree \<Rightarrow> nat \<times> ('k, 'a) theap \<Rightarrow> (nat \<times> ('k, 'a) theap) option" where
  "insert_step env t s = do {
     p \<leftarrow> par (th_nodes (snd s)) (fst s);
     g \<leftarrow> par (th_nodes (snd s)) p;
     gl \<leftarrow> lft (th_nodes (snd s)) g;
     if p = gl then insert_fix_left env t (fst s) (snd s)
     else insert_fix_right env t (fst s) (snd s)
   }"

definition rbtree_insert_fixup ::
  "('k, 'a) tenv \<Rightarrow> 'k bstree \<Rightarrow> nat \<Rightarrow> ('k, 'a) theap \<Rightarrow> ('k, 'a) theap option" where
  "rbtree_insert_fixup env t node H =
     map_option snd (while_loop insert_cond (insert_step env t) (node, H))"

text \<open>The step of the deletion also says whether the loop breaks off.\<close>

definition black_children :: "'k tnodes \<Rightarrow> nat \<Rightarrow> bool option" where
  "black_children ns p = do {
     r \<leftarrow> rgt ns p;
     rr \<leftarrow> isred ns r;
     if rr then Some False
     else do {
       l \<leftarrow> lft ns p;
       lr \<leftarrow> isred ns l;
       Some (\<not> lr)
     }
   }"

definition delete_lift_left ::
  "('k, 'a) tenv \<Rightarrow> 'k bstree \<Rightarrow> nat \<Rightarrow> nat \<Rightarrow> ('k, 'a) theap \<Rightarrow> (nat \<times> ('k, 'a) theap) option" where
  "delete_lift_left env t node sibling H = do {
     H \<leftarrow> on_nodes (put_red sibling False) H;
     p \<leftarrow> par (th_nodes H) node;
     H \<leftarrow> on_nodes (put_red p True) H;
     H \<leftarrow> bstree_node_rotate_left env t p H;
     p \<leftarrow> par (th_nodes H) node;
     sibling \<leftarrow> rgt (th_nodes H) p;
     Some (sibling, H)
   }"

definition delete_near_left ::
  "('k, 'a) tenv \<Rightarrow> 'k bstree \<Rightarrow> nat \<Rightarrow> nat \<Rightarrow> ('k, 'a) theap \<Rightarrow> (nat \<times> ('k, 'a) theap) option" where
  "delete_near_left env t node sibling H = do {
     l \<leftarrow> lft (th_nodes H) sibling;
     H \<leftarrow> on_nodes (put_red l False) H;
     H \<leftarrow> on_nodes (put_red sibling True) H;
     H \<leftarrow> bstree_node_rotate_right env t sibling H;
     p \<leftarrow> par (th_nodes H) node;
     sibling \<leftarrow> rgt (th_nodes H) p;
     Some (sibling, H)
   }"

definition delete_turn_left ::
  "('k, 'a) tenv \<Rightarrow> 'k bstree \<Rightarrow> nat \<Rightarrow> nat \<Rightarrow> ('k, 'a) theap \<Rightarrow> ('k, 'a) theap option" where
  "delete_turn_left env t node sibling H = do {
     p \<leftarrow> par (th_nodes H) node;
     pr \<leftarrow> isred (th_nodes H) p;
     H \<leftarrow> on_nodes (put_red sibling pr) H;
     p \<leftarrow> par (th_nodes H) node;
     H \<leftarrow> on_nodes (put_red p False) H;
     r \<leftarrow> rgt (th_nodes H) sibling;
     H \<leftarrow> on_nodes (put_red r False) H;
     p \<leftarrow> par (th_nodes H) node;
     bstree_node_rotate_left env t p H
   }"

definition delete_black_left ::
  "('k, 'a) tenv \<Rightarrow> 'k bstree \<Rightarrow> nat \<Rightarrow> nat \<Rightarrow> ('k, 'a) theap \<Rightarrow> (bool \<times> nat \<times> ('k, 'a) theap) option" where
  "delete_black_left env t node sibling H = do {
     bc \<leftarrow> black_children (th_nodes H) sibling;
     if bc then do {
       H \<leftarrow> on_nodes (put_red sibling True) H;
       p \<leftarrow> par (th_nodes H) node;
       Some (False, p, H)
     }
     else do {
       r \<leftarrow> rgt (th_nodes H) sibling;
       rr \<leftarrow> isred (th_nodes H) r;
       (sibling, H) \<leftarrow> (if \<not> rr then delete_near_left env t node sibling H else Some (sibling, H));
       H \<leftarrow> delete_turn_left env t node sibling H;
       Some (True, node, H)
     }
   }"

definition delete_fix_left ::
  "('k, 'a) tenv \<Rightarrow> 'k bstree \<Rightarrow> nat \<Rightarrow> ('k, 'a) theap \<Rightarrow> (bool \<times> nat \<times> ('k, 'a) theap) option" where
  "delete_fix_left env t node H = do {
     p \<leftarrow> par (th_nodes H) node;
     sibling \<leftarrow> rgt (th_nodes H) p;
     sr \<leftarrow> isred (th_nodes H) sibling;
     (sibling, H) \<leftarrow> (if sr then delete_lift_left env t node sibling H else Some (sibling, H));
     delete_black_left env t node sibling H
   }"

definition delete_lift_right ::
  "('k, 'a) tenv \<Rightarrow> 'k bstree \<Rightarrow> nat \<Rightarrow> nat \<Rightarrow> ('k, 'a) theap \<Rightarrow> (nat \<times> ('k, 'a) theap) option" where
  "delete_lift_right env t node sibling H = do {
     H \<leftarrow> on_nodes (put_red sibling False) H;
     p \<leftarrow> par (th_nodes H) node;
     H \<leftarrow> on_nodes (put_red p True) H;
     H \<leftarrow> bstree_node_rotate_right env t p H;
     p \<leftarrow> par (th_nodes H) node;
     sibling \<leftarrow> lft (th_nodes H) p;
     Some (sibling, H)
   }"

definition delete_near_right ::
  "('k, 'a) tenv \<Rightarrow> 'k bstree \<Rightarrow> nat \<Rightarrow> nat \<Rightarrow> ('k, 'a) theap \<Rightarrow> (nat \<times> ('k, 'a) theap) option" where
  "delete_near_right env t node sibling H = do {
     r \<leftarrow> rgt (th_nodes H) sibling;
     H \<leftarrow> on_nodes (put_red r False) H;
     H \<leftarrow> on_nodes (put_red sibling True) H;
     H \<leftarrow> bstree_node_rotate_left env t sibling H;
     p \<leftarrow> par (th_nodes H) node;
     sibling \<leftarrow> lft (th_nodes H) p;
     Some (sibling, H)
   }"

definition delete_turn_right ::
  "('k, 'a) tenv \<Rightarrow> 'k bstree \<Rightarrow> nat \<Rightarrow> nat \<Rightarrow> ('k, 'a) theap \<Rightarrow> ('k, 'a) theap option" where
  "delete_turn_right env t node sibling H = do {
     p \<leftarrow> par (th_nodes H) node;
     pr \<leftarrow> isred (th_nodes H) p;
     H \<leftarrow> on_nodes (put_red sibling pr) H;
     p \<leftarrow> par (th_nodes H) node;
     H \<leftarrow> on_nodes (put_red p False) H;
     l \<leftarrow> lft (th_nodes H) sibling;
     H \<leftarrow> on_nodes (put_red l False) H;
     p \<leftarrow> par (th_nodes H) node;
     bstree_node_rotate_right env t p H
   }"

definition delete_black_right ::
  "('k, 'a) tenv \<Rightarrow> 'k bstree \<Rightarrow> nat \<Rightarrow> nat \<Rightarrow> ('k, 'a) theap \<Rightarrow> (bool \<times> nat \<times> ('k, 'a) theap) option" where
  "delete_black_right env t node sibling H = do {
     bc \<leftarrow> black_children (th_nodes H) sibling;
     if bc then do {
       H \<leftarrow> on_nodes (put_red sibling True) H;
       p \<leftarrow> par (th_nodes H) node;
       Some (False, p, H)
     }
     else do {
       l \<leftarrow> lft (th_nodes H) sibling;
       lr \<leftarrow> isred (th_nodes H) l;
       (sibling, H) \<leftarrow> (if \<not> lr then delete_near_right env t node sibling H else Some (sibling, H));
       H \<leftarrow> delete_turn_right env t node sibling H;
       Some (True, node, H)
     }
   }"

definition delete_fix_right ::
  "('k, 'a) tenv \<Rightarrow> 'k bstree \<Rightarrow> nat \<Rightarrow> ('k, 'a) theap \<Rightarrow> (bool \<times> nat \<times> ('k, 'a) theap) option" where
  "delete_fix_right env t node H = do {
     p \<leftarrow> par (th_nodes H) node;
     sibling \<leftarrow> lft (th_nodes H) p;
     sr \<leftarrow> isred (th_nodes H) sibling;
     (sibling, H) \<leftarrow> (if sr then delete_lift_right env t node sibling H else Some (sibling, H));
     delete_black_right env t node sibling H
   }"

definition delete_cond :: "bool \<times> nat \<times> ('k, 'a) theap \<Rightarrow> bool option" where
  "delete_cond s =
     (if fst s then Some False else map_option Not (isred (th_nodes (snd (snd s))) (fst (snd s))))"

definition delete_step ::
  "('k, 'a) tenv \<Rightarrow> 'k bstree \<Rightarrow> bool \<times> nat \<times> ('k, 'a) theap \<Rightarrow> (bool \<times> nat \<times> ('k, 'a) theap) option" where
  "delete_step env t s = do {
     let node = fst (snd s);
     let H = snd (snd s);
     p \<leftarrow> par (th_nodes H) node;
     pl \<leftarrow> lft (th_nodes H) p;
     if node = pl then delete_fix_left env t node H else delete_fix_right env t node H
   }"

definition rbtree_delete_fixup ::
  "('k, 'a) tenv \<Rightarrow> 'k bstree \<Rightarrow> nat \<Rightarrow> ('k, 'a) theap \<Rightarrow> ('k, 'a) theap option" where
  "rbtree_delete_fixup env t node H = do {
     s \<leftarrow> while_loop delete_cond (delete_step env t) (False, node, H);
     on_nodes (put_red (fst (snd s)) False) (snd (snd s))
   }"

partial_function (option) rbtree_node_black_height :: "'k tnodes \<Rightarrow> nat \<Rightarrow> int option" where
  "rbtree_node_black_height ns node =
     (case ns node of
        None \<Rightarrow> None
      | Some nd \<Rightarrow>
          if tn_left nd = node \<or> tn_right nd = node then Some 0
          else Option.bind (rbtree_node_black_height ns (tn_left nd)) (\<lambda>h.
            Some (h + (if tn_red nd then 0 else 1))))"

subsection \<open>Life cycle\<close>

definition destroy_visit :: "nat \<Rightarrow> ('k, 'a, unit) visit \<Rightarrow> (int \<times> ('k, 'a, unit) visit) option" where
  "destroy_visit node s = do {
     (t, H) \<leftarrow> bstree_node_destroy (fst s) node (fst (snd s));
     Some (0, t, H, ())
   }"

text \<open>The result says whether the handle goes to \<open>free\<close>.\<close>

definition bstree_destroy :: "'k bstree \<Rightarrow> ('k, 'a) theap \<Rightarrow> (bool \<times> ('k, 'a) theap) option" where
  "bstree_destroy t H = do {
     (t, H) \<leftarrow> (if bt_root t \<noteq> 0 then do {
         r \<leftarrow> bstree_traverse_nodes_postorder destroy_visit (bt_root t) (t, H, ());
         Some (fst (snd r), fst (snd (snd r)))
       } else Some (t, H));
     (t, H) \<leftarrow> bstree_node_destroy t (bt_nil t) H;
     Some (rcsw_free (Some ()) (bt_flags t AND RCSW_NOALLOC_HANDLE), H)
   }"

text \<open>The allocation maps; the flag is false when the parameters do not fit the flags.\<close>

definition init_node_map :: "'k bstree_params \<Rightarrow> bstree_space_mgmt \<Rightarrow> (bool \<times> bstree_space_mgmt) option" where
  "init_node_map p sp =
     (if \<not> has_flag (bp_flags p) RCSW_NOALLOC_META then Some (True, sp)
      else case bp_meta p of
        None \<Rightarrow> Some (False, sp)
      | Some (m, base) \<Rightarrow>
          if bp_max_elts p = -1 then Some (False, sp)
          else do {
            n \<leftarrow> int32 (bp_max_elts p + 2);
            m \<leftarrow> allocm_init m (size_of_int n);
            Some (True, sp\<lparr>bs_node_map := m, bs_nodes := base\<rparr>)
          })"

definition init_db_map :: "'k bstree_params \<Rightarrow> bstree_space_mgmt \<Rightarrow> (bool \<times> bstree_space_mgmt) option" where
  "init_db_map p sp =
     (if \<not> has_flag (bp_flags p) RCSW_NOALLOC_DATA then Some (True, sp)
      else case bp_elements p of
        None \<Rightarrow> Some (False, sp)
      | Some (m, base) \<Rightarrow>
          if bp_max_elts p = -1 then Some (False, sp)
          else do {
            n \<leftarrow> int32 (bp_max_elts p + 2);
            m \<leftarrow> allocm_init m (size_of_int n);
            Some (True, sp\<lparr>bs_db_map := m, bs_datablocks := base\<rparr>)
          })"

text \<open>A sentinel and its links.\<close>

definition link_sentinel :: "nat \<Rightarrow> nat \<Rightarrow> 'k tnodes \<Rightarrow> 'k tnodes option" where
  "link_sentinel node nil ns = do {
     ns \<leftarrow> put_right node nil ns;
     ns \<leftarrow> put_left node nil ns;
     ns \<leftarrow> put_parent node nil ns;
     put_red node False ns
   }"

text \<open>
  The copy takes \<open>elt_size\<close> bytes from a local \<open>struct interval_data\<close> of two \<open>int\<close>s: a larger
  element size reads beyond it.
\<close>

definition inttree_init_helper ::
  "('k, 'a) tenv \<Rightarrow> 'k bstree \<Rightarrow> ('k, 'a) theap \<Rightarrow> ('k, 'a) theap option" where
  "inttree_init_helper env t H = (if 8 < bt_elt_size t then None else do {
     let nil_data = te_of_interval env \<lparr>iv_high = - (2 ^ 31), iv_low = - (2 ^ 31)\<rparr>;
     nd \<leftarrow> th_nodes H (bt_nil t);
     b \<leftarrow> tn_data nd;
     H \<leftarrow> write_block b nil_data H;
     rd \<leftarrow> th_nodes H (bt_root t);
     b \<leftarrow> tn_data rd;
     H \<leftarrow> write_block b nil_data H;
     H \<leftarrow> on_nodes (put_aux (bt_nil t) (- (2 ^ 31))) H;
     on_nodes (put_aux (bt_root t) (- (2 ^ 31))) H
   })"

definition mark_block :: "('k, 'a) tenv \<Rightarrow> nat \<Rightarrow> u8 \<Rightarrow> ('k, 'a) theap \<Rightarrow> ('k, 'a) theap option" where
  "mark_block env node c H = do {
     nd \<leftarrow> th_nodes H node;
     b \<leftarrow> tn_data nd;
     v \<leftarrow> th_blocks H b;
     write_block b (te_first_byte env c v) H
   }"

definition ostree_init_helper ::
  "('k, 'a) tenv \<Rightarrow> 'k bstree \<Rightarrow> ('k, 'a) theap \<Rightarrow> ('k, 'a) theap option" where
  "ostree_init_helper env t H = do {
     H \<leftarrow> on_nodes (put_aux (bt_root t) 0) H;
     H \<leftarrow> on_nodes (put_aux (bt_nil t) 0) H;
     H \<leftarrow> mark_block env (bt_root t) 0xCC H;
     mark_block env (bt_nil t) 0xCD H
   }"

text \<open>
  The error exit destroys what was built. The memory of the handle holds something in the fields
  the initialisation does not set: \<open>space\<close> and \<open>depth\<close>.
\<close>

definition init_error :: "'k bstree \<Rightarrow> ('k, 'a) theap \<Rightarrow> ('k bstree option \<times> ('k, 'a) theap) option" where
  "init_error t H = map_option (\<lambda>r. (None, snd r)) (bstree_destroy t H)"

definition init_sentinels ::
  "('k, 'a) tenv \<Rightarrow> 'k bstree \<Rightarrow> ('k, 'a) theap \<Rightarrow> ('k bstree option \<times> ('k, 'a) theap) option" where
  "init_sentinels env t H = do {
     (nil, t, H) \<leftarrow> bstree_node_create env t 0 None None H;
     let t = t\<lparr>bt_nil := nil\<rparr>;
     if nil = 0 then init_error t H
     else do {
       H \<leftarrow> on_nodes (link_sentinel nil nil) H;
       (root, t, H) \<leftarrow> bstree_node_create env t 0 None None H;
       let t = t\<lparr>bt_root := root\<rparr>;
       if root = 0 then init_error t H
       else do {
         H \<leftarrow> on_nodes (link_sentinel root nil) H;
         H \<leftarrow> (if has_flag (bt_flags t) RCSW_DS_BSTREE_INT then inttree_init_helper env t H
               else if has_flag (bt_flags t) RCSW_DS_BSTREE_OS then ostree_init_helper env t H
               else Some H);
         Some (Some t, H)
       }
     }
   }"

definition bstree_init_internal ::
  "('k, 'a) tenv \<Rightarrow> (bstree_space_mgmt \<times> nat) option \<Rightarrow> (bstree_space_mgmt \<times> nat) option
     \<Rightarrow> 'k bstree_params option \<Rightarrow> ('k, 'a) theap \<Rightarrow> ('k bstree option \<times> ('k, 'a) theap) option" where
  "bstree_init_internal env tree_in handle params H =
     (case params of
        None \<Rightarrow> Some (None, H)
      | Some p \<Rightarrow>
          case bp_cmpkey p of
            None \<Rightarrow> Some (None, H)
          | Some cmp \<Rightarrow>
              if bp_elt_size p = 0 then Some (None, H)
              else do {
                mem \<leftarrow> rcsw_alloc id tree_in handle (bp_flags p AND RCSW_NOALLOC_HANDLE);
                case mem of
                  None \<Rightarrow> Some (None, H)
                | Some (sp, depth) \<Rightarrow> do {
                    let t = \<lparr>bt_cmpkey = cmp, bt_space = sp, bt_current = 0, bt_depth = depth,
                      bt_flags = bp_flags p, bt_max_elts = bp_max_elts p, bt_elt_size = bp_elt_size p,
                      bt_root = 0, bt_nil = 0\<rparr>;
                    (ok, sp) \<leftarrow> init_node_map p sp;
                    if \<not> ok then init_error (t\<lparr>bt_space := sp\<rparr>) H
                    else do {
                      (ok, sp) \<leftarrow> init_db_map p sp;
                      if \<not> ok then init_error (t\<lparr>bt_space := sp\<rparr>) H
                      else init_sentinels env (t\<lparr>bt_space := sp\<rparr>) H
                    }
                  }
              })"

subsection \<open>Queries and insertion\<close>

definition query_step :: "'k bstree \<Rightarrow> 'k \<Rightarrow> 'k tnodes \<Rightarrow> nat \<times> bool \<Rightarrow> (nat \<times> bool) option" where
  "query_step t key ns s = do {
     nd \<leftarrow> ns (fst s);
     let res = bt_cmpkey t key (tn_key nd);
     Some (if res = 0 then (fst s, True)
           else (if res < 0 then tn_left nd else tn_right nd, False))
   }"

definition query_more :: "'k bstree \<Rightarrow> nat \<times> bool \<Rightarrow> bool option" where
  "query_more t s = Some (fst s \<noteq> bt_nil t \<and> \<not> snd s)"

text \<open>0 is the \<open>NULL\<close> of a key that is not found.\<close>

definition bstree_node_query :: "'k bstree \<Rightarrow> nat \<Rightarrow> 'k \<Rightarrow> 'k tnodes \<Rightarrow> nat option" where
  "bstree_node_query t search_root key ns = do {
     s \<leftarrow> while_loop (query_more t) (query_step t key ns) (search_root, False);
     Some (if snd s then fst s else 0)
   }"

definition bstree_data_query :: "'k bstree \<Rightarrow> 'k option \<Rightarrow> ('k, 'a) theap \<Rightarrow> nat option option" where
  "bstree_data_query t key H =
     (case key of
        None \<Rightarrow> Some None
      | Some k \<Rightarrow> do {
          top \<leftarrow> RCSW_BSTREE_ROOT t (th_nodes H);
          node \<leftarrow> bstree_node_query t top k (th_nodes H);
          if node = 0 then Some None
          else do { nd \<leftarrow> th_nodes H node; Some (tn_data nd) }
        })"

text \<open>The search for the insertion point: node, parent, and whether the key is there already.\<close>

definition place_more :: "'k bstree \<Rightarrow> nat \<times> nat \<times> bool \<Rightarrow> bool option" where
  "place_more t s = Some (fst s \<noteq> bt_nil t \<and> \<not> snd (snd s))"

definition place_step :: "'k bstree \<Rightarrow> 'k \<Rightarrow> 'k tnodes \<Rightarrow> nat \<times> nat \<times> bool \<Rightarrow> (nat \<times> nat \<times> bool) option" where
  "place_step t key ns s = do {
     let parent = fst s;
     nd \<leftarrow> ns parent;
     let res = bt_cmpkey t key (tn_key nd);
     Some (if res = 0 then (parent, parent, True)
           else (if res < 0 then tn_left nd else tn_right nd, parent, False))
   }"

definition hang :: "'k bstree \<Rightarrow> 'k \<Rightarrow> nat \<Rightarrow> nat \<Rightarrow> 'k tnodes \<Rightarrow> 'k tnodes option" where
  "hang t key parent node ns =
     (if parent = bt_root t then put_left parent node ns
      else do {
        pd \<leftarrow> ns parent;
        if bt_cmpkey t key (tn_key pd) < 0 then put_left parent node ns
        else put_right parent node ns
      })"

text \<open>The tests of the red-black properties at the end of insertion and deletion.\<close>

definition rb_checks :: "'k bstree \<Rightarrow> 'k tnodes \<Rightarrow> bool option" where
  "rb_checks t ns = do {
     rr \<leftarrow> isred ns (bt_root t);
     if rr then Some False
     else do {
       nr \<leftarrow> isred ns (bt_nil t);
       if nr then Some False
       else do {
         top \<leftarrow> lft ns (bt_root t);
         l \<leftarrow> lft ns top;
         r \<leftarrow> rgt ns top;
         hl \<leftarrow> rbtree_node_black_height ns l;
         hr \<leftarrow> rbtree_node_black_height ns r;
         Some (hl = hr)
       }
     }
   }"

definition insert_rb ::
  "('k, 'a) tenv \<Rightarrow> 'k bstree \<Rightarrow> nat \<Rightarrow> ('k, 'a) theap \<Rightarrow> (bool \<times> ('k, 'a) theap) option" where
  "insert_rb env t node H =
     (if has_flag (bt_flags t) RCSW_DS_BSTREE_RB then do {
        H \<leftarrow> (if has_flag (bt_flags t) RCSW_DS_BSTREE_INT then inttree_high_fixup env t node H
              else if has_flag (bt_flags t) RCSW_DS_BSTREE_OS
              then ostree_count_fixup t node OSTREE_FIXUP_INSERT H
              else Some H);
        H \<leftarrow> on_nodes (put_red node True) H;
        H \<leftarrow> rbtree_insert_fixup env t node H;
        top \<leftarrow> RCSW_BSTREE_ROOT t (th_nodes H);
        H \<leftarrow> on_nodes (put_red top False) H;
        ok \<leftarrow> rb_checks t (th_nodes H);
        Some (ok, H)
      }
      else Some (True, H))"

definition bstree_insert_internal ::
  "('k, 'a) tenv \<Rightarrow> 'k bstree \<Rightarrow> 'k option \<Rightarrow> 'a option \<Rightarrow> ('k, 'a) theap
     \<Rightarrow> (status \<times> 'k bstree \<times> ('k, 'a) theap) option" where
  "bstree_insert_internal env t key data H =
     (case (key, data) of
        (Some k, Some d) \<Rightarrow> do {
          top \<leftarrow> RCSW_BSTREE_ROOT t (th_nodes H);
          (_, parent, dup) \<leftarrow> while_loop (place_more t) (place_step t k (th_nodes H)) (top, bt_root t, False);
          if dup then Some (ERROR None, t, H)
          else do {
            (node, t, H) \<leftarrow> bstree_node_create env t parent (Some k) (Some d) H;
            if node = 0 then Some (ERROR None, t, H)
            else do {
              H \<leftarrow> on_nodes (hang t k parent node) H;
              (ok, H) \<leftarrow> insert_rb env t node H;
              if ok then Some (OK, t\<lparr>bt_current := bt_current t + 1\<rparr>, H)
              else Some (fpc_error, t, H)
            }
          }
        }
      | _ \<Rightarrow> Some (fpc_error, t, H))"

definition bstree_init ::
  "('k, 'a) tenv \<Rightarrow> (bstree_space_mgmt \<times> nat) option \<Rightarrow> (bstree_space_mgmt \<times> nat) option
     \<Rightarrow> 'k bstree_params option \<Rightarrow> ('k, 'a) theap \<Rightarrow> ('k bstree option \<times> ('k, 'a) theap) option" where
  "bstree_init env tree_in handle params H = bstree_init_internal env tree_in handle params H"

definition bstree_insert ::
  "('k, 'a) tenv \<Rightarrow> 'k bstree \<Rightarrow> 'k option \<Rightarrow> 'a option \<Rightarrow> ('k, 'a) theap
     \<Rightarrow> (status \<times> 'k bstree \<times> ('k, 'a) theap) option" where
  "bstree_insert env t key data H = bstree_insert_internal env t key data H"

subsection \<open>Deletion\<close>

text \<open>Unlinking \<open>y\<close>, with \<open>x\<close> in its place.\<close>

definition unlink_node :: "'k bstree \<Rightarrow> nat \<Rightarrow> nat \<Rightarrow> 'k tnodes \<Rightarrow> 'k tnodes option" where
  "unlink_node t y x ns = do {
     yp \<leftarrow> par ns y;
     ns \<leftarrow> put_parent x yp ns;
     if yp = bt_root t then put_left (bt_root t) x ns
     else do {
       yp \<leftarrow> par ns y;
       l \<leftarrow> lft ns yp;
       if y = l then put_left yp x ns else put_right yp x ns
     }
   }"

definition delete_rb ::
  "('k, 'a) tenv \<Rightarrow> 'k bstree \<Rightarrow> nat \<Rightarrow> nat \<Rightarrow> ('k, 'a) theap \<Rightarrow> ('k, 'a) theap option" where
  "delete_rb env t y x H = do {
     yr \<leftarrow> isred (th_nodes H) y;
     if has_flag (bt_flags t) RCSW_DS_BSTREE_RB \<and> \<not> yr then do {
       H \<leftarrow> (if has_flag (bt_flags t) RCSW_DS_BSTREE_INT then inttree_high_fixup env t x H
             else if has_flag (bt_flags t) RCSW_DS_BSTREE_OS
             then ostree_count_fixup t x OSTREE_FIXUP_DELETE H
             else Some H);
       rbtree_delete_fixup env t x H
     }
     else Some H
   }"

text \<open>\<open>y\<close> takes the place of the victim.\<close>

definition replace_node :: "nat \<Rightarrow> nat \<Rightarrow> 'k tnodes \<Rightarrow> 'k tnodes option" where
  "replace_node y victim ns = do {
     vd \<leftarrow> ns victim;
     ns \<leftarrow> put_left y (tn_left vd) ns;
     vd \<leftarrow> ns victim;
     ns \<leftarrow> put_right y (tn_right vd) ns;
     vd \<leftarrow> ns victim;
     ns \<leftarrow> put_parent y (tn_parent vd) ns;
     vd \<leftarrow> ns victim;
     ns \<leftarrow> put_red y (tn_red vd) ns;
     vr \<leftarrow> rgt ns victim;
     ns \<leftarrow> put_parent vr y ns;
     vl \<leftarrow> lft ns victim;
     ns \<leftarrow> put_parent vl y ns;
     vp \<leftarrow> par ns victim;
     l \<leftarrow> lft ns vp;
     if victim = l then put_left vp y ns else put_right vp y ns
   }"

text \<open>
  The flag \<open>elt\<close> asks for a copy of the element. The tests of the red-black properties end the
  operation with an error before the victim is destroyed.
\<close>

definition delete_end ::
  "'k bstree \<Rightarrow> nat \<Rightarrow> bool \<Rightarrow> ('k, 'a) theap \<Rightarrow> (status \<times> 'a option \<times> 'k bstree \<times> ('k, 'a) theap) option" where
  "delete_end t victim elt H = do {
     ok \<leftarrow> (if has_flag (bt_flags t) RCSW_DS_BSTREE_RB then rb_checks t (th_nodes H) else Some True);
     if \<not> ok then Some (fpc_error, None, t, H)
     else do {
       copy \<leftarrow> (if elt then do {
           vd \<leftarrow> th_nodes H victim;
           b \<leftarrow> tn_data vd;
           v \<leftarrow> th_blocks H b;
           Some (Some v)
         } else Some None);
       (t, H) \<leftarrow> bstree_node_destroy t victim H;
       Some (OK, copy, t\<lparr>bt_current := size_pred (bt_current t)\<rparr>, H)
     }
   }"

definition bstree_delete ::
  "('k, 'a) tenv \<Rightarrow> 'k bstree \<Rightarrow> nat \<Rightarrow> bool \<Rightarrow> ('k, 'a) theap
     \<Rightarrow> (status \<times> 'a option \<times> 'k bstree \<times> ('k, 'a) theap) option" where
  "bstree_delete env t victim elt H =
     (if victim = 0 then Some (fpc_error, None, t, H)
      else do {
        vd \<leftarrow> th_nodes H victim;
        y \<leftarrow> (if tn_left vd = bt_nil t \<or> tn_right vd = bt_nil t then Some victim
              else bstree_node_successor t victim (th_nodes H));
        yd \<leftarrow> th_nodes H y;
        let x = (if tn_left yd = bt_nil t then tn_right yd else tn_left yd);
        H \<leftarrow> on_nodes (unlink_node t y x) H;
        H \<leftarrow> delete_rb env t y x H;
        H \<leftarrow> (if y \<noteq> victim then on_nodes (replace_node y victim) H else Some H);
        delete_end t victim elt H
      })"

definition bstree_remove ::
  "('k, 'a) tenv \<Rightarrow> 'k bstree \<Rightarrow> 'k option \<Rightarrow> ('k, 'a) theap
     \<Rightarrow> (status \<times> 'k bstree \<times> ('k, 'a) theap) option" where
  "bstree_remove env t key H =
     (case key of
        None \<Rightarrow> Some (fpc_error, t, H)
      | Some k \<Rightarrow> do {
          top \<leftarrow> RCSW_BSTREE_ROOT t (th_nodes H);
          victim \<leftarrow> bstree_node_query t top k (th_nodes H);
          if victim = 0 then Some (ERROR None, t, H)
          else do {
            (s, _, t, H) \<leftarrow> bstree_delete env t victim False H;
            Some (s, t, H)
          }
        })"

subsection \<open>Interval trees\<close>

definition inttree_cmp_overlap :: "interval_data \<Rightarrow> interval_data \<Rightarrow> bool" where
  "inttree_cmp_overlap a b =
     (if iv_low a \<le> iv_low b then iv_low b \<le> iv_high a else iv_low a \<le> iv_high b)"

text \<open>The difference of two \<open>int32_t\<close>; it wraps where the difference is too large for one.\<close>

definition inttree_cmp_key :: "int \<Rightarrow> int \<Rightarrow> int" where
  "inttree_cmp_key a b = wrap32 (a - b)"

definition inttree_init ::
  "(int, 'a) tenv \<Rightarrow> (bstree_space_mgmt \<times> nat) option \<Rightarrow> (bstree_space_mgmt \<times> nat) option
     \<Rightarrow> int bstree_params option \<Rightarrow> (int, 'a) theap \<Rightarrow> (int bstree option \<times> (int, 'a) theap) option" where
  "inttree_init env tree_in handle params H =
     (case params of
        None \<Rightarrow> Some (None, H)
      | Some p \<Rightarrow> bstree_init_internal env tree_in handle (Some (p\<lparr>bp_cmpkey := Some inttree_cmp_key\<rparr>)) H)"

text \<open>0 is the \<open>NULL\<close> of no overlap.\<close>

partial_function (option) inttree_overlap_search ::
  "('k, 'a) tenv \<Rightarrow> 'k bstree \<Rightarrow> nat \<Rightarrow> interval_data \<Rightarrow> ('k, 'a) theap \<Rightarrow> nat option" where
  "inttree_overlap_search env t root interval H =
     (if root = 0 then Some 0
      else if root = bt_nil t then Some 0
      else Option.bind (interval_at env H root) (\<lambda>iv.
        if inttree_cmp_overlap iv interval then Some root
        else Option.bind (th_nodes H root) (\<lambda>nd.
          Option.bind (th_nodes H (tn_left nd)) (\<lambda>l.
            if tn_left nd \<noteq> bt_nil t \<and> tn_aux l \<ge> iv_low interval
            then inttree_overlap_search env t (tn_left nd) interval H
            else inttree_overlap_search env t (tn_right nd) interval H))))"

definition inttree_insert ::
  "(int, 'a) tenv \<Rightarrow> int bstree \<Rightarrow> interval_data \<Rightarrow> (int, 'a) theap
     \<Rightarrow> (status \<times> int bstree \<times> (int, 'a) theap) option" where
  "inttree_insert env t interval H =
     bstree_insert_internal env t (Some (iv_low interval)) (Some (te_of_interval env interval)) H"

subsection \<open>Order statistics trees\<close>

definition ostree_init ::
  "('k, 'a) tenv \<Rightarrow> (bstree_space_mgmt \<times> nat) option \<Rightarrow> (bstree_space_mgmt \<times> nat) option
     \<Rightarrow> 'k bstree_params option \<Rightarrow> ('k, 'a) theap \<Rightarrow> ('k bstree option \<times> ('k, 'a) theap) option" where
  "ostree_init env tree_in handle params H = bstree_init_internal env tree_in handle params H"

definition ostree_insert ::
  "('k, 'a) tenv \<Rightarrow> 'k bstree \<Rightarrow> 'k option \<Rightarrow> 'a option \<Rightarrow> ('k, 'a) theap
     \<Rightarrow> (status \<times> 'k bstree \<times> ('k, 'a) theap) option" where
  "ostree_insert env t key data H = bstree_insert_internal env t key data H"

partial_function (option) ostree_select ::
  "'k bstree \<Rightarrow> 'k tnodes \<Rightarrow> nat \<Rightarrow> int \<Rightarrow> nat option" where
  "ostree_select t ns node i =
     (if node = 0 \<or> bstree_isempty t \<or> \<not> i \<le> int_of_size (bstree_size t) - 1 then Some 0
      else if node = bt_nil t then Some 0
      else Option.bind (ns node) (\<lambda>nd.
        Option.bind (ns (tn_left nd)) (\<lambda>l.
          if i = tn_aux l then Some node
          else if i < tn_aux l then ostree_select t ns (tn_left nd) i
          else ostree_select t ns (tn_right nd) (i - (tn_aux l + 1)))))"

text \<open>The walk of \<open>ostree_rank\<close>: the rank so far and the node.\<close>

definition rank_cond :: "'k bstree \<Rightarrow> int \<times> nat \<Rightarrow> bool option" where
  "rank_cond t s = Some (snd s \<noteq> bt_root t)"

definition rank_step :: "'k tnodes \<Rightarrow> int \<times> nat \<Rightarrow> (int \<times> nat) option" where
  "rank_step ns s = do {
     p \<leftarrow> par ns (snd s);
     pd \<leftarrow> ns p;
     r \<leftarrow> (if snd s = tn_right pd then do {
             l \<leftarrow> ns (tn_left pd);
             Some (wrap32 (fst s + wrap32 (tn_aux l + 1)))
           } else Some (fst s));
     Some (r, p)
   }"

definition ostree_rank :: "'k bstree \<Rightarrow> 'k tnodes \<Rightarrow> nat \<Rightarrow> int option" where
  "ostree_rank t ns node =
     (if node = 0 then Some (-1)
      else do {
        nd \<leftarrow> ns node;
        l \<leftarrow> ns (tn_left nd);
        s \<leftarrow> while_loop (rank_cond t) (rank_step ns) (tn_aux l, node);
        Some (fst s)
      })"

end
