(* ===== verification/Tree_Shape.thy ===== *)
theory Tree_Shape
  imports Bstree "HOL-Library.Tree"
begin

text \<open>
  What the node heap looks like: a tree of addresses stands at a position of the heap, and a
  context is the rest of the tree around such a position, from the position up to the sentinel.
  The in-order list of addresses is the content; rotations keep it.
\<close>

subsection \<open>Trees and contexts\<close>

fun addr :: "nat \<Rightarrow> nat tree \<Rightarrow> nat" where
  "addr nil Leaf = nil"
| "addr nil (Node l a r) = a"

definition linked :: "'k tnodes \<Rightarrow> nat \<Rightarrow> nat \<Rightarrow> nat \<Rightarrow> nat \<Rightarrow> bool" where
  "linked ns a l r p \<longleftrightarrow>
     (case ns a of None \<Rightarrow> False | Some nd \<Rightarrow> tn_left nd = l \<and> tn_right nd = r \<and> tn_parent nd = p)"

fun ptree :: "'k tnodes \<Rightarrow> nat \<Rightarrow> nat \<Rightarrow> nat tree \<Rightarrow> bool" where
  "ptree ns nil p Leaf \<longleftrightarrow> True"
| "ptree ns nil p (Node l a r) \<longleftrightarrow>
     linked ns a (addr nil l) (addr nil r) p \<and> ptree ns nil a l \<and> ptree ns nil a r"

datatype crumb = GoLeft nat "nat tree" | GoRight "nat tree" nat

fun up :: "nat \<Rightarrow> crumb list \<Rightarrow> nat" where
  "up rt [] = rt"
| "up rt (GoLeft a r # c) = a"
| "up rt (GoRight l a # c) = a"

fun plug :: "crumb list \<Rightarrow> nat tree \<Rightarrow> nat tree" where
  "plug [] t = t"
| "plug (GoLeft a r # c) t = plug c (Node t a r)"
| "plug (GoRight l a # c) t = plug c (Node l a t)"

fun before :: "crumb list \<Rightarrow> nat list" where
  "before [] = []"
| "before (GoLeft a r # c) = before c"
| "before (GoRight l a # c) = before c @ inorder l @ [a]"

fun after :: "crumb list \<Rightarrow> nat list" where
  "after [] = []"
| "after (GoLeft a r # c) = a # inorder r @ after c"
| "after (GoRight l a # c) = after c"

fun pctx :: "'k tnodes \<Rightarrow> nat \<Rightarrow> nat \<Rightarrow> nat \<Rightarrow> crumb list \<Rightarrow> bool" where
  "pctx ns nil rt h [] \<longleftrightarrow> linked ns rt h nil nil"
| "pctx ns nil rt h (GoLeft a r # c) \<longleftrightarrow>
     linked ns a h (addr nil r) (up rt c) \<and> ptree ns nil a r \<and> pctx ns nil rt a c"
| "pctx ns nil rt h (GoRight l a # c) \<longleftrightarrow>
     linked ns a (addr nil l) h (up rt c) \<and> ptree ns nil a l \<and> pctx ns nil rt a c"

lemma inorder_plug [simp]: "inorder (plug c t) = before c @ inorder t @ after c"
  by (induction c t rule: plug.induct) auto

lemma plug_append: "plug (c @ d) t = plug d (plug c t)"
  by (induction c t rule: plug.induct) auto

lemma linked_Some: "linked ns a l r p \<longleftrightarrow>
    (\<exists>nd. ns a = Some nd \<and> tn_left nd = l \<and> tn_right nd = r \<and> tn_parent nd = p)"
  by (auto simp: linked_def split: option.splits)

lemma linkedD:
  assumes "linked ns a l r p"
  shows "lft ns a = Some l" "rgt ns a = Some r" "par ns a = Some p"
  using assms by (auto simp: linked_Some tree_access)

lemma ptree_addr: "ptree ns nil p t \<Longrightarrow> t \<noteq> Leaf \<Longrightarrow> par ns (addr nil t) = Some p"
  by (cases t) (auto simp: linkedD)

text \<open>Nothing but the links of the nodes matters.\<close>

definition same_links :: "nat set \<Rightarrow> 'k tnodes \<Rightarrow> 'k tnodes \<Rightarrow> bool" where
  "same_links A ns ns' \<longleftrightarrow> (\<forall>a \<in> A. lft ns' a = lft ns a \<and> rgt ns' a = rgt ns a \<and> par ns' a = par ns a)"

lemma linked_iff: "linked ns a l r p \<longleftrightarrow> lft ns a = Some l \<and> rgt ns a = Some r \<and> par ns a = Some p"
  by (auto simp: linked_Some tree_access)

lemma ptree_cong: "same_links (set_tree t) ns ns' \<Longrightarrow> ptree ns' nil p t = ptree ns nil p t"
  by (induction t arbitrary: p) (auto simp: same_links_def linked_iff)

lemma pctx_cong:
  "same_links (insert rt (set (before c @ after c))) ns ns' \<Longrightarrow> pctx ns' nil rt h c = pctx ns nil rt h c"
proof (induction c arbitrary: h)
  case Nil
  then show ?case by (simp add: same_links_def linked_iff)
next
  case (Cons b c)
  show ?case
  proof (cases b)
    case (GoLeft a r)
    have "same_links (insert rt (set (before c @ after c))) ns ns'" "same_links (set_tree r) ns ns'"
      using Cons.prems GoLeft by (auto simp: same_links_def)
    then have "ptree ns' nil a r = ptree ns nil a r" "pctx ns' nil rt a c = pctx ns nil rt a c"
      using Cons.IH ptree_cong by blast+
    then show ?thesis using Cons.prems GoLeft by (simp add: same_links_def linked_iff)
  next
    case (GoRight l a)
    have "same_links (insert rt (set (before c @ after c))) ns ns'" "same_links (set_tree l) ns ns'"
      using Cons.prems GoRight by (auto simp: same_links_def)
    then have "ptree ns' nil a l = ptree ns nil a l" "pctx ns' nil rt a c = pctx ns nil rt a c"
      using Cons.IH ptree_cong by blast+
    then show ?thesis using Cons.prems GoRight by (simp add: same_links_def linked_iff)
  qed
qed

text \<open>Frames: an update of links outside a tree, or of the parent of its root.\<close>

lemma ptree_frame:
  "ptree ns nil p t \<Longrightarrow> (\<And>a. a \<in> set_tree t \<Longrightarrow> ns' a = ns a) \<Longrightarrow> ptree ns' nil p t"
  using ptree_cong [of t ns ns'] by (simp add: same_links_def tree_access)

lemma pctx_frame:
  "pctx ns nil rt h c \<Longrightarrow> ns' rt = ns rt \<Longrightarrow> (\<And>a. a \<in> set (before c @ after c) \<Longrightarrow> ns' a = ns a) \<Longrightarrow>
   pctx ns' nil rt h c"
  using pctx_cong [of rt c ns ns'] by (simp add: same_links_def tree_access)

lemma ptree_reparent:
  assumes "ptree ns nil p t" and "distinct (inorder t)"
    and "t \<noteq> Leaf \<Longrightarrow> \<exists>nd. ns (addr nil t) = Some nd \<and> ns' (addr nil t) = Some (nd\<lparr>tn_parent := q\<rparr>)"
    and "\<And>a. a \<in> set_tree t \<Longrightarrow> a \<noteq> addr nil t \<Longrightarrow> ns' a = ns a"
  shows "ptree ns' nil q t"
proof (cases t)
  case (Node l a r)
  have "ptree ns' nil a l" "ptree ns' nil a r"
    using assms Node by (auto intro!: ptree_frame [of ns])
  then show ?thesis using assms Node by (auto simp: linked_Some)
qed simp

lemma pctx_rehang:
  assumes "pctx ns nil rt h c" and "distinct (before c @ after c)" and "rt \<notin> set (before c @ after c)"
    and "h \<noteq> nil" and "h \<notin> set (before c @ after c)"
    and l: "lft ns (up rt c) = Some h \<Longrightarrow> \<exists>nd. ns (up rt c) = Some nd \<and> ns' (up rt c) = Some (nd\<lparr>tn_left := h'\<rparr>)"
    and r: "lft ns (up rt c) \<noteq> Some h \<Longrightarrow> \<exists>nd. ns (up rt c) = Some nd \<and> ns' (up rt c) = Some (nd\<lparr>tn_right := h'\<rparr>)"
    and "\<And>a. a \<in> insert rt (set (before c @ after c)) \<Longrightarrow> a \<noteq> up rt c \<Longrightarrow> ns' a = ns a"
  shows "pctx ns' nil rt h' c"
proof (cases c)
  case Nil
  then show ?thesis using assms by (auto simp: linked_Some tree_access)
next
  case (Cons b d)
  show ?thesis
  proof (cases b)
    case (GoLeft a s)
    have "a \<notin> set (before d @ after d)" "a \<noteq> rt" "a \<notin> set_tree s" using assms(2,3) Cons GoLeft by auto
    then have "ns' x = ns x" if "x = rt \<or> x \<in> set (before d @ after d) \<union> set_tree s" for x
      using that assms(8) [of x] Cons GoLeft by auto
    then have "ptree ns' nil a s" "pctx ns' nil rt a d"
      using assms(1) Cons GoLeft ptree_frame [of ns nil a s ns'] pctx_frame [of ns nil rt a d ns'] by auto
    moreover have "linked ns' a h' (addr nil s) (up rt d)"
      using assms(1) l Cons GoLeft by (auto simp: linked_Some tree_access)
    ultimately show ?thesis using Cons GoLeft by simp
  next
    case (GoRight s a)
    have "a \<notin> set (before d @ after d)" "a \<noteq> rt" "a \<notin> set_tree s" using assms(2,3) Cons GoRight by auto
    then have "ns' x = ns x" if "x = rt \<or> x \<in> set (before d @ after d) \<union> set_tree s" for x
      using that assms(8) [of x] Cons GoRight by auto
    then have "ptree ns' nil a s" "pctx ns' nil rt a d"
      using assms(1) Cons GoRight ptree_frame [of ns nil a s ns'] pctx_frame [of ns nil rt a d ns'] by auto
    moreover have "addr nil s \<noteq> h" using assms(4,5) Cons GoRight by (cases s) auto
    then have "linked ns' a (addr nil s) h' (up rt d)"
      using assms(1) r Cons GoRight by (auto simp: linked_Some tree_access)
    ultimately show ?thesis using Cons GoRight by simp
  qed
qed

subsection \<open>Rotations\<close>

text \<open>The tree \<open>t\<close> stands at the position of the context \<open>c\<close>.\<close>

definition tree_at :: "'k tnodes \<Rightarrow> nat \<Rightarrow> nat \<Rightarrow> crumb list \<Rightarrow> nat tree \<Rightarrow> bool" where
  "tree_at ns nil rt c t \<longleftrightarrow> pctx ns nil rt (addr nil t) c \<and> ptree ns nil (up rt c) t \<and>
     distinct (inorder (plug c t)) \<and> nil \<noteq> rt \<and>
     nil \<notin> set (inorder (plug c t)) \<and> rt \<notin> set (inorder (plug c t))"

text \<open>What an update keeps: everything but the links, and the nodes outside \<open>A\<close>.\<close>

definition payload :: "'k tnodes \<Rightarrow> nat \<Rightarrow> ('k \<times> nat option \<times> bool \<times> int) option" where
  "payload ns a = map_option (\<lambda>nd. (tn_key nd, tn_data nd, tn_red nd, tn_aux nd)) (ns a)"

definition relinks :: "nat set \<Rightarrow> 'k tnodes \<Rightarrow> 'k tnodes \<Rightarrow> bool" where
  "relinks A ns ns' \<longleftrightarrow> payload ns' = payload ns \<and> (\<forall>a. a \<notin> A \<longrightarrow> ns' a = ns a)"

lemma up_mem: "up rt c \<in> insert rt (set (before c @ after c))"
  by (cases "(rt, c)" rule: up.cases) auto

lemma pctx_up:
  assumes "pctx ns nil rt h c"
  shows "\<exists>qd. ns (up rt c) = Some qd \<and> (tn_left qd = h \<or> tn_right qd = h)"
  using assms by (cases "(rt, c)" rule: up.cases) (auto simp: linked_Some)

lemma rotate_links_right_ok:
  assumes "tree_at ns nil rt c (Node (Node x p y) g u)"
  shows "\<exists>ns'. rotate_links_right nil g ns = Some (p, ns') \<and> tree_at ns' nil rt c (Node x p (Node y g u)) \<and>
    relinks (insert rt (set (inorder (plug c (Node (Node x p y) g u))))) ns ns'"
proof -
  let ?t = "Node (Node x p y) g u" and ?q = "up rt c" and ?ay = "addr nil y"
  have d: "distinct (inorder (plug c ?t))" "nil \<notin> set (inorder (plug c ?t))" "rt \<notin> set (inorder (plug c ?t))" "nil \<noteq> rt"
    and cx: "pctx ns nil rt g c" and pt: "ptree ns nil ?q ?t"
    using assms by (simp_all add: tree_at_def)
  obtain gd pd where gd: "ns g = Some gd" "tn_left gd = p" "tn_right gd = addr nil u" "tn_parent gd = ?q"
    and pd: "ns p = Some pd" "tn_left pd = addr nil x" "tn_right pd = ?ay" "tn_parent pd = g"
    and sub: "ptree ns nil p x" "ptree ns nil p y" "ptree ns nil g u"
    using pt by (auto simp: linked_Some)
  obtain qd where qd: "ns ?q = Some qd" "tn_left qd = g \<or> tn_right qd = g" using pctx_up [OF cx] by auto
  have sep: "g \<noteq> p" "g \<notin> set_tree x \<union> set_tree y \<union> set_tree u" "p \<notin> set_tree x \<union> set_tree y \<union> set_tree u"
      "set_tree y \<inter> (set_tree x \<union> set_tree u) = {}"
      "insert rt (set (before c @ after c)) \<inter> insert g (insert p (set_tree x \<union> set_tree y \<union> set_tree u)) = {}"
      "nil \<noteq> g" "nil \<noteq> p" "nil \<notin> insert rt (set (before c @ after c))"
    using d by auto
  have q: "?q \<noteq> g" "?q \<noteq> p" "?q \<notin> set_tree x \<union> set_tree y \<union> set_tree u" "nil \<noteq> ?q"
    using up_mem [of rt c] sep(5,8) by blast+
  note ne = sep(1,6,7) q(1,2,4)
  have ny: "g \<notin> set_tree y" "p \<notin> set_tree y" "?q \<notin> set_tree y" using sep(2,3) q(3) by blast+
  have ayd: "\<exists>yd. ns ?ay = Some yd \<and> ?ay \<noteq> nil \<and> ?ay \<in> set_tree y" if "y \<noteq> Leaf"
    using that sub(2) d(2) by (cases y) (auto simp: linked_Some)
  let ?qd = "if tn_left qd = g then qd\<lparr>tn_left := p\<rparr> else qd\<lparr>tn_right := p\<rparr>"
  let ?ns = "(if y = Leaf then ns else ns(?ay \<mapsto> (the (ns ?ay))\<lparr>tn_parent := g\<rparr>))
     (g \<mapsto> gd\<lparr>tn_left := ?ay, tn_parent := p\<rparr>, p \<mapsto> pd\<lparr>tn_parent := ?q, tn_right := g\<rparr>, ?q \<mapsto> ?qd)"
  have run: "rotate_links_right nil g ns = Some (p, ?ns)"
  proof (cases "y = Leaf")
    case True
    then show ?thesis using gd pd qd(1) ne
      by (auto simp: rotate_links_right_def tree_access tree_update fun_upd_twist)
  next
    case False
    then obtain yd where "ns ?ay = Some yd" "?ay \<noteq> nil" "?ay \<noteq> g" "?ay \<noteq> p" "?ay \<noteq> ?q"
      using ayd ny by metis
    then show ?thesis using False gd pd qd(1) ne
      by (auto simp: rotate_links_right_def tree_access tree_update fun_upd_twist)
  qed
  have other: "?ns a = ns a" if "a \<noteq> g" "a \<noteq> p" "a \<noteq> ?q" "a \<notin> set_tree y \<or> a \<noteq> ?ay" for a
    using that ayd by auto
  have out: "a \<noteq> g \<and> a \<noteq> p \<and> a \<noteq> ?q \<and> a \<notin> set_tree y" if "a \<in> set_tree x \<union> set_tree u" for a
    using that sep(2-4) q(3) by blast
  have "ptree ?ns nil p x" "ptree ?ns nil g u"
    using sub(1,3) out other by (blast intro: ptree_frame)+
  moreover have "ptree ?ns nil g y"
  proof (rule ptree_reparent [OF sub(2)])
    show "distinct (inorder y)" using d(1) by simp
    show "\<exists>nd. ns ?ay = Some nd \<and> ?ns ?ay = Some (nd\<lparr>tn_parent := g\<rparr>)" if "y \<noteq> Leaf"
    proof -
      obtain yd where yd: "ns ?ay = Some yd" "?ay \<in> set_tree y" using ayd [OF \<open>y \<noteq> Leaf\<close>] by blast
      then have "?ay \<noteq> g" "?ay \<noteq> p" "?ay \<noteq> ?q" using ny by auto
      then show ?thesis using \<open>y \<noteq> Leaf\<close> yd(1) by simp
    qed
    show "?ns a = ns a" if "a \<in> set_tree y" "a \<noteq> ?ay" for a
      by (rule other) (use that ny in auto)
  qed
  moreover have "pctx ?ns nil rt p c"
  proof (rule pctx_rehang [OF cx])
    show "?ns a = ns a" if "a \<in> insert rt (set (before c @ after c))" "a \<noteq> ?q" for a
      by (rule other) (use that d in auto)
  qed (use d ne qd in \<open>auto simp: tree_access\<close>)
  moreover have "linked ?ns p (addr nil x) g ?q" "linked ?ns g ?ay (addr nil u) p"
    using gd pd ne by (auto simp: linked_Some)
  moreover have "payload ?ns = payload ns"
    using gd(1) pd(1) qd(1) ayd by (auto simp: payload_def fun_eq_iff)
  moreover have "?ns a = ns a" if "a \<notin> insert rt (set (inorder (plug c ?t)))" for a
    by (rule other) (use that up_mem [of rt c] in auto)
  ultimately show ?thesis using run d
    by (intro exI [of _ ?ns]) (auto simp: tree_at_def relinks_def)
qed

lemma rotate_links_left_ok:
  assumes "tree_at ns nil rt c (Node u g (Node y p x))"
  shows "\<exists>ns'. rotate_links_left nil g ns = Some (p, ns') \<and> tree_at ns' nil rt c (Node (Node u g y) p x) \<and>
    relinks (insert rt (set (inorder (plug c (Node u g (Node y p x)))))) ns ns'"
proof -
  let ?t = "Node u g (Node y p x)" and ?q = "up rt c" and ?ay = "addr nil y"
  have d: "distinct (inorder (plug c ?t))" "nil \<notin> set (inorder (plug c ?t))" "rt \<notin> set (inorder (plug c ?t))" "nil \<noteq> rt"
    and cx: "pctx ns nil rt g c" and pt: "ptree ns nil ?q ?t"
    using assms by (simp_all add: tree_at_def)
  obtain gd pd where gd: "ns g = Some gd" "tn_right gd = p" "tn_left gd = addr nil u" "tn_parent gd = ?q"
    and pd: "ns p = Some pd" "tn_right pd = addr nil x" "tn_left pd = ?ay" "tn_parent pd = g"
    and sub: "ptree ns nil p x" "ptree ns nil p y" "ptree ns nil g u"
    using pt by (auto simp: linked_Some)
  obtain qd where qd: "ns ?q = Some qd" "tn_left qd = g \<or> tn_right qd = g" using pctx_up [OF cx] by auto
  have sep: "g \<noteq> p" "g \<notin> set_tree x \<union> set_tree y \<union> set_tree u" "p \<notin> set_tree x \<union> set_tree y \<union> set_tree u"
      "set_tree y \<inter> (set_tree x \<union> set_tree u) = {}"
      "insert rt (set (before c @ after c)) \<inter> insert g (insert p (set_tree x \<union> set_tree y \<union> set_tree u)) = {}"
      "nil \<noteq> g" "nil \<noteq> p" "nil \<notin> insert rt (set (before c @ after c))"
    using d by auto
  have q: "?q \<noteq> g" "?q \<noteq> p" "?q \<notin> set_tree x \<union> set_tree y \<union> set_tree u" "nil \<noteq> ?q"
    using up_mem [of rt c] sep(5,8) by blast+
  note ne = sep(1,6,7) q(1,2,4)
  have ny: "g \<notin> set_tree y" "p \<notin> set_tree y" "?q \<notin> set_tree y" using sep(2,3) q(3) by blast+
  have ayd: "\<exists>yd. ns ?ay = Some yd \<and> ?ay \<noteq> nil \<and> ?ay \<in> set_tree y" if "y \<noteq> Leaf"
    using that sub(2) d(2) by (cases y) (auto simp: linked_Some)
  let ?qd = "if tn_left qd = g then qd\<lparr>tn_left := p\<rparr> else qd\<lparr>tn_right := p\<rparr>"
  let ?ns = "(if y = Leaf then ns else ns(?ay \<mapsto> (the (ns ?ay))\<lparr>tn_parent := g\<rparr>))
     (g \<mapsto> gd\<lparr>tn_right := ?ay, tn_parent := p\<rparr>, p \<mapsto> pd\<lparr>tn_parent := ?q, tn_left := g\<rparr>, ?q \<mapsto> ?qd)"
  have run: "rotate_links_left nil g ns = Some (p, ?ns)"
  proof (cases "y = Leaf")
    case True
    then show ?thesis using gd pd qd(1) ne
      by (auto simp: rotate_links_left_def tree_access tree_update fun_upd_twist)
  next
    case False
    then obtain yd where "ns ?ay = Some yd" "?ay \<noteq> nil" "?ay \<noteq> g" "?ay \<noteq> p" "?ay \<noteq> ?q"
      using ayd ny by metis
    then show ?thesis using False gd pd qd(1) ne
      by (auto simp: rotate_links_left_def tree_access tree_update fun_upd_twist)
  qed
  have other: "?ns a = ns a" if "a \<noteq> g" "a \<noteq> p" "a \<noteq> ?q" "a \<notin> set_tree y \<or> a \<noteq> ?ay" for a
    using that ayd by auto
  have out: "a \<noteq> g \<and> a \<noteq> p \<and> a \<noteq> ?q \<and> a \<notin> set_tree y" if "a \<in> set_tree x \<union> set_tree u" for a
    using that sep(2-4) q(3) by blast
  have "ptree ?ns nil p x" "ptree ?ns nil g u"
    using sub(1,3) out other by (blast intro: ptree_frame)+
  moreover have "ptree ?ns nil g y"
  proof (rule ptree_reparent [OF sub(2)])
    show "distinct (inorder y)" using d(1) by simp
    show "\<exists>nd. ns ?ay = Some nd \<and> ?ns ?ay = Some (nd\<lparr>tn_parent := g\<rparr>)" if "y \<noteq> Leaf"
    proof -
      obtain yd where yd: "ns ?ay = Some yd" "?ay \<in> set_tree y" using ayd [OF \<open>y \<noteq> Leaf\<close>] by blast
      then have "?ay \<noteq> g" "?ay \<noteq> p" "?ay \<noteq> ?q" using ny by auto
      then show ?thesis using \<open>y \<noteq> Leaf\<close> yd(1) by simp
    qed
    show "?ns a = ns a" if "a \<in> set_tree y" "a \<noteq> ?ay" for a
      by (rule other) (use that ny in auto)
  qed
  moreover have "pctx ?ns nil rt p c"
  proof (rule pctx_rehang [OF cx])
    show "?ns a = ns a" if "a \<in> insert rt (set (before c @ after c))" "a \<noteq> ?q" for a
      by (rule other) (use that d in auto)
  qed (use d ne qd in \<open>auto simp: tree_access\<close>)
  moreover have "linked ?ns p g (addr nil x) ?q" "linked ?ns g (addr nil u) ?ay p"
    using gd pd ne by (auto simp: linked_Some)
  moreover have "payload ?ns = payload ns"
    using gd(1) pd(1) qd(1) ayd by (auto simp: payload_def fun_eq_iff)
  moreover have "?ns a = ns a" if "a \<notin> insert rt (set (inorder (plug c ?t)))" for a
    by (rule other) (use that up_mem [of rt c] in auto)
  ultimately show ?thesis using run d
    by (intro exI [of _ ?ns]) (auto simp: tree_at_def relinks_def)
qed

subsection \<open>Rotations of the whole node\<close>

text \<open>
  \<open>data_ok\<close>: every node of \<open>A\<close> has a datablock, which the auxiliary fields of interval trees
  are computed from. \<open>reshapes\<close>: keys and elements stay, and so do the nodes outside \<open>A\<close>.
\<close>

definition data_ok :: "('k, 'a) theap \<Rightarrow> nat set \<Rightarrow> bool" where
  "data_ok H A \<longleftrightarrow> (\<forall>a \<in> A. \<exists>nd b v. th_nodes H a = Some nd \<and> tn_data nd = Some b \<and> th_blocks H b = Some v)"

definition core :: "'k tnodes \<Rightarrow> nat \<Rightarrow> ('k \<times> nat option) option" where
  "core ns a = map_option (\<lambda>nd. (tn_key nd, tn_data nd)) (ns a)"

definition reshapes :: "nat set \<Rightarrow> ('k, 'a) theap \<Rightarrow> ('k, 'a) theap \<Rightarrow> bool" where
  "reshapes A H H' \<longleftrightarrow> core (th_nodes H') = core (th_nodes H) \<and> th_blocks H' = th_blocks H \<and>
     (\<forall>a. a \<notin> A \<longrightarrow> th_nodes H' a = th_nodes H a)"

lemma reshapes_refl [simp]: "reshapes A H H"
  by (simp add: reshapes_def)

lemma reshapes_trans: "reshapes A H H' \<Longrightarrow> reshapes A H' H'' \<Longrightarrow> reshapes A H H''"
  by (simp add: reshapes_def)

lemma reshapes_mono: "reshapes A H H' \<Longrightarrow> A \<subseteq> B \<Longrightarrow> reshapes B H H'"
  by (auto simp: reshapes_def)

lemma data_ok_core: "data_ok H A \<longleftrightarrow> (\<forall>a \<in> A. \<exists>k b v. core (th_nodes H) a = Some (k, Some b) \<and> th_blocks H b = Some v)"
  unfolding data_ok_def core_def by (intro ball_cong refl) auto

lemma data_ok_reshapes: "reshapes B H H' \<Longrightarrow> data_ok H' A = data_ok H A"
  by (simp add: data_ok_core reshapes_def)

lemma data_ok_dom: "data_ok H A \<Longrightarrow> a \<in> A \<Longrightarrow> \<exists>nd. th_nodes H a = Some nd"
  by (auto simp: data_ok_def)

text \<open>Updates of auxiliary fields only.\<close>

definition aux_only :: "nat set \<Rightarrow> ('k, 'a) theap \<Rightarrow> ('k, 'a) theap \<Rightarrow> bool" where
  "aux_only A H H' \<longleftrightarrow> th_blocks H' = th_blocks H \<and>
     (\<forall>a. map_option (tn_aux_update (\<lambda>_. 0)) (th_nodes H' a) = map_option (tn_aux_update (\<lambda>_. 0)) (th_nodes H a)) \<and>
     (\<forall>a. a \<notin> A \<longrightarrow> th_nodes H' a = th_nodes H a)"

lemma aux_only_refl [simp]: "aux_only A H H"
  by (simp add: aux_only_def)

lemma aux_only_trans: "aux_only A H H' \<Longrightarrow> aux_only A H' H'' \<Longrightarrow> aux_only A H H''"
  by (simp add: aux_only_def)

lemma aux_only_mono: "aux_only A H H' \<Longrightarrow> A \<subseteq> B \<Longrightarrow> aux_only B H H'"
  by (auto simp: aux_only_def)

lemma aux_only_field:
  assumes "aux_only A H H'" and "\<And>nd x. f (nd\<lparr>tn_aux := x\<rparr>) = f nd"
  shows "map_option f (th_nodes H' a) = map_option f (th_nodes H a)"
proof -
  have "map_option (tn_aux_update (\<lambda>_. 0)) (th_nodes H' a) = map_option (tn_aux_update (\<lambda>_. 0)) (th_nodes H a)"
    using assms(1) by (simp add: aux_only_def)
  then have "map_option (f \<circ> tn_aux_update (\<lambda>_. 0)) (th_nodes H' a) =
      map_option (f \<circ> tn_aux_update (\<lambda>_. 0)) (th_nodes H a)"
    by (metis option.map_comp)
  then show ?thesis using assms(2) by (simp add: comp_def)
qed

lemma aux_only_access:
  assumes "aux_only A H H'"
  shows "lft (th_nodes H') = lft (th_nodes H)" "rgt (th_nodes H') = rgt (th_nodes H)"
    "par (th_nodes H') = par (th_nodes H)" "isred (th_nodes H') = isred (th_nodes H)"
    "core (th_nodes H') = core (th_nodes H)"
  by (rule ext, simp only: tree_access core_def, rule aux_only_field [OF assms], simp)+

lemma aux_only_reshapes: "aux_only A H H' \<Longrightarrow> reshapes A H H'"
  by (simp add: reshapes_def aux_only_access) (simp add: aux_only_def)

lemma aux_only_tree_at: "aux_only A H H' \<Longrightarrow> tree_at (th_nodes H') nil rt c t = tree_at (th_nodes H) nil rt c t"
  using pctx_cong [of rt c "th_nodes H" "th_nodes H'" nil] ptree_cong [of t "th_nodes H" "th_nodes H'" nil]
  by (simp add: tree_at_def same_links_def aux_only_access)

lemma put_aux_only: "th_nodes H a = Some nd \<Longrightarrow> \<exists>H'. on_nodes (put_aux a x) H = Some H' \<and> aux_only {a} H H' \<and>
    th_nodes H' = (th_nodes H)(a \<mapsto> nd\<lparr>tn_aux := x\<rparr>)"
  by (auto simp: on_nodes_def put_aux_def node_upd_def aux_only_def)

lemma interval_at_ok: "data_ok H A \<Longrightarrow> a \<in> A \<Longrightarrow> \<exists>iv. interval_at env H a = Some iv"
  by (auto simp: data_ok_def interval_at_def)

lemma update_max_ok:
  assumes "data_ok H A" and "a \<in> A" and "lft (th_nodes H) a = Some l" and "rgt (th_nodes H) a = Some r"
    and "l \<in> A" and "r \<in> A"
  shows "\<exists>H'. inttree_node_update_max env a H = Some H' \<and> aux_only {a} H H'"
proof -
  obtain nd ld rd where "th_nodes H a = Some nd" "th_nodes H l = Some ld" "th_nodes H r = Some rd"
    using data_ok_dom [OF assms(1)] assms(2,5,6) by meson
  moreover obtain iv where "interval_at env H a = Some iv" using interval_at_ok assms(1,2) by blast
  ultimately show ?thesis using assms(3,4) put_aux_only [of H a nd]
    by (auto simp: inttree_node_update_max_def tree_access)
qed

lemma update_count_ok:
  assumes "data_ok H A" and "a \<in> A" and "lft (th_nodes H) a = Some l" and "rgt (th_nodes H) a = Some r"
    and "l \<in> A" and "r \<in> A"
  shows "\<exists>H'. ostree_node_update_count a H = Some H' \<and> aux_only {a} H H'"
proof -
  obtain nd ld rd where "th_nodes H a = Some nd" "th_nodes H l = Some ld" "th_nodes H r = Some rd"
    using data_ok_dom [OF assms(1)] assms(2,5,6) by meson
  then show ?thesis using assms(3,4) put_aux_only [of H a nd]
    by (auto simp: ostree_node_update_count_def tree_access)
qed

lemma data_ok_aux: "aux_only B H H' \<Longrightarrow> data_ok H' A = data_ok H A"
  by (rule data_ok_reshapes [OF aux_only_reshapes])

lemma rotate_aux_ok:
  assumes "data_ok H A" and "{a, b} \<subseteq> A"
    and "lft (th_nodes H) a = Some al" and "rgt (th_nodes H) a = Some ar"
    and "lft (th_nodes H) b = Some bl" and "rgt (th_nodes H) b = Some br"
    and "{al, ar, bl, br} \<subseteq> A"
  shows "\<exists>H'. rotate_aux env t a b H = Some H' \<and> aux_only {a, b} H H'"
proof -
  have two: "\<exists>H'. do { H \<leftarrow> f a H; f b H } = Some H' \<and> aux_only {a, b} H H'"
    if f: "\<And>H a l r. data_ok H A \<Longrightarrow> a \<in> A \<Longrightarrow> lft (th_nodes H) a = Some l \<Longrightarrow> rgt (th_nodes H) a = Some r \<Longrightarrow>
      l \<in> A \<Longrightarrow> r \<in> A \<Longrightarrow> \<exists>H'. f a H = Some H' \<and> aux_only {a} H H'" for f
  proof -
    obtain H1 where H1: "f a H = Some H1" "aux_only {a} H H1" using f [of H a al ar] assms by auto
    then obtain H2 where H2: "f b H1 = Some H2" "aux_only {b} H1 H2"
      using f [of H1 b bl br] assms by (auto simp: aux_only_access data_ok_aux)
    have "aux_only {a, b} H H2"
      by (rule aux_only_trans [OF aux_only_mono [OF H1(2)] aux_only_mono [OF H2(2)]]) auto
    then show ?thesis using H1(1) H2(1) by simp
  qed
  have "\<exists>H'. do { H \<leftarrow> inttree_node_update_max env a H; inttree_node_update_max env b H } = Some H' \<and> aux_only {a, b} H H'"
    by (rule two [where f = "inttree_node_update_max env"]) (rule update_max_ok; assumption)
  moreover have "\<exists>H'. do { H \<leftarrow> ostree_node_update_count a H; ostree_node_update_count b H } = Some H' \<and> aux_only {a, b} H H'"
    by (rule two [where f = ostree_node_update_count]) (rule update_count_ok; assumption)
  ultimately show ?thesis unfolding rotate_aux_def by (cases "has_flag (bt_flags t) RCSW_DS_BSTREE_INT") auto
qed

lemma rotate_right_ok:
  assumes "tree_at (th_nodes H) (bt_nil t) rt c (Node (Node x p y) g u)"
    and "data_ok H (insert (bt_nil t) (insert rt (set (inorder (plug c (Node (Node x p y) g u))))))"
  shows "\<exists>H'. bstree_node_rotate_right env t g H = Some H' \<and>
    tree_at (th_nodes H') (bt_nil t) rt c (Node x p (Node y g u)) \<and> isred (th_nodes H') = isred (th_nodes H) \<and>
    reshapes (insert rt (set (inorder (plug c (Node (Node x p y) g u))))) H H'"
proof -
  let ?A = "insert rt (set (inorder (plug c (Node (Node x p y) g u))))" and ?nil = "bt_nil t"
  obtain ns where ns: "rotate_links_right ?nil g (th_nodes H) = Some (p, ns)"
      "tree_at ns ?nil rt c (Node x p (Node y g u))" "relinks ?A (th_nodes H) ns"
    using rotate_links_right_ok [OF assms(1)] by blast
  let ?H = "H\<lparr>th_nodes := ns\<rparr>"
  have pl: "payload ns a = payload (th_nodes H) a" for a using ns(3) by (simp add: relinks_def)
  have "map_option (\<lambda>(k, d, r, x). (k, d)) (payload ns a) = map_option (\<lambda>(k, d, r, x). (k, d)) (payload (th_nodes H) a)"
    "map_option (\<lambda>(k, d, r, x). r) (payload ns a) = map_option (\<lambda>(k, d, r, x). r) (payload (th_nodes H) a)" for a
    using pl by simp_all
  then have co: "core ns = core (th_nodes H)" "isred ns = isred (th_nodes H)"
    by (simp_all add: fun_eq_iff core_def isred_def payload_def option.map_comp comp_def)
  have re: "reshapes ?A H ?H" using ns(3) co by (simp add: reshapes_def relinks_def)
  have in_addr: "addr ?nil s \<in> insert ?nil (set_tree s)" for s by (cases s) auto
  have lk: "linked ns p (addr ?nil x) g (up rt c)" "linked ns g (addr ?nil y) (addr ?nil u) p" using ns(2) by (auto simp: tree_at_def)
  have "\<exists>H'. rotate_aux env t g p ?H = Some H' \<and> aux_only {g, p} ?H H'"
  proof (rule rotate_aux_ok)
    show "data_ok ?H (insert ?nil ?A)"
      using assms(2) data_ok_reshapes [OF re, of "insert ?nil ?A"] by (simp add: insert_commute)
  qed (use linkedD [OF lk(1)] linkedD [OF lk(2)] in_addr [of x] in_addr [of y] in_addr [of u] in auto)
  then obtain H' where H': "rotate_aux env t g p ?H = Some H'" "aux_only {g, p} ?H H'" by blast
  have "reshapes ?A ?H H'" using reshapes_mono [OF aux_only_reshapes [OF H'(2)]] by auto
  then have "reshapes ?A H H'" using re reshapes_trans by blast
  then show ?thesis using ns(1,2) H' co(2) aux_only_tree_at [OF H'(2)] aux_only_access(4) [OF H'(2)]
    by (simp add: bstree_node_rotate_right_def)
qed

lemma rotate_left_ok:
  assumes "tree_at (th_nodes H) (bt_nil t) rt c (Node u g (Node y p x))"
    and "data_ok H (insert (bt_nil t) (insert rt (set (inorder (plug c (Node u g (Node y p x)))))))"
  shows "\<exists>H'. bstree_node_rotate_left env t g H = Some H' \<and>
    tree_at (th_nodes H') (bt_nil t) rt c (Node (Node u g y) p x) \<and> isred (th_nodes H') = isred (th_nodes H) \<and>
    reshapes (insert rt (set (inorder (plug c (Node u g (Node y p x)))))) H H'"
proof -
  let ?A = "insert rt (set (inorder (plug c (Node u g (Node y p x)))))" and ?nil = "bt_nil t"
  obtain ns where ns: "rotate_links_left ?nil g (th_nodes H) = Some (p, ns)"
      "tree_at ns ?nil rt c (Node (Node u g y) p x)" "relinks ?A (th_nodes H) ns"
    using rotate_links_left_ok [OF assms(1)] by blast
  let ?H = "H\<lparr>th_nodes := ns\<rparr>"
  have pl: "payload ns a = payload (th_nodes H) a" for a using ns(3) by (simp add: relinks_def)
  have "map_option (\<lambda>(k, d, r, x). (k, d)) (payload ns a) = map_option (\<lambda>(k, d, r, x). (k, d)) (payload (th_nodes H) a)"
    "map_option (\<lambda>(k, d, r, x). r) (payload ns a) = map_option (\<lambda>(k, d, r, x). r) (payload (th_nodes H) a)" for a
    using pl by simp_all
  then have co: "core ns = core (th_nodes H)" "isred ns = isred (th_nodes H)"
    by (simp_all add: fun_eq_iff core_def isred_def payload_def option.map_comp comp_def)
  have re: "reshapes ?A H ?H" using ns(3) co by (simp add: reshapes_def relinks_def)
  have in_addr: "addr ?nil s \<in> insert ?nil (set_tree s)" for s by (cases s) auto
  have lk: "linked ns p g (addr ?nil x) (up rt c)" "linked ns g (addr ?nil u) (addr ?nil y) p" using ns(2) by (auto simp: tree_at_def)
  have "\<exists>H'. rotate_aux env t g p ?H = Some H' \<and> aux_only {g, p} ?H H'"
  proof (rule rotate_aux_ok)
    show "data_ok ?H (insert ?nil ?A)"
      using assms(2) data_ok_reshapes [OF re, of "insert ?nil ?A"] by (simp add: insert_commute)
  qed (use linkedD [OF lk(1)] linkedD [OF lk(2)] in_addr [of x] in_addr [of y] in_addr [of u] in auto)
  then obtain H' where H': "rotate_aux env t g p ?H = Some H'" "aux_only {g, p} ?H H'" by blast
  have "reshapes ?A ?H H'" using reshapes_mono [OF aux_only_reshapes [OF H'(2)]] by auto
  then have "reshapes ?A H H'" using re reshapes_trans by blast
  then show ?thesis using ns(1,2) H' co(2) aux_only_tree_at [OF H'(2)] aux_only_access(4) [OF H'(2)]
    by (simp add: bstree_node_rotate_left_def)
qed

end
