(* ===== verification/Rb_Fixup.thy ===== *)
theory Rb_Fixup
  imports Tree_Shape
begin

text \<open>
  The red-black properties of a tree of addresses under a colouring, split between a position
  and its context, and the insertion fix-up of src/ds/rbtree.c: it restores them.
\<close>

subsection \<open>Colours\<close>

fun bh :: "(nat \<Rightarrow> bool) \<Rightarrow> nat tree \<Rightarrow> nat" where
  "bh R Leaf = 0"
| "bh R (Node l a r) = bh R l + (if R a then 0 else 1)"

fun red_root :: "(nat \<Rightarrow> bool) \<Rightarrow> nat tree \<Rightarrow> bool" where
  "red_root R Leaf \<longleftrightarrow> False"
| "red_root R (Node l a r) \<longleftrightarrow> R a"

fun rb :: "(nat \<Rightarrow> bool) \<Rightarrow> nat tree \<Rightarrow> bool" where
  "rb R Leaf \<longleftrightarrow> True"
| "rb R (Node l a r) \<longleftrightarrow> rb R l \<and> rb R r \<and> bh R l = bh R r \<and> (R a \<longrightarrow> \<not> red_root R l \<and> \<not> red_root R r)"

text \<open>
  The context of a tree of black height \<open>n\<close>. Nothing may be red below the sentinel except the
  position itself, so the sentinel counts as red here.
\<close>

fun above_red :: "(nat \<Rightarrow> bool) \<Rightarrow> crumb list \<Rightarrow> bool" where
  "above_red R [] \<longleftrightarrow> True"
| "above_red R (GoLeft a r # c) \<longleftrightarrow> R a"
| "above_red R (GoRight l a # c) \<longleftrightarrow> R a"

fun rb_ctx :: "(nat \<Rightarrow> bool) \<Rightarrow> nat \<Rightarrow> crumb list \<Rightarrow> bool" where
  "rb_ctx R n [] \<longleftrightarrow> True"
| "rb_ctx R n (GoLeft a r # c) \<longleftrightarrow> rb R r \<and> bh R r = n \<and>
     (R a \<longrightarrow> \<not> red_root R r \<and> \<not> above_red R c) \<and> rb_ctx R (n + (if R a then 0 else 1)) c"
| "rb_ctx R n (GoRight l a # c) \<longleftrightarrow> rb R l \<and> bh R l = n \<and>
     (R a \<longrightarrow> \<not> red_root R l \<and> \<not> above_red R c) \<and> rb_ctx R (n + (if R a then 0 else 1)) c"

lemma rb_plug:
  assumes "rb R t" and "rb_ctx R (bh R t) c" and "c = [] \<or> \<not> (red_root R t \<and> above_red R c)"
  shows "rb R (plug c t) \<and> (c \<noteq> [] \<longrightarrow> \<not> red_root R (plug c t))"
  using assms
proof (induction c t rule: plug.induct)
  case (2 a r c t)
  have "rb R (plug c (Node t a r)) \<and> (c \<noteq> [] \<longrightarrow> \<not> red_root R (plug c (Node t a r)))"
    by (rule "2.IH") (use "2.prems" in auto)
  then show ?case using "2.prems" by (cases c) auto
next
  case (3 l a c t)
  have "rb R (plug c (Node l a t)) \<and> (c \<noteq> [] \<longrightarrow> \<not> red_root R (plug c (Node l a t)))"
    by (rule "3.IH") (use "3.prems" in auto)
  then show ?case using "3.prems" by (cases c) auto
qed simp

lemma rb_plugD:
  assumes "rb R (plug c t)" and "c \<noteq> [] \<longrightarrow> \<not> red_root R (plug c t)"
  shows "rb R t \<and> rb_ctx R (bh R t) c \<and> (c \<noteq> [] \<longrightarrow> \<not> (red_root R t \<and> above_red R c))"
  using assms
proof (induction c t rule: plug.induct)
  case (2 a r c t)
  have "rb R (Node t a r) \<and> rb_ctx R (bh R (Node t a r)) c \<and> (c \<noteq> [] \<longrightarrow> \<not> (red_root R (Node t a r) \<and> above_red R c))"
    by (rule "2.IH") (use "2.prems" in auto)
  then show ?case using "2.prems" by (cases c; cases "R a") auto
next
  case (3 l a c t)
  have "rb R (Node l a t) \<and> rb_ctx R (bh R (Node l a t)) c \<and> (c \<noteq> [] \<longrightarrow> \<not> (red_root R (Node l a t) \<and> above_red R c))"
    by (rule "3.IH") (use "3.prems" in auto)
  then show ?case using "3.prems" by (cases c; cases "R a") auto
qed simp

lemma rb_cong:
  assumes "\<And>a. a \<in> set_tree t \<Longrightarrow> R' a = R a"
  shows "bh R' t = bh R t" "rb R' t = rb R t" "red_root R' t = red_root R t"
proof -
  have "bh R' t = bh R t \<and> rb R' t = rb R t \<and> red_root R' t = red_root R t"
    using assms
  proof (induction t)
    case (Node l a r)
    then have "bh R' l = bh R l \<and> rb R' l = rb R l \<and> red_root R' l = red_root R l"
      "bh R' r = bh R r \<and> rb R' r = rb R r \<and> red_root R' r = red_root R r" by auto
    then show ?case using Node.prems by simp
  qed simp
  then show "bh R' t = bh R t" "rb R' t = rb R t" "red_root R' t = red_root R t" by auto
qed

lemma rb_ctx_cong:
  assumes "\<And>a. a \<in> set (before c @ after c) \<Longrightarrow> R' a = R a"
  shows "rb_ctx R' n c = rb_ctx R n c" "above_red R' c = above_red R c"
proof -
  have "rb_ctx R' n c = rb_ctx R n c \<and> above_red R' c = above_red R c"
    using assms
  proof (induction R n c rule: rb_ctx.induct)
    case (2 R n a r c)
    then have "rb R' r = rb R r" "bh R' r = bh R r" "red_root R' r = red_root R r"
      using rb_cong [of r R' R] by auto
    moreover have "rb_ctx R' (n + (if R a then 0 else 1)) c = rb_ctx R (n + (if R a then 0 else 1)) c \<and>
        above_red R' c = above_red R c"
      by (rule "2.IH") (use "2.prems" in auto)
    moreover have "R' a = R a" using "2.prems" by simp
    ultimately show ?case by simp
  next
    case (3 R n l a c)
    then have "rb R' l = rb R l" "bh R' l = bh R l" "red_root R' l = red_root R l"
      using rb_cong [of l R' R] by auto
    moreover have "rb_ctx R' (n + (if R a then 0 else 1)) c = rb_ctx R (n + (if R a then 0 else 1)) c \<and>
        above_red R' c = above_red R c"
      by (rule "3.IH") (use "3.prems" in auto)
    moreover have "R' a = R a" using "3.prems" by simp
    ultimately show ?case by simp
  qed simp
  then show "rb_ctx R' n c = rb_ctx R n c" "above_red R' c = above_red R c" by auto
qed

subsection \<open>Painting\<close>

definition redn :: "'k tnodes \<Rightarrow> nat \<Rightarrow> bool" where
  "redn ns a \<longleftrightarrow> isred ns a = Some True"

definition paint :: "nat \<Rightarrow> bool \<Rightarrow> 'k tnodes \<Rightarrow> 'k tnodes" where
  "paint a b ns = ns(a := map_option (tn_red_update (\<lambda>_. b)) (ns a))"

lemma put_red_paint: "a \<in> dom ns \<Longrightarrow> put_red a b ns = Some (paint a b ns)"
  by (cases "ns a") (auto simp: put_red_def node_upd_def paint_def)

lemma paint_access [simp]:
  "lft (paint a b ns) = lft ns" "rgt (paint a b ns) = rgt ns" "par (paint a b ns) = par ns"
  "core (paint a b ns) = core ns" "dom (paint a b ns) = dom ns"
  by (auto simp: fun_eq_iff paint_def tree_access core_def option.map_comp comp_def split: if_splits)

lemma isred_paint: "isred (paint a b ns) x = (if x = a \<and> a \<in> dom ns then Some b else isred ns x)"
  by (cases "ns a") (auto simp: paint_def tree_access)

lemma redn_paint: "a \<in> dom ns \<Longrightarrow> redn (paint a b ns) = (redn ns)(a := b)"
  by (simp add: redn_def isred_paint fun_eq_iff)

lemma tree_at_links:
  fixes ns ns' :: "'k tnodes"
  assumes "lft ns' = lft ns" and "rgt ns' = rgt ns" and "par ns' = par ns"
  shows "tree_at ns' nil rt c t = tree_at ns nil rt c t"
  using pctx_cong [of rt c ns ns' nil] ptree_cong [of t ns ns' nil] assms
  by (simp add: tree_at_def same_links_def)

lemma tree_at_paint [simp]: "tree_at (paint a b ns) nil rt c t = tree_at ns nil rt c t"
  by (rule tree_at_links) simp_all

lemma isred_dom: "a \<in> dom ns \<Longrightarrow> isred ns a = Some (redn ns a)"
  by (auto simp: redn_def isred_def)

lemma reshapes_paint: "a \<in> A \<Longrightarrow> reshapes A H (H\<lparr>th_nodes := paint a b (th_nodes H)\<rparr>)"
  by (auto simp: reshapes_def paint_def core_def fun_eq_iff option.map_comp comp_def)

lemma data_ok_in_dom: "data_ok H A \<Longrightarrow> a \<in> A \<Longrightarrow> a \<in> dom (th_nodes H)"
  by (auto simp: data_ok_def)

lemma data_ok_paint [simp]: "data_ok (H\<lparr>th_nodes := paint a b (th_nodes H)\<rparr>) A = data_ok H A"
  by (simp add: data_ok_core)

lemma rb_upd [simp]:
  assumes "a \<notin> set_tree t"
  shows "rb (R(a := b)) t = rb R t" "bh (R(a := b)) t = bh R t" "red_root (R(a := b)) t = red_root R t"
proof -
  have "(R(a := b)) x = R x" if "x \<in> set_tree t" for x using that assms by auto
  then show "rb (R(a := b)) t = rb R t" "bh (R(a := b)) t = bh R t" "red_root (R(a := b)) t = red_root R t"
    using rb_cong [of t "R(a := b)" R] by blast+
qed

lemma rb_ctx_upd [simp]:
  assumes "a \<notin> set (before c)" and "a \<notin> set (after c)"
  shows "rb_ctx (R(a := b)) n c = rb_ctx R n c" "above_red (R(a := b)) c = above_red R c"
proof -
  have "(R(a := b)) x = R x" if "x \<in> set (before c @ after c)" for x using that assms by auto
  then show "rb_ctx (R(a := b)) n c = rb_ctx R n c" "above_red (R(a := b)) c = above_red R c"
    using rb_ctx_cong [of c "R(a := b)" R] by blast+
qed

subsection \<open>A state of a fix-up\<close>

text \<open>
  \<open>tr\<close> stands at the position \<open>c\<close>; the whole tree has the content \<open>L\<close>, and the heap differs
  from \<open>H0\<close> in links, colours and auxiliary fields of its nodes only. \<open>Q\<close> is a further
  property of the heap and the whole tree.
\<close>

definition fix_state ::
  "(('k, 'a) theap \<Rightarrow> nat tree \<Rightarrow> bool) \<Rightarrow> 'k bstree \<Rightarrow> ('k, 'a) theap \<Rightarrow> nat list \<Rightarrow> crumb list \<Rightarrow> nat tree
     \<Rightarrow> ('k, 'a) theap \<Rightarrow> bool" where
  "fix_state Q t H0 L c tr H \<longleftrightarrow>
     tree_at (th_nodes H) (bt_nil t) (bt_root t) c tr \<and> inorder (plug c tr) = L \<and>
     data_ok H (insert (bt_nil t) (insert (bt_root t) (set L))) \<and>
     isred (th_nodes H) (bt_nil t) = Some False \<and> isred (th_nodes H) (bt_root t) = Some False \<and>
     lft (th_nodes H) (bt_nil t) = Some (bt_nil t) \<and> rgt (th_nodes H) (bt_nil t) = Some (bt_nil t) \<and>
     reshapes (insert (bt_nil t) (insert (bt_root t) (set L))) H0 H \<and> Q H (plug c tr)"

lemma tree_at_up:
  "tree_at ns nil rt (GoLeft a r # c) t = tree_at ns nil rt c (Node t a r)"
  "tree_at ns nil rt (GoRight l a # c) t = tree_at ns nil rt c (Node l a t)"
  by (auto simp: tree_at_def)

lemma fix_state_up:
  "fix_state Q t H0 L (GoLeft a r # c) tr H = fix_state Q t H0 L c (Node tr a r) H"
  "fix_state Q t H0 L (GoRight l a # c) tr H = fix_state Q t H0 L c (Node l a tr) H"
  by (simp_all add: fix_state_def tree_at_up)

lemma tree_at_plug: "tree_at ns nil rt [] (plug c t) = tree_at ns nil rt c t"
  by (induction c t rule: plug.induct) (simp_all add: tree_at_up)

lemma fix_state_plug: "fix_state Q t H0 L c tr H \<Longrightarrow> fix_state Q t H0 L [] (plug c tr) H"
  by (simp add: fix_state_def tree_at_plug)

lemma plug_Node: "plug c (Node l a r) \<noteq> Leaf"
proof -
  have "inorder (plug c (Node l a r)) \<noteq> []" by simp
  then show ?thesis by (metis inorder.simps(1))
qed

lemma fix_state_mem: "fix_state Q t H0 L c tr H \<Longrightarrow> a \<in> set L \<Longrightarrow> a \<noteq> bt_nil t \<and> a \<noteq> bt_root t"
  by (auto simp: fix_state_def tree_at_def)

lemma fix_state_dom:
  "fix_state Q t H0 L c tr H \<Longrightarrow> a \<in> insert (bt_nil t) (insert (bt_root t) (set L)) \<Longrightarrow> a \<in> dom (th_nodes H)"
  using data_ok_in_dom by (auto simp: fix_state_def)

lemma fix_state_isred:
  "fix_state Q t H0 L c tr H \<Longrightarrow> a \<in> insert (bt_nil t) (insert (bt_root t) (set L)) \<Longrightarrow>
   isred (th_nodes H) a = Some (redn (th_nodes H) a)"
  using fix_state_dom isred_dom by blast

lemma fix_state_sentinels:
  "fix_state Q t H0 L c tr H \<Longrightarrow> \<not> redn (th_nodes H) (bt_nil t) \<and> \<not> redn (th_nodes H) (bt_root t)"
  by (simp add: fix_state_def redn_def)

lemma fix_state_sub:
  "fix_state Q t H0 L c tr H \<Longrightarrow> set_tree tr \<subseteq> set L \<and> set (before c) \<subseteq> set L \<and> set (after c) \<subseteq> set L \<and>
   distinct (before c @ inorder tr @ after c)"
  by (auto simp: fix_state_def tree_at_def)

lemma fix_state_addr:
  assumes "fix_state Q t H0 L c tr H" and "set_tree s \<subseteq> set L"
  shows "isred (th_nodes H) (addr (bt_nil t) s) = Some (red_root (redn (th_nodes H)) s)"
proof (cases s)
  case Leaf
  then show ?thesis using fix_state_isred [OF assms(1)] fix_state_sentinels [OF assms(1)] by simp
next
  case (Node l a r)
  then show ?thesis using fix_state_isred [OF assms(1), of a] assms(2) by simp
qed

text \<open>
  The loop of the insertion: \<open>z\<close> is red and everything is as it should be but that its parent may
  be red as well; then \<open>n\<close> is its depth.
\<close>

definition ins_ok ::
  "(('k, 'a) theap \<Rightarrow> nat tree \<Rightarrow> bool) \<Rightarrow> 'k bstree \<Rightarrow> ('k, 'a) theap \<Rightarrow> nat list \<Rightarrow> nat \<Rightarrow> nat
     \<Rightarrow> ('k, 'a) theap \<Rightarrow> bool" where
  "ins_ok Q t H0 L k z H \<longleftrightarrow> (\<exists>c l r. fix_state Q t H0 L c (Node l z r) H \<and> length c \<le> k \<and>
     redn (th_nodes H) z \<and> rb (redn (th_nodes H)) (Node l z r) \<and>
     rb_ctx (redn (th_nodes H)) (bh (redn (th_nodes H)) (Node l z r)) c)"

lemma ins_okI:
  "fix_state Q t H0 L c (Node l z r) H \<Longrightarrow> length c \<le> k \<Longrightarrow> redn (th_nodes H) z \<Longrightarrow>
   rb (redn (th_nodes H)) (Node l z r) \<Longrightarrow>
   rb_ctx (redn (th_nodes H)) (bh (redn (th_nodes H)) (Node l z r)) c \<Longrightarrow> ins_ok Q t H0 L k z H"
  unfolding ins_ok_def by blast

text \<open>The steps of a fix-up keep \<open>Q\<close>.\<close>

locale fixup_invariant =
  fixes env :: "('k, 'a) tenv" and t :: "'k bstree" and Q :: "('k, 'a) theap \<Rightarrow> nat tree \<Rightarrow> bool"
  assumes Q_right: "tree_at (th_nodes H) (bt_nil t) (bt_root t) c (Node (Node x p y) g u) \<Longrightarrow>
      data_ok H (insert (bt_nil t) (insert (bt_root t) (set (inorder (plug c (Node (Node x p y) g u)))))) \<Longrightarrow>
      Q H (plug c (Node (Node x p y) g u)) \<Longrightarrow> bstree_node_rotate_right env t g H = Some H' \<Longrightarrow>
      Q H' (plug c (Node x p (Node y g u)))"
    and Q_left: "tree_at (th_nodes H) (bt_nil t) (bt_root t) c (Node u g (Node y p x)) \<Longrightarrow>
      data_ok H (insert (bt_nil t) (insert (bt_root t) (set (inorder (plug c (Node u g (Node y p x))))))) \<Longrightarrow>
      Q H (plug c (Node u g (Node y p x))) \<Longrightarrow> bstree_node_rotate_left env t g H = Some H' \<Longrightarrow>
      Q H' (plug c (Node (Node u g y) p x))"
    and Q_paint: "Q H tr \<Longrightarrow> Q (H\<lparr>th_nodes := paint a b (th_nodes H)\<rparr>) tr"
begin

lemma fix_paint:
  assumes "fix_state Q t H0 L c tr H" and "a \<in> set L"
  shows "fix_state Q t H0 L c tr (H\<lparr>th_nodes := paint a b (th_nodes H)\<rparr>)"
proof -
  have "reshapes (insert (bt_nil t) (insert (bt_root t) (set L))) H (H\<lparr>th_nodes := paint a b (th_nodes H)\<rparr>)"
    using assms(2) by (intro reshapes_paint) simp
  moreover have "reshapes (insert (bt_nil t) (insert (bt_root t) (set L))) H0 H" using assms(1) by (simp add: fix_state_def)
  ultimately have "reshapes (insert (bt_nil t) (insert (bt_root t) (set L))) H0 (H\<lparr>th_nodes := paint a b (th_nodes H)\<rparr>)"
    by (rule reshapes_trans [rotated])
  then show ?thesis using assms(1) fix_state_mem [OF assms] Q_paint [of H "plug c tr" a b]
    by (simp add: fix_state_def isred_paint)
qed

lemma fix_rotate_right:
  assumes "fix_state Q t H0 L c (Node (Node x p y) g u) H"
  shows "\<exists>H'. bstree_node_rotate_right env t g H = Some H' \<and>
    fix_state Q t H0 L c (Node x p (Node y g u)) H' \<and> redn (th_nodes H') = redn (th_nodes H) \<and>
    th_nodes H' (bt_nil t) = th_nodes H (bt_nil t)"
proof -
  have a: "tree_at (th_nodes H) (bt_nil t) (bt_root t) c (Node (Node x p y) g u)"
    "data_ok H (insert (bt_nil t) (insert (bt_root t) (set (inorder (plug c (Node (Node x p y) g u))))))"
    "Q H (plug c (Node (Node x p y) g u))" "L = inorder (plug c (Node (Node x p y) g u))"
    using assms by (auto simp: fix_state_def)
  obtain H' where H': "bstree_node_rotate_right env t g H = Some H'"
      "tree_at (th_nodes H') (bt_nil t) (bt_root t) c (Node x p (Node y g u))"
      "isred (th_nodes H') = isred (th_nodes H)" "reshapes (insert (bt_root t) (set L)) H H'"
    using rotate_right_ok [OF a(1,2)] a(4) by blast
  have "Q H' (plug c (Node x p (Node y g u)))" using Q_right [OF a(1-3) H'(1)] .
  moreover have "data_ok H' A = data_ok H A" for A using data_ok_reshapes [OF H'(4)] .
  moreover have "redn (th_nodes H') = redn (th_nodes H)" using H'(3) by (simp add: redn_def fun_eq_iff)
  moreover have "reshapes (insert (bt_nil t) (insert (bt_root t) (set L))) H H'" by (rule reshapes_mono [OF H'(4)]) auto
  moreover have "bt_nil t \<notin> insert (bt_root t) (set L)" using a(1) unfolding a(4) tree_at_def by simp
  then have "th_nodes H' (bt_nil t) = th_nodes H (bt_nil t)" using H'(4) by (simp add: reshapes_def)
  moreover from this have "lft (th_nodes H') (bt_nil t) = lft (th_nodes H) (bt_nil t)"
      "rgt (th_nodes H') (bt_nil t) = rgt (th_nodes H) (bt_nil t)" by (simp_all add: tree_access)
  moreover have "reshapes (insert (bt_nil t) (insert (bt_root t) (set L))) H0 H" using assms by (simp add: fix_state_def)
  ultimately show ?thesis using H' assms reshapes_trans [of _ H0 H H'] by (simp add: fix_state_def)
qed

lemma fix_rotate_left:
  assumes "fix_state Q t H0 L c (Node u g (Node y p x)) H"
  shows "\<exists>H'. bstree_node_rotate_left env t g H = Some H' \<and>
    fix_state Q t H0 L c (Node (Node u g y) p x) H' \<and> redn (th_nodes H') = redn (th_nodes H) \<and>
    th_nodes H' (bt_nil t) = th_nodes H (bt_nil t)"
proof -
  have a: "tree_at (th_nodes H) (bt_nil t) (bt_root t) c (Node u g (Node y p x))"
    "data_ok H (insert (bt_nil t) (insert (bt_root t) (set (inorder (plug c (Node u g (Node y p x)))))))"
    "Q H (plug c (Node u g (Node y p x)))" "L = inorder (plug c (Node u g (Node y p x)))"
    using assms by (auto simp: fix_state_def)
  obtain H' where H': "bstree_node_rotate_left env t g H = Some H'"
      "tree_at (th_nodes H') (bt_nil t) (bt_root t) c (Node (Node u g y) p x)"
      "isred (th_nodes H') = isred (th_nodes H)" "reshapes (insert (bt_root t) (set L)) H H'"
    using rotate_left_ok [OF a(1,2)] a(4) by blast
  have "Q H' (plug c (Node (Node u g y) p x))" using Q_left [OF a(1-3) H'(1)] .
  moreover have "data_ok H' A = data_ok H A" for A using data_ok_reshapes [OF H'(4)] .
  moreover have "redn (th_nodes H') = redn (th_nodes H)" using H'(3) by (simp add: redn_def fun_eq_iff)
  moreover have "reshapes (insert (bt_nil t) (insert (bt_root t) (set L))) H H'" by (rule reshapes_mono [OF H'(4)]) auto
  moreover have "bt_nil t \<notin> insert (bt_root t) (set L)" using a(1) unfolding a(4) tree_at_def by simp
  then have "th_nodes H' (bt_nil t) = th_nodes H (bt_nil t)" using H'(4) by (simp add: reshapes_def)
  moreover from this have "lft (th_nodes H') (bt_nil t) = lft (th_nodes H) (bt_nil t)"
      "rgt (th_nodes H') (bt_nil t) = rgt (th_nodes H) (bt_nil t)" by (simp_all add: tree_access)
  moreover have "reshapes (insert (bt_nil t) (insert (bt_root t) (set L))) H0 H" using assms by (simp add: fix_state_def)
  ultimately show ?thesis using H' assms reshapes_trans [of _ H0 H H'] by (simp add: fix_state_def)
qed

lemma insert_fix_left_recolour:
  assumes st: "fix_state Q t H0 L (cr # GoLeft g u # d) (Node l z r) H"
    and cr: "cr = GoLeft p s \<or> cr = GoRight s p"
    and R: "redn (th_nodes H) z" "redn (th_nodes H) p" "red_root (redn (th_nodes H)) u"
    and rb: "rb (redn (th_nodes H)) (Node l z r)"
      "rb_ctx (redn (th_nodes H)) (bh (redn (th_nodes H)) (Node l z r)) (cr # GoLeft g u # d)"
  shows "\<exists>H'. insert_fix_left env t z H = Some (g, H') \<and> ins_ok Q t H0 L (length d) g H'"
proof -
  let ?R = "redn (th_nodes H)" and ?ns = "th_nodes H"
  obtain u1 a u2 where u: "u = Node u1 a u2" using R(3) by (cases u) auto
  have tr: "tree_at ?ns (bt_nil t) (bt_root t) (cr # GoLeft g u # d) (Node l z r)" using st by (simp add: fix_state_def)
  have acc: "par ?ns z = Some p" "par ?ns p = Some g" "rgt ?ns g = Some a"
    using tr cr u by (elim disjE; simp add: tree_at_def linked_iff)+
  have mem: "p \<in> set L" "g \<in> set L" "a \<in> set L" using fix_state_sub [OF st] cr u by auto
  have dom: "x \<in> dom ?ns" if "x \<in> set L" for x using fix_state_dom [OF st] that by blast
  let ?ns' = "paint g True (paint a False (paint p False ?ns))" and ?H = "H\<lparr>th_nodes := paint g True (paint a False (paint p False ?ns))\<rparr>"
  have run: "insert_fix_left env t z H = Some (g, ?H)"
    using acc R(3) u mem fix_state_isred [OF st, of a]
    by (simp add: insert_fix_left_def insert_recolour_def par_par_def put_red_paint dom)
  have st': "fix_state Q t H0 L (cr # GoLeft g u # d) (Node l z r) ?H"
    using fix_paint [OF fix_paint [OF fix_paint [OF st mem(1)] mem(3)] mem(2), of True False False] by simp
  have R': "redn (th_nodes ?H) = ?R(p := False, a := False, g := True)"
    by (simp add: redn_paint dom mem)
  have ds: "distinct (before (cr # GoLeft g u # d) @ inorder (Node l z r) @ after (cr # GoLeft g u # d))"
    using fix_state_sub [OF st] by blast
  have g: "\<not> ?R g" using rb(2) cr R(2) by auto
  have "\<exists>tl. fix_state Q t H0 L d (Node tl g u) ?H \<and> rb (?R(p := False, a := False, g := True)) (Node tl g u) \<and>
      rb_ctx (?R(p := False, a := False, g := True)) (bh (?R(p := False, a := False, g := True)) (Node tl g u)) d"
  proof (rule disjE [OF cr])
    assume c: "cr = GoLeft p s"
    have "fix_state Q t H0 L d (Node (Node (Node l z r) p s) g u) ?H" using st' c by (simp add: fix_state_up)
    moreover have "rb (?R(p := False, a := False, g := True)) (Node (Node (Node l z r) p s) g u)"
      using rb R ds c u by (auto simp: fun_upd_twist)
    moreover have "rb_ctx (?R(p := False, a := False, g := True)) (bh (?R(p := False, a := False, g := True)) (Node (Node (Node l z r) p s) g u)) d"
      using rb R ds c u g by (auto simp: fun_upd_twist)
    ultimately show ?thesis by blast
  next
    assume c: "cr = GoRight s p"
    have "fix_state Q t H0 L d (Node (Node s p (Node l z r)) g u) ?H" using st' c by (simp add: fix_state_up)
    moreover have "rb (?R(p := False, a := False, g := True)) (Node (Node s p (Node l z r)) g u)"
      using rb R ds c u by (auto simp: fun_upd_twist)
    moreover have "rb_ctx (?R(p := False, a := False, g := True)) (bh (?R(p := False, a := False, g := True)) (Node (Node s p (Node l z r)) g u)) d"
      using rb R ds c u g by (auto simp: fun_upd_twist)
    ultimately show ?thesis by blast
  qed
  then show ?thesis using run R' unfolding ins_ok_def by (auto simp: fun_upd_twist)
qed

lemma insert_fix_right_recolour:
  assumes st: "fix_state Q t H0 L (cr # GoRight u g # d) (Node l z r) H"
    and cr: "cr = GoLeft p s \<or> cr = GoRight s p"
    and R: "redn (th_nodes H) z" "redn (th_nodes H) p" "red_root (redn (th_nodes H)) u"
    and rb: "rb (redn (th_nodes H)) (Node l z r)"
      "rb_ctx (redn (th_nodes H)) (bh (redn (th_nodes H)) (Node l z r)) (cr # GoRight u g # d)"
  shows "\<exists>H'. insert_fix_right env t z H = Some (g, H') \<and> ins_ok Q t H0 L (length d) g H'"
proof -
  let ?R = "redn (th_nodes H)" and ?ns = "th_nodes H"
  obtain u1 a u2 where u: "u = Node u1 a u2" using R(3) by (cases u) auto
  have tr: "tree_at ?ns (bt_nil t) (bt_root t) (cr # GoRight u g # d) (Node l z r)" using st by (simp add: fix_state_def)
  have acc: "par ?ns z = Some p" "par ?ns p = Some g" "lft ?ns g = Some a"
    using tr cr u by (elim disjE; simp add: tree_at_def linked_iff)+
  have mem: "p \<in> set L" "g \<in> set L" "a \<in> set L" using fix_state_sub [OF st] cr u by auto
  have dom: "x \<in> dom ?ns" if "x \<in> set L" for x using fix_state_dom [OF st] that by blast
  let ?ns' = "paint g True (paint a False (paint p False ?ns))" and ?H = "H\<lparr>th_nodes := paint g True (paint a False (paint p False ?ns))\<rparr>"
  have run: "insert_fix_right env t z H = Some (g, ?H)"
    using acc R(3) u mem fix_state_isred [OF st, of a]
    by (simp add: insert_fix_right_def insert_recolour_def par_par_def put_red_paint dom)
  have st': "fix_state Q t H0 L (cr # GoRight u g # d) (Node l z r) ?H"
    using fix_paint [OF fix_paint [OF fix_paint [OF st mem(1)] mem(3)] mem(2), of True False False] by simp
  have R': "redn (th_nodes ?H) = ?R(p := False, a := False, g := True)"
    by (simp add: redn_paint dom mem)
  have ds: "distinct (before (cr # GoRight u g # d) @ inorder (Node l z r) @ after (cr # GoRight u g # d))"
    using fix_state_sub [OF st] by blast
  have g: "\<not> ?R g" using rb(2) cr R(2) by auto
  have "\<exists>tl. fix_state Q t H0 L d (Node u g tl) ?H \<and> rb (?R(p := False, a := False, g := True)) (Node u g tl) \<and>
      rb_ctx (?R(p := False, a := False, g := True)) (bh (?R(p := False, a := False, g := True)) (Node u g tl)) d"
  proof (rule disjE [OF cr])
    assume c: "cr = GoLeft p s"
    have "fix_state Q t H0 L d (Node u g (Node (Node l z r) p s)) ?H" using st' c by (simp add: fix_state_up)
    moreover have "rb (?R(p := False, a := False, g := True)) (Node u g (Node (Node l z r) p s))"
      using rb R ds c u by (auto simp: fun_upd_twist)
    moreover have "rb_ctx (?R(p := False, a := False, g := True)) (bh (?R(p := False, a := False, g := True)) (Node u g (Node (Node l z r) p s))) d"
      using rb R ds c u g by (auto simp: fun_upd_twist)
    ultimately show ?thesis by blast
  next
    assume c: "cr = GoRight s p"
    have "fix_state Q t H0 L d (Node u g (Node s p (Node l z r))) ?H" using st' c by (simp add: fix_state_up)
    moreover have "rb (?R(p := False, a := False, g := True)) (Node u g (Node s p (Node l z r)))"
      using rb R ds c u by (auto simp: fun_upd_twist)
    moreover have "rb_ctx (?R(p := False, a := False, g := True)) (bh (?R(p := False, a := False, g := True)) (Node u g (Node s p (Node l z r)))) d"
      using rb R ds c u g by (auto simp: fun_upd_twist)
    ultimately show ?thesis by blast
  qed
  then show ?thesis using run R' unfolding ins_ok_def by (auto simp: fun_upd_twist)
qed

lemma insert_fix_left_outer:
  assumes st: "fix_state Q t H0 L (GoLeft p s # GoLeft g u # d) (Node l z r) H"
    and R: "redn (th_nodes H) z" "redn (th_nodes H) p" "\<not> red_root (redn (th_nodes H)) u"
    and rb: "rb (redn (th_nodes H)) (Node l z r)"
      "rb_ctx (redn (th_nodes H)) (bh (redn (th_nodes H)) (Node l z r)) (GoLeft p s # GoLeft g u # d)"
  shows "\<exists>H'. insert_fix_left env t z H = Some (z, H') \<and> ins_ok Q t H0 L (Suc (length d)) z H'"
proof -
  let ?R = "redn (th_nodes H)" and ?ns = "th_nodes H" and ?c = "GoLeft p s # GoLeft g u # d"
  have tr: "tree_at ?ns (bt_nil t) (bt_root t) ?c (Node l z r)" using st by (simp add: fix_state_def)
  have acc: "par ?ns z = Some p" "par ?ns p = Some g" "rgt ?ns g = Some (addr (bt_nil t) u)"
      "rgt ?ns p = Some (addr (bt_nil t) s)"
    using tr by (auto simp: tree_at_def linked_iff)
  have sub: "set_tree (Node l z r) \<subseteq> set L" "set (before ?c) \<subseteq> set L" "set (after ?c) \<subseteq> set L"
      "distinct (before ?c @ inorder (Node l z r) @ after ?c)"
    using fix_state_sub [OF st] by auto
  have mem: "z \<in> set L" "p \<in> set L" "g \<in> set L" "set_tree u \<subseteq> set L" using sub(1-3) by auto
  have dom: "x \<in> dom ?ns" if "x \<in> set L" for x using fix_state_dom [OF st] that by blast
  have "z \<noteq> addr (bt_nil t) s" using sub(4) fix_state_mem [OF st mem(1)] by (cases s) auto
  moreover have "isred ?ns (addr (bt_nil t) u) = Some False" using fix_state_addr [OF st mem(4)] R(3) by simp
  ultimately have run: "insert_fix_left env t z H = map_option (Pair z)
      (bstree_node_rotate_right env t g (H\<lparr>th_nodes := paint g True (paint p False ?ns)\<rparr>))"
    using acc mem
    by (simp add: insert_fix_left_def insert_paint_def par_par_def put_red_paint dom map_option_case split: option.splits)
  have "fix_state Q t H0 L d (Node (Node (Node l z r) p s) g u) (H\<lparr>th_nodes := paint g True (paint p False ?ns)\<rparr>)"
    using fix_paint [OF fix_paint [OF st mem(2)] mem(3), of True False] by (simp add: fix_state_up)
  then obtain H' where H': "bstree_node_rotate_right env t g (H\<lparr>th_nodes := paint g True (paint p False ?ns)\<rparr>) = Some H'"
      "fix_state Q t H0 L d (Node (Node l z r) p (Node s g u)) H'" "redn (th_nodes H') = ?R(p := False, g := True)"
    using fix_rotate_right by (fastforce simp: redn_paint dom mem)
  have f: "fix_state Q t H0 L (GoLeft p (Node s g u) # d) (Node l z r) H'" using H'(2) by (simp add: fix_state_up)
  have red: "(?R(p := False, g := True)) z" using R(1) sub(4) by auto
  have ok: "rb (?R(p := False, g := True)) (Node l z r)" using rb(1) sub(4) by auto
  have ctx: "rb_ctx (?R(p := False, g := True)) (bh (?R(p := False, g := True)) (Node l z r)) (GoLeft p (Node s g u) # d)"
    using rb(2) R sub(4) by auto
  show ?thesis using run H'(1) ins_okI [OF f, of "Suc (length d)"] red ok ctx by (simp add: H'(3) del: rb.simps bh.simps rb_ctx.simps fun_upd_apply)
qed

lemma insert_fix_right_outer:
  assumes st: "fix_state Q t H0 L (GoRight s p # GoRight u g # d) (Node l z r) H"
    and R: "redn (th_nodes H) z" "redn (th_nodes H) p" "\<not> red_root (redn (th_nodes H)) u"
    and rb: "rb (redn (th_nodes H)) (Node l z r)"
      "rb_ctx (redn (th_nodes H)) (bh (redn (th_nodes H)) (Node l z r)) (GoRight s p # GoRight u g # d)"
  shows "\<exists>H'. insert_fix_right env t z H = Some (z, H') \<and> ins_ok Q t H0 L (Suc (length d)) z H'"
proof -
  let ?R = "redn (th_nodes H)" and ?ns = "th_nodes H" and ?c = "GoRight s p # GoRight u g # d"
  have tr: "tree_at ?ns (bt_nil t) (bt_root t) ?c (Node l z r)" using st by (simp add: fix_state_def)
  have acc: "par ?ns z = Some p" "par ?ns p = Some g" "lft ?ns g = Some (addr (bt_nil t) u)"
      "lft ?ns p = Some (addr (bt_nil t) s)"
    using tr by (auto simp: tree_at_def linked_iff)
  have sub: "set_tree (Node l z r) \<subseteq> set L" "set (before ?c) \<subseteq> set L" "set (after ?c) \<subseteq> set L"
      "distinct (before ?c @ inorder (Node l z r) @ after ?c)"
    using fix_state_sub [OF st] by auto
  have mem: "z \<in> set L" "p \<in> set L" "g \<in> set L" "set_tree u \<subseteq> set L" using sub(1-3) by auto
  have dom: "x \<in> dom ?ns" if "x \<in> set L" for x using fix_state_dom [OF st] that by blast
  have "z \<noteq> addr (bt_nil t) s" using sub(4) fix_state_mem [OF st mem(1)] by (cases s) auto
  moreover have "isred ?ns (addr (bt_nil t) u) = Some False" using fix_state_addr [OF st mem(4)] R(3) by simp
  ultimately have run: "insert_fix_right env t z H = map_option (Pair z)
      (bstree_node_rotate_left env t g (H\<lparr>th_nodes := paint g True (paint p False ?ns)\<rparr>))"
    using acc mem
    by (simp add: insert_fix_right_def insert_paint_def par_par_def put_red_paint dom map_option_case split: option.splits)
  have "fix_state Q t H0 L d (Node u g (Node s p (Node l z r))) (H\<lparr>th_nodes := paint g True (paint p False ?ns)\<rparr>)"
    using fix_paint [OF fix_paint [OF st mem(2)] mem(3), of True False] by (simp add: fix_state_up)
  then obtain H' where H': "bstree_node_rotate_left env t g (H\<lparr>th_nodes := paint g True (paint p False ?ns)\<rparr>) = Some H'"
      "fix_state Q t H0 L d (Node (Node u g s) p (Node l z r)) H'" "redn (th_nodes H') = ?R(p := False, g := True)"
    using fix_rotate_left by (fastforce simp: redn_paint dom mem)
  have f: "fix_state Q t H0 L (GoRight (Node u g s) p # d) (Node l z r) H'" using H'(2) by (simp add: fix_state_up)
  have red: "(?R(p := False, g := True)) z" using R(1) sub(4) by auto
  have ok: "rb (?R(p := False, g := True)) (Node l z r)" using rb(1) sub(4) by auto
  have ctx: "rb_ctx (?R(p := False, g := True)) (bh (?R(p := False, g := True)) (Node l z r)) (GoRight (Node u g s) p # d)"
    using rb(2) R sub(4) by auto
  show ?thesis using run H'(1) ins_okI [OF f, of "Suc (length d)"] red ok ctx by (simp add: H'(3) del: rb.simps bh.simps rb_ctx.simps fun_upd_apply)
qed

lemma insert_fix_left_inner:
  assumes st: "fix_state Q t H0 L (GoRight s p # GoLeft g u # d) (Node l z r) H"
    and R: "redn (th_nodes H) z" "redn (th_nodes H) p" "\<not> red_root (redn (th_nodes H)) u"
    and rb: "rb (redn (th_nodes H)) (Node l z r)"
      "rb_ctx (redn (th_nodes H)) (bh (redn (th_nodes H)) (Node l z r)) (GoRight s p # GoLeft g u # d)"
  shows "\<exists>H'. insert_fix_left env t z H = Some (p, H') \<and> ins_ok Q t H0 L (Suc (length d)) p H'"
proof -
  let ?R = "redn (th_nodes H)" and ?ns = "th_nodes H" and ?c = "GoRight s p # GoLeft g u # d"
  have tr: "tree_at ?ns (bt_nil t) (bt_root t) ?c (Node l z r)" using st by (simp add: fix_state_def)
  have acc: "par ?ns z = Some p" "par ?ns p = Some g" "rgt ?ns g = Some (addr (bt_nil t) u)"
      "rgt ?ns p = Some z"
    using tr by (auto simp: tree_at_def linked_iff)
  have sub: "set_tree (Node l z r) \<subseteq> set L" "set (before ?c) \<subseteq> set L" "set (after ?c) \<subseteq> set L"
      "distinct (before ?c @ inorder (Node l z r) @ after ?c)"
    using fix_state_sub [OF st] by auto
  have mem: "z \<in> set L" "p \<in> set L" "g \<in> set L" "set_tree u \<subseteq> set L" using sub(1-3) by auto
  have "fix_state Q t H0 L (GoLeft g u # d) (Node s p (Node l z r)) H" using st by (simp add: fix_state_up)
  then obtain H1 where H1: "bstree_node_rotate_left env t p H = Some H1"
      "fix_state Q t H0 L (GoLeft g u # d) (Node (Node s p l) z r) H1" "redn (th_nodes H1) = ?R"
    using fix_rotate_left by blast
  have dom: "x \<in> dom (th_nodes H1)" if "x \<in> set L" for x using fix_state_dom [OF H1(2)] that by blast
  have acc1: "par (th_nodes H1) p = Some z" "par (th_nodes H1) z = Some g"
    using H1(2) by (auto simp: fix_state_def tree_at_def linked_iff)
  have "isred ?ns (addr (bt_nil t) u) = Some False" using fix_state_addr [OF st mem(4)] R(3) by simp
  then have run: "insert_fix_left env t z H = map_option (Pair p)
      (bstree_node_rotate_right env t g (H1\<lparr>th_nodes := paint g True (paint z False (th_nodes H1))\<rparr>))"
    using acc acc1 H1(1) mem
    by (simp add: insert_fix_left_def insert_paint_def par_par_def put_red_paint dom map_option_case split: option.splits)
  have "fix_state Q t H0 L d (Node (Node (Node s p l) z r) g u) (H1\<lparr>th_nodes := paint g True (paint z False (th_nodes H1))\<rparr>)"
    using fix_paint [OF fix_paint [OF H1(2) mem(1)] mem(3), of True False] by (simp add: fix_state_up)
  then obtain H' where H': "bstree_node_rotate_right env t g (H1\<lparr>th_nodes := paint g True (paint z False (th_nodes H1))\<rparr>) = Some H'"
      "fix_state Q t H0 L d (Node (Node s p l) z (Node r g u)) H'" "redn (th_nodes H') = ?R(z := False, g := True)"
    using fix_rotate_right by (fastforce simp: redn_paint dom mem H1(3))
  have f: "fix_state Q t H0 L (GoLeft z (Node r g u) # d) (Node s p l) H'" using H'(2) by (simp add: fix_state_up)
  have red: "(?R(z := False, g := True)) p" using R(2) sub(4) by auto
  have ok: "rb (?R(z := False, g := True)) (Node s p l)" using rb R sub(4) by auto
  have ctx: "rb_ctx (?R(z := False, g := True)) (bh (?R(z := False, g := True)) (Node s p l)) (GoLeft z (Node r g u) # d)"
    using rb R sub(4) by auto
  show ?thesis using run H'(1) ins_okI [OF f, of "Suc (length d)"] red ok ctx by (simp add: H'(3) del: rb.simps bh.simps rb_ctx.simps fun_upd_apply)
qed

lemma insert_fix_right_inner:
  assumes st: "fix_state Q t H0 L (GoLeft p s # GoRight u g # d) (Node l z r) H"
    and R: "redn (th_nodes H) z" "redn (th_nodes H) p" "\<not> red_root (redn (th_nodes H)) u"
    and rb: "rb (redn (th_nodes H)) (Node l z r)"
      "rb_ctx (redn (th_nodes H)) (bh (redn (th_nodes H)) (Node l z r)) (GoLeft p s # GoRight u g # d)"
  shows "\<exists>H'. insert_fix_right env t z H = Some (p, H') \<and> ins_ok Q t H0 L (Suc (length d)) p H'"
proof -
  let ?R = "redn (th_nodes H)" and ?ns = "th_nodes H" and ?c = "GoLeft p s # GoRight u g # d"
  have tr: "tree_at ?ns (bt_nil t) (bt_root t) ?c (Node l z r)" using st by (simp add: fix_state_def)
  have acc: "par ?ns z = Some p" "par ?ns p = Some g" "lft ?ns g = Some (addr (bt_nil t) u)"
      "lft ?ns p = Some z"
    using tr by (auto simp: tree_at_def linked_iff)
  have sub: "set_tree (Node l z r) \<subseteq> set L" "set (before ?c) \<subseteq> set L" "set (after ?c) \<subseteq> set L"
      "distinct (before ?c @ inorder (Node l z r) @ after ?c)"
    using fix_state_sub [OF st] by auto
  have mem: "z \<in> set L" "p \<in> set L" "g \<in> set L" "set_tree u \<subseteq> set L" using sub(1-3) by auto
  have "fix_state Q t H0 L (GoRight u g # d) (Node (Node l z r) p s) H" using st by (simp add: fix_state_up)
  then obtain H1 where H1: "bstree_node_rotate_right env t p H = Some H1"
      "fix_state Q t H0 L (GoRight u g # d) (Node l z (Node r p s)) H1" "redn (th_nodes H1) = ?R"
    using fix_rotate_right by blast
  have dom: "x \<in> dom (th_nodes H1)" if "x \<in> set L" for x using fix_state_dom [OF H1(2)] that by blast
  have acc1: "par (th_nodes H1) p = Some z" "par (th_nodes H1) z = Some g"
    using H1(2) by (auto simp: fix_state_def tree_at_def linked_iff)
  have "isred ?ns (addr (bt_nil t) u) = Some False" using fix_state_addr [OF st mem(4)] R(3) by simp
  then have run: "insert_fix_right env t z H = map_option (Pair p)
      (bstree_node_rotate_left env t g (H1\<lparr>th_nodes := paint g True (paint z False (th_nodes H1))\<rparr>))"
    using acc acc1 H1(1) mem
    by (simp add: insert_fix_right_def insert_paint_def par_par_def put_red_paint dom map_option_case split: option.splits)
  have "fix_state Q t H0 L d (Node u g (Node l z (Node r p s))) (H1\<lparr>th_nodes := paint g True (paint z False (th_nodes H1))\<rparr>)"
    using fix_paint [OF fix_paint [OF H1(2) mem(1)] mem(3), of True False] by (simp add: fix_state_up)
  then obtain H' where H': "bstree_node_rotate_left env t g (H1\<lparr>th_nodes := paint g True (paint z False (th_nodes H1))\<rparr>) = Some H'"
      "fix_state Q t H0 L d (Node (Node u g l) z (Node r p s)) H'" "redn (th_nodes H') = ?R(z := False, g := True)"
    using fix_rotate_left by (fastforce simp: redn_paint dom mem H1(3))
  have f: "fix_state Q t H0 L (GoRight (Node u g l) z # d) (Node r p s) H'" using H'(2) by (simp add: fix_state_up)
  have red: "(?R(z := False, g := True)) p" using R(2) sub(4) by auto
  have ok: "rb (?R(z := False, g := True)) (Node r p s)" using rb R sub(4) by auto
  have ctx: "rb_ctx (?R(z := False, g := True)) (bh (?R(z := False, g := True)) (Node r p s)) (GoRight (Node u g l) z # d)"
    using rb R sub(4) by auto
  show ?thesis using run H'(1) ins_okI [OF f, of "Suc (length d)"] red ok ctx by (simp add: H'(3) del: rb.simps bh.simps rb_ctx.simps fun_upd_apply)
qed

lemma insert_step_ok:
  assumes st: "fix_state Q t H0 L c (Node l z r) H" and R: "redn (th_nodes H) z" "redn (th_nodes H) (up (bt_root t) c)"
    and rb: "rb (redn (th_nodes H)) (Node l z r)"
      "rb_ctx (redn (th_nodes H)) (bh (redn (th_nodes H)) (Node l z r)) c"
  shows "\<exists>z' H' k. insert_step env t (z, H) = Some (z', H') \<and> k < length c \<and> ins_ok Q t H0 L k z' H'"
proof -
  let ?R = "redn (th_nodes H)" and ?ns = "th_nodes H"
  have "c \<noteq> []" using R(2) fix_state_sentinels [OF st] by auto
  then obtain b c1 where c: "c = b # c1" by (cases c) auto
  obtain p s where b: "b = GoLeft p s \<or> b = GoRight s p" by (cases b) auto
  then have p: "?R p" "\<not> above_red ?R c1" using R(2) rb(2) c by auto
  then obtain e d where c1: "c1 = e # d" by (cases c1) auto
  have tr: "tree_at ?ns (bt_nil t) (bt_root t) c (Node l z r)" using st by (simp add: fix_state_def)
  show ?thesis
  proof (cases e)
    case (GoLeft g u)
    have "par ?ns z = Some p" "par ?ns p = Some g" "lft ?ns g = Some p"
      using tr b c c1 GoLeft by (elim disjE; simp add: tree_at_def linked_iff)+
    then have run: "insert_step env t (z, H) = insert_fix_left env t z H" by (simp add: insert_step_def)
    note st' = st [unfolded c c1 GoLeft] and rb' = rb(2) [unfolded c c1 GoLeft]
    consider "red_root ?R u" | "\<not> red_root ?R u" "b = GoLeft p s" | "\<not> red_root ?R u" "b = GoRight s p"
      using b by blast
    then show ?thesis
    proof cases
      case 1
      obtain H' where "insert_fix_left env t z H = Some (g, H')" "ins_ok Q t H0 L (length d) g H'"
        using insert_fix_left_recolour [OF st' b R(1) p(1) 1 rb(1) rb'] by blast
      then show ?thesis using run c c1
        by (rule_tac exI [of _ g], rule_tac exI [of _ H'], rule_tac exI [of _ "length d"]) simp
    next
      case 2
      obtain H' where "insert_fix_left env t z H = Some (z, H')" "ins_ok Q t H0 L (Suc (length d)) z H'"
        using insert_fix_left_outer [OF st' [unfolded 2(2)] R(1) p(1) 2(1) rb(1) rb' [unfolded 2(2)]] by blast
      then show ?thesis using run c c1
        by (rule_tac exI [of _ z], rule_tac exI [of _ H'], rule_tac exI [of _ "Suc (length d)"]) simp
    next
      case 3
      obtain H' where "insert_fix_left env t z H = Some (p, H')" "ins_ok Q t H0 L (Suc (length d)) p H'"
        using insert_fix_left_inner [OF st' [unfolded 3(2)] R(1) p(1) 3(1) rb(1) rb' [unfolded 3(2)]] by blast
      then show ?thesis using run c c1
        by (rule_tac exI [of _ p], rule_tac exI [of _ H'], rule_tac exI [of _ "Suc (length d)"]) simp
    qed
  next
    case (GoRight u g)
    have acc: "par ?ns z = Some p" "par ?ns p = Some g" "lft ?ns g = Some (addr (bt_nil t) u)"
      using tr b c c1 GoRight by (elim disjE; simp add: tree_at_def linked_iff)+
    have "p \<in> set L" "p \<notin> set_tree u" using fix_state_sub [OF st] b c c1 GoRight by auto
    then have "p \<noteq> addr (bt_nil t) u" using fix_state_mem [OF st] by (cases u) auto
    then have run: "insert_step env t (z, H) = insert_fix_right env t z H" using acc by (simp add: insert_step_def)
    note st' = st [unfolded c c1 GoRight] and rb' = rb(2) [unfolded c c1 GoRight]
    consider "red_root ?R u" | "\<not> red_root ?R u" "b = GoRight s p" | "\<not> red_root ?R u" "b = GoLeft p s"
      using b by blast
    then show ?thesis
    proof cases
      case 1
      obtain H' where "insert_fix_right env t z H = Some (g, H')" "ins_ok Q t H0 L (length d) g H'"
        using insert_fix_right_recolour [OF st' b R(1) p(1) 1 rb(1) rb'] by blast
      then show ?thesis using run c c1
        by (rule_tac exI [of _ g], rule_tac exI [of _ H'], rule_tac exI [of _ "length d"]) simp
    next
      case 2
      obtain H' where "insert_fix_right env t z H = Some (z, H')" "ins_ok Q t H0 L (Suc (length d)) z H'"
        using insert_fix_right_outer [OF st' [unfolded 2(2)] R(1) p(1) 2(1) rb(1) rb' [unfolded 2(2)]] by blast
      then show ?thesis using run c c1
        by (rule_tac exI [of _ z], rule_tac exI [of _ H'], rule_tac exI [of _ "Suc (length d)"]) simp
    next
      case 3
      obtain H' where "insert_fix_right env t z H = Some (p, H')" "ins_ok Q t H0 L (Suc (length d)) p H'"
        using insert_fix_right_inner [OF st' [unfolded 3(2)] R(1) p(1) 3(1) rb(1) rb' [unfolded 3(2)]] by blast
      then show ?thesis using run c c1
        by (rule_tac exI [of _ p], rule_tac exI [of _ H'], rule_tac exI [of _ "Suc (length d)"]) simp
    qed
  qed
qed

lemma insert_cond_ok:
  assumes st: "fix_state Q t H0 L c (Node l z r) H"
  shows "insert_cond (z, H) = Some (redn (th_nodes H) (up (bt_root t) c))"
proof -
  have "par (th_nodes H) z = Some (up (bt_root t) c)" using st by (auto simp: fix_state_def tree_at_def linked_iff)
  moreover have "up (bt_root t) c \<in> insert (bt_nil t) (insert (bt_root t) (set L))"
    using up_mem [of "bt_root t" c] fix_state_sub [OF st] by auto
  ultimately show ?thesis using fix_state_isred [OF st] by (simp add: insert_cond_def)
qed

lemma rbtree_insert_fixup_ok:
  assumes "ins_ok Q t H0 L k z H"
  shows "\<exists>H' T. rbtree_insert_fixup env t z H = Some H' \<and> fix_state Q t H0 L [] T H' \<and> T \<noteq> Leaf \<and>
    rb ((redn (th_nodes H'))(addr (bt_nil t) T := False)) T"
proof -
  let ?P = "\<lambda>k s. ins_ok Q t H0 L k (fst s) (snd s)"
  have "\<exists>k s. while_loop insert_cond (insert_step env t) (z, H) = Some s \<and> ?P k s \<and> insert_cond s = Some False"
  proof (rule while_loop_ghost [where P = ?P and m = id])
    show "?P k (z, H)" using assms by simp
  next
    fix k s assume "?P k s"
    then obtain c l r where s: "fix_state Q t H0 L c (Node l (fst s) r) (snd s)" "length c \<le> k"
        "redn (th_nodes (snd s)) (fst s)" "rb (redn (th_nodes (snd s))) (Node l (fst s) r)"
        "rb_ctx (redn (th_nodes (snd s))) (bh (redn (th_nodes (snd s))) (Node l (fst s) r)) c"
      unfolding ins_ok_def by blast
    have cond: "insert_cond s = Some (redn (th_nodes (snd s)) (up (bt_root t) c))" using insert_cond_ok [OF s(1)] by simp
    show "insert_cond s = Some False \<or> insert_cond s = Some True \<and>
        (\<exists>k' s'. insert_step env t s = Some s' \<and> ?P k' s' \<and> id k' < id k)"
    proof (cases "redn (th_nodes (snd s)) (up (bt_root t) c)")
      case True
      then obtain z' H' k' where "insert_step env t s = Some (z', H')" "k' < length c" "ins_ok Q t H0 L k' z' H'"
        using insert_step_ok [OF s(1,3) _ s(4,5)] by auto
      then show ?thesis using cond True s(2) by auto
    qed (simp add: cond)
  qed
  then obtain k' s where s: "while_loop insert_cond (insert_step env t) (z, H) = Some s" "?P k' s" "insert_cond s = Some False"
    by blast
  obtain c l r where c: "fix_state Q t H0 L c (Node l (fst s) r) (snd s)"
      "redn (th_nodes (snd s)) (fst s)" "rb (redn (th_nodes (snd s))) (Node l (fst s) r)"
      "rb_ctx (redn (th_nodes (snd s))) (bh (redn (th_nodes (snd s))) (Node l (fst s) r)) c"
    using s(2) unfolding ins_ok_def by blast
  let ?T = "plug c (Node l (fst s) r)" and ?R = "redn (th_nodes (snd s))"
  have st: "fix_state Q t H0 L [] ?T (snd s)" using c(1) fix_state_plug by blast
  have "\<not> ?R (up (bt_root t) c)" using s(3) insert_cond_ok [OF c(1)] by simp
  then have b: "c = [] \<or> \<not> (red_root ?R (Node l (fst s) r) \<and> above_red ?R c)"
    by (cases "(bt_root t, c)" rule: up.cases) auto
  have rp: "rb ?R ?T \<and> (c \<noteq> [] \<longrightarrow> \<not> red_root ?R ?T)" by (rule rb_plug) (use c b in auto)
  obtain L' a R' where T: "?T = Node L' a R'" by (metis neq_Leaf_iff plug_Node)
  have "a \<notin> set_tree L'" "a \<notin> set_tree R'" using fix_state_sub [OF st] T by auto
  moreover have "\<not> red_root ?R L' \<and> \<not> red_root ?R R'" if "c = []" using that rp T c(2,3) by simp
  moreover have "?R(a := False) = ?R" if "c \<noteq> []" using that rp T by (auto simp: fun_eq_iff)
  ultimately have "rb (?R(a := False)) ?T" using rp T by (cases "c = []") auto
  then show ?thesis using s(1) st T by (auto simp: rbtree_insert_fixup_def)
qed

end

end
