(* ===== verification/Rb_Delete.thy ===== *)
theory Rb_Delete
  imports Rb_Fixup
begin

text \<open>
  The deletion fix-up of src/ds/rbtree.c restores the red-black properties after a black node was
  unlinked: the position it starts at lacks one black node. Its loop has no test for the root of
  the tree. At the root it goes on with the sentinels, and it is their links and colours that
  stop it: two further rounds paint \<open>nil\<close> red and black again, turn \<open>nil\<close> around itself twice
  and break off with the tree as it was.
\<close>

interpretation plain: fixup_invariant env t "\<lambda>_ _. True" for env t
  by unfold_locales simp_all

subsection \<open>States of the loop\<close>

abbreviation del_state ::
  "'k bstree \<Rightarrow> ('k, 'a) theap \<Rightarrow> nat list \<Rightarrow> crumb list \<Rightarrow> nat tree \<Rightarrow> ('k, 'a) theap \<Rightarrow> bool" where
  "del_state \<equiv> fix_state (\<lambda>_ _. True)"

text \<open>Below the root of the subtree all is well; its root may have any colour.\<close>

fun rb_kids :: "(nat \<Rightarrow> bool) \<Rightarrow> nat tree \<Rightarrow> bool" where
  "rb_kids R Leaf \<longleftrightarrow> True"
| "rb_kids R (Node l a r) \<longleftrightarrow> rb R l \<and> rb R r \<and> bh R l = bh R r"

text \<open>Where the parent field of \<open>nil\<close> leads: to a node that has \<open>nil\<close> as a child.\<close>

definition nil_parent :: "'k tnodes \<Rightarrow> nat \<Rightarrow> nat \<Rightarrow> crumb list \<Rightarrow> nat tree \<Rightarrow> bool" where
  "nil_parent ns nil rt c tr \<longleftrightarrow>
     (if tr = Leaf then par ns nil = Some (up rt c)
      else (\<exists>q \<in> set_tree tr. par ns nil = Some q \<and> (lft ns q = Some nil \<or> rgt ns q = Some nil)))"

definition del_ok ::
  "'k bstree \<Rightarrow> ('k, 'a) theap \<Rightarrow> nat list \<Rightarrow> crumb list \<Rightarrow> nat tree \<Rightarrow> ('k, 'a) theap \<Rightarrow> bool" where
  "del_ok t H0 L c tr H \<longleftrightarrow> del_state t H0 L c tr H \<and> rb_kids (redn (th_nodes H)) tr \<and>
     rb_ctx (redn (th_nodes H)) (bh (redn (th_nodes H)) tr + 1) c \<and>
     (\<not> red_root (redn (th_nodes H)) tr \<longrightarrow> nil_parent (th_nodes H) (bt_nil t) (bt_root t) c tr)"

text \<open>The loop broke off at a black node.\<close>

definition del_done ::
  "'k bstree \<Rightarrow> ('k, 'a) theap \<Rightarrow> nat list \<Rightarrow> nat \<Rightarrow> ('k, 'a) theap \<Rightarrow> bool" where
  "del_done t H0 L node H \<longleftrightarrow> (\<exists>T. del_state t H0 L [] T H \<and> rb (redn (th_nodes H)) T \<and>
     \<not> red_root (redn (th_nodes H)) T \<and> isred (th_nodes H) node = Some False)"

lemma rb_kids_rb: "\<not> red_root R tr \<Longrightarrow> rb_kids R tr = rb R tr"
  by (cases tr) auto

lemma put_red_run: "a \<in> dom (th_nodes H) \<Longrightarrow>
    on_nodes (put_red a b) H = Some (H\<lparr>th_nodes := paint a b (th_nodes H)\<rparr>)"
  by (simp add: on_nodes_def put_red_paint)

lemma node_par:
  assumes "fix_state Q t H0 L c tr H" and "tr = Leaf \<Longrightarrow> par (th_nodes H) (bt_nil t) = Some (up (bt_root t) c)"
  shows "par (th_nodes H) (addr (bt_nil t) tr) = Some (up (bt_root t) c)"
  using assms ptree_addr by (cases tr) (auto simp: fix_state_def tree_at_def linked_iff)

text \<open>Painting and rotating leave the links of \<open>nil\<close> alone.\<close>

lemma par_same_nil: "th_nodes H' a = th_nodes H a \<Longrightarrow> par (th_nodes H') a = par (th_nodes H) a"
  by (simp add: tree_access)

subsection \<open>The cases of a round\<close>

lemma delete_lift_left_ok:
  assumes st: "del_state t H0 L (GoLeft p (Node s1 b s2) # d) tr H"
    and nil: "tr = Leaf \<Longrightarrow> par (th_nodes H) (bt_nil t) = Some p"
  shows "\<exists>H'. delete_lift_left env t (addr (bt_nil t) tr) b H = Some (addr (bt_nil t) s1, H') \<and>
    del_state t H0 L (GoLeft p s1 # GoLeft b s2 # d) tr H' \<and> redn (th_nodes H') = (redn (th_nodes H))(b := False, p := True) \<and>
    par (th_nodes H') (bt_nil t) = par (th_nodes H) (bt_nil t)"
proof -
  let ?node = "addr (bt_nil t) tr" and ?R = "redn (th_nodes H)"
  have sub: "b \<in> set L" "p \<in> set L" using fix_state_sub [OF st] by auto
  have dom: "x \<in> dom (th_nodes H)" if "x \<in> set L" for x using fix_state_dom [OF st] that by blast
  have np: "par (th_nodes H) ?node = Some p" using node_par [OF st] nil by simp
  let ?H = "H\<lparr>th_nodes := paint p True (paint b False (th_nodes H))\<rparr>"
  have "del_state t H0 L (GoLeft p (Node s1 b s2) # d) tr ?H"
    using plain.fix_paint [OF plain.fix_paint [OF st sub(1)] sub(2), of True False] by simp
  then have "del_state t H0 L d (Node tr p (Node s1 b s2)) ?H" by (simp add: fix_state_up)
  then obtain H' where H': "bstree_node_rotate_left env t p ?H = Some H'"
      "del_state t H0 L d (Node (Node tr p s1) b s2) H'" "redn (th_nodes H') = redn (th_nodes ?H)"
      "th_nodes H' (bt_nil t) = th_nodes ?H (bt_nil t)"
    using plain.fix_rotate_left by blast
  have st': "del_state t H0 L (GoLeft p s1 # GoLeft b s2 # d) tr H'" using H'(2) by (simp add: fix_state_up)
  have pn: "par (th_nodes H') (bt_nil t) = par (th_nodes H) (bt_nil t)" using par_same_nil [OF H'(4)] by simp
  then have np': "par (th_nodes H') ?node = Some p" using node_par [OF st'] nil by simp
  have "rgt (th_nodes H') p = Some (addr (bt_nil t) s1)"
    using st' by (simp add: fix_state_def tree_at_def linked_iff)
  then have "delete_lift_left env t ?node b H = Some (addr (bt_nil t) s1, H')"
    using np np' H'(1) by (simp add: delete_lift_left_def put_red_run dom sub)
  moreover have "redn (th_nodes H') = ?R(b := False, p := True)" using H'(3) by (simp add: redn_paint dom sub)
  ultimately show ?thesis using st' pn by blast
qed

lemma delete_lift_right_ok:
  assumes st: "del_state t H0 L (GoRight (Node s2 b s1) p # d) tr H"
    and nil: "tr = Leaf \<Longrightarrow> par (th_nodes H) (bt_nil t) = Some p"
  shows "\<exists>H'. delete_lift_right env t (addr (bt_nil t) tr) b H = Some (addr (bt_nil t) s1, H') \<and>
    del_state t H0 L (GoRight s1 p # GoRight s2 b # d) tr H' \<and> redn (th_nodes H') = (redn (th_nodes H))(b := False, p := True) \<and>
    par (th_nodes H') (bt_nil t) = par (th_nodes H) (bt_nil t)"
proof -
  let ?node = "addr (bt_nil t) tr" and ?R = "redn (th_nodes H)"
  have sub: "b \<in> set L" "p \<in> set L" using fix_state_sub [OF st] by auto
  have dom: "x \<in> dom (th_nodes H)" if "x \<in> set L" for x using fix_state_dom [OF st] that by blast
  have np: "par (th_nodes H) ?node = Some p" using node_par [OF st] nil by simp
  let ?H = "H\<lparr>th_nodes := paint p True (paint b False (th_nodes H))\<rparr>"
  have "del_state t H0 L (GoRight (Node s2 b s1) p # d) tr ?H"
    using plain.fix_paint [OF plain.fix_paint [OF st sub(1)] sub(2), of True False] by simp
  then have "del_state t H0 L d (Node (Node s2 b s1) p tr) ?H" by (simp add: fix_state_up)
  then obtain H' where H': "bstree_node_rotate_right env t p ?H = Some H'"
      "del_state t H0 L d (Node s2 b (Node s1 p tr)) H'" "redn (th_nodes H') = redn (th_nodes ?H)"
      "th_nodes H' (bt_nil t) = th_nodes ?H (bt_nil t)"
    using plain.fix_rotate_right by blast
  have st': "del_state t H0 L (GoRight s1 p # GoRight s2 b # d) tr H'" using H'(2) by (simp add: fix_state_up)
  have pn: "par (th_nodes H') (bt_nil t) = par (th_nodes H) (bt_nil t)" using par_same_nil [OF H'(4)] by simp
  then have np': "par (th_nodes H') ?node = Some p" using node_par [OF st'] nil by simp
  have "lft (th_nodes H') p = Some (addr (bt_nil t) s1)"
    using st' by (simp add: fix_state_def tree_at_def linked_iff)
  then have "delete_lift_right env t ?node b H = Some (addr (bt_nil t) s1, H')"
    using np np' H'(1) by (simp add: delete_lift_right_def put_red_run dom sub)
  moreover have "redn (th_nodes H') = ?R(b := False, p := True)" using H'(3) by (simp add: redn_paint dom sub)
  ultimately show ?thesis using st' pn by blast
qed

lemma delete_near_left_ok:
  assumes st: "del_state t H0 L (GoLeft p (Node (Node y1 a y2) b s2) # d) tr H"
    and nil: "tr = Leaf \<Longrightarrow> par (th_nodes H) (bt_nil t) = Some p"
  shows "\<exists>H'. delete_near_left env t (addr (bt_nil t) tr) b H = Some (a, H') \<and>
    del_state t H0 L (GoLeft p (Node y1 a (Node y2 b s2)) # d) tr H' \<and> redn (th_nodes H') = (redn (th_nodes H))(a := False, b := True) \<and>
    par (th_nodes H') (bt_nil t) = par (th_nodes H) (bt_nil t)"
proof -
  let ?node = "addr (bt_nil t) tr" and ?R = "redn (th_nodes H)"
  have sub: "b \<in> set L" "a \<in> set L" using fix_state_sub [OF st] by auto
  have dom: "x \<in> dom (th_nodes H)" if "x \<in> set L" for x using fix_state_dom [OF st] that by blast
  have ba: "lft (th_nodes H) b = Some a" using st by (simp add: fix_state_def tree_at_def linked_iff)
  let ?H = "H\<lparr>th_nodes := paint b True (paint a False (th_nodes H))\<rparr>"
  have "del_state t H0 L (GoLeft p (Node (Node y1 a y2) b s2) # d) tr ?H"
    using plain.fix_paint [OF plain.fix_paint [OF st sub(2)] sub(1), of True False] by simp
  then have "del_state t H0 L (GoRight tr p # d) (Node (Node y1 a y2) b s2) ?H" by (simp add: fix_state_up)
  then obtain H' where H': "bstree_node_rotate_right env t b ?H = Some H'"
      "del_state t H0 L (GoRight tr p # d) (Node y1 a (Node y2 b s2)) H'" "redn (th_nodes H') = redn (th_nodes ?H)"
      "th_nodes H' (bt_nil t) = th_nodes ?H (bt_nil t)"
    using plain.fix_rotate_right by blast
  have st': "del_state t H0 L (GoLeft p (Node y1 a (Node y2 b s2)) # d) tr H'" using H'(2) by (simp add: fix_state_up)
  have pn: "par (th_nodes H') (bt_nil t) = par (th_nodes H) (bt_nil t)" using par_same_nil [OF H'(4)] by simp
  then have np': "par (th_nodes H') ?node = Some p" using node_par [OF st'] nil by simp
  have "rgt (th_nodes H') p = Some a" using st' by (simp add: fix_state_def tree_at_def linked_iff)
  then have "delete_near_left env t ?node b H = Some (a, H')"
    using np' ba H'(1) by (simp add: delete_near_left_def put_red_run dom sub)
  moreover have "redn (th_nodes H') = ?R(a := False, b := True)" using H'(3) by (simp add: redn_paint dom sub)
  ultimately show ?thesis using st' pn by blast
qed

lemma delete_near_right_ok:
  assumes st: "del_state t H0 L (GoRight (Node s2 b (Node y2 a y1)) p # d) tr H"
    and nil: "tr = Leaf \<Longrightarrow> par (th_nodes H) (bt_nil t) = Some p"
  shows "\<exists>H'. delete_near_right env t (addr (bt_nil t) tr) b H = Some (a, H') \<and>
    del_state t H0 L (GoRight (Node (Node s2 b y2) a y1) p # d) tr H' \<and> redn (th_nodes H') = (redn (th_nodes H))(a := False, b := True) \<and>
    par (th_nodes H') (bt_nil t) = par (th_nodes H) (bt_nil t)"
proof -
  let ?node = "addr (bt_nil t) tr" and ?R = "redn (th_nodes H)"
  have sub: "b \<in> set L" "a \<in> set L" using fix_state_sub [OF st] by auto
  have dom: "x \<in> dom (th_nodes H)" if "x \<in> set L" for x using fix_state_dom [OF st] that by blast
  have ba: "rgt (th_nodes H) b = Some a" using st by (simp add: fix_state_def tree_at_def linked_iff)
  let ?H = "H\<lparr>th_nodes := paint b True (paint a False (th_nodes H))\<rparr>"
  have "del_state t H0 L (GoRight (Node s2 b (Node y2 a y1)) p # d) tr ?H"
    using plain.fix_paint [OF plain.fix_paint [OF st sub(2)] sub(1), of True False] by simp
  then have "del_state t H0 L (GoLeft p tr # d) (Node s2 b (Node y2 a y1)) ?H" by (simp add: fix_state_up)
  then obtain H' where H': "bstree_node_rotate_left env t b ?H = Some H'"
      "del_state t H0 L (GoLeft p tr # d) (Node (Node s2 b y2) a y1) H'" "redn (th_nodes H') = redn (th_nodes ?H)"
      "th_nodes H' (bt_nil t) = th_nodes ?H (bt_nil t)"
    using plain.fix_rotate_left by blast
  have st': "del_state t H0 L (GoRight (Node (Node s2 b y2) a y1) p # d) tr H'" using H'(2) by (simp add: fix_state_up)
  have pn: "par (th_nodes H') (bt_nil t) = par (th_nodes H) (bt_nil t)" using par_same_nil [OF H'(4)] by simp
  then have np': "par (th_nodes H') ?node = Some p" using node_par [OF st'] nil by simp
  have "lft (th_nodes H') p = Some a" using st' by (simp add: fix_state_def tree_at_def linked_iff)
  then have "delete_near_right env t ?node b H = Some (a, H')"
    using np' ba H'(1) by (simp add: delete_near_right_def put_red_run dom sub)
  moreover have "redn (th_nodes H') = ?R(a := False, b := True)" using H'(3) by (simp add: redn_paint dom sub)
  ultimately show ?thesis using st' pn by blast
qed

lemma delete_turn_left_ok:
  assumes st: "del_state t H0 L (GoLeft p (Node s1 b s2) # d) tr H"
    and nil: "tr = Leaf \<Longrightarrow> par (th_nodes H) (bt_nil t) = Some p"
    and R: "red_root (redn (th_nodes H)) s2" "\<not> red_root (redn (th_nodes H)) tr"
    and rb: "rb (redn (th_nodes H)) tr" "rb_ctx (redn (th_nodes H)) (bh (redn (th_nodes H)) tr + 1) (GoLeft p (Node s1 b s2) # d)"
    and b: "\<not> redn (th_nodes H) b"
  shows "\<exists>H'. delete_turn_left env t (addr (bt_nil t) tr) b H = Some H' \<and> del_done t H0 L (addr (bt_nil t) tr) H'"
proof -
  let ?node = "addr (bt_nil t) tr" and ?R = "redn (th_nodes H)"
  obtain f1 f f2 where far: "s2 = Node f1 f f2" using R(1) by (cases s2) auto
  have sub: "b \<in> set L" "p \<in> set L" "f \<in> set L" "set_tree tr \<subseteq> set L" using fix_state_sub [OF st] far by auto
  have dom: "x \<in> dom (th_nodes H)" if "x \<in> set L" for x using fix_state_dom [OF st] that by blast
  have np: "par (th_nodes H) ?node = Some p" using node_par [OF st] nil by simp
  have bf: "rgt (th_nodes H) b = Some f" using st far by (simp add: fix_state_def tree_at_def linked_iff)
  have pr: "isred (th_nodes H) p = Some (?R p)" using fix_state_isred [OF st] sub by simp
  let ?H = "H\<lparr>th_nodes := paint f False (paint p False (paint b (?R p) (th_nodes H)))\<rparr>"
  let ?R' = "?R(b := ?R p, p := False, f := False)"
  have "del_state t H0 L (GoLeft p (Node s1 b s2) # d) tr ?H"
    using plain.fix_paint [OF plain.fix_paint [OF plain.fix_paint [OF st sub(1)] sub(2)] sub(3), of False False "?R p"]
    by simp
  then have "del_state t H0 L d (Node tr p (Node s1 b s2)) ?H" by (simp add: fix_state_up)
  then obtain H' where H': "bstree_node_rotate_left env t p ?H = Some H'"
      "del_state t H0 L d (Node (Node tr p s1) b s2) H'" "redn (th_nodes H') = redn (th_nodes ?H)"
    using plain.fix_rotate_left by blast
  have run: "delete_turn_left env t ?node b H = Some H'"
    using np bf pr H'(1) by (simp add: delete_turn_left_def put_red_run dom sub)
  have R': "redn (th_nodes H') = ?R'" using H'(3) by (simp add: redn_paint dom sub)
  have ds: "distinct (before (GoLeft p (Node s1 b s2) # d) @ inorder tr @ after (GoLeft p (Node s1 b s2) # d))" using fix_state_sub [OF st] by blast
  have keep: "rb ?R' tr = rb ?R tr" "bh ?R' tr = bh ?R tr" "red_root ?R' tr = red_root ?R tr" using ds far by auto
  have ok: "rb ?R' (Node (Node tr p s1) b s2)" using keep rb ds b far R by (auto simp: fun_upd_twist)
  have ctx: "rb_ctx ?R' (bh ?R' (Node (Node tr p s1) b s2)) d" "d = [] \<or> \<not> (red_root ?R' (Node (Node tr p s1) b s2) \<and> above_red ?R' d)"
      "d = [] \<Longrightarrow> \<not> red_root ?R' (Node (Node tr p s1) b s2)"
    using keep rb ds b far R by (auto simp: fun_upd_twist)
  have "rb ?R' (plug d (Node (Node tr p s1) b s2)) \<and> \<not> red_root ?R' (plug d (Node (Node tr p s1) b s2))"
    using rb_plug [OF ok ctx(1,2)] ctx(3) by (cases "d = []") auto
  moreover have "del_state t H0 L [] (plug d (Node (Node tr p s1) b s2)) H'" using H'(2) fix_state_plug by blast
  moreover have "isred (th_nodes H') ?node = Some False"
    using fix_state_addr [OF H'(2) sub(4)] R' keep R(2) by simp
  ultimately show ?thesis unfolding del_done_def using run R' by metis
qed

lemma delete_turn_right_ok:
  assumes st: "del_state t H0 L (GoRight (Node s2 b s1) p # d) tr H"
    and nil: "tr = Leaf \<Longrightarrow> par (th_nodes H) (bt_nil t) = Some p"
    and R: "red_root (redn (th_nodes H)) s2" "\<not> red_root (redn (th_nodes H)) tr"
    and rb: "rb (redn (th_nodes H)) tr" "rb_ctx (redn (th_nodes H)) (bh (redn (th_nodes H)) tr + 1) (GoRight (Node s2 b s1) p # d)"
    and b: "\<not> redn (th_nodes H) b"
  shows "\<exists>H'. delete_turn_right env t (addr (bt_nil t) tr) b H = Some H' \<and> del_done t H0 L (addr (bt_nil t) tr) H'"
proof -
  let ?node = "addr (bt_nil t) tr" and ?R = "redn (th_nodes H)"
  obtain f1 f f2 where far: "s2 = Node f1 f f2" using R(1) by (cases s2) auto
  have sub: "b \<in> set L" "p \<in> set L" "f \<in> set L" "set_tree tr \<subseteq> set L" using fix_state_sub [OF st] far by auto
  have dom: "x \<in> dom (th_nodes H)" if "x \<in> set L" for x using fix_state_dom [OF st] that by blast
  have np: "par (th_nodes H) ?node = Some p" using node_par [OF st] nil by simp
  have bf: "lft (th_nodes H) b = Some f" using st far by (simp add: fix_state_def tree_at_def linked_iff)
  have pr: "isred (th_nodes H) p = Some (?R p)" using fix_state_isred [OF st] sub by simp
  let ?H = "H\<lparr>th_nodes := paint f False (paint p False (paint b (?R p) (th_nodes H)))\<rparr>"
  let ?R' = "?R(b := ?R p, p := False, f := False)"
  have "del_state t H0 L (GoRight (Node s2 b s1) p # d) tr ?H"
    using plain.fix_paint [OF plain.fix_paint [OF plain.fix_paint [OF st sub(1)] sub(2)] sub(3), of False False "?R p"]
    by simp
  then have "del_state t H0 L d (Node (Node s2 b s1) p tr) ?H" by (simp add: fix_state_up)
  then obtain H' where H': "bstree_node_rotate_right env t p ?H = Some H'"
      "del_state t H0 L d (Node s2 b (Node s1 p tr)) H'" "redn (th_nodes H') = redn (th_nodes ?H)"
    using plain.fix_rotate_right by blast
  have run: "delete_turn_right env t ?node b H = Some H'"
    using np bf pr H'(1) by (simp add: delete_turn_right_def put_red_run dom sub)
  have R': "redn (th_nodes H') = ?R'" using H'(3) by (simp add: redn_paint dom sub)
  have ds: "distinct (before (GoRight (Node s2 b s1) p # d) @ inorder tr @ after (GoRight (Node s2 b s1) p # d))" using fix_state_sub [OF st] by blast
  have keep: "rb ?R' tr = rb ?R tr" "bh ?R' tr = bh ?R tr" "red_root ?R' tr = red_root ?R tr" using ds far by auto
  have ok: "rb ?R' (Node s2 b (Node s1 p tr))" using keep rb ds b far R by (auto simp: fun_upd_twist)
  have ctx: "rb_ctx ?R' (bh ?R' (Node s2 b (Node s1 p tr))) d" "d = [] \<or> \<not> (red_root ?R' (Node s2 b (Node s1 p tr)) \<and> above_red ?R' d)"
      "d = [] \<Longrightarrow> \<not> red_root ?R' (Node s2 b (Node s1 p tr))"
    using keep rb ds b far R by (auto simp: fun_upd_twist)
  have "rb ?R' (plug d (Node s2 b (Node s1 p tr))) \<and> \<not> red_root ?R' (plug d (Node s2 b (Node s1 p tr)))"
    using rb_plug [OF ok ctx(1,2)] ctx(3) by (cases "d = []") auto
  moreover have "del_state t H0 L [] (plug d (Node s2 b (Node s1 p tr))) H'" using H'(2) fix_state_plug by blast
  moreover have "isred (th_nodes H') ?node = Some False"
    using fix_state_addr [OF H'(2) sub(4)] R' keep R(2) by simp
  ultimately show ?thesis unfolding del_done_def using run R' by metis
qed

subsection \<open>A round\<close>

lemma ptree_agree:
  "ptree ns nil p tr \<Longrightarrow> ptree ns' nil q tr \<Longrightarrow> a \<in> set_tree tr \<Longrightarrow> lft ns' a = lft ns a \<and> rgt ns' a = rgt ns a"
  by (induction tr arbitrary: p q) (auto simp: linked_iff)

lemma nil_parent_keep:
  assumes "fix_state Q t H0 L c tr H" and "fix_state Q' t H1 L' c' tr H'"
    and "par (th_nodes H') (bt_nil t) = par (th_nodes H) (bt_nil t)" and "up (bt_root t) c' = up (bt_root t) c"
    and "nil_parent (th_nodes H) (bt_nil t) (bt_root t) c tr"
  shows "nil_parent (th_nodes H') (bt_nil t) (bt_root t) c' tr"
proof -
  have p: "ptree (th_nodes H) (bt_nil t) (up (bt_root t) c) tr" "ptree (th_nodes H') (bt_nil t) (up (bt_root t) c') tr"
    using assms(1,2) by (simp_all add: fix_state_def tree_at_def)
  show ?thesis using assms(3-5) ptree_agree [OF p] unfolding nil_parent_def by (auto split: if_splits)
qed

lemma nil_parent_up:
  assumes "fix_state Q t H0 L (GoLeft p s # d) tr H"
    and "nil_parent (th_nodes H) (bt_nil t) (bt_root t) (GoLeft p s # d) tr"
  shows "nil_parent (th_nodes H) (bt_nil t) (bt_root t) d (Node tr p s)"
  using assms by (cases "tr = Leaf") (auto simp: nil_parent_def fix_state_def tree_at_def linked_iff)

lemma nil_parent_up':
  assumes "fix_state Q t H0 L (GoRight s p # d) tr H"
    and "nil_parent (th_nodes H) (bt_nil t) (bt_root t) (GoRight s p # d) tr"
  shows "nil_parent (th_nodes H) (bt_nil t) (bt_root t) d (Node s p tr)"
  using assms by (cases "tr = Leaf") (auto simp: nil_parent_def fix_state_def tree_at_def linked_iff)

lemma nil_parent_leaf: "nil_parent ns nil rt c tr \<Longrightarrow> tr = Leaf \<Longrightarrow> par ns nil = Some (up rt c)"
  by (simp add: nil_parent_def)

lemma black_children_ok:
  assumes "fix_state Q t H0 L c tr H" and "lft (th_nodes H) b = Some (addr (bt_nil t) l)"
    and "rgt (th_nodes H) b = Some (addr (bt_nil t) r)" and "set_tree l \<subseteq> set L" and "set_tree r \<subseteq> set L"
  shows "black_children (th_nodes H) b =
    Some (\<not> red_root (redn (th_nodes H)) l \<and> \<not> red_root (redn (th_nodes H)) r)"
  using fix_state_addr [OF assms(1,4)] fix_state_addr [OF assms(1,5)] assms(2,3) by (simp add: black_children_def)

lemma delete_black_left_ok:
  assumes st: "del_ok t H0 L (GoLeft p (Node s1 b s2) # d) tr H" and R: "\<not> red_root (redn (th_nodes H)) tr" "\<not> redn (th_nodes H) b"
  shows "(\<exists>H'. delete_black_left env t (addr (bt_nil t) tr) b H = Some (True, addr (bt_nil t) tr, H') \<and>
      del_done t H0 L (addr (bt_nil t) tr) H') \<or>
    (\<exists>H'. delete_black_left env t (addr (bt_nil t) tr) b H = Some (False, p, H') \<and>
      del_ok t H0 L d (Node tr p (Node s1 b s2)) H' \<and> (redn (th_nodes H) p \<longrightarrow> redn (th_nodes H') p))"
proof -
  let ?node = "addr (bt_nil t) tr" and ?R = "redn (th_nodes H)"
  have s: "del_state t H0 L (GoLeft p (Node s1 b s2) # d) tr H" and rb: "rb ?R tr" "rb_ctx ?R (bh ?R tr + 1) (GoLeft p (Node s1 b s2) # d)"
    and np: "nil_parent (th_nodes H) (bt_nil t) (bt_root t) (GoLeft p (Node s1 b s2) # d) tr"
    using st R(1) rb_kids_rb by (auto simp: del_ok_def)
  have nil: "par (th_nodes H) (bt_nil t) = Some p" if "tr = Leaf" using nil_parent_leaf [OF np that] by simp
  have sub: "b \<in> set L" "p \<in> set L" "set_tree s1 \<subseteq> set L" "set_tree s2 \<subseteq> set L" using fix_state_sub [OF s] by auto
  have dom: "x \<in> dom (th_nodes H)" if "x \<in> set L" for x using fix_state_dom [OF s] that by blast
  have ds: "distinct (before (GoLeft p (Node s1 b s2) # d) @ inorder tr @ after (GoLeft p (Node s1 b s2) # d))" using fix_state_sub [OF s] by blast
  have bl: "lft (th_nodes H) b = Some (addr (bt_nil t) s1)" "rgt (th_nodes H) b = Some (addr (bt_nil t) s2)"
    using s by (auto simp: fix_state_def tree_at_def linked_iff)
  have bc: "black_children (th_nodes H) b = Some (\<not> red_root ?R s1 \<and> \<not> red_root ?R s2)"
    using black_children_ok [OF s _ _ sub(3,4)] bl by auto
  have np': "par (th_nodes H) ?node = Some p" using node_par [OF s] nil by simp
  show ?thesis
  proof (cases "red_root ?R s1 \<or> red_root ?R s2")
    case False
    let ?H = "H\<lparr>th_nodes := paint b True (th_nodes H)\<rparr>"
    have run: "delete_black_left env t ?node b H = Some (False, p, ?H)"
      using bc False np' by (simp add: delete_black_left_def put_red_run dom sub)
    have s': "del_state t H0 L (GoLeft p (Node s1 b s2) # d) tr ?H" using plain.fix_paint [OF s sub(1)] .
    then have "del_state t H0 L d (Node tr p (Node s1 b s2)) ?H" by (simp add: fix_state_up)
    moreover have R': "redn (th_nodes ?H) = ?R(b := True)" by (simp add: redn_paint dom sub)
    have "rb_kids (?R(b := True)) (Node tr p (Node s1 b s2))" using rb ds R False by auto
    moreover have "rb_ctx (?R(b := True)) (bh (?R(b := True)) (Node tr p (Node s1 b s2)) + 1) d" using rb ds R False by auto
    moreover have "nil_parent (th_nodes ?H) (bt_nil t) (bt_root t) (GoLeft p (Node s1 b s2) # d) tr"
      by (rule nil_parent_keep [OF s s' _ _ np]) simp_all
    then have "nil_parent (th_nodes ?H) (bt_nil t) (bt_root t) d (Node tr p (Node s1 b s2))" using nil_parent_up [OF s'] by blast
    ultimately have "del_ok t H0 L d (Node tr p (Node s1 b s2)) ?H" unfolding del_ok_def R' by blast
    then show ?thesis using run R' by auto
  next
    case True
    show ?thesis
    proof (cases "red_root ?R s2")
      case far: True
      then obtain H' where H': "delete_turn_left env t ?node b H = Some H'" "del_done t H0 L ?node H'"
        using delete_turn_left_ok [OF s nil _ R(1) rb R(2), of env] by blast
      have "isred (th_nodes H) (addr (bt_nil t) s2) = Some True" using fix_state_addr [OF s sub(4)] far by simp
      then have "delete_black_left env t ?node b H = Some (True, ?node, H')"
        using bc far bl H'(1) by (simp add: delete_black_left_def)
      then show ?thesis using H'(2) by blast
    next
      case near: False
      then obtain y1 a y2 where s1: "s1 = Node y1 a y2" "?R a" using True by (cases s1) auto
      obtain H1 where H1: "delete_near_left env t ?node b H = Some (a, H1)"
          "del_state t H0 L (GoLeft p (Node y1 a (Node y2 b s2)) # d) tr H1" "redn (th_nodes H1) = ?R(a := False, b := True)"
          "par (th_nodes H1) (bt_nil t) = par (th_nodes H) (bt_nil t)"
        using delete_near_left_ok [OF s [unfolded s1(1)] nil, of env] by blast
      let ?R1 = "?R(a := False, b := True)"
      have keep: "rb ?R1 tr = rb ?R tr" "bh ?R1 tr = bh ?R tr" "red_root ?R1 tr = red_root ?R tr" using ds s1(1) by auto
      have rb1: "rb_ctx ?R1 (bh ?R1 tr + 1) (GoLeft p (Node y1 a (Node y2 b s2)) # d)" using keep rb ds s1 R near by auto
      obtain H' where H': "delete_turn_left env t ?node a H1 = Some H'" "del_done t H0 L ?node H'"
        using delete_turn_left_ok [OF H1(2), of env] nil H1(3,4) keep rb(1) R(1) rb1 ds s1(1) by auto
      have "isred (th_nodes H) (addr (bt_nil t) s2) = Some False" using fix_state_addr [OF s sub(4)] near by simp
      then have "delete_black_left env t ?node b H = Some (True, ?node, H')"
        using bc True near bl H1(1) H'(1) by (simp add: delete_black_left_def)
      then show ?thesis using H'(2) by blast
    qed
  qed
qed

lemma delete_fix_left_ok:
  assumes st: "del_ok t H0 L (GoLeft p s # d) tr H" and R: "\<not> red_root (redn (th_nodes H)) tr"
  shows "(\<exists>H'. delete_fix_left env t (addr (bt_nil t) tr) H = Some (True, addr (bt_nil t) tr, H') \<and>
      del_done t H0 L (addr (bt_nil t) tr) H') \<or>
    (\<exists>H' c' tr'. delete_fix_left env t (addr (bt_nil t) tr) H = Some (False, addr (bt_nil t) tr', H') \<and>
      del_ok t H0 L c' tr' H' \<and> (red_root (redn (th_nodes H')) tr' \<or> length c' \<le> length d))"
proof -
  let ?node = "addr (bt_nil t) tr" and ?R = "redn (th_nodes H)"
  have s0: "del_state t H0 L (GoLeft p s # d) tr H" and rb: "rb ?R tr" "rb_ctx ?R (bh ?R tr + 1) (GoLeft p s # d)"
    and np: "nil_parent (th_nodes H) (bt_nil t) (bt_root t) (GoLeft p s # d) tr"
    using st R(1) rb_kids_rb by (auto simp: del_ok_def)
  obtain s1 b s2 where sib: "s = Node s1 b s2" using rb(2) by (cases s) auto
  note s = s0 [unfolded sib]
  have nil: "par (th_nodes H) (bt_nil t) = Some p" if "tr = Leaf" using nil_parent_leaf [OF np that] by simp
  have sub: "b \<in> set L" using fix_state_sub [OF s] by auto
  have ds: "distinct (before (GoLeft p (Node s1 b s2) # d) @ inorder tr @ after (GoLeft p (Node s1 b s2) # d))" using fix_state_sub [OF s] by blast
  have np': "par (th_nodes H) ?node = Some p" using node_par [OF s] nil by simp
  have rp: "rgt (th_nodes H) p = Some b" using s by (simp add: fix_state_def tree_at_def linked_iff)
  have rb_b: "isred (th_nodes H) b = Some (?R b)" using fix_state_isred [OF s] sub by simp
  show ?thesis
  proof (cases "?R b")
    case False
    then have "delete_fix_left env t ?node H = delete_black_left env t ?node b H"
      using np' rp rb_b by (simp add: delete_fix_left_def)
    then show ?thesis using delete_black_left_ok [OF st [unfolded sib] R False, of env]
      by (metis addr.simps(2) le_refl)
  next
    case True
    obtain H1 where H1: "delete_lift_left env t ?node b H = Some (addr (bt_nil t) s1, H1)"
        "del_state t H0 L (GoLeft p s1 # GoLeft b s2 # d) tr H1" "redn (th_nodes H1) = ?R(b := False, p := True)"
        "par (th_nodes H1) (bt_nil t) = par (th_nodes H) (bt_nil t)"
      using delete_lift_left_ok [OF s nil, of env] by blast
    let ?R1 = "?R(b := False, p := True)"
    have keep: "rb ?R1 tr = rb ?R tr" "bh ?R1 tr = bh ?R tr" "red_root ?R1 tr = red_root ?R tr"
        "red_root ?R1 s1 = red_root ?R s1"
      using ds by auto
    have "rb_ctx ?R1 (bh ?R1 tr + 1) (GoLeft p s1 # GoLeft b s2 # d)" using keep rb ds sib True by auto
    moreover have "nil_parent (th_nodes H1) (bt_nil t) (bt_root t) (GoLeft p s1 # GoLeft b s2 # d) tr"
      by (rule nil_parent_keep [OF s H1(2,4) _ np [unfolded sib]]) simp
    ultimately have ok1: "del_ok t H0 L (GoLeft p s1 # GoLeft b s2 # d) tr H1"
      using H1(2) keep rb(1) rb_kids_rb R unfolding del_ok_def H1(3) by metis
    have "\<not> red_root ?R s1" "bh ?R s1 \<noteq> 0" using rb(2) sib True by auto
    then obtain u1 e u2 where s1: "s1 = Node u1 e u2" "\<not> ?R1 e" using keep(4) by (cases s1) auto
    have run: "delete_fix_left env t ?node H = delete_black_left env t ?node e H1"
      using np' rp rb_b True H1(1) s1(1) by (simp add: delete_fix_left_def)
    have "(\<exists>H'. delete_black_left env t ?node e H1 = Some (True, ?node, H') \<and> del_done t H0 L ?node H') \<or>
      (\<exists>H'. delete_black_left env t ?node e H1 = Some (False, p, H') \<and>
        del_ok t H0 L (GoLeft b s2 # d) (Node tr p (Node u1 e u2)) H' \<and> (redn (th_nodes H1) p \<longrightarrow> redn (th_nodes H') p))"
      by (rule delete_black_left_ok [OF ok1 [unfolded s1(1)]]) (use H1(3) keep R s1(2) in simp_all)
    moreover have "redn (th_nodes H1) p" using H1(3) by simp
    ultimately show ?thesis unfolding run by (metis addr.simps(2) red_root.simps(2))
  qed
qed

lemma delete_black_right_ok:
  assumes st: "del_ok t H0 L (GoRight (Node s2 b s1) p # d) tr H" and R: "\<not> red_root (redn (th_nodes H)) tr" "\<not> redn (th_nodes H) b"
  shows "(\<exists>H'. delete_black_right env t (addr (bt_nil t) tr) b H = Some (True, addr (bt_nil t) tr, H') \<and>
      del_done t H0 L (addr (bt_nil t) tr) H') \<or>
    (\<exists>H'. delete_black_right env t (addr (bt_nil t) tr) b H = Some (False, p, H') \<and>
      del_ok t H0 L d (Node (Node s2 b s1) p tr) H' \<and> (redn (th_nodes H) p \<longrightarrow> redn (th_nodes H') p))"
proof -
  let ?node = "addr (bt_nil t) tr" and ?R = "redn (th_nodes H)"
  have s: "del_state t H0 L (GoRight (Node s2 b s1) p # d) tr H" and rb: "rb ?R tr" "rb_ctx ?R (bh ?R tr + 1) (GoRight (Node s2 b s1) p # d)"
    and np: "nil_parent (th_nodes H) (bt_nil t) (bt_root t) (GoRight (Node s2 b s1) p # d) tr"
    using st R(1) rb_kids_rb by (auto simp: del_ok_def)
  have nil: "par (th_nodes H) (bt_nil t) = Some p" if "tr = Leaf" using nil_parent_leaf [OF np that] by simp
  have sub: "b \<in> set L" "p \<in> set L" "set_tree s1 \<subseteq> set L" "set_tree s2 \<subseteq> set L" using fix_state_sub [OF s] by auto
  have dom: "x \<in> dom (th_nodes H)" if "x \<in> set L" for x using fix_state_dom [OF s] that by blast
  have ds: "distinct (before (GoRight (Node s2 b s1) p # d) @ inorder tr @ after (GoRight (Node s2 b s1) p # d))" using fix_state_sub [OF s] by blast
  have bl: "rgt (th_nodes H) b = Some (addr (bt_nil t) s1)" "lft (th_nodes H) b = Some (addr (bt_nil t) s2)"
    using s by (auto simp: fix_state_def tree_at_def linked_iff)
  have bc: "black_children (th_nodes H) b = Some (\<not> red_root ?R s1 \<and> \<not> red_root ?R s2)"
    using black_children_ok [OF s _ _ sub(4,3)] bl by auto
  have np': "par (th_nodes H) ?node = Some p" using node_par [OF s] nil by simp
  show ?thesis
  proof (cases "red_root ?R s1 \<or> red_root ?R s2")
    case False
    let ?H = "H\<lparr>th_nodes := paint b True (th_nodes H)\<rparr>"
    have run: "delete_black_right env t ?node b H = Some (False, p, ?H)"
      using bc False np' by (simp add: delete_black_right_def put_red_run dom sub)
    have s': "del_state t H0 L (GoRight (Node s2 b s1) p # d) tr ?H" using plain.fix_paint [OF s sub(1)] .
    then have "del_state t H0 L d (Node (Node s2 b s1) p tr) ?H" by (simp add: fix_state_up)
    moreover have R': "redn (th_nodes ?H) = ?R(b := True)" by (simp add: redn_paint dom sub)
    have "rb_kids (?R(b := True)) (Node (Node s2 b s1) p tr)" using rb ds R False by auto
    moreover have "rb_ctx (?R(b := True)) (bh (?R(b := True)) (Node (Node s2 b s1) p tr) + 1) d" using rb ds R False by auto
    moreover have "nil_parent (th_nodes ?H) (bt_nil t) (bt_root t) (GoRight (Node s2 b s1) p # d) tr"
      by (rule nil_parent_keep [OF s s' _ _ np]) simp_all
    then have "nil_parent (th_nodes ?H) (bt_nil t) (bt_root t) d (Node (Node s2 b s1) p tr)" using nil_parent_up' [OF s'] by blast
    ultimately have "del_ok t H0 L d (Node (Node s2 b s1) p tr) ?H" unfolding del_ok_def R' by blast
    then show ?thesis using run R' by auto
  next
    case True
    show ?thesis
    proof (cases "red_root ?R s2")
      case far: True
      then obtain H' where H': "delete_turn_right env t ?node b H = Some H'" "del_done t H0 L ?node H'"
        using delete_turn_right_ok [OF s nil _ R(1) rb R(2), of env] by blast
      have "isred (th_nodes H) (addr (bt_nil t) s2) = Some True" using fix_state_addr [OF s sub(4)] far by simp
      then have "delete_black_right env t ?node b H = Some (True, ?node, H')"
        using bc far bl H'(1) by (simp add: delete_black_right_def)
      then show ?thesis using H'(2) by blast
    next
      case near: False
      then obtain y1 a y2 where s1: "s1 = Node y2 a y1" "?R a" using True by (cases s1) auto
      obtain H1 where H1: "delete_near_right env t ?node b H = Some (a, H1)"
          "del_state t H0 L (GoRight (Node (Node s2 b y2) a y1) p # d) tr H1" "redn (th_nodes H1) = ?R(a := False, b := True)"
          "par (th_nodes H1) (bt_nil t) = par (th_nodes H) (bt_nil t)"
        using delete_near_right_ok [OF s [unfolded s1(1)] nil, of env] by blast
      let ?R1 = "?R(a := False, b := True)"
      have keep: "rb ?R1 tr = rb ?R tr" "bh ?R1 tr = bh ?R tr" "red_root ?R1 tr = red_root ?R tr" using ds s1(1) by auto
      have rb1: "rb_ctx ?R1 (bh ?R1 tr + 1) (GoRight (Node (Node s2 b y2) a y1) p # d)" using keep rb ds s1 R near by auto
      obtain H' where H': "delete_turn_right env t ?node a H1 = Some H'" "del_done t H0 L ?node H'"
        using delete_turn_right_ok [OF H1(2), of env] nil H1(3,4) keep rb(1) R(1) rb1 ds s1(1) by auto
      have "isred (th_nodes H) (addr (bt_nil t) s2) = Some False" using fix_state_addr [OF s sub(4)] near by simp
      then have "delete_black_right env t ?node b H = Some (True, ?node, H')"
        using bc True near bl H1(1) H'(1) by (simp add: delete_black_right_def)
      then show ?thesis using H'(2) by blast
    qed
  qed
qed

lemma delete_fix_right_ok:
  assumes st: "del_ok t H0 L (GoRight s p # d) tr H" and R: "\<not> red_root (redn (th_nodes H)) tr"
  shows "(\<exists>H'. delete_fix_right env t (addr (bt_nil t) tr) H = Some (True, addr (bt_nil t) tr, H') \<and>
      del_done t H0 L (addr (bt_nil t) tr) H') \<or>
    (\<exists>H' c' tr'. delete_fix_right env t (addr (bt_nil t) tr) H = Some (False, addr (bt_nil t) tr', H') \<and>
      del_ok t H0 L c' tr' H' \<and> (red_root (redn (th_nodes H')) tr' \<or> length c' \<le> length d))"
proof -
  let ?node = "addr (bt_nil t) tr" and ?R = "redn (th_nodes H)"
  have s0: "del_state t H0 L (GoRight s p # d) tr H" and rb: "rb ?R tr" "rb_ctx ?R (bh ?R tr + 1) (GoRight s p # d)"
    and np: "nil_parent (th_nodes H) (bt_nil t) (bt_root t) (GoRight s p # d) tr"
    using st R(1) rb_kids_rb by (auto simp: del_ok_def)
  obtain s1 b s2 where sib: "s = Node s2 b s1" using rb(2) by (cases s) auto
  note s = s0 [unfolded sib]
  have nil: "par (th_nodes H) (bt_nil t) = Some p" if "tr = Leaf" using nil_parent_leaf [OF np that] by simp
  have sub: "b \<in> set L" using fix_state_sub [OF s] by auto
  have ds: "distinct (before (GoRight (Node s2 b s1) p # d) @ inorder tr @ after (GoRight (Node s2 b s1) p # d))" using fix_state_sub [OF s] by blast
  have np': "par (th_nodes H) ?node = Some p" using node_par [OF s] nil by simp
  have rp: "lft (th_nodes H) p = Some b" using s by (simp add: fix_state_def tree_at_def linked_iff)
  have rb_b: "isred (th_nodes H) b = Some (?R b)" using fix_state_isred [OF s] sub by simp
  show ?thesis
  proof (cases "?R b")
    case False
    then have "delete_fix_right env t ?node H = delete_black_right env t ?node b H"
      using np' rp rb_b by (simp add: delete_fix_right_def)
    then show ?thesis using delete_black_right_ok [OF st [unfolded sib] R False, of env]
      by (metis addr.simps(2) le_refl)
  next
    case True
    obtain H1 where H1: "delete_lift_right env t ?node b H = Some (addr (bt_nil t) s1, H1)"
        "del_state t H0 L (GoRight s1 p # GoRight s2 b # d) tr H1" "redn (th_nodes H1) = ?R(b := False, p := True)"
        "par (th_nodes H1) (bt_nil t) = par (th_nodes H) (bt_nil t)"
      using delete_lift_right_ok [OF s nil, of env] by blast
    let ?R1 = "?R(b := False, p := True)"
    have keep: "rb ?R1 tr = rb ?R tr" "bh ?R1 tr = bh ?R tr" "red_root ?R1 tr = red_root ?R tr"
        "red_root ?R1 s1 = red_root ?R s1"
      using ds by auto
    have "rb_ctx ?R1 (bh ?R1 tr + 1) (GoRight s1 p # GoRight s2 b # d)" using keep rb ds sib True by auto
    moreover have "nil_parent (th_nodes H1) (bt_nil t) (bt_root t) (GoRight s1 p # GoRight s2 b # d) tr"
      by (rule nil_parent_keep [OF s H1(2,4) _ np [unfolded sib]]) simp
    ultimately have ok1: "del_ok t H0 L (GoRight s1 p # GoRight s2 b # d) tr H1"
      using H1(2) keep rb(1) rb_kids_rb R unfolding del_ok_def H1(3) by metis
    have "\<not> red_root ?R s1" "bh ?R s1 \<noteq> 0" using rb(2) sib True by auto
    then obtain u1 e u2 where s1: "s1 = Node u2 e u1" "\<not> ?R1 e" using keep(4) by (cases s1) auto
    have run: "delete_fix_right env t ?node H = delete_black_right env t ?node e H1"
      using np' rp rb_b True H1(1) s1(1) by (simp add: delete_fix_right_def)
    have "(\<exists>H'. delete_black_right env t ?node e H1 = Some (True, ?node, H') \<and> del_done t H0 L ?node H') \<or>
      (\<exists>H'. delete_black_right env t ?node e H1 = Some (False, p, H') \<and>
        del_ok t H0 L (GoRight s2 b # d) (Node (Node u2 e u1) p tr) H' \<and> (redn (th_nodes H1) p \<longrightarrow> redn (th_nodes H') p))"
      by (rule delete_black_right_ok [OF ok1 [unfolded s1(1)]]) (use H1(3) keep R s1(2) in simp_all)
    moreover have "redn (th_nodes H1) p" using H1(3) by simp
    ultimately show ?thesis unfolding run by (metis addr.simps(2) red_root.simps(2))
  qed
qed

subsection \<open>At the root\<close>

lemma put_same:
  "lft ns p = Some v \<Longrightarrow> put_left p v ns = Some ns"
  "rgt ns p = Some v \<Longrightarrow> put_right p v ns = Some ns"
  by (auto simp: tree_access tree_update fun_eq_iff)

text \<open>
  Two heaps that differ in the parent, the colour and the auxiliary field of \<open>nil\<close> only, in
  states where the links of \<open>nil\<close> lead back to it.
\<close>

definition nil_only :: "nat \<Rightarrow> ('k, 'a) theap \<Rightarrow> ('k, 'a) theap \<Rightarrow> bool" where
  "nil_only nil H H' \<longleftrightarrow> reshapes {nil} H H' \<and> lft (th_nodes H') nil = lft (th_nodes H) nil \<and>
     rgt (th_nodes H') nil = rgt (th_nodes H) nil"

definition nil_loop :: "nat \<Rightarrow> nat \<Rightarrow> bool \<Rightarrow> ('k, 'a) theap \<Rightarrow> bool" where
  "nil_loop nil rt b H \<longleftrightarrow> lft (th_nodes H) nil = Some nil \<and> rgt (th_nodes H) nil = Some nil \<and>
     isred (th_nodes H) nil = Some b \<and> par (th_nodes H) rt = Some nil \<and> nil \<noteq> rt \<and> data_ok H {nil} \<and>
     (\<exists>q. par (th_nodes H) nil = Some q \<and> (lft (th_nodes H) q = Some nil \<or> rgt (th_nodes H) q = Some nil))"

lemma nil_only_trans: "nil_only nil H H' \<Longrightarrow> nil_only nil H' H'' \<Longrightarrow> nil_only nil H H''"
  unfolding nil_only_def using reshapes_trans by fastforce

lemma nil_loop_paint:
  assumes "nil_loop nil rt b H"
  shows "on_nodes (put_red nil b') H = Some (H\<lparr>th_nodes := paint nil b' (th_nodes H)\<rparr>)"
    "nil_loop nil rt b' (H\<lparr>th_nodes := paint nil b' (th_nodes H)\<rparr>)"
    "nil_only nil H (H\<lparr>th_nodes := paint nil b' (th_nodes H)\<rparr>)"
proof -
  have d: "nil \<in> dom (th_nodes H)" using assms data_ok_in_dom by (auto simp: nil_loop_def)
  show "on_nodes (put_red nil b') H = Some (H\<lparr>th_nodes := paint nil b' (th_nodes H)\<rparr>)" using put_red_run [OF d] .
  show "nil_loop nil rt b' (H\<lparr>th_nodes := paint nil b' (th_nodes H)\<rparr>)" using assms d by (simp add: nil_loop_def isred_paint)
  show "nil_only nil H (H\<lparr>th_nodes := paint nil b' (th_nodes H)\<rparr>)" by (simp add: nil_only_def reshapes_paint)
qed

lemma rotate_nil:
  assumes "nil_loop (bt_nil t) rt b H"
  shows "\<exists>H'. bstree_node_rotate_right env t (bt_nil t) H = Some H' \<and> nil_loop (bt_nil t) rt b H' \<and>
    nil_only (bt_nil t) H H'"
proof -
  let ?nil = "bt_nil t" and ?ns = "th_nodes H"
  obtain q where q: "par ?ns ?nil = Some q" "lft ?ns q = Some ?nil \<or> rgt ?ns q = Some ?nil"
    and n: "lft ?ns ?nil = Some ?nil" "rgt ?ns ?nil = Some ?nil" "isred ?ns ?nil = Some b" "par ?ns rt = Some ?nil" "?nil \<noteq> rt"
      "data_ok H {?nil}"
    using assms by (auto simp: nil_loop_def)
  obtain nd where nd: "?ns ?nil = Some nd" using n(1) by (auto simp: lft_def)
  have pq: "put_parent ?nil q ?ns = Some ?ns" using q(1) by (auto simp: tree_access tree_update fun_eq_iff)
  obtain ql where ql: "lft ?ns q = Some ql" using q(2) by (cases "?ns q") (auto simp: tree_access)
  have same: "(if ?nil = ql then put_left q ?nil ?ns else put_right q ?nil ?ns) = Some ?ns"
    using ql q(2) put_same [of ?ns q ?nil] by (auto split: if_splits)
  let ?H = "H\<lparr>th_nodes := ?ns(?nil \<mapsto> nd\<lparr>tn_parent := ?nil\<rparr>)\<rparr>"
  have "rotate_links_right ?nil ?nil ?ns = Some (?nil, ?ns(?nil \<mapsto> nd\<lparr>tn_parent := ?nil\<rparr>))"
    using n(1,2) q(1) pq ql same put_same [of ?ns ?nil ?nil] nd
    by (simp add: rotate_links_right_def) (simp add: put_parent_def node_upd_def)
  then have run: "bstree_node_rotate_right env t ?nil H = rotate_aux env t ?nil ?nil ?H"
    by (simp add: bstree_node_rotate_right_def)
  have co: "core (th_nodes ?H) = core ?ns" using nd by (auto simp: core_def fun_eq_iff)
  then have re: "reshapes {?nil} H ?H" by (simp add: reshapes_def)
  have acc: "lft (th_nodes ?H) ?nil = Some ?nil" "rgt (th_nodes ?H) ?nil = Some ?nil"
      "par (th_nodes ?H) ?nil = Some ?nil" "isred (th_nodes ?H) ?nil = Some b" "par (th_nodes ?H) rt = Some ?nil"
    using n nd by (auto simp: tree_access)
  have "\<exists>H'. rotate_aux env t ?nil ?nil ?H = Some H' \<and> aux_only {?nil, ?nil} ?H H'"
    by (rule rotate_aux_ok [where A = "{?nil}"]) (use acc n(6) data_ok_reshapes [OF re] in auto)
  then obtain H' where H': "rotate_aux env t ?nil ?nil ?H = Some H'" "aux_only {?nil} ?H H'" by auto
  note a = aux_only_access [OF H'(2)]
  have "nil_loop ?nil rt b H'" using acc n(5,6) data_ok_aux [OF H'(2)] data_ok_reshapes [OF re]
    by (simp add: nil_loop_def a)
  moreover have "nil_only ?nil H H'" using reshapes_trans [OF re aux_only_reshapes [OF H'(2)]] acc n(1,2)
    by (simp add: nil_only_def a)
  ultimately show ?thesis using run H'(1) by auto
qed

lemma root_round1:
  assumes "del_ok t H0 L [] T H" and "\<not> red_root (redn (th_nodes H)) T"
  shows "\<exists>H'. delete_step env t (False, addr (bt_nil t) T, H) = Some (False, bt_root t, H') \<and>
    nil_loop (bt_nil t) (bt_root t) True H' \<and> nil_only (bt_nil t) H H'"
proof -
  let ?nil = "bt_nil t" and ?rt = "bt_root t" and ?ns = "th_nodes H"
  have s: "del_state t H0 L [] T H" and np: "nil_parent ?ns ?nil ?rt [] T" using assms by (auto simp: del_ok_def)
  have l: "lft ?ns ?rt = Some (addr ?nil T)" "rgt ?ns ?rt = Some ?nil" "par ?ns ?rt = Some ?nil"
      "lft ?ns ?nil = Some ?nil" "rgt ?ns ?nil = Some ?nil" "isred ?ns ?nil = Some False" "?nil \<noteq> ?rt" "data_ok H {?nil}"
    using s by (auto simp: fix_state_def tree_at_def linked_iff data_ok_def)
  have p: "par ?ns (addr ?nil T) = Some ?rt" using node_par [OF s] nil_parent_leaf [OF np] by simp
  have "\<exists>q. par ?ns ?nil = Some q \<and> (lft ?ns q = Some ?nil \<or> rgt ?ns q = Some ?nil)"
    using np l by (cases "T = Leaf") (auto simp: nil_parent_def)
  then have "nil_loop ?nil ?rt False H" using l by (simp add: nil_loop_def)
  note n = nil_loop_paint [OF this, of True]
  have "black_children ?ns ?nil = Some True" using l by (simp add: black_children_def)
  then have "delete_step env t (False, addr ?nil T, H) = Some (False, ?rt, H\<lparr>th_nodes := paint ?nil True ?ns\<rparr>)"
    using l p n(1) by (simp add: delete_step_def delete_fix_left_def delete_black_left_def)
  then show ?thesis using n(2,3) by blast
qed

lemma root_round2:
  assumes "nil_loop (bt_nil t) (bt_root t) True H"
  shows "\<exists>H'. delete_step env t (False, bt_root t, H) = Some (True, bt_root t, H') \<and>
    nil_loop (bt_nil t) (bt_root t) False H' \<and> nil_only (bt_nil t) H H'"
proof -
  let ?nil = "bt_nil t" and ?rt = "bt_root t"
  let ?p = "\<lambda>b H. H\<lparr>th_nodes := paint ?nil b (th_nodes H)\<rparr>"
  note p1 = nil_loop_paint [OF assms, of False]
  note p2 = nil_loop_paint [OF p1(2), of True]
  obtain Ha where Ha: "bstree_node_rotate_right env t ?nil (?p True (?p False H)) = Some Ha"
      "nil_loop ?nil ?rt True Ha" "nil_only ?nil (?p True (?p False H)) Ha"
    using rotate_nil [OF p2(2)] by blast
  note q1 = nil_loop_paint [OF Ha(2), of True]
  note q2 = nil_loop_paint [OF q1(2), of False]
  note q3 = nil_loop_paint [OF q2(2), of False]
  obtain Hb where Hb: "bstree_node_rotate_right env t ?nil (?p False (?p False (?p True Ha))) = Some Hb"
      "nil_loop ?nil ?rt False Hb" "nil_only ?nil (?p False (?p False (?p True Ha))) Hb"
    using rotate_nil [OF q3(2)] by blast
  have l: "par (th_nodes H) ?rt = Some ?nil" "lft (th_nodes H) ?nil = Some ?nil" "isred (th_nodes H) ?nil = Some True" "?nil \<noteq> ?rt"
    and la: "par (th_nodes Ha) ?rt = Some ?nil" "lft (th_nodes Ha) ?nil = Some ?nil" "rgt (th_nodes Ha) ?nil = Some ?nil"
      "isred (th_nodes Ha) ?nil = Some True"
    using assms Ha(2) by (auto simp: nil_loop_def)
  have lift: "delete_lift_right env t ?rt ?nil H = Some (?nil, Ha)"
    using p1(1) p2(1) Ha(1) l la by (simp add: delete_lift_right_def)
  have turn: "delete_turn_right env t ?rt ?nil Ha = Some Hb"
    using q1(1) q2(1) q3(1) Hb(1) la by (simp add: delete_turn_right_def)
  have bc: "black_children (th_nodes Ha) ?nil = Some False" using la by (simp add: black_children_def)
  have "delete_step env t (False, ?rt, H) = Some (True, ?rt, Hb)"
    using l lift turn la bc by (simp add: delete_step_def delete_fix_right_def delete_black_right_def)
  moreover have "nil_only ?nil H Hb"
    by (rule nil_only_trans [OF p1(3) nil_only_trans [OF p2(3) nil_only_trans [OF Ha(3)
      nil_only_trans [OF q1(3) nil_only_trans [OF q2(3) nil_only_trans [OF q3(3) Hb(3)]]]]]])
  ultimately show ?thesis using Hb(2) by blast
qed

lemma nil_only_state:
  assumes s: "del_state t H0 L c T H" and n: "nil_only (bt_nil t) H H'" and b: "isred (th_nodes H') (bt_nil t) = Some False"
  shows "del_state t H0 L c T H'" "redn (th_nodes H') = redn (th_nodes H)"
proof -
  have r: "reshapes {bt_nil t} H H'" using n by (simp add: nil_only_def)
  then have out: "th_nodes H' a = th_nodes H a" if "a \<noteq> bt_nil t" for a using that by (simp add: reshapes_def)
  have sl: "isred (th_nodes H) (bt_nil t) = Some False" using s by (simp add: fix_state_def)
  have "isred (th_nodes H') a = isred (th_nodes H) a" for a
    using out b sl by (cases "a = bt_nil t") (auto simp: isred_def)
  then have ir: "isred (th_nodes H') = isred (th_nodes H)" by (simp add: fun_eq_iff)
  show "redn (th_nodes H') = redn (th_nodes H)" using ir by (simp add: redn_def fun_eq_iff)
  have ta: "tree_at (th_nodes H) (bt_nil t) (bt_root t) c T" using s by (simp add: fix_state_def)
  have out': "th_nodes H' a = th_nodes H a" if "a \<in> insert (bt_root t) (set (before c @ after c) \<union> set_tree T)" for a
    by (rule out) (use that ta in \<open>auto simp: tree_at_def\<close>)
  have "tree_at (th_nodes H') (bt_nil t) (bt_root t) c T"
    unfolding tree_at_def
  proof (intro conjI)
    show "pctx (th_nodes H') (bt_nil t) (bt_root t) (addr (bt_nil t) T) c"
      by (rule pctx_frame [of "th_nodes H"]) (use ta out' in \<open>auto simp: tree_at_def\<close>)
    show "ptree (th_nodes H') (bt_nil t) (up (bt_root t) c) T"
      by (rule ptree_frame [of "th_nodes H"]) (use ta out' in \<open>auto simp: tree_at_def\<close>)
  qed (use ta in \<open>auto simp: tree_at_def\<close>)
  moreover have "reshapes (insert (bt_nil t) (insert (bt_root t) (set L))) H H'"
    by (rule reshapes_mono [OF r]) simp
  moreover have "reshapes (insert (bt_nil t) (insert (bt_root t) (set L))) H0 H" using s by (simp add: fix_state_def)
  ultimately show "del_state t H0 L c T H'"
    using s n ir data_ok_reshapes [OF r] reshapes_trans [of _ H0 H H'] by (simp add: fix_state_def nil_only_def)
qed

subsection \<open>The loop\<close>

text \<open>
  The phases of the loop with a bound on the rounds left: working at a position, on its way
  through the sentinels, or broken off.
\<close>

definition del_phase ::
  "'k bstree \<Rightarrow> ('k, 'a) theap \<Rightarrow> nat list \<Rightarrow> nat \<Rightarrow> bool \<times> nat \<times> ('k, 'a) theap \<Rightarrow> bool" where
  "del_phase t H0 L k s \<longleftrightarrow>
     (\<not> fst s \<and> (\<exists>c tr. fst (snd s) = addr (bt_nil t) tr \<and> del_ok t H0 L c tr (snd (snd s)) \<and>
        k = (if red_root (redn (th_nodes (snd (snd s)))) tr then 0 else length c + 2))) \<or>
     (\<not> fst s \<and> k = 1 \<and> fst (snd s) = bt_root t \<and> nil_loop (bt_nil t) (bt_root t) True (snd (snd s)) \<and>
        (\<exists>T H. del_ok t H0 L [] T H \<and> \<not> red_root (redn (th_nodes H)) T \<and> nil_only (bt_nil t) H (snd (snd s)))) \<or>
     (fst s \<and> k = 0 \<and> del_done t H0 L (fst (snd s)) (snd (snd s)))"

lemma del_ok_isred:
  assumes "del_ok t H0 L c tr H"
  shows "isred (th_nodes H) (addr (bt_nil t) tr) = Some (red_root (redn (th_nodes H)) tr)"
proof -
  have s: "del_state t H0 L c tr H" using assms by (simp add: del_ok_def)
  then show ?thesis using fix_state_addr [OF s] fix_state_sub [OF s] by blast
qed

lemma del_work_round:
  assumes ok: "del_ok t H0 L c tr H" and R: "\<not> red_root (redn (th_nodes H)) tr"
  shows "\<exists>s' k'. delete_step env t (False, addr (bt_nil t) tr, H) = Some s' \<and> del_phase t H0 L k' s' \<and> k' < length c + 2"
proof -
  let ?node = "addr (bt_nil t) tr"
  have s: "del_state t H0 L c tr H" and np: "nil_parent (th_nodes H) (bt_nil t) (bt_root t) c tr"
    and rb: "rb_ctx (redn (th_nodes H)) (bh (redn (th_nodes H)) tr + 1) c"
    using ok R by (auto simp: del_ok_def)
  have par: "par (th_nodes H) ?node = Some (up (bt_root t) c)" using node_par [OF s] nil_parent_leaf [OF np] by simp
  show ?thesis
  proof (cases c)
    case Nil
    then obtain H' where H': "delete_step env t (False, ?node, H) = Some (False, bt_root t, H')"
        "nil_loop (bt_nil t) (bt_root t) True H'" "nil_only (bt_nil t) H H'"
      using root_round1 [OF ok [unfolded Nil] R] by blast
    then have "del_phase t H0 L 1 (False, bt_root t, H')" using ok R Nil by (auto simp: del_phase_def)
    then show ?thesis using H'(1) Nil by (intro exI conjI) auto
  next
    case (Cons x d)
    have phase: "\<exists>s' k'. delete_step env t (False, ?node, H) = Some s' \<and> del_phase t H0 L k' s' \<and> k' < length c + 2"
      if "(\<exists>H'. delete_step env t (False, ?node, H) = Some (True, ?node, H') \<and> del_done t H0 L ?node H') \<or>
        (\<exists>H' c' tr'. delete_step env t (False, ?node, H) = Some (False, addr (bt_nil t) tr', H') \<and>
          del_ok t H0 L c' tr' H' \<and> (red_root (redn (th_nodes H')) tr' \<or> length c' \<le> length d))"
      using that
    proof (elim disjE exE conjE)
      fix H' assume "delete_step env t (False, ?node, H) = Some (True, ?node, H')" "del_done t H0 L ?node H'"
      then show ?thesis
        by (rule_tac exI [of _ "(True, ?node, H')"], rule_tac exI [of _ 0]) (simp add: del_phase_def)
    next
      fix H' c' tr' assume a: "delete_step env t (False, ?node, H) = Some (False, addr (bt_nil t) tr', H')"
        "del_ok t H0 L c' tr' H'" "red_root (redn (th_nodes H')) tr' "
      then have "del_phase t H0 L 0 (False, addr (bt_nil t) tr', H')" by (auto simp: del_phase_def)
      then show ?thesis using a(1)
        by (rule_tac exI [of _ "(False, addr (bt_nil t) tr', H')"], rule_tac exI [of _ 0]) simp
    next
      fix H' c' tr' assume a: "delete_step env t (False, ?node, H) = Some (False, addr (bt_nil t) tr', H')"
        "del_ok t H0 L c' tr' H'" "length c' \<le> length d"
      let ?k = "if red_root (redn (th_nodes H')) tr' then 0 else length c' + 2"
      have "del_phase t H0 L ?k (False, addr (bt_nil t) tr', H')" using a(2) by (auto simp: del_phase_def)
      then show ?thesis using a(1,3) Cons
        by (rule_tac exI [of _ "(False, addr (bt_nil t) tr', H')"], rule_tac exI [of _ ?k]) simp
    qed
    show ?thesis
    proof (cases x)
      case (GoLeft p y)
      have "lft (th_nodes H) p = Some ?node" using s Cons GoLeft by (simp add: fix_state_def tree_at_def linked_iff)
      then have "delete_step env t (False, ?node, H) = delete_fix_left env t ?node H"
        using par Cons GoLeft by (simp add: delete_step_def)
      then show ?thesis using delete_fix_left_ok [OF ok [unfolded Cons GoLeft] R, of env] phase by simp
    next
      case (GoRight y p)
      have l: "lft (th_nodes H) p = Some (addr (bt_nil t) y)" using s Cons GoRight by (simp add: fix_state_def tree_at_def linked_iff)
      obtain yl b yr where y: "y = Node yl b yr" using rb Cons GoRight by (cases y) auto
      have "b \<in> set L" "b \<notin> set_tree tr" using fix_state_sub [OF s] Cons GoRight y by auto
      then have "?node \<noteq> addr (bt_nil t) y" using fix_state_mem [OF s] y by (cases tr) auto
      then have "delete_step env t (False, ?node, H) = delete_fix_right env t ?node H"
        using par l Cons GoRight by (simp add: delete_step_def)
      then show ?thesis using delete_fix_right_ok [OF ok [unfolded Cons GoRight] R, of env] phase by simp
    qed
  qed
qed

lemma del_phase_round:
  assumes "del_phase t H0 L k s"
  shows "delete_cond s = Some False \<or> delete_cond s = Some True \<and>
    (\<exists>k' s'. delete_step env t s = Some s' \<and> del_phase t H0 L k' s' \<and> k' < k)"
proof -
  obtain brk node H where s: "s = (brk, node, H)" by (cases s) auto
  consider c tr where "\<not> brk" "node = addr (bt_nil t) tr" "del_ok t H0 L c tr H"
      "k = (if red_root (redn (th_nodes H)) tr then 0 else length c + 2)"
    | T H1 where "\<not> brk" "k = 1" "node = bt_root t" "nil_loop (bt_nil t) (bt_root t) True H"
      "del_ok t H0 L [] T H1" "\<not> red_root (redn (th_nodes H1)) T" "nil_only (bt_nil t) H1 H"
    | "brk"
    using assms unfolding del_phase_def s by auto
  then show ?thesis
  proof cases
    case 1
    have "delete_cond s = Some (\<not> red_root (redn (th_nodes H)) tr)" using del_ok_isred [OF 1(3)] 1 s by (simp add: delete_cond_def)
    then show ?thesis using del_work_round [OF 1(3), of env] 1 s by (cases "red_root (redn (th_nodes H)) tr") auto
  next
    case 2
    obtain H' where H': "delete_step env t (False, bt_root t, H) = Some (True, bt_root t, H')"
        "nil_loop (bt_nil t) (bt_root t) False H'" "nil_only (bt_nil t) H H'"
      using root_round2 [OF 2(4)] by blast
    have s1: "del_state t H0 L [] T H1" and rb: "rb (redn (th_nodes H1)) T" using 2(5,6) rb_kids_rb by (auto simp: del_ok_def)
    have n: "nil_only (bt_nil t) H1 H'" using nil_only_trans [OF 2(7) H'(3)] .
    have b: "isred (th_nodes H') (bt_nil t) = Some False" using H'(2) by (simp add: nil_loop_def)
    have st: "del_state t H0 L [] T H'" "redn (th_nodes H') = redn (th_nodes H1)" using nil_only_state [OF s1 n b] by auto
    have rt: "isred (th_nodes H') (bt_root t) = Some False" using st(1) by (simp add: fix_state_def)
    have "del_done t H0 L (bt_root t) H'" unfolding del_done_def using st rb 2(6) rt by metis
    then have "del_phase t H0 L 0 (True, bt_root t, H')" by (simp add: del_phase_def)
    moreover have "isred (th_nodes H1) (bt_root t) = Some False" "bt_nil t \<noteq> bt_root t"
      using s1 by (auto simp: fix_state_def tree_at_def)
    then have "isred (th_nodes H) (bt_root t) = Some False"
      using 2(7) by (auto simp: nil_only_def reshapes_def isred_def)
    ultimately show ?thesis using H'(1) 2 s by (auto simp: delete_cond_def)
  next
    case 3
    then show ?thesis using s by (simp add: delete_cond_def)
  qed
qed

lemma paint_same: "isred ns a = Some b \<Longrightarrow> paint a b ns = ns"
  by (auto simp: paint_def isred_def fun_eq_iff)

lemma rbtree_delete_fixup_ok:
  assumes "del_ok t H0 L c tr H"
  shows "\<exists>H' T. rbtree_delete_fixup env t (addr (bt_nil t) tr) H = Some H' \<and> del_state t H0 L [] T H' \<and>
    rb (redn (th_nodes H')) T \<and> \<not> red_root (redn (th_nodes H')) T"
proof -
  let ?k = "if red_root (redn (th_nodes H)) tr then 0 else length c + 2"
  have "\<exists>k s. while_loop delete_cond (delete_step env t) (False, addr (bt_nil t) tr, H) = Some s \<and>
      del_phase t H0 L k s \<and> delete_cond s = Some False"
  proof (rule while_loop_ghost [where P = "del_phase t H0 L" and m = id])
    show "del_phase t H0 L ?k (False, addr (bt_nil t) tr, H)" using assms by (auto simp: del_phase_def)
  next
    fix k s assume "del_phase t H0 L k s"
    then show "delete_cond s = Some False \<or> delete_cond s = Some True \<and>
        (\<exists>k' s'. delete_step env t s = Some s' \<and> del_phase t H0 L k' s' \<and> id k' < id k)"
      using del_phase_round [of t H0 L k s env] by simp
  qed
  then obtain k brk node H1 where r: "while_loop delete_cond (delete_step env t) (False, addr (bt_nil t) tr, H) = Some (brk, node, H1)"
      "del_phase t H0 L k (brk, node, H1)" "delete_cond (brk, node, H1) = Some False"
    by auto
  have run: "rbtree_delete_fixup env t (addr (bt_nil t) tr) H = on_nodes (put_red node False) H1"
    using r(1) by (simp add: rbtree_delete_fixup_def)
  consider c' tr' where "node = addr (bt_nil t) tr'" "del_ok t H0 L c' tr' H1" "\<not> brk"
    | "nil_loop (bt_nil t) (bt_root t) True H1" "node = bt_root t" "\<not> brk"
        "\<exists>T H. del_ok t H0 L [] T H \<and> nil_only (bt_nil t) H H1"
    | "del_done t H0 L node H1"
    using r(2) unfolding del_phase_def by auto
  then show ?thesis
  proof cases
    case 1
    then obtain l a r where tr': "tr' = Node l a r" "redn (th_nodes H1) a"
      using r(3) del_ok_isred [OF 1(2)] by (cases tr') (auto simp: delete_cond_def)
    let ?H = "H1\<lparr>th_nodes := paint a False (th_nodes H1)\<rparr>" and ?R = "(redn (th_nodes H1))(a := False)"
    have s: "del_state t H0 L c' (Node l a r) H1" and rb: "rb_kids (redn (th_nodes H1)) (Node l a r)"
        "rb_ctx (redn (th_nodes H1)) (bh (redn (th_nodes H1)) (Node l a r) + 1) c'"
      using 1(2) tr' by (auto simp: del_ok_def)
    have aL: "a \<in> set L" using fix_state_sub [OF s] by auto
    then have d: "a \<in> dom (th_nodes H1)" using fix_state_dom [OF s] by blast
    have s': "del_state t H0 L c' (Node l a r) ?H" using plain.fix_paint [OF s aL] .
    have R: "redn (th_nodes ?H) = ?R" using d by (simp add: redn_paint)
    have ds: "distinct (before c' @ inorder (Node l a r) @ after c')" using fix_state_sub [OF s] by blast
    have "rb ?R (Node l a r)" "rb_ctx ?R (bh ?R (Node l a r)) c'" using rb ds tr'(2) by auto
    then have "rb ?R (plug c' (Node l a r)) \<and> (c' \<noteq> [] \<longrightarrow> \<not> red_root ?R (plug c' (Node l a r)))" by (intro rb_plug) auto
    moreover have "\<not> red_root ?R (plug c' (Node l a r))" if "c' = []" using that by simp
    moreover have "del_state t H0 L [] (plug c' (Node l a r)) ?H" using fix_state_plug [OF s'] .
    moreover have "on_nodes (put_red node False) H1 = Some ?H" using put_red_run [OF d] 1(1) tr'(1) by simp
    ultimately show ?thesis using run R by metis
  next
    case 2
    then obtain T H2 where "del_state t H0 L [] T H2" "nil_only (bt_nil t) H2 H1" by (auto simp: del_ok_def)
    then have "isred (th_nodes H1) (bt_root t) = Some False"
      by (auto simp: nil_only_def reshapes_def isred_def fix_state_def tree_at_def)
    then show ?thesis using r(3) 2 by (simp add: delete_cond_def)
  next
    case 3
    then obtain T where T: "del_state t H0 L [] T H1" "rb (redn (th_nodes H1)) T" "\<not> red_root (redn (th_nodes H1)) T"
        "isred (th_nodes H1) node = Some False" by (auto simp: del_done_def)
    have "node \<in> dom (th_nodes H1)" using T(4) by (auto simp: isred_def)
    then have "on_nodes (put_red node False) H1 = Some H1" using put_red_run [of node H1 False] paint_same [OF T(4)] by simp
    then show ?thesis using run T by auto
  qed
qed

end
