(* ===== verification/Dict_Spec.thy ===== *)
theory Dict_Spec
  imports Rcsw_Prelude
begin

text \<open>
  The contract of an ordered dictionary: what a client of \<open>bstree_insert\<close>, \<open>bstree_remove\<close> and
  \<open>bstree_data_query\<close> may rely on, stated against a list of entries with ascending keys. The
  order is the one of the comparison callback. The locale lifts the laws of one operation to
  every sequence.
\<close>

definition ascending :: "('k \<Rightarrow> 'k \<Rightarrow> int) \<Rightarrow> ('k \<times> 'v) list \<Rightarrow> bool" where
  "ascending cmp ps \<longleftrightarrow> sorted_wrt (\<lambda>p q. cmp (fst p) (fst q) < 0) ps"

definition dict_find :: "('k \<Rightarrow> 'k \<Rightarrow> int) \<Rightarrow> 'k \<Rightarrow> ('k \<times> 'v) list \<Rightarrow> 'v option" where
  "dict_find cmp k ps = map_option snd (find (\<lambda>p. cmp k (fst p) = 0) ps)"

definition dict_insert :: "('k \<Rightarrow> 'k \<Rightarrow> int) \<Rightarrow> 'k \<Rightarrow> 'v \<Rightarrow> ('k \<times> 'v) list \<Rightarrow> ('k \<times> 'v) list" where
  "dict_insert cmp k v ps = [p \<leftarrow> ps. cmp (fst p) k < 0] @ (k, v) # [p \<leftarrow> ps. cmp k (fst p) < 0]"

definition dict_delete :: "('k \<Rightarrow> 'k \<Rightarrow> int) \<Rightarrow> 'k \<Rightarrow> ('k \<times> 'v) list \<Rightarrow> ('k \<times> 'v) list" where
  "dict_delete cmp k ps = [p \<leftarrow> ps. cmp k (fst p) \<noteq> 0]"

text \<open>The list around a key, as a search finds it.\<close>

definition around :: "('k \<Rightarrow> 'k \<Rightarrow> int) \<Rightarrow> 'k \<Rightarrow> ('k \<times> 'v) list \<Rightarrow> ('k \<times> 'v) list \<Rightarrow> bool" where
  "around cmp k ps qs \<longleftrightarrow> (\<forall>p \<in> set ps. cmp (fst p) k < 0) \<and> (\<forall>q \<in> set qs. cmp k (fst q) < 0)"

context cmp_order
begin

lemma around_find:
  assumes "around cmpe k ps qs"
  shows "dict_find cmpe k (ps @ qs) = None"
    "cmpe k k' = 0 \<Longrightarrow> dict_find cmpe k (ps @ (k', v) # qs) = Some v"
proof -
  have ne: "cmpe k (fst p) \<noteq> 0" if "p \<in> set ps \<union> set qs" for p
    using assms that cmp_less [of "fst p" k] by (force simp: around_def)
  then show "dict_find cmpe k (ps @ qs) = None" by (force simp: dict_find_def find_None_iff)
  have "find (\<lambda>p. cmpe k (fst p) = 0) ps = None" using ne by (force simp: find_None_iff)
  then show "cmpe k k' = 0 \<Longrightarrow> dict_find cmpe k (ps @ (k', v) # qs) = Some v"
    by (induction ps) (auto simp: dict_find_def split: if_splits)
qed

lemma around_insert:
  assumes "around cmpe k ps qs"
  shows "dict_insert cmpe k v (ps @ qs) = ps @ (k, v) # qs"
proof -
  have "\<forall>p \<in> set ps. \<not> cmpe k (fst p) < 0" "\<forall>q \<in> set qs. \<not> cmpe (fst q) k < 0"
    using assms cmp_less by (force simp: around_def)+
  then show ?thesis using assms by (simp add: dict_insert_def around_def)
qed

lemma around_delete:
  assumes "around cmpe k ps qs"
  shows "dict_delete cmpe k (ps @ qs) = ps @ qs"
    "cmpe k k' = 0 \<Longrightarrow> dict_delete cmpe k (ps @ (k', v) # qs) = ps @ qs"
proof -
  have "cmpe k (fst p) \<noteq> 0" if "p \<in> set ps \<union> set qs" for p
    using assms that cmp_less [of "fst p" k] by (force simp: around_def)
  then show "dict_delete cmpe k (ps @ qs) = ps @ qs"
    "cmpe k k' = 0 \<Longrightarrow> dict_delete cmpe k (ps @ (k', v) # qs) = ps @ qs"
    by (simp_all add: dict_delete_def)
qed

lemma around_ascending:
  assumes "ascending cmpe (ps @ qs)" and "around cmpe k ps qs"
  shows "ascending cmpe (ps @ (k, v) # qs)"
  using assms by (auto simp: ascending_def around_def sorted_wrt_append)

end

datatype ('k, 'v) dict_op = Insert 'k 'v | Remove 'k | Lookup 'k

text \<open>What one operation returns: whether it succeeded, or the value found.\<close>

datatype 'v dict_out = Status bool | Value "'v option"

fun dict_exec ::
  "('m \<Rightarrow> 'k \<Rightarrow> 'v \<Rightarrow> (bool \<times> 'm) option) \<Rightarrow> ('m \<Rightarrow> 'k \<Rightarrow> (bool \<times> 'm) option) \<Rightarrow>
   ('m \<Rightarrow> 'k \<Rightarrow> 'v option option) \<Rightarrow> 'm \<Rightarrow> ('k, 'v) dict_op list \<Rightarrow> ('v dict_out list \<times> 'm) option" where
  "dict_exec add del get m [] = Some ([], m)"
| "dict_exec add del get m (Insert k v # ops) = do {
     (ok, m1) \<leftarrow> add m k v; (outs, m2) \<leftarrow> dict_exec add del get m1 ops; Some (Status ok # outs, m2) }"
| "dict_exec add del get m (Remove k # ops) = do {
     (ok, m1) \<leftarrow> del m k; (outs, m2) \<leftarrow> dict_exec add del get m1 ops; Some (Status ok # outs, m2) }"
| "dict_exec add del get m (Lookup k # ops) = do {
     v \<leftarrow> get m k; (outs, m2) \<leftarrow> dict_exec add del get m ops; Some (Value v # outs, m2) }"

text \<open>
  Whether the answers of a run are those of a list of entries: an insertion that succeeds is of
  a key that was absent, a refused one changes nothing; a removal succeeds exactly when the key
  is there; a lookup finds the current value.
\<close>

fun dict_answers ::
  "('k \<Rightarrow> 'k \<Rightarrow> int) \<Rightarrow> ('k \<times> 'v) list \<Rightarrow> ('k, 'v) dict_op list \<Rightarrow> 'v dict_out list \<Rightarrow> ('k \<times> 'v) list \<Rightarrow> bool" where
  "dict_answers cmp ps [] [] ps' \<longleftrightarrow> ps' = ps"
| "dict_answers cmp ps (Insert k v # ops) (Status ok # outs) ps' \<longleftrightarrow>
     (if ok then dict_find cmp k ps = None \<and> dict_answers cmp (dict_insert cmp k v ps) ops outs ps'
      else dict_answers cmp ps ops outs ps')"
| "dict_answers cmp ps (Remove k # ops) (Status ok # outs) ps' \<longleftrightarrow>
     ok = (dict_find cmp k ps \<noteq> None) \<and> dict_answers cmp (dict_delete cmp k ps) ops outs ps'"
| "dict_answers cmp ps (Lookup k # ops) (Value r # outs) ps' \<longleftrightarrow>
     r = dict_find cmp k ps \<and> dict_answers cmp ps ops outs ps'"
| "dict_answers _ _ _ _ _ \<longleftrightarrow> False"

locale ordered_dict =
  fixes cmp :: "'k \<Rightarrow> 'k \<Rightarrow> int"
    and add :: "'m \<Rightarrow> 'k \<Rightarrow> 'v \<Rightarrow> (bool \<times> 'm) option"
    and del :: "'m \<Rightarrow> 'k \<Rightarrow> (bool \<times> 'm) option"
    and get :: "'m \<Rightarrow> 'k \<Rightarrow> 'v option option"
    and rep :: "'m \<Rightarrow> ('k \<times> 'v) list \<Rightarrow> bool"
  assumes add_law: "rep m ps \<Longrightarrow> \<exists>ok m' ps'. add m k v = Some (ok, m') \<and> rep m' ps' \<and>
      (if ok then dict_find cmp k ps = None \<and> ps' = dict_insert cmp k v ps else ps' = ps)"
    and del_law: "rep m ps \<Longrightarrow>
      \<exists>m'. del m k = Some (dict_find cmp k ps \<noteq> None, m') \<and> rep m' (dict_delete cmp k ps)"
    and get_law: "rep m ps \<Longrightarrow> get m k = Some (dict_find cmp k ps)"
begin

lemma exec_answers:
  "rep m ps \<Longrightarrow> \<exists>outs m' ps'. dict_exec add del get m ops = Some (outs, m') \<and> rep m' ps' \<and>
    dict_answers cmp ps ops outs ps'"
proof (induction ops arbitrary: m ps)
  case (Cons op ops)
  show ?case
  proof (cases op)
    case (Insert k v)
    then obtain ok m1 ps1 where 1: "add m k v = Some (ok, m1)" "rep m1 ps1"
      "if ok then dict_find cmp k ps = None \<and> ps1 = dict_insert cmp k v ps else ps1 = ps"
      using add_law [OF Cons.prems, of k v] by blast
    then show ?thesis using Cons.IH [OF 1(2)] Insert by (cases ok) auto
  next
    case (Remove k)
    then obtain m1 where 1: "del m k = Some (dict_find cmp k ps \<noteq> None, m1)" "rep m1 (dict_delete cmp k ps)"
      using del_law [OF Cons.prems, of k] by blast
    then show ?thesis using Cons.IH [OF 1(2)] Remove by auto
  next
    case (Lookup k)
    then show ?thesis using get_law [OF Cons.prems, of k] Cons.IH [OF Cons.prems] by auto
  qed
qed simp

end

end
