(* ===== verification/Tree_Search.thy ===== *)
theory Tree_Search
  imports Tree_Shape Dict_Spec
begin

text \<open>
  The searches of src/ds/bstree.c on a node heap that holds a tree: the loops of
  \<open>bstree_node_query\<close> and of \<open>bstree_insert_internal\<close> descend to the position where the key is
  or belongs.
\<close>

subsection \<open>Entries\<close>

definition key_at :: "'k tnodes \<Rightarrow> nat \<Rightarrow> 'k" where
  "key_at ns a = tn_key (the (ns a))"

definition entry :: "('k, 'a) theap \<Rightarrow> nat \<Rightarrow> 'k \<times> 'a" where
  "entry H a = (case core (th_nodes H) a of
     Some (k, Some b) \<Rightarrow> (k, the (th_blocks H b)) | _ \<Rightarrow> undefined)"

lemma entry_data_ok:
  assumes "data_ok H A" and "a \<in> A"
  shows "\<exists>nd b v. th_nodes H a = Some nd \<and> tn_data nd = Some b \<and> th_blocks H b = Some v \<and>
    entry H a = (tn_key nd, v) \<and> key_at (th_nodes H) a = tn_key nd"
  using assms by (fastforce simp: data_ok_def entry_def core_def key_at_def)

lemma fst_entry: "data_ok H A \<Longrightarrow> a \<in> A \<Longrightarrow> fst (entry H a) = key_at (th_nodes H) a"
  using entry_data_ok by fastforce

lemma entry_cong: "core (th_nodes H') = core (th_nodes H) \<Longrightarrow> th_blocks H' = th_blocks H \<Longrightarrow> entry H' = entry H"
  unfolding entry_def [abs_def] by (simp only:)

lemma entry_reshapes: "reshapes A H H' \<Longrightarrow> entry H' = entry H"
  by (intro entry_cong) (simp_all add: reshapes_def)

subsection \<open>Descending\<close>

fun descend :: "('k \<Rightarrow> 'k \<Rightarrow> int) \<Rightarrow> (nat \<Rightarrow> 'k) \<Rightarrow> 'k \<Rightarrow> crumb list \<Rightarrow> nat tree \<Rightarrow> crumb list \<times> nat tree" where
  "descend cmp K k c Leaf = (c, Leaf)"
| "descend cmp K k c (Node l a r) =
     (if cmp k (K a) = 0 then (c, Node l a r)
      else if cmp k (K a) < 0 then descend cmp K k (GoLeft a r # c) l
      else descend cmp K k (GoRight l a # c) r)"

lemma descend_plug: "descend cmp K k c T = (c', T') \<Longrightarrow> plug c' T' = plug c T"
  by (induction cmp K k c T rule: descend.induct) (auto split: if_splits)

lemma descend_zero: "descend cmp K k c T = (c', Node l a r) \<Longrightarrow> cmp k (K a) = 0"
  by (induction cmp K k c T rule: descend.induct) (auto split: if_splits)

context cmp_order
begin

lemma descend_around:
  assumes "descend cmpe K k c T = (c', T')" and "sorted_wrt (\<lambda>a b. cmpe (K a) (K b) < 0) (inorder (plug c T))"
    and "\<forall>a \<in> set (before c). cmpe (K a) k < 0" and "\<forall>a \<in> set (after c). cmpe k (K a) < 0"
  shows "(\<forall>a \<in> set (before c'). cmpe (K a) k < 0) \<and> (\<forall>a \<in> set (after c'). cmpe k (K a) < 0)"
  using assms
proof (induction T arbitrary: c)
  case (Node l a r)
  have s: "sorted_wrt (\<lambda>a b. cmpe (K a) (K b) < 0) (before c @ (inorder l @ a # inorder r) @ after c)"
    using Node.prems(2) by simp
  consider "cmpe k (K a) = 0" | "cmpe k (K a) < 0" | "0 < cmpe k (K a)" by linarith
  then show ?case
  proof cases
    case 1
    then show ?thesis using Node.prems by simp
  next
    case 2
    have "cmpe k (K x) < 0" if "x \<in> set (a # inorder r)" for x
    proof (cases "x = a")
      case False
      then have "cmpe (K a) (K x) < 0" using s that by (auto simp: sorted_wrt_append)
      then show ?thesis using 2 cmp_less_trans by (meson less_imp_le)
    qed (simp add: 2)
    moreover have "descend cmpe K k (GoLeft a r # c) l = (c', T')" using Node.prems(1) 2 by simp
    ultimately show ?thesis using Node.prems by (intro Node.IH(1) [of "GoLeft a r # c"]) auto
  next
    case 3
    then have a: "cmpe (K a) k < 0" using cmp_less [of "K a" k] by simp
    have "cmpe (K x) k < 0" if "x \<in> set (inorder l @ [a])" for x
    proof (cases "x = a")
      case False
      then have "cmpe (K x) (K a) < 0" using s that by (auto simp: sorted_wrt_append)
      then show ?thesis using a cmp_less_trans by (meson less_imp_le)
    qed (simp add: a)
    moreover have "descend cmpe K k (GoRight l a # c) r = (c', T')" using Node.prems(1) 3 by simp
    ultimately show ?thesis using Node.prems by (intro Node.IH(2) [of "GoRight l a # c"]) auto
  qed
qed simp

end

subsection \<open>The loops\<close>

lemma ptree_node: "ptree ns nil p (Node l a r) \<Longrightarrow>
    \<exists>nd. ns a = Some nd \<and> tn_left nd = addr nil l \<and> tn_right nd = addr nil r"
  by (auto simp: linked_Some)

lemma place_loop:
  assumes "ptree ns (bt_nil t) p T" and "bt_nil t \<notin> set_tree T"
    and "descend (bt_cmpkey t) (key_at ns) k c T = (c', T')"
  shows "while_loop (place_more t) (place_step t k ns) (addr (bt_nil t) T, up rt c, False) =
    Some (addr (bt_nil t) T', if T' = Leaf then up rt c' else addr (bt_nil t) T', T' \<noteq> Leaf)"
  using assms
proof (induction T arbitrary: p c)
  case Leaf
  then show ?case by (subst while_loop.simps) (auto simp: place_more_def)
next
  case (Node l a r)
  obtain nd where nd: "ns a = Some nd" "tn_left nd = addr (bt_nil t) l" "tn_right nd = addr (bt_nil t) r"
    using ptree_node [OF Node.prems(1)] by blast
  have key: "key_at ns a = tn_key nd" using nd by (simp add: key_at_def)
  have "a \<noteq> bt_nil t" using Node.prems(2) by auto
  then have more: "place_more t (a, q, False) = Some True" for q by (simp add: place_more_def)
  show ?case
  proof (cases "bt_cmpkey t k (tn_key nd) = 0")
    case True
    then have "place_step t k ns (a, up rt c, False) = Some (a, a, True)" using nd by (simp add: place_step_def)
    moreover have "while_loop (place_more t) (place_step t k ns) (a, a, True) = Some (a, a, True)"
      by (subst while_loop.simps) (simp add: place_more_def)
    moreover have "c' = c" "T' = Node l a r" using Node.prems(3) True key by auto
    ultimately show ?thesis using more by (subst while_loop.simps) simp
  next
    case False
    show ?thesis
    proof (cases "bt_cmpkey t k (tn_key nd) < 0")
      case True
      have "place_step t k ns (a, up rt c, False) = Some (addr (bt_nil t) l, up rt (GoLeft a r # c), False)"
        using False True nd by (simp add: place_step_def)
      moreover have "descend (bt_cmpkey t) (key_at ns) k (GoLeft a r # c) l = (c', T')"
        using Node.prems(3) False True key by simp
      then have "while_loop (place_more t) (place_step t k ns) (addr (bt_nil t) l, up rt (GoLeft a r # c), False) =
          Some (addr (bt_nil t) T', if T' = Leaf then up rt c' else addr (bt_nil t) T', T' \<noteq> Leaf)"
        by (intro Node.IH(1)) (use Node.prems in auto)
      ultimately show ?thesis using more by (subst while_loop.simps) simp
    next
      case far: False
      have "place_step t k ns (a, up rt c, False) = Some (addr (bt_nil t) r, up rt (GoRight l a # c), False)"
        using False far nd by (simp add: place_step_def)
      moreover have "descend (bt_cmpkey t) (key_at ns) k (GoRight l a # c) r = (c', T')"
        using Node.prems(3) False far key by simp
      then have "while_loop (place_more t) (place_step t k ns) (addr (bt_nil t) r, up rt (GoRight l a # c), False) =
          Some (addr (bt_nil t) T', if T' = Leaf then up rt c' else addr (bt_nil t) T', T' \<noteq> Leaf)"
        by (intro Node.IH(2)) (use Node.prems in auto)
      ultimately show ?thesis using more by (subst while_loop.simps) simp
    qed
  qed
qed

lemma query_loop_descend:
  assumes "ptree ns (bt_nil t) p T" and "bt_nil t \<notin> set_tree T"
    and "descend (bt_cmpkey t) (key_at ns) k c T = (c', T')"
  shows "while_loop (query_more t) (query_step t k ns) (addr (bt_nil t) T, False) =
    Some (addr (bt_nil t) T', T' \<noteq> Leaf)"
  using assms
proof (induction T arbitrary: p c)
  case Leaf
  then show ?case by (subst while_loop.simps) (auto simp: query_more_def)
next
  case (Node l a r)
  obtain nd where nd: "ns a = Some nd" "tn_left nd = addr (bt_nil t) l" "tn_right nd = addr (bt_nil t) r"
    using ptree_node [OF Node.prems(1)] by blast
  have key: "key_at ns a = tn_key nd" using nd by (simp add: key_at_def)
  have "a \<noteq> bt_nil t" using Node.prems(2) by auto
  then have more: "query_more t (a, False) = Some True" by (simp add: query_more_def)
  show ?case
  proof (cases "bt_cmpkey t k (tn_key nd) = 0")
    case True
    then have "query_step t k ns (a, False) = Some (a, True)" using nd by (simp add: query_step_def)
    moreover have "while_loop (query_more t) (query_step t k ns) (a, True) = Some (a, True)"
      by (subst while_loop.simps) (simp add: query_more_def)
    moreover have "T' = Node l a r" using Node.prems(3) True key by auto
    ultimately show ?thesis using more by (subst while_loop.simps) simp
  next
    case False
    show ?thesis
    proof (cases "bt_cmpkey t k (tn_key nd) < 0")
      case True
      have "query_step t k ns (a, False) = Some (addr (bt_nil t) l, False)"
        using False True nd by (simp add: query_step_def)
      moreover have "descend (bt_cmpkey t) (key_at ns) k (GoLeft a r # c) l = (c', T')"
        using Node.prems(3) False True key by simp
      then have "while_loop (query_more t) (query_step t k ns) (addr (bt_nil t) l, False) =
          Some (addr (bt_nil t) T', T' \<noteq> Leaf)"
        by (intro Node.IH(1)) (use Node.prems in auto)
      ultimately show ?thesis using more by (subst while_loop.simps) simp
    next
      case far: False
      have "query_step t k ns (a, False) = Some (addr (bt_nil t) r, False)"
        using False far nd by (simp add: query_step_def)
      moreover have "descend (bt_cmpkey t) (key_at ns) k (GoRight l a # c) r = (c', T')"
        using Node.prems(3) False far key by simp
      then have "while_loop (query_more t) (query_step t k ns) (addr (bt_nil t) r, False) =
          Some (addr (bt_nil t) T', T' \<noteq> Leaf)"
        by (intro Node.IH(2)) (use Node.prems in auto)
      ultimately show ?thesis using more by (subst while_loop.simps) simp
    qed
  qed
qed

lemma bstree_node_query_run:
  assumes "ptree ns (bt_nil t) p T" and "bt_nil t \<notin> set_tree T"
    and "descend (bt_cmpkey t) (key_at ns) k c T = (c', T')"
  shows "bstree_node_query t (addr (bt_nil t) T) k ns = Some (if T' = Leaf then 0 else addr (bt_nil t) T')"
  using query_loop_descend [OF assms] by (simp add: bstree_node_query_def)

end
