(* ===== verification/Tree_Update.thy ===== *)
theory Tree_Update
  imports Rb_Delete Tree_Search
begin

text \<open>
  The steps of insertion and deletion around the red-black fix-ups (src/ds/bstree.c): hanging a
  new node, the walks that keep the auxiliary fields, unlinking a node and letting it take the
  place of another.
\<close>

subsection \<open>Nodes of a standing tree\<close>

text \<open>The tree \<open>tr\<close> stands at \<open>c\<close>; the content of the whole tree is \<open>L\<close>.\<close>

definition stands :: "'k bstree \<Rightarrow> nat list \<Rightarrow> crumb list \<Rightarrow> nat tree \<Rightarrow> ('k, 'a) theap \<Rightarrow> bool" where
  "stands t L c tr H \<longleftrightarrow> del_state t H L c tr H"

abbreviation owned :: "'k bstree \<Rightarrow> nat list \<Rightarrow> nat set" where
  "owned t L \<equiv> insert (bt_nil t) (insert (bt_root t) (set L))"

lemma del_state_stands: "del_state t H0 L c tr H \<longleftrightarrow> stands t L c tr H \<and> reshapes (owned t L) H0 H"
  by (auto simp: stands_def fix_state_def)

lemma stands_aux: "stands t L c tr H \<Longrightarrow> aux_only A H H' \<Longrightarrow> stands t L c tr H'"
  by (simp add: stands_def fix_state_def aux_only_access aux_only_tree_at data_ok_aux)

lemma stands_up:
  "stands t L (GoLeft a r # c) tr H = stands t L c (Node tr a r) H"
  "stands t L (GoRight l a # c) tr H = stands t L c (Node l a tr) H"
  by (simp_all add: stands_def fix_state_up)

lemma stands_plug: "stands t L [] (plug c tr) H = stands t L c tr H"
  by (simp add: stands_def fix_state_def tree_at_plug)

lemma stands_content: "stands t L c tr H \<Longrightarrow> L = before c @ inorder tr @ after c"
  by (auto simp: stands_def fix_state_def)

lemma stands_data: "stands t L c tr H \<Longrightarrow> data_ok H (owned t L)"
  by (simp add: stands_def fix_state_def)

lemma stands_distinct: "stands t L c tr H \<Longrightarrow> distinct L \<and> bt_nil t \<notin> set L \<and> bt_root t \<notin> set L \<and> bt_nil t \<noteq> bt_root t"
  by (auto simp: stands_def fix_state_def tree_at_def)

lemma ptree_children:
  "ptree ns nil p T \<Longrightarrow> a \<in> set_tree T \<Longrightarrow>
   \<exists>l r. lft ns a = Some l \<and> rgt ns a = Some r \<and> l \<in> insert nil (set_tree T) \<and> r \<in> insert nil (set_tree T)"
proof (induction T arbitrary: p)
  case (Node l b r)
  have in_addr: "addr nil s \<in> insert nil (set_tree s)" for s by (cases s) auto
  show ?case
  proof (cases "a = b")
    case True
    then show ?thesis using Node.prems(1) in_addr [of l] in_addr [of r] by (auto simp: linked_iff)
  next
    case False
    then have "a \<in> set_tree l \<or> a \<in> set_tree r" using Node.prems(2) by simp
    then show ?thesis using Node.IH [of b] Node.prems(1) by auto
  qed
qed simp

lemma stands_children:
  assumes "stands t L c tr H" and "a \<in> owned t L"
  shows "\<exists>l r. lft (th_nodes H) a = Some l \<and> rgt (th_nodes H) a = Some r \<and> l \<in> owned t L \<and> r \<in> owned t L"
proof -
  let ?T = "plug c tr"
  have T: "tree_at (th_nodes H) (bt_nil t) (bt_root t) [] ?T" "inorder ?T = L"
    using assms(1) by (auto simp: stands_def fix_state_def tree_at_plug)
  have S: "set_tree ?T = set L" using T(2) by (metis set_inorder)
  consider "a = bt_nil t" | "a = bt_root t" | "a \<in> set_tree ?T" using assms(2) S by blast
  then show ?thesis
  proof cases
    case 1
    then show ?thesis using assms(1) by (auto simp: stands_def fix_state_def)
  next
    case 2
    have "addr (bt_nil t) ?T \<in> insert (bt_nil t) (set_tree ?T)" by (cases ?T) auto
    moreover have "linked (th_nodes H) (bt_root t) (addr (bt_nil t) ?T) (bt_nil t) (bt_nil t)"
      using T(1) by (simp add: tree_at_def)
    ultimately show ?thesis using 2 S linkedD by blast
  next
    case 3
    have p: "ptree (th_nodes H) (bt_nil t) (bt_root t) ?T" using T(1) by (simp add: tree_at_def)
    show ?thesis using ptree_children [OF p 3] S by auto
  qed
qed

lemma stands_update_max:
  assumes "stands t L c tr H" and "a \<in> owned t L"
  shows "\<exists>H'. inttree_node_update_max env a H = Some H' \<and> aux_only {a} H H'"
  using stands_children [OF assms] update_max_ok [OF stands_data [OF assms(1)] assms(2)] by blast

lemma stands_update_count:
  assumes "stands t L c tr H" and "a \<in> owned t L"
  shows "\<exists>H'. ostree_node_update_count a H = Some H' \<and> aux_only {a} H H'"
  using stands_children [OF assms] update_count_ok [OF stands_data [OF assms(1)] assms(2)] by blast

lemma stands_put_aux:
  assumes "stands t L c tr H" and "a \<in> owned t L"
  shows "\<exists>H'. on_nodes (put_aux a x) H = Some H' \<and> aux_only {a} H H'"
  using data_ok_dom [OF stands_data [OF assms(1)] assms(2)] put_aux_only by blast

subsection \<open>Walks towards the root\<close>

fun ancestors :: "nat \<Rightarrow> crumb list \<Rightarrow> nat list" where
  "ancestors rt [] = [rt]"
| "ancestors rt (GoLeft a r # c) = a # ancestors rt c"
| "ancestors rt (GoRight l a # c) = a # ancestors rt c"

lemma ancestors_up: "ancestors rt c = up rt c # tl (ancestors rt c)"
  by (cases "(rt, c)" rule: ancestors.cases) auto

lemma root_ancestor: "addr nil (plug c tr) \<in> set (addr nil tr # ancestors rt c)"
  by (induction c tr rule: plug.induct) auto

lemma last_ancestor: "rt \<in> set (ancestors rt c)"
  by (induction rt c rule: ancestors.induct) auto

lemma aux_only_in: "aux_only {a} H H' \<Longrightarrow> a \<in> A \<Longrightarrow> aux_only A H H'"
  by (erule aux_only_mono) simp

lemma walk_stop: "while_loop (up_cond a) step (a, H) = Some (a, H)"
  by (subst while_loop.simps) (simp add: up_cond_def)

lemma walk_step: "a \<noteq> stop \<Longrightarrow> step (a, H) = Some (b, H1) \<Longrightarrow>
    while_loop (up_cond stop) step (a, H) = while_loop (up_cond stop) step (b, H1)"
  by (subst while_loop.simps) (simp add: up_cond_def)

lemma walk_up:
  assumes "stands t L c tr H" and "a \<in> owned t L" and "par (th_nodes H) a = Some (up (bt_root t) c)"
    and "stop \<in> set (a # ancestors (bt_root t) c)"
    and upd: "\<And>H c tr a. stands t L c tr H \<Longrightarrow> a \<in> owned t L \<Longrightarrow> \<exists>H'. upd a H = Some H' \<and> aux_only {a} H H'"
  shows "\<exists>H'. while_loop (up_cond stop) (up_step upd) (a, H) = Some (stop, H') \<and> aux_only (owned t L) H H'"
  using assms(1-4)
proof (induction c arbitrary: tr a H)
  case Nil
  show ?case
  proof (cases "a = stop")
    case True
    then show ?thesis using walk_stop [of stop "up_step upd" H] by auto
  next
    case False
    then have stop: "stop = bt_root t" using Nil.prems(4) by simp
    obtain H1 where H1: "upd a H = Some H1" "aux_only {a} H H1" using upd [OF Nil.prems(1,2)] by blast
    have "par (th_nodes H1) a = Some (bt_root t)" using Nil.prems(3) by (simp add: aux_only_access [OF H1(2)])
    then have "up_step upd (a, H) = Some (stop, H1)" using H1(1) stop by (simp add: up_step_def)
    moreover have "aux_only (owned t L) H H1" using aux_only_in [OF H1(2) Nil.prems(2)] .
    ultimately show ?thesis using walk_step [OF False, of "up_step upd" H stop H1] walk_stop [of stop "up_step upd" H1] by auto
  qed
next
  case (Cons b c)
  show ?case
  proof (cases "a = stop")
    case True
    then show ?thesis using walk_stop [of stop "up_step upd" H] by auto
  next
    case False
    obtain H1 where H1: "upd a H = Some H1" "aux_only {a} H H1" using upd [OF Cons.prems(1,2)] by blast
    let ?p = "up (bt_root t) (b # c)"
    have st: "stands t L (b # c) tr H1" using stands_aux [OF Cons.prems(1) H1(2)] .
    obtain tr' where tr': "stands t L c tr' H1" "addr (bt_nil t) tr' = ?p" "tr' \<noteq> Leaf"
      using st by (cases b) (auto simp: stands_up)
    have "par (th_nodes H1) a = Some ?p" using Cons.prems(3) by (simp add: aux_only_access [OF H1(2)])
    then have step: "up_step upd (a, H) = Some (?p, H1)" using H1(1) by (simp add: up_step_def)
    have "?p \<in> set L" using stands_content [OF tr'(1)] tr'(2,3) by (cases tr') auto
    moreover have "par (th_nodes H1) ?p = Some (up (bt_root t) c)"
      using tr' by (cases tr') (auto simp: stands_def fix_state_def tree_at_def linked_iff)
    moreover have "stop \<in> set (?p # ancestors (bt_root t) c)" using Cons.prems(4) False by (cases b) auto
    ultimately obtain H2 where H2: "while_loop (up_cond stop) (up_step upd) (?p, H1) = Some (stop, H2)"
        "aux_only (owned t L) H1 H2"
      using Cons.IH [OF tr'(1)] by blast
    have "aux_only (owned t L) H H1" using aux_only_in [OF H1(2) Cons.prems(2)] .
    then have "aux_only (owned t L) H H2" using H2(2) aux_only_trans by blast
    then show ?thesis using walk_step [OF False, of "up_step upd" H ?p H1] step H2(1) by simp
  qed
qed

lemma high_fixup_run:
  assumes st: "stands t L c tr H" and pa: "par (th_nodes H) (addr (bt_nil t) tr) = Some (up (bt_root t) c)"
  shows "\<exists>H'. inttree_high_fixup env t (addr (bt_nil t) tr) H = Some H' \<and> aux_only (owned t L) H H'"
proof -
  let ?a = "addr (bt_nil t) tr"
  have a: "?a \<in> owned t L" using stands_content [OF st] by (cases tr) auto
  obtain iv where iv: "interval_at env H ?a = Some iv" using interval_at_ok [OF stands_data [OF st] a] by blast
  obtain H1 where H1: "on_nodes (put_aux ?a (iv_high iv)) H = Some H1" "aux_only {?a} H H1"
    using stands_put_aux [OF st a] by blast
  have st1: "stands t L c tr H1" using stands_aux [OF st H1(2)] .
  let ?top = "addr (bt_nil t) (plug c tr)"
  have "stands t L [] (plug c tr) H1" using st1 by (simp add: stands_plug)
  then have top: "RCSW_BSTREE_ROOT t (th_nodes H1) = Some ?top"
    by (auto simp: RCSW_BSTREE_ROOT_def stands_def fix_state_def tree_at_def linked_iff)
  have "par (th_nodes H1) ?a = Some (up (bt_root t) c)" using pa by (simp add: aux_only_access [OF H1(2)])
  then obtain H2 where H2: "while_loop (up_cond ?top) (up_step (inttree_node_update_max env)) (?a, H1) = Some (?top, H2)"
      "aux_only (owned t L) H1 H2"
    using walk_up [OF st1 a _ root_ancestor] stands_update_max by blast
  have "aux_only (owned t L) H H2" using aux_only_trans [OF aux_only_in [OF H1(2) a] H2(2)] .
  then show ?thesis using iv H1(1) top H2(1) by (simp add: inttree_high_fixup_def)
qed

lemma count_fixup_insert_run:
  assumes st: "stands t L c tr H" and pa: "par (th_nodes H) (addr (bt_nil t) tr) = Some (up (bt_root t) c)"
  shows "\<exists>H'. ostree_count_fixup t (addr (bt_nil t) tr) OSTREE_FIXUP_INSERT H = Some H' \<and> aux_only (owned t L) H H'"
proof -
  have "addr (bt_nil t) tr \<in> owned t L" using stands_content [OF st] by (cases tr) auto
  moreover have "bt_root t \<in> set (addr (bt_nil t) tr # ancestors (bt_root t) c)" using last_ancestor by simp
  ultimately obtain H2 where "while_loop (up_cond (bt_root t)) (up_step ostree_node_update_count) (addr (bt_nil t) tr, H) =
      Some (bt_root t, H2)" "aux_only (owned t L) H H2"
    using walk_up [OF st _ pa] stands_update_count by blast
  then show ?thesis by (simp add: ostree_count_fixup_def)
qed

lemma count_fixup_delete_run:
  assumes st: "stands t L c tr H" and pa: "par (th_nodes H) (addr (bt_nil t) tr) = Some (up (bt_root t) c)"
  shows "\<exists>H'. ostree_count_fixup t (addr (bt_nil t) tr) OSTREE_FIXUP_DELETE H = Some H' \<and> aux_only (owned t L) H H'"
proof -
  let ?p = "up (bt_root t) c"
  have p: "?p \<in> owned t L" using up_mem [of "bt_root t" c] stands_content [OF st] by auto
  obtain nd where nd: "th_nodes H ?p = Some nd" using data_ok_dom [OF stands_data [OF st] p] by blast
  obtain H1 where H1: "on_nodes (put_aux ?p (wrap32 (tn_aux nd - 1))) H = Some H1" "aux_only {?p} H H1"
    using stands_put_aux [OF st p] by blast
  have st1: "stands t L c tr H1" using stands_aux [OF st H1(2)] .
  have "\<exists>H'. while_loop (up_cond (bt_root t)) (up_step ostree_node_update_count) (?p, H1) = Some (bt_root t, H') \<and>
      aux_only (owned t L) H1 H'"
  proof (cases c)
    case Nil
    then have "?p = bt_root t" by simp
    then show ?thesis using walk_stop [of "bt_root t" "up_step ostree_node_update_count" H1] by auto
  next
    case (Cons b d)
    obtain tr' where tr': "stands t L d tr' H1" "addr (bt_nil t) tr' = ?p" "tr' \<noteq> Leaf"
      using st1 Cons by (cases b) (auto simp: stands_up)
    then have "par (th_nodes H1) ?p = Some (up (bt_root t) d)"
      by (cases tr') (auto simp: stands_def fix_state_def tree_at_def linked_iff)
    moreover have "bt_root t \<in> set (?p # ancestors (bt_root t) d)" using last_ancestor by simp
    ultimately show ?thesis using walk_up [OF tr'(1) p] stands_update_count by blast
  qed
  then obtain H2 where H2: "while_loop (up_cond (bt_root t)) (up_step ostree_node_update_count) (?p, H1) = Some (bt_root t, H2)"
      "aux_only (owned t L) H1 H2" by blast
  have "aux_only (owned t L) H H2" using aux_only_trans [OF aux_only_in [OF H1(2) p] H2(2)] .
  then show ?thesis using pa nd H1(1) H2(1) by (simp add: ostree_count_fixup_def)
qed

subsection \<open>Insertion\<close>

lemma tree_at_frame:
  assumes "tree_at ns nil rt c tr" and "\<And>a. a \<in> insert rt (set (inorder (plug c tr))) \<Longrightarrow> ns' a = ns a"
  shows "tree_at ns' nil rt c tr"
proof -
  have "same_links (insert rt (set (before c @ after c))) ns ns'" "same_links (set_tree tr) ns ns'"
    using assms(2) by (auto simp: same_links_def tree_access)
  then show ?thesis using assms(1) pctx_cong ptree_cong by (fastforce simp: tree_at_def)
qed

text \<open>On which side of its parent a key belongs.\<close>

fun side :: "('k \<Rightarrow> 'k \<Rightarrow> int) \<Rightarrow> (nat \<Rightarrow> 'k) \<Rightarrow> 'k \<Rightarrow> crumb list \<Rightarrow> bool" where
  "side cmp K k [] \<longleftrightarrow> True"
| "side cmp K k (GoLeft a r # c) \<longleftrightarrow> cmp k (K a) < 0"
| "side cmp K k (GoRight l a # c) \<longleftrightarrow> \<not> cmp k (K a) < 0"

lemma hang_run:
  fixes t :: "'k bstree" and ns :: "'k tnodes"
  defines "nil \<equiv> bt_nil t" and "rt \<equiv> bt_root t"
  assumes at: "tree_at ns nil rt c Leaf" and zd: "ns z = Some zd" "tn_left zd = nil" "tn_right zd = nil" "tn_parent zd = up rt c"
    and z: "z \<notin> insert nil (insert rt (set (before c @ after c)))" and s: "side (bt_cmpkey t) (key_at ns) k c"
  shows "\<exists>ns'. hang t k (up rt c) z ns = Some ns' \<and> tree_at ns' nil rt c (Node Leaf z Leaf) \<and>
    payload ns' = payload ns \<and> (\<forall>a. a \<noteq> up rt c \<longrightarrow> ns' a = ns a)"
proof -
  have d: "distinct (before c @ after c)" "nil \<notin> set (before c @ after c)" "rt \<notin> set (before c @ after c)" "nil \<noteq> rt"
    and cx: "pctx ns nil rt nil c" using at by (simp_all add: tree_at_def)
  have up: "up rt c \<noteq> z" using up_mem [of rt c] z by auto
  have dz: "distinct (before c @ z # after c)" using d(1) z by auto
  have fin: "?thesis" if "hang t k (up rt c) z ns = Some ns'" "pctx ns' nil rt z c" "payload ns' = payload ns"
      "\<forall>a. a \<noteq> up rt c \<longrightarrow> ns' a = ns a" for ns'
  proof -
    have "linked ns' z nil nil (up rt c)" using that(4) up zd by (auto simp: linked_Some)
    then have "tree_at ns' nil rt c (Node Leaf z Leaf)" using that(2) d dz z by (auto simp: tree_at_def)
    then show ?thesis using that by blast
  qed
  show ?thesis
  proof (cases c)
    case Nil
    then obtain rd where rd: "ns rt = Some rd" "tn_left rd = nil" "tn_right rd = nil" "tn_parent rd = nil"
      using cx by (auto simp: linked_Some)
    show ?thesis by (rule fin [of "ns(rt \<mapsto> rd\<lparr>tn_left := z\<rparr>)"])
      (use Nil rd rt_def in \<open>auto simp: hang_def tree_update linked_Some payload_def\<close>)
  next
    case (Cons b e)
    show ?thesis
    proof (cases b)
      case (GoLeft a r)
      then obtain ad where ad: "ns a = Some ad" "tn_left ad = nil" "tn_right ad = addr nil r" "tn_parent ad = up rt e"
          "ptree ns nil a r" "pctx ns nil rt a e"
        using cx Cons by (auto simp: linked_Some)
      let ?ns = "ns(a \<mapsto> ad\<lparr>tn_left := z\<rparr>)"
      have "a \<noteq> rt" "a \<notin> set_tree r" "a \<notin> set (before e @ after e)" using d Cons GoLeft by auto
      then have "ptree ?ns nil a r" "pctx ?ns nil rt a e"
        by (auto intro: ptree_frame [OF ad(5)] pctx_frame [OF ad(6)])
      moreover have "hang t k (up rt c) z ns = Some ?ns"
        using Cons GoLeft s ad \<open>a \<noteq> rt\<close> by (simp add: hang_def rt_def key_at_def tree_update)
      ultimately show ?thesis using Cons GoLeft ad by (intro fin [of ?ns]) (auto simp: linked_Some payload_def)
    next
      case (GoRight l a)
      then obtain ad where ad: "ns a = Some ad" "tn_left ad = addr nil l" "tn_right ad = nil" "tn_parent ad = up rt e"
          "ptree ns nil a l" "pctx ns nil rt a e"
        using cx Cons by (auto simp: linked_Some)
      let ?ns = "ns(a \<mapsto> ad\<lparr>tn_right := z\<rparr>)"
      have "a \<noteq> rt" "a \<notin> set_tree l" "a \<notin> set (before e @ after e)" using d Cons GoRight by auto
      then have "ptree ?ns nil a l" "pctx ?ns nil rt a e"
        by (auto intro: ptree_frame [OF ad(5)] pctx_frame [OF ad(6)])
      moreover have "hang t k (up rt c) z ns = Some ?ns"
        using Cons GoRight s ad \<open>a \<noteq> rt\<close> by (simp add: hang_def rt_def key_at_def tree_update)
      ultimately show ?thesis using Cons GoRight ad by (intro fin [of ?ns]) (auto simp: linked_Some payload_def)
    qed
  qed
qed

text \<open>The final tests never fail.\<close>

lemma black_height_run:
  assumes "ptree ns nil p T" and "distinct (inorder T)" and "nil \<notin> set_tree T"
    and "ns nil = Some nd" "tn_left nd = nil"
  shows "rbtree_node_black_height ns (addr nil T) = Some (int (bh (redn ns) T))"
  using assms(1-3)
proof (induction T arbitrary: p)
  case Leaf
  then show ?case using assms(4,5) by (subst rbtree_node_black_height.simps) simp
next
  case (Node l a r)
  obtain ad where ad: "ns a = Some ad" "tn_left ad = addr nil l" "tn_right ad = addr nil r"
    using ptree_node [OF Node.prems(1)] by blast
  have "addr nil l \<noteq> a" "addr nil r \<noteq> a" using Node.prems(2,3) by (cases l; cases r; auto)+
  moreover have "rbtree_node_black_height ns (addr nil l) = Some (int (bh (redn ns) l))"
    using Node.IH(1) [of a] Node.prems by simp
  moreover have "redn ns a = tn_red ad" using ad by (simp add: redn_def isred_def)
  ultimately show ?case using ad by (subst rbtree_node_black_height.simps) simp
qed

lemma rb_checks_run:
  assumes st: "stands t L [] T H" and rb: "rb (redn (th_nodes H)) T"
  shows "rb_checks t (th_nodes H) = Some True"
proof -
  let ?ns = "th_nodes H" and ?nil = "bt_nil t"
  have at: "tree_at ?ns ?nil (bt_root t) [] T" and nil: "isred ?ns ?nil = Some False" "isred ?ns (bt_root t) = Some False"
      "lft ?ns ?nil = Some ?nil" "rgt ?ns ?nil = Some ?nil"
    using st by (simp_all add: stands_def fix_state_def)
  obtain nd where nd: "?ns ?nil = Some nd" "tn_left nd = ?nil" using nil(3) by (auto simp: lft_def)
  have top: "lft ?ns (bt_root t) = Some (addr ?nil T)" using at by (simp add: tree_at_def linked_iff)
  show ?thesis
  proof (cases T)
    case Leaf
    then show ?thesis using nil top nd by (simp add: rb_checks_def rbtree_node_black_height.simps [of ?ns ?nil])
  next
    case (Node l a r)
    have "rbtree_node_black_height ?ns (addr ?nil l) = Some (int (bh (redn ?ns) l))"
      "rbtree_node_black_height ?ns (addr ?nil r) = Some (int (bh (redn ?ns) r))"
      using at Node nd by (auto intro!: black_height_run simp: tree_at_def)
    then show ?thesis using nil top rb at Node by (simp add: rb_checks_def tree_at_def linked_iff)
  qed
qed

lemma fix_state_stands: "fix_state Q t H0 L c tr H \<Longrightarrow> stands t L c tr H"
  by (simp add: stands_def fix_state_def)

lemma stands_root: "stands t L [] T H \<Longrightarrow> RCSW_BSTREE_ROOT t (th_nodes H) = Some (addr (bt_nil t) T)"
  by (simp add: RCSW_BSTREE_ROOT_def stands_def fix_state_def tree_at_def linked_iff)

context fixup_invariant
begin

lemma rb_insert_run:
  assumes st: "fix_state Q t H0 L c (Node Leaf z Leaf) H"
    and rb: "rb (redn (th_nodes H)) (plug c Leaf)" "\<not> red_root (redn (th_nodes H)) (plug c Leaf)"
  shows "\<exists>H' T. do {
        H \<leftarrow> on_nodes (put_red z True) H;
        H \<leftarrow> rbtree_insert_fixup env t z H;
        top \<leftarrow> RCSW_BSTREE_ROOT t (th_nodes H);
        H \<leftarrow> on_nodes (put_red top False) H;
        ok \<leftarrow> rb_checks t (th_nodes H);
        Some (ok, H)
      } = Some (True, H') \<and> fix_state Q t H0 L [] T H' \<and> rb (redn (th_nodes H')) T \<and> \<not> red_root (redn (th_nodes H')) T"
proof -
  have z: "z \<in> set L" and zd: "z \<in> dom (th_nodes H)" using fix_state_sub [OF st] fix_state_dom [OF st] by auto
  have fr: "z \<notin> set (before c)" "z \<notin> set (after c)" using fix_state_sub [OF st] by auto
  let ?H1 = "H\<lparr>th_nodes := paint z True (th_nodes H)\<rparr>"
  have R: "redn (th_nodes ?H1) = (redn (th_nodes H))(z := True)" using redn_paint [OF zd] by simp
  have "rb_ctx (redn (th_nodes H)) 0 c" using rb_plugD [of "redn (th_nodes H)" c Leaf] rb by simp
  then have "rb_ctx (redn (th_nodes ?H1)) (bh (redn (th_nodes ?H1)) (Node Leaf z Leaf)) c" using fr R by simp
  then have "ins_ok Q t H0 L (length c) z ?H1" using fix_paint [OF st z] R by (intro ins_okI) auto
  then obtain H2 T where H2: "rbtree_insert_fixup env t z ?H1 = Some H2" "fix_state Q t H0 L [] T H2" "T \<noteq> Leaf"
      "rb ((redn (th_nodes H2))(addr (bt_nil t) T := False)) T"
    using rbtree_insert_fixup_ok by blast
  let ?top = "addr (bt_nil t) T" and ?H3 = "H2\<lparr>th_nodes := paint (addr (bt_nil t) T) False (th_nodes H2)\<rparr>"
  have top: "?top \<in> set L" using H2(3) fix_state_sub [OF H2(2)] by (cases T) auto
  then have td: "?top \<in> dom (th_nodes H2)" using fix_state_dom [OF H2(2)] by blast
  have st3: "fix_state Q t H0 L [] T ?H3" using fix_paint [OF H2(2) top] .
  have R3: "redn (th_nodes ?H3) = (redn (th_nodes H2))(?top := False)" using redn_paint [OF td] by simp
  then have "rb_checks t (th_nodes ?H3) = Some True" using rb_checks_run [OF fix_state_stands [OF st3]] H2(4) by simp
  moreover have "\<not> red_root (redn (th_nodes ?H3)) T" using R3 H2(3) by (cases T) simp_all
  moreover have "RCSW_BSTREE_ROOT t (th_nodes H2) = Some ?top" using stands_root [OF fix_state_stands [OF H2(2)]] .
  ultimately show ?thesis using st3 R3 H2(1,4) put_red_run [OF zd] put_red_run [OF td]
    by (rule_tac exI [of _ ?H3], rule_tac exI [of _ T]) simp
qed

end

lemma insert_rb_run:
  assumes st: "stands t L c (Node Leaf z Leaf) H"
    and rb: "has_flag (bt_flags t) RCSW_DS_BSTREE_RB \<Longrightarrow>
      rb (redn (th_nodes H)) (plug c Leaf) \<and> \<not> red_root (redn (th_nodes H)) (plug c Leaf)"
  shows "\<exists>H' T. insert_rb env t z H = Some (True, H') \<and> stands t L [] T H' \<and> reshapes (owned t L) H H' \<and>
    (has_flag (bt_flags t) RCSW_DS_BSTREE_RB \<longrightarrow> rb (redn (th_nodes H')) T \<and> \<not> red_root (redn (th_nodes H')) T)"
proof (cases "has_flag (bt_flags t) RCSW_DS_BSTREE_RB")
  case True
  have pa: "par (th_nodes H) (addr (bt_nil t) (Node Leaf z Leaf)) = Some (up (bt_root t) c)"
    using st by (simp add: stands_def fix_state_def tree_at_def linked_iff)
  let ?aux = "if has_flag (bt_flags t) RCSW_DS_BSTREE_INT then inttree_high_fixup env t z H
              else if has_flag (bt_flags t) RCSW_DS_BSTREE_OS then ostree_count_fixup t z OSTREE_FIXUP_INSERT H
              else Some H"
  have "\<exists>H1. ?aux = Some H1 \<and> aux_only (owned t L) H H1"
    using high_fixup_run [OF st pa, of env] count_fixup_insert_run [OF st pa]
    by (cases "has_flag (bt_flags t) RCSW_DS_BSTREE_INT"; cases "has_flag (bt_flags t) RCSW_DS_BSTREE_OS") auto
  then obtain H1 where H1: "?aux = Some H1" "aux_only (owned t L) H H1" by blast
  have "fix_state (\<lambda>_ _. True) t H L c (Node Leaf z Leaf) H1"
    using stands_aux [OF st H1(2)] aux_only_reshapes [OF H1(2)] by (simp add: del_state_stands)
  moreover have "redn (th_nodes H1) = redn (th_nodes H)" by (simp add: redn_def [abs_def] aux_only_access [OF H1(2)])
  ultimately show ?thesis using plain.rb_insert_run [of t H L c z H1 env] rb [OF True] True H1(1)
    by (auto simp: insert_rb_def del_state_stands)
next
  case False
  have "stands t L [] (plug c (Node Leaf z Leaf)) H" using st by (simp add: stands_plug)
  then show ?thesis using False by (auto simp: insert_rb_def)
qed

end
