(* ===== verification/Tree_Remove.thy ===== *)
theory Tree_Remove
  imports Tree_Update
begin

text \<open>
  The steps of \<open>bstree_delete\<close> (src/ds/bstree.c): the node with at most one child that is unlinked,
  the red-black fix-up at the child, and the node that takes the place of the victim.
\<close>

subsection \<open>Unlinking\<close>

lemma payload_core: "payload ns' = payload ns \<Longrightarrow> core ns' = core ns \<and> isred ns' = isred ns"
proof -
  assume "payload ns' = payload ns"
  then have "map_option (\<lambda>(k, d, r, x). (k, d)) (payload ns' a) = map_option (\<lambda>(k, d, r, x). (k, d)) (payload ns a)"
    "map_option (\<lambda>(k, d, r, x). r) (payload ns' a) = map_option (\<lambda>(k, d, r, x). r) (payload ns a)" for a by simp_all
  then show ?thesis by (simp add: fun_eq_iff core_def isred_def payload_def option.map_comp comp_def)
qed

lemma data_ok_sub: "data_ok H A \<Longrightarrow> B \<subseteq> A \<Longrightarrow> data_ok H B"
  by (auto simp: data_ok_def)

lemma data_ok_cores: "core (th_nodes H') = core (th_nodes H) \<Longrightarrow> th_blocks H' = th_blocks H \<Longrightarrow> data_ok H' A = data_ok H A"
  by (simp add: data_ok_core)

lemma unlink_run:
  assumes st: "stands t L c (Node l y r) H" and one: "l = Leaf \<or> r = Leaf"
  defines "xt \<equiv> if l = Leaf then r else l" and "L' \<equiv> before c @ inorder (if l = Leaf then r else l) @ after c"
  shows "\<exists>ns'. unlink_node t y (addr (bt_nil t) xt) (th_nodes H) = Some ns' \<and> stands t L' c xt (H\<lparr>th_nodes := ns'\<rparr>) \<and>
    par ns' (addr (bt_nil t) xt) = Some (up (bt_root t) c) \<and> payload ns' = payload (th_nodes H) \<and>
    (\<forall>a. a \<notin> owned t L' \<longrightarrow> ns' a = th_nodes H a)"
proof -
  let ?ns = "th_nodes H" and ?nil = "bt_nil t" and ?rt = "bt_root t" and ?q = "up (bt_root t) c"
  let ?x = "addr ?nil xt"
  have L: "L = before c @ inorder (Node l y r) @ after c" using stands_content [OF st] .
  have d: "distinct L" "?nil \<notin> set L" "?rt \<notin> set L" "?nil \<noteq> ?rt" using stands_distinct [OF st] by auto
  have at: "tree_at ?ns ?nil ?rt c (Node l y r)" using st by (simp add: stands_def fix_state_def)
  then have cx: "pctx ?ns ?nil ?rt y c" and lk: "linked ?ns y (addr ?nil l) (addr ?nil r) ?q"
    and xt: "ptree ?ns ?nil y xt" by (auto simp: tree_at_def xt_def)
  have sub: "inorder xt = inorder l @ inorder r" using one by (auto simp: xt_def)
  have sx: "set_tree xt = set_tree l \<union> set_tree r" using one by (auto simp: xt_def)
  have xn: "set_tree xt \<subseteq> set L" "y \<notin> set_tree xt" "y \<in> set L" "distinct (inorder xt)"
    using d(1) L one by (auto simp: xt_def)
  have L': "L' = before c @ inorder l @ inorder r @ after c" using one by (auto simp: L'_def)
  have disj: "set_tree xt \<inter> set (before c @ after c) = {}" using d(1) L one by (auto simp: xt_def)
  obtain qd where qd: "?ns ?q = Some qd" using pctx_up [OF cx] by blast
  have xo: "?x \<in> insert ?nil (set_tree xt)" by (cases xt) auto
  then have "?x \<in> owned t L" using xn by auto
  then obtain xd where xd: "?ns ?x = Some xd" using data_ok_dom [OF stands_data [OF st]] by blast
  have q: "?q \<in> insert ?rt (set (before c @ after c))" using up_mem .
  have ne: "?q \<noteq> ?nil" "?q \<noteq> y" "?q \<noteq> ?x" "?x \<noteq> y" "?q \<notin> set_tree xt" "?x \<noteq> ?rt" "?x \<notin> set (before c @ after c)"
    using q xo d L disj xn(1,2) by auto
  let ?qd = "if tn_left qd = y then qd\<lparr>tn_left := ?x\<rparr> else qd\<lparr>tn_right := ?x\<rparr>"
  let ?ns' = "?ns(?x \<mapsto> xd\<lparr>tn_parent := ?q\<rparr>, ?q \<mapsto> ?qd)"
  have yp: "par ?ns y = Some ?q" using linkedD(3) [OF lk] .
  have root: "tn_left qd = y" if "?q = ?rt"
  proof -
    have "c = []" using that d(3) L by (cases "(?rt, c)" rule: up.cases) auto
    then show ?thesis using cx qd by (auto simp: linked_Some)
  qed
  obtain yd where yd: "?ns y = Some yd" "tn_parent yd = ?q" using yp by (auto simp: par_def)
  have run: "unlink_node t y ?x ?ns = Some ?ns'"
    using yd xd qd ne root by (auto simp: unlink_node_def tree_access tree_update)
  have other: "?ns' a = ?ns a" if "a \<noteq> ?x" "a \<noteq> ?q" for a using that by simp
  have "ptree ?ns' ?nil ?q xt"
  proof (rule ptree_reparent [OF xt xn(4)])
    show "\<exists>nd. ?ns ?x = Some nd \<and> ?ns' ?x = Some (nd\<lparr>tn_parent := ?q\<rparr>)" using xd ne by simp
    show "?ns' a = ?ns a" if "a \<in> set_tree xt" "a \<noteq> ?x" for a by (rule other) (use that ne in auto)
  qed
  moreover have "pctx ?ns' ?nil ?rt ?x c"
  proof (rule pctx_rehang [OF cx])
    show "?ns' a = ?ns a" if "a \<in> insert ?rt (set (before c @ after c))" "a \<noteq> ?q" for a
      by (rule other) (use that ne in auto)
  qed (use d L ne qd xn(3) in \<open>auto simp: tree_access\<close>)
  ultimately have at': "tree_at ?ns' ?nil ?rt c xt" using d L sub by (auto simp: tree_at_def)
  have pl: "payload ?ns' = payload ?ns" using xd qd ne by (auto simp: payload_def fun_eq_iff)
  then have co: "core ?ns' = core ?ns" "isred ?ns' = isred ?ns" using payload_core by blast+
  have "data_ok H (owned t L')" by (rule data_ok_sub [OF stands_data [OF st]]) (use L L' in auto)
  then have "data_ok (H\<lparr>th_nodes := ?ns'\<rparr>) (owned t L')" using data_ok_cores [of "H\<lparr>th_nodes := ?ns'\<rparr>" H] co(1) by simp
  moreover have "lft ?ns' ?nil = lft ?ns ?nil" "rgt ?ns' ?nil = rgt ?ns ?nil" using ne xd by (auto simp: tree_access)
  moreover have "inorder (plug c xt) = L'" using sub L' by simp
  ultimately have "stands t L' c xt (H\<lparr>th_nodes := ?ns'\<rparr>)"
    using st at' co(2) by (simp add: stands_def fix_state_def)
  moreover have "par ?ns' ?x = Some ?q" using ne by (simp add: tree_access)
  moreover have "?ns' a = ?ns a" if "a \<notin> owned t L'" for a
    by (rule other) (use that xo q L' sx in auto)
  ultimately show ?thesis using run pl by blast
qed

subsection \<open>The fix-up of a deletion\<close>

lemma delete_aux_run:
  assumes st: "stands t L c xt H" and pa: "par (th_nodes H) (addr (bt_nil t) xt) = Some (up (bt_root t) c)"
  shows "\<exists>H'. (if has_flag (bt_flags t) RCSW_DS_BSTREE_INT then inttree_high_fixup env t (addr (bt_nil t) xt) H
      else if has_flag (bt_flags t) RCSW_DS_BSTREE_OS
      then ostree_count_fixup t (addr (bt_nil t) xt) OSTREE_FIXUP_DELETE H else Some H) = Some H' \<and>
    aux_only (owned t L) H H'"
  using high_fixup_run [OF st pa, of env] count_fixup_delete_run [OF st pa]
  by (cases "has_flag (bt_flags t) RCSW_DS_BSTREE_INT"; cases "has_flag (bt_flags t) RCSW_DS_BSTREE_OS") auto

text \<open>\<open>y\<close> is out of the tree \<open>plug c xt\<close>; before, \<open>plug c (Node l y r)\<close> was a red-black tree.\<close>

lemma delete_rb_run:
  fixes H :: "('k, 'a) theap"
  assumes st: "stands t L c xt H" and pa: "par (th_nodes H) (addr (bt_nil t) xt) = Some (up (bt_root t) c)"
    and one: "l = Leaf \<or> r = Leaf" and xt: "xt = (if l = Leaf then r else l)"
    and yr: "isred (th_nodes H) y = Some (redn (th_nodes H) y)"
    and rb: "has_flag (bt_flags t) RCSW_DS_BSTREE_RB \<Longrightarrow>
      rb (redn (th_nodes H)) (plug c (Node l y r)) \<and> \<not> red_root (redn (th_nodes H)) (plug c (Node l y r))"
  shows "\<exists>H' T. delete_rb env t y (addr (bt_nil t) xt) H = Some H' \<and> stands t L [] T H' \<and>
    reshapes (owned t L) H H' \<and>
    (has_flag (bt_flags t) RCSW_DS_BSTREE_RB \<longrightarrow> rb (redn (th_nodes H')) T \<and> \<not> red_root (redn (th_nodes H')) T)"
proof (cases "has_flag (bt_flags t) RCSW_DS_BSTREE_RB")
  case True
  let ?R = "redn (th_nodes H)"
  have R: "rb ?R (Node l y r)" "rb_ctx ?R (bh ?R (Node l y r)) c" "c \<noteq> [] \<longrightarrow> \<not> (?R y \<and> above_red ?R c)"
    using rb_plugD [of ?R c "Node l y r"] rb [OF True] by auto
  have bhx: "bh ?R xt = 0" "bh ?R l = 0" "rb ?R xt" using R(1) one xt by auto
  show ?thesis
  proof (cases "?R y")
    case red: True
    then have "l = Leaf" "r = Leaf" using R(1) bhx one by (cases l; cases r; auto)+
    then have "xt = Leaf" "rb_ctx ?R 0 c" using xt R(2) red by auto
    then have "rb ?R (plug c xt) \<and> (c \<noteq> [] \<longrightarrow> \<not> red_root ?R (plug c xt))" by (intro rb_plug) auto
    moreover have "\<not> red_root ?R (plug c xt)" if "c = []" using that \<open>xt = Leaf\<close> by simp
    moreover have "stands t L [] (plug c xt) H" using st by (simp add: stands_plug)
    ultimately show ?thesis using yr red by (auto simp: delete_rb_def)
  next
    case black: False
    obtain H1 where H1: "(if has_flag (bt_flags t) RCSW_DS_BSTREE_INT then inttree_high_fixup env t (addr (bt_nil t) xt) H
      else if has_flag (bt_flags t) RCSW_DS_BSTREE_OS
      then ostree_count_fixup t (addr (bt_nil t) xt) OSTREE_FIXUP_DELETE H else Some H) = Some H1"
      "aux_only (owned t L) H H1"
      using delete_aux_run [OF st pa] by blast
    have R1: "redn (th_nodes H1) = ?R" by (simp add: redn_def [abs_def] aux_only_access [OF H1(2)])
    have "del_state t H L c xt H1"
      using stands_aux [OF st H1(2)] aux_only_reshapes [OF H1(2)] by (simp add: del_state_stands)
    moreover have "rb_kids ?R xt" using bhx(3) by (cases xt) auto
    moreover have "rb_ctx ?R (bh ?R xt + 1) c" using R(2) black bhx by simp
    moreover have "xt = Leaf" if "\<not> red_root ?R xt" using that bhx(1) by (cases xt) auto
    then have "nil_parent (th_nodes H1) (bt_nil t) (bt_root t) c xt" if "\<not> red_root ?R xt"
      using that pa by (auto simp: nil_parent_def aux_only_access [OF H1(2)])
    ultimately have "del_ok t H L c xt H1" unfolding del_ok_def R1 by blast
    then obtain H2 T where H2: "rbtree_delete_fixup env t (addr (bt_nil t) xt) H1 = Some H2" "del_state t H L [] T H2"
        "rb (redn (th_nodes H2)) T" "\<not> red_root (redn (th_nodes H2)) T"
      using rbtree_delete_fixup_ok by blast
    have "delete_rb env t y (addr (bt_nil t) xt) H = Some H2"
      using yr black True H1(1) H2(1) by (simp add: delete_rb_def)
    then show ?thesis using H2 by (auto simp: del_state_stands)
  qed
next
  case False
  have "stands t L [] (plug c xt) H" using st by (simp add: stands_plug)
  then show ?thesis using False yr by (auto simp: delete_rb_def)
qed

subsection \<open>Taking the place of the victim\<close>

lemma replace_run:
  assumes st: "stands t L c (Node l v r) H" and y: "th_nodes H y = Some yd" "y \<notin> owned t L"
    and yc: "tn_data yd = Some b" "th_blocks H b = Some w"
  defines "L' \<equiv> before c @ inorder (Node l y r) @ after c"
  shows "\<exists>ns'. replace_node y v (th_nodes H) = Some ns' \<and> stands t L' c (Node l y r) (H\<lparr>th_nodes := ns'\<rparr>) \<and>
    core ns' = core (th_nodes H) \<and> redn ns' = (redn (th_nodes H))(y := redn (th_nodes H) v) \<and>
    (\<forall>a. a \<notin> owned t L' \<longrightarrow> ns' a = th_nodes H a)"
proof -
  let ?ns = "th_nodes H" and ?nil = "bt_nil t" and ?rt = "bt_root t" and ?q = "up (bt_root t) c"
  let ?al = "addr ?nil l" and ?ar = "addr ?nil r"
  have L: "L = before c @ inorder (Node l v r) @ after c" using stands_content [OF st] .
  have d: "distinct L" "?nil \<notin> set L" "?rt \<notin> set L" "?nil \<noteq> ?rt" using stands_distinct [OF st] by auto
  have at: "tree_at ?ns ?nil ?rt c (Node l v r)" using st by (simp add: stands_def fix_state_def)
  then have cx: "pctx ?ns ?nil ?rt v c" and lk: "linked ?ns v ?al ?ar ?q" and sub: "ptree ?ns ?nil v l" "ptree ?ns ?nil v r"
    by (auto simp: tree_at_def)
  have al: "?al \<in> insert ?nil (set_tree l)" and ar: "?ar \<in> insert ?nil (set_tree r)" by (cases l, auto, cases r, auto)
  have q: "?q \<in> insert ?rt (set (before c @ after c))" using up_mem .
  obtain vd where vd: "?ns v = Some vd" "tn_left vd = ?al" "tn_right vd = ?ar" "tn_parent vd = ?q"
    using lk by (auto simp: linked_Some)
  have own: "?al \<in> owned t L" "?ar \<in> owned t L" "?q \<in> owned t L" using al ar q L by auto
  obtain ld rd qd where nd: "?ns ?al = Some ld" "?ns ?ar = Some rd" "?ns ?q = Some qd"
    using data_ok_dom [OF stands_data [OF st]] own by meson
  have vL: "v \<in> set L" "set_tree l \<subseteq> set L" "set_tree r \<subseteq> set L" "set (before c @ after c) \<subseteq> set L"
    using L by auto
  have yn: "y \<noteq> v" "y \<noteq> ?al" "y \<noteq> ?ar" "y \<noteq> ?q" "y \<noteq> ?nil" "y \<noteq> ?rt" "y \<notin> set L"
    using y(2) own vL(1) by auto
  have vn: "v \<noteq> ?nil" "v \<noteq> ?rt" using d vL(1) by auto
  have dj: "v \<notin> set_tree l" "v \<notin> set_tree r" "v \<notin> set (before c @ after c)" "set_tree l \<inter> set_tree r = {}"
    "set_tree l \<inter> set (before c @ after c) = {}" "set_tree r \<inter> set (before c @ after c) = {}"
    using d(1) L by auto
  have qn: "?q \<noteq> ?nil" "v \<noteq> ?q" using q d vL dj(3) vn by auto
  have qa: "?q \<noteq> ?al" "?q \<noteq> ?ar" "v \<noteq> ?al" "v \<noteq> ?ar"
    using q al ar qn dj vL(2,3) d(3) vn(1) by auto
  note ne = yn vn qn qa
  have nl: "?nil \<notin> set_tree l \<union> set_tree r" "?rt \<notin> set_tree l \<union> set_tree r" "y \<notin> set_tree l \<union> set_tree r"
    using d(2,3) yn(7) vL(2,3) by blast+
  have lr: "?ar \<notin> set_tree l" "?al \<notin> set_tree r" "?q \<notin> set_tree l" "?q \<notin> set_tree r"
    using al ar q dj(4-6) nl(1,2) by auto
  have cn: "y \<notin> insert ?rt (set (before c @ after c))" "?al \<notin> insert ?rt (set (before c @ after c))"
      "?ar \<notin> insert ?rt (set (before c @ after c))"
    using al ar yn(6,7) vL(4) dj(5,6) nl(2) d(2,4) by auto
  let ?yd = "yd\<lparr>tn_left := ?al, tn_right := ?ar, tn_parent := ?q, tn_red := tn_red vd\<rparr>"
  let ?qd = "if tn_left qd = v then qd\<lparr>tn_left := y\<rparr> else qd\<lparr>tn_right := y\<rparr>"
  let ?ns' = "?ns(y \<mapsto> ?yd, ?ar \<mapsto> rd\<lparr>tn_parent := y\<rparr>, ?al \<mapsto> ld\<lparr>tn_parent := y\<rparr>, ?q \<mapsto> ?qd)"
  have run: "replace_node y v ?ns = Some ?ns'"
  proof (cases "?al = ?ar")
    case True
    then have "ld = rd" using nd by simp
    then show ?thesis using vd nd y ne True
      by (auto simp: replace_node_def tree_access tree_update fun_upd_twist)
  next
    case False
    then show ?thesis using vd nd y ne
      by (auto simp: replace_node_def tree_access tree_update fun_upd_twist)
  qed
  have other: "?ns' a = ?ns a" if "a \<noteq> y" "a \<noteq> ?al" "a \<noteq> ?ar" "a \<noteq> ?q" for a using that by simp
  have "ptree ?ns' ?nil y l"
  proof (rule ptree_reparent [OF sub(1)])
    show "distinct (inorder l)" using d(1) L by simp
    show "\<exists>nd. ?ns ?al = Some nd \<and> ?ns' ?al = Some (nd\<lparr>tn_parent := y\<rparr>)" using nd ne by simp
    show "?ns' a = ?ns a" if "a \<in> set_tree l" "a \<noteq> ?al" for a
      by (rule other) (use that lr nl(3) in auto)
  qed
  moreover have "ptree ?ns' ?nil y r"
  proof (rule ptree_reparent [OF sub(2)])
    show "distinct (inorder r)" using d(1) L by simp
    show "\<exists>nd. ?ns ?ar = Some nd \<and> ?ns' ?ar = Some (nd\<lparr>tn_parent := y\<rparr>)" if "r \<noteq> Leaf"
    proof -
      have "?ar \<in> set_tree r" using that by (cases r) auto
      then have "?ar \<noteq> ?al" using al d L by auto
      then show ?thesis using nd ne by simp
    qed
    show "?ns' a = ?ns a" if "a \<in> set_tree r" "a \<noteq> ?ar" for a
      by (rule other) (use that lr nl(3) in auto)
  qed
  moreover have "pctx ?ns' ?nil ?rt y c"
  proof (rule pctx_rehang [OF cx])
    show "?ns' a = ?ns a" if "a \<in> insert ?rt (set (before c @ after c))" "a \<noteq> ?q" for a
      by (rule other) (use that cn in auto)
  qed (use d L ne nd in \<open>auto simp: tree_access\<close>)
  moreover have "linked ?ns' y ?al ?ar ?q" using ne by (simp add: linked_Some)
  moreover have "distinct L'" "?nil \<notin> set L'" "?rt \<notin> set L'" using d L ne by (auto simp: L'_def)
  ultimately have at': "tree_at ?ns' ?nil ?rt c (Node l y r)" using d by (simp add: tree_at_def L'_def)
  have co: "core ?ns' = core ?ns" using y nd ne by (auto simp: core_def fun_eq_iff)
  have red: "isred ?ns' a = (if a = y then isred ?ns v else isred ?ns a)" for a
    using y vd nd ne by (auto simp: isred_def)
  then have "redn ?ns' = (redn ?ns)(y := redn ?ns v)" by (auto simp: redn_def fun_eq_iff)
  moreover have "data_ok H (owned t L')"
    using stands_data [OF st] y yc L by (auto simp: L'_def data_ok_def)
  then have "data_ok (H\<lparr>th_nodes := ?ns'\<rparr>) (owned t L')" using data_ok_cores [of "H\<lparr>th_nodes := ?ns'\<rparr>" H] co by simp
  moreover have "lft ?ns' ?nil = lft ?ns ?nil" "rgt ?ns' ?nil = rgt ?ns ?nil" using ne nd by (auto simp: tree_access)
  ultimately have "stands t L' c (Node l y r) (H\<lparr>th_nodes := ?ns'\<rparr>)"
    using st at' red ne by (simp add: stands_def fix_state_def L'_def)
  moreover have "?ns' a = ?ns a" if "a \<notin> owned t L'" for a
    by (rule other) (use that al ar q in \<open>auto simp: L'_def\<close>)
  ultimately show ?thesis using run co \<open>redn ?ns' = (redn ?ns)(y := redn ?ns v)\<close> by blast
qed

text \<open>The colours after the replacement.\<close>

lemma rb_rename:
  assumes "rb R (plug c (Node l v r))" and "\<not> red_root R (plug c (Node l v r))"
    and "y \<notin> set (before c) \<union> set (after c) \<union> set_tree l \<union> set_tree r"
  shows "rb (R(y := R v)) (plug c (Node l y r)) \<and> \<not> red_root (R(y := R v)) (plug c (Node l y r))"
proof -
  let ?R = "R(y := R v)"
  have o: "rb R (Node l v r)" "rb_ctx R (bh R (Node l v r)) c" "c \<noteq> [] \<longrightarrow> \<not> (red_root R (Node l v r) \<and> above_red R c)"
    using rb_plugD [OF assms(1)] assms(2) by blast+
  have "rb ?R (Node l y r)" using o(1) assms(3) by simp
  moreover have "bh ?R (Node l y r) = bh R (Node l v r)" using assms(3) by simp
  then have "rb_ctx ?R (bh ?R (Node l y r)) c" using o(2) assms(3) by simp
  moreover have "c = [] \<or> \<not> (red_root ?R (Node l y r) \<and> above_red ?R c)" using o(3) assms(3) by auto
  ultimately have "rb ?R (plug c (Node l y r)) \<and> (c \<noteq> [] \<longrightarrow> \<not> red_root ?R (plug c (Node l y r)))" by (rule rb_plug)
  moreover have "\<not> R v" if "c = []" using that assms(2) by simp
  ultimately show ?thesis by (cases "c = []") auto
qed

subsection \<open>The successor\<close>

fun leftmost :: "crumb list \<Rightarrow> nat tree \<Rightarrow> crumb list \<times> nat tree" where
  "leftmost c (Node (Node l b r) a s) = leftmost (GoLeft a s # c) (Node l b r)"
| "leftmost c (Node Leaf a s) = (c, Node Leaf a s)"
| "leftmost c Leaf = (c, Leaf)"

lemma leftmost_plug: "leftmost c T = (c', T') \<Longrightarrow> plug c' T' = plug c T \<and> before c' = before c"
  by (induction c T rule: leftmost.induct) auto

lemma leftmost_node: "leftmost c T = (c', T') \<Longrightarrow> T \<noteq> Leaf \<Longrightarrow> \<exists>y r. T' = Node Leaf y r"
  by (induction c T rule: leftmost.induct) auto

lemma leftmost_loop:
  assumes "ptree ns nil p T" and "T \<noteq> Leaf" and "nil \<notin> set_tree T" and "leftmost c T = (c', T')"
  shows "while_loop (leftmost_cond nil ns) (lft ns) (addr nil T) = Some (addr nil T')"
  using assms
proof (induction c T arbitrary: p rule: leftmost.induct)
  case (1 c l b r a s)
  have "lft ns a = Some b" "a \<noteq> nil" "b \<noteq> nil" using "1.prems" by (auto simp: linked_iff)
  moreover have "while_loop (leftmost_cond nil ns) (lft ns) b = Some (addr nil T')"
    using "1.IH" [of a] "1.prems" by simp
  ultimately show ?case by (subst while_loop.simps) (simp add: leftmost_cond_def)
next
  case (2 c a s)
  then have "lft ns a = Some nil" "T' = Node Leaf a s" by (auto simp: linked_iff)
  then show ?case by (subst while_loop.simps) (simp add: leftmost_cond_def)
qed simp

lemma successor_run:
  assumes "stands t L c (Node l v r) H" and "r \<noteq> Leaf" and "leftmost (GoRight l v # c) r = (c', T')"
  shows "bstree_node_successor t v (th_nodes H) = Some (addr (bt_nil t) T')"
proof -
  have at: "tree_at (th_nodes H) (bt_nil t) (bt_root t) c (Node l v r)" using assms(1) by (simp add: stands_def fix_state_def)
  then have p: "ptree (th_nodes H) (bt_nil t) v r" "bt_nil t \<notin> set_tree r"
    "rgt (th_nodes H) v = Some (addr (bt_nil t) r)" by (auto simp: tree_at_def linked_iff)
  then have "addr (bt_nil t) r \<noteq> bt_nil t" using assms(2) by (cases r) auto
  then show ?thesis using p(3) leftmost_loop [OF p(1) assms(2) p(2) assms(3)] by (simp add: bstree_node_successor_def)
qed

end
