(* ===== verification/Tree_Memory.thy ===== *)
theory Tree_Memory
  imports Bstree Pool
begin

text \<open>
  The memory of a tree: nodes and datablocks from \<open>malloc\<close> or from pools of the application.
  Allocation answers with an address that is not in use or with \<open>NULL\<close>, and the creation and
  destruction of a node touch nothing else.
\<close>

subsection \<open>The memory of a tree\<close>

text \<open>
  \<open>malloc\<close> returns an address of the 64-bit address space where nothing is yet.
\<close>

definition fresh_memory :: "('k, 'a) tenv \<Rightarrow> bool" where
  "fresh_memory env \<longleftrightarrow>
     (\<forall>H a nd. te_node env H = Some (a, nd) \<longrightarrow> th_nodes H a = None \<and> 0 < a \<and> a < 2 ^ 64) \<and>
     (\<forall>H b v. te_block env H = Some (b, v) \<longrightarrow> th_blocks H b = None)"

text \<open>The nodes \<open>A\<close> and the blocks \<open>B\<close> are in use.\<close>

definition nodes_used :: "'k bstree \<Rightarrow> ('k, 'a) theap \<Rightarrow> nat set \<Rightarrow> bool" where
  "nodes_used t H A \<longleftrightarrow> A \<subseteq> dom (th_nodes H) \<and> A \<subseteq> {1..<2 ^ 64} \<and>
     (has_flag (bt_flags t) RCSW_NOALLOC_META \<longrightarrow>
       pool_ok (bs_node_map (bt_space t)) (bs_nodes (bt_space t)) (node_slots t) A \<and> 0 < node_slots t \<and>
       region (bs_nodes (bt_space t)) (node_slots t) \<subseteq> dom (th_nodes H) \<inter> {1..<2 ^ 64})"

definition blocks_used :: "'k bstree \<Rightarrow> ('k, 'a) theap \<Rightarrow> nat set \<Rightarrow> bool" where
  "blocks_used t H B \<longleftrightarrow> B \<subseteq> dom (th_blocks H) \<and>
     (has_flag (bt_flags t) RCSW_NOALLOC_DATA \<longrightarrow>
       pool_ok (bs_db_map (bt_space t)) (bs_datablocks (bt_space t)) (node_slots t) B \<and> 0 < node_slots t \<and>
       region (bs_datablocks (bt_space t)) (node_slots t) \<subseteq> dom (th_blocks H))"

text \<open>Two handles that differ in the allocation maps only.\<close>

definition same_tree :: "'k bstree \<Rightarrow> 'k bstree \<Rightarrow> bool" where
  "same_tree t t' \<longleftrightarrow> t' = t\<lparr>bt_space := bt_space t'\<rparr> \<and>
     bs_nodes (bt_space t') = bs_nodes (bt_space t) \<and>
     bs_datablocks (bt_space t') = bs_datablocks (bt_space t)"

lemma same_treeD:
  assumes "same_tree t t'"
  shows "bt_flags t' = bt_flags t" "bt_max_elts t' = bt_max_elts t" "bt_current t' = bt_current t"
    "bt_root t' = bt_root t" "bt_nil t' = bt_nil t" "bt_cmpkey t' = bt_cmpkey t" "bt_depth t' = bt_depth t"
    "node_slots t' = node_slots t" "bs_nodes (bt_space t') = bs_nodes (bt_space t)"
    "bs_datablocks (bt_space t') = bs_datablocks (bt_space t)" "bt_elt_size t' = bt_elt_size t"
proof -
  obtain s where "t' = t\<lparr>bt_space := s\<rparr>" using assms unfolding same_tree_def by blast
  then show "bt_flags t' = bt_flags t" "bt_max_elts t' = bt_max_elts t" "bt_current t' = bt_current t"
    "bt_root t' = bt_root t" "bt_nil t' = bt_nil t" "bt_cmpkey t' = bt_cmpkey t" "bt_depth t' = bt_depth t"
    "node_slots t' = node_slots t" "bt_elt_size t' = bt_elt_size t" by (simp_all add: node_slots_def)
qed (use assms in \<open>auto simp: same_tree_def\<close>)

lemma same_tree_refl [simp]: "same_tree t t"
  by (simp add: same_tree_def)

lemma same_tree_trans: "same_tree t t' \<Longrightarrow> same_tree t' t'' \<Longrightarrow> same_tree t t''"
  unfolding same_tree_def by (metis bstree.surjective bstree.update_convs(2))

lemma nodes_used_other:
  assumes "nodes_used t H A" and "same_tree t t'" and "bs_node_map (bt_space t') = bs_node_map (bt_space t)"
    and "dom (th_nodes H') = dom (th_nodes H)"
  shows "nodes_used t' H' A"
  using assms(1,3,4) same_treeD [OF assms(2)] by (simp add: nodes_used_def)

lemma blocks_used_other:
  assumes "blocks_used t H B" and "same_tree t t'" and "bs_db_map (bt_space t') = bs_db_map (bt_space t)"
    and "dom (th_blocks H') = dom (th_blocks H)"
  shows "blocks_used t' H' B"
  using assms(1,3,4) same_treeD [OF assms(2)] by (simp add: blocks_used_def)

lemma search_index_total: "0 < n \<Longrightarrow> \<exists>i. search_index rnd n = Some i \<and> i < n"
  using hash_fnv1a_4 [of "random_bytes rnd"] by (auto simp: search_index_def random_bytes_def)

subsection \<open>Allocation\<close>

lemma node_alloc_cases:
  assumes m: "fresh_memory env" and sp: "nodes_used t H A"
  shows "bstree_node_alloc env t H = Some (0, t, H) \<or>
    (\<exists>a t' ns'. bstree_node_alloc env t H = Some (a, t', H\<lparr>th_nodes := ns'\<rparr>) \<and> a \<notin> A \<and> 0 < a \<and>
      same_tree t t' \<and> bs_db_map (bt_space t') = bs_db_map (bt_space t) \<and>
      (\<forall>x. x \<noteq> a \<longrightarrow> ns' x = th_nodes H x) \<and> nodes_used t' (H\<lparr>th_nodes := ns'\<rparr>) (insert a A))"
proof (cases "has_flag (bt_flags t) RCSW_NOALLOC_META")
  case True
  let ?sp = "bt_space t" and ?n = "node_slots t"
  have pool: "pool_ok (bs_node_map ?sp) (bs_nodes ?sp) ?n A" "0 < ?n"
    "region (bs_nodes ?sp) ?n \<subseteq> dom (th_nodes H) \<inter> {1..<2 ^ 64}" "A \<subseteq> dom (th_nodes H)" "A \<subseteq> {1..<2 ^ 64}"
    using sp True by (auto simp: nodes_used_def)
  obtain i0 where i0: "search_index (te_rnd_node env H) ?n = Some i0" "i0 < ?n"
    using search_index_total [OF pool(2)] by blast
  have "length (bs_node_map ?sp) = ?n" "?n < 2 ^ 31" using pool(1) by (simp_all add: pool_ok_def)
  then consider "allocm_probe (bs_node_map ?sp) ?n i0 = Some (-1)" | "allocm_free (bs_node_map ?sp) \<noteq> {}"
    using allocm_probe_cases [OF _ i0(2)] by blast
  then show ?thesis
  proof cases
    case 1
    then show ?thesis using True i0 by (simp add: bstree_node_alloc_def Let_def)
  next
    case 2
    then obtain i m' where i: "allocm_probe (bs_node_map ?sp) ?n i0 = Some (int i)" "i < ?n" "bs_nodes ?sp + i \<notin> A"
        "allocm_mark_inuse (bs_node_map ?sp) (int i) = Some m'"
        "pool_ok m' (bs_nodes ?sp) ?n (insert (bs_nodes ?sp + i) A)"
      using pool_take_free [OF pool(1) _ i0(2)] by blast
    let ?t = "t\<lparr>bt_space := ?sp\<lparr>bs_node_map := m'\<rparr>\<rparr>" and ?a = "bs_nodes ?sp + i"
    have "bstree_node_alloc env t H = Some (?a, ?t, H\<lparr>th_nodes := th_nodes H\<rparr>)"
      using True i(1,4) i0 by (simp add: bstree_node_alloc_def Let_def)
    moreover have reg: "?a \<in> region (bs_nodes ?sp) ?n" using i(2) by (simp add: region_def)
    then have pos: "?a \<in> {1..<2 ^ 64}" using pool(3) by blast
    then have "0 < ?a" unfolding atLeastLessThan_iff by linarith
    moreover from pos reg have "nodes_used ?t (H\<lparr>th_nodes := th_nodes H\<rparr>) (insert ?a A)"
      using pool i(5) by (auto simp: nodes_used_def node_slots_def)
    moreover have "same_tree t ?t" by (simp add: same_tree_def)
    ultimately show ?thesis using i(3)
      by (intro disjI2, rule_tac exI [of _ ?a], rule_tac exI [of _ ?t], rule_tac exI [of _ "th_nodes H"]) simp
  qed
next
  case False
  have none: "\<not> noalloc RCSW_NONE" "\<not> has_flag RCSW_NONE RCSW_ZALLOC" by (simp_all add: noalloc_def RCSW_NONE_def)
  show ?thesis
  proof (cases "te_node env H")
    case None
    then show ?thesis using False none by (simp add: bstree_node_alloc_def rcsw_alloc_def Let_def)
  next
    case (Some p)
    obtain a nd where p: "p = (a, nd)" by (cases p)
    let ?ns = "(th_nodes H)(a \<mapsto> nd)"
    have new: "th_nodes H a = None" "0 < a" "a < 2 ^ 64" using m Some p unfolding fresh_memory_def by blast+
    then have "a \<notin> A" using sp by (auto simp: nodes_used_def)
    moreover have "bstree_node_alloc env t H = Some (a, t, H\<lparr>th_nodes := ?ns\<rparr>)"
      using False none Some p by (simp add: bstree_node_alloc_def rcsw_alloc_def Let_def)
    moreover have "nodes_used t (H\<lparr>th_nodes := ?ns\<rparr>) (insert a A)"
      using sp False new by (auto simp: nodes_used_def)
    ultimately show ?thesis using new(2)
      by (intro disjI2, rule_tac exI [of _ a], rule_tac exI [of _ t], rule_tac exI [of _ ?ns]) simp
  qed
qed

lemma block_alloc_cases:
  assumes m: "fresh_memory env" and sp: "blocks_used t H B"
  shows "bstree_node_datablock_alloc env t H = Some (None, t, H) \<or>
    (\<exists>b t' bs'. bstree_node_datablock_alloc env t H = Some (Some b, t', H\<lparr>th_blocks := bs'\<rparr>) \<and> b \<notin> B \<and>
      same_tree t t' \<and> bs_node_map (bt_space t') = bs_node_map (bt_space t) \<and>
      (\<forall>x. x \<noteq> b \<longrightarrow> bs' x = th_blocks H x) \<and> blocks_used t' (H\<lparr>th_blocks := bs'\<rparr>) (insert b B))"
proof (cases "has_flag (bt_flags t) RCSW_NOALLOC_DATA")
  case True
  let ?sp = "bt_space t" and ?n = "node_slots t"
  have pool: "pool_ok (bs_db_map ?sp) (bs_datablocks ?sp) ?n B" "0 < ?n"
    "region (bs_datablocks ?sp) ?n \<subseteq> dom (th_blocks H)" "B \<subseteq> dom (th_blocks H)"
    using sp True by (auto simp: blocks_used_def)
  obtain i0 where i0: "search_index (te_rnd_block env H) ?n = Some i0" "i0 < ?n"
    using search_index_total [OF pool(2)] by blast
  have "length (bs_db_map ?sp) = ?n" "?n < 2 ^ 31" using pool(1) by (simp_all add: pool_ok_def)
  then consider "allocm_probe (bs_db_map ?sp) ?n i0 = Some (-1)" | "allocm_free (bs_db_map ?sp) \<noteq> {}"
    using allocm_probe_cases [OF _ i0(2)] by blast
  then show ?thesis
  proof cases
    case 1
    then show ?thesis using True i0 by (simp add: bstree_node_datablock_alloc_def Let_def)
  next
    case 2
    then obtain i m' where i: "allocm_probe (bs_db_map ?sp) ?n i0 = Some (int i)" "i < ?n" "bs_datablocks ?sp + i \<notin> B"
        "allocm_mark_inuse (bs_db_map ?sp) (int i) = Some m'"
        "pool_ok m' (bs_datablocks ?sp) ?n (insert (bs_datablocks ?sp + i) B)"
      using pool_take_free [OF pool(1) _ i0(2)] by blast
    let ?t = "t\<lparr>bt_space := ?sp\<lparr>bs_db_map := m'\<rparr>\<rparr>" and ?b = "bs_datablocks ?sp + i"
    have "bstree_node_datablock_alloc env t H = Some (Some ?b, ?t, H\<lparr>th_blocks := th_blocks H\<rparr>)"
      using True i(1,4) i0 by (simp add: bstree_node_datablock_alloc_def Let_def)
    moreover have "?b \<in> region (bs_datablocks ?sp) ?n" using i(2) by (simp add: region_def)
    then have "blocks_used ?t (H\<lparr>th_blocks := th_blocks H\<rparr>) (insert ?b B)"
      using pool i(5) by (auto simp: blocks_used_def node_slots_def)
    moreover have "same_tree t ?t" by (simp add: same_tree_def)
    ultimately show ?thesis using i(3)
      by (intro disjI2, rule_tac exI [of _ ?b], rule_tac exI [of _ ?t], rule_tac exI [of _ "th_blocks H"]) simp
  qed
next
  case False
  have none: "\<not> noalloc RCSW_NONE" "\<not> has_flag RCSW_NONE RCSW_ZALLOC" by (simp_all add: noalloc_def RCSW_NONE_def)
  show ?thesis
  proof (cases "te_block env H")
    case None
    then show ?thesis using False none by (simp add: bstree_node_datablock_alloc_def rcsw_alloc_def Let_def)
  next
    case (Some p)
    obtain b v where p: "p = (b, v)" by (cases p)
    let ?bs = "(th_blocks H)(b \<mapsto> v)"
    have new: "th_blocks H b = None" using m Some p unfolding fresh_memory_def by blast
    then have "b \<notin> B" using sp by (auto simp: blocks_used_def)
    moreover have "bstree_node_datablock_alloc env t H = Some (Some b, t, H\<lparr>th_blocks := ?bs\<rparr>)"
      using False none Some p by (simp add: bstree_node_datablock_alloc_def rcsw_alloc_def Let_def)
    moreover have "blocks_used t (H\<lparr>th_blocks := ?bs\<rparr>) (insert b B)"
      using sp False by (auto simp: blocks_used_def)
    ultimately show ?thesis
      by (intro disjI2, rule_tac exI [of _ b], rule_tac exI [of _ t], rule_tac exI [of _ ?bs]) simp
  qed
qed

subsection \<open>Deallocation\<close>

lemma node_dealloc_run:
  assumes sp: "nodes_used t H A" and a: "a \<in> A"
  shows "\<exists>t' ns'. bstree_node_dealloc t a H = Some (t', H\<lparr>th_nodes := ns'\<rparr>) \<and> same_tree t t' \<and>
    bs_db_map (bt_space t') = bs_db_map (bt_space t) \<and> (\<forall>x. x \<noteq> a \<longrightarrow> ns' x = th_nodes H x) \<and>
    nodes_used t' (H\<lparr>th_nodes := ns'\<rparr>) (A - {a})"
proof (cases "has_flag (bt_flags t) RCSW_NOALLOC_META")
  case True
  let ?sp = "bt_space t"
  obtain m' where m': "allocm_mark_free (bs_node_map ?sp) (int a - int (bs_nodes ?sp)) = Some m'"
      "pool_ok m' (bs_nodes ?sp) (node_slots t) (A - {a})"
    using pool_give [OF _ a] sp True unfolding nodes_used_def by blast
  let ?t = "t\<lparr>bt_space := ?sp\<lparr>bs_node_map := m'\<rparr>\<rparr>"
  have "bstree_node_dealloc t a H = Some (?t, H\<lparr>th_nodes := th_nodes H\<rparr>)"
    using True m'(1) by (simp add: bstree_node_dealloc_def Let_def)
  moreover have "nodes_used ?t (H\<lparr>th_nodes := th_nodes H\<rparr>) (A - {a})"
    using sp m'(2) True by (auto simp: nodes_used_def node_slots_def)
  moreover have "same_tree t ?t" by (simp add: same_tree_def)
  ultimately show ?thesis
    by (rule_tac exI [of _ ?t], rule_tac exI [of _ "th_nodes H"]) simp
next
  case False
  have "rcsw_free (Some a) RCSW_NONE" by (simp add: rcsw_free_def noalloc_def RCSW_NONE_def)
  then have "bstree_node_dealloc t a H = Some (t, H\<lparr>th_nodes := (th_nodes H)(a := None)\<rparr>)"
    using sp a False by (auto simp: bstree_node_dealloc_def Let_def nodes_used_def)
  moreover have "nodes_used t (H\<lparr>th_nodes := (th_nodes H)(a := None)\<rparr>) (A - {a})"
    using sp False by (auto simp: nodes_used_def)
  ultimately show ?thesis
    by (rule_tac exI [of _ t], rule_tac exI [of _ "(th_nodes H)(a := None)"]) simp
qed

lemma block_dealloc_run:
  assumes sp: "blocks_used t H B" and b: "b \<in> B"
  shows "\<exists>t' bs'. bstree_node_datablock_dealloc t (Some b) H = Some (t', H\<lparr>th_blocks := bs'\<rparr>) \<and> same_tree t t' \<and>
    bs_node_map (bt_space t') = bs_node_map (bt_space t) \<and> (\<forall>x. x \<noteq> b \<longrightarrow> bs' x = th_blocks H x) \<and>
    blocks_used t' (H\<lparr>th_blocks := bs'\<rparr>) (B - {b})"
proof (cases "has_flag (bt_flags t) RCSW_NOALLOC_DATA")
  case True
  let ?sp = "bt_space t"
  obtain m' where m': "allocm_mark_free (bs_db_map ?sp) (int b - int (bs_datablocks ?sp)) = Some m'"
      "pool_ok m' (bs_datablocks ?sp) (node_slots t) (B - {b})"
    using pool_give [OF _ b] sp True unfolding blocks_used_def by blast
  let ?t = "t\<lparr>bt_space := ?sp\<lparr>bs_db_map := m'\<rparr>\<rparr>"
  have "bstree_node_datablock_dealloc t (Some b) H = Some (?t, H\<lparr>th_blocks := th_blocks H\<rparr>)"
    using True m'(1) by (simp add: bstree_node_datablock_dealloc_def Let_def)
  moreover have "blocks_used ?t (H\<lparr>th_blocks := th_blocks H\<rparr>) (B - {b})"
    using sp m'(2) True by (auto simp: blocks_used_def node_slots_def)
  moreover have "same_tree t ?t" by (simp add: same_tree_def)
  ultimately show ?thesis
    by (rule_tac exI [of _ ?t], rule_tac exI [of _ "th_blocks H"]) simp
next
  case False
  have "rcsw_free (Some b) RCSW_NONE" by (simp add: rcsw_free_def noalloc_def RCSW_NONE_def)
  then have "bstree_node_datablock_dealloc t (Some b) H = Some (t, H\<lparr>th_blocks := (th_blocks H)(b := None)\<rparr>)"
    using sp b False by (auto simp: bstree_node_datablock_dealloc_def Let_def blocks_used_def)
  moreover have "blocks_used t (H\<lparr>th_blocks := (th_blocks H)(b := None)\<rparr>) (B - {b})"
    using sp False by (auto simp: blocks_used_def)
  ultimately show ?thesis
    by (rule_tac exI [of _ t], rule_tac exI [of _ "(th_blocks H)(b := None)"]) simp
qed

subsection \<open>Creation and destruction of nodes\<close>

text \<open>The new node \<open>r\<close> with its block \<open>b\<close>.\<close>

definition new_node ::
  "'k bstree \<Rightarrow> nat \<Rightarrow> 'k option \<Rightarrow> 'a option \<Rightarrow> ('k, 'a) theap \<Rightarrow> nat \<Rightarrow> nat \<Rightarrow> bool" where
  "new_node t parent key data H r b \<longleftrightarrow> (\<exists>nd v. th_nodes H r = Some nd \<and> tn_data nd = Some b \<and>
     th_blocks H b = Some v \<and> (\<forall>k. key = Some k \<longrightarrow> tn_key nd = k) \<and> (\<forall>d. data = Some d \<longrightarrow> v = d) \<and>
     tn_parent nd = parent \<and> tn_left nd = bt_nil t \<and> tn_right nd = bt_nil t)"

lemma put_data_run:
  "th_nodes H a = Some nd \<Longrightarrow>
   on_nodes (put_data a d) H = Some (H\<lparr>th_nodes := (th_nodes H)(a \<mapsto> nd\<lparr>tn_data := d\<rparr>)\<rparr>)"
  by (simp add: on_nodes_def put_data_def node_upd_def)

lemma node_create_cases:
  assumes m: "fresh_memory env" and A: "nodes_used t H A" and B: "blocks_used t H B"
  shows "\<exists>r t' H'. bstree_node_create env t parent key data H = Some (r, t', H') \<and> same_tree t t' \<and>
    (\<forall>x \<in> A. th_nodes H' x = th_nodes H x) \<and> (\<forall>x \<in> B. th_blocks H' x = th_blocks H x) \<and>
    (if r = 0 then nodes_used t' H' A \<and> blocks_used t' H' B
     else r \<notin> A \<and> (\<exists>b. b \<notin> B \<and> new_node t parent key data H' r b \<and>
       nodes_used t' H' (insert r A) \<and> blocks_used t' H' (insert b B)))"
proof (rule disjE [OF node_alloc_cases [OF m A]])
  assume "bstree_node_alloc env t H = Some (0, t, H)"
  then have "bstree_node_create env t parent key data H = Some (0, t, H)"
    by (simp add: bstree_node_create_def bstree_node_destroy_def)
  then show ?thesis using A B by auto
next
  assume "\<exists>a t' ns'. bstree_node_alloc env t H = Some (a, t', H\<lparr>th_nodes := ns'\<rparr>) \<and> a \<notin> A \<and> 0 < a \<and>
      same_tree t t' \<and> bs_db_map (bt_space t') = bs_db_map (bt_space t) \<and>
      (\<forall>x. x \<noteq> a \<longrightarrow> ns' x = th_nodes H x) \<and> nodes_used t' (H\<lparr>th_nodes := ns'\<rparr>) (insert a A)"
  then obtain a t1 ns1 where a: "bstree_node_alloc env t H = Some (a, t1, H\<lparr>th_nodes := ns1\<rparr>)" "a \<notin> A" "0 < a"
      "same_tree t t1" "bs_db_map (bt_space t1) = bs_db_map (bt_space t)"
      "\<forall>x. x \<noteq> a \<longrightarrow> ns1 x = th_nodes H x" "nodes_used t1 (H\<lparr>th_nodes := ns1\<rparr>) (insert a A)"
    by blast
  let ?H1 = "H\<lparr>th_nodes := ns1\<rparr>"
  obtain nd where nd: "ns1 a = Some nd" using a(7) by (auto simp: nodes_used_def)
  have B1: "blocks_used t1 ?H1 B" by (rule blocks_used_other [OF B a(4,5)]) simp
  show ?thesis
  proof (rule disjE [OF block_alloc_cases [OF m B1]])
    assume d: "bstree_node_datablock_alloc env t1 ?H1 = Some (None, t1, ?H1)"
    let ?H2 = "H\<lparr>th_nodes := ns1(a \<mapsto> nd\<lparr>tn_data := None\<rparr>)\<rparr>"
    have A2: "nodes_used t1 ?H2 (insert a A)"
      by (rule nodes_used_other [OF a(7)]) (use nd in auto)
    obtain t3 ns3 where t3: "bstree_node_dealloc t1 a ?H2 = Some (t3, ?H2\<lparr>th_nodes := ns3\<rparr>)" "same_tree t1 t3"
        "bs_db_map (bt_space t3) = bs_db_map (bt_space t1)" "\<forall>x. x \<noteq> a \<longrightarrow> ns3 x = th_nodes ?H2 x"
        "nodes_used t3 (?H2\<lparr>th_nodes := ns3\<rparr>) (insert a A - {a})"
      using node_dealloc_run [OF A2, of a] by auto
    have "bstree_node_create env t parent key data H = Some (0, t3, H\<lparr>th_nodes := ns3\<rparr>)"
      using a(1,3) d nd t3(1)
      by (simp add: bstree_node_create_def bstree_node_destroy_def bstree_node_datablock_dealloc_def put_data_run)
    moreover have "insert a A - {a} = A" using a(2) by auto
    then have "nodes_used t3 (H\<lparr>th_nodes := ns3\<rparr>) A" using t3(5) by simp
    moreover have "blocks_used t3 (H\<lparr>th_nodes := ns3\<rparr>) B" by (rule blocks_used_other [OF B1 t3(2,3)]) simp
    moreover have "ns3 x = th_nodes H x" if "x \<in> A" for x using that a(2,6) t3(4) by auto
    moreover have "same_tree t t3" using same_tree_trans [OF a(4) t3(2)] .
    ultimately show ?thesis
      by (rule_tac exI [of _ 0], rule_tac exI [of _ t3], rule_tac exI [of _ "H\<lparr>th_nodes := ns3\<rparr>"]) simp
  next
    assume "\<exists>b t' bs'. bstree_node_datablock_alloc env t1 ?H1 = Some (Some b, t', ?H1\<lparr>th_blocks := bs'\<rparr>) \<and> b \<notin> B \<and>
      same_tree t1 t' \<and> bs_node_map (bt_space t') = bs_node_map (bt_space t1) \<and>
      (\<forall>x. x \<noteq> b \<longrightarrow> bs' x = th_blocks ?H1 x) \<and> blocks_used t' (?H1\<lparr>th_blocks := bs'\<rparr>) (insert b B)"
    then obtain b t2 bs2 where b: "bstree_node_datablock_alloc env t1 ?H1 = Some (Some b, t2, ?H1\<lparr>th_blocks := bs2\<rparr>)"
        "b \<notin> B" "same_tree t1 t2" "bs_node_map (bt_space t2) = bs_node_map (bt_space t1)"
        "\<forall>x. x \<noteq> b \<longrightarrow> bs2 x = th_blocks H x" "blocks_used t2 (?H1\<lparr>th_blocks := bs2\<rparr>) (insert b B)"
      by auto
    obtain v where v: "bs2 b = Some v" using b(6) by (auto simp: blocks_used_def)
    let ?v = "case data of None \<Rightarrow> v | Some d \<Rightarrow> d"
    let ?nd = "(case key of None \<Rightarrow> nd\<lparr>tn_data := Some b\<rparr> | Some k \<Rightarrow> nd\<lparr>tn_data := Some b, tn_key := k\<rparr>)
      \<lparr>tn_parent := parent, tn_left := bt_nil t, tn_right := bt_nil t\<rparr>"
    let ?H = "H\<lparr>th_blocks := bs2(b \<mapsto> ?v), th_nodes := ns1(a \<mapsto> ?nd)\<rparr>"
    have st: "same_tree t t2" using same_tree_trans [OF a(4) b(3)] .
    have nil: "bt_nil t2 = bt_nil t" using same_treeD(5) [OF st] .
    have "bstree_node_create env t parent key data H = Some (a, t2, ?H)"
      using a(1,3) b(1) nd v nil
      by (cases key; cases data) (simp_all add: bstree_node_create_def put_data_def write_block_def on_nodes_def
        link_new_def node_upd_def fun_upd_idem)
    moreover have "new_node t parent key data ?H a b" by (cases key; cases data) (auto simp: new_node_def)
    moreover have "dom (th_nodes ?H) = dom (th_nodes ?H1)" using nd by auto
    then have "nodes_used t2 ?H (insert a A)" by (rule nodes_used_other [OF a(7) b(3,4)])
    moreover have "dom (th_blocks ?H) = dom (th_blocks (?H1\<lparr>th_blocks := bs2\<rparr>))" using v by auto
    then have "blocks_used t2 ?H (insert b B)" by (rule blocks_used_other [OF b(6) same_tree_refl refl])
    moreover have "\<forall>x \<in> A. th_nodes ?H x = th_nodes H x" using a(2,6) by auto
    moreover have "\<forall>x \<in> B. th_blocks ?H x = th_blocks H x" using b(2,5) by auto
    ultimately show ?thesis using st a(2,3) b(2)
      by (rule_tac exI [of _ a], rule_tac exI [of _ t2], rule_tac exI [of _ ?H]) auto
  qed
qed

lemma node_destroy_run:
  assumes A: "nodes_used t H A" and B: "blocks_used t H B" and a: "a \<in> A" "b \<in> B"
    and nd: "th_nodes H a = Some nd" "tn_data nd = Some b"
  shows "\<exists>t' H'. bstree_node_destroy t a H = Some (t', H') \<and> same_tree t t' \<and>
    (\<forall>x. x \<noteq> a \<longrightarrow> th_nodes H' x = th_nodes H x) \<and> (\<forall>x. x \<noteq> b \<longrightarrow> th_blocks H' x = th_blocks H x) \<and>
    nodes_used t' H' (A - {a}) \<and> blocks_used t' H' (B - {b})"
proof -
  obtain t1 bs1 where b: "bstree_node_datablock_dealloc t (Some b) H = Some (t1, H\<lparr>th_blocks := bs1\<rparr>)" "same_tree t t1"
      "bs_node_map (bt_space t1) = bs_node_map (bt_space t)" "\<forall>x. x \<noteq> b \<longrightarrow> bs1 x = th_blocks H x"
      "blocks_used t1 (H\<lparr>th_blocks := bs1\<rparr>) (B - {b})"
    using block_dealloc_run [OF B a(2)] by blast
  let ?H2 = "H\<lparr>th_blocks := bs1, th_nodes := (th_nodes H)(a \<mapsto> nd\<lparr>tn_data := None\<rparr>)\<rparr>"
  have A2: "nodes_used t1 ?H2 A" by (rule nodes_used_other [OF A b(2,3)]) (use nd in auto)
  obtain t2 ns2 where t2: "bstree_node_dealloc t1 a ?H2 = Some (t2, ?H2\<lparr>th_nodes := ns2\<rparr>)" "same_tree t1 t2"
      "bs_db_map (bt_space t2) = bs_db_map (bt_space t1)" "\<forall>x. x \<noteq> a \<longrightarrow> ns2 x = th_nodes ?H2 x"
      "nodes_used t2 (?H2\<lparr>th_nodes := ns2\<rparr>) (A - {a})"
    using node_dealloc_run [OF A2 a(1)] by blast
  have "a \<noteq> 0" using A a(1) by (auto simp: nodes_used_def)
  then have "bstree_node_destroy t a H = Some (t2, ?H2\<lparr>th_nodes := ns2\<rparr>)"
    using nd b(1) t2(1) put_data_run [of "H\<lparr>th_blocks := bs1\<rparr>" a nd None]
    by (simp add: bstree_node_destroy_def)
  moreover have "blocks_used t2 (?H2\<lparr>th_nodes := ns2\<rparr>) (B - {b})" by (rule blocks_used_other [OF b(5) t2(2,3)]) simp
  moreover have "same_tree t t2" using same_tree_trans [OF b(2) t2(2)] .
  ultimately show ?thesis using t2(4,5) b(4)
    by (rule_tac exI [of _ t2], rule_tac exI [of _ "?H2\<lparr>th_nodes := ns2\<rparr>"]) simp
qed

end
