(* ===== verification/Bstree_Correct.thy ===== *)
theory Bstree_Correct
  imports Tree_Remove Tree_Memory
begin

text \<open>
  Correctness of the binary search trees, plain and red-black: the invariant of a tree in its
  memory, and insertion, removal and lookup as operations on the list of its entries, which
  interprets the ordered dictionary of Dict_Spec.
\<close>

subsection \<open>The invariant\<close>

definition block_of :: "('k, 'a) theap \<Rightarrow> nat \<Rightarrow> nat" where
  "block_of H a = the (Option.bind (core (th_nodes H) a) snd)"

definition balanced :: "'k bstree \<Rightarrow> ('k, 'a) theap \<Rightarrow> nat tree \<Rightarrow> bool" where
  "balanced t H T \<longleftrightarrow> (has_flag (bt_flags t) RCSW_DS_BSTREE_RB \<longrightarrow>
     rb (redn (th_nodes H)) T \<and> \<not> red_root (redn (th_nodes H)) T)"

definition tree_good :: "'k bstree \<Rightarrow> ('k, 'a) theap \<Rightarrow> nat tree \<Rightarrow> bool" where
  "tree_good t H T \<longleftrightarrow> stands t (inorder T) [] T H \<and> balanced t H T \<and>
     ascending (bt_cmpkey t) (map (entry H) (inorder T)) \<and>
     inj_on (block_of H) (owned t (inorder T)) \<and> cmp_order (bt_cmpkey t)"

definition tree_ok :: "'k bstree \<Rightarrow> ('k, 'a) theap \<Rightarrow> nat tree \<Rightarrow> bool" where
  "tree_ok t H T \<longleftrightarrow> tree_good t H T \<and> nodes_used t H (owned t (inorder T)) \<and>
     blocks_used t H (block_of H ` owned t (inorder T)) \<and> bt_current t = length (inorder T)"

lemmas tree_invariant = tree_ok_def tree_good_def

text \<open>The list of entries a tree stands for.\<close>

definition tree_rep :: "'k bstree \<times> ('k, 'a) theap \<Rightarrow> ('k \<times> 'a) list \<Rightarrow> bool" where
  "tree_rep m ps \<longleftrightarrow> (\<exists>T. tree_ok (fst m) (snd m) T \<and> ps = map (entry (snd m)) (inorder T))"

subsection \<open>Frames\<close>

lemma core_same:
  fixes H H' :: "('k, 'a) theap"
  assumes "core (th_nodes H') = core (th_nodes H)"
  shows "dom (th_nodes H') = dom (th_nodes H)" "block_of H' = block_of H" "key_at (th_nodes H') = key_at (th_nodes H)"
proof -
  have c: "core (th_nodes H') a = core (th_nodes H) a" for a using assms by simp
  show "dom (th_nodes H') = dom (th_nodes H)"
  proof -
    have "th_nodes H' a = None \<longleftrightarrow> th_nodes H a = None" for a
      using c [of a] by (cases "th_nodes H a"; cases "th_nodes H' a") (auto simp: core_def)
    then show ?thesis by (auto simp: dom_def)
  qed
  show "block_of H' = block_of H" by (simp add: block_of_def [abs_def] assms)
  show "key_at (th_nodes H') = key_at (th_nodes H)"
  proof
    fix a
    show "key_at (th_nodes H') a = key_at (th_nodes H) a"
      using c [of a] by (cases "th_nodes H a"; cases "th_nodes H' a") (auto simp: key_at_def core_def)
  qed
qed

lemma block_of_node: "th_nodes H a = Some nd \<Longrightarrow> tn_data nd = Some b \<Longrightarrow> block_of H a = b"
  by (simp add: block_of_def core_def)

lemma block_of_at: "th_nodes H' a = th_nodes H a \<Longrightarrow> block_of H' a = block_of H a"
  by (simp add: block_of_def core_def)

lemma key_at_at: "ns' a = ns a \<Longrightarrow> key_at ns' a = key_at ns a"
  by (simp add: key_at_def)

lemma entry_at:
  assumes "data_ok H A" and "a \<in> A" and "th_nodes H' a = th_nodes H a"
    and "th_blocks H' (block_of H a) = th_blocks H (block_of H a)"
  shows "entry H' a = entry H a"
proof -
  obtain nd b v where nd: "th_nodes H a = Some nd" "tn_data nd = Some b" "th_blocks H b = Some v"
    using assms(1,2) by (auto simp: data_ok_def)
  then show ?thesis using assms(3,4) block_of_node [OF nd(1,2)] by (simp add: entry_def core_def)
qed

lemma stands_frame:
  assumes st: "stands t L c tr H" and n: "\<And>a. a \<in> owned t L \<Longrightarrow> th_nodes H' a = th_nodes H a"
    and b: "\<And>a. a \<in> owned t L \<Longrightarrow> th_blocks H' (block_of H a) = th_blocks H (block_of H a)"
    and t: "bt_nil t' = bt_nil t" "bt_root t' = bt_root t"
  shows "stands t' L c tr H'"
proof -
  have at: "tree_at (th_nodes H) (bt_nil t) (bt_root t) c tr" and L: "inorder (plug c tr) = L"
    using st by (simp_all add: stands_def fix_state_def)
  have "tree_at (th_nodes H') (bt_nil t) (bt_root t) c tr" by (rule tree_at_frame [OF at]) (use n L in auto)
  moreover have "data_ok H' (owned t L)"
    unfolding data_ok_def
  proof
    fix a assume a: "a \<in> owned t L"
    then obtain nd b v where nd: "th_nodes H a = Some nd" "tn_data nd = Some b" "th_blocks H b = Some v"
      using stands_data [OF st] by (auto simp: data_ok_def)
    moreover have "th_blocks H' b = th_blocks H b" using assms(3) [OF a] block_of_node [OF nd(1,2)] by simp
    ultimately show "\<exists>nd b v. th_nodes H' a = Some nd \<and> tn_data nd = Some b \<and> th_blocks H' b = Some v"
      using n [OF a] by auto
  qed
  moreover have "th_nodes H' (bt_nil t) = th_nodes H (bt_nil t)" "th_nodes H' (bt_root t) = th_nodes H (bt_root t)"
    using n by auto
  ultimately show ?thesis using st t by (simp add: stands_def fix_state_def tree_access)
qed

lemma balanced_cong:
  assumes "balanced t H T" and "bt_flags t' = bt_flags t" and "\<And>a. a \<in> set_tree T \<Longrightarrow> th_nodes H' a = th_nodes H a"
  shows "balanced t' H' T"
proof -
  have "redn (th_nodes H') a = redn (th_nodes H) a" if "a \<in> set_tree T" for a
    using assms(3) [OF that] by (simp add: redn_def isred_def)
  then show ?thesis using assms(1,2) rb_cong [of T "redn (th_nodes H')" "redn (th_nodes H)"]
    by (simp add: balanced_def)
qed

lemma owned_same: "same_tree t t' \<Longrightarrow> owned t' L = owned t L"
  by (simp add: same_treeD)

lemma nodes_used_current [simp]: "nodes_used (t\<lparr>bt_current := n\<rparr>) H A = nodes_used t H A"
  by (simp add: nodes_used_def node_slots_def)

lemma blocks_used_current [simp]: "blocks_used (t\<lparr>bt_current := n\<rparr>) H B = blocks_used t H B"
  by (simp add: blocks_used_def node_slots_def)

lemma stands_current [simp]: "stands (t\<lparr>bt_current := n\<rparr>) L c tr H = stands t L c tr H"
  by (simp add: stands_def fix_state_def)

lemma balanced_current [simp]: "balanced (t\<lparr>bt_current := n\<rparr>) H T = balanced t H T"
  by (simp add: balanced_def)

text \<open>A tree whose nodes and blocks were not touched.\<close>

lemma tree_good_frame:
  assumes ok: "tree_good t H T" and s: "same_tree t t'"
    and n: "\<forall>a \<in> owned t (inorder T). th_nodes H' a = th_nodes H a"
    and b: "\<forall>b \<in> block_of H ` owned t (inorder T). th_blocks H' b = th_blocks H b"
  shows "tree_good t' H' T" "block_of H' ` owned t (inorder T) = block_of H ` owned t (inorder T)" "map (entry H') (inorder T) = map (entry H) (inorder T)"
proof -
  let ?L = "inorder T" and ?A = "owned t (inorder T)"
  note sD = same_treeD [OF s]
  have st: "stands t ?L [] T H" using ok by (simp add: tree_good_def)
  have bo: "block_of H' a = block_of H a" if "a \<in> ?A" for a using block_of_at n that by metis
  then have im: "block_of H' ` ?A = block_of H ` ?A" by (intro image_cong) auto
  have "inj_on (block_of H) ?A" using ok unfolding tree_good_def by blast
  then have "inj_on (block_of H') ?A" using inj_on_cong [of ?A "block_of H'" "block_of H"] bo by blast
  moreover have b': "th_blocks H' (block_of H a) = th_blocks H (block_of H a)" if "a \<in> ?A" for a
    using b that by blast
  have "stands t' ?L [] T H'" by (rule stands_frame [OF st n [rule_format] b' sD(5,4)])
  moreover have "balanced t H T" using ok by (simp add: tree_good_def)
  then have "balanced t' H' T" by (rule balanced_cong) (use n sD(1) in simp_all)
  moreover have e: "map (entry H') ?L = map (entry H) ?L"
  proof (rule map_cong [OF refl])
    fix a assume "a \<in> set ?L"
    then show "entry H' a = entry H a" using n b' by (intro entry_at [OF stands_data [OF st]]) auto
  qed
  then have "ascending (bt_cmpkey t') (map (entry H') ?L)" unfolding e sD(6) using ok by (simp add: tree_good_def)
  ultimately show "tree_good t' H' T"
    using ok sD unfolding tree_good_def by simp
  show "block_of H' ` ?A = block_of H ` ?A" using im .
  show "map (entry H') ?L = map (entry H) ?L" using e .
qed

lemma tree_ok_frame:
  assumes ok: "tree_ok t H T" and s: "same_tree t t'"
    and n: "\<forall>a \<in> owned t (inorder T). th_nodes H' a = th_nodes H a"
    and b: "\<forall>b \<in> block_of H ` owned t (inorder T). th_blocks H' b = th_blocks H b"
    and u: "nodes_used t' H' (owned t (inorder T))" "blocks_used t' H' (block_of H ` owned t (inorder T))"
  shows "tree_ok t' H' T" "map (entry H') (inorder T) = map (entry H) (inorder T)"
proof -
  have g: "tree_good t H T" "bt_current t = length (inorder T)" using ok by (simp_all add: tree_ok_def)
  note f = tree_good_frame [OF g(1) s n b]
  show "tree_ok t' H' T" unfolding tree_ok_def owned_same [OF s] f(2) using f(1) u g(2) same_treeD(3) [OF s] by simp
  show "map (entry H') (inorder T) = map (entry H) (inorder T)" using f(3) .
qed

lemma ascending_keys:
  assumes "data_ok H A" and "set L \<subseteq> A"
  shows "ascending cmp (map (entry H) L) \<longleftrightarrow>
    sorted_wrt (\<lambda>a b. cmp (key_at (th_nodes H) a) (key_at (th_nodes H) b) < 0) L"
proof -
  have k: "fst (entry H a) = key_at (th_nodes H) a" if "a \<in> set L" for a
    using fst_entry [OF assms(1)] assms(2) that by blast
  have "sorted_wrt (\<lambda>a b. cmp (fst (entry H a)) (fst (entry H b)) < 0) L \<longleftrightarrow>
      sorted_wrt (\<lambda>a b. cmp (key_at (th_nodes H) a) (key_at (th_nodes H) b) < 0) L"
    unfolding sorted_wrt_iff_nth_less using k by simp
  then show ?thesis by (simp add: ascending_def sorted_wrt_map)
qed

subsection \<open>Searching\<close>

text \<open>Where the search for a key ends.\<close>

lemma tree_ok_descend:
  assumes ok: "tree_ok t H T" and d: "descend (bt_cmpkey t) (key_at (th_nodes H)) k [] T = (c, T')"
  shows "around (bt_cmpkey t) k (map (entry H) (before c)) (map (entry H) (after c))" "plug c T' = T"
    "side (bt_cmpkey t) (key_at (th_nodes H)) k c"
proof -
  let ?K = "key_at (th_nodes H)"
  have c: "cmp_order (bt_cmpkey t)" using ok by (simp add: tree_invariant)
  have T: "plug c T' = T" using descend_plug [OF d] by simp
  have "stands t (inorder T) [] T H" "ascending (bt_cmpkey t) (map (entry H) (inorder T))"
    using ok by (simp_all add: tree_invariant)
  then have asc: "sorted_wrt (\<lambda>a b. bt_cmpkey t (?K a) (?K b) < 0) (inorder T)"
    using ascending_keys [OF stands_data] by blast
  have o: "(\<forall>a \<in> set (before c). bt_cmpkey t (?K a) k < 0) \<and> (\<forall>a \<in> set (after c). bt_cmpkey t k (?K a) < 0)"
    by (rule cmp_order.descend_around [OF c d]) (use asc in auto)
  have "inorder T = before c @ inorder T' @ after c" using T by (metis inorder_plug)
  then have "fst (entry H a) = ?K a" if "a \<in> set (before c) \<union> set (after c)" for a
    using fst_entry [OF stands_data] ok that by (fastforce simp: tree_invariant)
  then show "around (bt_cmpkey t) k (map (entry H) (before c)) (map (entry H) (after c))"
    using o by (simp add: around_def)
  show "side (bt_cmpkey t) ?K k c"
    using o cmp_order.cmp_less [OF c, of k] by (cases "(bt_cmpkey t, ?K, k, c)" rule: side.cases) force+
  show "plug c T' = T" using T .
qed

subsection \<open>Insertion\<close>

lemma hang_stands:
  assumes st: "stands t L c Leaf H" and new: "new_node t (up (bt_root t) c) key data H z b" and z: "z \<notin> owned t L"
    and s: "side (bt_cmpkey t) (key_at (th_nodes H)) k c"
  shows "\<exists>ns'. hang t k (up (bt_root t) c) z (th_nodes H) = Some ns' \<and> payload ns' = payload (th_nodes H) \<and>
    stands t (before c @ z # after c) c (Node Leaf z Leaf) (H\<lparr>th_nodes := ns'\<rparr>)"
proof -
  have L: "L = before c @ after c" using stands_content [OF st] by simp
  have d: "bt_nil t \<notin> set L" "bt_nil t \<noteq> bt_root t" using stands_distinct [OF st] by auto
  have at: "tree_at (th_nodes H) (bt_nil t) (bt_root t) c Leaf" using st by (simp add: stands_def fix_state_def)
  obtain zd w where zd: "th_nodes H z = Some zd" "tn_left zd = bt_nil t" "tn_right zd = bt_nil t"
      "tn_parent zd = up (bt_root t) c" "tn_data zd = Some b" "th_blocks H b = Some w"
    using new by (auto simp: new_node_def)
  obtain ns' where ns': "hang t k (up (bt_root t) c) z (th_nodes H) = Some ns'"
      "tree_at ns' (bt_nil t) (bt_root t) c (Node Leaf z Leaf)" "payload ns' = payload (th_nodes H)"
      "\<forall>a. a \<noteq> up (bt_root t) c \<longrightarrow> ns' a = th_nodes H a"
    using hang_run [OF at zd(1-4) _ s] z L by auto
  have co: "core ns' = core (th_nodes H)" "isred ns' = isred (th_nodes H)" using payload_core [OF ns'(3)] by auto
  have "bt_nil t \<noteq> up (bt_root t) c" using up_mem [of "bt_root t" c] d L by auto
  then have nil: "ns' (bt_nil t) = th_nodes H (bt_nil t)" using ns'(4) by simp
  have "data_ok H (owned t (before c @ z # after c))"
    using stands_data [OF st] zd L by (auto simp: data_ok_def)
  then have "data_ok (H\<lparr>th_nodes := ns'\<rparr>) (owned t (before c @ z # after c))"
    using data_ok_cores [of "H\<lparr>th_nodes := ns'\<rparr>" H] co(1) by simp
  then have "stands t (before c @ z # after c) c (Node Leaf z Leaf) (H\<lparr>th_nodes := ns'\<rparr>)"
    using st ns'(2) co(2) nil by (simp add: stands_def fix_state_def tree_access)
  then show ?thesis using ns'(1,3) by blast
qed

text \<open>A new node \<open>z\<close> at the place \<open>c\<close> of its key.\<close>

lemma insert_hung:
  assumes ok: "tree_ok t H (plug c Leaf)" and s: "same_tree t t'"
    and ar: "around (bt_cmpkey t) k (map (entry H) (before c)) (map (entry H) (after c))"
    and sd: "side (bt_cmpkey t) (key_at (th_nodes H)) k c"
    and n: "\<forall>a \<in> owned t (before c @ after c). th_nodes H1 a = th_nodes H a"
    and b: "\<forall>b \<in> block_of H ` owned t (before c @ after c). th_blocks H1 b = th_blocks H b"
    and new: "new_node t (up (bt_root t) c) (Some k) (Some v) H1 z bz" "z \<notin> owned t (before c @ after c)"
      "bz \<notin> block_of H ` owned t (before c @ after c)"
    and u: "nodes_used t' H1 (insert z (owned t (before c @ after c)))"
      "blocks_used t' H1 (insert bz (block_of H ` owned t (before c @ after c)))"
  shows "\<exists>H' T'. do {
        H \<leftarrow> on_nodes (hang t' k (up (bt_root t) c) z) H1;
        insert_rb env t' z H
      } = Some (True, H') \<and> tree_ok (t'\<lparr>bt_current := bt_current t' + 1\<rparr>) H' T' \<and>
      map (entry H') (inorder T') = map (entry H) (before c) @ (k, v) # map (entry H) (after c)"
proof -
  let ?L = "before c @ after c" and ?A = "owned t (before c @ after c)" and ?L2 = "before c @ z # after c"
  let ?t = "t'\<lparr>bt_current := bt_current t' + 1\<rparr>"
  note sD = same_treeD [OF s]
  have ok': "stands t ?L [] (plug c Leaf) H" "balanced t H (plug c Leaf)" "ascending (bt_cmpkey t) (map (entry H) ?L)"
      "inj_on (block_of H) ?A" "bt_current t = length ?L" "cmp_order (bt_cmpkey t)"
    using ok by (simp_all add: tree_invariant)
  have st: "stands t ?L c Leaf H" using ok'(1) by (simp add: stands_plug)
  have bo: "block_of H1 a = block_of H a" if "a \<in> ?A" for a using block_of_at n that by metis
  have b': "th_blocks H1 (block_of H a) = th_blocks H (block_of H a)" if "a \<in> ?A" for a using b that by blast
  have st1: "stands t' ?L c Leaf H1" by (rule stands_frame [OF st n [rule_format] b' sD(5,4)])
  have bal: "balanced t' H1 (plug c Leaf)"
  proof (rule balanced_cong [OF ok'(2) sD(1)])
    fix a assume "a \<in> set_tree (plug c Leaf)"
    then have "a \<in> set ?L" using set_inorder [of "plug c Leaf"] by simp
    then show "th_nodes H1 a = th_nodes H a" using n by simp
  qed
  have new': "new_node t' (up (bt_root t') c) (Some k) (Some v) H1 z bz" using new(1) sD by (simp add: new_node_def)
  have "key_at (th_nodes H1) a = key_at (th_nodes H) a" if "a \<in> set ?L" for a using n that by (simp add: key_at_def)
  then have sd': "side (bt_cmpkey t') (key_at (th_nodes H1)) k c"
    using sd sD(6) by (cases "(bt_cmpkey t, key_at (th_nodes H), k, c)" rule: side.cases) auto
  obtain ns2 where h: "hang t' k (up (bt_root t') c) z (th_nodes H1) = Some ns2" "payload ns2 = payload (th_nodes H1)"
      "stands t' ?L2 c (Node Leaf z Leaf) (H1\<lparr>th_nodes := ns2\<rparr>)"
    using hang_stands [OF st1 new' _ sd'] new(2) sD by auto
  let ?H2 = "H1\<lparr>th_nodes := ns2\<rparr>"
  have co2: "core ns2 = core (th_nodes H1)" "redn ns2 = redn (th_nodes H1)"
    using payload_core [OF h(2)] by (auto simp: redn_def [abs_def])
  have "rb (redn (th_nodes ?H2)) (plug c Leaf) \<and> \<not> red_root (redn (th_nodes ?H2)) (plug c Leaf)"
    if "has_flag (bt_flags t') RCSW_DS_BSTREE_RB"
    using bal that co2(2) by (simp add: balanced_def)
  then obtain H3 T where r: "insert_rb env t' z ?H2 = Some (True, H3)" "stands t' ?L2 [] T H3"
      "reshapes (owned t' ?L2) ?H2 H3" "balanced t' H3 T"
    using insert_rb_run [OF h(3), of env] by (auto simp: balanced_def)
  have co: "core (th_nodes H3) = core (th_nodes H1)" "th_blocks H3 = th_blocks H1"
    using r(3) co2(1) by (simp_all add: reshapes_def)
  have T: "inorder T = ?L2" using stands_content [OF r(2)] by simp
  have o3: "owned ?t (inorder T) = insert z ?A" using sD T by auto
  have bz: "block_of H1 z = bz" using new(1) block_of_node by (auto simp: new_node_def)
  have im: "block_of H1 ` ?A = block_of H ` ?A" using bo by (intro image_cong) auto
  have "inj_on (block_of H1) ?A" using inj_on_cong [of ?A "block_of H1" "block_of H"] bo ok'(4) by blast
  then have inj: "inj_on (block_of H3) (insert z ?A)"
    using bz new(2,3) im core_same(2) [OF co(1)] by (simp only: inj_on_insert) simp
  have e: "entry H1 a = entry H a" if "a \<in> set ?L" for a
    using n b' that by (intro entry_at [OF stands_data [OF st]]) auto
  have "entry H1 z = (k, v)" using new(1) by (auto simp: new_node_def entry_def core_def)
  then have ent: "map (entry H3) (inorder T) = map (entry H) (before c) @ (k, v) # map (entry H) (after c)"
    using e T entry_cong [OF co] by simp
  have asc: "ascending (bt_cmpkey ?t) (map (entry H3) (inorder T))"
    unfolding ent using cmp_order.around_ascending [OF ok'(6) _ ar] ok'(3) sD by simp
  have "nodes_used t' H3 (insert z ?A)" by (rule nodes_used_other [OF u(1)]) (simp_all add: core_same(1) [OF co(1)])
  moreover have "block_of H3 ` insert z ?A = insert bz (block_of H ` ?A)" using im bz core_same(2) [OF co(1)] by simp
  then have "blocks_used t' H3 (block_of H3 ` insert z ?A)" using blocks_used_other [OF u(2), of t' H3] co(2) by simp
  ultimately have "tree_ok ?t H3 T" unfolding tree_invariant o3 using r(2,4) T asc inj ok'(5,6) sD by simp
  moreover have "on_nodes (hang t' k (up (bt_root t) c) z) H1 = Some ?H2" using h(1) sD by (simp add: on_nodes_def)
  ultimately show ?thesis using r(1) ent by auto
qed

lemma bstree_insert_ok:
  assumes m: "fresh_memory env" and ok: "tree_ok t H T"
  shows "\<exists>s t' H' T'. bstree_insert env t (Some k) (Some v) H = Some (s, t', H') \<and> tree_ok t' H' T' \<and>
    bt_cmpkey t' = bt_cmpkey t \<and>
    (s = OK \<and> dict_find (bt_cmpkey t) k (map (entry H) (inorder T)) = None \<and>
       map (entry H') (inorder T') = dict_insert (bt_cmpkey t) k v (map (entry H) (inorder T)) \<or>
     s = ERROR None \<and> map (entry H') (inorder T') = map (entry H) (inorder T))"
proof -
  let ?ns = "th_nodes H" and ?cmp = "bt_cmpkey t" and ?L = "inorder T"
  obtain c T1 where d: "descend ?cmp (key_at ?ns) k [] T = (c, T1)" by fastforce
  note ds = tree_ok_descend [OF ok d]
  have st: "stands t ?L [] T H" and cmp: "cmp_order ?cmp" using ok by (simp_all add: tree_invariant)
  then have pt: "ptree ?ns (bt_nil t) (bt_root t) T" "bt_nil t \<notin> set_tree T"
    by (simp_all add: stands_def fix_state_def tree_at_def)
  have loop: "while_loop (place_more t) (place_step t k ?ns) (addr (bt_nil t) T, bt_root t, False) =
      Some (addr (bt_nil t) T1, if T1 = Leaf then up (bt_root t) c else addr (bt_nil t) T1, T1 \<noteq> Leaf)"
    using place_loop [OF pt d, of "bt_root t"] by simp
  show ?thesis
  proof (cases "T1 = Leaf")
    case False
    then have "bstree_insert env t (Some k) (Some v) H = Some (ERROR None, t, H)"
      using loop stands_root [OF st] by (simp add: bstree_insert_def bstree_insert_internal_def)
    then show ?thesis using ok by blast
  next
    case True
    let ?A = "owned t ?L" and ?B = "block_of H ` owned t ?L"
    have T: "T = plug c Leaf" and L: "?L = before c @ after c" using ds(2) True by auto
    obtain r t1 H1 where r: "bstree_node_create env t (up (bt_root t) c) (Some k) (Some v) H = Some (r, t1, H1)"
        "same_tree t t1" "\<forall>x \<in> ?A. th_nodes H1 x = th_nodes H x" "\<forall>x \<in> ?B. th_blocks H1 x = th_blocks H x"
        "if r = 0 then nodes_used t1 H1 ?A \<and> blocks_used t1 H1 ?B
         else r \<notin> ?A \<and> (\<exists>b. b \<notin> ?B \<and> new_node t (up (bt_root t) c) (Some k) (Some v) H1 r b \<and>
           nodes_used t1 H1 (insert r ?A) \<and> blocks_used t1 H1 (insert b ?B))"
      using node_create_cases [OF m, of t H ?A ?B "up (bt_root t) c" "Some k" "Some v"] ok
      unfolding tree_invariant by blast
    show ?thesis
    proof (cases "r = 0")
      case 0: True
      then have "bstree_insert env t (Some k) (Some v) H = Some (ERROR None, t1, H1)"
        using loop stands_root [OF st] True r(1) by (simp add: bstree_insert_def bstree_insert_internal_def)
      moreover have "nodes_used t1 H1 ?A" "blocks_used t1 H1 ?B" using r(5) 0 by auto
      moreover note tree_ok_frame [OF ok r(2-4) this]
      ultimately show ?thesis using same_treeD(6) [OF r(2)] by blast
    next
      case new: False
      then obtain b where b: "r \<notin> ?A" "b \<notin> ?B" "new_node t (up (bt_root t) c) (Some k) (Some v) H1 r b"
          "nodes_used t1 H1 (insert r ?A)" "blocks_used t1 H1 (insert b ?B)" using r(5) by auto
      obtain H2 T2 where h: "do {
            H \<leftarrow> on_nodes (hang t1 k (up (bt_root t) c) r) H1;
            insert_rb env t1 r H
          } = Some (True, H2)" "tree_ok (t1\<lparr>bt_current := bt_current t1 + 1\<rparr>) H2 T2"
          "map (entry H2) (inorder T2) = map (entry H) (before c) @ (k, v) # map (entry H) (after c)"
        using insert_hung [OF ok [unfolded T] r(2) ds(1,3) r(3,4) [unfolded L] b(3,1,2,4,5) [unfolded L], of env] by blast
      have "bstree_insert env t (Some k) (Some v) H = Some (OK, t1\<lparr>bt_current := bt_current t1 + 1\<rparr>, H2)"
        using loop stands_root [OF st] True r(1) new h(1)
        by (auto simp: bstree_insert_def bstree_insert_internal_def split: Option.bind_splits)
      moreover have "dict_find ?cmp k (map (entry H) ?L) = None"
        "dict_insert ?cmp k v (map (entry H) ?L) = map (entry H) (before c) @ (k, v) # map (entry H) (after c)"
        unfolding L map_append using cmp_order.around_find(1) [OF cmp ds(1)] cmp_order.around_insert [OF cmp ds(1)] by auto
      ultimately show ?thesis using h(2,3) same_treeD(6) [OF r(2)] by fastforce
    qed
  qed
qed

subsection \<open>Deletion\<close>

text \<open>The victim is out of the tree \<open>T\<close> but in memory still.\<close>

lemma delete_end_run:
  assumes st: "stands t L [] T H" and bal: "balanced t H T" and v: "v \<notin> owned t L"
    and vd: "th_nodes H v = Some vd" "tn_data vd = Some b" "th_blocks H b = Some w"
    and inj: "inj_on (block_of H) (insert v (owned t L))" and nu: "nodes_used t H (insert v (owned t L))"
    and bu: "blocks_used t H (block_of H ` insert v (owned t L))"
    and asc: "ascending (bt_cmpkey t) (map (entry H) L)" and cur: "bt_current t = Suc (length L)" and cmp: "cmp_order (bt_cmpkey t)"
  shows "\<exists>t' H'. delete_end t v elt H = Some (OK, if elt then Some w else None, t', H') \<and> tree_ok t' H' T \<and>
    map (entry H') L = map (entry H) L \<and> bt_cmpkey t' = bt_cmpkey t"
proof -
  let ?A = "owned t L" and ?B = "block_of H ` insert v (owned t L)"
  have L: "L = inorder T" using stands_content [OF st] by simp
  have bv: "block_of H v = b" using block_of_node [OF vd(1,2)] .
  then have "b \<in> ?B" by auto
  then obtain t' H' where d: "bstree_node_destroy t v H = Some (t', H')" "same_tree t t'"
      "\<forall>x. x \<noteq> v \<longrightarrow> th_nodes H' x = th_nodes H x" "\<forall>x. x \<noteq> b \<longrightarrow> th_blocks H' x = th_blocks H x"
      "nodes_used t' H' (insert v ?A - {v})" "blocks_used t' H' (?B - {b})"
    using node_destroy_run [OF nu bu insertI1 _ vd(1,2)] by blast
  have A: "insert v ?A - {v} = ?A" using v by auto
  have nb: "b \<notin> block_of H ` ?A" using inj v bv by auto
  then have B: "?B - {b} = block_of H ` ?A" using bv by auto
  have g: "tree_good t H T"
    using st bal inj asc cmp L inj_on_subset [OF inj] by (auto simp: tree_good_def)
  have n: "\<forall>a \<in> owned t (inorder T). th_nodes H' a = th_nodes H a" using d(3) v L by auto
  have bl: "\<forall>b \<in> block_of H ` owned t (inorder T). th_blocks H' b = th_blocks H b" using d(4) nb L by auto
  note f = tree_good_frame [OF g d(2) n bl]
  let ?t = "t'\<lparr>bt_current := size_pred (bt_current t')\<rparr>"
  have "insert v ?A \<subseteq> {1..<2 ^ 64}" using nu unfolding nodes_used_def by blast
  then have "card (insert v ?A) \<le> card {1..<2 ^ 64 :: nat}" by (intro card_mono) simp
  moreover have "card (insert v ?A) = length L + 3"
    using stands_distinct [OF st] v by (simp add: distinct_card)
  ultimately have "length L + 3 < 2 ^ 64" by simp
  then have "size_pred (bt_current t') = length L"
    using cur same_treeD(3) [OF d(2)] by (simp add: size_pred_def)
  moreover have "tree_good ?t H' T" using f(1) by (simp add: tree_good_def)
  ultimately have "tree_ok ?t H' T"
    using d(5,6) A B f(2) L same_treeD(4,5) [OF d(2)] by (simp add: tree_ok_def)
  moreover have "(if has_flag (bt_flags t) RCSW_DS_BSTREE_RB then rb_checks t (th_nodes H) else Some True) = Some True"
    using rb_checks_run [OF st] bal by (simp add: balanced_def)
  then have "delete_end t v elt H = Some (OK, if elt then Some w else None, ?t, H')"
    using vd d(1) by (cases elt) (simp_all add: delete_end_def)
  ultimately show ?thesis using f(3) L same_treeD(6) [OF d(2)] by auto
qed

lemma split_at:
  assumes "a \<in> set_tree T"
  shows "\<exists>c l r. T = plug c (Node l a r)"
proof -
  have "\<exists>c' l r. plug c T = plug c' (Node l a r)" for c
    using assms
  proof (induction T arbitrary: c)
    case (Node l b r)
    consider "a = b" | "a \<in> set_tree l" | "a \<in> set_tree r" using Node.prems by auto
    then show ?case
    proof cases
      case 2
      then show ?thesis using Node.IH(1) [of "GoLeft b r # c"] by simp
    next
      case 3
      then show ?thesis using Node.IH(2) [of "GoRight l b # c"] by simp
    qed auto
  qed simp
  from this [of "[]"] show ?thesis by (metis plug.simps(1))
qed

text \<open>The heap after a node was unlinked and the colours were fixed.\<close>

lemma unlink_fix_run:
  assumes st: "stands t L c (Node l y r) H" and bal: "balanced t H (plug c (Node l y r))" and one: "l = Leaf \<or> r = Leaf"
  shows "\<exists>H' T. do {
        H \<leftarrow> on_nodes (unlink_node t y (addr (bt_nil t) (if l = Leaf then r else l))) H;
        delete_rb env t y (addr (bt_nil t) (if l = Leaf then r else l)) H
      } = Some H' \<and> stands t (before c @ inorder l @ inorder r @ after c) [] T H' \<and> balanced t H' T \<and>
      core (th_nodes H') = core (th_nodes H) \<and> th_blocks H' = th_blocks H \<and>
      (\<forall>a. a \<notin> owned t (before c @ inorder l @ inorder r @ after c) \<longrightarrow> th_nodes H' a = th_nodes H a)"
proof -
  let ?xt = "if l = Leaf then r else l" and ?L = "before c @ inorder l @ inorder r @ after c"
  have L: "before c @ inorder ?xt @ after c = ?L" using one by auto
  obtain ns' where u: "unlink_node t y (addr (bt_nil t) ?xt) (th_nodes H) = Some ns'"
      "stands t ?L c ?xt (H\<lparr>th_nodes := ns'\<rparr>)" "par ns' (addr (bt_nil t) ?xt) = Some (up (bt_root t) c)"
      "payload ns' = payload (th_nodes H)" "\<forall>a. a \<notin> owned t ?L \<longrightarrow> ns' a = th_nodes H a"
    using unlink_run [OF st one] unfolding L by blast
  let ?H1 = "H\<lparr>th_nodes := ns'\<rparr>"
  have co: "core ns' = core (th_nodes H)" "isred ns' = isred (th_nodes H)" using payload_core [OF u(4)] by auto
  then have R: "redn ns' = redn (th_nodes H)" by (simp add: redn_def [abs_def])
  have "y \<in> owned t L" using stands_content [OF st] by simp
  then have "y \<in> dom (th_nodes H)" using data_ok_dom [OF stands_data [OF st]] by blast
  then have yr: "isred (th_nodes ?H1) y = Some (redn (th_nodes ?H1) y)" using isred_dom co(2) R by simp
  have "rb (redn (th_nodes ?H1)) (plug c (Node l y r)) \<and> \<not> red_root (redn (th_nodes ?H1)) (plug c (Node l y r))"
    if "has_flag (bt_flags t) RCSW_DS_BSTREE_RB" using bal that R by (simp add: balanced_def)
  then obtain H' T where d: "delete_rb env t y (addr (bt_nil t) ?xt) ?H1 = Some H'" "stands t ?L [] T H'"
      "reshapes (owned t ?L) ?H1 H'" "balanced t H' T"
    using delete_rb_run [OF u(2) _ one refl yr, of env] u(3) by (auto simp: balanced_def)
  have "on_nodes (unlink_node t y (addr (bt_nil t) ?xt)) H = Some ?H1" using u(1) by (simp add: on_nodes_def)
  moreover have "core (th_nodes H') = core (th_nodes H)" "th_blocks H' = th_blocks H"
    using d(3) co(1) by (simp_all add: reshapes_def)
  moreover have "th_nodes H' a = th_nodes H a" if "a \<notin> owned t ?L" for a
    using d(3) u(5) that by (simp add: reshapes_def)
  ultimately show ?thesis using d(1,2,4) by auto
qed

lemma distinct_split:
  assumes "distinct (us @ v # ws)" and "us @ v # ws = xs @ v # ys"
  shows "us = xs \<and> ws = ys"
  using assms by (metis append_Cons_eq_iff distinct_append disjoint_iff list.set_intros(1) not_distinct_conv_prefix
      append_eq_append_conv2 same_append_eq list.inject append.assoc distinct.simps(2))

text \<open>What remains once the victim is out of the tree.\<close>

lemma delete_finish:
  assumes ok: "tree_ok t H (plug c (Node l v r))"
    and st: "stands t (before c @ inorder l @ inorder r @ after c) [] T2 H2" and bal: "balanced t H2 T2"
    and co: "core (th_nodes H2) = core (th_nodes H)" "th_blocks H2 = th_blocks H"
  shows "\<exists>t' H'. delete_end t v elt H2 = Some (OK, if elt then Some (snd (entry H v)) else None, t', H') \<and>
    tree_ok t' H' T2 \<and> bt_cmpkey t' = bt_cmpkey t \<and>
    map (entry H') (inorder T2) = map (entry H) (before c @ inorder l @ inorder r @ after c)"
proof -
  let ?L = "before c @ inorder l @ v # inorder r @ after c" and ?L' = "before c @ inorder l @ inorder r @ after c"
  have g: "stands t ?L [] (plug c (Node l v r)) H" "ascending (bt_cmpkey t) (map (entry H) ?L)" "inj_on (block_of H) (owned t ?L)"
      "nodes_used t H (owned t ?L)" "blocks_used t H (block_of H ` owned t ?L)" "bt_current t = Suc (length ?L')"
      "cmp_order (bt_cmpkey t)"
    using ok by (simp_all add: tree_invariant)
  have T2: "inorder T2 = ?L'" using stands_content [OF st] by simp
  have vn: "v \<notin> owned t ?L'" using stands_distinct [OF g(1)] by auto
  have A: "insert v (owned t ?L') = owned t ?L" by auto
  obtain nd b w where nd: "th_nodes H v = Some nd" "tn_data nd = Some b" "th_blocks H b = Some w" "entry H v = (tn_key nd, w)"
    using entry_data_ok [OF stands_data [OF g(1)], of v] by auto
  then have "core (th_nodes H2) v = Some (tn_key nd, Some b)" using co(1) by (simp add: core_def)
  then obtain vd where vd: "th_nodes H2 v = Some vd" "tn_data vd = Some b" by (auto simp: core_def)
  note cs = core_same [OF co(1)]
  have "inj_on (block_of H2) (insert v (owned t ?L'))" unfolding A cs(2) using g(3) .
  moreover have "nodes_used t H2 (insert v (owned t ?L'))" unfolding A
    by (rule nodes_used_other [OF g(4)]) (simp_all add: cs(1))
  moreover have "blocks_used t H2 (block_of H2 ` insert v (owned t ?L'))" unfolding A cs(2)
    by (rule blocks_used_other [OF g(5)]) (simp_all add: co(2))
  moreover have "ascending (bt_cmpkey t) (map (entry H2) ?L')"
    unfolding entry_cong [OF co] using g(2) by (simp add: ascending_def sorted_wrt_append)
  moreover have "th_blocks H2 b = Some w" using nd(3) co(2) by simp
  moreover note delete_end_run [OF st bal vn vd _ _ _ _ _ g(6,7), of w elt]
  ultimately obtain t' H' where "delete_end t v elt H2 = Some (OK, if elt then Some w else None, t', H')"
      "tree_ok t' H' T2" "map (entry H') ?L' = map (entry H2) ?L'" "bt_cmpkey t' = bt_cmpkey t" by blast
  then show ?thesis using nd(4) T2 entry_cong [OF co] by auto
qed

lemma bstree_delete_run:
  assumes ok: "tree_ok t H (plug c (Node l v r))"
  shows "\<exists>t' H' T'. bstree_delete env t v elt H = Some (OK, if elt then Some (snd (entry H v)) else None, t', H') \<and>
    tree_ok t' H' T' \<and> bt_cmpkey t' = bt_cmpkey t \<and>
    map (entry H') (inorder T') = map (entry H) (before c @ inorder l @ inorder r @ after c)"
proof -
  let ?L = "before c @ inorder l @ v # inorder r @ after c" and ?nil = "bt_nil t"
  have st0: "stands t ?L [] (plug c (Node l v r)) H" and bal: "balanced t H (plug c (Node l v r))"
    and nu: "nodes_used t H (owned t ?L)"
    using ok by (simp_all add: tree_invariant)
  have st: "stands t ?L c (Node l v r) H" using st0 by (simp add: stands_plug)
  have d: "distinct ?L" "?nil \<notin> set ?L" using stands_distinct [OF st] by auto
  have v0: "v \<noteq> 0" using nu by (auto simp: nodes_used_def)
  have lk: "linked (th_nodes H) v (addr ?nil l) (addr ?nil r) (up (bt_root t) c)"
    using st by (simp add: stands_def fix_state_def tree_at_def)
  obtain vd where vd: "th_nodes H v = Some vd" "tn_left vd = addr ?nil l" "tn_right vd = addr ?nil r"
    using lk by (auto simp: linked_Some)
  have leaf: "addr ?nil l = ?nil \<longleftrightarrow> l = Leaf" "addr ?nil r = ?nil \<longleftrightarrow> r = Leaf" using d(2) by (cases l; cases r; auto)+
  show ?thesis
  proof (cases "l = Leaf \<or> r = Leaf")
    case one: True
    let ?x = "addr ?nil (if l = Leaf then r else l)"
    obtain H2 T2 where u: "do {
          H \<leftarrow> on_nodes (unlink_node t v ?x) H;
          delete_rb env t v ?x H
        } = Some H2" "stands t (before c @ inorder l @ inorder r @ after c) [] T2 H2" "balanced t H2 T2"
        "core (th_nodes H2) = core (th_nodes H)" "th_blocks H2 = th_blocks H"
      using unlink_fix_run [OF st bal one, of env] by blast
    obtain H1 where H1: "on_nodes (unlink_node t v ?x) H = Some H1" "delete_rb env t v ?x H1 = Some H2"
      using u(1) by (auto simp: bind_eq_Some_conv)
    have "(if tn_left vd = ?nil then tn_right vd else tn_left vd) = ?x" using vd leaf one by auto
    then have "bstree_delete env t v elt H = delete_end t v elt H2"
      using v0 vd leaf one H1 by (simp add: bstree_delete_def)
    then show ?thesis using delete_finish [OF ok u(2-5)] by metis
  next
    case two: False
    obtain c2 T1 where lm: "leftmost (GoRight l v # c) r = (c2, T1)" by fastforce
    obtain y yr where T1: "T1 = Node Leaf y yr" using leftmost_node [OF lm] two by blast
    have pl: "plug c2 (Node Leaf y yr) = plug c (Node l v r)" and bc: "before c2 = before c @ inorder l @ [v]"
      using leftmost_plug [OF lm] T1 by auto
    have succ: "bstree_node_successor t v (th_nodes H) = Some y" using successor_run [OF st _ lm] two T1 by simp
    have sty: "stands t ?L c2 (Node Leaf y yr) H" using st0 pl by (metis stands_plug)
    have Ly: "inorder r @ after c = y # inorder yr @ after c2" using stands_content [OF sty] bc by simp
    have yv: "y \<noteq> v" using d(1) Ly by auto
    let ?x = "addr ?nil yr" and ?L2 = "before c @ inorder l @ v # inorder yr @ after c2"
    obtain yd where yd: "th_nodes H y = Some yd" "tn_left yd = ?nil" "tn_right yd = ?x"
      using sty by (auto simp: stands_def fix_state_def tree_at_def linked_Some)
    obtain H2 T2 where u: "do {
          H \<leftarrow> on_nodes (unlink_node t y ?x) H;
          delete_rb env t y ?x H
        } = Some H2" "stands t ?L2 [] T2 H2" "balanced t H2 T2"
        "core (th_nodes H2) = core (th_nodes H)" "th_blocks H2 = th_blocks H"
      using unlink_fix_run [OF sty bal [folded pl], of env] bc by auto
    obtain H1 where H1: "on_nodes (unlink_node t y ?x) H = Some H1" "delete_rb env t y ?x H1 = Some H2"
      using u(1) by (auto simp: bind_eq_Some_conv)
    have IT2: "inorder T2 = ?L2" using stands_content [OF u(2)] by simp
    have "v \<in> set (inorder T2)" unfolding IT2 by simp
    then have "v \<in> set_tree T2" by simp
    then obtain c3 l3 r3 where T2: "T2 = plug c3 (Node l3 v r3)" using split_at by blast
    have sp: "before c3 @ inorder l3 = before c @ inorder l" "inorder r3 @ after c3 = inorder yr @ after c2"
      using distinct_split [of "before c @ inorder l" v "inorder yr @ after c2" "before c3 @ inorder l3" "inorder r3 @ after c3"]
        stands_distinct [OF u(2)] IT2 T2 by auto
    have st3: "stands t ?L2 c3 (Node l3 v r3) H2" using u(2) T2 by (simp add: stands_plug)
    have yn: "y \<notin> owned t ?L2" using stands_distinct [OF st] Ly by auto
    obtain b w where b: "tn_data yd = Some b" "th_blocks H b = Some w"
      using entry_data_ok [OF stands_data [OF sty], of y] yd(1) Ly by auto
    have "core (th_nodes H2) y = Some (tn_key yd, Some b)" using u(4) yd(1) b(1) by (simp add: core_def)
    then obtain yd2 where yd2: "th_nodes H2 y = Some yd2" "tn_data yd2 = Some b" by (auto simp: core_def)
    have b2: "th_blocks H2 b = Some w" using b(2) u(5) by simp
    let ?L3 = "before c3 @ inorder (Node l3 y r3) @ after c3"
    obtain ns3 where r: "replace_node y v (th_nodes H2) = Some ns3" "stands t ?L3 c3 (Node l3 y r3) (H2\<lparr>th_nodes := ns3\<rparr>)"
        "core ns3 = core (th_nodes H2)" "redn ns3 = (redn (th_nodes H2))(y := redn (th_nodes H2) v)"
      using replace_run [OF st3 yd2(1) yn yd2(2) b2] by blast
    let ?H3 = "H2\<lparr>th_nodes := ns3\<rparr>"
    have L3: "?L3 = before c @ inorder l @ inorder r @ after c" using sp Ly by simp
    have "inorder T2 = before c3 @ inorder l3 @ v # inorder r3 @ after c3" unfolding T2 inorder_plug by simp
    then have "set (before c3) \<union> set (inorder l3) \<union> set (inorder r3) \<union> set (after c3) \<subseteq> set ?L2" unfolding IT2 [symmetric] by auto
    then have "set_tree l3 \<union> set_tree r3 \<union> set (before c3) \<union> set (after c3) \<subseteq> owned t ?L2" by auto
    then have "y \<notin> set (before c3) \<union> set (after c3) \<union> set_tree l3 \<union> set_tree r3" using yn by blast
    then have "balanced t ?H3 (plug c3 (Node l3 y r3))"
      using rb_rename [of "redn (th_nodes H2)" c3 l3 v r3 y] u(3) r(4) T2 by (simp add: balanced_def)
    moreover have "stands t (before c @ inorder l @ inorder r @ after c) [] (plug c3 (Node l3 y r3)) ?H3"
      using r(2) L3 by (simp add: stands_plug)
    moreover have "core (th_nodes ?H3) = core (th_nodes H)" "th_blocks ?H3 = th_blocks H" using r(3) u(4,5) by simp_all
    moreover have "bstree_delete env t v elt H = delete_end t v elt ?H3"
      using v0 vd leaf two succ yd H1 yv r(1) by (simp add: bstree_delete_def on_nodes_def)
    ultimately show ?thesis using delete_finish [OF ok] by metis
  qed
qed

subsection \<open>Lookup and removal\<close>

lemma tree_query_run:
  assumes ok: "tree_ok t H T"
  shows "\<exists>c T1. plug c T1 = T \<and> around (bt_cmpkey t) k (map (entry H) (before c)) (map (entry H) (after c)) \<and>
    (T1 = Leaf \<or> (\<exists>l a r. T1 = Node l a r \<and> bt_cmpkey t k (fst (entry H a)) = 0 \<and> a \<noteq> 0)) \<and>
    RCSW_BSTREE_ROOT t (th_nodes H) = Some (addr (bt_nil t) T) \<and>
    bstree_node_query t (addr (bt_nil t) T) k (th_nodes H) = Some (if T1 = Leaf then 0 else addr (bt_nil t) T1)"
proof -
  obtain c T1 where d: "descend (bt_cmpkey t) (key_at (th_nodes H)) k [] T = (c, T1)" by fastforce
  have st: "stands t (inorder T) [] T H" and nu: "nodes_used t H (owned t (inorder T))" using ok by (simp_all add: tree_invariant)
  then have pt: "ptree (th_nodes H) (bt_nil t) (bt_root t) T" "bt_nil t \<notin> set_tree T"
    by (simp_all add: stands_def fix_state_def tree_at_def)
  note ds = tree_ok_descend [OF ok d]
  have "bt_cmpkey t k (fst (entry H a)) = 0 \<and> a \<noteq> 0" if "T1 = Node l a r" for l a r
  proof -
    have "a \<in> set (inorder T)" using ds(2) that by (metis inorder_plug inorder.simps(2) in_set_conv_decomp append.assoc append_Cons)
    then have "fst (entry H a) = key_at (th_nodes H) a" "a \<in> owned t (inorder T)"
      using fst_entry [OF stands_data [OF st]] by auto
    moreover from this(2) have "a \<noteq> 0" using nu unfolding nodes_used_def by fastforce
    ultimately show ?thesis using descend_zero [OF d [unfolded that]] by simp
  qed
  then have "T1 = Leaf \<or> (\<exists>l a r. T1 = Node l a r \<and> bt_cmpkey t k (fst (entry H a)) = 0 \<and> a \<noteq> 0)"
    by (cases T1) auto
  then show ?thesis using ds(1,2) stands_root [OF st] bstree_node_query_run [OF pt d] by blast
qed

lemma bstree_remove_ok:
  assumes ok: "tree_ok t H T"
  defines "ps \<equiv> map (entry H) (inorder T)"
  shows "\<exists>t' H' T'. bstree_remove env t (Some k) H = Some (if dict_find (bt_cmpkey t) k ps = None then ERROR None else OK, t', H') \<and>
    tree_ok t' H' T' \<and> bt_cmpkey t' = bt_cmpkey t \<and> map (entry H') (inorder T') = dict_delete (bt_cmpkey t) k ps"
proof -
  have cmp: "cmp_order (bt_cmpkey t)" using ok by (simp add: tree_invariant)
  obtain c T1 where q: "plug c T1 = T" "around (bt_cmpkey t) k (map (entry H) (before c)) (map (entry H) (after c))"
      "T1 = Leaf \<or> (\<exists>l a r. T1 = Node l a r \<and> bt_cmpkey t k (fst (entry H a)) = 0 \<and> a \<noteq> 0)"
      "RCSW_BSTREE_ROOT t (th_nodes H) = Some (addr (bt_nil t) T)"
      "bstree_node_query t (addr (bt_nil t) T) k (th_nodes H) = Some (if T1 = Leaf then 0 else addr (bt_nil t) T1)"
    using tree_query_run [OF ok, of k] by blast
  have L: "inorder T = before c @ inorder T1 @ after c" using q(1) by (metis inorder_plug)
  show ?thesis
  proof (cases "T1 = Leaf")
    case True
    then have "ps = map (entry H) (before c) @ map (entry H) (after c)" using L by (simp add: ps_def)
    then have "dict_find (bt_cmpkey t) k ps = None" "dict_delete (bt_cmpkey t) k ps = ps"
      using cmp_order.around_find(1) [OF cmp q(2)] cmp_order.around_delete(1) [OF cmp q(2)] by auto
    moreover have "bstree_remove env t (Some k) H = Some (ERROR None, t, H)"
      using q(4,5) True by (simp add: bstree_remove_def)
    ultimately show ?thesis using ok ps_def by auto
  next
    case False
    then obtain l a r where T1: "T1 = Node l a r" "bt_cmpkey t k (fst (entry H a)) = 0" "a \<noteq> 0" using q(3) by blast
    have ok': "tree_ok t H (plug c (Node l a r))" using ok q(1) T1(1) by simp
    obtain t' H' T' where d: "bstree_delete env t a False H = Some (OK, None, t', H')" "tree_ok t' H' T'" "bt_cmpkey t' = bt_cmpkey t"
        "map (entry H') (inorder T') = map (entry H) (before c @ inorder l @ inorder r @ after c)"
      using bstree_delete_run [OF ok', of env False] by auto
    have ar: "around (bt_cmpkey t) k (map (entry H) (before c @ inorder l)) (map (entry H) (inorder r @ after c))"
    proof -
      have asc: "ascending (bt_cmpkey t) (map (entry H) (before c @ inorder l @ a # inorder r @ after c))"
        using ok' by (simp add: tree_invariant)
      have "bt_cmpkey t (fst (entry H x)) k < 0" if "x \<in> set (before c @ inorder l)" for x
        using asc that T1(2) cmp_order.cmp_less_trans [OF cmp, of "fst (entry H x)" "fst (entry H a)" k]
          cmp_order.cmp_zero [OF cmp, of k "fst (entry H a)"]
        by (auto simp: ascending_def sorted_wrt_append)
      moreover have "bt_cmpkey t k (fst (entry H x)) < 0" if "x \<in> set (inorder r @ after c)" for x
        using asc that T1(2) cmp_order.cmp_le_less_trans [OF cmp, of k "fst (entry H a)" "fst (entry H x)"]
        by (auto simp: ascending_def sorted_wrt_append)
      ultimately show ?thesis by (auto simp: around_def)
    qed
    have "ps = map (entry H) (before c @ inorder l) @ (fst (entry H a), snd (entry H a)) # map (entry H) (inorder r @ after c)"
      using L T1(1) by (simp add: ps_def)
    then have "dict_find (bt_cmpkey t) k ps \<noteq> None"
      "dict_delete (bt_cmpkey t) k ps = map (entry H) (before c @ inorder l) @ map (entry H) (inorder r @ after c)"
      using cmp_order.around_find(2) [OF cmp ar T1(2), of "snd (entry H a)"]
        cmp_order.around_delete(2) [OF cmp ar T1(2), of "snd (entry H a)"] by simp_all
    moreover have "bstree_remove env t (Some k) H = Some (OK, t', H')"
      using q(4,5) T1(1,3) d(1) by (simp add: bstree_remove_def)
    ultimately show ?thesis using d(2-4) by auto
  qed
qed

text \<open>The operations as a client sees them.\<close>

definition bst_add :: "('k, 'a) tenv \<Rightarrow> 'k bstree \<times> ('k, 'a) theap \<Rightarrow> 'k \<Rightarrow> 'a \<Rightarrow> (bool \<times> 'k bstree \<times> ('k, 'a) theap) option" where
  "bst_add env m k v = map_option (\<lambda>(s, m'). (s = OK, m')) (bstree_insert env (fst m) (Some k) (Some v) (snd m))"

definition bst_del :: "('k, 'a) tenv \<Rightarrow> 'k bstree \<times> ('k, 'a) theap \<Rightarrow> 'k \<Rightarrow> (bool \<times> 'k bstree \<times> ('k, 'a) theap) option" where
  "bst_del env m k = map_option (\<lambda>(s, m'). (s = OK, m')) (bstree_remove env (fst m) (Some k) (snd m))"

definition bst_get :: "'k bstree \<times> ('k, 'a) theap \<Rightarrow> 'k \<Rightarrow> 'a option option" where
  "bst_get m k = do {
     d \<leftarrow> bstree_data_query (fst m) (Some k) (snd m);
     case d of None \<Rightarrow> Some None | Some b \<Rightarrow> map_option Some (th_blocks (snd m) b)
   }"

lemma find_after: "find P us = None \<Longrightarrow> P x \<Longrightarrow> find P (us @ x # ws) = Some x"
  by (induction us) (auto split: if_splits)

lemma bst_get_ok:
  assumes ok: "tree_ok t H T"
  shows "bst_get (t, H) k = Some (dict_find (bt_cmpkey t) k (map (entry H) (inorder T)))"
proof -
  let ?ps = "map (entry H) (inorder T)"
  have cmp: "cmp_order (bt_cmpkey t)" and st: "stands t (inorder T) [] T H" using ok by (simp_all add: tree_invariant)
  obtain c T1 where q: "plug c T1 = T" "around (bt_cmpkey t) k (map (entry H) (before c)) (map (entry H) (after c))"
      "T1 = Leaf \<or> (\<exists>l a r. T1 = Node l a r \<and> bt_cmpkey t k (fst (entry H a)) = 0 \<and> a \<noteq> 0)"
      "RCSW_BSTREE_ROOT t (th_nodes H) = Some (addr (bt_nil t) T)"
      "bstree_node_query t (addr (bt_nil t) T) k (th_nodes H) = Some (if T1 = Leaf then 0 else addr (bt_nil t) T1)"
    using tree_query_run [OF ok, of k] by blast
  have L: "inorder T = before c @ inorder T1 @ after c" using q(1) by (metis inorder_plug)
  show ?thesis
  proof (cases "T1 = Leaf")
    case True
    then have "dict_find (bt_cmpkey t) k ?ps = None" using cmp_order.around_find(1) [OF cmp q(2)] L by simp
    then show ?thesis using q(4,5) True by (simp add: bst_get_def bstree_data_query_def)
  next
    case False
    then obtain l a r where T1: "T1 = Node l a r" "bt_cmpkey t k (fst (entry H a)) = 0" "a \<noteq> 0" using q(3) by blast
    have "a \<in> owned t (inorder T)" using L T1(1) by simp
    then obtain nd b v where nd: "th_nodes H a = Some nd" "tn_data nd = Some b" "th_blocks H b = Some v" "entry H a = (tn_key nd, v)"
      using entry_data_ok [OF stands_data [OF st]] by blast
    have asc: "ascending (bt_cmpkey t) (map (entry H) (before c @ inorder l @ a # inorder r @ after c))"
      using ok L T1(1) by (simp add: tree_invariant)
    have "dict_find (bt_cmpkey t) k ?ps = Some v"
    proof -
      have "bt_cmpkey t k (fst (entry H x)) \<noteq> 0" if "x \<in> set (before c @ inorder l)" for x
      proof -
        have "bt_cmpkey t (fst (entry H x)) (fst (entry H a)) < 0"
          using asc that by (auto simp: ascending_def sorted_wrt_append)
        then have "bt_cmpkey t (fst (entry H x)) k < 0"
          using cmp_order.cmp_less_trans [OF cmp] cmp_order.cmp_zero [OF cmp, of k] T1(2) by (metis order_refl)
        then show ?thesis using cmp_order.cmp_less [OF cmp, of "fst (entry H x)" k] by simp
      qed
      then have "\<forall>p\<in>set (map (entry H) (before c @ inorder l)). bt_cmpkey t k (fst p) \<noteq> 0"
        unfolding set_map by blast
      then have "find (\<lambda>p. bt_cmpkey t k (fst p) = 0) (map (entry H) (before c @ inorder l)) = None"
        unfolding find_None_iff by blast
      then have "find (\<lambda>p. bt_cmpkey t k (fst p) = 0)
          (map (entry H) (before c @ inorder l) @ entry H a # map (entry H) (inorder r @ after c)) = Some (entry H a)"
        by (rule find_after) (simp add: T1(2))
      then show ?thesis using L T1(1) nd(4) by (simp add: dict_find_def)
    qed
    then show ?thesis using q(4,5) T1(1,3) nd by (simp add: bst_get_def bstree_data_query_def)
  qed
qed

subsection \<open>The dictionary\<close>

definition bst_rep ::
  "('k, 'a) tenv \<Rightarrow> ('k \<Rightarrow> 'k \<Rightarrow> int) \<Rightarrow> 'k bstree \<times> ('k, 'a) theap \<Rightarrow> ('k \<times> 'a) list \<Rightarrow> bool" where
  "bst_rep env cmp m ps \<longleftrightarrow> fresh_memory env \<and> bt_cmpkey (fst m) = cmp \<and> tree_rep m ps"

lemma status_ERROR [simp]: "ERROR e \<noteq> OK" "OK \<noteq> ERROR e"
  by simp_all

interpretation bst: ordered_dict cmp "bst_add env" "bst_del env" bst_get "bst_rep env cmp" for cmp env
proof unfold_locales
  fix m :: "'a bstree \<times> ('a, 'b) theap" and ps k v
  assume "bst_rep env cmp m ps"
  then obtain T where T: "tree_ok (fst m) (snd m) T" "ps = map (entry (snd m)) (inorder T)" "fresh_memory env" "bt_cmpkey (fst m) = cmp"
    by (auto simp: bst_rep_def tree_rep_def)
  obtain s t' H' T' where r: "bstree_insert env (fst m) (Some k) (Some v) (snd m) = Some (s, t', H')" "tree_ok t' H' T'"
      "bt_cmpkey t' = cmp" "s = OK \<and> dict_find cmp k ps = None \<and> map (entry H') (inorder T') = dict_insert cmp k v ps \<or>
        s = ERROR None \<and> map (entry H') (inorder T') = ps"
    using bstree_insert_ok [OF T(3,1), of k v] unfolding T(2,4) by blast
  have "bst_rep env cmp (t', H') (map (entry H') (inorder T'))" using r(2,3) T(3) by (auto simp: bst_rep_def tree_rep_def)
  then show "\<exists>ok m' ps'. bst_add env m k v = Some (ok, m') \<and> bst_rep env cmp m' ps' \<and>
      (if ok then dict_find cmp k ps = None \<and> ps' = dict_insert cmp k v ps else ps' = ps)"
    using r(1,4) by (rule_tac exI [of _ "s = OK"], rule_tac exI [of _ "(t', H')"],
        rule_tac exI [of _ "map (entry H') (inorder T')"]) (auto simp: bst_add_def)
next
  fix m :: "'a bstree \<times> ('a, 'b) theap" and ps k
  assume "bst_rep env cmp m ps"
  then obtain T where T: "tree_ok (fst m) (snd m) T" "ps = map (entry (snd m)) (inorder T)" "fresh_memory env" "bt_cmpkey (fst m) = cmp"
    by (auto simp: bst_rep_def tree_rep_def)
  obtain t' H' T' where r: "bstree_remove env (fst m) (Some k) (snd m) =
        Some (if dict_find cmp k ps = None then ERROR None else OK, t', H')" "tree_ok t' H' T'" "bt_cmpkey t' = cmp"
      "map (entry H') (inorder T') = dict_delete cmp k ps"
    using bstree_remove_ok [OF T(1), of env k] unfolding T(2,4) by blast
  have "bst_rep env cmp (t', H') (dict_delete cmp k ps)" using r(2-4) T(3) by (auto simp: bst_rep_def tree_rep_def)
  then show "\<exists>m'. bst_del env m k = Some (dict_find cmp k ps \<noteq> None, m') \<and> bst_rep env cmp m' (dict_delete cmp k ps)"
    using r(1) by (rule_tac exI [of _ "(t', H')"]) (auto simp: bst_del_def)
next
  fix m :: "'a bstree \<times> ('a, 'b) theap" and ps k
  assume "bst_rep env cmp m ps"
  then show "bst_get m k = Some (dict_find cmp k ps)"
    using bst_get_ok [of "fst m" "snd m" _ k] by (auto simp: bst_rep_def tree_rep_def)
qed

lemma bst_exec_ok:
  assumes "fresh_memory env" and "tree_ok t H T"
  shows "\<exists>outs t' H' T'. dict_exec (bst_add env) (bst_del env) bst_get (t, H) ops = Some (outs, t', H') \<and> tree_ok t' H' T' \<and>
    dict_answers (bt_cmpkey t) (map (entry H) (inorder T)) ops outs (map (entry H') (inorder T'))"
proof -
  have "bst_rep env (bt_cmpkey t) (t, H) (map (entry H) (inorder T))" using assms by (auto simp: bst_rep_def tree_rep_def)
  then obtain outs m' ps' where "dict_exec (bst_add env) (bst_del env) bst_get (t, H) ops = Some (outs, m')"
      "bst_rep env (bt_cmpkey t) m' ps'" "dict_answers (bt_cmpkey t) (map (entry H) (inorder T)) ops outs ps'"
    using bst.exec_answers by blast
  then show ?thesis by (cases m') (auto simp: bst_rep_def tree_rep_def)
qed

end
