(* ===== verification/Tree_Init.thy ===== *)
theory Tree_Init
  imports Bstree_Correct
begin

text \<open>
  Initialisation of a tree (bstree_init in src/ds/bstree.c): whatever memory it gets, it returns
  \<open>NULL\<close> or the empty tree, which then answers as a dictionary that starts empty.
\<close>

subsection \<open>The sentinels\<close>

definition sentinel :: "('k, 'a) theap \<Rightarrow> nat \<Rightarrow> nat \<Rightarrow> nat \<Rightarrow> bool" where
  "sentinel H nil a b \<longleftrightarrow> (\<exists>nd v. th_nodes H a = Some nd \<and> tn_data nd = Some b \<and> th_blocks H b = Some v \<and>
     tn_left nd = nil \<and> tn_right nd = nil \<and> tn_parent nd = nil \<and> \<not> tn_red nd)"

lemma tree_ok_sentinels:
  assumes "sentinel H (bt_nil t) (bt_nil t) b1" and "sentinel H (bt_nil t) (bt_root t) b2"
    and "bt_nil t \<noteq> bt_root t" and "b1 \<noteq> b2" and "nodes_used t H {bt_nil t, bt_root t}"
    and "blocks_used t H {b1, b2}" and "bt_current t = 0" and "cmp_order (bt_cmpkey t)"
  shows "tree_ok t H Leaf"
proof -
  obtain n1 v1 n2 v2 where n: "th_nodes H (bt_nil t) = Some n1" "tn_data n1 = Some b1" "th_blocks H b1 = Some v1"
      "tn_left n1 = bt_nil t" "tn_right n1 = bt_nil t" "\<not> tn_red n1"
      "th_nodes H (bt_root t) = Some n2" "tn_data n2 = Some b2" "th_blocks H b2 = Some v2"
      "tn_left n2 = bt_nil t" "tn_right n2 = bt_nil t" "tn_parent n2 = bt_nil t" "\<not> tn_red n2"
    using assms(1,2) unfolding sentinel_def by blast
  have b: "block_of H (bt_nil t) = b1" "block_of H (bt_root t) = b2" using n by (simp_all add: block_of_node)
  have "stands t [] [] Leaf H"
    using n assms(3) by (simp add: stands_def fix_state_def tree_at_def linked_def data_ok_def tree_access)
  then show ?thesis using assms b
    by (simp add: tree_invariant balanced_def ascending_def)
qed

lemma sentinel_aux:
  "sentinel H nil a b \<Longrightarrow> \<exists>H'. on_nodes (put_aux a v) H = Some H' \<and> th_blocks H' = th_blocks H \<and>
     dom (th_nodes H') = dom (th_nodes H) \<and> (\<forall>a' b'. sentinel H nil a' b' \<longrightarrow> sentinel H' nil a' b')"
  by (auto simp: sentinel_def on_nodes_def put_aux_def node_upd_def)

lemma sentinel_block:
  "sentinel H nil a b \<Longrightarrow> \<exists>H'. write_block b v H = Some H' \<and> th_nodes H' = th_nodes H \<and>
     dom (th_blocks H') = dom (th_blocks H) \<and> (\<forall>a' b'. sentinel H nil a' b' \<longrightarrow> sentinel H' nil a' b')"
  by (auto simp: sentinel_def write_block_def)

definition helped :: "('k, 'a) theap \<Rightarrow> nat \<Rightarrow> ('k, 'a) theap \<Rightarrow> bool" where
  "helped H nil H' \<longleftrightarrow> dom (th_nodes H') = dom (th_nodes H) \<and> dom (th_blocks H') = dom (th_blocks H) \<and>
     (\<forall>a b. sentinel H nil a b \<longrightarrow> sentinel H' nil a b)"

lemma helped_put:
  assumes "sentinel H nil a b"
  shows "\<exists>H'. on_nodes (put_aux a v) H = Some H' \<and> helped H nil H'"
    and "\<exists>H'. do { nd \<leftarrow> th_nodes H a; b \<leftarrow> tn_data nd; write_block b w H } = Some H' \<and> helped H nil H'"
    and "\<exists>H'. mark_block env a c H = Some H' \<and> helped H nil H'"
  using assms by (auto simp: sentinel_def helped_def on_nodes_def put_aux_def node_upd_def write_block_def mark_block_def)

lemma helped_sentinel: "helped H nil H' \<Longrightarrow> sentinel H nil a b \<Longrightarrow> sentinel H' nil a b"
  by (simp add: helped_def)

lemma helped_refl: "helped H nil H"
  by (simp add: helped_def)

lemma helped_trans: "helped H nil H' \<Longrightarrow> helped H' nil H'' \<Longrightarrow> helped H nil H''"
  by (simp add: helped_def)

lemma init_helpers_run:
  assumes s: "sentinel H (bt_nil t) (bt_nil t) b1" "sentinel H (bt_nil t) (bt_root t) b2"
  shows "bt_elt_size t \<le> 8 \<Longrightarrow> \<exists>H'. inttree_init_helper env t H = Some H' \<and> helped H (bt_nil t) H'"
    and "\<exists>H'. ostree_init_helper env t H = Some H' \<and> helped H (bt_nil t) H'"
proof -
  let ?nil = "bt_nil t" and ?w = "te_of_interval env \<lparr>iv_high = - (2 ^ 31), iv_low = - (2 ^ 31)\<rparr>" and ?m = "- (2 ^ 31) :: int"
  obtain H1 where H1: "do { nd \<leftarrow> th_nodes H ?nil; b \<leftarrow> tn_data nd; write_block b ?w H } = Some H1" "helped H ?nil H1"
    using helped_put(2) [OF s(1)] by blast
  note H1s = s [THEN helped_sentinel [OF H1(2)]]
  obtain H2 where H2: "do { nd \<leftarrow> th_nodes H1 (bt_root t); b \<leftarrow> tn_data nd; write_block b ?w H1 } = Some H2" "helped H ?nil H2"
    using helped_put(2) [OF H1s(2)] helped_trans [OF H1(2)] by blast
  note H2s = s [THEN helped_sentinel [OF H2(2)]]
  obtain H3 where H3: "on_nodes (put_aux ?nil ?m) H2 = Some H3" "helped H ?nil H3"
    using helped_put(1) [OF H2s(1)] helped_trans [OF H2(2)] by blast
  note H3s = s [THEN helped_sentinel [OF H3(2)]]
  obtain H4 where H4: "on_nodes (put_aux (bt_root t) ?m) H3 = Some H4" "helped H ?nil H4"
    using helped_put(1) [OF H3s(2)] helped_trans [OF H3(2)] by blast
  have "inttree_init_helper env t H = Some H4" if "bt_elt_size t \<le> 8"
    using that H1(1) H2(1) H3(1) H4(1) by (auto simp: inttree_init_helper_def bind_eq_Some_conv)
  then show "\<exists>H'. inttree_init_helper env t H = Some H' \<and> helped H ?nil H'" if "bt_elt_size t \<le> 8"
    using H4(2) that by blast
  obtain G1 where G1: "on_nodes (put_aux (bt_root t) 0) H = Some G1" "helped H ?nil G1"
    using helped_put(1) [OF s(2)] by blast
  note G1s = s [THEN helped_sentinel [OF G1(2)]]
  obtain G2 where G2: "on_nodes (put_aux ?nil 0) G1 = Some G2" "helped H ?nil G2"
    using helped_put(1) [OF G1s(1)] helped_trans [OF G1(2)] by blast
  note G2s = s [THEN helped_sentinel [OF G2(2)]]
  obtain G3 where G3: "mark_block env (bt_root t) 0xCC G2 = Some G3" "helped H ?nil G3"
    using helped_put(3) [OF G2s(2)] helped_trans [OF G2(2)] by blast
  note G3s = s [THEN helped_sentinel [OF G3(2)]]
  obtain G4 where G4: "mark_block env ?nil 0xCD G3 = Some G4" "helped H ?nil G4"
    using helped_put(3) [OF G3s(1)] helped_trans [OF G3(2)] by blast
  have "ostree_init_helper env t H = Some G4"
    using G1(1) G2(1) G3(1) G4(1) by (simp add: ostree_init_helper_def)
  then show "\<exists>H'. ostree_init_helper env t H = Some H' \<and> helped H ?nil H'" using G4(2) by blast
qed

lemma init_helper_run:
  assumes "sentinel H (bt_nil t) (bt_nil t) b1" and "sentinel H (bt_nil t) (bt_root t) b2"
    and "has_flag (bt_flags t) RCSW_DS_BSTREE_INT \<Longrightarrow> bt_elt_size t \<le> 8"
  shows "\<exists>H'. (if has_flag (bt_flags t) RCSW_DS_BSTREE_INT then inttree_init_helper env t H
      else if has_flag (bt_flags t) RCSW_DS_BSTREE_OS then ostree_init_helper env t H else Some H) = Some H' \<and>
    helped H (bt_nil t) H'"
  using init_helpers_run [OF assms(1,2), of env] assms(3) helped_refl [of H "bt_nil t"] by simp

lemma helped_used:
  assumes "helped H nil H'"
  shows "nodes_used t H A \<Longrightarrow> nodes_used t H' A" "blocks_used t H B \<Longrightarrow> blocks_used t H' B"
  using assms nodes_used_other [OF _ same_tree_refl refl] blocks_used_other [OF _ same_tree_refl refl]
  unfolding helped_def by blast+

lemma link_sentinel_run:
  assumes "new_node t parent key data H a b" and "a \<notin> A"
  shows "\<exists>H'. on_nodes (link_sentinel a nil) H = Some H' \<and> sentinel H' nil a b \<and> dom (th_nodes H') = dom (th_nodes H) \<and>
    th_blocks H' = th_blocks H \<and> (\<forall>x. x \<noteq> a \<longrightarrow> th_nodes H' x = th_nodes H x)"
  using assms
  by (auto simp: new_node_def on_nodes_def link_sentinel_def tree_update sentinel_def)

lemma sentinel_create:
  assumes "fresh_memory env" and "nodes_used t H A" and "blocks_used t H B"
  obtains a t' H' where "bstree_node_create env t 0 None None H = Some (a, t', H')" "same_tree t t'"
    "\<forall>x \<in> A. th_nodes H' x = th_nodes H x" "\<forall>x \<in> B. th_blocks H' x = th_blocks H x"
    "if a = 0 then nodes_used t' H' A \<and> blocks_used t' H' B
     else a \<notin> A \<and> (\<exists>b. b \<notin> B \<and> new_node t 0 None None H' a b \<and> nodes_used t' H' (insert a A) \<and> blocks_used t' H' (insert b B))"
  using node_create_cases [OF assms, of 0 None None] by blast

subsection \<open>Initialisation\<close>

text \<open>
  The memory and the parameters a client passes; the elements of an interval tree take no more
  than the eight bytes of the interval that its initialisation copies into the sentinels.
\<close>

definition pool_given :: "nat set \<Rightarrow> int \<Rightarrow> (allocm \<times> nat) option \<Rightarrow> bool" where
  "pool_given M n given \<longleftrightarrow> (\<forall>m base. given = Some (m, base) \<longrightarrow>
     length m = nat (n + 2) \<and> region base (nat (n + 2)) \<subseteq> M)"

definition params_given :: "'k bstree_params \<Rightarrow> ('k, 'a) theap \<Rightarrow> bool" where
  "params_given p H \<longleftrightarrow> - 1 \<le> bp_max_elts p \<and> bp_max_elts p < 2 ^ 31 - 2 \<and>
     pool_given (dom (th_nodes H) \<inter> {1..<2 ^ 64}) (bp_max_elts p) (bp_meta p) \<and>
     pool_given (dom (th_blocks H)) (bp_max_elts p) (bp_elements p) \<and>
     (has_flag (bp_flags p) RCSW_DS_BSTREE_INT \<longrightarrow> bp_elt_size p \<le> 8)"

lemma all_free: "length m = n \<Longrightarrow> n < 2 ^ 31 \<Longrightarrow> \<forall>i < n. m ! i = -1 \<Longrightarrow> pool_ok m base n {}"
  by (auto simp: pool_ok_def allocm_free_def)

lemma given_map:
  assumes "pool_given M n (Some (m, base))" and "- 1 \<le> n" and "n < 2 ^ 31 - 2" and "n \<noteq> -1"
  shows "\<exists>k m'. int32 (n + 2) = Some k \<and> allocm_init m (size_of_int k) = Some m' \<and>
    pool_ok m' base ((size_of_int n + 2) mod 2 ^ 64) {} \<and> 0 < (size_of_int n + 2) mod 2 ^ 64 \<and>
    region base ((size_of_int n + 2) mod 2 ^ 64) \<subseteq> M"
proof -
  have n: "int32 (n + 2) = Some (n + 2)" "size_of_int (n + 2) = nat (n + 2)"
    "(size_of_int n + 2) mod 2 ^ 64 = nat (n + 2)"
    using assms(2-4) by (simp_all add: int32_def size_of_int_def nat_add_distrib)
  have m: "length m = nat (n + 2)" "region base (nat (n + 2)) \<subseteq> M" using assms(1) by (simp_all add: pool_given_def)
  obtain m' where "allocm_init m (nat (n + 2)) = Some m'" "length m' = length m" "\<forall>i < nat (n + 2). m' ! i = -1"
    using allocm_init_all_free [of "nat (n + 2)" m] m by auto
  then show ?thesis unfolding n using m n all_free [of m' "nat (n + 2)" base] assms(2-4) by auto
qed

lemma init_maps_run:
  assumes g: "params_given p H"
  shows "\<exists>ok sp'. init_node_map p sp = Some (ok, sp') \<and> bs_datablocks sp' = bs_datablocks sp \<and> bs_db_map sp' = bs_db_map sp \<and>
      (ok \<longrightarrow> (\<forall>t. bt_flags t = bp_flags p \<and> bt_max_elts t = bp_max_elts p \<and>
        bs_node_map (bt_space t) = bs_node_map sp' \<and> bs_nodes (bt_space t) = bs_nodes sp' \<longrightarrow> nodes_used t H {}))"
    and "\<exists>ok sp'. init_db_map p sp = Some (ok, sp') \<and> bs_nodes sp' = bs_nodes sp \<and> bs_node_map sp' = bs_node_map sp \<and>
      (ok \<longrightarrow> (\<forall>t. bt_flags t = bp_flags p \<and> bt_max_elts t = bp_max_elts p \<and>
        bs_db_map (bt_space t) = bs_db_map sp' \<and> bs_datablocks (bt_space t) = bs_datablocks sp' \<longrightarrow> blocks_used t H {}))"
proof -
  have m: "- 1 \<le> bp_max_elts p" "bp_max_elts p < 2 ^ 31 - 2" using g by (simp_all add: params_given_def)
  show "\<exists>ok sp'. init_node_map p sp = Some (ok, sp') \<and> bs_datablocks sp' = bs_datablocks sp \<and> bs_db_map sp' = bs_db_map sp \<and>
      (ok \<longrightarrow> (\<forall>t. bt_flags t = bp_flags p \<and> bt_max_elts t = bp_max_elts p \<and>
        bs_node_map (bt_space t) = bs_node_map sp' \<and> bs_nodes (bt_space t) = bs_nodes sp' \<longrightarrow> nodes_used t H {}))"
  proof (cases "has_flag (bp_flags p) RCSW_NOALLOC_META \<and> bp_meta p \<noteq> None \<and> bp_max_elts p \<noteq> -1")
    case True
    then obtain mp base where mp: "bp_meta p = Some (mp, base)" by auto
    have pg: "pool_given (dom (th_nodes H) \<inter> {1..<2 ^ 64}) (bp_max_elts p) (Some (mp, base))"
      using g mp by (simp add: params_given_def)
    show ?thesis using given_map [OF pg m] True mp
      by (auto simp: init_node_map_def nodes_used_def node_slots_def)
  qed (auto simp: init_node_map_def nodes_used_def split: option.splits)
  show "\<exists>ok sp'. init_db_map p sp = Some (ok, sp') \<and> bs_nodes sp' = bs_nodes sp \<and> bs_node_map sp' = bs_node_map sp \<and>
      (ok \<longrightarrow> (\<forall>t. bt_flags t = bp_flags p \<and> bt_max_elts t = bp_max_elts p \<and>
        bs_db_map (bt_space t) = bs_db_map sp' \<and> bs_datablocks (bt_space t) = bs_datablocks sp' \<longrightarrow> blocks_used t H {}))"
  proof (cases "has_flag (bp_flags p) RCSW_NOALLOC_DATA \<and> bp_elements p \<noteq> None \<and> bp_max_elts p \<noteq> -1")
    case True
    then obtain mp base where mp: "bp_elements p = Some (mp, base)" by auto
    have pg: "pool_given (dom (th_blocks H)) (bp_max_elts p) (Some (mp, base))"
      using g mp by (simp add: params_given_def)
    show ?thesis using given_map [OF pg m] True mp
      by (auto simp: init_db_map_def blocks_used_def node_slots_def)
  qed (auto simp: init_db_map_def blocks_used_def split: option.splits)
qed

lemma init_sentinels_run:
  assumes m: "fresh_memory env" and A: "nodes_used t H {}" and B: "blocks_used t H {}"
    and t: "bt_current t = 0" "cmp_order (bt_cmpkey t)" "bt_root t = 0" "bt_nil t = 0"
    and sz: "has_flag (bt_flags t) RCSW_DS_BSTREE_INT \<Longrightarrow> bt_elt_size t \<le> 8"
  shows "\<exists>res H'. init_sentinels env t H = Some (res, H') \<and>
    (\<forall>t'. res = Some t' \<longrightarrow> tree_ok t' H' Leaf \<and> bt_cmpkey t' = bt_cmpkey t \<and> bt_flags t' = bt_flags t)"
proof -
  obtain a1 t1 H1 where c1: "bstree_node_create env t 0 None None H = Some (a1, t1, H1)" "same_tree t t1"
      "if a1 = 0 then nodes_used t1 H1 {} \<and> blocks_used t1 H1 {}
       else a1 \<notin> {} \<and> (\<exists>b. b \<notin> {} \<and> new_node t 0 None None H1 a1 b \<and> nodes_used t1 H1 {a1} \<and> blocks_used t1 H1 {b})"
    using sentinel_create [OF m A B] by metis
  let ?t1 = "t1\<lparr>bt_nil := a1\<rparr>"
  note s1 = same_treeD [OF c1(2)]
  have r0: "bt_root t1 = 0" using s1(4) t(3) by simp
  show ?thesis
  proof (cases "a1 = 0")
    case True
    then have "init_sentinels env t H = Some (None, H1)"
      using c1(1) r0 by (simp add: init_sentinels_def init_error_def bstree_destroy_def bstree_node_destroy_def)
    then show ?thesis by simp
  next
    case False
    then obtain b1 where b1: "new_node t 0 None None H1 a1 b1" "nodes_used t1 H1 {a1}" "blocks_used t1 H1 {b1}"
      using c1(3) by auto
    obtain G1 where G1: "on_nodes (link_sentinel a1 a1) H1 = Some G1" "sentinel G1 a1 a1 b1"
        "dom (th_nodes G1) = dom (th_nodes H1)" "th_blocks G1 = th_blocks H1"
      using link_sentinel_run [OF b1(1), of "{}" a1] by auto
    have A1: "nodes_used ?t1 G1 {a1}" using b1(2) G1(3) by (simp add: nodes_used_def node_slots_def)
    have B1: "blocks_used ?t1 G1 {b1}" using b1(3) G1(4) by (simp add: blocks_used_def node_slots_def)
    obtain a2 t2 H2 where c2: "bstree_node_create env ?t1 0 None None G1 = Some (a2, t2, H2)" "same_tree ?t1 t2"
        "\<forall>x \<in> {a1}. th_nodes H2 x = th_nodes G1 x" "\<forall>x \<in> {b1}. th_blocks H2 x = th_blocks G1 x"
        "if a2 = 0 then nodes_used t2 H2 {a1} \<and> blocks_used t2 H2 {b1}
         else a2 \<notin> {a1} \<and> (\<exists>b. b \<notin> {b1} \<and> new_node ?t1 0 None None H2 a2 b \<and> nodes_used t2 H2 {a2, a1} \<and> blocks_used t2 H2 {b, b1})"
      using sentinel_create [OF m A1 B1] by metis
    note s2 = same_treeD [OF c2(2)]
    have S1: "sentinel H2 a1 a1 b1" using G1(2) c2(3,4) by (simp add: sentinel_def)
    let ?t2 = "t2\<lparr>bt_root := a2\<rparr>"
    show ?thesis
    proof (cases "a2 = 0")
      case True
      have "nodes_used ?t2 H2 {a1}" "blocks_used ?t2 H2 {b1}"
        using c2(5) True by (simp_all add: nodes_used_def blocks_used_def node_slots_def)
      moreover obtain nd where "th_nodes H2 a1 = Some nd" "tn_data nd = Some b1" using S1 by (auto simp: sentinel_def)
      ultimately obtain t3 H3 where "bstree_node_destroy ?t2 a1 H2 = Some (t3, H3)"
        using node_destroy_run [of ?t2 H2 "{a1}" "{b1}" a1 b1] by blast
      then have "init_sentinels env t H = Some (None, H3)"
        using c1(1) False G1(1) c2(1) True s2(5)
        by (simp add: init_sentinels_def init_error_def bstree_destroy_def)
      then show ?thesis by simp
    next
      case a2: False
      then obtain b2 where b2: "a2 \<noteq> a1" "b2 \<noteq> b1" "new_node ?t1 0 None None H2 a2 b2" "nodes_used t2 H2 {a2, a1}"
          "blocks_used t2 H2 {b2, b1}" using c2(5) by auto
      obtain G2 where G2: "on_nodes (link_sentinel a2 a1) H2 = Some G2" "sentinel G2 a1 a2 b2"
          "dom (th_nodes G2) = dom (th_nodes H2)" "th_blocks G2 = th_blocks H2" "\<forall>x. x \<noteq> a2 \<longrightarrow> th_nodes G2 x = th_nodes H2 x"
        using link_sentinel_run [OF b2(3), of "{}" a1] by auto
      have S: "sentinel G2 (bt_nil ?t2) (bt_nil ?t2) b1" "sentinel G2 (bt_nil ?t2) (bt_root ?t2) b2"
        using S1 G2(2,4,5) b2(1) s2(5) by (auto simp: sentinel_def)
      have u: "nodes_used ?t2 G2 {a1, a2}" "blocks_used ?t2 G2 {b1, b2}"
        using b2(4,5) G2(3,4) by (simp_all add: nodes_used_def blocks_used_def node_slots_def insert_commute)
      obtain H3 where H3: "(if has_flag (bt_flags ?t2) RCSW_DS_BSTREE_INT then inttree_init_helper env ?t2 G2
           else if has_flag (bt_flags ?t2) RCSW_DS_BSTREE_OS then ostree_init_helper env ?t2 G2
           else Some G2) = Some H3" "helped G2 (bt_nil ?t2) H3"
        using init_helper_run [OF S, of env] s1(1,11) s2(1,11) sz by auto
      have "tree_ok ?t2 H3 Leaf"
        by (rule tree_ok_sentinels [of _ _ b1 b2])
          (use H3(2) S helped_used [OF H3(2)] u b2(1,2) s1 s2 t in \<open>auto simp: helped_def\<close>)
      moreover have "init_sentinels env t H = Some (Some ?t2, H3)"
        using c1(1) False G1(1) c2(1) a2 G2(1) H3(1) by (simp add: init_sentinels_def)
      ultimately show ?thesis using s1(1,6) s2(1,6) by simp
    qed
  qed
qed

lemma bstree_init_run:
  assumes m: "fresh_memory env" and g: "params_given p H" and cmp: "bp_cmpkey p = Some cmp" "cmp_order cmp"
  shows "\<exists>res H'. bstree_init env tree_in handle (Some p) H = Some (res, H') \<and>
    (\<forall>t. res = Some t \<longrightarrow> tree_ok t H' Leaf \<and> bt_cmpkey t = cmp \<and> bt_flags t = bp_flags p)"
proof -
  let ?mem = "if has_flag (bp_flags p) RCSW_NOALLOC_HANDLE then tree_in else handle"
  show ?thesis
  proof (cases "bp_elt_size p = 0 \<or> ?mem = None")
    case True
    then have "bstree_init env tree_in handle (Some p) H = Some (None, H)"
      using cmp(1) by (auto simp: bstree_init_def bstree_init_internal_def rcsw_alloc_mask)
    then show ?thesis by simp
  next
    case False
    then obtain sp depth where mem: "?mem = Some (sp, depth)" by auto
    let ?t = "\<lambda>sp. \<lparr>bt_cmpkey = cmp, bt_space = sp, bt_current = 0, bt_depth = depth, bt_flags = bp_flags p,
      bt_max_elts = bp_max_elts p, bt_elt_size = bp_elt_size p, bt_root = 0, bt_nil = 0\<rparr>"
    obtain ok1 sp1 where n: "init_node_map p sp = Some (ok1, sp1)"
        "ok1 \<longrightarrow> (\<forall>t. bt_flags t = bp_flags p \<and> bt_max_elts t = bp_max_elts p \<and>
          bs_node_map (bt_space t) = bs_node_map sp1 \<and> bs_nodes (bt_space t) = bs_nodes sp1 \<longrightarrow> nodes_used t H {})"
      using init_maps_run(1) [OF g, of sp] by blast
    obtain ok2 sp2 where d: "init_db_map p sp1 = Some (ok2, sp2)" "bs_nodes sp2 = bs_nodes sp1" "bs_node_map sp2 = bs_node_map sp1"
        "ok2 \<longrightarrow> (\<forall>t. bt_flags t = bp_flags p \<and> bt_max_elts t = bp_max_elts p \<and>
          bs_db_map (bt_space t) = bs_db_map sp2 \<and> bs_datablocks (bt_space t) = bs_datablocks sp2 \<longrightarrow> blocks_used t H {})"
      using init_maps_run(2) [OF g, of sp1] by blast
    have err: "init_error (?t sp') H = Some (None, H)" for sp'
      by (simp add: init_error_def bstree_destroy_def bstree_node_destroy_def)
    have run: "bstree_init env tree_in handle (Some p) H =
        (if \<not> ok1 then init_error (?t sp1) H else if \<not> ok2 then init_error (?t sp2) H else init_sentinels env (?t sp2) H)"
      using cmp(1) False mem n(1) d(1)
      by (simp add: bstree_init_def bstree_init_internal_def rcsw_alloc_mask Let_def)
    show ?thesis
    proof (cases "ok1 \<and> ok2")
      case True
      then have "nodes_used (?t sp2) H {}" "blocks_used (?t sp2) H {}" using n(2) d(2-4) by simp_all
      then show ?thesis using init_sentinels_run [OF m, of "?t sp2" H] run True cmp(2) g by (simp add: params_given_def)
    qed (use run err in auto)
  qed
qed

subsection \<open>From initialisation on\<close>

lemma dictionary_from_init:
  assumes "fresh_memory env" and "params_given p H" and "bp_cmpkey p = Some cmp" and "cmp_order cmp"
    and "bstree_init env tree_in handle (Some p) H = Some (Some t, H0)"
  shows "\<exists>outs t' H' T'. dict_exec (bst_add env) (bst_del env) bst_get (t, H0) ops = Some (outs, t', H') \<and>
    tree_ok t' H' T' \<and> dict_answers cmp [] ops outs (map (entry H') (inorder T'))"
proof -
  have "tree_ok t H0 Leaf" "bt_cmpkey t = cmp"
    using bstree_init_run [OF assms(1-4), of tree_in handle] assms(5) by auto
  then show ?thesis using bst_exec_ok [OF assms(1), of t H0 Leaf ops] by simp
qed

subsection \<open>Balance\<close>

fun ends_within :: "nat \<Rightarrow> ('s \<Rightarrow> bool option) \<Rightarrow> ('s \<Rightarrow> 's option) \<Rightarrow> 's \<Rightarrow> bool" where
  "ends_within 0 c f s \<longleftrightarrow> c s = Some False"
| "ends_within (Suc n) c f s \<longleftrightarrow> c s = Some False \<or> c s = Some True \<and> (case f s of None \<Rightarrow> False | Some s' \<Rightarrow> ends_within n c f s')"

lemma ends_within_done: "c s = Some False \<Longrightarrow> ends_within n c f s"
  by (cases n) auto

lemma ends_within_mono: "ends_within m c f s \<Longrightarrow> m \<le> n \<Longrightarrow> ends_within n c f s"
proof (induction m arbitrary: n s)
  case (Suc m)
  then obtain k where "n = Suc k" "m \<le> k" by (cases n) auto
  then show ?case using Suc.prems(1) Suc.IH by (auto split: option.splits)
qed (simp add: ends_within_done)

lemma query_ends_within:
  "ptree ns (bt_nil t) p T \<Longrightarrow> bt_nil t \<notin> set_tree T \<Longrightarrow>
   ends_within (height T) (query_more t) (query_step t k ns) (addr (bt_nil t) T, False)"
proof (induction T arbitrary: p)
  case (Node l a r)
  then obtain nd where nd: "ns a = Some nd" "tn_left nd = addr (bt_nil t) l" "tn_right nd = addr (bt_nil t) r"
    by (auto simp: linked_Some)
  have l: "ends_within (max (height l) (height r)) (query_more t) (query_step t k ns) (addr (bt_nil t) l, False)"
    and r: "ends_within (max (height l) (height r)) (query_more t) (query_step t k ns) (addr (bt_nil t) r, False)"
    using Node.prems ends_within_mono [OF Node.IH(1)] ends_within_mono [OF Node.IH(2)] by auto
  have "ends_within n (query_more t) (query_step t k ns) (a, True)" for n
    by (rule ends_within_done) (simp add: query_more_def)
  then show ?case using nd l r Node.prems(2)
    by (simp add: query_more_def [of t "(a, False)"] query_step_def [of t k ns "(a, False)"] Let_def)
qed (simp add: query_more_def)

lemma rb_height: "rb R T \<Longrightarrow> height T \<le> 2 * bh R T + (if red_root R T then 1 else 0)"
  by (induction T) (auto split: if_splits)

lemma rb_size: "rb R T \<Longrightarrow> 2 ^ bh R T \<le> size T + 1"
  by (induction T) (auto)

lemma search_logarithmic:
  assumes ok: "tree_ok t H T" and f: "has_flag (bt_flags t) RCSW_DS_BSTREE_RB"
  shows "\<exists>m top. RCSW_BSTREE_ROOT t (th_nodes H) = Some top \<and> 2 ^ (m div 2) \<le> bt_current t + 1 \<and>
    ends_within m (query_more t) (query_step t k (th_nodes H)) (top, False)"
proof -
  let ?R = "redn (th_nodes H)"
  have st: "stands t (inorder T) [] T H" and R: "rb ?R T" "\<not> red_root ?R T" and n: "bt_current t = length (inorder T)"
    using ok f by (simp_all add: tree_invariant balanced_def)
  have pt: "ptree (th_nodes H) (bt_nil t) (bt_root t) T" "bt_nil t \<notin> set_tree T"
    using st by (simp_all add: stands_def fix_state_def tree_at_def)
  have "(2 :: nat) ^ (height T div 2) \<le> 2 ^ bh ?R T"
    using rb_height [OF R(1)] R(2) by (intro power_increasing) auto
  also have "\<dots> \<le> bt_current t + 1" using rb_size [OF R(1)] n by simp
  finally show ?thesis using query_ends_within [OF pt, of k] stands_root [OF st] by auto
qed

subsection \<open>Properties\<close>

text \<open>An environment whose \<open>malloc\<close> has eight addresses to give, and the order on integers.\<close>

definition some_tree_env :: "(int, int) tenv" where
  "some_tree_env = \<lparr>
     te_node = (\<lambda>H. map_option (\<lambda>a. (a, \<lparr>tn_key = 0, tn_data = None, tn_left = 0, tn_right = 0, tn_parent = 0,
       tn_red = True, tn_aux = 0\<rparr>)) (find (\<lambda>a. th_nodes H a = None) [1, 2, 3, 4, 5, 6, 7, 8])),
     te_block = (\<lambda>H. map_option (\<lambda>b. (b, 0)) (find (\<lambda>b. th_blocks H b = None) [1, 2, 3, 4, 5, 6, 7, 8])),
     te_rnd_node = (\<lambda>H. 0), te_rnd_block = (\<lambda>H. 0), te_interval = (\<lambda>v. \<lparr>iv_high = v, iv_low = 0\<rparr>),
     te_of_interval = iv_high, te_first_byte = (\<lambda>c v. v)\<rparr>"

definition some_tree_params :: "u32 \<Rightarrow> int bstree_params" where
  "some_tree_params flags = \<lparr>bp_cmpkey = Some (\<lambda>a b. a - b), bp_meta = None, bp_elements = None, bp_elt_size = 4,
     bp_max_elts = -1, bp_flags = flags\<rparr>"

definition some_tree_handle :: "bstree_space_mgmt \<times> nat" where
  "some_tree_handle = (\<lparr>bs_datablocks = 0, bs_db_map = [], bs_nodes = 0, bs_node_map = []\<rparr>, 0)"

definition some_tree_heap :: "(int, int) theap" where
  "some_tree_heap = \<lparr>th_nodes = (\<lambda>a. None), th_blocks = (\<lambda>b. None)\<rparr>"

lemma some_tree_given:
  "fresh_memory some_tree_env" "params_given (some_tree_params f) some_tree_heap" "cmp_order (\<lambda>a b :: int. a - b)"
  by (auto simp: fresh_memory_def some_tree_env_def find_Some_iff some_tree_params_def params_given_def pool_given_def
      cmp_order_def less_Suc_eq nth_Cons split: nat.splits)

definition some_tree_run :: "u32 \<Rightarrow> (int, int) dict_op list \<Rightarrow> int dict_out list option" where
  "some_tree_run flags ops =
     (case bstree_init some_tree_env None (Some some_tree_handle) (Some (some_tree_params flags)) some_tree_heap of
        Some (Some t, H) \<Rightarrow> map_option fst (dict_exec (bst_add some_tree_env) (bst_del some_tree_env) bst_get (t, H) ops)
      | _ \<Rightarrow> None)"

declare while_loop.simps [code] rbtree_node_black_height.simps [code]

lemma some_tree_run_1:
  "some_tree_run RCSW_DS_BSTREE_RB [Insert 5 50, Lookup 5] = Some [Status True, Value (Some 50)]"
  by code_simp

lemma some_tree_start:
  "\<exists>t H0. bstree_init some_tree_env None (Some some_tree_handle) (Some (some_tree_params RCSW_DS_BSTREE_RB)) some_tree_heap =
     Some (Some t, H0)"
  using some_tree_run_1 unfolding some_tree_run_def by (auto split: option.splits)

text \<open>
  C12: Initialisation of a tree returns \<open>NULL\<close> or the handle of an empty well-formed tree, for
  every combination of pool and \<open>malloc\<close> memory and whatever allocation fails on the way: the
  nodes already built are destroyed and no access faults. The elements of an interval tree have
  at most the eight bytes of the interval its sentinels start with.
\<close>

theorem bstree_init_empty:
  assumes "fresh_memory env" and "params_given p H" and "bp_cmpkey p = Some cmp" and "cmp_order cmp"
  shows "\<exists>res H'. bstree_init env tree_in handle (Some p) H = Some (res, H') \<and>
    (\<forall>t. res = Some t \<longrightarrow> tree_ok t H' Leaf \<and> bt_cmpkey t = cmp \<and> bt_flags t = bp_flags p)"
  using assms by (rule bstree_init_run)

theorem bstree_init_empty_witness:
  "\<exists>t H'. bstree_init some_tree_env None (Some some_tree_handle) (Some (some_tree_params RCSW_DS_BSTREE_RB)) some_tree_heap =
     Some (Some t, H') \<and> tree_ok t H' Leaf"
  using some_tree_start
    bstree_init_empty [of some_tree_env "some_tree_params RCSW_DS_BSTREE_RB" some_tree_heap "\<lambda>a b. a - b" None "Some some_tree_handle"]
    some_tree_given by (fastforce simp: some_tree_params_def)

text \<open>
  C1: A tree, plain or red-black, made by the initialisation answers any sequence of insertions,
  removals and lookups as a sorted list of entries without duplicate keys does: no access
  faults, every operation returns, an insertion that fails changes nothing, and the tree stays
  well formed (links, order, colours, allocation maps, number of elements).
\<close>

theorem bstree_is_dictionary:
  assumes "fresh_memory env" and "params_given p H" and "bp_cmpkey p = Some cmp" and "cmp_order cmp"
    and "bstree_init env tree_in handle (Some p) H = Some (Some t, H0)"
  shows "\<exists>outs t' H' T'. dict_exec (bst_add env) (bst_del env) bst_get (t, H0) ops = Some (outs, t', H') \<and>
    tree_ok t' H' T' \<and> dict_answers cmp [] ops outs (map (entry H') (inorder T'))"
  using assms by (rule dictionary_from_init)

theorem bstree_is_dictionary_witness:
  "\<exists>t H0 outs t' H' T'. bstree_init some_tree_env None (Some some_tree_handle) (Some (some_tree_params RCSW_DS_BSTREE_RB))
       some_tree_heap = Some (Some t, H0) \<and>
     dict_exec (bst_add some_tree_env) (bst_del some_tree_env) bst_get (t, H0) [Insert 5 50, Insert 3 30, Remove 5, Lookup 5] =
       Some (outs, t', H') \<and> tree_ok t' H' T' \<and>
     dict_answers (\<lambda>a b. a - b) [] [Insert 5 50, Insert 3 30, Remove 5, Lookup 5] outs (map (entry H') (inorder T'))"
proof -
  obtain t H0 where s: "bstree_init some_tree_env None (Some some_tree_handle) (Some (some_tree_params RCSW_DS_BSTREE_RB))
      some_tree_heap = Some (Some t, H0)" using some_tree_start by blast
  have "bp_cmpkey (some_tree_params RCSW_DS_BSTREE_RB) = Some (\<lambda>a b. a - b)" by (simp add: some_tree_params_def)
  then show ?thesis
    using s bstree_is_dictionary [OF some_tree_given(1,2) _ some_tree_given(3) s, of "[Insert 5 50, Insert 3 30, Remove 5, Lookup 5]"]
    by blast
qed

text \<open>
  C13: In a well-formed red-black tree of \<open>n\<close> elements the search for any key ends after a number
  of rounds \<open>m\<close> with \<open>2 ^ (m div 2) \<le> n + 1\<close>, which is at most twice the logarithm of \<open>n + 1\<close>.
\<close>

theorem rbtree_search_logarithmic:
  assumes "tree_ok t H T" and "has_flag (bt_flags t) RCSW_DS_BSTREE_RB"
  shows "\<exists>m top. RCSW_BSTREE_ROOT t (th_nodes H) = Some top \<and> 2 ^ (m div 2) \<le> bt_current t + 1 \<and>
    ends_within m (query_more t) (query_step t k (th_nodes H)) (top, False)"
  using assms by (rule search_logarithmic)

theorem rbtree_search_logarithmic_witness:
  "\<exists>t H0 m top. bstree_init some_tree_env None (Some some_tree_handle) (Some (some_tree_params RCSW_DS_BSTREE_RB))
       some_tree_heap = Some (Some t, H0) \<and> RCSW_BSTREE_ROOT t (th_nodes H0) = Some top \<and> 2 ^ (m div 2) \<le> bt_current t + 1 \<and>
     ends_within m (query_more t) (query_step t 7 (th_nodes H0)) (top, False)"
proof -
  obtain t H0 where s: "bstree_init some_tree_env None (Some some_tree_handle) (Some (some_tree_params RCSW_DS_BSTREE_RB))
      some_tree_heap = Some (Some t, H0)" using some_tree_start by blast
  have p: "bp_cmpkey (some_tree_params RCSW_DS_BSTREE_RB) = Some (\<lambda>a b. a - b)" by (simp add: some_tree_params_def)
  have "tree_ok t H0 Leaf" "bt_flags t = RCSW_DS_BSTREE_RB"
    using bstree_init_run [OF some_tree_given(1,2) p some_tree_given(3), of None "Some some_tree_handle"] s
    by (auto simp: some_tree_params_def)
  moreover from this(2) have "has_flag (bt_flags t) RCSW_DS_BSTREE_RB" by (simp add: has_flag_def flag_defs)
  ultimately show ?thesis using s rbtree_search_logarithmic [of t H0 Leaf 7] by blast
qed

end
