(* ===== verification/Interleaving.thy ===== *)
theory Interleaving
  imports Rcsw_Prelude
begin

text \<open>
  Threads over shared state: one step is one atomic action of one thread, and any thread whose
  action is possible may be the next. An action lists its possible outcomes; it blocks when the
  list is empty. A \<open>protocol\<close> is such a system with an invariant.
\<close>

subsection \<open>Steps\<close>

inductive sys_step :: "(nat \<Rightarrow> 's \<Rightarrow> 'p \<Rightarrow> ('s \<times> 'p) list) \<Rightarrow> 's \<times> 'p list \<Rightarrow> 's \<times> 'p list \<Rightarrow> bool" for act where
  thread_step: "i < length ps \<Longrightarrow> (s', p') \<in> set (act i s (ps ! i)) \<Longrightarrow> sys_step act (s, ps) (s', ps[i := p'])"

inductive_cases sys_stepE: "sys_step act (s, ps) m"

inductive reachable :: "(nat \<Rightarrow> 's \<Rightarrow> 'p \<Rightarrow> ('s \<times> 'p) list) \<Rightarrow> 's \<times> 'p list \<Rightarrow> 's \<times> 'p list \<Rightarrow> bool" for act m0 where
  reach_start: "reachable act m0 m0"
| reach_step: "reachable act m0 m \<Longrightarrow> sys_step act m m' \<Longrightarrow> reachable act m0 m'"

subsection \<open>Counting threads\<close>

definition num :: "('p \<Rightarrow> bool) \<Rightarrow> 'p list \<Rightarrow> nat" where
  "num P ps = length (filter P ps)"

lemma num_simps [simp]: "num P [] = 0" "num P (p # ps) = (if P p then Suc (num P ps) else num P ps)"
  by (simp_all add: num_def)

lemma num_replicate [simp]: "num P (replicate n p) = (if P p then n else 0)"
  by (induction n) auto

lemma num_update:
  "i < length ps \<Longrightarrow> num P (ps[i := p]) + (if P (ps ! i) then 1 else 0) = num P ps + (if P p then 1 else 0)"
proof (induction ps arbitrary: i)
  case (Cons q ps)
  then show ?case by (cases i) auto
qed simp

lemma num_mono: "(\<And>p. p \<in> set ps \<Longrightarrow> P p \<Longrightarrow> Q p) \<Longrightarrow> num P ps \<le> num Q ps"
  by (induction ps) (auto intro: le_SucI)

lemma num_pos: "0 < num P ps \<longleftrightarrow> (\<exists>p \<in> set ps. P p)"
  by (induction ps) auto

lemma num_nth: "i < length ps \<Longrightarrow> P (ps ! i) \<Longrightarrow> 0 < num P ps"
  unfolding num_pos by (auto intro!: nth_mem)

lemma num_two:
  assumes "i < length ps" and "j < length ps" and "i \<noteq> j" and "P (ps ! i)" and "P (ps ! j)"
  shows "2 \<le> num P ps"
proof -
  let ?A = "{k. k < length ps \<and> P (ps ! k)}"
  have "card {i, j} \<le> card ?A" by (rule card_mono) (use assms in auto)
  then show ?thesis using assms(3) by (simp add: num_def length_filter_conv_card)
qed

lemma num_zero: "num P ps = 0 \<longleftrightarrow> (\<forall>p \<in> set ps. \<not> P p)"
  using num_pos [of P ps] by auto

lemma num_unique:
  assumes "num R ps \<le> 1" and "i < length ps" and "R (ps ! i)" and "\<And>p. p \<in> set ps \<Longrightarrow> A p \<Longrightarrow> R p"
  shows "num A ps = (if A (ps ! i) then 1 else 0)"
proof (cases "A (ps ! i)")
  case True
  have "num A ps \<le> 1" using num_mono [of ps A R] assms(1,4) by fastforce
  then show ?thesis using num_nth [of i ps A] assms(2) True by simp
next
  case False
  have "\<not> A p" if p: "p \<in> set ps" for p
  proof
    assume "A p"
    then obtain j where "j < length ps" "ps ! j = p" "R p" using p assms(4) by (auto simp: in_set_conv_nth)
    moreover have "j \<noteq> i" using \<open>A p\<close> False calculation by auto
    ultimately show False using num_two [of i ps j R] assms(1-3) by auto
  qed
  then show ?thesis using False num_zero [of A ps] by auto
qed

lemma num_le_length: "num P ps \<le> length ps"
  by (simp add: num_def)

abbreviation bit :: "bool \<Rightarrow> nat" where
  "bit b \<equiv> (if b then 1 else 0)"

definition tok :: "bool \<Rightarrow> nat" where
  "tok b = bit b"

lemma tok_simps [simp]: "tok True = 1" "tok False = 0"
  by (simp_all add: tok_def)

lemma tok_le: "tok b \<le> 1"
  by (simp add: tok_def)

lemma num_tok: "i < length ps \<Longrightarrow> num P (ps[i := p]) + tok (P (ps ! i)) = num P ps + tok (P p)"
  using num_update [of i ps P p] by (simp only: tok_def)

subsection \<open>Invariants\<close>

locale protocol =
  fixes act :: "nat \<Rightarrow> 's \<Rightarrow> 'p \<Rightarrow> ('s \<times> 'p) list"
    and starts :: "'s \<times> 'p list \<Rightarrow> bool"
    and safe :: "'s \<Rightarrow> 'p list \<Rightarrow> bool"
  assumes start_safe: "starts (s, ps) \<Longrightarrow> safe s ps"
    and step_safe: "safe s ps \<Longrightarrow> i < length ps \<Longrightarrow> (s', p') \<in> set (act i s (ps ! i)) \<Longrightarrow> safe s' (ps[i := p'])"
begin

lemma reachable_safe:
  assumes "reachable act m0 m" and "starts m0"
  shows "safe (fst m) (snd m)"
  using assms
proof induction
  case reach_start
  then show ?case using start_safe [of "fst m0" "snd m0"] by simp
next
  case (reach_step m m')
  obtain s ps where m: "m = (s, ps)" by (cases m)
  from reach_step.hyps(2) [unfolded m] show ?case
    by (rule sys_stepE) (use reach_step.IH [OF reach_step.prems] m step_safe in auto)
qed

end

end
