(* ===== verification/Sync.thy ===== *)
theory Sync
  imports Alloc Interleaving
begin

text \<open>
  The wrappers around the POSIX primitives: counting semaphores (src/multithread/csem.c), mutexes
  (mutex.c) and condition variables (condv.c, cvm.c). The primitives themselves are those of the
  POSIX standard: a wait on a semaphore blocks while its value is 0, a lock blocks while the mutex
  has an owner. An operation that may block, or that may end in more than one way, lists its
  possible outcomes. Waits that a signal handler interrupts are left out.
\<close>

type_synonym 's outcomes = "(status \<times> 's) list"

subsection \<open>Counting semaphores\<close>

definition SEM_VALUE_MAX :: nat where
  "SEM_VALUE_MAX = 2147483647"

record csem =
  cs_value :: nat
  cs_flags :: u32

text \<open>\<open>sem_init\<close> fails for a value above its maximum; the value is cut to an unsigned int first.\<close>

definition csem_init :: "unit option \<Rightarrow> unit option \<Rightarrow> nat \<Rightarrow> u32 \<Rightarrow> csem option" where
  "csem_init sem_in handle v flags =
     (case rcsw_alloc id sem_in handle (flags AND RCSW_NOALLOC_HANDLE) of
        Some (Some _) \<Rightarrow>
          if v mod 2 ^ 32 \<le> SEM_VALUE_MAX then Some \<lparr>cs_value = v mod 2 ^ 32, cs_flags = flags\<rparr> else None
      | _ \<Rightarrow> None)"

definition csem_destroy :: "csem option \<Rightarrow> bool" where
  "csem_destroy sem = (case sem of None \<Rightarrow> False | Some s \<Rightarrow> rcsw_free (Some ()) (cs_flags s AND RCSW_NOALLOC_HANDLE))"

definition csem_wait :: "csem \<Rightarrow> csem outcomes" where
  "csem_wait s = (if cs_value s = 0 then [] else [(OK, s\<lparr>cs_value := cs_value s - 1\<rparr>)])"

definition csem_trywait :: "csem \<Rightarrow> csem outcomes" where
  "csem_trywait s = (if cs_value s = 0 then [(ERROR None, s)] else [(OK, s\<lparr>cs_value := cs_value s - 1\<rparr>)])"

text \<open>The time may run out in any state.\<close>

definition csem_timedwait :: "csem \<Rightarrow> csem outcomes" where
  "csem_timedwait s = (ERROR None, s) # csem_wait s"

definition csem_post :: "csem \<Rightarrow> csem outcomes" where
  "csem_post s = (if cs_value s < SEM_VALUE_MAX then [(OK, s\<lparr>cs_value := cs_value s + 1\<rparr>)] else [(ERROR None, s)])"

subsection \<open>Mutexes\<close>

record mutex =
  mx_owner :: "nat option"
  mx_flags :: u32

text \<open>The parameter \<open>made\<close> is whether \<open>pthread_mutex_init\<close> succeeds.\<close>

definition mutex_init :: "unit option \<Rightarrow> unit option \<Rightarrow> bool \<Rightarrow> u32 \<Rightarrow> mutex option" where
  "mutex_init mutex_in handle made flags =
     (case rcsw_alloc id mutex_in handle (flags AND RCSW_NOALLOC_HANDLE) of
        Some (Some _) \<Rightarrow> if made then Some \<lparr>mx_owner = None, mx_flags = flags\<rparr> else None
      | _ \<Rightarrow> None)"

definition mutex_destroy :: "mutex option \<Rightarrow> bool" where
  "mutex_destroy m = (case m of None \<Rightarrow> False | Some m \<Rightarrow> rcsw_free (Some ()) (mx_flags m AND RCSW_NOALLOC_HANDLE))"

definition mutex_lock :: "nat \<Rightarrow> mutex \<Rightarrow> mutex outcomes" where
  "mutex_lock i m = (if mx_owner m = None then [(OK, m\<lparr>mx_owner := Some i\<rparr>)] else [])"

definition mutex_unlock :: "mutex \<Rightarrow> mutex outcomes" where
  "mutex_unlock m = [(OK, m\<lparr>mx_owner := None\<rparr>)]"

subsection \<open>Condition variables\<close>

text \<open>The threads that wait, in the order they came.\<close>

record condv =
  cv_waiting :: "nat list"
  cv_flags :: u32

definition condv_init :: "unit option \<Rightarrow> unit option \<Rightarrow> bool \<Rightarrow> u32 \<Rightarrow> condv option" where
  "condv_init cv_in handle made flags =
     (case rcsw_alloc id cv_in handle (flags AND RCSW_NOALLOC_HANDLE) of
        Some (Some _) \<Rightarrow> if made then Some \<lparr>cv_waiting = [], cv_flags = flags\<rparr> else None
      | _ \<Rightarrow> None)"

definition condv_destroy :: "condv option \<Rightarrow> bool" where
  "condv_destroy cv = (case cv of None \<Rightarrow> False | Some c \<Rightarrow> rcsw_free (Some ()) (cv_flags c AND RCSW_NOALLOC_HANDLE))"

text \<open>A signal wakes one of the waiting threads, whichever it is, a broadcast all of them.\<close>

definition condv_signal :: "condv \<Rightarrow> condv outcomes" where
  "condv_signal cv = (if cv_waiting cv = [] then [(OK, cv)]
     else map (\<lambda>i. (OK, cv\<lparr>cv_waiting := remove1 i (cv_waiting cv)\<rparr>)) (cv_waiting cv))"

definition condv_broadcast :: "condv \<Rightarrow> condv outcomes" where
  "condv_broadcast cv = [(OK, cv\<lparr>cv_waiting := []\<rparr>)]"

text \<open>
  \<open>condv_wait\<close> has two halves: thread \<open>i\<close> gives the mutex up and starts waiting in one action;
  once it is no longer waiting it takes the mutex again. A thread may also wake by itself, and
  in the wait with a timeout when the time has run out.
\<close>

definition condv_wait_begin :: "nat \<Rightarrow> condv \<times> mutex \<Rightarrow> (condv \<times> mutex) list" where
  "condv_wait_begin i s = [((fst s)\<lparr>cv_waiting := cv_waiting (fst s) @ [i]\<rparr>, (snd s)\<lparr>mx_owner := None\<rparr>)]"

definition condv_wait_end :: "nat \<Rightarrow> condv \<times> mutex \<Rightarrow> (condv \<times> mutex) outcomes" where
  "condv_wait_end i s =
     (if mx_owner (snd s) = None
      then [(OK, (fst s)\<lparr>cv_waiting := removeAll i (cv_waiting (fst s))\<rparr>, (snd s)\<lparr>mx_owner := Some i\<rparr>)] else [])"

definition condv_timedwait_end :: "nat \<Rightarrow> condv \<times> mutex \<Rightarrow> (condv \<times> mutex) outcomes" where
  "condv_timedwait_end i s = concat (map (\<lambda>(st, s'). [(st, s'), (ERROR None, s')]) (condv_wait_end i s))"

subsection \<open>Condition variables with their mutex\<close>

record cvm =
  cvm_cv :: condv
  cvm_mtx :: mutex
  cvm_flags :: u32

text \<open>
  \<open>cvm_init\<close> compares the handles that \<open>condv_init\<close> and \<open>mutex_init\<close> return with \<open>OK\<close>, which
  is 0: the tests hold exactly when the initialisation failed. \<open>mem\<close> is what the memory of the
  handle holds; the flags of the application decide whether the parts are made in it.
\<close>

definition cvm_init ::
  "unit option \<Rightarrow> unit option \<Rightarrow> unit option \<Rightarrow> bool \<Rightarrow> unit option \<Rightarrow> bool \<Rightarrow> cvm \<Rightarrow> u32 \<Rightarrow> cvm option" where
  "cvm_init cvm_in handle cv_handle cv_made mtx_handle mtx_made mem flags =
     (case rcsw_alloc id cvm_in handle (flags AND RCSW_NOALLOC_HANDLE) of
        Some (Some _) \<Rightarrow>
          if condv_init (Some ()) cv_handle cv_made flags \<noteq> None then None
          else if mutex_init (Some ()) mtx_handle mtx_made flags \<noteq> None then None
          else Some (mem\<lparr>cvm_flags := flags\<rparr>)
      | _ \<Rightarrow> None)"

definition cvm_signal :: "cvm \<Rightarrow> cvm outcomes" where
  "cvm_signal c = map (\<lambda>(st, cv). (st, c\<lparr>cvm_cv := cv\<rparr>)) (condv_signal (cvm_cv c))"

definition cvm_broadcast :: "cvm \<Rightarrow> cvm outcomes" where
  "cvm_broadcast c = map (\<lambda>(st, cv). (st, c\<lparr>cvm_cv := cv\<rparr>)) (condv_broadcast (cvm_cv c))"

lemma csem_init_given: "v \<le> SEM_VALUE_MAX \<Longrightarrow> csem_init (Some ()) None v RCSW_NOALLOC_HANDLE = Some \<lparr>cs_value = v, cs_flags = RCSW_NOALLOC_HANDLE\<rparr>"
  by (simp add: csem_init_def SEM_VALUE_MAX_def rcsw_alloc_def noalloc_def has_flag_def flag_defs)

lemma mutex_init_given: "mutex_init (Some ()) None made RCSW_NOALLOC_HANDLE =
    (if made then Some \<lparr>mx_owner = None, mx_flags = RCSW_NOALLOC_HANDLE\<rparr> else None)"
  by (simp add: mutex_init_def rcsw_alloc_def noalloc_def has_flag_def flag_defs)

lemma cvm_init_only_broken:
  "cvm_init cvm_in handle cv_handle cv_made mtx_handle mtx_made mem flags = Some c \<Longrightarrow>
   condv_init (Some ()) cv_handle cv_made flags = None \<and> mutex_init (Some ()) mtx_handle mtx_made flags = None"
  by (auto simp: cvm_init_def split: option.splits if_splits)

end
