(* ===== verification/Rdwrlock.thy ===== *)
theory Rdwrlock
  imports Sync
begin

text \<open>
  The reader-writer lock of src/multithread/rdwrlock.c: its operations as programs of atomic
  actions, run by any number of threads in any interleaving. No writer is inside together with
  another thread, and the lock never ends in a deadlock.
\<close>

subsection \<open>State and operations\<close>

datatype rdwrlock_scope = ekSCOPE_RD | ekSCOPE_WR

record rdwrlock =
  rw_order :: csem
  rw_access :: csem
  rw_read :: csem
  rw_n_readers :: nat
  rw_flags :: u32

definition rdwrl_init :: "unit option \<Rightarrow> unit option \<Rightarrow> u32 \<Rightarrow> rdwrlock option" where
  "rdwrl_init rdwr_in handle flags =
     (case rcsw_alloc id rdwr_in handle (flags AND RCSW_NOALLOC_HANDLE) of
        Some (Some _) \<Rightarrow> do {
          order \<leftarrow> csem_init (Some ()) None 1 RCSW_NOALLOC_HANDLE;
          access \<leftarrow> csem_init (Some ()) None 1 RCSW_NOALLOC_HANDLE;
          read \<leftarrow> csem_init (Some ()) None 1 RCSW_NOALLOC_HANDLE;
          Some \<lparr>rw_order = order, rw_access = access, rw_read = read, rw_n_readers = 0, rw_flags = flags\<rparr>
        }
      | _ \<Rightarrow> None)"

definition rdwrl_destroy :: "rdwrlock option \<Rightarrow> bool" where
  "rdwrl_destroy l = (case l of None \<Rightarrow> False | Some r \<Rightarrow> rcsw_free (Some ()) (rw_flags r AND RCSW_NOALLOC_HANDLE))"

text \<open>
  The statements of the operations, in the order of the source. A wait that is not checked goes
  on whatever it returns; a checked one that fails goes on at the label \<open>error\<close>.
\<close>

datatype rw_sem = Order | Access | Read

datatype rw_instr =
    Wait rw_sem
  | TimedWait rw_sem
  | TimedCheck rw_sem "rw_instr list"
  | Post rw_sem
  | IfNoReaders "rw_instr list"
  | IncReaders
  | DecReaders
  | Return status

definition rdwrl_wr_exit :: "rw_instr list" where
  "rdwrl_wr_exit = [Post Access, Return OK]"

definition rdwrl_wr_enter :: "rw_instr list" where
  "rdwrl_wr_enter = [Wait Order, Wait Access, Post Order, Return OK]"

definition rdwrl_wr_timed_enter :: "rw_instr list" where
  "rdwrl_wr_timed_enter =
     [TimedWait Order, TimedCheck Access [Post Order, Return (ERROR None)], Post Order, Return OK]"

definition rdwrl_rd_exit :: "rw_instr list" where
  "rdwrl_rd_exit = [Wait Read, DecReaders, IfNoReaders [Post Access], Post Read, Return OK]"

definition rdwrl_rd_enter :: "rw_instr list" where
  "rdwrl_rd_enter =
     [Wait Order, Wait Read, IfNoReaders [Wait Access], IncReaders, Post Order, Post Read, Return OK]"

definition rdwrl_rd_timed_enter :: "rw_instr list" where
  "rdwrl_rd_timed_enter =
     [Wait Order, Wait Read, IfNoReaders [TimedCheck Access [Post Order, Post Read, Return (ERROR None)]],
      IncReaders, Post Order, Post Read, Return OK]"

definition rdwrl_req :: "rdwrlock_scope \<Rightarrow> rw_instr list" where
  "rdwrl_req scope = (case scope of ekSCOPE_RD \<Rightarrow> rdwrl_rd_enter | ekSCOPE_WR \<Rightarrow> rdwrl_wr_enter)"

definition rdwrl_exit :: "rdwrlock_scope \<Rightarrow> rw_instr list" where
  "rdwrl_exit scope = (case scope of ekSCOPE_RD \<Rightarrow> rdwrl_rd_exit | ekSCOPE_WR \<Rightarrow> rdwrl_wr_exit)"

definition rdwrl_timedreq :: "rdwrlock_scope \<Rightarrow> rw_instr list" where
  "rdwrl_timedreq scope = (case scope of ekSCOPE_RD \<Rightarrow> rdwrl_rd_timed_enter | ekSCOPE_WR \<Rightarrow> rdwrl_wr_timed_enter)"

subsection \<open>Execution\<close>

fun on_sem :: "rw_sem \<Rightarrow> (csem \<Rightarrow> csem outcomes) \<Rightarrow> rdwrlock \<Rightarrow> rdwrlock outcomes" where
  "on_sem Order f l = map (\<lambda>(st, s). (st, l\<lparr>rw_order := s\<rparr>)) (f (rw_order l))"
| "on_sem Access f l = map (\<lambda>(st, s). (st, l\<lparr>rw_access := s\<rparr>)) (f (rw_access l))"
| "on_sem Read f l = map (\<lambda>(st, s). (st, l\<lparr>rw_read := s\<rparr>)) (f (rw_read l))"

text \<open>One statement: the next states, each with the statements that are left.\<close>

fun rw_exec :: "rdwrlock \<Rightarrow> rw_instr \<Rightarrow> rw_instr list \<Rightarrow> (rdwrlock \<times> rw_instr list) list" where
  "rw_exec l (Wait s) p = map (\<lambda>(st, l'). (l', p)) (on_sem s csem_wait l)"
| "rw_exec l (TimedWait s) p = map (\<lambda>(st, l'). (l', p)) (on_sem s csem_timedwait l)"
| "rw_exec l (TimedCheck s q) p = map (\<lambda>(st, l'). (l', if st = OK then p else q)) (on_sem s csem_timedwait l)"
| "rw_exec l (Post s) p = map (\<lambda>(st, l'). (l', p)) (on_sem s csem_post l)"
| "rw_exec l (IfNoReaders q) p = [(l, if rw_n_readers l = 0 then q @ p else p)]"
| "rw_exec l IncReaders p = [(l\<lparr>rw_n_readers := (rw_n_readers l + 1) mod 2 ^ 64\<rparr>, p)]"
| "rw_exec l DecReaders p = [(l\<lparr>rw_n_readers := size_pred (rw_n_readers l)\<rparr>, p)]"
| "rw_exec l (Return st) p = []"

text \<open>A thread: outside, in an operation with the statements it has left, or inside.\<close>

datatype rw_thread = Away | Entering rdwrlock_scope "rw_instr list" | Inside rdwrlock_scope | Leaving rdwrlock_scope "rw_instr list"

fun rw_act :: "nat \<Rightarrow> rdwrlock \<Rightarrow> rw_thread \<Rightarrow> (rdwrlock \<times> rw_thread) list" where
  "rw_act i l Away = concat (map (\<lambda>sc. [(l, Entering sc (rdwrl_req sc)), (l, Entering sc (rdwrl_timedreq sc))])
     [ekSCOPE_RD, ekSCOPE_WR])"
| "rw_act i l (Inside sc) = [(l, Leaving sc (rdwrl_exit sc))]"
| "rw_act i l (Entering sc (Return st # p)) = [(l, if st = OK then Inside sc else Away)]"
| "rw_act i l (Leaving sc (Return st # p)) = [(l, Away)]"
| "rw_act i l (Entering sc (a # p)) = map (\<lambda>(l', q). (l', Entering sc q)) (rw_exec l a p)"
| "rw_act i l (Leaving sc (a # p)) = map (\<lambda>(l', q). (l', Leaving sc q)) (rw_exec l a p)"
| "rw_act i l (Entering sc []) = []"
| "rw_act i l (Leaving sc []) = []"

subsection \<open>The points of the programs\<close>

definition rd_enter_tails :: "rw_instr list list" where
  "rd_enter_tails = [[IncReaders, Post Order, Post Read, Return OK], [Post Order, Post Read, Return OK], [Post Read, Return OK], [Return OK]]"

definition rd_fail_tails :: "rw_instr list list" where
  "rd_fail_tails = [[Post Order, Post Read, Return (ERROR None)], [Post Read, Return (ERROR None)], [Return (ERROR None)]]"

definition rd_entering :: "rw_instr list list" where
  "rd_entering = [rdwrl_rd_enter, tl rdwrl_rd_enter, tl (tl rdwrl_rd_enter), Wait Access # hd rd_enter_tails,
     rdwrl_rd_timed_enter, tl rdwrl_rd_timed_enter, tl (tl rdwrl_rd_timed_enter),
     TimedCheck Access (hd rd_fail_tails) # hd rd_enter_tails] @ rd_enter_tails @ rd_fail_tails"

definition wr_entering :: "rw_instr list list" where
  "wr_entering = [rdwrl_wr_enter, tl rdwrl_wr_enter, [Post Order, Return OK], [Return OK], rdwrl_wr_timed_enter,
     tl rdwrl_wr_timed_enter, [Post Order, Return (ERROR None)], [Return (ERROR None)]]"

definition rd_leaving :: "rw_instr list list" where
  "rd_leaving = [rdwrl_rd_exit, tl rdwrl_rd_exit, tl (tl rdwrl_rd_exit), [Post Access, Post Read, Return OK],
     [Post Read, Return OK], [Return OK]]"

lemmas rw_programs = rdwrl_req_def rdwrl_exit_def rdwrl_timedreq_def rdwrl_wr_exit_def rdwrl_wr_enter_def
  rdwrl_wr_timed_enter_def rdwrl_rd_exit_def rdwrl_rd_enter_def rdwrl_rd_timed_enter_def
lemmas rw_points = rd_enter_tails_def rd_fail_tails_def rd_entering_def wr_entering_def rd_leaving_def rw_programs

fun point :: "rw_thread \<Rightarrow> bool" where
  "point (Entering ekSCOPE_RD p) \<longleftrightarrow> p \<in> set rd_entering"
| "point (Entering ekSCOPE_WR p) \<longleftrightarrow> p \<in> set wr_entering"
| "point (Leaving ekSCOPE_RD p) \<longleftrightarrow> p \<in> set rd_leaving"
| "point (Leaving ekSCOPE_WR p) \<longleftrightarrow> p = rdwrl_wr_exit \<or> p = [Return OK]"
| "point p \<longleftrightarrow> True"

text \<open>What a thread holds: the semaphores \<open>order\<close> and \<open>read\<close>, a place among the readers, the access.\<close>

fun holds_order :: "rw_thread \<Rightarrow> bool" where
  "holds_order (Entering sc p) \<longleftrightarrow> Post Order \<in> set p \<and> Wait Order \<notin> set p \<and> TimedWait Order \<notin> set p"
| "holds_order p \<longleftrightarrow> False"

fun holds_read :: "rw_thread \<Rightarrow> bool" where
  "holds_read (Entering sc p) \<longleftrightarrow> Post Read \<in> set p \<and> Wait Read \<notin> set p"
| "holds_read (Leaving sc p) \<longleftrightarrow> Post Read \<in> set p \<and> Wait Read \<notin> set p"
| "holds_read p \<longleftrightarrow> False"

fun counted :: "rw_thread \<Rightarrow> bool" where
  "counted (Entering sc p) \<longleftrightarrow> sc = ekSCOPE_RD \<and> IncReaders \<notin> set p \<and> last p = Return OK"
| "counted (Inside sc) \<longleftrightarrow> sc = ekSCOPE_RD"
| "counted (Leaving sc p) \<longleftrightarrow> DecReaders \<in> set p"
| "counted Away \<longleftrightarrow> False"

fun writes :: "rw_thread \<Rightarrow> bool" where
  "writes (Entering sc p) \<longleftrightarrow> sc = ekSCOPE_WR \<and> last p = Return OK \<and> Wait Access \<notin> set p \<and>
     (\<forall>a \<in> set p. case a of TimedCheck _ _ \<Rightarrow> False | _ \<Rightarrow> True)"
| "writes (Inside sc) \<longleftrightarrow> sc = ekSCOPE_WR"
| "writes (Leaving sc p) \<longleftrightarrow> sc = ekSCOPE_WR \<and> Post Access \<in> set p"
| "writes Away \<longleftrightarrow> False"

text \<open>A reader between the access and its place among the readers, on its way in or out.\<close>

fun passes :: "rw_thread \<Rightarrow> bool" where
  "passes (Entering sc p) \<longleftrightarrow> hd p = IncReaders"
| "passes (Leaving sc p) \<longleftrightarrow> sc = ekSCOPE_RD \<and> (hd p = IfNoReaders [Post Access] \<or> hd p = Post Access)"
| "passes p \<longleftrightarrow> False"

fun alone :: "rw_thread \<Rightarrow> bool" where
  "alone (Entering sc p) \<longleftrightarrow> sc = ekSCOPE_RD \<and> (case hd p of Wait s \<Rightarrow> s = Access | TimedCheck s _ \<Rightarrow> s = Access | _ \<Rightarrow> False)"
| "alone (Leaving sc p) \<longleftrightarrow> sc = ekSCOPE_RD \<and> hd p = Post Access"
| "alone p \<longleftrightarrow> False"

definition rw_safe :: "rdwrlock \<Rightarrow> rw_thread list \<Rightarrow> bool" where
  "rw_safe l ps \<longleftrightarrow> (\<forall>p \<in> set ps. point p) \<and> length ps < 2 ^ 64 - 1 \<and>
     cs_value (rw_read l) + num holds_read ps = 1 \<and>
     rw_n_readers l = num counted ps \<and>
     cs_value (rw_access l) + num writes ps + (if 0 < rw_n_readers l \<or> 0 < num passes ps then 1 else 0) = 1 \<and>
     (0 < num alone ps \<longrightarrow> rw_n_readers l = 0) \<and>
     1 \<le> cs_value (rw_order l) + num holds_order ps"

lemma point_read: "point p \<Longrightarrow> passes p \<or> alone p \<Longrightarrow> holds_read p"
  by (cases p rule: point.cases) (auto simp: rw_points)

text \<open>The counts after a step of thread \<open>i\<close>.\<close>

lemma rw_counts:
  assumes s: "rw_safe l ps" and i: "i < length ps"
  shows "num P (ps[i := p']) + (if P (ps ! i) then 1 else 0) = num P ps + (if P p' then 1 else 0)"
    and "holds_read (ps ! i) \<Longrightarrow> num passes ps = (if passes (ps ! i) then 1 else 0)"
    and "holds_read (ps ! i) \<Longrightarrow> num alone ps = (if alone (ps ! i) then 1 else 0)"
    and "holds_read (ps ! i) \<Longrightarrow> num holds_read ps = 1 \<and> cs_value (rw_read l) = 0"
proof -
  show "num P (ps[i := p']) + (if P (ps ! i) then 1 else 0) = num P ps + (if P p' then 1 else 0)"
    using num_update [OF i] .
  have r: "num holds_read ps \<le> 1" "\<And>p. p \<in> set ps \<Longrightarrow> point p" using s by (auto simp: rw_safe_def)
  show "holds_read (ps ! i) \<Longrightarrow> num passes ps = (if passes (ps ! i) then 1 else 0)"
    "holds_read (ps ! i) \<Longrightarrow> num alone ps = (if alone (ps ! i) then 1 else 0)"
    using num_unique [OF r(1) i] point_read r(2) by blast+
  show "holds_read (ps ! i) \<Longrightarrow> num holds_read ps = 1 \<and> cs_value (rw_read l) = 0"
    using num_nth [OF i, of holds_read] s by (auto simp: rw_safe_def)
qed

subsection \<open>One action\<close>

text \<open>What one action of a thread does to the lock, by what the thread holds before and after.\<close>

definition enabled :: "rdwrlock \<Rightarrow> rw_thread \<Rightarrow> bool" where
  "enabled l p \<longleftrightarrow> cs_value (rw_read l) + bit (holds_read p) \<le> 1 \<and> rw_n_readers l + 1 < 2 ^ 64 \<and>
     (counted p \<longrightarrow> 0 < rw_n_readers l) \<and> (alone p \<longrightarrow> rw_n_readers l = 0) \<and>
     cs_value (rw_access l) + bit (writes p) + bit (0 < rw_n_readers l \<or> passes p) \<le> 1"

definition effect :: "rdwrlock \<Rightarrow> rw_thread \<Rightarrow> rdwrlock \<Rightarrow> rw_thread \<Rightarrow> bool" where
  "effect l p l' p' \<longleftrightarrow> point p' \<and>
     cs_value (rw_read l') + bit (holds_read p') = cs_value (rw_read l) + bit (holds_read p) \<and>
     rw_n_readers l' + bit (counted p) = rw_n_readers l + bit (counted p') \<and>
     (cs_value (rw_order l) + bit (holds_order p) \<le> cs_value (rw_order l') + bit (holds_order p') \<or> 0 < cs_value (rw_order l')) \<and>
     (if holds_read p
      then (alone p' \<longrightarrow> rw_n_readers l' = 0) \<and>
        cs_value (rw_access l') + bit (writes p') + bit (0 < rw_n_readers l' \<or> passes p') =
          cs_value (rw_access l) + bit (writes p) + bit (0 < rw_n_readers l \<or> passes p)
      else rw_n_readers l' = rw_n_readers l \<and> \<not> alone p' \<and> \<not> passes p' \<and>
        cs_value (rw_access l') + bit (writes p') = cs_value (rw_access l) + bit (writes p))"

lemmas rw_sems = csem_wait_def csem_timedwait_def csem_post_def SEM_VALUE_MAX_def

lemma effect_reader_enters:
  assumes "(l', p') \<in> set (rw_act i l (Entering ekSCOPE_RD p))" and "p \<in> set rd_entering"
    and "enabled l (Entering ekSCOPE_RD p)"
  shows "effect l (Entering ekSCOPE_RD p) l' p'"
  using assms(2) unfolding rd_entering_def rd_enter_tails_def rd_fail_tails_def append.simps list.set insert_iff empty_iff list.sel
  by (elim disjE FalseE; use assms(1,3) in \<open>hypsubst, auto simp: rw_points effect_def enabled_def rw_sems split: if_splits\<close>)

lemma effect_writer_enters:
  assumes "(l', p') \<in> set (rw_act i l (Entering ekSCOPE_WR p))" and "p \<in> set wr_entering"
    and "enabled l (Entering ekSCOPE_WR p)"
  shows "effect l (Entering ekSCOPE_WR p) l' p'"
  using assms(2) unfolding wr_entering_def list.set insert_iff empty_iff list.sel
  by (elim disjE FalseE; use assms(1,3) in \<open>hypsubst, auto simp: rw_points effect_def enabled_def rw_sems split: if_splits\<close>)

lemma size_pred_small: "0 < n \<Longrightarrow> n < 2 ^ 64 \<Longrightarrow> size_pred n = n - 1"
  by (cases n) (simp_all add: size_pred_def)

lemma effect_reader_leaves:
  assumes "(l', p') \<in> set (rw_act i l (Leaving ekSCOPE_RD p))" and "p \<in> set rd_leaving"
    and "enabled l (Leaving ekSCOPE_RD p)"
  shows "effect l (Leaving ekSCOPE_RD p) l' p'"
  using assms(2) unfolding rd_leaving_def list.set insert_iff empty_iff list.sel
  by (elim disjE FalseE; use assms(1,3) in \<open>hypsubst, auto simp: rw_points effect_def enabled_def rw_sems size_pred_small split: if_splits\<close>)

lemma effect_other:
  assumes "enabled l p" and "(l', p') \<in> set (rw_act i l p)"
  shows "p = Leaving ekSCOPE_WR rdwrl_wr_exit \<Longrightarrow> effect l p l' p'" "p = Leaving ekSCOPE_WR [Return OK] \<Longrightarrow> effect l p l' p'"
    "p = Away \<Longrightarrow> effect l p l' p'" "p = Inside ekSCOPE_RD \<Longrightarrow> effect l p l' p'" "p = Inside ekSCOPE_WR \<Longrightarrow> effect l p l' p'"
  using assms by (auto simp: rw_points effect_def enabled_def rw_sems)

lemma act_effect:
  assumes "(l', p') \<in> set (rw_act i l p)" and "point p" and "enabled l p"
  shows "effect l p l' p'"
proof (cases p)
  case Away
  then show ?thesis using effect_other(3) [OF assms(3,1)] by blast
next
  case (Entering sc q)
  then show ?thesis using assms effect_reader_enters effect_writer_enters by (cases sc) auto
next
  case (Inside sc)
  then show ?thesis using effect_other(4,5) [OF assms(3,1)] by (cases sc) blast+
next
  case (Leaving sc q)
  show ?thesis
  proof (cases sc)
    case ekSCOPE_RD
    then show ?thesis using assms Leaving effect_reader_leaves by simp
  next
    case ekSCOPE_WR
    then have "p = Leaving ekSCOPE_WR rdwrl_wr_exit \<or> p = Leaving ekSCOPE_WR [Return OK]" using assms(2) Leaving by simp
    then show ?thesis using effect_other(1,2) [OF assms(3,1)] by blast
  qed
qed

subsection \<open>The invariant\<close>

lemma safe_enabled:
  assumes s: "rw_safe l ps" and i: "i < length ps"
  shows "enabled l (ps ! i)" "point (ps ! i)"
proof -
  let ?p = "ps ! i"
  have one: "bit (P ?p) \<le> num P ps" for P using num_nth [OF i, of P] by auto
  have pas: "passes ?p \<Longrightarrow> 0 < num passes ps" and al: "alone ?p \<Longrightarrow> 0 < num alone ps"
    and co: "counted ?p \<Longrightarrow> 0 < num counted ps" using num_nth [OF i] by blast+
  have "rw_n_readers l < length ps \<or> rw_n_readers l = length ps" using s num_le_length [of counted ps] by (auto simp: rw_safe_def)
  have "num counted ps \<le> length ps" by (rule num_le_length)
  show "enabled l ?p" using s one [of holds_read] one [of writes] pas al co \<open>num counted ps \<le> length ps\<close>
    by (auto simp: enabled_def rw_safe_def split: if_splits)
  show "point ?p" using s i by (simp add: rw_safe_def)
qed

lemma rw_step_safe:
  assumes s: "rw_safe l ps" and i: "i < length ps" and a: "(l', p') \<in> set (rw_act i l (ps ! i))"
  shows "rw_safe l' (ps[i := p'])"
proof -
  let ?p = "ps ! i"
  have e: "effect l ?p l' p'" using act_effect [OF a] safe_enabled [OF s i] by blast
  have n: "num P (ps[i := p']) + bit (P ?p) = num P ps + bit (P p')" for P using num_update [OF i] .
  have pt: "\<forall>q \<in> set (ps[i := p']). point q"
    using s e set_update_subset_insert [of ps i p'] by (auto simp: rw_safe_def effect_def)
  note sd = s [unfolded rw_safe_def] and ed = e [unfolded effect_def]
  have A: "cs_value (rw_access l) + num writes ps + bit (0 < rw_n_readers l \<or> 0 < num passes ps) = 1"
    "0 < num alone ps \<longrightarrow> rw_n_readers l = 0" using sd by blast+
  have acc: "cs_value (rw_access l') + num writes (ps[i := p']) + bit (0 < rw_n_readers l' \<or> 0 < num passes (ps[i := p'])) = 1 \<and>
      (0 < num alone (ps[i := p']) \<longrightarrow> rw_n_readers l' = 0)"
  proof (cases "holds_read ?p")
    case True
    have u: "num passes ps = bit (passes ?p)" "num alone ps = bit (alone ?p)" using rw_counts(2,3) [OF s i True] by simp_all
    then have "num passes (ps[i := p']) = bit (passes p')" "num alone (ps[i := p']) = bit (alone p')"
      using n [of passes] n [of alone] by simp_all
    then have q: "(0 < num passes ps) = passes ?p" "(0 < num passes (ps[i := p'])) = passes p'" "(0 < num alone (ps[i := p'])) = alone p'"
      using u by simp_all
    have B: "alone p' \<longrightarrow> rw_n_readers l' = 0"
      "cs_value (rw_access l') + bit (writes p') + bit (0 < rw_n_readers l' \<or> passes p') =
        cs_value (rw_access l) + bit (writes ?p) + bit (0 < rw_n_readers l \<or> passes ?p)" using ed True by simp_all
    show ?thesis unfolding q using A(1) [unfolded q] B n [of writes] by linarith
  next
    case False
    then have "\<not> passes ?p" "\<not> alone ?p" using point_read [OF safe_enabled(2) [OF s i]] by blast+
    moreover have B: "rw_n_readers l' = rw_n_readers l" "\<not> alone p'" "\<not> passes p'"
      "cs_value (rw_access l') + bit (writes p') = cs_value (rw_access l) + bit (writes ?p)" using ed False by simp_all
    ultimately have q: "num passes (ps[i := p']) = num passes ps" "num alone (ps[i := p']) = num alone ps"
      using n [of passes] n [of alone] by simp_all
    show ?thesis unfolding q B(1) using A B(4) n [of writes] by linarith
  qed
  have "cs_value (rw_read l') + num holds_read (ps[i := p']) = 1" "rw_n_readers l' = num counted (ps[i := p'])"
    using sd ed n [of holds_read] n [of counted] by linarith+
  moreover have "1 \<le> cs_value (rw_order l') + num holds_order (ps[i := p'])" using sd ed n [of holds_order] by linarith
  ultimately show ?thesis using pt acc sd by (simp add: rw_safe_def)
qed

definition rw_starts :: "rdwrlock \<times> rw_thread list \<Rightarrow> bool" where
  "rw_starts m \<longleftrightarrow> (\<exists>rdwr_in handle flags n. rdwrl_init rdwr_in handle flags = Some (fst m) \<and> snd m = replicate n Away \<and> n < 2 ^ 64 - 1)"

lemma csem_init_one: "csem_init (Some ()) None 1 RCSW_NOALLOC_HANDLE = Some \<lparr>cs_value = 1, cs_flags = RCSW_NOALLOC_HANDLE\<rparr>"
  by (simp add: csem_init_def SEM_VALUE_MAX_def rcsw_alloc_def noalloc_def has_flag_def flag_defs)

lemma rdwrl_init_fields:
  "rdwrl_init rdwr_in handle flags = Some l \<Longrightarrow>
   cs_value (rw_order l) = 1 \<and> cs_value (rw_access l) = 1 \<and> cs_value (rw_read l) = 1 \<and> rw_n_readers l = 0"
  unfolding rdwrl_init_def csem_init_one by (auto split: option.splits)

lemma rw_start_safe:
  assumes "rw_starts (l, ps)"
  shows "rw_safe l ps"
proof -
  obtain rdwr_in handle flags n where i: "rdwrl_init rdwr_in handle flags = Some l" and ps: "ps = replicate n Away" "n < 2 ^ 64 - 1"
    using assms unfolding rw_starts_def by auto
  have "num P ps = 0" if "\<not> P Away" for P using that ps(1) by simp
  then have "num holds_read ps = 0" "num counted ps = 0" "num writes ps = 0" "num passes ps = 0" "num alone ps = 0" "num holds_order ps = 0"
    by simp_all
  moreover have "\<forall>p \<in> set ps. point p" "length ps < 2 ^ 64 - 1" using ps by auto
  ultimately show ?thesis using rdwrl_init_fields [OF i] unfolding rw_safe_def by simp
qed

interpretation rw: protocol rw_act rw_starts rw_safe
  by unfold_locales (rule rw_start_safe rw_step_safe; assumption)+

subsection \<open>Progress\<close>

definition stuck :: "rdwrlock \<Rightarrow> rw_thread \<Rightarrow> bool" where
  "stuck l p \<longleftrightarrow> \<not> writes p \<and> \<not> passes p \<and> (holds_read p \<longrightarrow> alone p \<and> cs_value (rw_access l) = 0) \<and>
     (counted p \<longrightarrow> cs_value (rw_read l) = 0) \<and>
     (holds_order p \<longrightarrow> cs_value (rw_access l) = 0 \<or> cs_value (rw_read l) = 0) \<and>
     (cs_value (rw_order l) = 0 \<or> cs_value (rw_read l) = 0 \<or> cs_value (rw_access l) = 0)"

lemma reader_blocked:
  assumes "p \<in> set rd_entering" and "rw_act i l (Entering ekSCOPE_RD p) = []"
  shows "stuck l (Entering ekSCOPE_RD p)"
  using assms(1) unfolding rd_entering_def rd_enter_tails_def rd_fail_tails_def append.simps list.set insert_iff empty_iff list.sel
  by (elim disjE FalseE; use assms(2) in \<open>hypsubst, simp add: rw_points stuck_def rw_sems split: if_splits\<close>)

lemma writer_blocked:
  assumes "p \<in> set wr_entering" and "rw_act i l (Entering ekSCOPE_WR p) = []"
  shows "stuck l (Entering ekSCOPE_WR p)"
  using assms(1) unfolding wr_entering_def list.set insert_iff empty_iff list.sel
  by (elim disjE FalseE; use assms(2) in \<open>hypsubst, simp add: rw_points stuck_def rw_sems split: if_splits\<close>)

lemma leaving_blocked:
  assumes "p \<in> set rd_leaving" and "rw_act i l (Leaving ekSCOPE_RD p) = []"
  shows "stuck l (Leaving ekSCOPE_RD p)"
  using assms(1) unfolding rd_leaving_def list.set insert_iff empty_iff list.sel
  by (elim disjE FalseE; use assms(2) in \<open>hypsubst, simp add: rw_points stuck_def rw_sems split: if_splits\<close>)

lemma blocked_stuck:
  assumes "point p" and "rw_act i l p = []"
  shows "stuck l p"
proof (cases p)
  case (Entering sc q)
  then show ?thesis using assms reader_blocked writer_blocked by (cases sc) auto
next
  case (Leaving sc q)
  show ?thesis
  proof (cases sc)
    case ekSCOPE_RD
    then show ?thesis using assms Leaving leaving_blocked by simp
  next
    case ekSCOPE_WR
    then have "rw_act i l p \<noteq> []" using assms(1) Leaving by (auto simp: rw_programs rw_sems split: if_splits)
    then show ?thesis using assms(2) by simp
  qed
qed (use assms(2) in auto)

lemma rw_progress:
  assumes s: "rw_safe l ps" and q: "q \<in> set ps" "q \<noteq> Away"
  shows "\<exists>i < length ps. ps ! i \<noteq> Away \<and> rw_act i l (ps ! i) \<noteq> []"
proof (rule ccontr)
  assume "\<not> ?thesis"
  then have st: "stuck l p" if "p \<in> set ps" "p \<noteq> Away" for p
    using that s blocked_stuck by (force simp: in_set_conv_nth rw_safe_def)
  note sd = s [unfolded rw_safe_def]
  have away: "\<not> writes Away" "\<not> passes Away" "\<not> holds_read Away" "\<not> counted Away" "\<not> holds_order Away" by simp_all
  have w: "\<not> writes p \<and> \<not> passes p \<and> (holds_read p \<longrightarrow> alone p \<and> cs_value (rw_access l) = 0) \<and>
      (counted p \<longrightarrow> cs_value (rw_read l) = 0) \<and>
      (holds_order p \<longrightarrow> cs_value (rw_access l) = 0 \<or> cs_value (rw_read l) = 0)" if "p \<in> set ps" for p
    using st [OF that] away by (cases "p = Away") (auto simp: stuck_def)
  have none: "num writes ps = 0" "num passes ps = 0" using w by (auto simp: num_zero)
  have access: "cs_value (rw_access l) \<noteq> 0"
  proof
    assume a: "cs_value (rw_access l) = 0"
    then have n: "0 < rw_n_readers l" using sd none by (auto split: if_splits)
    then obtain c where c: "c \<in> set ps" "counted c" using sd num_pos [of counted ps] by auto
    then have "cs_value (rw_read l) = 0" using w [OF c(1)] c(2) by simp
    then have "0 < num holds_read ps" using sd by simp
    then obtain r where r: "r \<in> set ps" "holds_read r" unfolding num_pos by blast
    then have "alone r" using w [OF r(1)] r(2) by simp
    then have "0 < num alone ps" using r(1) unfolding num_pos by blast
    then show False using sd n by simp
  qed
  have read: "cs_value (rw_read l) \<noteq> 0"
  proof
    assume "cs_value (rw_read l) = 0"
    then have "0 < num holds_read ps" using sd by simp
    then obtain r where r: "r \<in> set ps" "holds_read r" unfolding num_pos by blast
    show False using w [OF r(1)] r(2) access by simp
  qed
  have "cs_value (rw_order l) = 0" using st [OF q] access read by (simp add: stuck_def)
  then have "0 < num holds_order ps" using sd by simp
  then obtain r where r: "r \<in> set ps" "holds_order r" unfolding num_pos by blast
  show False using w [OF r(1)] r(2) access read by simp
qed

lemma rw_exclusion:
  assumes s: "rw_safe l ps"
  shows "num (\<lambda>p. p = Inside ekSCOPE_WR) ps \<le> 1 \<and>
    (0 < num (\<lambda>p. p = Inside ekSCOPE_WR) ps \<longrightarrow> num (\<lambda>p. p = Inside ekSCOPE_RD) ps = 0)"
proof -
  have "num (\<lambda>p. p = Inside ekSCOPE_WR) ps \<le> num writes ps" "num (\<lambda>p. p = Inside ekSCOPE_RD) ps \<le> num counted ps"
    by (rule num_mono; simp)+
  then show ?thesis using s by (auto simp: rw_safe_def split: if_splits)
qed

subsection \<open>Properties\<close>

text \<open>
  C2: Whatever the interleaving of any number of threads that enter and leave the lock, with or
  without a timeout, at most one writer is inside, and then no reader is.
\<close>

theorem rdwrl_mutual_exclusion:
  assumes "rw_starts m0" and "reachable rw_act m0 (l, ps)"
  shows "num (\<lambda>p. p = Inside ekSCOPE_WR) ps \<le> 1 \<and>
    (0 < num (\<lambda>p. p = Inside ekSCOPE_WR) ps \<longrightarrow> num (\<lambda>p. p = Inside ekSCOPE_RD) ps = 0)"
  using rw.reachable_safe [OF assms(2,1)] by (intro rw_exclusion) simp

text \<open>
  C7: The lock never ends in a deadlock: as long as some thread is in an operation or inside, some
  thread that is in an operation or inside can go on.
\<close>

theorem rdwrl_deadlock_free:
  assumes "rw_starts m0" and "reachable rw_act m0 (l, ps)" and "\<exists>p \<in> set ps. p \<noteq> Away"
  shows "\<exists>i < length ps. ps ! i \<noteq> Away \<and> rw_act i l (ps ! i) \<noteq> []"
  using rw.reachable_safe [OF assms(2,1)] assms(3) rw_progress by auto

text \<open>A reader and a writer that come at the same time.\<close>

definition some_rwlock :: rdwrlock where
  "some_rwlock = (let one = \<lparr>cs_value = 1, cs_flags = RCSW_NOALLOC_HANDLE\<rparr> in
     \<lparr>rw_order = one, rw_access = one, rw_read = one, rw_n_readers = 0, rw_flags = 0\<rparr>)"

lemma some_rw_start: "rw_starts (some_rwlock, [Away, Away])"
proof -
  have "rdwrl_init None (Some ()) 0 = Some some_rwlock"
    unfolding rdwrl_init_def csem_init_one by (simp add: some_rwlock_def rcsw_alloc_def noalloc_def has_flag_def Let_def)
  moreover have "[Away, Away] = replicate 2 Away" by (simp add: numeral_2_eq_2)
  ultimately show ?thesis unfolding rw_starts_def by (rule_tac exI [of _ None], rule_tac exI [of _ "Some ()"],
    rule_tac exI [of _ 0], rule_tac exI [of _ 2]) simp
qed

lemma some_rw_reached:
  "reachable rw_act (some_rwlock, [Away, Away]) (some_rwlock, [Entering ekSCOPE_RD rdwrl_rd_enter, Entering ekSCOPE_WR rdwrl_wr_enter])"
proof -
  have 1: "sys_step rw_act (some_rwlock, [Away, Away]) (some_rwlock, [Entering ekSCOPE_RD rdwrl_rd_enter, Away])"
    using thread_step [of 0 "[Away, Away]" some_rwlock "Entering ekSCOPE_RD rdwrl_rd_enter" rw_act some_rwlock]
    by (simp add: rdwrl_req_def)
  have 2: "sys_step rw_act (some_rwlock, [Entering ekSCOPE_RD rdwrl_rd_enter, Away])
      (some_rwlock, [Entering ekSCOPE_RD rdwrl_rd_enter, Entering ekSCOPE_WR rdwrl_wr_enter])"
    using thread_step [of 1 "[Entering ekSCOPE_RD rdwrl_rd_enter, Away]" some_rwlock "Entering ekSCOPE_WR rdwrl_wr_enter" rw_act some_rwlock]
    by (simp add: rdwrl_req_def)
  show ?thesis by (rule reach_step [OF reach_step [OF reach_start 1] 2])
qed

theorem rdwrl_mutual_exclusion_witness:
  "num (\<lambda>p. p = Inside ekSCOPE_WR) [Entering ekSCOPE_RD rdwrl_rd_enter, Entering ekSCOPE_WR rdwrl_wr_enter] \<le> 1"
  using rdwrl_mutual_exclusion [OF some_rw_start some_rw_reached] by blast

theorem rdwrl_deadlock_free_witness:
  "\<exists>i < length [Entering ekSCOPE_RD rdwrl_rd_enter, Entering ekSCOPE_WR rdwrl_wr_enter].
     [Entering ekSCOPE_RD rdwrl_rd_enter, Entering ekSCOPE_WR rdwrl_wr_enter] ! i \<noteq> Away \<and>
     rw_act i some_rwlock ([Entering ekSCOPE_RD rdwrl_rd_enter, Entering ekSCOPE_WR rdwrl_wr_enter] ! i) \<noteq> []"
  by (rule rdwrl_deadlock_free [OF some_rw_start some_rw_reached]) simp

end
