(* ===== verification/Pcqueue.thy ===== *)
theory Pcqueue
  imports Sync Fifo
begin

text \<open>
  The producer-consumer queue of src/multithread/pcqueue.c: a FIFO behind a mutex, with one
  semaphore that counts the free slots and one that counts the elements. Its operations are
  programs of atomic actions, run by any number of threads in any interleaving: elements leave in
  the order they came, and a thread blocks only on a full or an empty queue. A call of the FIFO
  is not atomic: one action reads the FIFO, a later one writes what the call makes of what was
  read. Without the mutex two calls could overlap and one of them be lost.
\<close>

subsection \<open>State and operations\<close>

record 'a pcqueue =
  pcq_fifo :: "'a fifo"
  pcq_mutex :: mutex
  pcq_avail :: csem
  pcq_inuse :: csem
  pcq_flags :: u32

definition pcqueue_init ::
  "unit option \<Rightarrow> unit option \<Rightarrow> 'a list option \<Rightarrow> bool \<Rightarrow> 'a fifo_params option \<Rightarrow> 'a pcqueue option" where
  "pcqueue_init queue_in handle block mutex_made params =
     (case params of
        None \<Rightarrow> None
      | Some p \<Rightarrow>
          if \<not> (fp_max_elts p > 0 \<and> fp_elt_size p > 0) then None
          else
            (case rcsw_alloc id queue_in handle (fp_flags p AND RCSW_NOALLOC_HANDLE) of
               Some (Some _) \<Rightarrow> do {
                 f \<leftarrow> fifo_init (Some ()) None block (Some (p\<lparr>fp_flags := fp_flags p OR RCSW_NOALLOC_HANDLE\<rparr>));
                 avail \<leftarrow> csem_init (Some ()) None (fp_max_elts p) RCSW_NOALLOC_HANDLE;
                 inuse \<leftarrow> csem_init (Some ()) None 0 RCSW_NOALLOC_HANDLE;
                 m \<leftarrow> mutex_init (Some ()) None mutex_made RCSW_NOALLOC_HANDLE;
                 Some \<lparr>pcq_fifo = f, pcq_mutex = m, pcq_avail = avail, pcq_inuse = inuse, pcq_flags = fp_flags p\<rparr>
               }
             | _ \<Rightarrow> None))"

definition pcqueue_isfull :: "'a pcqueue \<Rightarrow> bool" where
  "pcqueue_isfull q = fifo_isfull (pcq_fifo q)"

definition pcqueue_isempty :: "'a pcqueue \<Rightarrow> bool" where
  "pcqueue_isempty q = fifo_isempty (pcq_fifo q)"

definition pcqueue_size :: "'a pcqueue \<Rightarrow> nat" where
  "pcqueue_size q = fifo_size (pcq_fifo q)"

definition pcqueue_capacity :: "'a pcqueue \<Rightarrow> nat" where
  "pcqueue_capacity q = fifo_capacity (pcq_fifo q)"

definition pcqueue_n_free :: "'a pcqueue \<Rightarrow> nat" where
  "pcqueue_n_free q = (pcqueue_capacity q + 2 ^ 64 - pcqueue_size q) mod 2 ^ 64"

text \<open>
  The statements of the operations. \<open>Add\<close>, \<open>Remove\<close> and \<open>Front\<close> are the calls of the FIFO,
  whose status goes to \<open>rval\<close>; \<open>PostIfOk\<close> posts when \<open>rval\<close> is \<open>OK\<close>. The output pointers are
  not \<open>NULL\<close>.
\<close>

datatype pcq_sem = Avail | Inuse

datatype 'a pcq_instr =
    Wait pcq_sem
  | TimedCheck pcq_sem
  | Lock
  | Unlock
  | Add 'a
  | Remove
  | Front
  | PostIfOk pcq_sem
  | Post pcq_sem
  | Return

definition pcqueue_push :: "'a \<Rightarrow> 'a pcq_instr list" where
  "pcqueue_push e = [Wait Avail, Lock, Add e, Unlock, PostIfOk Inuse, Return]"

definition pcqueue_pop :: "'a pcq_instr list" where
  "pcqueue_pop = [Wait Inuse, Lock, Remove, Unlock, PostIfOk Avail, Return]"

definition pcqueue_timedpop :: "'a pcq_instr list" where
  "pcqueue_timedpop = [TimedCheck Inuse, Lock, Remove, Unlock, Post Avail, Return]"

definition pcqueue_peek :: "'a pcq_instr list" where
  "pcqueue_peek = [Wait Inuse, Lock, Front, Unlock, Post Inuse, Return]"

definition pcqueue_timedpeek :: "'a pcq_instr list" where
  "pcqueue_timedpeek = [TimedCheck Inuse, Lock, Front, Unlock, Post Inuse, Return]"

subsection \<open>Execution\<close>

text \<open>The queue, and the elements that went in and came out so far.\<close>

type_synonym 'a pcq_state = "'a pcqueue \<times> 'a list \<times> 'a list"

text \<open>
  A thread: the statements left, \<open>rval\<close>, and what an output pointer was given. Inside a call of
  the FIFO, the first of the statements left, it also has the FIFO as the call read it.
\<close>

datatype 'a pcq_thread =
    Idle
  | Running "'a pcq_instr list" status "'a option" "nat option"
  | InCall "'a fifo" "'a pcq_instr list" status "'a option" "nat option"

fun fifo_call :: "'a pcq_instr \<Rightarrow> bool" where
  "fifo_call (Add x) \<longleftrightarrow> True"
| "fifo_call Remove \<longleftrightarrow> True"
| "fifo_call Front \<longleftrightarrow> True"
| "fifo_call _ \<longleftrightarrow> False"

fun on_pcq_sem :: "pcq_sem \<Rightarrow> (csem \<Rightarrow> csem outcomes) \<Rightarrow> 'a pcqueue \<Rightarrow> 'a pcqueue outcomes" where
  "on_pcq_sem Avail f q = map (\<lambda>(st, s). (st, q\<lparr>pcq_avail := s\<rparr>)) (f (pcq_avail q))"
| "on_pcq_sem Inuse f q = map (\<lambda>(st, s). (st, q\<lparr>pcq_inuse := s\<rparr>)) (f (pcq_inuse q))"

text \<open>
  The effect of a statement; \<open>f0\<close> is the FIFO that a call has read. A call writes the whole FIFO,
  so it undoes what others wrote since it read.
\<close>

fun pcq_exec :: "nat \<Rightarrow> 'a fifo \<Rightarrow> 'a pcq_state \<Rightarrow> 'a pcq_instr \<Rightarrow> 'a pcq_instr list \<Rightarrow> status \<Rightarrow> 'a option \<Rightarrow> nat option \<Rightarrow>
   ('a pcq_state \<times> 'a pcq_thread) list" where
  "pcq_exec i f0 (q, ins, outs) (Wait s) p st e fr =
     map (\<lambda>(_, q'). ((q', ins, outs), Running p st e fr)) (on_pcq_sem s csem_wait q)"
| "pcq_exec i f0 (q, ins, outs) (TimedCheck s) p st e fr =
     map (\<lambda>(r, q'). ((q', ins, outs), if r = OK then Running p st e fr else Idle)) (on_pcq_sem s csem_timedwait q)"
| "pcq_exec i f0 (q, ins, outs) Lock p st e fr =
     map (\<lambda>(_, m). ((q\<lparr>pcq_mutex := m\<rparr>, ins, outs), Running p st e fr)) (mutex_lock i (pcq_mutex q))"
| "pcq_exec i f0 (q, ins, outs) Unlock p st e fr =
     map (\<lambda>(_, m). ((q\<lparr>pcq_mutex := m\<rparr>, ins, outs), Running p st e fr)) (mutex_unlock (pcq_mutex q))"
| "pcq_exec i f0 (q, ins, outs) (Add x) p st e fr =
     (let (r, f) = fifo_add f0 (Some x) in
      [((q\<lparr>pcq_fifo := f\<rparr>, if r = OK then ins @ [x] else ins, outs), Running p r e fr)])"
| "pcq_exec i f0 (q, ins, outs) Remove p st e fr =
     (let (r, v, f) = fifo_remove f0 True in
      [((q\<lparr>pcq_fifo := f\<rparr>, ins, (case v of None \<Rightarrow> outs | Some x \<Rightarrow> outs @ [x])), Running p r v fr)])"
| "pcq_exec i f0 (q, ins, outs) Front p st e fr = [((q, ins, outs), Running p st e (fifo_front f0))]"
| "pcq_exec i f0 (q, ins, outs) (PostIfOk s) p st e fr =
     (if st = OK then map (\<lambda>(_, q'). ((q', ins, outs), Running p st e fr)) (on_pcq_sem s csem_post q)
      else [((q, ins, outs), Running p st e fr)])"
| "pcq_exec i f0 (q, ins, outs) (Post s) p st e fr =
     map (\<lambda>(_, q'). ((q', ins, outs), Running p st e fr)) (on_pcq_sem s csem_post q)"
| "pcq_exec i f0 (q, ins, outs) Return p st e fr = [((q, ins, outs), Idle)]"

text \<open>An idle thread may call any operation, a producer with any of the elements \<open>xs\<close>.\<close>

fun pcq_act :: "'a list \<Rightarrow> nat \<Rightarrow> 'a pcq_state \<Rightarrow> 'a pcq_thread \<Rightarrow> ('a pcq_state \<times> 'a pcq_thread) list" where
  "pcq_act xs i s Idle = map (\<lambda>p. (s, Running p OK None None))
     (map pcqueue_push xs @ [pcqueue_pop, pcqueue_timedpop, pcqueue_peek, pcqueue_timedpeek])"
| "pcq_act xs i s (Running (a # p) st e fr) =
     (if fifo_call a then [(s, InCall (pcq_fifo (fst s)) (a # p) st e fr)]
      else pcq_exec i (pcq_fifo (fst s)) s a p st e fr)"
| "pcq_act xs i s (InCall f (a # p) st e fr) = pcq_exec i f s a p st e fr"
| "pcq_act xs i s (Running [] st e fr) = []"
| "pcq_act xs i s (InCall f [] st e fr) = []"

subsection \<open>The points of the programs\<close>

fun suffixes_of :: "'b list \<Rightarrow> 'b list list" where
  "suffixes_of [] = []"
| "suffixes_of (x # xs) = (x # xs) # suffixes_of xs"

lemmas pcq_programs = pcqueue_push_def pcqueue_pop_def pcqueue_timedpop_def pcqueue_peek_def pcqueue_timedpeek_def

definition pcq_others :: "'a pcq_instr list list" where
  "pcq_others = suffixes_of pcqueue_pop @ suffixes_of pcqueue_timedpop @ suffixes_of pcqueue_peek @ suffixes_of pcqueue_timedpeek"

definition pcq_prog :: "'a pcq_instr list \<Rightarrow> bool" where
  "pcq_prog p \<longleftrightarrow> (\<exists>x. p \<in> set (suffixes_of (pcqueue_push x))) \<or> p \<in> set pcq_others"

fun pcq_point :: "'a pcq_thread \<Rightarrow> bool" where
  "pcq_point Idle \<longleftrightarrow> True"
| "pcq_point (Running p st e fr) \<longleftrightarrow> pcq_prog p \<and> st = OK \<and>
     ((p = [Unlock, Post Inuse, Return] \<or> p = [Post Inuse, Return]) \<longrightarrow> fr \<noteq> None)"
| "pcq_point (InCall f p st e fr) \<longleftrightarrow> pcq_prog p \<and> st = OK \<and> (\<exists>a q. p = a # q \<and> fifo_call a)"

text \<open>What a call in progress has read is still the FIFO.\<close>

fun fresh_read :: "'a pcqueue \<Rightarrow> 'a pcq_thread \<Rightarrow> bool" where
  "fresh_read q (InCall f p st e fr) \<longleftrightarrow> f = pcq_fifo q"
| "fresh_read q _ \<longleftrightarrow> True"

text \<open>A slot or an element that a thread has taken from a semaphore and not passed on yet.\<close>

fun slot_held :: "'a pcq_thread \<Rightarrow> bool" where
  "slot_held Idle \<longleftrightarrow> False"
| "slot_held (Running p st e fr) \<longleftrightarrow>
     Wait Avail \<notin> set p \<and> (\<exists>x. Add x \<in> set p) \<or> (PostIfOk Avail \<in> set p \<or> Post Avail \<in> set p) \<and> Remove \<notin> set p"
| "slot_held (InCall f p st e fr) \<longleftrightarrow>
     Wait Avail \<notin> set p \<and> (\<exists>x. Add x \<in> set p) \<or> (PostIfOk Avail \<in> set p \<or> Post Avail \<in> set p) \<and> Remove \<notin> set p"

fun elt_held :: "'a pcq_thread \<Rightarrow> bool" where
  "elt_held Idle \<longleftrightarrow> False"
| "elt_held (Running p st e fr) \<longleftrightarrow> Wait Inuse \<notin> set p \<and> TimedCheck Inuse \<notin> set p \<and>
     (Remove \<in> set p \<or> Post Inuse \<in> set p \<or> PostIfOk Inuse \<in> set p \<and> (\<forall>x. Add x \<notin> set p))"
| "elt_held (InCall f p st e fr) \<longleftrightarrow> Wait Inuse \<notin> set p \<and> TimedCheck Inuse \<notin> set p \<and>
     (Remove \<in> set p \<or> Post Inuse \<in> set p \<or> PostIfOk Inuse \<in> set p \<and> (\<forall>x. Add x \<notin> set p))"

fun locked :: "'a pcq_thread \<Rightarrow> bool" where
  "locked Idle \<longleftrightarrow> False"
| "locked (Running p st e fr) \<longleftrightarrow> Unlock \<in> set p \<and> Lock \<notin> set p"
| "locked (InCall f p st e fr) \<longleftrightarrow> Unlock \<in> set p \<and> Lock \<notin> set p"

lemma held_in_call:
  "slot_held (InCall f p st e fr) = slot_held (Running p st e fr)" "elt_held (InCall f p st e fr) = elt_held (Running p st e fr)"
  "locked (InCall f p st e fr) = locked (Running p st e fr)"
  by simp_all

definition pcq_state_ok :: "'a pcq_state \<Rightarrow> bool" where
  "pcq_state_ok s \<longleftrightarrow> (case s of (q, ins, outs) \<Rightarrow> ff_wf (pcq_fifo q) \<and> ins = outs @ ff_content (pcq_fifo q) \<and>
     pcqueue_capacity q \<le> SEM_VALUE_MAX)"

definition pcq_safe :: "'a pcq_state \<Rightarrow> 'a pcq_thread list \<Rightarrow> bool" where
  "pcq_safe s ps \<longleftrightarrow> pcq_state_ok s \<and> (\<forall>p \<in> set ps. pcq_point p \<and> fresh_read (fst s) p) \<and>
     cs_value (pcq_avail (fst s)) + num slot_held ps + pcqueue_size (fst s) = pcqueue_capacity (fst s) \<and>
     cs_value (pcq_inuse (fst s)) + num elt_held ps = pcqueue_size (fst s) \<and>
     tok (mx_owner (pcq_mutex (fst s)) = None) + num locked ps = 1"

text \<open>One action, by what the thread holds before and after.\<close>

definition pcq_enabled :: "'a pcq_state \<Rightarrow> 'a pcq_thread \<Rightarrow> bool" where
  "pcq_enabled s p \<longleftrightarrow> pcq_state_ok s \<and>
     cs_value (pcq_avail (fst s)) + tok (slot_held p) + pcqueue_size (fst s) \<le> pcqueue_capacity (fst s) \<and>
     cs_value (pcq_inuse (fst s)) + tok (elt_held p) \<le> pcqueue_size (fst s) \<and>
     tok (mx_owner (pcq_mutex (fst s)) = None) + tok (locked p) \<le> 1"

definition pcq_effect :: "'a pcq_state \<Rightarrow> 'a pcq_thread \<Rightarrow> 'a pcq_state \<Rightarrow> 'a pcq_thread \<Rightarrow> bool" where
  "pcq_effect s p s' p' \<longleftrightarrow> pcq_state_ok s' \<and> pcqueue_capacity (fst s') = pcqueue_capacity (fst s) \<and>
     cs_value (pcq_avail (fst s')) + tok (slot_held p') + pcqueue_size (fst s') =
       cs_value (pcq_avail (fst s)) + tok (slot_held p) + pcqueue_size (fst s) \<and>
     cs_value (pcq_inuse (fst s')) + tok (elt_held p') + pcqueue_size (fst s) =
       cs_value (pcq_inuse (fst s)) + tok (elt_held p) + pcqueue_size (fst s') \<and>
     tok (mx_owner (pcq_mutex (fst s')) = None) + tok (locked p') = tok (mx_owner (pcq_mutex (fst s)) = None) + tok (locked p)"

lemma add_room:
  assumes "pcq_state_ok (q, ins, outs)" and "pcqueue_size q < pcqueue_capacity q" and "fifo_add (pcq_fifo q) (Some x) = (r, f)"
  shows "r = OK \<and> pcq_state_ok (q\<lparr>pcq_fifo := f\<rparr>, ins @ [x], outs) \<and> fifo_size f = pcqueue_size q + 1 \<and>
    fifo_capacity f = pcqueue_capacity q"
proof -
  have w: "ff_wf (pcq_fifo q)" using assms(1) by (simp add: pcq_state_ok_def)
  note r = fifo_add_refines [OF w assms(3)]
  have "length (ff_content (pcq_fifo q)) < fifo_capacity (pcq_fifo q)"
    using assms(2) by (simp add: length_ff_content pcqueue_size_def pcqueue_capacity_def)
  then have c: "r = OK" "ff_content f = ff_content (pcq_fifo q) @ [x]" using r by (auto simp: spec_add_def)
  then have "fifo_size f = fifo_size (pcq_fifo q) + 1" by (metis length_ff_content length_append_singleton Suc_eq_plus1)
  then show ?thesis using r c assms(1) by (auto simp: pcq_state_ok_def pcqueue_size_def pcqueue_capacity_def)
qed

lemma remove_some:
  assumes "pcq_state_ok (q, ins, outs)" and "0 < pcqueue_size q" and "fifo_remove (pcq_fifo q) True = (r, v, f)"
  shows "r = OK \<and> (\<exists>x. v = Some x \<and> pcq_state_ok (q\<lparr>pcq_fifo := f\<rparr>, ins, outs @ [x])) \<and> fifo_size f + 1 = pcqueue_size q \<and>
    fifo_capacity f = pcqueue_capacity q"
proof -
  have w: "ff_wf (pcq_fifo q)" using assms(1) by (simp add: pcq_state_ok_def)
  note r = fifo_remove_refines [OF w assms(3)]
  have "ff_content (pcq_fifo q) \<noteq> []"
    using assms(2) by (auto simp: pcqueue_size_def simp flip: length_ff_content)
  then obtain x xs where c: "ff_content (pcq_fifo q) = x # xs" by (cases "ff_content (pcq_fifo q)") auto
  then have v: "r = OK" "v = Some x" "ff_content f = xs" using r by (auto simp: spec_remove_def)
  then have "fifo_size f + 1 = fifo_size (pcq_fifo q)" using c by (simp flip: length_ff_content)
  then show ?thesis using r c v assms(1) by (auto simp: pcq_state_ok_def pcqueue_size_def pcqueue_capacity_def)
qed

lemma front_some: "0 < pcqueue_size q \<Longrightarrow> fifo_front (pcq_fifo q) \<noteq> None"
  by (simp add: pcqueue_size_def fifo_size_def fifo_front_def rbuffer_front_def rbuffer_isempty_def rbuffer_size_def)


lemma suffixes_tl: "a # q \<in> set (suffixes_of xs) \<Longrightarrow> q = [] \<or> q \<in> set (suffixes_of xs)"
proof (induction xs)
  case (Cons x xs)
  then show ?case by (cases xs) auto
qed simp

lemma pcq_prog_tl: "pcq_prog (a # q) \<Longrightarrow> q = [] \<or> pcq_prog q"
  using suffixes_tl by (fastforce simp: pcq_prog_def pcq_others_def)

text \<open>What the thread holds before and after each statement.\<close>

definition moves :: "'a pcq_instr \<Rightarrow> 'a pcq_instr list \<Rightarrow> bool" where
  "moves a q \<longleftrightarrow> (\<forall>st e fr. let before = Running (a # q) st e fr; after = Running q st e fr in
     tok (slot_held after) + tok (a \<in> {PostIfOk Avail, Post Avail} \<or> (\<exists>x. a = Add x)) = tok (slot_held before) + tok (a \<in> {Wait Avail, Remove}) \<and>
     tok (elt_held after) + tok (a \<in> {PostIfOk Inuse, Post Inuse, Remove}) =
       tok (elt_held before) + tok (a \<in> {Wait Inuse, TimedCheck Inuse} \<or> (\<exists>x. a = Add x)) \<and>
     tok (locked after) + tok (a = Unlock) = tok (locked before) + tok (a = Lock) \<and>
     (a = Return \<longrightarrow> q = [] \<and> \<not> slot_held before \<and> \<not> elt_held before \<and> \<not> locked before) \<and> (a \<noteq> Return \<longrightarrow> q \<noteq> []) \<and>
     a \<noteq> TimedCheck Avail \<and> (a = Front \<longrightarrow> elt_held before) \<and> (fifo_call a \<longrightarrow> locked before) \<and>
     (a = TimedCheck Inuse \<longrightarrow> \<not> slot_held before \<and> \<not> elt_held before \<and> \<not> locked before))"

lemma pcq_moves: "pcq_prog (a # q) \<Longrightarrow> moves a q"
  unfolding pcq_prog_def pcq_others_def pcq_programs suffixes_of.simps set_append Un_iff list.set insert_iff empty_iff list.inject
  by (elim disjE exE FalseE conjE; hypsubst, simp add: moves_def)

declare slot_held.simps(2,3) [simp del] elt_held.simps(2,3) [simp del] locked.simps(2,3) [simp del]

lemmas pcq_sems = csem_wait_def csem_timedwait_def csem_post_def mutex_lock_def mutex_unlock_def

lemma held_registers:
  "slot_held (Running q st e fr) = slot_held (Running q st' e' fr')" "elt_held (Running q st e fr) = elt_held (Running q st' e' fr')"
  "locked (Running q st e fr) = locked (Running q st' e' fr')"
  by (simp_all add: slot_held.simps elt_held.simps locked.simps)

lemma pcq_effect_exec:
  assumes x: "(s', p') \<in> set (pcq_exec i (pcq_fifo (fst s)) s a q st e fr)" and p: "p = Running (a # q) st e fr" "pcq_point p" and en: "pcq_enabled s p"
  shows "pcq_effect s p s' p' \<and> (p' = Idle \<or> (\<exists>e' fr'. p' = Running q OK e' fr' \<and> (if a = Front then fr' \<noteq> None else fr' = fr)))"
proof -
  obtain c ins outs where s: "s = (c, ins, outs)" by (cases s)
  have st: "st = OK" and pr: "pcq_prog (a # q)" using p by simp_all
  note m = pcq_moves [OF pr, unfolded moves_def Let_def, rule_format, of st e fr]
  note bits = pcq_effect_def pcq_enabled_def pcq_state_ok_def pcqueue_size_def pcqueue_capacity_def
  show ?thesis
  proof (cases a)
    case (Wait r)
    then show ?thesis using x m en unfolding p(1) s st by (cases r) (auto simp: bits pcq_sems split: if_splits)
  next
    case (TimedCheck r)
    then show ?thesis using x m en unfolding p(1) s st by (cases r) (auto simp: bits pcq_sems split: if_splits)
  next
    case Lock
    then show ?thesis using x m en unfolding p(1) s st by (auto simp: bits pcq_sems split: if_splits)
  next
    case Unlock
    then show ?thesis using x m en unfolding p(1) s st by (auto simp: bits pcq_sems split: if_splits)
  next
    case (Add v)
    obtain r f where f: "fifo_add (pcq_fifo c) (Some v) = (r, f)" by fastforce
    have "pcq_state_ok (c, ins, outs)" "pcqueue_size c < pcqueue_capacity c" using en m Add unfolding p(1) s st by (auto simp: pcq_enabled_def)
    note r = add_room [OF this f]
    moreover have "fst s' = c\<lparr>pcq_fifo := f\<rparr>" "s' = (c\<lparr>pcq_fifo := f\<rparr>, ins @ [v], outs)" "p' = Running q OK e fr"
      using x Add f r unfolding s by auto
    ultimately show ?thesis using m en Add unfolding p(1) s st
      by (auto simp: pcq_effect_def pcq_enabled_def pcqueue_size_def pcqueue_capacity_def)
  next
    case Remove
    obtain r v f where f: "fifo_remove (pcq_fifo c) True = (r, v, f)" by (metis prod_cases3)
    have "pcq_state_ok (c, ins, outs)" "0 < pcqueue_size c" using en m Remove unfolding p(1) s st by (auto simp: pcq_enabled_def)
    note r = remove_some [OF this f]
    then obtain y where y: "v = Some y" "pcq_state_ok (c\<lparr>pcq_fifo := f\<rparr>, ins, outs @ [y])" by blast
    have "s' = (c\<lparr>pcq_fifo := f\<rparr>, ins, outs @ [y])" "p' = Running q OK v fr"
      using x Remove f r y(1) unfolding s by auto
    then show ?thesis using m en Remove r y(2) held_registers [of q OK v fr OK e fr] unfolding p(1) s st
      by (auto simp: pcq_effect_def pcq_enabled_def pcqueue_size_def pcqueue_capacity_def)
  next
    case Front
    have "0 < pcqueue_size c" using en m Front unfolding p(1) s st by (auto simp: pcq_enabled_def)
    then show ?thesis using x m en Front front_some [of c] held_registers [of q OK e "fifo_front (pcq_fifo c)" OK e fr]
      unfolding p(1) s st by (auto simp: bits)
  next
    case (PostIfOk r)
    then show ?thesis using x m en unfolding p(1) s st by (cases r) (auto simp: bits pcq_sems split: if_splits)
  next
    case (Post r)
    then show ?thesis using x m en unfolding p(1) s st by (cases r) (auto simp: bits pcq_sems split: if_splits)
  next
    case Return
    then show ?thesis using x m en unfolding p(1) s st by (auto simp: bits)
  qed
qed


lemma pcq_starts:
  "pcq_prog (pcqueue_push x)" "pcq_prog pcqueue_pop" "pcq_prog pcqueue_timedpop" "pcq_prog pcqueue_peek" "pcq_prog pcqueue_timedpeek"
  by (force simp: pcq_prog_def pcqueue_push_def, simp_all add: pcq_prog_def pcq_others_def pcqueue_pop_def pcqueue_timedpop_def
      pcqueue_peek_def pcqueue_timedpeek_def)

lemma starts_hold:
  assumes "p \<in> {pcqueue_push x, pcqueue_pop, pcqueue_timedpop, pcqueue_peek, pcqueue_timedpeek}"
  shows "\<not> slot_held (Running p st e fr) \<and> \<not> elt_held (Running p st e fr) \<and> \<not> locked (Running p st e fr) \<and>
    pcq_prog p \<and> p \<noteq> [Unlock, Post Inuse, Return] \<and> p \<noteq> [Post Inuse, Return]"
  using assms unfolding insert_iff empty_iff
  by (elim disjE FalseE; hypsubst; intro conjI pcq_starts; simp add: pcq_programs slot_held.simps elt_held.simps locked.simps)

lemma pcq_call:
  assumes x: "(s', p') \<in> set (pcq_act xs i s Idle)" and en: "pcq_enabled s Idle"
  shows "pcq_effect s Idle s' p' \<and> pcq_point p' \<and> fresh_read q p'"
proof -
  obtain p v where p: "p' = Running p OK None None" "s' = s" "p \<in> {pcqueue_push v, pcqueue_pop, pcqueue_timedpop, pcqueue_peek, pcqueue_timedpeek}"
    using x by auto
  show ?thesis using starts_hold [OF p(3), of OK None None] en unfolding p(1,2) by (auto simp: pcq_effect_def pcq_enabled_def)
qed

lemma front_before:
  "pcq_prog (a # [Unlock, Post Inuse, Return]) \<Longrightarrow> a = Front" "pcq_prog (a # [Post Inuse, Return]) \<Longrightarrow> a = Unlock"
  by (auto simp: pcq_prog_def pcq_others_def pcq_programs)

lemma pcq_exec_effect:
  assumes x: "(s', p') \<in> set (pcq_exec i (pcq_fifo (fst s)) s a r st e fr)"
    and p: "pcq_point (Running (a # r) st e fr)" and en: "pcq_enabled s (Running (a # r) st e fr)"
  shows "pcq_effect s (Running (a # r) st e fr) s' p' \<and> pcq_point p' \<and> fresh_read q p'"
proof -
  have prog: "pcq_prog (a # r)" "st = OK" using p by simp_all
  have f: "pcq_effect s (Running (a # r) st e fr) s' p'"
      "p' = Idle \<or> (\<exists>e' fr'. p' = Running r OK e' fr' \<and> (if a = Front then fr' \<noteq> None else fr' = fr))"
    using pcq_effect_exec [OF x refl p en] by simp_all
  have "pcq_point p'" if ne: "p' \<noteq> Idle"
  proof -
    obtain e' fr' where p': "p' = Running r OK e' fr'" "if a = Front then fr' \<noteq> None else fr' = fr" using f(2) ne by auto
    have "a \<noteq> Return" using ne x by (cases s) auto
    then have "r \<noteq> []" using pcq_moves [OF prog(1)] by (auto simp: moves_def Let_def)
    then have "pcq_prog r" using pcq_prog_tl [OF prog(1)] by blast
    moreover have "fr' \<noteq> None" if r: "r = [Unlock, Post Inuse, Return] \<or> r = [Post Inuse, Return]"
    proof (cases "a = Front")
      case False
      then have "r = [Post Inuse, Return]" "a = Unlock" using r front_before prog(1) by auto
      then show ?thesis using p' p by simp
    qed (use p'(2) in simp)
    ultimately show ?thesis using p'(1) by auto
  qed
  then show ?thesis using f by (cases "p' = Idle") auto
qed

lemma pcq_act_effect:
  assumes x: "(s', p') \<in> set (pcq_act xs i s p)" and p: "pcq_point p" and fr: "fresh_read (fst s) p" and en: "pcq_enabled s p"
  shows "pcq_effect s p s' p' \<and> pcq_point p' \<and> fresh_read (fst s') p'"
proof (cases p)
  case Idle
  then show ?thesis using pcq_call x en by blast
next
  case (Running q st e fr)
  then obtain a r where q: "q = a # r" using x by (cases q) auto
  show ?thesis
  proof (cases "fifo_call a")
    case True
    then have "s' = s" "p' = InCall (pcq_fifo (fst s)) (a # r) st e fr" using x Running q by auto
    then show ?thesis using p en True unfolding Running q
      by (simp add: pcq_effect_def pcq_enabled_def held_in_call)
  next
    case False
    then have "(s', p') \<in> set (pcq_exec i (pcq_fifo (fst s)) s a r st e fr)" using x Running q by simp
    then show ?thesis using pcq_exec_effect p en unfolding Running q by blast
  qed
next
  case (InCall f q st e fro)
  then obtain a r where q: "q = a # r" "fifo_call a" using p by auto
  have x': "(s', p') \<in> set (pcq_exec i (pcq_fifo (fst s)) s a r st e fro)" using x fr InCall q(1) by simp
  have p': "pcq_point (Running (a # r) st e fro)" using p q(2) unfolding InCall q(1) by auto
  have "pcq_enabled s (Running (a # r) st e fro)" using en unfolding InCall q(1) by (simp add: pcq_enabled_def held_in_call)
  then have "pcq_effect s (Running (a # r) st e fro) s' p' \<and> pcq_point p' \<and> fresh_read (fst s') p'"
    using pcq_exec_effect [OF x' p'] by blast
  then show ?thesis unfolding InCall q(1) by (simp add: pcq_effect_def held_in_call)
qed

text \<open>Only a call in progress changes the FIFO, and its thread holds the mutex.\<close>

lemma pcq_exec_fifo: "(s', p') \<in> set (pcq_exec i f s a r st e fr) \<Longrightarrow> \<not> fifo_call a \<Longrightarrow> pcq_fifo (fst s') = pcq_fifo (fst s)"
proof -
  assume x: "(s', p') \<in> set (pcq_exec i f s a r st e fr)" "\<not> fifo_call a"
  have sem: "(r', q') \<in> set (on_pcq_sem w g q) \<Longrightarrow> pcq_fifo q' = pcq_fifo q" for r' q' w g and q :: "'a pcqueue"
    by (cases w) auto
  obtain q ins outs where s: "s = (q, ins, outs)" by (cases s)
  show ?thesis using x unfolding s by (cases a) (auto split: if_splits dest: sem)
qed

lemma call_locked: "pcq_prog (a # q) \<Longrightarrow> fifo_call a \<Longrightarrow> locked (Running (a # q) st e fr)"
  using pcq_moves [of a q] by (simp add: moves_def Let_def)

lemma in_call_locked: "pcq_point (InCall f p st e fr) \<Longrightarrow> locked (InCall f p st e fr)"
  using call_locked held_in_call by fastforce

lemma pcq_act_fifo:
  assumes "(s', p') \<in> set (pcq_act xs i s p)" and "pcq_point p" and "\<not> locked p"
  shows "pcq_fifo (fst s') = pcq_fifo (fst s)"
proof (cases p)
  case (Running q st e fr)
  then show ?thesis using assms(1) by (cases q) (auto split: if_splits dest: pcq_exec_fifo)
next
  case (InCall f q st e fr)
  then show ?thesis using in_call_locked assms(2,3) by blast
qed (use assms(1) in auto)

subsection \<open>The invariant\<close>

lemma pcq_safe_enabled:
  assumes s: "pcq_safe s ps" and i: "i < length ps"
  shows "pcq_enabled s (ps ! i)" "pcq_point (ps ! i)" "fresh_read (fst s) (ps ! i)"
proof -
  have one: "tok (P (ps ! i)) \<le> num P ps" for P :: "'a pcq_thread \<Rightarrow> bool"
    using num_nth [OF i, of P] by (auto simp: tok_def)
  show "pcq_enabled s (ps ! i)"
    using s one [of slot_held] one [of elt_held] one [of locked] by (auto simp: pcq_safe_def pcq_enabled_def)
  show "pcq_point (ps ! i)" "fresh_read (fst s) (ps ! i)" using s i by (simp_all add: pcq_safe_def)
qed

lemma fresh_reads_stay:
  assumes s: "pcq_safe s ps" and i: "i < length ps" and a: "(s', p') \<in> set (pcq_act xs i s (ps ! i))"
    and j: "j < length ps" "j \<noteq> i"
  shows "fresh_read (fst s') (ps ! j)"
proof (cases "ps ! j")
  case (InCall f p st e fr)
  have "locked (ps ! j)" using in_call_locked pcq_safe_enabled(2) [OF s j(1)] unfolding InCall by blast
  moreover have "num locked ps \<le> 1" using s by (auto simp: pcq_safe_def)
  ultimately have "\<not> locked (ps ! i)" using num_two [OF j(1) i j(2), of locked] by auto
  then have "pcq_fifo (fst s') = pcq_fifo (fst s)" using pcq_act_fifo [OF a] pcq_safe_enabled(2) [OF s i] by blast
  then show ?thesis using pcq_safe_enabled(3) [OF s j(1)] unfolding InCall by simp
qed simp_all

lemma pcq_step_safe:
  assumes s: "pcq_safe s ps" and i: "i < length ps" and a: "(s', p') \<in> set (pcq_act xs i s (ps ! i))"
  shows "pcq_safe s' (ps[i := p'])"
proof -
  have e: "pcq_effect s (ps ! i) s' p'" "pcq_point p'" "fresh_read (fst s') p'"
    using pcq_act_effect [OF a] pcq_safe_enabled [OF s i] by blast+
  have "pcq_point q \<and> fresh_read (fst s') q" if q: "q \<in> set (ps[i := p'])" for q
  proof -
    obtain j where j: "j < length ps" "q = ps[i := p'] ! j" using q by (auto simp: in_set_conv_nth)
    then show ?thesis
      using e(2,3) fresh_reads_stay [OF s i a j(1)] pcq_safe_enabled(2) [OF s j(1)] by (cases "j = i") auto
  qed
  then show ?thesis
    using s e(1) num_tok [OF i, of slot_held p'] num_tok [OF i, of elt_held p'] num_tok [OF i, of locked p']
    by (simp add: pcq_safe_def pcq_effect_def)
qed

definition pcq_starts_at :: "'a pcq_state \<times> 'a pcq_thread list \<Rightarrow> bool" where
  "pcq_starts_at m \<longleftrightarrow> (\<exists>queue_in handle block made p q n. pcqueue_init queue_in handle block made (Some p) = Some q \<and>
     m = ((q, [], []), replicate n Idle) \<and> fp_max_elts p \<le> SEM_VALUE_MAX \<and>
     (if has_flag (fp_flags p) RCSW_NOALLOC_DATA then \<exists>es. fp_elements p = Some es \<and> length es = fp_max_elts p
      else \<exists>es. block = Some es \<and> length es = fp_max_elts p))"

lemma pcqueue_init_fresh:
  assumes "pcqueue_init queue_in handle block made (Some p) = Some q" and "fp_max_elts p \<le> SEM_VALUE_MAX"
    and "if has_flag (fp_flags p) RCSW_NOALLOC_DATA then \<exists>es. fp_elements p = Some es \<and> length es = fp_max_elts p
      else \<exists>es. block = Some es \<and> length es = fp_max_elts p"
  shows "ff_wf (pcq_fifo q)" "ff_content (pcq_fifo q) = []" "fifo_capacity (pcq_fifo q) = fp_max_elts p"
    "cs_value (pcq_avail q) = fp_max_elts p" "cs_value (pcq_inuse q) = 0" "mx_owner (pcq_mutex q) = None"
proof -
  let ?p = "p\<lparr>fp_flags := fp_flags p OR RCSW_NOALLOC_HANDLE\<rparr>"
  have f: "fifo_init (Some ()) None block (Some ?p) = Some (pcq_fifo q)"
    and r: "cs_value (pcq_avail q) = fp_max_elts p" "cs_value (pcq_inuse q) = 0" "mx_owner (pcq_mutex q) = None"
    using assms(1) unfolding pcqueue_init_def
    by (auto simp: csem_init_given assms(2) mutex_init_def bind_eq_Some_conv split: option.splits if_splits)
  have "has_flag (fp_flags ?p) RCSW_NOALLOC_DATA = has_flag (fp_flags p) RCSW_NOALLOC_DATA"
    by (simp add: has_flag_def flag_defs bit.conj_disj_distrib2)
  then show "ff_wf (pcq_fifo q)" "ff_content (pcq_fifo q) = []" "fifo_capacity (pcq_fifo q) = fp_max_elts p"
    using fifo_init_empty [OF f] assms(3) by simp_all
  show "cs_value (pcq_avail q) = fp_max_elts p" "cs_value (pcq_inuse q) = 0" "mx_owner (pcq_mutex q) = None" using r by blast+
qed

lemma pcq_start_safe:
  assumes "pcq_starts_at (s, ps)"
  shows "pcq_safe s ps"
proof -
  obtain queue_in handle block made p q n where i: "pcqueue_init queue_in handle block made (Some p) = Some q"
      "s = (q, [], [])" "ps = replicate n Idle" "fp_max_elts p \<le> SEM_VALUE_MAX"
      "if has_flag (fp_flags p) RCSW_NOALLOC_DATA then \<exists>es. fp_elements p = Some es \<and> length es = fp_max_elts p
       else \<exists>es. block = Some es \<and> length es = fp_max_elts p"
    using assms unfolding pcq_starts_at_def by blast
  note q = pcqueue_init_fresh [OF i(1,4,5)]
  have "pcqueue_size q = 0" using q(2) by (simp add: pcqueue_size_def flip: length_ff_content)
  then show ?thesis unfolding i(2,3) using q i(4) by (simp add: pcq_safe_def pcq_state_ok_def pcqueue_capacity_def)
qed

interpretation pcq: protocol "pcq_act xs" pcq_starts_at pcq_safe for xs
  by unfold_locales (rule pcq_start_safe pcq_step_safe; assumption)+

subsection \<open>Progress\<close>

definition waits :: "pcq_sem \<Rightarrow> 'a pcq_thread \<Rightarrow> bool" where
  "waits r p \<longleftrightarrow> (\<exists>q st e fr. p = Running (Wait r # q) st e fr)"

lemma pcq_blocked:
  assumes "pcq_point p" and "pcq_act xs i s p = []"
  shows "waits Avail p \<and> cs_value (pcq_avail (fst s)) = 0 \<or> waits Inuse p \<and> cs_value (pcq_inuse (fst s)) = 0 \<or>
    mx_owner (pcq_mutex (fst s)) \<noteq> None \<and> \<not> locked p"
proof -
  obtain c ins outs where s: "s = (c, ins, outs)" by (cases s)
  show ?thesis
  proof (cases p)
    case Idle
    then show ?thesis using assms(2) by simp
  next
    case (Running q st e fr)
    have "q \<noteq> []" using assms(1) Running by (auto simp: pcq_prog_def pcq_others_def pcq_programs)
    then obtain a r where q: "q = a # r" by (cases q) auto
    show ?thesis
    proof (cases a)
      case (Wait w)
      then show ?thesis using assms(2) Running q s by (cases w) (auto simp: waits_def csem_wait_def split: if_splits)
    next
      case (TimedCheck w)
      then show ?thesis using assms(2) Running q s by (cases w) (auto simp: csem_timedwait_def)
    next
      case Lock
      then show ?thesis using assms(2) Running q s by (auto simp: mutex_lock_def locked.simps split: if_splits)
    next
      case (PostIfOk w)
      then show ?thesis using assms(2) Running q s by (cases w) (auto simp: csem_post_def split: if_splits)
    next
      case (Post w)
      then show ?thesis using assms(2) Running q s by (cases w) (auto simp: csem_post_def split: if_splits)
    qed (use assms(2) Running q s in \<open>auto simp: mutex_unlock_def split: prod.splits\<close>)
  next
    case (InCall f q st e fr)
    then obtain a r where q: "q = a # r" "fifo_call a" using assms(1) by auto
    then show ?thesis using assms(2) InCall s by (cases a) (auto split: prod.splits)
  qed
qed

lemma waiting_holds:
  assumes "pcq_prog (Wait r # q)"
  shows "\<not> slot_held (Running (Wait r # q) st e fr) \<and> \<not> elt_held (Running (Wait r # q) st e fr) \<and> \<not> locked (Running (Wait r # q) st e fr)"
  using assms unfolding pcq_prog_def pcq_others_def pcq_programs suffixes_of.simps set_append Un_iff list.set insert_iff empty_iff list.inject
  by (elim disjE exE FalseE conjE; hypsubst?; simp add: slot_held.simps elt_held.simps locked.simps)

lemma pcq_progress:
  assumes s: "pcq_safe s ps" and b: "\<And>i. i < length ps \<Longrightarrow> ps ! i \<noteq> Idle \<Longrightarrow> pcq_act xs i s (ps ! i) = []"
    and p: "p \<in> set ps" "p \<noteq> Idle"
  shows "waits Avail p \<and> pcqueue_size (fst s) = pcqueue_capacity (fst s) \<or> waits Inuse p \<and> pcqueue_size (fst s) = 0"
proof -
  have bl: "waits Avail q \<and> cs_value (pcq_avail (fst s)) = 0 \<or> waits Inuse q \<and> cs_value (pcq_inuse (fst s)) = 0 \<or>
      mx_owner (pcq_mutex (fst s)) \<noteq> None \<and> \<not> locked q" if q: "q \<in> set ps" "q \<noteq> Idle" for q
  proof -
    obtain i where i: "i < length ps" "ps ! i = q" using q(1) by (auto simp: in_set_conv_nth)
    have "pcq_point q" using s q(1) by (simp add: pcq_safe_def)
    then show ?thesis using pcq_blocked b [OF i(1)] i(2) q(2) by metis
  qed
  have w: "\<not> slot_held q \<and> \<not> elt_held q \<and> \<not> locked q" if q0: "q \<in> set ps" "waits r q" for q r
  proof -
    obtain p' st e fr where q: "q = Running (Wait r # p') st e fr" using q0(2) by (auto simp: waits_def)
    then have "pcq_prog (Wait r # p')" using s q0(1) by (auto simp: pcq_safe_def)
    then show ?thesis unfolding q by (rule waiting_holds)
  qed
  have free: "mx_owner (pcq_mutex (fst s)) = None"
  proof (rule ccontr)
    assume "mx_owner (pcq_mutex (fst s)) \<noteq> None"
    then have "0 < num locked ps" using s by (auto simp: pcq_safe_def tok_def)
    then obtain q where q: "q \<in> set ps" "locked q" unfolding num_pos by blast
    moreover from q(2) have "q \<noteq> Idle" by (cases q) auto
    ultimately show False using bl [OF q(1)] w [OF q(1)] by blast
  qed
  have none: "\<not> slot_held q \<and> \<not> elt_held q" if q: "q \<in> set ps" for q
    using bl [OF q] w [OF q] free by (cases "q = Idle") auto
  then have "num slot_held ps = 0" "num elt_held ps = 0" by (simp_all add: num_zero)
  then show ?thesis using bl [OF p] free s by (auto simp: pcq_safe_def)
qed

subsection \<open>Properties\<close>

fun in_call :: "'a pcq_thread \<Rightarrow> bool" where
  "in_call (InCall f p st e fr) \<longleftrightarrow> True"
| "in_call _ \<longleftrightarrow> False"

fun call_status :: "'a pcq_thread \<Rightarrow> status" where
  "call_status Idle = OK"
| "call_status (Running p st e fr) = st"
| "call_status (InCall f p st e fr) = st"

lemma in_call_once:
  assumes "pcq_safe s ps"
  shows "num in_call ps \<le> 1"
proof -
  have "locked p" if p: "p \<in> set ps" "in_call p" for p
  proof -
    have "pcq_point p" using p(1) assms by (simp add: pcq_safe_def)
    then show ?thesis using p(2) in_call_locked by (cases p) (simp_all del: pcq_point.simps)
  qed
  then have "num in_call ps \<le> num locked ps" by (rule num_mono)
  then show ?thesis using assms by (auto simp: pcq_safe_def)
qed

text \<open>
  C6: In every interleaving of producers and consumers on a new queue, with or without timeouts,
  what came out so far followed by what the queue holds is what went in, in order: nothing is
  lost, doubled or overtaken, and the queue never holds more than its capacity. At most one
  thread is inside a call of the FIFO, what it has read is up to date, and no such call fails.
\<close>

theorem pcqueue_first_in_first_out:
  assumes "pcq_starts_at m0" and "reachable (pcq_act xs) m0 ((q, ins, outs), ps)"
  shows "ins = outs @ ff_content (pcq_fifo q) \<and> pcqueue_size q \<le> pcqueue_capacity q \<and>
    num in_call ps \<le> 1 \<and> (\<forall>p \<in> set ps. fresh_read q p \<and> call_status p = OK)"
proof -
  have safe: "pcq_safe (q, ins, outs) ps" using pcq.reachable_safe [OF assms(2,1)] by simp
  have "call_status p = OK" if p: "p \<in> set ps" for p
  proof -
    have "pcq_point p" using p safe by (simp add: pcq_safe_def)
    then show ?thesis by (cases p) auto
  qed
  then show ?thesis using safe in_call_once [OF safe] by (auto simp: pcq_safe_def pcq_state_ok_def)
qed

text \<open>
  C8: When no thread that is in an operation can go on, each of them waits for a free slot of a
  queue that is full or for an element of a queue that is empty.
\<close>

theorem pcqueue_blocks_only_at_bounds:
  assumes "pcq_starts_at m0" and "reachable (pcq_act xs) m0 ((q, ins, outs), ps)"
    and "\<And>i. i < length ps \<Longrightarrow> ps ! i \<noteq> Idle \<Longrightarrow> pcq_act xs i (q, ins, outs) (ps ! i) = []" and "p \<in> set ps" and "p \<noteq> Idle"
  shows "waits Avail p \<and> pcqueue_size q = pcqueue_capacity q \<or> waits Inuse p \<and> pcqueue_size q = 0"
  using pcq_progress [OF _ assms(3-5)] pcq.reachable_safe [OF assms(2,1)] by simp

definition some_queue_params :: "int fifo_params" where
  "some_queue_params = \<lparr>fp_elements = None, fp_elt_size = 4, fp_max_elts = 2, fp_flags = 0\<rparr>"

lemma some_queue:
  "\<exists>q. pcqueue_init None (Some ()) (Some [0, 0]) True (Some some_queue_params) = Some q"
  by (simp add: pcqueue_init_def some_queue_params_def csem_init_def SEM_VALUE_MAX_def fifo_init_def rbuffer_init_def mutex_init_def
      rcsw_alloc_def noalloc_def has_flag_def flag_defs Let_def)

lemma some_queue_start:
  "pcqueue_init None (Some ()) (Some [0, 0]) True (Some some_queue_params) = Some q \<Longrightarrow> pcq_starts_at ((q, [], []), [Idle])"
  unfolding pcq_starts_at_def
  by (rule_tac exI [of _ None], rule_tac exI [of _ "Some ()"], rule_tac exI [of _ "Some [0, 0]"], rule_tac exI [of _ True],
      rule_tac exI [of _ some_queue_params], rule_tac exI [of _ q], rule_tac exI [of _ 1])
    (simp add: some_queue_params_def SEM_VALUE_MAX_def has_flag_def)

text \<open>A thread that calls \<open>pcqueue_pop\<close> on the empty queue.\<close>

lemma some_queue_pop:
  "reachable (pcq_act xs) ((q, [], []), [Idle]) ((q, [], []), [Running pcqueue_pop OK None None])"
  using reach_step [OF reach_start, of "pcq_act xs" "((q, [], []), [Idle])"]
    thread_step [of 0 "[Idle]" "(q, [], [])" "Running pcqueue_pop OK None None" "pcq_act xs" "(q, [], [])"] by simp

text \<open>A producer that has just added 5 and still holds the mutex.\<close>

lemma reach_single:
  assumes "reachable act m0 (s, [p])" and "(s', p') \<in> set (act 0 s p)"
  shows "reachable act m0 (s', [p'])"
  using reach_step [OF assms(1), of "(s', [p'])"] thread_step [of 0 "[p]" s' p' act s] assms(2) by simp

lemma some_queue_push:
  assumes "pcqueue_init None (Some ()) (Some [0, 0]) True (Some some_queue_params) = Some q"
  shows "\<exists>q'. reachable (pcq_act [5]) ((q, [], []), [Idle])
      ((q', [5], []), [Running [Unlock, PostIfOk Inuse, Return] OK None None])"
proof -
  note fresh = pcqueue_init_fresh [OF assms]
  have q: "ff_wf (pcq_fifo q)" "ff_content (pcq_fifo q) = []" "fifo_capacity (pcq_fifo q) = 2"
      "cs_value (pcq_avail q) = 2" "mx_owner (pcq_mutex q) = None"
    using fresh by (simp_all add: some_queue_params_def SEM_VALUE_MAX_def has_flag_def)
  let ?act = "pcq_act [5]"
  let ?q1 = "q\<lparr>pcq_avail := (pcq_avail q)\<lparr>cs_value := 1\<rparr>\<rparr>"
  let ?q2 = "?q1\<lparr>pcq_mutex := (pcq_mutex q)\<lparr>mx_owner := Some 0\<rparr>\<rparr>"
  obtain r f where f: "fifo_add (pcq_fifo q) (Some 5) = (r, f)" by fastforce
  have "r = OK" using fifo_add_refines [OF q(1) f] q(2,3) by (simp add: spec_add_def)
  have 1: "reachable ?act ((q, [], []), [Idle]) ((q, [], []), [Running (pcqueue_push 5) OK None None])"
    by (rule reach_single [OF reach_start]) simp
  have 2: "reachable ?act ((q, [], []), [Idle]) ((?q1, [], []), [Running [Lock, Add 5, Unlock, PostIfOk Inuse, Return] OK None None])"
    by (rule reach_single [OF 1]) (simp add: pcqueue_push_def csem_wait_def q(4))
  have 3: "reachable ?act ((q, [], []), [Idle]) ((?q2, [], []), [Running [Add 5, Unlock, PostIfOk Inuse, Return] OK None None])"
    by (rule reach_single [OF 2]) (simp add: mutex_lock_def q(5))
  have 4: "reachable ?act ((q, [], []), [Idle]) ((?q2, [], []), [InCall (pcq_fifo q) [Add 5, Unlock, PostIfOk Inuse, Return] OK None None])"
    by (rule reach_single [OF 3]) simp
  have "reachable ?act ((q, [], []), [Idle]) ((?q2\<lparr>pcq_fifo := f\<rparr>, [5], []), [Running [Unlock, PostIfOk Inuse, Return] OK None None])"
    by (rule reach_single [OF 4]) (use f \<open>r = OK\<close> in simp)
  then show ?thesis by blast
qed

theorem pcqueue_first_in_first_out_witness:
  "\<exists>q q'. pcqueue_init None (Some ()) (Some [0, 0]) True (Some some_queue_params) = Some q \<and>
     reachable (pcq_act [5]) ((q, [], []), [Idle]) ((q', [5], []), [Running [Unlock, PostIfOk Inuse, Return] OK None None]) \<and>
     ff_content (pcq_fifo q') = [5] \<and> pcqueue_size q' \<le> pcqueue_capacity q'"
proof -
  obtain q where q: "pcqueue_init None (Some ()) (Some [0, 0]) True (Some some_queue_params) = Some q" using some_queue by blast
  obtain q' where q': "reachable (pcq_act [5]) ((q, [], []), [Idle])
      ((q', [5], []), [Running [Unlock, PostIfOk Inuse, Return] OK None None])"
    using some_queue_push [OF q] by blast
  have "[5] = [] @ ff_content (pcq_fifo q') \<and> pcqueue_size q' \<le> pcqueue_capacity q'"
    using pcqueue_first_in_first_out [OF some_queue_start [OF q] q'] by blast
  then show ?thesis using q q' by auto
qed

theorem pcqueue_blocks_only_at_bounds_witness:
  "\<exists>q. pcqueue_init None (Some ()) (Some [0, 0]) True (Some some_queue_params) = Some q \<and>
     (waits Avail (Running pcqueue_pop OK None None :: int pcq_thread) \<and> pcqueue_size q = pcqueue_capacity q \<or>
      waits Inuse (Running pcqueue_pop OK None None :: int pcq_thread) \<and> pcqueue_size q = 0)"
proof -
  obtain q where q: "pcqueue_init None (Some ()) (Some [0, 0]) True (Some some_queue_params) = Some q" using some_queue by blast
  have "cs_value (pcq_inuse q) = 0"
    by (rule pcqueue_init_fresh(5) [OF q]) (simp_all add: some_queue_params_def SEM_VALUE_MAX_def has_flag_def)
  then have "pcq_act [] 0 (q, [], []) (Running pcqueue_pop OK None None) = []" by (simp add: pcqueue_pop_def csem_wait_def)
  then show ?thesis using q
      pcqueue_blocks_only_at_bounds [OF some_queue_start [OF q] some_queue_pop [of "[]" q], of "Running pcqueue_pop OK None None"]
    by auto
qed

end
