(* ===== verification/Bsem.thy ===== *)
theory Bsem
  imports Sync
begin

text \<open>
  The binary semaphore of src/multithread/bsem.c, built from a mutex and a condition variable. As
  long as every thread posts only what it has waited for, it is a lock; a post of a semaphore that
  is up leaves the mutex locked for ever.
\<close>

subsection \<open>State and operations\<close>

record bsem =
  bs_mtx :: mutex
  bs_cv :: condv
  bs_val :: nat
  bs_flags :: u32

definition bsem_init :: "unit option \<Rightarrow> unit option \<Rightarrow> bool \<Rightarrow> bool \<Rightarrow> u32 \<Rightarrow> bsem option" where
  "bsem_init sem_in handle mutex_made condv_made flags =
     (case rcsw_alloc id sem_in handle (flags AND RCSW_NOALLOC_HANDLE) of
        Some (Some _) \<Rightarrow> do {
          m \<leftarrow> mutex_init (Some ()) None mutex_made RCSW_NOALLOC_HANDLE;
          c \<leftarrow> condv_init (Some ()) None condv_made RCSW_NOALLOC_HANDLE;
          Some \<lparr>bs_mtx = m, bs_cv = c, bs_val = 1, bs_flags = flags\<rparr>
        }
      | _ \<Rightarrow> None)"

definition bsem_destroy :: "bsem option \<Rightarrow> bool" where
  "bsem_destroy s = (case s of None \<Rightarrow> False | Some b \<Rightarrow> rcsw_free (Some ()) (bs_flags b AND RCSW_NOALLOC_HANDLE))"

text \<open>
  The statements of the operations. \<open>CheckNotUp\<close> goes to the label \<open>error\<close>, which is the return,
  when the value is 1; \<open>WhileDown\<close> runs its body and then itself again while the value is 0.
\<close>

datatype bs_instr =
    Lock
  | Unlock
  | CheckNotUp
  | WhileDown "bs_instr list"
  | CvBegin
  | CvEnd
  | CvTimedEnd
  | Inc
  | Dec
  | Signal
  | Broadcast
  | Return status

definition bsem_post :: "bs_instr list" where
  "bsem_post = [Lock, CheckNotUp, Inc, Signal, Unlock, Return (ERROR None)]"

definition bsem_timedwait :: "bs_instr list" where
  "bsem_timedwait = [Lock, WhileDown [CvBegin, CvTimedEnd], Dec, Unlock, Return OK]"

definition bsem_wait :: "bs_instr list" where
  "bsem_wait = [Lock, WhileDown [CvBegin, CvEnd], Dec, Unlock, Return OK]"

definition bsem_flush :: "bs_instr list" where
  "bsem_flush = [Lock, CheckNotUp, Inc, Broadcast, Unlock, Return OK]"

subsection \<open>Execution\<close>

fun bs_exec :: "nat \<Rightarrow> bsem \<Rightarrow> bs_instr \<Rightarrow> bs_instr list \<Rightarrow> (bsem \<times> bs_instr list) list" where
  "bs_exec i b Lock p = map (\<lambda>(_, m). (b\<lparr>bs_mtx := m\<rparr>, p)) (mutex_lock i (bs_mtx b))"
| "bs_exec i b Unlock p = map (\<lambda>(_, m). (b\<lparr>bs_mtx := m\<rparr>, p)) (mutex_unlock (bs_mtx b))"
| "bs_exec i b CheckNotUp p = [(b, if bs_val b = 1 then [Return (ERROR None)] else p)]"
| "bs_exec i b (WhileDown q) p = [(b, if bs_val b = 0 then q @ WhileDown q # p else p)]"
| "bs_exec i b CvBegin p = map (\<lambda>(c, m). (b\<lparr>bs_cv := c, bs_mtx := m\<rparr>, p)) (condv_wait_begin i (bs_cv b, bs_mtx b))"
| "bs_exec i b CvEnd p = map (\<lambda>(_, c, m). (b\<lparr>bs_cv := c, bs_mtx := m\<rparr>, p)) (condv_wait_end i (bs_cv b, bs_mtx b))"
| "bs_exec i b CvTimedEnd p = map (\<lambda>(_, c, m). (b\<lparr>bs_cv := c, bs_mtx := m\<rparr>, p)) (condv_timedwait_end i (bs_cv b, bs_mtx b))"
| "bs_exec i b Inc p = [(b\<lparr>bs_val := bs_val b + 1\<rparr>, p)]"
| "bs_exec i b Dec p = [(b\<lparr>bs_val := size_pred (bs_val b)\<rparr>, p)]"
| "bs_exec i b Signal p = map (\<lambda>(_, c). (b\<lparr>bs_cv := c\<rparr>, p)) (condv_signal (bs_cv b))"
| "bs_exec i b Broadcast p = map (\<lambda>(_, c). (b\<lparr>bs_cv := c\<rparr>, p)) (condv_broadcast (bs_cv b))"
| "bs_exec i b (Return st) p = []"

text \<open>A client that uses the semaphore as a lock: it waits, is inside, and posts.\<close>

datatype bs_thread = Out | Acquiring "bs_instr list" | Within | Releasing "bs_instr list"

fun bs_act :: "nat \<Rightarrow> bsem \<Rightarrow> bs_thread \<Rightarrow> (bsem \<times> bs_thread) list" where
  "bs_act i b Out = [(b, Acquiring bsem_wait), (b, Acquiring bsem_timedwait)]"
| "bs_act i b Within = [(b, Releasing bsem_post)]"
| "bs_act i b (Acquiring (Return st # p)) = [(b, if st = OK then Within else Out)]"
| "bs_act i b (Releasing (Return st # p)) = [(b, Out)]"
| "bs_act i b (Acquiring (a # p)) = map (\<lambda>(b', q). (b', Acquiring q)) (bs_exec i b a p)"
| "bs_act i b (Releasing (a # p)) = map (\<lambda>(b', q). (b', Releasing q)) (bs_exec i b a p)"
| "bs_act i b (Acquiring []) = []"
| "bs_act i b (Releasing []) = []"

subsection \<open>The points of the programs\<close>

definition bs_loop :: "bs_instr \<Rightarrow> bs_instr list list" where
  "bs_loop w = (let l = WhileDown [CvBegin, w] # [Dec, Unlock, Return OK] in
     [Lock # l, l, [CvBegin, w] @ l, w # l, [Dec, Unlock, Return OK], [Unlock, Return OK], [Return OK]])"

definition bs_releasing :: "bs_instr list list" where
  "bs_releasing = [bsem_post, [CheckNotUp, Inc, Signal, Unlock, Return (ERROR None)], [Inc, Signal, Unlock, Return (ERROR None)],
     [Signal, Unlock, Return (ERROR None)], [Unlock, Return (ERROR None)], [Return (ERROR None)]]"

fun bs_point :: "bs_thread \<Rightarrow> bool" where
  "bs_point (Acquiring p) \<longleftrightarrow> p \<in> set (bs_loop CvEnd) \<or> p \<in> set (bs_loop CvTimedEnd)"
| "bs_point (Releasing p) \<longleftrightarrow> p \<in> set bs_releasing"
| "bs_point p \<longleftrightarrow> True"

lemmas bs_points = bs_loop_def bs_releasing_def bsem_post_def bsem_wait_def bsem_timedwait_def Let_def

text \<open>A thread has the mutex, or the semaphore: it has counted it down and not up again.\<close>

fun has_mutex :: "bs_thread \<Rightarrow> bool" where
  "has_mutex (Acquiring p) \<longleftrightarrow> (case p of WhileDown _ # _ \<Rightarrow> True | CvBegin # _ \<Rightarrow> True | Dec # _ \<Rightarrow> True | Unlock # _ \<Rightarrow> True | _ \<Rightarrow> False)"
| "has_mutex (Releasing p) \<longleftrightarrow> Unlock \<in> set p \<and> Lock \<notin> set p"
| "has_mutex p \<longleftrightarrow> False"

fun has_sem :: "bs_thread \<Rightarrow> bool" where
  "has_sem (Acquiring p) \<longleftrightarrow> Dec \<notin> set p"
| "has_sem Within \<longleftrightarrow> True"
| "has_sem (Releasing p) \<longleftrightarrow> Inc \<in> set p"
| "has_sem Out \<longleftrightarrow> False"

fun counts_down :: "bs_thread \<Rightarrow> bool" where
  "counts_down (Acquiring p) \<longleftrightarrow> (\<exists>q. p = Dec # q)"
| "counts_down p \<longleftrightarrow> False"

definition bs_safe :: "bsem \<Rightarrow> bs_thread list \<Rightarrow> bool" where
  "bs_safe b ps \<longleftrightarrow> (\<forall>p \<in> set ps. bs_point p) \<and> tok (mx_owner (bs_mtx b) = None) + num has_mutex ps = 1 \<and>
     bs_val b + num has_sem ps = 1 \<and> (0 < num counts_down ps \<longrightarrow> bs_val b = 1)"

definition bs_effect :: "bsem \<Rightarrow> bs_thread \<Rightarrow> bsem \<Rightarrow> bs_thread \<Rightarrow> bool" where
  "bs_effect b p b' p' \<longleftrightarrow> bs_point p' \<and>
     tok (mx_owner (bs_mtx b') = None) + tok (has_mutex p') = tok (mx_owner (bs_mtx b) = None) + tok (has_mutex p) \<and>
     bs_val b' + tok (has_sem p') = bs_val b + tok (has_sem p) \<and> (counts_down p' \<longrightarrow> bs_val b' = 1) \<and>
     (bs_val b' \<noteq> bs_val b \<longrightarrow> has_mutex p)"

lemma acquiring_effect:
  assumes "(b', p') \<in> set (bs_act i b (Acquiring p))" and "p \<in> set (bs_loop w)" and "w = CvEnd \<or> w = CvTimedEnd"
    and "bs_val b \<le> 1" and "counts_down (Acquiring p) \<longrightarrow> bs_val b = 1"
    and "has_mutex (Acquiring p) \<longrightarrow> mx_owner (bs_mtx b) \<noteq> None"
  shows "bs_effect b (Acquiring p) b' p'"
  using assms(2) unfolding bs_loop_def Let_def append.simps list.set insert_iff empty_iff
  by (elim disjE FalseE; use assms(1,3-6) in \<open>hypsubst, auto simp: bs_points bs_effect_def mutex_lock_def mutex_unlock_def
      condv_wait_begin_def condv_wait_end_def condv_timedwait_end_def size_pred_def split: if_splits\<close>)

lemma releasing_effect:
  assumes "(b', p') \<in> set (bs_act i b (Releasing p))" and "p \<in> set bs_releasing"
    and "has_sem (Releasing p) \<longrightarrow> bs_val b = 0" and "has_mutex (Releasing p) \<longrightarrow> mx_owner (bs_mtx b) \<noteq> None"
  shows "bs_effect b (Releasing p) b' p'"
  using assms(2) unfolding bs_releasing_def list.set insert_iff empty_iff
  by (elim disjE FalseE; use assms(1,3,4) in \<open>hypsubst, auto simp: bs_points bs_effect_def mutex_lock_def mutex_unlock_def
      condv_signal_def split: if_splits\<close>)

subsection \<open>The invariant\<close>

lemma counts_down_mutex: "bs_point p \<Longrightarrow> counts_down p \<Longrightarrow> has_mutex p"
  by (cases p) auto

lemma bs_step_safe:
  assumes s: "bs_safe b ps" and i: "i < length ps" and a: "(b', p') \<in> set (bs_act i b (ps ! i))"
  shows "bs_safe b' (ps[i := p'])"
proof -
  let ?p = "ps ! i"
  note sd = s [unfolded bs_safe_def]
  have pt: "bs_point ?p" using s i by (simp add: bs_safe_def)
  have n: "0 < num P ps" if "P ?p" for P using num_nth [of i ps P] i that by simp
  have val: "bs_val b \<le> 1" "counts_down ?p \<longrightarrow> bs_val b = 1" "has_sem ?p \<longrightarrow> bs_val b = 0" "has_mutex ?p \<longrightarrow> mx_owner (bs_mtx b) \<noteq> None"
    using sd n [of counts_down] n [of has_sem] n [of has_mutex] by (auto simp: tok_def split: if_splits)
  have e: "bs_effect b ?p b' p'"
  proof (cases ?p)
    case Out
    then show ?thesis using a by (auto simp: bs_effect_def bs_points)
  next
    case (Acquiring q)
    then show ?thesis using acquiring_effect [of b' p' i b q CvEnd] acquiring_effect [of b' p' i b q CvTimedEnd] a pt val by auto
  next
    case Within
    then show ?thesis using a by (auto simp: bs_effect_def bs_points)
  next
    case (Releasing q)
    then show ?thesis using releasing_effect a pt val by auto
  qed
  note ed = e [unfolded bs_effect_def]
  have "\<forall>q \<in> set (ps[i := p']). bs_point q" using sd ed set_update_subset_insert [of ps i p'] by auto
  moreover have "tok (mx_owner (bs_mtx b') = None) + num has_mutex (ps[i := p']) = 1"
    using sd ed num_tok [OF i, of has_mutex p'] by linarith
  moreover have "bs_val b' + num has_sem (ps[i := p']) = 1" using sd ed num_tok [OF i, of has_sem p'] by linarith
  moreover have "bs_val b' = 1" if c: "0 < num counts_down (ps[i := p'])"
  proof (cases "has_mutex ?p")
    case True
    have "num has_mutex ps \<le> 1" using sd by simp
    then have "num counts_down ps = (if counts_down ?p then 1 else 0)"
      using num_unique [of has_mutex ps i counts_down] i True counts_down_mutex sd by blast
    then have "counts_down p'" using c num_tok [OF i, of counts_down p'] by (auto simp: tok_def split: if_splits)
    then show ?thesis using ed by blast
  next
    case False
    then have "bs_val b' = bs_val b" using ed by blast
    moreover have "0 < num counts_down ps \<or> counts_down p'"
      using c num_tok [OF i, of counts_down p'] by (auto simp: tok_def split: if_splits)
    ultimately show ?thesis using sd ed by auto
  qed
  ultimately show ?thesis by (simp add: bs_safe_def)
qed

definition bs_starts :: "bsem \<times> bs_thread list \<Rightarrow> bool" where
  "bs_starts m \<longleftrightarrow> (\<exists>sem_in handle made1 made2 flags n. bsem_init sem_in handle made1 made2 flags = Some (fst m) \<and> snd m = replicate n Out)"

lemma bsem_init_fields: "bsem_init sem_in handle made1 made2 flags = Some b \<Longrightarrow> mx_owner (bs_mtx b) = None \<and> bs_val b = 1"
  by (auto simp: bsem_init_def mutex_init_def bind_eq_Some_conv split: option.splits if_splits)

lemma bs_start_safe:
  assumes "bs_starts (b, ps)"
  shows "bs_safe b ps"
proof -
  obtain sem_in handle made1 made2 flags n where i: "bsem_init sem_in handle made1 made2 flags = Some b" and ps: "ps = replicate n Out"
    using assms unfolding bs_starts_def by auto
  have "num P ps = 0" if "\<not> P Out" for P using that ps by simp
  then have "num has_mutex ps = 0" "num has_sem ps = 0" "num counts_down ps = 0" by simp_all
  moreover have "\<forall>p \<in> set ps. bs_point p" using ps by auto
  ultimately show ?thesis using bsem_init_fields [OF i] unfolding bs_safe_def by simp
qed

interpretation bs: protocol bs_act bs_starts bs_safe
  by unfold_locales (rule bs_start_safe bs_step_safe; assumption)+

subsection \<open>Properties\<close>

text \<open>
  C9: Used as a lock (every thread waits before it posts), the binary semaphore lets at most one
  thread in, whatever the interleaving, the wake-ups and the timeouts, and its value stays 0 or 1.
\<close>

theorem bsem_mutual_exclusion:
  assumes "bs_starts m0" and "reachable bs_act m0 (b, ps)"
  shows "num (\<lambda>p. p = Within) ps \<le> 1 \<and> bs_val b \<le> 1"
proof -
  have "num (\<lambda>p. p = Within) ps \<le> num has_sem ps" by (rule num_mono) simp
  then show ?thesis using bs.reachable_safe [OF assms(2,1)] by (auto simp: bs_safe_def)
qed

text \<open>
  C40: A post of a semaphore that is up returns an error with the mutex still locked: no thread can
  take the first step of any operation afterwards.
\<close>

theorem bsem_post_up_jams:
  assumes "mx_owner (bs_mtx b) = None" and "bs_val b = 1"
  shows "\<exists>b1. bs_exec i b (hd bsem_post) (tl bsem_post) = [(b1, tl bsem_post)] \<and>
    bs_exec i b1 (hd (tl bsem_post)) (tl (tl bsem_post)) = [(b1, [Return (ERROR None)])] \<and>
    (\<forall>j. \<forall>p \<in> {bsem_post, bsem_wait, bsem_timedwait, bsem_flush}. bs_exec j b1 (hd p) (tl p) = [])"
  using assms by (simp add: bsem_post_def bsem_wait_def bsem_timedwait_def bsem_flush_def mutex_lock_def)

definition some_bsem :: bsem where
  "some_bsem = \<lparr>bs_mtx = \<lparr>mx_owner = None, mx_flags = RCSW_NOALLOC_HANDLE\<rparr>, bs_cv = \<lparr>cv_waiting = [], cv_flags = RCSW_NOALLOC_HANDLE\<rparr>,
     bs_val = 1, bs_flags = 0\<rparr>"

lemma some_bsem_start: "bs_starts (some_bsem, [Out, Out])"
proof -
  have "bsem_init None (Some ()) True True 0 = Some some_bsem"
    by (simp add: bsem_init_def some_bsem_def mutex_init_def condv_init_def rcsw_alloc_def noalloc_def has_flag_def flag_defs)
  moreover have "[Out, Out] = replicate 2 Out" by (simp add: numeral_2_eq_2)
  ultimately show ?thesis unfolding bs_starts_def
    by (rule_tac exI [of _ None], rule_tac exI [of _ "Some ()"], rule_tac exI [of _ True], rule_tac exI [of _ True],
        rule_tac exI [of _ 0], rule_tac exI [of _ 2]) simp
qed

theorem bsem_mutual_exclusion_witness:
  "num (\<lambda>p. p = Within) [Acquiring bsem_wait, Out] \<le> 1 \<and> bs_val some_bsem \<le> 1"
proof -
  have "sys_step bs_act (some_bsem, [Out, Out]) (some_bsem, [Acquiring bsem_wait, Out])"
    using thread_step [of 0 "[Out, Out]" some_bsem "Acquiring bsem_wait" bs_act some_bsem] by simp
  then show ?thesis using bsem_mutual_exclusion [OF some_bsem_start reach_step [OF reach_start]] by blast
qed

theorem bsem_post_up_jams_witness:
  "\<exists>b1. bs_exec 0 some_bsem (hd bsem_post) (tl bsem_post) = [(b1, tl bsem_post)] \<and>
    bs_exec 0 b1 (hd (tl bsem_post)) (tl (tl bsem_post)) = [(b1, [Return (ERROR None)])] \<and>
    (\<forall>j. \<forall>p \<in> {bsem_post, bsem_wait, bsem_timedwait, bsem_flush}. bs_exec j b1 (hd p) (tl p) = [])"
  by (rule bsem_post_up_jams) (simp_all add: some_bsem_def)

end
