(* ===== verification/Ptr_List.thy ===== *)
theory Ptr_List
  imports Llist_Correct
begin

text \<open>
  Linked lists of pointers (\<open>RCSW_DS_LLIST_DB_PTR\<close>) with their nodes in application memory: the
  list keeps the addresses it is given, finds them by address, and never fails below its capacity.
\<close>

definition ptr_list_ok :: "'a llist \<Rightarrow> 'a lheap \<Rightarrow> nat list \<Rightarrow> nat list \<Rightarrow> bool" where
  "ptr_list_ok l H as ds \<longleftrightarrow>
     list_rep (ll_first l) (ll_last l) (hp_nodes H) as \<and> ll_current l = length as \<and>
     has_flag (ll_flags l) RCSW_DS_LLIST_DB_PTR \<and> has_flag (ll_flags l) RCSW_NOALLOC_META \<and>
     \<not> has_flag (ll_flags l) RCSW_DS_SORTED \<and> chain_data (hp_nodes H) as ds \<and>
     node_space l H (set as) \<and> limited l \<and> length as \<le> cap l"

lemma ptr_list_length: "ptr_list_ok l H as ds \<Longrightarrow> length ds = length as"
  unfolding ptr_list_ok_def by (metis chain_data_length)

lemma node_take:
  assumes sp: "node_space l H A" and f: "has_flag (ll_flags l) RCSW_NOALLOC_META" and room: "card A < cap l" "ll_current l < cap l"
  shows "\<exists>a l'. llist_node_alloc env l H = Some (Some a, l', H) \<and> a \<notin> A \<and> a \<in> dom (hp_nodes H) \<and>
    same_handle l l' \<and> node_space l' H (insert a A)"
proof -
  let ?sp = "ll_space l"
  have pool: "pool_ok (sp_node_map ?sp) (sp_nodes ?sp) (cap l) A"
    "region (sp_nodes ?sp) (cap l) \<subseteq> dom (hp_nodes H)" "A \<subseteq> dom (hp_nodes H)"
    using sp f by (auto simp: node_space_def)
  obtain i m' where i: "allocm_probe (sp_node_map ?sp) (cap l) (ll_current l) = Some (int i)" "i < cap l"
      "sp_nodes ?sp + i \<notin> A" "allocm_mark_inuse (sp_node_map ?sp) (int i) = Some m'"
      "pool_ok m' (sp_nodes ?sp) (cap l) (insert (sp_nodes ?sp + i) A)"
    using pool_take [OF pool(1) room] by blast
  let ?l = "l\<lparr>ll_space := ?sp\<lparr>sp_node_map := m'\<rparr>\<rparr>" and ?a = "sp_nodes ?sp + i"
  have "llist_node_alloc env l H = Some (Some ?a, ?l, H)"
    using i(1,4) f by (simp add: llist_node_alloc_def Let_def cap_def)
  moreover have "?a \<in> region (sp_nodes ?sp) (cap l)" using i(2) by (simp add: region_def)
  then have dm: "?a \<in> dom (hp_nodes H)" using pool(2) by blast
  moreover from dm have "node_space ?l H (insert ?a A)"
    using pool i(5) f by (auto simp: node_space_def cap_def)
  moreover have "same_handle l ?l" by (simp add: same_handle_def)
  ultimately show ?thesis using i(3) dm by (rule_tac exI [of _ ?a], rule_tac exI [of _ ?l]) simp
qed

lemma ptr_append:
  assumes ok: "ptr_list_ok l H as ds" and room: "length as < cap l"
  shows "\<exists>a l' H'. llist_append env l (Some d) H = Some (OK, l', H') \<and> ptr_list_ok l' H' (as @ [a]) (ds @ [d]) \<and> cap l' = cap l"
proof -
  have o: "list_rep (ll_first l) (ll_last l) (hp_nodes H) as" "ll_current l = length as"
      "has_flag (ll_flags l) RCSW_DS_LLIST_DB_PTR" "has_flag (ll_flags l) RCSW_NOALLOC_META"
      "\<not> has_flag (ll_flags l) RCSW_DS_SORTED" "chain_data (hp_nodes H) as ds" "node_space l H (set as)" "limited l"
    using ok by (simp_all add: ptr_list_ok_def)
  have "distinct as" using o(1) by (simp add: list_rep_def)
  then have "card (set as) < cap l" "ll_current l < cap l" using room o(2) by (simp_all add: distinct_card)
  then obtain a l1 where a: "llist_node_alloc env l H = Some (Some a, l1, H)" "a \<notin> set as" "a \<in> dom (hp_nodes H)"
      "same_handle l l1" "node_space l1 H (insert a (set as))"
    using node_take [OF o(7,4)] by blast
  note sh = same_handleD [OF a(4)]
  obtain nd where nd: "hp_nodes H a = Some nd" using a(3) by blast
  let ?ns = "(hp_nodes H)(a \<mapsto> nd\<lparr>nd_data := Some d\<rparr>)"
  have cr: "llist_node_create env l (Some d) H = Some (Some a, l1, H\<lparr>hp_nodes := ?ns\<rparr>)"
    using a(1) sh o(3) nd by (simp add: llist_node_create_def owns_data_def set_data_ok)
  have rep: "list_rep (ll_first l1) (ll_last l1) ?ns as"
    using list_rep_same_but [OF o(1) _ a(2), of ?ns] sh by (simp add: same_but_def)
  obtain f ns' where lk: "link_last l1 a ?ns = Some (l1\<lparr>ll_first := f, ll_last := Some a\<rparr>, ns')" "list_rep f (Some a) ns' (as @ [a])"
      "relinked (set (as @ [a])) ?ns ns'"
    using link_last_ok [OF rep a(2), of "nd\<lparr>nd_data := Some d\<rparr>"] by auto
  let ?l = "l1\<lparr>ll_first := f, ll_last := Some a, ll_current := ll_current l1 + 1\<rparr>" and ?H = "H\<lparr>hp_nodes := ns'\<rparr>"
  have "\<not> (llist_isfull l \<and> ll_max_elts l \<noteq> -1)" using room o(2) by (simp add: llist_isfull_def cap_def)
  then have "llist_append env l (Some d) H = Some (OK, ?l, ?H)"
    using cr lk(1) sh o(5) by (simp add: llist_append_def llist_insert_def Let_def)
  moreover have dat: "map_option nd_data (ns' x) = map_option nd_data (?ns x)" for x
    using lk(3) by (simp add: relinked_def same_data_def)
  have "chain_data ns' as ds" using o(6) dat a(2) by (subst chain_data_cong) auto
  moreover have "chain_data ns' [a] [d]" using dat [of a] by (simp add: chain_data_def)
  ultimately have "chain_data ns' (as @ [a]) (ds @ [d])"
    using chain_data_append [of as ds] ptr_list_length [OF ok] by simp
  moreover have "dom ns' = dom (hp_nodes H)" using relinked_dom [OF lk(3)] nd by auto
  then have "node_space ?l ?H (set (as @ [a]))" using a(5) by (simp add: node_space_def cap_def)
  ultimately have "ptr_list_ok ?l ?H (as @ [a]) (ds @ [d])"
    using lk(2) o sh room by (simp add: ptr_list_ok_def limited_def cap_def)
  then show ?thesis using \<open>llist_append env l (Some d) H = Some (OK, ?l, ?H)\<close> sh by (auto simp: cap_def)
qed

lemma ptr_query_loop:
  assumes "lseg (hp_nodes H) p as None" and "chain_data (hp_nodes H) as ds" and "has_flag (ll_flags l) RCSW_DS_LLIST_DB_PTR"
  shows "while_loop (query_cond l H d) (next_node H) p = Some (map_option fst (find (\<lambda>(a, e). e = d) (zip as ds)))"
  using assms(1,2)
proof (induction as arbitrary: p ds)
  case Nil
  then show ?case by (subst while_loop.simps) (simp add: query_cond_def)
next
  case (Cons a as)
  obtain e es where ds: "ds = e # es" using Cons.prems(2) by (cases ds) (auto simp: chain_data_def)
  obtain nd where nd: "p = Some a" "hp_nodes H a = Some nd" "lseg (hp_nodes H) (nd_next nd) as None"
    using Cons.prems(1) by (auto split: option.splits)
  have e: "nd_data nd = Some e" "chain_data (hp_nodes H) as es" using Cons.prems(2) nd(2) ds by (simp_all add: chain_data_def)
  note ih = Cons.IH [OF nd(3) e(2)]
  have "node_match l H d a = Some (e = d)" using e(1) nd assms(3) by (simp add: node_match_def)
  then have "query_cond l H d p = Some (e \<noteq> d)" "next_node H p = Some (nd_next nd)"
    using nd by (simp_all add: query_cond_def next_node_def)
  then show ?case using nd ds ih by (subst while_loop.simps) simp
qed

lemma find_zip_ptr:
  assumes "length as = length ds" and "d \<in> set ds"
  shows "\<exists>us v ws es fs. as = us @ v # ws \<and> ds = es @ d # fs \<and> length es = length us \<and> d \<notin> set es \<and>
    find (\<lambda>(a, e). e = d) (zip as ds) = Some (v, d)"
  using assms
proof (induction as ds rule: list_induct2)
  case (Cons a as x xs)
  show ?case
  proof (cases "x = d")
    case True
    then show ?thesis
      by (rule_tac exI [of _ "[]"], rule_tac exI [of _ a], rule_tac exI [of _ as], rule_tac exI [of _ "[]"], rule_tac exI [of _ xs]) simp
  next
    case False
    then obtain us v ws es fs where "as = us @ v # ws" "xs = es @ d # fs" "length es = length us" "d \<notin> set es"
        "find (\<lambda>(a, e). e = d) (zip as xs) = Some (v, d)" using Cons by auto
    then show ?thesis using False
      by (rule_tac exI [of _ "a # us"], rule_tac exI [of _ v], rule_tac exI [of _ ws], rule_tac exI [of _ "x # es"], rule_tac exI [of _ fs]) simp
  qed
qed simp

lemma ptr_delete:
  assumes ok: "ptr_list_ok l H (us @ v # ws) (es @ d # fs)" and len: "length es = length us"
  shows "\<exists>l' H'. llist_delete l v False H = Some (OK, None, l', H') \<and> ptr_list_ok l' H' (us @ ws) (es @ fs) \<and> cap l' = cap l"
proof -
  have o: "list_rep (ll_first l) (ll_last l) (hp_nodes H) (us @ v # ws)" "ll_current l = length (us @ v # ws)"
      "has_flag (ll_flags l) RCSW_DS_LLIST_DB_PTR" "has_flag (ll_flags l) RCSW_NOALLOC_META"
      "\<not> has_flag (ll_flags l) RCSW_DS_SORTED" "chain_data (hp_nodes H) (us @ v # ws) (es @ d # fs)"
      "node_space l H (set (us @ v # ws))" "limited l" "length (us @ v # ws) \<le> cap l"
    using ok by (simp_all add: ptr_list_ok_def)
  have da: "distinct (us @ v # ws)" using o(1) by (simp add: list_rep_def)
  obtain f t ns1 where un: "llist_unlink l v (hp_nodes H) = Some (l\<lparr>ll_first := f, ll_last := t\<rparr>, ns1)"
      "list_rep f t ns1 (us @ ws)" "relinked (set (us @ ws)) (hp_nodes H) ns1"
    using unlink_ok [OF o(1)] by blast
  let ?l1 = "l\<lparr>ll_first := f, ll_last := t, ll_current := length (us @ ws)\<rparr>" and ?H1 = "H\<lparr>hp_nodes := ns1\<rparr>"
  have dat: "map_option nd_data (ns1 y) = map_option nd_data (hp_nodes H y)" for y
    using un(3) by (simp add: relinked_def same_data_def)
  have cdv: "map_option nd_data (hp_nodes H v) = Some (Some d)" "chain_data (hp_nodes H) (us @ ws) (es @ fs)"
    using o(6) len by (auto simp: chain_data_def)
  obtain vd where vd: "ns1 v = Some vd" "nd_data vd = Some d" using cdv(1) dat [of v] by (cases "ns1 v") auto
  have "node_space ?l1 ?H1 (set (us @ v # ws))"
    using o(7) relinked_dom [OF un(3)] by (simp add: node_space_def cap_def)
  then obtain l' ns' where de: "llist_node_dealloc ?l1 v ?H1 = Some (l', ?H1\<lparr>hp_nodes := ns'\<rparr>)" "same_handle ?l1 l'"
      "same_but v (hp_nodes ?H1) ns'" "node_space l' (?H1\<lparr>hp_nodes := ns'\<rparr>) (set (us @ v # ws) - {v})"
    using node_dealloc_ok [of ?l1 ?H1 "set (us @ v # ws)" v] by auto
  note sh = same_handleD [OF de(2)]
  have "llist_node_destroy ?l1 (Some v) ?H1 = Some (l', ?H1\<lparr>hp_nodes := ns'\<rparr>)"
    using de(1) vd o(3) by (simp add: llist_node_destroy_def llist_node_datablock_dealloc_def owns_data_def)
  then have "llist_delete l v False H = Some (OK, None, l', ?H1\<lparr>hp_nodes := ns'\<rparr>)"
    using un(1) o(2) vd by (simp add: llist_delete_def dec_size_def Let_def)
  moreover have nv: "v \<notin> set (us @ ws)" using da by auto
  have "list_rep f t ns' (us @ ws)" by (rule list_rep_same_but [OF un(2) _ nv]) (use de(3) in simp)
  moreover have "map_option nd_data (ns' y) = map_option nd_data (hp_nodes H y)" if "y \<in> set (us @ ws)" for y
  proof -
    have "y \<noteq> v" using that nv by blast
    then show ?thesis using de(3) dat [of y] by (simp add: same_but_def)
  qed
  then have "chain_data ns' (us @ ws) (es @ fs)" using cdv(2) chain_data_cong by blast
  moreover have "set (us @ v # ws) - {v} = set (us @ ws)" using da by auto
  ultimately have "ptr_list_ok l' (?H1\<lparr>hp_nodes := ns'\<rparr>) (us @ ws) (es @ fs)"
    using de(4) sh o by (simp add: ptr_list_ok_def limited_def cap_def)
  then show ?thesis using \<open>llist_delete l v False H = Some (OK, None, l', ?H1\<lparr>hp_nodes := ns'\<rparr>)\<close> sh by (auto simp: cap_def)
qed

lemma ptr_remove:
  assumes ok: "ptr_list_ok l H as ds" and d: "d \<in> set ds"
  shows "\<exists>as' l' H'. llist_remove l (Some d) H = Some (OK, l', H') \<and> ptr_list_ok l' H' as' (remove1 d ds) \<and> cap l' = cap l"
proof -
  have len: "length as = length ds" using ptr_list_length [OF ok] by simp
  obtain us v ws es fs where s: "as = us @ v # ws" "ds = es @ d # fs" "length es = length us" "d \<notin> set es"
      "find (\<lambda>(a, e). e = d) (zip as ds) = Some (v, d)" using find_zip_ptr [OF len d] by blast
  have o: "lseg (hp_nodes H) (ll_first l) as None" "chain_data (hp_nodes H) as ds" "has_flag (ll_flags l) RCSW_DS_LLIST_DB_PTR"
      "ll_current l = length as" using ok by (simp_all add: ptr_list_ok_def list_rep_def)
  have "llist_node_query l (Some d) H = Some (Some v)"
    using ptr_query_loop [OF o(1-3), of d] s(5) o(3) by (simp add: llist_node_query_def)
  moreover have "\<not> llist_isempty l" using o(4) s(1) by (simp add: llist_isempty_def)
  moreover obtain l' H' where "llist_delete l v False H = Some (OK, None, l', H')" "ptr_list_ok l' H' (us @ ws) (es @ fs)" "cap l' = cap l"
    using ptr_delete [OF ok [unfolded s(1,2)] s(3)] by blast
  moreover have "remove1 d ds = es @ fs" using s(2,4) by (simp add: remove1_append)
  ultimately show ?thesis by (auto simp: llist_remove_def)
qed

end
