(* ===== verification/Mpool.thy ===== *)
theory Mpool
  imports Sync Ptr_List "HOL-Library.Signed_Division"
begin

text \<open>
  The memory pool of src/multithread/mpool.c: chunks of one block of memory, each on the list of
  free or on the list of used chunks, with reference counts and a semaphore that counts the free
  ones. The operations change the pool only while they hold its mutex, so each is one function;
  \<open>None\<close> means that it faults or blocks. The pool refines a queue of free chunks and a map from
  the used chunks to their counts.
\<close>

subsection \<open>State and operations\<close>

text \<open>\<open>mpp_meta\<close> is the memory for the nodes of the two lists: an allocation map and a base address for each.\<close>

record mpool_params =
  mpp_elements :: "nat option"
  mpp_meta :: "((allocm \<times> nat) \<times> (allocm \<times> nat)) option"
  mpp_elt_size :: nat
  mpp_max_elts :: nat
  mpp_flags :: u32

text \<open>The nodes of the two lists are in disjoint memory, so each list has a heap of its own.\<close>

record mpool =
  mp_elements :: nat
  mp_free :: "unit llist"
  mp_free_heap :: "unit lheap"
  mp_alloc :: "unit llist"
  mp_alloc_heap :: "unit lheap"
  mp_refs :: "int list"
  mp_elt_size :: nat
  mp_max_elts :: nat
  mp_slots :: csem
  mp_mutex :: mutex
  mp_flags :: u32

definition mpool_meta_space :: "nat \<Rightarrow> nat \<Rightarrow> nat" where
  "mpool_meta_space node_size max_elts = 2 * (4 * max_elts + max_elts * node_size)"

definition mpool_element_space :: "nat \<Rightarrow> nat \<Rightarrow> nat" where
  "mpool_element_space max_elts elt_size = 4 * max_elts + max_elts * elt_size"

definition mpool_isfull :: "mpool \<Rightarrow> bool" where
  "mpool_isfull p = llist_isfull (mp_alloc p)"

definition mpool_isempty :: "mpool \<Rightarrow> bool" where
  "mpool_isempty p = llist_isempty (mp_alloc p)"

definition mpool_size :: "mpool \<Rightarrow> nat" where
  "mpool_size p = llist_size (mp_alloc p)"

definition mpool_capacity :: "mpool \<Rightarrow> nat" where
  "mpool_capacity p = mp_max_elts p"

text \<open>The lists take nodes from their own memory only, and store pointers.\<close>

definition no_malloc :: "unit lenv" where
  "no_malloc = \<lparr>env_node = (\<lambda>_. None), env_block = (\<lambda>_. None)\<rparr>"

definition chunk_list_params :: "mpool_params \<Rightarrow> allocm \<times> nat \<Rightarrow> unit llist_params" where
  "chunk_list_params p meta = \<lparr>lp_cmpe = None, lp_meta = Some meta, lp_elements = None,
     lp_elt_size = mpp_elt_size p, lp_max_elts = int_of_size (mpp_max_elts p),
     lp_flags = RCSW_DS_LLIST_DB_DISOWN OR RCSW_DS_LLIST_DB_PTR OR RCSW_NOALLOC_HANDLE OR RCSW_NOALLOC_META\<rparr>"

text \<open>
  Parameters: the answers of \<open>malloc\<close>, whether the mutex can be made, what the list handles
  hold, and the heaps with the memory of the nodes. Once the handle is there, an error destroys
  a pool whose parts were not all initialised, a fault.
\<close>

definition mpool_init ::
  "unit option \<Rightarrow> unit option \<Rightarrow> nat option \<Rightarrow> ((allocm \<times> nat) \<times> (allocm \<times> nat)) option \<Rightarrow> int list option \<Rightarrow> bool \<Rightarrow>
   llist_space_mgmt \<Rightarrow> unit lheap \<Rightarrow> unit lheap \<Rightarrow> mpool_params option \<Rightarrow> mpool option option" where
  "mpool_init pool_in handle block nodes counts made mem Hf Ha params =
     (case params of
        None \<Rightarrow> Some None
      | Some p \<Rightarrow>
          if \<not> (mpp_max_elts p > 0 \<and> mpp_elt_size p > 0) then Some None
          else do {
            h \<leftarrow> rcsw_alloc id pool_in handle (mpp_flags p AND RCSW_NOALLOC_HANDLE);
            case h of
              None \<Rightarrow> Some None
            | Some _ \<Rightarrow> do {
                els \<leftarrow> rcsw_alloc id (mpp_elements p) block (mpp_flags p AND RCSW_NOALLOC_DATA);
                elements \<leftarrow> els;
                nds \<leftarrow> rcsw_alloc id (mpp_meta p) nodes (mpp_flags p AND RCSW_NOALLOC_META);
                (meta, meta') \<leftarrow> nds;
                fl \<leftarrow> llist_init (Some mem) None (Some (chunk_list_params p meta));
                free \<leftarrow> fl;
                (free, Hf) \<leftarrow> for_range 0 (mpp_max_elts p)
                  (\<lambda>i (l, H). do {
                     (st, l, H) \<leftarrow> llist_append no_malloc l (Some (elements + i * mpp_elt_size p)) H;
                     if st = OK then Some (l, H) else None
                   }) (free, Hf);
                al \<leftarrow> llist_init (Some mem) None (Some (chunk_list_params p meta'));
                alloc \<leftarrow> al;
                rs \<leftarrow> rcsw_alloc (map (\<lambda>_. 0)) None counts RCSW_ZALLOC;
                refs \<leftarrow> rs;
                slots \<leftarrow> csem_init (Some ()) None (mpp_max_elts p) RCSW_NOALLOC_HANDLE;
                m \<leftarrow> mutex_init (Some ()) None made RCSW_NOALLOC_HANDLE;
                Some (Some \<lparr>mp_elements = elements, mp_free = free, mp_free_heap = Hf, mp_alloc = alloc,
                  mp_alloc_heap = Ha, mp_refs = refs, mp_elt_size = mpp_elt_size p, mp_max_elts = mpp_max_elts p,
                  mp_slots = slots, mp_mutex = m, mp_flags = mpp_flags p\<rparr>)
              }
          })"

text \<open>Which of the parts are handed to \<open>free\<close>, in the order of the calls.\<close>

definition mpool_destroy :: "mpool option \<Rightarrow> bool list option" where
  "mpool_destroy pool =
     (case pool of
        None \<Rightarrow> Some []
      | Some p \<Rightarrow> do {
          (f, _) \<leftarrow> llist_destroy (mp_free p) (mp_free_heap p);
          (a, _) \<leftarrow> llist_destroy (mp_alloc p) (mp_alloc_heap p);
          Some [csem_destroy (Some (mp_slots p)), mutex_destroy (Some (mp_mutex p)), f, a,
            rcsw_free (Some ()) (mp_flags p AND RCSW_NOALLOC_DATA), rcsw_free (Some ()) (mp_flags p AND RCSW_NOALLOC_META),
            rcsw_free (Some ()) 0, rcsw_free (Some ()) (mp_flags p AND RCSW_NOALLOC_HANDLE)]
        })"

text \<open>
  The index of the chunk an address is in, -1 when it is outside the memory of the pool. The
  arguments of \<open>mpool_element_space\<close> are in the order of the code.
\<close>

definition mpool_ref_query :: "mpool \<Rightarrow> nat option \<Rightarrow> int option" where
  "mpool_ref_query p ptr =
     (case ptr of
        None \<Rightarrow> Some (-1)
      | Some x \<Rightarrow>
          let memsize = mpool_element_space (mp_elt_size p) (mp_max_elts p) in
          if \<not> (mp_elements p \<le> x \<and> x < mp_elements p + memsize) then Some (-1)
          else if int_of_size (mp_elt_size p) = 0 then None
          else Some (int_of_size (x - mp_elements p) sdiv int_of_size (mp_elt_size p)))"

text \<open>The only outcome of an action that cannot block.\<close>

definition sole :: "'s outcomes \<Rightarrow> 's option" where
  "sole xs = (case xs of [(_, s)] \<Rightarrow> Some s | _ \<Rightarrow> None)"

text \<open>Counting references; an \<open>int\<close> that overflows is a fault.\<close>

definition count_ref :: "int list \<Rightarrow> int \<Rightarrow> int \<Rightarrow> int list option" where
  "count_ref refs idx d = do {
     r \<leftarrow> rd refs idx;
     if - (2 ^ 31) \<le> r + d \<and> r + d < 2 ^ 31 then wr refs idx (r + d) else None
   }"

text \<open>What the two requests do after the wait: the first free chunk becomes used. \<open>t\<close> is the thread.\<close>

definition mpool_take :: "nat \<Rightarrow> mpool \<Rightarrow> (nat option \<times> mpool) option" where
  "mpool_take t p = do {
     m \<leftarrow> sole (mutex_lock t (mp_mutex p));
     first \<leftarrow> deref (hp_nodes (mp_free_heap p)) (ll_first (mp_free p));
     let ptr = nd_data first;
     (_, free, Hf) \<leftarrow> llist_remove (mp_free p) ptr (mp_free_heap p);
     (_, alloc, Ha) \<leftarrow> llist_append no_malloc (mp_alloc p) ptr (mp_alloc_heap p);
     x \<leftarrow> ptr;
     refs \<leftarrow> count_ref (mp_refs p) (int (size_of_int (int x - int (mp_elements p)) div mp_elt_size p)) 1;
     m \<leftarrow> sole (mutex_unlock m);
     Some (ptr, p\<lparr>mp_free := free, mp_free_heap := Hf, mp_alloc := alloc, mp_alloc_heap := Ha, mp_refs := refs, mp_mutex := m\<rparr>)
   }"

definition mpool_req :: "nat \<Rightarrow> mpool \<Rightarrow> (nat option \<times> mpool) option" where
  "mpool_req t p = do {
     s \<leftarrow> sole (csem_wait (mp_slots p));
     mpool_take t (p\<lparr>mp_slots := s\<rparr>)
   }"

text \<open>\<open>late\<close> is whether the time runs out before a chunk is free, which it does when none ever is.\<close>

definition mpool_timedreq :: "nat \<Rightarrow> bool \<Rightarrow> bool \<Rightarrow> mpool \<Rightarrow> (status \<times> nat option \<times> mpool) option" where
  "mpool_timedreq t late chunk p =
     (let outcomes = csem_timedwait (mp_slots p) in
      case (if late \<or> length outcomes = 1 then hd outcomes else last outcomes) of (st, s) \<Rightarrow>
        if st \<noteq> OK then Some (ERROR None, None, p)
        else do {
          (ptr, p) \<leftarrow> mpool_take t (p\<lparr>mp_slots := s\<rparr>);
          Some (OK, if chunk then ptr else None, p)
        })"

definition mpool_release :: "nat \<Rightarrow> mpool \<Rightarrow> nat option \<Rightarrow> (status \<times> mpool) option" where
  "mpool_release t p ptr =
     (if ptr = None then Some (fpc_error, p)
      else do {
        idx \<leftarrow> mpool_ref_query p ptr;
        if idx = -1 then Some (ERROR None, p)
        else do {
          m \<leftarrow> sole (mutex_lock t (mp_mutex p));
          r \<leftarrow> rd (mp_refs p) idx;
          refs \<leftarrow> wr (mp_refs p) idx (max 0 (r - 1));
          if max 0 (r - 1) > 0 then do {
            m \<leftarrow> sole (mutex_unlock m);
            Some (OK, p\<lparr>mp_refs := refs, mp_mutex := m\<rparr>)
          }
          else do {
            (_, alloc, Ha) \<leftarrow> llist_remove (mp_alloc p) ptr (mp_alloc_heap p);
            (_, free, Hf) \<leftarrow> llist_append no_malloc (mp_free p) ptr (mp_free_heap p);
            s \<leftarrow> sole (csem_post (mp_slots p));
            m \<leftarrow> sole (mutex_unlock m);
            Some (OK, p\<lparr>mp_free := free, mp_free_heap := Hf, mp_alloc := alloc, mp_alloc_heap := Ha,
              mp_refs := refs, mp_slots := s, mp_mutex := m\<rparr>)
          }
        }
      })"

definition mpool_ref_change :: "int \<Rightarrow> nat \<Rightarrow> mpool \<Rightarrow> nat option \<Rightarrow> (status \<times> mpool) option" where
  "mpool_ref_change d t p ptr =
     (if ptr = None then Some (fpc_error, p)
      else do {
        m \<leftarrow> sole (mutex_lock t (mp_mutex p));
        idx \<leftarrow> mpool_ref_query p ptr;
        if idx = -1 then do {
          m \<leftarrow> sole (mutex_unlock m);
          Some (ERROR None, p\<lparr>mp_mutex := m\<rparr>)
        }
        else do {
          refs \<leftarrow> count_ref (mp_refs p) idx d;
          m \<leftarrow> sole (mutex_unlock m);
          Some (OK, p\<lparr>mp_refs := refs, mp_mutex := m\<rparr>)
        }
      })"

definition mpool_ref_add :: "nat \<Rightarrow> mpool \<Rightarrow> nat option \<Rightarrow> (status \<times> mpool) option" where
  "mpool_ref_add = mpool_ref_change 1"

definition mpool_ref_remove :: "nat \<Rightarrow> mpool \<Rightarrow> nat option \<Rightarrow> (status \<times> mpool) option" where
  "mpool_ref_remove = mpool_ref_change (-1)"

text \<open>The count is converted to \<open>size_t\<close>.\<close>

definition mpool_ref_count :: "mpool \<Rightarrow> nat option \<Rightarrow> nat option" where
  "mpool_ref_count p ptr =
     (if ptr = None then Some 0xFFFFFFFF
      else do {
        idx \<leftarrow> mpool_ref_query p ptr;
        if idx = -1 then Some 0 else map_option size_of_int (rd (mp_refs p) idx)
      })"

subsection \<open>The pool as a queue of free chunks and a map of used ones\<close>

datatype mpool_op = Req | Release nat | RefAdd nat | RefRemove nat

datatype mpool_out = Chunk nat | Done

text \<open>Defined where the operation is allowed: a chunk is only released or counted while it is used.\<close>

fun mpool_spec :: "mpool_op \<Rightarrow> nat list \<times> (nat \<Rightarrow> nat option) \<Rightarrow> (mpool_out \<times> nat list \<times> (nat \<Rightarrow> nat option)) option" where
  "mpool_spec Req ([], m) = None"
| "mpool_spec Req (i # fs, m) = Some (Chunk i, fs, m(i \<mapsto> 1))"
| "mpool_spec (Release i) (fs, m) =
     (case m i of None \<Rightarrow> None
      | Some r \<Rightarrow> Some (Done, if r > 1 then (fs, m(i \<mapsto> r - 1)) else (fs @ [i], m(i := None))))"
| "mpool_spec (RefAdd i) (fs, m) =
     (case m i of None \<Rightarrow> None
      | Some r \<Rightarrow> if r + 1 < 2 ^ 31 then Some (Done, fs, m(i \<mapsto> r + 1)) else None)"
| "mpool_spec (RefRemove i) (fs, m) =
     (case m i of None \<Rightarrow> None | Some r \<Rightarrow> if r > 0 then Some (Done, fs, m(i \<mapsto> r - 1)) else None)"

fun mpool_specs :: "mpool_op list \<Rightarrow> nat list \<times> (nat \<Rightarrow> nat option) \<Rightarrow>
    (mpool_out list \<times> nat list \<times> (nat \<Rightarrow> nat option)) option" where
  "mpool_specs [] a = Some ([], a)"
| "mpool_specs (op # ops) a = do {
     (x, a) \<leftarrow> mpool_spec op a;
     (xs, a) \<leftarrow> mpool_specs ops a;
     Some (x # xs, a)
   }"

definition chunk :: "mpool \<Rightarrow> nat \<Rightarrow> nat" where
  "chunk p i = mp_elements p + i * mp_elt_size p"

text \<open>The operations of the pool on chunks by number; an output is \<open>None\<close> when the call fails.\<close>

fun mpool_apply :: "nat \<Rightarrow> mpool_op \<Rightarrow> mpool \<Rightarrow> (nat option \<times> mpool) option" where
  "mpool_apply t Req p = mpool_req t p"
| "mpool_apply t (Release i) p = do { (st, p) \<leftarrow> mpool_release t p (Some (chunk p i)); if st = OK then Some (None, p) else None }"
| "mpool_apply t (RefAdd i) p = do { (st, p) \<leftarrow> mpool_ref_add t p (Some (chunk p i)); if st = OK then Some (None, p) else None }"
| "mpool_apply t (RefRemove i) p = do { (st, p) \<leftarrow> mpool_ref_remove t p (Some (chunk p i)); if st = OK then Some (None, p) else None }"

fun mpool_run :: "(nat \<times> mpool_op) list \<Rightarrow> mpool \<Rightarrow> (nat option list \<times> mpool) option" where
  "mpool_run [] p = Some ([], p)"
| "mpool_run ((t, op) # ops) p = do {
     (x, p) \<leftarrow> mpool_apply t op p;
     (xs, p) \<leftarrow> mpool_run ops p;
     Some (x # xs, p)
   }"

fun address :: "mpool \<Rightarrow> mpool_out \<Rightarrow> nat option" where
  "address p (Chunk i) = Some (chunk p i)"
| "address p Done = None"


text \<open>
  The invariant: the free list holds the chunks \<open>fs\<close> in this order, the other list the used ones,
  each chunk is on one of them, and the counts are those of \<open>m\<close>.
\<close>

definition chunks_on :: "mpool \<Rightarrow> unit llist \<Rightarrow> unit lheap \<Rightarrow> nat list \<Rightarrow> bool" where
  "chunks_on p l H is \<longleftrightarrow> (\<exists>as. ptr_list_ok l H as (map (chunk p) is)) \<and> cap l = mp_max_elts p"

definition mpool_ok :: "mpool \<Rightarrow> nat list \<Rightarrow> (nat \<Rightarrow> nat option) \<Rightarrow> bool" where
  "mpool_ok p fs m \<longleftrightarrow>
     chunks_on p (mp_free p) (mp_free_heap p) fs \<and>
     (\<exists>us. chunks_on p (mp_alloc p) (mp_alloc_heap p) us \<and> distinct us \<and> set us = dom m) \<and>
     distinct fs \<and> set fs \<inter> dom m = {} \<and> set fs \<union> dom m = {..<mp_max_elts p} \<and>
     mp_refs p = map (\<lambda>i. case m i of None \<Rightarrow> 0 | Some r \<Rightarrow> int r) [0..<mp_max_elts p] \<and>
     (\<forall>r \<in> ran m. r < 2 ^ 31) \<and>
     cs_value (mp_slots p) = length fs \<and> mx_owner (mp_mutex p) = None \<and>
     0 < mp_elt_size p \<and> mp_max_elts p * mp_elt_size p < 2 ^ 31"

lemma mpool_size_bounds:
  assumes "mpool_ok p fs m"
  shows "mp_max_elts p < 2 ^ 31" "mp_elt_size p < 2 ^ 31 \<or> mp_max_elts p = 0"
proof -
  have *: "0 < mp_elt_size p" "mp_max_elts p * mp_elt_size p < 2 ^ 31" using assms by (simp_all add: mpool_ok_def)
  have "mp_max_elts p \<le> mp_max_elts p * mp_elt_size p" using *(1) by simp
  then show "mp_max_elts p < 2 ^ 31" using *(2) by linarith
  have "mp_elt_size p \<le> mp_max_elts p * mp_elt_size p \<or> mp_max_elts p = 0" by (cases "mp_max_elts p") simp_all
  then show "mp_elt_size p < 2 ^ 31 \<or> mp_max_elts p = 0" using *(2) by linarith
qed

lemma chunk_inj:
  assumes "0 < mp_elt_size p"
  shows "inj (chunk p)"
  using assms by (auto simp: inj_def chunk_def)

lemma offset_bounds:
  assumes "i < n" and "0 < s" and "n * s < (2::nat) ^ 31"
  shows "i * s < 2 ^ 31" "i * s < 4 * s + s * n"
proof -
  have "i * s < n * s" using assms(1,2) by (rule mult_strict_right_mono)
  then show "i * s < 2 ^ 31" "i * s < 4 * s + s * n" using assms(3) by (linarith, simp only: mult.commute [of s n] trans_less_add2)
qed

lemma ref_query_chunk:
  assumes ok: "mpool_ok p fs m" and i: "i < mp_max_elts p"
  shows "mpool_ref_query p (Some (chunk p i)) = Some (int i)"
proof -
  let ?n = "mp_max_elts p" and ?s = "mp_elt_size p"
  have s: "0 < ?s" "?n * ?s < 2 ^ 31" using ok by (simp_all add: mpool_ok_def)
  note lt = offset_bounds [OF i s]
  have sz: "?s < 2 ^ 31" using mpool_size_bounds [OF ok] i by auto
  have "int_of_size (i * ?s) = int i * int ?s" "int_of_size ?s = int ?s"
    using int_of_size_small lt(1) sz by simp_all
  moreover have "(int i * int ?s) sdiv int ?s = int i" using s(1) by (simp add: signed_divide_int_def sgn_if abs_mult)
  ultimately show ?thesis using s(1) lt(2)
    by (simp add: mpool_ref_query_def Let_def chunk_def mpool_element_space_def)
qed

lemma sole_simps [simp]: "sole [(st, s)] = Some s" "sole [] = None"
  by (simp_all add: sole_def)

lemma remove1_map_inj: "inj f \<Longrightarrow> remove1 (f x) (map f xs) = map f (remove1 x xs)"
  by (induction xs) (auto simp: inj_eq)

lemma chunks_on_cong: "chunk p' = chunk p \<Longrightarrow> mp_max_elts p' = mp_max_elts p \<Longrightarrow> chunks_on p' l H is = chunks_on p l H is"
  by (simp add: chunks_on_def)

lemma chunks_append:
  assumes "chunks_on p l H is" and "length is < mp_max_elts p"
  shows "\<exists>l' H'. llist_append env l (Some (chunk p i)) H = Some (OK, l', H') \<and> chunks_on p l' H' (is @ [i])"
proof -
  obtain as where as: "ptr_list_ok l H as (map (chunk p) is)" "cap l = mp_max_elts p" using assms(1) by (auto simp: chunks_on_def)
  have "length as < cap l" using ptr_list_length [OF as(1)] assms(2) as(2) by simp
  from ptr_append [OF as(1) this, of env "chunk p i"] show ?thesis using as(2) by (auto simp: chunks_on_def)
qed

lemma chunks_remove:
  assumes "chunks_on p l H is" and "i \<in> set is" and "0 < mp_elt_size p"
  shows "\<exists>l' H'. llist_remove l (Some (chunk p i)) H = Some (OK, l', H') \<and> chunks_on p l' H' (remove1 i is)"
proof -
  obtain as where as: "ptr_list_ok l H as (map (chunk p) is)" "cap l = mp_max_elts p" using assms(1) by (auto simp: chunks_on_def)
  have "chunk p i \<in> set (map (chunk p) is)" using assms(2) by simp
  from ptr_remove [OF as(1) this] show ?thesis
    using as(2) remove1_map_inj [OF chunk_inj [OF assms(3)], of i "is"] by (auto simp: chunks_on_def)
qed

lemma chunks_remove_absent:
  assumes "chunks_on p l H is" and "i \<notin> set is" and "0 < mp_elt_size p" and "is \<noteq> []"
  shows "llist_remove l (Some (chunk p i)) H = Some (OK, l, H)"
proof -
  obtain as where as: "ptr_list_ok l H as (map (chunk p) is)" using assms(1) by (auto simp: chunks_on_def)
  have "chunk p i \<notin> set (map (chunk p) is)" using assms(2) chunk_inj [OF assms(3)] by (auto simp: inj_eq)
  then have "find (\<lambda>(a, e). e = chunk p i) (zip as (map (chunk p) is)) = None"
    by (auto simp: find_None_iff dest: set_zip_rightD)
  moreover have q: "lseg (hp_nodes H) (ll_first l) as None" "chain_data (hp_nodes H) as (map (chunk p) is)"
      "has_flag (ll_flags l) RCSW_DS_LLIST_DB_PTR" "ll_current l = length as"
    using as by (simp_all add: ptr_list_ok_def list_rep_def)
  ultimately have "llist_node_query l (Some (chunk p i)) H = Some None"
    using ptr_query_loop [OF q(1-3)] by (simp add: llist_node_query_def)
  moreover have "\<not> llist_isempty l" using q(4) ptr_list_length [OF as] assms(4) by (auto simp: llist_isempty_def)
  ultimately show ?thesis by (simp add: llist_remove_def)
qed

text \<open>The first chunk of a list.\<close>

lemma chunks_first:
  assumes "chunks_on p l H (i # is)"
  shows "\<exists>nd. deref (hp_nodes H) (ll_first l) = Some nd \<and> nd_data nd = Some (chunk p i)"
proof -
  obtain as where as: "ptr_list_ok l H as (map (chunk p) (i # is))" using assms by (auto simp: chunks_on_def)
  then obtain a bs where ab: "as = a # bs" using ptr_list_length [OF as] by (cases as) auto
  then show ?thesis using as unfolding ptr_list_ok_def list_rep_def chain_data_def
    by (auto simp: deref_def split: option.splits)
qed

text \<open>Counting in the list of counts is updating the map.\<close>

abbreviation counts_of :: "nat \<Rightarrow> (nat \<Rightarrow> nat option) \<Rightarrow> int list" where
  "counts_of n m \<equiv> map (\<lambda>i. case m i of None \<Rightarrow> 0 | Some r \<Rightarrow> int r) [0..<n]"

lemma counts_update:
  "i < n \<Longrightarrow> (counts_of n m)[i := int r] = counts_of n (m(i \<mapsto> r))"
  "i < n \<Longrightarrow> (counts_of n m)[i := 0] = counts_of n (m(i := None))"
  "i < n \<Longrightarrow> m i = Some r \<Longrightarrow> counts_of n m ! i = int r"
  "i < n \<Longrightarrow> m i = None \<Longrightarrow> counts_of n m ! i = 0"
  by (auto intro!: nth_equalityI simp: nth_list_update)

lemma count_ref_ok:
  assumes "i < n" and "m i = Some r \<or> m i = None \<and> r = 0" and "int r + d = int r'" and "r' < 2 ^ 31"
  shows "count_ref (counts_of n m) (int i) d = Some (counts_of n (m(i \<mapsto> r')))"
proof -
  have "counts_of n m ! i = int r" using assms(1,2) counts_update(3,4) by auto
  then have "rd (counts_of n m) (int i) = Some (int r)" using assms(1) by simp
  moreover have "wr (counts_of n m) (int i) (int r') = Some (counts_of n (m(i \<mapsto> r')))"
    using assms(1) counts_update(1) by simp
  ultimately show ?thesis using assms(3,4) by (simp add: count_ref_def)
qed


subsection \<open>Each operation\<close>

lemma mpool_take_ok:
  assumes ok: "mpool_ok p (i # fs) m" and q: "q = p\<lparr>mp_slots := (mp_slots p)\<lparr>cs_value := length fs\<rparr>\<rparr>"
  shows "\<exists>p'. mpool_take t q = Some (Some (chunk p i), p') \<and> mpool_ok p' fs (m(i \<mapsto> 1)) \<and> chunk p' = chunk p"
proof -
  obtain us where us: "chunks_on p (mp_alloc p) (mp_alloc_heap p) us" "distinct us" "set us = dom m"
    using ok by (auto simp: mpool_ok_def)
  have o: "chunks_on p (mp_free p) (mp_free_heap p) (i # fs)" "distinct (i # fs)" "set (i # fs) \<inter> dom m = {}"
      "set (i # fs) \<union> dom m = {..<mp_max_elts p}" "mp_refs p = counts_of (mp_max_elts p) m" "\<forall>r \<in> ran m. r < 2 ^ 31"
      "mx_owner (mp_mutex p) = None" "0 < mp_elt_size p" "mp_max_elts p * mp_elt_size p < 2 ^ 31"
    using ok by (simp_all add: mpool_ok_def)
  have i: "i < mp_max_elts p" "m i = None" using o(3,4) by auto
  obtain nd where nd: "deref (hp_nodes (mp_free_heap p)) (ll_first (mp_free p)) = Some nd" "nd_data nd = Some (chunk p i)"
    using chunks_first [OF o(1)] by blast
  obtain l H where rem: "llist_remove (mp_free p) (Some (chunk p i)) (mp_free_heap p) = Some (OK, l, H)" "chunks_on p l H fs"
    using chunks_remove [OF o(1) _ o(8), of i] by auto
  have "card (set us) < card {..<mp_max_elts p}"
  proof (rule psubset_card_mono)
    have "set us \<subseteq> {..<mp_max_elts p}" "i \<notin> set us" using o(4) us(3) i(2) by auto
    then show "set us \<subset> {..<mp_max_elts p}" using i(1) by auto
  qed simp
  then have "length us < mp_max_elts p" using us(2) by (simp add: distinct_card)
  then obtain al Ha where app: "llist_append no_malloc (mp_alloc p) (Some (chunk p i)) (mp_alloc_heap p) = Some (OK, al, Ha)"
      "chunks_on p al Ha (us @ [i])"
    using chunks_append [OF us(1)] by blast
  have off: "size_of_int (int (chunk p i) - int (mp_elements p)) div mp_elt_size p = i"
  proof -
    have "i * mp_elt_size p < 2 ^ 64" using offset_bounds(1) [OF i(1) o(8,9)] by (rule less_trans) simp
    then have "size_of_int (int (i * mp_elt_size p)) = i * mp_elt_size p" by (rule size_of_int_nat)
    then show ?thesis using o(8) by (simp add: chunk_def)
  qed
  have cnt: "count_ref (mp_refs p) (int i) 1 = Some (counts_of (mp_max_elts p) (m(i \<mapsto> 1)))"
    unfolding o(5) by (rule count_ref_ok [OF i(1), of m 0]) (use i(2) in simp_all)
  let ?p = "q\<lparr>mp_free := l, mp_free_heap := H, mp_alloc := al, mp_alloc_heap := Ha,
    mp_refs := counts_of (mp_max_elts p) (m(i \<mapsto> 1)), mp_mutex := (mp_mutex p)\<lparr>mx_owner := None\<rparr>\<rparr>"
  have "mpool_take t q = Some (Some (chunk p i), ?p)"
    using o(7) nd rem(1) app(1) off cnt q by (simp add: mpool_take_def mutex_lock_def mutex_unlock_def Let_def)
  moreover have ch: "chunk ?p = chunk p" "mp_max_elts ?p = mp_max_elts p" using q by (simp_all add: chunk_def fun_eq_iff)
  moreover have "mpool_ok ?p fs (m(i \<mapsto> 1))"
    unfolding mpool_ok_def
  proof (intro conjI exI [of _ "us @ [i]"])
    show "chunks_on ?p (mp_free ?p) (mp_free_heap ?p) fs" using rem(2) chunks_on_cong [OF ch] by simp
    show "chunks_on ?p (mp_alloc ?p) (mp_alloc_heap ?p) (us @ [i])" using app(2) chunks_on_cong [OF ch] by simp
    show "distinct (us @ [i])" "set (us @ [i]) = dom (m(i \<mapsto> 1))" using us i(2) by auto
    show "\<forall>r \<in> ran (m(i \<mapsto> 1)). r < 2 ^ 31" using o(6) i(2) by simp
    show "set fs \<inter> dom (m(i \<mapsto> 1)) = {}" "set fs \<union> dom (m(i \<mapsto> 1)) = {..<mp_max_elts ?p}"
      using o(2-4) ch(2) by auto
  qed (use o q in simp_all)
  ultimately show ?thesis by blast
qed

lemma mpool_req_ok:
  assumes ok: "mpool_ok p (i # fs) m"
  shows "\<exists>p'. mpool_req t p = Some (Some (chunk p i), p') \<and> mpool_ok p' fs (m(i \<mapsto> 1)) \<and> chunk p' = chunk p"
proof -
  have "csem_wait (mp_slots p) = [(OK, (mp_slots p)\<lparr>cs_value := length fs\<rparr>)]"
    using ok by (simp add: csem_wait_def mpool_ok_def)
  then show ?thesis using mpool_take_ok [OF ok refl, of t] by (simp add: mpool_req_def)
qed

lemma mpool_ref_change_ok:
  assumes ok: "mpool_ok p fs m" and mi: "m i = Some r" and d: "int r + d = int r'" and r': "r' < 2 ^ 31"
  shows "\<exists>p'. mpool_ref_change d t p (Some (chunk p i)) = Some (OK, p') \<and> mpool_ok p' fs (m(i \<mapsto> r')) \<and> chunk p' = chunk p"
proof -
  have i: "i < mp_max_elts p" using ok mi by (auto simp: mpool_ok_def)
  let ?refs = "counts_of (mp_max_elts p) (m(i \<mapsto> r'))"
  let ?p = "p\<lparr>mp_refs := ?refs, mp_mutex := (mp_mutex p)\<lparr>mx_owner := None\<rparr>\<rparr>"
  have ch: "chunk ?p = chunk p" "mp_max_elts ?p = mp_max_elts p" by (simp_all add: chunk_def fun_eq_iff)
  have "count_ref (mp_refs p) (int i) d = Some ?refs" using ok mi count_ref_ok [OF i, of m r d r'] d r'
    by (simp add: mpool_ok_def)
  then have "mpool_ref_change d t p (Some (chunk p i)) = Some (OK, ?p)"
    using ref_query_chunk [OF ok i] ok by (simp add: mpool_ref_change_def mutex_lock_def mutex_unlock_def mpool_ok_def)
  moreover have dm: "dom (m(i \<mapsto> r')) = dom m" using mi by auto
  have "\<forall>x \<in> ran (m(i \<mapsto> r')). x < 2 ^ 31" using ok r' by (auto simp: mpool_ok_def ran_def)
  then have "mpool_ok ?p fs (m(i \<mapsto> r'))"
    using ok dm unfolding mpool_ok_def chunks_on_cong [OF ch] by simp
  ultimately show ?thesis using ch(1) by blast
qed

lemma mpool_release_held_ok:
  assumes ok: "mpool_ok p fs m" and mi: "m i = Some r" and r: "r > 1"
  shows "\<exists>p'. mpool_release t p (Some (chunk p i)) = Some (OK, p') \<and> mpool_ok p' fs (m(i \<mapsto> r - 1)) \<and> chunk p' = chunk p"
proof -
  have i: "i < mp_max_elts p" using ok mi by (auto simp: mpool_ok_def)
  let ?refs = "counts_of (mp_max_elts p) (m(i \<mapsto> r - 1))"
  let ?p = "p\<lparr>mp_refs := ?refs, mp_mutex := (mp_mutex p)\<lparr>mx_owner := None\<rparr>\<rparr>"
  have ch: "chunk ?p = chunk p" "mp_max_elts ?p = mp_max_elts p" by (simp_all add: chunk_def fun_eq_iff)
  have refs: "mp_refs p = counts_of (mp_max_elts p) m" using ok by (simp add: mpool_ok_def)
  then have "rd (mp_refs p) (int i) = Some (int r)" "max 0 (int r - 1) = int (r - 1)" "length (mp_refs p) = mp_max_elts p"
    using i counts_update(3) [of i "mp_max_elts p" m r] mi r by (simp_all add: of_nat_diff)
  then have "mpool_release t p (Some (chunk p i)) = Some (OK, ?p)"
    using ref_query_chunk [OF ok i] ok i r counts_update(1) [OF i, of m "r - 1"] refs
    by (simp add: mpool_release_def mutex_lock_def mutex_unlock_def mpool_ok_def)
  moreover have dm: "dom (m(i \<mapsto> r - 1)) = dom m" using mi by auto
  have "r < 2 ^ 31" using ok mi by (auto simp: mpool_ok_def ran_def)
  then have "\<forall>x \<in> ran (m(i \<mapsto> r - 1)). x < 2 ^ 31" using ok by (auto simp: mpool_ok_def ran_def)
  then have "mpool_ok ?p fs (m(i \<mapsto> r - 1))"
    using ok dm unfolding mpool_ok_def chunks_on_cong [OF ch] by simp
  ultimately show ?thesis using ch(1) by blast
qed


lemma mpool_release_last_ok:
  assumes ok: "mpool_ok p fs m" and mi: "m i = Some r" and r: "\<not> r > 1"
  shows "\<exists>p'. mpool_release t p (Some (chunk p i)) = Some (OK, p') \<and> mpool_ok p' (fs @ [i]) (m(i := None)) \<and> chunk p' = chunk p"
proof -
  obtain us where us: "chunks_on p (mp_alloc p) (mp_alloc_heap p) us" "distinct us" "set us = dom m"
    using ok by (auto simp: mpool_ok_def)
  have o: "chunks_on p (mp_free p) (mp_free_heap p) fs" "distinct fs" "set fs \<inter> dom m = {}"
      "set fs \<union> dom m = {..<mp_max_elts p}" "mp_refs p = counts_of (mp_max_elts p) m" "\<forall>r \<in> ran m. r < 2 ^ 31"
      "cs_value (mp_slots p) = length fs" "mx_owner (mp_mutex p) = None" "0 < mp_elt_size p" "mp_max_elts p * mp_elt_size p < 2 ^ 31"
    using ok by (simp_all add: mpool_ok_def)
  have i: "i < mp_max_elts p" "i \<in> set us" "i \<notin> set fs" using o(3,4) us(3) mi by auto
  have "card (set fs) < card {..<mp_max_elts p}"
  proof (rule psubset_card_mono)
    show "set fs \<subset> {..<mp_max_elts p}" using o(4) i by auto
  qed simp
  then have room: "length fs < mp_max_elts p" using o(2) by (simp add: distinct_card)
  obtain l H where rem: "llist_remove (mp_alloc p) (Some (chunk p i)) (mp_alloc_heap p) = Some (OK, l, H)" "chunks_on p l H (remove1 i us)"
    using chunks_remove [OF us(1) i(2) o(9)] by blast
  obtain f Hf where app: "llist_append no_malloc (mp_free p) (Some (chunk p i)) (mp_free_heap p) = Some (OK, f, Hf)"
      "chunks_on p f Hf (fs @ [i])"
    using chunks_append [OF o(1) room] by blast
  have post: "csem_post (mp_slots p) = [(OK, (mp_slots p)\<lparr>cs_value := length fs + 1\<rparr>)]"
    using room mpool_size_bounds(1) [OF ok] o(7) by (simp add: csem_post_def SEM_VALUE_MAX_def)
  have rd: "rd (mp_refs p) (int i) = Some (int r)" "max 0 (int r - 1) = 0" "length (mp_refs p) = mp_max_elts p"
    using i(1) counts_update(3) [of i "mp_max_elts p" m r] mi r o(5) by simp_all
  have wr: "wr (mp_refs p) (int i) 0 = Some (counts_of (mp_max_elts p) (m(i := None)))"
    using i(1) rd(3) counts_update(2) [OF i(1)] o(5) by simp
  let ?p = "p\<lparr>mp_free := f, mp_free_heap := Hf, mp_alloc := l, mp_alloc_heap := H,
    mp_refs := counts_of (mp_max_elts p) (m(i := None)), mp_slots := (mp_slots p)\<lparr>cs_value := length fs + 1\<rparr>,
    mp_mutex := (mp_mutex p)\<lparr>mx_owner := None\<rparr>\<rparr>"
  have "mpool_release t p (Some (chunk p i)) = Some (OK, ?p)"
    using ref_query_chunk [OF ok i(1)] o(8) rem(1) app(1) post rd(1,2) wr
    by (simp add: mpool_release_def mutex_lock_def mutex_unlock_def)
  moreover have ch: "chunk ?p = chunk p" "mp_max_elts ?p = mp_max_elts p" by (simp_all add: chunk_def fun_eq_iff)
  moreover have "mpool_ok ?p (fs @ [i]) (m(i := None))"
    unfolding mpool_ok_def
  proof (intro conjI exI [of _ "remove1 i us"])
    show "chunks_on ?p (mp_free ?p) (mp_free_heap ?p) (fs @ [i])" using app(2) chunks_on_cong [OF ch] by simp
    show "chunks_on ?p (mp_alloc ?p) (mp_alloc_heap ?p) (remove1 i us)" using rem(2) chunks_on_cong [OF ch] by simp
    show "distinct (remove1 i us)" "set (remove1 i us) = dom (m(i := None))" using us(2,3) by auto
    show "\<forall>r \<in> ran (m(i := None)). r < 2 ^ 31" using o(6) by (auto simp: ran_def)
    show "set (fs @ [i]) \<inter> dom (m(i := None)) = {}" "set (fs @ [i]) \<union> dom (m(i := None)) = {..<mp_max_elts ?p}"
      using o(3,4) ch(2) mi by auto
  qed (use o i(3) in simp_all)
  ultimately show ?thesis by blast
qed

lemma mpool_apply_ok:
  assumes ok: "mpool_ok p fs m" and sp: "mpool_spec op (fs, m) = Some (x, fs', m')"
  shows "\<exists>p'. mpool_apply t op p = Some (address p x, p') \<and> mpool_ok p' fs' m' \<and> chunk p' = chunk p"
proof (cases op)
  case Req
  then obtain i where "fs = i # fs'" "x = Chunk i" "m' = m(i \<mapsto> 1)" using sp by (cases fs) auto
  then show ?thesis using mpool_req_ok [of p i fs' m t] ok Req by auto
next
  case (Release i)
  then obtain r where r: "m i = Some r" "x = Done" "(fs', m') = (if r > 1 then (fs, m(i \<mapsto> r - 1)) else (fs @ [i], m(i := None)))"
    using sp by (auto split: option.splits)
  show ?thesis
  proof (cases "r > 1")
    case True
    then show ?thesis using mpool_release_held_ok [OF ok r(1) True, of t] r Release by auto
  next
    case False
    then show ?thesis using mpool_release_last_ok [OF ok r(1) False, of t] r Release by auto
  qed
next
  case (RefAdd i)
  then obtain r where r: "m i = Some r" "r + 1 < 2 ^ 31" "x = Done" "fs' = fs" "m' = m(i \<mapsto> r + 1)"
    using sp by (auto split: option.splits if_splits)
  then show ?thesis using mpool_ref_change_ok [OF ok r(1) _ r(2), of 1 t] RefAdd by (auto simp: mpool_ref_add_def)
next
  case (RefRemove i)
  then obtain r where r: "m i = Some r" "0 < r" "x = Done" "fs' = fs" "m' = m(i \<mapsto> r - 1)"
    using sp by (auto split: option.splits if_splits)
  have "r - 1 < 2 ^ 31" "int r + -1 = int (r - 1)" using ok r(1,2) by (auto simp: mpool_ok_def ran_def)
  then show ?thesis using mpool_ref_change_ok [OF ok r(1), of "-1" "r - 1" t] r RefRemove
    by (auto simp: mpool_ref_remove_def)
qed

lemma address_cong: "chunk p' = chunk p \<Longrightarrow> address p' = address p"
  by (rule ext) (case_tac x, simp_all)

lemma mpool_run_ok:
  assumes "mpool_ok p fs m" and "mpool_specs (map snd ops) (fs, m) = Some (xs, fs', m')"
  shows "\<exists>p'. mpool_run ops p = Some (map (address p) xs, p') \<and> mpool_ok p' fs' m' \<and> chunk p' = chunk p"
  using assms
proof (induction ops arbitrary: p fs m xs)
  case (Cons top ops)
  obtain t op where top: "top = (t, op)" by (cases top)
  obtain x fs1 m1 ys where s: "mpool_spec op (fs, m) = Some (x, fs1, m1)" "mpool_specs (map snd ops) (fs1, m1) = Some (ys, fs', m')"
      "xs = x # ys" using Cons.prems(2) top by (auto simp: bind_eq_Some_conv)
  obtain p1 where p1: "mpool_apply t op p = Some (address p x, p1)" "mpool_ok p1 fs1 m1" "chunk p1 = chunk p"
    using mpool_apply_ok [OF Cons.prems(1) s(1)] by blast
  obtain p2 where "mpool_run ops p1 = Some (map (address p1) ys, p2)" "mpool_ok p2 fs' m'" "chunk p2 = chunk p1"
    using Cons.IH [OF p1(2) s(2)] by blast
  then show ?case using p1 s(3) top address_cong [OF p1(3)] by simp
qed simp


text \<open>What the queries of the pool return.\<close>

lemma mpool_counters:
  assumes ok: "mpool_ok p fs m"
  shows "distinct fs \<and> set fs \<inter> dom m = {} \<and> set fs \<union> dom m = {..<mpool_capacity p} \<and> mpool_size p = card (dom m) \<and>
    mpool_isfull p = (fs = []) \<and> mpool_isempty p = (m = Map.empty)"
proof -
  obtain us where us: "chunks_on p (mp_alloc p) (mp_alloc_heap p) us" "distinct us" "set us = dom m"
    using ok by (auto simp: mpool_ok_def)
  have o: "distinct fs" "set fs \<inter> dom m = {}" "set fs \<union> dom m = {..<mp_max_elts p}" using ok by (simp_all add: mpool_ok_def)
  obtain as where as: "ptr_list_ok (mp_alloc p) (mp_alloc_heap p) as (map (chunk p) us)" "cap (mp_alloc p) = mp_max_elts p"
    using us(1) by (auto simp: chunks_on_def)
  have size: "ll_current (mp_alloc p) = card (dom m)"
    using as(1) ptr_list_length [OF as(1)] us(2,3) by (simp add: ptr_list_ok_def distinct_card flip: us(3))
  have fin: "finite (dom m)" using us(3) by (metis finite_set)
  have "card (set fs) + card (dom m) = mp_max_elts p"
    using card_Un_disjoint [of "set fs" "dom m"] fin o(2,3) by simp
  then have "length fs + card (dom m) = mp_max_elts p" using o(1) by (simp add: distinct_card)
  then have "(card (dom m) = mp_max_elts p) = (fs = [])" by (cases fs) auto
  then show ?thesis using o size as(2) fin
    by (simp add: mpool_capacity_def mpool_size_def mpool_isfull_def mpool_isempty_def llist_size_def llist_isfull_def
        llist_isempty_def cap_def)
qed

subsection \<open>Initialisation\<close>

text \<open>The memory of a pool: what the application or \<open>malloc\<close> gives, according to the flags.\<close>

definition pool_memory ::
  "unit option \<Rightarrow> unit option \<Rightarrow> nat option \<Rightarrow> ((allocm \<times> nat) \<times> (allocm \<times> nat)) option \<Rightarrow> int list option \<Rightarrow>
   unit lheap \<Rightarrow> unit lheap \<Rightarrow> mpool_params \<Rightarrow> bool" where
  "pool_memory pool_in handle block nodes counts Hf Ha p \<longleftrightarrow>
     0 < mpp_max_elts p \<and> 0 < mpp_elt_size p \<and> mpp_max_elts p * mpp_elt_size p < 2 ^ 31 \<and>
     (if has_flag (mpp_flags p) RCSW_NOALLOC_HANDLE then pool_in else handle) = Some () \<and>
     (if has_flag (mpp_flags p) RCSW_NOALLOC_DATA then mpp_elements p else block) \<noteq> None \<and>
     (case (if has_flag (mpp_flags p) RCSW_NOALLOC_META then mpp_meta p else nodes) of
        None \<Rightarrow> False
      | Some ((m, b), (m', b')) \<Rightarrow>
          length m = mpp_max_elts p \<and> region b (mpp_max_elts p) \<subseteq> dom (hp_nodes Hf) \<and>
          length m' = mpp_max_elts p \<and> region b' (mpp_max_elts p) \<subseteq> dom (hp_nodes Ha)) \<and>
     (case counts of None \<Rightarrow> False | Some c \<Rightarrow> length c = mpp_max_elts p)"

lemma chunk_list_init:
  assumes "length mm = mpp_max_elts p" and "0 < mpp_max_elts p" and "mpp_max_elts p < 2 ^ 31" and "0 < mpp_elt_size p"
    and "region b (mpp_max_elts p) \<subseteq> dom (hp_nodes H)"
  shows "\<exists>l. llist_init (Some mem) None (Some (chunk_list_params p (mm, b))) = Some (Some l) \<and>
    ptr_list_ok l H [] [] \<and> cap l = mpp_max_elts p"
proof -
  obtain m' where m': "allocm_init mm (mpp_max_elts p) = Some m'" "length m' = length mm" "\<forall>i < mpp_max_elts p. m' ! i = -1"
    using allocm_init_all_free [of "mpp_max_elts p" mm] assms(1) by auto
  have "pool_ok m' b (mpp_max_elts p) {}" using m'(2,3) assms(1,3) by (auto simp: pool_ok_def allocm_free_def)
  then show ?thesis using m'(1) assms
    by (simp add: llist_init_def chunk_list_params_def rcsw_alloc_def noalloc_def has_flag_def flag_defs Let_def
        ptr_list_ok_def list_rep_def chain_data_def node_space_def limited_def cap_def last_of_def)
qed

lemma chunk_list_fill:
  fixes env :: "'a lenv"
  assumes "ptr_list_ok l H [] []" and "cap l = n"
  shows "\<exists>l' H' as. for_range 0 n (\<lambda>i (l, H). do {
      (st, l, H) \<leftarrow> llist_append env l (Some (f i)) H;
      if st = OK then Some (l, H) else None }) (l, H) = Some (l', H') \<and>
    ptr_list_ok l' H' as (map f [0..<n]) \<and> cap l' = n"
proof -
  let ?P = "\<lambda>k (l :: 'a llist, H). \<exists>as. ptr_list_ok l H as (map f [0..<k]) \<and> cap l = n"
  let ?body = "\<lambda>i (l, H). do { (st, l, H) \<leftarrow> llist_append env l (Some (f i)) H; if st = OK then Some (l, H) else None }"
  have "\<exists>s. for_range 0 n ?body (l, H) = Some s \<and> ?P n s"
  proof (rule for_range_inv [where P = ?P])
    show "?P 0 (l, H)" using assms by auto
  next
    fix k s assume "(0::nat) \<le> k" and k: "k < n" and P: "?P k s"
    obtain l H where s: "s = (l, H)" by (cases s)
    then obtain as where as: "ptr_list_ok l H as (map f [0..<k])" "cap l = n" using P by auto
    have "length as < cap l" using ptr_list_length [OF as(1)] as(2) k by simp
    from ptr_append [OF as(1) this, of env "f k"] show "\<exists>s'. ?body k s = Some s' \<and> ?P (Suc k) s'"
      using s as(2) by auto
  qed simp
  then show ?thesis by auto
qed

lemma mpool_init_ok:
  assumes "pool_memory pool_in handle block nodes counts Hf Ha p"
  shows "\<exists>q. mpool_init pool_in handle block nodes counts True mem Hf Ha (Some p) = Some (Some q) \<and>
    mpool_ok q [0..<mpp_max_elts p] Map.empty"
proof -
  let ?n = "mpp_max_elts p" and ?s = "mpp_elt_size p"
  obtain e mm b mm' b' c where g: "0 < ?n" "0 < ?s" "?n * ?s < 2 ^ 31"
      "(if has_flag (mpp_flags p) RCSW_NOALLOC_HANDLE then pool_in else handle) = Some ()"
      "(if has_flag (mpp_flags p) RCSW_NOALLOC_DATA then mpp_elements p else block) = Some e"
      "(if has_flag (mpp_flags p) RCSW_NOALLOC_META then mpp_meta p else nodes) = Some ((mm, b), (mm', b'))"
      "length mm = ?n" "region b ?n \<subseteq> dom (hp_nodes Hf)" "length mm' = ?n" "region b' ?n \<subseteq> dom (hp_nodes Ha)"
      "counts = Some c" "length c = ?n"
    using assms unfolding pool_memory_def by (auto split: option.splits)
  have n: "?n < 2 ^ 31" using g(2,3) by (metis le_less_trans less_one linorder_not_le mult_le_mono2 nat_mult_1_right)
  obtain l where l: "llist_init (Some mem) None (Some (chunk_list_params p (mm, b))) = Some (Some l)" "ptr_list_ok l Hf [] []" "cap l = ?n"
    using chunk_list_init [OF g(7,1) n g(2,8)] by blast
  obtain l' where l': "llist_init (Some mem) None (Some (chunk_list_params p (mm', b'))) = Some (Some l')" "ptr_list_ok l' Ha [] []" "cap l' = ?n"
    using chunk_list_init [OF g(9,1) n g(2,10)] by blast
  obtain fl H as where fl: "for_range 0 ?n (\<lambda>i (l, H). do {
      (st, l, H) \<leftarrow> llist_append no_malloc l (Some (e + i * ?s)) H;
      if st = OK then Some (l, H) else None }) (l, Hf) = Some (fl, H)"
      "ptr_list_ok fl H as (map (\<lambda>i. e + i * ?s) [0..<?n])" "cap fl = ?n"
    using chunk_list_fill [OF l(2,3), of no_malloc "\<lambda>i. e + i * ?s"] by blast
  let ?q = "\<lparr>mp_elements = e, mp_free = fl, mp_free_heap = H, mp_alloc = l', mp_alloc_heap = Ha, mp_refs = map (\<lambda>_. 0) c,
    mp_elt_size = ?s, mp_max_elts = ?n, mp_slots = \<lparr>cs_value = ?n, cs_flags = RCSW_NOALLOC_HANDLE\<rparr>,
    mp_mutex = \<lparr>mx_owner = None, mx_flags = RCSW_NOALLOC_HANDLE\<rparr>, mp_flags = mpp_flags p\<rparr>"
  have "rcsw_alloc (map (\<lambda>_. 0 :: int)) None counts RCSW_ZALLOC = Some (Some (map (\<lambda>_. 0) c))"
    using g(11) by (simp add: rcsw_alloc_def noalloc_def has_flag_def flag_defs)
  moreover have "csem_init (Some ()) None ?n RCSW_NOALLOC_HANDLE = Some \<lparr>cs_value = ?n, cs_flags = RCSW_NOALLOC_HANDLE\<rparr>"
    using n by (intro csem_init_given) (simp add: SEM_VALUE_MAX_def)
  ultimately have "mpool_init pool_in handle block nodes counts True mem Hf Ha (Some p) = Some (Some ?q)"
    using g(1,2,4-6) l(1) l'(1) fl(1)
    by (simp add: mpool_init_def rcsw_alloc_mask mutex_init_given del: split_paired_Ex split_paired_All)
  moreover have ch: "chunk ?q = (\<lambda>i. e + i * ?s)" by (simp add: chunk_def fun_eq_iff)
  have "mpool_ok ?q [0..<?n] Map.empty"
    unfolding mpool_ok_def
  proof (intro conjI exI [of _ "[]"])
    show "chunks_on ?q (mp_free ?q) (mp_free_heap ?q) [0..<?n]" using fl(2,3) ch by (auto simp: chunks_on_def)
    show "chunks_on ?q (mp_alloc ?q) (mp_alloc_heap ?q) []" using l'(2,3) by (auto simp: chunks_on_def)
    show "mp_refs ?q = counts_of (mp_max_elts ?q) Map.empty" using g(12) by (simp add: map_replicate_const)
  qed (use g(1-3) in auto)
  ultimately show ?thesis by blast
qed

text \<open>
  C4: a pool made from valid parameters serves any sequence of requests, releases and changes of
  reference counts, by any threads, as a queue of free chunks and a map from the used chunks to
  their counts would: the operations the map allows succeed, a request returns the chunk that was
  free for the longest time, never one in use, a chunk is freed by the release of its last
  reference, and the pool is full or empty exactly when every or no chunk is in use.
\<close>

theorem mpool_refines_queue_and_counts:
  assumes "pool_memory pool_in handle block nodes counts Hf Ha p"
    and "mpool_specs (map snd ops) ([0..<mpp_max_elts p], Map.empty) = Some (xs, fs, m)"
  shows "\<exists>q q'. mpool_init pool_in handle block nodes counts True mem Hf Ha (Some p) = Some (Some q) \<and>
    mpool_run ops q = Some (map (address q) xs, q') \<and> distinct fs \<and> set fs \<inter> dom m = {} \<and>
    set fs \<union> dom m = {..<mpool_capacity q'} \<and> mpool_size q' = card (dom m) \<and>
    mpool_isfull q' = (fs = []) \<and> mpool_isempty q' = (m = Map.empty)"
proof -
  obtain q where q: "mpool_init pool_in handle block nodes counts True mem Hf Ha (Some p) = Some (Some q)"
      "mpool_ok q [0..<mpp_max_elts p] Map.empty"
    using mpool_init_ok [OF assms(1)] by blast
  obtain q' where q': "mpool_run ops q = Some (map (address q) xs, q')" "mpool_ok q' fs m"
    using mpool_run_ok [OF q(2) assms(2)] by blast
  then show ?thesis using q(1) mpool_counters [OF q'(2)] by blast
qed


definition two_chunk_pool :: mpool_params where
  "two_chunk_pool = \<lparr>mpp_elements = Some 100, mpp_meta = Some (([0, 0], 1), ([0, 0], 11)), mpp_elt_size = 8,
     mpp_max_elts = 2, mpp_flags = RCSW_NOALLOC_HANDLE OR RCSW_NOALLOC_DATA OR RCSW_NOALLOC_META\<rparr>"

definition two_blank_nodes :: "nat \<Rightarrow> unit lheap" where
  "two_blank_nodes a = (let nd = \<lparr>nd_next = None, nd_prev = None, nd_data = None\<rparr> in
     \<lparr>hp_nodes = [a \<mapsto> nd, a + 1 \<mapsto> nd], hp_blocks = Map.empty\<rparr>)"

definition one_used :: "nat \<Rightarrow> nat option" where
  "one_used = [0 \<mapsto> 1]"

definition blank_space :: llist_space_mgmt where
  "blank_space = \<lparr>sp_datablocks = 0, sp_db_map = [], sp_nodes = 0, sp_node_map = []\<rparr>"

theorem mpool_refines_queue_and_counts_witness:
  "\<exists>q q'. mpool_init (Some ()) None None None (Some [7, 7]) True blank_space (two_blank_nodes 1) (two_blank_nodes 11) (Some two_chunk_pool) = Some (Some q) \<and>
    mpool_run [(0, Req), (1, Req), (0, RefAdd 0), (1, Release 0), (1, Release 1)] q =
      Some (map (address q) [Chunk 0, Chunk 1, Done, Done, Done], q') \<and>
    distinct [1::nat] \<and> set [1] \<inter> dom one_used = {} \<and> set [1::nat] \<union> dom one_used = {..<mpool_capacity q'} \<and>
    mpool_size q' = card (dom one_used) \<and> mpool_isfull q' = ([1::nat] = []) \<and> mpool_isempty q' = (one_used = Map.empty)"
proof (rule mpool_refines_queue_and_counts)
  show "pool_memory (Some ()) None None None (Some [7, 7]) (two_blank_nodes 1) (two_blank_nodes 11) two_chunk_pool"
    by (auto simp: pool_memory_def two_chunk_pool_def two_blank_nodes_def has_flag_def flag_defs region_def Let_def)
  show "mpool_specs (map snd [(0, Req), (1, Req), (0, RefAdd 0), (1, Release 0), (1, Release 1)])
      ([0..<mpp_max_elts two_chunk_pool], Map.empty) = Some ([Chunk 0, Chunk 1, Done, Done, Done], [1], one_used)"
    by (simp add: one_used_def two_chunk_pool_def upt_rec fun_upd_def fun_eq_iff)
qed

text \<open>
  The arguments of \<open>mpool_element_space\<close> are swapped, so the address right after the last chunk
  passes for one of the pool and its release goes past the end of the counts.
\<close>

lemma mpool_release_past_end:
  assumes ok: "mpool_ok p fs m" and n: "0 < mp_max_elts p"
  shows "mpool_ref_query p (Some (chunk p (mp_max_elts p))) = Some (int (mp_max_elts p)) \<and>
    mpool_release t p (Some (chunk p (mp_max_elts p))) = None"
proof -
  let ?n = "mp_max_elts p" and ?s = "mp_elt_size p"
  have s: "0 < ?s" "?n * ?s < 2 ^ 31" "?s < 2 ^ 31" using ok mpool_size_bounds(2) [OF ok] n by (simp_all add: mpool_ok_def)
  have "(int ?n * int ?s) sdiv int ?s = int ?n" using s(1) by (simp add: signed_divide_int_def sgn_if abs_mult)
  moreover have "int_of_size (?n * ?s) = int ?n * int ?s" "int_of_size ?s = int ?s"
    using int_of_size_small s(2,3) by simp_all
  ultimately have q: "mpool_ref_query p (Some (chunk p ?n)) = Some (int ?n)"
    using s(1) by (simp add: mpool_ref_query_def Let_def chunk_def mpool_element_space_def mult.commute)
  then show ?thesis using ok by (simp add: mpool_release_def mutex_lock_def mpool_ok_def rd_def)
qed

text \<open>
  Releasing a chunk that is free, while another is in use, is not refused: the chunk is put on the
  free list once more, so that two later requests get it.
\<close>

lemma mpool_double_release:
  assumes ok: "mpool_ok p fs m" and i: "i \<in> set fs" and room: "m \<noteq> Map.empty"
  shows "\<exists>p'. mpool_release t p (Some (chunk p i)) = Some (OK, p') \<and>
    chunks_on p' (mp_free p') (mp_free_heap p') (fs @ [i]) \<and> cs_value (mp_slots p') = length fs + 1"
proof -
  obtain us where us: "chunks_on p (mp_alloc p) (mp_alloc_heap p) us" "distinct us" "set us = dom m"
    using ok by (auto simp: mpool_ok_def)
  have o: "chunks_on p (mp_free p) (mp_free_heap p) fs" "distinct fs" "set fs \<inter> dom m = {}"
      "set fs \<union> dom m = {..<mp_max_elts p}" "mp_refs p = counts_of (mp_max_elts p) m"
      "cs_value (mp_slots p) = length fs" "mx_owner (mp_mutex p) = None" "0 < mp_elt_size p"
    using ok by (simp_all add: mpool_ok_def)
  have n: "i < mp_max_elts p" "m i = None" using o(3,4) i by auto
  have "card (set fs) < card {..<mp_max_elts p}"
  proof (rule psubset_card_mono)
    show "set fs \<subset> {..<mp_max_elts p}" using o(3,4) room by (metis Un_upper1 dom_eq_empty_conv inf.absorb_iff2 inf.commute le_sup_iff order.refl psubsetI)
  qed simp
  then have len: "length fs < mp_max_elts p" using o(2) by (simp add: distinct_card)
  obtain f Hf where app: "llist_append no_malloc (mp_free p) (Some (chunk p i)) (mp_free_heap p) = Some (OK, f, Hf)"
      "chunks_on p f Hf (fs @ [i])"
    using chunks_append [OF o(1) len] by blast
  have us_free: "i \<notin> set us" "us \<noteq> []" using us(3) room n(2) dom_eq_empty_conv [of m] by (auto simp del: dom_eq_empty_conv)
  have rem: "llist_remove (mp_alloc p) (Some (chunk p i)) (mp_alloc_heap p) = Some (OK, mp_alloc p, mp_alloc_heap p)"
    using chunks_remove_absent [OF us(1) _ o(8)] us_free by blast
  have post: "csem_post (mp_slots p) = [(OK, (mp_slots p)\<lparr>cs_value := length fs + 1\<rparr>)]"
    using len mpool_size_bounds(1) [OF ok] o(6) by (simp add: csem_post_def SEM_VALUE_MAX_def)
  have rd: "rd (mp_refs p) (int i) = Some 0" "length (mp_refs p) = mp_max_elts p"
    using n counts_update(4) [of i "mp_max_elts p" m] o(5) by simp_all
  let ?p = "p\<lparr>mp_free := f, mp_free_heap := Hf, mp_refs := (mp_refs p)[i := 0], mp_slots := (mp_slots p)\<lparr>cs_value := length fs + 1\<rparr>,
    mp_mutex := (mp_mutex p)\<lparr>mx_owner := None\<rparr>\<rparr>"
  have "mpool_release t p (Some (chunk p i)) = Some (OK, ?p)"
    using ref_query_chunk [OF ok n(1)] o(7) rem app(1) post rd n(1)
    by (simp add: mpool_release_def mutex_lock_def mutex_unlock_def)
  moreover have "chunks_on ?p (mp_free ?p) (mp_free_heap ?p) (fs @ [i])"
    using app(2) by (simp add: chunks_on_def chunk_def [abs_def])
  ultimately show ?thesis by (intro exI [of _ ?p]) simp
qed

end
