(* ===== verification/Matrix.thy ===== *)
theory Matrix
  imports Alloc
begin

text \<open>
  Matrices of a fixed size (src/ds/matrix.c, include/rcsw/ds/matrix.h): a block of elements in row
  order. An element is a value, its address the index in the block; \<open>None\<close> is \<open>NULL\<close>. Printing is
  not modelled. The lemmas show that every access is inside the block and that the transposition
  exchanges rows and columns.
\<close>

subsection \<open>State and operations\<close>

record 'a matrix_params =
  mtp_elements :: "'a list option"
  mtp_elt_size :: nat
  mtp_flags :: u32
  mtp_n_rows :: nat
  mtp_n_cols :: nat

record 'a matrix =
  mt_n_rows :: nat
  mt_n_cols :: nat
  mt_elements :: "'a list"
  mt_flags :: u32
  mt_elt_size :: nat

text \<open>
  Parameters: the element all of whose bytes are 0, the handle memory, the answers of \<open>malloc\<close>.
  \<open>None\<close> is the fault of clearing a block that \<open>malloc\<close> did not give; memory of the
  application is not cleared.
\<close>

definition matrix_init ::
  "'a \<Rightarrow> unit option \<Rightarrow> unit option \<Rightarrow> 'a list option \<Rightarrow> 'a matrix_params option \<Rightarrow> 'a matrix option option" where
  "matrix_init zero matrix_in handle block params =
     (case params of
        None \<Rightarrow> Some None
      | Some p \<Rightarrow>
          if \<not> (mtp_n_rows p > 0 \<and> mtp_n_cols p > 0) then Some None
          else do {
            h \<leftarrow> rcsw_alloc id matrix_in handle (mtp_flags p AND RCSW_NOALLOC_HANDLE);
            case h of
              None \<Rightarrow> Some None
            | Some _ \<Rightarrow> do {
                es \<leftarrow> rcsw_alloc (map (\<lambda>_. zero)) (mtp_elements p) block
                  ((mtp_flags p AND RCSW_NOALLOC_DATA) OR RCSW_ZALLOC);
                case es of
                  None \<Rightarrow> Some None
                | Some es \<Rightarrow> Some (Some \<lparr>mt_n_rows = mtp_n_rows p, mt_n_cols = mtp_n_cols p, mt_elements = es,
                    mt_flags = mtp_flags p, mt_elt_size = mtp_elt_size p\<rparr>)
              }
          })"

text \<open>Whether the block and the handle are handed to \<open>free\<close>.\<close>

definition matrix_destroy :: "'a matrix option \<Rightarrow> bool \<times> bool" where
  "matrix_destroy matrix =
     (case matrix of
        None \<Rightarrow> (False, False)
      | Some m \<Rightarrow> (rcsw_free (Some (mt_elements m)) (mt_flags m AND RCSW_NOALLOC_DATA),
                   rcsw_free (Some ()) (mt_flags m AND RCSW_NOALLOC_HANDLE)))"

definition matrix_access :: "'a matrix \<Rightarrow> nat \<Rightarrow> nat \<Rightarrow> nat option" where
  "matrix_access m u v = (if u < mt_n_rows m \<and> v < mt_n_cols m then Some (mt_n_cols m * u + v) else None)"

definition matrix_element_space :: "nat \<Rightarrow> nat \<Rightarrow> nat \<Rightarrow> nat" where
  "matrix_element_space n_rows n_cols elt_size = (n_rows * n_cols) * elt_size"

text \<open>Reading and writing through the address; a \<open>NULL\<close> address is a fault.\<close>

definition elt_at :: "'a matrix \<Rightarrow> nat option \<Rightarrow> 'a option" where
  "elt_at m p = (case p of None \<Rightarrow> None | Some i \<Rightarrow> rd (mt_elements m) (int i))"

definition put_at :: "'a matrix \<Rightarrow> nat option \<Rightarrow> 'a \<Rightarrow> 'a matrix option" where
  "put_at m p x = (case p of None \<Rightarrow> None
     | Some i \<Rightarrow> map_option (\<lambda>es. m\<lparr>mt_elements := es\<rparr>) (wr (mt_elements m) (int i) x))"

definition matrix_elt_clear :: "'a \<Rightarrow> 'a matrix \<Rightarrow> nat \<Rightarrow> nat \<Rightarrow> (status \<times> 'a matrix) option" where
  "matrix_elt_clear zero m u v =
     (if u < mt_n_rows m \<and> v < mt_n_cols m then map_option (Pair OK) (put_at m (matrix_access m u v) zero)
      else Some (fpc_error, m))"

definition matrix_set :: "'a matrix \<Rightarrow> nat \<Rightarrow> nat \<Rightarrow> 'a option \<Rightarrow> (status \<times> 'a matrix) option" where
  "matrix_set m u v w =
     (case w of
        None \<Rightarrow> Some (fpc_error, m)
      | Some x \<Rightarrow>
          if u < mt_n_rows m \<and> v < mt_n_cols m then map_option (Pair OK) (put_at m (matrix_access m u v) x)
          else Some (fpc_error, m))"

definition matrix_issquare :: "'a matrix \<Rightarrow> bool" where
  "matrix_issquare m \<longleftrightarrow> mt_n_cols m = mt_n_rows m"

text \<open>
  \<open>ds_elt_swap\<close> exchanges elements of 1, 2, 4 and 8 bytes and does nothing for other sizes; its
  result is not tested.
\<close>

definition swap_elts :: "'a matrix \<Rightarrow> nat option \<Rightarrow> nat option \<Rightarrow> 'a matrix option" where
  "swap_elts m p q =
     (if mt_elt_size m \<in> {1, 2, 4, 8} then do {
        x \<leftarrow> elt_at m p;
        y \<leftarrow> elt_at m q;
        m \<leftarrow> put_at m p y;
        put_at m q x
      }
      else Some m)"

definition matrix_transpose :: "'a matrix \<Rightarrow> (status \<times> 'a matrix) option" where
  "matrix_transpose m =
     (if \<not> matrix_issquare m then Some (fpc_error, m)
      else do {
        m \<leftarrow> for_range 1 (mt_n_rows m)
          (\<lambda>i m. for_range 0 i (\<lambda>j m. swap_elts m (matrix_access m i j) (matrix_access m j i)) m) m;
        Some (OK, m)
      })"

subsection \<open>Entries\<close>

text \<open>A matrix whose block has the right length, and its entries.\<close>

definition matrix_ok :: "'a matrix \<Rightarrow> bool" where
  "matrix_ok m \<longleftrightarrow> length (mt_elements m) = mt_n_rows m * mt_n_cols m"

definition entry :: "'a matrix \<Rightarrow> nat \<Rightarrow> nat \<Rightarrow> 'a" where
  "entry m i j = mt_elements m ! (mt_n_cols m * i + j)"

definition same_shape :: "'a matrix \<Rightarrow> 'a matrix \<Rightarrow> bool" where
  "same_shape m m' \<longleftrightarrow> m' = m\<lparr>mt_elements := mt_elements m'\<rparr> \<and> length (mt_elements m') = length (mt_elements m)"

lemma same_shapeD:
  "same_shape m m' \<Longrightarrow> mt_n_rows m' = mt_n_rows m \<and> mt_n_cols m' = mt_n_cols m \<and> mt_elt_size m' = mt_elt_size m \<and>
     mt_flags m' = mt_flags m \<and> length (mt_elements m') = length (mt_elements m) \<and> matrix_ok m' = matrix_ok m"
  unfolding same_shape_def matrix_ok_def by (metis matrix.select_convs(1,2,4,5) matrix.surjective matrix.update_convs(3))

lemma same_shape_refl [simp]: "same_shape m m"
  by (simp add: same_shape_def)

lemma same_shape_trans: "same_shape a b \<Longrightarrow> same_shape b c \<Longrightarrow> same_shape a c"
  unfolding same_shape_def by (metis matrix.surjective matrix.update_convs(3))

lemma index_bound:
  assumes "u < r" and "v < (c :: nat)"
  shows "c * u + v < r * c"
proof -
  have "c * u + v < c * Suc u" using assms(2) by simp
  also have "\<dots> \<le> c * r" using assms(1) by (intro mult_le_mono2) simp
  finally show ?thesis by (simp add: mult.commute)
qed

lemma index_inj:
  assumes "v < c" and "v' < (c :: nat)"
  shows "c * u + v = c * u' + v' \<longleftrightarrow> u = u' \<and> v = v'"
proof
  assume eq: "c * u + v = c * u' + v'"
  have "(c * u + v) div c = u" "(c * u' + v') div c = u'" using assms by simp_all
  then have "u = u'" using eq by simp
  then show "u = u' \<and> v = v'" using eq by simp
qed simp

text \<open>What a write does to the entries.\<close>

lemma put_at_ok:
  assumes "matrix_ok m" and "u < mt_n_rows m" and "v < mt_n_cols m"
  shows "\<exists>m'. put_at m (matrix_access m u v) x = Some m' \<and> same_shape m m' \<and>
    (\<forall>i j. j < mt_n_cols m \<longrightarrow> entry m' i j = (if i = u \<and> j = v then x else entry m i j))"
proof -
  let ?k = "mt_n_cols m * u + v"
  let ?m = "m\<lparr>mt_elements := (mt_elements m)[?k := x]\<rparr>"
  have k: "?k < length (mt_elements m)" using assms index_bound by (simp add: matrix_ok_def)
  then have "put_at m (matrix_access m u v) x = Some ?m" using assms(2,3) by (simp add: put_at_def matrix_access_def del: of_nat_add of_nat_mult)
  moreover have "entry ?m i j = (if i = u \<and> j = v then x else entry m i j)" if "j < mt_n_cols m" for i j
    using k index_inj [OF that assms(3), of i u] by (auto simp: entry_def nth_list_update)
  ultimately show ?thesis by (auto simp: same_shape_def)
qed

lemma elt_at_ok:
  "matrix_ok m \<Longrightarrow> u < mt_n_rows m \<Longrightarrow> v < mt_n_cols m \<Longrightarrow> elt_at m (matrix_access m u v) = Some (entry m u v)"
  using index_bound [of u "mt_n_rows m" v "mt_n_cols m"] by (simp add: elt_at_def matrix_access_def entry_def matrix_ok_def del: of_nat_add of_nat_mult)

lemma matrix_set_ok:
  assumes "matrix_ok m" and "u < mt_n_rows m" and "v < mt_n_cols m"
  shows "\<exists>m'. matrix_set m u v (Some x) = Some (OK, m') \<and> same_shape m m' \<and>
    (\<forall>i j. j < mt_n_cols m \<longrightarrow> entry m' i j = (if i = u \<and> j = v then x else entry m i j))"
  using put_at_ok [OF assms, of x] assms(2,3) by (auto simp: matrix_set_def)

lemma matrix_clear_ok:
  assumes "matrix_ok m" and "u < mt_n_rows m" and "v < mt_n_cols m"
  shows "\<exists>m'. matrix_elt_clear zero m u v = Some (OK, m') \<and> same_shape m m' \<and>
    (\<forall>i j. j < mt_n_cols m \<longrightarrow> entry m' i j = (if i = u \<and> j = v then zero else entry m i j))"
  using put_at_ok [OF assms, of zero] assms(2,3) by (auto simp: matrix_elt_clear_def)

subsection \<open>Transposition\<close>

lemma swap_elts_ok:
  assumes ok: "matrix_ok m" and sz: "mt_elt_size m \<in> {1, 2, 4, 8}" and sq: "mt_n_cols m = mt_n_rows m"
    and ij: "i < mt_n_rows m" "j < mt_n_rows m"
  shows "\<exists>m'. swap_elts m (matrix_access m i j) (matrix_access m j i) = Some m' \<and> same_shape m m' \<and>
    (\<forall>a b. b < mt_n_rows m \<longrightarrow> entry m' a b =
       (if a = j \<and> b = i then entry m i j else if a = i \<and> b = j then entry m j i else entry m a b))"
proof -
  obtain m1 where m1: "put_at m (matrix_access m i j) (entry m j i) = Some m1" "same_shape m m1"
      "\<And>a b. b < mt_n_cols m \<Longrightarrow> entry m1 a b = (if a = i \<and> b = j then entry m j i else entry m a b)"
    using put_at_ok [OF ok ij(1), of j "entry m j i"] ij sq by auto
  note s1 = same_shapeD [OF m1(2)]
  obtain m2 where m2: "put_at m1 (matrix_access m1 j i) (entry m i j) = Some m2" "same_shape m1 m2"
      "\<And>a b. b < mt_n_cols m \<Longrightarrow> entry m2 a b = (if a = j \<and> b = i then entry m i j else entry m1 a b)"
    using put_at_ok [of m1 j i "entry m i j"] ok ij sq s1 by auto
  have "matrix_access m1 j i = matrix_access m j i" using s1 by (simp add: matrix_access_def)
  then have "swap_elts m (matrix_access m i j) (matrix_access m j i) = Some m2"
    using sz m1(1) m2(1) elt_at_ok [OF ok, of i j] elt_at_ok [OF ok, of j i] ij sq by (simp add: swap_elts_def)
  then show ?thesis using same_shape_trans [OF m1(2) m2(2)] m1(3) m2(3) sq by auto
qed

lemma transpose_row_ok:
  assumes "matrix_ok m" and "mt_elt_size m \<in> {1, 2, 4, 8}" and "mt_n_cols m = mt_n_rows m" and "i < mt_n_rows m"
  shows "\<exists>m'. for_range 0 i (\<lambda>j m. swap_elts m (matrix_access m i j) (matrix_access m j i)) m = Some m' \<and> same_shape m m' \<and>
    (\<forall>a b. b < mt_n_rows m \<longrightarrow> entry m' a b = (if a = i \<and> b < i \<or> b = i \<and> a < i then entry m b a else entry m a b))"
proof -
  let ?P = "\<lambda>k m'. same_shape m m' \<and>
    (\<forall>a b. b < mt_n_rows m \<longrightarrow> entry m' a b = (if a = i \<and> b < k \<or> b = i \<and> a < k then entry m b a else entry m a b))"
  have "\<exists>m'. for_range 0 i (\<lambda>j m. swap_elts m (matrix_access m i j) (matrix_access m j i)) m = Some m' \<and> ?P i m'"
  proof (rule for_range_inv [where P = ?P])
    fix k m' assume k: "k < i" and P: "?P k m'"
    note s = same_shapeD [OF conjunct1 [OF P]]
    obtain m2 where m2: "swap_elts m' (matrix_access m' i k) (matrix_access m' k i) = Some m2" "same_shape m' m2"
        "\<And>a b. b < mt_n_rows m' \<Longrightarrow> entry m2 a b =
          (if a = k \<and> b = i then entry m' i k else if a = i \<and> b = k then entry m' k i else entry m' a b)"
      using swap_elts_ok [of m' i k] assms k s by auto
    have "entry m2 a b = (if a = i \<and> b < Suc k \<or> b = i \<and> a < Suc k then entry m b a else entry m a b)"
      if b: "b < mt_n_rows m" for a b
      using m2(3) [of b a] P b s k assms(4) by (auto simp: less_Suc_eq)
    then show "\<exists>m2. swap_elts m' (matrix_access m' i k) (matrix_access m' k i) = Some m2 \<and> ?P (Suc k) m2"
      using m2(1,2) P same_shape_trans [of m m' m2] by blast
  qed simp_all
  then show ?thesis by blast
qed

lemma transpose_ok:
  assumes "matrix_ok m" and "mt_elt_size m \<in> {1, 2, 4, 8}" and "mt_n_cols m = mt_n_rows m"
  shows "\<exists>m'. matrix_transpose m = Some (OK, m') \<and> same_shape m m' \<and>
    (\<forall>a b. a < mt_n_rows m \<longrightarrow> b < mt_n_rows m \<longrightarrow> entry m' a b = entry m b a)"
proof (cases "mt_n_rows m = 0")
  case True
  then show ?thesis using assms(3) by (auto simp: matrix_transpose_def matrix_issquare_def)
next
  case False
  let ?row = "\<lambda>i m. for_range 0 i (\<lambda>j m. swap_elts m (matrix_access m i j) (matrix_access m j i)) m"
  let ?P = "\<lambda>k m'. same_shape m m' \<and>
    (\<forall>a b. a < mt_n_rows m \<longrightarrow> b < mt_n_rows m \<longrightarrow> entry m' a b = (if a < k \<and> b < k then entry m b a else entry m a b))"
  have "\<exists>m'. for_range 1 (mt_n_rows m) ?row m = Some m' \<and> ?P (mt_n_rows m) m'"
  proof (rule for_range_inv [where P = ?P])
    show "1 \<le> mt_n_rows m" using False by simp
    show "?P 1 m" by simp
  next
    fix k m' assume k: "1 \<le> k" "k < mt_n_rows m" and P: "?P k m'"
    note s = same_shapeD [OF conjunct1 [OF P]]
    obtain m2 where m2: "?row k m' = Some m2" "same_shape m' m2"
        "\<And>a b. b < mt_n_rows m' \<Longrightarrow> entry m2 a b = (if a = k \<and> b < k \<or> b = k \<and> a < k then entry m' b a else entry m' a b)"
      using transpose_row_ok [of m' k] assms k s by auto
    have "entry m2 a b = (if a < Suc k \<and> b < Suc k then entry m b a else entry m a b)"
      if "a < mt_n_rows m" "b < mt_n_rows m" for a b
      using m2(3) [of b a] P that s k by (auto simp: less_Suc_eq)
    then show "\<exists>m2. ?row k m' = Some m2 \<and> ?P (Suc k) m2"
      using m2(1,2) P same_shape_trans [of m m' m2] by blast
  qed
  then obtain m' where m': "for_range 1 (mt_n_rows m) ?row m = Some m'" "?P (mt_n_rows m) m'" by blast
  then show ?thesis using assms(3) by (auto simp: matrix_transpose_def matrix_issquare_def)
qed

text \<open>A matrix of elements of another size is left as it is, and the result is still \<open>OK\<close>.\<close>

lemma transpose_other_size:
  assumes "mt_elt_size m \<notin> {1, 2, 4, 8}" and "matrix_issquare m"
  shows "matrix_transpose m = Some (OK, m)"
proof -
  have sw: "swap_elts m p q = Some m" for p q using assms(1) by (simp add: swap_elts_def)
  have "for_range 0 i (\<lambda>j m. swap_elts m (matrix_access m i j) (matrix_access m j i)) m = Some m" for i
  proof -
    have "\<exists>t. for_range 0 i (\<lambda>j m. swap_elts m (matrix_access m i j) (matrix_access m j i)) m = Some t \<and> t = m"
      by (rule for_range_inv [where P = "\<lambda>_ t. t = m"]) (simp_all add: sw)
    then show ?thesis by simp
  qed
  note row = this
  have "\<exists>t. for_range 1 (mt_n_rows m) (\<lambda>i m. for_range 0 i (\<lambda>j m. swap_elts m (matrix_access m i j) (matrix_access m j i)) m) m
      = Some t \<and> t = m" if "1 \<le> mt_n_rows m"
    by (rule for_range_inv [where P = "\<lambda>_ t. t = m"]) (use that row in auto)
  then show ?thesis using assms(2) by (cases "mt_n_rows m") (auto simp: matrix_transpose_def)
qed

end
