(* ===== verification/Adj_Matrix.thy ===== *)
theory Adj_Matrix
  imports Matrix
begin

text \<open>
  Graphs as adjacency matrices (src/ds/adj_matrix.c, include/rcsw/ds/adj_matrix.h). An unweighted
  graph stores an \<open>int\<close> for each pair of vertices, a weighted one a \<open>double\<close> that is \<open>NAN\<close>
  when there is no edge; no arithmetic is done on doubles. Printing is not modelled. Any sequence
  of operations maintains a set of edges.
\<close>

subsection \<open>State and operations\<close>

datatype 'd double = NAN | Number 'd

datatype 'd adj_cell = Count int | Weight "'d double"

record 'd adj_matrix_params =
  amp_elements :: "'d adj_cell list option"
  amp_flags :: u32
  amp_n_vertices :: nat
  amp_is_directed :: bool
  amp_is_weighted :: bool

record 'd adj_matrix =
  am_is_directed :: bool
  am_is_weighted :: bool
  am_n_edges :: nat
  am_elt_size :: nat
  am_n_vertices :: nat
  am_matrix :: "'d adj_cell matrix"
  am_flags :: u32

text \<open>
  \<open>z\<close> is the \<open>double\<close> all of whose bytes are 0. Without vertices the matrix inside is destroyed
  uninitialised, a fault.
\<close>

definition adj_matrix_init ::
  "'d \<Rightarrow> unit option \<Rightarrow> unit option \<Rightarrow> 'd adj_cell list option \<Rightarrow> 'd adj_matrix_params option \<Rightarrow> 'd adj_matrix option option" where
  "adj_matrix_init z matrix_in handle block params =
     (case params of
        None \<Rightarrow> Some None
      | Some p \<Rightarrow> do {
          h \<leftarrow> rcsw_alloc id matrix_in handle (amp_flags p AND RCSW_NOALLOC_HANDLE);
          case h of
            None \<Rightarrow> Some None
          | Some _ \<Rightarrow>
              let elt_size = (if amp_is_weighted p then 8 else 4); n = amp_n_vertices p in do {
                mat \<leftarrow> matrix_init (if amp_is_weighted p then Weight (Number z) else Count 0) (Some ()) None block
                  (Some \<lparr>mtp_elements = amp_elements p, mtp_elt_size = elt_size,
                    mtp_flags = amp_flags p OR RCSW_NOALLOC_HANDLE, mtp_n_rows = n, mtp_n_cols = n\<rparr>);
                case mat of
                  None \<Rightarrow> if n = 0 then None else Some None
                | Some m \<Rightarrow> do {
                    m \<leftarrow> (if amp_is_weighted p
                      then for_range 0 n (\<lambda>i m. for_range 0 n (\<lambda>j m.
                        (case matrix_access m i j of None \<Rightarrow> Some m | Some k \<Rightarrow> put_at m (Some k) (Weight NAN))) m) m
                      else Some m);
                    Some (Some \<lparr>am_is_directed = amp_is_directed p, am_is_weighted = amp_is_weighted p, am_n_edges = 0,
                      am_elt_size = elt_size, am_n_vertices = n, am_matrix = m, am_flags = amp_flags p\<rparr>)
                  }
              }
        })"

definition adj_matrix_destroy :: "'d adj_matrix option \<Rightarrow> bool list" where
  "adj_matrix_destroy matrix =
     (case matrix of
        None \<Rightarrow> []
      | Some a \<Rightarrow> [fst (matrix_destroy (Some (am_matrix a))), snd (matrix_destroy (Some (am_matrix a))),
          rcsw_free (Some ()) (am_flags a AND RCSW_NOALLOC_HANDLE)])"

definition adj_matrix_access :: "'d adj_matrix \<Rightarrow> nat \<Rightarrow> nat \<Rightarrow> nat option" where
  "adj_matrix_access a u v = (if u < am_n_vertices a \<and> v < am_n_vertices a then matrix_access (am_matrix a) u v else None)"

definition adj_matrix_element_space :: "nat \<Rightarrow> bool \<Rightarrow> nat" where
  "adj_matrix_element_space n_vertices is_weighted = matrix_element_space n_vertices n_vertices (if is_weighted then 8 else 4)"

text \<open>Reading a \<open>double\<close>, or testing the bytes of an \<open>int\<close> for zero; reading the other kind is a fault.\<close>

fun cell_isnan :: "'d adj_cell \<Rightarrow> bool option" where
  "cell_isnan (Weight w) = Some (w = NAN)"
| "cell_isnan (Count _) = None"

fun cell_zchk :: "'d adj_cell \<Rightarrow> bool option" where
  "cell_zchk (Count k) = Some (k = 0)"
| "cell_zchk (Weight _) = None"

definition adj_matrix_edge_query :: "'d adj_matrix \<Rightarrow> nat \<Rightarrow> nat \<Rightarrow> bool option" where
  "adj_matrix_edge_query a u v =
     (if \<not> (u < am_n_vertices a \<and> v < am_n_vertices a) then Some False
      else do {
        c \<leftarrow> elt_at (am_matrix a) (adj_matrix_access a u v);
        b \<leftarrow> (if am_is_weighted a then cell_isnan c else cell_zchk c);
        Some (\<not> b)
      })"

definition adj_matrix_n_edges :: "'d adj_matrix \<Rightarrow> nat" where
  "adj_matrix_n_edges a = am_n_edges a"

definition adj_matrix_isempty :: "'d adj_matrix \<Rightarrow> bool" where
  "adj_matrix_isempty a \<longleftrightarrow> am_n_edges a = 0"

definition adj_matrix_transpose :: "'d adj_matrix \<Rightarrow> (status \<times> 'd adj_matrix) option" where
  "adj_matrix_transpose a = map_option (\<lambda>(st, m). (st, a\<lparr>am_matrix := m\<rparr>)) (matrix_transpose (am_matrix a))"

text \<open>
  The counter is a \<open>size_t\<close>. Copying the \<open>int\<close> 1 to an element of 8 bytes reads past it, a fault.
\<close>

definition bump :: "int \<Rightarrow> nat \<Rightarrow> nat" where
  "bump d n = size_of_int (int n + d)"

definition set_one :: "'d adj_matrix \<Rightarrow> nat \<Rightarrow> nat \<Rightarrow> (status \<times> 'd adj_matrix) option" where
  "set_one a u v =
     (if am_is_weighted a then None
      else map_option (\<lambda>(st, m). (st, a\<lparr>am_matrix := m\<rparr>)) (matrix_set (am_matrix a) u v (Some (Count 1))))"

definition adj_matrix_edge_addu :: "'d adj_matrix \<Rightarrow> nat \<Rightarrow> nat \<Rightarrow> (status \<times> 'd adj_matrix) option" where
  "adj_matrix_edge_addu a u v =
     (if \<not> (\<not> am_is_directed a \<and> u < am_n_vertices a \<and> v < am_n_vertices a) then Some (fpc_error, a)
      else do {
        (st, a) \<leftarrow> set_one a u v;
        if st \<noteq> OK then Some (st, a)
        else do {
          let a = a\<lparr>am_n_edges := bump 1 (am_n_edges a)\<rparr>;
          (st, a) \<leftarrow> set_one a v u;
          if st \<noteq> OK then Some (st, a)
          else Some (OK, a\<lparr>am_n_edges := bump 1 (am_n_edges a)\<rparr>)
        }
      })"

definition adj_matrix_edge_addd :: "'d adj_matrix \<Rightarrow> nat \<Rightarrow> nat \<Rightarrow> 'd double option \<Rightarrow> (status \<times> 'd adj_matrix) option" where
  "adj_matrix_edge_addd a u v w =
     (if \<not> (am_is_directed a \<and> u < am_n_vertices a \<and> v < am_n_vertices a) then Some (fpc_error, a)
      else do {
        (st, a) \<leftarrow> (if am_is_weighted a
          then map_option (\<lambda>(st, m). (st, a\<lparr>am_matrix := m\<rparr>)) (matrix_set (am_matrix a) u v (map_option Weight w))
          else set_one a u v);
        if st \<noteq> OK then Some (st, a)
        else Some (OK, a\<lparr>am_n_edges := bump 1 (am_n_edges a)\<rparr>)
      })"

text \<open>How one direction of an edge is removed.\<close>

definition unset :: "'d adj_matrix \<Rightarrow> nat \<Rightarrow> nat \<Rightarrow> (status \<times> 'd adj_matrix) option" where
  "unset a u v =
     (if am_is_weighted a
      then map_option (\<lambda>m. (OK, a\<lparr>am_matrix := m\<rparr>)) (put_at (am_matrix a) (matrix_access (am_matrix a) u v) (Weight NAN))
      else map_option (\<lambda>(st, m). (st, a\<lparr>am_matrix := m\<rparr>)) (matrix_elt_clear (Count 0) (am_matrix a) u v))"

definition adj_matrix_edge_remove :: "'d adj_matrix \<Rightarrow> nat \<Rightarrow> nat \<Rightarrow> (status \<times> 'd adj_matrix) option" where
  "adj_matrix_edge_remove a u v =
     (if \<not> (u < am_n_vertices a \<and> v < am_n_vertices a) then Some (fpc_error, a)
      else do {
        (st, a) \<leftarrow> unset a u v;
        if st \<noteq> OK then Some (st, a)
        else
          let a = a\<lparr>am_n_edges := bump (-1) (am_n_edges a)\<rparr> in
          if am_is_directed a then Some (OK, a)
          else do {
            (st, a) \<leftarrow> unset a v u;
            if st \<noteq> OK then Some (st, a)
            else Some (OK, a\<lparr>am_n_edges := bump (-1) (am_n_edges a)\<rparr>)
          }
      })"

subsection \<open>Graphs\<close>

datatype 'd adj_op = AddU nat nat | AddD nat nat "'d double" | Remove nat nat | Query nat nat | Transpose

datatype adj_out = Result status | Answer bool

fun adj_step :: "'d adj_op \<Rightarrow> 'd adj_matrix \<Rightarrow> (adj_out \<times> 'd adj_matrix) option" where
  "adj_step (AddU u v) a = map_option (map_prod Result id) (adj_matrix_edge_addu a u v)"
| "adj_step (AddD u v w) a = map_option (map_prod Result id) (adj_matrix_edge_addd a u v (Some w))"
| "adj_step (Remove u v) a = map_option (map_prod Result id) (adj_matrix_edge_remove a u v)"
| "adj_step (Query u v) a = map_option (\<lambda>b. (Answer b, a)) (adj_matrix_edge_query a u v)"
| "adj_step Transpose a = map_option (map_prod Result id) (adj_matrix_transpose a)"

fun adj_run :: "'d adj_op list \<Rightarrow> 'd adj_matrix \<Rightarrow> (adj_out list \<times> 'd adj_matrix) option" where
  "adj_run [] a = Some ([], a)"
| "adj_run (op # ops) a = do {
     (x, a) \<leftarrow> adj_step op a;
     (xs, a) \<leftarrow> adj_run ops a;
     Some (x # xs, a)
   }"

text \<open>
  The set of edges of a graph of \<open>n\<close> vertices, directed or not, weighted or not, and the counter.
  An edge of weight \<open>NAN\<close> is none.
\<close>

fun graph_step :: "nat \<Rightarrow> bool \<Rightarrow> bool \<Rightarrow> 'd adj_op \<Rightarrow> (nat \<times> nat) set \<times> nat \<Rightarrow> adj_out \<times> (nat \<times> nat) set \<times> nat" where
  "graph_step n dir weighted (AddU u v) (G, c) =
     (if \<not> dir \<and> u < n \<and> v < n then (Result OK, G \<union> {(u, v), (v, u)}, bump 2 c) else (Result fpc_error, G, c))"
| "graph_step n dir weighted (AddD u v w) (G, c) =
     (if dir \<and> u < n \<and> v < n
      then (Result OK, if weighted \<and> w = NAN then G - {(u, v)} else insert (u, v) G, bump 1 c)
      else (Result fpc_error, G, c))"
| "graph_step n dir weighted (Remove u v) (G, c) =
     (if u < n \<and> v < n
      then (Result OK, if dir then G - {(u, v)} else G - {(u, v), (v, u)}, bump (if dir then -1 else -2) c)
      else (Result fpc_error, G, c))"
| "graph_step n dir weighted (Query u v) (G, c) = (Answer ((u, v) \<in> G), G, c)"
| "graph_step n dir weighted Transpose (G, c) = (Result OK, G\<inverse>, c)"

fun graph_run :: "nat \<Rightarrow> bool \<Rightarrow> bool \<Rightarrow> 'd adj_op list \<Rightarrow> (nat \<times> nat) set \<times> nat \<Rightarrow> adj_out list \<times> (nat \<times> nat) set \<times> nat" where
  "graph_run n dir weighted [] s = ([], s)"
| "graph_run n dir weighted (op # ops) s =
     (let (x, s) = graph_step n dir weighted op s; (xs, s) = graph_run n dir weighted ops s in (x # xs, s))"

text \<open>
  Sequences that add only edges that are not there and remove only edges that are, and no loop in
  an undirected graph.
\<close>

fun careful_step :: "nat \<Rightarrow> bool \<Rightarrow> bool \<Rightarrow> 'd adj_op \<Rightarrow> (nat \<times> nat) set \<Rightarrow> bool" where
  "careful_step n dir weighted (AddU u v) G \<longleftrightarrow> u < n \<and> v < n \<and> u \<noteq> v \<and> \<not> dir \<and> (u, v) \<notin> G"
| "careful_step n dir weighted (AddD u v w) G \<longleftrightarrow> u < n \<and> v < n \<and> dir \<and> (u, v) \<notin> G \<and> \<not> (weighted \<and> w = NAN)"
| "careful_step n dir weighted (Remove u v) G \<longleftrightarrow> (u, v) \<in> G"
| "careful_step n dir weighted _ G \<longleftrightarrow> True"

fun careful :: "nat \<Rightarrow> bool \<Rightarrow> bool \<Rightarrow> 'd adj_op list \<Rightarrow> (nat \<times> nat) set \<times> nat \<Rightarrow> bool" where
  "careful n dir weighted [] s \<longleftrightarrow> True"
| "careful n dir weighted (op # ops) s \<longleftrightarrow>
     careful_step n dir weighted op (fst s) \<and> careful n dir weighted ops (snd (graph_step n dir weighted op s))"

text \<open>A graph of \<open>n\<close> vertices with the edges \<open>G\<close>.\<close>

definition cells_ok :: "'d adj_matrix \<Rightarrow> (nat \<times> nat) set \<Rightarrow> bool" where
  "cells_ok a G \<longleftrightarrow>
     matrix_ok (am_matrix a) \<and> mt_n_rows (am_matrix a) = am_n_vertices a \<and> mt_n_cols (am_matrix a) = am_n_vertices a \<and>
     mt_elt_size (am_matrix a) \<in> {4, 8} \<and> G \<subseteq> {..<am_n_vertices a} \<times> {..<am_n_vertices a} \<and>
     (\<forall>u < am_n_vertices a. \<forall>v < am_n_vertices a.
        if am_is_weighted a then (\<exists>w. entry (am_matrix a) u v = Weight w \<and> (w = NAN) = ((u, v) \<notin> G))
        else (\<exists>k. entry (am_matrix a) u v = Count k \<and> (k = 0) = ((u, v) \<notin> G)))"

definition adj_ok :: "'d adj_matrix \<Rightarrow> (nat \<times> nat) set \<times> nat \<Rightarrow> bool" where
  "adj_ok a s \<longleftrightarrow> cells_ok a (fst s) \<and> (am_is_directed a \<or> \<not> am_is_weighted a \<and> sym (fst s)) \<and> am_n_edges a = snd s"

text \<open>What the operations do not change.\<close>

definition same_graph :: "'d adj_matrix \<Rightarrow> 'd adj_matrix \<Rightarrow> bool" where
  "same_graph a b \<longleftrightarrow> am_is_directed b = am_is_directed a \<and> am_is_weighted b = am_is_weighted a \<and> am_n_vertices b = am_n_vertices a"

subsection \<open>Correctness of the operations\<close>

text \<open>Writing one cell, as an edge or as none.\<close>

lemma cells_write:
  assumes ok: "cells_ok a G" and uv: "u < am_n_vertices a" "v < am_n_vertices a"
    and m: "same_shape (am_matrix a) m"
      "\<forall>i j. j < mt_n_cols (am_matrix a) \<longrightarrow> entry m i j = (if i = u \<and> j = v then x else entry (am_matrix a) i j)"
    and x: "if am_is_weighted a then (\<exists>w. x = Weight w \<and> (w = NAN) = (\<not> b)) else (\<exists>k. x = Count k \<and> (k = 0) = (\<not> b))"
  shows "cells_ok (a\<lparr>am_matrix := m\<rparr>) (if b then insert (u, v) G else G - {(u, v)})"
proof -
  let ?G = "if b then insert (u, v) G else G - {(u, v)}"
  note s = same_shapeD [OF m(1)]
  have mem: "(i, j) \<in> ?G \<longleftrightarrow> (if i = u \<and> j = v then b else (i, j) \<in> G)" for i j by auto
  have e: "entry m i j = (if i = u \<and> j = v then x else entry (am_matrix a) i j)" if "j < am_n_vertices a" for i j
    using m(2) that ok by (simp add: cells_ok_def)
  have "if am_is_weighted a then (\<exists>w. entry m i j = Weight w \<and> (w = NAN) = ((i, j) \<notin> ?G))
      else (\<exists>k. entry m i j = Count k \<and> (k = 0) = ((i, j) \<notin> ?G))" if "i < am_n_vertices a" "j < am_n_vertices a" for i j
  proof (cases "i = u \<and> j = v")
    case True
    then show ?thesis using x e [OF that(2), of i] mem [of i j] by simp
  next
    case False
    have ge: "((i, j) \<in> ?G) = ((i, j) \<in> G)" "entry m i j = entry (am_matrix a) i j"
      unfolding mem e [OF that(2)] using False by auto
    show ?thesis unfolding ge using ok that by (simp add: cells_ok_def)
  qed
  then show ?thesis using ok uv s unfolding cells_ok_def by auto
qed

lemma set_one_ok:
  assumes ok: "cells_ok a G" and uv: "u < am_n_vertices a" "v < am_n_vertices a" and w: "\<not> am_is_weighted a"
  shows "\<exists>m. set_one a u v = Some (OK, a\<lparr>am_matrix := m\<rparr>) \<and> cells_ok (a\<lparr>am_matrix := m\<rparr>) (insert (u, v) G)"
proof -
  have "matrix_ok (am_matrix a)" "u < mt_n_rows (am_matrix a)" "v < mt_n_cols (am_matrix a)"
    using ok uv by (simp_all add: cells_ok_def)
  from matrix_set_ok [OF this, of "Count 1"] obtain m where m: "matrix_set (am_matrix a) u v (Some (Count 1)) = Some (OK, m)"
      "same_shape (am_matrix a) m"
      "\<forall>i j. j < mt_n_cols (am_matrix a) \<longrightarrow> entry m i j = (if i = u \<and> j = v then Count 1 else entry (am_matrix a) i j)"
    by blast
  show ?thesis using cells_write [OF ok uv m(2,3), of True] m(1) w by (intro exI [of _ m]) (simp add: set_one_def)
qed

lemma unset_ok:
  assumes ok: "cells_ok a G" and uv: "u < am_n_vertices a" "v < am_n_vertices a"
  shows "\<exists>m. unset a u v = Some (OK, a\<lparr>am_matrix := m\<rparr>) \<and> cells_ok (a\<lparr>am_matrix := m\<rparr>) (G - {(u, v)})"
proof -
  have d: "matrix_ok (am_matrix a)" "u < mt_n_rows (am_matrix a)" "v < mt_n_cols (am_matrix a)"
    using ok uv by (simp_all add: cells_ok_def)
  show ?thesis
  proof (cases "am_is_weighted a")
    case True
    obtain m where m: "put_at (am_matrix a) (matrix_access (am_matrix a) u v) (Weight NAN) = Some m" "same_shape (am_matrix a) m"
        "\<forall>i j. j < mt_n_cols (am_matrix a) \<longrightarrow> entry m i j = (if i = u \<and> j = v then Weight NAN else entry (am_matrix a) i j)"
      using put_at_ok [OF d, of "Weight NAN"] by blast
    show ?thesis using cells_write [OF ok uv m(2,3), of False] m(1) True by (intro exI [of _ m]) (simp add: unset_def)
  next
    case False
    obtain m where m: "matrix_elt_clear (Count 0) (am_matrix a) u v = Some (OK, m)" "same_shape (am_matrix a) m"
        "\<forall>i j. j < mt_n_cols (am_matrix a) \<longrightarrow> entry m i j = (if i = u \<and> j = v then Count 0 else entry (am_matrix a) i j)"
      using matrix_clear_ok [OF d, of "Count 0"] by blast
    show ?thesis using cells_write [OF ok uv m(2,3), of False] m(1) False by (intro exI [of _ m]) (simp add: unset_def)
  qed
qed

lemma cells_ok_cong:
  "am_matrix b = am_matrix a \<Longrightarrow> am_is_weighted b = am_is_weighted a \<Longrightarrow> am_n_vertices b = am_n_vertices a \<Longrightarrow>
   cells_ok b G = cells_ok a G"
  by (simp add: cells_ok_def)

lemma bump_bump: "bump d (bump e n) = bump (d + e) n"
  by (simp add: bump_def size_of_int_def nat_eq_iff mod_simps algebra_simps)

lemma addu_ok:
  assumes ok: "adj_ok a (G, c)" and d: "\<not> am_is_directed a" and uv: "u < am_n_vertices a" "v < am_n_vertices a"
  shows "\<exists>a'. adj_matrix_edge_addu a u v = Some (OK, a') \<and> adj_ok a' (G \<union> {(u, v), (v, u)}, bump 2 c) \<and> same_graph a a'"
proof -
  have w: "\<not> am_is_weighted a" "sym G" "cells_ok a G" "am_n_edges a = c" using ok d by (auto simp: adj_ok_def)
  obtain m1 where m1: "set_one a u v = Some (OK, a\<lparr>am_matrix := m1\<rparr>)" "cells_ok (a\<lparr>am_matrix := m1\<rparr>) (insert (u, v) G)"
    using set_one_ok [OF w(3) uv w(1)] by blast
  let ?a = "a\<lparr>am_matrix := m1, am_n_edges := bump 1 c\<rparr>"
  have "cells_ok ?a (insert (u, v) G)" using m1(2) cells_ok_cong [of ?a "a\<lparr>am_matrix := m1\<rparr>"] by simp
  then obtain m2 where m2: "set_one ?a v u = Some (OK, ?a\<lparr>am_matrix := m2\<rparr>)"
      "cells_ok (?a\<lparr>am_matrix := m2\<rparr>) (insert (v, u) (insert (u, v) G))"
    using set_one_ok [of ?a "insert (u, v) G" v u] uv w(1) by auto
  let ?b = "?a\<lparr>am_matrix := m2, am_n_edges := bump 2 c\<rparr>"
  have "adj_matrix_edge_addu a u v = Some (OK, ?b)"
    using m1(1) m2(1) d uv w(4) by (simp add: adj_matrix_edge_addu_def Let_def bump_bump)
  moreover have "insert (v, u) (insert (u, v) G) = G \<union> {(u, v), (v, u)}" by auto
  then have "cells_ok ?b (G \<union> {(u, v), (v, u)})" using m2(2) cells_ok_cong [of ?b "?a\<lparr>am_matrix := m2\<rparr>"] by simp
  moreover have "sym (G \<union> {(u, v), (v, u)})" using w(2) by (auto simp: sym_def)
  ultimately show ?thesis using w(1) by (auto simp: adj_ok_def same_graph_def)
qed

lemma addd_ok:
  assumes ok: "adj_ok a (G, c)" and d: "am_is_directed a" and uv: "u < am_n_vertices a" "v < am_n_vertices a"
  shows "\<exists>a'. adj_matrix_edge_addd a u v (Some w) = Some (OK, a') \<and>
    adj_ok a' (if am_is_weighted a \<and> w = NAN then G - {(u, v)} else insert (u, v) G, bump 1 c) \<and> same_graph a a'"
proof -
  have c: "cells_ok a G" "am_n_edges a = c" using ok by (auto simp: adj_ok_def)
  let ?G = "if am_is_weighted a \<and> w = NAN then G - {(u, v)} else insert (u, v) G"
  have "\<exists>m. (if am_is_weighted a
          then map_option (\<lambda>(st, m). (st, a\<lparr>am_matrix := m\<rparr>)) (matrix_set (am_matrix a) u v (map_option Weight (Some w)))
          else set_one a u v) = Some (OK, a\<lparr>am_matrix := m\<rparr>) \<and> cells_ok (a\<lparr>am_matrix := m\<rparr>) ?G"
  proof (cases "am_is_weighted a")
    case True
    have "matrix_ok (am_matrix a)" "u < mt_n_rows (am_matrix a)" "v < mt_n_cols (am_matrix a)"
      using c(1) uv by (simp_all add: cells_ok_def)
    from matrix_set_ok [OF this, of "Weight w"] obtain m where m: "matrix_set (am_matrix a) u v (Some (Weight w)) = Some (OK, m)"
        "same_shape (am_matrix a) m"
        "\<forall>i j. j < mt_n_cols (am_matrix a) \<longrightarrow> entry m i j = (if i = u \<and> j = v then Weight w else entry (am_matrix a) i j)"
      by blast
    show ?thesis using cells_write [OF c(1) uv m(2,3), of "w \<noteq> NAN"] m(1) True by (intro exI [of _ m]) (auto split: if_splits)
  next
    case False
    then show ?thesis using set_one_ok [OF c(1) uv False] by simp
  qed
  then obtain m where m: "(if am_is_weighted a
          then map_option (\<lambda>(st, m). (st, a\<lparr>am_matrix := m\<rparr>)) (matrix_set (am_matrix a) u v (map_option Weight (Some w)))
          else set_one a u v) = Some (OK, a\<lparr>am_matrix := m\<rparr>)" "cells_ok (a\<lparr>am_matrix := m\<rparr>) ?G" by blast
  let ?b = "a\<lparr>am_matrix := m, am_n_edges := bump 1 c\<rparr>"
  have "adj_matrix_edge_addd a u v (Some w) = Some (OK, ?b)"
    unfolding adj_matrix_edge_addd_def m(1) using d uv c(2) by simp
  moreover have "cells_ok ?b ?G" using m(2) cells_ok_cong [of ?b "a\<lparr>am_matrix := m\<rparr>"] by simp
  ultimately show ?thesis using d by (auto simp: adj_ok_def same_graph_def)
qed

lemma adj_remove_ok:
  assumes ok: "adj_ok a (G, c)" and uv: "u < am_n_vertices a" "v < am_n_vertices a"
  shows "\<exists>a'. adj_matrix_edge_remove a u v = Some (OK, a') \<and> same_graph a a' \<and>
    adj_ok a' (if am_is_directed a then G - {(u, v)} else G - {(u, v), (v, u)}, bump (if am_is_directed a then -1 else -2) c)"
proof -
  have c: "cells_ok a G" "am_n_edges a = c" using ok by (auto simp: adj_ok_def)
  obtain m1 where m1: "unset a u v = Some (OK, a\<lparr>am_matrix := m1\<rparr>)" "cells_ok (a\<lparr>am_matrix := m1\<rparr>) (G - {(u, v)})"
    using unset_ok [OF c(1) uv] by blast
  let ?a = "a\<lparr>am_matrix := m1, am_n_edges := bump (-1) c\<rparr>"
  have a: "cells_ok ?a (G - {(u, v)})" using m1(2) cells_ok_cong [of ?a "a\<lparr>am_matrix := m1\<rparr>"] by simp
  show ?thesis
  proof (cases "am_is_directed a")
    case True
    then have "adj_matrix_edge_remove a u v = Some (OK, ?a)"
      using m1(1) uv c(2) by (simp add: adj_matrix_edge_remove_def)
    then show ?thesis using True a by (auto simp: adj_ok_def same_graph_def)
  next
    case False
    obtain m2 where m2: "unset ?a v u = Some (OK, ?a\<lparr>am_matrix := m2\<rparr>)" "cells_ok (?a\<lparr>am_matrix := m2\<rparr>) (G - {(u, v)} - {(v, u)})"
      using unset_ok [OF a, of v u] uv by auto
    let ?b = "?a\<lparr>am_matrix := m2, am_n_edges := bump (-2) c\<rparr>"
    have "adj_matrix_edge_remove a u v = Some (OK, ?b)"
      using m1(1) m2(1) False uv c(2) by (simp add: adj_matrix_edge_remove_def Let_def bump_bump)
    moreover have "G - {(u, v)} - {(v, u)} = G - {(u, v), (v, u)}" by auto
    then have "cells_ok ?b (G - {(u, v), (v, u)})" using m2(2) cells_ok_cong [of ?b "?a\<lparr>am_matrix := m2\<rparr>"] by simp
    moreover have "sym G" "\<not> am_is_weighted a" using ok False by (auto simp: adj_ok_def)
    then have "sym (G - {(u, v), (v, u)})" by (auto simp: sym_def)
    ultimately show ?thesis using False \<open>\<not> am_is_weighted a\<close> by (auto simp: adj_ok_def same_graph_def)
  qed
qed

lemma query_ok:
  assumes "cells_ok a G"
  shows "adj_matrix_edge_query a u v = Some ((u, v) \<in> G)"
proof (cases "u < am_n_vertices a \<and> v < am_n_vertices a")
  case True
  have "elt_at (am_matrix a) (adj_matrix_access a u v) = Some (entry (am_matrix a) u v)"
    using elt_at_ok [of "am_matrix a" u v] assms True by (simp add: cells_ok_def adj_matrix_access_def)
  moreover have "if am_is_weighted a then (\<exists>w. entry (am_matrix a) u v = Weight w \<and> (w = NAN) = ((u, v) \<notin> G))
      else (\<exists>k. entry (am_matrix a) u v = Count k \<and> (k = 0) = ((u, v) \<notin> G))"
    using assms True unfolding cells_ok_def by blast
  ultimately show ?thesis using True by (auto simp: adj_matrix_edge_query_def split: if_splits)
next
  case False
  then show ?thesis using assms by (auto simp: adj_matrix_edge_query_def cells_ok_def)
qed

lemma adj_transpose_ok:
  assumes ok: "adj_ok a (G, c)"
  shows "\<exists>a'. adj_matrix_transpose a = Some (OK, a') \<and> adj_ok a' (G\<inverse>, c) \<and> same_graph a a'"
proof -
  have c: "cells_ok a G" "am_n_edges a = c" using ok by (auto simp: adj_ok_def)
  obtain m where m: "matrix_transpose (am_matrix a) = Some (OK, m)" "same_shape (am_matrix a) m"
      "\<forall>i j. i < mt_n_rows (am_matrix a) \<longrightarrow> j < mt_n_rows (am_matrix a) \<longrightarrow> entry m i j = entry (am_matrix a) j i"
    using transpose_ok [of "am_matrix a"] c(1) unfolding cells_ok_def by auto
  note s = same_shapeD [OF m(2)]
  have "cells_ok (a\<lparr>am_matrix := m\<rparr>) (G\<inverse>)"
    unfolding cells_ok_def
  proof (intro conjI allI impI)
    fix i j assume ij: "i < am_n_vertices (a\<lparr>am_matrix := m\<rparr>)" "j < am_n_vertices (a\<lparr>am_matrix := m\<rparr>)"
    then have "entry m i j = entry (am_matrix a) j i" using m(3) c(1) by (simp add: cells_ok_def)
    then show "if am_is_weighted (a\<lparr>am_matrix := m\<rparr>)
      then \<exists>w. entry (am_matrix (a\<lparr>am_matrix := m\<rparr>)) i j = Weight w \<and> (w = NAN) = ((i, j) \<notin> G\<inverse>)
      else \<exists>k. entry (am_matrix (a\<lparr>am_matrix := m\<rparr>)) i j = Count k \<and> (k = 0) = ((i, j) \<notin> G\<inverse>)"
      using c(1) ij by (simp add: cells_ok_def)
  qed (use c(1) s in \<open>auto simp: cells_ok_def\<close>)
  then show ?thesis using m(1) ok c(2) by (auto simp: adj_matrix_transpose_def adj_ok_def same_graph_def sym_conv_converse_eq)
qed


lemma same_graph_trans: "same_graph a b \<Longrightarrow> same_graph b c \<Longrightarrow> same_graph a c"
  by (simp add: same_graph_def)

lemma adj_step_ok:
  assumes ok: "adj_ok a s"
  shows "\<exists>a'. adj_step op a = Some (fst (graph_step (am_n_vertices a) (am_is_directed a) (am_is_weighted a) op s), a') \<and>
    adj_ok a' (snd (graph_step (am_n_vertices a) (am_is_directed a) (am_is_weighted a) op s)) \<and> same_graph a a'"
proof -
  obtain G c where s: "s = (G, c)" by (cases s)
  note ok = ok [unfolded s]
  have refl: "same_graph a a" by (simp add: same_graph_def)
  show ?thesis
  proof (cases op)
    case (AddU u v)
    show ?thesis
    proof (cases "\<not> am_is_directed a \<and> u < am_n_vertices a \<and> v < am_n_vertices a")
      case True
      then show ?thesis using addu_ok [OF ok, of u v] AddU by (auto simp: s)
    next
      case False
      then show ?thesis using ok refl AddU by (auto simp: s adj_matrix_edge_addu_def)
    qed
  next
    case (AddD u v w)
    show ?thesis
    proof (cases "am_is_directed a \<and> u < am_n_vertices a \<and> v < am_n_vertices a")
      case True
      then show ?thesis using addd_ok [OF ok, of u v w] AddD by (auto simp: s)
    next
      case False
      then show ?thesis using ok refl AddD by (auto simp: s adj_matrix_edge_addd_def)
    qed
  next
    case (Remove u v)
    show ?thesis
    proof (cases "u < am_n_vertices a \<and> v < am_n_vertices a")
      case True
      then show ?thesis using adj_remove_ok [OF ok, of u v] Remove by (auto simp: s)
    next
      case False
      then show ?thesis using ok refl Remove by (auto simp: s adj_matrix_edge_remove_def)
    qed
  next
    case (Query u v)
    then show ?thesis using query_ok [of a G u v] ok refl by (auto simp: s adj_ok_def)
  next
    case Transpose
    then show ?thesis using adj_transpose_ok [OF ok] by (auto simp: s)
  qed
qed

lemma adj_run_ok:
  assumes "adj_ok a s"
  shows "\<exists>a'. adj_run ops a = Some (fst (graph_run (am_n_vertices a) (am_is_directed a) (am_is_weighted a) ops s), a') \<and>
    adj_ok a' (snd (graph_run (am_n_vertices a) (am_is_directed a) (am_is_weighted a) ops s)) \<and> same_graph a a'"
  using assms
proof (induction ops arbitrary: a s)
  case Nil
  then show ?case by (simp add: same_graph_def)
next
  case (Cons op ops)
  let ?g = "graph_step (am_n_vertices a) (am_is_directed a) (am_is_weighted a) op s"
  obtain a1 where a1: "adj_step op a = Some (fst ?g, a1)" "adj_ok a1 (snd ?g)" "same_graph a a1"
    using adj_step_ok [OF Cons.prems] by blast
  have eq: "am_n_vertices a1 = am_n_vertices a" "am_is_directed a1 = am_is_directed a" "am_is_weighted a1 = am_is_weighted a"
    using a1(3) by (simp_all add: same_graph_def)
  show ?case using Cons.IH [OF a1(2)] a1(1,3) same_graph_trans [OF a1(3)] unfolding eq
    by (auto simp: split_beta Let_def)
qed

text \<open>The counter of careful sequences.\<close>

lemma bump_nat: "0 \<le> int n + d \<Longrightarrow> int n + d < 2 ^ 64 \<Longrightarrow> bump d n = nat (int n + d)"
  by (simp add: bump_def size_of_int_def)

lemma careful_counts:
  assumes "careful_step n dir weighted op (fst s)" and "fst s \<subseteq> {..<n} \<times> {..<n}" and "dir \<or> sym (fst s) \<and> irrefl (fst s)"
    and "snd s = card (fst s)" and "n * n < 2 ^ 64"
  shows "snd (snd (graph_step n dir weighted op s)) = card (fst (snd (graph_step n dir weighted op s))) \<and>
    fst (snd (graph_step n dir weighted op s)) \<subseteq> {..<n} \<times> {..<n} \<and>
    (dir \<or> sym (fst (snd (graph_step n dir weighted op s))) \<and> irrefl (fst (snd (graph_step n dir weighted op s))))"
proof -
  obtain G c where s: "s = (G, c)" by (cases s)
  have G: "G \<subseteq> {..<n} \<times> {..<n}" "dir \<or> sym G \<and> irrefl G" "c = card G" using assms s by simp_all
  have fin: "finite A \<and> card A < 2 ^ 64" if "A \<subseteq> {..<n} \<times> {..<n}" for A :: "(nat \<times> nat) set"
    using that card_mono [of "{..<n} \<times> {..<n}" A] finite_subset [of A "{..<n} \<times> {..<n}"] assms(5) by (auto simp: card_cartesian_product)
  show ?thesis
  proof (cases op)
    case (AddU u v)
    then have a: "u < n" "v < n" "u \<noteq> v" "\<not> dir" "(u, v) \<notin> G" using assms(1) s by simp_all
    then have "(v, u) \<notin> G" using G(2) by (auto simp: sym_def)
    then have card: "card (G \<union> {(u, v), (v, u)}) = card G + 2" using a(3,5) fin [OF G(1)] by simp
    have "G \<union> {(u, v), (v, u)} \<subseteq> {..<n} \<times> {..<n}" using a G(1) by auto
    moreover from fin [OF this] have "bump 2 c = card (G \<union> {(u, v), (v, u)})" using card G(3) bump_nat [of c 2] by simp
    moreover have "sym (G \<union> {(u, v), (v, u)})" "irrefl (G \<union> {(u, v), (v, u)})" using G(2) a(3,4) by (auto simp: sym_def irrefl_def)
    ultimately show ?thesis using AddU s a by simp
  next
    case (AddD u v w)
    then have a: "u < n" "v < n" "dir" "(u, v) \<notin> G" "\<not> (weighted \<and> w = NAN)" using assms(1) s by simp_all
    have "insert (u, v) G \<subseteq> {..<n} \<times> {..<n}" using a G(1) by auto
    moreover from fin [OF this] have "bump 1 c = card (insert (u, v) G)" using fin [OF G(1)] G(3) a(4) bump_nat [of c 1] by simp
    ultimately show ?thesis using AddD s a by auto
  next
    case (Remove u v)
    then have a: "(u, v) \<in> G" using assms(1) s by simp
    then have uv: "u < n" "v < n" using G(1) by auto
    have lt: "card G < 2 ^ 64" "finite G" using fin [OF G(1)] by simp_all
    show ?thesis
    proof (cases dir)
      case True
      have "card (G - {(u, v)}) = card G - 1" "0 < card G" using a lt(2) by (auto simp: card_gt_0_iff)
      then have "bump (-1) c = card (G - {(u, v)})" using lt(1) G(3) bump_nat [of c "-1"] by simp
      then show ?thesis using Remove s uv G(1) True by auto
    next
      case False
      have vu: "(v, u) \<in> G" "u \<noteq> v" using a False G(2) by (auto simp: sym_def irrefl_def)
      have "card (G - {(u, v), (v, u)}) = card G - 2" using card_Diff_subset [of "{(u, v), (v, u)}" G] a vu by simp
      moreover have "2 \<le> card G" using card_mono [of G "{(u, v), (v, u)}"] a vu lt(2) by simp
      ultimately have "bump (-2) c = card (G - {(u, v), (v, u)})" using lt(1) G(3) bump_nat [of c "-2"] by simp
      moreover have "sym (G - {(u, v), (v, u)})" "irrefl (G - {(u, v), (v, u)})" using G(2) False by (auto simp: sym_def irrefl_def)
      ultimately show ?thesis using Remove s uv G(1) False by auto
    qed
  next
    case (Query u v)
    then show ?thesis using s G by simp
  next
    case Transpose
    have "card (G\<inverse>) = card G" by (simp add: card_inverse)
    moreover have "G\<inverse> \<subseteq> {..<n} \<times> {..<n}" using G(1) by auto
    moreover have "dir \<or> sym (G\<inverse>) \<and> irrefl (G\<inverse>)" using G(2) by (auto simp: sym_def irrefl_def)
    ultimately show ?thesis using Transpose s G by simp
  qed
qed

lemma careful_run_counts:
  assumes "careful n dir weighted ops s" and "fst s \<subseteq> {..<n} \<times> {..<n}" and "dir \<or> sym (fst s) \<and> irrefl (fst s)"
    and "snd s = card (fst s)" and "n * n < 2 ^ 64"
  shows "snd (snd (graph_run n dir weighted ops s)) = card (fst (snd (graph_run n dir weighted ops s)))"
  using assms(1-4)
proof (induction ops arbitrary: s)
  case (Cons op ops)
  then show ?case using careful_counts [of n dir weighted op s] assms(5) by (simp add: split_beta Let_def)
qed simp

subsection \<open>Initialisation\<close>

text \<open>
  The memory for the cells. Only memory from \<open>malloc\<close> is cleared, so application memory must be
  zero for an unweighted graph.
\<close>

definition cell_memory :: "'d adj_cell list option \<Rightarrow> 'd adj_matrix_params \<Rightarrow> bool" where
  "cell_memory block p \<longleftrightarrow> 0 < amp_n_vertices p \<and>
     (if has_flag (amp_flags p) RCSW_NOALLOC_DATA
      then (\<exists>es. amp_elements p = Some es \<and> length es = amp_n_vertices p * amp_n_vertices p \<and>
        (amp_is_weighted p \<or> set es \<subseteq> {Count 0}))
      else (\<exists>es. block = Some es \<and> length es = amp_n_vertices p * amp_n_vertices p))"

lemma clear_weights:
  assumes "matrix_ok m" and "mt_n_rows m = n" and "mt_n_cols m = n"
  shows "\<exists>m'. for_range 0 n (\<lambda>i m. for_range 0 n (\<lambda>j m.
      (case matrix_access m i j of None \<Rightarrow> Some m | Some k \<Rightarrow> put_at m (Some k) x)) m) m = Some m' \<and> same_shape m m' \<and>
    (\<forall>a < n. \<forall>b < n. entry m' a b = x)"
proof -
  let ?cell = "\<lambda>i j m. (case matrix_access m i j of None \<Rightarrow> Some m | Some k \<Rightarrow> put_at m (Some k) x)"
  have row: "\<exists>m'. for_range 0 n (?cell i) m1 = Some m' \<and> same_shape m1 m' \<and>
      (\<forall>a. \<forall>b < n. entry m' a b = (if a = i then x else entry m1 a b))"
    if s: "same_shape m m1" and i: "i < n" for m1 i
  proof -
    note d = same_shapeD [OF s]
    let ?P = "\<lambda>k m'. same_shape m1 m' \<and> (\<forall>a. \<forall>b < n. entry m' a b = (if a = i \<and> b < k then x else entry m1 a b))"
    have "\<exists>m'. for_range 0 n (?cell i) m1 = Some m' \<and> ?P n m'"
    proof (rule for_range_inv [where P = ?P])
      fix k m2 assume k: "k < n" and P: "?P k m2"
      note d2 = same_shapeD [OF conjunct1 [OF P]]
      have "matrix_ok m2" "i < mt_n_rows m2" "k < mt_n_cols m2" using assms d d2 i k by simp_all
      then obtain m3 where m3: "put_at m2 (matrix_access m2 i k) x = Some m3" "same_shape m2 m3"
          "\<forall>a b. b < mt_n_cols m2 \<longrightarrow> entry m3 a b = (if a = i \<and> b = k then x else entry m2 a b)"
        using put_at_ok [of m2 i k x] by blast
      have "?cell i k m2 = Some m3" using m3(1) \<open>i < mt_n_rows m2\<close> \<open>k < mt_n_cols m2\<close> by (simp add: matrix_access_def)
      moreover have "same_shape m1 m3" using same_shape_trans P m3(2) by blast
      moreover have "entry m3 a b = (if a = i \<and> b < Suc k then x else entry m1 a b)" if "b < n" for a b
        using m3(3) that P assms(3) d d2 by (auto simp: less_Suc_eq)
      ultimately show "\<exists>m3. ?cell i k m2 = Some m3 \<and> ?P (Suc k) m3" by blast
    qed simp_all
    then show ?thesis by auto
  qed
  let ?Q = "\<lambda>k m'. same_shape m m' \<and> (\<forall>a < k. \<forall>b < n. entry m' a b = x)"
  have "\<exists>m'. for_range 0 n (\<lambda>i m. for_range 0 n (?cell i) m) m = Some m' \<and> ?Q n m'"
  proof (rule for_range_inv [where P = ?Q])
    fix k m1 assume k: "k < n" and Q: "?Q k m1"
    obtain m2 where m2: "for_range 0 n (?cell k) m1 = Some m2" "same_shape m1 m2"
        "\<forall>a. \<forall>b < n. entry m2 a b = (if a = k then x else entry m1 a b)"
      using row [OF conjunct1 [OF Q] k] by blast
    then have "?Q (Suc k) m2" using Q same_shape_trans [of m m1 m2] by (auto simp: less_Suc_eq)
    then show "\<exists>m2. for_range 0 n (?cell k) m1 = Some m2 \<and> ?Q (Suc k) m2" using m2(1) by blast
  qed simp_all
  then show ?thesis by simp
qed

lemma adj_init_ok:
  assumes init: "adj_matrix_init z matrix_in handle block (Some p) = Some (Some a)" and mem: "cell_memory block p"
    and dir: "amp_is_directed p \<or> \<not> amp_is_weighted p"
  shows "adj_ok a ({}, 0) \<and> am_n_vertices a = amp_n_vertices p \<and> am_is_directed a = amp_is_directed p \<and> am_is_weighted a = amp_is_weighted p"
proof -
  let ?n = "amp_n_vertices p" and ?zero = "if amp_is_weighted p then Weight (Number z) else Count 0"
  let ?size = "if amp_is_weighted p then 8 else 4 :: nat"
  let ?mp = "\<lparr>mtp_elements = amp_elements p, mtp_elt_size = ?size,
    mtp_flags = amp_flags p OR RCSW_NOALLOC_HANDLE, mtp_n_rows = ?n, mtp_n_cols = ?n\<rparr>"
  obtain m where m: "matrix_init ?zero (Some ()) None block (Some ?mp) = Some (Some m)"
    and a: "(if amp_is_weighted p
        then for_range 0 ?n (\<lambda>i m. for_range 0 ?n (\<lambda>j m.
          (case matrix_access m i j of None \<Rightarrow> Some m | Some k \<Rightarrow> put_at m (Some k) (Weight NAN))) m) m
        else Some m) = Some (am_matrix a)"
      "am_n_vertices a = ?n" "am_is_directed a = amp_is_directed p" "am_is_weighted a = amp_is_weighted p" "am_n_edges a = 0"
    using init unfolding adj_matrix_init_def Let_def
    by (auto simp: bind_eq_Some_conv split: option.splits if_splits)
  have dat: "noalloc ((mtp_flags ?mp AND RCSW_NOALLOC_DATA) OR RCSW_ZALLOC) = has_flag (amp_flags p) RCSW_NOALLOC_DATA"
      "has_flag ((mtp_flags ?mp AND RCSW_NOALLOC_DATA) OR RCSW_ZALLOC) RCSW_ZALLOC"
    by (simp_all add: noalloc_def has_flag_def flag_defs and.assoc bit.conj_disj_distrib2)
  have len: "length (mt_elements m) = ?n * ?n" and zero: "amp_is_weighted p \<or> set (mt_elements m) \<subseteq> {Count 0}"
    and shape: "mt_n_rows m = ?n" "mt_n_cols m = ?n" "mt_elt_size m = ?size"
    using m mem dat unfolding matrix_init_def rcsw_alloc_def cell_memory_def
    by (auto simp: bind_eq_Some_conv split: option.splits if_splits)
  have ok: "matrix_ok m" using len shape by (simp add: matrix_ok_def)
  show ?thesis
  proof (cases "amp_is_weighted p")
    case True
    obtain m' where m': "for_range 0 ?n (\<lambda>i m. for_range 0 ?n (\<lambda>j m.
          (case matrix_access m i j of None \<Rightarrow> Some m | Some k \<Rightarrow> put_at m (Some k) (Weight NAN))) m) m = Some m'"
        "same_shape m m'" "\<forall>a < ?n. \<forall>b < ?n. entry m' a b = Weight NAN"
      using clear_weights [OF ok shape(1,2), of "Weight NAN"] by blast
    note s = same_shapeD [OF m'(2)]
    have "am_matrix a = m'" using a(1) m'(1) True by simp
    then show ?thesis using a(2-5) m'(3) s ok shape dir True by (simp add: adj_ok_def cells_ok_def)
  next
    case False
    then have am: "am_matrix a = m" using a(1) by simp
    have "entry m u v = Count 0" if "u < ?n" "v < ?n" for u v
    proof -
      have "?n * u + v < length (mt_elements m)" using index_bound [OF that] len by simp
      then have "mt_elements m ! (?n * u + v) \<in> set (mt_elements m)" by simp
      then show ?thesis using zero False shape by (auto simp: entry_def)
    qed
    then show ?thesis using a(2-5) am ok shape False by (simp add: adj_ok_def cells_ok_def sym_def)
  qed
qed

text \<open>
  From its initialisation over fitting memory on, a graph answers any sequence of additions,
  removals, queries and transpositions as a set of edges would, and never faults; and if only
  edges that are not there are added and only edges that are there removed, the counter is the
  number of pairs of vertices joined by an edge.
\<close>

theorem adj_matrix_refines_graph:
  assumes "adj_matrix_init z matrix_in handle block (Some p) = Some (Some a)" and "cell_memory block p"
    and "amp_is_directed p \<or> \<not> amp_is_weighted p"
    and "graph_run (amp_n_vertices p) (amp_is_directed p) (amp_is_weighted p) ops ({}, 0) = (outs, G, c)"
  shows "\<exists>a'. adj_run ops a = Some (outs, a') \<and> (\<forall>u v. adj_matrix_edge_query a' u v = Some ((u, v) \<in> G)) \<and>
    adj_matrix_n_edges a' = c \<and>
    (amp_n_vertices p * amp_n_vertices p < 2 ^ 64 \<and> careful (amp_n_vertices p) (amp_is_directed p) (amp_is_weighted p) ops ({}, 0)
      \<longrightarrow> c = card G)"
proof -
  note i = adj_init_ok [OF assms(1-3)]
  obtain a' where a': "adj_run ops a = Some (outs, a')" "adj_ok a' (G, c)"
    using adj_run_ok [of a "({}, 0)" ops] i assms(4) by auto
  moreover have "c = card G" if "amp_n_vertices p * amp_n_vertices p < 2 ^ 64"
      "careful (amp_n_vertices p) (amp_is_directed p) (amp_is_weighted p) ops ({}, 0)"
    using careful_run_counts [OF that(2) _ _ _ that(1)] assms(4) by (auto simp: sym_def irrefl_def)
  ultimately show ?thesis using query_ok [of a' G] by (auto simp: adj_ok_def adj_matrix_n_edges_def)
qed


definition triangle_params :: "unit adj_matrix_params" where
  "triangle_params = \<lparr>amp_elements = Some (replicate 9 (Count 0)), amp_flags = RCSW_NOALLOC_HANDLE OR RCSW_NOALLOC_DATA,
     amp_n_vertices = 3, amp_is_directed = False, amp_is_weighted = False\<rparr>"

definition blank_graph :: "unit adj_matrix" where
  "blank_graph = \<lparr>am_is_directed = False, am_is_weighted = False, am_n_edges = 0, am_elt_size = 4, am_n_vertices = 3,
     am_matrix = \<lparr>mt_n_rows = 3, mt_n_cols = 3, mt_elements = replicate 9 (Count 0),
       mt_flags = RCSW_NOALLOC_HANDLE OR RCSW_NOALLOC_DATA, mt_elt_size = 4\<rparr>,
     am_flags = RCSW_NOALLOC_HANDLE OR RCSW_NOALLOC_DATA\<rparr>"

definition one_edge :: "(nat \<times> nat) set" where
  "one_edge = {(0, 1), (1, 0)}"

definition triangle_ops :: "unit adj_op list" where
  "triangle_ops = [AddU 0 1, Query 1 0, AddU 2 3, AddU 1 2, Remove 2 1, Transpose]"

theorem adj_matrix_refines_graph_witness:
  "\<exists>a'. adj_run triangle_ops blank_graph =
      Some ([Result OK, Answer True, Result fpc_error, Result OK, Result OK, Result OK], a') \<and>
    (\<forall>u v. adj_matrix_edge_query a' u v = Some ((u, v) \<in> one_edge)) \<and> adj_matrix_n_edges a' = 2 \<and>
    (amp_n_vertices triangle_params * amp_n_vertices triangle_params < 2 ^ 64 \<and>
     careful (amp_n_vertices triangle_params) (amp_is_directed triangle_params) (amp_is_weighted triangle_params)
       triangle_ops ({}, 0) \<longrightarrow> 2 = card one_edge)"
proof (rule adj_matrix_refines_graph)
  show "adj_matrix_init () (Some ()) None None (Some triangle_params) = Some (Some blank_graph)"
    by (simp add: adj_matrix_init_def matrix_init_def triangle_params_def blank_graph_def rcsw_alloc_def noalloc_def
        has_flag_def flag_defs Let_def)
  show "cell_memory None triangle_params"
    by (auto simp: cell_memory_def triangle_params_def has_flag_def flag_defs)
  show "amp_is_directed triangle_params \<or> \<not> amp_is_weighted triangle_params"
    by (simp add: triangle_params_def)
  have "(one_edge \<union> {(1, 2), (2, 1)} - {(2, 1), (1, 2)})\<inverse> = one_edge" by (auto simp: one_edge_def)
  then show "graph_run (amp_n_vertices triangle_params) (amp_is_directed triangle_params) (amp_is_weighted triangle_params)
      triangle_ops ({}, 0) =
    ([Result OK, Answer True, Result fpc_error, Result OK, Result OK, Result OK], one_edge, 2)"
    by (simp add: triangle_ops_def triangle_params_def one_edge_def bump_def size_of_int_def insert_commute)
qed

text \<open>An undirected graph with weights: adding an edge reads past the \<open>int\<close> it copies.\<close>

lemma weighted_undirected_faults:
  assumes "am_is_weighted a" and "\<not> am_is_directed a" and "u < am_n_vertices a" and "v < am_n_vertices a"
  shows "adj_matrix_edge_addu a u v = None"
  using assms by (simp add: adj_matrix_edge_addu_def set_one_def)

end
