(* ===== verification/Iter.thy ===== *)
theory Iter
  imports Darray Rbuffer Llist_Correct
begin

text \<open>
  Iterators and filters over dynamic arrays, linked lists and ring buffers (src/ds/iter.c). An
  iterator visits every element once, in either direction, and a filter the elements its predicate
  selects; on a ring buffer only as long as its first slot is the start, and without a filter.
\<close>

subsection \<open>State and operations\<close>

datatype ds_iter_type = ekITER_FORWARD | ekITER_BACKWARD

text \<open>The structure an iterator is over; the constructor is the tag.\<close>

datatype 'a container = DARRAY "'a darray" | LLIST "'a llist" "'a lheap" | RBUFFER "'a rbuffer" | OTHER

record 'a ds_iterator =
  it_curr :: "nat option"
  it_type :: ds_iter_type
  it_index :: int
  it_classify :: "('a \<Rightarrow> bool) option"

text \<open>\<open>start\<close> and \<open>index\<close> of a fresh iterator in each direction.\<close>

fun start_index :: "'a container \<Rightarrow> ds_iter_type \<Rightarrow> int" where
  "start_index (DARRAY arr) ekITER_FORWARD = 0"
| "start_index (DARRAY arr) ekITER_BACKWARD = int_of_size (darray_size arr) - 1"
| "start_index (RBUFFER rb) ekITER_FORWARD = int_of_size (rb_start rb)"
| "start_index (RBUFFER rb) ekITER_BACKWARD = -1"
| "start_index _ _ = 0"

fun start_node :: "'a container \<Rightarrow> ds_iter_type \<Rightarrow> nat option" where
  "start_node (LLIST l H) ekITER_FORWARD = ll_first l"
| "start_node (LLIST l H) ekITER_BACKWARD = ll_last l"
| "start_node _ _ = None"

definition ds_iter_init :: "'a container \<Rightarrow> ds_iter_type \<Rightarrow> 'a ds_iterator option" where
  "ds_iter_init ds type =
     (case ds of
        OTHER \<Rightarrow> None
      | _ \<Rightarrow> Some \<lparr>it_curr = start_node ds type, it_type = type, it_index = start_index ds type, it_classify = None\<rparr>)"

definition ds_filter_init :: "'a container \<Rightarrow> ('a \<Rightarrow> bool) option \<Rightarrow> 'a ds_iterator option" where
  "ds_filter_init ds f =
     (case ds of
        OTHER \<Rightarrow> None
      | _ \<Rightarrow> Some \<lparr>it_curr = start_node ds ekITER_FORWARD, it_type = ekITER_FORWARD,
                it_index = start_index ds ekITER_FORWARD, it_classify = f\<rparr>)"

text \<open>Whether the element is left out: \<open>iter->classify && !iter->classify(e)\<close>.\<close>

definition rejects :: "('a \<Rightarrow> bool) option \<Rightarrow> 'a option \<Rightarrow> bool option" where
  "rejects classify e = (case classify of None \<Rightarrow> Some False | Some f \<Rightarrow> map_option (\<lambda>x. \<not> f x) e)"

text \<open>
  One round trip of \<open>ds_iter_next\<close> is the loop over the elements that are left out and then the
  return. The result is an element or \<open>NULL\<close>, and the iterator.
\<close>

definition next_darray :: "'a darray \<Rightarrow> 'a ds_iterator \<Rightarrow> ('a option \<times> 'a ds_iterator) option" where
  "next_darray arr it =
     (let elt = (\<lambda>i. rd (da_elements arr) (darray_data_get arr (size_of_int i)));
          more = (\<lambda>i. if it_type it = ekITER_FORWARD then size_of_int i < da_current arr else i \<ge> 0);
          step = (if it_type it = ekITER_FORWARD then 1 else -1) in do {
        i \<leftarrow> while_loop (\<lambda>i. if more i then rejects (it_classify it) (elt i) else Some False) (\<lambda>i. Some (i + step)) (it_index it);
        if more i then do { x \<leftarrow> elt i; Some (Some x, it\<lparr>it_index := i + step\<rparr>) }
        else Some (None, it\<lparr>it_index := i\<rparr>)
      })"

definition node_value :: "'a lheap \<Rightarrow> nat option \<Rightarrow> 'a option" where
  "node_value H p = do { nd \<leftarrow> deref (hp_nodes H) p; elem_at H (nd_data nd) }"

text \<open>The loop always follows the \<open>next\<close> pointers; at the end the iterator stays where it was.\<close>

definition next_llist :: "'a lheap \<Rightarrow> 'a ds_iterator \<Rightarrow> ('a option \<times> 'a ds_iterator) option" where
  "next_llist H it = do {
     p \<leftarrow> while_loop (\<lambda>p. if p \<noteq> None then rejects (it_classify it) (node_value H p) else Some False) (next_node H) (it_curr it);
     if p = None then Some (None, it)
     else do {
       nd \<leftarrow> deref (hp_nodes H) p;
       x \<leftarrow> elem_at H (nd_data nd);
       Some (Some x, it\<lparr>it_curr := (if it_type it = ekITER_FORWARD then nd_next nd else nd_prev nd)\<rparr>)
     }
   }"

text \<open>
  Forward, the slot is computed once, before the loop. Backward, an empty buffer is a division by
  zero.
\<close>

definition rb_elt :: "'a rbuffer \<Rightarrow> nat \<Rightarrow> 'a option" where
  "rb_elt rb idx = rd (rb_elements rb) (int (rbuffer_data_get rb idx))"

definition back_index :: "'a rbuffer \<Rightarrow> int \<Rightarrow> int option" where
  "back_index rb i =
     (if rbuffer_size rb = 0 then None
      else
        let i = (if i = -1 then int_of_size (rb_start rb) else i) in
        Some (int_of_size ((size_of_int i + rbuffer_size rb - 1) mod rbuffer_size rb)))"

definition next_rbuffer :: "'a rbuffer \<Rightarrow> 'a ds_iterator \<Rightarrow> ('a option \<times> 'a ds_iterator) option" where
  "next_rbuffer rb it =
     (if it_type it = ekITER_FORWARD then
        let idx = (rb_start rb + size_of_int (it_index it)) mod rb_max_elts rb in do {
          i \<leftarrow> while_loop (\<lambda>i. if size_of_int i < rb_current rb then rejects (it_classify it) (rb_elt rb idx) else Some False)
            (\<lambda>i. Some (i + 1)) (it_index it);
          if size_of_int i < rb_current rb then do { x \<leftarrow> rb_elt rb idx; Some (Some x, it\<lparr>it_index := i + 1\<rparr>) }
          else Some (None, it\<lparr>it_index := i\<rparr>)
        }
      else do {
        (i, found) \<leftarrow> while_loop (\<lambda>(i, found). Some (found = None \<and> i \<noteq> int_of_size (rb_start rb)))
          (\<lambda>(i, found). do {
             i \<leftarrow> back_index rb i;
             r \<leftarrow> rejects (it_classify it) (rb_elt rb (size_of_int i));
             x \<leftarrow> rb_elt rb (size_of_int i);
             Some (i, if r then None else Some x)
           }) (it_index it, None);
        Some (found, it\<lparr>it_index := i\<rparr>)
      })"

definition ds_iter_next :: "'a container \<Rightarrow> 'a ds_iterator \<Rightarrow> ('a option \<times> 'a ds_iterator) option" where
  "ds_iter_next ds it =
     (case ds of
        DARRAY arr \<Rightarrow> next_darray arr it
      | LLIST l H \<Rightarrow> next_llist H it
      | RBUFFER rb \<Rightarrow> next_rbuffer rb it
      | OTHER \<Rightarrow> Some (None, it))"

text \<open>The elements an iterator returns until the first \<open>NULL\<close>, within \<open>n\<close> calls.\<close>

fun ds_iter_all :: "nat \<Rightarrow> 'a container \<Rightarrow> 'a ds_iterator \<Rightarrow> 'a list option" where
  "ds_iter_all 0 ds it = None"
| "ds_iter_all (Suc n) ds it = do {
     (x, it) \<leftarrow> ds_iter_next ds it;
     case x of None \<Rightarrow> Some [] | Some e \<Rightarrow> map_option (Cons e) (ds_iter_all n ds it)
   }"

subsection \<open>What is visited\<close>

text \<open>The selection of a filter.\<close>

definition selects :: "('a \<Rightarrow> bool) option \<Rightarrow> 'a \<Rightarrow> bool" where
  "selects classify x = (case classify of None \<Rightarrow> True | Some f \<Rightarrow> f x)"

lemma rejects_Some [simp]: "rejects classify (Some x) = Some (\<not> selects classify x)"
  by (simp add: rejects_def selects_def split: option.splits)

text \<open>A container with the elements \<open>xs\<close>.\<close>

fun holds :: "'a container \<Rightarrow> 'a list \<Rightarrow> bool" where
  "holds (DARRAY arr) xs \<longleftrightarrow> da_current arr \<le> length (da_elements arr) \<and> da_current arr < 2 ^ 31 \<and>
     xs = take (da_current arr) (da_elements arr)"
| "holds (LLIST l H) xs \<longleftrightarrow> (\<exists>as ds. llist_ok l H as ds xs)"
| "holds (RBUFFER rb) xs \<longleftrightarrow> rb_wf rb \<and> rb_max_elts rb < 2 ^ 31 \<and> rb_start rb = 0 \<and> xs = rb_content rb \<and> xs \<noteq> []"
| "holds OTHER xs \<longleftrightarrow> False"

text \<open>
  An iterator over \<open>xs\<close> that stands before the suffix \<open>ys\<close> returns the elements it selects, when
  each call skips to the next of them.
\<close>

lemma filter_dropWhile: "filter p (dropWhile (\<lambda>x. \<not> p x) ys) = filter p ys"
  by (induction ys) simp_all

lemma iter_all_steps:
  assumes step: "\<And>it ys. at it ys \<Longrightarrow>
      (case dropWhile (\<lambda>x. \<not> p x) ys of
         [] \<Rightarrow> (\<exists>it'. ds_iter_next ds it = Some (None, it'))
       | y # zs \<Rightarrow> (\<exists>it'. ds_iter_next ds it = Some (Some y, it') \<and> at it' zs))"
    and at: "at it ys" and n: "length ys < n"
  shows "ds_iter_all n ds it = Some (filter p ys)"
  using at n
proof (induction n arbitrary: it ys)
  case (Suc n)
  show ?case
  proof (cases "dropWhile (\<lambda>x. \<not> p x) ys")
    case Nil
    then have "filter p ys = []" by (auto simp: filter_empty_conv dropWhile_eq_Nil_conv)
    then show ?thesis using step [OF Suc.prems(1)] Nil by auto
  next
    case (Cons y zs)
    obtain it' where it': "ds_iter_next ds it = Some (Some y, it')" "at it' zs"
      using step [OF Suc.prems(1)] Cons by auto
    have "p y" using hd_dropWhile [of "\<lambda>x. \<not> p x" ys] Cons by simp
    have f: "filter p ys = filter p (y # zs)" using filter_dropWhile [of p ys] Cons by simp
    have "length (y # zs) \<le> length ys" using length_dropWhile_le [of "\<lambda>x. \<not> p x" ys] Cons by simp
    then have "ds_iter_all n ds it' = Some (filter p zs)" using Suc.IH [OF it'(2)] Suc.prems(2) by simp
    then show ?thesis using it'(1) f \<open>p y\<close> by simp
  qed
qed simp


text \<open>Skipping what a filter rejects, in any structure that is walked position by position.\<close>

lemma skip_loop:
  assumes elt: "\<And>p y ys. at p (y # ys) \<Longrightarrow> going p \<and> elt p = Some y \<and> (\<exists>q. step p = Some q \<and> at q ys)"
    and stop: "\<And>p. at p [] \<Longrightarrow> \<not> going p"
    and at: "at p ys"
  shows "\<exists>q. while_loop (\<lambda>p. if going p then rejects c (elt p) else Some False) step p = Some q \<and>
    at q (dropWhile (\<lambda>x. \<not> selects c x) ys)"
  using at
proof (induction ys arbitrary: p)
  case Nil
  then show ?case using stop [OF Nil] by (subst while_loop.simps) simp
next
  case (Cons y ys)
  obtain q where q: "going p" "elt p = Some y" "step p = Some q" "at q ys" using elt [OF Cons.prems] by blast
  show ?case
  proof (cases "selects c y")
    case True
    then show ?thesis using q Cons.prems by (subst while_loop.simps) simp
  next
    case False
    then show ?thesis using q Cons.IH [OF q(4)] by (subst while_loop.simps) simp
  qed
qed

lemma no_skip:
  "c = None \<Longrightarrow> while_loop (\<lambda>p. if going p then rejects c (elt p) else Some False) step p = Some p"
  by (subst while_loop.simps) (simp add: rejects_def)

subsection \<open>Arrays\<close>

lemma selects_None [simp]: "selects None = (\<lambda>_. True)"
  by (simp add: selects_def fun_eq_iff)

lemma dropWhile_none [simp]: "dropWhile (\<lambda>x. False) ys = ys"
  by (cases ys) simp_all

definition arr_elt :: "'a darray \<Rightarrow> int \<Rightarrow> 'a option" where
  "arr_elt arr i = rd (da_elements arr) (darray_data_get arr (size_of_int i))"

lemma arr_elt_ok:
  assumes "holds (DARRAY arr) xs" and "j < length xs"
  shows "arr_elt arr (int j) = Some (xs ! j)"
  using assms by (simp add: arr_elt_def darray_data_get_def)

lemma darray_forward:
  fixes it :: "'a ds_iterator"
  assumes h: "holds (DARRAY arr) xs" and n: "length xs < n"
    and it: "it_type it = ekITER_FORWARD" "it_index it = 0" "it_classify it = f"
  shows "ds_iter_all n (DARRAY arr) it = Some (filter (selects f) xs)"
proof (rule iter_all_steps [where at = "\<lambda>it ys. it_type it = ekITER_FORWARD \<and> it_classify it = f \<and>
    (\<exists>j \<le> length xs. it_index it = int j \<and> ys = drop j xs)", OF _ _ n])
  let ?n = "length xs"
  have cur: "da_current arr = ?n" "?n < 2 ^ 31" using h by auto
  let ?pos = "\<lambda>i ys. \<exists>j \<le> ?n. i = int j \<and> ys = drop j xs"
  let ?at = "\<lambda>(it :: 'a ds_iterator) ys. it_type it = ekITER_FORWARD \<and> it_classify it = f \<and> ?pos (it_index it) ys"
  have s: "size_of_int i < ?n \<and> arr_elt arr i = Some y \<and> (\<exists>q. Some (i + 1) = Some q \<and> ?pos q ys)" if "?pos i (y # ys)" for i y ys
  proof -
    from that obtain j where j: "j \<le> ?n" "i = int j" "y # ys = drop j xs" by (elim exE conjE)
    have "drop j xs \<noteq> []" unfolding j(3) [symmetric] by simp
    then have lt: "j < ?n" by simp
    have "xs ! j # drop (Suc j) xs = y # ys" using j(3) Cons_nth_drop_Suc [OF lt] by metis
    then have y: "y = xs ! j" "ys = drop (Suc j) xs" by blast+
    have "?pos (i + 1) ys" using y(2) j(2) lt by (intro exI [of _ "Suc j"]) simp
    moreover have "size_of_int i < ?n" "arr_elt arr i = Some y" using arr_elt_ok [OF h lt] lt j(2) cur(2) y(1) by simp_all
    ultimately show ?thesis by simp
  qed
  have e: "\<not> size_of_int i < ?n" if "?pos i []" for i using that cur(2) by auto
  show "?at it xs" using it by (auto intro: exI [of _ 0])
  fix it :: "'a ds_iterator" and ys assume a: "?at it ys"
  have cf: "it_classify it = f" using a by simp
  obtain q where q: "while_loop (\<lambda>i. if size_of_int i < ?n then rejects (it_classify it) (arr_elt arr i) else Some False) (\<lambda>i. Some (i + 1)) (it_index it) = Some q"
      "?pos q (dropWhile (\<lambda>x. \<not> selects f x) ys)"
    using skip_loop [where at = ?pos and going = "\<lambda>i. size_of_int i < ?n" and elt = "arr_elt arr" and step = "\<lambda>i. Some (i + 1)"
        and p = "it_index it" and ys = ys and c = "it_classify it", OF s e] a unfolding cf by blast
  show "case dropWhile (\<lambda>x. \<not> selects f x) ys of
       [] \<Rightarrow> (\<exists>it'. ds_iter_next (DARRAY arr) it = Some (None, it'))
     | y # zs \<Rightarrow> (\<exists>it'. ds_iter_next (DARRAY arr) it = Some (Some y, it') \<and> ?at it' zs)"
  proof (cases "dropWhile (\<lambda>x. \<not> selects f x) ys")
    case Nil
    then have "?pos q []" using q(2) by (simp only:)
    then show ?thesis unfolding Nil using q(1) e [of q] a cur(1) by (simp add: ds_iter_next_def next_darray_def arr_elt_def [symmetric] Let_def)
  next
    case (Cons y zs)
    then have "?pos q (y # zs)" using q(2) by simp
    then have "size_of_int q < ?n" "arr_elt arr q = Some y" "?pos (q + 1) zs" using s [of q y zs] by blast+
    then show ?thesis using q(1) a Cons cur(1) by (simp add: ds_iter_next_def next_darray_def arr_elt_def [symmetric] Let_def)
  qed
qed

lemma darray_backward:
  fixes it :: "'a ds_iterator"
  assumes h: "holds (DARRAY arr) xs" and n: "length xs < n"
    and it: "it_type it = ekITER_BACKWARD" "it_index it = int (length xs) - 1" "it_classify it = None"
  shows "ds_iter_all n (DARRAY arr) it = Some (rev xs)"
proof -
  let ?at = "\<lambda>(it :: 'a ds_iterator) ys. it_type it = ekITER_BACKWARD \<and> it_classify it = None \<and>
    (\<exists>j \<le> length xs. it_index it = int j - 1 \<and> ys = rev (take j xs))"
  have "ds_iter_all n (DARRAY arr) it = Some (filter (selects None) (rev xs))"
  proof (rule iter_all_steps [where at = ?at])
    show "?at it (rev xs)" using it by (auto intro!: exI [of _ "length xs"])
    show "length (rev xs) < n" using n by simp
    fix it :: "'a ds_iterator" and ys assume a: "?at it ys"
    then obtain j where j: "j \<le> length xs" "it_index it = int j - 1" "ys = rev (take j xs)" by blast
    show "case dropWhile (\<lambda>x. \<not> selects None x) ys of
         [] \<Rightarrow> (\<exists>it'. ds_iter_next (DARRAY arr) it = Some (None, it'))
       | y # zs \<Rightarrow> (\<exists>it'. ds_iter_next (DARRAY arr) it = Some (Some y, it') \<and> ?at it' zs)"
    proof (cases j)
      case 0
      then show ?thesis using j a by (simp add: ds_iter_next_def next_darray_def Let_def no_skip)
    next
      case (Suc k)
      then have k: "k < length xs" "it_index it = int k" "ys = xs ! k # rev (take k xs)"
        using j by (simp_all add: take_Suc_conv_app_nth)
      then show ?thesis using a arr_elt_ok [OF h k(1)]
        by (auto simp: ds_iter_next_def next_darray_def Let_def arr_elt_def [symmetric] no_skip intro!: exI [of _ k])
    qed
  qed
  then show ?thesis by simp
qed

subsection \<open>Lists\<close>

text \<open>What is left to walk, forward and backward.\<close>

definition left_forward :: "'a lheap \<Rightarrow> nat option \<Rightarrow> 'a list \<Rightarrow> bool" where
  "left_forward H p ys \<longleftrightarrow> (\<exists>as ds. lseg (hp_nodes H) p as None \<and> chain_data (hp_nodes H) as ds \<and> map (hp_blocks H) ds = map Some ys)"

definition left_backward :: "'a lheap \<Rightarrow> nat option \<Rightarrow> 'a list \<Rightarrow> bool" where
  "left_backward H p ys \<longleftrightarrow> (\<exists>as ds. prevs (hp_nodes H) None as \<and> p = last_of None as \<and> chain_data (hp_nodes H) as ds \<and>
     map (hp_blocks H) ds = map Some (rev ys))"

lemma left_forward_Nil: "left_forward H p [] \<Longrightarrow> p = None"
  by (auto simp: left_forward_def chain_data_def)

lemma left_backward_Nil: "left_backward H p [] \<Longrightarrow> p = None"
  by (auto simp: left_backward_def chain_data_def)

lemma left_forward_Cons:
  assumes "left_forward H p (y # ys)"
  shows "\<exists>nd. deref (hp_nodes H) p = Some nd \<and> elem_at H (nd_data nd) = Some y \<and> left_forward H (nd_next nd) ys"
proof -
  obtain as ds where l: "lseg (hp_nodes H) p as None" "chain_data (hp_nodes H) as ds" "map (hp_blocks H) ds = map Some (y # ys)"
    using assms by (auto simp: left_forward_def)
  obtain d es where ds: "ds = d # es" "hp_blocks H d = Some y" "map (hp_blocks H) es = map Some ys" using l(3) by (cases ds) auto
  obtain a bs where as: "as = a # bs" using l(2) ds(1) by (cases as) (auto simp: chain_data_def)
  obtain nd where nd: "p = Some a" "hp_nodes H a = Some nd" "lseg (hp_nodes H) (nd_next nd) bs None"
    using l(1) as by (auto split: option.splits)
  moreover have "nd_data nd = Some d" "chain_data (hp_nodes H) bs es" using l(2) as ds(1) nd(2) by (simp_all add: chain_data_def)
  ultimately show ?thesis using ds(2,3) by (auto simp: deref_def elem_at_def left_forward_def)
qed

lemma left_backward_Cons:
  assumes "left_backward H p (y # ys)"
  shows "\<exists>nd. deref (hp_nodes H) p = Some nd \<and> elem_at H (nd_data nd) = Some y \<and> left_backward H (nd_prev nd) ys"
proof -
  obtain as ds where l: "prevs (hp_nodes H) None as" "p = last_of None as" "chain_data (hp_nodes H) as ds"
      "map (hp_blocks H) ds = map Some (rev (y # ys))" using assms by (auto simp: left_backward_def)
  obtain es d where ds: "ds = es @ [d]" "hp_blocks H d = Some y" "map (hp_blocks H) es = map Some (rev ys)"
    using l(4) by (cases ds rule: rev_cases) auto
  obtain bs a where as: "as = bs @ [a]" using l(3) ds(1) by (cases as rule: rev_cases) (auto simp: chain_data_def)
  have lens: "length es = length bs" using chain_data_length [OF l(3)] ds(1) as by simp
  obtain nd where nd: "hp_nodes H a = Some nd" "nd_prev nd = last_of None bs" "prevs (hp_nodes H) None bs"
    using l(1) as by (auto simp: prevs_append split: option.splits)
  moreover have "nd_data nd = Some d" "chain_data (hp_nodes H) bs es" using l(3) as ds(1) nd(1) lens by (simp_all add: chain_data_def)
  ultimately show ?thesis using ds(2,3) l(2) as by (auto simp: deref_def elem_at_def left_backward_def)
qed

lemma llist_forward:
  fixes it :: "'a ds_iterator"
  assumes "left_forward H (it_curr it) xs" and n: "length xs < n" and it: "it_type it = ekITER_FORWARD" "it_classify it = f"
  shows "ds_iter_all n (LLIST l H) it = Some (filter (selects f) xs)"
proof (rule iter_all_steps [OF _ _ n])
  let ?at = "\<lambda>(it :: 'a ds_iterator) ys. it_type it = ekITER_FORWARD \<and> it_classify it = f \<and> left_forward H (it_curr it) ys"
  have s: "p \<noteq> None \<and> node_value H p = Some y \<and> (\<exists>q. next_node H p = Some q \<and> left_forward H q ys)" if "left_forward H p (y # ys)" for p y ys
    using left_forward_Cons [OF that] by (cases p) (auto simp: node_value_def next_node_def deref_def)
  show "?at it xs" using assms by simp
  fix it :: "'a ds_iterator" and ys assume a: "?at it ys"
  have cf: "it_classify it = f" using a by simp
  obtain q where q: "while_loop (\<lambda>p. if p \<noteq> None then rejects (it_classify it) (node_value H p) else Some False) (next_node H) (it_curr it) = Some q"
      "left_forward H q (dropWhile (\<lambda>x. \<not> selects f x) ys)"
    using skip_loop [where at = "left_forward H" and going = "\<lambda>p. p \<noteq> None" and elt = "node_value H" and step = "next_node H"
        and p = "it_curr it" and ys = ys and c = "it_classify it", OF s] left_forward_Nil a unfolding cf by blast
  show "case dropWhile (\<lambda>x. \<not> selects f x) ys of
       [] \<Rightarrow> (\<exists>it'. ds_iter_next (LLIST l H) it = Some (None, it'))
     | y # zs \<Rightarrow> (\<exists>it'. ds_iter_next (LLIST l H) it = Some (Some y, it') \<and> ?at it' zs)"
  proof (cases "dropWhile (\<lambda>x. \<not> selects f x) ys")
    case Nil
    then have "left_forward H q []" using q(2) by (simp only:)
    then show ?thesis unfolding Nil using q(1) left_forward_Nil [of H q] a by (simp add: ds_iter_next_def next_llist_def no_skip)
  next
    case (Cons y zs)
    then obtain nd where "deref (hp_nodes H) q = Some nd" "elem_at H (nd_data nd) = Some y" "left_forward H (nd_next nd) zs"
      using q(2) left_forward_Cons by metis
    then show ?thesis using q(1) a Cons by (cases q) (auto simp: ds_iter_next_def next_llist_def no_skip deref_def)
  qed
qed

lemma llist_backward:
  fixes it :: "'a ds_iterator"
  assumes "left_backward H (it_curr it) xs" and n: "length xs < n" and it: "it_type it = ekITER_BACKWARD" "it_classify it = None"
  shows "ds_iter_all n (LLIST l H) it = Some xs"
proof -
  let ?at = "\<lambda>(it :: 'a ds_iterator) ys. it_type it = ekITER_BACKWARD \<and> it_classify it = None \<and> left_backward H (it_curr it) ys"
  have "ds_iter_all n (LLIST l H) it = Some (filter (selects None) xs)"
  proof (rule iter_all_steps [where at = ?at, OF _ _ n])
    show "?at it xs" using assms by simp
    fix it :: "'a ds_iterator" and ys assume a: "?at it ys"
    show "case dropWhile (\<lambda>x. \<not> selects None x) ys of
         [] \<Rightarrow> (\<exists>it'. ds_iter_next (LLIST l H) it = Some (None, it'))
       | y # zs \<Rightarrow> (\<exists>it'. ds_iter_next (LLIST l H) it = Some (Some y, it') \<and> ?at it' zs)"
    proof (cases ys)
      case Nil
      then show ?thesis using left_backward_Nil [of H "it_curr it"] a by (simp add: ds_iter_next_def next_llist_def no_skip)
    next
      case (Cons y zs)
      then obtain nd where "deref (hp_nodes H) (it_curr it) = Some nd" "elem_at H (nd_data nd) = Some y" "left_backward H (nd_prev nd) zs"
        using a left_backward_Cons by metis
      then show ?thesis using a Cons by (cases "it_curr it") (auto simp: ds_iter_next_def next_llist_def no_skip deref_def)
    qed
  qed
  then show ?thesis by simp
qed


subsection \<open>Ring buffers\<close>

lemma rb_elt_ok:
  assumes h: "holds (RBUFFER rb) xs" and j: "j < length xs"
  shows "rb_elt rb j = Some (xs ! j)" "j mod rb_max_elts rb = j"
proof -
  have *: "rb_wf rb" "rb_start rb = 0" "xs = rb_content rb" using h by simp_all
  have len: "length xs = rb_current rb" using *(3) by (simp add: rb_content_def)
  show m: "j mod rb_max_elts rb = j" using j len *(1) by (simp add: rb_wf_def)
  have "xs ! j = rb_elements rb ! j" using j *(2,3) m len by (simp add: rb_content_def rb_slot_def)
  then show "rb_elt rb j = Some (xs ! j)" using j len *(1) m by (simp add: rb_elt_def rbuffer_data_get_def rb_wf_def)
qed

lemma rbuffer_forward:
  fixes it :: "'a ds_iterator"
  assumes h: "holds (RBUFFER rb) xs" and n: "length xs < n"
    and it: "it_type it = ekITER_FORWARD" "it_index it = 0" "it_classify it = None"
  shows "ds_iter_all n (RBUFFER rb) it = Some xs"
proof -
  have cur: "rb_current rb = length xs" "length xs < 2 ^ 31" "rb_start rb = 0" using h by (auto simp: rb_content_def rb_wf_def)
  let ?at = "\<lambda>(it :: 'a ds_iterator) ys. it_type it = ekITER_FORWARD \<and> it_classify it = None \<and>
    (\<exists>j \<le> length xs. it_index it = int j \<and> ys = drop j xs)"
  have "ds_iter_all n (RBUFFER rb) it = Some (filter (selects None) xs)"
  proof (rule iter_all_steps [where at = ?at, OF _ _ n])
    show "?at it xs" using it by (auto intro: exI [of _ 0])
    fix it :: "'a ds_iterator" and ys assume a: "?at it ys"
    then obtain j where j: "j \<le> length xs" "it_index it = int j" "ys = drop j xs" by (elim exE conjE)
    have i: "size_of_int (int j) = j" using j(1) cur(2) by simp
    show "case dropWhile (\<lambda>x. \<not> selects None x) ys of
         [] \<Rightarrow> (\<exists>it'. ds_iter_next (RBUFFER rb) it = Some (None, it'))
       | y # zs \<Rightarrow> (\<exists>it'. ds_iter_next (RBUFFER rb) it = Some (Some y, it') \<and> ?at it' zs)"
    proof (cases "j < length xs")
      case True
      have "ys = xs ! j # drop (Suc j) xs" using Cons_nth_drop_Suc [OF True] j(3) by simp
      moreover have "ds_iter_next (RBUFFER rb) it = Some (Some (xs ! j), it\<lparr>it_index := int j + 1\<rparr>)"
        using a True i j(2) cur rb_elt_ok [OF h True] by (simp add: ds_iter_next_def next_rbuffer_def Let_def no_skip)
      moreover have "?at (it\<lparr>it_index := int j + 1\<rparr>) (drop (Suc j) xs)"
        using a True by (auto intro!: exI [of _ "Suc j"])
      ultimately show ?thesis by simp
    next
      case False
      then show ?thesis using a j i cur by (simp add: ds_iter_next_def next_rbuffer_def Let_def no_skip)
    qed
  qed
  then show ?thesis by simp
qed

text \<open>One step back: to the last slot from the start value of the iterator, else to the one before.\<close>

lemma back_step:
  assumes h: "holds (RBUFFER rb) xs" and i: "i = -1 \<and> k = length xs - 1 \<or> i = int (Suc k) \<and> Suc k < length xs"
  shows "back_index rb i = Some (int k)" "k < length xs"
proof -
  have cur: "rb_current rb = length xs" "length xs < 2 ^ 31" "rb_start rb = 0" "0 < length xs"
    using h by (auto simp: rb_content_def rb_wf_def)
  show k: "k < length xs" using i cur(4) by auto
  have "(Suc k + length xs - 1) mod length xs = k" "(0 + length xs - 1) mod length xs = length xs - 1"
    using k cur(4) by simp_all
  moreover have "size_of_int (int (Suc k)) = Suc k" if "Suc k < length xs" by (rule size_of_int_nat) (use that cur(2) in simp)
  moreover have "size_of_int 0 = 0" by (simp add: size_of_int_def)
  ultimately show "back_index rb i = Some (int k)" using i cur k by (auto simp: back_index_def rbuffer_size_def of_nat_diff Suc_leI simp del: of_nat_Suc)
qed

lemma rbuffer_backward:
  fixes it :: "'a ds_iterator"
  assumes h: "holds (RBUFFER rb) xs" and n: "length xs < n"
    and it: "it_type it = ekITER_BACKWARD" "it_index it = -1" "it_classify it = None"
  shows "ds_iter_all n (RBUFFER rb) it = Some (rev xs)"
proof -
  have cur: "length xs < 2 ^ 31" "rb_start rb = 0" "0 < length xs" using h by (auto simp: rb_content_def rb_wf_def)
  let ?at = "\<lambda>(it :: 'a ds_iterator) ys. it_type it = ekITER_BACKWARD \<and> it_classify it = None \<and>
    (it_index it = -1 \<and> ys = rev xs \<or> (\<exists>j < length xs. it_index it = int j \<and> ys = rev (take j xs)))"
  have nxt: "ds_iter_next (RBUFFER rb) it = Some (Some (xs ! k), it\<lparr>it_index := int k\<rparr>)"
    if a: "it_type it = ekITER_BACKWARD" "it_classify it = None"
      and i: "it_index it = -1 \<and> k = length xs - 1 \<or> it_index it = int (Suc k) \<and> Suc k < length xs" for it :: "'a ds_iterator" and k
  proof -
    note b = back_step [OF h i]
    have "size_of_int (int k) = k" "it_index it \<noteq> int_of_size (rb_start rb)" using b(2) cur i by auto
    then show ?thesis using a b(1) rb_elt_ok(1) [OF h b(2)]
      by (subst ds_iter_next_def, simp add: next_rbuffer_def, subst while_loop.simps, simp, subst while_loop.simps, simp add: rejects_def)
  qed
  have "ds_iter_all n (RBUFFER rb) it = Some (filter (selects None) (rev xs))"
  proof (rule iter_all_steps [where at = ?at])
    show "?at it (rev xs)" using it by simp
    show "length (rev xs) < n" using n by simp
    fix it :: "'a ds_iterator" and ys assume a: "?at it ys"
    have stop: "ds_iter_next (RBUFFER rb) it = Some (None, it)" if "it_index it = 0"
      using a cur that by (subst ds_iter_next_def, simp add: next_rbuffer_def, subst while_loop.simps, simp)
    show "case dropWhile (\<lambda>x. \<not> selects None x) ys of
         [] \<Rightarrow> (\<exists>it'. ds_iter_next (RBUFFER rb) it = Some (None, it'))
       | y # zs \<Rightarrow> (\<exists>it'. ds_iter_next (RBUFFER rb) it = Some (Some y, it') \<and> ?at it' zs)"
    proof (cases "ys = []")
      case True
      then have "it_index it = 0" using a cur(3) by auto
      then show ?thesis using stop True by simp
    next
      case False
      then obtain k where k: "it_index it = -1 \<and> k = length xs - 1 \<or> it_index it = int (Suc k) \<and> Suc k < length xs"
          "ys = rev (take (Suc k) xs)"
      proof -
        consider "it_index it = -1" "ys = rev xs" | j where "j < length xs" "it_index it = int j" "ys = rev (take j xs)"
          using a by blast
        then show thesis
        proof cases
          case 1
          then show thesis using that [of "length xs - 1"] cur(3) by simp
        next
          case (2 j)
          then show thesis using that [of "j - 1"] False by (cases j) auto
        qed
      qed
      have lt: "k < length xs" using back_step(2) [OF h k(1)] .
      then have "ys = xs ! k # rev (take k xs)" using k(2) by (simp add: take_Suc_conv_app_nth)
      then show ?thesis using nxt [OF _ _ k(1)] a lt by auto
    qed
  qed
  then show ?thesis by simp
qed

text \<open>
  An iterator over a dynamic array, a linked list or a ring buffer that starts at its first
  slot returns each element once and in order, forward or backward, and then \<open>NULL\<close>; a filter
  over an array or a list returns the elements its predicate selects.
\<close>

theorem ds_iter_visits_all:
  assumes h: "holds ds xs" and n: "length xs < n"
  shows "(\<exists>it. ds_iter_init ds ekITER_FORWARD = Some it \<and> ds_iter_all n ds it = Some xs) \<and>
    (\<exists>it. ds_iter_init ds ekITER_BACKWARD = Some it \<and> ds_iter_all n ds it = Some (rev xs)) \<and>
    ((\<forall>rb. ds \<noteq> RBUFFER rb) \<longrightarrow> (\<exists>it. ds_filter_init ds (Some f) = Some it \<and> ds_iter_all n ds it = Some (filter f xs)))"
proof (cases ds)
  case (DARRAY arr)
  have "selects (Some f) = f" by (simp add: selects_def fun_eq_iff)
  then show ?thesis using h n DARRAY darray_forward [of arr xs n] darray_backward [of arr xs n]
    by (auto simp: ds_iter_init_def ds_filter_init_def darray_size_def)
next
  case (LLIST l H)
  then obtain as bs where l: "llist_ok l H as bs xs" using h by auto
  then have "left_forward H (ll_first l) xs" "left_backward H (ll_last l) (rev xs)"
    by (auto simp: llist_ok_def list_rep_def left_forward_def left_backward_def)
  moreover have "selects (Some f) = f" by (simp add: selects_def fun_eq_iff)
  ultimately show ?thesis using LLIST n llist_forward [of H _ xs n] llist_backward [of H _ "rev xs" n]
    by (simp add: ds_iter_init_def ds_filter_init_def)
next
  case (RBUFFER rb)
  then have h': "holds (RBUFFER rb) xs" using h by (simp only:)
  then have "int_of_size (rb_start rb) = 0" by simp
  then show ?thesis using rbuffer_forward [OF h' n] rbuffer_backward [OF h' n] RBUFFER by (simp add: ds_iter_init_def)
next
  case OTHER
  then show ?thesis using h by simp
qed

definition three_array :: "int darray" where
  "three_array = \<lparr>da_elements = [4, 5, 6, 0], da_current = 3, da_capacity = 4, da_elt_size = 4, da_sorted = False,
     da_max_elts = -1, da_flags = 0, da_cmpe = None\<rparr>"

theorem ds_iter_visits_all_witness:
  "(\<exists>it. ds_iter_init (DARRAY three_array) ekITER_FORWARD = Some it \<and> ds_iter_all 4 (DARRAY three_array) it = Some [4, 5, 6]) \<and>
    (\<exists>it. ds_iter_init (DARRAY three_array) ekITER_BACKWARD = Some it \<and> ds_iter_all 4 (DARRAY three_array) it = Some (rev [4, 5, 6])) \<and>
    ((\<forall>rb. DARRAY three_array \<noteq> RBUFFER rb) \<longrightarrow> (\<exists>it. ds_filter_init (DARRAY three_array) (Some even) = Some it \<and>
       ds_iter_all 4 (DARRAY three_array) it = Some (filter even [4, 5, 6])))"
  by (rule ds_iter_visits_all) (simp_all add: three_array_def)

text \<open>
  A buffer that has wrapped around starts elsewhere, and then the iterator goes wrong: forward it
  starts too late, and with one filtered element every later one is left out.
\<close>

definition wrapped_buffer :: "int rbuffer" where
  "wrapped_buffer = \<lparr>rb_cmpe = None, rb_elements = [30, 10, 20], rb_current = 3, rb_max_elts = 3, rb_elt_size = 4,
     rb_start = 1, rb_flags = 0\<rparr>"

declare while_loop.simps [code]

lemma rbuffer_iteration_loses:
  "rb_content wrapped_buffer = [10, 20, 30]"
  "map_option (ds_iter_all 9 (RBUFFER wrapped_buffer)) (ds_iter_init (RBUFFER wrapped_buffer) ekITER_FORWARD) = Some (Some [20, 30])"
  "map_option (ds_iter_all 9 (RBUFFER (wrapped_buffer\<lparr>rb_start := 0\<rparr>)))
     (ds_filter_init (RBUFFER (wrapped_buffer\<lparr>rb_start := 0\<rparr>)) (Some (\<lambda>x. x < 30))) = Some (Some [])"
  by code_simp+

end
