(* ===== verification/Spec2Isabelle.thy ===== *)
theory Spec2Isabelle
  imports Fifo Binheap Utils Checksum Hash Multififo Rawfifo Hashmap Edit_Dist Lcs Mcm Radix
    Strings Stdio Time Mergesort Llist_Correct Tree_Init Rdwrlock Pcqueue Bsem Mpool
    Adj_Matrix Iter
begin

text \<open>
  A verification library for RCSW, a C library of data structures, algorithms, utilities and
  synchronisation objects for embedded systems. Paths are below src/ of the repository; headers
  are in include/rcsw/.

  \<^bold>\<open>The program and its theories.\<close> Almost everything is a handle (a struct), initialised from a
  parameter struct over memory of the application or of \<open>malloc\<close>, and functions on it. Each
  component has a theory with its records, one definition per function and the lemmas about them:

  \<^item> \<open>Rcsw_Prelude\<close>: return codes, flag words, checked accesses, conversions between \<open>int\<close> and
    \<open>size_t\<close>, loops, and \<open>cmp_order\<close>, the contract of comparison callbacks. \<open>Alloc\<close> is
    common/alloc.c and the allocation maps of ds/allocm.c; \<open>Pool\<close> has the facts about blocks of
    the application that lists and trees share.
  \<^item> Sequences: \<open>Rbuffer\<close> (ds/rbuffer.c), \<open>Fifo\<close> (ds/fifo.c, calls of the ring buffer),
    \<open>Multififo\<close> (ds/multififo.c, FIFOs of packets), \<open>Rawfifo\<close>, \<open>Elt\<close> (ds/ds.c, bytes of
    elements), \<open>Darray\<close> (ds/darray.c, which sorts and searches with \<open>Sort\<close> and \<open>Search\<close>),
    \<open>Binheap\<close> (ds/binheap.c, on a dynamic array), \<open>Hashmap\<close> (ds/hashmap.c, buckets that are
    dynamic arrays), \<open>Matrix\<close> and \<open>Adj_Matrix\<close> (ds/matrix.c, ds/adj_matrix.c), \<open>Iter\<close>
    (ds/iter.c).
  \<^item> Lists of nodes on a heap: \<open>Node_Heap\<close>, \<open>Mergesort\<close> (algorithm/sort.c) against the list
    sorts of \<open>Msort_Spec\<close>, \<open>Llist\<close> (ds/llist.c, ds/llist_node.c) and \<open>Llist_Correct\<close>;
    \<open>Ptr_List\<close> is the case of lists of pointers, which \<open>Mpool\<close> uses.
  \<^item> Trees of nodes on a heap: \<open>Tree_Heap\<close> and \<open>Bstree\<close> (ds/bstree.c, bstree_node.c, rbtree.c,
    inttree.c, ostree.c and their node files); \<open>Tree_Shape\<close>, \<open>Tree_Search\<close>, \<open>Rb_Fixup\<close>,
    \<open>Rb_Delete\<close>, \<open>Tree_Update\<close>, \<open>Tree_Remove\<close>, \<open>Tree_Memory\<close>, \<open>Bstree_Correct\<close> and
    \<open>Tree_Init\<close> hold the proofs, from the shape of the heap up to the dictionary.
  \<^item> Algorithms: \<open>Sort\<close>, \<open>Search\<close>, \<open>Radix\<close> (algorithm/sort.c, search.c, algorithm.c);
    \<open>Edit_Dist\<close>, \<open>Lcs\<close>, \<open>Mcm\<close> on the tables of \<open>Dp_Table\<close>.
  \<^item> Utilities: \<open>Utils\<close>, \<open>Checksum\<close>, \<open>Hash\<close>, \<open>Time\<close> (utils/), \<open>Strings\<close>, \<open>Stdio\<close> (stdio/).
  \<^item> Threads: \<open>Sync\<close> (the wrappers of the POSIX primitives), \<open>Rdwrlock\<close>, \<open>Bsem\<close>, \<open>Pcqueue\<close>
    and \<open>Mpool\<close> (multithread/), on the interleavings of \<open>Interleaving\<close>.

  \<^bold>\<open>How the code is modelled.\<close> A pointer or callback the code compares with \<open>NULL\<close> is an
  \<open>option\<close>; a failed precondition returns the error value of the default build; \<open>status\<close> carries
  \<open>errno\<close>. A result \<open>None\<close> is undefined behaviour (an access out of bounds, an \<open>int\<close> overflow,
  \<open>NULL\<close> dereferenced) or a loop that does not end, so a theorem that says \<open>Some\<close> includes memory
  safety and termination. What \<open>malloc\<close>, \<open>realloc\<close>, \<open>random\<close> and the callbacks answer are
  arguments. Checksums, hashes, flags and \<open>uint32_t\<close> arithmetic are machine words.

  \<^bold>\<open>Machine integers.\<close> A \<open>size_t\<close> is a \<open>nat\<close>: it counts elements of one block of memory. An
  \<open>int\<close> result goes through \<open>int32\<close>, which faults on overflow, and a conversion of a \<open>size_t\<close> to
  \<open>int\<close> through \<open>int_of_size\<close>, which wraps. The array sorts and searches compute addresses as
  \<open>int\<close> products of index and element size: \<open>fits sz n\<close> says that \<open>n\<close> elements take less than
  2 GiB, and their theorems assume it; binary search also adds two indices and needs at most
  \<open>2 ^ 30\<close> elements. Allocation maps and pools have fewer than \<open>2 ^ 31\<close> entries for the same
  reason. An interval tree copies \<open>elt_size\<close> bytes of an eight-byte struct, and faults when that
  is more. Loops are structural or well-founded recursion, \<open>for_range\<close>, \<open>while_loop\<close> or partial
  functions whose value for a run that does not end is \<open>None\<close>; none takes a bound on its steps
  (only \<open>ds_iter_all\<close>, which calls an iterator to its end, is given more calls than there are
  elements).

  \<^bold>\<open>Contracts.\<close> Each interface is a locale, its laws proved for the code's model by an
  interpretation: \<open>cmp_order\<close> (a comparison is a total preorder; in \<open>Sort\<close> and \<open>Hashmap\<close>),
  \<open>bounded_fifo\<close> (\<open>Fifo\<close>), \<open>kv_store\<close> (\<open>Hashmap\<close>; it says which additions are refused),
  \<open>priority_queue\<close> (\<open>Binheap\<close>), \<open>ordered_dict\<close> (\<open>Bstree_Correct\<close>), \<open>dp_program\<close>
  (\<open>Edit_Dist\<close>, \<open>Lcs\<close>), \<open>mixing_step\<close> (\<open>Checksum\<close>, \<open>Hash\<close>), \<open>fixup_invariant\<close>
  (\<open>Rb_Delete\<close>), \<open>protocol\<close> (\<open>Rdwrlock\<close>, \<open>Bsem\<close>, \<open>Pcqueue\<close>).

  \<^bold>\<open>What is shown.\<close> C1, C12, C13: plain and red-black trees are dictionaries from their
  initialisation on, and a red-black search is logarithmic. C3, C39, C11: lists refine sequences,
  sorting marks them, both merge sorts are stable. C5, C37: hash maps without probing refine a
  key-value store with full buckets and a bounded number of datablocks. C10, C31, C33: the FIFO
  family. C16 to C22: heaps and dynamic arrays. C14, C15, C28, C38: array sorts and searches.
  C23 to C25: the dynamic programs return optima. C26, C27, C29, C30, C34 to C36: strings,
  numbers, time, words, checksums and hashes. C2, C4, C6 to C9, C40: the locks exclude and do not
  deadlock, the queue between threads keeps the order, the pool hands out no chunk twice, and one
  error path leaves a mutex locked. C32: allocation maps. \<open>Adj_Matrix\<close> and \<open>Iter\<close> end with the
  refinement of graphs to sets of edges and with what iterators visit.

  \<^bold>\<open>Threads.\<close> An operation is the list of its statements; one step is one statement of one
  thread, and any number of threads run in any order. A call of the FIFO by \<open>Pcqueue\<close> is two
  steps, a read of the FIFO and a later write of what the call makes of what it read, so that two
  calls would overwrite each other without the mutex. The operations of \<open>Mpool\<close> change the pool
  only under its mutex and are one step each. POSIX primitives behave as the standard says; a wait
  that a signal interrupts (\<open>EINTR\<close>) is left out, and the locks are not claimed to survive it.

  \<^bold>\<open>Not modelled.\<close> Printing, logging, clocks and build information (output and calls of the
  platform); the vendored printf; sparse matrices and averages in \<open>double\<close>; OpenMP, MPI, threads
  and processes (calls of libraries and of the operating system); the debug monitors (raw
  addresses); the software bus and the matrix that grows. The trees of intervals and of order
  statistics are modelled but only their initialisation is proved.
\<close>

end
